(* ===== verification/Prelude.thy ===== *)
theory Prelude
  imports Complex_Main "HOL-Library.Word" "HOL-Library.Monad_Syntax" "HOL-Library.While_Combinator" "HOL-Library.Signed_Division"
begin

text \<open>
  Shared ground of the development: the named collections of rewrite rules the components
  contribute to, the machine integer ranges of the C++ sources (\<open>int64_t\<close>, \<open>uint32_t\<close>),
  and generic facts on lists, options and words that more than one component uses.
\<close>

named_theorems big_simps \<open>value and well-formedness of the arbitrary precision integers\<close>
named_theorems tree_simps \<open>entries and shape of the collection trees\<close>

section \<open>Machine integer ranges\<close>

definition int64_min :: int where
  "int64_min = - (2 ^ 63)"

definition int64_max :: int where
  "int64_max = 2 ^ 63 - 1"

definition in_int64 :: "int \<Rightarrow> bool" where
  "in_int64 x \<longleftrightarrow> int64_min \<le> x \<and> x \<le> int64_max"

definition u32 :: "nat \<Rightarrow> nat" where
  "u32 n = n mod 2 ^ 32"

definition u16 :: "nat \<Rightarrow> nat" where
  "u16 n = n mod 2 ^ 16"

lemma u32_small [simp]: "n < 2 ^ 32 \<Longrightarrow> u32 n = n"
  by (simp add: u32_def)

lemma u32_less: "u32 n < 2 ^ 32"
  by (simp add: u32_def)

lemma u16_small [simp]: "n < 2 ^ 16 \<Longrightarrow> u16 n = n"
  by (simp add: u16_def)

section \<open>Words\<close>

lemma unat_lt_32: "unat (x :: 32 word) < 2 ^ 32"
  using unsigned_less [where w = x] by simp

lemma unat_lt_64: "unat (x :: 64 word) < 2 ^ 64"
  using unsigned_less [where w = x] by simp

lemma unat_ucast_low32: "unat (ucast (x :: 64 word) :: 32 word) = unat x mod 2 ^ 32"
  by (simp add: unsigned_ucast_eq take_bit_eq_mod)

lemma unat_ucast_up64 [simp]: "unat (ucast (x :: 32 word) :: 64 word) = unat x"
  by (simp add: unsigned_ucast_eq take_bit_nat_eq_self unat_lt_32 less_trans [OF unat_lt_32])

lemma unat_drop_bit_div: "unat (drop_bit n (x :: 'a::len word)) = unat x div 2 ^ n"
proof -
  have "unat (drop_bit n x) = drop_bit n (unat x)"
    by (rule unat_drop_bit_eq)
  then show ?thesis
    by (simp only: drop_bit_eq_div)
qed

lemma unat_drop_32: "unat (drop_bit 32 (x :: 64 word)) = unat x div 2 ^ 32"
  by (rule unat_drop_bit_div)

lemma unat_drop_1: "unat (drop_bit 1 (x :: 'a::len word)) = unat x div 2"
  using unat_drop_bit_div [of 1 x] by simp

lemmas unat_drop_Suc0 = unat_drop_1 [unfolded One_nat_def]

lemma unat_add_small64:
  "unat (x :: 64 word) + unat y < 2 ^ 64 \<Longrightarrow> unat (x + y) = unat x + unat y"
  by (simp add: unat_word_ariths)

lemma unat_mult_small64:
  "unat (x :: 64 word) * unat y < 2 ^ 64 \<Longrightarrow> unat (x * y) = unat x * unat y"
  by (simp add: unat_word_ariths)

lemma uint_of_sint64:
  "uint (v :: 64 word) = (if sint v < 0 then sint v + 2 ^ 64 else sint v)"
proof -
  have "- (2 ^ 63) \<le> sint v" "sint v < 2 ^ 63"
    using sint_ge [of v] sint_lt [of v] by simp_all
  moreover have "uint v = sint v mod 2 ^ 64"
    using uint_sint [of v] by (simp add: take_bit_eq_mod)
  moreover have "sint v mod 2 ^ 64 = (sint v + 2 ^ 64) mod 2 ^ 64" by simp
  ultimately show ?thesis
    by (cases "sint v < 0") (simp_all del: mod_add_self2)
qed

section \<open>Lists\<close>

text \<open>\<open>pop_back\<close> while the last element satisfies a predicate.\<close>

definition popWhile :: "('a \<Rightarrow> bool) \<Rightarrow> 'a list \<Rightarrow> 'a list" where
  "popWhile P xs = rev (dropWhile P (rev xs))"

lemma popWhile_Nil [simp]: "popWhile P [] = []"
  by (simp add: popWhile_def)

lemma popWhile_snoc [simp]: "popWhile P (xs @ [x]) = (if P x then popWhile P xs else xs @ [x])"
  by (simp add: popWhile_def)

lemma popWhile_last: "popWhile P xs \<noteq> [] \<Longrightarrow> \<not> P (last (popWhile P xs))"
  by (induction xs rule: rev_induct) (auto split: if_splits)

lemma popWhile_id: "xs \<noteq> [] \<Longrightarrow> \<not> P (last xs) \<Longrightarrow> popWhile P xs = xs"
  by (induction xs rule: rev_induct) auto

section \<open>Exact arithmetic\<close>

text \<open>
  The contract of an exact number representation: a value function into a commutative ring, a
  well-formedness predicate, and addition, subtraction and multiplication that are exact on
  well-formed numbers. The arbitrary precision integers and the rationals over them both
  implement it; what their clients need of cross multiplication is proved once, here.
\<close>

locale exact_ring =
  fixes val :: "'a \<Rightarrow> 'b::comm_ring_1"
    and ok :: "'a \<Rightarrow> bool"
    and add :: "'a \<Rightarrow> 'a \<Rightarrow> 'a"
    and sub :: "'a \<Rightarrow> 'a \<Rightarrow> 'a"
    and mul :: "'a \<Rightarrow> 'a \<Rightarrow> 'a"
  assumes add_ok: "ok x \<Longrightarrow> ok y \<Longrightarrow> ok (add x y)"
    and add_val: "ok x \<Longrightarrow> ok y \<Longrightarrow> val (add x y) = val x + val y"
    and sub_ok: "ok x \<Longrightarrow> ok y \<Longrightarrow> ok (sub x y)"
    and sub_val: "ok x \<Longrightarrow> ok y \<Longrightarrow> val (sub x y) = val x - val y"
    and mul_ok: "ok x \<Longrightarrow> ok y \<Longrightarrow> ok (mul x y)"
    and mul_val: "ok x \<Longrightarrow> ok y \<Longrightarrow> val (mul x y) = val x * val y"
begin

lemma cross_add:
  assumes "ok a" "ok b" "ok c" "ok d"
  shows "ok (add (mul a b) (mul c d))" "val (add (mul a b) (mul c d)) = val a * val b + val c * val d"
  using assms by (simp_all add: add_ok add_val mul_ok mul_val)

lemma cross_sub:
  assumes "ok a" "ok b" "ok c" "ok d"
  shows "ok (sub (mul a b) (mul c d))" "val (sub (mul a b) (mul c d)) = val a * val b - val c * val d"
  using assms by (simp_all add: sub_ok sub_val mul_ok mul_val)

end

end
