(* ===== verification/Lexer_Token.thy ===== *)
theory Lexer_Token
  imports Prelude
begin

text \<open>
  The tokens of the language and the keyword table (\<open>token.h\<close>, \<open>token_kinds.def\<close> and the first part
  of \<open>lexer.cpp\<close>): token kinds with their names and texts, the character classes, the open
  addressing table of the keywords, and the data a token buffer holds.

  The kinds are grouped as the macros of \<open>token_kinds.def\<close> group them: the tokens without a fixed
  text, the keywords (\<open>Kw\<close>) and the operators and separators (\<open>Pn\<close>). A byte of the source is a
  \<open>char\<close>; offsets are natural numbers, cut to 32 bits where the source casts them to \<open>uint32_t\<close>.
  The two loops that probe the keyword table run over at most as many slots as the table has, and
  \<open>None\<close> would be a loop that has not ended after a full turn; \<open>wordSlot_correct\<close> shows this never
  happens and that the table gives every word what the keyword list gives it.
\<close>

unbundle bit_operations_syntax

section \<open>Token kinds\<close>

datatype Keyword =
    KwAs | KwLet | KwVar | KwFrom | KwFunc | KwType | KwEnum | KwWith | KwConst | KwConstas |
  KwReturn | KwImport | KwExport | KwTypeof | KwUsing | KwNamespace | KwIf | KwThen | KwElse |
  KwMatch | KwCase | KwFor | KwIn | KwYield | KwLoop | KwWhile | KwDo | KwSync | KwStatic | KwNull |
  KwTrue | KwFalse

datatype Punct =
    Semi | Comma | Colon | ColonColon | Dot | DotDot | Ellipsis | LParen | RParen | LBracket |
  RBracket | LBrace | RBrace | LAngle | Lt | Gt | LtEq | Equiv | GtEq | EqEq | NotEq | EqEqEq |
  NotEqEq | Assign | PlusAssign | MinusAssign | StarAssign | SlashAssign | PercentAssign |
  CaretAssign | AtAssign | AmpAssign | PipeAssign | Plus | Minus | Star | Slash | Percent | Caret |
  At | Hash | Amp | Pipe | AmpAmp | PipePipe | Bang | BangBang | Tilde | Question | QuestionQuestion
  | Arrow | FatArrow | Underscore

datatype TokenKind =
    Eof | Error | Command | LineComment | DocComment | BlockComment | Identifier | Integer | Real |
  Imaginary | String | RawString | MultiStr | FString | Kw Keyword | Pn Punct

text \<open>The name and the text of every kind, in the order of the kinds.\<close>

definition kKindText :: "(TokenKind \<times> string \<times> string) list" where
  "kKindText =
     [(Eof, ''Eof'', ''<EOF>''), (Error, ''Error'', ''<error>''), (Command, ''Command'', ''<command>''),
      (LineComment, ''LineComment'', ''<comment>''), (DocComment, ''DocComment'', ''<comment>''),
      (BlockComment, ''BlockComment'', ''<comment>''), (Identifier, ''Identifier'', ''a name''),
      (Integer, ''Integer'', ''a number''), (Real, ''Real'', ''a number''),
      (Imaginary, ''Imaginary'', ''a number''), (String, ''String'', ''a string''),
      (RawString, ''RawString'', ''a string''), (MultiStr, ''MultiStr'', ''a string''),
      (FString, ''FString'', ''a string''), (Kw KwAs, ''KwAs'', ''as''), (Kw KwLet, ''KwLet'', ''let''),
      (Kw KwVar, ''KwVar'', ''var''), (Kw KwFrom, ''KwFrom'', ''from''), (Kw KwFunc, ''KwFunc'', ''func''),
      (Kw KwType, ''KwType'', ''type''), (Kw KwEnum, ''KwEnum'', ''enum''), (Kw KwWith, ''KwWith'', ''with''),
      (Kw KwConst, ''KwConst'', ''const''), (Kw KwConstas, ''KwConstas'', ''constas''),
      (Kw KwReturn, ''KwReturn'', ''return''), (Kw KwImport, ''KwImport'', ''import''),
      (Kw KwExport, ''KwExport'', ''export''), (Kw KwTypeof, ''KwTypeof'', ''typeof''),
      (Kw KwUsing, ''KwUsing'', ''using''), (Kw KwNamespace, ''KwNamespace'', ''namespace''),
      (Kw KwIf, ''KwIf'', ''if''), (Kw KwThen, ''KwThen'', ''then''), (Kw KwElse, ''KwElse'', ''else''),
      (Kw KwMatch, ''KwMatch'', ''match''), (Kw KwCase, ''KwCase'', ''case''), (Kw KwFor, ''KwFor'', ''for''),
      (Kw KwIn, ''KwIn'', ''in''), (Kw KwYield, ''KwYield'', ''yield''), (Kw KwLoop, ''KwLoop'', ''loop''),
      (Kw KwWhile, ''KwWhile'', ''while''), (Kw KwDo, ''KwDo'', ''do''), (Kw KwSync, ''KwSync'', ''sync''),
      (Kw KwStatic, ''KwStatic'', ''static''), (Kw KwNull, ''KwNull'', ''null''), (Kw KwTrue, ''KwTrue'', ''true''),
      (Kw KwFalse, ''KwFalse'', ''false''), (Pn Semi, ''Semi'', '';''), (Pn Comma, ''Comma'', '',''),
      (Pn Colon, ''Colon'', '':''), (Pn ColonColon, ''ColonColon'', ''::''), (Pn Dot, ''Dot'', ''.''),
      (Pn DotDot, ''DotDot'', ''..''), (Pn Ellipsis, ''Ellipsis'', ''...''), (Pn LParen, ''LParen'', ''(''),
      (Pn RParen, ''RParen'', '')''), (Pn LBracket, ''LBracket'', ''[''), (Pn RBracket, ''RBracket'', '']''),
      (Pn LBrace, ''LBrace'', ''{''), (Pn RBrace, ''RBrace'', ''}''), (Pn LAngle, ''LAngle'', ''<''),
      (Pn Lt, ''Lt'', ''<''), (Pn Gt, ''Gt'', ''>''), (Pn LtEq, ''LtEq'', ''<=''), (Pn Equiv, ''Equiv'', ''<=>''),
      (Pn GtEq, ''GtEq'', ''>=''), (Pn EqEq, ''EqEq'', ''==''), (Pn NotEq, ''NotEq'', ''!=''),
      (Pn EqEqEq, ''EqEqEq'', ''===''), (Pn NotEqEq, ''NotEqEq'', ''!==''), (Pn Assign, ''Assign'', ''=''),
      (Pn PlusAssign, ''PlusAssign'', ''+=''), (Pn MinusAssign, ''MinusAssign'', ''-=''),
      (Pn StarAssign, ''StarAssign'', ''*=''), (Pn SlashAssign, ''SlashAssign'', ''/=''),
      (Pn PercentAssign, ''PercentAssign'', ''%=''), (Pn CaretAssign, ''CaretAssign'', ''^=''),
      (Pn AtAssign, ''AtAssign'', ''@=''), (Pn AmpAssign, ''AmpAssign'', ''&=''),
      (Pn PipeAssign, ''PipeAssign'', ''|=''), (Pn Plus, ''Plus'', ''+''), (Pn Minus, ''Minus'', ''-''),
      (Pn Star, ''Star'', ''*''), (Pn Slash, ''Slash'', ''/''), (Pn Percent, ''Percent'', ''%''),
      (Pn Caret, ''Caret'', ''^''), (Pn At, ''At'', ''@''), (Pn Hash, ''Hash'', ''#''), (Pn Amp, ''Amp'', ''&''),
      (Pn Pipe, ''Pipe'', ''|''), (Pn AmpAmp, ''AmpAmp'', ''&&''), (Pn PipePipe, ''PipePipe'', ''||''),
      (Pn Bang, ''Bang'', ''!''), (Pn BangBang, ''BangBang'', ''!!''), (Pn Tilde, ''Tilde'', ''~''),
      (Pn Question, ''Question'', ''?''), (Pn QuestionQuestion, ''QuestionQuestion'', ''??''),
      (Pn Arrow, ''Arrow'', ''->''), (Pn FatArrow, ''FatArrow'', ''=>''), (Pn Underscore, ''Underscore'', ''_'')]"

definition tokenKindName :: "TokenKind \<Rightarrow> string" where
  "tokenKindName kind = fst (the (map_of kKindText kind))"

definition tokenKindText :: "TokenKind \<Rightarrow> string" where
  "tokenKindText kind = snd (the (map_of kKindText kind))"

record KeywordInfo =
  kwText :: string
  kwKind :: TokenKind
  kwGroup :: string

definition keywordTable :: "KeywordInfo list" where
  "keywordTable =
     map (\<lambda>(t, k, g). \<lparr>kwText = t, kwKind = k, kwGroup = g\<rparr>)
     [(''as'', Kw KwAs, ''Type''), (''let'', Kw KwLet, ''Declaration''), (''var'', Kw KwVar, ''Declaration''),
      (''from'', Kw KwFrom, ''Declaration''), (''func'', Kw KwFunc, ''Declaration''),
      (''type'', Kw KwType, ''Declaration''), (''enum'', Kw KwEnum, ''Type''), (''with'', Kw KwWith, ''Declaration''),
      (''const'', Kw KwConst, ''Type''), (''constas'', Kw KwConstas, ''Type''),
      (''return'', Kw KwReturn, ''Control''), (''import'', Kw KwImport, ''Declaration''),
      (''export'', Kw KwExport, ''Declaration''), (''typeof'', Kw KwTypeof, ''Type''),
      (''using'', Kw KwUsing, ''Declaration''), (''namespace'', Kw KwNamespace, ''Declaration''),
      (''if'', Kw KwIf, ''Control''), (''then'', Kw KwThen, ''Control''), (''else'', Kw KwElse, ''Control''),
      (''match'', Kw KwMatch, ''Control''), (''case'', Kw KwCase, ''Control''), (''for'', Kw KwFor, ''Control''),
      (''in'', Kw KwIn, ''Control''), (''yield'', Kw KwYield, ''Control''), (''loop'', Kw KwLoop, ''Control''),
      (''while'', Kw KwWhile, ''Control''), (''do'', Kw KwDo, ''Control''), (''sync'', Kw KwSync, ''Control''),
      (''static'', Kw KwStatic, ''Control''), (''null'', Kw KwNull, ''Literal''), (''true'', Kw KwTrue, ''Literal''),
      (''false'', Kw KwFalse, ''Literal'')]"

definition isKeyword :: "TokenKind \<Rightarrow> bool" where
  "isKeyword kind \<longleftrightarrow> (case kind of Kw _ \<Rightarrow> True | _ \<Rightarrow> False)"

definition isPunctuation :: "TokenKind \<Rightarrow> bool" where
  "isPunctuation kind \<longleftrightarrow> (case kind of Pn _ \<Rightarrow> True | _ \<Rightarrow> False)"

definition isTrivia :: "TokenKind \<Rightarrow> bool" where
  "isTrivia kind \<longleftrightarrow> kind \<in> {Error, Command, LineComment, DocComment, BlockComment}"

section \<open>Character classes\<close>

datatype CharClass = kIllegal | kBlank | kNewline | kIdentStart | kDigit | kQuote | kPunct | kHash

abbreviation newlineChar :: char where
  "newlineChar \<equiv> CHR 0x0A"

definition between :: "char \<Rightarrow> char \<Rightarrow> char \<Rightarrow> bool" where
  "between a c b \<longleftrightarrow> (of_char a :: nat) \<le> of_char c \<and> (of_char c :: nat) \<le> of_char b"

definition charClass :: "char \<Rightarrow> CharClass" where
  "charClass c =
     (if c \<in> {CHR '' '', CHR 0x09, CHR 0x0D, CHR 0x0C} then kBlank
      else if c = newlineChar then kNewline
      else if between (CHR ''a'') c (CHR ''z'') \<or> between (CHR ''A'') c (CHR ''Z'') \<or> c = CHR ''_'' then kIdentStart
      else if between (CHR ''0'') c (CHR ''9'') then kDigit
      else if c \<in> {CHR 0x27, CHR 0x22, CHR 0x60} then kQuote
      else if c \<in> set '';,:.()[]{}<>=+-*/%^@&|!~?'' then kPunct
      else if c = CHR ''#'' then kHash
      else kIllegal)"

definition isIdentPart :: "char \<Rightarrow> bool" where
  "isIdentPart c \<longleftrightarrow> charClass c = kIdentStart \<or> charClass c = kDigit"

definition isDigit :: "char \<Rightarrow> bool" where
  "isDigit c \<longleftrightarrow> between (CHR ''0'') c (CHR ''9'')"

definition isHexDigit :: "char \<Rightarrow> bool" where
  "isHexDigit c \<longleftrightarrow> isDigit c \<or> between (CHR ''a'') c (CHR ''f'') \<or> between (CHR ''A'') c (CHR ''F'')"

section \<open>Keywords\<close>

definition kKeywordSlots :: nat where
  "kKeywordSlots = 256"

definition keywordHash :: "string \<Rightarrow> nat" where
  "keywordHash w =
     (length w * 131 + of_char (w ! 0) * 31 + of_char (w ! (length w - 1)) * 7 + of_char (w ! (length w div 2)) * 3)
       mod kKeywordSlots"

record KeywordSlot =
  slotText :: string
  slotLength :: nat
  slotKind :: TokenKind

text \<open>The probing loops, over at most as many slots as the table has.\<close>

fun freeSlot :: "nat \<Rightarrow> KeywordSlot option list \<Rightarrow> nat \<Rightarrow> nat option" where
  "freeSlot 0 table h = None"
| "freeSlot (Suc k) table h =
     (if table ! h = None then Some h else freeSlot k table ((h + 1) mod kKeywordSlots))"

definition insertKeyword :: "KeywordInfo \<Rightarrow> KeywordSlot option list option \<Rightarrow> KeywordSlot option list option" where
  "insertKeyword info t =
     do { table \<leftarrow> t;
          h \<leftarrow> freeSlot kKeywordSlots table (keywordHash (kwText info));
          Some (table[h := Some \<lparr>slotText = kwText info, slotLength = length (kwText info), slotKind = kwKind info\<rparr>]) }"

definition keywordSlots :: "KeywordSlot option list option" where
  "keywordSlots = fold insertKeyword keywordTable (Some (replicate kKeywordSlots None))"

fun probeWord :: "nat \<Rightarrow> KeywordSlot option list \<Rightarrow> string \<Rightarrow> nat \<Rightarrow> TokenKind option" where
  "probeWord 0 slots w h = None"
| "probeWord (Suc k) slots w h =
     (case slots ! h of
        None \<Rightarrow> Some Identifier
      | Some slot \<Rightarrow> if slotLength slot = length w \<and> slotText slot = w then Some (slotKind slot)
                     else probeWord k slots w ((h + 1) mod kKeywordSlots))"

definition wordSlot :: "string \<Rightarrow> TokenKind option" where
  "wordSlot w = do { slots \<leftarrow> keywordSlots; probeWord kKeywordSlots slots w (keywordHash w) }"

definition classifyWord :: "string \<Rightarrow> TokenKind" where
  "classifyWord w =
     (if length w < 2 \<or> 9 < length w
      then if length w = 1 \<and> w ! 0 = CHR ''_'' then Pn Underscore else Identifier
      else the (wordSlot w))"

definition endsAngleHost :: "TokenKind \<Rightarrow> bool" where
  "endsAngleHost kind \<longleftrightarrow>
     kind \<in> {Identifier, Integer, Real, String, RawString, MultiStr, FString, Kw KwTrue, Kw KwFalse, Kw KwNull,
             Pn RParen, Pn RBracket, Pn RBrace, Pn Gt, Pn Bang}"

section \<open>Tokens, errors and buffers\<close>

definition SpaceBefore :: "8 word" where
  "SpaceBefore = 1"

definition NewlineBefore :: "8 word" where
  "NewlineBefore = 2"

record Token =
  tBegin :: nat
  tEnd :: nat
  tKind :: TokenKind
  tFlags :: "8 word"

definition spaceBefore :: "Token \<Rightarrow> bool" where
  "spaceBefore t \<longleftrightarrow> tFlags t AND SpaceBefore \<noteq> 0"

definition newlineBefore :: "Token \<Rightarrow> bool" where
  "newlineBefore t \<longleftrightarrow> tFlags t AND NewlineBefore \<noteq> 0"

datatype LexErrorKind = IllegalCharacter | InvalidNumber | UnclosedString | UnterminatedComment

record LexError =
  eKind :: LexErrorKind
  eBegin :: nat
  eEnd :: nat

record FStringInterpolation =
  fToken :: nat
  fOpen :: nat
  fExprBegin :: nat
  fExprEnd :: nat
  fSpecBegin :: nat
  fSpecEnd :: nat
  fClose :: nat
  fHasSpec :: bool

record TokenBuffer =
  bufSource :: string
  bufTokens :: "Token list"
  bufErrors :: "LexError list"
  bufInterpolations :: "FStringInterpolation list"
  bufLineStarts :: "nat list"

section \<open>The keyword table is open addressing done right\<close>

text \<open>Every word of the table is reached from its hash over occupied slots only.\<close>

definition reached :: "KeywordSlot option list \<Rightarrow> KeywordSlot \<Rightarrow> nat \<Rightarrow> bool" where
  "reached t e i \<longleftrightarrow> i < kKeywordSlots \<and> t ! ((keywordHash (slotText e) + i) mod kKeywordSlots) = Some e \<and>
     (\<forall>j < i. t ! ((keywordHash (slotText e) + j) mod kKeywordSlots) \<noteq> None)"

definition tableOk :: "(string \<times> TokenKind) list \<Rightarrow> KeywordSlot option list \<Rightarrow> bool" where
  "tableOk ws t \<longleftrightarrow> length t = kKeywordSlots \<and>
     (\<forall>e. Some e \<in> set t \<longleftrightarrow> slotLength e = length (slotText e) \<and> (slotText e, slotKind e) \<in> set ws) \<and>
     (\<forall>e. Some e \<in> set t \<longrightarrow> (\<exists>i. reached t e i)) \<and>
     length (filter (\<lambda>x. x \<noteq> None) t) = length ws"

lemma slots_pos [simp]: "0 < kKeywordSlots" "h mod kKeywordSlots < kKeywordSlots"
  by (simp_all add: kKeywordSlots_def)

lemma freeSlot_spec:
  "length t = kKeywordSlots \<Longrightarrow> h < kKeywordSlots \<Longrightarrow> freeSlot k t h = Some p \<Longrightarrow>
   \<exists>i < k. p = (h + i) mod kKeywordSlots \<and> t ! p = None \<and> (\<forall>j < i. t ! ((h + j) mod kKeywordSlots) \<noteq> None)"
proof (induction k arbitrary: h)
  case (Suc k)
  show ?case
  proof (cases "t ! h = None")
    case True then show ?thesis using Suc.prems by (intro exI [of _ 0]) auto
  next
    case False
    then have "freeSlot k t ((h + 1) mod kKeywordSlots) = Some p" using Suc.prems(3) by (simp only: freeSlot.simps if_False)
    from Suc.IH [OF Suc.prems(1) slots_pos(2) this] obtain i where i: "i < k" "p = ((h + 1) mod kKeywordSlots + i) mod kKeywordSlots"
      "t ! p = None" "\<forall>j < i. t ! (((h + 1) mod kKeywordSlots + j) mod kKeywordSlots) \<noteq> None" by blast
    have eq: "((h + 1) mod kKeywordSlots + j) mod kKeywordSlots = (h + Suc j) mod kKeywordSlots" for j by (simp add: mod_add_left_eq)
    have "t ! ((h + j) mod kKeywordSlots) \<noteq> None" if "j < Suc i" for j
      using that i(4) False Suc.prems(2) eq by (cases j) auto
    then show ?thesis using i(1-3) eq by (intro exI [of _ "Suc i"]) auto
  qed
qed simp

lemma freeSlot_exists:
  "length t = kKeywordSlots \<Longrightarrow> h < kKeywordSlots \<Longrightarrow> \<exists>i < k. t ! ((h + i) mod kKeywordSlots) = None \<Longrightarrow> freeSlot k t h \<noteq> None"
proof (induction k arbitrary: h)
  case (Suc k)
  show ?case
  proof (cases "t ! h = None")
    case False
    obtain i where i: "i < Suc k" "t ! ((h + i) mod kKeywordSlots) = None" using Suc.prems(3) by blast
    then obtain j where j: "i = Suc j" using False Suc.prems(2) by (cases i) auto
    have "((h + 1) mod kKeywordSlots + j) mod kKeywordSlots = (h + i) mod kKeywordSlots" using j by (simp add: mod_add_left_eq)
    then have "freeSlot k t ((h + 1) mod kKeywordSlots) \<noteq> None" 
      using Suc.IH [OF Suc.prems(1) slots_pos(2), of "h + 1"] i j by (metis Suc_less_eq)
    then show ?thesis using False by (simp only: freeSlot.simps if_False not_False_eq_True)
  qed simp
qed simp

lemma slot_distance:
  assumes "h < kKeywordSlots" "p < kKeywordSlots"
  shows "\<exists>i < kKeywordSlots. p = (h + i) mod kKeywordSlots"
proof (cases "h \<le> p")
  case True then show ?thesis using assms by (intro exI [of _ "p - h"]) auto
next
  case False then show ?thesis using assms by (intro exI [of _ "p + kKeywordSlots - h"]) auto
qed

lemma count_update:
  "i < length t \<Longrightarrow> t ! i = None \<Longrightarrow> length (filter (\<lambda>x. x \<noteq> None) (t[i := Some e])) = Suc (length (filter (\<lambda>x. x \<noteq> None) t))"
proof (induction t arbitrary: i)
  case (Cons a t) then show ?case by (cases i) auto
qed simp

lemma insertKeyword_ok:
  assumes ok: "tableOk ws t" and small: "length ws < kKeywordSlots" and new: "kwText info \<notin> fst ` set ws"
  shows "\<exists>t'. insertKeyword info (Some t) = Some t' \<and> tableOk ((kwText info, kwKind info) # ws) t'"
proof -
  let ?w = "kwText info" let ?h = "keywordHash ?w"
  let ?e = "\<lparr>slotText = ?w, slotLength = length ?w, slotKind = kwKind info\<rparr>"
  have len: "length t = kKeywordSlots" and cnt: "length (filter (\<lambda>x. x \<noteq> None) t) = length ws" using ok by (auto simp: tableOk_def)
  have h: "?h < kKeywordSlots" by (simp add: keywordHash_def)
  have "\<exists>p < kKeywordSlots. t ! p = None"
  proof (rule ccontr)
    assume "\<not> ?thesis"
    then have "\<forall>x \<in> set t. x \<noteq> None" using len by (auto simp: in_set_conv_nth)
    then have "filter (\<lambda>x. x \<noteq> None) t = t" by simp
    then show False using cnt len small by simp
  qed
  then have "\<exists>i < kKeywordSlots. t ! ((?h + i) mod kKeywordSlots) = None" using slot_distance [OF h] by metis
  then obtain p where p: "freeSlot kKeywordSlots t ?h = Some p" using freeSlot_exists [OF len h] by blast
  from freeSlot_spec [OF len h p] obtain i where i: "i < kKeywordSlots" "p = (?h + i) mod kKeywordSlots" "t ! p = None"
    "\<forall>j < i. t ! ((?h + j) mod kKeywordSlots) \<noteq> None" by blast
  let ?t = "t[p := Some ?e]"
  have pl: "p < length t" using i(2) len by simp
  have keep: "t ! q \<noteq> None \<Longrightarrow> ?t ! q = t ! q" for q using i(3) pl by (cases "q = p") auto
  have nz: "t ! q \<noteq> None \<Longrightarrow> ?t ! q \<noteq> None" for q using keep by metis
  have st: "Some e \<in> set ?t \<longleftrightarrow> e = ?e \<or> Some e \<in> set t" for e
  proof
    assume "Some e \<in> set ?t"
    then show "e = ?e \<or> Some e \<in> set t" using set_update_subset_insert [of t p "Some ?e"] by auto
  next
    assume "e = ?e \<or> Some e \<in> set t"
    then show "Some e \<in> set ?t"
    proof
      assume "e = ?e" then show ?thesis using pl by (simp add: set_update_memI)
    next
      assume "Some e \<in> set t"
      then obtain q where "q < length t" "t ! q = Some e" by (auto simp: in_set_conv_nth)
      then show ?thesis using keep [of q] by (metis length_list_update nth_mem option.distinct(1))
    qed
  qed
  have r: "\<exists>i. reached ?t e i" if "Some e \<in> set ?t" for e
  proof (cases "e = ?e")
    case True
    have "reached ?t ?e i" unfolding reached_def using i pl nz by auto
    then show ?thesis using True by blast
  next
    case False
    then have "Some e \<in> set t" using that st by blast
    then obtain k where k: "reached t e k" using ok unfolding tableOk_def by blast
    then have "reached ?t e k" unfolding reached_def using keep nz by (metis option.distinct(1))
    then show ?thesis by blast
  qed
  have "tableOk ((?w, kwKind info) # ws) ?t"
    unfolding tableOk_def using st r len cnt count_update [OF pl i(3)] ok by (auto simp: tableOk_def)
  moreover have "insertKeyword info (Some t) = Some ?t" using p by (simp add: insertKeyword_def)
  ultimately show ?thesis by blast
qed

lemma keywords_ok:
  assumes "distinct (map kwText (rev is @ []) @ map fst ws)" "tableOk ws t" "length is + length ws \<le> kKeywordSlots"
  shows "\<exists>t'. fold insertKeyword is (Some t) = Some t' \<and> tableOk (map (\<lambda>i. (kwText i, kwKind i)) (rev is) @ ws) t'"
  using assms
proof (induction "is" arbitrary: ws t)
  case (Cons i "is")
  have "kwText i \<notin> fst ` set ws" "length ws < kKeywordSlots" using Cons.prems by auto
  then obtain t1 where t1: "insertKeyword i (Some t) = Some t1" "tableOk ((kwText i, kwKind i) # ws) t1"
    using insertKeyword_ok [OF Cons.prems(2)] by blast
  have "distinct (map kwText (rev is @ []) @ map fst ((kwText i, kwKind i) # ws))" using Cons.prems(1) by auto
  from Cons.IH [OF this t1(2)] Cons.prems(3) show ?case using t1(1) by auto
qed simp

lemma probeWord_spec:
  assumes "length t = kKeywordSlots" "h < kKeywordSlots" "i < k"
    "\<forall>j < i. \<exists>e. t ! ((h + j) mod kKeywordSlots) = Some e \<and> \<not> (slotLength e = length w \<and> slotText e = w)"
  shows "probeWord k t w h =
    (case t ! ((h + i) mod kKeywordSlots) of
       None \<Rightarrow> Some Identifier
     | Some e \<Rightarrow> if slotLength e = length w \<and> slotText e = w then Some (slotKind e)
                else probeWord (k - i - 1) t w ((h + i + 1) mod kKeywordSlots))"
  using assms(2-4)
proof (induction i arbitrary: h k)
  case 0
  then obtain k' where "k = Suc k'" by (cases k) auto
  then show ?case using "0.prems"(1) by (auto split: option.splits)
next
  case (Suc i)
  obtain k' where k: "k = Suc k'" using Suc.prems(2) by (cases k) auto
  obtain e where e: "t ! h = Some e" "\<not> (slotLength e = length w \<and> slotText e = w)"
    using Suc.prems(3) [rule_format, of 0] Suc.prems(1) by auto
  have eq: "((h + 1) mod kKeywordSlots + j) mod kKeywordSlots = (h + Suc j) mod kKeywordSlots" for j by (simp add: mod_add_left_eq)
  have "probeWord k t w h = probeWord k' t w ((h + 1) mod kKeywordSlots)"
    using e(2) by (simp only: k probeWord.simps e(1) option.case if_False)
  also have "\<dots> = (case t ! (((h + 1) mod kKeywordSlots + i) mod kKeywordSlots) of
       None \<Rightarrow> Some Identifier
     | Some e \<Rightarrow> if slotLength e = length w \<and> slotText e = w then Some (slotKind e)
                else probeWord (k' - i - 1) t w (((h + 1) mod kKeywordSlots + i + 1) mod kKeywordSlots))"
  proof (rule Suc.IH)
    show "\<forall>j < i. \<exists>e. t ! (((h + 1) mod kKeywordSlots + j) mod kKeywordSlots) = Some e \<and> \<not> (slotLength e = length w \<and> slotText e = w)"
      unfolding eq using Suc.prems(3) by auto
  qed (use Suc.prems(2) k in auto)
  also have "((h + 1) mod kKeywordSlots + i + 1) mod kKeywordSlots = (h + Suc i + 1) mod kKeywordSlots"
    using eq [of "i + 1"] by simp
  finally show ?case unfolding eq k diff_Suc_Suc .
qed

lemma keyword_words:
  "distinct (map kwText keywordTable)" "length keywordTable = 32"
  "\<forall>k \<in> set keywordTable. 2 \<le> length (kwText k) \<and> length (kwText k) \<le> 9"
  by (simp_all add: keywordTable_def)

lemma keywordSlots_ok:
  "\<exists>t. keywordSlots = Some t \<and> tableOk (map (\<lambda>i. (kwText i, kwKind i)) (rev keywordTable)) t"
proof -
  have "tableOk [] (replicate kKeywordSlots None)" by (auto simp: tableOk_def)
  moreover have "distinct (map kwText (rev keywordTable @ []) @ map fst ([] :: (string \<times> TokenKind) list))"
    using keyword_words(1) by (simp add: rev_map [symmetric])
  ultimately show ?thesis
    using keywords_ok [of keywordTable "[]"] keyword_words(2) by (simp add: keywordSlots_def kKeywordSlots_def)
qed

lemma probe_first:
  assumes t: "length t = kKeywordSlots" and h: "h < kKeywordSlots" and ex: "\<exists>i < kKeywordSlots. Q (t ! ((h + i) mod kKeywordSlots))"
    and Q: "\<And>x. Q x \<longleftrightarrow> (case x of None \<Rightarrow> True | Some e \<Rightarrow> slotLength e = length w \<and> slotText e = w)"
  shows "\<exists>i < kKeywordSlots. Q (t ! ((h + i) mod kKeywordSlots)) \<and>
    (\<forall>j < i. \<not> Q (t ! ((h + j) mod kKeywordSlots))) \<and>
    probeWord kKeywordSlots t w h =
      Some (case t ! ((h + i) mod kKeywordSlots) of None \<Rightarrow> Identifier | Some e \<Rightarrow> slotKind e)"
proof -
  define i where "i = (LEAST i. i < kKeywordSlots \<and> Q (t ! ((h + i) mod kKeywordSlots)))"
  have i: "i < kKeywordSlots" "Q (t ! ((h + i) mod kKeywordSlots))"
    using LeastI_ex [OF ex] unfolding i_def by auto
  have before: "\<not> Q (t ! ((h + j) mod kKeywordSlots))" if "j < i" for j
    using not_less_Least [OF that [unfolded i_def]] that i(1) by auto
  have "\<forall>j < i. \<exists>e. t ! ((h + j) mod kKeywordSlots) = Some e \<and> \<not> (slotLength e = length w \<and> slotText e = w)"

  proof (intro allI impI)
    fix j assume "j < i"
    then have "\<not> Q (t ! ((h + j) mod kKeywordSlots))" by (rule before)
    then show "\<exists>e. t ! ((h + j) mod kKeywordSlots) = Some e \<and> \<not> (slotLength e = length w \<and> slotText e = w)"
      unfolding Q by (cases "t ! ((h + j) mod kKeywordSlots)") simp_all
  qed
  from probeWord_spec [OF t h i(1) this] i(2)
  have "probeWord kKeywordSlots t w h = Some (case t ! ((h + i) mod kKeywordSlots) of None \<Rightarrow> Identifier | Some e \<Rightarrow> slotKind e)"
    unfolding Q by (cases "t ! ((h + i) mod kKeywordSlots)") simp_all
  then show ?thesis using i before by blast
qed

lemma wordSlot_correct:
  "wordSlot w = Some (case map_of (map (\<lambda>i. (kwText i, kwKind i)) keywordTable) w of None \<Rightarrow> Identifier | Some k \<Rightarrow> k)"
proof -
  let ?ws = "map (\<lambda>i. (kwText i, kwKind i)) (rev keywordTable)" let ?h = "keywordHash w"
  let ?Q = "\<lambda>x :: KeywordSlot option. case x of None \<Rightarrow> True | Some e \<Rightarrow> slotLength e = length w \<and> slotText e = w"
  obtain t where t: "keywordSlots = Some t" "tableOk ?ws t" using keywordSlots_ok by blast
  have len: "length t = kKeywordSlots" and few: "length (filter (\<lambda>x. x \<noteq> None) t) = 32"
    and mem: "Some e \<in> set t \<longleftrightarrow> slotLength e = length (slotText e) \<and> (slotText e, slotKind e) \<in> set ?ws"
    and rch: "Some e \<in> set t \<Longrightarrow> \<exists>i. reached t e i" for e
    using t(2) keyword_words(2) by (auto simp: tableOk_def)
  have h: "?h < kKeywordSlots" by (simp add: keywordHash_def)
  have in_t: "t ! (p mod kKeywordSlots) = Some e \<Longrightarrow> Some e \<in> set t" for p e
    using nth_mem [of "p mod kKeywordSlots" t] len by simp
  have d: "distinct (map fst ?ws)" using keyword_words(1) by (simp add: rev_map [symmetric] comp_def)
  have look: "map_of (map (\<lambda>i. (kwText i, kwKind i)) keywordTable) w = Some k \<longleftrightarrow> (w, k) \<in> set ?ws" for k
    using keyword_words(1) by (subst map_of_eq_Some_iff) (simp_all add: comp_def)
  have "\<exists>p < kKeywordSlots. t ! p = None"
  proof (rule ccontr)
    assume "\<not> ?thesis"
    then have "\<forall>x \<in> set t. x \<noteq> None" using len by (auto simp: in_set_conv_nth)
    then have "filter (\<lambda>x. x \<noteq> None) t = t" by simp
    then show False using few len by (simp add: kKeywordSlots_def)
  qed
  then have "\<exists>i < kKeywordSlots. ?Q (t ! ((?h + i) mod kKeywordSlots))" using slot_distance [OF h] by (metis option.simps(4))
  from probe_first [OF len h this refl] obtain i where i: "i < kKeywordSlots" "?Q (t ! ((?h + i) mod kKeywordSlots))"
    "\<forall>j < i. \<not> ?Q (t ! ((?h + j) mod kKeywordSlots))"
    "probeWord kKeywordSlots t w ?h = Some (case t ! ((?h + i) mod kKeywordSlots) of None \<Rightarrow> Identifier | Some e \<Rightarrow> slotKind e)"
    by blast
  show ?thesis
  proof (cases "t ! ((?h + i) mod kKeywordSlots)")
    case (Some e)
    then have "slotText e = w" using i(2) by simp
    then have "(w, slotKind e) \<in> set ?ws" using in_t [OF Some] mem by blast
    then have "map_of (map (\<lambda>i. (kwText i, kwKind i)) keywordTable) w = Some (slotKind e)" using look by simp
    then show ?thesis unfolding wordSlot_def t(1) using i(4) Some by simp
  next
    case None
    have "map_of (map (\<lambda>i. (kwText i, kwKind i)) keywordTable) w = None"
    proof (rule ccontr)
      assume "\<not> ?thesis"
      then obtain k where k: "(w, k) \<in> set ?ws" using look by auto
      let ?e = "\<lparr>slotText = w, slotLength = length w, slotKind = k\<rparr>"
      obtain m where m: "reached t ?e m" using rch [of ?e] mem [of ?e] k by auto
      have "m \<le> i"
      proof (rule ccontr)
        assume "\<not> m \<le> i"
        then have "t ! ((?h + i) mod kKeywordSlots) \<noteq> None" using m unfolding reached_def by auto
        then show False using None by simp
      qed
      show False
      proof (cases "m = i")
        case True then show ?thesis using m None by (simp add: reached_def)
      next
        case False
        then have "\<not> ?Q (t ! ((?h + m) mod kKeywordSlots))" using \<open>m \<le> i\<close> i(3) by simp
        then show ?thesis using m by (simp add: reached_def)
      qed
    qed
    then show ?thesis unfolding wordSlot_def t(1) using i(4) None by simp
  qed
qed

lemma classifyWord_eq:
  "classifyWord w = (if w = ''_'' then Pn Underscore
     else case map_of (map (\<lambda>i. (kwText i, kwKind i)) keywordTable) w of None \<Rightarrow> Identifier | Some k \<Rightarrow> k)"
proof (cases "length w < 2 \<or> 9 < length w")
  case True
  have "map_of (map (\<lambda>i. (kwText i, kwKind i)) keywordTable) w = None"
    using keyword_words(3) True by (auto simp: map_of_eq_None_iff image_iff)
  moreover have "w = ''_'' \<longleftrightarrow> length w = 1 \<and> w ! 0 = CHR ''_''" by (cases w) auto
  ultimately show ?thesis using True by (simp add: classifyWord_def)
next
  case False
  then have "w \<noteq> ''_''" by auto
  then show ?thesis using False by (simp add: classifyWord_def wordSlot_correct)
qed

end
