(* ===== verification/Lexer_Scan.thy ===== *)
theory Lexer_Scan
  imports Lexer_Token
begin

text \<open>
  The scanners of the lexer (\<open>lexer.cpp\<close>): the loops that run over a class of bytes, the search for
  a closing delimiter, and the three mutually recursive routines that find the end of a string
  or of a \<open>${...}\<close> inside a formatted string. A scanner reads the bytes of \<open>s\<close> below \<open>n\<close>; an end
  that is not found (\<open>npos\<close>, or \<open>false\<close>) is \<open>None\<close>.
\<close>

unbundle bit_operations_syntax

section \<open>Loops over bytes\<close>

definition byteAt :: "string \<Rightarrow> nat \<Rightarrow> nat \<Rightarrow> char" where
  "byteAt s n j = (if j < n then s ! j else CHR 0x00)"

function scanWhile :: "(char \<Rightarrow> bool) \<Rightarrow> string \<Rightarrow> nat \<Rightarrow> nat \<Rightarrow> nat" where
  "scanWhile P s n j = (if j < n \<and> P (s ! j) then scanWhile P s n (j + 1) else j)"
  by auto
termination by (relation "measure (\<lambda>(P, s, n, j). n - j)") auto

function findText :: "string \<Rightarrow> string \<Rightarrow> nat \<Rightarrow> nat \<Rightarrow> nat option" where
  "findText pat s n j =
     (if j + length pat \<le> n \<and> j < n
      then if take (length pat) (drop j s) = pat then Some j else findText pat s n (j + 1)
      else None)"
  by auto
termination by (relation "measure (\<lambda>(pat, s, n, j). n - j)") auto

definition lineEnd :: "string \<Rightarrow> nat \<Rightarrow> nat \<Rightarrow> nat" where
  "lineEnd s n i = scanWhile (\<lambda>c. c \<noteq> newlineChar) s n i"

definition exponentEnd :: "string \<Rightarrow> nat \<Rightarrow> nat \<Rightarrow> nat" where
  "exponentEnd s n j =
     (if byteAt s n j \<noteq> CHR ''e'' \<and> byteAt s n j \<noteq> CHR ''E'' then j
      else let k = (if byteAt s n (j + 1) = CHR ''+'' \<or> byteAt s n (j + 1) = CHR ''-'' then j + 2 else j + 1)
           in if \<not> isDigit (byteAt s n k) then j else scanWhile isDigit s n k)"

text \<open>The positions just past the line breaks of \<open>s[b, e)\<close>, in order.\<close>

definition lineStartsIn :: "string \<Rightarrow> nat \<Rightarrow> nat \<Rightarrow> nat list" where
  "lineStartsIn s b e = map Suc (filter (\<lambda>k. s ! k = newlineChar) [b..<e])"

section \<open>Strings and interpolations\<close>

function skipString :: "char \<Rightarrow> string \<Rightarrow> nat \<Rightarrow> nat \<Rightarrow> nat option" where
  "skipString c s n j =
     (if j < n
      then if s ! j = c then Some (j + 1)
           else if s ! j = CHR 0x5C \<and> j + 1 < n \<and> (s ! (j + 1) = c \<or> s ! (j + 1) = CHR 0x5C)
           then skipString c s n (j + 2)
           else skipString c s n (j + 1)
      else None)"
  by auto
termination by (relation "measure (\<lambda>(c, s, n, j). n - j)") auto

function skipFString :: "string \<Rightarrow> nat \<Rightarrow> nat \<Rightarrow> nat option"
  and skipQuoted :: "string \<Rightarrow> nat \<Rightarrow> nat \<Rightarrow> nat option"
  and scanInterpolation :: "string \<Rightarrow> nat \<Rightarrow> nat \<Rightarrow> nat \<Rightarrow> nat option"
where
  "skipFString s n j =
     (if j < n
      then if s ! j = CHR 0x60 then Some (j + 1)
           else if s ! j = CHR 0x5C \<and> j + 1 < n
           then if j + 2 < n \<and> s ! (j + 1) = CHR ''$'' \<and> s ! (j + 2) = CHR ''{'' then skipFString s n (j + 3)
                else if s ! (j + 1) = CHR 0x60 \<or> s ! (j + 1) = CHR 0x5C then skipFString s n (j + 2)
                else skipFString s n (j + 1)
           else if s ! j = CHR ''$'' \<and> j + 1 < n \<and> s ! (j + 1) = CHR ''{''
           then (case scanInterpolation s n (j + 2) 0 of
                   None \<Rightarrow> None
                 | Some close \<Rightarrow> skipFString s n (close + 1))
           else skipFString s n (j + 1)
      else None)"
| "skipQuoted s n i =
     (if s ! i = CHR 0x60 then skipFString s n (i + 1)
      else if i + 2 < n \<and> s ! (i + 1) = s ! i \<and> s ! (i + 2) = s ! i
      then (case findText [s ! i, s ! i, s ! i] s n (i + 3) of
              Some j \<Rightarrow> Some (j + 3)
            | None \<Rightarrow> Some (i + 2))
      else skipString (s ! i) s n (i + 1))"
| "scanInterpolation s n j depth =
     (if j < n
      then if s ! j \<in> {CHR 0x27, CHR 0x22, CHR 0x60}
           then (case skipQuoted s n j of
                   None \<Rightarrow> None
                 | Some e \<Rightarrow> scanInterpolation s n e depth)
           else if s ! j = CHR ''/'' \<and> j + 1 < n \<and> s ! (j + 1) = CHR ''/''
           then scanInterpolation s n (scanWhile (\<lambda>c. c \<noteq> newlineChar \<and> c \<noteq> CHR 0x0D) s n j) depth
           else if s ! j = CHR ''/'' \<and> j + 1 < n \<and> s ! (j + 1) = CHR ''*''
           then (case findText ''*/'' s n (j + 2) of
                   None \<Rightarrow> None
                 | Some e \<Rightarrow> scanInterpolation s n (e + 2) depth)
           else if s ! j = CHR ''{'' then scanInterpolation s n (j + 1) (depth + 1)
           else if s ! j = CHR ''}''
           then if depth = 0 then Some j else scanInterpolation s n (j + 1) (depth - 1)
           else scanInterpolation s n (j + 1) depth
      else None)"
  by pat_completeness auto


text \<open>Three routines that call each other: the distance to the end, then the routine.\<close>

definition skipMeasure :: "(string \<times> nat \<times> nat) + (string \<times> nat \<times> nat) + (string \<times> nat \<times> nat \<times> nat) \<Rightarrow> nat" where
  "skipMeasure x =
     (case x of
        Inl (s, n, j) \<Rightarrow> 3 * (n - j)
      | Inr (Inl (s, n, i)) \<Rightarrow> 3 * (n - i) + 1
      | Inr (Inr (s, n, j, d)) \<Rightarrow> 3 * (n - j) + 2)"

section \<open>The scanners move forward\<close>

declare scanWhile.simps [simp del] findText.simps [simp del] skipString.simps [simp del]

lemma scanWhile_ge: "j \<le> scanWhile P s n j"
proof (induction P s n j rule: scanWhile.induct)
  case (1 P s n j) then show ?case by (subst scanWhile.simps) auto
qed

lemma scanWhile_le: "j \<le> n \<Longrightarrow> scanWhile P s n j \<le> n"
proof (induction P s n j rule: scanWhile.induct)
  case (1 P s n j) then show ?case by (subst scanWhile.simps) auto
qed

lemma scanWhile_in: "j \<le> k \<Longrightarrow> k < scanWhile P s n j \<Longrightarrow> P (s ! k)"
proof (induction P s n j rule: scanWhile.induct)
  case (1 P s n j)
  then show ?case by (cases "k = j") (auto simp: scanWhile.simps [of P s n j] split: if_splits)
qed

lemma scanWhile_stop: "scanWhile P s n j < n \<Longrightarrow> \<not> P (s ! scanWhile P s n j)"
proof (induction P s n j rule: scanWhile.induct)
  case (1 P s n j) then show ?case by (auto simp: scanWhile.simps [of P s n j] split: if_splits)
qed

lemma findText_Some:
  "findText pat s n j = Some k \<Longrightarrow> j \<le> k \<and> k < n \<and> k + length pat \<le> n \<and> take (length pat) (drop k s) = pat"
proof (induction pat s n j rule: findText.induct)
  case (1 pat s n j)
  show ?case
  proof (cases "j + length pat \<le> n \<and> j < n \<and> take (length pat) (drop j s) \<noteq> pat")
    case True
    then have "findText pat s n (j + 1) = Some k" using "1.prems" by (simp add: findText.simps [of pat s n j])
    then show ?thesis using "1.IH" True by simp
  next
    case False then show ?thesis using "1.prems" by (auto simp: findText.simps [of pat s n j] split: if_splits)
  qed
qed

lemma findText_first:
  "findText pat s n j = Some k \<Longrightarrow> j \<le> i \<Longrightarrow> i < k \<Longrightarrow> take (length pat) (drop i s) \<noteq> pat"
proof (induction pat s n j rule: findText.induct)
  case (1 pat s n j)
  show ?case
  proof (cases "i = j")
    case True then show ?thesis using "1.prems" by (auto simp: findText.simps [of pat s n j] split: if_splits)
  next
    case False
    then show ?thesis using "1.prems" "1.IH" by (auto simp: findText.simps [of pat s n j] split: if_splits)
  qed
qed

lemma findText_None:
  "findText pat s n j = None \<Longrightarrow> j \<le> i \<Longrightarrow> i < n \<Longrightarrow> i + length pat \<le> n \<Longrightarrow> take (length pat) (drop i s) \<noteq> pat"
proof (induction pat s n j rule: findText.induct)
  case (1 pat s n j)
  show ?case
  proof (cases "i = j")
    case True then show ?thesis using "1.prems" by (auto simp: findText.simps [of pat s n j] split: if_splits)
  next
    case False
    then show ?thesis using "1.prems" "1.IH" by (auto simp: findText.simps [of pat s n j] split: if_splits)
  qed
qed

lemma skipString_Some: "skipString c s n j = Some e \<Longrightarrow> j < e \<and> e \<le> n"
proof (induction c s n j rule: skipString.induct)
  case (1 c s n j) then show ?case by (auto simp: skipString.simps [of c s n j] split: if_splits)
qed

lemma skip_progress:
  "skipFString_skipQuoted_scanInterpolation_dom (Inl (s, n, j)) \<Longrightarrow> skipFString s n j = Some e \<Longrightarrow> j < e \<and> e \<le> n"
  "skipFString_skipQuoted_scanInterpolation_dom (Inr (Inl (s, n, i))) \<Longrightarrow> skipQuoted s n i = Some e \<Longrightarrow> i < e \<and> e \<le> n"
  "skipFString_skipQuoted_scanInterpolation_dom (Inr (Inr (s, n, k, d))) \<Longrightarrow> scanInterpolation s n k d = Some e \<Longrightarrow> k \<le> e \<and> e < n \<and> s ! e = CHR 0x7D"
proof (induction s n j and s n i and s n k d arbitrary: e and e and e rule: skipFString_skipQuoted_scanInterpolation.pinduct)
  case (1 s n j)
  note eq = skipFString.psimps [OF 1(1)] and IH = "1.IH"
  show ?case
  proof (cases "j < n \<and> s ! j \<noteq> CHR 0x60")
    case True
    show ?thesis
    proof (cases "s ! j = CHR 0x5C \<and> j + 1 < n")
      case esc: True
      have p: "(if j + 2 < n \<and> s ! (j + 1) = CHR ''$'' \<and> s ! (j + 2) = CHR ''{'' then skipFString s n (j + 3)
                else if s ! (j + 1) = CHR 0x60 \<or> s ! (j + 1) = CHR 0x5C then skipFString s n (j + 2)
                else skipFString s n (j + 1)) = Some e"
        using "1.prems" True esc by (simp add: eq)
      have "(j + 3 < e \<or> j + 2 < e \<or> j + 1 < e) \<and> e \<le> n"
        using p IH(1,2,3) True esc by (metis (no_types, lifting))
      then show ?thesis by linarith
    next
      case plain: False
      show ?thesis
      proof (cases "s ! j = CHR ''$'' \<and> j + 1 < n \<and> s ! (j + 1) = CHR ''{''")
        case ip: True
        then obtain close where c: "scanInterpolation s n (j + 2) 0 = Some close" "skipFString s n (close + 1) = Some e"
          using True plain "1.prems" by (cases "scanInterpolation s n (j + 2) 0") (simp_all add: eq)
        have "j + 2 \<le> close" using IH(4) c(1) True plain ip by blast
        moreover have "close + 1 < e \<and> e \<le> n" using IH(5) c True plain ip by blast
        ultimately show ?thesis by simp
      next
        case False
        then have "skipFString s n (j + 1) = Some e"
          using "1.prems" by (simp only: eq True plain False if_True if_False simp_thms)
        then have "j + 1 < e \<and> e \<le> n" using True plain False IH(6) by blast
        then show ?thesis by simp
      qed
    qed
  next
    case False then show ?thesis using "1.prems" by (simp add: eq split: if_splits)
  qed
next
  case (2 s n i)
  note eq = skipQuoted.psimps [OF 2(1)]
  show ?case
  proof (cases "s ! i = CHR 0x60")
    case True then show ?thesis using "2.prems" "2.IH" [of e] by (simp add: eq)
  next
    case False
    then show ?thesis using "2.prems" findText_Some [of "[s ! i, s ! i, s ! i]" s n "i + 3"] skipString_Some [of "s ! i" s n "i + 1" e]
      by (cases "findText [s ! i, s ! i, s ! i] s n (i + 3)") (auto simp: eq split: if_splits)
  qed
next
  case (3 s n j depth)
  note eq = scanInterpolation.psimps [OF 3(1)]
  let ?c = "s ! j" let ?stop = "scanWhile (\<lambda>c. c \<noteq> newlineChar \<and> c \<noteq> CHR 0x0D) s n j"
  have lt: "j < n" using "3.prems" by (simp add: eq split: if_splits)
  consider (quote) "?c \<in> {CHR 0x27, CHR 0x22, CHR 0x60}"
    | (line) "?c \<notin> {CHR 0x27, CHR 0x22, CHR 0x60}" "?c = CHR ''/'' \<and> j + 1 < n \<and> s ! (j + 1) = CHR ''/''"
    | (block) "?c \<notin> {CHR 0x27, CHR 0x22, CHR 0x60}" "\<not> (?c = CHR ''/'' \<and> j + 1 < n \<and> s ! (j + 1) = CHR ''/'')"
        "?c = CHR ''/'' \<and> j + 1 < n \<and> s ! (j + 1) = CHR ''*''"
    | (brace) "?c \<notin> {CHR 0x27, CHR 0x22, CHR 0x60}" "\<not> (?c = CHR ''/'' \<and> j + 1 < n \<and> s ! (j + 1) = CHR ''/'')"
        "\<not> (?c = CHR ''/'' \<and> j + 1 < n \<and> s ! (j + 1) = CHR ''*'')" by blast
  then show ?case
  proof cases
    case quote
    then obtain q where q: "skipQuoted s n j = Some q" "scanInterpolation s n q depth = Some e"
      using lt "3.prems" by (cases "skipQuoted s n j") (simp_all add: eq)
    then have "j < q" "q \<le> e \<and> e < n \<and> s ! e = CHR 0x7D" using "3.IH"(1,2) quote lt by blast+
    then show ?thesis by simp
  next
    case line
    then have "scanInterpolation s n ?stop depth = Some e"
      using "3.prems" by (simp only: eq lt if_True if_False simp_thms)
    then have "?stop \<le> e \<and> e < n \<and> s ! e = CHR 0x7D" using "3.IH"(3) line lt by blast
    then show ?thesis using scanWhile_ge [of j "\<lambda>c. c \<noteq> newlineChar \<and> c \<noteq> CHR 0x0D" s n] by linarith
  next
    case block
    then obtain q where q: "findText ''*/'' s n (j + 2) = Some q" "scanInterpolation s n (q + 2) depth = Some e"
      using lt "3.prems" by (cases "findText ''*/'' s n (j + 2)") (simp_all add: eq)
    then have "q + 2 \<le> e \<and> e < n \<and> s ! e = CHR 0x7D" using "3.IH"(4) block lt by blast
    then show ?thesis using findText_Some [OF q(1)] by simp
  next
    case brace
    have "(if ?c = CHR ''{'' then scanInterpolation s n (j + 1) (depth + 1)
           else if ?c = CHR ''}'' then if depth = 0 then Some j else scanInterpolation s n (j + 1) (depth - 1)
           else scanInterpolation s n (j + 1) depth) = Some e"
      using "3.prems" by (simp only: eq lt brace if_True if_False simp_thms)
    then have "(j + 1 \<le> e \<or> e = j) \<and> e < n \<and> s ! e = CHR 0x7D"
      using "3.IH"(5,6,7) brace lt by (metis option.inject)
    then show ?thesis by auto
  qed
qed

lemma skip_total: "skipFString_skipQuoted_scanInterpolation_dom x"
proof (rule "skipFString_skipQuoted_scanInterpolation.termination" [of "measure skipMeasure", THEN spec])
  fix s n j depth assume h: "j < n" "s ! j = CHR ''/'' \<and> j + 1 < n \<and> s ! (j + 1) = CHR ''/''"
  let ?P = "\<lambda>c. c \<noteq> newlineChar \<and> c \<noteq> CHR 0x0D"
  have "scanWhile ?P s n j = scanWhile ?P s n (j + 1)" using h by (subst scanWhile.simps) simp
  then have "j < scanWhile ?P s n j" using scanWhile_ge [of "j + 1" ?P s n] by linarith
  then show "(Inr (Inr (s, n, scanWhile ?P s n j, depth)), Inr (Inr (s, n, j, depth))) \<in> measure skipMeasure"
    using h by (simp add: skipMeasure_def diff_less_mono2)
qed (auto simp: skipMeasure_def dest!: skip_progress findText_Some)

termination skipFString by (simp add: skip_total)

declare skipFString.simps [simp del] skipQuoted.simps [simp del] scanInterpolation.simps [simp del]

lemmas skipFString_Some = skip_progress(1) [OF skip_total]
  and skipQuoted_Some = skip_progress(2) [OF skip_total]
  and scanInterpolation_Some = skip_progress(3) [OF skip_total]
end
