(* ===== verification/Lexer_Step.thy ===== *)
theory Lexer_Step
  imports Lexer_Scan
begin

text \<open>
  One turn of the lexer's loop (\<open>Lexer::tokenizeImpl\<close>): a definition per branch of the switch on the
  class of the byte at \<open>i\<close>. The local variables of the loop and the vectors of the buffer are the
  record \<open>LexState\<close>; a branch returns the next position and the next state. The lexer calls
  itself on the text of a \<open>${...}\<close> and looks at the tokens it gets only; they are the argument \<open>sub\<close>
  of the branch for formatted strings.
\<close>

unbundle bit_operations_syntax

section \<open>State and helpers\<close>

record LexState =
  lxTokens :: "Token list"
  lxErrors :: "LexError list"
  lxInterpolations :: "FStringInterpolation list"
  lxLines :: "nat list"
  lxPending :: "8 word"
  lxPrevious :: TokenKind

definition emit :: "TokenKind \<Rightarrow> nat \<Rightarrow> nat \<Rightarrow> LexState \<Rightarrow> LexState" where
  "emit kind b e st =
     st\<lparr>lxTokens := lxTokens st @ [\<lparr>tBegin = u32 b, tEnd = u32 e, tKind = kind, tFlags = lxPending st\<rparr>],
        lxPending := 0, lxPrevious := kind\<rparr>"

definition emitTrivia :: "TokenKind \<Rightarrow> nat \<Rightarrow> nat \<Rightarrow> bool \<Rightarrow> LexState \<Rightarrow> LexState" where
  "emitTrivia kind b e spansLines st =
     st\<lparr>lxTokens := lxTokens st @ [\<lparr>tBegin = u32 b, tEnd = u32 e, tKind = kind, tFlags = lxPending st\<rparr>],
        lxPending := (if spansLines then lxPending st OR SpaceBefore OR NewlineBefore else lxPending st OR SpaceBefore)\<rparr>"

definition pushError :: "LexErrorKind \<Rightarrow> nat \<Rightarrow> nat \<Rightarrow> LexState \<Rightarrow> LexState" where
  "pushError kind b e st = st\<lparr>lxErrors := lxErrors st @ [\<lparr>eKind = kind, eBegin = u32 b, eEnd = u32 e\<rparr>]\<rparr>"

function noteLoop :: "string \<Rightarrow> nat \<Rightarrow> nat \<Rightarrow> bool \<Rightarrow> nat list \<Rightarrow> bool \<times> nat list" where
  "noteLoop s e k any lines =
     (if k < e
      then let found = lineEnd s e k
           in if found < e then noteLoop s e (found + 1) True (lines @ [u32 (found + 1)]) else (any, lines)
      else (any, lines))"
  by auto
termination
proof (relation "measure (\<lambda>(s, e, k, any, lines). e - k)")
  fix s e k any lines found assume "k < e" "found = lineEnd s e k" "found < e"
  then show "((s, e, found + 1, True, lines @ [u32 (found + 1)]), s, e, k, any, lines) \<in> measure (\<lambda>(s, e, k, any, lines). e - k)"
    using scanWhile_ge [of k "\<lambda>c. c \<noteq> newlineChar" s e] by (auto simp: lineEnd_def)
qed simp

definition noteLines :: "string \<Rightarrow> nat \<Rightarrow> nat \<Rightarrow> LexState \<Rightarrow> bool \<times> LexState" where
  "noteLines s b e st = (let (any, lines) = noteLoop s e b False (lxLines st) in (any, st\<lparr>lxLines := lines\<rparr>))"

section \<open>Words and raw strings\<close>

function hashRun :: "string \<Rightarrow> nat \<Rightarrow> nat \<Rightarrow> nat \<Rightarrow> nat \<Rightarrow> nat \<times> nat" where
  "hashRun s n hashes k seen =
     (if k < n \<and> s ! k = CHR ''#'' \<and> seen < hashes then hashRun s n hashes (k + 1) (seen + 1) else (k, seen))"
  by auto
termination by (relation "measure (\<lambda>(s, n, hashes, k, seen). n - k)") auto

function rawLoop :: "string \<Rightarrow> nat \<Rightarrow> nat \<Rightarrow> nat \<Rightarrow> nat list \<Rightarrow> nat option \<times> nat list" where
  "rawLoop s n hashes j lines =
     (if j < n
      then let lines' = (if s ! j = newlineChar then lines @ [u32 (j + 1)] else lines);
               (k, seen) = hashRun s n hashes (j + 1) 0
           in if s ! j = CHR 0x22 \<and> seen = hashes then (Some k, lines') else rawLoop s n hashes (j + 1) lines'
      else (None, lines))"
  by auto
termination by (relation "measure (\<lambda>(s, n, hashes, j, lines). n - j)") auto

text \<open>An unclosed string is refused up to the end of its line.\<close>

definition refuseString :: "string \<Rightarrow> nat \<Rightarrow> nat \<Rightarrow> nat \<Rightarrow> LexState \<Rightarrow> nat \<times> LexState" where
  "refuseString s n i opened st =
     (let errorEnd = lineEnd s n i
      in (errorEnd, emitTrivia Error i errorEnd False (pushError UnclosedString opened errorEnd st)))"

definition lexWord :: "string \<Rightarrow> nat \<Rightarrow> nat \<Rightarrow> LexState \<Rightarrow> nat \<times> LexState" where
  "lexWord s n i st =
     (let hashes = (if s ! i = CHR ''r'' then scanWhile (\<lambda>c. c = CHR ''#'') s n (i + 1) - (i + 1) else 0)
      in if s ! i = CHR ''r'' \<and> byteAt s n (i + 1 + hashes) = CHR 0x22
         then let opened = i + 1 + hashes
              in (case rawLoop s n hashes (opened + 1) (lxLines st) of
                    (Some j, lines) \<Rightarrow> (j, emit RawString i j (st\<lparr>lxLines := lines\<rparr>))
                  | (None, lines) \<Rightarrow> refuseString s n i opened (st\<lparr>lxLines := take (length (lxLines st)) lines\<rparr>))
         else let j = scanWhile isIdentPart s n (i + 1)
              in (j, emit (classifyWord (take (j - i) (drop i s))) i j st))"

section \<open>Numbers\<close>

definition imaginarySuffix :: "string \<Rightarrow> nat \<Rightarrow> nat \<Rightarrow> bool" where
  "imaginarySuffix s n k \<longleftrightarrow> byteAt s n k = CHR ''i'' \<and> \<not> isIdentPart (byteAt s n (k + 1))"

definition refuseNumber :: "nat \<Rightarrow> nat \<Rightarrow> LexState \<Rightarrow> nat \<times> LexState" where
  "refuseNumber i e st = (e, emitTrivia Error i e False (pushError InvalidNumber i e st))"

definition lexReal :: "string \<Rightarrow> nat \<Rightarrow> nat \<Rightarrow> nat \<Rightarrow> LexState \<Rightarrow> nat \<times> LexState" where
  "lexReal s n i j st =
     (let k = exponentEnd s n (scanWhile isDigit s n (j + 2))
      in if s ! i = CHR ''0'' \<and> isDigit (byteAt s n (i + 1))
         then refuseNumber i (if imaginarySuffix s n k then k + 1 else k) st
         else if imaginarySuffix s n k then (k + 1, emit Imaginary i (k + 1) st)
         else (k, emit Real i k st))"

text \<open>The end of an integer that starts at \<open>i\<close> with the digits up to \<open>j\<close>, and whether it is refused.\<close>

definition hexEnd :: "string \<Rightarrow> nat \<Rightarrow> nat \<Rightarrow> nat \<times> bool" where
  "hexEnd s n i =
     (let e = scanWhile isHexDigit s n (i + 2); invalid = (e = i + 2)
      in if \<not> invalid \<and> (byteAt s n (e - 1) = CHR ''e'' \<or> byteAt s n (e - 1) = CHR ''E'') \<and> i + 2 < e - 1 \<and>
            (byteAt s n e = CHR ''+'' \<or> byteAt s n e = CHR ''-'') \<and> isDigit (byteAt s n (e + 1))
         then (e - 1, invalid) else (e, invalid))"

definition binEnd :: "string \<Rightarrow> nat \<Rightarrow> nat \<Rightarrow> nat \<times> bool" where
  "binEnd s n i =
     (let e = scanWhile (\<lambda>c. c = CHR ''0'' \<or> c = CHR ''1'') s n (i + 2)
      in if e = i + 2 \<or> isDigit (byteAt s n e) then (scanWhile isDigit s n e, True) else (e, False))"

definition octEnd :: "string \<Rightarrow> nat \<Rightarrow> nat \<Rightarrow> nat \<times> bool" where
  "octEnd s n i =
     (let e = scanWhile (\<lambda>c. between (CHR ''0'') c (CHR ''7'')) s n (i + 2)
      in if e = i + 2 \<or> byteAt s n e = CHR ''8'' \<or> byteAt s n e = CHR ''9'' then (scanWhile isDigit s n e, True)
         else (e, False))"

definition integerEnd :: "string \<Rightarrow> nat \<Rightarrow> nat \<Rightarrow> nat \<Rightarrow> nat \<times> bool" where
  "integerEnd s n i j =
     (if s ! i \<noteq> CHR ''0'' then (j, False)
      else if byteAt s n (i + 1) = CHR ''x'' then hexEnd s n i
      else if byteAt s n (i + 1) = CHR ''b'' then binEnd s n i
      else if byteAt s n (i + 1) = CHR ''o'' then octEnd s n i
      else if isDigit (byteAt s n (i + 1))
      then let e = exponentEnd s n j in (if imaginarySuffix s n e then e + 1 else e, True)
      else (i + 1, False))"

definition lexInteger :: "string \<Rightarrow> nat \<Rightarrow> nat \<Rightarrow> nat \<Rightarrow> LexState \<Rightarrow> nat \<times> LexState" where
  "lexInteger s n i j st =
     (let (digitsEnd, invalid) = integerEnd s n i j
      in if invalid then refuseNumber i (if digitsEnd = i + 2 then scanWhile isIdentPart s n digitsEnd else digitsEnd) st
         else let e = exponentEnd s n digitsEnd; decimal = (s ! i \<noteq> CHR ''0'' \<or> digitsEnd = i + 1)
              in if decimal \<and> imaginarySuffix s n e then (e + 1, emit Imaginary i (e + 1) st)
                 else (e, emit (if digitsEnd < e \<and> decimal then Real else Integer) i e st))"

definition lexNumber :: "string \<Rightarrow> nat \<Rightarrow> nat \<Rightarrow> LexState \<Rightarrow> nat \<times> LexState" where
  "lexNumber s n i st =
     (let j = scanWhile isDigit s n (i + 1)
      in if byteAt s n j = CHR ''.'' \<and> isDigit (byteAt s n (j + 1)) then lexReal s n i j st else lexInteger s n i j st)"

section \<open>Strings\<close>

definition interpolationAt :: "nat \<Rightarrow> nat \<Rightarrow> FStringInterpolation" where
  "interpolationAt j close =
     \<lparr>fToken = 0, fOpen = u32 j, fExprBegin = u32 (j + 2), fExprEnd = 0, fSpecBegin = 0, fSpecEnd = 0,
      fClose = u32 close, fHasSpec = False\<rparr>"

function fstringLoop :: "string \<Rightarrow> nat \<Rightarrow> nat \<Rightarrow> FStringInterpolation list \<Rightarrow> nat option \<times> FStringInterpolation list" where
  "fstringLoop s n j parts =
     (if j < n
      then if s ! j = CHR 0x60 then (Some (j + 1), parts)
           else if s ! j = CHR 0x5C \<and> j + 1 < n
           then if j + 2 < n \<and> s ! (j + 1) = CHR ''$'' \<and> s ! (j + 2) = CHR ''{'' then fstringLoop s n (j + 3) parts
                else if s ! (j + 1) = CHR 0x60 then fstringLoop s n (j + 2) parts
                else if s ! (j + 1) = CHR 0x5C then fstringLoop s n (j + 2) parts
                else fstringLoop s n (j + 1) parts
           else if s ! j = CHR ''$'' \<and> j + 1 < n \<and> s ! (j + 1) = CHR ''{''
           then (case scanInterpolation s n (j + 2) 0 of
                   None \<Rightarrow> (None, parts)
                 | Some close \<Rightarrow> fstringLoop s n (close + 1) (parts @ [interpolationAt j close]))
           else fstringLoop s n (j + 1) parts
      else (None, parts))"
  by auto
termination
  by (relation "measure (\<lambda>(s, n, j, parts). n - j)") (auto dest!: scanInterpolation_Some)

definition endInterpolation :: "FStringInterpolation \<Rightarrow> FStringInterpolation" where
  "endInterpolation part = part\<lparr>fExprEnd := fClose part, fSpecBegin := fClose part, fSpecEnd := fClose part\<rparr>"

definition specInterpolation :: "Token \<Rightarrow> FStringInterpolation \<Rightarrow> FStringInterpolation" where
  "specInterpolation token part =
     part\<lparr>fHasSpec := True, fExprEnd := tBegin token, fSpecBegin := tEnd token, fSpecEnd := fClose part\<rparr>"

text \<open>The stack of open brackets has its top at the head.\<close>

fun splitLoop :: "Token list \<Rightarrow> TokenKind list \<Rightarrow> FStringInterpolation \<Rightarrow> FStringInterpolation" where
  "splitLoop [] opened part = endInterpolation part"
| "splitLoop (token # rest) opened part =
     (if tKind token = Eof then endInterpolation part
      else if tKind token \<in> {Pn LParen, Pn LBracket, Pn LBrace, Pn LAngle} then splitLoop rest (tKind token # opened) part
      else if tKind token \<in> {Pn RParen, Pn RBracket, Pn RBrace} then splitLoop rest (drop 1 opened) part
      else if tKind token = Pn Gt
      then splitLoop rest (if opened \<noteq> [] \<and> hd opened = Pn LAngle then drop 1 opened else opened) part
      else if tKind token = Pn Colon \<and> opened = [] then specInterpolation token part
      else splitLoop rest opened part)"

definition splitInterpolation :: "(nat \<Rightarrow> nat \<Rightarrow> Token list) \<Rightarrow> FStringInterpolation \<Rightarrow> FStringInterpolation" where
  "splitInterpolation sub part = splitLoop (sub (fExprBegin part) (fClose part)) [] part"

definition lexFString :: "(nat \<Rightarrow> nat \<Rightarrow> Token list) \<Rightarrow> string \<Rightarrow> nat \<Rightarrow> nat \<Rightarrow> LexState \<Rightarrow> nat \<times> LexState" where
  "lexFString sub s n i st =
     (case fstringLoop s n (i + 1) [] of
        (Some j, parts) \<Rightarrow>
          let st' = snd (noteLines s i j st);
              found = map (\<lambda>part. splitInterpolation sub (part\<lparr>fToken := u32 (length (lxTokens st'))\<rparr>)) parts
          in (j, emit FString i j (st'\<lparr>lxInterpolations := lxInterpolations st' @ found\<rparr>))
      | (None, parts) \<Rightarrow> refuseString s n i i st)"

function stringLoop :: "char \<Rightarrow> string \<Rightarrow> nat \<Rightarrow> nat \<Rightarrow> nat list \<Rightarrow> nat option \<times> nat list" where
  "stringLoop c s n j lines =
     (if j < n
      then if s ! j = c then (Some (j + 1), lines)
           else if s ! j = CHR 0x5C \<and> j + 1 < n \<and> s ! (j + 1) = c then stringLoop c s n (j + 2) lines
           else if s ! j = CHR 0x5C \<and> j + 1 < n \<and> s ! (j + 1) = CHR 0x5C then stringLoop c s n (j + 2) lines
           else stringLoop c s n (j + 1) (if s ! j = newlineChar then lines @ [u32 (j + 1)] else lines)
      else (None, lines))"
  by auto
termination by (relation "measure (\<lambda>(c, s, n, j, lines). n - j)") auto

definition lexString :: "string \<Rightarrow> nat \<Rightarrow> nat \<Rightarrow> LexState \<Rightarrow> nat \<times> LexState" where
  "lexString s n i st =
     (case stringLoop (s ! i) s n (i + 1) (lxLines st) of
        (Some j, lines) \<Rightarrow> (j, emit (if s ! i = CHR 0x60 then FString else String) i j (st\<lparr>lxLines := lines\<rparr>))
      | (None, lines) \<Rightarrow> refuseString s n i i (st\<lparr>lxLines := take (length (lxLines st)) lines\<rparr>))"

definition tripleClose :: "string \<Rightarrow> nat \<Rightarrow> nat \<Rightarrow> nat option" where
  "tripleClose s n i =
     (if s ! i \<noteq> CHR 0x60 \<and> byteAt s n (i + 1) = s ! i \<and> byteAt s n (i + 2) = s ! i
      then findText [s ! i, s ! i, s ! i] s n (i + 3) else None)"

definition lexQuote :: "(nat \<Rightarrow> nat \<Rightarrow> Token list) \<Rightarrow> string \<Rightarrow> nat \<Rightarrow> nat \<Rightarrow> LexState \<Rightarrow> nat \<times> LexState" where
  "lexQuote sub s n i st =
     (case tripleClose s n i of
        Some close \<Rightarrow> (close + 3, emit MultiStr i (close + 3) (snd (noteLines s i (close + 3) st)))
      | None \<Rightarrow> if s ! i = CHR 0x60 then lexFString sub s n i st else lexString s n i st)"

section \<open>Operators, comments and the rest\<close>

definition isLineBody :: "char \<Rightarrow> bool" where
  "isLineBody c \<longleftrightarrow> c \<noteq> newlineChar \<and> c \<noteq> CHR 0x0D"

definition lexHash :: "string \<Rightarrow> nat \<Rightarrow> nat \<Rightarrow> LexState \<Rightarrow> nat \<times> LexState" where
  "lexHash s n i st =
     (if i = 0 \<and> byteAt s n 1 = CHR ''!''
      then let j = scanWhile (\<lambda>c. isLineBody c \<and> c \<noteq> CHR 0x0C) s n (i + 1) in (j, emitTrivia Command i j False st)
      else (i + 1, emit (Pn Hash) i (i + 1) st))"

definition lexLineComment :: "string \<Rightarrow> nat \<Rightarrow> nat \<Rightarrow> LexState \<Rightarrow> nat \<times> LexState" where
  "lexLineComment s n i st =
     (let j = scanWhile isLineBody s n (i + 2);
          doc = (byteAt s n (i + 2) = CHR ''/'' \<and> byteAt s n (i + 3) \<noteq> CHR ''/'')
      in (j, emitTrivia (if doc then DocComment else LineComment) i j False st))"

definition lexBlockComment :: "string \<Rightarrow> nat \<Rightarrow> nat \<Rightarrow> LexState \<Rightarrow> nat \<times> LexState" where
  "lexBlockComment s n i st =
     (case findText ''*/'' s n (i + 2) of
        None \<Rightarrow> (let (spans, st') = noteLines s i n (pushError UnterminatedComment i n st) in (n, emitTrivia Error i n spans st'))
      | Some close \<Rightarrow> (let (spans, st') = noteLines s i (close + 2) st in (close + 2, emitTrivia BlockComment i (close + 2) spans st')))"

text \<open>The kind and the length of the operator that starts with \<open>c\<close>, \<open>c1\<close>, \<open>c2\<close>; \<open>touches\<close> says
  that a \<open><\<close> opens an angle bracket list there.\<close>

definition punctKind :: "char \<Rightarrow> char \<Rightarrow> char \<Rightarrow> bool \<Rightarrow> TokenKind \<times> nat" where
  "punctKind c c1 c2 touches =
     (if c = CHR '';'' then (Pn Semi, 1)
      else if c = CHR '','' then (Pn Comma, 1)
      else if c = CHR ''('' then (Pn LParen, 1)
      else if c = CHR '')'' then (Pn RParen, 1)
      else if c = CHR ''['' then (Pn LBracket, 1)
      else if c = CHR '']'' then (Pn RBracket, 1)
      else if c = CHR ''{'' then (Pn LBrace, 1)
      else if c = CHR ''}'' then (Pn RBrace, 1)
      else if c = CHR ''~'' then (Pn Tilde, 1)
      else if c = CHR '':'' then if c1 = CHR '':'' then (Pn ColonColon, 2) else (Pn Colon, 1)
      else if c = CHR ''.''
      then if c1 = CHR ''.'' \<and> c2 = CHR ''.'' then (Pn Ellipsis, 3)
           else if c1 = CHR ''.'' then (Pn DotDot, 2) else (Pn Dot, 1)
      else if c = CHR ''=''
      then if c1 = CHR ''='' \<and> c2 = CHR ''='' then (Pn EqEqEq, 3)
           else if c1 = CHR ''='' then (Pn EqEq, 2)
           else if c1 = CHR ''>'' then (Pn FatArrow, 2) else (Pn Assign, 1)
      else if c = CHR ''<''
      then if c1 = CHR ''='' \<and> c2 = CHR ''>'' then (Pn Equiv, 3)
           else if c1 = CHR ''='' then (Pn LtEq, 2)
           else (if touches then Pn LAngle else Pn Lt, 1)
      else if c = CHR ''>'' then if c1 = CHR ''='' then (Pn GtEq, 2) else (Pn Gt, 1)
      else if c = CHR ''+'' then if c1 = CHR ''='' then (Pn PlusAssign, 2) else (Pn Plus, 1)
      else if c = CHR ''-''
      then if c1 = CHR ''='' then (Pn MinusAssign, 2) else if c1 = CHR ''>'' then (Pn Arrow, 2) else (Pn Minus, 1)
      else if c = CHR ''*'' then if c1 = CHR ''='' then (Pn StarAssign, 2) else (Pn Star, 1)
      else if c = CHR ''/'' then if c1 = CHR ''='' then (Pn SlashAssign, 2) else (Pn Slash, 1)
      else if c = CHR ''%'' then if c1 = CHR ''='' then (Pn PercentAssign, 2) else (Pn Percent, 1)
      else if c = CHR ''^'' then if c1 = CHR ''='' then (Pn CaretAssign, 2) else (Pn Caret, 1)
      else if c = CHR ''@'' then if c1 = CHR ''='' then (Pn AtAssign, 2) else (Pn At, 1)
      else if c = CHR ''&''
      then if c1 = CHR ''&'' then (Pn AmpAmp, 2) else if c1 = CHR ''='' then (Pn AmpAssign, 2) else (Pn Amp, 1)
      else if c = CHR ''|''
      then if c1 = CHR ''|'' then (Pn PipePipe, 2) else if c1 = CHR ''='' then (Pn PipeAssign, 2) else (Pn Pipe, 1)
      else if c = CHR ''!''
      then if c1 = CHR ''='' \<and> c2 = CHR ''='' then (Pn NotEqEq, 3)
           else if c1 = CHR ''='' then (Pn NotEq, 2)
           else if c1 = CHR ''!'' then (Pn BangBang, 2) else (Pn Bang, 1)
      else if c = CHR ''?'' then if c1 = CHR ''?'' then (Pn QuestionQuestion, 2) else (Pn Question, 1)
      else (Error, 1))"

definition lexPunct :: "string \<Rightarrow> nat \<Rightarrow> nat \<Rightarrow> LexState \<Rightarrow> nat \<times> LexState" where
  "lexPunct s n i st =
     (let c1 = byteAt s n (i + 1)
      in if s ! i = CHR ''/'' \<and> c1 = CHR ''/'' then lexLineComment s n i st
         else if s ! i = CHR ''/'' \<and> c1 = CHR ''*'' then lexBlockComment s n i st
         else let (kind, len) = punctKind (s ! i) c1 (byteAt s n (i + 2)) (lxPending st = 0 \<and> endsAngleHost (lxPrevious st))
              in (i + len, emit kind i (i + len) st))"

definition lexIllegal :: "string \<Rightarrow> nat \<Rightarrow> nat \<Rightarrow> LexState \<Rightarrow> nat \<times> LexState" where
  "lexIllegal s n i st =
     (let j = scanWhile (\<lambda>c. charClass c = kIllegal) s n i
      in (j, emitTrivia Error i j False (pushError IllegalCharacter i j st)))"

definition lexBlank :: "nat \<Rightarrow> LexState \<Rightarrow> nat \<times> LexState" where
  "lexBlank i st = (i + 1, st\<lparr>lxPending := lxPending st OR SpaceBefore\<rparr>)"

definition lexNewline :: "nat \<Rightarrow> LexState \<Rightarrow> nat \<times> LexState" where
  "lexNewline i st =
     (i + 1, st\<lparr>lxPending := lxPending st OR (SpaceBefore OR NewlineBefore), lxLines := lxLines st @ [u32 (i + 1)]\<rparr>)"

definition lexStep :: "(nat \<Rightarrow> nat \<Rightarrow> Token list) \<Rightarrow> string \<Rightarrow> nat \<Rightarrow> nat \<Rightarrow> LexState \<Rightarrow> nat \<times> LexState" where
  "lexStep sub s n i st =
     (case charClass (s ! i) of
        kBlank \<Rightarrow> lexBlank i st
      | kNewline \<Rightarrow> lexNewline i st
      | kIdentStart \<Rightarrow> lexWord s n i st
      | kDigit \<Rightarrow> lexNumber s n i st
      | kQuote \<Rightarrow> lexQuote sub s n i st
      | kHash \<Rightarrow> lexHash s n i st
      | kPunct \<Rightarrow> lexPunct s n i st
      | kIllegal \<Rightarrow> lexIllegal s n i st)"

end
