(* ===== verification/Lexer_Move.thy ===== *)
theory Lexer_Move
  imports Lexer_Step
begin

text \<open>
  What a turn of the loop does to the position, the tokens, the flags and the line table, as an
  abstract step relation: white space is passed over, a token the parser sees is emitted, a
  comment is emitted, or text is refused as one error. Every branch of the lexer is one of these
  moves (\<open>lexStep_move\<close>), so the invariants of the lexer are proved on the four moves only.
\<close>

unbundle bit_operations_syntax

section \<open>The moves\<close>

definition hasNewline :: "string \<Rightarrow> nat \<Rightarrow> nat \<Rightarrow> bool" where
  "hasNewline s b e \<longleftrightarrow> list_ex (\<lambda>k. s ! k = newlineChar) [b..<e]"

definition passLines :: "string \<Rightarrow> nat \<Rightarrow> nat \<Rightarrow> LexState \<Rightarrow> LexState" where
  "passLines s b e st = st\<lparr>lxLines := lxLines st @ map u32 (lineStartsIn s b e)\<rparr>"

inductive lexMove :: "string \<Rightarrow> nat \<Rightarrow> nat \<times> LexState \<Rightarrow> nat \<times> LexState \<Rightarrow> bool" for s n where
  Blank: "i < n \<Longrightarrow> charClass (s ! i) = kBlank \<Longrightarrow>
    lexMove s n (i, st) (i + 1, st\<lparr>lxPending := lxPending st OR SpaceBefore\<rparr>)"
| Newline: "i < n \<Longrightarrow> charClass (s ! i) = kNewline \<Longrightarrow>
    lexMove s n (i, st) (i + 1, (passLines s i (i + 1) st)\<lparr>lxPending := lxPending st OR (SpaceBefore OR NewlineBefore)\<rparr>)"
| Solid: "i < j \<Longrightarrow> j \<le> n \<Longrightarrow> \<not> isTrivia kind \<Longrightarrow> kind \<noteq> Eof \<Longrightarrow>
    lexMove s n (i, st) (j, emit kind i j ((passLines s i j st)\<lparr>lxInterpolations := found\<rparr>))"
| Comment: "i < j \<Longrightarrow> j \<le> n \<Longrightarrow> isTrivia kind \<Longrightarrow> kind \<noteq> Error \<Longrightarrow>
    lexMove s n (i, st) (j, emitTrivia kind i j (hasNewline s i j) (passLines s i j st))"
| Refused: "i < j \<Longrightarrow> j \<le> n \<Longrightarrow> i \<le> b \<Longrightarrow> b \<le> j \<Longrightarrow>
    lexMove s n (i, st) (j, emitTrivia Error i j (hasNewline s i j) (pushError err b j (passLines s i j st)))"

text \<open>A stretch of one line: the positions a scanner passes over with no line break among them.\<close>

definition stretch :: "string \<Rightarrow> nat \<Rightarrow> nat \<Rightarrow> nat \<Rightarrow> bool" where
  "stretch s n i e \<longleftrightarrow> i \<le> e \<and> e \<le> n \<and> (\<forall>k. i \<le> k \<longrightarrow> k < e \<longrightarrow> s ! k \<noteq> newlineChar)"

section \<open>Line starts of a range\<close>

declare noteLoop.simps [simp del] hashRun.simps [simp del] rawLoop.simps [simp del]
  fstringLoop.simps [simp del] stringLoop.simps [simp del]

lemma hasNewline_iff: "hasNewline s b e \<longleftrightarrow> (\<exists>k. b \<le> k \<and> k < e \<and> s ! k = newlineChar)"
  by (auto simp: hasNewline_def list_ex_iff)

lemma hasNewline_split: "b \<le> m \<Longrightarrow> m \<le> e \<Longrightarrow> hasNewline s b e \<longleftrightarrow> hasNewline s b m \<or> hasNewline s m e"
  unfolding hasNewline_iff by (meson leI le_less_trans less_le_trans order_trans)

lemma lineStartsIn_split:
  assumes "b \<le> m" "m \<le> e" shows "lineStartsIn s b e = lineStartsIn s b m @ lineStartsIn s m e"
proof -
  have "[b..<e] = [b..<m] @ [m..<e]" using assms upt_add_eq_append [of b m "e - m"] by simp
  then show ?thesis by (simp add: lineStartsIn_def)
qed

lemma lineStartsIn_empty [simp]: "lineStartsIn s b b = []"
  by (simp add: lineStartsIn_def)

lemma lineStartsIn_one [simp]: "lineStartsIn s b (Suc b) = (if s ! b = newlineChar then [Suc b] else [])"
  by (simp add: lineStartsIn_def)

lemma lineStartsIn_none: "\<not> hasNewline s b e \<Longrightarrow> lineStartsIn s b e = []"
  by (auto simp: hasNewline_iff lineStartsIn_def filter_empty_conv)

lemma lineStartsIn_step:
  "b < e \<Longrightarrow> lineStartsIn s b e = (if s ! b = newlineChar then [Suc b] else []) @ lineStartsIn s (b + 1) e"
  using lineStartsIn_split [of b "b + 1" e s] by simp

lemma stretch_flat: "stretch s n i e \<Longrightarrow> \<not> hasNewline s i e \<and> lineStartsIn s i e = []"
  by (auto simp: stretch_def hasNewline_iff lineStartsIn_none)

lemma noteLoop_eq:
  "k \<le> e \<Longrightarrow> noteLoop s e k any lines = (any \<or> hasNewline s k e, lines @ map u32 (lineStartsIn s k e))"
proof (induction s e k any lines rule: noteLoop.induct)
  case (1 s e k any lines)
  let ?f = "lineEnd s e k"
  have f: "k \<le> ?f" "?f \<le> e" "\<not> hasNewline s k ?f"
    using "1.prems" scanWhile_ge [of k "\<lambda>c. c \<noteq> newlineChar" s e] scanWhile_le [of k e "\<lambda>c. c \<noteq> newlineChar" s]
      scanWhile_in [of k _ "\<lambda>c. c \<noteq> newlineChar" s e]
    by (auto simp: lineEnd_def hasNewline_iff)
  show ?case
  proof (cases "k < e \<and> ?f < e")
    case True
    then have nl: "s ! ?f = newlineChar" using scanWhile_stop [of "\<lambda>c. c \<noteq> newlineChar" s e k] by (simp add: lineEnd_def)
    have "noteLoop s e k any lines = noteLoop s e (?f + 1) True (lines @ [u32 (?f + 1)])"
      using True by (subst noteLoop.simps) (simp add: Let_def)
    also have "\<dots> = (True, lines @ [u32 (?f + 1)] @ map u32 (lineStartsIn s (?f + 1) e))"
      using "1.IH" True by simp
    also have "lineStartsIn s k e = Suc ?f # lineStartsIn s (?f + 1) e"
      using lineStartsIn_split [of k ?f e s] lineStartsIn_step [of ?f e s] f True nl lineStartsIn_none by simp
    moreover have "hasNewline s k e" using True f nl by (auto simp: hasNewline_iff)
    ultimately show ?thesis by simp
  next
    case False
    then have "k = e \<or> ?f = e" using f "1.prems" by auto
    then have "\<not> hasNewline s k e" using f(3) by (auto simp: hasNewline_iff)
    moreover have "noteLoop s e k any lines = (any, lines)" using False by (subst noteLoop.simps) (auto simp: Let_def)
    ultimately show ?thesis using lineStartsIn_none by simp
  qed
qed

lemma noteLines_eq: "b \<le> e \<Longrightarrow> noteLines s b e st = (hasNewline s b e, passLines s b e st)"
  by (simp add: noteLines_def noteLoop_eq passLines_def)

section \<open>Stretches\<close>

lemma stretch_refl [intro]: "i \<le> n \<Longrightarrow> stretch s n i i"
  by (simp add: stretch_def)

lemma stretch_trans [trans]: "stretch s n i j \<Longrightarrow> stretch s n j e \<Longrightarrow> stretch s n i e"
  by (fastforce simp: stretch_def not_le)

lemma stretch_next: "i < n \<Longrightarrow> s ! i \<noteq> newlineChar \<Longrightarrow> stretch s n i (i + 1)"
  by (auto simp: stretch_def less_Suc_eq)

lemma stretch_scan: "i \<le> n \<Longrightarrow> \<not> P newlineChar \<Longrightarrow> stretch s n i (scanWhile P s n i)"
  unfolding stretch_def using scanWhile_ge scanWhile_le scanWhile_in by metis

lemma byteAt_in: "byteAt s n k = c \<Longrightarrow> c \<noteq> CHR 0x00 \<Longrightarrow> k < n \<and> s ! k = c"
  by (auto simp: byteAt_def split: if_splits)

lemma byteAt_class: "P (byteAt s n k) \<Longrightarrow> \<not> P (CHR 0x00) \<Longrightarrow> k < n \<and> P (s ! k)"
  by (auto simp: byteAt_def split: if_splits)

lemma class_plain [simp]:
  "\<not> isIdentPart newlineChar" "\<not> isDigit newlineChar" "\<not> isHexDigit newlineChar" "\<not> isLineBody newlineChar"
  "\<not> isIdentPart (CHR 0x00)" "\<not> isDigit (CHR 0x00)" "\<not> between (CHR ''0'') newlineChar (CHR ''7'')"
  "charClass newlineChar = kNewline"
  by (simp_all add: isIdentPart_def isDigit_def isHexDigit_def isLineBody_def charClass_def between_def)

lemma stretch_byte: "byteAt s n i = c \<Longrightarrow> c \<noteq> CHR 0x00 \<Longrightarrow> c \<noteq> newlineChar \<Longrightarrow> stretch s n i (i + 1)"
  using byteAt_in [of s n i c] stretch_next by auto

lemma stretch_exponent: 
  assumes "j \<le> n" shows "stretch s n j (exponentEnd s n j)"
proof (cases "byteAt s n j \<noteq> CHR ''e'' \<and> byteAt s n j \<noteq> CHR ''E''")
  case True then show ?thesis using assms by (simp add: exponentEnd_def stretch_refl)
next
  case False
  define sgn where "sgn \<longleftrightarrow> byteAt s n (j + 1) = CHR ''+'' \<or> byteAt s n (j + 1) = CHR ''-''"
  define k where "k = (if sgn then j + 2 else j + 1)"
  have j: "stretch s n j (j + 1)" using False stretch_byte [of s n j] by auto
  have "sgn \<Longrightarrow> stretch s n (j + 1) (j + 2)" using stretch_byte [of s n "j + 1"] by (auto simp: sgn_def)
  then have "stretch s n (j + 1) k" using j by (auto simp: k_def stretch_def)
  then have k: "stretch s n j k" using j stretch_trans by blast
  show ?thesis
  proof (cases "isDigit (byteAt s n k)")
    case True
    have "exponentEnd s n j = scanWhile isDigit s n k" using True by (simp only: exponentEnd_def Let_def k_def [symmetric] sgn_def [symmetric] False if_False simp_thms)
    moreover have "k < n" using byteAt_class [of isDigit s n k] True by simp
    ultimately show ?thesis using k stretch_scan [of k n isDigit s] stretch_trans [OF k] by simp
  next
    case no: False
    then have "exponentEnd s n j = j" using no by (simp only: exponentEnd_def Let_def k_def [symmetric] sgn_def [symmetric] False if_False if_True simp_thms)
    then show ?thesis using assms by auto
  qed
qed

lemma stretch_imaginary: "imaginarySuffix s n k \<Longrightarrow> stretch s n k (k + 1)"
  unfolding imaginarySuffix_def by (rule stretch_byte [of s n k "CHR ''i''"]) auto

lemmas stretch_intros = stretch_trans stretch_scan stretch_exponent stretch_imaginary

section \<open>Strings\<close>

lemma hashRun_spec:
  "hashRun s n h k seen = (k', seen') \<Longrightarrow> k \<le> n \<Longrightarrow> stretch s n k k' \<and> seen' = seen + (k' - k)"
proof (induction s n h k seen rule: hashRun.induct)
  case (1 s n h k seen)
  show ?case
  proof (cases "k < n \<and> s ! k = CHR ''#'' \<and> seen < h")
    case True
    then have "hashRun s n h (k + 1) (seen + 1) = (k', seen')" using "1.prems" by (simp add: hashRun.simps [of s n h k])
    then have r: "stretch s n (k + 1) k'" "seen' = seen + 1 + (k' - (k + 1))" using "1.IH" True by auto
    moreover have "k + 1 \<le> k'" using r(1) by (simp add: stretch_def)
    ultimately show ?thesis using stretch_trans [OF stretch_next [of k n s] r(1)] True by auto
  next
    case False
    then show ?thesis using "1.prems" by (auto simp: hashRun.simps [of s n h k] split: if_splits)
  qed
qed

lemma rawLoop_spec:
  "rawLoop s n h j lines = (r, lines') \<Longrightarrow> j \<le> n \<Longrightarrow>
   (\<exists>more. lines' = lines @ more) \<and>
   (\<forall>k. r = Some k \<longrightarrow> j < k \<and> k \<le> n \<and> lines' = lines @ map u32 (lineStartsIn s j k))"
proof (induction s n h j lines rule: rawLoop.induct)
  case (1 s n h j lines)
  define here where "here = (if s ! j = newlineChar then [u32 (j + 1)] else [])"
  obtain k seen where hr: "hashRun s n h (j + 1) 0 = (k, seen)" by (cases "hashRun s n h (j + 1) 0")
  have next_lines: "(if s ! j = newlineChar then lines @ [u32 (j + 1)] else lines) = lines @ here" by (simp add: here_def)
  show ?case
  proof (cases "j < n")
    case True
    note eq = rawLoop.simps [of s n h j lines, unfolded hr Let_def prod.case next_lines]
    show ?thesis
    proof (cases "s ! j = CHR 0x22 \<and> seen = h")
      case close: True
      then have r: "r = Some k" "lines' = lines @ here" using "1.prems" True eq by auto
      have st: "stretch s n (j + 1) k" using hashRun_spec [OF hr] True by simp
      then have "lineStartsIn s j k = []" "j < k" "k \<le> n" "here = []"
        using lineStartsIn_step [of j k s] stretch_flat [OF st] close by (auto simp: stretch_def here_def)
      then show ?thesis using r by simp
    next
      case False
      then have rec: "rawLoop s n h (j + 1) (lines @ here) = (r, lines')" using "1.prems" True eq by auto
      have "(\<exists>more. lines' = (lines @ here) @ more) \<and>
        (\<forall>k. r = Some k \<longrightarrow> j + 1 < k \<and> k \<le> n \<and> lines' = (lines @ here) @ map u32 (lineStartsIn s (j + 1) k))"
        using "1.IH" [OF True next_lines [symmetric] hr [symmetric] refl False] rec True by auto
      then show ?thesis using lineStartsIn_step [of j _ s] by (auto simp: here_def)
    qed
  next
    case False
    then show ?thesis using "1.prems"(1) by (auto simp: rawLoop.simps [of s n h j lines])
  qed
qed

lemma stringLoop_spec:
  "stringLoop c s n j lines = (r, lines') \<Longrightarrow> j \<le> n \<Longrightarrow> c \<noteq> newlineChar \<Longrightarrow>
   (\<exists>more. lines' = lines @ more) \<and> r = skipString c s n j \<and>
   (\<forall>k. r = Some k \<longrightarrow> lines' = lines @ map u32 (lineStartsIn s j k))"
proof (induction c s n j lines rule: stringLoop.induct)
  case (1 c s n j lines)
  let ?esc = "s ! j = CHR 0x5C \<and> j + 1 < n \<and> (s ! (j + 1) = c \<or> s ! (j + 1) = CHR 0x5C)"
  consider (out) "\<not> j < n" | (close) "j < n" "s ! j = c" | (esc) "j < n" "s ! j \<noteq> c" ?esc | (plain) "j < n" "s ! j \<noteq> c" "\<not> ?esc"
    by blast
  then show ?case
  proof cases
    case out then show ?thesis using "1.prems"(1) by (auto simp: stringLoop.simps [of c s n j] skipString.simps [of c s n j])
  next
    case close then show ?thesis using "1.prems" by (auto simp: stringLoop.simps [of c s n j] skipString.simps [of c s n j])
  next
    case esc
    have rec: "stringLoop c s n (j + 2) lines = (r, lines')" using "1.prems"(1) esc by (subst (asm) stringLoop.simps) (auto split: if_splits)
    have "(\<exists>more. lines' = lines @ more) \<and> r = skipString c s n (j + 2) \<and> (\<forall>k. r = Some k \<longrightarrow> lines' = lines @ map u32 (lineStartsIn s (j + 2) k))"
      using "1.IH"(1,2) esc rec "1.prems"(3) by (cases "s ! (j + 1) = c") auto
    moreover have "skipString c s n j = skipString c s n (j + 2)" using esc by (subst skipString.simps) auto
    moreover have "lineStartsIn s j k = lineStartsIn s (j + 2) k" if "j + 2 < k" for k
      using that esc "1.prems"(3) lineStartsIn_step [of j k s] lineStartsIn_step [of "j + 1" k s] by auto
    ultimately show ?thesis using skipString_Some [of c s n "j + 2"] by auto
  next
    case plain
    define here where "here = (if s ! j = newlineChar then [u32 (j + 1)] else [])"
    have rec: "stringLoop c s n (j + 1) (lines @ here) = (r, lines')"
      using "1.prems"(1) plain by (subst (asm) stringLoop.simps) (auto simp: here_def split: if_splits)
    have "(\<exists>more. lines' = (lines @ here) @ more) \<and> r = skipString c s n (j + 1) \<and>
      (\<forall>k. r = Some k \<longrightarrow> lines' = (lines @ here) @ map u32 (lineStartsIn s (j + 1) k))"
      using "1.IH"(3) plain rec "1.prems"(3) by (auto simp: here_def)
    moreover have "skipString c s n j = skipString c s n (j + 1)" using plain by (subst skipString.simps) auto
    ultimately show ?thesis using skipString_Some [of c s n "j + 1"] lineStartsIn_step [of j _ s] by (auto simp: here_def)
  qed
qed

lemma fstringLoop_end: "fst (fstringLoop s n j parts) = skipFString s n j"
proof (induction s n j parts rule: fstringLoop.induct)
  case (1 s n j parts)
  note eqs = fstringLoop.simps [of s n j parts] skipFString.simps [of s n j]
  consider (out) "\<not> j < n \<or> s ! j = CHR 0x60"
    | (esc) "j < n" "s ! j \<noteq> CHR 0x60" "s ! j = CHR 0x5C \<and> j + 1 < n"
    | (expr) "j < n" "s ! j \<noteq> CHR 0x60" "\<not> (s ! j = CHR 0x5C \<and> j + 1 < n)" "s ! j = CHR ''$'' \<and> j + 1 < n \<and> s ! (j + 1) = CHR ''{''"
    | (plain) "j < n" "s ! j \<noteq> CHR 0x60" "\<not> (s ! j = CHR 0x5C \<and> j + 1 < n)" "\<not> (s ! j = CHR ''$'' \<and> j + 1 < n \<and> s ! (j + 1) = CHR ''{'')"
    by blast
  then show ?case
  proof cases
    case out then show ?thesis by (auto simp: eqs)
  next
    case esc
    consider "j + 2 < n \<and> s ! (j + 1) = CHR ''$'' \<and> s ! (j + 2) = CHR ''{''"
      | "\<not> (j + 2 < n \<and> s ! (j + 1) = CHR ''$'' \<and> s ! (j + 2) = CHR ''{'')" "s ! (j + 1) = CHR 0x60"
      | "\<not> (j + 2 < n \<and> s ! (j + 1) = CHR ''$'' \<and> s ! (j + 2) = CHR ''{'')" "s ! (j + 1) \<noteq> CHR 0x60" "s ! (j + 1) = CHR 0x5C"
      | "\<not> (j + 2 < n \<and> s ! (j + 1) = CHR ''$'' \<and> s ! (j + 2) = CHR ''{'')" "s ! (j + 1) \<noteq> CHR 0x60" "s ! (j + 1) \<noteq> CHR 0x5C"
      by blast
    then show ?thesis by cases (simp_all only: eqs esc "1.IH"(1-4) [OF esc] if_True if_False simp_thms char.inject)
  next
    case expr
    then show ?thesis
      by (cases "scanInterpolation s n (j + 2) 0") (simp_all only: eqs "1.IH"(5) [OF expr] option.case if_True if_False simp_thms fst_conv)
  next
    case plain
    then show ?thesis by (simp only: eqs "1.IH"(6) [OF plain] if_True if_False simp_thms)
  qed
qed

end
