(* ===== verification/Lexer_Refine.thy ===== *)
theory Lexer_Refine
  imports Lexer_Move
begin

text \<open>
  Every branch of the lexer is a move: the refinement of the abstract steps of \<open>Lexer_Move\<close> by the
  code of the loop.
\<close>

unbundle bit_operations_syntax

section \<open>Moves over a stretch of one line\<close>

lemma passLines_flat: "\<not> hasNewline s i j \<Longrightarrow> passLines s i j st = st"
  by (simp add: passLines_def lineStartsIn_none)

lemma passLines_fields [simp]:
  "lxTokens (passLines s i j st) = lxTokens st" "lxErrors (passLines s i j st) = lxErrors st"
  "lxInterpolations (passLines s i j st) = lxInterpolations st" "lxPending (passLines s i j st) = lxPending st"
  "lxPrevious (passLines s i j st) = lxPrevious st" "lxLines (passLines s i j st) = lxLines st @ map u32 (lineStartsIn s i j)"
  by (simp_all add: passLines_def)

lemma solid_move:
  "i < j \<Longrightarrow> j \<le> n \<Longrightarrow> \<not> isTrivia kind \<Longrightarrow> kind \<noteq> Eof \<Longrightarrow> lexMove s n (i, st) (j, emit kind i j (passLines s i j st))"
  using Solid [of i j n kind s st "lxInterpolations st"] by (simp add: passLines_def)

lemma solid_stretch:
  "stretch s n i j \<Longrightarrow> i < j \<Longrightarrow> \<not> isTrivia kind \<Longrightarrow> kind \<noteq> Eof \<Longrightarrow> lexMove s n (i, st) (j, emit kind i j st)"
  using solid_move [of i j n kind s st] stretch_flat [of s n i j] by (simp add: passLines_flat stretch_def)

lemma comment_stretch:
  "stretch s n i j \<Longrightarrow> i < j \<Longrightarrow> isTrivia kind \<Longrightarrow> kind \<noteq> Error \<Longrightarrow> lexMove s n (i, st) (j, emitTrivia kind i j False st)"
  using Comment [of i j n kind s st] stretch_flat [of s n i j] by (simp add: passLines_flat stretch_def)

lemma refused_stretch:
  "stretch s n i j \<Longrightarrow> i < j \<Longrightarrow> i \<le> b \<Longrightarrow> b \<le> j \<Longrightarrow>
   lexMove s n (i, st) (j, emitTrivia Error i j False (pushError err b j st))"
  using Refused [of i j n b s st err] stretch_flat [of s n i j] by (simp add: passLines_flat stretch_def)

lemma trivia_kinds [simp]:
  "\<not> isTrivia Identifier" "\<not> isTrivia Integer" "\<not> isTrivia Real" "\<not> isTrivia Imaginary" "\<not> isTrivia String"
  "\<not> isTrivia RawString" "\<not> isTrivia MultiStr" "\<not> isTrivia FString" "\<not> isTrivia (Kw k)" "\<not> isTrivia (Pn p)" "\<not> isTrivia Eof"
  "isTrivia Error" "isTrivia Command" "isTrivia LineComment" "isTrivia DocComment" "isTrivia BlockComment"
  by (simp_all add: isTrivia_def)

section \<open>Words\<close>

lemma keyword_kind: "map_of (map (\<lambda>i. (kwText i, kwKind i)) keywordTable) w = Some k \<Longrightarrow> \<exists>x. k = Kw x"
proof -
  have "\<forall>i \<in> set keywordTable. \<exists>x. kwKind i = Kw x" by (simp add: keywordTable_def)
  then show "map_of (map (\<lambda>i. (kwText i, kwKind i)) keywordTable) w = Some k \<Longrightarrow> \<exists>x. k = Kw x"
    by (auto dest!: map_of_SomeD)
qed

lemma classifyWord_solid: "\<not> isTrivia (classifyWord w)" "classifyWord w \<noteq> Eof"
  using keyword_kind [of w] by (auto simp: classifyWord_eq split: option.splits)

lemma lineEnd_stretch: "i < n \<Longrightarrow> s ! i \<noteq> newlineChar \<Longrightarrow> stretch s n i (lineEnd s n i) \<and> i < lineEnd s n i"
proof -
  assume i: "i < n" "s ! i \<noteq> newlineChar"
  have "lineEnd s n i = scanWhile (\<lambda>c. c \<noteq> newlineChar) s n (i + 1)" unfolding lineEnd_def using i by (subst scanWhile.simps) simp
  then show ?thesis using stretch_scan [of i n "\<lambda>c. c \<noteq> newlineChar" s] i scanWhile_ge [of "i + 1" "\<lambda>c. c \<noteq> newlineChar" s n]
    by (simp add: lineEnd_def)
qed

lemma lineEnd_past: "stretch s n i k \<Longrightarrow> k \<le> lineEnd s n i"
proof (rule ccontr)
  assume k: "stretch s n i k" and "\<not> k \<le> lineEnd s n i"
  then have "lineEnd s n i < n" "lineEnd s n i < k" by (auto simp: stretch_def)
  moreover have "i \<le> lineEnd s n i" by (simp add: lineEnd_def scanWhile_ge)
  ultimately show False using k scanWhile_stop [of "\<lambda>c. c \<noteq> newlineChar" s n i] by (auto simp: stretch_def lineEnd_def)
qed

lemma refuseString_move:
  "i < n \<Longrightarrow> s ! i \<noteq> newlineChar \<Longrightarrow> stretch s n i opened \<Longrightarrow> lexMove s n (i, st) (refuseString s n i opened st)"
  unfolding refuseString_def Let_def
  using refused_stretch [of s n i "lineEnd s n i" opened st UnclosedString] lineEnd_stretch [of i n s] lineEnd_past [of s n i opened]
  by (auto simp: stretch_def)

lemma take_same: "\<exists>rest. l' = l @ rest \<Longrightarrow> take (length l) l' = l"
  by auto

lemma lexWord_move:
  assumes i: "i < n" and c: "charClass (s ! i) = kIdentStart"
  shows "lexMove s n (i, st) (lexWord s n i st)"
proof -
  have nl: "s ! i \<noteq> newlineChar" using c by auto
  define hashes where "hashes = (if s ! i = CHR ''r'' then scanWhile (\<lambda>c. c = CHR ''#'') s n (i + 1) - (i + 1) else 0)"
  note d = lexWord_def [of s n i st, folded hashes_def, unfolded Let_def]
  show ?thesis
  proof (cases "s ! i = CHR ''r'' \<and> byteAt s n (i + 1 + hashes) = CHR 0x22")
    case True
    have "stretch s n (i + 1) (scanWhile (\<lambda>c. c = CHR ''#'') s n (i + 1))" using i by (intro stretch_scan) auto
    moreover have "i + 1 + hashes = scanWhile (\<lambda>c. c = CHR ''#'') s n (i + 1)"
      using True scanWhile_ge [of "i + 1" "\<lambda>c. c = CHR ''#''" s n] by (simp add: hashes_def)
    ultimately have s1: "stretch s n i (i + 1 + hashes)" using stretch_trans [OF stretch_next [OF i nl]] by simp
    have s2: "stretch s n (i + 1 + hashes) (i + 1 + hashes + 1)" using True by (intro stretch_byte) auto
    have s3: "stretch s n i (i + 1 + hashes + 1)" using stretch_trans [OF s1 s2] .
    obtain r lines where rl: "rawLoop s n hashes (i + 1 + hashes + 1) (lxLines st) = (r, lines)" by fastforce
    note spec = rawLoop_spec [OF rl]
    show ?thesis
    proof (cases r)
      case None
      have "take (length (lxLines st)) lines = lxLines st" using spec s2 by (intro take_same) (auto simp: stretch_def)
      then have "lexWord s n i st = refuseString s n i (i + 1 + hashes) st" using True rl None by (simp add: d)
      then show ?thesis using refuseString_move [OF i nl s1] by simp
    next
      case (Some j)
      have j: "i < j" "j \<le> n" "lines = lxLines st @ map u32 (lineStartsIn s (i + 1 + hashes + 1) j)"
        using spec Some s2 by (auto simp: stretch_def)
      have "lineStartsIn s i j = lineStartsIn s (i + 1 + hashes + 1) j"
        using lineStartsIn_split [of i "i + 1 + hashes + 1" j s] stretch_flat [OF s3] spec Some s2 by (auto simp: stretch_def)
      then have "st\<lparr>lxLines := lines\<rparr> = passLines s i j st" using j(3) by (simp add: passLines_def)
      then have "lexWord s n i st = (j, emit RawString i j (passLines s i j st))" using True rl Some by (simp add: d)
      then show ?thesis using solid_move j(1,2) by simp
    qed
  next
    case False
    let ?j = "scanWhile isIdentPart s n (i + 1)"
    have "stretch s n i ?j" "i < ?j"
      using stretch_trans [OF stretch_next [OF i nl] stretch_scan [of "i + 1" n isIdentPart s]] i
        scanWhile_ge [of "i + 1" isIdentPart s n] by auto
    moreover have "lexWord s n i st = (?j, emit (classifyWord (take (?j - i) (drop i s))) i ?j st)" by (simp only: d False if_False)
    ultimately show ?thesis using solid_stretch classifyWord_solid by simp
  qed
qed

section \<open>Numbers\<close>

lemma stretch_prefix: "stretch s n i e \<Longrightarrow> i \<le> j \<Longrightarrow> j \<le> e \<Longrightarrow> stretch s n i j"
  by (auto simp: stretch_def)

lemma refuseNumber_move: "stretch s n i e \<Longrightarrow> i < e \<Longrightarrow> lexMove s n (i, st) (refuseNumber i e st)"
  unfolding refuseNumber_def by (rule refused_stretch) auto

lemma stretch_on:
  "stretch s n i e \<Longrightarrow> \<not> P newlineChar \<Longrightarrow> stretch s n i (scanWhile P s n e)"
  "stretch s n i e \<Longrightarrow> stretch s n i (exponentEnd s n e)"
  "stretch s n i e \<Longrightarrow> imaginarySuffix s n e \<Longrightarrow> stretch s n i (e + 1)"
  "stretch s n i e \<Longrightarrow> byteAt s n e = c \<Longrightarrow> c \<noteq> CHR 0x00 \<Longrightarrow> c \<noteq> newlineChar \<Longrightarrow> stretch s n i (e + 1)"
  by (blast intro: stretch_trans stretch_scan stretch_exponent stretch_imaginary stretch_byte dest: stretch_def [THEN iffD1])+

lemma exponentEnd_ge: "j \<le> n \<Longrightarrow> j \<le> exponentEnd s n j"
  using stretch_exponent [of j n s] by (simp add: stretch_def)

lemma lexReal_move:
  assumes j: "stretch s n i j" "i < j" and dot: "byteAt s n j = CHR ''.''" and dig: "isDigit (byteAt s n (j + 1))"
  shows "lexMove s n (i, st) (lexReal s n i j st)"
proof -
  define k where "k = exponentEnd s n (scanWhile isDigit s n (j + 2))"
  have "stretch s n i (j + 1)" using stretch_on(4) [OF j(1) dot] by simp
  moreover have "j + 1 < n" "isDigit (s ! (j + 1))" using byteAt_class [of isDigit s n "j + 1"] dig by auto
  moreover from this have "s ! (j + 1) \<noteq> newlineChar" by auto
  ultimately have "stretch s n i (j + 2)" using stretch_trans [OF _ stretch_next [of "j + 1" n s]] by auto
  then have s: "stretch s n i (scanWhile isDigit s n (j + 2))" by (intro stretch_on) auto
  then have k: "stretch s n i k" unfolding k_def by (rule stretch_on)
  have lt: "i < k"
    using exponentEnd_ge [of "scanWhile isDigit s n (j + 2)" n s] s scanWhile_ge [of "j + 2" isDigit s n] j(2) unfolding k_def
    by (auto simp: stretch_def)
  have im: "imaginarySuffix s n k \<Longrightarrow> stretch s n i (k + 1)" using k by (rule stretch_on)
  show ?thesis unfolding lexReal_def Let_def k_def [symmetric]
    using k lt im by (auto intro!: solid_stretch refuseNumber_move)
qed

lemma prefixed_ends:
  assumes i: "stretch s n i (i + 2)"
  shows "stretch s n i (fst (hexEnd s n i)) \<and> i < fst (hexEnd s n i)"
    and "stretch s n i (fst (binEnd s n i)) \<and> i < fst (binEnd s n i)"
    and "stretch s n i (fst (octEnd s n i)) \<and> i < fst (octEnd s n i)"
proof -
  let ?h = "scanWhile isHexDigit s n (i + 2)"
  have h: "stretch s n i ?h" "i + 2 \<le> ?h" using i by (auto intro: stretch_on scanWhile_ge)
  have "stretch s n i (?h - 1)" using h(2) by (intro stretch_prefix [OF h(1)]) auto
  then show "stretch s n i (fst (hexEnd s n i)) \<and> i < fst (hexEnd s n i)"
    using h unfolding hexEnd_def Let_def by (auto split: if_splits)
  let ?b = "scanWhile (\<lambda>c. c = CHR ''0'' \<or> c = CHR ''1'') s n (i + 2)"
  have b: "stretch s n i ?b" "i + 2 \<le> ?b" using i by (auto intro: stretch_on scanWhile_ge)
  then show "stretch s n i (fst (binEnd s n i)) \<and> i < fst (binEnd s n i)"
    using stretch_on(1) [OF b(1), of isDigit] scanWhile_ge [of ?b isDigit s n] unfolding binEnd_def Let_def by (auto split: if_splits)
  let ?o = "scanWhile (\<lambda>c. between (CHR ''0'') c (CHR ''7'')) s n (i + 2)"
  have o: "stretch s n i ?o" "i + 2 \<le> ?o" using i by (auto intro: stretch_on scanWhile_ge)
  then show "stretch s n i (fst (octEnd s n i)) \<and> i < fst (octEnd s n i)"
    using stretch_on(1) [OF o(1), of isDigit] scanWhile_ge [of ?o isDigit s n] unfolding octEnd_def Let_def by (auto split: if_splits)
qed

lemma integerEnd_stretch:
  assumes i: "i < n" "s ! i \<noteq> newlineChar" and j: "stretch s n i j" "i < j"
  shows "stretch s n i (fst (integerEnd s n i j)) \<and> i < fst (integerEnd s n i j)"
proof -
  have one: "stretch s n i (i + 1)" using i by (rule stretch_next)
  have two: "byteAt s n (i + 1) = c \<Longrightarrow> c \<noteq> CHR 0x00 \<Longrightarrow> c \<noteq> newlineChar \<Longrightarrow> stretch s n i (i + 2)" for c
    using stretch_on(4) [OF one, of c] by (simp add: numeral_2_eq_2)
  let ?e = "exponentEnd s n j"
  have e: "stretch s n i ?e" "i < ?e" "imaginarySuffix s n ?e \<Longrightarrow> stretch s n i (?e + 1)"
    using j stretch_on(2) [OF j(1)] exponentEnd_ge [of j n s] stretch_on(3) [OF stretch_on(2) [OF j(1)]] by (auto simp: stretch_def)
  show ?thesis unfolding integerEnd_def Let_def
    using prefixed_ends [OF two [of "CHR ''x''"]] prefixed_ends [OF two [of "CHR ''b''"]] prefixed_ends [OF two [of "CHR ''o''"]] one j e
    by auto
qed

lemma lexInteger_move:
  assumes i: "i < n" "s ! i \<noteq> newlineChar" and j: "stretch s n i j" "i < j"
  shows "lexMove s n (i, st) (lexInteger s n i j st)"
proof -
  obtain d inv where d: "integerEnd s n i j = (d, inv)" by fastforce
  then have ds: "stretch s n i d" "i < d" using integerEnd_stretch [OF assms] by auto
  let ?w = "if d = i + 2 then scanWhile isIdentPart s n d else d" let ?e = "exponentEnd s n d"
  have w: "stretch s n i ?w" "i < ?w" using ds stretch_on(1) [OF ds(1), of isIdentPart] scanWhile_ge [of d isIdentPart s n] by auto
  have e: "stretch s n i ?e" "i < ?e" "imaginarySuffix s n ?e \<Longrightarrow> stretch s n i (?e + 1)"
    using ds stretch_on(2) [OF ds(1)] exponentEnd_ge [of d n s] stretch_on(3) [OF stretch_on(2) [OF ds(1)]] by (auto simp: stretch_def)
  show ?thesis
  proof (cases inv)
    case True
    then have "lexInteger s n i j st = refuseNumber i ?w st" by (simp add: lexInteger_def d)
    then show ?thesis using refuseNumber_move [OF w] by simp
  next
    case False
    let ?dec = "s ! i \<noteq> CHR ''0'' \<or> d = i + 1"
    have eq: "lexInteger s n i j st =
      (if ?dec \<and> imaginarySuffix s n ?e then (?e + 1, emit Imaginary i (?e + 1) st)
       else (?e, emit (if d < ?e \<and> ?dec then Real else Integer) i ?e st))"
      unfolding lexInteger_def d Let_def prod.case using False by (simp only: if_False)
    have "lexMove s n (i, st) (?e, emit (if d < ?e \<and> ?dec then Real else Integer) i ?e st)"
      by (rule solid_stretch [OF e(1,2)]) simp_all
    moreover have "imaginarySuffix s n ?e \<Longrightarrow> lexMove s n (i, st) (?e + 1, emit Imaginary i (?e + 1) st)"
      using e by (intro solid_stretch) simp_all
    ultimately show ?thesis unfolding eq by (cases "?dec \<and> imaginarySuffix s n ?e") (simp_all only: if_True if_False simp_thms)
  qed
qed

lemma lexNumber_move:
  assumes i: "i < n" and c: "charClass (s ! i) = kDigit"
  shows "lexMove s n (i, st) (lexNumber s n i st)"
proof -
  have nl: "s ! i \<noteq> newlineChar" using c by auto
  let ?j = "scanWhile isDigit s n (i + 1)"
  have j: "stretch s n i ?j" "i < ?j"
    using stretch_trans [OF stretch_next [OF i nl] stretch_scan [of "i + 1" n isDigit s]] i scanWhile_ge [of "i + 1" isDigit s n] by auto
  show ?thesis unfolding lexNumber_def Let_def using lexReal_move [OF j] lexInteger_move [OF i nl j] by auto
qed

section \<open>Quotes\<close>

lemma skipFString_lines_end: "fstringLoop s n j [] = (Some k, parts) \<Longrightarrow> j < k \<and> k \<le> n"
  using fstringLoop_end [of s n j "[]"] skipFString_Some [of s n j k] by simp

lemma lexFString_move:
  assumes i: "i < n" "s ! i \<noteq> newlineChar"
  shows "lexMove s n (i, st) (lexFString sub s n i st)"
proof -
  obtain r parts where rp: "fstringLoop s n (i + 1) [] = (r, parts)" by fastforce
  show ?thesis
  proof (cases r)
    case None
    then show ?thesis using refuseString_move [OF i stretch_refl] i rp by (simp add: lexFString_def)
  next
    case (Some j)
    then have j: "i < j" "j \<le> n" using skipFString_lines_end [of s n "i + 1" j parts] rp by auto
    then show ?thesis using Some rp Solid [of i j n FString s st]
      by (simp add: lexFString_def Let_def noteLines_eq)
  qed
qed

lemma lexString_move:
  assumes i: "i < n" "s ! i \<noteq> newlineChar"
  shows "lexMove s n (i, st) (lexString s n i st)"
proof -
  obtain r lines where rl: "stringLoop (s ! i) s n (i + 1) (lxLines st) = (r, lines)" by fastforce
  from stringLoop_spec [OF rl] i have spec: "\<exists>more. lines = lxLines st @ more" "r = skipString (s ! i) s n (i + 1)"
    "\<And>k. r = Some k \<Longrightarrow> lines = lxLines st @ map u32 (lineStartsIn s (i + 1) k)" by auto
  show ?thesis
  proof (cases r)
    case None
    then show ?thesis using refuseString_move [OF i stretch_refl] i rl take_same [OF spec(1)] by (simp add: lexString_def)
  next
    case (Some j)
    then have j: "i < j" "j \<le> n" using spec(2) skipString_Some [of "s ! i" s n "i + 1" j] by auto
    have "st\<lparr>lxLines := lines\<rparr> = passLines s i j st"
      using spec(3) [OF Some] lineStartsIn_step [OF j(1), of s] i by (simp add: passLines_def)
    then show ?thesis using Some rl solid_move [OF j] by (simp add: lexString_def)
  qed
qed

lemma lexQuote_move:
  assumes i: "i < n" and c: "charClass (s ! i) = kQuote"
  shows "lexMove s n (i, st) (lexQuote sub s n i st)"
proof -
  have nl: "s ! i \<noteq> newlineChar" using c by auto
  show ?thesis
  proof (cases "tripleClose s n i")
    case None
    then show ?thesis using lexFString_move [OF i nl] lexString_move [OF i nl] by (simp add: lexQuote_def)
  next
    case (Some k)
    then have "i < k + 3" "k + 3 \<le> n" by (auto simp: tripleClose_def split: if_splits dest: findText_Some)
    then show ?thesis using Some solid_move [of i "k + 3" n MultiStr s st] by (simp add: lexQuote_def noteLines_eq)
  qed
qed

section \<open>Operators, comments and the rest\<close>

lemma lexHash_move:
  assumes i: "i < n" and c: "charClass (s ! i) = kHash"
  shows "lexMove s n (i, st) (lexHash s n i st)"
proof -
  have nl: "s ! i \<noteq> newlineChar" using c by auto
  let ?P = "\<lambda>c. isLineBody c \<and> c \<noteq> CHR 0x0C"
  have "stretch s n i (scanWhile ?P s n (i + 1))" "i < scanWhile ?P s n (i + 1)"
    using stretch_on(1) [OF stretch_next [OF i nl], of ?P] scanWhile_ge [of "i + 1" ?P s n] by auto
  then show ?thesis unfolding lexHash_def Let_def using comment_stretch solid_stretch stretch_next [OF i nl] by auto
qed

lemma punctKind_solid:
  assumes "charClass c = kPunct"
  shows "\<exists>p. fst (punctKind c c1 c2 t) = Pn p"
proof -
  have "c \<in> set '';,:.()[]{}<>=+-*/%^@&|!~?''" using assms by (auto simp: charClass_def split: if_splits)
  then show ?thesis by (auto simp: punctKind_def)
qed

lemma punctKind_length:
  "case punctKind c c1 c2 t of (k, len) \<Rightarrow>
     len = 1 \<or> len = 2 \<and> c1 \<in> set ''=:.>&|!?'' \<or> len = 3 \<and> c1 \<in> set ''=.'' \<and> c2 \<in> set ''=.>''"
  unfolding punctKind_def by (simp split: if_splits)

lemma lexLineComment_move:
  assumes i: "stretch s n i (i + 2)"
  shows "lexMove s n (i, st) (lexLineComment s n i st)"
proof -
  have "stretch s n i (scanWhile isLineBody s n (i + 2))" "i < scanWhile isLineBody s n (i + 2)"
    using stretch_on(1) [OF i, of isLineBody] scanWhile_ge [of "i + 2" isLineBody s n] by auto
  then show ?thesis unfolding lexLineComment_def Let_def by (intro comment_stretch) auto
qed

lemma lexBlockComment_move:
  assumes i: "i < n"
  shows "lexMove s n (i, st) (lexBlockComment s n i st)"
proof (cases "findText ''*/'' s n (i + 2)")
  case None
  have "passLines s i n (pushError UnterminatedComment i n st) = pushError UnterminatedComment i n (passLines s i n st)"
    by (simp add: passLines_def pushError_def)
  then show ?thesis using Refused [of i n n i s st UnterminatedComment] i None by (simp add: lexBlockComment_def noteLines_eq)
next
  case (Some k)
  then have "i < k + 2" "k + 2 \<le> n" using findText_Some [OF Some] by auto
  then show ?thesis using Comment [of i "k + 2" n BlockComment s st] Some by (simp add: lexBlockComment_def noteLines_eq)
qed

lemma lexPunct_move:
  assumes i: "i < n" and c: "charClass (s ! i) = kPunct"
  shows "lexMove s n (i, st) (lexPunct s n i st)"
proof -
  have nl: "s ! i \<noteq> newlineChar" using c by auto
  have one: "stretch s n i (i + 1)" using stretch_next [OF i nl] .
  have two: "byteAt s n (i + 1) = c \<Longrightarrow> c \<noteq> CHR 0x00 \<Longrightarrow> c \<noteq> newlineChar \<Longrightarrow> stretch s n i (i + 2)" for c
    using stretch_on(4) [OF one, of c] by (simp add: numeral_2_eq_2)
  obtain k len where p: "punctKind (s ! i) (byteAt s n (i + 1)) (byteAt s n (i + 2)) (lxPending st = 0 \<and> endsAngleHost (lxPrevious st)) = (k, len)"
    by fastforce
  obtain p' where k: "k = Pn p'" using punctKind_solid [OF c] p by (metis fst_conv)
  have len: "len = 1 \<or> len = 2 \<and> byteAt s n (i + 1) \<in> set ''=:.>&|!?'' \<or>
      len = 3 \<and> byteAt s n (i + 1) \<in> set ''=.'' \<and> byteAt s n (i + 2) \<in> set ''=.>''"
    using punctKind_length [where c = "s ! i" and ?c1.0 = "byteAt s n (i + 1)" and ?c2.0 = "byteAt s n (i + 2)"
        and t = "lxPending st = 0 \<and> endsAngleHost (lxPrevious st)"] unfolding p by simp
  have "stretch s n i (i + len)"
    using len
  proof (elim disjE conjE)
    assume l: "len = 2" "byteAt s n (i + 1) \<in> set ''=:.>&|!?''"
    then show ?thesis using two [OF refl] by auto
  next
    assume l: "len = 3" "byteAt s n (i + 1) \<in> set ''=.''" "byteAt s n (i + 2) \<in> set ''=.>''"
    then have "stretch s n i (i + 2)" using two [OF refl] by auto
    then show ?thesis using l stretch_on(4) [of s n i "i + 2", OF _ refl] by (auto simp: numeral_3_eq_3)
  qed (use one in simp)
  then have "lexMove s n (i, st) (i + len, emit k i (i + len) st)" using len k by (intro solid_stretch) auto
  then show ?thesis unfolding lexPunct_def Let_def p prod.case
    using lexLineComment_move [OF two] lexBlockComment_move [OF i] by auto
qed

lemma lexIllegal_move:
  assumes i: "i < n" and c: "charClass (s ! i) = kIllegal"
  shows "lexMove s n (i, st) (lexIllegal s n i st)"
proof -
  let ?P = "\<lambda>c. charClass c = kIllegal" let ?j = "scanWhile ?P s n i"
  have "?j = scanWhile ?P s n (i + 1)" using i c by (subst scanWhile.simps) simp
  then have "i < ?j" using scanWhile_ge [of "i + 1" ?P s n] by simp
  moreover have "stretch s n i ?j" using i by (intro stretch_scan) auto
  ultimately show ?thesis unfolding lexIllegal_def Let_def by (intro refused_stretch) auto
qed

lemma newline_class: "charClass c = kNewline \<longleftrightarrow> c = newlineChar"
  by (auto simp: charClass_def split: if_splits)

lemma lexNewline_move:
  assumes i: "i < n" and c: "charClass (s ! i) = kNewline"
  shows "lexMove s n (i, st) (lexNewline i st)"
  using Newline [OF i, of s st] c by (cases st) (simp add: lexNewline_def newline_class passLines_def)

lemma lexBlank_move:
  assumes i: "i < n" and c: "charClass (s ! i) = kBlank"
  shows "lexMove s n (i, st) (lexBlank i st)"
  using Blank [OF assms] by (simp add: lexBlank_def)

theorem lexStep_move: "i < n \<Longrightarrow> lexMove s n (i, st) (lexStep sub s n i st)"
  unfolding lexStep_def
  by (cases "charClass (s ! i)")
    (simp_all add: lexBlank_move lexNewline_move lexWord_move lexNumber_move lexQuote_move lexHash_move lexPunct_move lexIllegal_move)

lemma lexMove_forward: "lexMove s n (i, st) (j, st') \<Longrightarrow> i < j \<and> j \<le> n"
  by (auto elim: lexMove.cases)

lemma lexStep_forward: "i < n \<Longrightarrow> lexStep sub s n i st = (j, st') \<Longrightarrow> i < j \<and> j \<le> n"
  using lexStep_move [of i n s st sub] lexMove_forward by metis

end
