(* ===== verification/Forward_Loop.thy ===== *)
theory Forward_Loop
  imports Prelude
begin

text \<open>
  The interface of a loop that reads a range from left to right: a step that moves forward and
  stays in the range, and a loop that repeats it to the end. Clients get invariants and progress
  from it; the lexer's loop is an instance.
\<close>

locale forward_loop =
  fixes step :: "nat \<Rightarrow> 'st \<Rightarrow> nat \<times> 'st"
    and loop :: "nat \<Rightarrow> 'st \<Rightarrow> 'st"
    and n :: nat
  assumes forward: "i < n \<Longrightarrow> step i st = (j, st') \<Longrightarrow> i < j \<and> j \<le> n"
    and loop_eq: "loop i st = (if i < n then case step i st of (j, st') \<Rightarrow> loop j st' else st)"
begin

definition turn :: "nat \<times> 'st \<Rightarrow> nat \<times> 'st" where
  "turn x = (if fst x < n then step (fst x) (snd x) else x)"

lemma loop_next: "i < n \<Longrightarrow> step i st = (j, st') \<Longrightarrow> loop i st = loop j st'"
  using loop_eq [of i st] by simp

lemma loop_end: "loop n st = st"
  using loop_eq [of n st] by simp

lemma loop_invariant:
  assumes "i \<le> n" "Inv i st"
    and keeps: "\<And>i st j st'. i < n \<Longrightarrow> Inv i st \<Longrightarrow> step i st = (j, st') \<Longrightarrow> Inv j st'"
  shows "Inv n (loop i st)"
  using assms(1,2)
proof (induction "n - i" arbitrary: i st rule: less_induct)
  case less
  show ?case
  proof (cases "i < n")
    case True
    obtain j st' where s: "step i st = (j, st')" by fastforce
    have j: "i < j" "j \<le> n" using forward [OF True s] by auto
    then have "Inv n (loop j st')" using less.hyps [OF _ j(2) keeps [OF True less.prems(2) s]] True by simp
    then show ?thesis using loop_next [OF True s] by simp
  next
    case False
    then show ?thesis using less.prems loop_end by simp
  qed
qed

lemma loop_reaches_end:
  "i \<le> n \<Longrightarrow> \<exists>k \<le> n - i. (turn ^^ k) (i, st) = (n, loop i st)"
proof (induction "n - i" arbitrary: i st rule: less_induct)
  case less
  show ?case
  proof (cases "i < n")
    case True
    obtain j st' where s: "step i st = (j, st')" by fastforce
    have j: "i < j" "j \<le> n" using forward [OF True s] by auto
    obtain k where k: "k \<le> n - j" "(turn ^^ k) (j, st') = (n, loop j st')"
      using less.hyps [OF diff_less_mono2 [OF j(1) True] j(2), of st'] by blast
    have "(turn ^^ Suc k) (i, st) = (n, loop i st)"
      using k(2) s True loop_next [OF True s] by (simp add: funpow_Suc_right turn_def del: funpow.simps)
    moreover have "Suc k \<le> n - i" using k(1) j by simp
    ultimately show ?thesis by blast
  next
    case False
    then show ?thesis using less.prems loop_end by (intro exI [of _ 0]) simp
  qed
qed

end

end
