(* ===== verification/Lexer_Loop.thy ===== *)
theory Lexer_Loop
  imports Lexer_Refine Forward_Loop
begin

text \<open>
  The lexer's loop and its entry points (\<open>Lexer::tokenizeImpl\<close>, \<open>tokenize\<close>, \<open>tokenizeRange\<close>). Every
  turn moves forward, so the loop ends. The lexer calls itself on the text of each \<open>${...}\<close> to find
  the format specification and reads the tokens of that call only; these do not depend on what
  the call finds inside formatted strings of its own, so \<open>tokenizeImpl\<close> is written in two layers,
  and \<open>tokenizeImpl_recursive\<close> shows that it satisfies the recursion of the source.
\<close>

function lexLoop :: "(nat \<Rightarrow> nat \<Rightarrow> Token list) \<Rightarrow> string \<Rightarrow> nat \<Rightarrow> nat \<Rightarrow> LexState \<Rightarrow> LexState" where
  "lexLoop sub s n i st = (if i < n then case lexStep sub s n i st of (j, st') \<Rightarrow> lexLoop sub s n j st' else st)"
  by auto
termination
proof (relation "measure (\<lambda>(sub, s, n, i, st). n - i)")
  fix sub s n i st j st' assume h: "i < n" "(j, st') = lexStep sub s n i st"
  have "i < j" using lexStep_forward [OF h(1), of sub s st j st'] h by simp
  then show "((sub, s, n, j, st'), sub, s, n, i, st) \<in> measure (\<lambda>(sub, s, n, i, st). n - i)" using h(1) by simp
qed simp

declare lexLoop.simps [simp del]

definition startState :: "string \<Rightarrow> nat \<Rightarrow> LexState" where
  "startState s start =
     \<lparr>lxTokens = [], lxErrors = [], lxInterpolations = [], lxLines = 0 # map u32 (lineStartsIn s 0 start),
      lxPending = 0, lxPrevious = Eof\<rparr>"

definition lexRange :: "(nat \<Rightarrow> nat \<Rightarrow> Token list) \<Rightarrow> string \<Rightarrow> nat \<Rightarrow> nat \<Rightarrow> TokenBuffer" where
  "lexRange sub s start n =
     (let st = lexLoop sub s n start (startState s start)
      in \<lparr>bufSource = s,
          bufTokens = lxTokens st @ [\<lparr>tBegin = u32 n, tEnd = u32 n, tKind = Eof, tFlags = lxPending st\<rparr>],
          bufErrors = lxErrors st, bufInterpolations = lxInterpolations st,
          bufLineStarts = lxLines st @ map u32 (lineStartsIn s n (length s))\<rparr>)"

definition tokenizeImpl :: "string \<Rightarrow> nat \<Rightarrow> nat \<Rightarrow> TokenBuffer" where
  "tokenizeImpl s start n =
     lexRange (\<lambda>b e. bufTokens (lexRange (\<lambda>_ _. []) s (min b (length s)) (min e (length s)))) s start n"

definition tokenize :: "string \<Rightarrow> TokenBuffer" where
  "tokenize s = tokenizeImpl s 0 (length s)"

definition tokenizeRange :: "string \<Rightarrow> nat \<Rightarrow> nat \<Rightarrow> TokenBuffer" where
  "tokenizeRange s b e = tokenizeImpl s (min b (length s)) (min e (length s))"

text \<open>Two states that differ in the interpolations at most.\<close>

definition sameBut :: "LexState \<Rightarrow> LexState \<Rightarrow> bool" where
  "sameBut a b \<longleftrightarrow> a\<lparr>lxInterpolations := []\<rparr> = b\<lparr>lxInterpolations := []\<rparr>"

text \<open>A branch that does not look at the interpolations.\<close>

definition blind :: "(LexState \<Rightarrow> nat \<times> LexState) \<Rightarrow> bool" where
  "blind f \<longleftrightarrow> (\<forall>st x. f (st\<lparr>lxInterpolations := x\<rparr>) = (fst (f st), (snd (f st))\<lparr>lxInterpolations := x\<rparr>))"

text \<open>The two branches that can fill the interpolations differ in them at most.\<close>

definition alike :: "nat \<times> LexState \<Rightarrow> nat \<times> LexState \<Rightarrow> bool" where
  "alike a b \<longleftrightarrow> fst a = fst b \<and> sameBut (snd a) (snd b)"

interpretation lexer: forward_loop "lexStep sub s n" "lexLoop sub s n" n for sub s n
proof
  show "i < n \<Longrightarrow> lexStep sub s n i st = (j, st') \<Longrightarrow> i < j \<and> j \<le> n" for i st j st' by (rule lexStep_forward)
  show "lexLoop sub s n i st = (if i < n then case lexStep sub s n i st of (j, st') \<Rightarrow> lexLoop sub s n j st' else st)" for i st
    by (rule lexLoop.simps)
qed

section \<open>The recursion of the source\<close>

lemma sameBut_obtain: "sameBut a b \<Longrightarrow> \<exists>x. b = a\<lparr>lxInterpolations := x\<rparr>"
  unfolding sameBut_def by (cases a; cases b) auto

lemma sameBut_update [simp]: "sameBut a (a\<lparr>lxInterpolations := x\<rparr>)"
  by (simp add: sameBut_def)

lemma state_updates:
  "emit k b e (st\<lparr>lxInterpolations := x\<rparr>) = (emit k b e st)\<lparr>lxInterpolations := x\<rparr>"
  "emitTrivia k b e f (st\<lparr>lxInterpolations := x\<rparr>) = (emitTrivia k b e f st)\<lparr>lxInterpolations := x\<rparr>"
  "pushError ek b e (st\<lparr>lxInterpolations := x\<rparr>) = (pushError ek b e st)\<lparr>lxInterpolations := x\<rparr>"
  "noteLines s b e (st\<lparr>lxInterpolations := x\<rparr>) = (fst (noteLines s b e st), (snd (noteLines s b e st))\<lparr>lxInterpolations := x\<rparr>)"
  "st\<lparr>lxInterpolations := x, lxLines := l\<rparr> = st\<lparr>lxLines := l, lxInterpolations := x\<rparr>"
  by (cases st; simp add: emit_def emitTrivia_def pushError_def noteLines_def split: prod.splits)+

lemma length_update [simp]: "lxLines (st\<lparr>lxInterpolations := x\<rparr>) = lxLines st" "lxTokens (st\<lparr>lxInterpolations := x\<rparr>) = lxTokens st"
  by simp_all

lemma blind_emit: "blind (\<lambda>st. (j, emit k b e st))" "blind (\<lambda>st. (j, emitTrivia k b e f st))"
  "blind (\<lambda>st. (j, emitTrivia k b e f (pushError ek b' e' st)))"
  by (simp_all add: blind_def state_updates)

lemma blind_if: "blind f \<Longrightarrow> blind g \<Longrightarrow> blind (\<lambda>st. if c then f st else g st)"
  by (simp add: blind_def)

lemma blind_word: "blind (lexWord s n i)"
  unfolding lexWord_def Let_def
  apply (rule blind_if)
  subgoal by (auto simp: blind_def state_updates refuseString_def Let_def split: prod.splits option.splits)
  by (rule blind_emit)

lemma blind_number: "blind (lexNumber s n i)"
  unfolding lexNumber_def lexReal_def lexInteger_def refuseNumber_def Let_def case_prod_beta
  by (intro blind_if blind_emit)

lemma blind_string: "blind (lexString s n i)"
  unfolding lexString_def
  by (auto simp: blind_def state_updates refuseString_def Let_def split: prod.splits option.splits)

lemma blind_hash: "blind (lexHash s n i)"
  unfolding lexHash_def Let_def by (intro blind_if blind_emit)

lemma blind_illegal: "blind (lexIllegal s n i)"
  unfolding lexIllegal_def Let_def by (rule blind_emit)

lemma blind_comments: "blind (lexLineComment s n i)" "blind (lexBlockComment s n i)"
  subgoal unfolding lexLineComment_def Let_def by (rule blind_emit)
  by (simp add: blind_def lexBlockComment_def state_updates case_prod_beta split: option.splits)

lemma blind_punct: "blind (lexPunct s n i)"
proof -
  have "blind (\<lambda>st. case punctKind (s ! i) (byteAt s n (i + 1)) (byteAt s n (i + 2)) (lxPending st = 0 \<and> endsAngleHost (lxPrevious st)) of
      (kind, len) \<Rightarrow> (i + len, emit kind i (i + len) st))"
    by (simp add: blind_def state_updates case_prod_beta)
  then show ?thesis unfolding lexPunct_def Let_def by (intro blind_if blind_comments)
qed

lemma blind_white: "blind (lexBlank i)" "blind (lexNewline i)"
  by (auto simp: blind_def lexBlank_def lexNewline_def)

lemma sameBut_refl: "sameBut a a"
  by (simp add: sameBut_def)

lemma blind_alike: "blind f \<Longrightarrow> sameBut a b \<Longrightarrow> alike (f a) (f b)"
  by (auto simp: alike_def blind_def dest!: sameBut_obtain)

lemma lexFString_alike: "sameBut a b \<Longrightarrow> alike (lexFString sub s n i a) (lexFString sub' s n i b)"
proof -
  assume "sameBut a b"
  then obtain x where b: "b = a\<lparr>lxInterpolations := x\<rparr>" using sameBut_obtain by blast
  show ?thesis unfolding b lexFString_def
    by (simp add: alike_def state_updates refuseString_def Let_def sameBut_def split: prod.splits option.splits)
qed

lemma lexStep_alike: "sameBut a b \<Longrightarrow> alike (lexStep sub s n i a) (lexStep sub' s n i b)"
proof (cases "charClass (s ! i)")
  case kQuote
  assume ab: "sameBut a b"
  then obtain x where b: "b = a\<lparr>lxInterpolations := x\<rparr>" using sameBut_obtain by blast
  show ?thesis
    using lexFString_alike [OF ab] blind_alike [OF blind_string ab] kQuote
    by (simp add: lexStep_def lexQuote_def b state_updates split: option.splits) (simp add: alike_def sameBut_def)
qed (simp_all add: lexStep_def blind_alike blind_white blind_word blind_number blind_hash blind_punct blind_illegal)

lemma lexLoop_alike: "sameBut a b \<Longrightarrow> sameBut (lexLoop sub s n i a) (lexLoop sub' s n i b)"
proof (induction sub s n i a arbitrary: b rule: lexLoop.induct)
  case (1 sub s n i a)
  obtain j st where a: "lexStep sub s n i a = (j, st)" by fastforce
  obtain k st' where b: "lexStep sub' s n i b = (k, st')" by fastforce
  have "k = j" "sameBut st st'" using lexStep_alike [OF "1.prems", of sub s n i sub'] a b by (simp_all add: alike_def)
  then show ?case using "1.IH" [OF _ a [symmetric]] "1.prems" a b by (simp add: lexLoop.simps [of _ s n i])
qed

lemma lexRange_tokens: "bufTokens (lexRange sub s b e) = bufTokens (lexRange sub' s b e)"
proof -
  have "sameBut (lexLoop sub s e b (startState s b)) (lexLoop sub' s e b (startState s b))"
    by (rule lexLoop_alike) (rule sameBut_refl)
  then obtain x where "lexLoop sub' s e b (startState s b) = (lexLoop sub s e b (startState s b))\<lparr>lxInterpolations := x\<rparr>"
    using sameBut_obtain by blast
  then show ?thesis by (simp add: lexRange_def Let_def)
qed

lemma tokenizeImpl_recursive:
  "tokenizeImpl s start n = lexRange (\<lambda>b e. bufTokens (tokenizeRange s b e)) s start n"
proof -
  have "bufTokens (lexRange (\<lambda>_ _. []) s b e) = bufTokens (tokenizeImpl s b e)" for b e
    unfolding tokenizeImpl_def by (rule lexRange_tokens)
  then show ?thesis unfolding tokenizeRange_def by (subst tokenizeImpl_def) simp
qed

end
