(* ===== verification/Lexer_Inv.thy ===== *)
theory Lexer_Inv
  imports Lexer_Loop
begin

text \<open>
  The invariant of the lexer's loop, proved once for the four abstract moves: the tokens tile
  the text read so far and only white space lies between them, the two flags of a token say
  exactly what lies between it and the last token the parser sees, the line table holds the
  start of every line, and the recorded errors are the \<open>Error\<close> tokens.
\<close>

unbundle bit_operations_syntax

section \<open>What the tokens say\<close>

definition isWhite :: "char \<Rightarrow> bool" where
  "isWhite c \<longleftrightarrow> charClass c = kBlank \<or> charClass c = kNewline"

definition whiteIn :: "string \<Rightarrow> nat \<Rightarrow> nat \<Rightarrow> bool" where
  "whiteIn s b e \<longleftrightarrow> list_all (\<lambda>k. isWhite (s ! k)) [b..<e]"

text \<open>The tokens cover \<open>s[p, e)\<close> in order, up to white space between them.\<close>

fun tiles :: "string \<Rightarrow> nat \<Rightarrow> Token list \<Rightarrow> nat \<Rightarrow> bool" where
  "tiles s p [] e \<longleftrightarrow> p \<le> e \<and> whiteIn s p e"
| "tiles s p (t # ts) e \<longleftrightarrow> p \<le> tBegin t \<and> whiteIn s p (tBegin t) \<and> tBegin t < tEnd t \<and> tiles s (tEnd t) ts e"

definition solid :: "Token \<Rightarrow> bool" where
  "solid t \<longleftrightarrow> \<not> isTrivia (tKind t)"

text \<open>Where the last token the parser sees ends, or the start of the text when there is none.\<close>

definition solidEnd :: "nat \<Rightarrow> Token list \<Rightarrow> nat" where
  "solidEnd start ts = (if filter solid ts = [] then start else tEnd (last (filter solid ts)))"

definition lastKind :: "Token list \<Rightarrow> TokenKind" where
  "lastKind ts = (if filter solid ts = [] then Eof else tKind (last (filter solid ts)))"

definition flagsRight :: "string \<Rightarrow> nat \<Rightarrow> Token list \<Rightarrow> bool" where
  "flagsRight s start ts \<longleftrightarrow>
     (\<forall>k < length ts. let e = solidEnd start (take k ts); b = tBegin (ts ! k)
        in (spaceBefore (ts ! k) \<longleftrightarrow> e < b) \<and> (newlineBefore (ts ! k) \<longleftrightarrow> hasNewline s e b))"

definition errorOf :: "Token \<Rightarrow> LexError \<Rightarrow> bool" where
  "errorOf t e \<longleftrightarrow> tBegin t \<le> eBegin e \<and> eBegin e \<le> eEnd e \<and> eEnd e = tEnd t"

definition flagWord :: "bool \<Rightarrow> bool \<Rightarrow> 8 word" where
  "flagWord sp nl = (if sp then SpaceBefore else 0) OR (if nl then NewlineBefore else 0)"


definition lexInv :: "string \<Rightarrow> nat \<Rightarrow> nat \<Rightarrow> nat \<Rightarrow> LexState \<Rightarrow> bool" where
  "lexInv s start n i st \<longleftrightarrow>
     start \<le> i \<and> i \<le> n \<and> tiles s start (lxTokens st) i \<and> Eof \<notin> tKind ` set (lxTokens st) \<and>
     flagsRight s start (lxTokens st) \<and>
     solidEnd start (lxTokens st) \<le> i \<and>
     lxPending st = flagWord (solidEnd start (lxTokens st) < i) (hasNewline s (solidEnd start (lxTokens st)) i) \<and>
     lxPrevious st = lastKind (lxTokens st) \<and>
     lxLines st = 0 # map u32 (lineStartsIn s 0 i) \<and>
     list_all2 errorOf (filter (\<lambda>t. tKind t = Error) (lxTokens st)) (lxErrors st)"

section \<open>Flags\<close>

lemma flagWord_bits [simp]:
  "flagWord sp nl OR SpaceBefore = flagWord True nl"
  "flagWord sp nl OR (SpaceBefore OR NewlineBefore) = flagWord True True"
  "flagWord sp nl OR SpaceBefore OR NewlineBefore = flagWord True True"
  "flagWord sp nl = 0 \<longleftrightarrow> \<not> sp \<and> \<not> nl"
  "flagWord sp nl AND SpaceBefore \<noteq> 0 \<longleftrightarrow> sp"
  "flagWord sp nl AND NewlineBefore \<noteq> 0 \<longleftrightarrow> nl"
  "flagWord False False = 0"
  by (cases sp; cases nl; simp add: flagWord_def SpaceBefore_def NewlineBefore_def)+

section \<open>One more token\<close>

lemma whiteIn_iff: "whiteIn s b e \<longleftrightarrow> (\<forall>k. b \<le> k \<longrightarrow> k < e \<longrightarrow> isWhite (s ! k))"
  by (auto simp: whiteIn_def list_all_iff)

lemma whiteIn_empty [simp]: "whiteIn s b b"
  by (simp add: whiteIn_iff)

lemma whiteIn_next: "whiteIn s b e \<Longrightarrow> isWhite (s ! e) \<Longrightarrow> whiteIn s b (Suc e)"
  by (auto simp: whiteIn_iff less_Suc_eq)

lemma tiles_white: "tiles s p ts e \<Longrightarrow> isWhite (s ! e) \<Longrightarrow> tiles s p ts (Suc e)"
  by (induction ts arbitrary: p) (auto simp: whiteIn_next)

lemma tiles_snoc: "tiles s p ts i \<Longrightarrow> tBegin t = i \<Longrightarrow> i < tEnd t \<Longrightarrow> tiles s p (ts @ [t]) (tEnd t)"
  by (induction ts arbitrary: p) auto

lemma solidEnd_snoc: "solidEnd start (ts @ [t]) = (if solid t then tEnd t else solidEnd start ts)"
  by (auto simp: solidEnd_def)

lemma lastKind_snoc: "lastKind (ts @ [t]) = (if solid t then tKind t else lastKind ts)"
  by (auto simp: lastKind_def)

lemma flagsRight_snoc:
  assumes "flagsRight s start ts" "tFlags t = flagWord (solidEnd start ts < tBegin t) (hasNewline s (solidEnd start ts) (tBegin t))"
  shows "flagsRight s start (ts @ [t])"
  unfolding flagsRight_def Let_def
proof (intro allI impI)
  fix k assume k: "k < length (ts @ [t])"
  let ?u = "(ts @ [t]) ! k" let ?e = "solidEnd start (take k (ts @ [t]))"
  show "(spaceBefore ?u \<longleftrightarrow> ?e < tBegin ?u) \<and> (newlineBefore ?u \<longleftrightarrow> hasNewline s ?e (tBegin ?u))"
  proof (cases "k < length ts")
    case True then show ?thesis using assms(1) unfolding flagsRight_def Let_def by (simp add: nth_append)
  next
    case False
    then have "k = length ts" using k by simp
    then show ?thesis using assms(2) by (simp add: spaceBefore_def newlineBefore_def)
  qed
qed

lemma lexInv_emit:
  assumes inv: "lexInv s start n i st" and j: "i < j" "j \<le> n" and n: "n < 2 ^ 32" and k: "\<not> isTrivia kind" "kind \<noteq> Eof"
  shows "lexInv s start n j (emit kind i j ((passLines s i j st)\<lparr>lxInterpolations := found\<rparr>))"
proof -
  let ?t = "\<lparr>tBegin = i, tEnd = j, tKind = kind, tFlags = lxPending st\<rparr>"
  have u: "u32 i = i" "u32 j = j" using j n by simp_all
  have s: "solid ?t" "kind \<noteq> Error" using k by (auto simp: solid_def)
  show ?thesis using inv s k j tiles_snoc [of s start "lxTokens st" i ?t] flagsRight_snoc [of s start "lxTokens st" ?t]
      lineStartsIn_split [of 0 i j s]
    by (simp add: lexInv_def emit_def u solidEnd_snoc lastKind_snoc hasNewline_iff)
qed

lemma lexInv_trivia:
  assumes inv: "lexInv s start n i st" and j: "i < j" "j \<le> n" and n: "n < 2 ^ 32" and k: "isTrivia kind" "kind \<noteq> Error"
  shows "lexInv s start n j (emitTrivia kind i j (hasNewline s i j) (passLines s i j st))"
proof -
  let ?t = "\<lparr>tBegin = i, tEnd = j, tKind = kind, tFlags = lxPending st\<rparr>"
  have u: "u32 i = i" "u32 j = j" using j n by simp_all
  have s: "\<not> solid ?t" "kind \<noteq> Eof" using k by (auto simp: solid_def)
  have e: "solidEnd start (lxTokens st) \<le> i" using inv by (simp add: lexInv_def)
  show ?thesis using inv s k j e tiles_snoc [of s start "lxTokens st" i ?t] flagsRight_snoc [of s start "lxTokens st" ?t]
      lineStartsIn_split [of 0 i j s] hasNewline_split [of "solidEnd start (lxTokens st)" i j s]
    by (simp add: lexInv_def emitTrivia_def u solidEnd_snoc lastKind_snoc)
qed

lemma lexInv_refused:
  assumes inv: "lexInv s start n i st" and j: "i < j" "j \<le> n" and n: "n < 2 ^ 32" and b: "i \<le> b" "b \<le> j"
  shows "lexInv s start n j (emitTrivia Error i j (hasNewline s i j) (pushError err b j (passLines s i j st)))"
proof -
  let ?t = "\<lparr>tBegin = i, tEnd = j, tKind = Error, tFlags = lxPending st\<rparr>"
  have u: "u32 i = i" "u32 j = j" "u32 b = b" using j n b by simp_all
  have s: "\<not> solid ?t" by (auto simp: solid_def)
  have e: "solidEnd start (lxTokens st) \<le> i" using inv by (simp add: lexInv_def)
  have er: "errorOf ?t \<lparr>eKind = err, eBegin = b, eEnd = j\<rparr>" using b by (simp add: errorOf_def)
  show ?thesis using inv s j e er tiles_snoc [of s start "lxTokens st" i ?t] flagsRight_snoc [of s start "lxTokens st" ?t]
      lineStartsIn_split [of 0 i j s] hasNewline_split [of "solidEnd start (lxTokens st)" i j s]
    by (simp add: lexInv_def emitTrivia_def pushError_def u solidEnd_snoc lastKind_snoc list_all2_appendI)
qed

lemma lexInv_white:
  assumes inv: "lexInv s start n i st" and i: "i < n" "isWhite (s ! i)"
  shows "lexInv s start n (i + 1) ((passLines s i (i + 1) st)\<lparr>lxPending := lxPending st OR (if s ! i = newlineChar then SpaceBefore OR NewlineBefore else SpaceBefore)\<rparr>)"
proof -
  have e: "solidEnd start (lxTokens st) \<le> i" using inv by (simp add: lexInv_def)
  have nl: "hasNewline s (solidEnd start (lxTokens st)) (Suc i) \<longleftrightarrow> hasNewline s (solidEnd start (lxTokens st)) i \<or> s ! i = newlineChar"
    using hasNewline_split [OF e, of "Suc i" s] by (auto simp: hasNewline_iff less_Suc_eq)
  show ?thesis using inv i e nl tiles_white [of s start "lxTokens st" i] lineStartsIn_split [of 0 i "Suc i" s]
    by (simp add: lexInv_def)
qed

lemma lexInv_move:
  assumes "lexMove s n (i, st) (j, st')" "lexInv s start n i st" "n < 2 ^ 32"
  shows "lexInv s start n j st'"
  using assms(1)
proof cases
  case Blank
  then have "s ! i \<noteq> newlineChar" by auto
  then have p: "passLines s i (i + 1) st = st" and q: "(if s ! i = newlineChar then x else y) = y" for x y :: "8 word"
    by (simp_all add: passLines_def)
  have "isWhite (s ! i)" using Blank by (simp add: isWhite_def)
  from lexInv_white [OF assms(2) _ this, unfolded p q] show ?thesis using Blank by simp
next
  case Newline
  then show ?thesis using lexInv_white [OF assms(2)] by (simp add: isWhite_def newline_class)
next
  case Solid then show ?thesis using lexInv_emit [OF assms(2) _ _ assms(3)] by simp
next
  case Comment then show ?thesis using lexInv_trivia [OF assms(2) _ _ assms(3)] by simp
next
  case Refused then show ?thesis using lexInv_refused [OF assms(2) _ _ assms(3)] by simp
qed

lemma lexInv_start: "start \<le> n \<Longrightarrow> lexInv s start n start (startState s start)"
  by (simp add: lexInv_def startState_def flagsRight_def solidEnd_def lastKind_def hasNewline_iff)

lemma lexInv_step:
  "i < n \<Longrightarrow> lexInv s start n i st \<Longrightarrow> lexStep sub s n i st = (j, st') \<Longrightarrow> n < 2 ^ 32 \<Longrightarrow> lexInv s start n j st'"
  using lexInv_move lexStep_move [of i n s st sub] by metis

lemma lexLoop_inv:
  assumes "lexInv s start n i st" "n < 2 ^ 32"
  shows "lexInv s start n n (lexLoop sub s n i st)"
proof (rule lexer.loop_invariant [where Inv = "lexInv s start n"])
  show "i \<le> n" using assms(1) by (simp add: lexInv_def)
  show "lexInv s start n i st" by (rule assms(1))
  show "lexInv s start n j st'" if "i < n" "lexInv s start n i st" "lexStep sub s n i st = (j, st')" for i st j st'
    using lexInv_step [OF that assms(2)] .
qed

section \<open>The buffer\<close>

lemma lineStartsIn_u32: "e < 2 ^ 32 \<Longrightarrow> map u32 (lineStartsIn s b e) = lineStartsIn s b e"
  by (rule map_idI) (auto simp: lineStartsIn_def)

lemma lexRange_spec:
  assumes n: "start \<le> n" "n \<le> length s" "length s < 2 ^ 32"
  shows "\<exists>ts flags. bufTokens (lexRange sub s start n) = ts @ [\<lparr>tBegin = n, tEnd = n, tKind = Eof, tFlags = flags\<rparr>] \<and>
    tiles s start ts n \<and> Eof \<notin> tKind ` set ts \<and> flagsRight s start (bufTokens (lexRange sub s start n)) \<and>
    bufLineStarts (lexRange sub s start n) = 0 # lineStartsIn s 0 (length s) \<and>
    list_all2 errorOf (filter (\<lambda>t. tKind t = Error) (bufTokens (lexRange sub s start n))) (bufErrors (lexRange sub s start n))"
proof -
  define st where "st = lexLoop sub s n start (startState s start)"
  have n': "n < 2 ^ 32" using n by simp
  have inv: "lexInv s start n n st" unfolding st_def by (rule lexLoop_inv [OF lexInv_start [OF n(1)] n'])
  let ?eof = "\<lparr>tBegin = n, tEnd = n, tKind = Eof, tFlags = lxPending st\<rparr>"
  have b: "lexRange sub s start n =
     \<lparr>bufSource = s, bufTokens = lxTokens st @ [?eof], bufErrors = lxErrors st, bufInterpolations = lxInterpolations st,
      bufLineStarts = lxLines st @ map u32 (lineStartsIn s n (length s))\<rparr>"
    using n' by (simp add: lexRange_def Let_def st_def)
  have "flagsRight s start (lxTokens st @ [?eof])" using inv by (intro flagsRight_snoc) (simp_all add: lexInv_def)
  moreover have "bufLineStarts (lexRange sub s start n) = 0 # lineStartsIn s 0 (length s)"
    using inv n lineStartsIn_split [of 0 n "length s" s] by (simp add: b lexInv_def lineStartsIn_u32)
  ultimately show ?thesis using inv unfolding lexInv_def by (simp add: b)
qed

end
