(* ===== verification/Lexer_Lexeme.thy ===== *)
theory Lexer_Lexeme
  imports Lexer_Inv
begin

text \<open>
  The lexical grammar as executable recognisers: what the text of a token of each kind looks
  like. The lexer meets it: the text of every token it emits is a lexeme of the token's kind
  (\<open>lexRange_lexemes\<close>).
\<close>

section \<open>The lexical grammar\<close>

text \<open>Juxtaposition: some split of the word has a front in \<open>P\<close> and a rest in \<open>Q\<close>.\<close>

definition sq :: "(string \<Rightarrow> bool) \<Rightarrow> (string \<Rightarrow> bool) \<Rightarrow> string \<Rightarrow> bool" where
  "sq P Q w \<longleftrightarrow> list_ex (\<lambda>k. P (take k w) \<and> Q (drop k w)) [0..<Suc (length w)]"

definition opt :: "(string \<Rightarrow> bool) \<Rightarrow> string \<Rightarrow> bool" where
  "opt P w \<longleftrightarrow> w = [] \<or> P w"

definition lit :: "string \<Rightarrow> string \<Rightarrow> bool" where
  "lit l w \<longleftrightarrow> w = l"

definition many1 :: "(char \<Rightarrow> bool) \<Rightarrow> string \<Rightarrow> bool" where
  "many1 P w \<longleftrightarrow> w \<noteq> [] \<and> list_all P w"

definition anyText :: "string \<Rightarrow> bool" where
  "anyText w \<longleftrightarrow> True"

definition wholeText :: "string \<Rightarrow> bool" where
  "wholeText w \<longleftrightarrow> many1 isDigit w \<and> (hd w = CHR ''0'' \<longrightarrow> w = ''0'')"

definition expText :: "string \<Rightarrow> bool" where
  "expText = sq (\<lambda>w. w = ''e'' \<or> w = ''E'') (sq (opt (\<lambda>w. w = ''+'' \<or> w = ''-'')) (many1 isDigit))"

definition realText :: "string \<Rightarrow> bool" where
  "realText = sq wholeText (\<lambda>r. expText r \<or> sq (lit ''.'') (sq (many1 isDigit) (opt expText)) r)"

definition prefixText :: "string \<Rightarrow> bool" where
  "prefixText w \<longleftrightarrow>
     sq (lit ''0x'') (many1 isHexDigit) w \<or>
     sq (lit ''0b'') (many1 (\<lambda>c. c = CHR ''0'' \<or> c = CHR ''1'')) w \<or>
     sq (lit ''0o'') (many1 (\<lambda>c. between (CHR ''0'') c (CHR ''7''))) w"

definition integerText :: "string \<Rightarrow> bool" where
  "integerText w \<longleftrightarrow> wholeText w \<or> sq prefixText (opt expText) w"

text \<open>The inside of a quoted string: no quote that is not escaped.\<close>

fun quotedBody :: "char \<Rightarrow> string \<Rightarrow> bool" where
  "quotedBody c [] \<longleftrightarrow> True"
| "quotedBody c [x] \<longleftrightarrow> x \<noteq> c"
| "quotedBody c (x # y # r) \<longleftrightarrow>
     (if x = CHR 0x5C \<and> (y = c \<or> y = CHR 0x5C) then quotedBody c r else x \<noteq> c \<and> quotedBody c (y # r))"

definition rawText :: "nat \<Rightarrow> string \<Rightarrow> bool" where
  "rawText h = sq (lit (''r'' @ replicate h (CHR ''#'') @ [CHR 0x22])) (sq anyText (lit (CHR 0x22 # replicate h (CHR ''#''))))"

fun lexeme :: "TokenKind \<Rightarrow> string \<Rightarrow> bool" where
  "lexeme Eof w \<longleftrightarrow> w = []"
| "lexeme Error w \<longleftrightarrow> w \<noteq> []"
| "lexeme Command w \<longleftrightarrow> sq (lit ''#!'') (list_all (\<lambda>c. isLineBody c \<and> c \<noteq> CHR 0x0C)) w"
| "lexeme LineComment w \<longleftrightarrow> sq (lit ''//'') (list_all isLineBody) w"
| "lexeme DocComment w \<longleftrightarrow> sq (lit ''///'') (\<lambda>b. list_all isLineBody b \<and> (b = [] \<or> hd b \<noteq> CHR ''/'')) w"
| "lexeme BlockComment w \<longleftrightarrow> sq (lit ''/*'') (sq anyText (lit ''*/'')) w"
| "lexeme Identifier w \<longleftrightarrow> w \<noteq> [] \<and> charClass (hd w) = kIdentStart \<and> list_all isIdentPart w \<and>
     w \<noteq> ''_'' \<and> w \<notin> set (map kwText keywordTable)"
| "lexeme Integer w \<longleftrightarrow> integerText w"
| "lexeme Real w \<longleftrightarrow> realText w"
| "lexeme Imaginary w \<longleftrightarrow> sq (\<lambda>v. wholeText v \<or> realText v) (lit ''i'') w"
| "lexeme String w \<longleftrightarrow> list_ex (\<lambda>c. sq (lit [c]) (sq (quotedBody c) (lit [c])) w) [CHR 0x27, CHR 0x22]"
| "lexeme RawString w \<longleftrightarrow> list_ex (\<lambda>h. rawText h w) [0..<length w]"
| "lexeme MultiStr w \<longleftrightarrow> list_ex (\<lambda>c. sq (lit [c, c, c]) (sq anyText (lit [c, c, c])) w) [CHR 0x27, CHR 0x22]"
| "lexeme FString w \<longleftrightarrow> sq (lit [CHR 0x60]) (sq anyText (lit [CHR 0x60])) w"
| "lexeme (Kw k) w \<longleftrightarrow> w = tokenKindText (Kw k)"
| "lexeme (Pn p) w \<longleftrightarrow> w = tokenKindText (Pn p)"

definition piece :: "string \<Rightarrow> nat \<Rightarrow> nat \<Rightarrow> string" where
  "piece s i j = take (j - i) (drop i s)"

definition emitsLexeme :: "string \<Rightarrow> nat \<Rightarrow> LexState \<Rightarrow> nat \<times> LexState \<Rightarrow> bool" where
  "emitsLexeme s i st r \<longleftrightarrow>
     lxTokens (snd r) = lxTokens st \<or>
     (\<exists>k f. lxTokens (snd r) = lxTokens st @ [\<lparr>tBegin = u32 i, tEnd = u32 (fst r), tKind = k, tFlags = f\<rparr>] \<and>
       lexeme k (piece s i (fst r)))"

definition lexemes :: "string \<Rightarrow> Token list \<Rightarrow> bool" where
  "lexemes s ts \<longleftrightarrow> list_all (\<lambda>t. lexeme (tKind t) (piece s (tBegin t) (tEnd t))) ts"

section \<open>Slices and juxtaposition\<close>

lemma sq_iff: "sq P Q w \<longleftrightarrow> (\<exists>a b. w = a @ b \<and> P a \<and> Q b)"
proof
  assume "sq P Q w"
  then show "\<exists>a b. w = a @ b \<and> P a \<and> Q b" unfolding sq_def list_ex_iff by (metis append_take_drop_id)
next
  assume "\<exists>a b. w = a @ b \<and> P a \<and> Q b"
  then obtain a b where w: "w = a @ b" "P a" "Q b" by blast
  have "length a \<in> set [0..<Suc (length w)]" "P (take (length a) w)" "Q (drop (length a) w)" using w by auto
  then show "sq P Q w" unfolding sq_def list_ex_iff by blast
qed

lemma sqI: "P a \<Longrightarrow> Q b \<Longrightarrow> sq P Q (a @ b)"
  by (auto simp: sq_iff)

lemma piece_append: "i \<le> m \<Longrightarrow> m \<le> j \<Longrightarrow> piece s i j = piece s i m @ piece s m j"
proof -
  assume h: "i \<le> m" "m \<le> j"
  have "j - i = (m - i) + (j - m)" using h by simp
  then have "piece s i j = take (m - i) (drop i s) @ take (j - m) (drop (m - i) (drop i s))"
    unfolding piece_def by (simp only: take_add)
  also have "drop (m - i) (drop i s) = drop m s" using h by simp
  finally show ?thesis by (simp add: piece_def)
qed

lemma sq_piece: "P (piece s i m) \<Longrightarrow> Q (piece s m j) \<Longrightarrow> i \<le> m \<Longrightarrow> m \<le> j \<Longrightarrow> sq P Q (piece s i j)"
  using piece_append [of i m j s] by (simp add: sqI)

lemma piece_length: "j \<le> length s \<Longrightarrow> length (piece s i j) = j - i"
  by (simp add: piece_def)

lemma piece_empty [simp]: "piece s i i = []"
  by (simp add: piece_def)

lemma piece_Suc: "i < length s \<Longrightarrow> i < j \<Longrightarrow> piece s i j = s ! i # piece s (Suc i) j"
  using piece_append [of i "Suc i" j s] by (simp add: piece_def take_Suc_conv_app_nth take_Suc hd_drop_conv_nth)

lemma piece_one: "i < length s \<Longrightarrow> piece s i (i + 1) = [s ! i]"
  by (simp add: piece_Suc)

lemma piece_all: "(\<And>k. i \<le> k \<Longrightarrow> k < j \<Longrightarrow> P (s ! k)) \<Longrightarrow> j \<le> length s \<Longrightarrow> list_all P (piece s i j)"
  by (auto simp: piece_def list_all_length)

lemma piece_hd: "i < j \<Longrightarrow> j \<le> length s \<Longrightarrow> hd (piece s i j) = s ! i"
  by (simp add: piece_Suc)

lemma piece_nonempty: "i < j \<Longrightarrow> j \<le> length s \<Longrightarrow> piece s i j \<noteq> []"
  by (simp add: piece_Suc)

lemma scan_all: "i \<le> n \<Longrightarrow> n \<le> length s \<Longrightarrow> list_all P (piece s i (scanWhile P s n i))"
  by (rule piece_all) (auto simp: scanWhile_in dest: scanWhile_le [of i n P s])

lemma piece_scan: "i \<le> n \<Longrightarrow> n \<le> length s \<Longrightarrow> i < scanWhile P s n i \<Longrightarrow> many1 P (piece s i (scanWhile P s n i))"
  using scan_all [of i n s P] piece_nonempty [of i "scanWhile P s n i" s] scanWhile_le [of i n P s] by (simp add: many1_def)

lemma piece_find: "findText pat s n i = Some k \<Longrightarrow> piece s k (k + length pat) = pat"
  using findText_Some [of pat s n i k] by (simp add: piece_def)

section \<open>Words\<close>

lemma keyword_texts: "k \<in> set keywordTable \<Longrightarrow> tokenKindText (kwKind k) = kwText k"
proof -
  have "list_all (\<lambda>k. tokenKindText (kwKind k) = kwText k) keywordTable"
    by code_simp
  then show "k \<in> set keywordTable \<Longrightarrow> tokenKindText (kwKind k) = kwText k" by (simp add: list_all_iff)
qed

lemma lexeme_word:
  assumes "w \<noteq> []" "charClass (hd w) = kIdentStart" "list_all isIdentPart w"
  shows "lexeme (classifyWord w) w"
proof (cases "map_of (map (\<lambda>i. (kwText i, kwKind i)) keywordTable) w")
  case None
  then have "w \<notin> set (map kwText keywordTable)" by (auto simp: map_of_eq_None_iff image_iff)
  moreover have "tokenKindText (Pn Underscore) = ''_''" by code_simp
  ultimately show ?thesis using assms None by (simp add: classifyWord_eq)
next
  case (Some k)
  then obtain i where i: "i \<in> set keywordTable" "kwText i = w" "kwKind i = k" by (auto dest!: map_of_SomeD)
  then have "w \<noteq> ''_''" using keyword_words(3) by fastforce
  moreover obtain x where "k = Kw x" using keyword_kind [OF Some] by blast
  ultimately show ?thesis using Some keyword_texts [OF i(1)] i by (simp add: classifyWord_eq)
qed

lemma hashRun_text:
  "hashRun s n h k seen = (k', seen') \<Longrightarrow> k \<le> n \<Longrightarrow> n \<le> length s \<Longrightarrow>
   piece s k k' = replicate (k' - k) (CHR ''#'') \<and> k \<le> k' \<and> k' \<le> n \<and> seen' = seen + (k' - k)"
proof (induction s n h k seen rule: hashRun.induct)
  case (1 s n h k seen)
  show ?case
  proof (cases "k < n \<and> s ! k = CHR ''#'' \<and> seen < h")
    case True
    then have "hashRun s n h (k + 1) (seen + 1) = (k', seen')" using "1.prems" by (simp add: hashRun.simps [of s n h k])
    then have r: "piece s (k + 1) k' = replicate (k' - (k + 1)) (CHR ''#'')" "k + 1 \<le> k'" "k' \<le> n" "seen' = seen + 1 + (k' - (k + 1))"
      using "1.IH" True "1.prems"(3) by auto
    then have "piece s k k' = CHR ''#'' # replicate (k' - (k + 1)) (CHR ''#'')" using piece_Suc [of k s k'] True "1.prems"(3) by simp
    moreover have "k' - k = Suc (k' - (k + 1))" using r(2) by simp
    ultimately show ?thesis using r by simp
  next
    case False
    then show ?thesis using "1.prems" by (auto simp: hashRun.simps [of s n h k] split: if_splits)
  qed
qed

lemma rawLoop_text:
  "rawLoop s n h j lines = (Some k, lines') \<Longrightarrow> j \<le> n \<Longrightarrow> n \<le> length s \<Longrightarrow>
   \<exists>m. j \<le> m \<and> m < k \<and> k \<le> n \<and> piece s m k = CHR 0x22 # replicate h (CHR ''#'')"
proof (induction s n h j lines rule: rawLoop.induct)
  case (1 s n h j lines)
  obtain k1 seen where hr: "hashRun s n h (j + 1) 0 = (k1, seen)" by (cases "hashRun s n h (j + 1) 0")
  note eq = rawLoop.simps [of s n h j lines, unfolded hr Let_def prod.case]
  have j: "j < n" using "1.prems"(1) eq by (auto split: if_splits)
  show ?case
  proof (cases "s ! j = CHR 0x22 \<and> seen = h")
    case close: True
    then have k: "k = k1" using "1.prems"(1) j eq by auto
    have t: "piece s (j + 1) k1 = replicate (k1 - (j + 1)) (CHR ''#'')" "j + 1 \<le> k1" "k1 \<le> n" "seen = k1 - (j + 1)"
      using hashRun_text [OF hr] j "1.prems"(3) by auto
    then have "piece s j k = CHR 0x22 # replicate h (CHR ''#'')" using piece_Suc [of j s k] j "1.prems"(3) k close by simp
    then show ?thesis using t k by (intro exI [of _ j]) simp
  next
    case False
    then have "rawLoop s n h (j + 1) (if s ! j = newlineChar then lines @ [u32 (j + 1)] else lines) = (Some k, lines')"
      using "1.prems"(1) j eq by auto
    then obtain m where "j + 1 \<le> m" "m < k" "k \<le> n" "piece s m k = CHR 0x22 # replicate h (CHR ''#'')"
      using "1.IH" [OF j refl hr [symmetric] refl False] j "1.prems"(3) by auto
    then show ?thesis by (intro exI [of _ m]) simp
  qed
qed

section \<open>What a branch emits\<close>

lemma emits_emit: "lexeme k (piece s i j) \<Longrightarrow> lxTokens st' = lxTokens st \<Longrightarrow> emitsLexeme s i st (j, emit k i j st')"
  by (simp add: emitsLexeme_def emit_def)

lemma emits_trivia: "lexeme k (piece s i j) \<Longrightarrow> lxTokens st' = lxTokens st \<Longrightarrow> emitsLexeme s i st (j, emitTrivia k i j f st')"
  by (simp add: emitsLexeme_def emitTrivia_def)

lemma pushError_tokens [simp]: "lxTokens (pushError k b e st) = lxTokens st"
  by (simp add: pushError_def)

lemma emits_refused:
  "i < j \<Longrightarrow> j \<le> length s \<Longrightarrow> lxTokens st' = lxTokens st \<Longrightarrow> emitsLexeme s i st (j, emitTrivia Error i j f (pushError k b e st'))"
  by (rule emits_trivia) (simp_all add: piece_nonempty)

lemma noteLines_tokens [simp]: "lxTokens (snd (noteLines s b e st)) = lxTokens st"
  by (simp add: noteLines_def split: prod.splits)

lemma refuseString_lexeme:
  "i < n \<Longrightarrow> s ! i \<noteq> newlineChar \<Longrightarrow> n \<le> length s \<Longrightarrow> lxTokens st' = lxTokens st \<Longrightarrow> emitsLexeme s i st (refuseString s n i b st')"
  unfolding refuseString_def Let_def using lineEnd_stretch [of i n s] by (intro emits_refused) (auto simp: stretch_def)

lemma piece_replicate: "list_all (\<lambda>c. c = x) w \<Longrightarrow> w = replicate (length w) x"
  by (induction w) auto

lemma lexWord_lexeme:
  assumes i: "i < n" and n: "n \<le> length s" and c: "charClass (s ! i) = kIdentStart"
  shows "emitsLexeme s i st (lexWord s n i st)"
proof -
  have nl: "s ! i \<noteq> newlineChar" using c by auto
  define hashes where "hashes = (if s ! i = CHR ''r'' then scanWhile (\<lambda>c. c = CHR ''#'') s n (i + 1) - (i + 1) else 0)"
  note d = lexWord_def [of s n i st, folded hashes_def, unfolded Let_def]
  show ?thesis
  proof (cases "s ! i = CHR ''r'' \<and> byteAt s n (i + 1 + hashes) = CHR 0x22")
    case True
    let ?o = "i + 1 + hashes"
    have o: "?o = scanWhile (\<lambda>c. c = CHR ''#'') s n (i + 1)"
      using True scanWhile_ge [of "i + 1" "\<lambda>c. c = CHR ''#''" s n] by (simp add: hashes_def)
    have q: "?o < n" "s ! ?o = CHR 0x22" using byteAt_in [of s n ?o] True by auto
    have "list_all (\<lambda>c. c = CHR ''#'') (piece s (i + 1) ?o)" unfolding o using i n by (intro scan_all) auto
    then have "piece s (i + 1) ?o = replicate hashes (CHR ''#'')" using piece_replicate piece_length [of ?o s "i + 1"] q n by fastforce
    then have "piece s i ?o = CHR ''r'' # replicate hashes (CHR ''#'')" using piece_Suc [of i s ?o] True i n by simp
    then have front: "piece s i (?o + 1) = ''r'' @ replicate hashes (CHR ''#'') @ [CHR 0x22]"
      using piece_append [of i ?o "?o + 1" s] piece_one [of ?o s] q n by simp
    obtain r lines where rl: "rawLoop s n hashes (?o + 1) (lxLines st) = (r, lines)" by fastforce
    show ?thesis
    proof (cases r)
      case None then show ?thesis using True rl refuseString_lexeme [OF i nl n] by (simp add: d)
    next
      case (Some j)
      obtain m where m: "?o + 1 \<le> m" "m < j" "j \<le> n" "piece s m j = CHR 0x22 # replicate hashes (CHR ''#'')"
        using rawLoop_text [of s n hashes "?o + 1" _ j lines] rl Some q n by auto
      have inner: "sq anyText (lit (CHR 0x22 # replicate hashes (CHR ''#''))) (piece s (?o + 1) j)"
        using m by (intro sq_piece [where m = m]) (auto simp: lit_def anyText_def)
      have "rawText hashes (piece s i j)"
        unfolding rawText_def by (rule sq_piece [where m = "?o + 1"]) (use front m inner in \<open>auto simp: lit_def\<close>)
      moreover have "hashes < length (piece s i j)" using piece_length [of j s i] m n by simp
      ultimately have "lexeme RawString (piece s i j)" by (auto simp: list_ex_iff)
      then show ?thesis using True rl Some emits_emit by (simp add: d)
    qed
  next
    case False
    define j where "j = scanWhile isIdentPart s n (i + 1)"
    have j: "i < j" "j \<le> n"
      using scanWhile_ge [of "i + 1" isIdentPart s n] scanWhile_le [of "i + 1" n isIdentPart s] i by (auto simp: j_def)
    have w: "piece s i j = s ! i # piece s (i + 1) j" using piece_Suc [of i s j] j i n by simp
    have "list_all isIdentPart (piece s (i + 1) j)" unfolding j_def using i n by (intro scan_all) auto
    then have "lexeme (classifyWord (piece s i j)) (piece s i j)" using c by (intro lexeme_word) (simp_all add: w isIdentPart_def)
    moreover have "lexWord s n i st = (j, emit (classifyWord (piece s i j)) i j st)" by (simp only: d False if_False piece_def j_def)
    ultimately show ?thesis using emits_emit by simp
  qed
qed

section \<open>Operators\<close>

lemma punct_texts:
  "map (\<lambda>p. tokenKindText (Pn p))
     [Semi, Comma, Colon, ColonColon, Dot, DotDot, Ellipsis, LParen, RParen, LBracket, RBracket,
      LBrace, RBrace, LAngle, Lt, Gt, LtEq, Equiv, GtEq, EqEq, NotEq, EqEqEq, NotEqEq, Assign,
      PlusAssign, MinusAssign, StarAssign, SlashAssign, PercentAssign, CaretAssign, AtAssign,
      AmpAssign, PipeAssign, Plus, Minus, Star, Slash, Percent, Caret, At, Hash, Amp, Pipe, AmpAmp,
      PipePipe, Bang, BangBang, Tilde, Question, QuestionQuestion, Arrow, FatArrow, Underscore] =
     ['';'', '','', '':'', ''::'', ''.'', ''..'', ''...'', ''('', '')'', ''['', '']'', ''{'', ''}'',
      ''<'', ''<'', ''>'', ''<='', ''<=>'', ''>='', ''=='', ''!='', ''==='', ''!=='', ''='', ''+='',
      ''-='', ''*='', ''/='', ''%='', ''^='', ''@='', ''&='', ''|='', ''+'', ''-'', ''*'', ''/'',
      ''%'', ''^'', ''@'', ''#'', ''&'', ''|'', ''&&'', ''||'', ''!'', ''!!'', ''~'', ''?'', ''??'',
      ''->'', ''=>'', ''_'']"
  by code_simp

lemma punctKind_text:
  assumes "charClass c = kPunct" "punctKind c c1 c2 t = (k, len)"
  shows "lexeme k (take len [c, c1, c2])"
proof -
  have c: "c \<in> set '';,:.()[]{}<>=+-*/%^@&|!~?''" using assms(1) by (auto simp: charClass_def split: if_splits)
  then show ?thesis using assms(2) unfolding punctKind_def by (auto simp: punct_texts [simplified] split: if_splits)
qed

lemma lexPunct_lexeme_plain:
  assumes i: "i < n" and n: "n \<le> length s" and c: "charClass (s ! i) = kPunct"
    and p: "punctKind (s ! i) (byteAt s n (i + 1)) (byteAt s n (i + 2)) t = (k, len)" and len: "i + len \<le> n"
  shows "lexeme k (piece s i (i + len))"
proof -
  have l3: "len \<le> 3" "0 < len"
    using punctKind_length [where c = "s ! i" and ?c1.0 = "byteAt s n (i + 1)" and ?c2.0 = "byteAt s n (i + 2)" and t = t] p by auto
  then have "len = 1 \<or> len = 2 \<or> len = 3" by auto
  then have "piece s i (i + len) = take len [s ! i, byteAt s n (i + 1), byteAt s n (i + 2)]"
    using len n by (elim disjE) (simp_all add: byteAt_def piece_Suc numeral_3_eq_3)
  then show ?thesis using punctKind_text [OF c p] by simp
qed

lemma lexLineComment_lexeme:
  assumes i: "i + 2 \<le> n" and n: "n \<le> length s" and c: "s ! i = CHR ''/''" "s ! (i + 1) = CHR ''/''"
  shows "emitsLexeme s i st (lexLineComment s n i st)"
proof -
  let ?j = "scanWhile isLineBody s n (i + 2)"
  have two: "piece s i (i + 2) = ''//''" using i n c by (simp add: piece_Suc)
  have all: "list_all isLineBody (piece s (i + 2) ?j)" using i n by (intro scan_all) auto
  have j: "i + 2 \<le> ?j" "?j \<le> n" using scanWhile_ge [of "i + 2" isLineBody s n] scanWhile_le [OF i, of isLineBody s] by auto
  have line: "lexeme LineComment (piece s i ?j)" using two all j by (simp, intro sq_piece [where m = "i + 2"]) (auto simp: lit_def)
  have doc: "lexeme DocComment (piece s i ?j)" if d: "byteAt s n (i + 2) = CHR ''/''" "byteAt s n (i + 3) \<noteq> CHR ''/''"
  proof -
    have lt: "i + 2 < n" "s ! (i + 2) = CHR ''/''" using byteAt_in [OF d(1)] by auto
    have "?j = scanWhile isLineBody s n (i + 2 + 1)" using lt by (subst scanWhile.simps) (simp add: isLineBody_def)
    then have j3: "i + 3 \<le> ?j" using scanWhile_ge [of "i + 2 + 1" isLineBody s n] by simp
    have p3: "piece s (i + 2) ?j = CHR ''/'' # piece s (i + 3) ?j" using piece_Suc [of "i + 2" s ?j] lt j3 n by (simp add: numeral_3_eq_3)
    have "piece s i (i + 3) = ''///''" using lt n c by (simp add: piece_Suc numeral_3_eq_3)
    moreover have "piece s (i + 3) ?j = [] \<or> hd (piece s (i + 3) ?j) \<noteq> CHR ''/''"
    proof (cases "i + 3 < ?j")
      case True then show ?thesis using piece_hd [OF True] j n d(2) by (simp add: byteAt_def)
    next
      case False then show ?thesis using j3 by simp
    qed
    ultimately show ?thesis using all p3 j3 by (simp, intro sq_piece [where m = "i + 3"]) (auto simp: lit_def)
  qed
  show ?thesis unfolding lexLineComment_def Let_def using line doc by (intro emits_trivia) auto
qed

lemma lexBlockComment_lexeme:
  assumes i: "i + 2 \<le> n" and n: "n \<le> length s" and c: "s ! i = CHR ''/''" "s ! (i + 1) = CHR ''*''"
  shows "emitsLexeme s i st (lexBlockComment s n i st)"
proof (cases "findText ''*/'' s n (i + 2)")
  case None
  then show ?thesis using i n emits_refused [of i n s _ st]
    by (simp add: lexBlockComment_def noteLines_eq emits_trivia piece_nonempty)
next
  case (Some k)
  have two: "piece s i (i + 2) = ''/*''" using i n c by (simp add: piece_Suc)
  have k: "i + 2 \<le> k" "k + 2 \<le> n" "piece s k (k + 2) = ''*/''" using findText_Some [OF Some] piece_find [OF Some] by auto
  have inner: "sq anyText (lit ''*/'') (piece s (i + 2) (k + 2))" using k by (intro sq_piece [where m = k]) (auto simp: lit_def anyText_def)
  have "lexeme BlockComment (piece s i (k + 2))"
    unfolding lexeme.simps by (rule sq_piece [where m = "i + 2"]) (use two k inner in \<open>auto simp: lit_def\<close>)
  then show ?thesis using Some k i by (simp add: lexBlockComment_def noteLines_eq emits_trivia)
qed

lemma lexPunct_lexeme:
  assumes i: "i < n" and n: "n \<le> length s" and c: "charClass (s ! i) = kPunct"
  shows "emitsLexeme s i st (lexPunct s n i st)"
proof -
  consider (line) "s ! i = CHR ''/'' \<and> byteAt s n (i + 1) = CHR ''/''"
    | (block) "s ! i = CHR ''/'' \<and> byteAt s n (i + 1) = CHR ''*''" "\<not> (s ! i = CHR ''/'' \<and> byteAt s n (i + 1) = CHR ''/'')"
    | (op) "\<not> (s ! i = CHR ''/'' \<and> byteAt s n (i + 1) = CHR ''/'')" "\<not> (s ! i = CHR ''/'' \<and> byteAt s n (i + 1) = CHR ''*'')" by blast
  then show ?thesis
  proof cases
    case line
    then show ?thesis using lexLineComment_lexeme [of i n s st] n byteAt_in [of s n "i + 1" "CHR ''/''"] by (simp add: lexPunct_def)
  next
    case block
    then show ?thesis using lexBlockComment_lexeme [of i n s st] n byteAt_in [of s n "i + 1" "CHR ''*''"] by (simp add: lexPunct_def)
  next
    case op
    obtain k len where p: "punctKind (s ! i) (byteAt s n (i + 1)) (byteAt s n (i + 2)) (lxPending st = 0 \<and> endsAngleHost (lxPrevious st)) = (k, len)"
      by fastforce
    have eq: "lexPunct s n i st = (i + len, emit k i (i + len) st)"
      unfolding lexPunct_def Let_def p prod.case by (simp only: op if_False)
    then have "i + len \<le> n" using lexMove_forward lexPunct_move [OF i c, of st] by simp
    then show ?thesis using lexPunct_lexeme_plain [OF i n c p] eq emits_emit by simp
  qed
qed

lemma lexHash_lexeme:
  assumes i: "i < n" and n: "n \<le> length s" and c: "s ! i = CHR ''#''"
  shows "emitsLexeme s i st (lexHash s n i st)"
proof (cases "i = 0 \<and> byteAt s n 1 = CHR ''!''")
  case True
  let ?P = "\<lambda>c. isLineBody c \<and> c \<noteq> CHR 0x0C" let ?j = "scanWhile ?P s n 1"
  have one: "1 < n" "s ! 1 = CHR ''!''" using byteAt_in [of s n 1] True by auto
  have j: "?j = scanWhile ?P s n 2" using one by (subst scanWhile.simps) (simp add: isLineBody_def numeral_2_eq_2)
  have "2 \<le> ?j" unfolding j by (rule scanWhile_ge)
  moreover have "list_all ?P (piece s 2 ?j)" unfolding j using one n by (intro scan_all) auto
  moreover have "piece s 0 2 = ''#!''" 
  proof -
    have "s \<noteq> []" using one n by auto
    then show ?thesis using one n c True piece_Suc [of 0 s 2] piece_Suc [of 1 s 2] by (simp add: numeral_2_eq_2)
  qed
  ultimately have "sq (lit ''#!'') (list_all ?P) (piece s 0 ?j)" by (intro sq_piece [where m = 2]) (auto simp: lit_def)
  then show ?thesis using True by (simp add: lexHash_def Let_def emits_trivia)
next
  case False
  have "tokenKindText (Pn Hash) = ''#''" by code_simp
  then show ?thesis using False piece_one [of i s] i n c by (auto simp: lexHash_def intro!: emits_emit)
qed

lemma lexIllegal_lexeme:
  assumes i: "i < n" and n: "n \<le> length s" and c: "charClass (s ! i) = kIllegal"
  shows "emitsLexeme s i st (lexIllegal s n i st)"
proof -
  have "i < scanWhile (\<lambda>c. charClass c = kIllegal) s n i \<and> scanWhile (\<lambda>c. charClass c = kIllegal) s n i \<le> n"
    using lexMove_forward lexIllegal_move [of i n s st, OF i c] unfolding lexIllegal_def Let_def by blast
  then show ?thesis unfolding lexIllegal_def Let_def using n by (intro emits_refused) auto
qed

section \<open>Numbers\<close>

lemma exponent_text:
  assumes j: "j \<le> n" "n \<le> length s"
  shows "opt expText (piece s j (exponentEnd s n j))"
proof (cases "exponentEnd s n j = j")
  case True then show ?thesis by (simp add: opt_def)
next
  case False
  define sgn where "sgn \<longleftrightarrow> byteAt s n (j + 1) = CHR ''+'' \<or> byteAt s n (j + 1) = CHR ''-''"
  define k where "k = (if sgn then j + 2 else j + 1)"
  have ne: "\<not> (byteAt s n j \<noteq> CHR ''e'' \<and> byteAt s n j \<noteq> CHR ''E'')" 
  proof
    assume "byteAt s n j \<noteq> CHR ''e'' \<and> byteAt s n j \<noteq> CHR ''E''"
    then have "exponentEnd s n j = j" unfolding exponentEnd_def by (simp only: if_True simp_thms)
    then show False using False by simp
  qed
  have eq: "exponentEnd s n j = (if \<not> isDigit (byteAt s n k) then j else scanWhile isDigit s n k)"
    by (simp only: exponentEnd_def Let_def k_def sgn_def ne if_False)
  have e: "j < n" "s ! j = CHR ''e'' \<or> s ! j = CHR ''E''" using ne by (auto simp: byteAt_def split: if_splits)
  have dig: "isDigit (byteAt s n k)" using False eq by (cases "isDigit (byteAt s n k)") simp_all
  have kn: "k < n" "isDigit (s ! k)" using byteAt_class [of isDigit s n k] dig by auto
  have "scanWhile isDigit s n k = scanWhile isDigit s n (k + 1)" using kn by (subst scanWhile.simps) simp
  then have "k < scanWhile isDigit s n k" using scanWhile_ge [of "k + 1" isDigit s n] by simp
  moreover have E: "exponentEnd s n j = scanWhile isDigit s n k" using eq dig by simp
  ultimately have "many1 isDigit (piece s k (exponentEnd s n j))" using kn j by (simp add: piece_scan)
  moreover have "opt (\<lambda>w. w = ''+'' \<or> w = ''-'') (piece s (j + 1) k)"
    using kn j piece_one [of "j + 1" s] by (auto simp: k_def sgn_def opt_def byteAt_def numeral_2_eq_2 split: if_splits)
  moreover have "j + 1 \<le> k" "k \<le> exponentEnd s n j" using E scanWhile_ge [of k isDigit s n] by (auto simp: k_def)
  ultimately have inner: "sq (opt (\<lambda>w. w = ''+'' \<or> w = ''-'')) (many1 isDigit) (piece s (j + 1) (exponentEnd s n j))"
    by (intro sq_piece [where m = k])
  have "expText (piece s j (exponentEnd s n j))" unfolding expText_def
    by (rule sq_piece [where m = "j + 1"]) (use inner e piece_one [of j s] j \<open>j + 1 \<le> k\<close> \<open>k \<le> exponentEnd s n j\<close> in auto)
  then show ?thesis by (simp add: opt_def)
qed

lemma digits_text: "i < n \<Longrightarrow> n \<le> length s \<Longrightarrow> isDigit (s ! i) \<Longrightarrow> many1 isDigit (piece s i (scanWhile isDigit s n (i + 1)))"
  using scan_all [of "i + 1" n s isDigit] piece_Suc [of i s "scanWhile isDigit s n (i + 1)"] scanWhile_ge [of "i + 1" isDigit s n]
  by (simp add: many1_def)

lemma whole_text:
  assumes i: "i < n" "n \<le> length s" "isDigit (s ! i)" and z: "\<not> (s ! i = CHR ''0'' \<and> isDigit (byteAt s n (i + 1)))"
  shows "wholeText (piece s i (scanWhile isDigit s n (i + 1)))"
proof (cases "s ! i = CHR ''0''")
  case True
  then have "scanWhile isDigit s n (i + 1) = i + 1" using z by (subst scanWhile.simps) (auto simp: byteAt_def)
  then show ?thesis using piece_one [of i s] i True by (simp add: wholeText_def many1_def isDigit_def between_def)
next
  case False
  have "hd (piece s i (scanWhile isDigit s n (i + 1))) = s ! i"
    using piece_hd [of i "scanWhile isDigit s n (i + 1)" s] scanWhile_ge [of "i + 1" isDigit s n] scanWhile_le [of "i + 1" n isDigit s] i by simp
  then show ?thesis using digits_text [OF i] False by (simp add: wholeText_def)
qed

lemma imaginary_piece: "imaginarySuffix s n k \<Longrightarrow> n \<le> length s \<Longrightarrow> piece s k (k + 1) = ''i''"
  using byteAt_in [of s n k "CHR ''i''"] piece_one [of k s] by (simp add: imaginarySuffix_def)

lemma imaginary_text:
  "wholeText (piece s i k) \<or> realText (piece s i k) \<Longrightarrow> imaginarySuffix s n k \<Longrightarrow> n \<le> length s \<Longrightarrow> i \<le> k \<Longrightarrow>
   lexeme Imaginary (piece s i (k + 1))"
  unfolding lexeme.simps by (rule sq_piece [where m = k]) (use imaginary_piece [of s n k] in \<open>auto simp: lit_def\<close>)

lemma refuseNumber_lexeme: "i < e \<Longrightarrow> e \<le> length s \<Longrightarrow> emitsLexeme s i st (refuseNumber i e st)"
  unfolding refuseNumber_def by (rule emits_refused) auto

lemma decimal_real:
  "wholeText (piece s i d) \<Longrightarrow> expText (piece s d e) \<Longrightarrow> i \<le> d \<Longrightarrow> d \<le> e \<Longrightarrow> realText (piece s i e)"
  unfolding realText_def by (rule sq_piece [where m = d]) auto

lemma lexReal_lexeme:
  assumes i: "i < n" "n \<le> length s" "isDigit (s ! i)" and j: "j = scanWhile isDigit s n (i + 1)"
    and dot: "byteAt s n j = CHR ''.''" and dig: "isDigit (byteAt s n (j + 1))"
  shows "emitsLexeme s i st (lexReal s n i j st)"
proof -
  define f where "f = scanWhile isDigit s n (j + 2)" define k where "k = exponentEnd s n f"
  have ij: "i < j" using scanWhile_ge [of "i + 1" isDigit s n] j by simp
  have d1: "j < n" "s ! j = CHR ''.''" using byteAt_in [OF dot] by auto
  have d2: "j + 1 < n" "isDigit (s ! (j + 1))" using byteAt_class [of isDigit s n "j + 1"] dig by auto
  have f: "j + 2 \<le> f" "f \<le> n" using scanWhile_ge [of "j + 2" isDigit s n] scanWhile_le [of "j + 2" n isDigit s] d2 by (auto simp: f_def)
  have k: "f \<le> k" "k \<le> n" using stretch_exponent [OF f(2), of s] by (auto simp: k_def stretch_def)
  have fr: "many1 isDigit (piece s (j + 1) f)" using digits_text [OF d2(1) i(2) d2(2)] by (simp add: f_def)
  have "opt expText (piece s f k)" unfolding k_def by (rule exponent_text [OF f(2) i(2)])
  then have "sq (many1 isDigit) (opt expText) (piece s (j + 1) k)" using fr f k by (intro sq_piece [where m = f]) auto
  then have "sq (lit ''.'') (sq (many1 isDigit) (opt expText)) (piece s j k)"
    using sq_piece [where P = "lit ''.''" and i = j and m = "j + 1" and j = k] piece_one [of j s] d1 i(2) f k by (simp add: lit_def)
  then have real: "realText (piece s i k)" if "\<not> (s ! i = CHR ''0'' \<and> isDigit (byteAt s n (i + 1)))"
    using whole_text [OF i that] j ij f k unfolding realText_def by (intro sq_piece [where m = j]) auto
  have k1: "imaginarySuffix s n k \<Longrightarrow> k + 1 \<le> n" using stretch_imaginary [of s n k] by (simp add: stretch_def)
  show ?thesis
  proof (cases "s ! i = CHR ''0'' \<and> isDigit (byteAt s n (i + 1))")
    case True
    then show ?thesis unfolding lexReal_def Let_def f_def [symmetric] k_def [symmetric]
      using refuseNumber_lexeme [of i _ s st] ij f k k1 i(2) by auto
  next
    case False
    then have "lexReal s n i j st = (if imaginarySuffix s n k then (k + 1, emit Imaginary i (k + 1) st) else (k, emit Real i k st))"
      unfolding lexReal_def Let_def f_def [symmetric] k_def [symmetric] by (simp only: False if_False)
    then show ?thesis using real [OF False] imaginary_text [OF disjI2 [OF real [OF False]] _ i(2)] ij f k emits_emit by simp
  qed
qed

lemma prefix_text:
  assumes i: "i + 2 \<le> n" "n \<le> length s" "s ! i = CHR ''0''" "s ! (i + 1) = c"
    and d: "i + 2 < d" "d \<le> scanWhile P s n (i + 2)"
  shows "sq (lit [CHR ''0'', c]) (many1 P) (piece s i d)"
proof -
  have "d \<le> n" using d(2) scanWhile_le [OF i(1), of P s] by simp
  then have "list_all P (piece s (i + 2) d)" using d(2) i(2) by (intro piece_all) (auto intro!: scanWhile_in [of "i + 2" _ P s n])
  moreover have "piece s (i + 2) d \<noteq> []" using piece_nonempty [OF d(1)] \<open>d \<le> n\<close> i(2) by simp
  moreover have "piece s i (i + 2) = [CHR ''0'', c]" using i by (simp add: piece_Suc)
  ultimately show ?thesis using d(1) by (intro sq_piece [where m = "i + 2"]) (auto simp: lit_def many1_def)
qed

lemma prefixed_texts:
  assumes i: "i + 2 \<le> n" "n \<le> length s" "s ! i = CHR ''0''"
  shows "s ! (i + 1) = CHR ''x'' \<Longrightarrow> hexEnd s n i = (d, False) \<Longrightarrow> prefixText (piece s i d)"
    and "s ! (i + 1) = CHR ''b'' \<Longrightarrow> binEnd s n i = (d, False) \<Longrightarrow> prefixText (piece s i d)"
    and "s ! (i + 1) = CHR ''o'' \<Longrightarrow> octEnd s n i = (d, False) \<Longrightarrow> prefixText (piece s i d)"
proof -
  assume x: "s ! (i + 1) = CHR ''x''" "hexEnd s n i = (d, False)"
  then have "i + 2 < d \<and> d \<le> scanWhile isHexDigit s n (i + 2)"
    using scanWhile_ge [of "i + 2" isHexDigit s n] by (auto simp: hexEnd_def Let_def split: if_splits)
  then show "prefixText (piece s i d)" using prefix_text [OF i x(1)] by (auto simp: prefixText_def)
next
  assume x: "s ! (i + 1) = CHR ''b''" "binEnd s n i = (d, False)"
  let ?P = "\<lambda>c. c = CHR ''0'' \<or> c = CHR ''1''"
  have "i + 2 < d \<and> d \<le> scanWhile ?P s n (i + 2)"
    using x(2) scanWhile_ge [of "i + 2" ?P s n] by (auto simp: binEnd_def Let_def split: if_splits)
  then show "prefixText (piece s i d)" using prefix_text [OF i x(1), of d ?P] by (auto simp: prefixText_def)
next
  assume x: "s ! (i + 1) = CHR ''o''" "octEnd s n i = (d, False)"
  let ?P = "\<lambda>c. between (CHR ''0'') c (CHR ''7'')"
  have "i + 2 < d \<and> d \<le> scanWhile ?P s n (i + 2)"
    using x(2) scanWhile_ge [of "i + 2" ?P s n] by (auto simp: octEnd_def Let_def split: if_splits)
  then show "prefixText (piece s i d)" using prefix_text [OF i x(1), of d ?P] by (auto simp: prefixText_def)
qed

lemma integerEnd_text:
  assumes i: "i < n" "n \<le> length s" "isDigit (s ! i)" and j: "j = scanWhile isDigit s n (i + 1)"
    and d: "integerEnd s n i j = (d, False)"
  shows "if s ! i \<noteq> CHR ''0'' \<or> d = i + 1 then wholeText (piece s i d) else prefixText (piece s i d)"
proof (cases "s ! i = CHR ''0''")
  case False
  then show ?thesis using d whole_text [OF i] j by (simp add: integerEnd_def)
next
  case z: True
  have b: "byteAt s n (i + 1) = c \<Longrightarrow> c \<noteq> CHR 0x00 \<Longrightarrow> i + 2 \<le> n \<and> s ! (i + 1) = c" for c
    using byteAt_in [of s n "i + 1" c] by auto
  have zero: "wholeText ''0''" by code_simp
  have ge: "i + 2 \<le> d \<or> d = i + 1"
    using d z scanWhile_ge [of "i + 2" _ s n]
    by (auto simp: integerEnd_def hexEnd_def binEnd_def octEnd_def Let_def split: if_splits)
  consider (x) "byteAt s n (i + 1) = CHR ''x''" | (b) "byteAt s n (i + 1) = CHR ''b''" | (o) "byteAt s n (i + 1) = CHR ''o''"
    | (other) "byteAt s n (i + 1) \<notin> {CHR ''x'', CHR ''b'', CHR ''o''}" by blast
  then show ?thesis
  proof cases
    case x
    then have "hexEnd s n i = (d, False)" using d z by (simp add: integerEnd_def)
    moreover from this have "i + 2 \<le> d" using scanWhile_ge [of "i + 2" isHexDigit s n] by (auto simp: hexEnd_def Let_def split: if_splits)
    ultimately show ?thesis using b [OF x] prefixed_texts(1) [OF _ i(2) z, of d] z by simp
  next
    case b': b
    then have "binEnd s n i = (d, False)" using d z by (simp add: integerEnd_def)
    moreover from this have "i + 2 \<le> d" using scanWhile_ge [of "i + 2" _ s n] by (auto simp: binEnd_def Let_def split: if_splits)
    ultimately show ?thesis using b [OF b'] prefixed_texts(2) [OF _ i(2) z, of d] z by simp
  next
    case o
    then have "octEnd s n i = (d, False)" using d z by (simp add: integerEnd_def)
    moreover from this have "i + 2 \<le> d" using scanWhile_ge [of "i + 2" _ s n] by (auto simp: octEnd_def Let_def split: if_splits)
    ultimately show ?thesis using b [OF o] prefixed_texts(3) [OF _ i(2) z, of d] z by simp
  next
    case other
    then have "d = i + 1" using d z by (auto simp: integerEnd_def Let_def split: if_splits)
    then show ?thesis using piece_one [of i s] i z zero by simp
  qed
qed

lemma lexInteger_lexeme:
  assumes i: "i < n" "n \<le> length s" "isDigit (s ! i)" and j: "j = scanWhile isDigit s n (i + 1)"
  shows "emitsLexeme s i st (lexInteger s n i j st)"
proof -
  have nl: "s ! i \<noteq> newlineChar" using i(3) by auto
  have js: "stretch s n i j" "i < j"
    using stretch_trans [OF stretch_next [OF i(1) nl] stretch_scan [of "i + 1" n isDigit s]] i(1) scanWhile_ge [of "i + 1" isDigit s n] j by auto
  obtain d inv where d: "integerEnd s n i j = (d, inv)" by fastforce
  then have ds: "stretch s n i d" "i < d" using integerEnd_stretch [OF i(1) nl js] by auto
  show ?thesis
  proof (cases inv)
    case True
    let ?w = "if d = i + 2 then scanWhile isIdentPart s n d else d"
    have "lexInteger s n i j st = refuseNumber i ?w st" using True by (simp add: lexInteger_def d)
    moreover have "i < ?w" "?w \<le> n" using ds stretch_on(1) [OF ds(1), of isIdentPart] scanWhile_ge [of d isIdentPart s n] by (auto simp: stretch_def)
    ultimately show ?thesis using refuseNumber_lexeme [of i ?w s st] i(2) by simp
  next
    case False
    define e where "e = exponentEnd s n d"
    define dec where "dec \<longleftrightarrow> s ! i \<noteq> CHR ''0'' \<or> d = i + 1"
    have eq: "lexInteger s n i j st =
      (if dec \<and> imaginarySuffix s n e then (e + 1, emit Imaginary i (e + 1) st)
       else (e, emit (if d < e \<and> dec then Real else Integer) i e st))"
      unfolding lexInteger_def d Let_def prod.case dec_def e_def using False by (simp only: if_False)
    have dn: "d \<le> n" using ds by (simp add: stretch_def)
    have de: "d \<le> e" "opt expText (piece s d e)" using exponentEnd_ge [OF dn] exponent_text [OF dn i(2)] by (auto simp: e_def)
    have t: "if dec then wholeText (piece s i d) else prefixText (piece s i d)"
      using integerEnd_text [OF i j] d False by (simp add: dec_def)
    have decimal: "dec \<Longrightarrow> if d < e then realText (piece s i e) else wholeText (piece s i e)"
    proof -
      assume dec
      show ?thesis
      proof (cases "d < e")
        case True
        then have "e \<le> length s" using stretch_exponent [OF dn, of s] i(2) by (auto simp: e_def stretch_def)
        then have "expText (piece s d e)" using de(2) piece_nonempty [OF True] by (auto simp: opt_def)
        then show ?thesis using decimal_real [of s i d e] t \<open>dec\<close> ds de True by simp
      next
        case False
        then show ?thesis using t \<open>dec\<close> de by simp
      qed
    qed
    have int: "\<not> dec \<Longrightarrow> integerText (piece s i e)"
      using sq_piece [where P = prefixText and Q = "opt expText" and i = i and m = d and j = e] t ds de by (simp add: integerText_def)
    have "lexeme (if d < e \<and> dec then Real else Integer) (piece s i e)"
      using decimal int by (cases dec) (auto simp: integerText_def split: if_splits)
    moreover have "dec \<and> imaginarySuffix s n e \<Longrightarrow> lexeme Imaginary (piece s i (e + 1))"
      using decimal imaginary_text [of s i e n] i(2) ds de by (auto split: if_splits)
    ultimately show ?thesis unfolding eq using emits_emit by auto
  qed
qed

lemma digit_class: "charClass c = kDigit \<Longrightarrow> isDigit c"
  by (auto simp: charClass_def isDigit_def split: if_splits)

lemma lexNumber_lexeme:
  assumes "i < n" "n \<le> length s" "charClass (s ! i) = kDigit"
  shows "emitsLexeme s i st (lexNumber s n i st)"
  unfolding lexNumber_def Let_def
  using lexReal_lexeme [OF assms(1,2) digit_class [OF assms(3)] refl] lexInteger_lexeme [OF assms(1,2) digit_class [OF assms(3)] refl] by auto

section \<open>Quotes\<close>

lemma skipString_text:
  "skipString c s n j = Some k \<Longrightarrow> n \<le> length s \<Longrightarrow> j < k \<and> k \<le> n \<and> quotedBody c (piece s j (k - 1)) \<and> s ! (k - 1) = c"
proof (induction c s n j rule: skipString.induct)
  case (1 c s n j)
  let ?esc = "s ! j = CHR 0x5C \<and> j + 1 < n \<and> (s ! (j + 1) = c \<or> s ! (j + 1) = CHR 0x5C)"
  have jn: "j < n" using "1.prems"(1) by (subst (asm) skipString.simps) (auto split: if_splits)
  consider (close) "s ! j = c" | (esc) "s ! j \<noteq> c" ?esc | (plain) "s ! j \<noteq> c" "\<not> ?esc" by blast
  then show ?case
  proof cases
    case close
    then have "k = j + 1" using "1.prems"(1) jn by (subst (asm) skipString.simps) auto
    then show ?thesis using close jn by simp
  next
    case esc
    then have "skipString c s n (j + 2) = Some k" using "1.prems"(1) jn by (subst (asm) skipString.simps) auto
    then have r: "j + 2 < k" "k \<le> n" "quotedBody c (piece s (j + 2) (k - 1))" "s ! (k - 1) = c" using "1.IH"(1) esc jn "1.prems"(2) by auto
    have "piece s j (k - 1) = s ! j # s ! (j + 1) # piece s (j + 2) (k - 1)"
      using piece_Suc [of j s "k - 1"] piece_Suc [of "j + 1" s "k - 1"] r "1.prems"(2) by simp
    then show ?thesis using r esc by simp
  next
    case plain
    then have "skipString c s n (j + 1) = Some k" using "1.prems"(1) jn by (subst (asm) skipString.simps) auto
    then have r: "j + 1 < k" "k \<le> n" "quotedBody c (piece s (j + 1) (k - 1))" "s ! (k - 1) = c" using "1.IH"(2) plain jn "1.prems"(2) by auto
    have p: "piece s j (k - 1) = s ! j # piece s (j + 1) (k - 1)" using piece_Suc [of j s "k - 1"] r "1.prems"(2) by simp
    have "quotedBody c (piece s j (k - 1))"
    proof (cases "piece s (j + 1) (k - 1)")
      case Nil then show ?thesis using p plain(1) by simp
    next
      case (Cons y w)
      then have "j + 1 < k - 1" by (metis list.distinct(1) not_less piece_def take_eq_Nil diff_is_0_eq)
      then have "y = s ! (j + 1)" "j + 1 < n" using piece_hd [of "j + 1" "k - 1" s] Cons r "1.prems"(2) by auto
      then show ?thesis using p plain r(3) Cons by auto
    qed
    then show ?thesis using r by simp
  qed
qed

lemma quote_chars: "charClass c = kQuote \<Longrightarrow> c = CHR 0x27 \<or> c = CHR 0x22 \<or> c = CHR 0x60"
  by (auto simp: charClass_def split: if_splits)

lemma quoted_piece:
  assumes "i < m" "m < k" "k \<le> length s" "s ! i = c" "s ! (k - 1) = c" "m = i + 1" "Q (piece s m (k - 1))"
  shows "sq (lit [c]) (sq Q (lit [c])) (piece s i k)"
proof -
  have "piece s (k - 1) k = [c]" using piece_one [of "k - 1" s] assms by simp
  then have "sq Q (lit [c]) (piece s m k)" using assms by (intro sq_piece [where m = "k - 1"]) (auto simp: lit_def)
  moreover have "piece s i m = [c]" using piece_one [of i s] assms by simp
  ultimately show ?thesis using assms sq_piece [where P = "lit [c]" and i = i and m = m and j = k and s = s] by (simp add: lit_def)
qed

lemma lexString_lexeme:
  assumes i: "i < n" "n \<le> length s" and c: "s ! i = CHR 0x27 \<or> s ! i = CHR 0x22"
  shows "emitsLexeme s i st (lexString s n i st)"
proof -
  have nl: "s ! i \<noteq> newlineChar" using c by auto
  obtain r lines where rl: "stringLoop (s ! i) s n (i + 1) (lxLines st) = (r, lines)" by fastforce
  then have r: "r = skipString (s ! i) s n (i + 1)" using stringLoop_spec [OF rl] i nl by simp
  show ?thesis
  proof (cases r)
    case None then show ?thesis using rl refuseString_lexeme [OF i(1) nl i(2)] by (simp add: lexString_def)
  next
    case (Some k)
    then have "i + 1 < k" "k \<le> n" "quotedBody (s ! i) (piece s (i + 1) (k - 1))" "s ! (k - 1) = s ! i"
      using skipString_text [of "s ! i" s n "i + 1" k] r i by auto
    then have "sq (lit [s ! i]) (sq (quotedBody (s ! i)) (lit [s ! i])) (piece s i k)"
      using i by (intro quoted_piece [where m = "i + 1"]) auto
    then have "lexeme String (piece s i k)" using c by auto
    then show ?thesis using Some rl c by (auto simp: lexString_def intro!: emits_emit)
  qed
qed

text \<open>The run of a formatted string that closes, as an induction: it closes here, some text is
  passed over, or an interpolation is.\<close>

lemma fstring_run [consumes 1, case_names close skip expr]:
  assumes run: "fstringLoop s n j parts = (Some k, parts')"
    and close: "\<And>j. j < n \<Longrightarrow> s ! j = CHR 0x60 \<Longrightarrow> k = j + 1 \<Longrightarrow> P j parts'"
    and skip: "\<And>j m parts. j < m \<Longrightarrow> fstringLoop s n m parts = (Some k, parts') \<Longrightarrow> P m parts \<Longrightarrow> P j parts"
    and expr: "\<And>j cl parts. s ! j = CHR ''$'' \<Longrightarrow> s ! (j + 1) = CHR ''{'' \<Longrightarrow> scanInterpolation s n (j + 2) 0 = Some cl \<Longrightarrow>
      fstringLoop s n (cl + 1) (parts @ [interpolationAt j cl]) = (Some k, parts') \<Longrightarrow>
      P (cl + 1) (parts @ [interpolationAt j cl]) \<Longrightarrow> P j parts"
  shows "P j parts"
  using run
proof (induction "n - j" arbitrary: j parts rule: less_induct)
  case less
  note eq = fstringLoop.simps [of s n j parts]
  have jn: "j < n" using less.prems by (subst (asm) eq) (simp split: if_splits)
  have go: "P j parts" if "j < m" "fstringLoop s n m parts = (Some k, parts')" for m
    using skip [OF that] less.hyps [OF _ that(2)] that(1) jn by simp
  consider (close) "s ! j = CHR 0x60" | (esc) "s ! j \<noteq> CHR 0x60" "s ! j = CHR 0x5C \<and> j + 1 < n"
    | (expr) "s ! j \<noteq> CHR 0x60" "\<not> (s ! j = CHR 0x5C \<and> j + 1 < n)" "s ! j = CHR ''$'' \<and> j + 1 < n \<and> s ! (j + 1) = CHR ''{''"
    | (plain) "s ! j \<noteq> CHR 0x60" "\<not> (s ! j = CHR 0x5C \<and> j + 1 < n)" "\<not> (s ! j = CHR ''$'' \<and> j + 1 < n \<and> s ! (j + 1) = CHR ''{'')"
    by blast
  then show ?case
  proof cases
    case close then show ?thesis using less.prems eq assms(2) [of j] jn by auto
  next
    case esc
    then have "\<exists>m \<in> {j + 3, j + 2, j + 1}. fstringLoop s n m parts = (Some k, parts')"
      using less.prems jn unfolding eq by (metis insertCI)
    then show ?thesis using go [of "j + 3"] go [of "j + 2"] go [of "j + 1"] by fastforce
  next
    case expr
    then obtain cl where cl: "scanInterpolation s n (j + 2) 0 = Some cl" "fstringLoop s n (cl + 1) (parts @ [interpolationAt j cl]) = (Some k, parts')"
      using less.prems eq jn by (cases "scanInterpolation s n (j + 2) 0") auto
    then have "n - (cl + 1) < n - j" using scanInterpolation_Some [OF cl(1)] by auto
    then have "P (cl + 1) (parts @ [interpolationAt j cl])" using less.hyps [OF _ cl(2)] by simp
    then show ?thesis using assms(4) [OF _ _ cl] expr by simp
  next
    case plain
    then have "fstringLoop s n (j + 1) parts = (Some k, parts')" using less.prems jn by (simp only: eq if_True if_False simp_thms)
    then show ?thesis using go [of "j + 1"] by simp
  qed
qed

lemma fstringLoop_close: "fstringLoop s n j parts = (Some k, parts') \<Longrightarrow> s ! (k - 1) = CHR 0x60"
  by (induction rule: fstring_run) auto

lemma lexFString_lexeme:
  assumes i: "i < n" "n \<le> length s" and c: "s ! i = CHR 0x60"
  shows "emitsLexeme s i st (lexFString sub s n i st)"
proof -
  have nl: "s ! i \<noteq> newlineChar" using c by auto
  obtain r parts where rp: "fstringLoop s n (i + 1) [] = (r, parts)" by fastforce
  show ?thesis
  proof (cases r)
    case None then show ?thesis using rp refuseString_lexeme [OF i(1) nl i(2)] by (simp add: lexFString_def)
  next
    case (Some k)
    then have "i + 1 < k" "k \<le> n" "s ! (k - 1) = CHR 0x60"
      using skipFString_lines_end [of s n "i + 1" k parts] fstringLoop_close [of s n "i + 1" "[]" k parts] rp by auto
    then have "sq (lit [CHR 0x60]) (sq anyText (lit [CHR 0x60])) (piece s i k)"
      using i c by (intro quoted_piece [where m = "i + 1"]) (auto simp: anyText_def)
    then show ?thesis using Some rp by (auto simp: lexFString_def Let_def intro!: emits_emit)
  qed
qed

lemma lexQuote_lexeme:
  assumes i: "i < n" "n \<le> length s" and c: "charClass (s ! i) = kQuote"
  shows "emitsLexeme s i st (lexQuote sub s n i st)"
proof (cases "tripleClose s n i")
  case None
  then show ?thesis using quote_chars [OF c] lexFString_lexeme [OF i] lexString_lexeme [OF i] by (auto simp: lexQuote_def)
next
  case (Some k)
  let ?c = "s ! i"
  have f: "findText [?c, ?c, ?c] s n (i + 3) = Some k" "?c \<noteq> CHR 0x60" "byteAt s n (i + 1) = ?c" "byteAt s n (i + 2) = ?c"
    using Some by (auto simp: tripleClose_def split: if_splits)
  have q: "?c = CHR 0x27 \<or> ?c = CHR 0x22" using quote_chars [OF c] f(2) by blast
  have k: "i + 3 \<le> k" "k + 3 \<le> n" "piece s k (k + 3) = [?c, ?c, ?c]" using findText_Some [OF f(1)] piece_find [OF f(1)] by (auto simp: numeral_3_eq_3)
  have front: "piece s i (i + 3) = [?c, ?c, ?c]"
    using f(3,4) k i(2) by (simp add: byteAt_def piece_Suc numeral_3_eq_3 numeral_2_eq_2)
  have inner: "sq anyText (lit [?c, ?c, ?c]) (piece s (i + 3) (k + 3))"
    using k by (intro sq_piece [where m = k]) (auto simp: anyText_def lit_def)
  have "sq (lit [?c, ?c, ?c]) (sq anyText (lit [?c, ?c, ?c])) (piece s i (k + 3))"
    by (rule sq_piece [where m = "i + 3"]) (use front inner k in \<open>auto simp: lit_def\<close>)
  then have "lexeme MultiStr (piece s i (k + 3))" using q by auto
  then show ?thesis using Some emits_emit by (simp add: lexQuote_def)
qed

section \<open>The loop\<close>

lemma hash_class: "charClass c = kHash \<Longrightarrow> c = CHR ''#''"
  by (auto simp: charClass_def split: if_splits)

lemma lexStep_lexeme: "i < n \<Longrightarrow> n \<le> length s \<Longrightarrow> emitsLexeme s i st (lexStep sub s n i st)"
  unfolding lexStep_def
  by (cases "charClass (s ! i)")
    (simp_all add: lexWord_lexeme lexNumber_lexeme lexQuote_lexeme lexHash_lexeme lexPunct_lexeme lexIllegal_lexeme hash_class,
     simp_all add: emitsLexeme_def lexBlank_def lexNewline_def)

lemma lexLoop_lexemes:
  assumes "lexemes s (lxTokens st)" "n \<le> length s" "length s < 2 ^ 32" "i \<le> n"
  shows "lexemes s (lxTokens (lexLoop sub s n i st))"
proof (rule lexer.loop_invariant [where Inv = "\<lambda>i st. lexemes s (lxTokens st)"])
  fix i st j st' assume i: "i < n" and st: "lexemes s (lxTokens st)" and step: "lexStep sub s n i st = (j, st')"
  have "u32 i = i" "u32 j = j" using i lexStep_forward [OF i step] assms(2,3) by simp_all
  then show "lexemes s (lxTokens st')"
    using lexStep_lexeme [OF i assms(2), of st sub] st step by (auto simp: emitsLexeme_def lexemes_def)
qed (use assms in simp_all)

lemma lexRange_lexemes:
  "n \<le> length s \<Longrightarrow> length s < 2 ^ 32 \<Longrightarrow> start \<le> n \<Longrightarrow> lexemes s (bufTokens (lexRange sub s start n))"
  using lexLoop_lexemes [of s "startState s start" n start sub]
  by (simp add: lexRange_def Let_def lexemes_def startState_def)

end
