(* ===== verification/Lexer_Interpolation.thy ===== *)
theory Lexer_Interpolation
  imports Lexer_Lexeme
begin

text \<open>
  The interpolations of formatted strings: every recorded \<open>${EXPR[:SPEC]}\<close> lies inside its token,
  its offsets are in order and at the bytes they name, and the interpolations of a buffer are in
  source order and do not overlap.
\<close>

definition partOk :: "string \<Rightarrow> Token list \<Rightarrow> FStringInterpolation \<Rightarrow> bool" where
  "partOk s ts p \<longleftrightarrow>
     fToken p < length ts \<and> tKind (ts ! fToken p) = FString \<and>
     tBegin (ts ! fToken p) < fOpen p \<and> fClose p + 1 < tEnd (ts ! fToken p) \<and>
     fExprBegin p = fOpen p + 2 \<and> fExprBegin p \<le> fExprEnd p \<and> fExprEnd p \<le> fSpecBegin p \<and>
     fSpecBegin p \<le> fSpecEnd p \<and> fSpecEnd p = fClose p \<and>
     s ! fOpen p = CHR ''$'' \<and> s ! (fOpen p + 1) = CHR ''{'' \<and> s ! fClose p = CHR 0x7D \<and>
     (if fHasSpec p then s ! fExprEnd p = CHR '':'' \<and> fSpecBegin p = fExprEnd p + 1 else fExprEnd p = fClose p \<and> fSpecBegin p = fClose p)"

definition inOrder :: "FStringInterpolation list \<Rightarrow> bool" where
  "inOrder ps \<longleftrightarrow> sorted_wrt (\<lambda>p q. fClose p < fOpen q) ps"

definition partsOk :: "string \<Rightarrow> nat \<Rightarrow> LexState \<Rightarrow> bool" where
  "partsOk s i st \<longleftrightarrow> inOrder (lxInterpolations st) \<and>
     (\<forall>p \<in> set (lxInterpolations st). partOk s (lxTokens st) p \<and> fClose p < i)"

text \<open>The colons the sub-lexer reports are colons of the text it was given.\<close>

definition subOk :: "string \<Rightarrow> (nat \<Rightarrow> nat \<Rightarrow> Token list) \<Rightarrow> bool" where
  "subOk s sub \<longleftrightarrow> (\<forall>b e. b \<le> e \<longrightarrow> e \<le> length s \<longrightarrow>
     (\<forall>t \<in> set (sub b e). tKind t = Pn Colon \<longrightarrow> b \<le> tBegin t \<and> tEnd t = tBegin t + 1 \<and> tEnd t \<le> e \<and> s ! tBegin t = CHR '':''))"

definition rawPart :: "string \<Rightarrow> nat \<Rightarrow> nat \<Rightarrow> FStringInterpolation \<Rightarrow> bool" where
  "rawPart s j k p \<longleftrightarrow> (\<exists>o' c. p = interpolationAt o' c \<and> j \<le> o' \<and> o' + 2 \<le> c \<and> c + 1 < k \<and>
     s ! o' = CHR ''$'' \<and> s ! (o' + 1) = CHR ''{'' \<and> s ! c = CHR 0x7D)"

lemma rawPart_mono: "rawPart s m k p \<Longrightarrow> j \<le> m \<Longrightarrow> rawPart s j k p"
proof -
  assume "rawPart s m k p" "j \<le> m"
  then obtain o' c where "p = interpolationAt o' c" "m \<le> o'" "o' + 2 \<le> c" "c + 1 < k" "s ! o' = CHR ''$''" "s ! (o' + 1) = CHR ''{''" "s ! c = CHR 0x7D"
    unfolding rawPart_def by blast
  then show ?thesis unfolding rawPart_def using \<open>j \<le> m\<close> by (intro exI [of _ o'] exI [of _ c]) simp
qed

lemma fstring_parts:
  assumes "fstringLoop s n j parts = (Some k, ps)" and n: "n < 2 ^ 32"
  shows "\<exists>new. ps = parts @ new \<and> (\<forall>p \<in> set new. rawPart s j k p) \<and> inOrder new"
  using assms(1)
proof (induction rule: fstring_run)
  case (close j)
  then show ?case by (simp add: inOrder_def)
next
  case (skip j m parts)
  then obtain new where "ps = parts @ new" "\<forall>p \<in> set new. rawPart s m k p" "inOrder new" by blast
  then show ?case using rawPart_mono [of s m k _ j] skip(1) by (metis less_imp_le)
next
  case (expr j cl parts)
  then obtain new where new: "ps = parts @ interpolationAt j cl # new" "\<forall>p \<in> set new. rawPart s (cl + 1) k p" "inOrder new" by auto
  have cl: "j + 2 \<le> cl" "cl < n" "s ! cl = CHR 0x7D" using scanInterpolation_Some [OF expr(3)] by auto
  have ck: "cl + 1 < k" using fstringLoop_end [of s n "cl + 1" "parts @ [interpolationAt j cl]"] expr(4) skipFString_Some [of s n "cl + 1" k] by simp
  have kn: "k \<le> n" using fstringLoop_end [of s n "cl + 1" "parts @ [interpolationAt j cl]"] expr(4) skipFString_Some [of s n "cl + 1" k] by simp
  have "rawPart s j k (interpolationAt j cl)" unfolding rawPart_def using expr(1,2) cl ck by blast
  moreover have "rawPart s (cl + 1) k p \<Longrightarrow> rawPart s j k p" for p
    using rawPart_mono [of s "cl + 1" k p j] cl(1) by simp
  moreover have "fClose (interpolationAt j cl) < fOpen p" if p: "p \<in> set new" for p
  proof -
    obtain o' c where q: "p = interpolationAt o' c" "cl + 1 \<le> o'" "o' + 2 \<le> c" "c + 1 < k" using new(2) p unfolding rawPart_def by blast
    have "u32 o' = o'" "u32 cl = cl" using q kn n cl by simp_all
    then show ?thesis using q by (simp add: interpolationAt_def)
  qed
  ultimately show ?case using new by (intro exI [of _ "interpolationAt j cl # new"]) (auto simp: inOrder_def)
qed

lemma splitLoop_cases:
  "splitLoop ts opened p = endInterpolation p \<or> (\<exists>t \<in> set ts. tKind t = Pn Colon \<and> splitLoop ts opened p = specInterpolation t p)"
  by (induction ts arbitrary: opened) (auto split: if_splits)

lemma split_part:
  assumes p: "rawPart s (i + 1) k p" and k: "k \<le> length s" "length s < 2 ^ 32" and sub: "subOk s sub"
    and t: "m < length ts" "ts ! m = \<lparr>tBegin = i, tEnd = k, tKind = FString, tFlags = f\<rparr>"
  shows "partOk s ts (splitInterpolation sub (p\<lparr>fToken := m\<rparr>)) \<and>
    fOpen (splitInterpolation sub (p\<lparr>fToken := m\<rparr>)) = fOpen p \<and> fClose (splitInterpolation sub (p\<lparr>fToken := m\<rparr>)) = fClose p \<and> fClose p < k"
proof -
  obtain o' c where q: "p = interpolationAt o' c" "i + 1 \<le> o'" "o' + 2 \<le> c" "c + 1 < k"
    "s ! o' = CHR ''$''" "s ! (o' + 1) = CHR ''{''" "s ! c = CHR 0x7D" using p unfolding rawPart_def by blast
  have u: "u32 o' = o'" "u32 (o' + 2) = o' + 2" "u32 c = c" using q k by simp_all
  have p': "p = \<lparr>fToken = 0, fOpen = o', fExprBegin = o' + 2, fExprEnd = 0, fSpecBegin = 0, fSpecEnd = 0, fClose = c, fHasSpec = False\<rparr>"
    unfolding q(1) interpolationAt_def u ..
  from splitLoop_cases [of "sub (o' + 2) c" "[]" "p\<lparr>fToken := m\<rparr>"]
  show ?thesis
  proof
    assume "splitLoop (sub (o' + 2) c) [] (p\<lparr>fToken := m\<rparr>) = endInterpolation (p\<lparr>fToken := m\<rparr>)"
    then show ?thesis using q(2-) t by (simp add: splitInterpolation_def p' endInterpolation_def partOk_def)
  next
    assume "\<exists>t \<in> set (sub (o' + 2) c). tKind t = Pn Colon \<and> splitLoop (sub (o' + 2) c) [] (p\<lparr>fToken := m\<rparr>) = specInterpolation t (p\<lparr>fToken := m\<rparr>)"
    then obtain u where u: "u \<in> set (sub (o' + 2) c)" "tKind u = Pn Colon"
      "splitLoop (sub (o' + 2) c) [] (p\<lparr>fToken := m\<rparr>) = specInterpolation u (p\<lparr>fToken := m\<rparr>)" by blast
    have "o' + 2 \<le> tBegin u \<and> tEnd u = tBegin u + 1 \<and> tEnd u \<le> c \<and> s ! tBegin u = CHR '':''"
      using sub u(1,2) q k unfolding subOk_def by (metis (no_types, lifting) add_leD1 le_trans less_imp_le)
    then show ?thesis using u(3) q(2-) t by (simp add: splitInterpolation_def p' specInterpolation_def partOk_def)
  qed
qed

section \<open>The loop\<close>

lemma partOk_append: "partOk s ts p \<Longrightarrow> partOk s (ts @ us) p"
  by (simp add: partOk_def nth_append)

lemma blind_keeps: "blind f \<Longrightarrow> lxInterpolations (snd (f st)) = lxInterpolations st"
proof -
  assume "blind f"
  then have "f (st\<lparr>lxInterpolations := lxInterpolations st\<rparr>) = (fst (f st), (snd (f st))\<lparr>lxInterpolations := lxInterpolations st\<rparr>)"
    unfolding blind_def by blast
  then have "snd (f st) = (snd (f st))\<lparr>lxInterpolations := lxInterpolations st\<rparr>" by (metis LexState.surjective LexState.update_convs(3) snd_conv)
  then show ?thesis by (metis LexState.select_convs(3) LexState.surjective LexState.update_convs(3))
qed

lemma lexMove_tokens: "lexMove s n (i, st) (j, st') \<Longrightarrow> \<exists>us. lxTokens st' = lxTokens st @ us"
  by (auto elim!: lexMove.cases simp: emit_def emitTrivia_def pushError_def)

lemma lexStep_keeps:
  "\<not> (s ! i = CHR 0x60 \<and> fst (fstringLoop s n (i + 1) []) \<noteq> None) \<Longrightarrow> lxInterpolations (snd (lexStep sub s n i st)) = lxInterpolations st"
proof (cases "charClass (s ! i)")
  case kQuote
  assume h: "\<not> (s ! i = CHR 0x60 \<and> fst (fstringLoop s n (i + 1) []) \<noteq> None)"
  show ?thesis
  proof (cases "tripleClose s n i")
    case (Some k)
    then show ?thesis using kQuote by (simp add: lexStep_def lexQuote_def emit_def noteLines_def split: prod.splits)
  next
    case None
    have "s ! i = CHR 0x60 \<Longrightarrow> lxInterpolations (snd (lexFString sub s n i st)) = lxInterpolations st"
      using h by (cases "fstringLoop s n (i + 1) []")
        (simp add: lexFString_def refuseString_def Let_def emitTrivia_def pushError_def)
    then show ?thesis using kQuote None blind_keeps [OF blind_string] by (simp add: lexStep_def lexQuote_def)
  qed
qed (simp_all add: lexStep_def blind_keeps blind_white blind_word blind_number blind_hash blind_punct blind_illegal)

lemma lexFString_parts:
  assumes i: "i < n" "n \<le> length s" "length s < 2 ^ 32" and ok: "partsOk s i st" and sub: "subOk s sub"
    and run: "fstringLoop s n (i + 1) [] = (Some k, parts)" and small: "length (lxTokens st) < 2 ^ 32"
  shows "partsOk s k (snd (lexFString sub s n i st))"
proof -
  let ?m = "length (lxTokens st)" let ?t = "\<lparr>tBegin = i, tEnd = k, tKind = FString, tFlags = lxPending st\<rparr>"
  let ?found = "map (\<lambda>part. splitInterpolation sub (part\<lparr>fToken := ?m\<rparr>)) parts" let ?ts = "lxTokens st @ [?t]"
  have k: "i + 1 < k" "k \<le> n" using skipFString_lines_end [OF run] by auto
  have u: "u32 i = i" "u32 k = k" "u32 ?m = ?m" using k i small by simp_all
  have res: "lxInterpolations (snd (lexFString sub s n i st)) = lxInterpolations st @ ?found" "lxTokens (snd (lexFString sub s n i st)) = ?ts"
    using run k i u by (simp_all add: lexFString_def Let_def noteLines_eq emit_def)
  have raw: "\<forall>p \<in> set parts. rawPart s (i + 1) k p" "inOrder parts" using fstring_parts [OF run] i by auto
  have one: "partOk s ?ts (splitInterpolation sub (p\<lparr>fToken := ?m\<rparr>)) \<and> fOpen (splitInterpolation sub (p\<lparr>fToken := ?m\<rparr>)) = fOpen p \<and>
      fClose (splitInterpolation sub (p\<lparr>fToken := ?m\<rparr>)) = fClose p \<and> fClose p < k" if "p \<in> set parts" for p
    by (rule split_part [where i = i and f = "lxPending st"]) (use raw(1) that k i sub in auto)
  have new: "\<forall>p \<in> set ?found. partOk s ?ts p \<and> fClose p < k \<and> i < fOpen p"
  proof
    fix q assume "q \<in> set ?found"
    then obtain p where p: "p \<in> set parts" "q = splitInterpolation sub (p\<lparr>fToken := ?m\<rparr>)" by auto
    obtain o' c where "p = interpolationAt o' c" "i + 1 \<le> o'" "o' + 2 \<le> c" "c + 1 < k" using raw(1) p(1) unfolding rawPart_def by blast
    then have "i < fOpen p" using k i by (simp add: interpolationAt_def)
    then show "partOk s ?ts q \<and> fClose q < k \<and> i < fOpen q" using one [OF p(1)] p(2) by simp
  qed
  have "inOrder ?found" unfolding inOrder_def sorted_wrt_map
    by (rule sorted_wrt_mono_rel [OF _ raw(2) [unfolded inOrder_def]]) (simp add: one)
  moreover have "fClose p < fOpen q" if "p \<in> set (lxInterpolations st)" "q \<in> set ?found" for p q
    using that(1) ok new that(2) unfolding partsOk_def by force
  moreover have "\<forall>p \<in> set (lxInterpolations st). partOk s ?ts p \<and> fClose p < k" using ok k partOk_append unfolding partsOk_def by force
  ultimately show ?thesis using ok new unfolding partsOk_def res by (auto simp: inOrder_def sorted_wrt_append)
qed

lemma tiles_length: "tiles s p ts e \<Longrightarrow> p + length ts \<le> e"
  by (induction ts arbitrary: p) force+

lemma lexStep_parts:
  assumes i: "i < n" "n \<le> length s" "length s < 2 ^ 32" and ok: "partsOk s i st" and sub: "subOk s sub"
    and inv: "lexInv s start n i st" and step: "lexStep sub s n i st = (j, st')"
  shows "partsOk s j st'"
proof (cases "s ! i = CHR 0x60 \<and> fst (fstringLoop s n (i + 1) []) \<noteq> None")
  case False
  obtain us where "lxTokens st' = lxTokens st @ us" using lexMove_tokens lexStep_move [OF i(1), of s st sub] step by metis
  moreover have "i < j" using lexStep_forward [OF i(1) step] by simp
  ultimately show ?thesis
    using ok lexStep_keeps [OF False, of sub st] step partOk_append unfolding partsOk_def by fastforce
next
  case True
  then obtain k parts where run: "fstringLoop s n (i + 1) [] = (Some k, parts)" by (metis option.collapse prod.collapse)
  have c: "charClass (s ! i) = kQuote" "tripleClose s n i = None" using True by (simp_all add: charClass_def between_def tripleClose_def)
  then have "lexStep sub s n i st = lexFString sub s n i st" using True by (simp add: lexStep_def lexQuote_def)
  moreover from this have "j = k" using step run by (simp add: lexFString_def Let_def)
  moreover have "length (lxTokens st) < 2 ^ 32" using tiles_length [of s start "lxTokens st" i] inv i by (simp add: lexInv_def)
  ultimately show ?thesis using lexFString_parts [OF i ok sub run] step by (metis snd_conv)
qed

lemma lexLoop_parts:
  assumes "lexInv s start n i st" "partsOk s i st" "n \<le> length s" "length s < 2 ^ 32" "subOk s sub"
  shows "partsOk s n (lexLoop sub s n i st)"
proof -
  have "lexInv s start n n (lexLoop sub s n i st) \<and> partsOk s n (lexLoop sub s n i st)"
  proof (rule lexer.loop_invariant [where Inv = "\<lambda>i st. lexInv s start n i st \<and> partsOk s i st"])
    fix i st j st' assume i: "i < n" and st: "lexInv s start n i st \<and> partsOk s i st" and step: "lexStep sub s n i st = (j, st')"
    then show "lexInv s start n j st' \<and> partsOk s j st'"
      using lexInv_step [OF i _ step] lexStep_parts [OF i assms(3,4) _ assms(5) _ step] assms(3,4) by (meson le_less_trans)
  qed (use assms in \<open>auto simp: lexInv_def\<close>)
  then show ?thesis ..
qed

lemma tiles_inside: "tiles s p ts e \<Longrightarrow> t \<in> set ts \<Longrightarrow> p \<le> tBegin t \<and> tBegin t < tEnd t \<and> tEnd t \<le> e"
proof (induction ts arbitrary: p)
  case (Cons u us)
  have u: "p \<le> tBegin u" "tBegin u < tEnd u" "tiles s (tEnd u) us e" using Cons.prems(1) by auto
  show ?case
  proof (cases "t = u")
    case True then show ?thesis using u tiles_length [OF u(3)] by simp
  next
    case False
    then have "tEnd u \<le> tBegin t \<and> tBegin t < tEnd t \<and> tEnd t \<le> e" using Cons.IH [OF u(3)] Cons.prems(2) by simp
    then show ?thesis using u by simp
  qed
qed simp

lemma subOk_lexRange:
  assumes "length s < 2 ^ 32"
  shows "subOk s (\<lambda>b e. bufTokens (lexRange (sub' b e) s (min b (length s)) (min e (length s))))"
  unfolding subOk_def
proof (intro allI impI ballI)
  fix b e t
  let ?B = "bufTokens (lexRange (sub' b e) s (min b (length s)) (min e (length s)))"
  assume be: "b \<le> e" "e \<le> length s" and t: "t \<in> set ?B" "tKind t = Pn Colon"
  obtain ts f where ts: "?B = ts @ [\<lparr>tBegin = e, tEnd = e, tKind = Eof, tFlags = f\<rparr>]" "tiles s b ts e"
    using lexRange_spec [of b e s "sub' b e"] be assms by (auto simp: min_absorb1)
  have in_ts: "t \<in> set ts" using t ts(1) by auto
  have pos: "b \<le> tBegin t" "tBegin t < tEnd t" "tEnd t \<le> e" using tiles_inside [OF ts(2) in_ts] by auto
  have "lexeme (Pn Colon) (piece s (tBegin t) (tEnd t))"
    using lexRange_lexemes [of "min e (length s)" s "min b (length s)" "sub' b e"] assms be t unfolding lexemes_def list_all_iff by fastforce
  then have p: "piece s (tBegin t) (tEnd t) = '':''" by (simp add: punct_texts [simplified])
  then have "tEnd t = tBegin t + 1" using piece_length [of "tEnd t" s "tBegin t"] pos be by simp
  then show "b \<le> tBegin t \<and> tEnd t = tBegin t + 1 \<and> tEnd t \<le> e \<and> s ! tBegin t = CHR '':''"
    using pos p piece_one [of "tBegin t" s] be by simp
qed

lemma tokenizeImpl_parts:
  assumes "start \<le> n" "n \<le> length s" "length s < 2 ^ 32"
  shows "inOrder (bufInterpolations (tokenizeImpl s start n)) \<and>
    (\<forall>p \<in> set (bufInterpolations (tokenizeImpl s start n)). partOk s (bufTokens (tokenizeImpl s start n)) p)"
proof -
  define sub where "sub = (\<lambda>b e. bufTokens (lexRange (\<lambda>_ _. []) s (min b (length s)) (min e (length s))))"
  have "subOk s sub" unfolding sub_def by (rule subOk_lexRange [OF assms(3)])
  moreover have "partsOk s start (startState s start)" by (simp add: partsOk_def startState_def inOrder_def)
  ultimately have "partsOk s n (lexLoop sub s n start (startState s start))"
    using lexLoop_parts [OF lexInv_start [OF assms(1)] _ assms(2,3)] by blast
  then show ?thesis unfolding tokenizeImpl_def sub_def [symmetric]
    by (simp add: lexRange_def Let_def partsOk_def partOk_append)
qed

end
