(* ===== verification/Lexer_Buffer.thy ===== *)
theory Lexer_Buffer
  imports Lexer_Interpolation
begin

text \<open>
  The operations of a token buffer (\<open>class TokenBuffer\<close> in \<open>token.h\<close> and \<open>lexer.cpp\<close>): lines and
  columns of an offset, the neighbours the parser sees, the documentation above a declaration
  and the interpolations of a token. An index past the front (\<open>SIZE_MAX\<close>) is \<open>None\<close>.
\<close>

unbundle bit_operations_syntax

definition tokenText :: "TokenBuffer \<Rightarrow> Token \<Rightarrow> string" where
  "tokenText b t = take (tEnd t - tBegin t) (drop (tBegin t) (bufSource b))"

text \<open>\<open>std::upper_bound\<close> on the line table: the first entry greater than the offset.\<close>

definition lineOf :: "TokenBuffer \<Rightarrow> nat \<Rightarrow> nat" where
  "lineOf b offset = length (takeWhile (\<lambda>x. x \<le> offset) (bufLineStarts b)) - 1"

definition isContinuation :: "char \<Rightarrow> bool" where
  "isContinuation c \<longleftrightarrow> (of_char c :: nat) AND 0xC0 = 0x80"

definition columnOf :: "TokenBuffer \<Rightarrow> nat \<Rightarrow> nat" where
  "columnOf b offset =
     length (filter (\<lambda>i. \<not> isContinuation (bufSource b ! i))
       [bufLineStarts b ! lineOf b offset ..< min offset (length (bufSource b))])"

definition lineCount :: "TokenBuffer \<Rightarrow> nat" where
  "lineCount b = length (bufLineStarts b)"

function nextSignificant :: "TokenBuffer \<Rightarrow> nat \<Rightarrow> nat" where
  "nextSignificant b index =
     (if index < length (bufTokens b) \<and> isTrivia (tKind (bufTokens b ! index)) then nextSignificant b (index + 1) else index)"
  by auto
termination by (relation "measure (\<lambda>(b, index). length (bufTokens b) - index)") auto

fun previousSignificant :: "TokenBuffer \<Rightarrow> nat \<Rightarrow> nat option" where
  "previousSignificant b 0 =
     (if 0 < length (bufTokens b) \<and> isTrivia (tKind (bufTokens b ! 0)) then None else Some 0)"
| "previousSignificant b (Suc index) =
     (if Suc index < length (bufTokens b) \<and> isTrivia (tKind (bufTokens b ! Suc index)) then previousSignificant b index
      else Some (Suc index))"

definition interpolationsOf :: "TokenBuffer \<Rightarrow> nat \<Rightarrow> FStringInterpolation list" where
  "interpolationsOf b token = filter (\<lambda>part. fToken part = token) (bufInterpolations b)"

section \<open>Documentation comments\<close>

fun triviaRun :: "Token list \<Rightarrow> nat \<Rightarrow> nat" where
  "triviaRun ts 0 = 0"
| "triviaRun ts (Suc i) = (if isTrivia (tKind (ts ! i)) then triviaRun ts i else Suc i)"

function firstDoc :: "Token list \<Rightarrow> nat \<Rightarrow> nat \<Rightarrow> nat" where
  "firstDoc ts index first = (if first < index \<and> tKind (ts ! first) \<noteq> DocComment then firstDoc ts index (first + 1) else first)"
  by auto
termination by (relation "measure (\<lambda>(ts, index, first). index - first)") auto

definition docStart :: "TokenBuffer \<Rightarrow> nat \<Rightarrow> nat" where
  "docStart b index =
     (let ts = bufTokens b; i = triviaRun ts index;
          j = (if i < index \<and> 0 < i \<and> lineOf b (tBegin (ts ! (i - 1))) + 1 < lineOf b (tBegin (ts ! i)) then firstDoc ts index i else i)
      in if j < index \<and> tKind (ts ! j) = LineComment then index else j)"

definition docBody :: "string \<Rightarrow> string" where
  "docBody w =
     (let body = drop 3 w; body' = (if body \<noteq> [] \<and> hd body = CHR '' '' then tl body else body)
      in rev (dropWhile (\<lambda>c. c = CHR 0x0D \<or> c = CHR '' '') (rev body')))"

definition appendDoc :: "TokenBuffer \<Rightarrow> Token \<Rightarrow> string \<Rightarrow> string" where
  "appendDoc b t doc =
     (if tKind t = DocComment then (if doc \<noteq> [] then doc @ [newlineChar] else doc) @ docBody (tokenText b t) else doc)"

definition docAbove :: "TokenBuffer \<Rightarrow> nat \<Rightarrow> string" where
  "docAbove b index =
     (if length (bufTokens b) \<le> index then []
      else fold (\<lambda>j. appendDoc b (bufTokens b ! j)) [docStart b index..<index] [])"

text \<open>A buffer whose line table is that of its source.\<close>

definition linesRight :: "TokenBuffer \<Rightarrow> bool" where
  "linesRight b \<longleftrightarrow> bufLineStarts b = 0 # lineStartsIn (bufSource b) 0 (length (bufSource b))"

section \<open>Lines and columns\<close>

lemma sorted_lineStarts: "sorted (lineStartsIn s b e)"
  unfolding lineStartsIn_def by (simp add: sorted_wrt_map sorted_wrt_filter)

lemma takeWhile_sorted: "sorted xs \<Longrightarrow> takeWhile (\<lambda>x. x \<le> a) xs = filter (\<lambda>x. x \<le> (a :: nat)) xs"
proof (induction xs)
  case (Cons x xs)
  then show ?case by (cases "x \<le> a") (auto intro!: filter_False [symmetric])
qed simp

lemma sorted_le_last: "sorted xs \<Longrightarrow> x \<in> set xs \<Longrightarrow> x \<le> (last xs :: nat)"
  by (induction xs) (auto split: if_splits dest: last_in_set)

lemma lineStarts_upto:
  assumes "off \<le> e" shows "filter (\<lambda>x. x \<le> off) (lineStartsIn s 0 e) = lineStartsIn s 0 off"
proof -
  have "filter (\<lambda>x. x \<le> off) (lineStartsIn s off e) = []" by (auto simp: lineStartsIn_def filter_empty_conv)
  moreover have "filter (\<lambda>x. x \<le> off) (lineStartsIn s 0 off) = lineStartsIn s 0 off" by (rule filter_True) (auto simp: lineStartsIn_def)
  ultimately show ?thesis using lineStartsIn_split [of 0 off e s] assms by simp
qed

lemma lineOf_starts:
  assumes "linesRight b" "off \<le> length (bufSource b)"
  shows "lineOf b off = length (lineStartsIn (bufSource b) 0 off)"
  using assms takeWhile_sorted [OF sorted_lineStarts] lineStarts_upto [OF assms(2)] by (simp add: lineOf_def linesRight_def)

lemma length_lineStartsIn: "e \<le> length s \<Longrightarrow> length (lineStartsIn s 0 e) = count_list (take e s) newlineChar"
proof (induction e)
  case (Suc e)
  then show ?case using lineStartsIn_split [of 0 e "Suc e" s] by (simp add: take_Suc_conv_app_nth)
qed simp

lemma lineOf_count:
  "linesRight b \<Longrightarrow> off \<le> length (bufSource b) \<Longrightarrow> lineOf b off = count_list (take off (bufSource b)) newlineChar"
  by (simp add: lineOf_starts length_lineStartsIn)

text \<open>The start of the line an offset is on: past the last line break before it.\<close>

lemma lineStart_of:
  assumes r: "linesRight b" and off: "off \<le> length (bufSource b)"
  shows "bufLineStarts b ! lineOf b off \<le> off \<and> \<not> hasNewline (bufSource b) (bufLineStarts b ! lineOf b off) off \<and>
    (lineOf b off + 1 < lineCount b \<longrightarrow> off < bufLineStarts b ! (lineOf b off + 1))"
proof -
  let ?s = "bufSource b" let ?a = "lineStartsIn ?s 0 off" let ?c = "lineStartsIn ?s off (length ?s)"
  have starts: "bufLineStarts b = 0 # ?a @ ?c" using r lineStartsIn_split [of 0 off "length ?s" ?s] off by (simp add: linesRight_def)
  have line: "lineOf b off = length ?a" by (rule lineOf_starts [OF r off])
  have at_line: "bufLineStarts b ! lineOf b off = last (0 # ?a)" unfolding starts line by (simp add: last_conv_nth nth_Cons' nth_append)
  have le: "last (0 # ?a) \<le> off"
    using last_in_set [of "0 # ?a"] by (auto simp: lineStartsIn_def)
  have flat: "\<not> hasNewline ?s (last (0 # ?a)) off"
  proof
    assume "hasNewline ?s (last (0 # ?a)) off"
    then obtain k where k: "last (0 # ?a) \<le> k" "k < off" "?s ! k = newlineChar" by (auto simp: hasNewline_iff)
    then have "Suc k \<in> set ?a" by (auto simp: lineStartsIn_def)
    moreover have "sorted (0 # ?a)" using sorted_lineStarts by simp
    ultimately have "Suc k \<le> last (0 # ?a)" 
      using sorted_le_last [of "0 # ?a" "Suc k"] by simp
    then show False using k by simp
  qed
  have "off < bufLineStarts b ! (lineOf b off + 1)" if "lineOf b off + 1 < lineCount b"
  proof -
    have "?c \<noteq> []" using that line starts by (auto simp: lineCount_def)
    then have "(bufLineStarts b) ! (lineOf b off + 1) = hd ?c" unfolding starts line by (simp add: nth_append hd_conv_nth)
    then show ?thesis using hd_in_set [OF \<open>?c \<noteq> []\<close>] by (auto simp: lineStartsIn_def)
  qed
  then show ?thesis using at_line le flat by simp
qed

lemma columnOf_split:
  assumes r: "linesRight b" and a: "a \<le> c" "c \<le> length (bufSource b)" and l: "lineOf b a = lineOf b c"
  shows "columnOf b c = columnOf b a + length (filter (\<lambda>i. \<not> isContinuation (bufSource b ! i)) [a..<c])"
proof -
  let ?st = "bufLineStarts b ! lineOf b c"
  have "?st \<le> a" using lineStart_of [OF r, of a] a l by simp
  then have "[?st..<c] = [?st..<a] @ [a..<c]" using a upt_add_eq_append [of ?st a "c - a"] by simp
  then show ?thesis using a l by (simp add: columnOf_def min_absorb1)
qed

lemma position_unique_less:
  assumes r: "linesRight b" and a: "a < c" "c \<le> length (bufSource b)" "\<not> isContinuation (bufSource b ! a)"
  shows "lineOf b a \<noteq> lineOf b c \<or> columnOf b a < columnOf b c"
proof (cases "lineOf b a = lineOf b c")
  case True
  have "a \<in> set (filter (\<lambda>i. \<not> isContinuation (bufSource b ! i)) [a..<c])" using a by simp
  then have "filter (\<lambda>i. \<not> isContinuation (bufSource b ! i)) [a..<c] \<noteq> []" by (metis empty_iff empty_set)
  then show ?thesis using columnOf_split [OF r _ a(2) True] a(1) by simp
qed simp

section \<open>Neighbours\<close>

declare nextSignificant.simps [simp del] firstDoc.simps [simp del]

lemma nextSignificant_spec:
  "index \<le> nextSignificant b index \<and>
   (\<forall>k. index \<le> k \<longrightarrow> k < nextSignificant b index \<longrightarrow> k < length (bufTokens b) \<and> \<not> solid (bufTokens b ! k)) \<and>
   (nextSignificant b index < length (bufTokens b) \<longrightarrow> solid (bufTokens b ! nextSignificant b index))"
proof (induction b index rule: nextSignificant.induct)
  case (1 b index)
  show ?case
  proof (cases "index < length (bufTokens b) \<and> isTrivia (tKind (bufTokens b ! index))")
    case True
    then have eq: "nextSignificant b index = nextSignificant b (index + 1)" by (subst nextSignificant.simps) simp
    show ?thesis using 1 [OF True] True unfolding eq by (auto simp: solid_def) (metis Suc_leI le_neq_implies_less)+
  next
    case False
    then have "nextSignificant b index = index" by (subst nextSignificant.simps) (simp only: if_False)
    then show ?thesis using False by (auto simp: solid_def)
  qed
qed

lemma previousSignificant_spec:
  "index < length (bufTokens b) \<Longrightarrow>
   case previousSignificant b index of
     Some k \<Rightarrow> k \<le> index \<and> solid (bufTokens b ! k) \<and> (\<forall>m. k < m \<longrightarrow> m \<le> index \<longrightarrow> \<not> solid (bufTokens b ! m))
   | None \<Rightarrow> (\<forall>m \<le> index. \<not> solid (bufTokens b ! m))"
proof (induction index)
  case 0 then show ?case by (simp add: solid_def)
next
  case (Suc index)
  show ?case
  proof (cases "isTrivia (tKind (bufTokens b ! Suc index))")
    case True
    then show ?thesis using Suc by (auto simp: solid_def le_Suc_eq split: option.splits)
  next
    case False then show ?thesis by (auto simp: solid_def)
  qed
qed

section \<open>Documentation\<close>

lemma triviaRun_spec: "triviaRun ts index \<le> index \<and> (\<forall>k. triviaRun ts index \<le> k \<longrightarrow> k < index \<longrightarrow> \<not> solid (ts ! k))"
  by (induction index) (auto simp: solid_def less_Suc_eq)

lemma firstDoc_bounds: "first \<le> index \<Longrightarrow> first \<le> firstDoc ts index first \<and> firstDoc ts index first \<le> index"
proof (induction ts index first rule: firstDoc.induct)
  case (1 ts index first)
  then show ?case by (cases "first < index \<and> tKind (ts ! first) \<noteq> DocComment") (auto simp: firstDoc.simps [of ts index first])
qed

lemma docStart_bounds: "triviaRun (bufTokens b) index \<le> docStart b index \<and> docStart b index \<le> index"
  using triviaRun_spec [of "bufTokens b" index] firstDoc_bounds [of "triviaRun (bufTokens b) index" index "bufTokens b"]
  unfolding docStart_def Let_def by auto

lemma docStart_all:
  assumes "\<forall>k. triviaRun (bufTokens b) index \<le> k \<longrightarrow> k < index \<longrightarrow> tKind (bufTokens b ! k) = DocComment"
  shows "docStart b index = triviaRun (bufTokens b) index"
  using assms triviaRun_spec [of "bufTokens b" index] firstDoc.simps [of "bufTokens b" index "triviaRun (bufTokens b) index"]
  unfolding docStart_def Let_def by auto

lemma docStart_comment:
  assumes i: "i = triviaRun (bufTokens b) index" "i < index" "tKind (bufTokens b ! i) = LineComment"
    and l: "i = 0 \<or> lineOf b (tBegin (bufTokens b ! i)) \<le> lineOf b (tBegin (bufTokens b ! (i - 1))) + 1"
  shows "docStart b index = index"
  using assms unfolding docStart_def Let_def by auto

end
