(* ===== verification/Lexer_Properties.thy ===== *)
theory Lexer_Properties
  imports Lexer_Buffer
begin

text \<open>
  The properties of the lexer and of the token buffer: losslessness, the two flags, lines and
  positions, errors, lexemes, keywords, angle brackets, formatted strings, documentation and
  progress.
\<close>

text \<open>A turn of the loop, for counting turns.\<close>

definition lexTurn :: "(nat \<Rightarrow> nat \<Rightarrow> Token list) \<Rightarrow> string \<Rightarrow> nat \<Rightarrow> nat \<times> LexState \<Rightarrow> nat \<times> LexState" where
  "lexTurn sub s n x = (if fst x < n then lexStep sub s n (fst x) (snd x) else x)"

text \<open>The rule that tells the two meanings of a lone \<open><\<close> apart.\<close>

definition isAngle :: "TokenKind \<Rightarrow> bool" where
  "isAngle k \<longleftrightarrow> k = Pn LAngle \<or> k = Pn Lt"

definition angleRight :: "nat \<Rightarrow> Token list \<Rightarrow> bool" where
  "angleRight start ts \<longleftrightarrow>
     (\<forall>k < length ts. isAngle (tKind (ts ! k)) \<longrightarrow>
        (tKind (ts ! k) = Pn LAngle \<longleftrightarrow>
           tBegin (ts ! k) = solidEnd start (take k ts) \<and> endsAngleHost (lastKind (take k ts))))"

section \<open>Supporting lemmas\<close>

lemma tokenizeRange_eq:
  "b \<le> e \<Longrightarrow> e \<le> length s \<Longrightarrow> tokenizeRange s b e = tokenizeImpl s b e"
  by (simp add: tokenizeRange_def min_absorb1)

lemma tokenizeImpl_spec:
  assumes "b \<le> e" "e \<le> length s" "length s < 2 ^ 32"
  shows "\<exists>ts flags. bufTokens (tokenizeImpl s b e) = ts @ [\<lparr>tBegin = e, tEnd = e, tKind = Eof, tFlags = flags\<rparr>] \<and>
    tiles s b ts e \<and> Eof \<notin> tKind ` set ts \<and> flagsRight s b (bufTokens (tokenizeImpl s b e)) \<and>
    bufLineStarts (tokenizeImpl s b e) = 0 # lineStartsIn s 0 (length s) \<and>
    list_all2 errorOf (filter (\<lambda>t. tKind t = Error) (bufTokens (tokenizeImpl s b e))) (bufErrors (tokenizeImpl s b e))"
  unfolding tokenizeImpl_def by (rule lexRange_spec [OF assms])

lemma tokenize_source [simp]: "bufSource (tokenizeImpl s b e) = s"
  by (simp add: tokenizeImpl_def lexRange_def Let_def)

lemma tokenize_linesRight:
  "length s < 2 ^ 32 \<Longrightarrow> linesRight (tokenize s)"
  using tokenizeImpl_spec [of 0 "length s" s] unfolding tokenize_def linesRight_def by auto

lemma lexStep_angle:
  assumes i: "i < n" "n \<le> length s" and step: "lexStep sub s n i st = (j, st')" "lxTokens st' = lxTokens st @ [t]" "isAngle (tKind t)"
  shows "tKind t = Pn LAngle \<longleftrightarrow> lxPending st = 0 \<and> endsAngleHost (lxPrevious st)"
proof -
  have "lexeme (tKind t) (piece s i j)" "i < j" "j \<le> n"
    using lexStep_lexeme [OF i, of st sub] lexStep_forward [OF i(1) step(1)] step by (auto simp: emitsLexeme_def)
  then have "hd (piece s i j) = CHR ''<''" using step(3) by (auto simp: isAngle_def punct_texts [simplified])
  then have c: "s ! i = CHR ''<''" using piece_hd [of i j s] \<open>i < j\<close> \<open>j \<le> n\<close> i by simp
  then have "lexStep sub s n i st = lexPunct s n i st" by (simp add: lexStep_def charClass_def between_def)
  then show ?thesis using step c
    by (auto simp: lexPunct_def Let_def punctKind_def emit_def isAngle_def split: if_splits)
qed

lemma angleRight_snoc:
  "angleRight start ts \<Longrightarrow>
   (isAngle (tKind t) \<Longrightarrow> tKind t = Pn LAngle \<longleftrightarrow> tBegin t = solidEnd start ts \<and> endsAngleHost (lastKind ts)) \<Longrightarrow>
   angleRight start (ts @ [t])"
  unfolding angleRight_def by (auto simp: nth_append less_Suc_eq)

lemma lexStep_angleRight:
  assumes i: "i < n" "n \<le> length s" "length s < 2 ^ 32" and inv: "lexInv s start n i st" and ok: "angleRight start (lxTokens st)"
    and step: "lexStep sub s n i st = (j, st')"
  shows "angleRight start (lxTokens st')"
proof (cases "lxTokens st' = lxTokens st")
  case False
  have pend: "lxPending st = 0 \<longleftrightarrow> i = solidEnd start (lxTokens st)" "lxPrevious st = lastKind (lxTokens st)"
    using inv by (auto simp: lexInv_def hasNewline_iff)
  have "u32 i = i" using i by simp
  then obtain k f where t: "lxTokens st' = lxTokens st @ [\<lparr>tBegin = i, tEnd = u32 j, tKind = k, tFlags = f\<rparr>]"
    using lexStep_lexeme [OF i(1,2), of st sub] step False by (auto simp: emitsLexeme_def)
  show ?thesis unfolding t by (rule angleRight_snoc [OF ok]) (use lexStep_angle [OF i(1,2) step t] pend in simp)
qed (use ok in simp)

lemma lexLoop_angle:
  assumes "lexInv s start n i st" "angleRight start (lxTokens st)" "n \<le> length s" "length s < 2 ^ 32"
  shows "angleRight start (lxTokens (lexLoop sub s n i st))"
proof -
  have "lexInv s start n n (lexLoop sub s n i st) \<and> angleRight start (lxTokens (lexLoop sub s n i st))"
  proof (rule lexer.loop_invariant [where Inv = "\<lambda>i st. lexInv s start n i st \<and> angleRight start (lxTokens st)"])
    fix i st j st' assume i: "i < n" and st: "lexInv s start n i st \<and> angleRight start (lxTokens st)" and step: "lexStep sub s n i st = (j, st')"
    then show "lexInv s start n j st' \<and> angleRight start (lxTokens st')"
      using lexInv_step [OF i _ step] lexStep_angleRight [OF i assms(3,4) _ _ step] assms(3,4) by (meson le_less_trans)
  qed (use assms in \<open>auto simp: lexInv_def\<close>)
  then show ?thesis ..
qed

lemma skipQuoted_triple:
  "charClass (s ! i) = kQuote \<Longrightarrow> s ! i \<noteq> CHR 0x60 \<Longrightarrow>
   skipQuoted s n i = (case tripleClose s n i of Some j \<Rightarrow> Some (j + 3) | None \<Rightarrow> skipString (s ! i) s n (i + 1))"
proof -
  assume q: "charClass (s ! i) = kQuote" "s ! i \<noteq> CHR 0x60"
  let ?t = "i + 2 < n \<and> s ! (i + 1) = s ! i \<and> s ! (i + 2) = s ! i"
  have nz: "s ! i \<noteq> CHR 0x00" using quote_chars [OF q(1)] by auto
  have t: "byteAt s n (i + 1) = s ! i \<and> byteAt s n (i + 2) = s ! i \<longleftrightarrow> ?t" using nz by (auto simp: byteAt_def)
  have tc: "tripleClose s n i = (if ?t then findText [s ! i, s ! i, s ! i] s n (i + 3) else None)"
    unfolding tripleClose_def using q(2) t by simp
  have two: "?t \<Longrightarrow> skipString (s ! i) s n (i + 1) = Some (i + 2)" by (subst skipString.simps) simp
  show ?thesis unfolding tc using two by (subst skipQuoted.simps) (simp add: q(2) split: option.splits)
qed

section \<open>The token stream\<close>

text \<open>
  C2. The token stream is lossless: the tokens of a range are in source order, none of them is
  empty, every byte of the range that belongs to no token is white space, and exactly one
  \<open>Eof\<close> token ends the stream, at the end of the range.
\<close>

theorem lex_lossless:
  assumes "b \<le> e" "e \<le> length s" "length s < 2 ^ 32"
  shows "\<exists>ts flags. bufTokens (tokenizeRange s b e) = ts @ [\<lparr>tBegin = e, tEnd = e, tKind = Eof, tFlags = flags\<rparr>] \<and>
    tiles s b ts e \<and> Eof \<notin> tKind ` set ts"
  using tokenizeImpl_spec [OF assms] unfolding tokenizeRange_eq [OF assms(1,2)] by blast

theorem lex_lossless_witness:
  "\<exists>ts flags. bufTokens (tokenizeRange ''let x = 1'' 4 9) = ts @ [\<lparr>tBegin = 9, tEnd = 9, tKind = Eof, tFlags = flags\<rparr>] \<and>
    tiles ''let x = 1'' 4 ts 9 \<and> Eof \<notin> tKind ` set ts"
  by (rule lex_lossless) simp_all

text \<open>
  C7. The layout flags are exact: a token is marked as preceded by space exactly when some byte
  lies between it and the last token the parser sees, and as preceded by a line break exactly
  when a line break lies there, whatever comments and refused text stand in between.
\<close>

theorem lex_flags_exact:
  assumes "b \<le> e" "e \<le> length s" "length s < 2 ^ 32" and ts: "ts = bufTokens (tokenizeRange s b e)" and k: "k < length ts"
  shows "(spaceBefore (ts ! k) \<longleftrightarrow> solidEnd b (take k ts) < tBegin (ts ! k)) \<and>
    (newlineBefore (ts ! k) \<longleftrightarrow> hasNewline s (solidEnd b (take k ts)) (tBegin (ts ! k)))"
proof -
  have "flagsRight s b ts" using tokenizeImpl_spec [OF assms(1-3)] unfolding ts tokenizeRange_eq [OF assms(1,2)] by blast
  then show ?thesis using k unfolding flagsRight_def Let_def by blast
qed

theorem lex_flags_exact_witness:
  "(spaceBefore (bufTokens (tokenizeRange ''f(x)'' 0 4) ! 0) \<longleftrightarrow> 0 < tBegin (bufTokens (tokenizeRange ''f(x)'' 0 4) ! 0)) \<and>
   (newlineBefore (bufTokens (tokenizeRange ''f(x)'' 0 4) ! 0) \<longleftrightarrow> hasNewline ''f(x)'' 0 (tBegin (bufTokens (tokenizeRange ''f(x)'' 0 4) ! 0)))"
proof -
  have "bufTokens (tokenizeRange ''f(x)'' 0 4) \<noteq> []"
    using tokenizeImpl_spec [of 0 4 "''f(x)''"] tokenizeRange_eq [of 0 4 "''f(x)''"] by auto
  then show ?thesis using lex_flags_exact [of 0 4 "''f(x)''" "bufTokens (tokenizeRange ''f(x)'' 0 4)" 0] by (simp add: solidEnd_def)
qed

lemmas lex_eval = tokenizeRange_eq tokenizeImpl_def lexRange_def startState_def lexLoop.simps lexStep_def charClass_def between_def
  lexWord_def lexPunct_def punctKind_def byteAt_def emit_def emitTrivia_def Let_def scanWhile.simps isIdentPart_def
  classifyWord_eq keywordTable_def SpaceBefore_def NewlineBefore_def lexLineComment_def isLineBody_def lexNewline_def lexBlank_def
  lineStartsIn_def

lemma lex_call: "bufTokens (tokenizeRange ''f<'' 0 2) =
   [\<lparr>tBegin = 0, tEnd = 1, tKind = Identifier, tFlags = 0\<rparr>, \<lparr>tBegin = 1, tEnd = 2, tKind = Pn LAngle, tFlags = 0\<rparr>,
    \<lparr>tBegin = 2, tEnd = 2, tKind = Eof, tFlags = 0\<rparr>]"
  by (simp add: lex_eval endsAngleHost_def)

lemma lex_sum: "bufTokens (tokenizeRange ''a+1.5'' 0 5) =
   [\<lparr>tBegin = 0, tEnd = 1, tKind = Identifier, tFlags = 0\<rparr>, \<lparr>tBegin = 1, tEnd = 2, tKind = Pn Plus, tFlags = 0\<rparr>,
    \<lparr>tBegin = 2, tEnd = 5, tKind = Real, tFlags = 0\<rparr>, \<lparr>tBegin = 5, tEnd = 5, tKind = Eof, tFlags = 0\<rparr>]"
  by (simp add: lex_eval lexNumber_def lexReal_def exponentEnd_def imaginarySuffix_def isDigit_def)

text \<open>
  C12. Every token is what its kind says: the text of each token is a lexeme of its kind in the
  lexical grammar. A keyword or operator is spelled as the token table spells it, a name is not
  a keyword, a decimal number has no leading zero and needs digits after its point and its
  exponent mark, strings and comments have their delimiters. (A real with a leading zero, such as
  \<open>007.5\<close>, is refused as an error; the description of the lexer calls it a real.)
\<close>

theorem lex_lexemes:
  assumes "b \<le> e" "e \<le> length s" "length s < 2 ^ 32" "t \<in> set (bufTokens (tokenizeRange s b e))"
  shows "lexeme (tKind t) (piece s (tBegin t) (tEnd t))"
proof -
  have "lexemes s (bufTokens (tokenizeRange s b e))"
    using assms(1-3) unfolding tokenizeRange_eq [OF assms(1,2)] tokenizeImpl_def by (intro lexRange_lexemes) simp_all
  then show ?thesis using assms(4) by (simp add: lexemes_def list_all_iff)
qed

theorem lex_lexemes_witness:
  "lexeme Identifier ''a'' \<and> lexeme (Pn Plus) ''+'' \<and> lexeme Real ''1.5''"
  using lex_lexemes [of 0 5 "''a+1.5''" "bufTokens (tokenizeRange ''a+1.5'' 0 5) ! 0"]
    lex_lexemes [of 0 5 "''a+1.5''" "bufTokens (tokenizeRange ''a+1.5'' 0 5) ! 1"]
    lex_lexemes [of 0 5 "''a+1.5''" "bufTokens (tokenizeRange ''a+1.5'' 0 5) ! 2"]
  unfolding lex_sum by (simp add: piece_def)

text \<open>A real with a leading zero is one \<open>Error\<close> token.\<close>

lemma leading_zero_real_refused:
  "bufTokens (tokenizeRange ''007.5'' 0 5) =
     [\<lparr>tBegin = 0, tEnd = 5, tKind = Error, tFlags = 0\<rparr>, \<lparr>tBegin = 5, tEnd = 5, tKind = Eof, tFlags = 1\<rparr>]"
  by (simp add: lex_eval lexNumber_def lexReal_def exponentEnd_def imaginarySuffix_def isDigit_def refuseNumber_def pushError_def)

text \<open>
  C31. Lexical errors: the recorded errors are the \<open>Error\<close> tokens of the stream, one for each in
  order; an error lies inside its token and ends with it.
\<close>

theorem lex_errors_kept:
  assumes "b \<le> e" "e \<le> length s" "length s < 2 ^ 32"
  shows "list_all2 errorOf (filter (\<lambda>t. tKind t = Error) (bufTokens (tokenizeRange s b e))) (bufErrors (tokenizeRange s b e))"
  using tokenizeImpl_spec [OF assms] unfolding tokenizeRange_eq [OF assms(1,2)] by blast

theorem lex_errors_kept_witness:
  "list_all2 errorOf (filter (\<lambda>t. tKind t = Error) (bufTokens (tokenizeRange ''09 + 0x'' 0 7))) (bufErrors (tokenizeRange ''09 + 0x'' 0 7))"
  by (rule lex_errors_kept) simp_all

text \<open>
  Angle brackets: a lone \<open><\<close> opens an argument list exactly when it touches the last token the
  parser sees and that token is one of the kinds of \<open>endsAngleHost\<close> (which leaves out imaginary
  literals and \<open>::\<close>); otherwise it is the comparison.
\<close>

theorem lex_angle_rule:
  assumes "b \<le> e" "e \<le> length s" "length s < 2 ^ 32" and ts: "ts = bufTokens (tokenizeRange s b e)"
    and k: "k < length ts" "isAngle (tKind (ts ! k))"
  shows "tKind (ts ! k) = Pn LAngle \<longleftrightarrow>
    tBegin (ts ! k) = solidEnd b (take k ts) \<and> endsAngleHost (lastKind (take k ts))"
proof -
  define sub where "sub = (\<lambda>b e. bufTokens (lexRange (\<lambda>_ _. []) s (min b (length s)) (min e (length s))))"
  let ?st = "lexLoop sub s e b (startState s b)"
  have right: "angleRight b (lxTokens ?st)"
    by (rule lexLoop_angle [OF lexInv_start [OF assms(1)] _ assms(2,3)]) (simp add: startState_def angleRight_def)
  have "ts = bufTokens (lexRange sub s b e)" unfolding ts tokenizeRange_eq [OF assms(1,2)] tokenizeImpl_def sub_def ..
  then have eq: "ts = lxTokens ?st @ [\<lparr>tBegin = u32 e, tEnd = u32 e, tKind = Eof, tFlags = lxPending ?st\<rparr>]" by (simp add: lexRange_def Let_def)
  have "angleRight b ts" unfolding eq by (rule angleRight_snoc [OF right]) (simp add: isAngle_def)
  then show ?thesis using k unfolding angleRight_def by blast
qed

theorem lex_angle_rule_witness:
  "endsAngleHost (lastKind (take 1 (bufTokens (tokenizeRange ''f<'' 0 2))))"
  using lex_angle_rule [of 0 2 "''f<''" "bufTokens (tokenizeRange ''f<'' 0 2)" 1] by (simp add: lex_call isAngle_def)

section \<open>Words\<close>

text \<open>
  C20. The keyword table: the probe of the open addressing table ends for every word, and a word
  gets the kind the keyword list gives it, \<open>_\<close> is the wildcard, and every other word is a name.
\<close>

theorem keyword_table_correct:
  "wordSlot w \<noteq> None \<and>
   classifyWord w = (if w = ''_'' then Pn Underscore
     else case map_of (map (\<lambda>i. (kwText i, kwKind i)) keywordTable) w of None \<Rightarrow> Identifier | Some k \<Rightarrow> k)"
  by (simp add: wordSlot_correct classifyWord_eq)

section \<open>Formatted strings\<close>

text \<open>
  C17. Interpolations: every recorded \<open>${...}\<close> lies inside a formatted string token, its offsets
  are in order and at the bytes they name (a specification starts just past a colon), and the
  interpolations of a buffer are in source order and do not overlap.
\<close>

theorem interpolations_inside:
  assumes "b \<le> e" "e \<le> length s" "length s < 2 ^ 32"
  shows "inOrder (bufInterpolations (tokenizeRange s b e)) \<and>
    (\<forall>p \<in> set (bufInterpolations (tokenizeRange s b e)). partOk s (bufTokens (tokenizeRange s b e)) p)"
  using tokenizeImpl_parts [OF assms] unfolding tokenizeRange_eq [OF assms(1,2)] .

lemma noteLines_parts: "lxInterpolations (snd (noteLines s b e st)) = lxInterpolations st"
  by (simp add: noteLines_def split: prod.split)

lemma lex_fstring: "bufInterpolations (tokenizeRange (CHR 0x60 # ''${a}'' @ [CHR 0x60]) 0 6) =
   [\<lparr>fToken = 0, fOpen = 1, fExprBegin = 3, fExprEnd = 4, fSpecBegin = 4, fSpecEnd = 4, fClose = 4, fHasSpec = False\<rparr>]"
  by (simp add: lex_eval lexQuote_def tripleClose_def lexFString_def fstringLoop.simps scanInterpolation.simps
      interpolationAt_def endInterpolation_def splitInterpolation_def noteLines_parts)

theorem interpolations_inside_witness:
  "partOk (CHR 0x60 # ''${a}'' @ [CHR 0x60]) (bufTokens (tokenizeRange (CHR 0x60 # ''${a}'' @ [CHR 0x60]) 0 6))
     \<lparr>fToken = 0, fOpen = 1, fExprBegin = 3, fExprEnd = 4, fSpecBegin = 4, fSpecEnd = 4, fClose = 4, fHasSpec = False\<rparr>"
  using interpolations_inside [of 0 6 "CHR 0x60 # ''${a}'' @ [CHR 0x60]"] unfolding lex_fstring by simp

text \<open>
  Skipping a string that starts with a quote inside an interpolation agrees with lexing it: where the
  skipping routine finds an end, the lexer emits a string token with that end; where it finds none,
  the lexer refuses the string. (Raw strings, which start with \<open>r\<close>, are not skipped as such.)
\<close>

theorem skip_agrees:
  assumes i: "i < n" and q: "charClass (s ! i) = kQuote"
  shows "case skipQuoted s n i of
      Some e \<Rightarrow> fst (lexQuote sub s n i st) = e \<and> \<not> isTrivia (tKind (last (lxTokens (snd (lexQuote sub s n i st)))))
    | None \<Rightarrow> tKind (last (lxTokens (snd (lexQuote sub s n i st)))) = Error"
proof (cases "s ! i = CHR 0x60")
  case True
  obtain r parts where rp: "fstringLoop s n (i + 1) [] = (r, parts)" by fastforce
  then have "skipQuoted s n i = r" using fstringLoop_end [of s n "i + 1" "[]"] True by (simp add: skipQuoted.simps)
  then show ?thesis using rp True
    by (cases r) (simp_all add: lexQuote_def tripleClose_def lexFString_def refuseString_def Let_def emit_def emitTrivia_def)
next
  case False
  have nl: "s ! i \<noteq> newlineChar" using q by auto
  obtain lines where rl: "stringLoop (s ! i) s n (i + 1) (lxLines st) = (skipString (s ! i) s n (i + 1), lines)"
    using stringLoop_spec [of "s ! i" s n "i + 1" "lxLines st"] i nl
    by (cases "stringLoop (s ! i) s n (i + 1) (lxLines st)") simp
  note eq = skipQuoted_triple [OF q False, of n]
  show ?thesis
  proof (cases "tripleClose s n i")
    case (Some j)
    then show ?thesis by (simp add: eq lexQuote_def emit_def)
  next
    case None
    then show ?thesis using rl False
      by (cases "skipString (s ! i) s n (i + 1)")
        (simp_all add: eq lexQuote_def lexString_def refuseString_def Let_def emit_def emitTrivia_def)
  qed
qed

theorem skip_agrees_witness:
  "skipQuoted (CHR 0x22 # ''ab'' @ [CHR 0x22]) 4 0 = Some 4 \<and> fst (lexQuote (\<lambda>_ _. []) (CHR 0x22 # ''ab'' @ [CHR 0x22]) 4 0 (startState [] 0)) = 4"
proof -
  have "skipQuoted (CHR 0x22 # ''ab'' @ [CHR 0x22]) 4 0 = Some 4" by (simp add: skipQuoted.simps skipString.simps)
  then show ?thesis
    using skip_agrees [of 0 4 "CHR 0x22 # ''ab'' @ [CHR 0x22]" "\<lambda>_ _. []" "startState [] 0"] by (simp add: charClass_def between_def)
qed

section \<open>Refinement and progress\<close>

text \<open>
  C21. The branches of the lexer refine the abstract moves: each turn passes one white space byte,
  emits one token the parser sees, emits one comment or refuses one stretch of text, moves
  forward, stays in the range, and notes exactly the lines it passes.
\<close>

theorem lex_refines_moves:
  assumes "i < n"
  shows "lexMove s n (i, st) (lexStep sub s n i st)"
  by (rule lexStep_move [OF assms])

theorem lex_refines_moves_witness: "lexMove ''a'' 1 (0, startState ''a'' 0) (lexStep (\<lambda>_ _. []) ''a'' 1 0 (startState ''a'' 0))"
  by (rule lex_refines_moves) simp

text \<open>
  C28. Progress: from every position of the range, whatever was read before, the lexer reaches
  the end of the range, after at most as many turns as there are bytes left.
\<close>

theorem lex_reaches_end:
  "i \<le> n \<Longrightarrow> \<exists>k \<le> n - i. (lexTurn sub s n ^^ k) (i, st) = (n, lexLoop sub s n i st)"
proof -
  have "lexTurn sub s n = lexer.turn sub s n" by (rule ext) (simp add: lexTurn_def lexer.turn_def)
  then show "i \<le> n \<Longrightarrow> \<exists>k \<le> n - i. (lexTurn sub s n ^^ k) (i, st) = (n, lexLoop sub s n i st)"
    using lexer.loop_reaches_end by simp
qed

theorem lex_reaches_end_witness:
  "\<exists>k \<le> 3. (lexTurn (\<lambda>_ _. []) ''a b'' 3 ^^ k) (0, startState ''a b'' 0) = (3, lexLoop (\<lambda>_ _. []) ''a b'' 3 0 (startState ''a b'' 0))"
  using lex_reaches_end [of 0 3] by simp

section \<open>Positions\<close>

text \<open>
  C30. Lines: the line of an offset is the number of line breaks before it, its line starts at or
  before it with no line break in between, and the next line starts after it.
\<close>

theorem line_of_offset:
  assumes "length s < 2 ^ 32" "off \<le> length s"
  shows "lineOf (tokenize s) off = count_list (take off s) newlineChar \<and>
    bufLineStarts (tokenize s) ! lineOf (tokenize s) off \<le> off \<and>
    \<not> hasNewline s (bufLineStarts (tokenize s) ! lineOf (tokenize s) off) off \<and>
    (lineOf (tokenize s) off + 1 < lineCount (tokenize s) \<longrightarrow> off < bufLineStarts (tokenize s) ! (lineOf (tokenize s) off + 1))"
  using lineOf_count [OF tokenize_linesRight [OF assms(1)]] lineStart_of [OF tokenize_linesRight [OF assms(1)]] assms(2)
  by (simp add: tokenize_def)

theorem line_of_offset_witness:
  "lineOf (tokenize (''a'' @ [newlineChar] @ ''bc'')) 3 = 1"
  using line_of_offset [of "''a'' @ [newlineChar] @ ''bc''" 3] by simp

text \<open>
  C29. Positions are unambiguous: two offsets at the start of a code point, or at the end of the
  text, with the same line and the same column are the same offset.
\<close>

theorem position_unique:
  assumes "length s < 2 ^ 32" "a \<le> length s" "c \<le> length s"
    and "a < length s \<longrightarrow> \<not> isContinuation (s ! a)" "c < length s \<longrightarrow> \<not> isContinuation (s ! c)"
    and "lineOf (tokenize s) a = lineOf (tokenize s) c" "columnOf (tokenize s) a = columnOf (tokenize s) c"
  shows "a = c"
proof (rule ccontr)
  assume "a \<noteq> c"
  have src: "bufSource (tokenize s) = s" by (simp add: tokenize_def)
  have "lineOf (tokenize s) a \<noteq> lineOf (tokenize s) c \<or> columnOf (tokenize s) a \<noteq> columnOf (tokenize s) c"
  proof (cases "a < c")
    case True
    then show ?thesis using position_unique_less [OF tokenize_linesRight [OF assms(1)], of a c] assms(3,4) by (auto simp: src)
  next
    case False
    then show ?thesis using \<open>a \<noteq> c\<close> position_unique_less [OF tokenize_linesRight [OF assms(1)], of c a] assms(2,5) by (auto simp: src)
  qed
  then show False using assms(6,7) by simp
qed

theorem position_unique_witness:
  "(lineOf (tokenize ''ab'') 1, columnOf (tokenize ''ab'') 1) \<noteq> (lineOf (tokenize ''ab'') 2, columnOf (tokenize ''ab'') 2)"
  using position_unique [of "''ab''" 1 2] by (auto simp: isContinuation_def)

section \<open>Documentation\<close>

text \<open>
  Documentation: where only documentation comments stand between a declaration and the token
  before it, the documentation is made of all of them in order. Where an ordinary comment comes
  first, on the line of that token or on the next one, the documentation is empty, whatever
  documentation comments follow it.
\<close>

theorem doc_above_runs:
  assumes "index < length (bufTokens b)" and i: "i = triviaRun (bufTokens b) index"
  shows "((\<forall>k. i \<le> k \<longrightarrow> k < index \<longrightarrow> tKind (bufTokens b ! k) = DocComment) \<longrightarrow>
      docAbove b index = fold (\<lambda>j. appendDoc b (bufTokens b ! j)) [i..<index] []) \<and>
    (i < index \<and> tKind (bufTokens b ! i) = LineComment \<and>
       (i = 0 \<or> lineOf b (tBegin (bufTokens b ! i)) \<le> lineOf b (tBegin (bufTokens b ! (i - 1))) + 1) \<longrightarrow>
      docAbove b index = [])"
proof (intro conjI impI)
  assume "\<forall>k. i \<le> k \<longrightarrow> k < index \<longrightarrow> tKind (bufTokens b ! k) = DocComment"
  then show "docAbove b index = fold (\<lambda>j. appendDoc b (bufTokens b ! j)) [i..<index] []"
    using docStart_all [of b index] assms by (simp add: docAbove_def)
next
  assume "i < index \<and> tKind (bufTokens b ! i) = LineComment \<and>
    (i = 0 \<or> lineOf b (tBegin (bufTokens b ! i)) \<le> lineOf b (tBegin (bufTokens b ! (i - 1))) + 1)"
  then have "docStart b index = index" using docStart_comment [OF i] by simp
  then show "docAbove b index = []" by (simp add: docAbove_def)
qed

lemma lex_comments:
  "bufTokens (tokenizeRange (''//a'' @ newlineChar # ''///b'' @ newlineChar # ''x'') 0 9) =
     [\<lparr>tBegin = 0, tEnd = 3, tKind = LineComment, tFlags = 0\<rparr>, \<lparr>tBegin = 4, tEnd = 8, tKind = DocComment, tFlags = 3\<rparr>,
      \<lparr>tBegin = 9, tEnd = 9, tKind = Eof, tFlags = 3\<rparr>]"
  by (simp add: lex_eval)

theorem doc_above_runs_witness:
  "docAbove (tokenizeRange (''//a'' @ newlineChar # ''///b'' @ newlineChar # ''x'') 0 9) 2 = []"
  using doc_above_runs [OF _ refl, of 2 "tokenizeRange (''//a'' @ newlineChar # ''///b'' @ newlineChar # ''x'') 0 9"]
  unfolding lex_comments by (simp add: numeral_2_eq_2)

end
