(* ===== verification/Literal_BigInt.thy ===== *)
theory Literal_BigInt
  imports Prelude
begin

text \<open>
  The arbitrary precision integers of the literal folder (\<open>src/compile/literal.cpp\<close>): magnitudes
  are lists of 32-bit limbs, least significant first, and a \<open>BigInt\<close> is a magnitude and a sign.
  The loops of the source keep their machine widths (64-bit sums, carries and borrows).
  \<open>limbsVal\<close> and \<open>bigVal\<close> are the mathematical values; the lemmas show that every operation
  computes the exact integer result on every input and returns a normalised representation.
\<close>

unbundle bit_operations_syntax

type_synonym limb = "32 word"
type_synonym limbs = "limb list"

section \<open>Magnitudes\<close>

fun compareMagnitudeFrom :: "limbs \<Rightarrow> limbs \<Rightarrow> nat \<Rightarrow> int" where
  "compareMagnitudeFrom a b 0 = 0"
| "compareMagnitudeFrom a b (Suc i) =
     (if a ! i \<noteq> b ! i then (if a ! i < b ! i then - 1 else 1)
      else compareMagnitudeFrom a b i)"

definition compareMagnitude :: "limbs \<Rightarrow> limbs \<Rightarrow> int" where
  "compareMagnitude a b =
     (if length a \<noteq> length b then (if length a < length b then - 1 else 1)
      else compareMagnitudeFrom a b (length a))"

text \<open>\<open>while (!out.empty() && out.back() == 0) out.pop_back();\<close>\<close>

definition popZeros :: "limbs \<Rightarrow> limbs" where
  "popZeros xs = popWhile (\<lambda>x. x = 0) xs"

fun addLoop :: "limbs \<Rightarrow> limbs \<Rightarrow> nat \<Rightarrow> nat \<Rightarrow> 64 word \<Rightarrow> limbs" where
  "addLoop a b i 0 carry = []"
| "addLoop a b i (Suc k) carry =
     (let s1 = (if i < length a then carry + ucast (a ! i) else carry);
          s2 = (if i < length b then s1 + ucast (b ! i) else s1)
      in ucast s2 # addLoop a b (Suc i) k (drop_bit 32 s2))"

definition addMagnitude :: "limbs \<Rightarrow> limbs \<Rightarrow> limbs" where
  "addMagnitude a b = popZeros (addLoop a b 0 (max (length a) (length b) + 1) 0)"

fun subLoop :: "limbs \<Rightarrow> limbs \<Rightarrow> nat \<Rightarrow> nat \<Rightarrow> int \<Rightarrow> limbs" where
  "subLoop a b i 0 borrow = []"
| "subLoop a b i (Suc k) borrow =
     (let d1 = uint (a ! i) - borrow;
          d2 = (if i < length b then d1 - uint (b ! i) else d1)
      in if d2 < 0 then word_of_int (d2 + 2 ^ 32) # subLoop a b (Suc i) k 1
         else word_of_int d2 # subLoop a b (Suc i) k 0)"

definition subMagnitude :: "limbs \<Rightarrow> limbs \<Rightarrow> limbs" where
  "subMagnitude a b = popZeros (subLoop a b 0 (length a) 0)"

text \<open>
  The inner loop of \<open>multiplyMagnitude\<close>: \<open>out[i + j]\<close> for \<open>j\<close> from the given index on,
  \<open>k\<close> steps left. The result is the updated array and the carry.
\<close>

fun mulRow :: "limb \<Rightarrow> limbs \<Rightarrow> nat \<Rightarrow> nat \<Rightarrow> nat \<Rightarrow> limbs \<Rightarrow> 64 word \<Rightarrow> limbs \<times> 64 word" where
  "mulRow ai b i j 0 out carry = (out, carry)"
| "mulRow ai b i j (Suc k) out carry =
     (let current = ucast ai * ucast (b ! j) + ucast (out ! (i + j)) + carry
      in mulRow ai b i (Suc j) k (out[i + j := ucast current]) (drop_bit 32 current))"

text \<open>
  \<open>while (carry != 0)\<close>: the source indexes \<open>out[k]\<close> unchecked, so an index past the end has
  no defined result and is the value \<open>None\<close> here; \<open>mulLoop_Some\<close> below shows it is never
  reached.
\<close>

function carryLoop :: "limbs \<Rightarrow> nat \<Rightarrow> 64 word \<Rightarrow> limbs option" where
  "carryLoop out k carry =
     (if carry = 0 then Some out
      else if length out \<le> k then None
      else let current = ucast (out ! k) + carry
           in carryLoop (out[k := ucast current]) (Suc k) (drop_bit 32 current))"
  by pat_completeness auto
termination
  by (relation "measure (\<lambda>(out, k, carry). length out - k)") auto

declare carryLoop.simps [simp del]

fun mulLoop :: "limbs \<Rightarrow> limbs \<Rightarrow> nat \<Rightarrow> nat \<Rightarrow> limbs \<Rightarrow> limbs option" where
  "mulLoop a b i 0 out = Some out"
| "mulLoop a b i (Suc k) out =
     (case mulRow (a ! i) b i 0 (length b) out 0 of
        (out1, carry) \<Rightarrow>
          (case carryLoop out1 (i + length b) carry of
             None \<Rightarrow> None
           | Some out2 \<Rightarrow> mulLoop a b (Suc i) k out2))"

definition multiplyMagnitude :: "limbs \<Rightarrow> limbs \<Rightarrow> limbs" where
  "multiplyMagnitude a b =
     (if a = [] \<or> b = [] then []
      else popZeros (the (mulLoop a b 0 (length a) (replicate (length a + length b) 0))))"

function topBits :: "limb \<Rightarrow> nat" where
  "topBits w = (if w = 0 then 0 else Suc (topBits (drop_bit 1 w)))"
  by pat_completeness auto
termination
proof (relation "measure unat")
  fix w :: limb
  assume "w \<noteq> 0"
  then have "0 < unat w" by (simp add: unat_gt_0)
  then have "unat w div 2 < unat w" by simp
  moreover have "unat (drop_bit 1 w) = unat w div 2"
    by (rule unat_drop_1)
  ultimately show "(drop_bit 1 w, w) \<in> measure unat" by simp
qed simp

declare topBits.simps [simp del]

definition bitLength :: "limbs \<Rightarrow> nat" where
  "bitLength a = (if a = [] then 0 else (length a - 1) * 32 + topBits (last a))"

definition bitAt :: "limbs \<Rightarrow> nat \<Rightarrow> bool" where
  "bitAt a index =
     (let l = index div 32
      in l < length a \<and> drop_bit (index mod 32) (a ! l) AND 1 \<noteq> 0)"

definition setBit :: "limbs \<Rightarrow> nat \<Rightarrow> limbs" where
  "setBit a index =
     (let l = index div 32;
          a' = (if length a \<le> l then a @ replicate (l + 1 - length a) 0 else a)
      in a'[l := (a' ! l) OR push_bit (index mod 32) 1])"

fun shiftLeftLoop :: "limbs \<Rightarrow> nat \<Rightarrow> nat \<Rightarrow> nat \<Rightarrow> nat \<Rightarrow> limbs \<Rightarrow> limbs" where
  "shiftLeftLoop a limbs' rest i 0 out = out"
| "shiftLeftLoop a limbs' rest i (Suc k) out =
     (let value = push_bit rest (ucast (a ! i)) :: 64 word;
          out1 = out[i + limbs' := (out ! (i + limbs')) OR ucast value];
          out2 = out1[i + limbs' + 1 := (out1 ! (i + limbs' + 1)) OR ucast (drop_bit 32 value)]
      in shiftLeftLoop a limbs' rest (Suc i) k out2)"

definition shiftLeft :: "limbs \<Rightarrow> nat \<Rightarrow> limbs" where
  "shiftLeft a bits =
     (if a = [] \<or> bits = 0 then a
      else let limbs' = bits div 32; rest = bits mod 32
           in popZeros (shiftLeftLoop a limbs' rest 0 (length a)
                          (replicate (length a + limbs' + 1) 0)))"

definition shiftRightLimb :: "limbs \<Rightarrow> nat \<Rightarrow> nat \<Rightarrow> nat \<Rightarrow> limb" where
  "shiftRightLimb a limbs' rest i =
     (let value = ucast (a ! (i + limbs')) :: 64 word
      in ucast (if rest \<noteq> 0
                then (if i + limbs' + 1 < length a
                      then drop_bit rest value OR push_bit (32 - rest) (ucast (a ! (i + limbs' + 1)))
                      else drop_bit rest value)
                else value))"

definition shiftRight :: "limbs \<Rightarrow> nat \<Rightarrow> limbs" where
  "shiftRight a bits =
     (let limbs' = bits div 32; rest = bits mod 32
      in if length a \<le> limbs' then []
         else popZeros (map (shiftRightLimb a limbs' rest) [0 ..< length a - limbs']))"

text \<open>One bit of the schoolbook division per step, from the top bit down.\<close>

fun divideLoop :: "limbs \<Rightarrow> limbs \<Rightarrow> nat \<Rightarrow> limbs \<Rightarrow> limbs \<Rightarrow> limbs \<times> limbs" where
  "divideLoop a b 0 quot remainder = (quot, remainder)"
| "divideLoop a b (Suc k) quot remainder =
     (let r1 = shiftLeft remainder 1;
          r2 = (if bitAt a k then setBit r1 0 else r1)
      in if compareMagnitude r2 b \<ge> 0
         then divideLoop a b k (setBit quot k) (subMagnitude r2 b)
         else divideLoop a b k quot r2)"

definition divideMagnitude :: "limbs \<Rightarrow> limbs \<Rightarrow> limbs \<times> limbs" where
  "divideMagnitude a b =
     (case divideLoop a b (bitLength a) (replicate (length a) 0) [] of
        (quot, remainder) \<Rightarrow> (popZeros quot, remainder))"


section \<open>Signed integers\<close>

record BigInt =
  blimbs :: limbs
  bneg :: bool

function limbsOf64 :: "64 word \<Rightarrow> limbs" where
  "limbsOf64 magnitude =
     (if magnitude = 0 then [] else ucast magnitude # limbsOf64 (drop_bit 32 magnitude))"
  by pat_completeness auto
termination
proof (relation "measure unat")
  fix m :: "64 word"
  assume "m \<noteq> 0"
  then have "0 < unat m" by (simp add: unat_gt_0)
  then show "(drop_bit 32 m, m) \<in> measure unat"
    by (simp add: unat_drop_32)
qed simp

declare limbsOf64.simps [simp del]

text \<open>\<open>BigInt()\<close> and \<open>BigInt(std::int64_t)\<close>.\<close>

definition BigInt_zero :: BigInt where
  "BigInt_zero = \<lparr>blimbs = [], bneg = False\<rparr>"

definition BigInt_of :: "64 word \<Rightarrow> BigInt" where
  "BigInt_of value =
     \<lparr>blimbs = limbsOf64 (if sint value < 0 then - (value + 1) + 1 else value),
      bneg = (sint value < 0)\<rparr>"

definition fromMagnitude :: "limbs \<Rightarrow> bool \<Rightarrow> BigInt" where
  "fromMagnitude ls negative = \<lparr>blimbs = popZeros ls, bneg = (negative \<and> ls \<noteq> [])\<rparr>"

definition isZero :: "BigInt \<Rightarrow> bool" where
  "isZero x = (blimbs x = [])"

definition isNegative :: "BigInt \<Rightarrow> bool" where
  "isNegative x = bneg x"

definition isOne :: "BigInt \<Rightarrow> bool" where
  "isOne x = (\<not> bneg x \<and> length (blimbs x) = 1 \<and> blimbs x ! 0 = 1)"

definition absB :: "BigInt \<Rightarrow> BigInt" where
  "absB x = fromMagnitude (blimbs x) False"

definition negated :: "BigInt \<Rightarrow> BigInt" where
  "negated x = x\<lparr>bneg := (\<not> bneg x \<and> blimbs x \<noteq> [])\<rparr>"

definition compareB :: "BigInt \<Rightarrow> BigInt \<Rightarrow> int" where
  "compareB x y =
     (if bneg x \<noteq> bneg y then (if bneg x then - 1 else 1)
      else let magnitude = compareMagnitude (blimbs x) (blimbs y)
           in if bneg x then - magnitude else magnitude)"

definition addB :: "BigInt \<Rightarrow> BigInt \<Rightarrow> BigInt" where
  "addB x y =
     (if bneg x = bneg y then fromMagnitude (addMagnitude (blimbs x) (blimbs y)) (bneg x)
      else if compareMagnitude (blimbs x) (blimbs y) \<ge> 0
           then fromMagnitude (subMagnitude (blimbs x) (blimbs y)) (bneg x)
           else fromMagnitude (subMagnitude (blimbs y) (blimbs x)) (bneg y))"

definition subB :: "BigInt \<Rightarrow> BigInt \<Rightarrow> BigInt" where
  "subB x y = addB x (negated y)"

definition mulB :: "BigInt \<Rightarrow> BigInt \<Rightarrow> BigInt" where
  "mulB x y =
     fromMagnitude (multiplyMagnitude (blimbs x) (blimbs y))
       (bneg x \<noteq> bneg y \<and> \<not> isZero x \<and> \<not> isZero y)"

definition divMod :: "BigInt \<Rightarrow> BigInt \<Rightarrow> BigInt \<times> BigInt" where
  "divMod x y =
     (case divideMagnitude (blimbs x) (blimbs y) of
        (quot, remainder) \<Rightarrow>
          (fromMagnitude quot (bneg x \<noteq> bneg y), fromMagnitude remainder (bneg x)))"

definition shiftedLeft :: "BigInt \<Rightarrow> nat \<Rightarrow> BigInt" where
  "shiftedLeft x bits = fromMagnitude (shiftLeft (blimbs x) bits) (bneg x)"

definition shiftedRight :: "BigInt \<Rightarrow> nat \<Rightarrow> BigInt" where
  "shiftedRight x bits = fromMagnitude (shiftRight (blimbs x) bits) (bneg x)"

definition bitsB :: "BigInt \<Rightarrow> nat" where
  "bitsB x = bitLength (blimbs x)"

function limbTrailing :: "limb \<Rightarrow> nat" where
  "limbTrailing w =
     (if w = 0 then 0 else if w AND 1 = 0 then Suc (limbTrailing (drop_bit 1 w)) else 0)"
  by pat_completeness auto
termination
proof (relation "measure unat")
  fix w :: limb
  assume "w \<noteq> 0"
  then have "0 < unat w" by (simp add: unat_gt_0)
  then have "unat w div 2 < unat w" by simp
  moreover have "unat (drop_bit 1 w) = unat w div 2"
    by (rule unat_drop_1)
  ultimately show "(drop_bit 1 w, w) \<in> measure unat" by simp
qed simp

declare limbTrailing.simps [simp del]

fun trailingLoop :: "limbs \<Rightarrow> nat \<Rightarrow> nat" where
  "trailingLoop [] count = 0"
| "trailingLoop (l # ls) count =
     (if l = 0 then trailingLoop ls (count + 32) else count + limbTrailing l)"

definition trailingZeroBits :: "BigInt \<Rightarrow> nat" where
  "trailingZeroBits x = trailingLoop (blimbs x) 0"

definition low64 :: "BigInt \<Rightarrow> 64 word" where
  "low64 x =
     (let w0 = (if blimbs x \<noteq> [] then ucast (blimbs x ! 0) else 0)
      in if length (blimbs x) > 1 then w0 OR push_bit 32 (ucast (blimbs x ! 1)) else w0)"

definition fitsInt64 :: "BigInt \<Rightarrow> bool" where
  "fitsInt64 x =
     (if blimbs x = [] then True
      else if bitLength (blimbs x) > 64 then False
      else low64 x \<le> (if bneg x then push_bit 63 1 else push_bit 63 1 - 1))"

definition toInt64 :: "BigInt \<Rightarrow> 64 word" where
  "toInt64 x = (if bneg x then NOT (low64 x) + 1 else low64 x)"

text \<open>The digit of a character in \<open>fromDigits\<close>; \<open>-1\<close> when it is none.\<close>

definition digitOf :: "char \<Rightarrow> int" where
  "digitOf c =
     (let n = of_char c :: nat
      in if 48 \<le> n \<and> n \<le> 57 then int n - 48
         else if 97 \<le> n \<and> n \<le> 102 then int n - 97 + 10
         else if 65 \<le> n \<and> n \<le> 70 then int n - 65 + 10
         else - 1)"

fun fromDigitsLoop :: "int \<Rightarrow> string \<Rightarrow> BigInt \<Rightarrow> BigInt option" where
  "fromDigitsLoop radix [] out = Some out"
| "fromDigitsLoop radix (c # cs) out =
     (let digit = digitOf c
      in if digit < 0 \<or> radix \<le> digit then None
         else fromDigitsLoop radix cs
                (addB (mulB out (BigInt_of (word_of_int radix))) (BigInt_of (word_of_int digit))))"

definition fromDigits :: "string \<Rightarrow> int \<Rightarrow> BigInt option" where
  "fromDigits text radix = (if text = [] then None else fromDigitsLoop radix text BigInt_zero)"

text \<open>
  \<open>toDecimal\<close>: one pass of the short division by \<open>10^9\<close> over the limbs from the top
  (\<open>divChunk\<close> returns the quotient limbs and the remainder), then the nine digits in front.
\<close>

fun divChunk :: "limbs \<Rightarrow> limbs \<times> 64 word" where
  "divChunk [] = ([], 0)"
| "divChunk (l # ls) =
     (case divChunk ls of
        (q, remainder) \<Rightarrow>
          let current = push_bit 32 remainder OR ucast l
          in (ucast (current div 1000000000) # q, current mod 1000000000))"

function showNat :: "nat \<Rightarrow> string" where
  "showNat n = (if n < 10 then [char_of (48 + n)] else showNat (n div 10) @ [char_of (48 + n mod 10)])"
  by pat_completeness auto
termination
  by (relation "measure id") auto

declare showNat.simps [simp del]

text \<open>
  The loop \<open>while (!work.empty())\<close>. Each pass divides the magnitude by \<open>10^9\<close>, so a
  normalised magnitude reaches the empty vector; the loop is given as a partial function, and
  \<open>toDecimalLoop_val\<close> shows that it returns.
\<close>

partial_function (option) toDecimalLoop :: "limbs \<Rightarrow> string \<Rightarrow> string option" where
  "toDecimalLoop work text =
     (if work = [] then Some text
      else let q = popZeros (fst (divChunk work));
               part = showNat (unat (snd (divChunk work)));
               part' = (if q \<noteq> [] then replicate (9 - length part) (CHR ''0'') @ part else part)
           in toDecimalLoop q (part' @ text))"

definition toDecimal :: "BigInt \<Rightarrow> string" where
  "toDecimal x =
     (if blimbs x = [] then ''0''
      else let text = the (toDecimalLoop (blimbs x) [])
           in if bneg x then CHR ''-'' # text else text)"

text \<open>\<open>powerOf\<close>: square and multiply.\<close>

function powerLoop :: "BigInt \<Rightarrow> BigInt \<Rightarrow> nat \<Rightarrow> BigInt" where
  "powerLoop result square exponent =
     (if exponent = 0 then result
      else let r = (if exponent mod 2 \<noteq> 0 then mulB result square else result);
               e = exponent div 2
           in powerLoop r (if e \<noteq> 0 then mulB square square else square) e)"
  by pat_completeness auto
termination
  by (relation "measure (\<lambda>(r, s, e). e)") auto

declare powerLoop.simps [simp del]

definition powerOf :: "BigInt \<Rightarrow> nat \<Rightarrow> BigInt" where
  "powerOf base exponent = powerLoop (BigInt_of 1) base exponent"

definition powerOfLimb :: "64 word \<Rightarrow> nat \<Rightarrow> BigInt" where
  "powerOfLimb base exponent = powerOf (BigInt_of base) exponent"

section \<open>Values and normal forms\<close>

primrec limbsVal :: "limbs \<Rightarrow> nat" where
  "limbsVal [] = 0"
| "limbsVal (x # xs) = unat x + 2 ^ 32 * limbsVal xs"

definition normal :: "limbs \<Rightarrow> bool" where
  "normal xs \<longleftrightarrow> (xs \<noteq> [] \<longrightarrow> last xs \<noteq> 0)"

definition bigVal :: "BigInt \<Rightarrow> int" where
  "bigVal x = (if bneg x then - int (limbsVal (blimbs x)) else int (limbsVal (blimbs x)))"

definition big_ok :: "BigInt \<Rightarrow> bool" where
  "big_ok x \<longleftrightarrow> normal (blimbs x) \<and> (bneg x \<longrightarrow> blimbs x \<noteq> [])"

primrec lastDigits :: "nat \<Rightarrow> nat \<Rightarrow> string" where
  "lastDigits 0 r = []"
| "lastDigits (Suc k) r = lastDigits k (r div 10) @ [char_of (48 + r mod 10)]"

definition digitsVal :: "int \<Rightarrow> string \<Rightarrow> int \<Rightarrow> int" where
  "digitsVal radix text start = foldl (\<lambda>v c. v * radix + digitOf c) start text"

section \<open>Magnitude operations are exact\<close>

lemma limbsVal_append: "limbsVal (xs @ ys) = limbsVal xs + 2 ^ (32 * length xs) * limbsVal ys"
  by (induction xs) (auto simp: algebra_simps power_add)

lemma limbsVal_replicate [simp]: "limbsVal (replicate n 0) = 0"
  by (induction n) auto

lemma limbsVal_less: "limbsVal xs < 2 ^ (32 * length xs)"
proof (induction xs)
  case (Cons x xs)
  have "unat x < 2 ^ 32" by (rule unat_lt_32)
  moreover have "limbsVal xs + 1 \<le> 2 ^ (32 * length xs)" using Cons by simp
  then have "2 ^ 32 * (limbsVal xs + 1) \<le> 2 ^ 32 * 2 ^ (32 * length xs)" by (rule mult_le_mono2)
  ultimately show ?case by (simp add: power_add)
qed simp

lemma popZeros_val [simp]: "limbsVal (popZeros xs) = limbsVal xs"
  unfolding popZeros_def
  by (induction xs rule: rev_induct) (auto simp: limbsVal_append)

lemma normal_popZeros [simp]: "normal (popZeros xs)"
  unfolding normal_def popZeros_def using popWhile_last by blast

lemma popZeros_normal [simp]: "normal xs \<Longrightarrow> popZeros xs = xs"
  by (cases "xs = []") (auto simp: normal_def popZeros_def popWhile_id)

lemma normal_Nil [simp]: "normal []" by (simp add: normal_def)

lemma limbsVal_normal_ge: "normal xs \<Longrightarrow> xs \<noteq> [] \<Longrightarrow> 2 ^ (32 * (length xs - 1)) \<le> limbsVal xs"
proof (induction xs rule: rev_induct)
  case (snoc x xs)
  then have "0 < unat x" by (simp add: normal_def unat_gt_0)
  then have "(1 :: nat) \<le> unat x" by simp
  then have "2 ^ (32 * length xs) * 1 \<le> 2 ^ (32 * length xs) * unat x" by (rule mult_le_mono2)
  then show ?case by (simp add: limbsVal_append trans_le_add2)
qed simp

lemma limbsVal_eq_0: "normal xs \<Longrightarrow> limbsVal xs = 0 \<longleftrightarrow> xs = []"
  using limbsVal_normal_ge [of xs] by fastforce

lemma limbsVal_drop: "i < length a \<Longrightarrow> limbsVal (drop i a) = unat (a ! i) + 2 ^ 32 * limbsVal (drop (Suc i) a)"
  by (simp add: Cons_nth_drop_Suc [symmetric])

lemma mod_shift_nat:
  "(S + 2 ^ 32 * R) mod 2 ^ (32 * Suc k) = S mod 2 ^ 32 + 2 ^ 32 * ((R + S div 2 ^ 32) mod 2 ^ (32 * k))"
  for S R :: nat
proof -
  have "(S + 2 ^ 32 * R) mod (2 ^ 32 * 2 ^ (32 * k)) =
      2 ^ 32 * ((S + 2 ^ 32 * R) div 2 ^ 32 mod 2 ^ (32 * k)) + (S + 2 ^ 32 * R) mod 2 ^ 32"
    by (rule mod_mult2_eq)
  moreover have "(S + 2 ^ 32 * R) div 2 ^ 32 = R + S div 2 ^ 32" by simp
  ultimately show ?thesis by (simp add: power_add)
qed

lemma mod_shift_int:
  "(S + 2 ^ 32 * R) mod 2 ^ (32 * Suc k) = S mod 2 ^ 32 + 2 ^ 32 * ((R + S div 2 ^ 32) mod 2 ^ (32 * k))"
  for S R :: int
proof -
  have "(S + 2 ^ 32 * R) mod (2 ^ 32 * 2 ^ (32 * k)) =
      2 ^ 32 * ((S + 2 ^ 32 * R) div 2 ^ 32 mod 2 ^ (32 * k)) + (S + 2 ^ 32 * R) mod 2 ^ 32"
    by (rule zmod_zmult2_eq) simp
  moreover have "(S + 2 ^ 32 * R) div 2 ^ 32 = R + S div 2 ^ 32" by simp
  ultimately show ?thesis by (simp add: power_add)
qed

lemma addLoop_val:
  "unat carry \<le> 1 \<Longrightarrow>
   limbsVal (addLoop a b i k carry) =
     (limbsVal (drop i a) + limbsVal (drop i b) + unat carry) mod 2 ^ (32 * k)"
proof (induction k arbitrary: i carry)
  case (Suc k)
  define s1 where "s1 = (if i < length a then carry + ucast (a ! i) else carry)"
  define s2 where "s2 = (if i < length b then s1 + ucast (b ! i) else s1)"
  define x where "x = (if i < length a then unat (a ! i) else 0)"
  define y where "y = (if i < length b then unat (b ! i) else 0)"
  have x: "x < 2 ^ 32" and y: "y < 2 ^ 32" using unat_lt_32 by (auto simp: x_def y_def)
  have s1: "unat s1 = unat carry + x"
    using Suc.prems x by (auto simp: s1_def x_def unat_add_small64)
  have s2: "unat s2 = unat carry + x + y"
    using Suc.prems x y s1 by (auto simp: s2_def y_def unat_add_small64)
  have c: "unat (drop_bit 32 s2) \<le> 1"
    using s2 Suc.prems x y by (simp add: unat_drop_32)
  have da: "limbsVal (drop i a) = x + 2 ^ 32 * limbsVal (drop (Suc i) a)"
    by (cases "i < length a") (auto simp: x_def limbsVal_drop)
  have db: "limbsVal (drop i b) = y + 2 ^ 32 * limbsVal (drop (Suc i) b)"
    by (cases "i < length b") (auto simp: y_def limbsVal_drop)
  let ?S = "unat carry + x + y"
  let ?R = "limbsVal (drop (Suc i) a) + limbsVal (drop (Suc i) b)"
  have "limbsVal (addLoop a b i (Suc k) carry) =
      ?S mod 2 ^ 32 + 2 ^ 32 * ((?R + ?S div 2 ^ 32) mod 2 ^ (32 * k))"
    using Suc.IH [OF c, of "Suc i"] s2
    by (simp add: Let_def s1_def [symmetric] s2_def [symmetric] unat_ucast_low32 unat_drop_32)
  also have "\<dots> = (?S + 2 ^ 32 * ?R) mod 2 ^ (32 * Suc k)"
    by (rule mod_shift_nat [symmetric])
  also have "?S + 2 ^ 32 * ?R = limbsVal (drop i a) + limbsVal (drop i b) + unat carry"
    by (simp add: da db algebra_simps)
  finally show ?case .
qed simp

lemma addMagnitude_val [simp]: "limbsVal (addMagnitude a b) = limbsVal a + limbsVal b"
proof -
  let ?m = "max (length a) (length b)"
  have "limbsVal a < 2 ^ (32 * ?m)" "limbsVal b < 2 ^ (32 * ?m)"
    using limbsVal_less [of a] limbsVal_less [of b]
    by (auto intro: less_le_trans power_increasing)
  then have "limbsVal a + limbsVal b < 2 * 2 ^ (32 * ?m)" by linarith
  also have "\<dots> \<le> 2 ^ (32 * (?m + 1))" by (simp add: power_add)
  finally show ?thesis
    using addLoop_val [of 0 a b 0 "?m + 1"] by (simp add: addMagnitude_def)
qed

lemma addMagnitude_normal [simp]: "normal (addMagnitude a b)"
  by (simp add: addMagnitude_def)

lemma compareFrom_val:
  "length a = length b \<Longrightarrow> k \<le> length a \<Longrightarrow>
   compareMagnitudeFrom a b k = sgn (int (limbsVal (take k a)) - int (limbsVal (take k b)))"
proof (induction k)
  case (Suc k)
  have ta: "limbsVal (take (Suc k) a) = limbsVal (take k a) + 2 ^ (32 * k) * unat (a ! k)"
   and tb: "limbsVal (take (Suc k) b) = limbsVal (take k b) + 2 ^ (32 * k) * unat (b ! k)"
    using Suc.prems by (simp_all add: take_Suc_conv_app_nth limbsVal_append min_def)
  have la: "limbsVal (take k a) < 2 ^ (32 * k)" and lb: "limbsVal (take k b) < 2 ^ (32 * k)"
    using limbsVal_less [of "take k a"] limbsVal_less [of "take k b"] Suc.prems by (simp_all add: min_def)
  have lt: "limbsVal p + 2 ^ (32 * k) * x < limbsVal q + 2 ^ (32 * k) * y"
    if "x < y" and "limbsVal p < 2 ^ (32 * k)" for x y :: nat and p q
  proof -
    have "2 ^ (32 * k) * (x + 1) \<le> 2 ^ (32 * k) * y" using that(1) by (intro mult_le_mono2) simp
    with that(2) show ?thesis by simp
  qed
  consider "a ! k = b ! k" | "a ! k < b ! k" | "b ! k < a ! k" by fastforce
  then show ?case
  proof cases
    case 1 then show ?thesis using Suc ta tb by simp
  next
    case 2
    then have "limbsVal (take (Suc k) a) < limbsVal (take (Suc k) b)"
      using lt [OF _ la] ta tb by (simp add: word_less_nat_alt)
    moreover have "a ! k \<noteq> b ! k" using 2 by simp
    ultimately show ?thesis using 2 by simp
  next
    case 3
    then have "limbsVal (take (Suc k) b) < limbsVal (take (Suc k) a)"
      using lt [OF _ lb] ta tb by (simp add: word_less_nat_alt)
    moreover have "a ! k \<noteq> b ! k" "\<not> a ! k < b ! k" using 3 by auto
    ultimately show ?thesis using 3 by simp
  qed
qed simp

lemma length_less_val:
  assumes "normal b" and "length a < length b" shows "limbsVal a < limbsVal b"
proof -
  have "limbsVal a < 2 ^ (32 * length a)" by (rule limbsVal_less)
  also have "\<dots> \<le> 2 ^ (32 * (length b - 1))" using assms by (intro power_increasing) auto
  also have "\<dots> \<le> limbsVal b" using assms limbsVal_normal_ge by fastforce
  finally show ?thesis .
qed

lemma compareMagnitude_val:
  assumes "normal a" "normal b"
  shows "compareMagnitude a b = sgn (int (limbsVal a) - int (limbsVal b))"
  using assms length_less_val [of b a] length_less_val [of a b] compareFrom_val [of a b "length a"]
  by (auto simp: compareMagnitude_def)

lemma subLoop_val:
  "borrow \<in> {0, 1} \<Longrightarrow> i + k = length a \<Longrightarrow> length b \<le> length a \<Longrightarrow>
   int (limbsVal (subLoop a b i k borrow)) =
     (int (limbsVal (drop i a)) - int (limbsVal (drop i b)) - borrow) mod 2 ^ (32 * k)"
proof (induction k arbitrary: i borrow)
  case (Suc k)
  define x where "x = uint (a ! i)"
  define y where "y = (if i < length b then uint (b ! i) else 0)"
  define d where "d = x - borrow - y"
  have x: "0 \<le> x" "x < 2 ^ 32" and y: "0 \<le> y" "y < 2 ^ 32"
    using uint_lt2p [of "a ! i"] uint_lt2p [of "b ! i"] by (auto simp: x_def y_def)
  have d: "- (2 ^ 32) \<le> d" "d < 2 ^ 32" using x y Suc.prems(1) by (auto simp: d_def)
  let ?R = "int (limbsVal (drop (Suc i) a)) - int (limbsVal (drop (Suc i) b))"
  have da: "int (limbsVal (drop i a)) = x + 2 ^ 32 * int (limbsVal (drop (Suc i) a))"
    using Suc.prems by (simp add: x_def limbsVal_drop)
  have db: "int (limbsVal (drop i b)) = y + 2 ^ 32 * int (limbsVal (drop (Suc i) b))"
    by (cases "i < length b") (auto simp: y_def limbsVal_drop)
  let ?bw = "- (d div 2 ^ 32)"
  have bw: "?bw \<in> {0, 1}" "?bw = (if d < 0 then 1 else 0)"
  proof -
    have "d div 2 ^ 32 = (if d < 0 then - 1 else 0)"
    proof (cases "d < 0")
      case True
      then have "(d + 2 ^ 32) div 2 ^ 32 = 0" using d by (intro div_pos_pos_trivial) auto
      then show ?thesis using True by simp
    next
      case False then show ?thesis using d by (simp add: div_pos_pos_trivial)
    qed
    then show "?bw \<in> {0, 1}" "?bw = (if d < 0 then 1 else 0)" by auto
  qed
  have step: "subLoop a b i (Suc k) borrow =
      word_of_int d # subLoop a b (Suc i) k ?bw"
    unfolding bw(2) by (auto simp: Let_def d_def x_def y_def)
  have "int (limbsVal (subLoop a b i (Suc k) borrow)) =
      d mod 2 ^ 32 + 2 ^ 32 * ((?R + d div 2 ^ 32) mod 2 ^ (32 * k))"
    using Suc.IH [OF bw(1), of "Suc i"] Suc.prems
    unfolding step by (simp add: unsigned_of_int take_bit_eq_mod)
  also have "\<dots> = (d + 2 ^ 32 * ?R) mod 2 ^ (32 * Suc k)"
    by (rule mod_shift_int [symmetric])
  also have "d + 2 ^ 32 * ?R = int (limbsVal (drop i a)) - int (limbsVal (drop i b)) - borrow"
    by (simp add: da db d_def algebra_simps)
  finally show ?case .
qed simp

lemma subMagnitude_val:
  assumes "limbsVal b \<le> limbsVal a" "length b \<le> length a"
  shows "limbsVal (subMagnitude a b) = limbsVal a - limbsVal b"
proof -
  have "int (limbsVal a) - int (limbsVal b) < 2 ^ (32 * length a)"
  proof -
    have "int (limbsVal a) < int (2 ^ (32 * length a))"
      using limbsVal_less [of a] by (simp only: of_nat_less_iff)
    then have "int (limbsVal a) < 2 ^ (32 * length a)" by simp
    then show ?thesis by linarith
  qed
  then show ?thesis
    using subLoop_val [of 0 0 "length a" a b] assms
    by (simp add: subMagnitude_def)
qed
lemma subMagnitude_normal [simp]: "normal (subMagnitude a b)"
  by (simp add: subMagnitude_def)

lemma limbsVal_update:
  "k < length xs \<Longrightarrow>
   limbsVal (xs[k := v]) + 2 ^ (32 * k) * unat (xs ! k) = limbsVal xs + 2 ^ (32 * k) * unat v"
proof (induction xs arbitrary: k)
  case (Cons x xs)
  show ?case
  proof (cases k)
    case (Suc m)
    then have "limbsVal (xs[m := v]) + 2 ^ (32 * m) * unat (xs ! m) = limbsVal xs + 2 ^ (32 * m) * unat v"
      using Cons by simp
    then have "2 ^ 32 * (limbsVal (xs[m := v]) + 2 ^ (32 * m) * unat (xs ! m)) =
        2 ^ 32 * (limbsVal xs + 2 ^ (32 * m) * unat v)" by (simp only:)
    then show ?thesis using Suc by (simp add: power_add algebra_simps)
  qed simp
qed simp

lemma mulRow_val:
  "mulRow ai b i j k out carry = (out', carry') \<Longrightarrow> j + k = length b \<Longrightarrow>
   i + length b \<le> length out \<Longrightarrow> unat carry < 2 ^ 32 \<Longrightarrow>
   length out' = length out \<and> unat carry' < 2 ^ 32 \<and>
   limbsVal out' + 2 ^ (32 * (i + length b)) * unat carry' =
     limbsVal out + 2 ^ (32 * (i + j)) * (unat ai * limbsVal (drop j b) + unat carry)"
proof (induction k arbitrary: j out carry)
  case 0 then show ?case by simp
next
  case (Suc k)
  define cur :: "64 word" where "cur = ucast ai * ucast (b ! j) + ucast (out ! (i + j)) + carry"
  define p where "p = unat ai * unat (b ! j)"
  have p: "p \<le> (2 ^ 32 - 1) * (2 ^ 32 - 1)"
    unfolding p_def using unat_lt_32 [of ai] unat_lt_32 [of "b ! j"] by (intro mult_le_mono) auto
  have o: "unat (out ! (i + j)) < 2 ^ 32" by (rule unat_lt_32)
  have pm: "unat (ucast ai * ucast (b ! j) :: 64 word) = p"
    using p by (simp add: p_def unat_mult_small64)
  have po: "unat (ucast ai * ucast (b ! j) + ucast (out ! (i + j)) :: 64 word) = p + unat (out ! (i + j))"
    using p o pm by (subst unat_add_small64) simp_all
  have cur: "unat cur = p + unat (out ! (i + j)) + unat carry"
    unfolding cur_def using p o po Suc.prems(4) by (subst unat_add_small64) simp_all
  let ?out = "out[i + j := ucast cur]" and ?c = "drop_bit 32 cur"
  have c: "unat ?c < 2 ^ 32" using unat_lt_64 [of cur] by (simp add: unat_drop_32)
  have rec: "mulRow ai b i (Suc j) k ?out ?c = (out', carry')"
    using Suc.prems(1) by (simp add: Let_def cur_def)
  have IH: "length out' = length ?out" "unat carry' < 2 ^ 32"
    "limbsVal out' + 2 ^ (32 * (i + length b)) * unat carry' =
     limbsVal ?out + 2 ^ (32 * (i + Suc j)) * (unat ai * limbsVal (drop (Suc j) b) + unat ?c)"
    using Suc.IH [OF rec] Suc.prems c by auto
  have upd: "limbsVal ?out + 2 ^ (32 * (i + j)) * unat (out ! (i + j)) =
      limbsVal out + 2 ^ (32 * (i + j)) * (unat cur mod 2 ^ 32)"
    using limbsVal_update [of "i + j" out "ucast cur"] Suc.prems by (simp add: unat_ucast_low32)
  have d: "limbsVal (drop j b) = unat (b ! j) + 2 ^ 32 * limbsVal (drop (Suc j) b)"
    using Suc.prems by (simp add: limbsVal_drop)
  let ?P = "2 ^ (32 * (i + j)) :: nat"
  have e: "(2 :: nat) ^ (32 * (i + Suc j)) = ?P * 2 ^ 32" by (simp add: power_add)
  have split: "unat cur = unat cur mod 2 ^ 32 + 2 ^ 32 * unat ?c"
    by (simp add: unat_drop_32)
  have "limbsVal ?out + ?P * 2 ^ 32 * unat ?c + ?P * unat (out ! (i + j)) = limbsVal out + ?P * unat cur"
    using upd by (subst split) (simp add: algebra_simps)
  then have "limbsVal ?out + ?P * 2 ^ 32 * unat ?c = limbsVal out + ?P * (p + unat carry)"
    unfolding cur by (simp add: algebra_simps)
  then have "limbsVal out' + 2 ^ (32 * (i + length b)) * unat carry' =
      limbsVal out + ?P * (unat ai * limbsVal (drop j b) + unat carry)"
    unfolding IH(3) e d p_def by (simp add: algebra_simps)
  then show ?case using IH by simp
qed

lemma carryLoop_val:
  "unat carry < 2 ^ 32 \<Longrightarrow> k \<le> length out \<Longrightarrow>
   limbsVal out + 2 ^ (32 * k) * unat carry < 2 ^ (32 * length out) \<Longrightarrow>
   \<exists>out'. carryLoop out k carry = Some out' \<and> length out' = length out \<and>
     limbsVal out' = limbsVal out + 2 ^ (32 * k) * unat carry"
proof (induction out k carry rule: carryLoop.induct)
  case (1 out k carry)
  show ?case
  proof (cases "carry = 0")
    case True then show ?thesis by (simp add: carryLoop.simps)
  next
    case False
    have k: "k < length out"
    proof (rule ccontr)
      assume "\<not> k < length out"
      then have "k = length out" using 1 by simp
      moreover have "1 \<le> unat carry" using False by (simp add: unat_gt_0 Suc_le_eq)
      then have "2 ^ (32 * k) * 1 \<le> 2 ^ (32 * k) * unat carry" by (rule mult_le_mono2)
      ultimately show False using 1(4) by (metis add_lessD1 add.commute mult_1_right not_less)
    qed
    define cur :: "64 word" where "cur = ucast (out ! k) + carry"
    have cur: "unat cur = unat (out ! k) + unat carry"
      unfolding cur_def using 1(2) unat_lt_32 [of "out ! k"] by (subst unat_add_small64) simp_all
    let ?out = "out[k := ucast cur]"
    have upd: "limbsVal ?out + 2 ^ (32 * k) * unat (out ! k) =
        limbsVal out + 2 ^ (32 * k) * (unat cur mod 2 ^ 32)"
      using limbsVal_update [of k out "ucast cur"] k by (simp add: unat_ucast_low32)
    have split: "unat cur = unat cur mod 2 ^ 32 + 2 ^ 32 * unat (drop_bit 32 cur)"
      by (simp add: unat_drop_32)
    let ?P = "2 ^ (32 * k) :: nat"
    have "limbsVal ?out + ?P * 2 ^ 32 * unat (drop_bit 32 cur) + ?P * unat (out ! k) =
        limbsVal out + ?P * unat cur"
      using upd by (subst split) (simp add: algebra_simps)
    then have val: "limbsVal ?out + 2 ^ (32 * Suc k) * unat (drop_bit 32 cur) =
        limbsVal out + ?P * unat carry"
      unfolding cur by (simp add: algebra_simps power_add)
    have c: "unat (drop_bit 32 cur) < 2 ^ 32" using unat_lt_64 [of cur] by (simp add: unat_drop_32)
    have "\<exists>out'. carryLoop ?out (Suc k) (drop_bit 32 cur) = Some out' \<and> length out' = length ?out \<and>
        limbsVal out' = limbsVal ?out + 2 ^ (32 * Suc k) * unat (drop_bit 32 cur)"
      using 1(1) [OF False, of cur] k c val 1(4) by (simp add: cur_def)
    then show ?thesis
      using k False val by (subst carryLoop.simps) (auto simp: cur_def Let_def)
  qed
qed

lemma mulLoop_val:
  "i + k = length a \<Longrightarrow> length out = length a + length b \<Longrightarrow>
   limbsVal out = limbsVal (take i a) * limbsVal b \<Longrightarrow>
   \<exists>out'. mulLoop a b i k out = Some out' \<and> length out' = length out \<and>
     limbsVal out' = limbsVal a * limbsVal b"
proof (induction k arbitrary: i out)
  case 0 then show ?case by simp
next
  case (Suc k)
  obtain out1 c where row: "mulRow (a ! i) b i 0 (length b) out 0 = (out1, c)"
    by (cases "mulRow (a ! i) b i 0 (length b) out 0")
  have r: "length out1 = length out" "unat c < 2 ^ 32"
    "limbsVal out1 + 2 ^ (32 * (i + length b)) * unat c =
       limbsVal out + 2 ^ (32 * i) * (unat (a ! i) * limbsVal b)"
    using mulRow_val [OF row] Suc.prems by auto
  have t: "limbsVal (take (Suc i) a) = limbsVal (take i a) + 2 ^ (32 * i) * unat (a ! i)"
    using Suc.prems by (simp add: take_Suc_conv_app_nth limbsVal_append min_def)
  have tot: "limbsVal out1 + 2 ^ (32 * (i + length b)) * unat c = limbsVal (take (Suc i) a) * limbsVal b"
    using r(3) Suc.prems(3) t by (simp add: algebra_simps)
  have "limbsVal (take (Suc i) a) < 2 ^ (32 * Suc i)"
    using limbsVal_less [of "take (Suc i) a"] Suc.prems by (simp add: min_absorb2)
  moreover have "limbsVal b < 2 ^ (32 * length b)" by (rule limbsVal_less)
  ultimately have "limbsVal (take (Suc i) a) * limbsVal b < 2 ^ (32 * Suc i) * 2 ^ (32 * length b)"
    by (intro mult_strict_mono) auto
  also have "\<dots> = 2 ^ (32 * (Suc i + length b))" by (simp add: power_add algebra_simps)
  also have "\<dots> \<le> 2 ^ (32 * length out1)" using Suc.prems r by (intro power_increasing) auto
  finally have "limbsVal out1 + 2 ^ (32 * (i + length b)) * unat c < 2 ^ (32 * length out1)"
    by (simp only: tot)
  then obtain out2 where o2: "carryLoop out1 (i + length b) c = Some out2" "length out2 = length out1"
    "limbsVal out2 = limbsVal (take (Suc i) a) * limbsVal b"
    using carryLoop_val [OF r(2), of "i + length b" out1] Suc.prems r tot by auto
  then show ?case
    using Suc.IH [of "Suc i" out2] Suc.prems r row by simp
qed

lemma multiplyMagnitude_val [simp]: "limbsVal (multiplyMagnitude a b) = limbsVal a * limbsVal b"
  using mulLoop_val [of 0 "length a" a "replicate (length a + length b) 0" b]
  by (auto simp: multiplyMagnitude_def)

lemma multiplyMagnitude_normal [simp]: "normal (multiplyMagnitude a b)"
  by (simp add: multiplyMagnitude_def)

lemma nat_or_disjoint:
  assumes "m < 2 ^ r" "2 ^ r dvd n" shows "m OR n = m + (n :: nat)"
proof -
  have "m AND n = 0"
  proof (rule bit_eqI)
    fix k
    obtain q where n: "n = push_bit r q" using assms(2) by (auto simp: push_bit_eq_mult elim: dvdE)
    have "m = take_bit r m" using assms(1) by (simp add: take_bit_nat_eq_self)
    then have "bit m k \<Longrightarrow> k < r" by (metis bit_take_bit_iff)
    then show "bit (m AND n) k \<longleftrightarrow> bit (0 :: nat) k"
      by (auto simp: n bit_and_iff bit_push_bit_iff)
  qed
  then show ?thesis by (simp add: disjunctive_add_eq_or)
qed

lemma unat_or_disjoint:
  "unat (x :: 'a::len word) < 2 ^ r \<Longrightarrow> 2 ^ r dvd unat y \<Longrightarrow> unat (x OR y) = unat x + unat y"
  by (simp add: unsigned_or_eq nat_or_disjoint)

lemma odd_div_low:
  assumes "r < 32" shows "odd ((x + 2 ^ 32 * y) div 2 ^ r) \<longleftrightarrow> odd (x div 2 ^ r :: nat)"
proof -
  obtain d where d: "32 = r + Suc d" using assms by (metis less_imp_Suc_add add_Suc_right)
  have "(2 :: nat) ^ 32 * y = 2 ^ r * (2 * (2 ^ d * y))"
    unfolding d by (simp only: power_add power_Suc mult.assoc)
  then have "(x + 2 ^ 32 * y) div 2 ^ r = (x + 2 ^ r * (2 * (2 ^ d * y))) div 2 ^ r"
    by (simp only:)
  also have "\<dots> = 2 * (2 ^ d * y) + x div 2 ^ r" by (rule div_mult_self2) simp
  finally show ?thesis by (simp only: even_add even_mult_iff even_numeral simp_thms)
qed

lemma limbsVal_div: "limbsVal a div 2 ^ (32 * l) = limbsVal (drop l a)"
proof (cases "l \<le> length a")
  case True
  have "limbsVal a = limbsVal (take l a) + 2 ^ (32 * l) * limbsVal (drop l a)"
    using limbsVal_append [of "take l a" "drop l a"] True by (simp add: min_def)
  moreover have "limbsVal (take l a) < 2 ^ (32 * l)"
    using limbsVal_less [of "take l a"] True by (simp add: min_absorb2)
  ultimately show ?thesis by simp
next
  case False
  have "limbsVal a < 2 ^ (32 * length a)" by (rule limbsVal_less)
  also have "\<dots> \<le> 2 ^ (32 * l)" using False by (intro power_increasing) auto
  finally show ?thesis using False by simp
qed

lemma word_odd_test: "(w :: limb) AND 1 \<noteq> 0 \<longleftrightarrow> odd (unat w)"
proof -
  have "w AND 1 = 0 \<longleftrightarrow> unat (w AND 1) = 0" by (simp add: unat_eq_0)
  also have "unat (w AND 1) = unat w mod 2" by (simp add: and_one_eq unat_mod)
  finally show ?thesis by (simp add: odd_iff_mod_2_eq_one)
qed

lemma bitAt_iff: "bitAt a k \<longleftrightarrow> odd (limbsVal a div 2 ^ k)"
proof -
  let ?l = "k div 32" and ?r = "k mod 32"
  have k: "k = 32 * ?l + ?r" by simp
  have e: "limbsVal a div 2 ^ k = limbsVal (drop ?l a) div 2 ^ ?r"
    by (subst k) (simp only: power_add div_mult2_eq limbsVal_div)
  show ?thesis
  proof (cases "?l < length a")
    case True
    have "odd (limbsVal (drop ?l a) div 2 ^ ?r) \<longleftrightarrow> odd (unat (a ! ?l) div 2 ^ ?r)"
      unfolding limbsVal_drop [OF True] by (rule odd_div_low) simp
    then show ?thesis using True
      by (simp only: e bitAt_def Let_def word_odd_test unat_drop_bit_div simp_thms)
  next
    case False
    then show ?thesis by (simp add: e bitAt_def)
  qed
qed

lemma setBit_val:
  assumes "\<not> bitAt a k" shows "limbsVal (setBit a k) = limbsVal a + 2 ^ k"
proof -
  define l where "l = k div 32"
  define r where "r = k mod 32"
  define a' where "a' = (if length a \<le> l then a @ replicate (l + 1 - length a) 0 else a)"
  have val: "limbsVal a' = limbsVal a" by (simp add: a'_def limbsVal_append)
  have l: "l < length a'" by (simp add: a'_def)
  have r: "r < 32" by (simp add: r_def)
  have nb: "\<not> bitAt a' k" using assms by (simp add: bitAt_iff val)
  then have even: "even (unat (a' ! l) div 2 ^ r)"
    using l by (simp add: bitAt_def Let_def l_def r_def word_odd_test unat_drop_bit_div)
  have p: "unat (push_bit r 1 :: limb) = 2 ^ r"
    using r by (simp only: unsigned_push_bit_eq unsigned_1) (simp add: push_bit_eq_mult take_bit_nat_eq_self_iff)
  have o: "unat ((a' ! l) OR push_bit r 1) = unat (a' ! l) + 2 ^ r"
  proof -
    have "unat (a' ! l) AND 2 ^ r = 0"
      using even by (simp add: and_exp_eq_0_iff_not_bit bit_iff_odd)
    then show ?thesis by (simp only: unsigned_or_eq p disjunctive_add_eq_or)
  qed
  have "limbsVal (a'[l := (a' ! l) OR push_bit r 1]) = limbsVal a' + 2 ^ (32 * l) * 2 ^ r"
    using limbsVal_update [OF l, of "(a' ! l) OR push_bit r 1"] unfolding o distrib_left by linarith
  also have "2 ^ (32 * l) * 2 ^ r = (2 :: nat) ^ k" by (simp add: l_def r_def flip: power_add)
  finally show ?thesis by (simp add: setBit_def Let_def l_def [symmetric] r_def [symmetric] a'_def [symmetric] val)
qed

lemma topBits_bounds: "unat w < 2 ^ topBits w \<and> (w \<noteq> 0 \<longrightarrow> 2 ^ topBits w \<le> 2 * unat w)"
proof (induction w rule: topBits.induct)
  case (1 w)
  show ?case
  proof (cases "w = 0")
    case False
    then have IH: "unat w div 2 < 2 ^ topBits (drop_bit 1 w)"
      "drop_bit 1 w \<noteq> 0 \<longrightarrow> 2 ^ topBits (drop_bit 1 w) \<le> 2 * (unat w div 2)"
      using 1 by (simp_all add: unat_drop_Suc0)
    have eq: "topBits w = Suc (topBits (drop_bit 1 w))" using False by (simp add: topBits.simps [of w])
    have "0 < unat w" using False by (simp add: unat_gt_0)
    moreover have "drop_bit 1 w = 0 \<Longrightarrow> topBits (drop_bit 1 w) = 0" by (simp add: topBits.simps)
    ultimately show ?thesis using IH unfolding eq power_Suc
      by (cases "drop_bit 1 w = 0") auto
  qed (simp add: topBits.simps)
qed

lemma bitLength_less: "limbsVal a < 2 ^ bitLength a"
proof (cases a rule: rev_cases)
  case (snoc xs x)
  have "limbsVal xs < 2 ^ (32 * length xs)" by (rule limbsVal_less)
  moreover have "unat x + 1 \<le> 2 ^ topBits x" using topBits_bounds [of x] by simp
  then have "2 ^ (32 * length xs) * (unat x + 1) \<le> 2 ^ (32 * length xs) * 2 ^ topBits x"
    by (rule mult_le_mono2)
  ultimately have "limbsVal xs + 2 ^ (32 * length xs) * unat x < 2 ^ (32 * length xs) * 2 ^ topBits x"
    by simp
  then show ?thesis using snoc by (simp add: bitLength_def limbsVal_append power_add mult.commute)
qed (simp add: bitLength_def)

lemma bitLength_le:
  assumes "normal a" "a \<noteq> []" shows "2 ^ bitLength a \<le> 2 * limbsVal a"
proof (cases a rule: rev_cases)
  case (snoc xs x)
  have "x \<noteq> 0" using assms snoc by (simp add: normal_def)
  then have "2 ^ (32 * length xs) * 2 ^ topBits x \<le> 2 ^ (32 * length xs) * (2 * unat x)"
    using topBits_bounds [of x] by (intro mult_le_mono2) simp
  also have "\<dots> \<le> 2 * (limbsVal xs + 2 ^ (32 * length xs) * unat x)" by simp
  finally show ?thesis using snoc by (simp add: bitLength_def limbsVal_append power_add mult.commute)
qed (use assms in simp)

lemma shiftLeftLoop_val:
  "i + k = length a \<Longrightarrow> length out = length a + ls + 1 \<Longrightarrow> rest < 32 \<Longrightarrow>
   limbsVal out = limbsVal (take i a) * 2 ^ (32 * ls + rest) \<Longrightarrow>
   unat (out ! (i + ls)) < 2 ^ rest \<Longrightarrow> (\<forall>m. i + ls < m \<and> m < length out \<longrightarrow> out ! m = 0) \<Longrightarrow>
   limbsVal (shiftLeftLoop a ls rest i k out) = limbsVal a * 2 ^ (32 * ls + rest)"
proof (induction k arbitrary: i out)
  case 0 then show ?case by simp
next
  case (Suc k)
  define v :: "64 word" where "v = push_bit rest (ucast (a ! i))"
  define o1 where "o1 = out[i + ls := (out ! (i + ls)) OR ucast v]"
  define o2 where "o2 = o1[i + ls + 1 := (o1 ! (i + ls + 1)) OR ucast (drop_bit 32 v)]"
  have i: "i + ls + 1 < length out" using Suc.prems by simp
  have "unat (a ! i) * 2 ^ rest < 2 ^ 32 * 2 ^ 32"
    using Suc.prems(3) unat_lt_32 [of "a ! i"] by (intro mult_strict_mono power_strict_increasing) auto
  then have v: "unat v = unat (a ! i) * 2 ^ rest"
    by (simp only: v_def unsigned_push_bit_eq unat_ucast_up64)
      (simp add: push_bit_eq_mult take_bit_nat_eq_self_iff)
  have dv: "2 ^ rest dvd unat v mod 2 ^ 32"
    unfolding v by (rule dvd_mod) (use Suc.prems(3) in \<open>simp_all add: le_imp_power_dvd del: power_numeral\<close>)
  have "unat v < 2 ^ 32 * 2 ^ rest" unfolding v using unat_lt_32 [of "a ! i"] by (intro mult_strict_right_mono) auto
  then have hi: "unat v div 2 ^ 32 < 2 ^ rest" 
    by (intro less_mult_imp_div_less) (simp only: mult.commute)
  have l1: "unat ((out ! (i + ls)) OR ucast v) = unat (out ! (i + ls)) + unat v mod 2 ^ 32"
    using unat_or_disjoint [OF Suc.prems(5), of "ucast v"] dv by (simp add: unat_ucast_low32)
  have o1n: "o1 ! (i + ls + 1) = 0" using Suc.prems(6) i by (simp add: o1_def)
  have l2: "unat ((o1 ! (i + ls + 1)) OR ucast (drop_bit 32 v)) = unat v div 2 ^ 32"
  proof -
    have "unat (drop_bit 32 v) < 2 ^ 32" using unat_lt_64 [of v] by (simp add: unat_drop_32)
    then show ?thesis using o1n by (simp add: unat_ucast_low32 unat_drop_32)
  qed
  have v1: "limbsVal o1 = limbsVal out + 2 ^ (32 * (i + ls)) * (unat v mod 2 ^ 32)"
    using limbsVal_update [of "i + ls" out "(out ! (i + ls)) OR ucast v"] i l1
    by (simp add: o1_def algebra_simps)
  have v2: "limbsVal o2 = limbsVal o1 + 2 ^ (32 * (i + ls + 1)) * (unat v div 2 ^ 32)"
    using limbsVal_update [of "i + ls + 1" o1 "(o1 ! (i + ls + 1)) OR ucast (drop_bit 32 v)"] i l2 o1n
    by (simp add: o2_def o1_def)
  have "limbsVal o2 = limbsVal out + 2 ^ (32 * (i + ls)) * (unat v mod 2 ^ 32 + 2 ^ 32 * (unat v div 2 ^ 32))"
  proof -
    have "(2 :: nat) ^ (32 * (i + ls + 1)) = 2 ^ (32 * (i + ls)) * 2 ^ 32" by (simp add: power_add)
    then show ?thesis unfolding v2 v1 by (simp only: distrib_left mult.assoc add.assoc)
  qed
  also have "unat v mod 2 ^ 32 + 2 ^ 32 * (unat v div 2 ^ 32) = unat v" by simp
  also have "limbsVal out + 2 ^ (32 * (i + ls)) * unat v = limbsVal (take (Suc i) a) * 2 ^ (32 * ls + rest)"
    using Suc.prems(1,4) by (simp add: v take_Suc_conv_app_nth limbsVal_append min_absorb2 power_add algebra_simps)
  finally have val: "limbsVal o2 = limbsVal (take (Suc i) a) * 2 ^ (32 * ls + rest)" .
  have nth: "unat (o2 ! (Suc i + ls)) < 2 ^ rest"
    using i l2 hi by (simp add: o2_def o1_def)
  have zeros: "\<forall>m. Suc i + ls < m \<and> m < length o2 \<longrightarrow> o2 ! m = 0"
    using Suc.prems(6) by (simp add: o2_def o1_def)
  have len: "length o2 = length a + ls + 1" using Suc.prems(2) by (simp add: o2_def o1_def)
  have "limbsVal (shiftLeftLoop a ls rest (Suc i) k o2) = limbsVal a * 2 ^ (32 * ls + rest)"
    using Suc.IH [OF _ len Suc.prems(3) val nth zeros] Suc.prems(1) by simp
  then show ?case by (simp add: Let_def v_def o1_def o2_def)
qed

lemma shiftLeft_val [simp]: "limbsVal (shiftLeft a n) = limbsVal a * 2 ^ n"
  using shiftLeftLoop_val [of 0 "length a" a "replicate (length a + n div 32 + 1) 0" "n div 32" "n mod 32"]
  by (auto simp: shiftLeft_def Let_def simp flip: replicate_Suc)

lemma shiftLeft_normal [simp]: "normal a \<Longrightarrow> normal (shiftLeft a n)"
  by (auto simp: shiftLeft_def Let_def)

lemma limbsVal_by_limbs:
  "(\<forall>i < length xs. unat (xs ! i) = N div 2 ^ (32 * i) mod 2 ^ 32) \<Longrightarrow> N < 2 ^ (32 * length xs) \<Longrightarrow>
   limbsVal xs = N"
proof (induction xs arbitrary: N)
  case (Cons x xs)
  have "unat (xs ! i) = (N div 2 ^ 32) div 2 ^ (32 * i) mod 2 ^ 32" if "i < length xs" for i
    using Cons.prems(1) [rule_format, of "Suc i"] that by (simp add: power_add div_mult2_eq)
  moreover have "N div 2 ^ 32 < 2 ^ (32 * length xs)"
    using Cons.prems(2) by (intro less_mult_imp_div_less) (simp add: power_add mult.commute)
  ultimately have "limbsVal xs = N div 2 ^ 32" by (intro Cons.IH) auto
  moreover have "unat x = N mod 2 ^ 32" using Cons.prems(1) [rule_format, of 0] by simp
  ultimately show ?case by simp
qed simp

lemma shiftRightLimb_val:
  assumes "i + ls < length a" and "rest < 32"
  shows "unat (shiftRightLimb a ls rest i) = limbsVal a div 2 ^ (32 * ls + rest + 32 * i) mod 2 ^ 32"
proof -
  let ?x = "a ! (i + ls)"
  define y where "y = (if i + ls + 1 < length a then unat (a ! (i + ls + 1)) else 0)"
  define R where "R = limbsVal (drop (Suc (Suc (i + ls))) a)"
  have d: "limbsVal (drop (i + ls) a) = unat ?x + 2 ^ 32 * (y + 2 ^ 32 * R)"
    using assms(1) by (cases "i + ls + 1 < length a") (auto simp: limbsVal_drop y_def R_def)
  have "limbsVal a div 2 ^ (32 * ls + rest + 32 * i) = limbsVal a div 2 ^ (32 * (i + ls)) div 2 ^ rest"
    by (simp add: power_add div_mult2_eq [symmetric] mult_ac)
  then have e: "limbsVal a div 2 ^ (32 * ls + rest + 32 * i) = (unat ?x + 2 ^ 32 * (y + 2 ^ 32 * R)) div 2 ^ rest"
    by (simp only: limbsVal_div d)
  obtain d where d32: "32 = rest + d" and "0 < d" using assms(2) by (metis less_imp_add_positive)
  have p: "(2 :: nat) ^ 32 = 2 ^ rest * 2 ^ d" unfolding d32 by (rule power_add)
  have "(unat ?x + 2 ^ 32 * (y + 2 ^ 32 * R)) div 2 ^ rest = unat ?x div 2 ^ rest + 2 ^ d * (y + 2 ^ 32 * R)"
  proof -
    have "2 ^ 32 * (y + 2 ^ 32 * R) = 2 ^ rest * (2 ^ d * (y + 2 ^ 32 * R))"
      using p by (simp only: mult.assoc)
    then show ?thesis by (simp only:) (simp add: add.commute)
  qed
  then have N: "limbsVal a div 2 ^ (32 * ls + rest + 32 * i) mod 2 ^ 32 = (unat ?x div 2 ^ rest + 2 ^ d * y) mod 2 ^ 32"
  proof -
    have "unat ?x div 2 ^ rest + 2 ^ d * (y + 2 ^ 32 * R) = (unat ?x div 2 ^ rest + 2 ^ d * y) + 2 ^ 32 * (2 ^ d * R)"
      by (simp only: distrib_left add.assoc mult.left_commute)
    then show ?thesis unfolding e using \<open>_ = unat ?x div 2 ^ rest + 2 ^ d * (y + 2 ^ 32 * R)\<close>
      by (simp only: mod_mult_self2)
  qed
  show ?thesis
  proof (cases "rest = 0")
    case True
    then have "unat (shiftRightLimb a ls rest i) = unat ?x"
      using unat_lt_32 [of ?x] by (simp add: shiftRightLimb_def unat_ucast_low32)
    moreover have "(unat ?x div 2 ^ rest + 2 ^ d * y) mod 2 ^ 32 = unat ?x"
      using True d32 unat_lt_32 [of ?x] by simp
    ultimately show ?thesis using N by simp
  next
    case False
    have r: "32 - rest = d" using d32 by simp
    have small: "unat ?x div 2 ^ rest < 2 ^ d"
      using unat_lt_32 [of ?x] by (intro less_mult_imp_div_less) (simp only: p mult.commute)
    have d64: "unat (push_bit d (ucast z) :: 64 word) = unat z * 2 ^ d" for z :: limb
    proof -
      have "unat z * 2 ^ d < 2 ^ 32 * 2 ^ 32"
        using d32 False unat_lt_32 [of z] by (intro mult_strict_mono power_strict_increasing) auto
      then show ?thesis
        by (simp only: unsigned_push_bit_eq unat_ucast_up64) (simp add: push_bit_eq_mult take_bit_nat_eq_self_iff)
    qed
    have "unat (drop_bit rest (ucast ?x) OR push_bit d (ucast z) :: 64 word) = unat ?x div 2 ^ rest + unat z * 2 ^ d" for z :: limb
      using unat_or_disjoint [of "drop_bit rest (ucast ?x) :: 64 word" d "push_bit d (ucast z)"] small
      by (simp add: unat_drop_bit_div d64 del: drop_bit_eq_div)
    then show ?thesis
      using N False r
      by (simp add: shiftRightLimb_def Let_def unat_ucast_low32 y_def unat_drop_bit_div mult.commute)
  qed
qed

lemma shiftRight_val [simp]: "limbsVal (shiftRight a n) = limbsVal a div 2 ^ n"
proof (cases "length a \<le> n div 32")
  case True
  have "limbsVal a < 2 ^ (32 * length a)" by (rule limbsVal_less)
  also have "\<dots> \<le> 2 ^ n" using True by (intro power_increasing) (auto simp: less_eq_div_iff_mult_less_eq)
  finally show ?thesis using True by (simp add: shiftRight_def)
next
  case False
  let ?l = "n div 32" and ?r = "n mod 32"
  let ?xs = "map (shiftRightLimb a ?l ?r) [0 ..< length a - ?l]"
  have n: "32 * ?l + ?r = n" by simp
  have "limbsVal ?xs = limbsVal a div 2 ^ n"
  proof (rule limbsVal_by_limbs)
    show "\<forall>i < length ?xs. unat (?xs ! i) = limbsVal a div 2 ^ n div 2 ^ (32 * i) mod 2 ^ 32"
      using False shiftRightLimb_val [of _ ?l a ?r] n
      by (simp add: power_add div_mult2_eq)
    have "limbsVal (drop ?l a) < 2 ^ (32 * (length a - ?l))"
      using limbsVal_less [of "drop ?l a"] by simp
    moreover have "limbsVal a div 2 ^ n = limbsVal (drop ?l a) div 2 ^ ?r"
      by (subst n [symmetric]) (simp only: power_add div_mult2_eq limbsVal_div)
    ultimately show "limbsVal a div 2 ^ n < 2 ^ (32 * length ?xs)"
      by (metis diff_zero div_le_dividend le_less_trans length_map length_upt)
  qed
  then show ?thesis using False by (simp add: shiftRight_def Let_def)
qed

lemma shiftRight_normal [simp]: "normal (shiftRight a n)"
  by (simp add: shiftRight_def Let_def)

lemma setBit_length: "k div 32 < length a \<Longrightarrow> length (setBit a k) = length a"
  by (simp add: setBit_def Let_def)

lemma word_or_nonzero: "(x :: limb) \<noteq> 0 \<Longrightarrow> x OR y \<noteq> 0"
  by (metis word_bw_same(2) or_eq_0_iff)

lemma setBit0_normal:
  assumes "normal a" shows "normal (setBit a 0)"
proof (cases a)
  case Nil then show ?thesis by (simp add: setBit_def normal_def)
next
  case (Cons x xs)
  then show ?thesis using assms
    by (cases "xs = []") (auto simp: setBit_def normal_def word_or_nonzero)
qed

lemma bitLength_le_length: "normal a \<Longrightarrow> bitLength a \<le> 32 * length a"
proof (rule ccontr)
  assume n: "normal a" and "\<not> bitLength a \<le> 32 * length a"
  then have "a \<noteq> []" by (auto simp: bitLength_def)
  then have "2 ^ bitLength a \<le> 2 * limbsVal a" using n by (rule bitLength_le [rotated])
  also have "\<dots> < 2 * 2 ^ (32 * length a)" using limbsVal_less [of a] by simp
  finally have "(2 :: nat) ^ bitLength a < 2 ^ Suc (32 * length a)" by simp
  then have "bitLength a < Suc (32 * length a)" by (rule power_less_imp_less_exp [rotated]) simp
  with \<open>\<not> bitLength a \<le> 32 * length a\<close> show False by simp
qed

lemma divide_step:
  fixes A B k :: nat
  assumes "0 < B" and r2: "r2 = 2 * ((A div 2 ^ Suc k) mod B) + (if odd (A div 2 ^ k) then 1 else 0)"
    and q: "q = 2 ^ Suc k * ((A div 2 ^ Suc k) div B)"
  shows "B \<le> r2 \<Longrightarrow> (A div 2 ^ k) mod B = r2 - B \<and> 2 ^ k * ((A div 2 ^ k) div B) = q + 2 ^ k"
    and "r2 < B \<Longrightarrow> (A div 2 ^ k) mod B = r2 \<and> 2 ^ k * ((A div 2 ^ k) div B) = q"
proof -
  let ?h = "A div 2 ^ Suc k" and ?n = "A div 2 ^ k"
  have h: "?h = ?n div 2" by (simp add: div_mult2_eq [symmetric] mult.commute)
  have n: "?n = 2 * ?h + (if odd ?n then 1 else 0)"
    unfolding h using mult_div_mod_eq [of 2 ?n] by (simp add: mod2_eq_if split: if_splits)
  have e: "?n = r2 + 2 * (?h div B) * B"
  proof -
    have "?h = ?h div B * B + ?h mod B" by simp
    then have "?n = r2 + 2 * (?h div B * B)" using n unfolding r2 by linarith
    then show ?thesis by (simp only: mult.assoc)
  qed
  have lt: "r2 < 2 * B"
    unfolding r2 using mod_less_divisor [OF assms(1), of ?h] by auto
  show "(A div 2 ^ k) mod B = r2 - B \<and> 2 ^ k * ((A div 2 ^ k) div B) = q + 2 ^ k" if "B \<le> r2"
  proof -
    have e': "?n = (r2 - B) + (2 * (?h div B) + 1) * B" using e that by simp
    have s: "r2 - B < B" using lt that by simp
    have "?n mod B = r2 - B" unfolding e' using s by (simp only: mod_mult_self1 mod_less)
    moreover have "?n div B = 2 * (?h div B) + 1" unfolding e' using s assms(1)
      by (subst div_mult_self1) simp_all
    ultimately show ?thesis by (simp add: q)
  qed
  show "(A div 2 ^ k) mod B = r2 \<and> 2 ^ k * ((A div 2 ^ k) div B) = q" if "r2 < B"
  proof -
    have "?n mod B = r2" unfolding e using that by (simp only: mod_mult_self1 mod_less)
    moreover have "?n div B = 2 * (?h div B)" unfolding e using that assms(1) by (subst div_mult_self1) simp_all
    ultimately show ?thesis by (simp add: q)
  qed
qed

lemma divideLoop_val:
  assumes "normal b" "0 < limbsVal b"
  shows "k \<le> 32 * length a \<Longrightarrow> normal r \<Longrightarrow> length q = length a \<Longrightarrow>
   limbsVal r = (limbsVal a div 2 ^ k) mod limbsVal b \<Longrightarrow>
   limbsVal q = 2 ^ k * ((limbsVal a div 2 ^ k) div limbsVal b) \<Longrightarrow>
   divideLoop a b k q r = (q', r') \<Longrightarrow>
   normal r' \<and> limbsVal q' = limbsVal a div limbsVal b \<and> limbsVal r' = limbsVal a mod limbsVal b"
proof (induction k arbitrary: q r)
  case 0 then show ?case by simp
next
  case (Suc k)
  define r1 where "r1 = shiftLeft r 1"
  define r2 where "r2 = (if bitAt a k then setBit r1 0 else r1)"
  have v1: "limbsVal r1 = 2 * limbsVal r" by (simp add: r1_def)
  then have nb: "\<not> bitAt r1 0" by (simp add: bitAt_iff)
  have n2: "normal r2" using Suc.prems(2) by (simp add: r2_def r1_def setBit0_normal)
  have v2: "limbsVal r2 = 2 * ((limbsVal a div 2 ^ Suc k) mod limbsVal b) + (if odd (limbsVal a div 2 ^ k) then 1 else 0)"
    using setBit_val [OF nb] v1 Suc.prems(4) by (simp add: r2_def bitAt_iff)
  have kq: "k div 32 < length q" using Suc.prems(1,3) by (simp add: less_mult_imp_div_less)
  have nq: "\<not> bitAt q k" unfolding bitAt_iff Suc.prems(5) by simp
  note step = divide_step [OF assms(2) v2 Suc.prems(5)]
  have cmp: "compareMagnitude r2 b \<ge> 0 \<longleftrightarrow> limbsVal b \<le> limbsVal r2"
    by (simp add: compareMagnitude_val n2 assms(1) sgn_if)
  have unf: "divideLoop a b (Suc k) q r =
      (if compareMagnitude r2 b \<ge> 0 then divideLoop a b k (setBit q k) (subMagnitude r2 b)
       else divideLoop a b k q r2)"
    by (simp only: divideLoop.simps Let_def r1_def r2_def)
  show ?case
  proof (cases "limbsVal b \<le> limbsVal r2")
    case True
    then have len: "length b \<le> length r2"
      using length_less_val [OF assms(1), of r2] by (metis not_less)
    have "limbsVal (subMagnitude r2 b) = limbsVal a div 2 ^ k mod limbsVal b"
      using step(1) [OF True] subMagnitude_val [OF True len] by simp
    moreover have "limbsVal (setBit q k) = 2 ^ k * (limbsVal a div 2 ^ k div limbsVal b)"
      using step(1) [OF True] setBit_val [OF nq] by simp
    moreover have "divideLoop a b k (setBit q k) (subMagnitude r2 b) = (q', r')"
      using Suc.prems(6) True cmp by (simp only: unf if_True)
    ultimately show ?thesis
      using Suc.IH [of "subMagnitude r2 b" "setBit q k"] Suc.prems(1,3) kq by (simp add: setBit_length)
  next
    case False
    then have "divideLoop a b k q r2 = (q', r')"
      using Suc.prems(6) cmp by (simp only: unf if_False)
    then show ?thesis
      using Suc.IH [OF _ n2 Suc.prems(3)] step(2) False Suc.prems(1,5) by simp
  qed
qed

lemma divideMagnitude_val:
  assumes "normal a" "normal b" "0 < limbsVal b" and "divideMagnitude a b = (q, r)"
  shows "normal q \<and> normal r \<and> limbsVal q = limbsVal a div limbsVal b \<and> limbsVal r = limbsVal a mod limbsVal b"
proof -
  obtain q' r' where d: "divideLoop a b (bitLength a) (replicate (length a) 0) [] = (q', r')"
    by (cases "divideLoop a b (bitLength a) (replicate (length a) 0) []")
  have "limbsVal a div 2 ^ bitLength a = 0" using bitLength_less [of a] by simp
  then have "normal r' \<and> limbsVal q' = limbsVal a div limbsVal b \<and> limbsVal r' = limbsVal a mod limbsVal b"
    using divideLoop_val [OF assms(2,3) _ _ _ _ _ d] bitLength_le_length [OF assms(1)] by simp
  then show ?thesis using assms(4) d by (auto simp: divideMagnitude_def)
qed

section \<open>Signed operations are exact\<close>

lemma fromMagnitude_ok: "normal ls \<Longrightarrow> big_ok (fromMagnitude ls s)"
  by (simp add: big_ok_def fromMagnitude_def)

lemma fromMagnitude_val:
  "normal ls \<Longrightarrow> bigVal (fromMagnitude ls s) = (if s then - int (limbsVal ls) else int (limbsVal ls))"
  by (auto simp: bigVal_def fromMagnitude_def)

lemma limbsOf64_val: "limbsVal (limbsOf64 m) = unat m \<and> normal (limbsOf64 m)"
proof (induction m rule: limbsOf64.induct)
  case (1 m)
  show ?case
  proof (cases "m = 0")
    case False
    let ?t = "limbsOf64 (drop_bit 32 m)"
    have IH: "limbsVal ?t = unat m div 2 ^ 32" "normal ?t" using 1 False by (auto simp: unat_drop_32)
    have eq: "limbsOf64 m = ucast m # ?t" using False by (simp add: limbsOf64.simps [of m])
    have "limbsVal (limbsOf64 m) = unat m" by (simp add: eq IH unat_ucast_low32)
    moreover have "normal (limbsOf64 m)"
    proof (cases "?t = []")
      case True
      then have "unat m div 2 ^ 32 = 0" using IH by simp
      then have "unat (ucast m :: limb) = unat m" by (simp add: unat_ucast_low32 div_eq_0_iff)
      then have "(ucast m :: limb) \<noteq> 0" using False by (metis unat_0 unat_0_iff)
      then show ?thesis by (simp add: eq True normal_def)
    next
      case f: False then show ?thesis using IH by (simp add: eq normal_def)
    qed
    ultimately show ?thesis by simp
  qed (simp add: limbsOf64.simps)
qed

lemma BigInt_of_val [simp]: "bigVal (BigInt_of v) = sint v"
proof (cases "sint v < 0")
  case True
  have "uint (- v) = - sint v"
  proof -
    have "uint (- v) = (- uint v) mod 2 ^ 64" by (simp add: uint_word_ariths)
    also have "- uint v = - sint v + (- 1) * 2 ^ 64" using True by (simp add: uint_of_sint64)
    also have "\<dots> mod 2 ^ 64 = (- sint v) mod 2 ^ 64" by (rule mod_mult_self1)
    also have "\<dots> = - sint v" using True sint_ge [of v] by (intro mod_pos_pos_trivial) simp_all
    finally show ?thesis .
  qed
  then have "int (unat (- v)) = - sint v" by simp
  then show ?thesis using True by (simp add: BigInt_of_def bigVal_def limbsOf64_val)
next
  case False
  then show ?thesis by (simp add: BigInt_of_def bigVal_def limbsOf64_val uint_of_sint64)
qed

lemma BigInt_of_ok [simp]: "big_ok (BigInt_of v)"
proof -
  have "limbsOf64 (- v) \<noteq> []" if "sint v < 0"
    using that limbsOf64_val [of "- v"] limbsVal_eq_0 [of "limbsOf64 (- v)"] by (auto simp: unat_0_iff)
  then show ?thesis by (simp add: big_ok_def BigInt_of_def limbsOf64_val)
qed

lemma big_zero [simp]: "bigVal BigInt_zero = 0" "big_ok BigInt_zero"
  by (simp_all add: BigInt_zero_def bigVal_def big_ok_def)

lemma isZero_iff: "big_ok x \<Longrightarrow> isZero x \<longleftrightarrow> bigVal x = 0"
  by (auto simp: isZero_def bigVal_def big_ok_def limbsVal_eq_0)

lemma isNegative_iff: "big_ok x \<Longrightarrow> isNegative x \<longleftrightarrow> bigVal x < 0"
  by (auto simp: isNegative_def bigVal_def big_ok_def limbsVal_eq_0)
    (metis limbsVal_eq_0 neq0_conv)

lemma isOne_iff:
  assumes "big_ok x" shows "isOne x \<longleftrightarrow> bigVal x = 1"
proof
  assume one: "bigVal x = 1"
  then have n: "\<not> bneg x" "limbsVal (blimbs x) = 1" by (auto simp: bigVal_def split: if_splits)
  obtain l ls where c: "blimbs x = l # ls" using n(2) by (cases "blimbs x") auto
  have "ls = []"
  proof (rule ccontr)
    assume "ls \<noteq> []"
    then have "2 ^ (32 * (length (l # ls) - 1)) \<le> limbsVal (l # ls)"
      using assms c by (intro limbsVal_normal_ge) (auto simp: big_ok_def)
    moreover have "(2 :: nat) ^ 1 \<le> 2 ^ (32 * (length (l # ls) - 1))"
      using \<open>ls \<noteq> []\<close> by (intro power_increasing) (auto simp: Suc_le_eq)
    ultimately show False using n c by simp
  qed
  then have "unat l = 1" using n c by simp
  then have "l = 1" by (metis unat_1 word_unat_eq_iff)
  with \<open>ls = []\<close> show "isOne x" using n c by (simp add: isOne_def)
next
  assume "isOne x" then show "bigVal x = 1"
    by (cases "blimbs x") (auto simp: isOne_def bigVal_def)
qed

lemma addB_spec:
  assumes "big_ok x" "big_ok y"
  shows "big_ok (addB x y)" "bigVal (addB x y) = bigVal x + bigVal y"
proof -
  let ?a = "blimbs x" and ?b = "blimbs y"
  have n: "normal ?a" "normal ?b" using assms by (auto simp: big_ok_def)
  show "big_ok (addB x y)" by (simp add: addB_def fromMagnitude_ok)
  have cmp: "compareMagnitude ?a ?b \<ge> 0 \<longleftrightarrow> limbsVal ?b \<le> limbsVal ?a"
    by (simp add: compareMagnitude_val n sgn_if)
  have s1: "limbsVal (subMagnitude ?a ?b) = limbsVal ?a - limbsVal ?b" if "limbsVal ?b \<le> limbsVal ?a"
    using that length_less_val [OF n(2), of ?a] by (intro subMagnitude_val) (auto simp: not_less [symmetric])
  have s2: "limbsVal (subMagnitude ?b ?a) = limbsVal ?b - limbsVal ?a" if "\<not> limbsVal ?b \<le> limbsVal ?a"
    using that length_less_val [OF n(1), of ?b] by (intro subMagnitude_val) (auto simp: not_less [symmetric])
  show "bigVal (addB x y) = bigVal x + bigVal y"
    using s1 s2 cmp by (auto simp: addB_def fromMagnitude_val bigVal_def [of x] bigVal_def [of y] of_nat_diff)
qed

lemma negated_spec:
  assumes "big_ok x" shows "big_ok (negated x)" "bigVal (negated x) = - bigVal x"
  using assms by (auto simp: big_ok_def negated_def bigVal_def)

lemma subB_spec:
  assumes "big_ok x" "big_ok y"
  shows "big_ok (subB x y)" "bigVal (subB x y) = bigVal x - bigVal y"
  using assms by (simp_all add: subB_def addB_spec negated_spec)

lemma mulB_spec:
  assumes "big_ok x" "big_ok y"
  shows "big_ok (mulB x y)" "bigVal (mulB x y) = bigVal x * bigVal y"
proof -
  show "big_ok (mulB x y)" by (simp add: mulB_def fromMagnitude_ok)
  have "blimbs x = [] \<or> blimbs y = [] \<longrightarrow> limbsVal (blimbs x) * limbsVal (blimbs y) = 0" by auto
  then show "bigVal (mulB x y) = bigVal x * bigVal y"
    by (auto simp: mulB_def fromMagnitude_val isZero_def bigVal_def [of x] bigVal_def [of y])
qed

lemma compareB_spec:
  assumes "big_ok x" "big_ok y" shows "compareB x y = sgn (bigVal x - bigVal y)"
proof -
  have n: "normal (blimbs x)" "normal (blimbs y)" using assms by (auto simp: big_ok_def)
  have pos: "0 < limbsVal (blimbs z)" if "bneg z" "big_ok z" for z
    using that limbsVal_eq_0 [of "blimbs z"] by (auto simp: big_ok_def)
  show ?thesis
    using pos [OF _ assms(1)] pos [OF _ assms(2)] n
    by (auto simp: compareB_def bigVal_def compareMagnitude_val sgn_if)
qed

lemma absB_spec:
  assumes "big_ok x" shows "big_ok (absB x)" "bigVal (absB x) = \<bar>bigVal x\<bar>"
  using assms by (auto simp: absB_def big_ok_def fromMagnitude_val bigVal_def [of x] fromMagnitude_ok [unfolded big_ok_def])

lemma divMod_spec:
  assumes "big_ok x" "big_ok y" "bigVal y \<noteq> 0"
  shows "big_ok (fst (divMod x y))" "big_ok (snd (divMod x y))"
    "bigVal (fst (divMod x y)) = bigVal x sdiv bigVal y"
    "bigVal (snd (divMod x y)) = bigVal x smod bigVal y"
proof -
  obtain q r where d: "divideMagnitude (blimbs x) (blimbs y) = (q, r)"
    by (cases "divideMagnitude (blimbs x) (blimbs y)")
  have y0: "0 < limbsVal (blimbs y)" using assms by (auto simp: bigVal_def split: if_splits)
  have v: "normal q" "normal r" "limbsVal q = limbsVal (blimbs x) div limbsVal (blimbs y)"
    "limbsVal r = limbsVal (blimbs x) mod limbsVal (blimbs y)"
    using divideMagnitude_val [OF _ _ y0 d] assms by (auto simp: big_ok_def)
  show "big_ok (fst (divMod x y))" "big_ok (snd (divMod x y))"
    using v by (simp_all add: divMod_def d fromMagnitude_ok)
  show "bigVal (fst (divMod x y)) = bigVal x sdiv bigVal y"
    using v y0 by (auto simp: divMod_def d fromMagnitude_val bigVal_def [of x] bigVal_def [of y] signed_divide_int_def sgn_if zdiv_int)
  show "bigVal (snd (divMod x y)) = bigVal x smod bigVal y"
    using v y0 by (auto simp: divMod_def d fromMagnitude_val bigVal_def [of x] bigVal_def [of y] smod_int_alt_def sgn_if zmod_int)
qed

lemma shiftedLeft_spec:
  assumes "big_ok x" shows "big_ok (shiftedLeft x n)" "bigVal (shiftedLeft x n) = bigVal x * 2 ^ n"
  using assms by (auto simp: shiftedLeft_def big_ok_def fromMagnitude_val bigVal_def [of x] fromMagnitude_ok [unfolded big_ok_def])

lemma shiftedRight_spec:
  assumes "big_ok x" shows "big_ok (shiftedRight x n)" "\<bar>bigVal (shiftedRight x n)\<bar> = \<bar>bigVal x\<bar> div 2 ^ n"
    "bigVal x \<ge> 0 \<Longrightarrow> bigVal (shiftedRight x n) = bigVal x div 2 ^ n"
  using assms by (auto simp: shiftedRight_def big_ok_def fromMagnitude_val bigVal_def [of x] fromMagnitude_ok [unfolded big_ok_def] zdiv_int div_int_pos_iff)

lemma unat_push_bit_small:
  "unat x * 2 ^ n < 2 ^ LENGTH('a) \<Longrightarrow> unat (push_bit n (x :: 'a::len word)) = unat x * 2 ^ n"
proof -
  assume a: "unat x * 2 ^ n < 2 ^ LENGTH('a)"
  have "unat (push_bit n x) = take_bit LENGTH('a) (push_bit n (unat x))"
    by (rule unsigned_push_bit_eq)
  also have "push_bit n (unat x) = unat x * 2 ^ n" by (rule push_bit_eq_mult)
  also have "take_bit LENGTH('a) (unat x * 2 ^ n) = unat x * 2 ^ n"
    using a by (rule take_bit_nat_eq_self)
  finally show ?thesis .
qed

lemma low64_val: "unat (low64 x) = limbsVal (blimbs x) mod 2 ^ 64"
proof (cases "blimbs x")
  case Nil then show ?thesis by (simp add: low64_def)
next
  case (Cons a as)
  show ?thesis
  proof (cases as)
    case Nil
    then show ?thesis using Cons unat_lt_32 [of a] by (simp add: low64_def)
  next
    case (Cons b bs)
    have b: "unat b * 2 ^ 32 < 2 ^ 64" using unat_lt_32 [of b] by simp
    have "unat (ucast a OR push_bit 32 (ucast b) :: 64 word) = unat a + unat b * 2 ^ 32"
      using unat_or_disjoint [of "ucast a :: 64 word" 32 "push_bit 32 (ucast b)"] unat_lt_32 [of a] b
      by (simp add: unat_push_bit_small del: push_bit_numeral)
    moreover have "limbsVal (a # b # bs) mod 2 ^ 64 = unat a + unat b * 2 ^ 32"
    proof -
      have "limbsVal (a # b # bs) = (unat a + unat b * 2 ^ 32) + 2 ^ 64 * limbsVal bs" by simp
      moreover have "unat a + unat b * 2 ^ 32 < 2 ^ 64" using unat_lt_32 [of a] unat_lt_32 [of b] by simp
      ultimately show ?thesis by (simp only: mod_mult_self2 mod_less)
    qed
    ultimately show ?thesis using \<open>blimbs x = a # as\<close> Cons by (simp add: low64_def)
  qed
qed

lemma bitLength_gt_iff:
  assumes "normal a" shows "bitLength a \<le> n \<longleftrightarrow> limbsVal a < 2 ^ n"
proof
  assume "bitLength a \<le> n"
  then have "(2 :: nat) ^ bitLength a \<le> 2 ^ n" by (intro power_increasing) auto
  with bitLength_less [of a] show "limbsVal a < 2 ^ n" by linarith
next
  assume l: "limbsVal a < 2 ^ n"
  show "bitLength a \<le> n"
  proof (cases "a = []")
    case False
    have "2 ^ bitLength a \<le> 2 * limbsVal a" using bitLength_le [OF assms False] .
    then have "(2 :: nat) ^ bitLength a < 2 ^ Suc n" using l by simp
    then have "bitLength a < Suc n" by (rule power_less_imp_less_exp [rotated]) simp
    then show ?thesis by simp
  qed (simp add: bitLength_def)
qed

lemma fitsInt64_iff:
  assumes "big_ok x" shows "fitsInt64 x \<longleftrightarrow> in_int64 (bigVal x)"
proof -
  let ?v = "limbsVal (blimbs x)"
  have n: "normal (blimbs x)" using assms by (simp add: big_ok_def)
  have bl: "64 < bitLength (blimbs x) \<longleftrightarrow> 2 ^ 64 \<le> ?v"
    using bitLength_gt_iff [OF n, of 64] by (auto simp: not_less not_le)
  have p: "unat (push_bit 63 1 :: 64 word) = 2 ^ 63" by simp
  have p': "unat (push_bit 63 1 - 1 :: 64 word) = 2 ^ 63 - 1" by simp
  have low: "?v < 2 ^ 64 \<Longrightarrow> unat (low64 x) = ?v" by (simp add: low64_val)
  show ?thesis
  proof (cases "blimbs x = []")
    case True then show ?thesis by (simp add: fitsInt64_def in_int64_def int64_min_def int64_max_def bigVal_def)
  next
    case False
    have "fitsInt64 x \<longleftrightarrow> ?v < 2 ^ 64 \<and> ?v \<le> (if bneg x then 2 ^ 63 else 2 ^ 63 - 1)"
      using False bl low by (auto simp: fitsInt64_def word_le_nat_alt p p' not_less simp del: push_bit_numeral)
    also have "\<dots> \<longleftrightarrow> in_int64 (bigVal x)"
      by (auto simp: in_int64_def int64_min_def int64_max_def bigVal_def)
    finally show ?thesis .
  qed
qed

lemma toInt64_val:
  assumes "big_ok x" "fitsInt64 x" shows "sint (toInt64 x) = bigVal x"
proof -
  let ?v = "limbsVal (blimbs x)" and ?w = "low64 x"
  have r: "in_int64 (bigVal x)" using assms fitsInt64_iff by simp
  then have "?v < 2 ^ 64" by (auto simp: in_int64_def int64_min_def int64_max_def bigVal_def split: if_splits)
  then have w: "unat ?w = ?v" by (simp add: low64_val)
  then have uw: "uint ?w = int ?v" by (simp flip: w)
  show ?thesis
  proof (cases "bneg x")
    case True
    then have v: "0 < ?v" "?v \<le> 2 ^ 63"
      using r assms(1) limbsVal_eq_0 [of "blimbs x"]
      by (auto simp: in_int64_def int64_min_def bigVal_def big_ok_def)
    have e: "toInt64 x = - ?w" using True by (simp add: toInt64_def flip: minus_eq_not_plus_1)
    have "uint (- ?w) = (- int ?v) mod 2 ^ 64" by (simp add: uint_word_ariths uw)
    also have "- int ?v mod 2 ^ 64 = (2 ^ 64 - int ?v) mod 2 ^ 64"
      by (metis mod_add_self2 uminus_add_conv_diff)
    also have "\<dots> = 2 ^ 64 - int ?v" using v by (intro mod_pos_pos_trivial) auto
    finally have "uint (- ?w) = 2 ^ 64 - int ?v" .
    moreover have "sint (- ?w) < 2 ^ 63" using sint_lt [of "- ?w"] by simp
    ultimately show ?thesis
      using v True uint_of_sint64 [of "- ?w"] e by (auto simp: bigVal_def split: if_splits)
  next
    case False
    then have "int ?v < 2 ^ 63" using r by (simp add: in_int64_def int64_max_def bigVal_def)
    moreover have "- (2 ^ 63) \<le> sint ?w" using sint_ge [of ?w] by simp
    ultimately show ?thesis
      using False uint_of_sint64 [of ?w] uw by (auto simp: bigVal_def toInt64_def split: if_splits)
  qed
qed

lemma powerLoop_spec:
  "big_ok r \<Longrightarrow> big_ok s \<Longrightarrow>
   big_ok (powerLoop r s e) \<and> bigVal (powerLoop r s e) = bigVal r * bigVal s ^ e"
proof (induction r s e rule: powerLoop.induct)
  case (1 r s e)
  show ?case
  proof (cases "e = 0")
    case True then show ?thesis using 1 by (simp add: powerLoop.simps)
  next
    case False
    let ?r = "if e mod 2 \<noteq> 0 then mulB r s else r" and ?s = "if e div 2 \<noteq> 0 then mulB s s else s"
    have ok: "big_ok ?r" "big_ok ?s" using 1 by (auto simp: mulB_spec)
    have eq: "powerLoop r s e = powerLoop ?r ?s (e div 2)"
      using False by (simp add: powerLoop.simps [of r s e] Let_def)
    have IH: "big_ok (powerLoop ?r ?s (e div 2))"
      "bigVal (powerLoop ?r ?s (e div 2)) = bigVal ?r * bigVal ?s ^ (e div 2)"
      using 1(1) [OF False refl refl ok] by auto
    have "bigVal ?s ^ (e div 2) = bigVal s ^ (2 * (e div 2))"
      using 1 by (auto simp: mulB_spec power_mult power2_eq_square)
    moreover have "bigVal ?r = bigVal r * bigVal s ^ (e mod 2)"
      using 1 by (auto simp: mulB_spec mod2_eq_if)
    ultimately have "bigVal ?r * bigVal ?s ^ (e div 2) = bigVal r * bigVal s ^ (e mod 2 + 2 * (e div 2))"
      by (simp only: power_add mult.assoc)
    also have "e mod 2 + 2 * (e div 2) = e" by simp
    finally show ?thesis using IH eq by simp
  qed
qed

lemma powerOf_spec:
  assumes "big_ok b" shows "big_ok (powerOf b n)" "bigVal (powerOf b n) = bigVal b ^ n"
  using powerLoop_spec [of "BigInt_of 1" b n] assms by (simp_all add: powerOf_def)

lemma powerOfLimb_spec: "big_ok (powerOfLimb b n)" "bigVal (powerOfLimb b n) = sint b ^ n"
  using powerOf_spec [of "BigInt_of b" n] by (simp_all add: powerOfLimb_def)


section \<open>Decimal text\<close>

lemma digitOf_char: "d < 10 \<Longrightarrow> digitOf (char_of (48 + d :: nat)) = int d"
  by (simp add: digitOf_def Let_def)

lemma showNat_0: "showNat 0 = ''0''"
  by (subst showNat.simps) code_simp

lemma showNat_nonempty [simp]: "showNat n \<noteq> []"
  by (subst showNat.simps) simp

lemma lastDigits_zero: "lastDigits k 0 = replicate k (CHR ''0'')"
proof (induction k)
  case (Suc k)
  have "char_of (48 :: nat) = CHR ''0''" by code_simp
  then show ?case using Suc by (simp add: replicate_append_same)
qed simp

lemma showNat_split: "0 < a \<Longrightarrow> r < 10 ^ k \<Longrightarrow> showNat (a * 10 ^ k + r) = showNat a @ lastDigits k r"
proof (induction k arbitrary: r)
  case (Suc k)
  have "1 * 10 \<le> a * 10 ^ Suc k" using Suc.prems by (intro mult_le_mono) (auto simp: Suc_le_eq)
  then have big: "\<not> a * 10 ^ Suc k + r < 10" by linarith
  have d: "(a * 10 ^ Suc k + r) div 10 = a * 10 ^ k + r div 10"
    by (simp add: mult.left_commute [of a 10])
  have m: "(a * 10 ^ Suc k + r) mod 10 = r mod 10" by (simp add: mult.left_commute [of a 10])
  have "showNat (a * 10 ^ Suc k + r) = showNat (a * 10 ^ k + r div 10) @ [char_of (48 + r mod 10)]"
    by (subst showNat.simps) (simp only: big if_False d m)
  also have "\<dots> = showNat a @ lastDigits (Suc k) r"
    using Suc.IH [of "r div 10"] Suc.prems by (simp add: less_mult_imp_div_less mult.commute)
  finally show ?case .
qed simp

lemma length_showNat: "n < 10 ^ Suc k \<Longrightarrow> length (showNat n) \<le> Suc k"
proof (induction k arbitrary: n)
  case 0 then show ?case by (subst showNat.simps) simp
next
  case (Suc k)
  then have "length (showNat (n div 10)) \<le> Suc k"
    by (simp add: less_mult_imp_div_less mult.commute)
  then show ?case by (subst showNat.simps) simp
qed

lemma lastDigits_pad:
  "r < 10 ^ Suc k \<Longrightarrow>
   lastDigits (Suc k) r = replicate (Suc k - length (showNat r)) (CHR ''0'') @ showNat r"
proof (induction k arbitrary: r)
  case 0 then show ?case by (subst (1 2) showNat.simps) simp
next
  case (Suc k)
  show ?case
  proof (cases "r < 10")
    case True
    then have s: "showNat r = [char_of (48 + r)]" by (subst showNat.simps) simp
    show ?thesis using True by (simp add: s lastDigits_zero del: replicate_Suc)
  next
    case False
    then have s: "showNat r = showNat (r div 10) @ [char_of (48 + r mod 10)]" by (subst showNat.simps) simp
    have "r div 10 < 10 ^ Suc k" using Suc.prems by (simp add: less_mult_imp_div_less mult.commute)
    then show ?thesis using Suc.IH [of "r div 10"] unfolding lastDigits.simps(2) [of "Suc k"] s by simp
  qed
qed

lemma divChunk_val:
  "divChunk ls = (q, r) \<Longrightarrow>
   length q = length ls \<and> limbsVal q = limbsVal ls div 1000000000 \<and> unat r = limbsVal ls mod 1000000000"
proof (induction ls arbitrary: q r)
  case Nil then show ?case by simp
next
  case (Cons l ls)
  obtain q0 r0 where d0: "divChunk ls = (q0, r0)" by (cases "divChunk ls")
  note IH = Cons.IH [OF d0]
  define cur :: "64 word" where "cur = push_bit 32 r0 OR ucast l"
  have qr: "q = ucast (cur div 1000000000) # q0" "r = cur mod 1000000000"
    using Cons.prems by (simp_all add: d0 Let_def cur_def)
  have r0: "unat r0 < 1000000000" using IH by simp
  then have p: "unat (push_bit 32 r0) = unat r0 * 2 ^ 32"
    by (intro unat_push_bit_small) simp
  have cur: "unat cur = unat l + unat r0 * 2 ^ 32"
    using unat_or_disjoint [of "ucast l :: 64 word" 32 "push_bit 32 r0"] unat_lt_32 [of l] p
    by (simp add: cur_def or.commute del: push_bit_numeral)
  have "unat cur < 1000000000 * 2 ^ 32" using r0 unat_lt_32 [of l] unfolding cur by simp
  then have qs: "unat cur div 1000000000 < 2 ^ 32" by (intro less_mult_imp_div_less) (simp only: mult.commute)
  have uq: "unat (ucast (cur div 1000000000) :: limb) = unat cur div 1000000000"
    using qs by (simp add: unat_ucast_low32 unat_div)
  have ur: "unat r = unat cur mod 1000000000" by (simp add: qr unat_mod)
  have val: "limbsVal (l # ls) = unat cur + 1000000000 * (2 ^ 32 * limbsVal q0)"
  proof -
    have "limbsVal ls = 1000000000 * limbsVal q0 + unat r0" using IH by simp
    then show ?thesis unfolding limbsVal.simps cur by (simp only:) (simp add: algebra_simps)
  qed
  have "(unat cur + 1000000000 * (2 ^ 32 * limbsVal q0)) div 1000000000 = 2 ^ 32 * limbsVal q0 + unat cur div 1000000000"
    by (rule div_mult_self2) simp
  moreover have "(unat cur + 1000000000 * (2 ^ 32 * limbsVal q0)) mod 1000000000 = unat cur mod 1000000000"
    by (rule mod_mult_self2)
  ultimately show ?case unfolding qr(1) val ur using IH by (simp only: limbsVal.simps uq length_Cons) simp
qed

lemma toDecimalLoop_val:
  "normal work \<Longrightarrow>
   toDecimalLoop work s = Some ((if work = [] then [] else showNat (limbsVal work)) @ s)"
proof (induction "limbsVal work" arbitrary: work s rule: less_induct)
  case less
  show ?case
  proof (cases "work = []")
    case True then show ?thesis by (simp add: toDecimalLoop.simps)
  next
    case False
    obtain q0 r where d: "divChunk work = (q0, r)" by (cases "divChunk work")
    let ?q = "popZeros q0" and ?v = "limbsVal work"
    have v: "limbsVal q0 = ?v div 1000000000" "unat r = ?v mod 1000000000"
      using divChunk_val [OF d] by auto
    have pos: "0 < ?v" using limbsVal_eq_0 [OF less.prems] False by auto
    then have lt: "limbsVal ?q < ?v" by (simp add: v)
    have r9: "unat r < 10 ^ Suc 8" by (simp add: v)
    show ?thesis
    proof (cases "?q = []")
      case True
      then have "limbsVal q0 = 0" using popZeros_val [of q0] by simp
      then have "?v < 1000000000" unfolding v(1) by (simp only: div_eq_0_iff) simp
      then have "unat r = ?v" by (simp only: v(2) mod_less)
      moreover have "toDecimalLoop [] u = Some u" for u by (simp add: toDecimalLoop.simps)
      ultimately show ?thesis using False True d
        by (subst toDecimalLoop.simps) (simp add: Let_def)
    next
      case q: False
      then have a: "0 < ?v div 1000000000" using limbsVal_eq_0 [of ?q] by (simp only: v(1) [symmetric] popZeros_val normal_popZeros) simp
      have "showNat ?v = showNat (?v div 10 ^ 9) @ lastDigits (Suc 8) (unat r)"
        using showNat_split [of "?v div 10 ^ 9" "unat r" "Suc 8"] a r9 v(2) by simp
      also have "lastDigits (Suc 8) (unat r) = replicate (9 - length (showNat (unat r))) (CHR ''0'') @ showNat (unat r)"
        using lastDigits_pad [OF r9] by simp
      finally show ?thesis
        using False q d v(1) less.hyps [OF lt normal_popZeros]
        by (subst toDecimalLoop.simps) (simp add: Let_def)
    qed
  qed
qed

lemma toDecimal_val:
  "big_ok x \<Longrightarrow> toDecimal x = (if bigVal x < 0 then ''-'' else []) @ showNat (nat \<bar>bigVal x\<bar>)"
  using limbsVal_eq_0 [of "blimbs x"] toDecimalLoop_val [of "blimbs x" "[]"]
  by (auto simp: toDecimal_def bigVal_def big_ok_def showNat_0)

lemma digitOf_bound: "digitOf c < 16"
  by (simp add: digitOf_def Let_def)

lemma sint_small: "0 \<le> n \<Longrightarrow> n < 2 ^ 63 \<Longrightarrow> sint (word_of_int n :: 64 word) = n"
proof -
  assume n: "0 \<le> n" "n < 2 ^ 63"
  then have "take_bit 64 n = n" "signed_take_bit 63 n = n"
    by (simp_all add: take_bit_int_eq_self_iff signed_take_bit_int_eq_self_iff)
  then show ?thesis using n by (simp add: sint_uint unsigned_of_int)
qed

lemma fromDigitsLoop_spec:
  assumes "2 \<le> radix" "radix \<le> 16"
  shows "big_ok out \<Longrightarrow>
    (\<forall>c \<in> set s. 0 \<le> digitOf c \<and> digitOf c < radix) \<Longrightarrow>
    \<exists>x. fromDigitsLoop radix s out = Some x \<and> big_ok x \<and> bigVal x = digitsVal radix s (bigVal out)"
proof (induction s arbitrary: out)
  case Nil then show ?case by (simp add: digitsVal_def)
next
  case (Cons c cs)
  let ?o = "addB (mulB out (BigInt_of (word_of_int radix))) (BigInt_of (word_of_int (digitOf c)))"
  have ok: "big_ok ?o" and v: "bigVal ?o = bigVal out * radix + digitOf c"
    using Cons.prems assms digitOf_bound [of c] by (simp_all add: addB_spec mulB_spec sint_small)
  show ?case using Cons.IH [OF ok] Cons.prems by (simp add: Let_def v digitsVal_def)
qed

lemma fromDigitsLoop_None:
  "(\<exists>c \<in> set s. digitOf c < 0 \<or> radix \<le> digitOf c) \<Longrightarrow> fromDigitsLoop radix s out = None"
  by (induction s arbitrary: out) (auto simp: Let_def)

lemma digitsVal_append: "digitsVal radix (xs @ ys) s = digitsVal radix ys (digitsVal radix xs s)"
  by (simp add: digitsVal_def)

lemma showNat_digits:
  "(\<forall>c \<in> set (showNat n). 0 \<le> digitOf c \<and> digitOf c < 10) \<and> digitsVal 10 (showNat n) 0 = int n"
proof (induction n rule: showNat.induct)
  case (1 n)
  show ?case
  proof (cases "n < 10")
    case True
    then show ?thesis by (subst (1 2) showNat.simps) (simp add: digitOf_char digitsVal_def)
  next
    case False
    have m: "digitOf (char_of (48 + n mod 10)) = int (n mod 10)" by (rule digitOf_char) simp
    have "int (n div 10) * 10 + int (n mod 10) = int n" by presburger
    then show ?thesis using False 1
      by (subst (1 2) showNat.simps) (auto simp: m digitsVal_append digitsVal_def [of 10 "[_]"])
  qed
qed

lemma fromDigits_toDecimal:
  assumes "big_ok x" "0 \<le> bigVal x"
  shows "\<exists>y. fromDigits (toDecimal x) 10 = Some y \<and> big_ok y \<and> bigVal y = bigVal x"
  using fromDigitsLoop_spec [of 10 BigInt_zero "showNat (nat (bigVal x))"] assms
    showNat_digits [of "nat (bigVal x)"]
  by (auto simp: fromDigits_def toDecimal_val)

lemma limbsVal_inj: "length a = length b \<Longrightarrow> limbsVal a = limbsVal b \<Longrightarrow> a = b"
proof (induction a b rule: list_induct2)
  case (Cons x xs y ys)
  have "unat x = limbsVal (x # xs) mod 2 ^ 32" using unat_lt_32 [of x] by simp
  also have "\<dots> = unat y" using unat_lt_32 [of y] unfolding Cons.prems by simp
  finally have "x = y" by (simp add: word_unat_eq_iff)
  then show ?case using Cons by simp
qed simp

lemma normal_unique: "normal a \<Longrightarrow> normal b \<Longrightarrow> limbsVal a = limbsVal b \<Longrightarrow> a = b"
  using length_less_val [of a b] length_less_val [of b a] limbsVal_inj [of a b]
  by (cases "length a" "length b" rule: linorder_cases) auto

lemma big_ok_unique: "big_ok x \<Longrightarrow> big_ok y \<Longrightarrow> bigVal x = bigVal y \<Longrightarrow> x = y"
proof -
  assume ok: "big_ok x" "big_ok y" and v: "bigVal x = bigVal y"
  have n: "normal (blimbs x)" "normal (blimbs y)" using ok by (auto simp: big_ok_def)
  have s: "bneg x = bneg y" using isNegative_iff [OF ok(1)] isNegative_iff [OF ok(2)] v by (simp add: isNegative_def)
  then have "limbsVal (blimbs x) = limbsVal (blimbs y)" using v by (auto simp: bigVal_def split: if_splits)
  then have "blimbs x = blimbs y" using n by (rule normal_unique [rotated 2])
  with s show "x = y" by simp
qed

section \<open>Trailing zeros and bit lengths\<close>

lemma limbTrailing_spec:
  "w \<noteq> 0 \<Longrightarrow> \<exists>q. odd q \<and> unat w = q * 2 ^ limbTrailing w"
proof (induction w rule: limbTrailing.induct)
  case (1 w)
  show ?case
  proof (cases "w AND 1 = 0")
    case False
    then have "odd (unat w)" using word_odd_test by blast
    moreover have "limbTrailing w = 0" using False by (subst limbTrailing.simps) simp
    ultimately show ?thesis by auto
  next
    case True
    then have ev: "even (unat w)" using word_odd_test by blast
    have u: "unat (drop_bit 1 w) = unat w div 2" by (rule unat_drop_1)
    have "unat w > 0" using 1(2) by (simp add: unat_gt_0)
    then have "unat (drop_bit 1 w) \<noteq> 0" using ev u by (metis dvd_div_eq_0_iff less_numeral_extra(3))
    then have "drop_bit 1 w \<noteq> 0" by (metis unat_0)
    then obtain q where q: "odd q" "unat w div 2 = q * 2 ^ limbTrailing (drop_bit 1 w)"
      using 1(1) [OF 1(2) True] u by auto
    have "limbTrailing w = Suc (limbTrailing (drop_bit 1 w))" using True 1(2) by (subst limbTrailing.simps) simp
    moreover have "unat w = 2 * (unat w div 2)" using ev by simp
    ultimately have "unat w = q * 2 ^ limbTrailing w" using q(2) by simp
    then show ?thesis using q by blast
  qed
qed

lemma limbTrailing_less: "w \<noteq> 0 \<Longrightarrow> limbTrailing w < 32"
proof (rule ccontr)
  assume "w \<noteq> 0" and n: "\<not> limbTrailing w < 32"
  then obtain q where q: "odd q" "unat w = q * 2 ^ limbTrailing w" using limbTrailing_spec by blast
  have "(2::nat) ^ 32 \<le> 2 ^ limbTrailing w" using n by (intro power_increasing) auto
  also have "\<dots> \<le> unat w" using q by (cases q) auto
  finally show False using unat_lt_32 [of w] by simp
qed

lemma trailingLoop_spec:
  "limbsVal ls \<noteq> 0 \<Longrightarrow> \<exists>k q. trailingLoop ls c = c + k \<and> odd q \<and> limbsVal ls = q * 2 ^ k"
proof (induction ls arbitrary: c)
  case (Cons l ls)
  show ?case
  proof (cases "l = 0")
    case True
    then obtain k q where k: "trailingLoop ls (c + 32) = c + 32 + k" "odd q" "limbsVal ls = q * 2 ^ k"
      using Cons.IH [of "c + 32"] Cons.prems by auto
    have "limbsVal (l # ls) = q * 2 ^ (32 + k)" using True k by (simp only: limbsVal.simps power_add) simp
    then show ?thesis using True k by (metis add.assoc trailingLoop.simps(2))
  next
    case False
    then obtain q where q: "odd q" "unat l = q * 2 ^ limbTrailing l" using limbTrailing_spec by blast
    have lt: "limbTrailing l < 32" by (rule limbTrailing_less [OF False])
    let ?q = "q + 2 ^ (32 - limbTrailing l) * limbsVal ls"
    have "(2::nat) ^ 32 = 2 ^ limbTrailing l * 2 ^ (32 - limbTrailing l)"
      using lt by (simp only: power_add [symmetric]) simp
    then have "limbsVal (l # ls) = ?q * 2 ^ limbTrailing l"
      using q(2) by (simp only: limbsVal.simps algebra_simps)
    moreover have "odd ?q" using q(1) lt by simp
    ultimately show ?thesis using False by auto
  qed
qed simp

lemma trailingZeroBits_spec:
  assumes "big_ok x" "0 < bigVal x"
  shows "\<exists>q. odd q \<and> bigVal x = q * 2 ^ trailingZeroBits x"
proof -
  have v: "bigVal x = int (limbsVal (blimbs x))" "limbsVal (blimbs x) \<noteq> 0"
    using assms by (auto simp: bigVal_def split: if_splits)
  obtain k q where "trailingLoop (blimbs x) 0 = 0 + k" "odd q" "limbsVal (blimbs x) = q * 2 ^ k"
    using trailingLoop_spec [OF v(2)] by blast
  then have "odd (int q) \<and> bigVal x = int q * 2 ^ trailingZeroBits x"
    using v by (simp add: trailingZeroBits_def)
  then show ?thesis by blast
qed

lemma bitsB_less: "big_ok x \<Longrightarrow> \<bar>bigVal x\<bar> < 2 ^ bitsB x"
  using bitLength_less [of "blimbs x"] by (auto simp: bigVal_def bitsB_def simp flip: of_nat_power)

lemma bitsB_mono:
  assumes "big_ok x" "big_ok y" "\<bar>bigVal x\<bar> \<le> \<bar>bigVal y\<bar>" shows "bitsB x \<le> bitsB y"
proof -
  have n: "normal (blimbs x)" "normal (blimbs y)" using assms by (auto simp: big_ok_def)
  have "limbsVal (blimbs x) \<le> limbsVal (blimbs y)" using assms(3) by (auto simp: bigVal_def split: if_splits)
  then have "limbsVal (blimbs x) < 2 ^ bitLength (blimbs y)" using bitLength_less [of "blimbs y"] by linarith
  then show ?thesis using bitLength_gt_iff [OF n(1)] by (simp add: bitsB_def)
qed

end
