(* ===== verification/Literal_Value.thy ===== *)
theory Literal_Value
  imports Literal_BigInt
begin

text \<open>
  Exact literal values (\<open>src/compile/literal.cpp\<close>, \<open>Rational\<close> and \<open>Value\<close>): reduced
  fractions of the arbitrary precision integers, reading literals from text, the exact decimal
  text of a value, and the folding of literal arithmetic. \<open>ratVal\<close> reads a fraction as a
  rational number; the lemmas show that reading, folding, comparing and printing are exact.
\<close>

section \<open>Rationals\<close>

record Rational =
  rnum :: BigInt
  rden :: BigInt

definition Rational_default :: Rational where
  "Rational_default = \<lparr>rnum = BigInt_zero, rden = BigInt_of 1\<rparr>"

text \<open>Euclid on the two magnitudes: \<open>while (!b.isZero())\<close>.\<close>

definition euclid :: "BigInt \<Rightarrow> BigInt \<Rightarrow> BigInt" where
  "euclid a b = fst (while (\<lambda>(a, b). \<not> isZero b) (\<lambda>(a, b). (b, snd (divMod a b))) (a, b))"

definition makeRational :: "BigInt \<Rightarrow> BigInt \<Rightarrow> Rational" where
  "makeRational num0 den0 =
     (let n = (if isNegative den0 then negated num0 else num0);
          d = (if isNegative den0 then negated den0 else den0)
      in if isZero n then \<lparr>rnum = BigInt_zero, rden = BigInt_of 1\<rparr>
         else let a = euclid (absB n) d
              in if isOne a then \<lparr>rnum = n, rden = d\<rparr>
                 else \<lparr>rnum = fst (divMod n a), rden = fst (divMod d a)\<rparr>)"

definition rationalAdd :: "Rational \<Rightarrow> Rational \<Rightarrow> Rational" where
  "rationalAdd l r =
     makeRational (addB (mulB (rnum l) (rden r)) (mulB (rnum r) (rden l))) (mulB (rden l) (rden r))"

definition rationalSub :: "Rational \<Rightarrow> Rational \<Rightarrow> Rational" where
  "rationalSub l r =
     makeRational (subB (mulB (rnum l) (rden r)) (mulB (rnum r) (rden l))) (mulB (rden l) (rden r))"

definition rationalMul :: "Rational \<Rightarrow> Rational \<Rightarrow> Rational" where
  "rationalMul l r = makeRational (mulB (rnum l) (rnum r)) (mulB (rden l) (rden r))"

definition rationalDiv :: "Rational \<Rightarrow> Rational \<Rightarrow> Rational option" where
  "rationalDiv l r =
     (if isZero (rnum r) then None
      else Some (makeRational (mulB (rnum l) (rden r)) (mulB (rden l) (rnum r))))"

definition rationalCompare :: "Rational \<Rightarrow> Rational \<Rightarrow> int" where
  "rationalCompare l r = compareB (mulB (rnum l) (rden r)) (mulB (rnum r) (rden l))"

definition rationalIntegral :: "Rational \<Rightarrow> bool" where
  "rationalIntegral v = isOne (rden v)"

section \<open>Exact decimal text\<close>

text \<open>
  The binary search for the number of factors of five: \<open>low\<close> is always a power that divides,
  \<open>high\<close> an upper bound.
\<close>

definition fiveDivides :: "BigInt \<Rightarrow> nat \<Rightarrow> bool" where
  "fiveDivides reduced middle =
     (let p = powerOfLimb 5 middle
      in if bitsB p \<le> bitsB reduced then isZero (snd (divMod reduced p)) else False)"

function fiveSearch :: "BigInt \<Rightarrow> nat \<Rightarrow> nat \<Rightarrow> nat" where
  "fiveSearch reduced low high =
     (if low < high
      then let middle = low + (high - low + 1) div 2
           in if fiveDivides reduced middle then fiveSearch reduced middle high
              else fiveSearch reduced low (middle - 1)
      else low)"
  by pat_completeness auto
termination
  by (relation "measure (\<lambda>(r, low, high). high - low)") auto

declare fiveSearch.simps [simp del]

function popZeroDigits :: "string \<Rightarrow> string" where
  "popZeroDigits digits =
     (if length digits > 1 \<and> last digits = CHR ''0'' then popZeroDigits (butlast digits) else digits)"
  by pat_completeness auto
termination
  by (relation "measure length") auto

declare popZeroDigits.simps [simp del]

definition exactDecimal :: "Rational \<Rightarrow> string option" where
  "exactDecimal v =
     (if isZero (rnum v) then Some ''0''
      else
        let numerator = absB (rnum v) in
        if bitsB (rden v) > 32768 then None
        else
          let twos = trailingZeroBits (rden v);
              reduced1 = (if twos \<noteq> 0 then shiftedRight (rden v) twos else rden v);
              upper = min (bitsB reduced1 div 2 + 1) 4096;
              fives = fiveSearch reduced1 0 upper;
              reduced = (if fives \<noteq> 0 then fst (divMod reduced1 (powerOfLimb 5 fives)) else reduced1)
          in if \<not> isOne reduced then None
             else
               let places = max twos fives;
                   scaled1 = (if places > twos then mulB numerator (powerOfLimb 2 (places - twos))
                              else numerator);
                   scaled = (if places > fives then mulB scaled1 (powerOfLimb 5 (places - fives))
                             else scaled1);
                   digits = toDecimal scaled;
                   sign = (if isNegative (rnum v) then ''-'' else [])
               in if places = 0 then Some (sign @ digits)
                  else
                    let padded = (if length digits \<le> places
                                  then replicate (places - length digits + 1) (CHR ''0'') @ digits
                                  else digits);
                        cut = length padded - places;
                        pointed = take cut padded @ ''.'' @ drop cut padded;
                        trimmed = popZeroDigits pointed;
                        final = (if last trimmed = CHR ''.'' then butlast trimmed else trimmed)
                    in Some (sign @ final))"


section \<open>Values\<close>

datatype Kind = Integer | Float | Imaginary | Complex

record Rep =
  rational :: Rational
  negativeZero :: bool
  imaginary :: Rational
  imaginaryNegativeZero :: bool

record Value =
  kind :: Kind
  rep :: Rep

text \<open>\<open>Rep{real}\<close>: the other members keep their defaults.\<close>

definition realRep :: "Rational \<Rightarrow> bool \<Rightarrow> Rep" where
  "realRep r nz =
     \<lparr>rational = r, negativeZero = nz, imaginary = Rational_default, imaginaryNegativeZero = False\<rparr>"

definition mkValue :: "Kind \<Rightarrow> Rep \<Rightarrow> Value" where
  "mkValue k r = \<lparr>kind = k, rep = r\<rparr>"

definition Value_fromInt64 :: "64 word \<Rightarrow> Value" where
  "Value_fromInt64 v =
     mkValue Integer (realRep \<lparr>rnum = BigInt_of v, rden = BigInt_of 1\<rparr> False)"

definition hasImaginaryPart :: "Value \<Rightarrow> bool" where
  "hasImaginaryPart v = (kind v = Imaginary \<or> kind v = Complex)"

text \<open>The optional sign in front of a literal: whether it is a minus, and the rest.\<close>

definition stripSign :: "string \<Rightarrow> bool \<times> string" where
  "stripSign s =
     (case s of
        [] \<Rightarrow> (False, s)
      | c # cs \<Rightarrow> if c = CHR ''+'' \<or> c = CHR ''-'' then (c = CHR ''-'', cs) else (False, s))"

definition radixOf :: "string \<Rightarrow> int \<times> string" where
  "radixOf s =
     (if length s > 2 \<and> s ! 0 = CHR ''0'' \<and> (s ! 1 = CHR ''x'' \<or> s ! 1 = CHR ''X'') then (16, drop 2 s)
      else if length s > 2 \<and> s ! 0 = CHR ''0'' \<and> (s ! 1 = CHR ''b'' \<or> s ! 1 = CHR ''B'') then (2, drop 2 s)
      else if length s > 2 \<and> s ! 0 = CHR ''0'' \<and> (s ! 1 = CHR ''o'' \<or> s ! 1 = CHR ''O'') then (8, drop 2 s)
      else if length s > 1 \<and> s ! 0 = CHR ''0'' then (8, drop 1 s)
      else (10, s))"

definition fromIntegerText :: "string \<Rightarrow> Value option" where
  "fromIntegerText s0 =
     (let (negative, s1) = stripSign s0; (radix, s) = radixOf s1
      in if s = [] then None
         else case fromDigits s radix of
                None \<Rightarrow> None
              | Some magnitude \<Rightarrow>
                  Some (mkValue Integer
                    (realRep \<lparr>rnum = (if negative then negated magnitude else magnitude),
                              rden = BigInt_of 1\<rparr> False)))"

definition isDigitChar :: "char \<Rightarrow> bool" where
  "isDigitChar c = (48 \<le> (of_char c :: nat) \<and> (of_char c :: nat) \<le> 57)"

text \<open>The mantissa loop of \<open>fromRealText\<close>: digits read, digits after the point, rest of the text.\<close>

fun scanMantissa :: "string \<Rightarrow> bool \<Rightarrow> string \<Rightarrow> nat \<Rightarrow> string \<times> nat \<times> string" where
  "scanMantissa [] seenPoint digits fractionDigits = (digits, fractionDigits, [])"
| "scanMantissa (c # cs) seenPoint digits fractionDigits =
     (if isDigitChar c
      then scanMantissa cs seenPoint (digits @ [c]) (if seenPoint then fractionDigits + 1 else fractionDigits)
      else if c = CHR ''.'' \<and> \<not> seenPoint then scanMantissa cs True digits fractionDigits
      else (digits, fractionDigits, c # cs))"

fun scanExponent :: "string \<Rightarrow> int \<Rightarrow> bool \<Rightarrow> int option" where
  "scanExponent [] val anyDigit = (if anyDigit then Some val else None)"
| "scanExponent (c # cs) val anyDigit =
     (if \<not> isDigitChar c then None
      else if val > 1000000 then None
      else scanExponent cs (val * 10 + int (of_char c - 48)) True)"

text \<open>The exponent part: its value and what is left of the text.\<close>

definition exponentPart :: "string \<Rightarrow> (int \<times> string) option" where
  "exponentPart rest =
     (case rest of
        [] \<Rightarrow> Some (0, [])
      | c # cs \<Rightarrow>
          if c = CHR ''e'' \<or> c = CHR ''E''
          then let (exponentNegative, ds) = stripSign cs
               in case scanExponent ds 0 False of
                    None \<Rightarrow> None
                  | Some val \<Rightarrow> Some (if exponentNegative then - val else val, [])
          else Some (0, c # cs))"

definition scaledRational :: "BigInt \<Rightarrow> int \<Rightarrow> Rational option" where
  "scaledRational mantissa scale =
     (if scale > 0
      then if scale > 8192 then None
           else Some (makeRational mantissa (powerOfLimb 10 (nat scale)))
      else if - scale > 8192 then None
           else Some (makeRational (mulB mantissa (powerOfLimb 10 (nat (- scale)))) (BigInt_of 1)))"

definition fromRealText :: "string \<Rightarrow> Value option" where
  "fromRealText s0 =
     (let (negative, s) = stripSign s0;
          (digits, fractionDigits, rest) = scanMantissa s False [] 0
      in case exponentPart rest of
           None \<Rightarrow> None
         | Some (exponent, rest') \<Rightarrow>
             if rest' \<noteq> [] \<or> digits = [] then None
             else case fromDigits digits 10 of
                    None \<Rightarrow> None
                  | Some mantissa \<Rightarrow>
                      (case scaledRational mantissa (int fractionDigits - exponent) of
                         None \<Rightarrow> None
                       | Some r0 \<Rightarrow>
                           let r = (if negative then r0\<lparr>rnum := negated (rnum r0)\<rparr> else r0)
                           in Some (mkValue Float (realRep r (negative \<and> isZero (rnum r))))))"

definition fromImaginaryText :: "string \<Rightarrow> Value option" where
  "fromImaginaryText s0 =
     (let (negative, s) = stripSign s0
      in if s = [] \<or> last s \<noteq> CHR ''i'' then None
         else let body = butlast s
              in case fromRealText (if negative then CHR ''-'' # body else body) of
                   None \<Rightarrow> None
                 | Some b \<Rightarrow>
                     Some (mkValue Imaginary
                       \<lparr>rational = Rational_default, negativeZero = False,
                        imaginary = rational (rep b),
                        imaginaryNegativeZero =
                          (negativeZero (rep b) \<or> (negative \<and> isZero (rnum (rational (rep b)))))\<rparr>))"

definition Value_isZero :: "Value \<Rightarrow> bool" where
  "Value_isZero v = isZero (rnum (rational (rep v)))"

definition Value_isNegative :: "Value \<Rightarrow> bool" where
  "Value_isNegative v = isNegative (rnum (rational (rep v)))"

definition asInt64 :: "Value \<Rightarrow> 64 word option" where
  "asInt64 v =
     (if kind v \<noteq> Integer \<or> \<not> rationalIntegral (rational (rep v)) then None
      else if \<not> fitsInt64 (rnum (rational (rep v))) then None
      else Some (toInt64 (rnum (rational (rep v)))))"

text \<open>The two integer targets of \<open>Value::toData\<close>.\<close>

definition toDataInt64 :: "Value \<Rightarrow> 64 word option" where
  "toDataInt64 v = (if hasImaginaryPart v then None else asInt64 v)"

definition toDataInt32 :: "Value \<Rightarrow> 32 word option" where
  "toDataInt32 v =
     (if hasImaginaryPart v then None
      else case asInt64 v of
             None \<Rightarrow> None
           | Some x \<Rightarrow>
               if sint x < - (2 ^ 31) \<or> sint x > 2 ^ 31 - 1 then None else Some (ucast x))"

section \<open>Folding\<close>

definition kMaxBits :: nat where
  "kMaxBits = 2 ^ 17"

definition foldedKind :: "Value \<Rightarrow> Value \<Rightarrow> bool \<Rightarrow> Kind" where
  "foldedKind l r cplx =
     (if cplx then Complex
      else if kind l = Integer \<and> kind r = Integer then Integer else Float)"

definition complexRep :: "Rational \<Rightarrow> Rational \<Rightarrow> Rep" where
  "complexRep re im =
     \<lparr>rational = re, negativeZero = False, imaginary = im, imaginaryNegativeZero = False\<rparr>"

definition Value_add :: "Value \<Rightarrow> Value \<Rightarrow> Value option" where
  "Value_add l r =
     (let cplx = (hasImaginaryPart l \<or> hasImaginaryPart r);
          re = rationalAdd (rational (rep l)) (rational (rep r));
          im = rationalAdd (imaginary (rep l)) (imaginary (rep r))
      in if \<not> cplx then Some (mkValue (foldedKind l r False) (realRep re False))
         else Some (mkValue Complex (complexRep re im)))"

definition Value_sub :: "Value \<Rightarrow> Value \<Rightarrow> Value option" where
  "Value_sub l r =
     (let cplx = (hasImaginaryPart l \<or> hasImaginaryPart r);
          re = rationalSub (rational (rep l)) (rational (rep r));
          im = rationalSub (imaginary (rep l)) (imaginary (rep r))
      in if \<not> cplx then Some (mkValue (foldedKind l r False) (realRep re False))
         else Some (mkValue Complex (complexRep re im)))"

definition Value_mul :: "Value \<Rightarrow> Value \<Rightarrow> Value option" where
  "Value_mul l r =
     (let a = rational (rep l); b = rational (rep r);
          c = imaginary (rep l); d = imaginary (rep r)
      in if bitsB (rnum a) + bitsB (rnum b) > kMaxBits \<or> bitsB (rnum c) + bitsB (rnum d) > kMaxBits
         then None
         else if \<not> (hasImaginaryPart l \<or> hasImaginaryPart r)
         then Some (mkValue (foldedKind l r False) (realRep (rationalMul a b) False))
         else Some (mkValue Complex
                (complexRep (rationalSub (rationalMul a b) (rationalMul c d))
                            (rationalAdd (rationalMul a d) (rationalMul c b)))))"

definition Value_div :: "Value \<Rightarrow> Value \<Rightarrow> Value option" where
  "Value_div l r =
     (let a = rational (rep l); b = rational (rep r);
          c = imaginary (rep l); d = imaginary (rep r)
      in if \<not> (hasImaginaryPart l \<or> hasImaginaryPart r)
         then if isZero (rnum b) then None
              else if kind l = Integer \<and> kind r = Integer
              then Some (mkValue Integer
                     (realRep \<lparr>rnum = fst (divMod (rnum a) (rnum b)), rden = BigInt_of 1\<rparr> False))
              else (case rationalDiv a b of
                      None \<Rightarrow> None
                    | Some q \<Rightarrow> Some (mkValue Float (realRep q False)))
         else let denominator = rationalAdd (rationalMul b b) (rationalMul d d)
              in if isZero (rnum denominator) then None
                 else (case (rationalDiv (rationalAdd (rationalMul a b) (rationalMul c d)) denominator,
                             rationalDiv (rationalSub (rationalMul c b) (rationalMul a d)) denominator) of
                         (Some re, Some im) \<Rightarrow> Some (mkValue Complex (complexRep re im))
                       | _ \<Rightarrow> None))"

definition Value_mod :: "Value \<Rightarrow> Value \<Rightarrow> Value option" where
  "Value_mod l r =
     (if hasImaginaryPart l \<or> hasImaginaryPart r then None
      else if kind l \<noteq> Integer \<or> kind r \<noteq> Integer then None
      else let a = rational (rep l); b = rational (rep r)
           in if isZero (rnum b) then None
              else Some (mkValue Integer
                     (realRep \<lparr>rnum = snd (divMod (rnum a) (rnum b)), rden = BigInt_of 1\<rparr> False)))"

definition integerExponent :: "Rational \<Rightarrow> nat option" where
  "integerExponent v =
     (if \<not> isOne (rden v) \<or> isNegative (rnum v) \<or> \<not> fitsInt64 (rnum v) then None
      else let exponent = toInt64 (rnum v)
           in if sint exponent < 0 then None else Some (unat exponent))"

definition Value_pow :: "Value \<Rightarrow> Value \<Rightarrow> Value option" where
  "Value_pow base exponent =
     (if hasImaginaryPart base \<or> hasImaginaryPart exponent then None
      else let b = rational (rep base); e = rational (rep exponent)
           in case integerExponent e of
                None \<Rightarrow> None
              | Some p \<Rightarrow>
                  if p > 4096 then None
                  else let k = (if kind base = Integer \<and> kind exponent = Integer then Integer else Float)
                       in if p = 0
                          then Some (mkValue k (realRep \<lparr>rnum = BigInt_of 1, rden = BigInt_of 1\<rparr> False))
                          else if isZero (rnum b) then Some (Value_fromInt64 0)
                          else if bitsB (rnum b) * p > kMaxBits then None
                          else Some (mkValue k
                                 (realRep (makeRational (powerOf (rnum b) p) (powerOf (rden b) p)) False)))"

definition Value_negate :: "Value \<Rightarrow> Value option" where
  "Value_negate v =
     (let re = rational (rep v); im = imaginary (rep v)
      in if hasImaginaryPart v
         then Some (mkValue (kind v)
                \<lparr>rational = (if isZero (rnum re) then re else re\<lparr>rnum := negated (rnum re)\<rparr>),
                 negativeZero = (if isZero (rnum re) then \<not> negativeZero (rep v) else negativeZero (rep v)),
                 imaginary = (if isZero (rnum im) then im else im\<lparr>rnum := negated (rnum im)\<rparr>),
                 imaginaryNegativeZero =
                   (if isZero (rnum im) then \<not> imaginaryNegativeZero (rep v)
                    else imaginaryNegativeZero (rep v))\<rparr>)
         else if isZero (rnum re) then Some (mkValue (kind v) (realRep re False))
         else Some (mkValue (kind v) (realRep (re\<lparr>rnum := negated (rnum re)\<rparr>) False)))"

definition Value_compare :: "Value \<Rightarrow> Value \<Rightarrow> int" where
  "Value_compare l r =
     (let re = rationalCompare (rational (rep l)) (rational (rep r))
      in if hasImaginaryPart l \<or> hasImaginaryPart r
         then if re \<noteq> 0 then re else rationalCompare (imaginary (rep l)) (imaginary (rep r))
         else re)"

section \<open>Underflow\<close>

text \<open>
  \<open>partUnderflows<T>\<close> for the exponent \<open>digits - min_exponent + 1\<close> of the type: 150 for
  \<open>float\<close> and 1075 for \<open>double\<close>.
\<close>

definition atMostTiny :: "Rational \<Rightarrow> nat \<Rightarrow> bool" where
  "atMostTiny v exponent = (compareB (shiftedLeft (absB (rnum v)) exponent) (rden v) \<le> 0)"

definition partUnderflows :: "nat \<Rightarrow> Rational \<Rightarrow> bool" where
  "partUnderflows kHalfUlpExponent v = (if isZero (rnum v) then False else atMostTiny v kHalfUlpExponent)"

section \<open>What the representation means\<close>

text \<open>
  The number a fraction and a value stand for, the reduced form every operation keeps
  (\<open>rat_ok\<close>: normalised limbs, a positive denominator, no common factor), the invariant of a
  value (\<open>value_ok\<close>), and the two optional pieces of a decimal text.
\<close>

definition ratVal :: "Rational \<Rightarrow> rat" where
  "ratVal r = of_int (bigVal (rnum r)) / of_int (bigVal (rden r))"

definition rat_ok :: "Rational \<Rightarrow> bool" where
  "rat_ok r \<longleftrightarrow> big_ok (rnum r) \<and> big_ok (rden r) \<and> 0 < bigVal (rden r) \<and>
     coprime (bigVal (rnum r)) (bigVal (rden r))"

definition valRe :: "Value \<Rightarrow> rat" where
  "valRe v = ratVal (rational (rep v))"

definition valIm :: "Value \<Rightarrow> rat" where
  "valIm v = ratVal (imaginary (rep v))"

definition value_ok :: "Value \<Rightarrow> bool" where
  "value_ok v \<longleftrightarrow> rat_ok (rational (rep v)) \<and> rat_ok (imaginary (rep v)) \<and>
     (kind v = Integer \<longrightarrow> valRe v \<in> \<int>) \<and>
     (\<not> hasImaginaryPart v \<longrightarrow> valIm v = 0) \<and> (kind v = Imaginary \<longrightarrow> valRe v = 0)"

definition decimalPoint :: "bool \<Rightarrow> string" where
  "decimalPoint point = (if point then ''.'' else [])"

definition signText :: "bool \<Rightarrow> string" where
  "signText neg = (if neg then ''-'' else [])"

section \<open>Exactness\<close>

interpretation big: exact_ring bigVal big_ok addB subB mulB
  by unfold_locales (simp_all add: addB_spec subB_spec mulB_spec)

lemma big_one [simp]: "bigVal (BigInt_of 1) = 1" by simp

lemma euclid_spec:
  assumes "big_ok a" "big_ok b" "0 \<le> bigVal a" "0 \<le> bigVal b"
  shows "big_ok (euclid a b) \<and> bigVal (euclid a b) = gcd (bigVal a) (bigVal b)"
  unfolding euclid_def
proof (rule while_rule [where
    P = "\<lambda>(x, y). big_ok x \<and> big_ok y \<and> 0 \<le> bigVal x \<and> 0 \<le> bigVal y \<and>
           gcd (bigVal x) (bigVal y) = gcd (bigVal a) (bigVal b)"
    and r = "measure (\<lambda>(x, y). nat (bigVal y))"], goal_cases)
  case 1 then show ?case using assms by simp
next
  case (2 s)
  obtain x y where s: "s = (x, y)" by (cases s)
  then have y: "bigVal y \<noteq> 0" using 2 isZero_iff by auto
  have "bigVal x smod bigVal y = bigVal x mod bigVal y"
    using 2 s by (auto simp: smod_int_alt_def sgn_if)
  then show ?case using 2 s y divMod_spec [of x y] by (auto simp: gcd_red_int [symmetric] pos_mod_sign)
next
  case (3 s)
  then show ?case by (auto simp: isZero_iff)
next
  case 4 show ?case by simp
next
  case (5 s)
  obtain x y where s: "s = (x, y)" by (cases s)
  then have y: "bigVal y > 0" using 5 isZero_iff by force
  have "bigVal x smod bigVal y = bigVal x mod bigVal y"
    using 5 s y by (auto simp: smod_int_alt_def sgn_if)
  moreover have "bigVal x mod bigVal y < bigVal y" using y by simp
  ultimately show ?case using 5 s y divMod_spec [of x y] by auto
qed

lemma sdiv_exact: "g dvd n \<Longrightarrow> n sdiv g = n div (g :: int)"
  by (simp add: signed_divide_int_eq_divide_int)

lemma makeRational_spec:
  assumes "big_ok n" "big_ok d" "bigVal d \<noteq> 0"
  shows "rat_ok (makeRational n d)" "ratVal (makeRational n d) = of_int (bigVal n) / of_int (bigVal d)"
proof -
  define n1 where "n1 = (if isNegative d then negated n else n)"
  define d1 where "d1 = (if isNegative d then negated d else d)"
  have ok: "big_ok n1" "big_ok d1" using assms by (auto simp: n1_def d1_def negated_spec)
  have dpos: "0 < bigVal d1" using assms isNegative_iff [of d] by (auto simp: d1_def negated_spec)
  have q: "of_int (bigVal n1) / of_int (bigVal d1) = (of_int (bigVal n) / of_int (bigVal d) :: rat)"
    using assms by (auto simp: n1_def d1_def negated_spec)
  define a where "a = euclid (absB n1) d1"
  have a: "big_ok a" "bigVal a = gcd (bigVal n1) (bigVal d1)"
    using euclid_spec [of "absB n1" d1] ok dpos by (auto simp: a_def absB_spec)
  have apos: "0 < bigVal a" using a dpos by (simp add: gcd_pos_int)
  have mk: "makeRational n d =
      (if isZero n1 then \<lparr>rnum = BigInt_zero, rden = BigInt_of 1\<rparr>
       else if isOne a then \<lparr>rnum = n1, rden = d1\<rparr>
       else \<lparr>rnum = fst (divMod n1 a), rden = fst (divMod d1 a)\<rparr>)"
    by (simp add: makeRational_def Let_def n1_def d1_def a_def)
  have div: "bigVal (fst (divMod n1 a)) = bigVal n1 div bigVal a"
    "bigVal (fst (divMod d1 a)) = bigVal d1 div bigVal a"
    "big_ok (fst (divMod n1 a))" "big_ok (fst (divMod d1 a))"
    using divMod_spec [of n1 a] divMod_spec [of d1 a] ok a apos by (auto simp: sdiv_exact)
  have cop: "coprime (bigVal n1 div bigVal a) (bigVal d1 div bigVal a)"
    using div_gcd_coprime [of "bigVal n1" "bigVal d1"] dpos a(2) by simp
  have dv: "0 < bigVal d1 div bigVal a"
    using dpos apos a(2) by (simp add: pos_imp_zdiv_pos_iff zdvd_imp_le)
  show "rat_ok (makeRational n d)"
  proof -
    have one: "isOne a \<Longrightarrow> coprime (bigVal n1) (bigVal d1)"
      using isOne_iff [OF a(1)] a(2) by (simp add: coprime_iff_gcd_eq_1)
    show ?thesis unfolding mk using ok dpos one div cop dv by (simp add: rat_ok_def)
  qed
  have qa: "of_int (bigVal n1 div bigVal a) / of_int (bigVal d1 div bigVal a) =
      (of_int (bigVal n1) / of_int (bigVal d1) :: rat)"
  proof -
    have "bigVal n1 = bigVal n1 div bigVal a * bigVal a" "bigVal d1 = bigVal d1 div bigVal a * bigVal a"
      using a(2) by simp_all
    then have "(of_int (bigVal n1) :: rat) = of_int (bigVal n1 div bigVal a) * of_int (bigVal a)"
      "(of_int (bigVal d1) :: rat) = of_int (bigVal d1 div bigVal a) * of_int (bigVal a)"
      by (metis of_int_mult)+
    then show ?thesis using apos by (simp add: mult_divide_mult_cancel_right)
  qed
  show "ratVal (makeRational n d) = of_int (bigVal n) / of_int (bigVal d)"
    unfolding mk using q qa div isZero_iff [OF ok(1)] by (auto simp: ratVal_def)
qed

lemma rat_okD: "rat_ok r \<Longrightarrow> big_ok (rnum r)" "rat_ok r \<Longrightarrow> big_ok (rden r)"
  "rat_ok r \<Longrightarrow> 0 < bigVal (rden r)"
  by (auto simp: rat_ok_def)

lemma rationalAdd_spec:
  assumes "rat_ok l" "rat_ok r"
  shows "rat_ok (rationalAdd l r)" "ratVal (rationalAdd l r) = ratVal l + ratVal r"
proof -
  note d = rat_okD [OF assms(1)] rat_okD [OF assms(2)]
  have c: "big_ok (addB (mulB (rnum l) (rden r)) (mulB (rnum r) (rden l)))"
    "bigVal (addB (mulB (rnum l) (rden r)) (mulB (rnum r) (rden l))) =
       bigVal (rnum l) * bigVal (rden r) + bigVal (rnum r) * bigVal (rden l)"
    "big_ok (mulB (rden l) (rden r))" "bigVal (mulB (rden l) (rden r)) = bigVal (rden l) * bigVal (rden r)"
    using d by (simp_all add: big.cross_add big.mul_ok big.mul_val)
  show "rat_ok (rationalAdd l r)" "ratVal (rationalAdd l r) = ratVal l + ratVal r"
    unfolding rationalAdd_def using makeRational_spec [OF c(1,3)] c d
    by (auto simp: ratVal_def add_frac_eq)
qed

lemma rationalSub_spec:
  assumes "rat_ok l" "rat_ok r"
  shows "rat_ok (rationalSub l r)" "ratVal (rationalSub l r) = ratVal l - ratVal r"
proof -
  note d = rat_okD [OF assms(1)] rat_okD [OF assms(2)]
  have c: "big_ok (subB (mulB (rnum l) (rden r)) (mulB (rnum r) (rden l)))"
    "bigVal (subB (mulB (rnum l) (rden r)) (mulB (rnum r) (rden l))) =
       bigVal (rnum l) * bigVal (rden r) - bigVal (rnum r) * bigVal (rden l)"
    "big_ok (mulB (rden l) (rden r))" "bigVal (mulB (rden l) (rden r)) = bigVal (rden l) * bigVal (rden r)"
    using d by (simp_all add: big.cross_sub big.mul_ok big.mul_val)
  show "rat_ok (rationalSub l r)" "ratVal (rationalSub l r) = ratVal l - ratVal r"
    unfolding rationalSub_def using makeRational_spec [OF c(1,3)] c d
    by (auto simp: ratVal_def diff_frac_eq)
qed

lemma rationalMul_spec:
  assumes "rat_ok l" "rat_ok r"
  shows "rat_ok (rationalMul l r)" "ratVal (rationalMul l r) = ratVal l * ratVal r"
proof -
  note d = rat_okD [OF assms(1)] rat_okD [OF assms(2)]
  show "rat_ok (rationalMul l r)" "ratVal (rationalMul l r) = ratVal l * ratVal r"
    unfolding rationalMul_def
    using makeRational_spec [of "mulB (rnum l) (rnum r)" "mulB (rden l) (rden r)"] d
    by (auto simp: ratVal_def big.mul_ok big.mul_val)
qed

lemma ratVal_zero_iff: "rat_ok r \<Longrightarrow> ratVal r = 0 \<longleftrightarrow> bigVal (rnum r) = 0"
  by (auto simp: ratVal_def rat_ok_def)

lemma rationalDiv_spec:
  assumes "rat_ok l" "rat_ok r"
  shows "ratVal r = 0 \<Longrightarrow> rationalDiv l r = None"
    and "ratVal r \<noteq> 0 \<Longrightarrow> \<exists>q. rationalDiv l r = Some q \<and> rat_ok q \<and> ratVal q = ratVal l / ratVal r"
proof -
  note d = rat_okD [OF assms(1)] rat_okD [OF assms(2)]
  have z: "isZero (rnum r) \<longleftrightarrow> ratVal r = 0"
    using d by (simp add: isZero_iff ratVal_zero_iff assms)
  show "ratVal r = 0 \<Longrightarrow> rationalDiv l r = None" by (simp add: rationalDiv_def z)
  assume nz: "ratVal r \<noteq> 0"
  then have "bigVal (rnum r) \<noteq> 0" using ratVal_zero_iff assms by blast
  then show "\<exists>q. rationalDiv l r = Some q \<and> rat_ok q \<and> ratVal q = ratVal l / ratVal r"
    using makeRational_spec [of "mulB (rnum l) (rden r)" "mulB (rden l) (rnum r)"] d nz
    by (auto simp: rationalDiv_def z big.mul_ok big.mul_val ratVal_def)
qed

interpretation frac: exact_ring ratVal rat_ok rationalAdd rationalSub rationalMul
  by unfold_locales (simp_all add: rationalAdd_spec rationalSub_spec rationalMul_spec)

lemma sgn_of_int_divide: "0 < y \<Longrightarrow> sgn (of_int x / of_int y :: rat) = of_int (sgn x)"
  by (simp add: sgn_if divide_less_0_iff zero_less_divide_iff)

lemma rationalCompare_spec:
  assumes "rat_ok l" "rat_ok r" shows "of_int (rationalCompare l r) = sgn (ratVal l - ratVal r)"
proof -
  note d = rat_okD [OF assms(1)] rat_okD [OF assms(2)]
  let ?a = "bigVal (rnum l)" and ?b = "bigVal (rden l)" and ?c = "bigVal (rnum r)" and ?e = "bigVal (rden r)"
  have "rationalCompare l r = sgn (?a * ?e - ?c * ?b)"
    using d by (simp add: rationalCompare_def compareB_spec big.mul_ok big.mul_val)
  moreover have "ratVal l - ratVal r = of_int (?a * ?e - ?c * ?b) / of_int (?b * ?e)"
    using d by (simp add: ratVal_def diff_frac_eq)
  moreover have "0 < ?b * ?e" using d by simp
  ultimately show ?thesis by (simp only: sgn_of_int_divide)
qed

lemma rational_integral_iff:
  assumes "rat_ok r" shows "rationalIntegral r \<longleftrightarrow> ratVal r \<in> \<int>"
proof
  note d = rat_okD [OF assms]
  show "rationalIntegral r \<Longrightarrow> ratVal r \<in> \<int>"
    using d by (simp add: rationalIntegral_def isOne_iff ratVal_def)
  assume "ratVal r \<in> \<int>"
  then obtain k where "of_int (bigVal (rnum r)) / of_int (bigVal (rden r)) = (of_int k :: rat)"
    by (auto simp: ratVal_def Ints_def)
  then have "of_int (bigVal (rnum r)) = (of_int (k * bigVal (rden r)) :: rat)"
    using d by (simp add: field_simps)
  then have "bigVal (rnum r) = k * bigVal (rden r)" by (simp only: of_int_eq_iff)
  then have "bigVal (rden r) dvd bigVal (rnum r)" by simp
  then have "is_unit (bigVal (rden r))"
    using assms by (metis rat_ok_def coprime_common_divisor dvd_refl)
  then show "rationalIntegral r" using d by (simp add: rationalIntegral_def isOne_iff)
qed

lemma Rational_default_ok [simp]: "rat_ok Rational_default" "ratVal Rational_default = 0"
  by (simp_all add: Rational_default_def rat_ok_def ratVal_def)

lemma integer_rat_ok [simp]:
  "big_ok x \<Longrightarrow> rat_ok \<lparr>rnum = x, rden = BigInt_of 1\<rparr>"
  "ratVal \<lparr>rnum = x, rden = BigInt_of 1\<rparr> = of_int (bigVal x)"
  by (simp_all add: rat_ok_def ratVal_def)

lemma valRe_mk [simp]: "valRe (mkValue k (realRep r z)) = ratVal r"
  "valIm (mkValue k (realRep r z)) = 0"
  "valRe (mkValue k (complexRep r i)) = ratVal r" "valIm (mkValue k (complexRep r i)) = ratVal i"
  "kind (mkValue k r') = k"
  by (simp_all add: valRe_def valIm_def mkValue_def realRep_def complexRep_def)

lemma rep_mk [simp]: "rational (realRep r z) = r" "imaginary (realRep r z) = Rational_default"
  "rational (complexRep r i) = r" "imaginary (complexRep r i) = i" "rep (mkValue k p) = p"
  "negativeZero (realRep r z) = z"
  by (simp_all add: realRep_def complexRep_def mkValue_def)

lemma hasIm_mk [simp]: "hasImaginaryPart (mkValue k r) \<longleftrightarrow> k = Imaginary \<or> k = Complex"
  by (simp add: hasImaginaryPart_def)

lemma value_ok_real:
  "rat_ok r \<Longrightarrow> k \<in> {Integer, Float} \<Longrightarrow> (k = Integer \<longrightarrow> ratVal r \<in> \<int>) \<Longrightarrow> value_ok (mkValue k (realRep r z))"
  by (auto simp: value_ok_def)

lemma value_ok_complex: "rat_ok r \<Longrightarrow> rat_ok i \<Longrightarrow> value_ok (mkValue Complex (complexRep r i))"
  by (auto simp: value_ok_def)

lemma value_okD: "value_ok v \<Longrightarrow> rat_ok (rational (rep v))" "value_ok v \<Longrightarrow> rat_ok (imaginary (rep v))"
  "value_ok v \<Longrightarrow> kind v = Integer \<Longrightarrow> valRe v \<in> \<int>" "value_ok v \<Longrightarrow> \<not> hasImaginaryPart v \<Longrightarrow> valIm v = 0"
  by (auto simp: value_ok_def)

lemma value_okD_big:
  assumes "value_ok v"
  shows "big_ok (rnum (rational (rep v)))" "big_ok (rden (rational (rep v)))"
    "big_ok (rnum (imaginary (rep v)))"
  using value_okD(1,2) [OF assms] rat_okD by auto

lemma rnum_zero_iff: "rat_ok r \<Longrightarrow> isZero (rnum r) \<longleftrightarrow> ratVal r = 0"
  using rat_okD [of r] by (simp add: isZero_iff ratVal_zero_iff)

lemma Value_add_exact:
  assumes "value_ok l" "value_ok r"
  shows "\<exists>v. Value_add l r = Some v \<and> value_ok v \<and> valRe v = valRe l + valRe r \<and> valIm v = valIm l + valIm r"
proof -
  note d = value_okD [OF assms(1)] value_okD [OF assms(2)]
  have re: "rat_ok (rationalAdd (rational (rep l)) (rational (rep r)))"
    "ratVal (rationalAdd (rational (rep l)) (rational (rep r))) = valRe l + valRe r"
    using d by (simp_all add: rationalAdd_spec valRe_def)
  have im: "rat_ok (rationalAdd (imaginary (rep l)) (imaginary (rep r)))"
    "ratVal (rationalAdd (imaginary (rep l)) (imaginary (rep r))) = valIm l + valIm r"
    using d by (simp_all add: rationalAdd_spec valIm_def)
  show ?thesis
  proof (cases "hasImaginaryPart l \<or> hasImaginaryPart r")
    case True then show ?thesis using re im by (simp add: Value_add_def value_ok_complex)
  next
    case False
    then have "value_ok (mkValue (foldedKind l r False) (realRep (rationalAdd (rational (rep l)) (rational (rep r))) False))"
      using re d by (intro value_ok_real) (auto simp: foldedKind_def)
    then show ?thesis using re d(4) d(8) False by (simp add: Value_add_def)
  qed
qed

lemma Value_sub_exact:
  assumes "value_ok l" "value_ok r"
  shows "\<exists>v. Value_sub l r = Some v \<and> value_ok v \<and> valRe v = valRe l - valRe r \<and> valIm v = valIm l - valIm r"
proof -
  note d = value_okD [OF assms(1)] value_okD [OF assms(2)]
  have re: "rat_ok (rationalSub (rational (rep l)) (rational (rep r)))"
    "ratVal (rationalSub (rational (rep l)) (rational (rep r))) = valRe l - valRe r"
    using d by (simp_all add: rationalSub_spec valRe_def)
  have im: "rat_ok (rationalSub (imaginary (rep l)) (imaginary (rep r)))"
    "ratVal (rationalSub (imaginary (rep l)) (imaginary (rep r))) = valIm l - valIm r"
    using d by (simp_all add: rationalSub_spec valIm_def)
  show ?thesis
  proof (cases "hasImaginaryPart l \<or> hasImaginaryPart r")
    case True then show ?thesis using re im by (simp add: Value_sub_def value_ok_complex)
  next
    case False
    then have "value_ok (mkValue (foldedKind l r False) (realRep (rationalSub (rational (rep l)) (rational (rep r))) False))"
      using re d by (intro value_ok_real) (auto simp: foldedKind_def)
    then show ?thesis using re d(4) d(8) False by (simp add: Value_sub_def)
  qed
qed

lemma Value_mul_exact:
  assumes "value_ok l" "value_ok r" and some: "Value_mul l r = Some v"
  shows "value_ok v" "valRe v = valRe l * valRe r - valIm l * valIm r"
    "valIm v = valRe l * valIm r + valIm l * valRe r"
proof -
  note d = value_okD [OF assms(1)] value_okD [OF assms(2)]
  note re = frac.cross_sub [OF d(1) d(5) d(2) d(6)] and im = frac.cross_add [OF d(1) d(6) d(2) d(5)]
    and m = frac.mul_ok [OF d(1) d(5)] frac.mul_val [OF d(1) d(5)]
  have "value_ok v \<and> valRe v = valRe l * valRe r - valIm l * valIm r \<and>
      valIm v = valRe l * valIm r + valIm l * valRe r"
  proof (cases "hasImaginaryPart l \<or> hasImaginaryPart r")
    case True
    then show ?thesis using some re im
      by (auto simp: Value_mul_def Let_def value_ok_complex valRe_def [of l] valRe_def [of r]
          valIm_def [of l] valIm_def [of r] split: if_splits)
  next
    case False
    then have "v = mkValue (foldedKind l r False) (realRep (rationalMul (rational (rep l)) (rational (rep r))) False)"
      using some by (auto simp: Value_mul_def Let_def split: if_splits)
    moreover have "value_ok \<dots>" using m d by (intro value_ok_real) (auto simp: foldedKind_def valRe_def)
    ultimately show ?thesis using m d(4) d(8) False by (simp add: valRe_def [of l] valRe_def [of r])
  qed
  then show "value_ok v" "valRe v = valRe l * valRe r - valIm l * valIm r"
    "valIm v = valRe l * valIm r + valIm l * valRe r" by auto
qed

lemma int_of_rat:
  assumes "value_ok v" "kind v = Integer"
  shows "valRe v = of_int (bigVal (rnum (rational (rep v))))"
proof -
  have "rationalIntegral (rational (rep v))"
    using assms by (simp add: value_ok_def rational_integral_iff valRe_def)
  then show ?thesis
    using value_okD_big [OF assms(1)] by (simp add: rationalIntegral_def isOne_iff valRe_def ratVal_def)
qed

lemma Value_intdiv_exact:
  assumes "value_ok l" "value_ok r" "kind l = Integer" "kind r = Integer"
    and "valRe l = of_int a" "valRe r = of_int b" "b \<noteq> 0"
  shows "\<exists>v. Value_div l r = Some v \<and> value_ok v \<and> kind v = Integer \<and> valRe v = of_int (a sdiv b)"
    and "\<exists>v. Value_mod l r = Some v \<and> value_ok v \<and> kind v = Integer \<and> valRe v = of_int (a smod b)"
proof -
  let ?x = "rnum (rational (rep l))" and ?y = "rnum (rational (rep r))"
  have ab: "bigVal ?x = a" "bigVal ?y = b"
    using int_of_rat [OF assms(1,3)] int_of_rat [OF assms(2,4)] assms by simp_all
  have ok: "big_ok ?x" "big_ok ?y" using value_okD_big assms by auto
  have nz: "\<not> isZero ?y" using ok ab assms by (simp add: isZero_iff)
  note dm = divMod_spec [OF ok, unfolded ab, OF assms(7)]
  have im: "\<not> hasImaginaryPart l" "\<not> hasImaginaryPart r" using assms by (auto simp: hasImaginaryPart_def)
  show "\<exists>v. Value_div l r = Some v \<and> value_ok v \<and> kind v = Integer \<and> valRe v = of_int (a sdiv b)"
    using nz im assms(3,4) dm by (auto simp: Value_div_def Let_def intro!: value_ok_real)
  show "\<exists>v. Value_mod l r = Some v \<and> value_ok v \<and> kind v = Integer \<and> valRe v = of_int (a smod b)"
    using nz im assms(3,4) dm by (auto simp: Value_mod_def Let_def intro!: value_ok_real)
qed

lemma Value_div_exact:
  assumes "value_ok l" "value_ok r" "\<not> (kind l = Integer \<and> kind r = Integer)"
    and nz: "valRe r * valRe r + valIm r * valIm r \<noteq> 0"
  shows "\<exists>v. Value_div l r = Some v \<and> value_ok v \<and>
     valRe v = (valRe l * valRe r + valIm l * valIm r) / (valRe r * valRe r + valIm r * valIm r) \<and>
     valIm v = (valIm l * valRe r - valRe l * valIm r) / (valRe r * valRe r + valIm r * valIm r)"
proof -
  note d = value_okD [OF assms(1)] value_okD [OF assms(2)]
  let ?a = "rational (rep l)" and ?b = "rational (rep r)" and ?c = "imaginary (rep l)" and ?d = "imaginary (rep r)"
  show ?thesis
  proof (cases "hasImaginaryPart l \<or> hasImaginaryPart r")
    case True
    let ?n = "rationalAdd (rationalMul ?b ?b) (rationalMul ?d ?d)"
    note den = frac.cross_add [OF d(5) d(5) d(6) d(6)]
    note re = frac.cross_add [OF d(1) d(5) d(2) d(6)] and im = frac.cross_sub [OF d(2) d(5) d(1) d(6)]
    have dnz: "ratVal ?n \<noteq> 0" using nz den by (simp add: valRe_def valIm_def)
    obtain q1 where q1: "rationalDiv (rationalAdd (rationalMul ?a ?b) (rationalMul ?c ?d)) ?n = Some q1"
      "rat_ok q1" "ratVal q1 = (ratVal ?a * ratVal ?b + ratVal ?c * ratVal ?d) / ratVal ?n"
      using rationalDiv_spec(2) [OF re(1) den(1) dnz] re(2) by auto
    obtain q2 where q2: "rationalDiv (rationalSub (rationalMul ?c ?b) (rationalMul ?a ?d)) ?n = Some q2"
      "rat_ok q2" "ratVal q2 = (ratVal ?c * ratVal ?b - ratVal ?a * ratVal ?d) / ratVal ?n"
      using rationalDiv_spec(2) [OF im(1) den(1) dnz] im(2) by auto
    have "\<not> isZero (rnum ?n)" using dnz den(1) rnum_zero_iff by blast
    then have "Value_div l r = Some (mkValue Complex (complexRep q1 q2))"
      using True q1 q2 by (simp add: Value_div_def Let_def)
    then show ?thesis using q1 q2 den by (simp add: value_ok_complex valRe_def [of l] valRe_def [of r]
          valIm_def [of l] valIm_def [of r])
  next
    case False
    then have i0: "valIm l = 0" "valIm r = 0" using d by auto
    then have bnz: "ratVal ?b \<noteq> 0" using nz by (simp add: valRe_def)
    then obtain q where q: "rationalDiv ?a ?b = Some q" "rat_ok q" "ratVal q = ratVal ?a / ratVal ?b"
      using rationalDiv_spec(2) [OF d(1) d(5)] by auto
    have "\<not> isZero (rnum ?b)" using bnz rnum_zero_iff d(5) by blast
    then have "Value_div l r = Some (mkValue Float (realRep q False))"
      using False q assms(3) by (auto simp: Value_div_def Let_def)
    then show ?thesis using q i0 bnz by (simp add: value_ok_real valRe_def [of l] valRe_def [of r])
  qed
qed

lemma Value_div_none:
  assumes "value_ok l" "value_ok r" "valRe r = 0" "valIm r = 0"
  shows "Value_div l r = None"
proof -
  note d = value_okD [OF assms(1)] value_okD [OF assms(2)]
  have z: "isZero (rnum (rational (rep r)))" using assms d(5) by (simp add: rnum_zero_iff valRe_def)
  note den = frac.cross_add [OF d(5) d(5) d(6) d(6)]
  then have "isZero (rnum (rationalAdd (rationalMul (rational (rep r)) (rational (rep r)))
      (rationalMul (imaginary (rep r)) (imaginary (rep r)))))"
    using assms by (simp add: rnum_zero_iff valRe_def valIm_def)
  with z show ?thesis by (simp add: Value_div_def Let_def)
qed

lemma Value_compare_exact:
  assumes "value_ok l" "value_ok r"
  shows "of_int (Value_compare l r) =
    (if valRe l \<noteq> valRe r then sgn (valRe l - valRe r)
     else if hasImaginaryPart l \<or> hasImaginaryPart r then sgn (valIm l - valIm r) else 0)"
proof -
  note d = value_okD [OF assms(1)] value_okD [OF assms(2)]
  have re: "of_int (rationalCompare (rational (rep l)) (rational (rep r))) = sgn (valRe l - valRe r)"
    using rationalCompare_spec d by (simp add: valRe_def)
  have im: "of_int (rationalCompare (imaginary (rep l)) (imaginary (rep r))) = sgn (valIm l - valIm r)"
    using rationalCompare_spec d by (simp add: valIm_def)
  have "rationalCompare (rational (rep l)) (rational (rep r)) = 0 \<longleftrightarrow> valRe l = valRe r"
    using re by (metis of_int_eq_0_iff right_minus_eq sgn_0_0)
  then show ?thesis using re im by (simp add: Value_compare_def Let_def)
qed

lemma asInt64_spec:
  assumes "value_ok v"
  shows "asInt64 v = (if kind v = Integer \<and> in_int64 \<lfloor>valRe v\<rfloor> then Some (word_of_int \<lfloor>valRe v\<rfloor>) else None)"
proof -
  note b = value_okD_big [OF assms] and d = value_okD [OF assms]
  show ?thesis
  proof (cases "kind v = Integer")
    case False then show ?thesis by (simp add: asInt64_def)
  next
    case True
    let ?x = "rnum (rational (rep v))"
    have i: "rationalIntegral (rational (rep v))" using True d rational_integral_iff by (simp add: valRe_def)
    have v: "\<lfloor>valRe v\<rfloor> = bigVal ?x" using int_of_rat [OF assms True] by simp
    have "fitsInt64 ?x \<Longrightarrow> toInt64 ?x = word_of_int (bigVal ?x)"
      by (simp flip: toInt64_val [OF b(1)])
    then show ?thesis
      using True i fitsInt64_iff [OF b(1)] by (simp add: asInt64_def v)
  qed
qed

lemma five_sint [simp]: "sint (5 :: 64 word) = 5" "sint (10 :: 64 word) = 10" "sint (2 :: 64 word) = 2"
  by simp_all

lemma fiveDivides_iff:
  assumes "big_ok x" "0 < bigVal x"
  shows "fiveDivides x m \<longleftrightarrow> 5 ^ m dvd bigVal x"
proof -
  let ?p = "powerOfLimb 5 m"
  have p: "big_ok ?p" "bigVal ?p = 5 ^ m" by (simp_all add: powerOfLimb_spec)
  have dm: "big_ok (snd (divMod x ?p))" "bigVal (snd (divMod x ?p)) = bigVal x smod 5 ^ m"
    using divMod_spec [OF assms(1) p(1)] p by simp_all
  have "bigVal x smod 5 ^ m = bigVal x mod 5 ^ m" using assms by (simp add: smod_int_alt_def sgn_if)
  then have z: "isZero (snd (divMod x ?p)) \<longleftrightarrow> 5 ^ m dvd bigVal x"
    using dm by (simp add: isZero_iff dvd_eq_mod_eq_0)
  have "5 ^ m dvd bigVal x \<Longrightarrow> bitsB ?p \<le> bitsB x"
    using assms p zdvd_imp_le [of "5 ^ m" "bigVal x"] by (intro bitsB_mono) auto
  then show ?thesis using z by (auto simp: fiveDivides_def Let_def)
qed

lemma fiveSearch_spec:
  assumes "big_ok x" "0 < bigVal x"
  shows "low \<le> high \<Longrightarrow> 5 ^ low dvd bigVal x \<Longrightarrow>
    low \<le> fiveSearch x low high \<and> 5 ^ fiveSearch x low high dvd bigVal x \<and>
    (\<forall>k \<le> high. 5 ^ k dvd bigVal x \<longrightarrow> k \<le> fiveSearch x low high)"
  using assms
proof (induction x low high rule: fiveSearch.induct)
  case (1 x low high)
  let ?m = "low + (high - low + 1) div 2"
  show ?case
  proof (cases "low < high")
    case False
    then show ?thesis using 1 by (subst (1 2 3) fiveSearch.simps) auto
  next
    case True
    then have m: "low < ?m" "?m \<le> high" by auto
    note dv = fiveDivides_iff [OF 1(5,6), of ?m]
    show ?thesis
    proof (cases "fiveDivides x ?m")
      case t: True
      then have "fiveSearch x low high = fiveSearch x ?m high"
        using True by (subst fiveSearch.simps) (simp add: Let_def)
      then show ?thesis using 1(1) [OF True refl t m(2)] dv t 1(5,6) m by auto
    next
      case f: False
      then have e: "fiveSearch x low high = fiveSearch x low (?m - 1)"
        using True by (subst fiveSearch.simps) (simp add: Let_def)
      have "k \<le> ?m - 1" if "5 ^ k dvd bigVal x" for k
      proof (rule ccontr)
        assume "\<not> k \<le> ?m - 1"
        then have "?m \<le> k" by simp
        then have "(5 :: int) ^ ?m dvd 5 ^ k" by (rule le_imp_power_dvd)
        with that f dv show False using dvd_trans by blast
      qed
      then show ?thesis using 1(2) [OF True refl f] 1(4-6) m e by auto
    qed
  qed
qed

lemma integerExponent_spec:
  assumes "rat_ok e"
  shows "integerExponent e = Some p \<longleftrightarrow> ratVal e = of_nat p \<and> p < 2 ^ 63"
proof -
  note d = rat_okD [OF assms]
  let ?n = "bigVal (rnum e)"
  have i: "isOne (rden e) \<longleftrightarrow> ratVal e \<in> \<int>"
    using rational_integral_iff [OF assms] by (simp add: rationalIntegral_def)
  have v: "isOne (rden e) \<Longrightarrow> ratVal e = of_int ?n" using d by (simp add: isOne_iff ratVal_def)
  have u: "unat (toInt64 (rnum e)) = nat ?n" if "in_int64 ?n" "0 \<le> ?n"
  proof -
    have "sint (toInt64 (rnum e)) = ?n" using that toInt64_val [OF d(1)] fitsInt64_iff [OF d(1)] by simp
    then show ?thesis using that uint_of_sint64 [of "toInt64 (rnum e)"] by (simp flip: nat_uint_eq)
  qed
  have s: "sint (toInt64 (rnum e)) = ?n" if "in_int64 ?n"
    using that toInt64_val [OF d(1)] fitsInt64_iff [OF d(1)] by simp
  have "integerExponent e =
      (if isOne (rden e) \<and> 0 \<le> ?n \<and> in_int64 ?n then Some (nat ?n) else None)"
    using u s by (auto simp: integerExponent_def Let_def isNegative_iff [OF d(1)] fitsInt64_iff [OF d(1)])
  also have "\<dots> = Some p \<longleftrightarrow> isOne (rden e) \<and> ?n = int p \<and> p < 2 ^ 63"
    by (auto simp: in_int64_def int64_min_def int64_max_def)
  also have "\<dots> \<longleftrightarrow> ratVal e = of_nat p \<and> p < 2 ^ 63"
  proof -
    have "isOne (rden e) \<and> ?n = int p \<longleftrightarrow> ratVal e = of_nat p"
      using v i by (metis Ints_of_nat of_int_eq_iff of_int_of_nat_eq)
    then show ?thesis by blast
  qed
  finally show ?thesis .
qed

lemma power_rat_ok:
  assumes "rat_ok b"
  shows "rat_ok (makeRational (powerOf (rnum b) p) (powerOf (rden b) p))"
    "ratVal (makeRational (powerOf (rnum b) p) (powerOf (rden b) p)) = ratVal b ^ p"
proof -
  note d = rat_okD [OF assms]
  note s = makeRational_spec [of "powerOf (rnum b) p" "powerOf (rden b) p"]
  show "rat_ok (makeRational (powerOf (rnum b) p) (powerOf (rden b) p))"
    using s d by (simp add: powerOf_spec)
  show "ratVal (makeRational (powerOf (rnum b) p) (powerOf (rden b) p)) = ratVal b ^ p"
    using s d by (simp add: powerOf_spec ratVal_def power_divide)
qed

lemma Value_pow_exact:
  assumes "value_ok b" "value_ok e" and some: "Value_pow b e = Some v"
  shows "value_ok v" "valIm v = 0" "\<exists>p. p \<le> 4096 \<and> valRe e = of_nat p \<and> valRe v = valRe b ^ p"
proof -
  note d = value_okD [OF assms(1)] value_okD [OF assms(2)]
  obtain p where p: "integerExponent (rational (rep e)) = Some p" "p \<le> 4096"
    using some by (auto simp: Value_pow_def Let_def split: if_splits option.splits)
  have ep: "valRe e = of_nat p" using p integerExponent_spec [OF d(5)] by (simp add: valRe_def)
  let ?r = "makeRational (powerOf (rnum (rational (rep b))) p) (powerOf (rden (rational (rep b))) p)"
  let ?k = "if kind b = Integer \<and> kind e = Integer then Integer else Float"
  note pw = power_rat_ok [OF d(1), of p]
  have "value_ok v \<and> valIm v = 0 \<and> valRe v = valRe b ^ p"
  proof (cases "p = 0 \<or> isZero (rnum (rational (rep b)))")
    case True
    have z: "isZero (rnum (rational (rep b))) \<longleftrightarrow> valRe b = 0" using rnum_zero_iff [OF d(1)] by (simp add: valRe_def)
    have "v = mkValue ?k (realRep \<lparr>rnum = BigInt_of 1, rden = BigInt_of 1\<rparr> False) \<and> p = 0 \<or>
        v = Value_fromInt64 0 \<and> p \<noteq> 0 \<and> valRe b = 0"
      using some p True z by (auto simp: Value_pow_def Let_def split: if_splits)
    then show ?thesis
      by (elim disjE) (simp_all add: value_ok_real Value_fromInt64_def)
  next
    case False
    then have v: "v = mkValue ?k (realRep ?r False)"
      using some p by (auto simp: Value_pow_def Let_def split: if_splits)
    have "value_ok v" unfolding v
    proof (rule value_ok_real)
      show "?k = Integer \<longrightarrow> ratVal ?r \<in> \<int>" using d(3) pw(2) by (auto simp: valRe_def)
    qed (use pw in auto)
    then show ?thesis using v pw by (simp add: valRe_def [of b])
  qed
  then show "value_ok v" "valIm v = 0" "\<exists>p. p \<le> 4096 \<and> valRe e = of_nat p \<and> valRe v = valRe b ^ p"
    using p ep by auto
qed

lemma Value_pow_defined:
  assumes "value_ok b" "value_ok e" "\<not> hasImaginaryPart b" "\<not> hasImaginaryPart e"
    and "valRe e = of_nat p" "p \<le> 4096"
  shows "Value_pow b e \<noteq> None \<longleftrightarrow>
    p = 0 \<or> valRe b = 0 \<or> bitsB (rnum (rational (rep b))) * p \<le> kMaxBits"
proof -
  have "integerExponent (rational (rep e)) = Some p"
    using assms integerExponent_spec [OF value_okD(1) [OF assms(2)]] by (simp add: valRe_def)
  moreover have "isZero (rnum (rational (rep b))) \<longleftrightarrow> valRe b = 0"
    using rnum_zero_iff [OF value_okD(1) [OF assms(1)]] by (simp add: valRe_def)
  ultimately show ?thesis using assms by (auto simp: Value_pow_def Let_def)
qed

lemma Value_pow_zero_base:
  assumes "value_ok b" "value_ok e" "\<not> hasImaginaryPart b" "\<not> hasImaginaryPart e"
    and "valRe e = of_nat p" "0 < p" "p \<le> 4096" "valRe b = 0"
  shows "Value_pow b e = Some (Value_fromInt64 0)"
proof -
  have "integerExponent (rational (rep e)) = Some p"
    using assms integerExponent_spec [OF value_okD(1) [OF assms(2)]] by (simp add: valRe_def)
  moreover have "isZero (rnum (rational (rep b)))"
    using assms rnum_zero_iff [OF value_okD(1) [OF assms(1)]] by (simp add: valRe_def)
  ultimately show ?thesis using assms by (simp add: Value_pow_def Let_def)
qed

lemma negated_rat:
  assumes "rat_ok r" shows "rat_ok (r\<lparr>rnum := negated (rnum r)\<rparr>)" "ratVal (r\<lparr>rnum := negated (rnum r)\<rparr>) = - ratVal r"
  using assms by (auto simp: rat_ok_def ratVal_def negated_spec)

lemma Value_negate_exact:
  assumes "value_ok v"
  shows "\<exists>w. Value_negate v = Some w \<and> value_ok w \<and> kind w = kind v \<and> valRe w = - valRe v \<and> valIm w = - valIm v"
proof -
  note d = value_okD [OF assms]
  define neg where "neg = (\<lambda>r :: Rational. if isZero (rnum r) then r else r\<lparr>rnum := negated (rnum r)\<rparr>)"
  have n: "rat_ok (neg r) \<and> ratVal (neg r) = - ratVal r" if "rat_ok r" for r
    using that negated_rat [OF that] rnum_zero_iff [OF that] by (simp add: neg_def)
  let ?re = "rational (rep v)" and ?im = "imaginary (rep v)"
  show ?thesis
  proof (cases "hasImaginaryPart v")
    case True
    then obtain z1 z2 where w: "Value_negate v = Some (mkValue (kind v)
        \<lparr>rational = neg ?re, negativeZero = z1, imaginary = neg ?im, imaginaryNegativeZero = z2\<rparr>)"
      by (simp add: Value_negate_def Let_def neg_def)
    then show ?thesis using n [OF d(1)] n [OF d(2)] assms True
      by (simp add: value_ok_def valRe_def valIm_def mkValue_def hasImaginaryPart_def)
  next
    case False
    then have w: "Value_negate v = Some (mkValue (kind v) (realRep (neg ?re) False))"
      by (simp add: Value_negate_def Let_def neg_def)
    have "value_ok (mkValue (kind v) (realRep (neg ?re) False))"
    proof (rule value_ok_real)
      show "kind v \<in> {Integer, Float}" using False by (cases "kind v") (auto simp: hasImaginaryPart_def)
    qed (use n [OF d(1)] d(3) in \<open>auto simp: valRe_def\<close>)
    then show ?thesis using w n [OF d(1)] False d(4) by (simp add: valRe_def)
  qed
qed

text \<open>Reading an integer literal.\<close>

lemma stripSign_split: "stripSign s = (b, t) \<Longrightarrow> s = t \<and> \<not> b \<or> s = CHR ''+'' # t \<and> \<not> b \<or> s = CHR ''-'' # t \<and> b"
  by (auto simp: stripSign_def split: list.splits if_splits)

lemma radixOf_range: "radixOf s = (r, t) \<Longrightarrow> r \<in> {2, 8, 10, 16}"
  by (auto simp: radixOf_def split: if_splits)

lemma fromDigits_iff:
  assumes "2 \<le> radix" "radix \<le> 16"
  shows "fromDigits s radix \<noteq> None \<longleftrightarrow> s \<noteq> [] \<and> (\<forall>c \<in> set s. 0 \<le> digitOf c \<and> digitOf c < radix)"
    and "fromDigits s radix = Some x \<Longrightarrow> big_ok x \<and> bigVal x = digitsVal radix s 0"
proof -
  note sp = fromDigitsLoop_spec [OF assms, of BigInt_zero s] and nn = fromDigitsLoop_None [of s radix BigInt_zero]
  show e: "fromDigits s radix \<noteq> None \<longleftrightarrow> s \<noteq> [] \<and> (\<forall>c \<in> set s. 0 \<le> digitOf c \<and> digitOf c < radix)"
  proof (cases "\<forall>c \<in> set s. 0 \<le> digitOf c \<and> digitOf c < radix")
    case True
    then show ?thesis using sp by (auto simp: fromDigits_def)
  next
    case False
    then have "\<exists>c \<in> set s. digitOf c < 0 \<or> radix \<le> digitOf c" by (meson not_less)
    then show ?thesis using nn False by (simp add: fromDigits_def)
  qed
  assume s: "fromDigits s radix = Some x"
  then show "big_ok x \<and> bigVal x = digitsVal radix s 0"
    using e sp by (auto simp: fromDigits_def split: if_splits)
qed

lemma fromIntegerText_val:
  assumes "stripSign s = (neg, t)" "radixOf t = (radix, ds)"
  shows "fromIntegerText s \<noteq> None \<longleftrightarrow> ds \<noteq> [] \<and> (\<forall>c \<in> set ds. 0 \<le> digitOf c \<and> digitOf c < radix)"
    and "fromIntegerText s = Some v \<Longrightarrow> value_ok v \<and> kind v = Integer \<and>
      valRe v = of_int (if neg then - digitsVal radix ds 0 else digitsVal radix ds 0)"
proof -
  have r: "2 \<le> radix" "radix \<le> 16" using radixOf_range [OF assms(2)] by auto
  note fd = fromDigits_iff [OF r, of ds]
  have eq: "fromIntegerText s = map_option (\<lambda>m. mkValue Integer
      (realRep \<lparr>rnum = (if neg then negated m else m), rden = BigInt_of 1\<rparr> False)) (fromDigits ds radix)"
    using assms by (auto simp: fromIntegerText_def fromDigits_def split: option.split)
  show "fromIntegerText s \<noteq> None \<longleftrightarrow> ds \<noteq> [] \<and> (\<forall>c \<in> set ds. 0 \<le> digitOf c \<and> digitOf c < radix)"
    using fd(1) eq by auto
  show "fromIntegerText s = Some v \<Longrightarrow> value_ok v \<and> kind v = Integer \<and>
      valRe v = of_int (if neg then - digitsVal radix ds 0 else digitsVal radix ds 0)"
    using fd(2) eq by (auto simp: negated_spec intro!: value_ok_real)
qed

lemma isDigitChar_iff: "isDigitChar c \<longleftrightarrow> 0 \<le> digitOf c \<and> digitOf c < 10"
  by (auto simp: isDigitChar_def digitOf_def Let_def)

lemma scanMantissa_digits:
  "(\<forall>c \<in> set ds. isDigitChar c) \<Longrightarrow>
   scanMantissa (ds @ t) seen acc n = scanMantissa t seen (acc @ ds) (if seen then n + length ds else n)"
  by (induction ds arbitrary: acc n) auto

lemma scanMantissa_stop: "t = [] \<or> hd t \<in> {CHR ''e'', CHR ''E''} \<Longrightarrow> scanMantissa t seen acc n = (acc, n, t)"
  by (cases t) (auto simp: isDigitChar_def)

lemma scanMantissa_decimal:
  assumes "\<forall>c \<in> set (ip @ fp). isDigitChar c" "fp \<noteq> [] \<longrightarrow> point"
    and "t = [] \<or> hd t \<in> {CHR ''e'', CHR ''E''}"
  shows "scanMantissa (ip @ decimalPoint point @ fp @ t) False [] 0 = (ip @ fp, length fp, t)"
  using assms by (cases point)
    (auto simp: scanMantissa_digits scanMantissa_stop decimalPoint_def isDigitChar_def [of "CHR ''.''"])

lemma digitsVal_shift: "digitsVal r s a = a * r ^ length s + digitsVal r s 0"
proof (induction s arbitrary: a)
  case (Cons c cs)
  have "digitsVal r (c # cs) a = digitsVal r cs (a * r + digitOf c)" "digitsVal r (c # cs) 0 = digitsVal r cs (digitOf c)"
    by (simp_all add: digitsVal_def)
  then show ?case using Cons [of "a * r + digitOf c"] Cons [of "digitOf c"] by (simp add: algebra_simps)
qed (simp add: digitsVal_def)

lemma scanExponent_val:
  "\<forall>c \<in> set ds. isDigitChar c \<Longrightarrow> 0 \<le> a \<Longrightarrow> digitsVal 10 ds a \<le> 1000000 \<Longrightarrow> ds \<noteq> [] \<or> anyd \<Longrightarrow>
   scanExponent ds a anyd = Some (digitsVal 10 ds a)"
proof (induction ds arbitrary: a anyd)
  case (Cons c cs)
  have c: "isDigitChar c" "int (of_char c - 48) = digitOf c" "0 \<le> digitOf c"
    using Cons.prems by (auto simp: isDigitChar_def digitOf_def)
  have v: "digitsVal 10 (c # cs) a = digitsVal 10 cs (a * 10 + digitOf c)" by (simp add: digitsVal_def)
  have nn: "0 \<le> digitsVal 10 cs 0" if "\<forall>c \<in> set cs. isDigitChar c" for cs
    using that by (induction cs rule: rev_induct) (auto simp: digitsVal_append digitsVal_def [of 10 "[_]"] digitsVal_def [of 10 "[]"] isDigitChar_iff)
  have "(1 :: int) \<le> 10 ^ length (c # cs)" by (rule one_le_power) simp
  then have "a * 1 \<le> a * 10 ^ length (c # cs)" using Cons.prems(2) by (intro mult_left_mono)
  then have "a \<le> 1000000" using Cons.prems(3) nn [OF Cons.prems(1)] digitsVal_shift [of 10 "c # cs" a] by simp
  then show ?case using Cons.IH [of "a * 10 + digitOf c" True] Cons.prems c v by simp
qed (auto simp: digitsVal_def)

lemma scaledRational_spec:
  assumes "big_ok m" "\<bar>k\<bar> \<le> 8192"
  shows "\<exists>r. scaledRational m k = Some r \<and> rat_ok r \<and> ratVal r = of_int (bigVal m) * 10 powi (- k)"
proof (cases "k > 0")
  case True
  note s = makeRational_spec [OF assms(1), of "powerOfLimb 10 (nat k)"]
  have "(10 :: rat) powi (- k) = 1 / 10 ^ nat k" using True by (simp add: power_int_def inverse_eq_divide power_one_over)
  then show ?thesis using True assms s by (simp add: scaledRational_def powerOfLimb_spec)
next
  case False
  let ?m = "mulB m (powerOfLimb 10 (nat (- k)))"
  have m: "big_ok ?m" "bigVal ?m = bigVal m * 10 ^ nat (- k)"
    using assms by (simp_all add: mulB_spec powerOfLimb_spec)
  have "(10 :: rat) powi (- k) = 10 ^ nat (- k)" using False by (simp add: power_int_def)
  then show ?thesis using False assms makeRational_spec [OF m(1), of "BigInt_of 1"] m by (simp add: scaledRational_def)
qed

lemma stripSign_signText: "t \<noteq> [] \<Longrightarrow> hd t \<notin> {CHR ''+'', CHR ''-''} \<Longrightarrow> stripSign (signText neg @ t) = (neg, t)"
  by (cases t) (auto simp: stripSign_def signText_def)

lemma fromRealText_decimal:
  assumes dig: "\<forall>c \<in> set (ip @ fp). isDigitChar c" and ne: "ip @ fp \<noteq> []" and pt: "fp \<noteq> [] \<longrightarrow> point"
    and tail: "t = [] \<or> hd t \<in> {CHR ''e'', CHR ''E''}" "exponentPart t = Some (ex, [])"
    and scale: "\<bar>int (length fp) - ex\<bar> \<le> 8192"
  shows "\<exists>v. fromRealText (signText neg @ ip @ decimalPoint point @ fp @ t) = Some v \<and> value_ok v \<and> kind v = Float \<and>
    valRe v = (if neg then - 1 else 1) * of_int (digitsVal 10 (ip @ fp) 0) * 10 powi (ex - int (length fp)) \<and>
    (negativeZero (rep v) \<longleftrightarrow> neg \<and> digitsVal 10 (ip @ fp) 0 = 0)"
proof -
  let ?body = "ip @ decimalPoint point @ fp @ t"
  have b0: "?body \<noteq> []" using ne by auto
  moreover have "hd ?body \<notin> {CHR ''+'', CHR ''-''}"
    using dig ne pt by (cases ip; cases fp) (auto simp: isDigitChar_def decimalPoint_def)
  ultimately have sgn: "stripSign (signText neg @ ?body) = (neg, ?body)" by (rule stripSign_signText)
  obtain m where m: "fromDigits (ip @ fp) 10 = Some m"
    using fromDigits_iff(1) [of 10 "ip @ fp"] dig ne by (auto simp: isDigitChar_iff)
  then have mv: "big_ok m" "bigVal m = digitsVal 10 (ip @ fp) 0" using fromDigits_iff(2) [of 10 "ip @ fp" m] by simp_all
  obtain r where r: "scaledRational m (int (length fp) - ex) = Some r" "rat_ok r"
    "ratVal r = of_int (bigVal m) * 10 powi (ex - int (length fp))"
    using scaledRational_spec [OF mv(1) scale] by auto
  let ?r = "if neg then r\<lparr>rnum := negated (rnum r)\<rparr> else r"
  have eq: "fromRealText (signText neg @ ?body) = Some (mkValue Float (realRep ?r (neg \<and> isZero (rnum ?r))))"
    using sgn scanMantissa_decimal [OF dig pt tail(1)] tail(2) ne m r(1) by (auto simp: fromRealText_def Let_def)
  have rv: "rat_ok ?r" "ratVal ?r = (if neg then - 1 else 1) * of_int (bigVal m) * 10 powi (ex - int (length fp))"
    using r negated_rat [OF r(2)] by simp_all
  have "ratVal ?r = 0 \<longleftrightarrow> bigVal m = 0" unfolding rv(2) by (simp add: power_int_eq_0_iff)
  then have "isZero (rnum ?r) \<longleftrightarrow> bigVal m = 0" using rnum_zero_iff [OF rv(1)] by simp
  then show ?thesis unfolding eq using rv mv value_ok_real [OF rv(1), of Float] by auto
qed

lemma popZeroDigits_point:
  "popZeroDigits (xs @ CHR ''.'' # fp) = xs @ CHR ''.'' # popWhile (\<lambda>c. c = CHR ''0'') fp"
proof (induction fp rule: rev_induct)
  case Nil then show ?case by (subst popZeroDigits.simps) simp
next
  case (snoc c cs)
  have "last (xs @ CHR ''.'' # cs @ [c]) = c" "butlast (xs @ CHR ''.'' # cs @ [c]) = xs @ CHR ''.'' # cs"
    by (simp_all add: butlast_append)
  then show ?case using snoc by (subst popZeroDigits.simps) auto
qed

lemma popWhile_zeros:
  "\<exists>k. fp = popWhile (\<lambda>c. c = CHR ''0'') fp @ replicate k (CHR ''0'')"
proof (induction fp rule: rev_induct)
  case (snoc c cs)
  then obtain k where "cs = popWhile (\<lambda>c. c = CHR ''0'') cs @ replicate k (CHR ''0'')" by blast
  then have "c = CHR ''0'' \<Longrightarrow> cs @ [c] = popWhile (\<lambda>c. c = CHR ''0'') (cs @ [c]) @ replicate (Suc k) (CHR ''0'')"
    by (simp add: replicate_append_same [symmetric] del: replicate_append_same replicate_Suc) (metis append_assoc replicate_Suc replicate_append_same)
  moreover have "c \<noteq> CHR ''0'' \<Longrightarrow> cs @ [c] = popWhile (\<lambda>c. c = CHR ''0'') (cs @ [c]) @ replicate 0 (CHR ''0'')" by simp
  ultimately show ?case by blast
qed simp

lemma digitsVal_zeros: "digitsVal 10 (xs @ replicate k (CHR ''0'')) a = digitsVal 10 xs a * 10 ^ k"
proof -
  have "digitsVal 10 (replicate k (CHR ''0'')) b = b * 10 ^ k" for b
    by (induction k arbitrary: b) (simp_all add: digitsVal_def digitOf_def)
  then show ?thesis by (simp add: digitsVal_append)
qed

lemma digitsVal_lead: "digitsVal 10 (replicate k (CHR ''0'') @ xs) 0 = digitsVal 10 xs 0"
  using digitsVal_zeros [of "[]" k 0] by (simp add: digitsVal_append digitsVal_def)

text \<open>The text of a scaled integer with \<open>places\<close> digits after the point, trailing zeros removed.\<close>

lemma pointed_text:
  assumes "0 < places" and pd: "padded = (if length digits \<le> places
       then replicate (places - length digits + 1) (CHR ''0'') @ digits else digits)"
    and dig: "\<forall>c \<in> set digits. isDigitChar c"
  defines "ct \<equiv> length padded - places"
  defines "trimmed \<equiv> popZeroDigits (take ct padded @ ''.'' @ drop ct padded)"
  shows "\<exists>ip fp. ip \<noteq> [] \<and> (\<forall>c \<in> set (ip @ fp). isDigitChar c) \<and> length fp \<le> places \<and>
    (if last trimmed = CHR ''.'' then butlast trimmed else trimmed) = ip @ decimalPoint (fp \<noteq> []) @ fp \<and>
    of_int (digitsVal 10 (ip @ fp) 0) / (10 :: rat) ^ length fp = of_int (digitsVal 10 digits 0) / 10 ^ places"
proof -
  let ?fp0 = "drop ct padded" and ?z = "\<lambda>c. c = CHR ''0''"
  define ip where "ip = take ct padded"
  define fp where "fp = popWhile ?z ?fp0"
  obtain k where k: "?fp0 = fp @ replicate k (CHR ''0'')" using popWhile_zeros fp_def by metis
  have len: "places < length padded" using pd by auto
  then have l0: "length ?fp0 = places" by (simp add: ct_def)
  have lk: "places = length fp + k" using l0 unfolding k by simp
  have pdig: "\<forall>c \<in> set padded. isDigitChar c" using pd dig by (auto simp: isDigitChar_def)
  have all: "\<forall>c \<in> set (ip @ fp). isDigitChar c"
  proof -
    have "set ip \<subseteq> set padded" by (simp add: ip_def set_take_subset)
    moreover have "set fp \<subseteq> set ?fp0" by (subst k) simp
    ultimately show ?thesis using pdig set_drop_subset [of ct padded] by auto
  qed
  have tr: "trimmed = ip @ CHR ''.'' # fp"
    using popZeroDigits_point [of ip ?fp0] by (simp add: trimmed_def ip_def fp_def)
  have fin: "(if last trimmed = CHR ''.'' then butlast trimmed else trimmed) = ip @ decimalPoint (fp \<noteq> []) @ fp"
  proof (cases "fp = []")
    case True then show ?thesis by (simp add: tr decimalPoint_def)
  next
    case False
    then have "isDigitChar (last fp)" using all by auto
    then have "last fp \<noteq> CHR ''.''" by (auto simp: isDigitChar_def)
    then show ?thesis using False by (simp add: tr decimalPoint_def)
  qed
  have "padded = (ip @ fp) @ replicate k (CHR ''0'')"
    using k by (metis append.assoc append_take_drop_id ip_def)
  then have "digitsVal 10 padded 0 = digitsVal 10 (ip @ fp) 0 * 10 ^ k"
    using digitsVal_zeros by metis
  moreover have "digitsVal 10 padded 0 = digitsVal 10 digits 0" using digitsVal_lead by (auto simp: pd simp del: replicate_Suc)
  ultimately have "of_int (digitsVal 10 digits 0) / (10 :: rat) ^ places = of_int (digitsVal 10 (ip @ fp) 0 * 10 ^ k) / 10 ^ (length fp + k)"
    using lk by simp
  also have "\<dots> = of_int (digitsVal 10 (ip @ fp) 0) / 10 ^ length fp" by (simp add: power_add)
  finally have v: "of_int (digitsVal 10 (ip @ fp) 0) / (10 :: rat) ^ length fp = of_int (digitsVal 10 digits 0) / 10 ^ places" ..
  have "ip \<noteq> []" using len \<open>0 < places\<close> by (auto simp: ip_def ct_def)
  then show ?thesis using all fin v lk by (intro exI [of _ ip] exI [of _ fp]) auto
qed

lemma exactDecimal_parts:
  assumes "rat_ok v" "\<not> isZero (rnum v)" "bitsB (rden v) \<le> 32768"
  defines "twos \<equiv> trailingZeroBits (rden v)"
  defines "reduced1 \<equiv> (if twos \<noteq> 0 then shiftedRight (rden v) twos else rden v)"
  defines "fives \<equiv> fiveSearch reduced1 0 (min (bitsB reduced1 div 2 + 1) 4096)"
  defines "reduced \<equiv> (if fives \<noteq> 0 then fst (divMod reduced1 (powerOfLimb 5 fives)) else reduced1)"
  shows "big_ok reduced1" "odd (bigVal reduced1)" "0 < bigVal reduced1" "bigVal (rden v) = bigVal reduced1 * 2 ^ twos"
    "big_ok reduced" "bigVal reduced1 = bigVal reduced * 5 ^ fives"
    "\<And>k. k \<le> min (bitsB reduced1 div 2 + 1) 4096 \<Longrightarrow> 5 ^ k dvd bigVal reduced1 \<Longrightarrow> k \<le> fives"
proof -
  note d = rat_okD [OF assms(1)]
  obtain q where q: "odd q" "bigVal (rden v) = q * 2 ^ twos"
    using trailingZeroBits_spec [OF d(2,3)] unfolding twos_def by blast
  have "bigVal (shiftedRight (rden v) twos) = q" "big_ok (shiftedRight (rden v) twos)"
    using shiftedRight_spec d q by auto
  then have r1: "big_ok reduced1" "bigVal reduced1 = q" using d q by (auto simp: reduced1_def)
  have qp: "0 < q" using d(3) q(2) by (metis zero_less_mult_pos2 zero_less_numeral zero_less_power)
  have qp': "0 < bigVal reduced1" using r1 qp by simp
  show "big_ok reduced1" "odd (bigVal reduced1)" "0 < bigVal reduced1" "bigVal (rden v) = bigVal reduced1 * 2 ^ twos"
    using r1 q qp by simp_all
  note fs = fiveSearch_spec [OF r1(1) qp', of 0 "min (bitsB reduced1 div 2 + 1) 4096", folded fives_def]
  then have fd: "5 ^ fives dvd bigVal reduced1" by simp
  show "\<And>k. k \<le> min (bitsB reduced1 div 2 + 1) 4096 \<Longrightarrow> 5 ^ k dvd bigVal reduced1 \<Longrightarrow> k \<le> fives" using fs by simp
  note dm = divMod_spec [OF r1(1) powerOfLimb_spec(1) [of 5 fives]]
  show "big_ok reduced" "bigVal reduced1 = bigVal reduced * 5 ^ fives"
    using dm fd r1 by (auto simp: reduced_def powerOfLimb_spec sdiv_exact)
qed

lemma exactDecimal_scaled:
  assumes v: "rat_ok v" "\<not> isZero (rnum v)" and den: "bigVal (rden v) = 5 ^ fives * 2 ^ twos"
  defines "places \<equiv> max twos fives"
  defines "scaled1 \<equiv> (if places > twos then mulB (absB (rnum v)) (powerOfLimb 2 (places - twos)) else absB (rnum v))"
  defines "scaled \<equiv> (if places > fives then mulB scaled1 (powerOfLimb 5 (places - fives)) else scaled1)"
  shows "toDecimal scaled = showNat (nat (bigVal scaled))" "0 \<le> bigVal scaled"
    "of_int (bigVal scaled) / (10 :: rat) ^ places = \<bar>ratVal v\<bar>"
proof -
  note d = rat_okD [OF v(1)]
  have s1: "big_ok scaled1" "bigVal scaled1 = \<bar>bigVal (rnum v)\<bar> * 2 ^ (places - twos)"
    using d by (auto simp: scaled1_def absB_spec mulB_spec powerOfLimb_spec places_def)
  have s: "big_ok scaled" "bigVal scaled = \<bar>bigVal (rnum v)\<bar> * 2 ^ (places - twos) * 5 ^ (places - fives)"
    using s1 by (auto simp: scaled_def mulB_spec powerOfLimb_spec places_def)
  show nn: "0 \<le> bigVal scaled" unfolding s(2) by simp
  then show "toDecimal scaled = showNat (nat (bigVal scaled))" using toDecimal_val [OF s(1)] by simp
  have p: "places = places - twos + twos" "places = places - fives + fives" by (auto simp: places_def)
  have "(10 :: int) ^ places = 2 ^ places * 5 ^ places" by (simp flip: power_mult_distrib)
  also have "\<dots> = 2 ^ (places - twos) * 5 ^ (places - fives) * bigVal (rden v)"
  proof -
    have "(2 :: int) ^ places = 2 ^ (places - twos) * 2 ^ twos" "(5 :: int) ^ places = 5 ^ (places - fives) * 5 ^ fives"
      using p by (metis power_add)+
    then show ?thesis unfolding den by (simp only: ac_simps)
  qed
  finally have "bigVal scaled * bigVal (rden v) = \<bar>bigVal (rnum v)\<bar> * 10 ^ places" unfolding s(2) by (simp add: algebra_simps)
  then have "(of_int (bigVal scaled * bigVal (rden v)) :: rat) = of_int (\<bar>bigVal (rnum v)\<bar> * 10 ^ places)" by (simp only:)
  then show "of_int (bigVal scaled) / (10 :: rat) ^ places = \<bar>ratVal v\<bar>"
    using d(3) by (simp add: ratVal_def field_simps)
qed

lemma exactDecimal_sound:
  assumes v: "rat_ok v" and some: "exactDecimal v = Some s"
  shows "\<exists>ip fp. ip \<noteq> [] \<and> (\<forall>c \<in> set (ip @ fp). isDigitChar c) \<and> length fp \<le> bitsB (rden v) \<and>
    s = signText (ratVal v < 0) @ ip @ decimalPoint (fp \<noteq> []) @ fp \<and>
    ratVal v = (if ratVal v < 0 then - 1 else 1) * of_int (digitsVal 10 (ip @ fp) 0) / 10 ^ length fp"
proof (cases "isZero (rnum v)")
  case True
  then have "ratVal v = 0" using rnum_zero_iff v by blast
  moreover have "s = ''0''" using some True by (simp add: exactDecimal_def)
  ultimately show ?thesis
    by (intro exI [of _ "''0''"] exI [of _ "[]"]) (simp add: isDigitChar_def signText_def decimalPoint_def digitsVal_def digitOf_def)
next
  case False
  define twos where "twos = trailingZeroBits (rden v)"
  define reduced1 where "reduced1 = (if twos \<noteq> 0 then shiftedRight (rden v) twos else rden v)"
  define fives where "fives = fiveSearch reduced1 0 (min (bitsB reduced1 div 2 + 1) 4096)"
  define reduced where "reduced = (if fives \<noteq> 0 then fst (divMod reduced1 (powerOfLimb 5 fives)) else reduced1)"
  define places where "places = max twos fives"
  define scaled1 where "scaled1 = (if places > twos then mulB (absB (rnum v)) (powerOfLimb 2 (places - twos)) else absB (rnum v))"
  define scaled where "scaled = (if places > fives then mulB scaled1 (powerOfLimb 5 (places - fives)) else scaled1)"
  define padded where "padded = (if length (toDecimal scaled) \<le> places
      then replicate (places - length (toDecimal scaled) + 1) (CHR ''0'') @ toDecimal scaled else toDecimal scaled)"
  define ct where "ct = length padded - places"
  define trimmed where "trimmed = popZeroDigits (take ct padded @ ''.'' @ drop ct padded)"
  note defs = twos_def reduced1_def fives_def reduced_def places_def scaled1_def scaled_def padded_def ct_def trimmed_def
  note sd = some [unfolded exactDecimal_def Let_def, folded twos_def, folded reduced1_def, folded fives_def,
      folded reduced_def, folded places_def, folded scaled1_def, folded scaled_def, folded padded_def,
      folded ct_def, folded trimmed_def]
  have bits: "bitsB (rden v) \<le> 32768" and one: "isOne reduced"
    using sd False by (auto split: if_splits)
  note parts = exactDecimal_parts [OF v False bits, folded twos_def, folded reduced1_def, folded fives_def, folded reduced_def]
  have den: "bigVal (rden v) = 5 ^ fives * 2 ^ twos" using parts(4,6) isOne_iff [OF parts(5)] one by simp
  note sc = exactDecimal_scaled [OF v False den, folded places_def, folded scaled1_def, folded scaled_def]
  have sg: "isNegative (rnum v) \<longleftrightarrow> ratVal v < 0"
    using rat_okD [OF v] by (simp add: isNegative_iff ratVal_def divide_less_0_iff)
  note dg = showNat_digits [of "nat (bigVal scaled)", folded sc(1)]
  have dig: "\<forall>c \<in> set (toDecimal scaled). isDigitChar c" using dg by (simp add: isDigitChar_iff)
  have dv: "digitsVal 10 (toDecimal scaled) 0 = bigVal scaled" using dg sc(2) by simp
  have pl: "places \<le> bitsB (rden v)"
  proof -
    have lt: "5 ^ fives * 2 ^ twos < (2 :: int) ^ bitsB (rden v)"
      using bitsB_less rat_okD [OF v] den by (metis abs_of_pos)
    have "(2 :: int) ^ fives \<le> 5 ^ fives" by (rule power_mono) auto
    then have "(2 :: int) ^ fives * 2 ^ twos \<le> 5 ^ fives * 2 ^ twos" by (rule mult_right_mono) simp
    also note lt
    finally have "(2 :: int) ^ (fives + twos) < 2 ^ bitsB (rden v)" by (simp only: power_add)
    then have "fives + twos < bitsB (rden v)" by (rule power_less_imp_less_exp [rotated]) simp
    then show ?thesis by (simp add: places_def)
  qed
  have abs: "ratVal v = (if ratVal v < 0 then - 1 else 1) * \<bar>ratVal v\<bar>" by simp
  show ?thesis
  proof (cases "places = 0")
    case True
    then have "s = signText (ratVal v < 0) @ toDecimal scaled"
      using sd False bits one sg by (simp add: signText_def)
    then show ?thesis using True dig dv sc abs
      by (intro exI [of _ "toDecimal scaled"] exI [of _ "[]"]) (simp add: decimalPoint_def)
  next
    case False
    then have p0: "0 < places" by simp
    obtain ip fp where i: "ip \<noteq> []" "\<forall>c \<in> set (ip @ fp). isDigitChar c" "length fp \<le> places"
      "(if last trimmed = CHR ''.'' then butlast trimmed else trimmed) = ip @ decimalPoint (fp \<noteq> []) @ fp"
      "of_int (digitsVal 10 (ip @ fp) 0) / (10 :: rat) ^ length fp = of_int (digitsVal 10 (toDecimal scaled) 0) / 10 ^ places"
      using pointed_text [OF p0 padded_def dig, folded ct_def, folded trimmed_def] by blast
    have "s = signText (ratVal v < 0) @ (if last trimmed = CHR ''.'' then butlast trimmed else trimmed)"
      using sd \<open>\<not> isZero (rnum v)\<close> p0 bits one sg by (simp add: signText_def)
    then have "s = signText (ratVal v < 0) @ ip @ decimalPoint (fp \<noteq> []) @ fp" using i(4) by simp
    moreover have "ratVal v = (if ratVal v < 0 then - 1 else 1) * (of_int (digitsVal 10 (ip @ fp) 0) / 10 ^ length fp)"
      using i(5) dv sc(3) abs by simp
    ultimately show ?thesis using i(1,2,3) pl by (intro exI [of _ ip] exI [of _ fp]) auto
  qed
qed

lemma coprime_five: "\<not> 5 dvd q \<Longrightarrow> coprime q (5 :: int)"
proof -
  assume "\<not> 5 dvd q"
  then have "q mod 5 \<in> {1, 2, 3, 4}" using pos_mod_bound [of 5 q] pos_mod_sign [of 5 q]
    by (auto simp: dvd_eq_mod_eq_0)
  then have "gcd 5 (q mod 5) = 1" by (elim insertE emptyE) (simp_all add: gcd_non_0_int)
  then show ?thesis by (metis coprime_iff_gcd_eq_1 gcd.commute gcd_red_int)
qed

text \<open>A denominator of at most 8192 bits that divides a power of ten always has its decimal.\<close>

lemma exactDecimal_complete:
  assumes v: "rat_ok v" and bits: "bitsB (rden v) \<le> 8192" and ten: "bigVal (rden v) dvd 10 ^ k"
  shows "exactDecimal v \<noteq> None"
proof (cases "isZero (rnum v)")
  case True then show ?thesis by (simp add: exactDecimal_def)
next
  case False
  define twos where "twos = trailingZeroBits (rden v)"
  define reduced1 where "reduced1 = (if twos \<noteq> 0 then shiftedRight (rden v) twos else rden v)"
  define fives where "fives = fiveSearch reduced1 0 (min (bitsB reduced1 div 2 + 1) 4096)"
  define reduced where "reduced = (if fives \<noteq> 0 then fst (divMod reduced1 (powerOfLimb 5 fives)) else reduced1)"
  have b: "bitsB (rden v) \<le> 32768" using bits by simp
  note p = exactDecimal_parts [OF v False b, folded twos_def, folded reduced1_def, folded fives_def, folded reduced_def]
  have pos: "0 < bigVal reduced" using p(3,6) by (metis zero_less_mult_pos2 zero_less_numeral zero_less_power)
  have n5: "\<not> 5 dvd bigVal reduced"
  proof
    assume "5 dvd bigVal reduced"
    then have dv: "5 ^ Suc fives dvd bigVal reduced1" using p(6) by (simp add: mult_dvd_mono)
    have "(2 :: int) ^ (2 * Suc fives) = 4 ^ Suc fives" by (simp only: power_mult) simp
    also have "\<dots> \<le> 5 ^ Suc fives" by (rule power_mono) auto
    also have "\<dots> \<le> bigVal reduced1" using dv p(3) by (rule zdvd_imp_le)
    also have "\<dots> < 2 ^ bitsB reduced1" using bitsB_less [OF p(1)] p(3) by simp
    finally have lt: "2 * Suc fives < bitsB reduced1" by (rule power_less_imp_less_exp [rotated]) simp
    have "bigVal reduced1 * 1 \<le> bigVal reduced1 * 2 ^ twos" using p(3) by (intro mult_left_mono) auto
    then have "bitsB reduced1 \<le> bitsB (rden v)" using p(1,3,4) rat_okD [OF v] by (intro bitsB_mono) auto
    then have "Suc fives \<le> min (bitsB reduced1 div 2 + 1) 4096" using lt bits by auto
    then show False using p(7) [OF _ dv] by simp
  qed
  have "bigVal reduced dvd 10 ^ k" using ten p(4,6) by (metis dvd_mult_left)
  then have "bigVal reduced dvd 2 ^ k * 5 ^ k" by (simp flip: power_mult_distrib)
  moreover have "odd (bigVal reduced)" using p(2,6) by (metis dvd_mult2)
  then have "coprime (bigVal reduced) (2 ^ k)" by (simp add: coprime_commute)
  ultimately have "bigVal reduced dvd 5 ^ k" by (metis coprime_dvd_mult_right_iff)
  moreover have "coprime (bigVal reduced) (5 ^ k)" using coprime_five [OF n5] by simp
  ultimately have "is_unit (bigVal reduced)" by (metis coprime_common_divisor dvd_refl)
  then have one: "isOne reduced" using pos isOne_iff [OF p(5)] by simp
  show ?thesis
  proof
    assume n: "exactDecimal v = None"
    show False
      using n [unfolded exactDecimal_def Let_def, folded twos_def, folded reduced1_def, folded fives_def, folded reduced_def]
      by (simp only: False not_less [THEN iffD2, OF b] one if_False if_True simp_thms option.simps split: if_split_asm)
  qed
qed

lemma exactDecimal_roundtrip:
  assumes v: "rat_ok v" and bits: "bitsB (rden v) \<le> 8192" and some: "exactDecimal v = Some s"
  shows "\<exists>w. fromRealText s = Some w \<and> value_ok w \<and> valRe w = ratVal v"
proof -
  obtain ip fp where i: "ip \<noteq> []" "\<forall>c \<in> set (ip @ fp). isDigitChar c" "length fp \<le> bitsB (rden v)"
    "s = signText (ratVal v < 0) @ ip @ decimalPoint (fp \<noteq> []) @ fp"
    "ratVal v = (if ratVal v < 0 then - 1 else 1) * of_int (digitsVal 10 (ip @ fp) 0) / 10 ^ length fp"
    using exactDecimal_sound [OF v some] by blast
  have "exponentPart [] = Some (0, [])" by (simp add: exponentPart_def)
  then obtain w where w: "fromRealText s = Some w" "value_ok w"
    "valRe w = (if ratVal v < 0 then - 1 else 1) * of_int (digitsVal 10 (ip @ fp) 0) * 10 powi (0 - int (length fp))"
    using fromRealText_decimal [OF i(2), of "fp \<noteq> []" "[]" 0 "ratVal v < 0"] i bits by auto
  have "(10 :: rat) powi (0 - int (length fp)) = 1 / 10 ^ length fp"
    by (simp add: power_int_minus inverse_eq_divide)
  then have "valRe w = ratVal v" using w(3) i(5) by (simp only: times_divide_eq_right mult_1_right)
  then show ?thesis using w by blast
qed

lemma partUnderflows_spec:
  assumes "rat_ok v"
  shows "partUnderflows e v \<longleftrightarrow> ratVal v \<noteq> 0 \<and> \<bar>ratVal v\<bar> \<le> 1 / 2 ^ e"
proof -
  note d = rat_okD [OF assms]
  let ?s = "shiftedLeft (absB (rnum v)) e"
  have s: "big_ok ?s" "bigVal ?s = \<bar>bigVal (rnum v)\<bar> * 2 ^ e"
    using d by (simp_all add: shiftedLeft_spec absB_spec)
  have "atMostTiny v e \<longleftrightarrow> \<bar>bigVal (rnum v)\<bar> * 2 ^ e \<le> bigVal (rden v)"
    using compareB_spec [OF s(1) d(2)] s(2) by (simp add: atMostTiny_def sgn_if)
  also have "\<dots> \<longleftrightarrow> (of_int (\<bar>bigVal (rnum v)\<bar> * 2 ^ e) :: rat) \<le> of_int (bigVal (rden v))"
    by (simp only: of_int_le_iff)
  also have "\<dots> \<longleftrightarrow> \<bar>ratVal v\<bar> \<le> 1 / 2 ^ e"
    using d(3) by (simp add: ratVal_def abs_divide field_simps)
  finally show ?thesis using rnum_zero_iff [OF assms] by (simp add: partUnderflows_def)
qed

end
