(* ===== verification/Literal_Properties.thy ===== *)
theory Literal_Properties
  imports Literal_Value
begin

text \<open>
  What the literal folder promises (\<open>include/camel/compile/literal.h\<close>): literals are read
  exactly, folded exactly, compared as numbers, printed so that they read back, and become an
  integer of a machine type only when they are integers in its range. The properties are
  stated over the definitions of \<open>Literal_BigInt\<close> and \<open>Literal_Value\<close>.
\<close>

text \<open>The digits of the literals with the numbers they stand for, and the prefixes with their bases.\<close>

definition digitIs :: "char \<Rightarrow> int \<Rightarrow> bool" where
  "digitIs c d \<longleftrightarrow> (c, d) \<in> set (zip ''0123456789abcdefABCDEF'' ([0..9] @ [10..15] @ [10..15]))"

definition basePrefixes :: "(string \<times> int) list" where
  "basePrefixes = [(''0x'', 16), (''0X'', 16), (''0b'', 2), (''0B'', 2), (''0o'', 8), (''0O'', 8), (''0'', 8), ([], 10)]"

section \<open>Sample values\<close>

lemma Value_fromInt64_ok [simp]:
  "value_ok (Value_fromInt64 n)" "kind (Value_fromInt64 n) = Integer"
  "valRe (Value_fromInt64 n) = of_int (sint n)" "valIm (Value_fromInt64 n) = 0"
  "\<not> hasImaginaryPart (Value_fromInt64 n)"
  using Ints_of_int [of "sint n", where 'a = rat] by (simp_all add: Value_fromInt64_def value_ok_real)

text \<open>The float whose value is an integer, as folding \<open>n * 1.0\<close> gives it.\<close>

definition floatOf :: "64 word \<Rightarrow> Value" where
  "floatOf n = mkValue Float (realRep \<lparr>rnum = BigInt_of n, rden = BigInt_of 1\<rparr> False)"

lemma floatOf_ok [simp]:
  "value_ok (floatOf n)" "kind (floatOf n) = Float" "valRe (floatOf n) = of_int (sint n)"
  "valIm (floatOf n) = 0" "\<not> hasImaginaryPart (floatOf n)"
  by (simp_all add: floatOf_def value_ok_real)

lemma bitsB_le_iff:
  assumes "big_ok x" shows "bitsB x \<le> n \<longleftrightarrow> \<bar>bigVal x\<bar> < 2 ^ n"
proof -
  have "\<bar>bigVal x\<bar> = int (limbsVal (blimbs x))" by (simp add: bigVal_def)
  moreover have "bitsB x \<le> n \<longleftrightarrow> limbsVal (blimbs x) < 2 ^ n"
    using bitLength_gt_iff assms by (simp add: bitsB_def big_ok_def)
  ultimately show ?thesis by (simp flip: of_nat_power)
qed

section \<open>Folding is exact\<close>

text \<open>
  Folding the sum and the difference of two literals always gives a value, and it is the
  exact sum and difference of the real and of the imaginary parts; the folded value is again
  in reduced form, and it is an integer literal only when both operands are.
\<close>

theorem fold_add_sub_exact:
  assumes "value_ok l" "value_ok r"
  shows "\<exists>s d. Value_add l r = Some s \<and> Value_sub l r = Some d \<and> value_ok s \<and> value_ok d \<and>
    valRe s = valRe l + valRe r \<and> valIm s = valIm l + valIm r \<and>
    valRe d = valRe l - valRe r \<and> valIm d = valIm l - valIm r \<and>
    (kind s = Integer \<longleftrightarrow> kind l = Integer \<and> kind r = Integer)"
proof -
  obtain s where s: "Value_add l r = Some s" "value_ok s" "valRe s = valRe l + valRe r" "valIm s = valIm l + valIm r"
    using Value_add_exact [OF assms] by blast
  obtain d where d: "Value_sub l r = Some d" "value_ok d" "valRe d = valRe l - valRe r" "valIm d = valIm l - valIm r"
    using Value_sub_exact [OF assms] by blast
  have "kind s = Integer \<longleftrightarrow> kind l = Integer \<and> kind r = Integer"
    using s(1) by (auto simp: Value_add_def Let_def foldedKind_def hasImaginaryPart_def split: if_splits)
  with s d show ?thesis by blast
qed

theorem fold_add_sub_exact_witness:
  "\<exists>s d. Value_add (Value_fromInt64 7) (floatOf 5) = Some s \<and> Value_sub (Value_fromInt64 7) (floatOf 5) = Some d \<and>
    valRe s = 12 \<and> valRe d = 2 \<and> kind s \<noteq> Integer"
  using fold_add_sub_exact [of "Value_fromInt64 7" "floatOf 5"] by auto

text \<open>
  C16. A folded product is the exact complex product of the operands, in reduced form; the
  product is refused only when the numerators together exceed the size bound.
\<close>

theorem fold_mul_exact:
  assumes "value_ok l" "value_ok r"
  shows "case Value_mul l r of
      Some v \<Rightarrow> value_ok v \<and> valRe v = valRe l * valRe r - valIm l * valIm r \<and>
        valIm v = valRe l * valIm r + valIm l * valRe r
    | None \<Rightarrow> bitsB (rnum (rational (rep l))) + bitsB (rnum (rational (rep r))) > kMaxBits \<or>
        bitsB (rnum (imaginary (rep l))) + bitsB (rnum (imaginary (rep r))) > kMaxBits"
proof (cases "Value_mul l r")
  case None
  then show ?thesis by (auto simp: Value_mul_def Let_def split: if_splits)
next
  case (Some v)
  then show ?thesis using Value_mul_exact [OF assms Some] by simp
qed

lemma bits_small: "sint n \<in> {- 255..255} \<Longrightarrow> bitsB (BigInt_of n) \<le> 8"
  by (auto simp: bitsB_le_iff)

theorem fold_mul_exact_witness:
  "\<exists>v. Value_mul (Value_fromInt64 6) (floatOf 7) = Some v \<and> valRe v = 42"
proof -
  have b: "bitsB (rnum (rational (rep (Value_fromInt64 6)))) + bitsB (rnum (rational (rep (floatOf 7)))) \<le> 16"
    "bitsB (rnum (imaginary (rep (Value_fromInt64 6)))) + bitsB (rnum (imaginary (rep (floatOf 7)))) \<le> 16"
    using bits_small [of 6] bits_small [of 7]
    by (simp_all add: Value_fromInt64_def floatOf_def Rational_default_def BigInt_zero_def bitsB_def bitLength_def)
  show ?thesis
    using fold_mul_exact [of "Value_fromInt64 6" "floatOf 7"] b
    by (cases "Value_mul (Value_fromInt64 6) (floatOf 7)") (auto simp: kMaxBits_def)
qed

text \<open>
  C22. Division: a zero divisor has no folded value; the quotient and the remainder of two
  integer literals are the truncated ones, and the quotient of any other pair is the exact
  complex quotient.
\<close>

theorem fold_div_exact:
  assumes "value_ok l" "value_ok r"
  shows "(valRe r = 0 \<and> valIm r = 0 \<longrightarrow> Value_div l r = None) \<and>
    (\<forall>a b. kind l = Integer \<and> kind r = Integer \<and> valRe l = of_int a \<and> valRe r = of_int b \<and> b \<noteq> 0 \<longrightarrow>
      (\<exists>q m. Value_div l r = Some q \<and> Value_mod l r = Some m \<and> value_ok q \<and> value_ok m \<and>
        kind q = Integer \<and> kind m = Integer \<and> valRe q = of_int (a sdiv b) \<and> valRe m = of_int (a smod b))) \<and>
    (\<not> (kind l = Integer \<and> kind r = Integer) \<and> (valRe r \<noteq> 0 \<or> valIm r \<noteq> 0) \<longrightarrow>
      (\<exists>v. Value_div l r = Some v \<and> value_ok v \<and>
        valRe v * valRe r - valIm v * valIm r = valRe l \<and> valRe v * valIm r + valIm v * valRe r = valIm l))"
proof (intro conjI allI impI)
  show "Value_div l r = None" if "valRe r = 0 \<and> valIm r = 0"
    using Value_div_none [OF assms] that by blast
  show "\<exists>q m. Value_div l r = Some q \<and> Value_mod l r = Some m \<and> value_ok q \<and> value_ok m \<and>
        kind q = Integer \<and> kind m = Integer \<and> valRe q = of_int (a sdiv b) \<and> valRe m = of_int (a smod b)"
    if "kind l = Integer \<and> kind r = Integer \<and> valRe l = of_int a \<and> valRe r = of_int b \<and> b \<noteq> 0" for a b
    using Value_intdiv_exact [OF assms] that by blast
  assume h: "\<not> (kind l = Integer \<and> kind r = Integer) \<and> (valRe r \<noteq> 0 \<or> valIm r \<noteq> 0)"
  let ?n = "valRe r * valRe r + valIm r * valIm r"
  have nz: "?n \<noteq> 0" using h sum_squares_eq_zero_iff [of "valRe r" "valIm r"] by blast
  obtain v where v: "Value_div l r = Some v" "value_ok v"
    "valRe v = (valRe l * valRe r + valIm l * valIm r) / ?n"
    "valIm v = (valIm l * valRe r - valRe l * valIm r) / ?n"
    using Value_div_exact [OF assms _ nz] h by blast
  have "valRe v * valRe r - valIm v * valIm r = valRe l * ?n / ?n"
    unfolding v(3,4) by (simp only: times_divide_eq_left diff_divide_distrib [symmetric]) (simp add: algebra_simps)
  moreover have "valRe v * valIm r + valIm v * valRe r = valIm l * ?n / ?n"
    unfolding v(3,4) by (simp only: times_divide_eq_left add_divide_distrib [symmetric]) (simp add: algebra_simps)
  ultimately show "\<exists>v. Value_div l r = Some v \<and> value_ok v \<and>
        valRe v * valRe r - valIm v * valIm r = valRe l \<and> valRe v * valIm r + valIm v * valRe r = valIm l"
    using v nz by auto
qed

theorem fold_div_exact_witness:
  "(\<exists>q m. Value_div (Value_fromInt64 (- 7)) (Value_fromInt64 2) = Some q \<and>
     Value_mod (Value_fromInt64 (- 7)) (Value_fromInt64 2) = Some m \<and> valRe q = - 3 \<and> valRe m = - 1) \<and>
   (\<exists>v. Value_div (floatOf 7) (Value_fromInt64 2) = Some v \<and> valRe v * 2 = 7) \<and>
   Value_div (floatOf 7) (Value_fromInt64 0) = None"
proof -
  have "(- 7 :: int) sdiv 2 = - 3" "(- 7 :: int) smod 2 = - 1" by (simp_all add: signed_divide_int_def signed_modulo_int_def)
  then have "\<exists>q m. Value_div (Value_fromInt64 (- 7)) (Value_fromInt64 2) = Some q \<and>
     Value_mod (Value_fromInt64 (- 7)) (Value_fromInt64 2) = Some m \<and> valRe q = - 3 \<and> valRe m = - 1"
    using fold_div_exact [of "Value_fromInt64 (- 7)" "Value_fromInt64 2", THEN conjunct2, THEN conjunct1,
      THEN spec, of "- 7", THEN spec, of 2] by auto
  then show ?thesis
    using
      fold_div_exact [of "floatOf 7" "Value_fromInt64 2"] fold_div_exact [of "floatOf 7" "Value_fromInt64 0"]
    by auto
qed

text \<open>
  A folded power is the exact power: it exists for real operands with a natural exponent of
  at most 4096 exactly when the base is zero, the exponent is zero or the numerator's bits times
  the exponent stay within the bound, and its value is the base to that exponent.
\<close>

theorem fold_pow_exact:
  assumes "value_ok b" "value_ok e" "\<not> hasImaginaryPart b" "\<not> hasImaginaryPart e"
    and "valRe e = of_nat p" "p \<le> 4096"
  shows "case Value_pow b e of
      Some v \<Rightarrow> value_ok v \<and> valRe v = valRe b ^ p \<and> valIm v = 0
    | None \<Rightarrow> p \<noteq> 0 \<and> valRe b \<noteq> 0 \<and> bitsB (rnum (rational (rep b))) * p > kMaxBits"
proof (cases "Value_pow b e")
  case None
  then show ?thesis using Value_pow_defined [OF assms] by auto
next
  case (Some v)
  obtain q where "valRe e = of_nat q" "valRe v = valRe b ^ q" using Value_pow_exact(3) [OF assms(1,2) Some] by blast
  then show ?thesis using Value_pow_exact(1,2) [OF assms(1,2) Some] Some assms(5) by simp
qed

theorem fold_pow_exact_witness:
  "\<exists>v. Value_pow (Value_fromInt64 (- 3)) (Value_fromInt64 5) = Some v \<and> valRe v = - 243"
proof -
  have "bitsB (rnum (rational (rep (Value_fromInt64 (- 3))))) * 5 \<le> 40"
    using bits_small [of "- 3"] by (simp add: Value_fromInt64_def)
  then show ?thesis
    using fold_pow_exact [of "Value_fromInt64 (- 3)" "Value_fromInt64 5" 5]
    by (cases "Value_pow (Value_fromInt64 (- 3)) (Value_fromInt64 5)") (auto simp: kMaxBits_def)
qed

text \<open>
  A power with a zero base and a natural exponent from 1 to 4096 folds to the integer literal zero, also
  when the base is a float literal: \<open>0.0 ** 2\<close> becomes a value that enters an integer type,
  where every other float operand gives a float.
\<close>

theorem fold_pow_zero_base_integer:
  assumes "value_ok b" "value_ok e" "kind b = Float" "\<not> hasImaginaryPart e"
    and "valRe e = of_nat p" "0 < p" "p \<le> 4096"
  shows "if valRe b = 0 then Value_pow b e = Some (Value_fromInt64 0) \<and> toDataInt64 (Value_fromInt64 0) = Some 0
    else \<forall>v. Value_pow b e = Some v \<longrightarrow> kind v = Float \<and> toDataInt64 v = None"
proof (cases "valRe b = 0")
  case True
  have im: "\<not> hasImaginaryPart b" using assms(3) by (simp add: hasImaginaryPart_def)
  have "toDataInt64 (Value_fromInt64 0) = Some 0"
    by (simp add: toDataInt64_def asInt64_spec in_int64_def int64_min_def int64_max_def)
  then show ?thesis using Value_pow_zero_base [OF assms(1,2) im assms(4-7) True] True by simp
next
  case False
  then have "\<not> isZero (rnum (rational (rep b)))"
    using rnum_zero_iff [OF value_okD(1) [OF assms(1)]] by (simp add: valRe_def)
  moreover have "integerExponent (rational (rep e)) = Some p"
    using assms integerExponent_spec [OF value_okD(1) [OF assms(2)]] by (simp add: valRe_def)
  ultimately show ?thesis using assms False
    by (auto simp: Value_pow_def Let_def toDataInt64_def asInt64_def split: if_splits)
qed

theorem fold_pow_zero_base_integer_witness:
  "Value_pow (floatOf 0) (Value_fromInt64 2) = Some (Value_fromInt64 0) \<and> kind (Value_fromInt64 0) = Integer"
  using fold_pow_zero_base_integer [of "floatOf 0" "Value_fromInt64 2" 2] by simp

text \<open>
  C36. Comparison is the order of the numbers: real values compare by the sign of their exact
  difference, complex ones lexicographically, so that comparing gives zero exactly when both
  parts agree.
\<close>

theorem compare_exact:
  assumes "value_ok l" "value_ok r"
  shows "of_int (Value_compare l r) =
      (if valRe l \<noteq> valRe r then sgn (valRe l - valRe r) else sgn (valIm l - valIm r)) \<and>
    (Value_compare l r = 0 \<longleftrightarrow> valRe l = valRe r \<and> valIm l = valIm r) \<and>
    Value_compare r l = - Value_compare l r"
proof -
  have z: "\<not> (hasImaginaryPart l \<or> hasImaginaryPart r) \<Longrightarrow> valIm l = 0 \<and> valIm r = 0"
    using value_okD(4) assms by blast
  have lr: "of_int (Value_compare l r) =
      (if valRe l \<noteq> valRe r then sgn (valRe l - valRe r) else sgn (valIm l - valIm r))"
    using Value_compare_exact [OF assms] z by (cases "hasImaginaryPart l \<or> hasImaginaryPart r") auto
  have rl: "of_int (Value_compare r l) =
      (if valRe l \<noteq> valRe r then sgn (valRe r - valRe l) else sgn (valIm r - valIm l))"
    using Value_compare_exact [OF assms(2,1)] z by (cases "hasImaginaryPart l \<or> hasImaginaryPart r") auto
  have "(of_int (Value_compare r l) :: rat) = of_int (- Value_compare l r)"
    using lr rl by (simp add: sgn_if)
  then have "Value_compare r l = - Value_compare l r" by (simp only: of_int_eq_iff)
  moreover have "(of_int (Value_compare l r) :: rat) = 0 \<longleftrightarrow> valRe l = valRe r \<and> valIm l = valIm r"
    unfolding lr by (simp add: sgn_if)
  then have "Value_compare l r = 0 \<longleftrightarrow> valRe l = valRe r \<and> valIm l = valIm r" by (simp only: of_int_eq_0_iff)
  ultimately show ?thesis using lr by blast
qed

theorem compare_exact_witness: "Value_compare (Value_fromInt64 3) (floatOf 3) = 0 \<and> Value_compare (Value_fromInt64 2) (floatOf 3) \<noteq> 0"
  using compare_exact [of "Value_fromInt64 3" "floatOf 3"] compare_exact [of "Value_fromInt64 2" "floatOf 3"] by simp

section \<open>Reading and printing\<close>

lemma digitIs_digitOf: "digitIs c d \<longleftrightarrow> digitOf c = d \<and> 0 \<le> d"
proof
  assume "digitIs c d" then show "digitOf c = d \<and> 0 \<le> d" by (auto simp: digitIs_def digitOf_def upto.simps)
next
  let ?n = "of_char c :: nat"
  assume d: "digitOf c = d \<and> 0 \<le> d"
  then have "?n \<in> {48..<58} \<union> {97..<103} \<union> {65..<71}" by (auto simp: digitOf_def Let_def split: if_splits)
  then have "char_of ?n \<in> set (map char_of ([48..<58] @ [97..<103] @ [65..<71]))" unfolding set_map set_append set_upt by (intro imageI) blast
  also have "map char_of ([48..<58] @ [97..<103] @ [65..<71]) = ''0123456789abcdefABCDEF''" by (simp add: upt_rec char_of_def bit_0)
  finally have "c \<in> set ''0123456789abcdefABCDEF''" by simp
  moreover have "list_all (\<lambda>c. digitIs c (digitOf c)) ''0123456789abcdefABCDEF''" by code_simp
  ultimately show "digitIs c d" using d unfolding list_all_iff by blast
qed

lemma digits_digitOf:
  "list_all2 digitIs ds digits \<longleftrightarrow> digits = map digitOf ds \<and> (\<forall>c \<in> set ds. 0 \<le> digitOf c)"
  by (induction ds arbitrary: digits) (auto simp: list_all2_Cons1 digitIs_digitOf)

lemma stripSign_parts:
  assumes "(sign, neg) \<in> {([], False), (''+'', False), (''-'', True)}" "sign = [] \<longrightarrow> hd t \<notin> set ''+-''" "t \<noteq> []"
  shows "stripSign (sign @ t) = (neg, t)"
  using assms by (cases t) (auto simp: stripSign_def)

lemma radixOf_parts:
  assumes "(prefix, radix) \<in> set basePrefixes" "ds \<noteq> []"
    "prefix = [] \<longrightarrow> ds = ''0'' \<or> hd ds \<notin> set ''0+-''" "prefix = ''0'' \<longrightarrow> length ds = 1 \<or> hd ds \<notin> set ''xXbBoO''"
  shows "radixOf (prefix @ ds) = (radix, ds)"
proof -
  obtain c cs where ds: "ds = c # cs" using assms(2) by (cases ds) auto
  consider "prefix = ''0x'' \<or> prefix = ''0X''" "radix = 16" | "prefix = ''0b'' \<or> prefix = ''0B''" "radix = 2"
    | "prefix = ''0o'' \<or> prefix = ''0O''" "radix = 8" | "prefix = ''0''" "radix = 8" | "prefix = []" "radix = 10"
    using assms(1) by (auto simp: basePrefixes_def)
  then show ?thesis
  proof cases
    case 4
    then have "cs = [] \<or> c \<notin> set ''xXbBoO''" using assms(4) ds by simp
    then show ?thesis using 4 by (auto simp: radixOf_def ds)
  next
    case 5
    then have "ds = ''0'' \<or> c \<noteq> CHR ''0''" using assms(3) ds by auto
    then show ?thesis using 5 by (auto simp: radixOf_def ds)
  qed (auto simp: radixOf_def ds)
qed

lemma literal_parts:
  assumes "(sign, neg) \<in> {([], False), (''+'', False), (''-'', True)}" "(prefix, radix) \<in> set basePrefixes" "ds \<noteq> []"
    "prefix = [] \<longrightarrow> ds = ''0'' \<or> hd ds \<notin> set ''0+-''" "prefix = ''0'' \<longrightarrow> length ds = 1 \<or> hd ds \<notin> set ''xXbBoO''"
  shows "stripSign (sign @ prefix @ ds) = (neg, prefix @ ds)" "radixOf (prefix @ ds) = (radix, ds)"
proof -
  have "prefix = [] \<or> hd (prefix @ ds) = CHR ''0''" using assms(2) by (auto simp: basePrefixes_def)
  then have "hd (prefix @ ds) \<notin> set ''+-''" using assms(4) by auto
  then show "stripSign (sign @ prefix @ ds) = (neg, prefix @ ds)" using stripSign_parts [OF assms(1), of "prefix @ ds"] assms(3) by simp
qed (rule radixOf_parts [OF assms(2-5)])

text \<open>
  C32. The integer literals: a sign, a base prefix (\<open>0x\<close>, \<open>0b\<close>, \<open>0o\<close>, a lone \<open>0\<close> in front of more digits for
  octal, none for decimal) and then at least one character is accepted exactly when every character
  after the prefix is a digit of that base, and the value is the number the digits spell, negated
  after a minus; a sign alone is refused. (The lexer refuses a leading zero, so the lone \<open>0\<close>
  prefix concerns texts from other sources; the reference reads such a text as decimal.)
\<close>

theorem integer_literal_exact:
  assumes "(sign, neg) \<in> {([], False), (''+'', False), (''-'', True)}" "(prefix, radix) \<in> set basePrefixes" "ds \<noteq> []"
    "prefix = [] \<longrightarrow> ds = ''0'' \<or> hd ds \<notin> set ''0+-''" "prefix = ''0'' \<longrightarrow> length ds = 1 \<or> hd ds \<notin> set ''xXbBoO''"
  shows "fromIntegerText sign = None \<and>
    (case fromIntegerText (sign @ prefix @ ds) of
      Some v \<Rightarrow> \<exists>digits. list_all2 digitIs ds digits \<and> (\<forall>d \<in> set digits. d < radix) \<and> value_ok v \<and> kind v = Integer \<and>
        valRe v = of_int ((if neg then - 1 else 1) * foldl (\<lambda>n d. n * radix + d) 0 digits)
    | None \<Rightarrow> \<not> (\<exists>digits. list_all2 digitIs ds digits \<and> (\<forall>d \<in> set digits. d < radix)))"
proof -
  note f = fromIntegerText_val [OF literal_parts [OF assms]]
  have "digitsVal radix ds 0 = foldl (\<lambda>n d. n * radix + d) 0 (map digitOf ds)" by (simp add: digitsVal_def foldl_map)
  moreover have "fromIntegerText sign = None" using assms(1) by (auto simp: fromIntegerText_def stripSign_def radixOf_def)
  ultimately show ?thesis using f(1) f(2) assms(3)
    by (cases "fromIntegerText (sign @ prefix @ ds)") (auto simp: digits_digitOf not_less not_le)
qed

theorem integer_literal_exact_witness:
  "(\<exists>v. fromIntegerText ''-0xfF'' = Some v \<and> valRe v = - 255) \<and> fromIntegerText ''0b12'' = None"
proof
  have d: "list_all2 digitIs ''fF'' digits \<longleftrightarrow> digits = [15, 15]" for digits
    by (auto simp: list_all2_Cons1 digitIs_digitOf digitOf_def)
  show "\<exists>v. fromIntegerText ''-0xfF'' = Some v \<and> valRe v = - 255"
    using integer_literal_exact [of "''-''" True "''0x''" 16 "''fF''"] d
    by (cases "fromIntegerText ''-0xfF''") (auto simp: basePrefixes_def)
  have "list_all2 digitIs ''12'' digits \<longleftrightarrow> digits = [1, 2]" for digits
    by (auto simp: list_all2_Cons1 digitIs_digitOf digitOf_def)
  then show "fromIntegerText ''0b12'' = None"
    using integer_literal_exact [of "[]" False "''0b''" 2 "''12''"]
    by (cases "fromIntegerText ''0b12''") (auto simp: basePrefixes_def)
qed

text \<open>The text \<open>077\<close> is read as octal.\<close>

lemma leading_zero_octal: "\<exists>v. fromIntegerText ''077'' = Some v \<and> valRe v = 63"
proof -
  have "stripSign ''077'' = (False, ''077'')" "radixOf ''077'' = (8, ''77'')" by (simp_all add: stripSign_def radixOf_def)
  note f = fromIntegerText_val [OF this]
  show ?thesis using f(1) f(2) by (auto simp: digitsVal_def digitOf_def)
qed

text \<open>
  The real literals: digits with at most one point and an exponent (a lower case \<open>e\<close>, no plus, at most
  1000000) are read as the exact decimal they write, as long as the decimal exponent of the last
  digit stays within 8192; a minus in front of a zero is remembered.
\<close>

theorem real_literal_exact:
  assumes "\<forall>c \<in> set (ip @ fp). isDigitChar c" "ip @ fp \<noteq> []" "fp \<noteq> [] \<longrightarrow> point"
    and "\<forall>c \<in> set ds. isDigitChar c" "ds \<noteq> []" "digitsVal 10 ds 0 \<le> 1000000"
    and "ex = (if eneg then - digitsVal 10 ds 0 else digitsVal 10 ds 0)" "\<bar>int (length fp) - ex\<bar> \<le> 8192"
  shows "\<exists>v. fromRealText (signText neg @ ip @ decimalPoint point @ fp @ ''e'' @ signText eneg @ ds) = Some v \<and>
    value_ok v \<and> kind v = Float \<and>
    valRe v = (if neg then - 1 else 1) * of_int (digitsVal 10 (ip @ fp) 0) * 10 powi (ex - int (length fp)) \<and>
    (negativeZero (rep v) \<longleftrightarrow> neg \<and> digitsVal 10 (ip @ fp) 0 = 0)"
proof -
  have h: "hd ds \<notin> {CHR ''+'', CHR ''-''}" using assms(4,5) by (cases ds) (auto simp: isDigitChar_def)
  have "exponentPart (''e'' @ signText eneg @ ds) = Some (ex, [])"
    using scanExponent_val [of ds 0 False] assms(4-7) stripSign_signText [OF assms(5) h]
    by (simp add: exponentPart_def)
  then show ?thesis using fromRealText_decimal [OF assms(1-3) _ _ assms(8), of "''e'' @ signText eneg @ ds" neg] by simp
qed

theorem real_literal_exact_witness:
  "\<exists>v. fromRealText ''-1.5e3'' = Some v \<and> valRe v = - 1500"
proof -
  have p: "(10 :: rat) powi (3 - int (length ''5'')) = 100" by (simp add: power_int_def)
  have d: "digitsVal 10 ''15'' 0 = 15" "digitsVal 10 ''3'' 0 = 3" by (simp_all add: digitsVal_def digitOf_def)
  have t: "signText True @ ''1'' @ decimalPoint True @ ''5'' @ ''e'' @ signText False @ ''3'' = ''-1.5e3''"
    by (simp add: signText_def decimalPoint_def)
  have "\<exists>v. fromRealText ''-1.5e3'' = Some v \<and> value_ok v \<and> kind v = Float \<and>
      valRe v = (if True then - 1 else 1) * of_int (digitsVal 10 (''1'' @ ''5'') 0) * 10 powi (3 - int (length ''5'')) \<and>
      (negativeZero (rep v) \<longleftrightarrow> True \<and> digitsVal 10 (''1'' @ ''5'') 0 = 0)"
    by (rule real_literal_exact [of "''1''" "''5''" True "''3''" 3 False True, unfolded t])
      (simp_all add: isDigitChar_def d)
  then show ?thesis unfolding p by (auto simp: d)
qed

text \<open>
  C26. Printing and reading back: a fraction whose denominator divides a power of ten and has at
  most 8192 bits has an exact decimal text, and the real literal with that text is the same
  number.
\<close>

theorem exact_decimal_roundtrip:
  assumes "rat_ok v" "bitsB (rden v) \<le> 8192" "bigVal (rden v) dvd 10 ^ k"
  shows "\<exists>s w. exactDecimal v = Some s \<and> fromRealText s = Some w \<and> value_ok w \<and> valRe w = ratVal v"
proof -
  obtain s where "exactDecimal v = Some s" using exactDecimal_complete [OF assms] by auto
  then show ?thesis using exactDecimal_roundtrip [OF assms(1,2)] by blast
qed

theorem exact_decimal_roundtrip_witness:
  "\<exists>s w. exactDecimal \<lparr>rnum = BigInt_of (- 7), rden = BigInt_of 40\<rparr> = Some s \<and> fromRealText s = Some w \<and>
     valRe w = - 7 / 40"
proof -
  let ?v = "\<lparr>rnum = BigInt_of (- 7), rden = BigInt_of 40\<rparr>"
  have "coprime (- 7 :: int) 40" by (simp add: coprime_iff_gcd_eq_1 gcd_non_0_int)
  then have "rat_ok ?v" by (simp add: rat_ok_def)
  moreover have "bitsB (rden ?v) \<le> 8192" using bits_small [of 40] by simp
  moreover have "bigVal (rden ?v) dvd 10 ^ 3" by simp
  ultimately show ?thesis using exact_decimal_roundtrip [of ?v 3] by (auto simp: ratVal_def)
qed

text \<open>
  The exact decimal text denotes its number: an optional minus, at least one digit, a point
  only in front of at least one fraction digit, and no fraction longer than the denominator has
  bits.
\<close>

theorem exact_decimal_denotes:
  assumes "rat_ok v" "exactDecimal v = Some s"
  shows "\<exists>ip fp. s = signText (ratVal v < 0) @ ip @ decimalPoint (fp \<noteq> []) @ fp \<and> ip \<noteq> [] \<and>
    (\<forall>c \<in> set (ip @ fp). isDigitChar c) \<and> length fp \<le> bitsB (rden v) \<and>
    \<bar>ratVal v\<bar> = of_int (digitsVal 10 (ip @ fp) 0) / 10 ^ length fp"
proof -
  obtain ip fp where i: "ip \<noteq> []" "\<forall>c \<in> set (ip @ fp). isDigitChar c" "length fp \<le> bitsB (rden v)"
    "s = signText (ratVal v < 0) @ ip @ decimalPoint (fp \<noteq> []) @ fp"
    "ratVal v = (if ratVal v < 0 then - 1 else 1) * of_int (digitsVal 10 (ip @ fp) 0) / 10 ^ length fp"
    using exactDecimal_sound [OF assms] by blast
  have "\<bar>ratVal v\<bar> = of_int (digitsVal 10 (ip @ fp) 0) / 10 ^ length fp"
    using i(5) by (auto simp: abs_if split: if_splits)
  with i(1-4) show ?thesis by blast
qed

theorem exact_decimal_denotes_witness:
  "\<exists>ip. exactDecimal \<lparr>rnum = BigInt_zero, rden = BigInt_of 1\<rparr> = Some ip \<and> ip = ''0''"
  using exact_decimal_denotes [of "\<lparr>rnum = BigInt_zero, rden = BigInt_of 1\<rparr>" "''0''"]
  by (simp add: exactDecimal_def isZero_def BigInt_zero_def)

section \<open>Machine integers\<close>

text \<open>
  A literal becomes a machine integer only when it is an integer literal in the range of
  the type, and then with exactly its value.
\<close>

theorem to_data_in_range:
  assumes "value_ok v"
  shows "toDataInt64 v = (if kind v = Integer \<and> in_int64 \<lfloor>valRe v\<rfloor> then Some (word_of_int \<lfloor>valRe v\<rfloor>) else None) \<and>
    toDataInt32 v = (if kind v = Integer \<and> - (2 ^ 31) \<le> \<lfloor>valRe v\<rfloor> \<and> \<lfloor>valRe v\<rfloor> < 2 ^ 31
        then Some (word_of_int \<lfloor>valRe v\<rfloor>) else None)"
proof -
  have im: "hasImaginaryPart v \<Longrightarrow> kind v \<noteq> Integer" by (auto simp: hasImaginaryPart_def)
  have s: "sint (word_of_int n :: 64 word) = n" if "in_int64 n" for n
    using that by (simp add: in_int64_def int64_min_def int64_max_def signed_of_int signed_take_bit_int_eq_self)
  have u: "(ucast (word_of_int n :: 64 word) :: 32 word) = word_of_int n" for n
    by (simp add: unsigned_of_int word_of_int_eq_iff)
  show ?thesis
    using im s u by (auto simp: toDataInt64_def toDataInt32_def asInt64_spec [OF assms]
        in_int64_def int64_min_def int64_max_def)
qed

theorem to_data_in_range_witness:
  "toDataInt64 (Value_fromInt64 3000000000) = Some 3000000000 \<and> toDataInt32 (Value_fromInt64 3000000000) = None \<and>
   toDataInt32 (Value_fromInt64 (- 5)) = Some (- 5)"
  using to_data_in_range [of "Value_fromInt64 3000000000"] to_data_in_range [of "Value_fromInt64 (- 5)"]
  by (simp add: in_int64_def int64_min_def int64_max_def)

end
