(* ===== verification/Lexer_Literals.thy ===== *)
theory Lexer_Literals
  imports Lexer_Properties Literal_Properties
begin

text \<open>
  The lexer and the literal folder together: the text of an integer token is what the compiler
  hands to \<open>Value::fromIntegerText\<close> (\<open>builder.cpp\<close>), and it always has a value.
\<close>

lemma digit_values:
  "isDigit c \<Longrightarrow> 0 \<le> digitOf c \<and> digitOf c < 10"
  "isHexDigit c \<Longrightarrow> 0 \<le> digitOf c \<and> digitOf c < 16"
  "c = CHR ''0'' \<or> c = CHR ''1'' \<Longrightarrow> 0 \<le> digitOf c \<and> digitOf c < 2"
  "between (CHR ''0'') c (CHR ''7'') \<Longrightarrow> 0 \<le> digitOf c \<and> digitOf c < 8"
  by (auto simp: isDigit_def isHexDigit_def between_def digitOf_def Let_def)

lemma digit_sign: "isDigit c \<Longrightarrow> c \<noteq> CHR ''+'' \<and> c \<noteq> CHR ''-''"
  by (auto simp: isDigit_def between_def)

lemma whole_radix: "wholeText w \<Longrightarrow> stripSign w = (False, w) \<and> radixOf w = (10, w)"
  using digit_sign by (cases w) (auto simp: wholeText_def many1_def stripSign_def radixOf_def)

lemma prefix_radix:
  assumes "prefixText w"
  shows "\<exists>radix ds. stripSign w = (False, w) \<and> radixOf w = (radix, ds) \<and> ds \<noteq> [] \<and> (\<forall>c \<in> set ds. 0 \<le> digitOf c \<and> digitOf c < radix)"
  using assms unfolding prefixText_def sq_iff lit_def many1_def list_all_iff
proof (elim disjE exE conjE)
  fix a ds assume "w = a @ ds" "a = ''0x''" "ds \<noteq> []" "\<forall>c \<in> set ds. isHexDigit c"
  then show ?thesis using digit_values(2) by (intro exI [of _ 16] exI [of _ ds]) (auto simp: stripSign_def radixOf_def neq_Nil_conv)
next
  fix a ds assume "w = a @ ds" "a = ''0b''" "ds \<noteq> []" "\<forall>c \<in> set ds. c = CHR ''0'' \<or> c = CHR ''1''"
  then show ?thesis using digit_values(3) by (intro exI [of _ 2] exI [of _ ds]) (auto simp: stripSign_def radixOf_def neq_Nil_conv)
next
  fix a ds assume "w = a @ ds" "a = ''0o''" "ds \<noteq> []" "\<forall>c \<in> set ds. between (CHR ''0'') c (CHR ''7'')"
  then show ?thesis using digit_values(4) by (intro exI [of _ 8] exI [of _ ds]) (auto simp: stripSign_def radixOf_def neq_Nil_conv)
qed

lemma integer_text_folds:
  assumes "integerText w" "\<not> sq prefixText expText w"
  shows "\<exists>v. fromIntegerText w = Some v \<and> value_ok v"
proof -
  have "wholeText w \<or> prefixText w" using assms unfolding integerText_def sq_iff opt_def by fastforce
  then obtain radix ds where r: "stripSign w = (False, w)" "radixOf w = (radix, ds)" "ds \<noteq> []" "\<forall>c \<in> set ds. 0 \<le> digitOf c \<and> digitOf c < radix"
  proof
    assume w: "wholeText w"
    then have "w \<noteq> []" "\<forall>c \<in> set w. 0 \<le> digitOf c \<and> digitOf c < 10"
      using digit_values(1) by (auto simp: wholeText_def many1_def list_all_iff)
    then show ?thesis using that whole_radix [OF w] by blast
  next
    assume "prefixText w"
    then show ?thesis using prefix_radix that by blast
  qed
  obtain v where "fromIntegerText w = Some v" using fromIntegerText_val(1) [OF r(1,2)] r(3,4) by auto
  then show ?thesis using fromIntegerText_val(2) [OF r(1,2)] by blast
qed

text \<open>
  Integer tokens have a value: the literal folder accepts the text of every integer token the
  lexer emits, unless it can be read as a prefixed number followed by an exponent. This leaves out
  \<open>0b1e5\<close>, which the compiler refuses, and also hexadecimal numbers such as \<open>0x1e5\<close>, whose \<open>e\<close> is a digit.
\<close>

theorem integer_tokens_fold:
  assumes "b \<le> e" "e \<le> length s" "length s < 2 ^ 32" "t \<in> set (bufTokens (tokenizeRange s b e))"
    and "tKind t = TokenKind.Integer" "w = piece s (tBegin t) (tEnd t)" "\<not> sq prefixText expText w"
  shows "\<exists>v. fromIntegerText w = Some v \<and> value_ok v"
proof -
  have "lexemes s (bufTokens (tokenizeRange s b e))"
    using assms(1-3) unfolding tokenizeRange_eq [OF assms(1,2)] tokenizeImpl_def by (intro lexRange_lexemes) simp_all
  then have "integerText w" using assms(4-6) by (auto simp: lexemes_def list_all_iff)
  then show ?thesis using integer_text_folds assms(7) by blast
qed

lemma lex_seven:
  "bufTokens (tokenizeRange ''7'' 0 1) =
     [\<lparr>tBegin = 0, tEnd = 1, tKind = TokenKind.Integer, tFlags = 0\<rparr>, \<lparr>tBegin = 1, tEnd = 1, tKind = Eof, tFlags = 0\<rparr>]"
  by (simp add: lex_eval lexNumber_def lexInteger_def integerEnd_def exponentEnd_def imaginarySuffix_def isDigit_def)

theorem integer_tokens_fold_witness: "\<exists>v. fromIntegerText ''7'' = Some v \<and> value_ok v"
proof -
  have p: "piece ''7'' 0 1 = ''7''" "\<not> sq prefixText expText ''7''" by code_simp+
  show ?thesis
    using integer_tokens_fold [of 0 1 "''7''" "\<lparr>tBegin = 0, tEnd = 1, tKind = TokenKind.Integer, tFlags = 0\<rparr>" "''7''"] p
    by (simp add: lex_seven del: One_nat_def)
qed

end
