(* ===== verification/Parser_Tree.thy ===== *)
theory Parser_Tree
  imports Lexer_Buffer
begin

text \<open>
  The concrete syntax tree (\<open>cst.h\<close>, \<open>node_kinds.def\<close>, and the node access at the head of
  \<open>parser.cpp\<close>): node kinds with their categories, the flat arrays of nodes and child words, the
  syntax errors, and the handles that read a node (\<open>Node\<close>, \<open>NodeList\<close>).

  The kinds are grouped by category: expressions (\<open>Ex\<close>), types (\<open>Ty\<close>) and the others, which are
  cut into declarations and statements (\<open>De\<close>) and parts of them (\<open>Pa\<close>). A child word is a token
  index with the top bit set or a node index; \<open>Child\<close> is the decoded word, and \<open>tokenWord_decodes\<close>
  shows that the coding loses nothing below \<open>2^31\<close>. A handle without a tree is \<open>None\<close>.
\<close>

unbundle bit_operations_syntax

section \<open>Node kinds\<close>

datatype ExprKind =
    RestValue | IfExpr | MatchExpr | MatchTypeExpr | StaticForExpr | StaticLoopExpr | LoopExpr | AssignExpr
  | LogicalOrExpr | LogicalAndExpr | OrExpr | AndExpr | EqualityExpr | RelationalExpr | AdditiveExpr
  | MultiplicativeExpr | PowerExpr | NullableExpr | CastExpr | UnaryExpr | LinkExpr | RangeExpr | AnnoExpr
  | AccessExpr | RefData | ConstasData | Literal | ArrayData | StructData | TupleData | ShapeComp | FuncData

datatype TypeKind =
    TypeExpr | ArrayType | ArrayDim | SpecType | ConstData | StructType | RefType | PackType | ParenType
  | TupleType | FuncType | TypeOfType | MatchTypeType | EnumType

datatype DeclKind =
    ErrorNode | Program | StmtList | ModuleName | ImportDecl | BracedImports | ImportItem | ExportDecl
  | ResourceDecl | UsingNamespaceDecl | NamespaceDecl | BlockStmt | StmtBlock | FuncAnno | TagDecl
  | TagPositions | TagReaders | TagUse | TagRef | FuncDecl | ResourceClause | WhenClause | OperatorName
  | RuleDecl | RuleBody | FactDecl | FactBody | FactCase | FactPattern | FactClause | DataDecl | TypeDecl
  | RetStmt

datatype PartKind =
    Modifiers | ParentIdents | BracedIdents | BracketIdents | KeyTypePair | KeyValuePair | KeyParamPair
  | DataList | IdentList | IndexValues | PairedValues | StrayPositional | PairedParams | ArgumentList
  | Indices | SliceIndices | ParentParams | ParentArgues | AngledParams | AngledValues | TypeArguments
  | TypeParams | NamedTypeArgument | Pattern | EnumTuplePattern | EnumStructPattern | MatchCase
  | TypeCasePattern | TypeCase | TypeArm | MemberAccess | TypeList | IdentDef | IdentRef | LoopState
  | LoopFor | LoopWhile | EnumVariant | EnumField | TupleParam

datatype NodeKind = Ex ExprKind | Ty TypeKind | De DeclKind | Pa PartKind

datatype NodeCategory = CatOther | CatExpr | CatType

definition nodeCategory :: "NodeKind \<Rightarrow> NodeCategory" where
  "nodeCategory k = (case k of Ex _ \<Rightarrow> CatExpr | Ty _ \<Rightarrow> CatType | De _ \<Rightarrow> CatOther | Pa _ \<Rightarrow> CatOther)"

definition isExprKind :: "NodeKind \<Rightarrow> bool" where
  "isExprKind k \<longleftrightarrow> nodeCategory k = CatExpr"

definition isTypeKind :: "NodeKind \<Rightarrow> bool" where
  "isTypeKind k \<longleftrightarrow> nodeCategory k = CatType"

section \<open>Errors\<close>

datatype SyntaxErrorKind =
    Unexpected | Missing | AssignmentInCondition | MissingThen | MissingInitializer | KeywordAsName
  | ExtraSemicolon | ComparisonNeedsSpace | AngleCloseAfterSpace | LineStartsWithSign | WhenAfterBody
  | AsRightSideIsType | FuncTypeNeedsNames

text \<open>A member of \<open>expected\<close>: a token kind or one of the pseudo kinds.\<close>

datatype Expected = Tok TokenKind | Expression | Declaration | Statement | TypeExpression | PatternItem

record SyntaxError =
  sKind :: SyntaxErrorKind
  sToken :: nat
  sAux :: nat
  sExpected :: "Expected list"

section \<open>The tree\<close>

datatype Child = TokenChild nat | NodeChild nat

record NodeData =
  nFirstChild :: nat
  nChildCount :: nat
  nFirstToken :: nat
  nLastToken :: nat
  nParent :: "nat option"
  nKind :: NodeKind
  nFlags :: "8 word"

definition kEmptyNode :: "8 word" where
  "kEmptyNode = 1"

definition kPackName :: "8 word" where
  "kPackName = 2"

record Tree =
  trBuf :: TokenBuffer
  trNodes :: "NodeData list"
  trChildren :: "Child list"
  trErrors :: "SyntaxError list"
  trRoot :: "Child option"

definition hasErrors :: "Tree \<Rightarrow> bool" where
  "hasErrors t \<longleftrightarrow> trErrors t \<noteq> [] \<or> bufErrors (trBuf t) \<noteq> []"

text \<open>The 32-bit child words.\<close>

definition kTokenBit :: "32 word" where
  "kTokenBit = 0x80000000"

definition childWord :: "Child \<Rightarrow> 32 word" where
  "childWord c = (case c of TokenChild i \<Rightarrow> of_nat i OR kTokenBit | NodeChild i \<Rightarrow> of_nat i)"

definition wordIsToken :: "32 word \<Rightarrow> bool" where
  "wordIsToken w \<longleftrightarrow> w AND kTokenBit \<noteq> 0"

definition wordToken :: "32 word \<Rightarrow> nat" where
  "wordToken w = unat (w AND NOT kTokenBit)"

section \<open>Node access\<close>

definition emptyNode :: "NodeData \<Rightarrow> bool" where
  "emptyNode d \<longleftrightarrow> nFlags d AND kEmptyNode \<noteq> 0"

definition writtenAsPack :: "NodeData \<Rightarrow> bool" where
  "writtenAsPack d \<longleftrightarrow> nFlags d AND kPackName \<noteq> 0"

definition childrenOf :: "Child list \<Rightarrow> NodeData \<Rightarrow> Child list" where
  "childrenOf cs d = take (nChildCount d) (drop (nFirstChild d) cs)"

definition child :: "Tree \<Rightarrow> nat \<Rightarrow> nat \<Rightarrow> Child option" where
  "child t i index =
     (let d = trNodes t ! i
      in if index < nChildCount d then Some (trChildren t ! (nFirstChild d + index)) else None)"

text \<open>The text of the tokens a range of indices holds, white space and comments left out.\<close>

fun rangeText :: "TokenBuffer \<Rightarrow> nat \<Rightarrow> nat \<Rightarrow> string" where
  "rangeText b i 0 = []"
| "rangeText b i (Suc n) =
     (if isTrivia (tKind (bufTokens b ! i)) then [] else tokenText b (bufTokens b ! i)) @ rangeText b (i + 1) n"

definition nodeText :: "Tree \<Rightarrow> nat \<Rightarrow> string" where
  "nodeText t i =
     (let d = trNodes t ! i
      in if emptyNode d then [] else rangeText (trBuf t) (nFirstToken d) (nLastToken d + 1 - nFirstToken d))"

definition sourceText :: "Tree \<Rightarrow> nat \<Rightarrow> string" where
  "sourceText t i =
     (let d = trNodes t ! i; b = tBegin (bufTokens (trBuf t) ! nFirstToken d);
          e = tEnd (bufTokens (trBuf t) ! nLastToken d)
      in take (e - b) (drop b (bufSource (trBuf t))))"

datatype NodeFilter = AnyExpr | AnyType | AnyNode | IsKind NodeKind

definition passes :: "NodeKind \<Rightarrow> NodeFilter \<Rightarrow> bool" where
  "passes k f = (case f of AnyExpr \<Rightarrow> isExprKind k | AnyType \<Rightarrow> isTypeKind k | AnyNode \<Rightarrow> True | IsKind q \<Rightarrow> k = q)"

definition passesChild :: "Tree \<Rightarrow> NodeFilter \<Rightarrow> Child \<Rightarrow> bool" where
  "passesChild t f c = (case c of TokenChild _ \<Rightarrow> False | NodeChild i \<Rightarrow> passes (nKind (trNodes t ! i)) f)"

fun nthPassing :: "('a \<Rightarrow> bool) \<Rightarrow> 'a list \<Rightarrow> nat \<Rightarrow> 'a option" where
  "nthPassing P [] k = None"
| "nthPassing P (x # xs) k =
     (if P x then if k = 0 then Some x else nthPassing P xs (k - 1) else nthPassing P xs k)"

fun countPassing :: "('a \<Rightarrow> bool) \<Rightarrow> 'a list \<Rightarrow> nat" where
  "countPassing P [] = 0"
| "countPassing P (x # xs) = (if P x then countPassing P xs + 1 else countPassing P xs)"

definition nodeBy :: "Tree \<Rightarrow> nat \<Rightarrow> NodeFilter \<Rightarrow> nat \<Rightarrow> Child option" where
  "nodeBy t i f k = nthPassing (passesChild t f) (childrenOf (trChildren t) (trNodes t ! i)) k"

definition countBy :: "Tree \<Rightarrow> nat \<Rightarrow> NodeFilter \<Rightarrow> nat" where
  "countBy t i f = countPassing (passesChild t f) (childrenOf (trChildren t) (trNodes t ! i))"

definition isTokenOf :: "Tree \<Rightarrow> TokenKind \<Rightarrow> Child \<Rightarrow> bool" where
  "isTokenOf t k c = (case c of TokenChild i \<Rightarrow> tKind (bufTokens (trBuf t) ! i) = k | NodeChild _ \<Rightarrow> False)"

definition tok :: "Tree \<Rightarrow> nat \<Rightarrow> TokenKind \<Rightarrow> nat \<Rightarrow> Child option" where
  "tok t i kind k = nthPassing (isTokenOf t kind) (childrenOf (trChildren t) (trNodes t ! i)) k"

definition tokCount :: "Tree \<Rightarrow> nat \<Rightarrow> TokenKind \<Rightarrow> nat" where
  "tokCount t i k = countPassing (isTokenOf t k) (childrenOf (trChildren t) (trNodes t ! i))"

text \<open>\<open>NodeList\<close>: the child nodes that pass a filter, skipping the others.\<close>

fun nodeListSkip :: "Tree \<Rightarrow> NodeFilter \<Rightarrow> Child list \<Rightarrow> Child list" where
  "nodeListSkip t f [] = []"
| "nodeListSkip t f (c # cs) = (if passesChild t f c then c # cs else nodeListSkip t f cs)"

lemma nodeListSkip_length: "length (nodeListSkip t f cs) \<le> length cs"
  by (induction cs) auto

function nodeListWalk :: "Tree \<Rightarrow> NodeFilter \<Rightarrow> Child list \<Rightarrow> Child list" where
  "nodeListWalk t f cs = (case nodeListSkip t f cs of [] \<Rightarrow> [] | c # rest \<Rightarrow> c # nodeListWalk t f rest)"
  by auto
termination
proof (relation "measure (\<lambda>(t, f, cs). length cs)")
  fix t f cs c rest assume "nodeListSkip t f cs = c # rest"
  then have "length rest < length cs" using nodeListSkip_length [of t f cs] by simp
  then show "((t, f, rest), t, f, cs) \<in> measure (\<lambda>(t, f, cs). length cs)" by simp
qed simp

declare nodeListWalk.simps [simp del]

definition nodeList :: "Tree \<Rightarrow> nat \<Rightarrow> NodeFilter \<Rightarrow> Child list" where
  "nodeList t i f = nodeListWalk t f (childrenOf (trChildren t) (trNodes t ! i))"

section \<open>The handles agree\<close>

lemma tokenWord_decodes:
  assumes "i < 2 ^ 31"
  shows "wordIsToken (childWord (TokenChild i))" "wordToken (childWord (TokenChild i)) = i"
    "\<not> wordIsToken (childWord (NodeChild i))" "unat (childWord (NodeChild i)) = i"
proof -
  have i: "unat (of_nat i :: 32 word) = i" using assms by (simp add: unat_of_nat)
  have low: "\<not> bit (of_nat i :: 32 word) 31"
  proof -
    have "bit (of_nat i :: 32 word) 31 \<longleftrightarrow> bit (unat (of_nat i :: 32 word)) 31" by (simp add: bit_unsigned_iff)
    also have "\<dots> \<longleftrightarrow> odd (i div 2 ^ 31)" by (simp only: i bit_iff_odd)
    finally show ?thesis using assms by simp
  qed
  have k: "kTokenBit = push_bit 31 1" by (simp add: kTokenBit_def push_bit_eq_mult)
  have bits: "bit kTokenBit n \<longleftrightarrow> n = 31" if "n < 32" for n using that unfolding k bit_push_bit_iff by (auto simp: bit_1_iff)
  have tok: "wordIsToken w \<longleftrightarrow> bit w 31" for w :: "32 word"
  proof -
    have "w AND kTokenBit = 0 \<longleftrightarrow> (\<forall>n < 32. \<not> bit (w AND kTokenBit) n)"
      using bit_word_eqI [of "w AND kTokenBit" 0] by auto
    then show ?thesis using bits by (auto simp: wordIsToken_def bit_and_iff)
  qed
  show "wordIsToken (childWord (TokenChild i))" by (simp add: tok childWord_def bit_or_iff bits)
  show "\<not> wordIsToken (childWord (NodeChild i))" using low by (simp add: tok childWord_def)
  show "unat (childWord (NodeChild i)) = i" by (simp add: childWord_def i)
  have "(of_nat i OR kTokenBit) AND NOT kTokenBit = (of_nat i :: 32 word)"
  proof (rule bit_word_eqI)
    fix n assume "n < LENGTH(32)"
    then show "bit ((of_nat i OR kTokenBit) AND NOT kTokenBit) n = bit (of_nat i :: 32 word) n"
      using low bits by (auto simp: bit_and_iff bit_or_iff bit_not_iff)
  qed
  then show "wordToken (childWord (TokenChild i)) = i" by (simp add: wordToken_def childWord_def i)
qed

lemma nthPassing_filter: "nthPassing P xs k = (if k < length (filter P xs) then Some (filter P xs ! k) else None)"
  by (induction xs arbitrary: k) (auto simp: nth_Cons split: nat.splits)

lemma countPassing_filter: "countPassing P xs = length (filter P xs)"
  by (induction xs) auto

lemma nodeListSkip_filter: "filter (passesChild t f) (nodeListSkip t f cs) = filter (passesChild t f) cs"
  by (induction cs) auto

lemma nodeListSkip_head: "nodeListSkip t f cs = c # rest \<Longrightarrow> passesChild t f c"
  by (induction cs) (auto split: if_splits)

lemma nodeListWalk_filter: "nodeListWalk t f cs = filter (passesChild t f) cs"
proof (induction t f cs rule: nodeListWalk.induct)
  case (1 t f cs)
  show ?case
  proof (cases "nodeListSkip t f cs")
    case Nil
    then show ?thesis using nodeListSkip_filter [of t f cs] by (simp add: nodeListWalk.simps [of t f cs])
  next
    case (Cons c rest)
    then have "nodeListWalk t f cs = c # filter (passesChild t f) rest" using 1 by (simp add: nodeListWalk.simps [of t f cs])
    also have "\<dots> = filter (passesChild t f) (nodeListSkip t f cs)" using Cons nodeListSkip_head [OF Cons] by simp
    finally show ?thesis by (simp only: nodeListSkip_filter)
  qed
qed

text \<open>The iterator, the indexed access and the count describe one list.\<close>

lemma nodeList_agrees:
  "countBy t i f = length (nodeList t i f)"
  "nodeBy t i f k = (if k < length (nodeList t i f) then Some (nodeList t i f ! k) else None)"
  by (simp_all add: countBy_def nodeBy_def nodeList_def nodeListWalk_filter nthPassing_filter countPassing_filter)

end
