(* ===== verification/Parser_State.thy ===== *)
theory Parser_State
  imports Parser_Tree
begin

text \<open>
  The parser's state and helpers (\<open>parser_impl.h\<close> and the infrastructure of \<open>parser.cpp\<close>): the
  token cursor, the child stack and how a node is closed, the layout scopes, errors and
  \<open>panic_\<close>, what a declaration starts with, recovery, and the lookaheads.

  \<open>PState\<close> has the members of \<open>ParserImpl\<close> in their order, with the members of the tree under
  construction in place of \<open>tree_\<close>; \<open>kNone\<close> is \<open>None\<close>. A member function takes the state and
  returns the changed one, and \<open>None\<close> where it would not return. A local object that restores the
  layout context (\<open>Scope\<close>, \<open>Depth\<close>, ...) is a function that runs its scope. \<open>kindAt\<close> past the last
  token is \<open>Eof\<close>, a reading the source never makes (\<open>offsetOf_less\<close>).
\<close>

record PState =
  pBuf :: TokenBuffer
  pNodes :: "NodeData list"
  pChildren :: "Child list"
  pErrors :: "SyntaxError list"
  pPos :: nat
  pPrev :: nat
  pCur :: TokenKind
  pStack :: "Child list"
  pNl :: bool
  pAngle :: "nat option"
  pConstData :: bool
  pSpacedGt :: "nat option"
  pLambdaParams :: bool
  pPanic :: bool
  pDepth :: nat
  pTypeHead :: bool

definition kMaxDepth :: nat where
  "kMaxDepth = 400"

text \<open>A loop of the source: the condition and the body, which may not return.\<close>

partial_function (option) whileO :: "('s \<Rightarrow> bool) \<Rightarrow> ('s \<Rightarrow> 's option) \<Rightarrow> 's \<Rightarrow> 's option" where
  [code]: "whileO c b s = (if c s then do { s' \<leftarrow> b s; whileO c b s' } else Some s)"

section \<open>Tokens\<close>

abbreviation pToks :: "PState \<Rightarrow> Token list" where
  "pToks st \<equiv> bufTokens (pBuf st)"

definition kindAt :: "Token list \<Rightarrow> nat \<Rightarrow> TokenKind" where
  "kindAt ts i = (if i < length ts then tKind (ts ! i) else Eof)"

function skipTrivia :: "Token list \<Rightarrow> nat \<Rightarrow> nat" where
  "skipTrivia ts i = (if i < length ts \<and> isTrivia (tKind (ts ! i)) then skipTrivia ts (i + 1) else i)"
  by auto
termination by (relation "measure (\<lambda>(ts, i). length ts - i)") auto

definition nextSolid :: "Token list \<Rightarrow> nat \<Rightarrow> nat" where
  "nextSolid ts i = skipTrivia ts (i + 1)"

declare skipTrivia.simps [simp del]

lemma skipTrivia_ge: "i \<le> skipTrivia ts i"
proof (induction ts i rule: skipTrivia.induct)
  case (1 ts i) then show ?case by (subst skipTrivia.simps) auto
qed

lemma nextSolid_less: "i < nextSolid ts i"
  using skipTrivia_ge [of "i + 1" ts] by (simp add: nextSolid_def)

lemma kindAt_less: "kindAt ts i \<noteq> Eof \<Longrightarrow> i < length ts"
  by (auto simp: kindAt_def split: if_splits)

lemma solid_decreases: "kindAt ts i \<noteq> Eof \<Longrightarrow> length ts - nextSolid ts i < length ts - i"
  using kindAt_less [of ts i] nextSolid_less [of i ts] by simp

fun solidFrom :: "Token list \<Rightarrow> nat \<Rightarrow> nat \<Rightarrow> nat" where
  "solidFrom ts i 0 = i"
| "solidFrom ts i (Suc n) = (if kindAt ts i \<noteq> Eof then solidFrom ts (nextSolid ts i) n else i)"

definition offsetOf :: "PState \<Rightarrow> nat \<Rightarrow> nat" where
  "offsetOf st n = solidFrom (pToks st) (pPos st) n"

definition peek :: "PState \<Rightarrow> nat \<Rightarrow> TokenKind" where
  "peek st n = kindAt (pToks st) (offsetOf st n)"

definition tokenTextAt :: "PState \<Rightarrow> nat \<Rightarrow> string" where
  "tokenTextAt st i = tokenText (pBuf st) (pToks st ! i)"

definition atWord :: "PState \<Rightarrow> nat \<Rightarrow> string \<Rightarrow> bool" where
  "atWord st n word \<longleftrightarrow> kindAt (pToks st) (offsetOf st n) = Identifier \<and> tokenTextAt st (offsetOf st n) = word"

definition advance :: "PState \<Rightarrow> PState" where
  "advance st =
     (if pCur st = Eof then st
      else let p = nextSolid (pToks st) (pPos st)
           in st\<lparr>pPrev := pPos st, pPos := p, pCur := kindAt (pToks st) p\<rparr>)"

definition bump :: "PState \<Rightarrow> PState" where
  "bump st = advance (st\<lparr>pStack := pStack st @ [TokenChild (pPos st)], pPanic := False\<rparr>)"

text \<open>The token becomes a child and the error state stays (\<open>recover\<close> and the steps over a token).\<close>

definition pushToken :: "PState \<Rightarrow> PState" where
  "pushToken st = st\<lparr>pStack := pStack st @ [TokenChild (pPos st)]\<rparr>"

definition eat :: "TokenKind \<Rightarrow> PState \<Rightarrow> bool \<times> PState" where
  "eat kind st = (if pCur st = kind then (True, bump st) else (False, st))"

definition eatOpt :: "TokenKind \<Rightarrow> PState \<Rightarrow> PState" where
  "eatOpt kind st = snd (eat kind st)"

definition curTok :: "PState \<Rightarrow> Token" where
  "curTok st = pToks st ! pPos st"

definition lineBreak :: "PState \<Rightarrow> bool" where
  "lineBreak st \<longleftrightarrow> pNl st \<and> newlineBefore (curTok st)"

definition adjacent :: "PState \<Rightarrow> bool" where
  "adjacent st \<longleftrightarrow> \<not> spaceBefore (curTok st)"

section \<open>The tree\<close>

abbreviation mark :: "PState \<Rightarrow> nat" where
  "mark st \<equiv> length (pStack st)"

definition setParent :: "nat \<Rightarrow> Child \<Rightarrow> NodeData list \<Rightarrow> NodeData list" where
  "setParent i word ns =
     (case word of TokenChild _ \<Rightarrow> ns | NodeChild c \<Rightarrow> ns[c := (ns ! c)\<lparr>nParent := Some i\<rparr>])"

text \<open>The span of a child; \<open>None\<close> for a child without tokens.\<close>

definition childSpan :: "NodeData list \<Rightarrow> Child \<Rightarrow> (nat \<times> nat) option" where
  "childSpan ns word =
     (case word of
        TokenChild i \<Rightarrow> Some (i, i)
      | NodeChild c \<Rightarrow> if emptyNode (ns ! c) then None else Some (nFirstToken (ns ! c), nLastToken (ns ! c)))"

text \<open>The loop of \<open>close\<close>: the nodes, the child array, the span so far.\<close>

fun closeLoop ::
  "nat \<Rightarrow> Child list \<Rightarrow> NodeData list \<Rightarrow> Child list \<Rightarrow> (nat \<times> nat) option \<Rightarrow>
   NodeData list \<times> Child list \<times> (nat \<times> nat) option" where
  "closeLoop i [] ns cs sp = (ns, cs, sp)"
| "closeLoop i (word # words) ns cs sp =
     (let ns' = setParent i word ns
      in closeLoop i words ns' (cs @ [word])
           (case childSpan ns' word of
              None \<Rightarrow> sp
            | Some (a, b) \<Rightarrow> Some (case sp of None \<Rightarrow> (a, b) | Some (f, l) \<Rightarrow> (f, b))))"

definition close :: "nat \<Rightarrow> NodeKind \<Rightarrow> PState \<Rightarrow> PState" where
  "close m kind st =
     (let i = length (pNodes st);
          (ns, cs, sp) = closeLoop i (drop m (pStack st)) (pNodes st) (pChildren st) None;
          node = \<lparr>nFirstChild = length (pChildren st), nChildCount = length (pStack st) - m,
                  nFirstToken = (case sp of None \<Rightarrow> pPos st | Some (f, l) \<Rightarrow> f),
                  nLastToken = (case sp of None \<Rightarrow> pPos st | Some (f, l) \<Rightarrow> l),
                  nParent = None, nKind = kind, nFlags = (case sp of None \<Rightarrow> kEmptyNode | Some _ \<Rightarrow> 0)\<rparr>
      in st\<lparr>pNodes := ns @ [node], pChildren := cs, pStack := take m (pStack st) @ [NodeChild i]\<rparr>)"

definition markNameAsPack :: "nat \<Rightarrow> PState \<Rightarrow> PState" where
  "markNameAsPack m st =
     (if length (pStack st) \<noteq> m + 1 then st
      else case last (pStack st) of
             TokenChild _ \<Rightarrow> st
           | NodeChild i \<Rightarrow>
               if nKind (pNodes st ! i) \<noteq> Pa IdentDef then st
               else st\<lparr>pNodes := (pNodes st)[i := (pNodes st ! i)\<lparr>nFlags := or (nFlags (pNodes st ! i)) kPackName\<rparr>]\<rparr>)"

section \<open>Layout scopes\<close>

definition inScope :: "bool \<Rightarrow> nat option \<Rightarrow> (PState \<Rightarrow> PState option) \<Rightarrow> PState \<Rightarrow> PState option" where
  "inScope newNl newAngle f st =
     do { st' \<leftarrow> f (st\<lparr>pNl := newNl, pAngle := newAngle, pSpacedGt := None\<rparr>);
          Some (st'\<lparr>pNl := pNl st, pAngle := pAngle st, pSpacedGt := pSpacedGt st\<rparr>) }"

definition inConstData :: "bool \<Rightarrow> (PState \<Rightarrow> PState option) \<Rightarrow> PState \<Rightarrow> PState option" where
  "inConstData inside f st = do { st' \<leftarrow> f (st\<lparr>pConstData := inside\<rparr>); Some (st'\<lparr>pConstData := pConstData st\<rparr>) }"

definition inTypeHead :: "(PState \<Rightarrow> PState option) \<Rightarrow> PState \<Rightarrow> PState option" where
  "inTypeHead f st = do { st' \<leftarrow> f (st\<lparr>pTypeHead := True\<rparr>); Some (st'\<lparr>pTypeHead := pTypeHead st\<rparr>) }"

definition inDepth :: "(PState \<Rightarrow> PState option) \<Rightarrow> PState \<Rightarrow> PState option" where
  "inDepth f st = do { st' \<leftarrow> f (st\<lparr>pDepth := pDepth st + 1\<rparr>); Some (st'\<lparr>pDepth := pDepth st' - 1\<rparr>) }"

definition tooDeep :: "PState \<Rightarrow> bool" where
  "tooDeep st \<longleftrightarrow> kMaxDepth < pDepth st"

section \<open>Errors\<close>

text \<open>Rule 1: an error directly inside an angle-bracket list may be about the bracket.\<close>

definition angleError :: "SyntaxError \<Rightarrow> PState \<Rightarrow> SyntaxError" where
  "angleError err st =
     (if sKind err \<in> {Unexpected, Missing}
      then case pAngle st of
             None \<Rightarrow> err
           | Some a \<Rightarrow>
               (case pSpacedGt st of
                  Some g \<Rightarrow> err\<lparr>sKind := AngleCloseAfterSpace, sAux := g\<rparr>
                | None \<Rightarrow> if kindAt (pToks st) a = Pn LAngle then err\<lparr>sKind := ComparisonNeedsSpace, sAux := a\<rparr> else err)
      else err)"

definition error :: "SyntaxErrorKind \<Rightarrow> Expected list \<Rightarrow> nat \<Rightarrow> PState \<Rightarrow> PState" where
  "error kind expected loc st =
     (if pPanic st then st
      else st\<lparr>pPanic := True,
              pErrors := pErrors st @ [angleError \<lparr>sKind = kind, sToken = loc, sAux = 0, sExpected = expected\<rparr> st]\<rparr>)"

definition errorAux :: "SyntaxErrorKind \<Rightarrow> Expected list \<Rightarrow> nat \<Rightarrow> nat \<Rightarrow> PState \<Rightarrow> PState" where
  "errorAux kind expected loc aux st =
     (let st' = error kind expected loc st
      in if length (pErrors st) < length (pErrors st')
         then st'\<lparr>pErrors := butlast (pErrors st') @ [(last (pErrors st'))\<lparr>sAux := aux\<rparr>]\<rparr>
         else st')"

definition unexpected :: "Expected list \<Rightarrow> PState \<Rightarrow> PState" where
  "unexpected expected st = error Unexpected expected (pPos st) st"

definition expect :: "TokenKind \<Rightarrow> PState \<Rightarrow> bool \<times> PState" where
  "expect kind st = (if pCur st = kind then (True, bump st) else (False, error Missing [Tok kind] (pPos st) st))"

definition expectOpt :: "TokenKind \<Rightarrow> PState \<Rightarrow> PState" where
  "expectOpt kind st = snd (expect kind st)"

definition expectListEnd :: "TokenKind \<Rightarrow> PState \<Rightarrow> PState" where
  "expectListEnd closer st = (if pCur st = closer then bump st else unexpected [Tok (Pn Comma), Tok closer] st)"

text \<open>A name was required: a keyword in its place is reported as such.\<close>

definition nameError :: "PState \<Rightarrow> PState" where
  "nameError st =
     (if isKeyword (pCur st) then error KeywordAsName [Tok Identifier] (pPos st) st
      else unexpected [Tok Identifier] st)"

definition expectName :: "NodeKind \<Rightarrow> PState \<Rightarrow> PState" where
  "expectName wrapAs st = (if pCur st = Identifier then close (mark st) wrapAs (bump st) else nameError st)"

section \<open>Lookaheads\<close>

definition isModifier :: "TokenKind \<Rightarrow> bool" where
  "isModifier kind \<longleftrightarrow> kind = Kw KwSync"

definition braceIsStruct :: "PState \<Rightarrow> nat \<Rightarrow> bool" where
  "braceIsStruct st n \<longleftrightarrow>
     peek st (n + 1) = Identifier \<and> peek st (n + 2) = Pn Colon \<or>
     peek st (n + 1) = Kw KwStatic \<and> peek st (n + 2) = Kw KwFor"

definition lastRefIsPath :: "PState \<Rightarrow> bool" where
  "lastRefIsPath st \<longleftrightarrow>
     pStack st \<noteq> [] \<and>
     (case last (pStack st) of
        TokenChild _ \<Rightarrow> False
      | NodeChild i \<Rightarrow>
          let node = pNodes st ! i
          in nKind node = Ex RefData \<and>
             (\<exists>t \<in> set [nFirstToken node ..< nLastToken node + 1]. kindAt (pToks st) t = Pn ColonColon))"

definition literalSignAhead :: "PState \<Rightarrow> bool" where
  "literalSignAhead st \<longleftrightarrow>
     pCur st \<in> {Pn Minus, Pn Plus} \<and> peek st 1 \<in> {TokenKind.Integer, TokenKind.Real, Imaginary}"

definition pairStartsAt :: "PState \<Rightarrow> nat \<Rightarrow> bool" where
  "pairStartsAt st n \<longleftrightarrow> peek st n = Identifier \<and> peek st (n + 1) = Pn Colon"

definition atTagDecl :: "PState \<Rightarrow> nat \<Rightarrow> bool" where
  "atTagDecl st n \<longleftrightarrow>
     atWord st n ''tag'' \<and> peek st (n + 1) = Identifier \<and>
     (peek st (n + 2) \<in> {Pn ColonColon, Pn LParen, Pn Assign} \<or> atWord st (n + 2) ''on'')"

definition atResourceDecl :: "PState \<Rightarrow> nat \<Rightarrow> bool" where
  "atResourceDecl st n \<longleftrightarrow> atWord st n ''resource'' \<and> peek st (n + 1) = Identifier"

definition tokenIndexAt :: "PState \<Rightarrow> nat \<Rightarrow> nat" where
  "tokenIndexAt st n = (nextSolid (pToks st) ^^ n) (pPos st)"

definition atRuleDecl :: "PState \<Rightarrow> nat \<Rightarrow> bool" where
  "atRuleDecl st n \<longleftrightarrow>
     peek st n = Identifier \<and> peek st (n + 1) = Identifier \<and>
     peek st (n + 2) \<in> {Pn LParen, Pn ColonColon, Pn Lt, Pn LAngle} \<and>
     tokenTextAt st (tokenIndexAt st n) = ''rule''"

text \<open>The token index of the \<open>>\<close> that closes the brackets, or of the end.\<close>

function closingAngle :: "Token list \<Rightarrow> nat \<Rightarrow> int \<Rightarrow> nat" where
  "closingAngle ts i depth =
     (if kindAt ts i = Eof then i
      else if kindAt ts i \<in> {Pn Lt, Pn LAngle} then closingAngle ts (nextSolid ts i) (depth + 1)
      else if kindAt ts i = Pn Gt
      then if depth - 1 = 0 then i else closingAngle ts (nextSolid ts i) (depth - 1)
      else closingAngle ts (nextSolid ts i) depth)"
  by auto

termination by (relation "measure (\<lambda>(ts, i, depth). length ts - i)") (auto intro!: solid_decreases)

text \<open>The number of tokens from one index up to another.\<close>

function solidCount :: "Token list \<Rightarrow> nat \<Rightarrow> nat \<Rightarrow> nat" where
  "solidCount ts j i = (if j < i then solidCount ts (nextSolid ts j) i + 1 else 0)"
  by auto
termination by (relation "measure (\<lambda>(ts, j, i). i - j)") (auto intro: diff_less_mono2 nextSolid_less)

definition afterAngledParams :: "PState \<Rightarrow> nat \<Rightarrow> nat option" where
  "afterAngledParams st ang =
     (if peek st ang \<notin> {Pn Lt, Pn LAngle} then None
      else let i = closingAngle (pToks st) (tokenIndexAt st ang) 0
           in if kindAt (pToks st) i = Eof then None else Some (solidCount (pToks st) (pPos st) i + 1))"

definition atFactDecl :: "PState \<Rightarrow> nat \<Rightarrow> bool" where
  "atFactDecl st n =
     (case (if peek st n = Kw KwWith then afterAngledParams st (n + 1) else Some n) of
        None \<Rightarrow> False
      | Some n' \<Rightarrow>
          let k = (if peek st n' = Kw KwExport then n' + 1 else n')
          in peek st k = Identifier \<and> peek st (k + 1) = Identifier \<and>
             peek st (k + 2) \<in> {Pn LParen, Pn Colon, Pn ColonColon} \<and>
             tokenTextAt st (tokenIndexAt st k) = ''fact'')"

definition atOperatorName :: "PState \<Rightarrow> bool" where
  "atOperatorName st \<longleftrightarrow>
     pCur st = Identifier \<and> tokenTextAt st (pPos st) = ''operator'' \<and> isPunctuation (peek st 1) \<and> peek st 1 \<noteq> Pn LParen"

end
