(* ===== verification/Parser_Look.thy ===== *)
theory Parser_Look
  imports Parser_State
begin

text \<open>
  The lookaheads that walk the token buffer (\<open>lambdaAhead\<close>, \<open>shapeCompAhead\<close>,
  \<open>parenClosesBeforeArrow\<close>), the tokens a declaration, a statement, an expression or a type starts
  with, and \<open>recover\<close>, which skips to the next place a statement can start. The unbounded loops of
  the source end at the end of the buffer (\<open>peek_less\<close>).
\<close>

section \<open>What starts with a token\<close>

definition startsExpr :: "TokenKind \<Rightarrow> bool" where
  "startsExpr kind \<longleftrightarrow>
     kind \<in> {Identifier, TokenKind.Integer, TokenKind.Real, Imaginary, TokenKind.String, RawString, MultiStr, FString,
             Kw KwTrue, Kw KwFalse, Kw KwNull, Pn LParen, Pn LBracket, Pn LBrace, Pn Lt, Pn LAngle, Pn Minus,
             Pn Plus, Pn Bang, Pn Tilde, Kw KwIf, Kw KwMatch, Kw KwLoop, Kw KwSync}"

definition startsDecl :: "PState \<Rightarrow> TokenKind \<Rightarrow> bool" where
  "startsDecl st kind \<longleftrightarrow>
     kind \<in> {Kw KwImport, Kw KwExport, Kw KwNamespace, Kw KwUsing, Kw KwLet, Kw KwVar, Kw KwFunc, Kw KwType,
             Kw KwWith, Pn At, Pn Hash} \<or>
     kind = Identifier \<and> (atTagDecl st 0 \<or> atResourceDecl st 0)"

definition startsStmt :: "TokenKind \<Rightarrow> bool" where
  "startsStmt kind \<longleftrightarrow>
     kind \<in> {Kw KwLet, Kw KwVar, Kw KwFunc, Kw KwType, Kw KwUsing, Kw KwWith, Kw KwExport, Kw KwReturn,
             Kw KwYield, Pn At, Pn Hash, Kw KwStatic} \<or> startsExpr kind"

definition typeStartsAt :: "PState \<Rightarrow> nat \<Rightarrow> bool" where
  "typeStartsAt st n \<longleftrightarrow> peek st n \<in> {Identifier, Pn LParen, Pn LBrace, Pn Lt, Kw KwTypeof, Kw KwEnum}"

section \<open>Walks over the buffer\<close>

lemma solidFrom_less: "kindAt ts (solidFrom ts i n) \<noteq> Eof \<Longrightarrow> i + n \<le> solidFrom ts i n"
proof (induction n arbitrary: i)
  case (Suc n)
  then have "kindAt ts i \<noteq> Eof" by (auto split: if_splits)
  then show ?case using Suc.IH [of "nextSolid ts i"] Suc.prems nextSolid_less [of i ts] by simp
qed simp

lemma peek_less: "peek st n \<noteq> Eof \<Longrightarrow> pPos st + n < length (pToks st)"
  using solidFrom_less [of "pToks st" "pPos st" n] kindAt_less [of "pToks st" "offsetOf st n"]
  unfolding peek_def offsetOf_def by linarith

lemma peek_decreases: "peek st n \<noteq> Eof \<Longrightarrow> n < m \<Longrightarrow> length (pToks st) - m < length (pToks st) - n"
  using peek_less [of st n] by simp

definition afterParams :: "PState \<Rightarrow> nat \<Rightarrow> bool" where
  "afterParams st n \<longleftrightarrow> peek st n \<in> {Pn FatArrow, Pn Colon}"

text \<open>Counts parentheses to the one that ends the list, and looks behind it.\<close>

function parenScan :: "PState \<Rightarrow> nat \<Rightarrow> nat \<Rightarrow> bool" where
  "parenScan st i depth =
     (if peek st i = Eof then False
      else if peek st i = Pn LParen then parenScan st (i + 1) (depth + 1)
      else if peek st i = Pn RParen
      then if depth = 1 then afterParams st (i + 1) else parenScan st (i + 1) (depth - 1)
      else parenScan st (i + 1) depth)"
  by auto
termination by (relation "measure (\<lambda>(st, i, depth). length (pToks st) - i)") (auto intro!: peek_decreases)

text \<open>The offset after a list of names.\<close>

function nameScan :: "PState \<Rightarrow> nat \<Rightarrow> nat option" where
  "nameScan st i =
     (if peek st i \<noteq> Identifier then None
      else if peek st (i + 1) = Pn Comma then nameScan st (i + 2)
      else Some (i + 1))"
  by auto
termination by (relation "measure (\<lambda>(st, i). length (pToks st) - i)") (auto intro!: peek_decreases)

definition lambdaAhead :: "PState \<Rightarrow> bool" where
  "lambdaAhead st =
     (let t1 = peek st 1
      in if t1 = Kw KwVar then True
         else if t1 \<in> {Pn DotDot, Pn Ellipsis} then parenScan st 0 0
         else if t1 = Identifier
         then if peek st 2 = Pn Colon then True
              else if peek st 2 \<notin> {Pn Comma, Pn RParen} then False
              else parenScan st 0 0
         else if t1 = Pn RParen then afterParams st 2
         else if t1 = Pn LParen
         then if peek st 2 \<noteq> Identifier then False
              else (case nameScan st 2 of
                      None \<Rightarrow> False
                    | Some i \<Rightarrow>
                        if peek st i \<noteq> Pn RParen then False
                        else if peek st (i + 1) = Pn RParen then afterParams st (i + 2)
                        else if peek st (i + 1) \<noteq> Pn Comma then False
                        else parenScan st (i + 1) 1)
         else if t1 = Pn Comma \<and> peek st 2 = Pn RParen then afterParams st 3
         else False)"

text \<open>At most 512 tokens.\<close>

fun parenArrowScan :: "PState \<Rightarrow> nat \<Rightarrow> nat \<Rightarrow> int \<Rightarrow> bool" where
  "parenArrowScan st 0 n depth = False"
| "parenArrowScan st (Suc steps) n depth =
     (if peek st n = Eof then False
      else if peek st n = Pn LParen then parenArrowScan st steps (n + 1) (depth + 1)
      else if peek st n = Pn RParen
      then if depth - 1 = 0 then peek st (n + 1) = Pn FatArrow else parenArrowScan st steps (n + 1) (depth - 1)
      else parenArrowScan st steps (n + 1) depth)"

definition parenClosesBeforeArrow :: "PState \<Rightarrow> bool" where
  "parenClosesBeforeArrow st = parenArrowScan st 512 0 0"

definition bracketCloser :: "TokenKind \<Rightarrow> TokenKind option" where
  "bracketCloser kind =
     (if kind = Pn LParen then Some (Pn RParen)
      else if kind = Pn LBracket then Some (Pn RBracket)
      else if kind = Pn LBrace then Some (Pn RBrace)
      else if kind = Pn LAngle then Some (Pn Gt)
      else None)"

text \<open>At most 1024 tokens; the stack of closers has its top at the head.\<close>

fun shapeScan :: "Token list \<Rightarrow> nat \<Rightarrow> nat \<Rightarrow> TokenKind list \<Rightarrow> TokenKind option \<Rightarrow> bool" where
  "shapeScan ts 0 i closers previous = False"
| "shapeScan ts (Suc steps) i closers previous =
     (let kind = kindAt ts i; i' = nextSolid ts i
      in if kind \<in> {Eof, Pn Semi} then False
         else if closers \<noteq> []
         then if kind = hd closers then shapeScan ts steps i' (tl closers) (Some kind)
              else (case bracketCloser kind of
                      Some c \<Rightarrow> shapeScan ts steps i' (c # closers) previous
                    | None \<Rightarrow> shapeScan ts steps i' closers previous)
         else if kind = Pn LBrace
         then if kindAt ts i' = Kw KwStatic \<and> kindAt ts (nextSolid ts i') = Kw KwFor then True
              else shapeScan ts steps i' [Pn RBrace] (Some kind)
         else (case bracketCloser kind of
                 Some c \<Rightarrow>
                   if kind = Pn LParen \<and>
                      previous \<in> {Some Identifier, Some (Pn RParen), Some (Pn RBracket), Some (Pn Gt)} then False
                   else if kind = Pn LAngle \<and> previous \<noteq> Some Identifier then False
                   else shapeScan ts steps i' [c] (Some kind)
               | None \<Rightarrow>
                   if \<not> (kind = Identifier \<and> previous \<in> {None, Some (Pn ColonColon), Some (Kw KwTypeof)}) \<and>
                      kind \<notin> {Pn ColonColon, Pn Question, Pn Bang, Pn DotDot, Pn Ellipsis} then False
                   else shapeScan ts steps i' [] (Some kind)))"

definition shapeCompAhead :: "PState \<Rightarrow> bool" where
  "shapeCompAhead st \<longleftrightarrow>
     typeStartsAt st 0 \<and>
     \<not> (pCur st = Pn LBrace \<and> peek st 1 = Kw KwStatic \<and> peek st 2 = Kw KwFor) \<and>
     shapeScan (pToks st) 1024 (pPos st) [] None"

function modifiersFrom :: "PState \<Rightarrow> nat \<Rightarrow> nat" where
  "modifiersFrom st n = (if isModifier (peek st n) then modifiersFrom st (n + 1) else n)"
  by auto
termination by (relation "measure (\<lambda>(st, n). length (pToks st) - n)") (auto simp: isModifier_def intro!: peek_decreases)

definition afterModifiers :: "PState \<Rightarrow> nat" where
  "afterModifiers st = modifiersFrom st 0"

declare parenScan.simps [simp del] nameScan.simps [simp del] modifiersFrom.simps [simp del]
declare closingAngle.simps [simp del] solidCount.simps [simp del]

section \<open>Recovery\<close>

definition recoverStops :: "bool \<Rightarrow> bool \<Rightarrow> nat \<Rightarrow> PState \<Rightarrow> bool" where
  "recoverStops inBlock topLevel start st \<longleftrightarrow>
     pCur st = Pn Semi \<or> pCur st = Pn RBrace \<and> inBlock \<or>
     pPos st \<noteq> start \<and> newlineBefore (curTok st) \<and>
       (if topLevel then startsDecl st (pCur st) \<or> atRuleDecl st 0 \<or> atFactDecl st 0 else startsStmt (pCur st)) \<or>
     pPos st \<noteq> start \<and> pCur st \<in> {Kw KwFunc, Kw KwLet, Kw KwVar, Kw KwImport, Kw KwNamespace}"

definition nestingAfter :: "TokenKind \<Rightarrow> nat \<Rightarrow> nat" where
  "nestingAfter kind nesting =
     (if kind \<in> {Pn LParen, Pn LBracket, Pn LBrace} then nesting + 1
      else if kind \<in> {Pn RParen, Pn RBracket, Pn RBrace} \<and> 0 < nesting then nesting - 1
      else nesting)"

definition recover :: "bool \<Rightarrow> bool \<Rightarrow> PState \<Rightarrow> PState option" where
  "recover inBlock topLevel st =
     (let m = mark st; start = pPos st
      in do {
        (nesting, st) \<leftarrow>
          whileO (\<lambda>(nesting, st). pCur st \<noteq> Eof \<and> \<not> (nesting = 0 \<and> recoverStops inBlock topLevel start st))
            (\<lambda>(nesting, st). Some (nestingAfter (pCur st) nesting, advance (pushToken st))) (0, st);
        let st = (if m < length (pStack st) then close m (De ErrorNode) st else st);
        Some (st\<lparr>pPanic := False\<rparr>) })"

text \<open>The token that nothing consumed and nothing skipped: step over it.\<close>

definition stepOver :: "PState \<Rightarrow> PState" where
  "stepOver st = close (mark st) (De ErrorNode) (advance (pushToken st))"

end
