(* ===== verification/Parser_Grow.thy ===== *)
theory Parser_Grow
  imports Parser_Look
begin

text \<open>
  What the productions can do to the parser's state: the relation \<open>grows\<close> from the state in which a
  production starts, closed under the primitive operations. A production pushes tokens, closes
  nodes above its own mark, reports errors and changes the layout context, and nothing else; that
  every production is of this form is shown in the theories on the productions, and the
  invariants of the tree are proved once, on \<open>grows\<close>.

  \<open>plain\<close> buffers are those in which no production takes the end of the text for a token; the
  condition is on the two places where the source takes a token without looking: \<open>fact\<close> after \<open>with\<close> parameters, and
  \<open>static for\<close> after the brace of a shape comprehension (\<open>static_for_takes_end\<close>).
\<close>

unbundle bit_operations_syntax

section \<open>Buffers\<close>

definition bufOk :: "TokenBuffer \<Rightarrow> bool" where
  "bufOk b \<longleftrightarrow>
     bufTokens b \<noteq> [] \<and> tKind (last (bufTokens b)) = Eof \<and> (\<forall>t \<in> set (butlast (bufTokens b)). tKind t \<noteq> Eof)"

definition plain :: "TokenBuffer \<Rightarrow> bool" where
  "plain b \<longleftrightarrow>
     (\<forall>i < length (bufTokens b). kindAt (bufTokens b) i = Pn LBrace \<longrightarrow>
        kindAt (bufTokens b) (nextSolid (bufTokens b) i) \<noteq> Eof) \<and>
     ((\<forall>t \<in> set (bufTokens b). tKind t \<noteq> Kw KwWith) \<or>
      (\<forall>t \<in> set (bufTokens b). tKind t = Identifier \<longrightarrow> tokenText b t \<noteq> ''fact''))"

lemma trivia_Eof [simp]: "\<not> isTrivia Eof"
  by (simp add: isTrivia_def)

lemma bufOk_Eof_iff: "bufOk b \<Longrightarrow> i < length (bufTokens b) \<Longrightarrow> kindAt (bufTokens b) i = Eof \<longleftrightarrow> i = length (bufTokens b) - 1"
proof -
  assume b: "bufOk b" and i: "i < length (bufTokens b)"
  show ?thesis
  proof (cases "i = length (bufTokens b) - 1")
    case True
    then show ?thesis using b i by (auto simp: bufOk_def kindAt_def last_conv_nth)
  next
    case False
    then have "i < length (butlast (bufTokens b))" using i by simp
    then have "bufTokens b ! i \<in> set (butlast (bufTokens b))" by (metis nth_butlast nth_mem)
    then show ?thesis using b i False by (auto simp: bufOk_def kindAt_def)
  qed
qed

lemma skipTrivia_spec:
  "bufOk b \<Longrightarrow> i < length (bufTokens b) \<Longrightarrow>
   skipTrivia (bufTokens b) i < length (bufTokens b) \<and> \<not> isTrivia (kindAt (bufTokens b) (skipTrivia (bufTokens b) i)) \<and>
   (\<forall>k \<in> {i ..< skipTrivia (bufTokens b) i}. isTrivia (kindAt (bufTokens b) k))"
proof (induction "bufTokens b" i rule: skipTrivia.induct)
  case (1 i)
  show ?case
  proof (cases "isTrivia (tKind (bufTokens b ! i))")
    case True
    then have "i \<noteq> length (bufTokens b) - 1" using bufOk_Eof_iff [OF 1(2,3)] 1(3) by (auto simp: kindAt_def)
    then have lt: "i + 1 < length (bufTokens b)" using 1(3) by simp
    have eq: "skipTrivia (bufTokens b) i = skipTrivia (bufTokens b) (i + 1)" using True 1(3) by (subst skipTrivia.simps) simp
    have "isTrivia (kindAt (bufTokens b) i)" using True 1(3) by (simp add: kindAt_def)
    then show ?thesis using 1(1) [OF _ 1(2) lt] True 1(3) unfolding eq
      by (metis atLeastLessThan_iff le_eq_less_or_eq less_iff_succ_less_eq)
  next
    case False
    then have "skipTrivia (bufTokens b) i = i" by (subst skipTrivia.simps) simp
    then show ?thesis using False 1(3) by (simp add: kindAt_def)
  qed
qed

lemma nextSolid_spec:
  assumes "bufOk b" "kindAt (bufTokens b) i \<noteq> Eof"
  shows "nextSolid (bufTokens b) i < length (bufTokens b)"
    "\<not> isTrivia (kindAt (bufTokens b) (nextSolid (bufTokens b) i))"
    "\<And>k. i < k \<Longrightarrow> k < nextSolid (bufTokens b) i \<Longrightarrow> isTrivia (kindAt (bufTokens b) k)"
proof -
  have i: "i < length (bufTokens b)" using assms(2) kindAt_less by blast
  then have "i \<noteq> length (bufTokens b) - 1" using assms bufOk_Eof_iff by blast
  then have "i + 1 < length (bufTokens b)" using i by simp
  from skipTrivia_spec [OF assms(1) this]
  show "nextSolid (bufTokens b) i < length (bufTokens b)"
    "\<not> isTrivia (kindAt (bufTokens b) (nextSolid (bufTokens b) i))"
    "\<And>k. i < k \<Longrightarrow> k < nextSolid (bufTokens b) i \<Longrightarrow> isTrivia (kindAt (bufTokens b) k)"
    by (simp_all add: nextSolid_def)
qed

text \<open>The indices of the tokens the parser sees, in a range.\<close>

definition solidRange :: "Token list \<Rightarrow> nat \<Rightarrow> nat \<Rightarrow> nat list" where
  "solidRange ts i j = filter (\<lambda>k. \<not> isTrivia (kindAt ts k)) [i ..< j]"

lemma solidRange_empty [simp]: "solidRange ts i i = []"
  by (simp add: solidRange_def)

lemma solidRange_next:
  assumes "bufOk b" "kindAt (bufTokens b) i \<noteq> Eof" "\<not> isTrivia (kindAt (bufTokens b) i)" "h \<le> i"
  shows "solidRange (bufTokens b) h (nextSolid (bufTokens b) i) = solidRange (bufTokens b) h i @ [i]"
proof -
  let ?n = "nextSolid (bufTokens b) i"
  have lt: "i < ?n" by (rule nextSolid_less)
  then have "[h ..< ?n] = [h ..< i] @ i # [i + 1 ..< ?n]"
    using assms(4) by (metis Suc_eq_plus1 less_imp_le upt_add_eq_append upt_conv_Cons le_add_diff_inverse)
  moreover have "filter (\<lambda>k. \<not> isTrivia (kindAt (bufTokens b) k)) [i + 1 ..< ?n] = []"
    using nextSolid_spec(3) [OF assms(1,2)] by (auto simp: filter_empty_conv)
  ultimately show ?thesis using assms(3) by (simp add: solidRange_def)
qed

section \<open>Good states\<close>

definition good :: "PState \<Rightarrow> bool" where
  "good t \<longleftrightarrow>
     bufOk (pBuf t) \<and> pPos t < length (pToks t) \<and> pCur t = kindAt (pToks t) (pPos t) \<and> \<not> isTrivia (pCur t) \<and>
     pPrev t \<le> pPos t \<and> \<not> isTrivia (kindAt (pToks t) (pPrev t)) \<and> (pPanic t \<longrightarrow> pErrors t \<noteq> [])"

lemma advance_fields [simp]:
  "pBuf (advance t) = pBuf t" "pNodes (advance t) = pNodes t" "pChildren (advance t) = pChildren t"
  "pErrors (advance t) = pErrors t" "pStack (advance t) = pStack t" "pPanic (advance t) = pPanic t"
  "pNl (advance t) = pNl t" "pAngle (advance t) = pAngle t" "pDepth (advance t) = pDepth t"
  by (simp_all add: advance_def Let_def)

lemma bump_fields [simp]:
  "pBuf (bump t) = pBuf t" "pNodes (bump t) = pNodes t" "pChildren (bump t) = pChildren t"
  "pErrors (bump t) = pErrors t" "pStack (bump t) = pStack t @ [TokenChild (pPos t)]" "\<not> pPanic (bump t)"
  by (simp_all add: bump_def)

lemma pushToken_fields [simp]:
  "pBuf (pushToken t) = pBuf t" "pNodes (pushToken t) = pNodes t" "pChildren (pushToken t) = pChildren t"
  "pErrors (pushToken t) = pErrors t" "pStack (pushToken t) = pStack t @ [TokenChild (pPos t)]" "pPanic (pushToken t) = pPanic t"
  "pPos (pushToken t) = pPos t" "pCur (pushToken t) = pCur t" "pPrev (pushToken t) = pPrev t"
  by (simp_all add: pushToken_def)

lemma close_fields [simp]:
  "pBuf (close m k t) = pBuf t" "pErrors (close m k t) = pErrors t" "pPanic (close m k t) = pPanic t"
  "pPos (close m k t) = pPos t" "pCur (close m k t) = pCur t" "pPrev (close m k t) = pPrev t"
  "pStack (close m k t) = take m (pStack t) @ [NodeChild (length (pNodes t))]"
  by (simp_all add: close_def Let_def split: prod.split)

lemma error_fields [simp]:
  "pBuf (error k ex l t) = pBuf t" "pNodes (error k ex l t) = pNodes t" "pChildren (error k ex l t) = pChildren t"
  "pPos (error k ex l t) = pPos t" "pCur (error k ex l t) = pCur t" "pPrev (error k ex l t) = pPrev t"
  "pStack (error k ex l t) = pStack t" "pPanic (error k ex l t)"
  by (simp_all add: error_def)

lemma errorAux_fields [simp]:
  "pBuf (errorAux k ex l x t) = pBuf t" "pNodes (errorAux k ex l x t) = pNodes t" "pChildren (errorAux k ex l x t) = pChildren t"
  "pPos (errorAux k ex l x t) = pPos t" "pCur (errorAux k ex l x t) = pCur t" "pPrev (errorAux k ex l x t) = pPrev t"
  "pStack (errorAux k ex l x t) = pStack t" "pPanic (errorAux k ex l x t)"
  by (simp_all add: errorAux_def Let_def)

lemma markNameAsPack_fields [simp]:
  "pBuf (markNameAsPack m t) = pBuf t" "pChildren (markNameAsPack m t) = pChildren t"
  "pErrors (markNameAsPack m t) = pErrors t" "pPanic (markNameAsPack m t) = pPanic t"
  "pPos (markNameAsPack m t) = pPos t" "pCur (markNameAsPack m t) = pCur t" "pPrev (markNameAsPack m t) = pPrev t"
  "pStack (markNameAsPack m t) = pStack t"
  by (simp_all add: markNameAsPack_def split: Child.split)

lemma error_errors: "good t \<Longrightarrow> pErrors (error k ex l t) \<noteq> []" "good t \<Longrightarrow> pErrors (errorAux k ex l x t) \<noteq> []"
  by (auto simp: good_def error_def errorAux_def Let_def)

lemma errors_kept: "pErrors t \<noteq> [] \<Longrightarrow> pErrors (error k ex l t) \<noteq> []" "pErrors t \<noteq> [] \<Longrightarrow> pErrors (errorAux k ex l x t) \<noteq> []"
  by (auto simp: error_def errorAux_def Let_def)

lemma good_advance: "good t \<Longrightarrow> good (advance t)"
  using nextSolid_spec [of "pBuf t" "pPos t"] nextSolid_less [of "pPos t" "pToks t"]
  by (auto simp: good_def advance_def Let_def)

lemma good_bump: "good t \<Longrightarrow> good (bump t)"
  using good_advance [of "t\<lparr>pStack := pStack t @ [TokenChild (pPos t)], pPanic := False\<rparr>"] by (auto simp: bump_def good_def)

lemma good_push: "good t \<Longrightarrow> good (pushToken t)"
  by (auto simp: good_def)

lemma good_error: "good t \<Longrightarrow> good (error k ex l t)" "good t \<Longrightarrow> good (errorAux k ex l x t)"
  using error_errors by (auto simp: good_def)

lemma pos_advance: "good t \<Longrightarrow> pCur t \<noteq> Eof \<Longrightarrow> pPos t < pPos (advance t)" "pPos t \<le> pPos (advance t)"
  using nextSolid_less [of "pPos t" "pToks t"] by (auto simp: advance_def Let_def less_imp_le)

lemma pPos_bump: "pPos (bump t) = (if pCur t = Eof then pPos t else nextSolid (pToks t) (pPos t))"
  by (simp add: bump_def advance_def Let_def)

lemma pPos_skip: "pPos (advance (pushToken t)) = (if pCur t = Eof then pPos t else nextSolid (pToks t) (pPos t))"
  by (simp add: advance_def Let_def)

lemma pos_bump: "pCur t \<noteq> Eof \<Longrightarrow> pPos t < pPos (bump t)" "pPos t \<le> pPos (bump t)"
  using nextSolid_less [of "pPos t" "pToks t"] by (simp_all add: pPos_bump less_imp_le)

text \<open>The token after the current one.\<close>

lemma cur_bump: "good t \<Longrightarrow> pCur (bump t) = peek t 1"
  by (auto simp: bump_def advance_def Let_def peek_def offsetOf_def good_def)

lemma peek_bump: "good t \<Longrightarrow> pCur t \<noteq> Eof \<Longrightarrow> peek (bump t) n = peek t (Suc n)"
  by (simp add: peek_def offsetOf_def pPos_bump good_def)

lemma peek_zero: "good t \<Longrightarrow> peek t 0 = pCur t"
  by (simp add: peek_def offsetOf_def good_def)

section \<open>Growth\<close>

text \<open>Some child above the mark has a token.\<close>

definition solidAbove :: "nat \<Rightarrow> PState \<Rightarrow> bool" where
  "solidAbove m t \<longleftrightarrow> (\<exists>w \<in> set (drop m (pStack t)). childSpan (pNodes t) w \<noteq> None)"

inductive grows :: "PState \<Rightarrow> PState \<Rightarrow> bool" for s where
  start: "good s \<Longrightarrow> grows s s"
| token: "grows s t \<Longrightarrow> plain (pBuf t) \<longrightarrow> pCur t \<noteq> Eof \<Longrightarrow> grows s (bump t)"
| skip: "grows s t \<Longrightarrow> pCur t \<noteq> Eof \<Longrightarrow> pErrors t \<noteq> [] \<Longrightarrow> grows s (advance (pushToken t))"
| node: "grows s t \<Longrightarrow> mark s \<le> m \<Longrightarrow> m \<le> mark t \<Longrightarrow> kind = De ErrorNode \<longrightarrow> pErrors t \<noteq> [] \<Longrightarrow>
    pErrors t \<noteq> [] \<or> solidAbove m t \<Longrightarrow> grows s (close m kind t)"
| wrong: "grows s t \<Longrightarrow> loc = pPos t \<or> loc = pPrev t \<Longrightarrow> grows s (error kind' ex loc t)"
| wrongAux: "grows s t \<Longrightarrow> loc = pPos t \<or> loc = pPrev t \<Longrightarrow> grows s (errorAux kind' ex loc aux t)"
| pack: "grows s t \<Longrightarrow> grows s (markNameAsPack m t)"
| layout: "grows s t \<Longrightarrow> p \<longrightarrow> pPanic t \<Longrightarrow>
    grows s (t\<lparr>pNl := a, pAngle := c, pConstData := d, pSpacedGt := g, pLambdaParams := l, pPanic := p, pDepth := e, pTypeHead := h\<rparr>)"

lemma grows_basic:
  "grows s t \<Longrightarrow> good t \<and> pBuf t = pBuf s \<and> pPos s \<le> pPos t \<and> mark s \<le> mark t \<and> (pErrors s \<noteq> [] \<longrightarrow> pErrors t \<noteq> [])"
proof (induction rule: grows.induct)
  case (token t) then show ?case using good_bump pos_bump(2) [of t] by auto
next
  case (skip t) then show ?case using good_advance [OF good_push] pos_advance(2) [of "pushToken t"] by auto
next
  case (wrong t) then show ?case using good_error error_errors by auto
next
  case (wrongAux t) then show ?case using good_error error_errors by auto
next
  case (node t m) then show ?case by (auto simp: good_def)
qed (auto simp: good_def)

lemmas growsD = grows_basic [THEN conjunct1]
  grows_basic [THEN conjunct2, THEN conjunct1]
  grows_basic [THEN conjunct2, THEN conjunct2, THEN conjunct1]
  grows_basic [THEN conjunct2, THEN conjunct2, THEN conjunct2, THEN conjunct1]
  grows_basic [THEN conjunct2, THEN conjunct2, THEN conjunct2, THEN conjunct2, THEN mp]

lemma grows_trans: "grows t u \<Longrightarrow> grows s t \<Longrightarrow> grows s u"
proof (induction rule: grows.induct)
  case (node u m kind) then show ?case using growsD(4) [of s t] by (intro grows.node) auto
qed (auto intro: grows.intros)

lemma grows_good: "grows s s \<longleftrightarrow> good s"
  using growsD(1) grows.start by blast

section \<open>Closing a node\<close>

definition joinSpan :: "NodeData list \<Rightarrow> Child \<Rightarrow> (nat \<times> nat) option \<Rightarrow> (nat \<times> nat) option" where
  "joinSpan ns w sp =
     (case childSpan ns w of
        None \<Rightarrow> sp
      | Some (a, b) \<Rightarrow> Some (case sp of None \<Rightarrow> (a, b) | Some (f, l) \<Rightarrow> (f, b)))"

lemma setParent_length [simp]: "length (setParent i w ns) = length ns"
  by (simp add: setParent_def split: Child.split)

lemma setParents_length [simp]: "length (fold (setParent i) ws ns) = length ns"
  by (induction ws arbitrary: ns) simp_all

lemma setParent_nth:
  "c < length ns \<Longrightarrow> setParent i w ns ! c = (if w = NodeChild c then (ns ! c)\<lparr>nParent := Some i\<rparr> else ns ! c)"
  by (auto simp: setParent_def nth_list_update split: Child.split)

lemma setParents_nth:
  "c < length ns \<Longrightarrow>
   fold (setParent i) ws ns ! c = (if NodeChild c \<in> set ws then (ns ! c)\<lparr>nParent := Some i\<rparr> else ns ! c)"
  by (induction ws arbitrary: ns) (auto simp: setParent_nth)

lemma childSpan_setParent [simp]: "childSpan (setParent i w ns) x = childSpan ns x"
proof (cases w)
  case (NodeChild c)
  then show ?thesis
    by (cases "c < length ns")
      (auto simp: childSpan_def setParent_def emptyNode_def nth_list_update list_update_beyond split: Child.split)
qed (simp add: setParent_def)

lemma closeLoop_eq: "closeLoop i ws ns cs sp = (fold (setParent i) ws ns, cs @ ws, fold (joinSpan ns) ws sp)"
proof (induction ws arbitrary: ns cs sp)
  case (Cons w ws)
  have "joinSpan (setParent i w ns) = joinSpan ns" by (intro ext) (simp add: joinSpan_def)
  then show ?case using Cons by (simp add: Let_def joinSpan_def)
qed simp

definition spanOf :: "NodeData list \<Rightarrow> Child list \<Rightarrow> (nat \<times> nat) option" where
  "spanOf ns ws = fold (joinSpan ns) ws None"

definition closedNode :: "PState \<Rightarrow> nat \<Rightarrow> NodeKind \<Rightarrow> NodeData" where
  "closedNode t m kind =
     \<lparr>nFirstChild = length (pChildren t), nChildCount = mark t - m,
      nFirstToken = (case spanOf (pNodes t) (drop m (pStack t)) of None \<Rightarrow> pPos t | Some (f, l) \<Rightarrow> f),
      nLastToken = (case spanOf (pNodes t) (drop m (pStack t)) of None \<Rightarrow> pPos t | Some (f, l) \<Rightarrow> l),
      nParent = None, nKind = kind,
      nFlags = (case spanOf (pNodes t) (drop m (pStack t)) of None \<Rightarrow> kEmptyNode | Some _ \<Rightarrow> 0)\<rparr>"

lemma close_tree:
  "pNodes (close m kind t) = fold (setParent (length (pNodes t))) (drop m (pStack t)) (pNodes t) @ [closedNode t m kind]"
  "pChildren (close m kind t) = pChildren t @ drop m (pStack t)"
  by (simp_all add: close_def Let_def closeLoop_eq closedNode_def spanOf_def)

lemma joinSpan_None: "fold (joinSpan ns) ws sp = None \<longleftrightarrow> sp = None \<and> (\<forall>w \<in> set ws. childSpan ns w = None)"
  by (induction ws arbitrary: sp) (auto simp: joinSpan_def split: option.splits prod.splits)

lemma emptyNode_closed: "emptyNode (closedNode t m kind) \<longleftrightarrow> \<not> solidAbove m t"
proof -
  have "spanOf (pNodes t) (drop m (pStack t)) = None \<longleftrightarrow> \<not> solidAbove m t"
    using joinSpan_None [of "pNodes t" "drop m (pStack t)" None] unfolding spanOf_def solidAbove_def by metis
  then show ?thesis
    by (cases "spanOf (pNodes t) (drop m (pStack t))") (auto simp: emptyNode_def closedNode_def kEmptyNode_def)
qed

lemma childSpan_closed:
  "childSpan (pNodes (close m kind t)) (NodeChild (length (pNodes t))) = spanOf (pNodes t) (drop m (pStack t))"
  using emptyNode_closed [of t m kind] joinSpan_None [of "pNodes t" "drop m (pStack t)" None]
  by (auto simp: childSpan_def close_tree nth_append closedNode_def spanOf_def solidAbove_def split: option.split prod.split)

lemma childSpan_old:
  "c < length (pNodes t) \<Longrightarrow> childSpan (pNodes (close m kind t)) (NodeChild c) = childSpan (pNodes t) (NodeChild c)"
  by (auto simp: childSpan_def close_tree nth_append setParents_nth emptyNode_def)

lemma childSpan_token [simp]: "childSpan ns (TokenChild i) = Some (i, i)"
  by (simp add: childSpan_def)

lemma pack_nodes_length [simp]: "length (pNodes (markNameAsPack m t)) = length (pNodes t)"
  by (simp add: markNameAsPack_def split: Child.split)

lemma pack_flags: "(x OR kPackName) AND kEmptyNode = x AND kEmptyNode" for x :: "8 word"
proof -
  have "kPackName AND kEmptyNode = 0" by (simp add: kPackName_def kEmptyNode_def)
  then show ?thesis by (simp add: bit.conj_disj_distrib2)
qed

lemma update_nth: "c < length xs \<Longrightarrow> xs[i := v] ! c = (if i = c then v else xs ! c)"
  by (cases "i = c") simp_all

text \<open>What \<open>markNameAsPack\<close> leaves of a node.\<close>

lemma pack_nth:
  "c < length (pNodes t) \<Longrightarrow> \<exists>f. pNodes (markNameAsPack m t) ! c = (pNodes t ! c)\<lparr>nFlags := f\<rparr> \<and> f AND kEmptyNode = nFlags (pNodes t ! c) AND kEmptyNode"
proof -
  assume "c < length (pNodes t)"
  then have "pNodes (markNameAsPack m t) ! c = pNodes t ! c \<or>
      pNodes (markNameAsPack m t) ! c = (pNodes t ! c)\<lparr>nFlags := nFlags (pNodes t ! c) OR kPackName\<rparr>"
    by (cases "last (pStack t)") (auto simp: markNameAsPack_def update_nth)
  then show ?thesis
  proof (elim disjE)
    assume "pNodes (markNameAsPack m t) ! c = pNodes t ! c"
    then show ?thesis by (intro exI [of _ "nFlags (pNodes t ! c)"]) simp
  next
    assume "pNodes (markNameAsPack m t) ! c = (pNodes t ! c)\<lparr>nFlags := nFlags (pNodes t ! c) OR kPackName\<rparr>"
    then show ?thesis using pack_flags by blast
  qed
qed

lemma childSpan_pack [simp]:
  "(\<And>c. w = NodeChild c \<Longrightarrow> c < length (pNodes t)) \<Longrightarrow> childSpan (pNodes (markNameAsPack m t)) w = childSpan (pNodes t) w"
proof (cases w)
  case (NodeChild c)
  assume "\<And>c. w = NodeChild c \<Longrightarrow> c < length (pNodes t)"
  then have "c < length (pNodes t)" using NodeChild by blast
  from pack_nth [OF this, of m] show ?thesis using NodeChild by (auto simp: childSpan_def emptyNode_def)
qed simp

section \<open>Consumed tokens are children\<close>

lemma grows_children:
  "grows s t \<Longrightarrow>
   (\<forall>c. NodeChild c \<in> set (drop (mark s) (pStack t)) \<longrightarrow> c < length (pNodes t)) \<and> (pPos s < pPos t \<longrightarrow> solidAbove (mark s) t)"
proof (induction rule: grows.induct)
  case (token t)
  then show ?case using growsD(4) [of s t] by (auto simp: solidAbove_def)
next
  case (skip t)
  then show ?case using growsD(4) [of s t] by (auto simp: solidAbove_def)
next
  case (node t m kind)
  have le: "mark s \<le> m" "m \<le> mark t" by fact+
  have drops: "drop (mark s) (pStack (close m kind t)) = drop (mark s) (take m (pStack t)) @ [NodeChild (length (pNodes t))]"
    using le by simp
  have sub: "set (drop (mark s) (take m (pStack t))) \<subseteq> set (drop (mark s) (pStack t))"
    by (metis drop_take set_take_subset)
  have len: "length (pNodes (close m kind t)) = Suc (length (pNodes t))" by (simp add: close_tree)
  have "solidAbove (mark s) (close m kind t)" if pos: "pPos s < pPos t"
  proof -
    obtain w where w: "w \<in> set (drop (mark s) (pStack t))" "childSpan (pNodes t) w \<noteq> None"
      using node.IH pos by (auto simp: solidAbove_def)
    have "drop (mark s) (pStack t) = drop (mark s) (take m (pStack t)) @ drop m (pStack t)"
      using le by (metis append_take_drop_id diff_is_0_eq drop_0 drop_append length_take min.absorb2)
    then consider "w \<in> set (drop (mark s) (take m (pStack t)))" | "w \<in> set (drop m (pStack t))" using w(1) by auto
    then show ?thesis
    proof cases
      case 1
      have "childSpan (pNodes (close m kind t)) w = childSpan (pNodes t) w"
        using node.IH w(1) by (cases w) (auto simp: childSpan_old)
      then show ?thesis using 1 w(2) unfolding solidAbove_def drops by auto
    next
      case 2
      then have "spanOf (pNodes t) (drop m (pStack t)) \<noteq> None" using w(2) joinSpan_None by (auto simp: spanOf_def)
      then show ?thesis using childSpan_closed [of m kind t] unfolding solidAbove_def drops by auto
    qed
  qed
  then show ?case using node.IH sub unfolding drops len by (auto simp: less_Suc_eq)
next
  case (pack t m)
  then have "\<forall>w \<in> set (drop (mark s) (pStack t)). childSpan (pNodes (markNameAsPack m t)) w = childSpan (pNodes t) w"
    by (intro ballI childSpan_pack) blast
  then show ?case using pack by (auto simp: solidAbove_def)
qed (auto simp: solidAbove_def)

lemma solid_above: "grows s t \<Longrightarrow> pPos s < pPos t \<Longrightarrow> solidAbove (mark s) t"
  using grows_children by blast

lemma pack_solid: "grows s t \<Longrightarrow> solidAbove (mark s) (markNameAsPack m t) = solidAbove (mark s) t"
proof -
  assume "grows s t"
  then have "\<forall>w \<in> set (drop (mark s) (pStack t)). childSpan (pNodes (markNameAsPack m t)) w = childSpan (pNodes t) w"
    using grows_children by (intro ballI childSpan_pack) blast
  then show ?thesis by (auto simp: solidAbove_def)
qed

lemma taller: "grows s t \<Longrightarrow> mark s < mark t \<Longrightarrow> pErrors t = [] \<Longrightarrow> solidAbove (mark s) t"
proof (induction rule: grows.induct)
  case (node t m kind)
  then have "spanOf (pNodes t) (drop m (pStack t)) \<noteq> None"
    using joinSpan_None by (auto simp: spanOf_def solidAbove_def)
  then show ?case using node childSpan_closed [of m kind t] by (auto simp: solidAbove_def)
next
  case (wrong t) then show ?case using error_errors growsD(1) by blast
next
  case (wrongAux t) then show ?case using error_errors growsD(1) by blast
next
  case (pack t m) then show ?case by (simp add: pack_solid)
qed (auto simp: solidAbove_def)

end
