(* ===== verification/Parser_Forest.thy ===== *)
theory Parser_Forest
  imports Parser_Grow "HOL-Library.Multiset"
begin

text \<open>
  The tree the arrays stand for, and what holds of the arrays in every state the productions reach:
  \<open>synOf\<close> reads a child off the arrays, and \<open>close\<close>, \<open>bump\<close> and the rest act on the stack of the
  parser as on a stack of trees (\<open>forest_bump\<close>, \<open>forest_close\<close>).
\<close>

datatype Syn = Leaf nat | Branch NodeKind "Syn list"

fun leaves :: "Syn \<Rightarrow> nat list" where
  "leaves (Leaf i) = [i]"
| "leaves (Branch kind ts) = concat (map leaves ts)"

fun synAt :: "nat \<Rightarrow> NodeData list \<Rightarrow> Child list \<Rightarrow> Child \<Rightarrow> Syn" where
  "synAt n ns cs (TokenChild i) = Leaf i"
| "synAt 0 ns cs (NodeChild c) = Branch (nKind (ns ! c)) []"
| "synAt (Suc n) ns cs (NodeChild c) = Branch (nKind (ns ! c)) (map (synAt n ns cs) (childrenOf cs (ns ! c)))"

definition synOf :: "NodeData list \<Rightarrow> Child list \<Rightarrow> Child \<Rightarrow> Syn" where
  "synOf ns cs w = synAt (length ns) ns cs w"

definition forest :: "PState \<Rightarrow> Syn list" where
  "forest t = map (synOf (pNodes t) (pChildren t)) (pStack t)"

section \<open>Well-formed arrays\<close>

definition nodeIds :: "Child list \<Rightarrow> nat list" where
  "nodeIds ws = concat (map (\<lambda>w. case w of TokenChild _ \<Rightarrow> [] | NodeChild c \<Rightarrow> [c]) ws)"

lemma nodeIds_simps [simp]:
  "nodeIds [] = []" "nodeIds (TokenChild i # ws) = nodeIds ws" "nodeIds (NodeChild c # ws) = c # nodeIds ws"
  "nodeIds (ws @ vs) = nodeIds ws @ nodeIds vs"
  by (simp_all add: nodeIds_def)

lemma in_nodeIds [simp]: "c \<in> set (nodeIds ws) \<longleftrightarrow> NodeChild c \<in> set ws"
  by (induction ws) (auto simp: nodeIds_def split: Child.splits)

text \<open>The children of a node are older nodes.\<close>

definition older :: "NodeData list \<Rightarrow> Child list \<Rightarrow> bool" where
  "older ns cs \<longleftrightarrow>
     (\<forall>c < length ns. nFirstChild (ns ! c) + nChildCount (ns ! c) \<le> length cs \<and>
        (\<forall>d. NodeChild d \<in> set (childrenOf cs (ns ! c)) \<longrightarrow> d < c))"

text \<open>
  The child array is the children of the nodes one after the other; every node is a child of one
  node or stands on the stack; a child knows its parent.
\<close>

definition wellFormed :: "NodeData list \<Rightarrow> Child list \<Rightarrow> Child list \<Rightarrow> bool" where
  "wellFormed ns cs st \<longleftrightarrow>
     older ns cs \<and> concat (map (childrenOf cs) ns) = cs \<and> mset (nodeIds (cs @ st)) = mset [0 ..< length ns] \<and>
     (\<forall>c < length ns. nParent (ns ! c) = None \<longleftrightarrow> NodeChild c \<in> set st) \<and>
     (\<forall>c < length ns. \<forall>p. nParent (ns ! c) = Some p \<longrightarrow> p < length ns \<and> NodeChild c \<in> set (childrenOf cs (ns ! p)))"

lemma wf_ids:
  assumes "wellFormed ns cs st"
  shows "distinct (nodeIds (cs @ st))" "set (nodeIds (cs @ st)) = {0 ..< length ns}"
proof -
  have *: "mset (nodeIds (cs @ st)) = mset [0 ..< length ns]" using assms by (simp only: wellFormed_def)
  show "distinct (nodeIds (cs @ st))" using mset_eq_imp_distinct_iff [OF *] by simp
  show "set (nodeIds (cs @ st)) = {0 ..< length ns}" using mset_eq_setD [OF *] by simp
qed

lemma wf_stack: "wellFormed ns cs st \<Longrightarrow> NodeChild c \<in> set st \<Longrightarrow> c < length ns"
  using wf_ids(2) [of ns cs st] in_nodeIds [of c st] by fastforce

lemma wf_older: "wellFormed ns cs st \<Longrightarrow> older ns cs"
  by (simp add: wellFormed_def)

abbreviation sameShape :: "NodeData \<Rightarrow> NodeData \<Rightarrow> bool" where
  "sameShape a b \<equiv> nKind a = nKind b \<and> nFirstChild a = nFirstChild b \<and> nChildCount a = nChildCount b"

lemma childrenOf_append: "nFirstChild nd + nChildCount nd \<le> length cs \<Longrightarrow> childrenOf (cs @ ext) nd = childrenOf cs nd"
  by (simp add: childrenOf_def)

lemma childrenOf_shape: "sameShape a b \<Longrightarrow> childrenOf cs a = childrenOf cs b"
  by (simp add: childrenOf_def)

text \<open>What is read off the arrays stays when they grow.\<close>

lemma synAt_same:
  assumes "older ns cs" "\<forall>c < length ns. sameShape (ns' ! c) (ns ! c)"
  shows "(\<And>c. w = NodeChild c \<Longrightarrow> c < length ns \<and> c < n \<and> c < n') \<Longrightarrow> synAt n' ns' (cs @ ext) w = synAt n ns cs w"
proof (induction n arbitrary: n' w)
  case 0
  then show ?case by (cases w) auto
next
  case (Suc n)
  show ?case
  proof (cases w)
    case (NodeChild c)
    then have c: "c < length ns" "c < Suc n" "c < n'" using Suc.prems by auto
    then obtain k where k: "n' = Suc k" by (cases n') auto
    have "childrenOf (cs @ ext) (ns' ! c) = childrenOf cs (ns ! c)"
      using c(1) assms childrenOf_append childrenOf_shape by (metis older_def)
    moreover have "synAt k ns' (cs @ ext) v = synAt n ns cs v" if v: "v \<in> set (childrenOf cs (ns ! c))" for v
    proof (rule Suc.IH)
      fix d assume "v = NodeChild d"
      then have "d < c" using v c(1) assms(1) by (simp add: older_def)
      then show "d < length ns \<and> d < n \<and> d < k" using c k by simp
    qed
    ultimately show ?thesis using NodeChild c(1) assms(2) k by simp
  qed simp
qed

lemma synOf_same:
  assumes "older ns cs" "\<forall>c < length ns. sameShape (ns' ! c) (ns ! c)" "length ns \<le> length ns'" "\<And>c. w = NodeChild c \<Longrightarrow> c < length ns"
  shows "synOf ns' (cs @ ext) w = synOf ns cs w"
  unfolding synOf_def by (rule synAt_same [OF assms(1,2)]) (use assms(3,4) in force)

lemma synOf_node:
  assumes "older ns cs" "c < length ns"
  shows "synOf ns cs (NodeChild c) = Branch (nKind (ns ! c)) (map (synOf ns cs) (childrenOf cs (ns ! c)))"
proof -
  obtain n where n: "length ns = Suc n" using assms(2) by (cases "length ns") auto
  have "synAt n ns cs v = synAt (length ns) ns cs v" if v: "v \<in> set (childrenOf cs (ns ! c))" for v
  proof -
    have "\<And>d. v = NodeChild d \<Longrightarrow> d < c" using v assms by (simp add: older_def)
    then show ?thesis using synAt_same [OF assms(1), of ns v "length ns" n "[]"] assms(2) n by fastforce
  qed
  then show ?thesis by (simp add: synOf_def n)
qed

section \<open>Closing a node\<close>

lemma close_shapes:
  "length (pNodes (close m kind t)) = Suc (length (pNodes t))"
  "c < length (pNodes t) \<Longrightarrow> sameShape (pNodes (close m kind t) ! c) (pNodes t ! c)"
  "c < length (pNodes t) \<Longrightarrow> nParent (pNodes (close m kind t) ! c) =
     (if NodeChild c \<in> set (drop m (pStack t)) then Some (length (pNodes t)) else nParent (pNodes t ! c))"
  by (auto simp: close_tree nth_append setParents_nth)

lemma close_last: "pNodes (close m kind t) ! length (pNodes t) = closedNode t m kind"
  by (simp add: close_tree nth_append)

lemma closed_children: "childrenOf (pChildren t @ drop m (pStack t)) (closedNode t m kind) = drop m (pStack t)"
  by (simp add: childrenOf_def closedNode_def)

abbreviation wfState :: "PState \<Rightarrow> bool" where
  "wfState t \<equiv> wellFormed (pNodes t) (pChildren t) (pStack t)"

lemma close_childrenOf:
  assumes "older (pNodes t) (pChildren t)" "c < length (pNodes t)"
  shows "childrenOf (pChildren (close m kind t)) (pNodes (close m kind t) ! c) = childrenOf (pChildren t) (pNodes t ! c)"
  using assms close_shapes(2) [OF assms(2), of m kind] childrenOf_append childrenOf_shape unfolding close_tree(2) older_def by metis

lemma older_close:
  assumes "wfState t"
  shows "older (pNodes (close m kind t)) (pChildren (close m kind t))"
  unfolding older_def
proof (intro allI impI)
  fix c assume c: "c < length (pNodes (close m kind t))"
  let ?nd = "pNodes (close m kind t) ! c"
  show "nFirstChild ?nd + nChildCount ?nd \<le> length (pChildren (close m kind t)) \<and>
    (\<forall>d. NodeChild d \<in> set (childrenOf (pChildren (close m kind t)) ?nd) \<longrightarrow> d < c)"
  proof (cases "c < length (pNodes t)")
    case True
    then show ?thesis using wf_older [OF assms] close_childrenOf [OF wf_older [OF assms] True, of m kind] close_shapes(2) [OF True, of m kind]
      by (auto simp: older_def close_tree(2) intro: trans_le_add1)
  next
    case False
    then have eq: "c = length (pNodes t)" using c by (simp add: close_shapes(1))
    show ?thesis using wf_stack [OF assms] unfolding eq close_last close_tree(2) closed_children
      by (auto simp: closedNode_def dest: in_set_dropD)
  qed
qed

lemma close_concat:
  assumes "wfState t"
  shows "concat (map (childrenOf (pChildren (close m kind t))) (pNodes (close m kind t))) = pChildren (close m kind t)"
proof -
  let ?u = "close m kind t"
  let ?ns = "fold (setParent (length (pNodes t))) (drop m (pStack t)) (pNodes t)"
  have nodes: "pNodes ?u = ?ns @ [closedNode t m kind]" by (rule close_tree(1))
  have "map (childrenOf (pChildren ?u)) ?ns = map (childrenOf (pChildren t)) (pNodes t)"
  proof (rule nth_equalityI)
    fix c assume c: "c < length (map (childrenOf (pChildren ?u)) ?ns)"
    then have "?ns ! c = pNodes ?u ! c" unfolding nodes by (simp add: nth_append)
    then show "map (childrenOf (pChildren ?u)) ?ns ! c = map (childrenOf (pChildren t)) (pNodes t) ! c"
      using c close_childrenOf [OF wf_older [OF assms], of c m kind] by simp
  qed simp
  moreover have "concat (map (childrenOf (pChildren t)) (pNodes t)) = pChildren t" using assms by (simp add: wellFormed_def)
  ultimately show ?thesis unfolding nodes by (simp add: close_tree(2) closed_children)
qed

lemma wf_close:
  assumes wf: "wfState t" and m: "m \<le> mark t"
  shows "wfState (close m kind t)"
proof -
  let ?u = "close m kind t" and ?n = "length (pNodes t)"
  have st: "pStack t = take m (pStack t) @ drop m (pStack t)" by simp
  have dis: "distinct (nodeIds (pChildren t @ pStack t))" by (rule wf_ids(1) [OF wf])
  have "mset (nodeIds (pChildren t @ pStack t)) = mset [0 ..< ?n]" using wf by (simp only: wellFormed_def)
  then have ids: "mset (nodeIds (pChildren ?u @ pStack ?u)) = mset [0 ..< length (pNodes ?u)]"
    by (subst (asm) st) (simp add: close_tree(2) close_shapes(1) ac_simps del: append_take_drop_id)
  have par: "nParent (pNodes ?u ! c) = None \<longleftrightarrow> NodeChild c \<in> set (pStack ?u)"
    "\<forall>p. nParent (pNodes ?u ! c) = Some p \<longrightarrow> p < length (pNodes ?u) \<and> NodeChild c \<in> set (childrenOf (pChildren ?u) (pNodes ?u ! p))"
    if c: "c < length (pNodes ?u)" for c
  proof -
    have "NodeChild c \<in> set (drop m (pStack t)) \<Longrightarrow> NodeChild c \<notin> set (take m (pStack t))"
      using dis by (subst (asm) (2) st) (auto simp del: append_take_drop_id)
    moreover have "NodeChild c \<in> set (pStack t) \<longleftrightarrow> NodeChild c \<in> set (take m (pStack t)) \<or> NodeChild c \<in> set (drop m (pStack t))"
      by (subst st) (simp del: append_take_drop_id)
    moreover have "NodeChild ?n \<notin> set (pStack t)" using wf_stack [OF wf] by blast
    ultimately show "nParent (pNodes ?u ! c) = None \<longleftrightarrow> NodeChild c \<in> set (pStack ?u)"
      using c wf close_shapes(3) [of c t m kind] close_last [of m kind t]
      by (cases "c < ?n") (auto simp: wellFormed_def close_shapes(1) less_Suc_eq closedNode_def)
    show "\<forall>p. nParent (pNodes ?u ! c) = Some p \<longrightarrow> p < length (pNodes ?u) \<and> NodeChild c \<in> set (childrenOf (pChildren ?u) (pNodes ?u ! p))"
    proof (intro allI impI)
      fix p assume p: "nParent (pNodes ?u ! c) = Some p"
      then have cn: "c < ?n" using c by (auto simp: close_shapes(1) less_Suc_eq close_last closedNode_def)
      show "p < length (pNodes ?u) \<and> NodeChild c \<in> set (childrenOf (pChildren ?u) (pNodes ?u ! p))"
      proof (cases "NodeChild c \<in> set (drop m (pStack t))")
        case True
        then have "p = ?n" using p close_shapes(3) [OF cn, of m kind] by simp
        then show ?thesis using True by (simp add: close_shapes(1) close_last close_tree(2) closed_children)
      next
        case False
        then have "nParent (pNodes t ! c) = Some p" using p close_shapes(3) [OF cn, of m kind] by simp
        then have "p < ?n" "NodeChild c \<in> set (childrenOf (pChildren t) (pNodes t ! p))" using wf cn by (auto simp: wellFormed_def)
        then show ?thesis using close_childrenOf [OF wf_older [OF wf], of p m kind] by (simp add: close_shapes(1))
      qed
    qed
  qed
  show ?thesis using older_close [OF wf] close_concat [OF wf] ids par unfolding wellFormed_def by blast
qed

text \<open>On the stack of trees, closing a node puts a branch in the place of its children.\<close>

lemma forest_close:
  assumes "wfState t" "m \<le> mark t"
  shows "forest (close m kind t) = take m (forest t) @ [Branch kind (drop m (forest t))]"
proof -
  let ?u = "close m kind t"
  have same: "synOf (pNodes ?u) (pChildren ?u) w = synOf (pNodes t) (pChildren t) w" if "w \<in> set (pStack t)" for w
    unfolding close_tree(2)
    by (rule synOf_same [OF wf_older [OF assms(1)]]) (use that close_shapes wf_stack [OF assms(1)] in auto)
  have kids: "childrenOf (pChildren ?u) (pNodes ?u ! length (pNodes t)) = drop m (pStack t)"
    by (simp add: close_last close_tree(2) closed_children)
  have "synOf (pNodes ?u) (pChildren ?u) (NodeChild (length (pNodes t))) = Branch kind (map (synOf (pNodes ?u) (pChildren ?u)) (drop m (pStack t)))"
    using synOf_node [OF older_close [OF assms(1)], of "length (pNodes t)" m kind]
    unfolding kids by (simp add: close_shapes(1) close_last closedNode_def)
  moreover have "map (synOf (pNodes ?u) (pChildren ?u)) (drop m (pStack t)) = drop m (forest t)"
    using same by (auto simp: forest_def drop_map dest: in_set_dropD)
  moreover have "map (synOf (pNodes ?u) (pChildren ?u)) (take m (pStack t)) = take m (forest t)"
    using same by (auto simp: forest_def take_map dest: in_set_takeD)
  ultimately show ?thesis by (simp add: forest_def)
qed

section \<open>The other operations\<close>

lemma wf_token [simp]: "wellFormed ns cs (st @ [TokenChild i]) = wellFormed ns cs st"
  by (auto simp: wellFormed_def)

lemma forest_bump:
  "forest (bump t) = forest t @ [Leaf (pPos t)]" "forest (advance (pushToken t)) = forest t @ [Leaf (pPos t)]"
  "forest (pushToken t) = forest t @ [Leaf (pPos t)]"
  by (simp_all add: forest_def synOf_def)

lemma wf_same:
  assumes "wellFormed ns cs st" "length ns' = length ns" "\<forall>c < length ns. sameShape (ns' ! c) (ns ! c) \<and> nParent (ns' ! c) = nParent (ns ! c)"
  shows "wellFormed ns' cs st"
proof -
  have kids: "childrenOf cs (ns' ! c) = childrenOf cs (ns ! c)" if "c < length ns" for c
    using that assms(3) childrenOf_shape by blast
  then have "map (childrenOf cs) ns' = map (childrenOf cs) ns" using assms(2) by (intro nth_equalityI) auto
  then show ?thesis using assms kids by (auto simp: wellFormed_def older_def)
qed

lemma pack_shapes:
  "c < length (pNodes t) \<Longrightarrow> sameShape (pNodes (markNameAsPack m t) ! c) (pNodes t ! c) \<and>
     nParent (pNodes (markNameAsPack m t) ! c) = nParent (pNodes t ! c)"
  using pack_nth [of c t m] by auto

lemma wf_pack: "wfState t \<Longrightarrow> wfState (markNameAsPack m t)"
  using wf_same [of "pNodes t" "pChildren t" "pStack t" "pNodes (markNameAsPack m t)"] pack_shapes [of _ t m] by simp

lemma synOf_pack:
  "wfState t \<Longrightarrow> (\<And>c. w = NodeChild c \<Longrightarrow> c < length (pNodes t)) \<Longrightarrow>
   synOf (pNodes (markNameAsPack m t)) (pChildren t) w = synOf (pNodes t) (pChildren t) w"
  using synOf_same [of "pNodes t" "pChildren t" "pNodes (markNameAsPack m t)" w "[]"] pack_shapes [of _ t m] wf_older by simp

lemma forest_pack: "wfState t \<Longrightarrow> forest (markNameAsPack m t) = forest t"
  by (auto simp: forest_def intro!: synOf_pack dest: wf_stack)

lemma synOf_close:
  "wfState t \<Longrightarrow> (\<And>c. w = NodeChild c \<Longrightarrow> c < length (pNodes t)) \<Longrightarrow>
   synOf (pNodes (close m kind t)) (pChildren (close m kind t)) w = synOf (pNodes t) (pChildren t) w"
  unfolding close_tree(2) using close_shapes by (intro synOf_same wf_older) auto

section \<open>Invariants of the arrays\<close>

lemma grows_wf: "grows s t \<Longrightarrow> wfState s \<Longrightarrow> wfState t"
proof (induction rule: grows.induct)
  case (node t m kind) then show ?case by (intro wf_close) auto
next
  case (pack t m) then show ?case by (intro wf_pack)
qed simp_all

text \<open>The span of a node is its first and its last leaf; a node without leaves is an empty node.\<close>

definition spanList :: "nat list \<Rightarrow> (nat \<times> nat) option" where
  "spanList xs = (if xs = [] then None else Some (hd xs, last xs))"

definition spansRight :: "PState \<Rightarrow> bool" where
  "spansRight t \<longleftrightarrow>
     (\<forall>c < length (pNodes t). childSpan (pNodes t) (NodeChild c) = spanList (leaves (synOf (pNodes t) (pChildren t) (NodeChild c))))"

lemma joinSpan_leaves:
  "(\<And>w. w \<in> set ws \<Longrightarrow> childSpan ns w = spanList (L w)) \<Longrightarrow> fold (joinSpan ns) ws (spanList xs) = spanList (xs @ concat (map L ws))"
proof (induction ws arbitrary: xs)
  case (Cons w ws)
  have "joinSpan ns w (spanList xs) = spanList (xs @ L w)"
    using Cons.prems [of w] by (auto simp: joinSpan_def spanList_def)
  then show ?case using Cons.IH [of "xs @ L w"] Cons.prems by simp
qed simp

lemma childSpan_leaves:
  assumes "wfState t" "spansRight t" "w \<in> set (pStack t)"
  shows "childSpan (pNodes t) w = spanList (leaves (synOf (pNodes t) (pChildren t) w))"
proof (cases w)
  case (TokenChild i) then show ?thesis by (simp add: synOf_def spanList_def)
next
  case (NodeChild c) then show ?thesis using assms wf_stack by (simp add: spansRight_def)
qed

lemma spans_close:
  assumes "wfState t" "spansRight t" "m \<le> mark t"
  shows "spansRight (close m kind t)"
  unfolding spansRight_def
proof (intro allI impI)
  fix c assume c: "c < length (pNodes (close m kind t))"
  let ?u = "close m kind t"
  show "childSpan (pNodes ?u) (NodeChild c) = spanList (leaves (synOf (pNodes ?u) (pChildren ?u) (NodeChild c)))"
  proof (cases "c < length (pNodes t)")
    case True
    then show ?thesis using assms(2) synOf_close [OF assms(1), of "NodeChild c" m kind] by (simp add: spansRight_def childSpan_old)
  next
    case False
    then have eq: "c = length (pNodes t)" using c by (simp add: close_shapes(1))
    have "spanOf (pNodes t) (drop m (pStack t)) = spanList (concat (map (\<lambda>w. leaves (synOf (pNodes t) (pChildren t) w)) (drop m (pStack t))))"
      unfolding spanOf_def using joinSpan_leaves [of "drop m (pStack t)" "pNodes t" _ "[]"] childSpan_leaves [OF assms(1,2)]
      by (simp add: spanList_def [of "[]"] in_set_dropD)
    moreover have "synOf (pNodes ?u) (pChildren ?u) (NodeChild c) = Branch kind (drop m (forest t))"
      using forest_close [OF assms(1,3), of kind] unfolding eq by (simp add: forest_def take_map)
    ultimately show ?thesis using childSpan_closed [of m kind t] unfolding eq by (simp add: forest_def drop_map comp_def)
  qed
qed

lemma grows_spans: "grows s t \<Longrightarrow> wfState s \<Longrightarrow> spansRight s \<Longrightarrow> spansRight t"
proof (induction rule: grows.induct)
  case (node t m kind) then show ?case using grows_wf [of s t] by (intro spans_close) auto
next
  case (pack t m)
  then have "wfState t" using grows_wf by blast
  then show ?case using pack synOf_pack [of t "NodeChild _" m] childSpan_pack [of "NodeChild _" t m] by (simp add: spansRight_def)
qed (simp_all add: spansRight_def)

text \<open>
  The leaves on the stack are the tokens up to the cursor, in order; only in a buffer that is not
  plain can the end have been taken for a token.
\<close>

definition leavesRight :: "PState \<Rightarrow> bool" where
  "leavesRight t \<longleftrightarrow>
     (\<exists>k. concat (map leaves (forest t)) = solidRange (pToks t) 0 (pPos t) @ replicate k (pPos t) \<and>
        (0 < k \<longrightarrow> pCur t = Eof \<and> \<not> plain (pBuf t)))"

lemma leaves_token:
  assumes "good t" "leavesRight t" "pCur t \<noteq> Eof"
  shows "concat (map leaves (forest t @ [Leaf (pPos t)])) = solidRange (pToks t) 0 (nextSolid (pToks t) (pPos t))"
  using assms solidRange_next [of "pBuf t" "pPos t" 0] by (auto simp: leavesRight_def good_def)

lemma leaves_bump:
  assumes "good t" "leavesRight t" "plain (pBuf t) \<longrightarrow> pCur t \<noteq> Eof"
  shows "leavesRight (bump t)"
proof (cases "pCur t = Eof")
  case True
  then obtain k where "concat (map leaves (forest t)) = solidRange (pToks t) 0 (pPos t) @ replicate k (pPos t)"
    using assms(2) by (auto simp: leavesRight_def)
  moreover have "pCur (bump t) = Eof" "pPos (bump t) = pPos t" using True by (simp_all add: bump_def advance_def Let_def)
  ultimately show ?thesis using assms(3) True unfolding leavesRight_def forest_bump
    by (intro exI [of _ "Suc k"]) (simp add: replicate_append_same)
next
  case False
  then show ?thesis using leaves_token [OF assms(1,2)] unfolding leavesRight_def forest_bump
    by (intro exI [of _ 0]) (simp add: pPos_bump)
qed

lemma leaves_close: "wfState t \<Longrightarrow> m \<le> mark t \<Longrightarrow> concat (map leaves (forest (close m kind t))) = concat (map leaves (forest t))"
proof -
  assume "wfState t" "m \<le> mark t"
  then have "concat (map leaves (forest (close m kind t))) = concat (map leaves (take m (forest t))) @ concat (map leaves (drop m (forest t)))"
    by (simp add: forest_close)
  then show ?thesis by (metis append_take_drop_id concat_append map_append)
qed

lemma grows_leaves: "grows s t \<Longrightarrow> wfState s \<Longrightarrow> leavesRight s \<Longrightarrow> leavesRight t"
proof (induction rule: grows.induct)
  case (token t) then show ?case using growsD(1) by (intro leaves_bump) auto
next
  case (skip t)
  then show ?case using leaves_token [of t] growsD(1) [of s t] unfolding leavesRight_def forest_bump
    by (intro exI [of _ 0]) (simp add: pPos_skip)
next
  case (node t m kind)
  then show ?case using grows_wf [of s t] leaves_close [of t m kind] by (simp add: leavesRight_def)
next
  case (pack t m)
  then show ?case using grows_wf [of s t] forest_pack [of t m] by (simp add: leavesRight_def)
qed (simp_all add: leavesRight_def forest_def)

text \<open>The leaves of a node are the tokens between its first and its last one.\<close>

definition unbroken :: "Token list \<Rightarrow> nat list \<Rightarrow> bool" where
  "unbroken ts xs \<longleftrightarrow> xs = [] \<or> xs = solidRange ts (hd xs) (Suc (last xs)) \<and> last xs < length ts"

lemma solidRange_set: "set (solidRange ts i j) = {k. i \<le> k \<and> k < j \<and> \<not> isTrivia (kindAt ts k)}"
  by (auto simp: solidRange_def)

lemma solidRange_sorted: "sorted_wrt (<) (solidRange ts i j)"
  unfolding solidRange_def by (rule sorted_wrt_filter) simp

lemma sorted_ends:
  "sorted_wrt (<) (ys :: nat list) \<Longrightarrow> y \<in> set ys \<Longrightarrow> hd ys \<le> y \<and> y \<le> last ys"
  by (induction ys) (auto simp: less_imp_le)

lemma unbroken_suffix:
  assumes "solidRange ts i j = xs @ ys" "j \<le> length ts"
  shows "unbroken ts ys"
proof (cases "ys = []")
  case False
  have so: "sorted_wrt (<) (xs @ ys)" using solidRange_sorted [of ts i j] assms(1) by simp
  then have ys: "sorted_wrt (<) ys" by (simp add: sorted_wrt_append)
  have xs: "x < hd ys" if "x \<in> set xs" for x using so that False by (simp add: sorted_wrt_append)
  have all: "set xs \<union> set ys = {k. i \<le> k \<and> k < j \<and> \<not> isTrivia (kindAt ts k)}"
    using solidRange_set [of ts i j] assms(1) by simp
  have "hd ys \<in> set ys" "last ys \<in> set ys" using False by simp_all
  then have ij: "i \<le> hd ys" "last ys < j" using all by auto
  have "k \<in> set ys \<longleftrightarrow> hd ys \<le> k \<and> k < Suc (last ys) \<and> \<not> isTrivia (kindAt ts k)" for k
  proof
    assume "k \<in> set ys"
    then show "hd ys \<le> k \<and> k < Suc (last ys) \<and> \<not> isTrivia (kindAt ts k)" using all sorted_ends [OF ys, of k] by (auto simp: less_Suc_eq_le)
  next
    assume k: "hd ys \<le> k \<and> k < Suc (last ys) \<and> \<not> isTrivia (kindAt ts k)"
    then have "i \<le> k" "k < j" using ij by linarith+
    then have "k \<in> set xs \<union> set ys" using all k by auto
    then show "k \<in> set ys" using xs [of k] k by auto
  qed
  then have "set ys = set (solidRange ts (hd ys) (Suc (last ys)))" unfolding solidRange_set by blast
  then have "ys = solidRange ts (hd ys) (Suc (last ys))"
    using ys solidRange_sorted strict_sorted_equal by blast
  then show ?thesis using ij assms(2) by (simp add: unbroken_def)
qed (simp add: unbroken_def)

definition nodesUnbroken :: "PState \<Rightarrow> bool" where
  "nodesUnbroken t \<longleftrightarrow>
     (plain (pBuf t) \<longrightarrow> (\<forall>c < length (pNodes t). unbroken (pToks t) (leaves (synOf (pNodes t) (pChildren t) (NodeChild c)))))"

lemma synOf_closed:
  "wfState t \<Longrightarrow> m \<le> mark t \<Longrightarrow>
   synOf (pNodes (close m kind t)) (pChildren (close m kind t)) (NodeChild (length (pNodes t))) = Branch kind (drop m (forest t))"
  using forest_close [of t m kind] by (simp add: forest_def take_map)

lemma unbroken_close:
  assumes "wfState t" "leavesRight t" "nodesUnbroken t" "m \<le> mark t" "good t"
  shows "nodesUnbroken (close m kind t)"
  unfolding nodesUnbroken_def
proof (intro allI impI)
  let ?u = "close m kind t"
  fix c assume p: "plain (pBuf ?u)" and c: "c < length (pNodes ?u)"
  show "unbroken (pToks ?u) (leaves (synOf (pNodes ?u) (pChildren ?u) (NodeChild c)))"
  proof (cases "c < length (pNodes t)")
    case True
    then show ?thesis using assms(3) p synOf_close [OF assms(1), of "NodeChild c" m kind] by (simp add: nodesUnbroken_def)
  next
    case False
    then have eq: "c = length (pNodes t)" using c by (simp add: close_shapes(1))
    have "solidRange (pToks t) 0 (pPos t) = concat (map leaves (forest t))" using assms(2) p by (auto simp: leavesRight_def)
    also have "\<dots> = concat (map leaves (take m (forest t))) @ concat (map leaves (drop m (forest t)))"
      by (metis append_take_drop_id concat_append map_append)
    finally show ?thesis using assms(5) unbroken_suffix [of "pToks t" 0 "pPos t"] synOf_closed [OF assms(1,4), of kind] unfolding eq by (simp add: good_def)
  qed
qed

lemma grows_unbroken: "grows s t \<Longrightarrow> wfState s \<Longrightarrow> leavesRight s \<Longrightarrow> nodesUnbroken s \<Longrightarrow> nodesUnbroken t"
proof (induction rule: grows.induct)
  case (node t m kind) then show ?case using grows_wf [of s t] grows_leaves [of s t] growsD(1) [of s t] by (intro unbroken_close) auto
next
  case (pack t m)
  then have "wfState t" using grows_wf by blast
  then show ?case using pack synOf_pack [of t "NodeChild _" m] by (simp add: nodesUnbroken_def)
qed (simp_all add: nodesUnbroken_def)

text \<open>Without an error no node is empty and none is an error node.\<close>

definition cleanNodes :: "PState \<Rightarrow> bool" where
  "cleanNodes t \<longleftrightarrow>
     (pErrors t = [] \<longrightarrow> (\<forall>c < length (pNodes t). \<not> emptyNode (pNodes t ! c) \<and> nKind (pNodes t ! c) \<noteq> De ErrorNode))"

lemma error_kept: "pErrors (error kind ex loc t) = [] \<Longrightarrow> pErrors t = []" "pErrors (errorAux kind ex loc aux t) = [] \<Longrightarrow> pErrors t = []"
  using errors_kept by blast+

lemma emptyNode_close: "c < length (pNodes t) \<Longrightarrow> emptyNode (pNodes (close m kind t) ! c) = emptyNode (pNodes t ! c)"
  by (simp add: close_tree nth_append setParents_nth emptyNode_def)

lemma grows_clean: "grows s t \<Longrightarrow> cleanNodes s \<Longrightarrow> cleanNodes t"
proof (induction rule: grows.induct)
  case (node t m kind)
  show ?case using node emptyNode_close [of _ t m kind] close_shapes(2) [of _ t m kind] emptyNode_closed [of t m kind]
    by (auto simp: cleanNodes_def close_shapes(1) less_Suc_eq close_last) (auto simp: closedNode_def)
next
  case (pack t m)
  then show ?case using pack_nth [of _ t m] by (fastforce simp: cleanNodes_def emptyNode_def)
qed (auto simp: cleanNodes_def dest: error_kept)

end
