(* ===== verification/Parser_Names.thy ===== *)
theory Parser_Names
  imports Parser_Look
begin

text \<open>
  The productions that do not recurse into expressions or types: names, name lists, imports,
  resources, tag positions, type parameters, patterns and literals (from \<open>parser.cpp\<close>,
  \<open>parser_expr.cpp\<close> and \<open>parser_type.cpp\<close>), and the entry points of the recursion.

  A production that recurses takes the recursion as its argument \<open>rec\<close>: \<open>rec EExpr\<close> is
  \<open>parseExpr\<close>, \<open>rec EType\<close> is \<open>parseType\<close>, and so on. It is passed where the source calls back into a
  production that is defined later.
\<close>

datatype Entry = EExpr | ELogicalOr | EPower | ENeg bool | EType | EBlockExpr | EStmt | EDecl

type_synonym parser = "PState \<Rightarrow> PState option"

text \<open>\<open>while (cur_ == Comma && ... && !panic_) { bump(); item(); }\<close>\<close>

definition commaLoop :: "(PState \<Rightarrow> bool) \<Rightarrow> parser \<Rightarrow> parser" where
  "commaLoop ok item st =
     whileO (\<lambda>st. pCur st = Pn Comma \<and> ok st \<and> \<not> pPanic st) (\<lambda>st. item (bump st)) st"

section \<open>Names\<close>

definition parseIdentDef :: parser where
  "parseIdentDef st = Some (expectName (Pa IdentDef) st)"

definition parseIdentRef :: "NodeKind \<Rightarrow> parser" where
  "parseIdentRef kind st =
     (if pCur st \<noteq> Identifier then Some (nameError st)
      else do {
        let m = mark st;
        (go, st) \<leftarrow>
          whileO (\<lambda>(go, st). go \<and> pCur st = Pn ColonColon \<and> peek st 1 \<notin> {Pn Lt, Pn LAngle})
            (\<lambda>(go, st). let st = bump st
                        in if pCur st \<noteq> Identifier then Some (False, nameError st) else Some (True, bump st))
            (True, bump st);
        Some (close m kind st) })"

definition parseIdentList :: parser where
  "parseIdentList st =
     do { let m = mark st;
          st \<leftarrow> parseIdentDef st;
          st \<leftarrow> commaLoop (\<lambda>st. True) parseIdentDef st;
          Some (close m (Pa IdentList) st) }"

definition openOf :: "TokenKind \<Rightarrow> TokenKind" where
  "openOf closer = (if closer = Pn RParen then Pn LParen else if closer = Pn RBracket then Pn LBracket else Pn LBrace)"

definition identItem :: "bool \<Rightarrow> parser" where
  "identItem wildcards st =
     (if \<not> wildcards \<or> pCur st \<noteq> Pn Underscore then parseIdentDef st
      else Some (close (mark st) (Pa IdentDef) (bump st)))"

text \<open>The list inside the brackets.\<close>

definition bracketedList :: "TokenKind \<Rightarrow> bool \<Rightarrow> parser" where
  "bracketedList closer wildcards st =
     do { let lm = mark st;
          st \<leftarrow> identItem wildcards st;
          st \<leftarrow> commaLoop (\<lambda>st. peek st 1 \<noteq> closer) (identItem wildcards) st;
          Some (close lm (Pa IdentList) st) }"

definition parseBracketedIdents :: "TokenKind \<Rightarrow> NodeKind \<Rightarrow> bool \<Rightarrow> parser" where
  "parseBracketedIdents closer kind wildcards st =
     (let m = mark st; (ok, st) = expect (openOf closer) st
      in if \<not> ok then Some (close m kind st)
         else do {
           st \<leftarrow> inScope False None (\<lambda>st. do {
                   st \<leftarrow> (if pCur st \<noteq> closer \<and> pCur st \<noteq> Pn Comma
                         then bracketedList closer wildcards st else Some st);
                   Some (eatOpt (Pn Comma) st) }) st;
           Some (close m kind (expectListEnd closer st)) })"

definition parseModuleName :: parser where
  "parseModuleName st =
     (let m = mark st;
          st = (if pCur st \<in> {Pn Dot, Pn DotDot, Pn Ellipsis} then bump st else st)
      in if pCur st = Identifier
         then do {
           st \<leftarrow> whileO (\<lambda>st. pCur st = Pn Dot \<and> peek st 1 = Identifier) (\<lambda>st. Some (bump (bump st))) (bump st);
           st \<leftarrow> whileO (\<lambda>st. pCur st = Pn ColonColon \<and> peek st 1 = Identifier) (\<lambda>st. Some (bump (bump st))) st;
           Some (close m (De ModuleName) st) }
         else Some (close m (De ModuleName) (nameError st)))"

definition parseModifiers :: parser where
  "parseModifiers st =
     do { let m = mark st;
          st \<leftarrow> whileO (\<lambda>st. isModifier (pCur st)) (\<lambda>st. Some (bump st)) st;
          Some (close m (Pa Modifiers) st) }"

section \<open>Imports, namespaces and resources\<close>

definition parseImportItem :: parser where
  "parseImportItem st =
     do { let m = mark st;
          st \<leftarrow> parseIdentDef st;
          st \<leftarrow> (if pCur st = Kw KwAs \<and> \<not> pPanic st then parseIdentDef (bump st) else Some st);
          Some (close m (De ImportItem) st) }"

definition parseBracedImports :: parser where
  "parseBracedImports st =
     do { let m = mark st;
          st \<leftarrow> inScope False None (\<lambda>st. do {
                  st \<leftarrow> (if pCur st \<noteq> Pn RBrace \<and> pCur st \<noteq> Pn Comma
                        then do { st \<leftarrow> parseImportItem st;
                                  commaLoop (\<lambda>st. peek st 1 \<noteq> Pn RBrace) parseImportItem st }
                        else Some st);
                  Some (eatOpt (Pn Comma) st) }) (bump st);
          let st = (if \<not> pPanic st then expectListEnd (Pn RBrace) st else st);
          Some (close m (De BracedImports) st) }"

definition parseImportDecl :: parser where
  "parseImportDecl st =
     do { let m = mark st;
          let st = bump st;
          st \<leftarrow> (if pCur st = Pn LBrace
                then do { st \<leftarrow> parseBracedImports st; parseModuleName (expectOpt (Kw KwFrom) st) }
                else if pCur st = Identifier \<and> peek st 1 \<in> {Kw KwFrom, Kw KwAs} \<and>
                        (peek st 1 = Kw KwFrom \<or> peek st 3 = Kw KwFrom)
                then do { st \<leftarrow> parseImportItem st; parseModuleName (expectOpt (Kw KwFrom) st) }
                else do { st \<leftarrow> parseModuleName st;
                          if pCur st = Kw KwAs \<and> \<not> pPanic st then parseIdentDef (bump st) else Some st });
          Some (close m (De ImportDecl) st) }"

definition parseUsingNamespaceDecl :: parser where
  "parseUsingNamespaceDecl st =
     do { let m = mark st;
          st \<leftarrow> parseIdentRef (Pa IdentRef) (expectOpt (Kw KwNamespace) (bump st));
          Some (close m (De UsingNamespaceDecl) st) }"

definition parseResourceDecl :: parser where
  "parseResourceDecl st =
     do { let m = mark st;
          let st = expectName (Pa IdentDef) (bump (eatOpt (Kw KwExport) st));
          let (ok, st) = eat (Pn Assign) st;
          st \<leftarrow> (if ok then parseBracketedIdents (Pn RBracket) (Pa BracketIdents) False st
                else Some (if atWord st 0 ''unordered'' then bump st else st));
          Some (close m (De ResourceDecl) st) }"

definition parseResourceClause :: parser where
  "parseResourceClause st =
     do { let m = mark st;
          st \<leftarrow> whileO (\<lambda>st. \<not> pPanic st \<and> (atWord st 0 ''pure'' \<or> atWord st 0 ''uses''))
                  (\<lambda>st. if atWord st 0 ''pure'' then Some (bump st)
                        else do { st \<leftarrow> parseIdentRef (Pa IdentRef) (bump st);
                                  commaLoop (\<lambda>st. peek st 1 = Identifier) (parseIdentRef (Pa IdentRef)) st }) st;
          Some (close m (De ResourceClause) st) }"

section \<open>Tags, operators and type parameters\<close>

definition kPositions :: "string list" where
  "kPositions = [''func'', ''type'', ''field'', ''nodes'', ''param'']"

definition parseTagPositionName :: parser where
  "parseTagPositionName st =
     (if \<not> (pCur st = Identifier \<and> tokenTextAt st (pPos st) \<in> set kPositions) \<and>
         \<not> (isKeyword (pCur st) \<and> tokenTextAt st (pPos st) \<in> set kPositions)
      then Some (unexpected [Tok Identifier] st)
      else Some (close (mark st) (Pa IdentDef) (bump st)))"

definition parseTagPositions :: parser where
  "parseTagPositions st =
     do { let m = mark st;
          st \<leftarrow> parseTagPositionName st;
          st \<leftarrow> commaLoop (\<lambda>st. \<not> atWord st 1 ''read_by'' \<and> (peek st 1 = Identifier \<or> isKeyword (peek st 1)))
                  parseTagPositionName st;
          Some (close m (De TagPositions) (eatOpt (Pn Comma) st)) }"

definition parseTagReaders :: parser where
  "parseTagReaders st =
     do { let m = mark st;
          st \<leftarrow> parseIdentRef (Pa IdentRef) st;
          st \<leftarrow> commaLoop (\<lambda>st. peek st 1 = Identifier) (parseIdentRef (Pa IdentRef)) st;
          Some (close m (De TagReaders) (eatOpt (Pn Comma) st)) }"

definition parseOperatorName :: parser where
  "parseOperatorName st =
     (let m = mark st; st = bump st
      in if pCur st = Pn LBracket then Some (close m (De OperatorName) (expectOpt (Pn RBracket) (bump st)))
         else Some (close m (De OperatorName) (bump st)))"

definition typeParam :: parser where
  "typeParam st =
     (let pack = pCur st \<in> {Pn DotDot, Pn Ellipsis};
          st = (if pack then bump (if pCur st = Pn DotDot then unexpected [Tok (Pn Ellipsis)] st else st) else st);
          nm = mark st
      in do { st \<leftarrow> parseIdentDef st; Some (if pack then markNameAsPack nm st else st) })"

definition parseTypeParams :: parser where
  "parseTypeParams st =
     (let m = mark st; st = bump st
      in if \<not> pPanic st \<and> pCur st \<notin> {Pn Lt, Pn LAngle}
         then Some (close m (Pa TypeParams) (unexpected [Tok (Pn Lt)] st))
         else do {
           st \<leftarrow> inScope False None (\<lambda>st. do {
                   st \<leftarrow> typeParam st;
                   (go, st) \<leftarrow>
                     whileO (\<lambda>(go, st). go \<and> \<not> pPanic st \<and> pCur st = Pn Comma)
                       (\<lambda>(go, st). let st = bump st
                                   in if pCur st \<in> {Identifier, Pn DotDot, Pn Ellipsis}
                                      then do { st \<leftarrow> typeParam st; Some (True, st) }
                                      else Some (False, st)) (True, st);
                   Some st }) (bump st);
           let st = (if \<not> pPanic st
                     then let (ok, st) = eat (Pn Gt) st
                          in if ok then st else unexpected [Tok (Pn Comma), Tok (Pn Gt)] st
                     else st);
           Some (close m (Pa TypeParams) st) })"

section \<open>Literals and patterns\<close>

definition parseConstasData :: parser where
  "parseConstasData st = do { let m = mark st; st \<leftarrow> parseIdentDef (bump st); Some (close m (Ex ConstasData) st) }"

definition parseLiteral :: parser where
  "parseLiteral st =
     (let m = mark st; st = (if pCur st \<in> {Pn Plus, Pn Minus} then bump st else st)
      in Some (close m (Ex Literal) (bump st)))"

definition fieldPattern :: parser where
  "fieldPattern st =
     do { let m = mark st;
          st \<leftarrow> (if pCur st = Pn Underscore then Some (bump st)
                else if pCur st = Identifier then parseIdentRef (Pa IdentRef) st
                else Some (unexpected [PatternItem] st));
          Some (close m (Pa Pattern) st) }"

definition parseEnumTuplePattern :: parser where
  "parseEnumTuplePattern st =
     do { let m = mark st;
          st \<leftarrow> inScope False None (\<lambda>st. do {
                  st \<leftarrow> (if pCur st \<noteq> Pn RParen \<and> pCur st \<noteq> Pn Comma
                        then do { st \<leftarrow> fieldPattern st; commaLoop (\<lambda>st. peek st 1 \<noteq> Pn RParen) fieldPattern st }
                        else Some st);
                  Some (eatOpt (Pn Comma) st) }) (bump st);
          let st = (if \<not> pPanic st then expectListEnd (Pn RParen) st else st);
          Some (close m (Pa EnumTuplePattern) st) }"

definition parseEnumStructPattern :: parser where
  "parseEnumStructPattern st =
     do { let m = mark st;
          st \<leftarrow> inScope False None (\<lambda>st. do {
                  (go, st) \<leftarrow>
                    whileO (\<lambda>(go, st). go \<and> pCur st = Identifier \<and> \<not> pPanic st)
                      (\<lambda>(go, st). do {
                         let (ok, st) = eat (Pn Colon) (bump st);
                         st \<leftarrow> (if ok then fieldPattern st else Some st);
                         if pCur st \<noteq> Pn Comma then Some (False, st) else Some (True, bump st) }) (True, st);
                  Some st }) (bump st);
          let st = (if \<not> pPanic st then expectListEnd (Pn RBrace) st else st);
          Some (close m (Pa EnumStructPattern) st) }"

definition parsePattern :: "bool \<Rightarrow> parser" where
  "parsePattern fieldPosition st =
     (if fieldPosition then fieldPattern st
      else let m = mark st
           in if pCur st = Identifier
              then do {
                let isError = atWord st 0 ''error'';
                st \<leftarrow> parseIdentRef (Pa IdentRef) st;
                st \<leftarrow> (if pCur st = Pn LParen then parseEnumTuplePattern st
                      else if pCur st = Pn LBrace then parseEnumStructPattern st
                      else if isError \<and> pCur st = Identifier \<and> \<not> atWord st 0 ''when'' then parseIdentDef st
                      else Some st);
                Some (close m (Pa Pattern) st) }
              else if pCur st = Pn Underscore then Some (close m (Pa Pattern) (bump st))
              else if pCur st \<in> {TokenKind.Integer, TokenKind.Real, TokenKind.String, RawString, MultiStr, Kw KwTrue, Kw KwFalse, Kw KwNull} \<or>
                      literalSignAhead st
              then do { st \<leftarrow> parseLiteral st; Some (close m (Pa Pattern) st) }
              else Some (unexpected [PatternItem] st))"

definition parseStaticForName :: parser where
  "parseStaticForName st =
     (if pCur st = Pn Underscore \<and> \<not> pPanic st then Some (close (mark st) (Pa IdentDef) (bump st)) else parseIdentDef st)"

definition parseStaticForNameList :: parser where
  "parseStaticForNameList st =
     (if pPanic st then Some st
      else do { st \<leftarrow> parseStaticForName st; commaLoop (\<lambda>st. True) parseStaticForName st })"

end
