(* ===== verification/Parser_Wp.thy ===== *)
theory Parser_Wp
  imports Parser_Grow Parser_Names
begin

text \<open>
  A calculus for the productions. A state \<open>t\<close> that a production reaches from its start \<open>s\<close> is
  described by how far it has come: \<open>grows\<close>, \<open>keeps\<close> (an error that stands is not forgotten without a
  token being read), \<open>near\<close> (a token was read, or an error stands) and \<open>ahead\<close> (a token was read).
  \<open>wp\<close> says that code returns and what holds of its result; \<open>works\<close> is the contract of a production.
\<close>

section \<open>How far a production has come\<close>

definition keeps :: "PState \<Rightarrow> PState \<Rightarrow> bool" where
  "keeps s t \<longleftrightarrow> grows s t \<and> (pPanic s \<longrightarrow> pPos s < pPos t \<or> pPanic t)"

definition near :: "PState \<Rightarrow> PState \<Rightarrow> bool" where
  "near s t \<longleftrightarrow> grows s t \<and> (pPos s < pPos t \<or> pPanic t)"

definition ahead :: "PState \<Rightarrow> PState \<Rightarrow> bool" where
  "ahead s t \<longleftrightarrow> grows s t \<and> pPos s < pPos t"

lemmas far_defs = keeps_def near_def ahead_def

named_theorems vc

lemma far_weaken [vc]:
  "keeps s t \<Longrightarrow> grows s t" "near s t \<Longrightarrow> keeps s t" "ahead s t \<Longrightarrow> near s t"
  by (auto simp: far_defs)

lemma far_start [vc]: "good s \<Longrightarrow> keeps s s" "good s \<Longrightarrow> grows s s"
  by (auto simp: far_defs intro: grows.start)

lemma far_panic [vc]: "good s \<Longrightarrow> pPanic s \<Longrightarrow> near s s"
  by (simp add: near_def grows.start)

lemma far_trans:
  "grows s t \<Longrightarrow> near t u \<Longrightarrow> near s u"
  "grows s t \<Longrightarrow> ahead t u \<Longrightarrow> ahead s u"
  "ahead s t \<Longrightarrow> grows t u \<Longrightarrow> ahead s u"
  "near s t \<Longrightarrow> keeps t u \<Longrightarrow> near s u"
  "keeps s t \<Longrightarrow> keeps t u \<Longrightarrow> keeps s u"
  using growsD(3) by (fastforce simp: far_defs intro: grows_trans)+

subsection \<open>Primitive operations\<close>

lemma far_bump [vc]: "grows s t \<Longrightarrow> pCur t \<noteq> Eof \<Longrightarrow> ahead s (bump t)"
  using growsD(3) [of s t] pos_bump [of t] by (auto simp: far_defs intro: grows.token)

text \<open>Where the source does not check that there is a token.\<close>

lemma far_unchecked:
  "grows s t \<Longrightarrow> plain (pBuf t) \<longrightarrow> pCur t \<noteq> Eof \<Longrightarrow> grows s (bump t)"
  "ahead s t \<Longrightarrow> plain (pBuf t) \<longrightarrow> pCur t \<noteq> Eof \<Longrightarrow> ahead s (bump t)"
  using growsD(3) [of s t] pos_bump [of t] by (auto simp: far_defs intro: grows.token)

lemma far_error [vc]:
  "grows s t \<Longrightarrow> loc = pPos t \<or> loc = pPrev t \<Longrightarrow> near s (error kind ex loc t)"
  "ahead s t \<Longrightarrow> loc = pPos t \<or> loc = pPrev t \<Longrightarrow> ahead s (error kind ex loc t)"
  "grows s t \<Longrightarrow> loc = pPos t \<or> loc = pPrev t \<Longrightarrow> near s (errorAux kind ex loc aux t)"
  "ahead s t \<Longrightarrow> loc = pPos t \<or> loc = pPrev t \<Longrightarrow> ahead s (errorAux kind ex loc aux t)"
  by (auto simp: far_defs intro: grows.wrong grows.wrongAux)

lemma far_unexpected [vc]:
  "grows s t \<Longrightarrow> near s (unexpected ex t)" "ahead s t \<Longrightarrow> ahead s (unexpected ex t)"
  by (simp_all add: unexpected_def vc)

lemma far_nameError [vc]:
  "grows s t \<Longrightarrow> near s (nameError t)" "ahead s t \<Longrightarrow> ahead s (nameError t)"
  by (simp_all add: nameError_def vc)

lemma grows_close:
  assumes "grows s t" "pPos s < pPos t \<or> pErrors t \<noteq> []" "kind \<noteq> De ErrorNode"
  shows "grows s (close (mark s) kind t)"
  using assms solid_above [of s t] growsD(4) [of s t] by (intro grows.node) auto

lemma far_close [vc]:
  "near s t \<Longrightarrow> kind \<noteq> De ErrorNode \<Longrightarrow> near s (close (mark s) kind t)"
  "ahead s t \<Longrightarrow> kind \<noteq> De ErrorNode \<Longrightarrow> ahead s (close (mark s) kind t)"
  using growsD(1) [of s t] by (auto simp: far_defs good_def intro!: grows_close)

lemma far_expectName [vc]:
  "grows s t \<Longrightarrow> kind \<noteq> De ErrorNode \<Longrightarrow> near s (expectName kind t)"
  "ahead s t \<Longrightarrow> kind \<noteq> De ErrorNode \<Longrightarrow> ahead s (expectName kind t)"
proof -
  have *: "near t (expectName kind t)" if "grows s t" "kind \<noteq> De ErrorNode"
    using that growsD(1) [of s t] by (simp add: expectName_def vc)
  show "grows s t \<Longrightarrow> kind \<noteq> De ErrorNode \<Longrightarrow> near s (expectName kind t)"
    using * far_trans(1) by blast
  show "ahead s t \<Longrightarrow> kind \<noteq> De ErrorNode \<Longrightarrow> ahead s (expectName kind t)"
    using * far_trans(3) by (metis far_weaken)
qed

lemma far_pack [vc]:
  "grows s t \<Longrightarrow> grows s (markNameAsPack m t)" "keeps s t \<Longrightarrow> keeps s (markNameAsPack m t)"
  "near s t \<Longrightarrow> near s (markNameAsPack m t)" "ahead s t \<Longrightarrow> ahead s (markNameAsPack m t)"
  by (auto simp: far_defs intro: grows.pack)

lemma far_if [vc]:
  "grows s (if c then a else b) \<longleftrightarrow> (if c then grows s a else grows s b)"
  "keeps s (if c then a else b) \<longleftrightarrow> (if c then keeps s a else keeps s b)"
  "near s (if c then a else b) \<longleftrightarrow> (if c then near s a else near s b)"
  "ahead s (if c then a else b) \<longleftrightarrow> (if c then ahead s a else ahead s b)"
  by simp_all

lemma far_eat [vc]:
  "kind \<noteq> Eof \<Longrightarrow> grows s t \<Longrightarrow> grows s (eatOpt kind t)" "kind \<noteq> Eof \<Longrightarrow> keeps s t \<Longrightarrow> keeps s (eatOpt kind t)"
  "kind \<noteq> Eof \<Longrightarrow> near s t \<Longrightarrow> near s (eatOpt kind t)" "kind \<noteq> Eof \<Longrightarrow> ahead s t \<Longrightarrow> ahead s (eatOpt kind t)"
  by (auto simp: eatOpt_def eat_def vc)

lemma far_expect [vc]:
  "kind \<noteq> Eof \<Longrightarrow> grows s t \<Longrightarrow> near s (expectOpt kind t)" "kind \<noteq> Eof \<Longrightarrow> ahead s t \<Longrightarrow> ahead s (expectOpt kind t)"
  "kind \<noteq> Eof \<Longrightarrow> grows s t \<Longrightarrow> near s (expectListEnd kind t)" "kind \<noteq> Eof \<Longrightarrow> ahead s t \<Longrightarrow> ahead s (expectListEnd kind t)"
  by (auto simp: expectOpt_def expect_def expectListEnd_def vc)

text \<open>Changes of the layout context.\<close>

definition moved :: "PState \<Rightarrow> PState \<Rightarrow> PState \<Rightarrow> bool" where
  "moved s t u \<longleftrightarrow>
     (grows s t \<longrightarrow> grows s u) \<and> (keeps s t \<longrightarrow> keeps s u) \<and> (near s t \<longrightarrow> near s u) \<and> (ahead s t \<longrightarrow> ahead s u)"

lemma moved_layout:
  "moved s t (t\<lparr>pNl := a, pAngle := c, pConstData := d, pSpacedGt := g, pLambdaParams := l, pDepth := e, pTypeHead := h\<rparr>)"
proof -
  have "grows s t \<Longrightarrow>
      grows s (t\<lparr>pNl := a, pAngle := c, pConstData := d, pSpacedGt := g, pLambdaParams := l, pPanic := pPanic t, pDepth := e, pTypeHead := h\<rparr>)"
    by (rule grows.layout) simp_all
  then show ?thesis by (auto simp: moved_def far_defs)
qed

lemma moved_fields [vc]:
  "moved s t (t\<lparr>pTypeHead := h\<rparr>)" "moved s t (t\<lparr>pLambdaParams := l\<rparr>)" "moved s t (t\<lparr>pConstData := d\<rparr>)"
  "moved s t (t\<lparr>pSpacedGt := g\<rparr>)" "moved s t (t\<lparr>pDepth := e\<rparr>)" "moved s t (t\<lparr>pNl := a, pAngle := c, pSpacedGt := g\<rparr>)"
  using moved_layout [where a = "pNl t" and c = "pAngle t" and d = "pConstData t" and g = "pSpacedGt t" and l = "pLambdaParams t" and e = "pDepth t" and h = "h" and s = s and t = t]
    moved_layout [where a = "pNl t" and c = "pAngle t" and d = "pConstData t" and g = "pSpacedGt t" and l = "l" and e = "pDepth t" and h = "pTypeHead t" and s = s and t = t]
    moved_layout [where a = "pNl t" and c = "pAngle t" and d = "d" and g = "pSpacedGt t" and l = "pLambdaParams t" and e = "pDepth t" and h = "pTypeHead t" and s = s and t = t]
    moved_layout [where a = "pNl t" and c = "pAngle t" and d = "pConstData t" and g = "g" and l = "pLambdaParams t" and e = "pDepth t" and h = "pTypeHead t" and s = s and t = t]
    moved_layout [where a = "pNl t" and c = "pAngle t" and d = "pConstData t" and g = "pSpacedGt t" and l = "pLambdaParams t" and e = "e" and h = "pTypeHead t" and s = s and t = t]
    moved_layout [where a = "a" and c = "c" and d = "pConstData t" and g = "g" and l = "pLambdaParams t" and e = "pDepth t" and h = "pTypeHead t" and s = s and t = t]
  by simp_all

section \<open>Weakest preconditions\<close>

text \<open>
  The code returns a result with \<open>Q\<close>. The buffer, the lower bound of the start and the start itself
  are carried along for the rules.
\<close>

definition wp :: "TokenBuffer \<Rightarrow> nat \<Rightarrow> PState \<Rightarrow> 'a option \<Rightarrow> ('a \<Rightarrow> bool) \<Rightarrow> bool" where
  "wp B n s m Q \<longleftrightarrow> (\<exists>x. m = Some x \<and> Q x)"

definition begun :: "TokenBuffer \<Rightarrow> nat \<Rightarrow> PState \<Rightarrow> bool" where
  "begun B n s \<longleftrightarrow> good s \<and> pBuf s = B \<and> n \<le> pPos s"

text \<open>From a state at or behind \<open>k\<close> in which \<open>G\<close> holds the production returns, and has come as far as \<open>R\<close>.\<close>

definition works ::
  "TokenBuffer \<Rightarrow> nat \<Rightarrow> (PState \<Rightarrow> bool) \<Rightarrow> (PState \<Rightarrow> 'a \<Rightarrow> bool) \<Rightarrow> (PState \<Rightarrow> 'a option) \<Rightarrow> bool" where
  "works B k G R P \<longleftrightarrow> (\<forall>t. begun B k t \<and> G t \<longrightarrow> wp B k t (P t) (R t))"

named_theorems vcg

declare allI [vcg] impI [vcg]

lemma wp_basic [vcg]:
  "Q x \<Longrightarrow> wp B n s (Some x) Q"
  "wp B n s m (\<lambda>x. wp B n s (f x) Q') \<Longrightarrow> wp B n s (Option.bind m f) Q'"
  "wp B n s (g v) Q \<Longrightarrow> wp B n s (Let v g) Q"
  "(c \<Longrightarrow> wp B n s a Q) \<Longrightarrow> (\<not> c \<Longrightarrow> wp B n s b Q) \<Longrightarrow> wp B n s (if c then a else b) Q"
  by (auto simp: wp_def Let_def)

lemma wp_Some [simp]: "wp B n s (Some x) Q \<longleftrightarrow> Q x"
  by (simp add: wp_def)

lemma wp_tuple [vcg]: "wp B n s (h x y) Q \<Longrightarrow> wp B n s (case (x, y) of (a, b) \<Rightarrow> h a b) Q"
  by simp

lemma wp_pair [vcg]:
  "(c \<Longrightarrow> wp B n s (case p of (a, b) \<Rightarrow> h a b) Q) \<Longrightarrow> (\<not> c \<Longrightarrow> wp B n s (case q of (a, b) \<Rightarrow> h a b) Q) \<Longrightarrow>
   wp B n s (case (if c then p else q) of (a, b) \<Rightarrow> h a b) Q"
  "(pCur t = kind \<Longrightarrow> wp B n s (h True (bump t)) Q) \<Longrightarrow> (pCur t \<noteq> kind \<Longrightarrow> wp B n s (h False t) Q) \<Longrightarrow>
   wp B n s (case eat kind t of (a, b) \<Rightarrow> h a b) Q"
  "(pCur t = kind \<Longrightarrow> wp B n s (h True (bump t)) Q) \<Longrightarrow>
   (pCur t \<noteq> kind \<Longrightarrow> wp B n s (h False (error Missing [Tok kind] (pPos t) t)) Q) \<Longrightarrow>
   wp B n s (case expect kind t of (a, b) \<Rightarrow> h a b) Q"
  by (auto simp: eat_def expect_def)

text \<open>Scopes: the layout context changes and nothing else does.\<close>

definition moves :: "PState \<Rightarrow> PState \<Rightarrow> PState \<Rightarrow> bool" where
  "moves s t u \<longleftrightarrow> moved s t u \<and> (good t \<longrightarrow> good u) \<and> pBuf u = pBuf t \<and> pCur u = pCur t \<and> pPos u = pPos t \<and>
     pStack u = pStack t \<and> pPanic u = pPanic t \<and> pErrors u = pErrors t \<and> peek u = peek t"

text \<open>What is used of it behind the scope.\<close>

definition quits :: "PState \<Rightarrow> PState \<Rightarrow> PState \<Rightarrow> bool" where
  "quits s t u \<longleftrightarrow> moved s t u \<and> (good t \<longrightarrow> good u) \<and> pBuf u = pBuf t \<and> pPanic u = pPanic t"

lemma moves_quits: "moves s t u \<Longrightarrow> quits s t u"
  by (simp add: moves_def quits_def)

lemma peek_same: "pBuf u = pBuf t \<Longrightarrow> pPos u = pPos t \<Longrightarrow> peek u = peek t"
  by (rule ext) (simp add: peek_def offsetOf_def)

lemma moves_fields:
  "moves s t (t\<lparr>pTypeHead := h\<rparr>)" "moves s t (t\<lparr>pConstData := d\<rparr>)" "moves s t (t\<lparr>pDepth := e\<rparr>)"
  "moves s t (t\<lparr>pNl := a, pAngle := c, pSpacedGt := g\<rparr>)"
  by (auto simp: moves_def moved_fields good_def intro!: peek_same)

lemma wp_restore:
  "wp B n s m (\<lambda>t1. \<forall>t2. quits s t1 t2 \<longrightarrow> Q t2) \<Longrightarrow> (\<And>t1. moves s t1 (g t1)) \<Longrightarrow>
   wp B n s (Option.bind m (\<lambda>t1. Some (g t1))) Q"
  using moves_quits by (auto simp: wp_def)

lemma wp_scope [vcg]:
  "(\<And>t0. moves s t t0 \<Longrightarrow> wp B n s (f t0) (\<lambda>t1. \<forall>t2. quits s t1 t2 \<longrightarrow> Q t2)) \<Longrightarrow> wp B n s (inScope nl ang f t) Q"
  "(\<And>t0. moves s t t0 \<Longrightarrow> wp B n s (f t0) (\<lambda>t1. \<forall>t2. quits s t1 t2 \<longrightarrow> Q t2)) \<Longrightarrow> wp B n s (inConstData c f t) Q"
  "(\<And>t0. moves s t t0 \<Longrightarrow> wp B n s (f t0) (\<lambda>t1. \<forall>t2. quits s t1 t2 \<longrightarrow> Q t2)) \<Longrightarrow> wp B n s (inTypeHead f t) Q"
  "(\<And>t0. moves s t t0 \<Longrightarrow> wp B n s (f t0) (\<lambda>t1. \<forall>t2. quits s t1 t2 \<longrightarrow> Q t2)) \<Longrightarrow> wp B n s (inDepth f t) Q"
proof -
  assume *: "\<And>t0. moves s t t0 \<Longrightarrow> wp B n s (f t0) (\<lambda>t1. \<forall>t2. quits s t1 t2 \<longrightarrow> Q t2)"
  show "wp B n s (inScope nl ang f t) Q"
    unfolding inScope_def by (intro wp_restore * moves_fields)
  show "wp B n s (inConstData c f t) Q"
    unfolding inConstData_def by (intro wp_restore * moves_fields)
  show "wp B n s (inTypeHead f t) Q"
    unfolding inTypeHead_def by (intro wp_restore * moves_fields)
  show "wp B n s (inDepth f t) Q"
    unfolding inDepth_def by (intro wp_restore * moves_fields)
qed

lemma worksI:
  "(\<And>t. begun B k t \<Longrightarrow> good t \<Longrightarrow> pBuf t = B \<Longrightarrow> G t \<Longrightarrow> wp B k t (P t) (R t)) \<Longrightarrow> works B k G R P"
  by (simp add: works_def begun_def)

section \<open>Calls\<close>

lemma begun_far:
  "begun B n s \<Longrightarrow> grows s t \<Longrightarrow> begun B n t"
  "begun B n s \<Longrightarrow> ahead s t \<Longrightarrow> begun B (Suc n) t"
  using growsD(1,2,3) [of s t] by (auto simp: begun_def ahead_def)

lemma begun_less: "begun B n s \<Longrightarrow> k \<le> n \<Longrightarrow> begun B k s"
  by (simp add: begun_def)

lemma works_later: "works B k G R P \<Longrightarrow> k \<le> n \<Longrightarrow> works B n G R P"
  using begun_less by (auto simp: works_def wp_def)

lemma works_call:
  assumes "works B k G R P" "begun B n s" "grows s t" "k \<le> n \<or> k \<le> Suc n \<and> ahead s t" "G t"
  obtains t' where "P t = Some t'" "R t t'"
proof -
  have "begun B k t" using assms(2,3,4) begun_far begun_less by blast
  then show ?thesis using assms(1,5) that unfolding works_def wp_def by blast
qed

definition came :: "TokenBuffer \<Rightarrow> PState \<Rightarrow> PState \<Rightarrow> PState \<Rightarrow> bool" where
  "came B s t u \<longleftrightarrow> good u \<and> pBuf u = B \<and> grows s u \<and> (ahead s t \<longrightarrow> ahead s u)"

lemma cameI: "begun B n s \<Longrightarrow> grows s t \<Longrightarrow> grows t u \<Longrightarrow> came B s t u"
  unfolding came_def begun_def using growsD(1,2) [of t u] growsD(2) [of s t] far_trans(3) [of s t u] grows_trans [of t u s] by auto

lemma call_grows:
  "works B k G grows P \<Longrightarrow> begun B n s \<Longrightarrow> grows s t \<Longrightarrow> k \<le> n \<or> k \<le> Suc n \<and> ahead s t \<Longrightarrow> G t \<Longrightarrow>
   (\<And>u. came B s t u \<Longrightarrow> Q u) \<Longrightarrow> wp B n s (P t) Q"
  by (rule works_call, assumption+) (metis wp_def cameI)

lemma call_keeps:
  "works B k G keeps P \<Longrightarrow> begun B n s \<Longrightarrow> keeps s t \<Longrightarrow> k \<le> n \<or> k \<le> Suc n \<and> ahead s t \<Longrightarrow> G t \<Longrightarrow>
   (\<And>u. came B s t u \<Longrightarrow> keeps s u \<Longrightarrow> near s t \<longrightarrow> near s u \<Longrightarrow> Q u) \<Longrightarrow> wp B n s (P t) Q"
  by (rule works_call, assumption, assumption, erule far_weaken, assumption+)
    (metis wp_def cameI far_trans(4,5) far_weaken)

lemma call_near:
  "works B k G near P \<Longrightarrow> begun B n s \<Longrightarrow> grows s t \<Longrightarrow> k \<le> n \<or> k \<le> Suc n \<and> ahead s t \<Longrightarrow> G t \<Longrightarrow>
   (\<And>u. came B s t u \<Longrightarrow> near s u \<Longrightarrow> Q u) \<Longrightarrow> wp B n s (P t) Q"
  by (rule works_call, assumption+) (metis wp_def cameI far_trans(1,2) far_weaken)

lemma call_ahead:
  "works B k G ahead P \<Longrightarrow> begun B n s \<Longrightarrow> grows s t \<Longrightarrow> k \<le> n \<or> k \<le> Suc n \<and> ahead s t \<Longrightarrow> G t \<Longrightarrow>
   (\<And>u. came B s t u \<Longrightarrow> ahead s u \<Longrightarrow> Q u) \<Longrightarrow> wp B n s (P t) Q"
  by (rule works_call, assumption+) (metis wp_def cameI far_trans(1,2) far_weaken)

text \<open>Code that also yields a value.\<close>

lemma call_keeps2:
  "works B k G (\<lambda>t x. keeps t (snd x)) P \<Longrightarrow> begun B n s \<Longrightarrow> keeps s t \<Longrightarrow> k \<le> n \<or> k \<le> Suc n \<and> ahead s t \<Longrightarrow> G t \<Longrightarrow>
   (\<And>x u. came B s t u \<Longrightarrow> keeps s u \<Longrightarrow> near s t \<longrightarrow> near s u \<Longrightarrow> Q (x, u)) \<Longrightarrow> wp B n s (P t) Q"
  by (rule works_call, assumption, assumption, erule far_weaken, assumption+)
    (metis wp_def cameI far_trans(4,5) far_weaken prod.collapse)

lemma call_near2:
  "works B k G (\<lambda>t x. near t (snd x)) P \<Longrightarrow> begun B n s \<Longrightarrow> grows s t \<Longrightarrow> k \<le> n \<or> k \<le> Suc n \<and> ahead s t \<Longrightarrow> G t \<Longrightarrow>
   (\<And>x u. came B s t u \<Longrightarrow> near s u \<Longrightarrow> Q (x, u)) \<Longrightarrow> wp B n s (P t) Q"
  by (rule works_call, assumption+) (metis wp_def cameI far_trans(1) far_weaken prod.collapse)

section \<open>Loops\<close>

lemma whileO_total:
  assumes "I x" and "\<And>x. I x \<Longrightarrow> c x \<Longrightarrow> \<exists>y. b x = Some y \<and> I y \<and> (c y \<longrightarrow> f y < (f x :: nat))"
  shows "\<exists>y. whileO c b x = Some y \<and> I y \<and> \<not> c y"
  using assms(1)
proof (induction "f x" arbitrary: x rule: less_induct)
  case less
  show ?case
  proof (cases "c x")
    case True
    then obtain y where y: "b x = Some y" "I y" "c y \<longrightarrow> f y < f x" using assms(2) less.prems by blast
    have "\<exists>z. whileO c b y = Some z \<and> I z \<and> \<not> c z"
    proof (cases "c y")
      case True then show ?thesis using less.hyps y by blast
    next
      case False then show ?thesis using y(2) by (subst whileO.simps) simp
    qed
    then show ?thesis using True y(1) by (subst whileO.simps) simp
  next
    case False then show ?thesis using less.prems by (subst whileO.simps) simp
  qed
qed

lemma ahead_measure: "good u \<Longrightarrow> ahead t u \<Longrightarrow> length (pToks u) - pPos u < length (pToks t) - pPos t"
  using growsD(2) [of t u] by (auto simp: ahead_def good_def)

text \<open>The relation \<open>R\<close> is one the turns of the loop can be composed in.\<close>

lemma wp_turns:
  assumes "\<And>s t u. R s t \<Longrightarrow> R t u \<Longrightarrow> R s u" "\<And>s t. R s t \<Longrightarrow> grows s t"
    and s: "begun B n s" "R s (p x)"
    and step: "\<And>y. begun B n (p y) \<Longrightarrow> R s (p y) \<Longrightarrow> c y \<Longrightarrow> wp B n (p y) (b y) (\<lambda>z. R (p y) (p z) \<and> (c z \<longrightarrow> ahead (p y) (p z)))"
    and Q: "\<And>y. p y = p x \<or> R (p x) (p y) \<Longrightarrow> R s (p y) \<Longrightarrow> \<not> c y \<Longrightarrow> Q y"
  shows "wp B n s (whileO c b x) Q"
proof -
  let ?I = "\<lambda>y. R s (p y) \<and> (p y = p x \<or> R (p x) (p y))"
  have "\<exists>y. whileO c b x = Some y \<and> ?I y \<and> \<not> c y"
  proof (rule whileO_total [where f = "\<lambda>y. length (pToks (p y)) - pPos (p y)"])
    fix y assume y: "?I y" "c y"
    then obtain z where z: "b y = Some z" "R (p y) (p z)" "c z \<longrightarrow> ahead (p y) (p z)"
      using step [of y] begun_far(1) [OF s(1)] assms(2) by (auto simp: wp_def)
    then have "?I z" using y assms(1) by metis
    moreover have "good (p z)" using z(2) assms(2) growsD(1) by blast
    ultimately show "\<exists>z. b y = Some z \<and> ?I z \<and> (c z \<longrightarrow> length (pToks (p z)) - pPos (p z) < length (pToks (p y)) - pPos (p y))"
      using z ahead_measure by blast
  qed (use s(2) in simp)
  then show ?thesis using Q unfolding wp_def by blast
qed

lemma wp_loop:
  assumes s: "begun B n s" "keeps s (p x)"
    and step: "\<And>y. begun B n (p y) \<Longrightarrow> good (p y) \<Longrightarrow> pBuf (p y) = B \<Longrightarrow> keeps s (p y) \<Longrightarrow> c y \<Longrightarrow> wp B n (p y) (b y) (\<lambda>z. keeps (p y) (p z) \<and> (c z \<longrightarrow> ahead (p y) (p z)))"
    and Q: "\<And>y. came B s (p x) (p y) \<Longrightarrow> keeps s (p y) \<Longrightarrow> near s (p x) \<longrightarrow> near s (p y) \<Longrightarrow> \<not> c y \<Longrightarrow> Q y"
  shows "wp B n s (whileO c b x) Q"
proof (rule wp_turns [of keeps])
  fix y assume y: "p y = p x \<or> keeps (p x) (p y)" "keeps s (p y)" "\<not> c y"
  have "good (p x)" using s(2) growsD(1) by (auto simp: keeps_def)
  then have k: "keeps (p x) (p y)" using y(1) far_start by metis
  then have "came B s (p x) (p y)" using s by (intro cameI) (auto simp: keeps_def)
  then show "Q y" using Q y k far_trans(4) by blast
qed (use s step in \<open>auto simp: begun_def intro: far_trans far_weaken\<close>)

lemma wp_loop1 [vcg]:
  "begun B n s \<Longrightarrow> keeps s t \<Longrightarrow>
   (\<And>u. begun B n u \<Longrightarrow> good u \<Longrightarrow> pBuf u = B \<Longrightarrow> keeps s u \<Longrightarrow> c u \<Longrightarrow> wp B n u (b u) (\<lambda>v. keeps u v \<and> (c v \<longrightarrow> ahead u v))) \<Longrightarrow>
   (\<And>u. came B s t u \<Longrightarrow> keeps s u \<Longrightarrow> near s t \<longrightarrow> near s u \<Longrightarrow> \<not> c u \<Longrightarrow> Q u) \<Longrightarrow> wp B n s (whileO c b t) Q"
  by (rule wp_loop [where p = "\<lambda>t. t"])

lemma wp_loop2 [vcg]:
  "begun B n s \<Longrightarrow> keeps s t \<Longrightarrow>
   (\<And>x u. begun B n u \<Longrightarrow> good u \<Longrightarrow> pBuf u = B \<Longrightarrow> keeps s u \<Longrightarrow> c (x, u) \<Longrightarrow>
      wp B n u (b (x, u)) (\<lambda>v. keeps u (snd v) \<and> (c v \<longrightarrow> ahead u (snd v)))) \<Longrightarrow>
   (\<And>x u. came B s t u \<Longrightarrow> keeps s u \<Longrightarrow> near s t \<longrightarrow> near s u \<Longrightarrow> \<not> c (x, u) \<Longrightarrow> Q (x, u)) \<Longrightarrow>
   wp B n s (whileO c b (a, t)) Q"
  by (rule wp_loop [where p = snd]) auto

lemma wp_loop3 [vcg]:
  "begun B n s \<Longrightarrow> keeps s t \<Longrightarrow>
   (\<And>x y u. begun B n u \<Longrightarrow> good u \<Longrightarrow> pBuf u = B \<Longrightarrow> keeps s u \<Longrightarrow> c (x, y, u) \<Longrightarrow>
      wp B n u (b (x, y, u)) (\<lambda>v. keeps u (snd (snd v)) \<and> (c v \<longrightarrow> ahead u (snd (snd v))))) \<Longrightarrow>
   (\<And>x y u. came B s t u \<Longrightarrow> keeps s u \<Longrightarrow> near s t \<longrightarrow> near s u \<Longrightarrow> \<not> c (x, y, u) \<Longrightarrow> Q (x, y, u)) \<Longrightarrow>
   wp B n s (whileO c b (a, d, t)) Q"
  by (rule wp_loop [where p = "\<lambda>x. snd (snd x)"]) auto

text \<open>A loop that makes a turn.\<close>

lemma wp_loop_near:
  assumes s: "begun B n s" "good s" "c s \<or> pPanic s"
    and step: "\<And>u. begun B n u \<Longrightarrow> good u \<Longrightarrow> pBuf u = B \<Longrightarrow> c u \<Longrightarrow> wp B n u (b u) (ahead u)"
    and Q: "\<And>u. came B s s u \<Longrightarrow> near s u \<Longrightarrow> \<not> c u \<Longrightarrow> Q u"
  shows "wp B n s (whileO c b s) Q"
proof (rule wp_turns [of "\<lambda>t u. keeps t u \<and> (pPanic t \<or> ahead t u \<or> u = t)" _ _ _ "\<lambda>t. t"])
  fix y assume y: "y = s \<or> keeps s y \<and> (pPanic s \<or> ahead s y \<or> y = s)" "\<not> c y"
  have "near s y" using y s far_start far_weaken by (auto simp: near_def keeps_def ahead_def)
  moreover have "came B s s y" using calculation s far_start by (intro cameI) (auto simp: near_def)
  ultimately show "Q y" using Q y(2) by blast
next
  fix y assume y: "begun B n y" "c y"
  then show "wp B n y (b y) (\<lambda>z. (keeps y z \<and> (pPanic y \<or> ahead y z \<or> z = y)) \<and> (c z \<longrightarrow> ahead y z))"
    using step [of y] by (auto simp: wp_def begun_def vc)
qed (use s far_start in \<open>auto intro: far_trans far_weaken\<close>)

section \<open>What the conditions need\<close>

lemma unexpected_fields [simp]:
  "pBuf (unexpected ex t) = pBuf t" "pPos (unexpected ex t) = pPos t" "pCur (unexpected ex t) = pCur t"
  "pStack (unexpected ex t) = pStack t" "pPanic (unexpected ex t)"
  by (simp_all add: unexpected_def)

lemma cur_eatOpt: "good t \<Longrightarrow> pCur (eatOpt kind t) = (if pCur t = kind then peek t 1 else pCur t)"
  by (simp add: eatOpt_def eat_def cur_bump)

lemma good_eatOpt: "good t \<Longrightarrow> good (eatOpt kind t)"
  by (simp add: eatOpt_def eat_def good_bump)

lemma good_unexpected: "good t \<Longrightarrow> good (unexpected ex t)"
  by (simp add: unexpected_def good_error)

lemma kind_not_Eof [simp]: "\<not> isKeyword Eof" "\<not> isPunctuation Eof" "openOf kind \<noteq> Eof"
  by (simp_all add: isKeyword_def isPunctuation_def openOf_def)

lemma kind_not_eof [simp]: "isKeyword kind \<Longrightarrow> kind \<noteq> Eof" "isPunctuation kind \<Longrightarrow> kind \<noteq> Eof"
  by auto

lemma cur_word: "good t \<Longrightarrow> atWord t 0 w \<longleftrightarrow> pCur t = Identifier \<and> tokenTextAt t (pPos t) = w"
  by (simp add: atWord_def offsetOf_def good_def)

lemma good_expectName: "good t \<Longrightarrow> good (expectName (Pa kind) t)"
  using far_expectName(1) [of t t "Pa kind"] far_start(2) [of t] growsD(1) by (auto simp: near_def)

lemmas fields_vc [vc] =
  came_def moves_def quits_def moved_def good_bump good_eatOpt good_unexpected good_expectName cur_bump cur_eatOpt cur_word

end
