(* ===== verification/Parser_Spec_Names.thy ===== *)
theory Parser_Spec_Names
  imports Parser_Wp
begin

text \<open>The productions of \<open>Parser_Names\<close>: each returns, and what it reaches grows from where it started.\<close>

abbreviation anywhere :: "PState \<Rightarrow> bool" where
  "anywhere \<equiv> \<lambda>t. True"

lemma parseIdentDef_works: "works B 0 anywhere near parseIdentDef"
  unfolding parseIdentDef_def by (rule worksI, intro vcg) (simp add: vc)

lemma parseIdentRef_works: "works B 0 (\<lambda>t. kind \<noteq> De ErrorNode) near (parseIdentRef kind)"
  unfolding parseIdentRef_def
  apply (rule worksI, intro vcg)
  apply (simp_all add: vc)
  done

lemma parseIdentRef_plain: "works B 0 anywhere near (parseIdentRef (Pa kind))"
  using parseIdentRef_works by (simp add: works_def)

lemma commaLoop_vc [vcg]:
  assumes "works B (Suc n) anywhere near item" "begun B n s" "keeps s t"
    and "\<And>u. came B s t u \<Longrightarrow> keeps s u \<Longrightarrow> near s t \<longrightarrow> near s u \<Longrightarrow> Q u"
  shows "wp B n s (commaLoop ok item t) Q"
  unfolding commaLoop_def using assms(2-4)
proof (intro vcg)
  fix u assume u: "begun B n u" "good u" "pCur u = Pn Comma \<and> ok u \<and> \<not> pPanic u"
  show "wp B n u (item (bump u)) (\<lambda>v. keeps u v \<and> (pCur v = Pn Comma \<and> ok v \<and> \<not> pPanic v \<longrightarrow> ahead u v))"
    using u by (intro call_near [OF assms(1)]) (simp_all add: vc)
qed

lemmas ident_vc [vcg] = parseIdentDef_works [THEN call_near] parseIdentRef_works [THEN call_near] parseIdentDef_works [THEN works_later]
  parseIdentRef_plain [THEN works_later]

lemma identItem_works: "works B 0 anywhere near (identItem w)"
  unfolding identItem_def by (rule worksI, intro vcg) (simp_all add: vc)

lemmas identItem_vc [vcg] = identItem_works [THEN call_near] identItem_works [THEN works_later]

lemma parseIdentList_works: "works B 0 anywhere near parseIdentList"
  unfolding parseIdentList_def by (rule worksI, intro vcg) (simp_all add: vc)

lemma bracketedList_works: "works B 0 anywhere near (bracketedList closer w)"
  unfolding bracketedList_def by (rule worksI, intro vcg) (simp_all add: vc)

lemmas bracketedList_vc [vcg] = bracketedList_works [THEN call_near]

lemma parseBracketedIdents_works:
  "works B 0 (\<lambda>t. closer \<noteq> Eof \<and> kind \<noteq> De ErrorNode) near (parseBracketedIdents closer kind w)"
  unfolding parseBracketedIdents_def by (rule worksI, intro vcg) (simp_all add: vc)

lemma parseModuleName_works: "works B 0 anywhere near parseModuleName"
  unfolding parseModuleName_def by (rule worksI, intro vcg) (simp_all add: vc)

lemmas list_vc [vcg] =
  parseIdentList_works [THEN call_near] parseBracketedIdents_works [THEN call_near] parseModuleName_works [THEN call_near]

section \<open>Imports, namespaces and resources\<close>

lemma parseImportItem_works: "works B 0 anywhere near parseImportItem"
  unfolding parseImportItem_def by (rule worksI, intro vcg) (simp_all add: vc)

lemmas parseImportItem_vc [vcg] = parseImportItem_works [THEN call_near] parseImportItem_works [THEN works_later]

lemma parseBracedImports_works: "works B 0 (\<lambda>t. pCur t \<noteq> Eof) ahead parseBracedImports"
  unfolding parseBracedImports_def by (rule worksI, intro vcg) (simp_all add: vc)

lemmas parseBracedImports_vc [vcg] = parseBracedImports_works [THEN call_ahead]

lemma parseImportDecl_works: "works B 0 (\<lambda>t. pCur t \<noteq> Eof) ahead parseImportDecl"
  unfolding parseImportDecl_def by (rule worksI, intro vcg) (simp_all add: vc)

lemma parseUsingNamespaceDecl_works: "works B 0 (\<lambda>t. pCur t \<noteq> Eof) ahead parseUsingNamespaceDecl"
  unfolding parseUsingNamespaceDecl_def by (rule worksI, intro vcg) (simp_all add: vc)

text \<open>The word of a declaration, after an optional \<open>export\<close>.\<close>

definition wordAhead :: "PState \<Rightarrow> bool" where
  "wordAhead t \<longleftrightarrow> (if pCur t = Kw KwExport then peek t 1 \<noteq> Eof else pCur t \<noteq> Eof)"

lemma parseResourceDecl_works: "works B 0 wordAhead ahead parseResourceDecl"
  unfolding parseResourceDecl_def by (rule worksI, intro vcg) (auto simp add: vc wordAhead_def split: if_splits)

lemma parseResourceClause_works:
  "works B 0 (\<lambda>t. atWord t 0 ''uses'' \<or> atWord t 0 ''pure'') near parseResourceClause"
  unfolding parseResourceClause_def
  by (rule worksI, intro wp_basic(3), intro wp_basic(2), rule wp_loop_near, assumption, assumption, blast, intro vcg)
    (simp_all add: vc)

section \<open>Tags, operators and type parameters\<close>

lemma parseTagPositionName_works: "works B 0 anywhere near parseTagPositionName"
  unfolding parseTagPositionName_def by (rule worksI, intro vcg) (auto simp add: vc)

lemmas tagPosition_vc [vcg] = parseTagPositionName_works [THEN call_near] parseTagPositionName_works [THEN works_later]

lemma parseTagPositions_works: "works B 0 anywhere near parseTagPositions"
  unfolding parseTagPositions_def by (rule worksI, intro vcg) (simp_all add: vc)

lemma parseTagReaders_works: "works B 0 anywhere near parseTagReaders"
  unfolding parseTagReaders_def by (rule worksI, intro vcg) (simp_all add: vc)

lemma parseOperatorName_works: "works B 0 atOperatorName ahead parseOperatorName"
  unfolding parseOperatorName_def by (rule worksI, intro vcg) (auto simp add: vc atOperatorName_def)

lemma typeParam_works: "works B 0 anywhere near typeParam"
  unfolding typeParam_def by (rule worksI, intro vcg) (simp_all add: vc)

lemmas typeParam_vc [vcg] = typeParam_works [THEN call_near]

lemma parseTypeParams_works: "works B 0 (\<lambda>t. pCur t \<noteq> Eof) ahead parseTypeParams"
  unfolding parseTypeParams_def by (rule worksI, intro vcg) (simp_all add: vc, (elim disjE; simp add: vc eat_def)+)

section \<open>Literals and patterns\<close>

lemma parseConstasData_works: "works B 0 (\<lambda>t. pCur t \<noteq> Eof) ahead parseConstasData"
  unfolding parseConstasData_def by (rule worksI, intro vcg) (simp_all add: vc)

lemma parseLiteral_works:
  "works B 0 (\<lambda>t. pCur t \<noteq> Eof \<and> (pCur t \<in> {Pn Plus, Pn Minus} \<longrightarrow> peek t 1 \<noteq> Eof)) ahead parseLiteral"
  unfolding parseLiteral_def by (rule worksI, intro vcg) (simp_all add: vc)

lemma fieldPattern_works: "works B 0 anywhere near fieldPattern"
  unfolding fieldPattern_def by (rule worksI, intro vcg) (simp_all add: vc)

lemmas pattern_vc [vcg] =
  parseLiteral_works [THEN call_ahead] fieldPattern_works [THEN call_near] fieldPattern_works [THEN works_later]

lemma parseEnumTuplePattern_works: "works B 0 (\<lambda>t. pCur t \<noteq> Eof) ahead parseEnumTuplePattern"
  unfolding parseEnumTuplePattern_def by (rule worksI, intro vcg) (simp_all add: vc)

lemma parseEnumStructPattern_works: "works B 0 (\<lambda>t. pCur t \<noteq> Eof) ahead parseEnumStructPattern"
  unfolding parseEnumStructPattern_def by (rule worksI, intro vcg) (simp_all add: vc)

lemmas enumPattern_vc [vcg] = parseEnumTuplePattern_works [THEN call_ahead] parseEnumStructPattern_works [THEN call_ahead]

lemma parsePattern_works: "works B 0 anywhere near (parsePattern fieldPosition)"
  unfolding parsePattern_def by (rule worksI, intro vcg) (auto simp add: vc literalSignAhead_def)

lemma parseStaticForName_works: "works B 0 anywhere near parseStaticForName"
  unfolding parseStaticForName_def by (rule worksI, intro vcg) (simp_all add: vc)

lemmas staticForName_vc [vcg] = parseStaticForName_works [THEN call_near] parseStaticForName_works [THEN works_later]

lemma parseStaticForNameList_works: "works B 0 anywhere near parseStaticForNameList"
  unfolding parseStaticForNameList_def by (rule worksI, intro vcg) (simp_all add: vc)

lemmas production_vc [vcg] =
  parseImportDecl_works [THEN call_ahead] parseUsingNamespaceDecl_works [THEN call_ahead]
  parseResourceDecl_works [THEN call_ahead] parseResourceClause_works [THEN call_near]
  parseTagPositions_works [THEN call_near] parseTagReaders_works [THEN call_near]
  parseOperatorName_works [THEN call_ahead] parseTypeParams_works [THEN call_ahead]
  parseConstasData_works [THEN call_ahead] parsePattern_works [THEN call_near] parsePattern_works [THEN works_later]
  parseStaticForNameList_works [THEN call_near]

end
