(* ===== verification/Parser_Type.thy ===== *)
theory Parser_Type
  imports Parser_Names
begin

text \<open>
  Arguments, tags and type expressions: \<open>parser_type.cpp\<close> whole, the argument lists of
  \<open>parser_expr.cpp\<close> and the parameter lists and front matter of \<open>parser.cpp\<close>.
\<close>

section \<open>Argument lists\<close>

text \<open>Reports a \<open>..\<close> where \<open>...\<close> is the spelling; the caller reads on.\<close>

definition packMark :: "PState \<Rightarrow> PState" where
  "packMark st = (if pCur st = Pn DotDot then unexpected [Tok (Pn Ellipsis)] st else st)"

definition parseIndexValue :: "(Entry \<Rightarrow> parser) \<Rightarrow> parser" where
  "parseIndexValue rec st =
     (if pCur st \<in> {Pn DotDot, Pn Ellipsis}
      then do { let st = packMark st;
                let m = mark st;
                st \<leftarrow> rec EExpr (bump st);
                Some (close m (Ex RestValue) st) }
      else rec EExpr st)"

definition parseKeyValuePair :: "(Entry \<Rightarrow> parser) \<Rightarrow> parser" where
  "parseKeyValuePair rec st =
     do { let m = mark st;
          st \<leftarrow> parseIdentDef st;
          st \<leftarrow> (if \<not> pPanic st then (let (ok, st) = expect (Pn Colon) st in if ok then rec EExpr st else Some st)
                else Some st);
          Some (close m (Pa KeyValuePair) st) }"

definition parsePairedValues :: "(Entry \<Rightarrow> parser) \<Rightarrow> TokenKind \<Rightarrow> parser" where
  "parsePairedValues rec closer st =
     do { let m = mark st;
          st \<leftarrow> parseKeyValuePair rec st;
          st \<leftarrow> commaLoop (\<lambda>st. peek st 1 \<noteq> closer) (parseKeyValuePair rec) st;
          Some (close m (Pa PairedValues) st) }"

definition argumentValue :: "(Entry \<Rightarrow> parser) \<Rightarrow> parser" where
  "argumentValue rec st =
     (if pairStartsAt st 0 then parseKeyValuePair rec st
      else do { let im = mark st; st \<leftarrow> parseIndexValue rec st; Some (close im (Pa StrayPositional) st) })"

definition parseArgumentValues :: "(Entry \<Rightarrow> parser) \<Rightarrow> TokenKind \<Rightarrow> parser" where
  "parseArgumentValues rec closer st =
     do { let m = mark st;
          st \<leftarrow> argumentValue rec st;
          st \<leftarrow> commaLoop (\<lambda>st. peek st 1 \<noteq> closer) (argumentValue rec) st;
          Some (close m (Pa PairedValues) st) }"

definition parseDataList :: "(Entry \<Rightarrow> parser) \<Rightarrow> TokenKind \<Rightarrow> parser" where
  "parseDataList rec closer st =
     do { let m = mark st;
          st \<leftarrow> rec EExpr st;
          st \<leftarrow> commaLoop (\<lambda>st. peek st 1 \<noteq> closer) (rec EExpr) st;
          Some (close m (Pa DataList) st) }"

definition indexValues :: "(Entry \<Rightarrow> parser) \<Rightarrow> TokenKind \<Rightarrow> parser" where
  "indexValues rec closer st =
     do { let im = mark st;
          st \<leftarrow> parseIndexValue rec st;
          st \<leftarrow> commaLoop (\<lambda>st. peek st 1 \<noteq> closer \<and> \<not> pairStartsAt st 1) (parseIndexValue rec) st;
          Some (close im (Pa IndexValues) st) }"

definition parseArguments :: "(Entry \<Rightarrow> parser) \<Rightarrow> TokenKind \<Rightarrow> parser" where
  "parseArguments rec closer st =
     (if pCur st = closer then Some st
      else if pCur st = Pn Comma \<and> peek st 1 = closer then Some (bump st)
      else do {
        let m = mark st;
        (named, st) \<leftarrow>
          (if pairStartsAt st 0 then Some (True, st)
           else do {
             st \<leftarrow> indexValues rec closer st;
             Some (if pCur st = Pn Comma \<and> pairStartsAt st 1 \<and> \<not> pPanic st then (True, bump st) else (False, st)) });
        st \<leftarrow> (if named
              then if closer = Pn RParen then parseArgumentValues rec closer st else parsePairedValues rec closer st
              else Some st);
        Some (eatOpt (Pn Comma) (close m (Pa ArgumentList) st)) })"

definition parseParentArgues :: "(Entry \<Rightarrow> parser) \<Rightarrow> parser" where
  "parseParentArgues rec st =
     do { let m = mark st;
          st \<leftarrow> inScope False None (parseArguments rec (Pn RParen)) (bump st);
          let st = (if \<not> pPanic st then expectListEnd (Pn RParen) st else st);
          Some (close m (Pa ParentArgues) st) }"

text \<open>The check inside the scope of an angle-bracket list, before its closer is taken.\<close>

definition angleEnd :: "PState \<Rightarrow> PState" where
  "angleEnd st = (if \<not> pPanic st \<and> pCur st \<noteq> Pn Gt then unexpected [Tok (Pn Comma), Tok (Pn Gt)] st else st)"

definition parseAngledValues :: "(Entry \<Rightarrow> parser) \<Rightarrow> parser" where
  "parseAngledValues rec st =
     do { let m = mark st;
          let open' = pPos st;
          st \<leftarrow> inScope False (Some open') (\<lambda>st. do { st \<leftarrow> parseArguments rec (Pn Gt) st; Some (angleEnd st) }) (bump st);
          Some (close m (Pa AngledValues) (eatOpt (Pn Gt) st)) }"

section \<open>Front matter\<close>

definition parseTagRef :: "(Entry \<Rightarrow> parser) \<Rightarrow> parser" where
  "parseTagRef rec st =
     do { let m = mark st;
          st \<leftarrow> parseIdentRef (Pa IdentRef) st;
          st \<leftarrow> (if pCur st = Pn LParen then parseParentArgues rec st else Some st);
          Some (close m (De TagRef) st) }"

definition parseTagUse :: "(Entry \<Rightarrow> parser) \<Rightarrow> parser" where
  "parseTagUse rec st =
     do { let m = mark st;
          let st = bump st;
          st \<leftarrow> (if pCur st = Pn LBracket
                then do {
                  st \<leftarrow> inScope False None (\<lambda>st. do {
                          st \<leftarrow> (if pCur st \<noteq> Pn RBracket \<and> \<not> pPanic st
                                then do { st \<leftarrow> parseTagRef rec st;
                                          commaLoop (\<lambda>st. peek st 1 \<noteq> Pn RBracket) (parseTagRef rec) st }
                                else Some st);
                          Some (eatOpt (Pn Comma) st) }) (bump st);
                  Some (if \<not> pPanic st then expectOpt (Pn RBracket) st else st) }
                else if \<not> pPanic st then parseTagRef rec st
                else Some st);
          Some (close m (De TagUse) st) }"

definition parseFuncAnno :: "(Entry \<Rightarrow> parser) \<Rightarrow> parser" where
  "parseFuncAnno rec st =
     do { let m = mark st;
          st \<leftarrow> parseIdentRef (Pa IdentRef) (bump st);
          st \<leftarrow> (if pCur st = Pn LAngle then parseAngledValues rec st
                else if pCur st = Pn LParen then parseBracketedIdents (Pn RParen) (Pa ParentIdents) False st
                else Some st);
          Some (close m (De FuncAnno) st) }"

definition parseFrontMatter :: "(Entry \<Rightarrow> parser) \<Rightarrow> parser" where
  "parseFrontMatter rec st =
     whileO (\<lambda>st. pCur st \<in> {Pn At, Pn Hash})
       (\<lambda>st. if pCur st = Pn At then parseFuncAnno rec st else parseTagUse rec st) st"

text \<open>A condition over every member of a pack, at its \<open>...\<close>.\<close>

definition packCondition :: "(Entry \<Rightarrow> parser) \<Rightarrow> parser" where
  "packCondition rec st =
     do { let st = packMark st;
          let cm = mark st;
          let st = bump st;
          st \<leftarrow> (if \<not> pPanic st then rec EExpr st else Some st);
          Some (close cm (Ex RestValue) st) }"

definition parseWhenClause :: "(Entry \<Rightarrow> parser) \<Rightarrow> parser" where
  "parseWhenClause rec st =
     do { let m = mark st;
          let st = bump st;
          st \<leftarrow> (if pCur st \<in> {Pn DotDot, Pn Ellipsis}
                then packCondition rec st else rec EExpr st);
          Some (close m (De WhenClause) st) }"

section \<open>Parameter lists\<close>

definition parseKeyParamPair :: "(Entry \<Rightarrow> parser) \<Rightarrow> bool \<Rightarrow> bool \<Rightarrow> bool \<Rightarrow> parser" where
  "parseKeyParamPair rec allowRest allowConstas angled st =
     (let m = mark st
      in if pLambdaParams st \<and> pCur st = Pn LParen
         then do {
           st \<leftarrow> parseIdentDef (bump st);
           st \<leftarrow> commaLoop (\<lambda>st. peek st 1 \<noteq> Pn RParen) parseIdentDef st;
           let st = eatOpt (Pn Comma) st;
           let st = (if \<not> pPanic st then expectOpt (Pn RParen) st else st);
           Some (close m (Pa TupleParam) st) }
         else if allowRest \<and> pCur st \<in> {Pn DotDot, Pn Ellipsis}
         then do {
           let st = bump (packMark st);
           st \<leftarrow> (if pCur st = Identifier \<and> peek st 1 \<in> {Pn Colon, Pn Comma, Pn RParen, Pn Gt}
                 then do { st \<leftarrow> parseIdentDef st;
                           let (ok, st) = eat (Pn Colon) st;
                           if ok then rec EType st else Some st }
                 else rec EType st);
           Some (close m (Pa KeyParamPair) st) }
         else if allowConstas \<and> pCur st = Kw KwConstas
         then do {
           st \<leftarrow> parseIdentDef (bump st);
           let (ok, st) = eat (Pn Colon) st;
           st \<leftarrow> (if ok
                 then do { st \<leftarrow> rec EType st;
                           if angled then (let (ok, st) = eat (Pn Assign) st in if ok then rec EExpr st else Some st)
                           else Some st }
                 else Some st);
           Some (close m (Pa KeyParamPair) st) }
         else do {
           let (ok, st) = eat (Kw KwVar) st;
           let st = (if ok then st else eatOpt (Kw KwConst) st);
           st \<leftarrow> parseIdentDef st;
           st \<leftarrow> (if \<not> pPanic st
                 then let (ok, st) = (if pLambdaParams st then eat (Pn Colon) st else expect (Pn Colon) st)
                      in if ok
                         then do { st \<leftarrow> rec EType st;
                                   let (ok, st) = eat (Pn Assign) st;
                                   if ok then rec EExpr st else Some st }
                         else Some st
                 else Some st);
           Some (close m (Pa KeyParamPair) st) })"

definition parsePairedParams :: "(Entry \<Rightarrow> parser) \<Rightarrow> TokenKind \<Rightarrow> bool \<Rightarrow> bool \<Rightarrow> parser" where
  "parsePairedParams rec closer allowRest allowConstas st =
     do { let m = mark st;
          let angled = (closer = Pn Gt);
          st \<leftarrow> parseKeyParamPair rec allowRest allowConstas angled st;
          st \<leftarrow> commaLoop (\<lambda>st. peek st 1 \<noteq> closer) (parseKeyParamPair rec allowRest allowConstas angled) st;
          Some (close m (Pa PairedParams) st) }"

definition parseParentParams :: "(Entry \<Rightarrow> parser) \<Rightarrow> bool \<Rightarrow> bool \<Rightarrow> parser" where
  "parseParentParams rec allowRest allowConstas st =
     (let m = mark st; (ok, st) = expect (Pn LParen) st
      in if \<not> ok then Some st
         else do {
           st \<leftarrow> inScope False None (\<lambda>st. do {
                   st \<leftarrow> (if pCur st \<in> {Identifier, Kw KwVar, Kw KwConst} \<or> pLambdaParams st \<and> pCur st = Pn LParen \<or>
                            allowRest \<and> pCur st \<in> {Pn DotDot, Pn Ellipsis} \<or> allowConstas \<and> pCur st = Kw KwConstas
                         then parsePairedParams rec (Pn RParen) allowRest allowConstas st
                         else if pCur st \<noteq> Pn RParen \<and> pCur st \<noteq> Pn Comma
                         then Some (unexpected [Tok (Pn Comma), Tok (Pn RParen), Tok (Kw KwVar), Tok (Kw KwConstas), Tok Identifier] st)
                         else Some st);
                   Some (eatOpt (Pn Comma) st) }) st;
           let st = (if \<not> pPanic st then expectListEnd (Pn RParen) st else st);
           Some (close m (Pa ParentParams) st) })"

definition parseAngledParams :: "(Entry \<Rightarrow> parser) \<Rightarrow> bool \<Rightarrow> bool \<Rightarrow> parser" where
  "parseAngledParams rec allowRest allowConstas st =
     (if pCur st \<notin> {Pn Lt, Pn LAngle} then Some (unexpected [Tok (Pn Lt)] st)
      else do {
        let m = mark st;
        let open' = pPos st;
        st \<leftarrow> inScope False (Some open') (\<lambda>st. do {
                st \<leftarrow> (if pCur st \<noteq> Pn Gt \<and> pCur st \<noteq> Pn Comma
                      then parsePairedParams rec (Pn Gt) allowRest allowConstas st else Some st);
                Some (angleEnd (eatOpt (Pn Comma) st)) }) (bump st);
        Some (close m (Pa AngledParams) (eatOpt (Pn Gt) st)) })"

section \<open>Types\<close>

definition parseTypeList :: "(Entry \<Rightarrow> parser) \<Rightarrow> TokenKind \<Rightarrow> parser" where
  "parseTypeList rec closer st =
     do { let m = mark st;
          st \<leftarrow> rec EType st;
          st \<leftarrow> commaLoop (\<lambda>st. peek st 1 \<noteq> closer) (rec EType) st;
          Some (close m (Pa TypeList) st) }"

definition parseEnumField :: "(Entry \<Rightarrow> parser) \<Rightarrow> parser" where
  "parseEnumField rec st =
     do { let m = mark st;
          st \<leftarrow> parseIdentDef st;
          st \<leftarrow> (if \<not> pPanic st then (let (ok, st) = expect (Pn Colon) st in if ok then rec EType st else Some st)
                else Some st);
          Some (close m (Pa EnumField) st) }"

definition parseEnumVariant :: "(Entry \<Rightarrow> parser) \<Rightarrow> parser" where
  "parseEnumVariant rec st =
     do { let m = mark st;
          st \<leftarrow> parseIdentDef st;
          st \<leftarrow> (if \<not> pPanic st \<and> pCur st = Pn LParen
                then do {
                  st \<leftarrow> inScope False None (\<lambda>st. do {
                          st \<leftarrow> (if pCur st \<noteq> Pn RParen \<and> pCur st \<noteq> Pn Comma then parseTypeList rec (Pn RParen) st
                                else Some st);
                          Some (eatOpt (Pn Comma) st) }) (bump st);
                  Some (if \<not> pPanic st then expectListEnd (Pn RParen) st else st) }
                else if \<not> pPanic st \<and> pCur st = Pn LBrace
                then do {
                  st \<leftarrow> inScope False None (\<lambda>st. do {
                          st \<leftarrow> (if pCur st = Identifier
                                then do { st \<leftarrow> parseEnumField rec st;
                                          commaLoop (\<lambda>st. peek st 1 = Identifier) (parseEnumField rec) st }
                                else Some st);
                          Some (eatOpt (Pn Comma) st) }) (bump st);
                  Some (if \<not> pPanic st then expectListEnd (Pn RBrace) st else st) }
                else Some st);
          Some (close m (Pa EnumVariant) st) }"

definition parseEnumType :: "(Entry \<Rightarrow> parser) \<Rightarrow> parser" where
  "parseEnumType rec st =
     (let m = mark st; (ok, st) = expect (Pn LBrace) (bump st)
      in if \<not> ok then Some st
         else do {
           st \<leftarrow> inScope False None (\<lambda>st. do {
                   st \<leftarrow> (if pCur st = Identifier
                         then do { st \<leftarrow> parseEnumVariant rec st;
                                   commaLoop (\<lambda>st. peek st 1 = Identifier) (parseEnumVariant rec) st }
                         else Some st);
                   Some (eatOpt (Pn Comma) st) }) st;
           let st = (if \<not> pPanic st then expectListEnd (Pn RBrace) st else st);
           Some (close m (Ty EnumType) st) })"

definition keyTypePair :: "(Entry \<Rightarrow> parser) \<Rightarrow> parser" where
  "keyTypePair rec st =
     do { let pm = mark st;
          st \<leftarrow> whileO (\<lambda>st. pCur st = Pn Hash) (parseTagUse rec) st;
          st \<leftarrow> parseIdentDef st;
          let (ok, st) = expect (Pn Colon) st;
          st \<leftarrow> (if ok then rec EType st else Some st);
          Some (close pm (Pa KeyTypePair) st) }"

definition parseStructType :: "(Entry \<Rightarrow> parser) \<Rightarrow> parser" where
  "parseStructType rec st =
     do { let m = mark st;
          st \<leftarrow> inScope False None (\<lambda>st. do {
                  (go, st) \<leftarrow>
                    whileO (\<lambda>(go, st). go \<and> pCur st \<in> {Identifier, Pn Hash} \<and> \<not> pPanic st)
                      (\<lambda>(go, st). do {
                         st \<leftarrow> keyTypePair rec st;
                         if pCur st \<noteq> Pn Comma \<or> peek st 1 \<notin> {Identifier, Pn Hash} then Some (False, st)
                         else Some (True, bump st) }) (True, st);
                  Some (eatOpt (Pn Comma) st) }) (bump st);
          let st = (if \<not> pPanic st then expectListEnd (Pn RBrace) st else st);
          Some (close m (Ty StructType) st) }"

definition parseFuncType :: "(Entry \<Rightarrow> parser) \<Rightarrow> parser" where
  "parseFuncType rec st =
     do { let m = mark st;
          st \<leftarrow> (if pCur st \<in> {Pn Lt, Pn LAngle} then parseAngledParams rec True False st else Some st);
          if pCur st \<noteq> Pn LParen then Some (close m (Ty FuncType) (unexpected [Tok (Pn LParen)] st))
          else do {
            st \<leftarrow> parseParentParams rec True False st;
            st \<leftarrow> (if \<not> pPanic st then (let (ok, st) = expect (Pn FatArrow) st in if ok then rec EType st else Some st)
                  else Some st);
            st \<leftarrow> (if atWord st 0 ''uses'' \<or> atWord st 0 ''pure'' then parseResourceClause st else Some st);
            Some (close m (Ty FuncType) st) } }"

text \<open>The words of \<open>type_case_words.h\<close>.\<close>

definition kTypeCaseWords :: "string list" where
  "kTypeCaseWords =
     [''struct'', ''tuple'', ''array'', ''func'', ''nullable'', ''fallible'', ''map'', ''set'', ''#leaf'', ''_'']"

definition parseTypeCasePattern :: "(Entry \<Rightarrow> parser) \<Rightarrow> parser" where
  "parseTypeCasePattern rec st =
     do { let m = mark st;
          st \<leftarrow> (if pCur st = Identifier
                then if tokenTextAt st (pPos st) \<in> set kTypeCaseWords then Some (bump st)
                     else if \<not> typeStartsAt st 0 then Some (unexpected [Tok Identifier] st)
                     else inTypeHead (rec EType) st
                else if pCur st = Pn Hash
                then let st = bump st
                     in if pCur st = Identifier \<and> tokenTextAt st (pPos st) = ''leaf'' then Some (bump st)
                        else Some (unexpected [Tok Identifier] st)
                else if pCur st = Pn Underscore then Some (bump st)
                else if pCur st = Kw KwFunc then Some (bump st)
                else if typeStartsAt st 0 then inTypeHead (rec EType) st
                else Some (unexpected [Tok Identifier, Tok (Pn Hash), Tok (Pn Underscore)] st));
          Some (close m (Pa TypeCasePattern) st) }"

text \<open>\<open>while (cur_ == Pipe && !panic_) { bump(); item(); }\<close>\<close>

definition pipeLoop :: "parser \<Rightarrow> parser" where
  "pipeLoop item st = whileO (\<lambda>st. pCur st = Pn Pipe \<and> \<not> pPanic st) (\<lambda>st. item (bump st)) st"

definition parseTypeArm :: "(Entry \<Rightarrow> parser) \<Rightarrow> parser" where
  "parseTypeArm rec st =
     do { let m = mark st;
          st \<leftarrow> parseTypeCasePattern rec (bump st);
          st \<leftarrow> pipeLoop (parseTypeCasePattern rec) st;
          st \<leftarrow> (if \<not> pPanic st then (let (ok, st) = expect (Pn FatArrow) st in if ok then rec EType st else Some st)
                else Some st);
          Some (close m (Pa TypeArm) st) }"

text \<open>The cases of a match, and what may follow them.\<close>

definition caseLoop :: "parser \<Rightarrow> parser" where
  "caseLoop item st =
     do { st \<leftarrow> whileO (\<lambda>st. pCur st = Kw KwCase \<and> \<not> pPanic st) item st;
          Some (if \<not> pPanic st \<and> pCur st \<noteq> Pn RBrace then unexpected [Tok (Kw KwCase), Tok (Pn RBrace)] st else st) }"

definition parseMatchTypeType :: "(Entry \<Rightarrow> parser) \<Rightarrow> parser" where
  "parseMatchTypeType rec st =
     (let m = mark st; (ok, st) = expect (Kw KwType) (bump st)
      in if \<not> ok then Some (close m (Ty MatchTypeType) st)
         else do {
           st \<leftarrow> inTypeHead (rec EType) st;
           if pPanic st then Some (close m (Ty MatchTypeType) st)
           else let (ok, st) = expect (Pn LBrace) st
                in if \<not> ok then Some (close m (Ty MatchTypeType) st)
                   else do {
                     st \<leftarrow> inScope True None (caseLoop (parseTypeArm rec)) st;
                     Some (close m (Ty MatchTypeType) (eatOpt (Pn RBrace) st)) } })"

definition funcTypeAhead :: "PState \<Rightarrow> bool" where
  "funcTypeAhead st =
     (let t1 = peek st 1
      in t1 = Kw KwVar \<or> t1 = Identifier \<and> peek st 2 = Pn Colon \<or> t1 = Pn RParen \<and> peek st 2 = Pn FatArrow \<or>
         t1 = Pn DotDot \<and> peek st 2 = Identifier \<and> peek st 3 = Pn RParen \<and> peek st 4 = Pn FatArrow \<or>
         t1 = Pn Ellipsis \<and> peek st 2 = Identifier \<and> peek st 3 = Pn RParen \<and> peek st 4 = Pn FatArrow \<or>
         t1 = Pn DotDot \<and> parenClosesBeforeArrow st \<or> t1 = Pn Ellipsis \<and> parenClosesBeforeArrow st \<or>
         t1 = Pn Comma \<and> peek st 2 = Pn RParen \<and> peek st 3 = Pn FatArrow)"

text \<open>The inside of a tuple or parenthesised type; whether it is parenthesised.\<close>

definition tupleTypeInside :: "(Entry \<Rightarrow> parser) \<Rightarrow> PState \<Rightarrow> (bool \<times> PState) option" where
  "tupleTypeInside rec st =
     do { (parenthesized, st) \<leftarrow>
            (if pCur st \<noteq> Pn RParen \<and> pCur st \<noteq> Pn Comma
             then do {
               let lm = mark st;
               let pack = pCur st \<in> {Pn DotDot, Pn Ellipsis};
               st \<leftarrow> rec EType st;
               if pCur st = Pn RParen \<and> \<not> pack then Some (True, st)
               else do { st \<leftarrow> commaLoop (\<lambda>st. peek st 1 \<noteq> Pn RParen) (rec EType) st;
                         Some (False, close lm (Pa TypeList) st) } }
             else Some (False, st));
          Some (parenthesized, eatOpt (Pn Comma) st) }"

text \<open>\<open>Scope\<close> around code that also yields a value.\<close>

definition inScopeB ::
  "bool \<Rightarrow> nat option \<Rightarrow> (PState \<Rightarrow> (bool \<times> PState) option) \<Rightarrow> PState \<Rightarrow> (bool \<times> PState) option" where
  "inScopeB newNl newAngle f st =
     do { (b, st') \<leftarrow> f (st\<lparr>pNl := newNl, pAngle := newAngle, pSpacedGt := None\<rparr>);
          Some (b, st'\<lparr>pNl := pNl st, pAngle := pAngle st, pSpacedGt := pSpacedGt st\<rparr>) }"

definition parsePrimaryType :: "(Entry \<Rightarrow> parser) \<Rightarrow> parser" where
  "parsePrimaryType rec st =
     (let typeHead = pTypeHead st; st = st\<lparr>pTypeHead := False\<rparr>
      in if pCur st = Identifier then parseIdentRef (Ty RefType) st
         else if pCur st = Kw KwMatch then parseMatchTypeType rec st
         else if pCur st = Pn LBrace then parseStructType rec st
         else if pCur st = Kw KwEnum then parseEnumType rec st
         else if pCur st = Pn Lt then parseFuncType rec st
         else if pCur st = Kw KwSync then Some (unexpected [TypeExpression] st)
         else if pCur st = Kw KwTypeof
         then do { let m = mark st;
                   let st = bump st;
                   st \<leftarrow> (if pCur st \<in> {Kw KwIf, Kw KwMatch} then rec EExpr st else rec ELogicalOr st);
                   Some (close m (Ty TypeOfType) st) }
         else if pCur st = Pn LParen
         then if \<not> typeHead \<and> funcTypeAhead st then parseFuncType rec st
              else do { let m = mark st;
                        (parenthesized, st) \<leftarrow> inScopeB False None (tupleTypeInside rec) (bump st);
                        let st = (if \<not> pPanic st then expectListEnd (Pn RParen) st else st);
                        Some (close m (if parenthesized then Ty ParenType else Ty TupleType) st) }
         else if isKeyword (pCur st) \<and> pCur st \<noteq> Kw KwConst
         then Some (error KeywordAsName [TypeExpression] (pPos st) st)
         else Some (unexpected [TypeExpression] st))"

definition dimItem :: "(Entry \<Rightarrow> parser) \<Rightarrow> parser" where
  "dimItem rec st =
     (if pCur st = Pn Question then Some (bump st)
      else if pCur st \<in> {Pn DotDot, Pn Ellipsis}
      then let st = bump (packMark st) in if pCur st = Identifier then parseIdentDef st else Some st
      else rec EExpr st)"

text \<open>The dimensions inside the brackets.\<close>

definition dimItems :: "(Entry \<Rightarrow> parser) \<Rightarrow> parser" where
  "dimItems rec st =
     do { (go, st) \<leftarrow>
            (if pCur st \<noteq> Pn RBracket \<and> \<not> pPanic st
             then whileO (\<lambda>(go, st). go \<and> \<not> pPanic st)
                    (\<lambda>(go, st). do {
                       st \<leftarrow> dimItem rec st;
                       let (ok, st) = eat (Pn Comma) st;
                       Some (ok \<and> pCur st \<noteq> Pn RBracket, st) }) (True, st)
             else Some (False, st));
          Some (if \<not> pPanic st \<and> pCur st \<noteq> Pn RBracket
                then unexpected [Tok (Pn Comma), Tok (Pn RBracket)] st else st) }"

definition parseArrayDim :: "(Entry \<Rightarrow> parser) \<Rightarrow> parser" where
  "parseArrayDim rec st =
     do { let m = mark st;
          st \<leftarrow> inScope False None (dimItems rec) (bump st);
          Some (close m (Ty ArrayDim) (eatOpt (Pn RBracket) st)) }"

definition typeOrData :: "(Entry \<Rightarrow> parser) \<Rightarrow> parser" where
  "typeOrData rec st =
     (if pCur st = Kw KwConst
      then do { let cm = mark st; st \<leftarrow> inConstData True (rec EExpr) (bump st); Some (close cm (Ty ConstData) st) }
      else if pCur st = Pn LBracket then parseArrayDim rec st
      else rec EType st)"

definition parseSpecType :: "(Entry \<Rightarrow> parser) \<Rightarrow> parser" where
  "parseSpecType rec st =
     do { let m = mark st;
          st \<leftarrow> parsePrimaryType rec st;
          if pCur st \<noteq> Pn LAngle \<or> pPanic st then Some st
          else do {
            let open' = pPos st;
            st \<leftarrow> inScope False (Some open') (\<lambda>st. do {
                    st \<leftarrow> typeOrData rec st;
                    st \<leftarrow> commaLoop (\<lambda>st. True) (typeOrData rec) st;
                    Some (angleEnd st) }) (bump st);
            Some (close m (Ty SpecType) (eatOpt (Pn Gt) st)) } }"

text \<open>The dimensions written after a type; whether there is any.\<close>

definition dimLoop :: "(Entry \<Rightarrow> parser) \<Rightarrow> PState \<Rightarrow> (bool \<times> PState) option" where
  "dimLoop rec st =
     whileO (\<lambda>(any, st). pCur st = Pn LBracket \<and> \<not> lineBreak st \<and> \<not> pPanic st)
       (\<lambda>(any, st). do { st \<leftarrow> parseArrayDim rec st; Some (True, st) }) (False, st)"

definition parseArrayType :: "(Entry \<Rightarrow> parser) \<Rightarrow> parser" where
  "parseArrayType rec st =
     do { let m = mark st;
          st \<leftarrow> parseSpecType rec st;
          (any, st) \<leftarrow> dimLoop rec st;
          Some (if any then close m (Ty ArrayType) st else st) }"

text \<open>One turn of the loop over the marks: \<open>go\<close>, \<open>any\<close> and \<open>stream\<close> are its locals.\<close>

definition markStep ::
  "(Entry \<Rightarrow> parser) \<Rightarrow> nat \<Rightarrow> bool \<times> bool \<times> bool \<times> PState \<Rightarrow> (bool \<times> bool \<times> bool \<times> PState) option" where
  "markStep rec m x =
     (case x of (go, any, stream, st) \<Rightarrow>
        if pCur st \<in> {Pn Question, Pn Bang} then Some (True, True, stream, bump st)
        else if pCur st = Pn DotDot then Some (True, True, True, bump st)
        else if stream \<and> pCur st = Pn LBracket
        then do {
          let st = (if any then close m (Ty TypeExpr) st else st);
          (anyDim, st) \<leftarrow> dimLoop rec st;
          Some (True, False, False, if anyDim then close m (Ty ArrayType) st else st) }
        else Some (False, any, stream, st))"

definition parseType :: "(Entry \<Rightarrow> parser) \<Rightarrow> parser" where
  "parseType rec st =
     inDepth (\<lambda>st.
       if tooDeep st then Some (unexpected [] st)
       else let m = mark st
            in if pCur st \<in> {Pn DotDot, Pn Ellipsis}
               then do { st \<leftarrow> rec EType (bump (packMark st)); Some (close m (Ty PackType) st) }
               else do {
                 st \<leftarrow> parseArrayType rec st;
                 (go, any, stream, st) \<leftarrow>
                   whileO (\<lambda>(go, any, stream, st). go \<and> \<not> lineBreak st \<and> \<not> pPanic st) (markStep rec m)
                     (True, False, False, st);
                 Some (if any then close m (Ty TypeExpr) st else st) }) st"

end
