(* ===== verification/Parser_Spec_Type.thy ===== *)
theory Parser_Spec_Type
  imports Parser_Spec_Names Parser_Type
begin

text \<open>
  The productions of \<open>Parser_Type\<close>, over what the recursion promises: \<open>rec\<close> is only called behind
  the place the production started at.
\<close>

locale parser_rec =
  fixes rec :: "Entry \<Rightarrow> parser" and B :: TokenBuffer and N :: nat
  assumes rec_works: "works B (Suc N) anywhere near (rec e)"
begin

lemmas rec_vc [vcg] = rec_works [THEN call_near] rec_works [THEN works_later]

section \<open>Argument lists\<close>

lemma far_packMark [vc]:
  "grows s t \<Longrightarrow> grows s (packMark t)" "keeps s t \<Longrightarrow> keeps s (packMark t)"
  "near s t \<Longrightarrow> near s (packMark t)" "ahead s t \<Longrightarrow> ahead s (packMark t)"
  by (simp_all add: packMark_def vc)

lemma packMark_fields [simp]:
  "pCur (packMark t) = pCur t" "pStack (packMark t) = pStack t" "pBuf (packMark t) = pBuf t"
  by (simp_all add: packMark_def)

lemma parseIndexValue_works: "works B (Suc N) anywhere near (parseIndexValue rec)"
  unfolding parseIndexValue_def by (rule worksI, intro vcg) (simp_all add: vc, (elim conjE disjE; simp add: vc)+)

lemmas indexValue_vc [vcg] = parseIndexValue_works [THEN call_near] parseIndexValue_works [THEN works_later]

lemma parseKeyValuePair_works: "works B N anywhere near (parseKeyValuePair rec)"
  unfolding parseKeyValuePair_def by (rule worksI, intro vcg) (simp_all add: vc)

lemmas keyValue_vc [vcg] = parseKeyValuePair_works [THEN call_near] parseKeyValuePair_works [THEN works_later]

lemma parsePairedValues_works: "works B N anywhere near (parsePairedValues rec closer)"
  unfolding parsePairedValues_def by (rule worksI, intro vcg) (simp_all add: vc)

lemma argumentValue_works: "works B (Suc N) anywhere near (argumentValue rec)"
  unfolding argumentValue_def by (rule worksI, intro vcg) (simp_all add: vc)

lemmas argumentValue_vc [vcg] = argumentValue_works [THEN call_near] argumentValue_works [THEN works_later]

lemma parseArgumentValues_works: "works B (Suc N) anywhere near (parseArgumentValues rec closer)"
  unfolding parseArgumentValues_def by (rule worksI, intro vcg) (simp_all add: vc)

lemma parseDataList_works: "works B (Suc N) anywhere near (parseDataList rec closer)"
  unfolding parseDataList_def by (rule worksI, intro vcg) (simp_all add: vc)

lemma indexValues_works: "works B (Suc N) anywhere near (indexValues rec closer)"
  unfolding indexValues_def by (rule worksI, intro vcg) (simp_all add: vc)

lemmas lists_vc [vcg] =
  parsePairedValues_works [THEN call_near] parseArgumentValues_works [THEN call_near]
  parseDataList_works [THEN call_near] indexValues_works [THEN call_near]

lemma parseArguments_works: "works B (Suc N) anywhere keeps (parseArguments rec closer)"
  unfolding parseArguments_def by (rule worksI, intro vcg) (simp_all add: vc)

lemmas arguments_vc [vcg] = parseArguments_works [THEN call_keeps]

lemma parseParentArgues_works: "works B N (\<lambda>t. pCur t \<noteq> Eof) ahead (parseParentArgues rec)"
  unfolding parseParentArgues_def by (rule worksI, intro vcg) (simp_all add: vc)

lemma far_angleEnd [vc]:
  "grows s t \<Longrightarrow> grows s (angleEnd t)" "keeps s t \<Longrightarrow> keeps s (angleEnd t)"
  "near s t \<Longrightarrow> near s (angleEnd t)" "ahead s t \<Longrightarrow> ahead s (angleEnd t)"
  by (simp_all add: angleEnd_def vc)

lemma parseAngledValues_works: "works B N (\<lambda>t. pCur t \<noteq> Eof) ahead (parseAngledValues rec)"
  unfolding parseAngledValues_def by (rule worksI, intro vcg) (simp_all add: vc)

lemmas argues_vc [vcg] = parseParentArgues_works [THEN call_ahead] parseAngledValues_works [THEN call_ahead]

section \<open>Front matter\<close>

lemma parseTagRef_works: "works B N anywhere near (parseTagRef rec)"
  unfolding parseTagRef_def by (rule worksI, intro vcg) (simp_all add: vc)

lemmas tagRef_vc [vcg] = parseTagRef_works [THEN call_near] parseTagRef_works [THEN works_later]

lemma parseTagUse_works: "works B N (\<lambda>t. pCur t \<noteq> Eof) ahead (parseTagUse rec)"
  unfolding parseTagUse_def by (rule worksI, intro vcg) (simp_all add: vc)

lemma parseFuncAnno_works: "works B N (\<lambda>t. pCur t \<noteq> Eof) ahead (parseFuncAnno rec)"
  unfolding parseFuncAnno_def by (rule worksI, intro vcg) (simp_all add: vc)

lemmas front_vc [vcg] = parseTagUse_works [THEN call_ahead] parseFuncAnno_works [THEN call_ahead]

lemma parseFrontMatter_works: "works B N anywhere keeps (parseFrontMatter rec)"
  unfolding parseFrontMatter_def by (rule worksI, intro vcg) (auto simp add: vc)

lemma packCondition_works: "works B N (\<lambda>t. pCur t \<noteq> Eof) ahead (packCondition rec)"
  unfolding packCondition_def by (rule worksI, intro vcg) (simp_all add: vc)

lemmas packCondition_vc [vcg] = packCondition_works [THEN call_ahead]

lemma parseWhenClause_works: "works B N (\<lambda>t. pCur t \<noteq> Eof) ahead (parseWhenClause rec)"
  unfolding parseWhenClause_def by (rule worksI, intro vcg) (auto simp add: vc)

lemmas clause_vc [vcg] = parseFrontMatter_works [THEN call_keeps] parseWhenClause_works [THEN call_ahead]

section \<open>Parameter lists\<close>

lemma parseKeyParamPair_works: "works B N anywhere near (parseKeyParamPair rec allowRest allowConstas angled)"
  unfolding parseKeyParamPair_def by (rule worksI, intro vcg) (simp_all add: vc, (elim conjE disjE; simp add: vc)+)

lemmas keyParam_vc [vcg] = parseKeyParamPair_works [THEN call_near] parseKeyParamPair_works [THEN works_later]

lemma parsePairedParams_works: "works B N anywhere near (parsePairedParams rec closer allowRest allowConstas)"
  unfolding parsePairedParams_def by (rule worksI, intro vcg) (simp_all add: vc)

lemmas pairedParams_vc [vcg] = parsePairedParams_works [THEN call_near]

lemma parseParentParams_works: "works B N anywhere near (parseParentParams rec allowRest allowConstas)"
  unfolding parseParentParams_def by (rule worksI, intro vcg) (simp_all add: vc)

lemma parseAngledParams_works: "works B N anywhere near (parseAngledParams rec allowRest allowConstas)"
  unfolding parseAngledParams_def by (rule worksI, intro vcg) (simp_all add: vc, (elim conjE disjE; simp add: vc)+)

lemmas params_vc [vcg] = parseParentParams_works [THEN call_near] parseAngledParams_works [THEN call_near]

section \<open>Types\<close>

lemma parseTypeList_works: "works B (Suc N) anywhere near (parseTypeList rec closer)"
  unfolding parseTypeList_def by (rule worksI, intro vcg) (simp_all add: vc)

lemma parseEnumField_works: "works B N anywhere near (parseEnumField rec)"
  unfolding parseEnumField_def by (rule worksI, intro vcg) (simp_all add: vc)

lemmas typeList_vc [vcg] =
  parseTypeList_works [THEN call_near] parseEnumField_works [THEN call_near] parseEnumField_works [THEN works_later]

lemma parseEnumVariant_works: "works B N anywhere near (parseEnumVariant rec)"
  unfolding parseEnumVariant_def by (rule worksI, intro vcg) (simp_all add: vc)

lemmas enumVariant_vc [vcg] = parseEnumVariant_works [THEN call_near] parseEnumVariant_works [THEN works_later]

lemma parseEnumType_works: "works B N (\<lambda>t. pCur t \<noteq> Eof) ahead (parseEnumType rec)"
  unfolding parseEnumType_def by (rule worksI, intro vcg) (simp_all add: vc)

lemma keyTypePair_works: "works B N anywhere near (keyTypePair rec)"
  unfolding keyTypePair_def by (rule worksI, intro vcg) (simp_all add: vc)

lemmas keyTypePair_vc [vcg] = keyTypePair_works [THEN call_near]

lemma parseStructType_works: "works B N (\<lambda>t. pCur t \<noteq> Eof) ahead (parseStructType rec)"
  unfolding parseStructType_def by (rule worksI, intro vcg) (simp_all add: vc)

lemma parseFuncType_works: "works B N anywhere near (parseFuncType rec)"
  unfolding parseFuncType_def by (rule worksI, intro vcg) (simp_all add: vc)

lemma parseTypeCasePattern_works: "works B (Suc N) anywhere near (parseTypeCasePattern rec)"
  unfolding parseTypeCasePattern_def by (rule worksI, intro vcg) (simp_all add: vc)

lemmas typeCasePattern_vc [vcg] =
  parseTypeCasePattern_works [THEN call_near] parseTypeCasePattern_works [THEN works_later]

lemma pipeLoop_vc [vcg]:
  assumes "works B (Suc n) anywhere near item" "begun B n s" "keeps s t"
    and "\<And>u. came B s t u \<Longrightarrow> keeps s u \<Longrightarrow> near s t \<longrightarrow> near s u \<Longrightarrow> Q u"
  shows "wp B n s (pipeLoop item t) Q"
  unfolding pipeLoop_def using assms(2-4)
proof (intro vcg)
  fix u assume u: "begun B n u" "good u" "pCur u = Pn Pipe \<and> \<not> pPanic u"
  show "wp B n u (item (bump u)) (\<lambda>v. keeps u v \<and> (pCur v = Pn Pipe \<and> \<not> pPanic v \<longrightarrow> ahead u v))"
    using u by (intro call_near [OF assms(1)]) (simp_all add: vc)
qed

lemma caseLoop_vc [vcg]:
  assumes "works B n (\<lambda>t. pCur t \<noteq> Eof) ahead item" "begun B n s" "keeps s t"
    and "\<And>u. came B s t u \<Longrightarrow> keeps s u \<Longrightarrow> near s t \<longrightarrow> near s u \<Longrightarrow> Q u"
  shows "wp B n s (caseLoop item t) Q"
  unfolding caseLoop_def using assms(2,3)
proof (intro vcg)
  fix u assume u: "begun B n u" "good u" "pCur u = Kw KwCase \<and> \<not> pPanic u"
  show "wp B n u (item u) (\<lambda>v. keeps u v \<and> (pCur v = Kw KwCase \<and> \<not> pPanic v \<longrightarrow> ahead u v))"
    using u by (intro call_ahead [OF assms(1)]) (simp_all add: vc)
next
  fix u assume "came B s t u" "keeps s u" "near s t \<longrightarrow> near s u"
  then show "Q (if \<not> pPanic u \<and> pCur u \<noteq> Pn RBrace then unexpected [Tok (Kw KwCase), Tok (Pn RBrace)] u else u)"
    by (intro assms(4)) (simp_all add: vc)
qed

lemma parseTypeArm_works: "works B N (\<lambda>t. pCur t \<noteq> Eof) ahead (parseTypeArm rec)"
  unfolding parseTypeArm_def by (rule worksI, intro vcg) (simp_all add: vc)

lemmas typeArm_vc [vcg] = parseTypeArm_works [THEN works_later]

lemma parseMatchTypeType_works: "works B N (\<lambda>t. pCur t \<noteq> Eof) ahead (parseMatchTypeType rec)"
  unfolding parseMatchTypeType_def by (rule worksI, intro vcg) (simp_all add: vc)

lemmas types_vc [vcg] =
  parseEnumType_works [THEN call_ahead] parseStructType_works [THEN call_ahead] parseFuncType_works [THEN call_near]
  parseMatchTypeType_works [THEN call_ahead]

lemma tupleTypeInside_works: "works B (Suc N) anywhere (\<lambda>t x. keeps t (snd x)) (tupleTypeInside rec)"
  unfolding tupleTypeInside_def by (rule worksI, intro vcg) (simp_all add: vc)

lemmas tupleTypeInside_vc [vcg] = tupleTypeInside_works [THEN call_keeps2]

lemma wp_scopeB [vcg]:
  assumes "\<And>t0. moves s t t0 \<Longrightarrow> wp B n s (f t0) (\<lambda>x. \<forall>t2. quits s (snd x) t2 \<longrightarrow> Q (fst x, t2))"
  shows "wp B n s (inScopeB nl ang f t) Q"
  using assms [OF moves_fields(4) [where a = nl and c = ang and g = None]] moves_quits [OF moves_fields(4)]
  by (auto simp: wp_def inScopeB_def)

lemma far_layout [vc]:
  "grows s t \<Longrightarrow> grows s (t\<lparr>pTypeHead := h\<rparr>)" "keeps s t \<Longrightarrow> keeps s (t\<lparr>pTypeHead := h\<rparr>)"
  "near s t \<Longrightarrow> near s (t\<lparr>pTypeHead := h\<rparr>)" "ahead s t \<Longrightarrow> ahead s (t\<lparr>pTypeHead := h\<rparr>)"
  "grows s t \<Longrightarrow> grows s (t\<lparr>pLambdaParams := l\<rparr>)" "keeps s t \<Longrightarrow> keeps s (t\<lparr>pLambdaParams := l\<rparr>)"
  "near s t \<Longrightarrow> near s (t\<lparr>pLambdaParams := l\<rparr>)" "ahead s t \<Longrightarrow> ahead s (t\<lparr>pLambdaParams := l\<rparr>)"
  "grows s t \<Longrightarrow> grows s (t\<lparr>pSpacedGt := g\<rparr>)" "keeps s t \<Longrightarrow> keeps s (t\<lparr>pSpacedGt := g\<rparr>)"
  "near s t \<Longrightarrow> near s (t\<lparr>pSpacedGt := g\<rparr>)" "ahead s t \<Longrightarrow> ahead s (t\<lparr>pSpacedGt := g\<rparr>)"
  using moved_fields(1,2,4) by (simp_all add: moved_def)

lemma good_layout [vc]: "good (t\<lparr>pTypeHead := h\<rparr>) \<longleftrightarrow> good t" "good (t\<lparr>pLambdaParams := l\<rparr>) \<longleftrightarrow> good t"
  "good (t\<lparr>pSpacedGt := g\<rparr>) \<longleftrightarrow> good t"
  by (simp_all add: good_def)

lemma parsePrimaryType_works: "works B N anywhere near (parsePrimaryType rec)"
  unfolding parsePrimaryType_def by (rule worksI, intro vcg) (simp_all add: vc)

lemmas primaryType_vc [vcg] = parsePrimaryType_works [THEN call_near]

lemma dimItem_works: "works B (Suc N) anywhere near (dimItem rec)"
  unfolding dimItem_def by (rule worksI, intro vcg) (simp_all add: vc, (elim disjE; simp add: vc)+)

lemmas dimItem_vc [vcg] = dimItem_works [THEN call_near]

lemma dimItems_works: "works B (Suc N) anywhere keeps (dimItems rec)"
  unfolding dimItems_def by (rule worksI, intro vcg) (simp_all add: vc)

lemmas dimItems_vc [vcg] = dimItems_works [THEN call_keeps]

lemma parseArrayDim_works: "works B N (\<lambda>t. pCur t \<noteq> Eof) ahead (parseArrayDim rec)"
  unfolding parseArrayDim_def by (rule worksI, intro vcg) (simp_all add: vc)

lemmas arrayDim_vc [vcg] = parseArrayDim_works [THEN call_ahead]

lemma typeOrData_works: "works B (Suc N) anywhere near (typeOrData rec)"
  unfolding typeOrData_def by (rule worksI, intro vcg) (simp_all add: vc)

lemmas typeOrData_vc [vcg] = typeOrData_works [THEN call_near] typeOrData_works [THEN works_later]

lemma parseSpecType_works: "works B N anywhere near (parseSpecType rec)"
  unfolding parseSpecType_def by (rule worksI, intro vcg) (simp_all add: vc)

lemmas specType_vc [vcg] = parseSpecType_works [THEN call_near]

lemma dimLoop_works: "works B N anywhere (\<lambda>t x. keeps t (snd x)) (dimLoop rec)"
  unfolding dimLoop_def by (rule worksI, intro vcg) (simp_all add: vc)

lemmas dimLoop_vc [vcg] = dimLoop_works [THEN call_keeps2]

lemma parseArrayType_works: "works B N anywhere near (parseArrayType rec)"
  unfolding parseArrayType_def by (rule worksI, intro vcg) (simp_all add: vc)

lemmas arrayType_vc [vcg] = parseArrayType_works [THEN call_near]

text \<open>Where a dimension stands, the loop makes a turn.\<close>

lemma dimLoop_ahead:
  "works B N (\<lambda>t. pCur t = Pn LBracket \<and> \<not> lineBreak t \<and> \<not> pPanic t) (\<lambda>t x. ahead t (snd x)) (dimLoop rec)"
  unfolding dimLoop_def by (rule worksI, subst whileO.simps, intro vcg) (simp_all add: vc)

lemma close_layout [simp]: "pNl (close m kind t) = pNl t" "curTok (close m kind t) = curTok t"
  by (simp_all add: close_def curTok_def Let_def split: prod.split)

lemma lineBreak_close [simp]: "lineBreak (close m kind t) = lineBreak t"
  by (simp add: lineBreak_def)

text \<open>One turn of the loop over the marks, from the state \<open>u\<close> of a type that started at \<open>s\<close>.\<close>

lemma markStep_vc:
  assumes s: "begun B N s" "near s u" and u: "\<not> lineBreak u" "\<not> pPanic u"
  shows "\<exists>go' any' stream' v. markStep rec (mark s) (go, any, stream, u) = Some (go', any', stream', v) \<and>
    near s v \<and> (go' \<longrightarrow> pPos u < pPos v)"
proof (cases "stream \<and> pCur u = Pn LBracket")
  case True
  let ?w = "if any then close (mark s) (Ty TypeExpr) u else u"
  have w: "near s ?w" using s(2) by (simp add: vc)
  have g: "grows s ?w" using w by (simp add: near_def)
  have "\<exists>x v. dimLoop rec ?w = Some (x, v) \<and> ahead ?w v"
    by (rule works_call [OF dimLoop_ahead s(1) g]) (use True u in auto)
  then obtain x v where v: "dimLoop rec ?w = Some (x, v)" "ahead ?w v" by blast
  have "near s v" using far_trans(2) [OF g v(2)] by (simp add: vc)
  moreover have "pPos u < pPos v" using v(2) by (auto simp: ahead_def split: if_splits)
  ultimately show ?thesis using True v(1) by (auto simp: markStep_def Let_def vc)
next
  case False
  then show ?thesis using s(2) pos_bump(1) [of u] by (auto simp: markStep_def vc)
qed

lemma markLoop_vc [vcg]:
  assumes s: "begun B N s" "near s t" and m: "m = mark s"
    and Q: "\<And>go any stream u. near s u \<Longrightarrow> Q (go, any, stream, u)"
  shows "wp B N s (whileO (\<lambda>(go, any, stream, st). go \<and> \<not> lineBreak st \<and> \<not> pPanic st) (markStep rec m) (a, b, c, t)) Q"
    (is "wp B N s (whileO ?c ?b ?x) Q")
proof -
  have "\<exists>y. whileO ?c ?b ?x = Some y \<and> near s (snd (snd (snd y))) \<and> \<not> ?c y"
  proof (rule whileO_total [where f = "\<lambda>(go, any, stream, u). length (pToks s) - pPos u"])
    fix x assume x: "near s (snd (snd (snd x)))" "?c x"
    obtain go any stream u where xu: "x = (go, any, stream, u)" by (metis prod_cases4)
    from markStep_vc [of s u go any stream] obtain go' any' stream' v where
      v: "markStep rec (mark s) x = Some (go', any', stream', v)" "near s v" "go' \<longrightarrow> pPos u < pPos v"
      using s(1) x xu by auto
    then have "?b x = Some (go', any', stream', v)" using m by simp
    moreover have "good v" "pBuf v = pBuf s" using v(2) growsD(1,2) by (auto simp: near_def)
    ultimately show "\<exists>y. ?b x = Some y \<and> near s (snd (snd (snd y))) \<and>
        (?c y \<longrightarrow> (case y of (go, any, stream, u) \<Rightarrow> length (pToks s) - pPos u) < (case x of (go, any, stream, u) \<Rightarrow> length (pToks s) - pPos u))"
      using v xu by (auto simp: good_def)
  qed (use s(2) in simp)
  then show ?thesis using Q unfolding wp_def by (metis prod.collapse)
qed

lemma parseType_works: "works B N anywhere near (parseType rec)"
  unfolding parseType_def by (rule worksI, intro vcg) (simp_all add: vc, (elim disjE; simp add: vc)+)

end

end
