(* ===== verification/Parser_Expr.thy ===== *)
theory Parser_Expr
  imports Parser_Type
begin

text \<open>
  Expressions: \<open>parser_expr.cpp\<close>, from the primary expressions up to \<open>parseExpr\<close>. A block (or an
  expression) after \<open>=>\<close>, \<open>then\<close> or \<open>do\<close> is \<open>rec EBlockExpr\<close>.
\<close>

section \<open>Postfix lists\<close>

definition parseSlicePart :: "(Entry \<Rightarrow> parser) \<Rightarrow> parser" where
  "parseSlicePart rec st =
     (if pCur st \<in> {Pn Colon, Pn ColonColon, Pn Comma, Pn RBracket} then Some st else rec EExpr st)"

text \<open>A slice after its first part.\<close>

definition sliceRest :: "(Entry \<Rightarrow> parser) \<Rightarrow> nat \<Rightarrow> parser" where
  "sliceRest rec m st =
     (if pCur st = Pn ColonColon
      then do { st \<leftarrow> parseSlicePart rec (bump st); Some (close m (Pa SliceIndices) st) }
      else do {
        st \<leftarrow> parseSlicePart rec (bump st);
        st \<leftarrow> (if pCur st = Pn ColonColon then parseSlicePart rec (bump st)
              else let (ok, st) = eat (Pn Colon) st in if ok then parseSlicePart rec st else Some st);
        Some (close m (Pa SliceIndices) st) })"

definition parseSliceIndices :: "(Entry \<Rightarrow> parser) \<Rightarrow> parser" where
  "parseSliceIndices rec st =
     (let m = mark st
      in if pCur st \<notin> {Pn Colon, Pn ColonColon}
         then do { st \<leftarrow> rec EExpr st;
                   if pCur st \<notin> {Pn Colon, Pn ColonColon} then Some st else sliceRest rec m st }
         else sliceRest rec m st)"

definition parseIndices :: "(Entry \<Rightarrow> parser) \<Rightarrow> parser" where
  "parseIndices rec st =
     do { let m = mark st;
          st \<leftarrow> inScope False None (\<lambda>st. do {
                  st \<leftarrow> parseSliceIndices rec st;
                  (go, st) \<leftarrow>
                    whileO (\<lambda>(go, st). go \<and> pCur st = Pn Comma)
                      (\<lambda>(go, st). let st = bump st
                                  in if pCur st = Pn RBracket then Some (False, st)
                                     else do { st \<leftarrow> parseSliceIndices rec st; Some (True, st) }) (True, st);
                  Some st }) (bump st);
          let st = (if \<not> pPanic st then expectOpt (Pn RBracket) st else st);
          Some (close m (Pa Indices) st) }"

definition namedTypeArgument :: "(Entry \<Rightarrow> parser) \<Rightarrow> PState \<Rightarrow> (bool \<times> PState) option" where
  "namedTypeArgument rec st =
     (let named = mark st
      in if pCur st \<noteq> Identifier then Some (False, nameError st)
         else do {
           st \<leftarrow> rec EType (eatOpt (Pn Assign) (bump st));
           let st = close named (Pa NamedTypeArgument) st;
           Some (if pCur st \<noteq> Pn Comma \<or> peek st 1 = Pn Gt then (False, st) else (True, bump st)) })"

definition parseTypeArguments :: "(Entry \<Rightarrow> parser) \<Rightarrow> parser" where
  "parseTypeArguments rec st =
     do { let m = mark st;
          let st = bump st;
          let open' = pPos st;
          st \<leftarrow> inScope False (Some open') (\<lambda>st. do {
                  st \<leftarrow> (if pCur st = Identifier \<and> peek st 1 = Pn Assign
                        then do { (go, st) \<leftarrow> whileO (\<lambda>(go, st). go \<and> \<not> pPanic st)
                                                (\<lambda>(go, st). namedTypeArgument rec st) (True, st);
                                  Some st }
                        else parseTypeList rec (Pn Gt) st);
                  Some (expectOpt (Pn Gt) (eatOpt (Pn Comma) st)) }) (bump st);
          Some (close m (Pa TypeArguments) st) }"

section \<open>Static loops and comprehensions\<close>

definition parseStaticForHeader :: "(Entry \<Rightarrow> parser) \<Rightarrow> parser" where
  "parseStaticForHeader rec st =
     (if pPanic st then Some st
      else let (ok, st) = expect (Kw KwFor) st
           in if \<not> ok then Some st
              else do {
                st \<leftarrow> parseStaticForNameList st;
                if pPanic st then Some st
                else let (ok, st) = expect (Kw KwIn) st
                     in if \<not> ok then Some st
                        else if atWord st 0 ''fields'' then inTypeHead (rec EType) (bump st)
                        else if atWord st 0 ''indices'' then rec EExpr (bump st)
                        else if \<not> pPanic st then Some (unexpected [Tok Identifier] st)
                        else Some st })"

definition parseStaticFor :: "(Entry \<Rightarrow> parser) \<Rightarrow> parser" where
  "parseStaticFor rec st =
     do { let m = mark st;
          st \<leftarrow> parseStaticForHeader rec (bump st);
          st \<leftarrow> (if \<not> pPanic st
                then (let (ok, st) = expect (Pn FatArrow) st in if ok then rec EBlockExpr st else Some st)
                else Some st);
          Some (close m (Ex StaticForExpr) st) }"

definition parseShapeComp :: "(Entry \<Rightarrow> parser) \<Rightarrow> parser" where
  "parseShapeComp rec st =
     do { let m = mark st;
          st \<leftarrow> inTypeHead (parseType rec) st;
          if pPanic st then Some (close m (Ex ShapeComp) st)
          else let (ok, st) = expect (Pn LBrace) st
               in if \<not> ok then Some (close m (Ex ShapeComp) st)
                  else do {
                    st \<leftarrow> parseStaticFor rec st;
                    let st = (if \<not> pPanic st then expectListEnd (Pn RBrace) st else st);
                    Some (close m (Ex ShapeComp) st) } }"

section \<open>Primary expressions\<close>

text \<open>The comprehension after its \<open>for\<close>.\<close>

definition arrayFor :: "(Entry \<Rightarrow> parser) \<Rightarrow> parser" where
  "arrayFor rec st =
     do { st \<leftarrow> parseIdentRef (Pa IdentRef) (bump st);
          if pPanic st then Some st
          else let (ok, st) = expect (Kw KwIn) st
               in if \<not> ok then Some st
                  else do { st \<leftarrow> rec EExpr st;
                            let (ok, st) = eat (Kw KwIf) st;
                            if ok then rec EExpr st else Some st } }"

definition arrayInside :: "(Entry \<Rightarrow> parser) \<Rightarrow> parser" where
  "arrayInside rec st =
     (if pCur st \<noteq> Pn RBracket
      then do {
        let st = (if pCur st = Pn Ellipsis then unexpected [] st else st);
        let im = mark st;
        st \<leftarrow> parseIndexValue rec st;
        if pCur st = Kw KwFor \<and> \<not> pPanic st then arrayFor rec st
        else do {
          st \<leftarrow> commaLoop (\<lambda>st. peek st 1 \<noteq> Pn RBracket) (parseIndexValue rec) st;
          Some (eatOpt (Pn Comma) (close im (Pa IndexValues) st)) } }
      else Some st)"

definition parseArrayData :: "(Entry \<Rightarrow> parser) \<Rightarrow> parser" where
  "parseArrayData rec st =
     do { let m = mark st;
          st \<leftarrow> inScope False None (arrayInside rec) (bump st);
          let st = (if \<not> pPanic st then expectListEnd (Pn RBracket) st else st);
          Some (close m (Ex ArrayData) st) }"

definition parseStructData :: "(Entry \<Rightarrow> parser) \<Rightarrow> parser" where
  "parseStructData rec st =
     do { let m = mark st;
          let st = bump st;
          st \<leftarrow> (if pCur st = Kw KwStatic \<and> peek st 1 = Kw KwFor then parseStaticFor rec st
                else inScope False None (\<lambda>st.
                       if pCur st \<noteq> Pn RBrace
                       then do { st \<leftarrow> parsePairedValues rec (Pn RBrace) st; Some (eatOpt (Pn Comma) st) }
                       else Some st) st);
          let st = (if \<not> pPanic st then expectListEnd (Pn RBrace) st else st);
          Some (close m (Ex StructData) st) }"

definition parseTupleData :: "(Entry \<Rightarrow> parser) \<Rightarrow> parser" where
  "parseTupleData rec st =
     do { let m = mark st;
          let st = bump st;
          st \<leftarrow> (if pCur st = Kw KwStatic \<and> peek st 1 = Kw KwFor then parseStaticFor rec st
                else inScope False None (\<lambda>st. do {
                       st \<leftarrow> (if pCur st \<noteq> Pn RParen \<and> pCur st \<noteq> Pn Comma then parseDataList rec (Pn RParen) st
                             else Some st);
                       Some (eatOpt (Pn Comma) st) }) st);
          let st = (if \<not> pPanic st then expectListEnd (Pn RParen) st else st);
          Some (close m (Ex TupleData) st) }"

definition parseFuncData :: "(Entry \<Rightarrow> parser) \<Rightarrow> parser" where
  "parseFuncData rec st =
     do { let m = mark st;
          let outer = pLambdaParams st;
          let st = st\<lparr>pLambdaParams := True\<rparr>;
          st \<leftarrow> (if pCur st \<in> {Pn Lt, Pn LAngle} then parseAngledParams rec True False st else Some st);
          if pCur st \<noteq> Pn LParen
          then Some (close m (Ex FuncData) (unexpected [Tok (Pn LParen)] (st\<lparr>pLambdaParams := outer\<rparr>)))
          else do {
            st \<leftarrow> parseParentParams rec True False st;
            let (ok, st) = eat (Pn Colon) (st\<lparr>pLambdaParams := outer\<rparr>);
            st \<leftarrow> (if ok then rec EType st else Some st);
            st \<leftarrow> (if \<not> pPanic st
                  then (let (ok, st) = expect (Pn FatArrow) st in if ok then rec EBlockExpr st else Some st)
                  else Some st);
            Some (close m (Ex FuncData) st) } }"

definition parsePrimary :: "(Entry \<Rightarrow> parser) \<Rightarrow> parser" where
  "parsePrimary rec st =
     (if pCur st = Identifier then parseIdentRef (Ex RefData) st
      else if pCur st = Kw KwConstas \<and> pConstData st then parseConstasData st
      else if pCur st \<in> {TokenKind.Integer, TokenKind.Real, Imaginary, TokenKind.String, RawString, MultiStr, FString,
                         Kw KwTrue, Kw KwFalse, Kw KwNull} then parseLiteral st
      else if pCur st = Pn Plus \<and> literalSignAhead st then parseLiteral st
      else if pCur st = Pn Plus \<and> lineBreak st then Some (error LineStartsWithSign [Expression] (pPos st) st)
      else if pCur st = Pn LBracket then parseArrayData rec st
      else if pCur st = Pn LBrace then parseStructData rec st
      else if pCur st = Pn LParen then if lambdaAhead st then parseFuncData rec st else parseTupleData rec st
      else if pCur st \<in> {Pn Lt, Pn LAngle} then parseFuncData rec st
      else Some (unexpected [Expression] st))"

text \<open>A member \<open>.[key]\<close>, after the expression.\<close>

definition keyMember :: "(Entry \<Rightarrow> parser) \<Rightarrow> parser" where
  "keyMember rec st =
     do { st \<leftarrow> rec EExpr (bump (bump st));
          Some (if \<not> pPanic st then expectListEnd (Pn RBracket) st else st) }"

definition accessStep :: "(Entry \<Rightarrow> parser) \<Rightarrow> PState \<Rightarrow> (bool \<times> PState) option" where
  "accessStep rec st =
     (if peek st 1 = Pn LBracket then do { st \<leftarrow> keyMember rec st; Some (True, st) }
      else if peek st 1 \<notin> {Identifier, TokenKind.Integer, TokenKind.Real}
      then let st = bump st
           in Some (False, if isKeyword (pCur st) then error KeywordAsName [Tok Identifier] (pPos st) st
                           else unexpected [Tok Identifier, Tok TokenKind.Integer] st)
      else Some (True, bump (bump st)))"

definition parseAccess :: "(Entry \<Rightarrow> parser) \<Rightarrow> parser" where
  "parseAccess rec st =
     do { let m = mark st;
          st \<leftarrow> parsePrimary rec st;
          (go, any, st) \<leftarrow>
            whileO (\<lambda>(go, any, st). go \<and> pCur st = Pn Dot \<and> \<not> pPanic st)
              (\<lambda>(go, any, st). do { (go, st) \<leftarrow> accessStep rec st; Some (go, True, st) }) (True, False, st);
          Some (if any then close m (Ex AccessExpr) st else st) }"

text \<open>One turn of the postfix loop; \<open>False\<close> is the \<open>break\<close> at its end.\<close>

definition annoStep :: "(Entry \<Rightarrow> parser) \<Rightarrow> PState \<Rightarrow> (bool \<times> PState) option" where
  "annoStep rec st =
     (if adjacent st \<and> pCur st = Pn ColonColon \<and> peek st 1 \<in> {Pn Lt, Pn LAngle}
      then do { st \<leftarrow> parseTypeArguments rec st; Some (True, st) }
      else if adjacent st \<and> pCur st = Pn LBracket \<and> peek st 1 \<noteq> Pn RBracket
      then do { st \<leftarrow> parseIndices rec st; Some (True, st) }
      else if adjacent st \<and> pCur st = Pn LParen then do { st \<leftarrow> parseParentArgues rec st; Some (True, st) }
      else if adjacent st \<and> pCur st = Pn LAngle then do { st \<leftarrow> parseAngledValues rec st; Some (True, st) }
      else if pCur st = Pn LBrace \<and> braceIsStruct st 0 \<and> lastRefIsPath st
      then do { st \<leftarrow> parseStructData rec st; Some (True, st) }
      else if pCur st = Pn Dot \<and> peek st 1 = Pn LBracket
      then do { let mm = mark st; st \<leftarrow> keyMember rec st; Some (True, close mm (Pa MemberAccess) st) }
      else if pCur st = Pn Dot \<and> peek st 1 \<in> {Identifier, TokenKind.Integer, TokenKind.Real}
      then Some (True, close (mark st) (Pa MemberAccess) (bump (bump st)))
      else Some (False, st))"

definition parseAnno :: "(Entry \<Rightarrow> parser) \<Rightarrow> parser" where
  "parseAnno rec st =
     do { let m = mark st;
          (any, st) \<leftarrow> (if shapeCompAhead st then do { st \<leftarrow> parseShapeComp rec st; Some (True, st) }
                        else do { st \<leftarrow> parseAccess rec st; Some (False, st) });
          (go, any, st) \<leftarrow>
            whileO (\<lambda>(go, any, st). go \<and> \<not> pPanic st)
              (\<lambda>(go, any, st). do { (go, st) \<leftarrow> annoStep rec st; Some (go, any \<or> go, st) }) (True, any, st);
          Some (if any then close m (Ex AnnoExpr) st else st) }"

section \<open>Operators\<close>

text \<open>
  A level of left-associative operators: the operand, then \<open>bump(); operand();\<close> while an operator
  of the level stands there; a node when there was any. \<open>note\<close> is what the loop does before it
  takes the operator.
\<close>

definition opLevel :: "(PState \<Rightarrow> bool) \<Rightarrow> (PState \<Rightarrow> PState) \<Rightarrow> parser \<Rightarrow> NodeKind \<Rightarrow> parser" where
  "opLevel isOp note operand kind st =
     do { let m = mark st;
          st \<leftarrow> operand st;
          (any, st) \<leftarrow> whileO (\<lambda>(any, st). isOp st \<and> \<not> pPanic st)
                         (\<lambda>(any, st). do { st \<leftarrow> operand (bump (note st)); Some (True, st) }) (False, st);
          Some (if any then close m kind st else st) }"

text \<open>The levels \<open>||\<close>, \<open>&&\<close>, \<open>|\<close> and \<open>&\<close> test the operator once more and close on it alone.\<close>

definition logicLevel :: "TokenKind \<Rightarrow> parser \<Rightarrow> NodeKind \<Rightarrow> parser" where
  "logicLevel op operand kind st =
     do { let m = mark st;
          st \<leftarrow> operand st;
          if pCur st \<noteq> op then Some st
          else do {
            st \<leftarrow> whileO (\<lambda>st. pCur st = op \<and> \<not> pPanic st) (\<lambda>st. operand (bump st)) st;
            Some (close m kind st) } }"

definition parseLink :: "(Entry \<Rightarrow> parser) \<Rightarrow> parser" where
  "parseLink rec = opLevel (\<lambda>st. pCur st = Pn Arrow) (\<lambda>st. st) (parseAnno rec) (Ex LinkExpr)"

definition parseNeg :: "(Entry \<Rightarrow> parser) \<Rightarrow> bool \<Rightarrow> parser" where
  "parseNeg rec underMinus st =
     (let m = mark st
      in if pCur st \<in> {Pn Minus, Pn Bang, Pn Tilde}
         then inDepth (\<lambda>st. do { st \<leftarrow> rec (ENeg True) (bump st); Some (close m (Ex UnaryExpr) st) }) st
         else do {
           st \<leftarrow> parseLink rec st;
           if underMinus \<and> pCur st = Pn Caret \<and> \<not> pPanic st
           then do { st \<leftarrow> rec (ENeg True) (bump st); Some (close m (Ex PowerExpr) st) }
           else Some st })"

definition parseUnary :: "(Entry \<Rightarrow> parser) \<Rightarrow> parser" where
  "parseUnary rec st =
     do { let m = mark st;
          st \<leftarrow> parseNeg rec False st;
          if pCur st = Kw KwAs \<and> \<not> pPanic st
          then do {
            let st = bump st;
            let opToken = pPrev st;
            st \<leftarrow> rec EType st;
            let st = (if pPrev st \<noteq> opToken \<and> kindAt (pToks st) (pPrev st) = Pn DotDot \<and> adjacent st \<and> \<not> pPanic st \<and>
                         pCur st \<in> {TokenKind.Integer, TokenKind.Real, Identifier, TokenKind.String}
                      then errorAux AsRightSideIsType [] (pPrev st) opToken st else st);
            Some (close m (Ex CastExpr) st) }
          else Some st }"

definition parseNullable :: "(Entry \<Rightarrow> parser) \<Rightarrow> parser" where
  "parseNullable rec st =
     do { let m = mark st;
          st \<leftarrow> parseUnary rec st;
          if pCur st \<in> {Pn QuestionQuestion, Pn BangBang} \<and> \<not> pPanic st
          then do { st \<leftarrow> rec EExpr (bump st); Some (close m (Ex NullableExpr) st) }
          else Some st }"

definition parsePower :: "(Entry \<Rightarrow> parser) \<Rightarrow> parser" where
  "parsePower rec st =
     do { let m = mark st;
          st \<leftarrow> parseNullable rec st;
          if pCur st = Pn Caret \<and> \<not> pPanic st
          then do { st \<leftarrow> rec EPower (bump st); Some (close m (Ex PowerExpr) st) }
          else Some st }"

definition parseMultiplicative :: "(Entry \<Rightarrow> parser) \<Rightarrow> parser" where
  "parseMultiplicative rec =
     opLevel (\<lambda>st. pCur st = Pn At \<and> \<not> lineBreak st \<or> pCur st \<in> {Pn Star, Pn Slash, Pn Percent}) (\<lambda>st. st)
       (parsePower rec) (Ex MultiplicativeExpr)"

definition parseAdditive :: "(Entry \<Rightarrow> parser) \<Rightarrow> parser" where
  "parseAdditive rec =
     opLevel (\<lambda>st. pCur st \<in> {Pn Plus, Pn Minus} \<and> \<not> lineBreak st) (\<lambda>st. st) (parseMultiplicative rec) (Ex AdditiveExpr)"

definition parseRange :: "(Entry \<Rightarrow> parser) \<Rightarrow> parser" where
  "parseRange rec = opLevel (\<lambda>st. pCur st = Pn DotDot) (\<lambda>st. st) (parseAdditive rec) (Ex RangeExpr)"

text \<open>Inside an angle-bracket list a \<open>>\<close> is the comparison only after a space on the same line.\<close>

definition relationalOp :: "PState \<Rightarrow> bool" where
  "relationalOp st \<longleftrightarrow>
     (if pCur st = Pn Gt
      then pAngle st = None \<or> spaceBefore (curTok st) \<and> \<not> newlineBefore (curTok st)
      else pCur st \<in> {Pn Lt, Pn LtEq, Pn GtEq})"

definition noteSpacedGt :: "PState \<Rightarrow> PState" where
  "noteSpacedGt st = (if pCur st = Pn Gt \<and> pAngle st \<noteq> None then st\<lparr>pSpacedGt := Some (pPos st)\<rparr> else st)"

definition parseRelational :: "(Entry \<Rightarrow> parser) \<Rightarrow> parser" where
  "parseRelational rec = opLevel relationalOp noteSpacedGt (parseRange rec) (Ex RelationalExpr)"

definition parseEquality :: "(Entry \<Rightarrow> parser) \<Rightarrow> parser" where
  "parseEquality rec =
     opLevel (\<lambda>st. pCur st \<in> {Pn EqEq, Pn NotEq, Pn EqEqEq, Pn NotEqEq}) (\<lambda>st. st) (parseRelational rec) (Ex EqualityExpr)"

definition parseAnd :: "(Entry \<Rightarrow> parser) \<Rightarrow> parser" where
  "parseAnd rec = logicLevel (Pn Amp) (parseEquality rec) (Ex AndExpr)"

definition parseOr :: "(Entry \<Rightarrow> parser) \<Rightarrow> parser" where
  "parseOr rec = logicLevel (Pn Pipe) (parseAnd rec) (Ex OrExpr)"

definition parseLogicalAnd :: "(Entry \<Rightarrow> parser) \<Rightarrow> parser" where
  "parseLogicalAnd rec = logicLevel (Pn AmpAmp) (parseOr rec) (Ex LogicalAndExpr)"

definition parseLogicalOr :: "(Entry \<Rightarrow> parser) \<Rightarrow> parser" where
  "parseLogicalOr rec = logicLevel (Pn PipePipe) (parseLogicalAnd rec) (Ex LogicalOrExpr)"

definition parseAssign :: "(Entry \<Rightarrow> parser) \<Rightarrow> parser" where
  "parseAssign rec st =
     do { let m = mark st;
          st \<leftarrow> parseLogicalOr rec st;
          if pCur st \<in> {Pn Assign, Pn PlusAssign, Pn MinusAssign, Pn StarAssign, Pn SlashAssign, Pn PercentAssign,
                        Pn CaretAssign, Pn AtAssign, Pn AmpAssign, Pn PipeAssign} \<and> \<not> pPanic st
          then do { st \<leftarrow> parseLogicalOr rec (bump st); Some (close m (Ex AssignExpr) st) }
          else Some st }"

section \<open>Control\<close>

definition parseIf :: "(Entry \<Rightarrow> parser) \<Rightarrow> parser" where
  "parseIf rec st =
     do { let m = mark st;
          st \<leftarrow> parseLogicalOr rec (bump st);
          let (ok, st) = eat (Kw KwThen) st;
          if \<not> ok
          then Some (close m (Ex IfExpr)
                 (error (if pCur st = Pn Assign then AssignmentInCondition else MissingThen) [Tok (Kw KwThen)] (pPos st) st))
          else do {
            st \<leftarrow> rec EBlockExpr st;
            st \<leftarrow> (if pCur st = Kw KwElse \<and> \<not> pPanic st then rec EBlockExpr (bump st) else Some st);
            Some (close m (Ex IfExpr) st) } }"

definition parseTypeCase :: "(Entry \<Rightarrow> parser) \<Rightarrow> parser" where
  "parseTypeCase rec st =
     do { let m = mark st;
          st \<leftarrow> parseTypeCasePattern rec (bump st);
          st \<leftarrow> pipeLoop (parseTypeCasePattern rec) st;
          st \<leftarrow> (if \<not> pPanic st
                then (let (ok, st) = expect (Pn FatArrow) st in if ok then rec EBlockExpr st else Some st)
                else Some st);
          Some (close m (Pa TypeCase) st) }"

definition parseMatchType :: "(Entry \<Rightarrow> parser) \<Rightarrow> parser" where
  "parseMatchType rec st =
     do { let m = mark st;
          st \<leftarrow> inTypeHead (rec EType) (bump (bump st));
          if pPanic st then Some (close m (Ex MatchTypeExpr) st)
          else let (ok, st) = expect (Pn LBrace) st
               in if \<not> ok then Some (close m (Ex MatchTypeExpr) st)
                  else do {
                    st \<leftarrow> inScope True None (caseLoop (parseTypeCase rec)) st;
                    Some (close m (Ex MatchTypeExpr) (eatOpt (Pn RBrace) st)) } }"

text \<open>A \<open>when\<close> after the body: reported, and the condition is read.\<close>

definition whenAfterBody :: "(Entry \<Rightarrow> parser) \<Rightarrow> parser" where
  "whenAfterBody rec st =
     (if \<not> pPanic st \<and> pCur st = Identifier \<and> tokenTextAt st (pPos st) = ''when''
      then rec EExpr (bump (error WhenAfterBody [] (pPos st) st)) else Some st)"

definition parseMatchCase :: "(Entry \<Rightarrow> parser) \<Rightarrow> parser" where
  "parseMatchCase rec st =
     do { let m = mark st;
          st \<leftarrow> parsePattern False (bump st);
          st \<leftarrow> pipeLoop (parsePattern False) st;
          st \<leftarrow> (if \<not> pPanic st \<and> atWord st 0 ''when'' then parseWhenClause rec st else Some st);
          st \<leftarrow> (if \<not> pPanic st
                then (let (ok, st) = expect (Pn FatArrow) st in if ok then rec EBlockExpr st else Some st)
                else Some st);
          st \<leftarrow> whenAfterBody rec st;
          Some (close m (Pa MatchCase) st) }"

definition parseMatch :: "(Entry \<Rightarrow> parser) \<Rightarrow> parser" where
  "parseMatch rec st =
     (if peek st 1 = Kw KwType then parseMatchType rec st
      else do {
        let m = mark st;
        st \<leftarrow> parseLogicalOr rec (bump st);
        if pPanic st then Some (close m (Ex MatchExpr) st)
        else let (ok, st) = expect (Pn LBrace) st
             in if \<not> ok then Some (close m (Ex MatchExpr) st)
                else do {
                  st \<leftarrow> inScope True None (\<lambda>st.
                          caseLoop (parseMatchCase rec) (if pCur st \<noteq> Kw KwCase then unexpected [Tok (Kw KwCase)] st else st)) st;
                  Some (close m (Ex MatchExpr) (eatOpt (Pn RBrace) st)) } })"

text \<open>One name of a loop's state; \<open>False\<close> when the head is broken.\<close>

definition loopState :: "(Entry \<Rightarrow> parser) \<Rightarrow> PState \<Rightarrow> (bool \<times> PState) option" where
  "loopState rec st =
     do { let sm = mark st;
          st \<leftarrow> parseIdentDef st;
          if pPanic st then Some (False, close sm (Pa LoopState) st)
          else let (ok, st) = expect (Pn Assign) st
               in if \<not> ok then Some (False, close sm (Pa LoopState) st)
                  else do { st \<leftarrow> parseLogicalOr rec st; Some (True, close sm (Pa LoopState) st) } }"

definition loopStates :: "(Entry \<Rightarrow> parser) \<Rightarrow> PState \<Rightarrow> (bool \<times> PState) option" where
  "loopStates rec st =
     do { (ok, st) \<leftarrow> loopState rec st;
          whileO (\<lambda>(ok, st). ok \<and> pCur st = Pn Comma \<and> peek st 1 = Identifier \<and> peek st 2 = Pn Assign \<and> \<not> pPanic st)
            (\<lambda>(ok, st). loopState rec (bump st)) (ok, st) }"

definition parseStaticLoopHeader :: "(Entry \<Rightarrow> parser) \<Rightarrow> parser" where
  "parseStaticLoopHeader rec st =
     (if pPanic st then Some st
      else let (ok, st) = expect (Kw KwFor) st
           in if \<not> ok then Some st
              else do {
                st \<leftarrow> parseStaticForNameList st;
                if pPanic st then Some st
                else let (ok, st) = expect (Kw KwIn) st
                     in if \<not> ok then Some st
                        else if atWord st 0 ''fields'' then inTypeHead (rec EType) (bump st)
                        else let st = (if atWord st 0 ''indices'' then bump st else st)
                             in if \<not> pPanic st then rec EExpr st else Some st })"

text \<open>\<open>do\<close> and the body.\<close>

definition loopBody :: "(Entry \<Rightarrow> parser) \<Rightarrow> parser" where
  "loopBody rec st =
     (if \<not> pPanic st then (let (ok, st) = expect (Kw KwDo) st in if ok then rec EBlockExpr st else Some st) else Some st)"

definition parseStaticLoop :: "(Entry \<Rightarrow> parser) \<Rightarrow> parser" where
  "parseStaticLoop rec st =
     do { let m = mark st;
          (ok, st) \<leftarrow> loopStates rec (bump (bump st));
          if \<not> ok then Some (close m (Ex StaticLoopExpr) st)
          else do {
            st \<leftarrow> parseStaticLoopHeader rec st;
            st \<leftarrow> loopBody rec st;
            Some (close m (Ex StaticLoopExpr) st) } }"

definition loopFor :: "(Entry \<Rightarrow> parser) \<Rightarrow> parser" where
  "loopFor rec st =
     do { let fm = mark st;
          st \<leftarrow> parseIdentDef (bump st);
          st \<leftarrow> (if \<not> pPanic st
                then (let (ok, st) = expect (Kw KwIn) st in if ok then parseLogicalOr rec st else Some st)
                else Some st);
          Some (close fm (Pa LoopFor) st) }"

definition loopWhile :: "(Entry \<Rightarrow> parser) \<Rightarrow> parser" where
  "loopWhile rec st = do { let wm = mark st; st \<leftarrow> parseLogicalOr rec (bump st); Some (close wm (Pa LoopWhile) st) }"

definition parseLoop :: "(Entry \<Rightarrow> parser) \<Rightarrow> parser" where
  "parseLoop rec st =
     do { let m = mark st;
          (ok, st) \<leftarrow> loopStates rec (bump st);
          if \<not> ok then Some (close m (Ex LoopExpr) st)
          else do {
            let forClause = (pCur st = Kw KwFor \<and> \<not> pPanic st);
            st \<leftarrow> (if forClause then loopFor rec st else Some st);
            let whileClause = (pCur st = Kw KwWhile \<and> \<not> pPanic st);
            st \<leftarrow> (if whileClause then loopWhile rec st else Some st);
            let st = (if \<not> (forClause \<or> whileClause) \<and> \<not> pPanic st
                      then unexpected [Tok (Kw KwFor), Tok (Kw KwWhile)] st else st);
            st \<leftarrow> loopBody rec st;
            Some (close m (Ex LoopExpr) st) } }"

definition parseExpr :: "(Entry \<Rightarrow> parser) \<Rightarrow> parser" where
  "parseExpr rec st =
     inDepth (\<lambda>st.
       if tooDeep st then Some (unexpected [] st)
       else if pCur st = Kw KwIf then parseIf rec st
       else if pCur st = Kw KwMatch then parseMatch rec st
       else if pCur st = Kw KwLoop then parseLoop rec st
       else if pCur st = Kw KwStatic \<and> peek st 1 = Kw KwLoop then parseStaticLoop rec st
       else parseAssign rec st) st"

end
