(* ===== verification/Parser_Spec_Expr.thy ===== *)
theory Parser_Spec_Expr
  imports Parser_Spec_Type Parser_Expr
begin

text \<open>The productions of \<open>Parser_Expr\<close>.\<close>

lemma wp_conseq: "wp B n s m Q' \<Longrightarrow> (\<And>x. Q' x \<Longrightarrow> Q x) \<Longrightarrow> wp B n s m Q"
  by (auto simp: wp_def)

lemma came_far: "begun B n s \<Longrightarrow> ahead s u \<Longrightarrow> came B s t u"
  using growsD(1,2) [of s u] by (auto simp: came_def begun_def ahead_def)

lemma good_prev [vc]: "good t \<Longrightarrow> pPrev t \<le> pPos t"
  by (simp add: good_def)

lemma plain_brace [vc]: "good u \<Longrightarrow> plain (pBuf u) \<Longrightarrow> pCur u = Pn LBrace \<Longrightarrow> peek u (Suc 0) \<noteq> Eof"
  by (auto simp: plain_def good_def peek_def offsetOf_def)

lemma cur_left [vc]: "Kw w = pCur t \<longleftrightarrow> pCur t = Kw w" "Pn p = pCur t \<longleftrightarrow> pCur t = Pn p" "Identifier = pCur t \<longleftrightarrow> pCur t = Identifier"
  by auto

context parser_rec
begin

section \<open>Postfix lists\<close>

lemma parseSlicePart_works: "works B (Suc N) anywhere keeps (parseSlicePart rec)"
  unfolding parseSlicePart_def by (rule worksI, intro vcg) (simp_all add: vc)

lemmas slicePart_vc [vcg] = parseSlicePart_works [THEN call_keeps]

lemma sliceRest_ahead:
  "begun B n s \<Longrightarrow> N \<le> n \<Longrightarrow> good t \<Longrightarrow> grows s t \<Longrightarrow> m = mark s \<Longrightarrow> pCur t \<noteq> Eof \<Longrightarrow> wp B n s (sliceRest rec m t) (ahead s)"
  unfolding sliceRest_def by (intro vcg) (simp_all add: vc)

lemma sliceRest_vc [vcg]:
  "begun B n s \<Longrightarrow> N \<le> n \<Longrightarrow> good t \<Longrightarrow> grows s t \<Longrightarrow> m = mark s \<Longrightarrow> pCur t \<noteq> Eof \<Longrightarrow>
   (\<And>u. came B s t u \<Longrightarrow> ahead s u \<Longrightarrow> Q u) \<Longrightarrow> wp B n s (sliceRest rec m t) Q"
  by (rule wp_conseq [OF sliceRest_ahead]) (auto intro: came_far)

lemma parseSliceIndices_works: "works B (Suc N) anywhere near (parseSliceIndices rec)"
  unfolding parseSliceIndices_def by (rule worksI, intro vcg) (simp_all add: vc, (elim disjE; simp add: vc)+)

lemmas sliceIndices_vc [vcg] = parseSliceIndices_works [THEN call_near]

lemma parseIndices_works: "works B N (\<lambda>t. pCur t \<noteq> Eof) ahead (parseIndices rec)"
  unfolding parseIndices_def by (rule worksI, intro vcg) (simp_all add: vc)

lemma parseTypeArguments_works: "works B N (\<lambda>t. pCur t \<noteq> Eof \<and> peek t 1 \<noteq> Eof) ahead (parseTypeArguments rec)"
  unfolding parseTypeArguments_def namedTypeArgument_def by (rule worksI, intro vcg) (simp_all add: vc)

lemmas postfix_vc [vcg] = parseIndices_works [THEN call_ahead] parseTypeArguments_works [THEN call_ahead]

section \<open>Static loops and comprehensions\<close>

lemma parseStaticForHeader_works: "works B N anywhere near (parseStaticForHeader rec)"
  unfolding parseStaticForHeader_def by (rule worksI, intro vcg) (simp_all add: vc)

lemmas staticForHeader_vc [vcg] = parseStaticForHeader_works [THEN call_near]

lemma parseStaticFor_works: "works B N (\<lambda>t. plain B \<longrightarrow> pCur t \<noteq> Eof) near (parseStaticFor rec)"
  unfolding parseStaticFor_def by (rule worksI, intro vcg) (simp_all add: vc far_unchecked)

lemmas staticFor_vc [vcg] = parseStaticFor_works [THEN call_near] parseType_works [THEN call_near]

lemma parseShapeComp_works: "works B N anywhere near (parseShapeComp rec)"
  unfolding parseShapeComp_def by (rule worksI, intro vcg) (simp_all add: vc)

lemmas shapeComp_vc [vcg] = parseShapeComp_works [THEN call_near]

section \<open>Primary expressions\<close>

lemma arrayFor_works: "works B N (\<lambda>t. pCur t \<noteq> Eof) ahead (arrayFor rec)"
  unfolding arrayFor_def by (rule worksI, intro vcg) (simp_all add: vc)

lemmas arrayFor_vc [vcg] = arrayFor_works [THEN call_ahead]

lemma arrayInside_works: "works B (Suc N) anywhere keeps (arrayInside rec)"
  unfolding arrayInside_def by (rule worksI, intro vcg) (simp_all add: vc)

lemmas arrayInside_vc [vcg] = arrayInside_works [THEN call_keeps]

lemma parseArrayData_works: "works B N (\<lambda>t. pCur t \<noteq> Eof) ahead (parseArrayData rec)"
  unfolding parseArrayData_def by (rule worksI, intro vcg) (simp_all add: vc)

lemma parseStructData_works: "works B N (\<lambda>t. pCur t \<noteq> Eof) ahead (parseStructData rec)"
  unfolding parseStructData_def by (rule worksI, intro vcg) (simp_all add: vc)

lemma parseTupleData_works: "works B N (\<lambda>t. pCur t \<noteq> Eof) ahead (parseTupleData rec)"
  unfolding parseTupleData_def by (rule worksI, intro vcg) (simp_all add: vc)

lemma parseFuncData_works: "works B N anywhere near (parseFuncData rec)"
  unfolding parseFuncData_def by (rule worksI, intro vcg) (simp_all add: vc)

lemmas data_vc [vcg] =
  parseArrayData_works [THEN call_ahead] parseStructData_works [THEN call_ahead] parseTupleData_works [THEN call_ahead]
  parseFuncData_works [THEN call_near]

lemma parsePrimary_works: "works B N anywhere near (parsePrimary rec)"
  unfolding parsePrimary_def by (rule worksI, intro vcg) (auto simp add: vc literalSignAhead_def)

lemmas primary_vc [vcg] = parsePrimary_works [THEN call_near]

lemma keyMember_works: "works B N (\<lambda>t. pCur t \<noteq> Eof \<and> peek t 1 \<noteq> Eof) ahead (keyMember rec)"
  unfolding keyMember_def by (rule worksI, intro vcg) (simp_all add: vc)

lemmas keyMember_vc [vcg] = keyMember_works [THEN call_ahead]

lemma parseAccess_works: "works B N anywhere near (parseAccess rec)"
  unfolding parseAccess_def accessStep_def
  by (rule worksI, intro vcg) (simp_all add: vc, (elim conjE disjE; simp add: vc)+)

lemmas access_vc [vcg] = parseAccess_works [THEN call_near]

lemma parseAnno_works: "works B N anywhere near (parseAnno rec)"
  unfolding parseAnno_def annoStep_def
  by (rule worksI, intro vcg) (simp_all add: vc, (elim conjE disjE; simp add: vc)+)

section \<open>Operators\<close>

lemma opLevel_works:
  assumes "works B N anywhere near operand" "\<And>t. isOp t \<Longrightarrow> pCur t \<noteq> Eof" "kind \<noteq> De ErrorNode"
    and "\<And>s t. grows s t \<Longrightarrow> grows s (note t)" "\<And>t. pCur (note t) = pCur t" "\<And>t. pBuf (note t) = pBuf t"
  shows "works B N anywhere near (opLevel isOp note operand kind)"
  unfolding opLevel_def using assms(2-)
  by (intro worksI vcg call_near [OF assms(1)]) (simp_all add: vc)

lemma logicLevel_works:
  assumes "works B N anywhere near operand" "op \<noteq> Eof" "kind \<noteq> De ErrorNode"
  shows "works B N anywhere near (logicLevel op operand kind)"
  unfolding logicLevel_def using assms(2-)
  by (intro worksI vcg call_near [OF assms(1)]) (simp_all add: vc)

lemma parseLink_works: "works B N anywhere near (parseLink rec)"
  unfolding parseLink_def by (rule opLevel_works [OF parseAnno_works]) (simp_all add: vc)

lemmas link_vc [vcg] = parseLink_works [THEN call_near]

lemma parseNeg_works: "works B N anywhere near (parseNeg rec underMinus)"
  unfolding parseNeg_def by (rule worksI, intro vcg) (simp_all add: vc, (elim disjE; simp add: vc)+)

lemmas neg_vc [vcg] = parseNeg_works [THEN call_near]

lemma parseUnary_works: "works B N anywhere near (parseUnary rec)"
  unfolding parseUnary_def by (rule worksI, intro vcg) (simp_all add: vc)

lemmas unary_vc [vcg] = parseUnary_works [THEN call_near]

lemma parseNullable_works: "works B N anywhere near (parseNullable rec)"
  unfolding parseNullable_def by (rule worksI, intro vcg) (simp_all add: vc, (elim conjE disjE; simp add: vc)+)

lemmas nullable_vc [vcg] = parseNullable_works [THEN call_near]

lemma parsePower_works: "works B N anywhere near (parsePower rec)"
  unfolding parsePower_def by (rule worksI, intro vcg) (simp_all add: vc)

lemma parseMultiplicative_works: "works B N anywhere near (parseMultiplicative rec)"
  unfolding parseMultiplicative_def by (rule opLevel_works [OF parsePower_works]) auto

lemma parseAdditive_works: "works B N anywhere near (parseAdditive rec)"
  unfolding parseAdditive_def by (rule opLevel_works [OF parseMultiplicative_works]) auto

lemma parseRange_works: "works B N anywhere near (parseRange rec)"
  unfolding parseRange_def by (rule opLevel_works [OF parseAdditive_works]) auto

lemma parseRelational_works: "works B N anywhere near (parseRelational rec)"
  unfolding parseRelational_def
  by (rule opLevel_works [OF parseRange_works]) (auto simp: relationalOp_def noteSpacedGt_def vc split: if_splits)

lemma parseEquality_works: "works B N anywhere near (parseEquality rec)"
  unfolding parseEquality_def by (rule opLevel_works [OF parseRelational_works]) auto

lemma parseAnd_works: "works B N anywhere near (parseAnd rec)"
  unfolding parseAnd_def by (rule logicLevel_works [OF parseEquality_works]) auto

lemma parseOr_works: "works B N anywhere near (parseOr rec)"
  unfolding parseOr_def by (rule logicLevel_works [OF parseAnd_works]) auto

lemma parseLogicalAnd_works: "works B N anywhere near (parseLogicalAnd rec)"
  unfolding parseLogicalAnd_def by (rule logicLevel_works [OF parseOr_works]) auto

lemma parseLogicalOr_works: "works B N anywhere near (parseLogicalOr rec)"
  unfolding parseLogicalOr_def by (rule logicLevel_works [OF parseLogicalAnd_works]) auto

lemmas logicalOr_vc [vcg] = parseLogicalOr_works [THEN call_near]

lemma parseAssign_works: "works B N anywhere near (parseAssign rec)"
  unfolding parseAssign_def by (rule worksI, intro vcg) (simp_all add: vc, (elim conjE disjE; simp add: vc)+)

lemmas assign_vc [vcg] = parseAssign_works [THEN call_near]

section \<open>Control\<close>

lemma parseIf_works: "works B N (\<lambda>t. pCur t \<noteq> Eof) ahead (parseIf rec)"
  unfolding parseIf_def by (rule worksI, intro vcg) (simp_all add: vc)

lemma parseTypeCase_works: "works B N (\<lambda>t. pCur t \<noteq> Eof) ahead (parseTypeCase rec)"
  unfolding parseTypeCase_def by (rule worksI, intro vcg) (simp_all add: vc)

lemmas typeCase_vc [vcg] = parseTypeCase_works [THEN works_later]

lemma parseMatchType_works: "works B N (\<lambda>t. pCur t \<noteq> Eof \<and> peek t 1 \<noteq> Eof) ahead (parseMatchType rec)"
  unfolding parseMatchType_def by (rule worksI, intro vcg) (simp_all add: vc)

lemma whenAfterBody_works: "works B N anywhere keeps (whenAfterBody rec)"
  unfolding whenAfterBody_def by (rule worksI, intro vcg) (simp_all add: vc)

lemmas whenAfter_vc [vcg] = whenAfterBody_works [THEN call_keeps] parseMatchType_works [THEN call_ahead]

lemma parseMatchCase_works: "works B N (\<lambda>t. pCur t \<noteq> Eof) ahead (parseMatchCase rec)"
  unfolding parseMatchCase_def by (rule worksI, intro vcg) (simp_all add: vc)

lemmas matchCase_vc [vcg] = parseMatchCase_works [THEN works_later]

lemma parseMatch_works: "works B N (\<lambda>t. pCur t \<noteq> Eof) ahead (parseMatch rec)"
  unfolding parseMatch_def by (rule worksI, intro vcg) (simp_all add: vc)

lemma loopState_works: "works B N anywhere (\<lambda>t x. near t (snd x)) (loopState rec)"
  unfolding loopState_def by (rule worksI, intro vcg) (simp_all add: vc)

lemmas loopState_vc [vcg] = loopState_works [THEN call_near2]

lemma loopStates_works: "works B N anywhere (\<lambda>t x. near t (snd x)) (loopStates rec)"
  unfolding loopStates_def by (rule worksI, intro vcg) (simp_all add: vc)

lemma parseStaticLoopHeader_works: "works B N anywhere near (parseStaticLoopHeader rec)"
  unfolding parseStaticLoopHeader_def by (rule worksI, intro vcg) (simp_all add: vc)

lemma loopBody_works: "works B N anywhere near (loopBody rec)"
  unfolding loopBody_def by (rule worksI, intro vcg) (simp_all add: vc)

lemma loopFor_works: "works B N (\<lambda>t. pCur t \<noteq> Eof) ahead (loopFor rec)"
  unfolding loopFor_def by (rule worksI, intro vcg) (simp_all add: vc)

lemma loopWhile_works: "works B N (\<lambda>t. pCur t \<noteq> Eof) ahead (loopWhile rec)"
  unfolding loopWhile_def by (rule worksI, intro vcg) (simp_all add: vc)

lemmas loop_vc [vcg] =
  loopStates_works [THEN call_near2] parseStaticLoopHeader_works [THEN call_near] loopBody_works [THEN call_near]
  loopFor_works [THEN call_ahead] loopWhile_works [THEN call_ahead]

lemma parseStaticLoop_works: "works B N (\<lambda>t. pCur t \<noteq> Eof \<and> peek t 1 \<noteq> Eof) ahead (parseStaticLoop rec)"
  unfolding parseStaticLoop_def by (rule worksI, intro vcg) (simp_all add: vc)

lemma parseLoop_works: "works B N (\<lambda>t. pCur t \<noteq> Eof) ahead (parseLoop rec)"
  unfolding parseLoop_def by (rule worksI, intro vcg) (simp_all add: vc)

lemmas control_vc [vcg] =
  parseIf_works [THEN call_ahead] parseMatch_works [THEN call_ahead] parseStaticLoop_works [THEN call_ahead]
  parseLoop_works [THEN call_ahead]

lemma parseExpr_works: "works B N anywhere near (parseExpr rec)"
  unfolding parseExpr_def by (rule worksI, intro vcg) (simp_all add: vc)

lemmas expr_vc [vcg] = parseExpr_works [THEN call_near]

end

end
