(* ===== verification/Parser_Decl.thy ===== *)
theory Parser_Decl
  imports Parser_Expr
begin

text \<open>
  Statements, declarations, rules, facts and the program (\<open>parser.cpp\<close> and \<open>parser_rule.cpp\<close>), and
  the parser itself: \<open>parserRun\<close> ties the recursion with a bound on its depth, and the three entry
  points of \<open>parser.h\<close> give it one more than the number of tokens, which is enough (\<open>parse_total\<close>).
\<close>

section \<open>Blocks\<close>

definition stmtListStep :: "(Entry \<Rightarrow> parser) \<Rightarrow> parser" where
  "stmtListStep rec st =
     (let start = pPos st
      in do {
        (done, st) \<leftarrow>
          (if pCur st = Pn Semi
           then Some (False, if kindAt (pToks st) (pPrev st) = Pn Semi then error ExtraSemicolon [] (pPos st) st
                             else unexpected [Tok (Pn RBrace)] st)
           else if startsStmt (pCur st)
           then do { st \<leftarrow> rec EStmt st; Some (\<not> pPanic st, st) }
           else Some (False, unexpected [Tok (Pn RBrace)] st));
        if done then Some (eatOpt (Pn Semi) st)
        else do {
          st \<leftarrow> recover True False st;
          let st = (if pPos st = start \<and> pCur st \<noteq> Eof \<and> pCur st \<noteq> Pn RBrace then stepOver st else st);
          Some (eatOpt (Pn Semi) st) } })"

definition parseStmtList :: "(Entry \<Rightarrow> parser) \<Rightarrow> parser" where
  "parseStmtList rec st =
     do { let m = mark st;
          st \<leftarrow> whileO (\<lambda>st. pCur st \<noteq> Pn RBrace \<and> pCur st \<noteq> Eof) (stmtListStep rec) st;
          Some (if m < length (pStack st) then close m (De StmtList) st else st) }"

definition parseStmtBlock :: "(Entry \<Rightarrow> parser) \<Rightarrow> parser" where
  "parseStmtBlock rec st =
     inDepth (\<lambda>st.
       let m = mark st; (ok, st) = eat (Pn LBrace) (eatOpt (Kw KwSync) st)
       in if \<not> ok then Some (close m (De StmtBlock) (unexpected [Tok (Pn LBrace), Tok (Kw KwSync)] st))
          else if tooDeep st then Some (close m (De StmtBlock) (unexpected [] st))
          else do {
            st \<leftarrow> inScope True None (parseStmtList rec) st;
            Some (close m (De StmtBlock) (expectOpt (Pn RBrace) st)) }) st"

definition blockAhead :: "PState \<Rightarrow> bool" where
  "blockAhead st \<longleftrightarrow> pCur st = Pn LBrace \<or> pCur st = Kw KwSync \<and> peek st 1 = Pn LBrace"

definition parseBlockExpr :: "(Entry \<Rightarrow> parser) \<Rightarrow> parser" where
  "parseBlockExpr rec st =
     (if pCur st = Kw KwSync \<and> peek st 1 = Pn LBrace \<or> pCur st = Pn LBrace \<and> \<not> braceIsStruct st 0
      then parseStmtBlock rec st else parseExpr rec st)"

section \<open>Declarations\<close>

text \<open>\<open>_\<close> where the single name of a declaration stands.\<close>

definition wildcardName :: parser where
  "wildcardName st = Some (close (mark st) (Pa IdentList) (close (mark st) (Pa IdentDef) (bump st)))"

definition parseDataDecl :: "(Entry \<Rightarrow> parser) \<Rightarrow> bool \<Rightarrow> parser" where
  "parseDataDecl rec exported st =
     (let m = mark st; isLet = (pCur st = Kw KwLet); st = bump st
      in if pCur st = Pn Underscore \<and> \<not> isLet then Some (close m (De DataDecl) (unexpected [Tok Identifier] st))
         else if pCur st \<notin> {Pn Underscore, Pn LParen, Identifier} then Some (close m (De DataDecl) (nameError st))
         else do {
           st \<leftarrow> (if pCur st = Pn Underscore
                 then wildcardName st
                 else if pCur st = Pn LParen then parseBracketedIdents (Pn RParen) (Pa ParentIdents) True st
                 else parseIdentList st);
           let (typed, st) = eat (Pn Colon) st;
           st \<leftarrow> (if typed then parseTypeList rec Eof st else Some st);
           let (ok, st) = eat (Pn Assign) st;
           if \<not> ok
           then Some (close m (De DataDecl)
                  (if exported \<and> isLet \<and> typed \<and> \<not> pPanic st then st
                   else if \<not> typed \<and> \<not> pPanic st
                   then error MissingInitializer [Tok (Pn Colon), Tok (Pn Assign)] (pPrev st) st
                   else unexpected [Tok (Pn Assign)] st))
           else do { st \<leftarrow> parseDataList rec Eof st; Some (close m (De DataDecl) st) } })"

text \<open>The parameters of a type declaration, after \<open><\<close>; whether a right side follows.\<close>

definition typeDeclParams :: "PState \<Rightarrow> (bool \<times> PState) option" where
  "typeDeclParams st =
     do { st \<leftarrow> parseIdentDef st;
          st \<leftarrow> whileO (\<lambda>st. pCur st = Pn Comma \<and> peek st 1 \<notin> {Pn Gt, Pn GtEq}) (\<lambda>st. parseIdentDef (bump st)) st;
          let (ok, st) = eat (Pn GtEq) (eatOpt (Pn Comma) st);
          Some (if ok then (True, st)
                else if pCur st = Pn Gt then eat (Pn Assign) (bump st)
                else (False, unexpected [Tok (Pn Comma), Tok (Pn Gt)] st)) }"

definition parseTypeDeclRest :: "(Entry \<Rightarrow> parser) \<Rightarrow> nat \<Rightarrow> parser" where
  "parseTypeDeclRest rec m st =
     (let (ok, st) = expect (Kw KwType) st
      in if \<not> ok then Some (close m (De TypeDecl) st)
         else do {
           st \<leftarrow> parseIdentRef (Pa IdentRef) st;
           (rightSide, st) \<leftarrow>
             (if pCur st \<in> {Pn LAngle, Pn Lt} then inScopeB False None typeDeclParams (bump st)
              else Some (eat (Pn Assign) st));
           if pPanic st then Some (close m (De TypeDecl) st)
           else do { st \<leftarrow> (if rightSide then rec EType st else Some st); Some (close m (De TypeDecl) st) } })"

definition parseTypeDecl :: "(Entry \<Rightarrow> parser) \<Rightarrow> parser" where
  "parseTypeDecl rec st = do { let m = mark st; st \<leftarrow> parseFrontMatter rec st; parseTypeDeclRest rec m st }"

definition parseExportDecl :: "(Entry \<Rightarrow> parser) \<Rightarrow> parser" where
  "parseExportDecl rec st =
     do { let m = mark st;
          let st = bump st;
          st \<leftarrow> (if pCur st = Pn LBrace then parseBracketedIdents (Pn RBrace) (Pa BracedIdents) False st
                else if pCur st \<in> {Kw KwLet, Kw KwVar} then parseDataDecl rec True st
                else parseTypeDecl rec st);
          Some (close m (De ExportDecl) st) }"

text \<open>\<open>::<...>\<close> after the name of a declaration.\<close>

definition typeParamsAhead :: "PState \<Rightarrow> bool" where
  "typeParamsAhead st \<longleftrightarrow> pCur st = Pn ColonColon \<and> peek st 1 \<in> {Pn Lt, Pn LAngle}"

definition parseTagDecl :: "(Entry \<Rightarrow> parser) \<Rightarrow> parser" where
  "parseTagDecl rec st =
     (let m = mark st; (ok, st) = eat (Pn Assign) (expectName (Pa IdentDef) (bump (eatOpt (Kw KwExport) st)))
      in if ok
         then do { st \<leftarrow> parseBracketedIdents (Pn RBracket) (Pa BracketIdents) False st; Some (close m (De TagDecl) st) }
         else do {
           st \<leftarrow> (if typeParamsAhead st then parseTypeParams st else Some st);
           st \<leftarrow> (if pCur st = Pn LParen then parseParentParams rec False False st else Some st);
           if \<not> atWord st 0 ''on'' then Some (close m (De TagDecl) (unexpected [Tok Identifier] st))
           else do {
             st \<leftarrow> parseTagPositions (bump st);
             st \<leftarrow> (if atWord st 0 ''read_by'' then parseTagReaders (bump st) else Some st);
             st \<leftarrow> (if atWord st 0 ''when'' then parseWhenClause rec st else Some st);
             Some (close m (De TagDecl) st) } })"

section \<open>Rules and facts\<close>

definition parseRuleBody :: "(Entry \<Rightarrow> parser) \<Rightarrow> parser" where
  "parseRuleBody rec st =
     do { let m = mark st;
          st \<leftarrow> rec EExpr st;
          let st = (if \<not> pPanic st
                    then if pCur st \<in> {Pn FatArrow, Pn Equiv} then bump st
                         else unexpected [Tok (Pn FatArrow), Tok (Pn Equiv)] st
                    else st);
          st \<leftarrow> (if \<not> pPanic st then rec EExpr st else Some st);
          Some (close m (De RuleBody) st) }"

text \<open>What stands before the word of a rule, a fact or a function.\<close>

definition declPrefix :: "(Entry \<Rightarrow> parser) \<Rightarrow> bool \<Rightarrow> bool \<Rightarrow> parser" where
  "declPrefix rec allowRest allowConstas st =
     do { let (ok, st) = eat (Kw KwWith) st;
          st \<leftarrow> (if ok then parseAngledParams rec allowRest allowConstas st else Some st);
          Some (eatOpt (Kw KwExport) st) }"

definition parseRuleDeclRest :: "(Entry \<Rightarrow> parser) \<Rightarrow> nat \<Rightarrow> parser" where
  "parseRuleDeclRest rec m st =
     do { st \<leftarrow> declPrefix rec False False st;
          st \<leftarrow> parseIdentDef (bump st);
          st \<leftarrow> (if typeParamsAhead st then parseTypeParams st else Some st);
          st \<leftarrow> parseParentParams rec False False st;
          st \<leftarrow> (if atWord st 0 ''when'' then parseWhenClause rec st else Some st);
          st \<leftarrow> (if \<not> pPanic st
                then let (ok, st) = expect (Pn LBrace) st
                     in if ok then do { st \<leftarrow> inScope False None (parseRuleBody rec) st; Some (expectOpt (Pn RBrace) st) }
                        else Some st
                else Some st);
          st \<leftarrow> whenAfterBody rec st;
          Some (close m (De RuleDecl) st) }"

definition parseRuleDecl :: "(Entry \<Rightarrow> parser) \<Rightarrow> parser" where
  "parseRuleDecl rec st = do { let m = mark st; st \<leftarrow> parseFrontMatter rec st; parseRuleDeclRest rec m st }"

definition parseFactPattern :: "(Entry \<Rightarrow> parser) \<Rightarrow> parser" where
  "parseFactPattern rec st =
     do { let m = mark st;
          st \<leftarrow> (if pCur st = Kw KwConst
                then do { st \<leftarrow> parseIdentDef (bump st);
                          if \<not> pPanic st then (let (ok, st) = eat (Pn Colon) st in if ok then rec EType st else Some st)
                          else Some st }
                else if pCur st = Pn Underscore then Some (bump st)
                else rec EExpr st);
          Some (close m (De FactPattern) st) }"

definition parseFactCase :: "(Entry \<Rightarrow> parser) \<Rightarrow> parser" where
  "parseFactCase rec st =
     do { let m = mark st;
          st \<leftarrow> parseFactPattern rec (bump st);
          st \<leftarrow> (if \<not> pPanic st
                then (let (ok, st) = expect (Pn FatArrow) st in if ok then rec EExpr st else Some st)
                else Some st);
          Some (close m (De FactCase) st) }"

definition parseFactBody :: "(Entry \<Rightarrow> parser) \<Rightarrow> parser" where
  "parseFactBody rec st =
     (let m = mark st
      in if pCur st \<noteq> Kw KwMatch then Some (close m (De FactBody) (unexpected [Tok (Kw KwMatch)] st))
         else do {
           st \<leftarrow> rec ELogicalOr (bump st);
           if pPanic st then Some (close m (De FactBody) st)
           else let (ok, st) = expect (Pn LBrace) st
                in if \<not> ok then Some (close m (De FactBody) st)
                   else do {
                     st \<leftarrow> inScope True None (\<lambda>st.
                             caseLoop (parseFactCase rec) (if pCur st \<noteq> Kw KwCase then unexpected [Tok (Kw KwCase)] st else st)) st;
                     Some (close m (De FactBody) (eatOpt (Pn RBrace) st)) } })"

definition parseFactClause :: "(Entry \<Rightarrow> parser) \<Rightarrow> parser" where
  "parseFactClause rec st = do { let m = mark st; st \<leftarrow> rec EExpr (bump st); Some (close m (De FactClause) st) }"

definition kClauses :: "string list" where
  "kClauses = [''join'', ''meet'', ''widen'', ''narrow'']"

text \<open>The clauses after a fact, each word at most once; \<open>seen\<close> are the words read.\<close>

definition factClauses :: "(Entry \<Rightarrow> parser) \<Rightarrow> parser" where
  "factClauses rec st =
     do { (seen, st) \<leftarrow>
            whileO (\<lambda>(seen, st). \<not> pPanic st \<and> pCur st = Identifier \<and> tokenTextAt st (pPos st) \<in> set kClauses \<and>
                                  tokenTextAt st (pPos st) \<notin> set seen)
              (\<lambda>(seen, st). do { let word = tokenTextAt st (pPos st);
                                 st \<leftarrow> parseFactClause rec st;
                                 Some (word # seen, st) }) ([], st);
          Some st }"

definition parseFactDeclRest :: "(Entry \<Rightarrow> parser) \<Rightarrow> nat \<Rightarrow> parser" where
  "parseFactDeclRest rec m st =
     do { st \<leftarrow> declPrefix rec False False st;
          st \<leftarrow> parseIdentDef (bump st);
          st \<leftarrow> (if typeParamsAhead st then parseTypeParams st else Some st);
          st \<leftarrow> (if pCur st = Pn LParen then parseParentParams rec False False st else Some st);
          st \<leftarrow> (if \<not> pPanic st then (let (ok, st) = expect (Pn Colon) st in if ok then rec EType st else Some st)
                else Some st);
          st \<leftarrow> (if \<not> pPanic st then parseFactBody rec st else Some st);
          st \<leftarrow> factClauses rec st;
          Some (close m (De FactDecl) st) }"

definition parseFactDecl :: "(Entry \<Rightarrow> parser) \<Rightarrow> parser" where
  "parseFactDecl rec st = do { let m = mark st; st \<leftarrow> parseFrontMatter rec st; parseFactDeclRest rec m st }"

section \<open>Functions and annotated statements\<close>

text \<open>The signature after \<open>func\<close>, and the clauses and the body.\<close>

definition funcSignature :: "(Entry \<Rightarrow> parser) \<Rightarrow> parser" where
  "funcSignature rec st =
     do { st \<leftarrow> (if atOperatorName st then parseOperatorName st else parseIdentRef (Pa IdentRef) st);
          st \<leftarrow> (if typeParamsAhead st then parseTypeParams st else Some st);
          st \<leftarrow> parseParentParams rec True True st;
          let (ok, st) = eat (Pn Colon) st;
          if ok then rec EType st else Some st }"

definition funcTail :: "(Entry \<Rightarrow> parser) \<Rightarrow> parser" where
  "funcTail rec st =
     do { st \<leftarrow> (if atWord st 0 ''uses'' \<or> atWord st 0 ''pure'' then parseResourceClause st else Some st);
          st \<leftarrow> (if atWord st 0 ''when'' then parseWhenClause rec st else Some st);
          if \<not> pPanic st \<and> blockAhead st then parseStmtBlock rec st else Some st }"

definition parseFuncDeclRest :: "(Entry \<Rightarrow> parser) \<Rightarrow> nat \<Rightarrow> parser" where
  "parseFuncDeclRest rec m st =
     do { st \<leftarrow> declPrefix rec True True st;
          if atRuleDecl st 0 then parseRuleDeclRest rec m st
          else let (ok, st) = eat (Kw KwFunc) st
               in if \<not> ok then Some (close m (De FuncDecl) (unexpected [Tok (Kw KwFunc)] st))
                  else do {
                    st \<leftarrow> funcSignature rec st;
                    st \<leftarrow> funcTail rec st;
                    Some (close m (De FuncDecl) st) } }"

definition parseFuncDecl :: "(Entry \<Rightarrow> parser) \<Rightarrow> parser" where
  "parseFuncDecl rec st = do { let m = mark st; st \<leftarrow> parseFrontMatter rec st; parseFuncDeclRest rec m st }"

definition parseAnnotatedStmt :: "(Entry \<Rightarrow> parser) \<Rightarrow> parser" where
  "parseAnnotatedStmt rec st =
     do { let m = mark st;
          st \<leftarrow> parseFrontMatter rec st;
          if pCur st = Kw KwExport \<and> atRuleDecl st 1 then parseRuleDeclRest rec m st
          else if atRuleDecl st 0 then parseRuleDeclRest rec m st
          else if atFactDecl st 0 then parseFactDeclRest rec m st
          else if blockAhead st then do { st \<leftarrow> parseStmtBlock rec st; Some (close m (De BlockStmt) st) }
          else if pCur st = Kw KwType then parseTypeDeclRest rec m st
          else parseFuncDeclRest rec m st }"

definition parseRetStmt :: "(Entry \<Rightarrow> parser) \<Rightarrow> parser" where
  "parseRetStmt rec st = do { let m = mark st; st \<leftarrow> parseDataList rec Eof (bump st); Some (close m (De RetStmt) st) }"

section \<open>Statements and declarations\<close>

definition parseStmt :: "(Entry \<Rightarrow> parser) \<Rightarrow> parser" where
  "parseStmt rec st =
     inDepth (\<lambda>st.
       if tooDeep st then Some (unexpected [] st)
       else if pCur st \<in> {Kw KwLet, Kw KwVar} then parseDataDecl rec False st
       else if pCur st = Kw KwType then parseTypeDecl rec st
       else if pCur st = Kw KwUsing then parseUsingNamespaceDecl st
       else if pCur st \<in> {Kw KwReturn, Kw KwYield} then parseRetStmt rec st
       else if pCur st \<in> {Kw KwFunc, Kw KwWith, Kw KwExport} then parseFuncDecl rec st
       else if pCur st \<in> {Pn At, Pn Hash} then parseAnnotatedStmt rec st
       else if pCur st = Kw KwSync
       then if afterModifiers st = 1 \<and> peek st 1 = Pn LBrace then parseStmtBlock rec st else parseExpr rec st
       else if pCur st = Kw KwStatic
       then if peek st 1 = Kw KwLoop then parseStaticLoop rec st else parseStaticFor rec st
       else if pCur st = Pn LBrace
       then if peek st 1 = Pn RBrace \<or> braceIsStruct st 0 then parseExpr rec st else parseStmtBlock rec st
       else parseExpr rec st) st"

text \<open>One turn of the loop of a namespace body.\<close>

definition namespaceStep :: "(Entry \<Rightarrow> parser) \<Rightarrow> parser" where
  "namespaceStep rec st =
     (let start = pPos st
      in do {
        (done, st) \<leftarrow>
          (if pCur st = Pn Semi then Some (False, error ExtraSemicolon [] (pPos st) st)
           else if startsDecl st (pCur st) then do { st \<leftarrow> rec EDecl st; Some (\<not> pPanic st, st) }
           else Some (False, unexpected [Declaration, Tok (Pn RBrace)] st));
        if done then Some (eatOpt (Pn Semi) st)
        else do {
          st \<leftarrow> recover True True st;
          let st = (if pPos st = start \<and> pCur st \<noteq> Eof \<and> pCur st \<noteq> Pn RBrace then stepOver st else st);
          Some (eatOpt (Pn Semi) st) } })"

definition namespaceBody :: "(Entry \<Rightarrow> parser) \<Rightarrow> parser" where
  "namespaceBody rec st =
     whileO (\<lambda>st. pCur st \<noteq> Pn RBrace \<and> pCur st \<noteq> Eof) (namespaceStep rec) (eatOpt (Pn Semi) st)"

definition parseNamespaceDecl :: "(Entry \<Rightarrow> parser) \<Rightarrow> parser" where
  "parseNamespaceDecl rec st =
     inDepth (\<lambda>st. do {
       let m = mark st;
       st \<leftarrow> parseIdentRef (Pa IdentRef) (bump st);
       let (ok, st) = expect (Pn LBrace) st;
       if \<not> ok \<or> tooDeep st then Some (close m (De NamespaceDecl) st)
       else do {
         st \<leftarrow> inScope True None (namespaceBody rec) st;
         Some (close m (De NamespaceDecl) (expectOpt (Pn RBrace) st)) } }) st"

definition parseDecl :: "(Entry \<Rightarrow> parser) \<Rightarrow> parser" where
  "parseDecl rec st =
     (if pCur st = Kw KwImport then parseImportDecl st
      else if pCur st = Kw KwNamespace then parseNamespaceDecl rec st
      else if pCur st = Kw KwUsing then parseUsingNamespaceDecl st
      else if pCur st \<in> {Kw KwLet, Kw KwVar} then parseDataDecl rec False st
      else if pCur st = Kw KwType then parseTypeDecl rec st
      else if pCur st = Pn Hash then parseAnnotatedStmt rec st
      else if pCur st = Kw KwExport
      then if atFactDecl st 1 then parseFactDecl rec st
           else if atRuleDecl st 1 then parseRuleDecl rec st
           else if atTagDecl st 1 then parseTagDecl rec st
           else if atResourceDecl st 1 then parseResourceDecl st
           else if peek st 1 \<in> {Kw KwLet, Kw KwVar, Kw KwType, Pn LBrace} then parseExportDecl rec st
           else parseFuncDecl rec st
      else if atTagDecl st 0 then parseTagDecl rec st
      else if atResourceDecl st 0 then parseResourceDecl st
      else if atFactDecl st 0 then parseFactDecl rec st
      else if atRuleDecl st 0 then parseRuleDecl rec st
      else parseFuncDecl rec st)"

section \<open>The parser\<close>

definition parserStep :: "(Entry \<Rightarrow> parser) \<Rightarrow> Entry \<Rightarrow> parser" where
  "parserStep rec e =
     (case e of
        EExpr \<Rightarrow> parseExpr rec
      | ELogicalOr \<Rightarrow> parseLogicalOr rec
      | EPower \<Rightarrow> parsePower rec
      | ENeg underMinus \<Rightarrow> parseNeg rec underMinus
      | EType \<Rightarrow> parseType rec
      | EBlockExpr \<Rightarrow> parseBlockExpr rec
      | EStmt \<Rightarrow> parseStmt rec
      | EDecl \<Rightarrow> parseDecl rec)"

primrec parserRun :: "nat \<Rightarrow> Entry \<Rightarrow> parser" where
  "parserRun 0 = (\<lambda>e st. None)"
| "parserRun (Suc n) = parserStep (parserRun n)"

text \<open>One turn of the loop of \<open>parseProgram\<close>.\<close>

definition programStep :: "(Entry \<Rightarrow> parser) \<Rightarrow> parser" where
  "programStep rec st =
     (let start = pPos st
      in do {
        (done, st) \<leftarrow>
          (if pCur st = Pn Semi then Some (False, error ExtraSemicolon [] (pPos st) st)
           else if startsDecl st (pCur st) \<or> atRuleDecl st 0 \<or> atFactDecl st 0
           then do { st \<leftarrow> rec EDecl st; Some (\<not> pPanic st, st) }
           else Some (False, unexpected [Declaration, Tok Eof] st));
        if done then Some (eatOpt (Pn Semi) st)
        else do {
          st \<leftarrow> recover False True st;
          let st = (if pPos st = start \<and> pCur st \<noteq> Eof then stepOver st else st);
          Some (eatOpt (Pn Semi) st) } })"

definition parseProgram :: "(Entry \<Rightarrow> parser) \<Rightarrow> parser" where
  "parseProgram rec st =
     do { let m = mark st;
          st \<leftarrow> whileO (\<lambda>st. pCur st \<noteq> Eof) (programStep rec) (eatOpt (Pn Semi) st);
          Some (close m (De Program) (pushToken st)) }"

definition startParser :: "TokenBuffer \<Rightarrow> PState" where
  "startParser b =
     (let p = skipTrivia (bufTokens b) 0
      in \<lparr>pBuf = b, pNodes = [], pChildren = [], pErrors = [], pPos = p, pPrev = p, pCur = kindAt (bufTokens b) p,
          pStack = [], pNl = True, pAngle = None, pConstData = False, pSpacedGt = None, pLambdaParams = False,
          pPanic = False, pDepth = 0, pTypeHead = False\<rparr>)"

definition treeOf :: "PState \<Rightarrow> Tree" where
  "treeOf st =
     \<lparr>trBuf = pBuf st, trNodes = pNodes st, trChildren = pChildren st, trErrors = pErrors st,
      trRoot = (if pStack st = [] then None else Some (last (pStack st)))\<rparr>"

definition parseBuffer :: "TokenBuffer \<Rightarrow> Tree option" where
  "parseBuffer b =
     do { st \<leftarrow> parseProgram (parserRun (length (bufTokens b) + 1)) (startParser b); Some (treeOf st) }"

definition parseExpression :: "TokenBuffer \<Rightarrow> Tree option" where
  "parseExpression b =
     do { st \<leftarrow> parserRun (length (bufTokens b) + 1) EExpr (startParser b);
          Some (treeOf (if \<not> pPanic st \<and> pCur st \<noteq> Eof then unexpected [] st else st)) }"

definition parse :: "string \<Rightarrow> Tree option" where
  "parse source = parseBuffer (tokenize source)"

end
