(* ===== verification/Parser_Spec_Decl.thy ===== *)
theory Parser_Spec_Decl
  imports Parser_Spec_Expr Parser_Decl
begin

text \<open>The productions of \<open>Parser_Decl\<close>, recovery, and the parser as a whole.\<close>

section \<open>Recovery\<close>

lemma eatOpt_fields [simp]: "pBuf (eatOpt kind t) = pBuf t" "pErrors (eatOpt kind t) = pErrors t"
  by (simp_all add: eatOpt_def eat_def)

lemma errors_of_panic: "good t \<Longrightarrow> pPanic t \<Longrightarrow> pErrors t \<noteq> []"
  by (simp add: good_def)

lemma grows_further: "grows s t \<Longrightarrow> pPos t \<noteq> pPos s \<Longrightarrow> ahead s t"
  using growsD(3) [of s t] by (simp add: ahead_def)

lemma recover_works: "works B k (\<lambda>t. pErrors t \<noteq> []) grows (recover inBlock topLevel)"
proof (rule worksI)
  fix t assume t: "good t" "pErrors t \<noteq> []"
  let ?c = "\<lambda>(nesting, st). pCur st \<noteq> Eof \<and> \<not> (nesting = 0 \<and> recoverStops inBlock topLevel (pPos t) st)"
  let ?b = "\<lambda>(nesting, st). Some (nestingAfter (pCur st) nesting, advance (pushToken st))"
  let ?I = "\<lambda>(nesting :: nat, u). grows t u \<and> pErrors u \<noteq> []"
  have "\<exists>y. whileO ?c ?b (0, t) = Some y \<and> ?I y \<and> \<not> ?c y"
  proof (rule whileO_total [where f = "\<lambda>(nesting, u). length (pToks t) - pPos u"])
    fix x assume x: "?I x" "?c x"
    obtain nesting u where xu: "x = (nesting, u)" by (cases x) blast
    let ?v = "advance (pushToken u)"
    have v: "grows t ?v" using x xu by (auto intro: grows.skip)
    have "pPos u < pPos ?v" using x xu pos_advance(1) [OF good_push, of u] growsD(1) by auto
    then show "\<exists>y. ?b x = Some y \<and> ?I y \<and>
        (?c y \<longrightarrow> (case y of (nesting, u) \<Rightarrow> length (pToks t) - pPos u) < (case x of (nesting, u) \<Rightarrow> length (pToks t) - pPos u))"
      using v x xu growsD(1,2) [OF v] by (auto simp: good_def)
  qed (use t in \<open>auto intro: grows.start\<close>)
  then obtain nesting u where u: "whileO ?c ?b (0, t) = Some (nesting, u)" "grows t u" "pErrors u \<noteq> []" by auto
  let ?w = "if mark t < mark u then close (mark t) (De ErrorNode) u else u"
  have w: "grows t ?w" using u(2,3) growsD(4) [OF u(2)] by (auto intro: grows.node)
  have "grows t (?w\<lparr>pPanic := False\<rparr>)"
    using grows.layout [OF w, where p = False and a = "pNl ?w" and c = "pAngle ?w" and d = "pConstData ?w" and g = "pSpacedGt ?w"
          and l = "pLambdaParams ?w" and e = "pDepth ?w" and h = "pTypeHead ?w"]
    by simp
  then show "wp B k t (recover inBlock topLevel t) (grows t)" using u(1) by (simp add: recover_def Let_def)
qed

lemmas recover_vc [vcg] = recover_works [THEN call_grows]

lemma stepOver_ahead: "grows s t \<Longrightarrow> pErrors t \<noteq> [] \<Longrightarrow> pCur t \<noteq> Eof \<Longrightarrow> ahead s (stepOver t)"
proof -
  assume t: "grows s t" "pErrors t \<noteq> []" "pCur t \<noteq> Eof"
  have "grows s (advance (pushToken t))" using t by (intro grows.skip)
  then have "grows s (stepOver t)" unfolding stepOver_def using t growsD(4) [OF t(1)] by (intro grows.node) auto
  moreover have "pPos t < pPos (stepOver t)"
    using pos_advance(1) [OF good_push, of t] growsD(1) [OF t(1)] t(3) by (simp add: stepOver_def)
  ultimately show ?thesis using growsD(3) [OF t(1)] by (simp add: ahead_def)
qed

text \<open>
  The end of a turn of the loops over statements and declarations, after \<open>recover\<close>: \<open>go\<close> is the
  condition of the loop.
\<close>

lemma mended:
  assumes "grows s w" "pErrors w \<noteq> []" "\<And>w. go w \<Longrightarrow> pCur w \<noteq> Eof" "\<And>w. pCur w = Pn Semi \<Longrightarrow> go w"
  defines "v \<equiv> eatOpt (Pn Semi) (if pPos w = pPos s \<and> go w then stepOver w else w)"
  shows "grows s v \<and> (go v \<longrightarrow> ahead s v)"
proof (cases "go w")
  case True
  then have "ahead s (if pPos w = pPos s \<and> go w then stepOver w else w)"
    using assms(1-3) stepOver_ahead [of s w] grows_further [of s w] by simp
  then show ?thesis unfolding v_def by (simp add: vc)
next
  case False
  then have "v = w" using assms(4) by (auto simp: v_def eatOpt_def eat_def)
  then show ?thesis using False assms(1) by simp
qed

lemma loop_grows:
  assumes "begun B n s" "grows s t"
    and "\<And>u. begun B n u \<Longrightarrow> good u \<Longrightarrow> pBuf u = B \<Longrightarrow> c u \<Longrightarrow> wp B n u (b u) (\<lambda>v. grows u v \<and> (c v \<longrightarrow> ahead u v))"
    and "\<And>u. came B s t u \<Longrightarrow> \<not> c u \<Longrightarrow> Q u"
  shows "wp B n s (whileO c b t) Q"
proof (rule wp_turns [of grows _ _ _ "\<lambda>t. t"])
  fix y assume y: "y = t \<or> grows t y" "\<not> c y"
  then have "grows t y" using assms(2) growsD(1) grows.start by blast
  then show "Q y" using assms(1,2,4) y(2) by (auto intro: cameI)
qed (use assms in \<open>auto intro: grows_trans simp: begun_def\<close>)

text \<open>What one turn of such a loop does: \<open>first\<close> is the branch of the turn, \<open>panic_\<close> when it failed.\<close>

lemma turn_vc:
  assumes s: "begun B n s" "good s" and go: "\<And>w. go w \<Longrightarrow> pCur w \<noteq> Eof" "\<And>w. pCur w = Pn Semi \<Longrightarrow> go w"
    and first: "wp B n s m (\<lambda>(d, u). near s u \<and> d = (\<not> pPanic u))"
  shows "wp B n s (do { (d, st) \<leftarrow> m;
                        if d then Some (eatOpt (Pn Semi) st)
                        else do {
                          st \<leftarrow> recover inBlock topLevel st;
                          let st = (if pPos st = pPos s \<and> go st then stepOver st else st);
                          Some (eatOpt (Pn Semi) st) } })
           (\<lambda>v. grows s v \<and> (go v \<longrightarrow> ahead s v))"
proof -
  obtain d u where u: "m = Some (d, u)" "near s u" "d = (\<not> pPanic u)" using first by (auto simp: wp_def)
  have g: "grows s u" "good u" using u(2) growsD(1) by (auto simp: near_def)
  show ?thesis
  proof (cases d)
    case True
    then have "ahead s u" using u by (auto simp: near_def ahead_def)
    then show ?thesis using u(1) True by (simp add: vc)
  next
    case False
    then have e: "pErrors u \<noteq> []" using u(3) g(2) errors_of_panic by blast
    have "wp B n s (recover inBlock topLevel u) (\<lambda>w. grows s w \<and> pErrors w \<noteq> [])"
    proof (rule works_call [OF recover_works s(1) g(1), of 0])
      fix w assume "recover inBlock topLevel u = Some w" "grows u w"
      then show ?thesis using g(1) e growsD(5) grows_trans by (auto simp: wp_def)
    qed (use e in auto)
    then obtain w where w: "recover inBlock topLevel u = Some w" "grows s w" "pErrors w \<noteq> []" by (auto simp: wp_def)
    then show ?thesis using u(1) False mended [of s w go, OF w(2,3) go] by (simp add: Let_def)
  qed
qed

section \<open>Lookaheads\<close>

lemma solidFrom_funpow: "kindAt ts (solidFrom ts i n) \<noteq> Eof \<Longrightarrow> solidFrom ts i n = (nextSolid ts ^^ n) i"
proof (induction n arbitrary: i)
  case (Suc n)
  then show ?case by (auto simp: funpow_swap1 split: if_splits)
qed simp

lemma peek_token: "peek t n \<noteq> Eof \<Longrightarrow> tokenIndexAt t n = offsetOf t n"
  using solidFrom_funpow by (simp add: peek_def offsetOf_def tokenIndexAt_def)

lemma token_in_buffer: "peek t n = kind \<Longrightarrow> kind \<noteq> Eof \<Longrightarrow> \<exists>tk \<in> set (pToks t). tKind tk = kind \<and> tokenTextAt t (offsetOf t n) = tokenText (pBuf t) tk"
proof -
  assume "peek t n = kind" "kind \<noteq> Eof"
  then have "kindAt (pToks t) (offsetOf t n) = kind" "offsetOf t n < length (pToks t)"
    using kindAt_less by (auto simp: peek_def)
  then show ?thesis by (intro bexI [of _ "pToks t ! offsetOf t n"]) (simp_all add: kindAt_def tokenTextAt_def)
qed

text \<open>In a plain buffer that has a fact there is no \<open>with\<close>.\<close>

lemma fact_without_with:
  assumes "plain (pBuf t)" "atFactDecl t n"
  shows "peek t i \<noteq> Kw KwWith"
proof -
  obtain k where k: "peek t k = Identifier" "tokenTextAt t (tokenIndexAt t k) = ''fact''"
    using assms(2) by (auto simp: atFactDecl_def Let_def split: option.splits)
  then have "tokenTextAt t (offsetOf t k) = ''fact''" using peek_token [of t k] by simp
  with token_in_buffer [OF k(1)] obtain tk where tk: "tk \<in> set (pToks t)" "tKind tk = Identifier" "tokenText (pBuf t) tk = ''fact''"
    by auto
  then have "\<forall>tk \<in> set (pToks t). tKind tk \<noteq> Kw KwWith" using assms(1) unfolding plain_def by blast
  then show ?thesis using token_in_buffer [of t i "Kw KwWith"] by auto
qed

lemma factAhead:
  assumes "good t" "plain (pBuf t)"
  shows "atFactDecl t 0 \<Longrightarrow> wordAhead t \<and> pCur t \<noteq> Kw KwWith"
    "pCur t = Kw KwExport \<Longrightarrow> atFactDecl t 1 \<Longrightarrow> wordAhead t"
proof -
  assume a: "atFactDecl t 0"
  then have "pCur t \<noteq> Kw KwWith" using fact_without_with [OF assms(2) a, of 0] peek_zero [OF assms(1)] by simp
  then show "wordAhead t \<and> pCur t \<noteq> Kw KwWith"
    using a peek_zero [OF assms(1)] by (auto simp: atFactDecl_def wordAhead_def Let_def split: if_splits)
next
  assume a: "pCur t = Kw KwExport" "atFactDecl t 1"
  then show "wordAhead t" using fact_without_with [OF assms(2) a(2), of 1]
    by (auto simp: atFactDecl_def wordAhead_def Let_def split: if_splits)
qed

lemma ruleAhead:
  "good t \<Longrightarrow> atRuleDecl t 0 \<Longrightarrow> pCur t = Identifier" "atRuleDecl t 1 \<Longrightarrow> peek t 1 = Identifier"
  using peek_zero [of t] by (simp_all add: atRuleDecl_def)

lemma declAhead:
  "good t \<Longrightarrow> atTagDecl t 0 \<Longrightarrow> pCur t = Identifier" "good t \<Longrightarrow> atResourceDecl t 0 \<Longrightarrow> pCur t = Identifier"
  "atTagDecl t 1 \<Longrightarrow> peek t 1 = Identifier" "atResourceDecl t 1 \<Longrightarrow> peek t 1 = Identifier"
  by (auto simp: atTagDecl_def atResourceDecl_def cur_word) (simp_all add: atWord_def peek_def)

lemma wordAhead_rule: "good t \<Longrightarrow> atRuleDecl t 0 \<Longrightarrow> pCur t = Identifier \<and> wordAhead t"
  using ruleAhead(1) [of t] by (simp add: wordAhead_def)

lemma wordAhead_export:
  "pCur t = Kw KwExport \<Longrightarrow> atRuleDecl t (Suc 0) \<Longrightarrow> wordAhead t" "pCur t = Kw KwExport \<Longrightarrow> atTagDecl t (Suc 0) \<Longrightarrow> wordAhead t"
  "pCur t = Kw KwExport \<Longrightarrow> atResourceDecl t (Suc 0) \<Longrightarrow> wordAhead t"
  "good t \<Longrightarrow> plain (pBuf t) \<Longrightarrow> pCur t = Kw KwExport \<Longrightarrow> atFactDecl t (Suc 0) \<Longrightarrow> wordAhead t"
  using ruleAhead(2) [of t] declAhead(3,4) [of t] factAhead(2) [of t] by (simp_all add: wordAhead_def)

lemma wordAhead_decl: "good t \<Longrightarrow> atTagDecl t 0 \<Longrightarrow> wordAhead t" "good t \<Longrightarrow> atResourceDecl t 0 \<Longrightarrow> wordAhead t"
  using declAhead(1,2) [of t] by (simp_all add: wordAhead_def)

lemma factCur: "good t \<Longrightarrow> atFactDecl t 0 \<Longrightarrow> pCur t \<noteq> Pn p"
  using peek_zero [of t] by (auto simp: atFactDecl_def Let_def split: if_splits)

lemma grows_close_taller: "grows s u \<Longrightarrow> kind \<noteq> De ErrorNode \<Longrightarrow> mark s < mark u \<Longrightarrow> grows s (close (mark s) kind u)"
  using taller [of s u] growsD(4) [of s u] by (intro grows.node) auto

text \<open>An optional part, and what is known behind it.\<close>

definition optionally :: "bool \<Rightarrow> 'a option \<Rightarrow> 'a \<Rightarrow> 'a option" where
  "optionally c m t = (if c then m else Some t)"

lemma wp_optionally [vcg]:
  assumes "begun B n s" "keeps s t"
    and "c \<Longrightarrow> wp B n s m (\<lambda>u. keeps s u \<and> (near s t \<longrightarrow> near s u) \<and> (ahead s t \<longrightarrow> ahead s u))"
    and "\<And>u. came B s t u \<Longrightarrow> keeps s u \<Longrightarrow> near s t \<longrightarrow> near s u \<Longrightarrow> Q u"
  shows "wp B n s (optionally c m t) Q"
proof -
  have *: "came B s t u" if "keeps s u" "ahead s t \<longrightarrow> ahead s u" for u
    using that assms(1) growsD(1,2) [of s u] by (auto simp: came_def begun_def vc)
  show ?thesis
  proof (cases c)
    case True then show ?thesis using assms(3) assms(4) * by (fastforce simp: optionally_def wp_def)
  next
    case False then show ?thesis using assms(2,4) * by (simp add: optionally_def)
  qed
qed

context parser_rec
begin

section \<open>Blocks\<close>

lemma stmtListStep_vc:
  assumes "begun B (Suc N) s" "good s" "pBuf s = B"
  shows "wp B (Suc N) s (stmtListStep rec s) (\<lambda>v. grows s v \<and> (pCur v \<noteq> Pn RBrace \<and> pCur v \<noteq> Eof \<longrightarrow> ahead s v))"
proof -
  let ?m = "if pCur s = Pn Semi
    then Some (False, if kindAt (pToks s) (pPrev s) = Pn Semi then error ExtraSemicolon [] (pPos s) s else unexpected [Tok (Pn RBrace)] s)
    else if startsStmt (pCur s) then do { st \<leftarrow> rec EStmt s; Some (\<not> pPanic st, st) }
    else Some (False, unexpected [Tok (Pn RBrace)] s)"
  have "wp B (Suc N) s ?m (\<lambda>(d, u). near s u \<and> d = (\<not> pPanic u))"
    by (intro vcg) (use assms in \<open>simp_all add: vc\<close>)
  then have "wp B (Suc N) s (stmtListStep rec s) (\<lambda>v. grows s v \<and> (pCur v \<noteq> Eof \<and> pCur v \<noteq> Pn RBrace \<longrightarrow> ahead s v))"
    unfolding stmtListStep_def Let_def [of "pPos s"] using assms by (intro turn_vc) simp_all
  then show ?thesis by (rule wp_conseq) auto
qed

lemma parseStmtList_works: "works B (Suc N) anywhere grows (parseStmtList rec)"
  unfolding parseStmtList_def
  by (rule worksI, intro wp_basic(2,3), rule loop_grows, assumption, rule grows.start, assumption, rule stmtListStep_vc)
    (auto simp: came_def grows_close_taller)

lemmas stmtList_vc [vcg] = parseStmtList_works [THEN call_grows]

lemma parseStmtBlock_works: "works B N anywhere near (parseStmtBlock rec)"
  unfolding parseStmtBlock_def by (rule worksI, intro vcg) (simp_all add: vc)

lemmas stmtBlock_vc [vcg] = parseStmtBlock_works [THEN call_near]

lemma parseBlockExpr_works: "works B N anywhere near (parseBlockExpr rec)"
  unfolding parseBlockExpr_def by (rule worksI, intro vcg) (simp_all add: vc)

section \<open>Declarations\<close>

lemma wildcardName_works: "works B 0 (\<lambda>t. pCur t \<noteq> Eof) ahead wildcardName"
  unfolding wildcardName_def by (rule worksI, intro vcg) (simp_all add: vc)

lemmas wildcardName_vc [vcg] = wildcardName_works [THEN call_ahead]

lemma parseDataDecl_works: "works B N (\<lambda>t. pCur t \<noteq> Eof) ahead (parseDataDecl rec exported)"
  unfolding parseDataDecl_def by (rule worksI, intro vcg) (simp_all add: vc)

lemma typeDeclParams_works: "works B 0 anywhere (\<lambda>t x. near t (snd x)) typeDeclParams"
  unfolding typeDeclParams_def by (rule worksI, intro vcg) (simp_all add: vc eat_def)

lemmas typeDeclParams_vc [vcg] = typeDeclParams_works [THEN call_near2]

lemma parseTypeDeclRest_near [vcg]:
  "begun B N s \<Longrightarrow> grows s t \<Longrightarrow> good t \<Longrightarrow> m = mark s \<Longrightarrow> wp B N s (parseTypeDeclRest rec m t) (near s)"
  unfolding parseTypeDeclRest_def by (intro vcg) (simp_all add: vc, (elim disjE; simp add: vc)+)

lemma parseTypeDecl_works: "works B N anywhere near (parseTypeDecl rec)"
  unfolding parseTypeDecl_def by (rule worksI, intro vcg) (simp_all add: vc)

lemmas decl_vc [vcg] = parseDataDecl_works [THEN call_ahead] parseTypeDecl_works [THEN call_near]

lemma parseExportDecl_works: "works B N (\<lambda>t. pCur t \<noteq> Eof) ahead (parseExportDecl rec)"
  unfolding parseExportDecl_def by (rule worksI, intro vcg) (simp_all add: vc, (elim disjE; simp add: vc)+)

lemma parseTagDecl_works: "works B N wordAhead ahead (parseTagDecl rec)"
proof (rule worksI)
  fix t assume t: "begun B N t" "good t" "pBuf t = B" "wordAhead t"
  define u where "u = expectName (Pa IdentDef) (bump (eatOpt (Kw KwExport) t))"
  have "ahead t u" "good u" using t by (auto simp: u_def wordAhead_def vc split: if_splits)
  then show "wp B N t (parseTagDecl rec t) (ahead t)"
    unfolding parseTagDecl_def u_def [symmetric] using t(1) by (intro vcg) (simp_all add: vc typeParamsAhead_def)
qed

lemmas tagDecl_vc [vcg] = parseExportDecl_works [THEN call_ahead] parseTagDecl_works [THEN call_ahead]

section \<open>Rules and facts\<close>

lemma parseRuleBody_works: "works B (Suc N) anywhere near (parseRuleBody rec)"
  unfolding parseRuleBody_def by (rule worksI, intro vcg) (simp_all add: vc)

lemmas ruleBody_vc [vcg] = parseRuleBody_works [THEN call_near]

lemma declPrefix_keeps: "works B N anywhere keeps (declPrefix rec allowRest allowConstas)"
  unfolding declPrefix_def by (rule worksI, intro vcg) (simp_all add: vc)

lemmas declPrefix_vc [vcg] = declPrefix_keeps [where allowRest = True, THEN call_keeps]

text \<open>In a plain buffer the word of the declaration follows.\<close>

lemma declPrefix_word:
  "works B N (\<lambda>t. plain B \<longrightarrow> wordAhead t \<and> pCur t \<noteq> Kw KwWith) (\<lambda>t u. keeps t u \<and> (plain B \<longrightarrow> pCur u \<noteq> Eof)) (declPrefix rec False False)"
  unfolding declPrefix_def by (rule worksI, intro vcg) (simp_all add: vc wordAhead_def split: if_splits)

lemma declWord_vc [vcg]:
  assumes "begun B N s" "keeps s t" "plain B \<longrightarrow> wordAhead t \<and> pCur t \<noteq> Kw KwWith"
    and "\<And>u. came B s t u \<Longrightarrow> keeps s u \<Longrightarrow> plain B \<longrightarrow> pCur u \<noteq> Eof \<Longrightarrow> Q u"
  shows "wp B N s (declPrefix rec False False t) Q"
proof (rule works_call [OF declPrefix_word assms(1)])
  show "grows s t" using assms(2) by (simp add: vc)
  fix u assume u: "declPrefix rec False False t = Some u" "keeps t u \<and> (plain B \<longrightarrow> pCur u \<noteq> Eof)"
  then have "came B s t u" using assms(1,2) by (intro cameI) (simp_all add: vc)
  then show ?thesis using assms(2,4) u far_trans(5) by (auto simp: wp_def)
qed (use assms(3) in auto)

lemma parseRuleDeclRest_near [vcg]:
  "begun B N s \<Longrightarrow> keeps s t \<Longrightarrow> good t \<Longrightarrow> m = mark s \<Longrightarrow> wordAhead t \<Longrightarrow> pCur t \<noteq> Kw KwWith \<Longrightarrow>
   wp B N s (parseRuleDeclRest rec m t) (near s)"
  unfolding parseRuleDeclRest_def optionally_def [symmetric] by (intro vcg) (simp_all add: vc far_unchecked typeParamsAhead_def)

lemma frontMatter_none: "pCur t \<noteq> Pn At \<Longrightarrow> pCur t \<noteq> Pn Hash \<Longrightarrow> parseFrontMatter rec t = Some t"
  unfolding parseFrontMatter_def by (subst whileO.simps) simp

lemma parseRuleDecl_works:
  "works B N (\<lambda>t. pCur t \<noteq> Pn At \<and> pCur t \<noteq> Pn Hash \<and> pCur t \<noteq> Kw KwWith \<and> wordAhead t) near (parseRuleDecl rec)"
  unfolding parseRuleDecl_def by (rule worksI, subst frontMatter_none) (simp_all add: vc parseRuleDeclRest_near)

lemma parseFactPattern_works: "works B (Suc N) anywhere near (parseFactPattern rec)"
  unfolding parseFactPattern_def by (rule worksI, intro vcg) (simp_all add: vc)

lemmas factPattern_vc [vcg] = parseFactPattern_works [THEN call_near]

lemma parseFactCase_works: "works B N (\<lambda>t. pCur t \<noteq> Eof) ahead (parseFactCase rec)"
  unfolding parseFactCase_def by (rule worksI, intro vcg) (simp_all add: vc)

lemmas factCase_vc [vcg] = parseFactCase_works [THEN works_later]

lemma parseFactBody_works: "works B N anywhere near (parseFactBody rec)"
  unfolding parseFactBody_def by (rule worksI, intro vcg) (simp_all add: vc)

lemma parseFactClause_works: "works B N (\<lambda>t. pCur t \<noteq> Eof) ahead (parseFactClause rec)"
  unfolding parseFactClause_def by (rule worksI, intro vcg) (simp_all add: vc)

lemmas factParts_vc [vcg] = parseFactBody_works [THEN call_near] parseFactClause_works [THEN call_ahead]

lemma factClauses_works: "works B N anywhere keeps (factClauses rec)"
  unfolding factClauses_def by (rule worksI, intro vcg) (simp_all add: vc)

lemmas factClauses_vc [vcg] = factClauses_works [THEN call_keeps]

lemma parseFactDeclRest_near [vcg]:
  "begun B N s \<Longrightarrow> keeps s t \<Longrightarrow> good t \<Longrightarrow> m = mark s \<Longrightarrow> pBuf t = B \<Longrightarrow>
   plain B \<longrightarrow> wordAhead t \<and> pCur t \<noteq> Kw KwWith \<Longrightarrow> wp B N s (parseFactDeclRest rec m t) (near s)"
  unfolding parseFactDeclRest_def optionally_def [symmetric]
  by (intro vcg) (simp_all add: vc far_unchecked typeParamsAhead_def)

lemma parseFactDecl_works:
  "works B N (\<lambda>t. pCur t \<noteq> Pn At \<and> pCur t \<noteq> Pn Hash \<and> (plain B \<longrightarrow> wordAhead t \<and> pCur t \<noteq> Kw KwWith)) near (parseFactDecl rec)"
  unfolding parseFactDecl_def by (rule worksI, subst frontMatter_none) (simp_all add: vc parseFactDeclRest_near)

lemmas ruleFact_vc [vcg] = parseRuleDecl_works [THEN call_near] parseFactDecl_works [THEN call_near]

section \<open>Functions and annotated statements\<close>

lemma funcSignature_works: "works B N anywhere near (funcSignature rec)"
  unfolding funcSignature_def by (rule worksI, intro vcg) (simp_all add: vc typeParamsAhead_def)

lemma funcTail_works: "works B N anywhere keeps (funcTail rec)"
  unfolding funcTail_def optionally_def [symmetric] by (rule worksI, intro vcg) (simp_all add: vc)

lemmas funcParts_vc [vcg] = funcSignature_works [THEN call_near] funcTail_works [THEN call_keeps]

lemma parseFuncDeclRest_near [vcg]:
  "begun B N s \<Longrightarrow> keeps s t \<Longrightarrow> good t \<Longrightarrow> m = mark s \<Longrightarrow> pBuf t = B \<Longrightarrow> wp B N s (parseFuncDeclRest rec m t) (near s)"
  unfolding parseFuncDeclRest_def by (intro vcg) (simp_all add: vc wordAhead_rule)

lemma parseFuncDecl_works: "works B N anywhere near (parseFuncDecl rec)"
  unfolding parseFuncDecl_def by (rule worksI, intro vcg) (simp_all add: vc)

lemma parseAnnotatedStmt_works: "works B N anywhere near (parseAnnotatedStmt rec)"
  unfolding parseAnnotatedStmt_def
  by (rule worksI, intro vcg) (simp_all add: vc wordAhead_rule factAhead wordAhead_export)

lemma parseRetStmt_works: "works B N (\<lambda>t. pCur t \<noteq> Eof) ahead (parseRetStmt rec)"
  unfolding parseRetStmt_def by (rule worksI, intro vcg) (simp_all add: vc)

lemmas func_vc [vcg] =
  parseFuncDecl_works [THEN call_near] parseAnnotatedStmt_works [THEN call_near] parseRetStmt_works [THEN call_ahead]

section \<open>Statements and declarations\<close>

lemma parseStmt_works: "works B N anywhere near (parseStmt rec)"
  unfolding parseStmt_def by (rule worksI, intro vcg) (simp_all add: vc, (elim disjE; simp add: vc)+)

lemma namespaceStep_vc:
  assumes "begun B (Suc N) s" "good s" "pBuf s = B"
  shows "wp B (Suc N) s (namespaceStep rec s) (\<lambda>v. grows s v \<and> (pCur v \<noteq> Pn RBrace \<and> pCur v \<noteq> Eof \<longrightarrow> ahead s v))"
proof -
  let ?m = "if pCur s = Pn Semi then Some (False, error ExtraSemicolon [] (pPos s) s)
    else if startsDecl s (pCur s) then do { st \<leftarrow> rec EDecl s; Some (\<not> pPanic st, st) }
    else Some (False, unexpected [Declaration, Tok (Pn RBrace)] s)"
  have "wp B (Suc N) s ?m (\<lambda>(d, u). near s u \<and> d = (\<not> pPanic u))"
    by (intro vcg) (use assms in \<open>simp_all add: vc\<close>)
  then have "wp B (Suc N) s (namespaceStep rec s) (\<lambda>v. grows s v \<and> (pCur v \<noteq> Eof \<and> pCur v \<noteq> Pn RBrace \<longrightarrow> ahead s v))"
    unfolding namespaceStep_def Let_def [of "pPos s"] using assms by (intro turn_vc) simp_all
  then show ?thesis by (rule wp_conseq) auto
qed

lemma namespaceBody_works: "works B (Suc N) anywhere grows (namespaceBody rec)"
  unfolding namespaceBody_def
  by (rule worksI, rule loop_grows, assumption, simp add: vc, rule namespaceStep_vc) (auto simp: came_def)

lemmas namespaceBody_vc [vcg] = namespaceBody_works [THEN call_grows]

lemma parseNamespaceDecl_works: "works B N (\<lambda>t. pCur t \<noteq> Eof) ahead (parseNamespaceDecl rec)"
  unfolding parseNamespaceDecl_def by (rule worksI, intro vcg) (simp_all add: vc)

lemmas namespaceDecl_vc [vcg] = parseNamespaceDecl_works [THEN call_ahead]

lemma parseDecl_works: "works B N anywhere near (parseDecl rec)"
  unfolding parseDecl_def
  by (rule worksI, intro vcg) (simp_all add: vc factAhead factCur wordAhead_rule wordAhead_export wordAhead_decl, (elim disjE; simp add: vc)+)

lemmas entry_works =
  parseExpr_works parseLogicalOr_works parsePower_works parseNeg_works parseType_works parseBlockExpr_works
  parseStmt_works parseDecl_works

lemma parserStep_works: "works B N anywhere near (parserStep rec e)"
  unfolding parserStep_def by (cases e) (simp_all add: entry_works)

end

section \<open>The parser\<close>

text \<open>A recursion as deep as there are tokens behind the start is deep enough.\<close>

lemma parserRun_works: "length (bufTokens B) \<le> n + k \<Longrightarrow> works B n anywhere near (parserRun k e)"
proof (induction k arbitrary: n e)
  case 0
  then show ?case by (auto simp: works_def begun_def good_def)
next
  case (Suc k)
  have "parser_rec (parserRun k) B n" using Suc.IH [of "Suc n"] Suc.prems by unfold_locales simp
  then show ?case using parser_rec.parserStep_works by simp
qed

text \<open>The entry points give the recursion one more than the number of tokens.\<close>

interpretation whole: parser_rec "parserRun (length (bufTokens B))" B 0 for B
  by unfold_locales (simp add: parserRun_works)

lemma parser_works: "works B 0 anywhere near (parserRun (length (bufTokens B) + 1) e)"
  using whole.parserStep_works [of B e] by simp

lemma programStep_vc:
  assumes "begun B 0 s" "good s" "pBuf s = B" "works B 0 anywhere near (rec EDecl)"
  shows "wp B 0 s (programStep rec s) (\<lambda>v. grows s v \<and> (pCur v \<noteq> Eof \<longrightarrow> ahead s v))"
proof -
  let ?m = "if pCur s = Pn Semi then Some (False, error ExtraSemicolon [] (pPos s) s)
    else if startsDecl s (pCur s) \<or> atRuleDecl s 0 \<or> atFactDecl s 0 then do { st \<leftarrow> rec EDecl s; Some (\<not> pPanic st, st) }
    else Some (False, unexpected [Declaration, Tok Eof] s)"
  have "wp B 0 s ?m (\<lambda>(d, u). near s u \<and> d = (\<not> pPanic u))"
    by (intro vcg call_near [OF assms(4)]) (use assms in \<open>simp_all add: vc\<close>)
  then show ?thesis unfolding programStep_def Let_def [of "pPos s"] using assms by (intro turn_vc) simp_all
qed

text \<open>\<open>parseProgram\<close> reads to the end of the buffer and closes the root over what it has read and the end.\<close>

lemma parseProgram_run:
  assumes "begun B 0 s"
  shows "\<exists>t. parseProgram (parserRun (length (bufTokens B) + 1)) s = Some (close (mark s) (De Program) (pushToken t)) \<and>
    grows s t \<and> pCur t = Eof"
proof -
  let ?rec = "parserRun (length (bufTokens B) + 1)"
  have s: "good s" using assms by (simp add: begun_def)
  have "wp B 0 s (whileO (\<lambda>st. pCur st \<noteq> Eof) (programStep ?rec) (eatOpt (Pn Semi) s)) (\<lambda>t. grows s t \<and> pCur t = Eof)"
    by (rule loop_grows [OF assms], simp add: vc s, rule programStep_vc, assumption, assumption, assumption, rule parser_works)
      (simp add: came_def)
  then show ?thesis by (auto simp: wp_def parseProgram_def simp del: parserRun.simps)
qed

end
