(* ===== verification/Parser_Properties.thy ===== *)
theory Parser_Properties
  imports Parser_Forest Parser_Spec_Decl Lexer_Properties
begin

text \<open>
  What the parser promises (\<open>parser.h\<close>, \<open>cst.h\<close>): every source text has a tree, the tree holds every
  token once and in order, its arrays are well formed, nodes span what they hold, errors have a
  place, and recovery skips what it must into error nodes.
\<close>

section \<open>Supporting lemmas\<close>

lemma tokenize_bufOk:
  assumes "length source < 2 ^ 32"
  shows "bufOk (tokenize source)"
proof -
  obtain ts flags where ts: "bufTokens (tokenize source) = ts @ [\<lparr>tBegin = length source, tEnd = length source, tKind = Eof, tFlags = flags\<rparr>]"
    "Eof \<notin> tKind ` set ts"
    using tokenizeImpl_spec [of 0 "length source" source] assms by (auto simp: tokenize_def)
  then show ?thesis by (auto simp: bufOk_def intro: rev_image_eqI)
qed

lemma start_begun: "bufOk b \<Longrightarrow> begun b 0 (startParser b)"
  using skipTrivia_spec [of b 0] by (auto simp: begun_def good_def startParser_def Let_def bufOk_def)

lemma start_trivia: "bufOk b \<Longrightarrow> solidRange (bufTokens b) 0 (skipTrivia (bufTokens b) 0) = []"
  using skipTrivia_spec [of b 0] by (auto simp: solidRange_def filter_empty_conv bufOk_def)

lemma start_fields:
  "pNodes (startParser b) = []" "pChildren (startParser b) = []" "pStack (startParser b) = []" "pErrors (startParser b) = []"
  "pBuf (startParser b) = b" "pPos (startParser b) = skipTrivia (bufTokens b) 0"
  by (simp_all add: startParser_def Let_def)

lemma start_right:
  assumes "bufOk b"
  shows "wfState (startParser b)" "spansRight (startParser b)" "leavesRight (startParser b)" "nodesUnbroken (startParser b)"
    "cleanNodes (startParser b)"
  using start_trivia [OF assms]
  by (simp_all add: start_fields wellFormed_def older_def spansRight_def leavesRight_def nodesUnbroken_def cleanNodes_def forest_def)

text \<open>The end of a run of the parser: the root over the trees of the declarations and the end.\<close>

lemma parse_run:
  assumes "bufOk b"
  shows "\<exists>t. parseBuffer b = Some (treeOf (close 0 (De Program) (pushToken t))) \<and> grows (startParser b) t \<and> pCur t = Eof"
  using parseProgram_run [OF start_begun [OF assms]] by (auto simp: parseBuffer_def start_fields simp del: parserRun.simps)

text \<open>What the productions keep, for the state the root is closed in.\<close>

lemma parse_final:
  assumes "bufOk b" "parseBuffer b = Some tr"
  obtains t where "tr = treeOf (close 0 (De Program) (pushToken t))" "grows (startParser b) t" "pCur t = Eof"
    "wfState (pushToken t)" "spansRight (pushToken t)" "leavesRight t" "cleanNodes t" "pBuf t = b" "good t"
    "nodesUnbroken t"
proof -
  obtain t where t: "tr = treeOf (close 0 (De Program) (pushToken t))" "grows (startParser b) t" "pCur t = Eof"
    using parse_run [OF assms(1)] assms(2) by auto
  show ?thesis
  proof (rule that [OF t])
    show "wfState (pushToken t)" using grows_wf [OF t(2)] start_right [OF assms(1)] by simp
    show "spansRight (pushToken t)" using grows_spans [OF t(2)] start_right [OF assms(1)] by (simp add: spansRight_def)
    show "leavesRight t" using grows_leaves [OF t(2)] start_right [OF assms(1)] by simp
    show "cleanNodes t" using grows_clean [OF t(2)] start_right [OF assms(1)] by simp
    show "nodesUnbroken t" using grows_unbroken [OF t(2)] start_right [OF assms(1)] by simp
    show "pBuf t = b" "good t" using growsD(1,2) [OF t(2)] by (simp_all add: start_fields)
  qed
qed

lemma good_Eof: "good t \<Longrightarrow> pCur t = Eof \<Longrightarrow> length (pToks t) = Suc (pPos t)"
  using bufOk_Eof_iff [of "pBuf t" "pPos t"] by (auto simp: good_def)

lemma solidRange_end:
  assumes "good t" "pCur t = Eof"
  shows "solidRange (pToks t) 0 (length (pToks t)) = solidRange (pToks t) 0 (pPos t) @ [pPos t]"
  using good_Eof [OF assms] assms by (simp add: solidRange_def good_def)

lemma treeOf_root:
  "trRoot (treeOf (close 0 (De Program) u)) = Some (NodeChild (length (pNodes u)))"
  "trNodes (treeOf t) = pNodes t" "trChildren (treeOf t) = pChildren t" "trErrors (treeOf t) = pErrors t" "trBuf (treeOf t) = pBuf t"
  by (simp_all add: treeOf_def)

text \<open>The tree of a child of the tree.\<close>

abbreviation syn :: "Tree \<Rightarrow> Child \<Rightarrow> Syn" where
  "syn tr w \<equiv> synOf (trNodes tr) (trChildren tr) w"

lemma root_leaves:
  assumes "bufOk b" "parseBuffer b = Some tr"
  shows "\<exists>r k. trRoot tr = Some r \<and>
    leaves (syn tr r) = solidRange (bufTokens b) 0 (length (bufTokens b)) @ replicate k (length (bufTokens b) - 1) \<and>
    (0 < k \<longrightarrow> \<not> plain b)"
proof -
  obtain t where t: "tr = treeOf (close 0 (De Program) (pushToken t))" "pCur t = Eof" "wfState (pushToken t)" "leavesRight t"
    "pBuf t = b" "good t" using parse_final [OF assms] by metis
  have "syn tr (NodeChild (length (pNodes (pushToken t)))) = Branch (De Program) (forest t @ [Leaf (pPos t)])"
    unfolding t(1) treeOf_root using synOf_closed [OF t(3), of 0 "De Program"] by (simp add: forest_bump)
  moreover obtain k where k: "concat (map leaves (forest t)) = solidRange (pToks t) 0 (pPos t) @ replicate k (pPos t)" "0 < k \<longrightarrow> \<not> plain b"
    using t(4,5) by (auto simp: leavesRight_def)
  ultimately have "leaves (syn tr (NodeChild (length (pNodes (pushToken t))))) =
      (solidRange (pToks t) 0 (pPos t) @ [pPos t]) @ replicate k (pPos t)"
    by (simp add: replicate_app_Cons_same)
  then show ?thesis using k(2) good_Eof [OF t(6,2)] solidRange_end [OF t(6,2)] t(5) unfolding t(1) treeOf_root by auto
qed

text \<open>The text of a node is the text of its leaves.\<close>

lemma rangeText_leaves:
  "i + n \<le> length (bufTokens b) \<Longrightarrow>
   rangeText b i n = concat (map (\<lambda>k. tokenText b (bufTokens b ! k)) (solidRange (bufTokens b) i (i + n)))"
proof (induction n arbitrary: i)
  case (Suc n)
  have "[i ..< i + Suc n] = i # [i + 1 ..< i + 1 + n]" by (simp add: upt_conv_Cons)
  then have "solidRange (bufTokens b) i (i + Suc n) =
      (if isTrivia (tKind (bufTokens b ! i)) then [] else [i]) @ solidRange (bufTokens b) (i + 1) (i + 1 + n)"
    using Suc.prems by (simp add: solidRange_def kindAt_def)
  then show ?case using Suc by simp
qed simp

lemma node_leaves:
  assumes "bufOk b" "parseBuffer b = Some tr" "plain b" "c < length (trNodes tr)"
  shows "unbroken (bufTokens b) (leaves (syn tr (NodeChild c)))"
    "childSpan (trNodes tr) (NodeChild c) = spanList (leaves (syn tr (NodeChild c)))" "trBuf tr = b"
proof -
  obtain t where t: "tr = treeOf (close 0 (De Program) (pushToken t))" "wfState (pushToken t)" "spansRight (pushToken t)"
    "pBuf t = b" "nodesUnbroken t" using parse_final [OF assms(1,2)] by metis
  show "trBuf tr = b" using t(1,4) by (simp add: treeOf_root)
  show "childSpan (trNodes tr) (NodeChild c) = spanList (leaves (syn tr (NodeChild c)))"
    using spans_close [OF t(2,3), of 0 "De Program"] assms(4) unfolding t(1) treeOf_root by (simp add: spansRight_def)
  show "unbroken (bufTokens b) (leaves (syn tr (NodeChild c)))"
  proof (cases "c < length (pNodes t)")
    case True
    then show ?thesis using t(4,5) assms(3) synOf_close [OF t(2), of "NodeChild c" 0 "De Program"]
      unfolding t(1) treeOf_root by (simp add: nodesUnbroken_def)
  next
    case False
    then have "trRoot tr = Some (NodeChild c)" using assms(4) unfolding t(1) treeOf_root by (simp add: close_shapes(1) less_Suc_eq)
    then have "solidRange (bufTokens b) 0 (length (bufTokens b)) = [] @ leaves (syn tr (NodeChild c))"
      using root_leaves [OF assms(1,2)] assms(3) by auto
    then show ?thesis by (rule unbroken_suffix) simp
  qed
qed

lemma nodeText_leaves:
  assumes "bufOk b" "parseBuffer b = Some tr" "plain b" "c < length (trNodes tr)"
  shows "nodeText tr c = concat (map (\<lambda>k. tokenText b (bufTokens b ! k)) (leaves (syn tr (NodeChild c))))"
proof -
  let ?xs = "leaves (syn tr (NodeChild c))" and ?d = "trNodes tr ! c"
  note n = node_leaves [OF assms]
  show ?thesis
  proof (cases "?xs = []")
    case True
    then have "emptyNode ?d" using n(2) by (simp add: childSpan_def spanList_def split: if_splits)
    then show ?thesis using True by (simp add: nodeText_def)
  next
    case False
    then have d: "\<not> emptyNode ?d" "nFirstToken ?d = hd ?xs" "nLastToken ?d = last ?xs"
      using n(2) by (auto simp: childSpan_def spanList_def split: if_splits)
    have xs: "?xs = solidRange (bufTokens b) (hd ?xs) (Suc (last ?xs))" "last ?xs < length (bufTokens b)"
      using n(1) False by (auto simp: unbroken_def)
    then have "hd ?xs \<in> set (solidRange (bufTokens b) (hd ?xs) (Suc (last ?xs)))" using False by (metis hd_in_set)
    then have "hd ?xs \<le> last ?xs" by (simp add: solidRange_set)
    then show ?thesis
      using rangeText_leaves [of "hd ?xs" "Suc (last ?xs) - hd ?xs" b] d xs n(3) by (simp add: nodeText_def)
  qed
qed

section \<open>Errors\<close>

lemma angleError_token [simp]: "sToken (angleError e t) = sToken e"
  by (simp add: angleError_def split: option.split)

text \<open>The token an error is about: one the parser sees.\<close>

definition errorAt :: "Token list \<Rightarrow> SyntaxError \<Rightarrow> bool" where
  "errorAt ts e \<longleftrightarrow> sToken e < length ts \<and> \<not> isTrivia (tKind (ts ! sToken e))"

lemma grows_errors:
  "grows s t \<Longrightarrow> \<forall>e \<in> set (pErrors s). errorAt (pToks s) e \<Longrightarrow> \<forall>e \<in> set (pErrors t). errorAt (pToks t) e"
proof (induction rule: grows.induct)
  case (wrong t loc kind ex)
  then show ?case using growsD(1) [of s t] by (auto simp: errorAt_def error_def good_def kindAt_def split: if_splits)
next
  case (wrongAux t loc kind ex aux)
  then show ?case using growsD(1) [of s t] by (auto simp: errorAt_def errorAux_def error_def Let_def good_def kindAt_def split: if_splits)
qed simp_all

lemma errorAux_last: "pErrors (errorAux kind ex loc aux t) = [] \<longleftrightarrow> pErrors (error kind ex loc t) = []"
  by (auto simp: errorAux_def Let_def)

section \<open>Recovery\<close>






lemma wf_tokens: "wellFormed ns cs (st @ map TokenChild is) = wellFormed ns cs st"
proof (induction "is" rule: rev_induct)
  case (snoc i "is")
  then show ?case using wf_token [of ns cs "st @ map TokenChild is" i] by simp
qed simp




section \<open>The two places that take the end for a token, and a comprehension over a \<open>typeof\<close>\<close>

text \<open>\<open>parseStaticFor\<close> at the end of the text makes the end a child of the loop.\<close>

lemma static_for_takes_end:
  "pCur t = Eof \<Longrightarrow> parseStaticFor rec t = Some (close (mark t) (Ex StaticForExpr) (error Missing [Tok (Kw KwFor)] (pPos t) (bump t))) \<and>
   pStack (bump t) = pStack t @ [TokenChild (pPos t)]"
proof -
  assume e: "pCur t = Eof"
  have b: "pCur (bump t) = Eof" "pPos (bump t) = pPos t" using e by (simp_all add: bump_def advance_def Let_def)
  have "parseStaticForHeader rec (bump t) = Some (error Missing [Tok (Kw KwFor)] (pPos t) (bump t))"
    using b by (simp add: parseStaticForHeader_def expect_def)
  then show ?thesis by (simp add: parseStaticFor_def)
qed

text \<open>A \<open>typeof\<close> never heads a comprehension.\<close>

lemma typeof_heads_no_shape: "good t \<Longrightarrow> pCur t = Kw KwTypeof \<Longrightarrow> \<not> shapeCompAhead t"
proof -
  assume "good t" "pCur t = Kw KwTypeof"
  then have "kindAt (pToks t) (pPos t) = Kw KwTypeof" by (simp add: good_def)
  then have "\<not> shapeScan (pToks t) (Suc 1023) (pPos t) [] None"
    unfolding shapeScan.simps by (simp add: Let_def bracketCloser_def)
  then show ?thesis by (simp add: shapeCompAhead_def eval_nat_numeral)
qed

section \<open>An example\<close>

lemma example_buffer: "tokenize ''func f(){}'' =
   \<lparr>bufSource = ''func f(){}'',
    bufTokens =
      [\<lparr>tBegin = 0, tEnd = 4, tKind = Kw KwFunc, tFlags = 0\<rparr>, \<lparr>tBegin = 5, tEnd = 6, tKind = Identifier, tFlags = 1\<rparr>,
       \<lparr>tBegin = 6, tEnd = 7, tKind = Pn LParen, tFlags = 0\<rparr>, \<lparr>tBegin = 7, tEnd = 8, tKind = Pn RParen, tFlags = 0\<rparr>,
       \<lparr>tBegin = 8, tEnd = 9, tKind = Pn LBrace, tFlags = 0\<rparr>, \<lparr>tBegin = 9, tEnd = 10, tKind = Pn RBrace, tFlags = 0\<rparr>,
       \<lparr>tBegin = 10, tEnd = 10, tKind = Eof, tFlags = 0\<rparr>],
    bufErrors = [], bufInterpolations = [], bufLineStarts = [0]\<rparr>"
  by (simp add: tokenize_def lex_eval)

lemmas example_tokens = arg_cong [where f = bufTokens, OF example_buffer, simplified]

lemma example_errors: "map_option trErrors (parse ''func f(){}'') = Some []"
  unfolding parse_def example_buffer by code_simp

lemma skipTrivia_solid: "i < length ts \<Longrightarrow> \<not> isTrivia (tKind (ts ! i)) \<Longrightarrow> skipTrivia ts i = i"
  by (subst skipTrivia.simps) simp

lemma example_plain: "plain (tokenize ''func f(){}'')"
  unfolding plain_def example_tokens
  by (auto simp: less_Suc_eq kindAt_def nextSolid_def skipTrivia_solid isTrivia_def)

lemma solidRange_all: "\<forall>t \<in> set ts. \<not> isTrivia (tKind t) \<Longrightarrow> solidRange ts 0 (length ts) = [0 ..< length ts]"
  unfolding solidRange_def by (rule filter_True) (simp add: kindAt_def)

lemma example_leaves:
  "solidRange (bufTokens (tokenize ''func f(){}'')) 0 (length (bufTokens (tokenize ''func f(){}''))) = [0, 1, 2, 3, 4, 5, 6]"
proof -
  have "\<forall>t \<in> set (bufTokens (tokenize ''func f(){}'')). \<not> isTrivia (tKind t)" "length (bufTokens (tokenize ''func f(){}'')) = 7"
    unfolding example_tokens by (simp_all add: isTrivia_def)
  then have "solidRange (bufTokens (tokenize ''func f(){}'')) 0 (length (bufTokens (tokenize ''func f(){}''))) = [0 ..< 7]"
    using solidRange_all by metis
  then show ?thesis by (simp add: upt_rec)
qed

lemma tokenize_text: "bufSource (tokenize source) = source"
  by (simp add: tokenize_def)

section \<open>Properties\<close>

text \<open>
  C6. Parsing a source text always returns: the recursion depth the model gives the productions, one
  more than the number of tokens, is never used up, and none of the loops of the parser, of its
  lookaheads and of its error recovery runs forever, whatever the text is. The same holds of
  parsing one expression.
\<close>

theorem parse_total:
  assumes "length source < 2 ^ 32"
  shows "(\<exists>tr. parse source = Some tr) \<and> (\<exists>tr. parseExpression (tokenize source) = Some tr)"
proof
  note b = tokenize_bufOk [OF assms]
  show "\<exists>tr. parse source = Some tr" using parse_run [OF b] by (auto simp: parse_def)
  have "wp (tokenize source) 0 (startParser (tokenize source))
      (parserRun (length (bufTokens (tokenize source)) + 1) EExpr (startParser (tokenize source))) (near (startParser (tokenize source)))"
    using parser_works start_begun [OF b] unfolding works_def by blast
  then show "\<exists>tr. parseExpression (tokenize source) = Some tr" by (auto simp: parseExpression_def wp_def simp del: parserRun.simps)
qed

theorem parse_total_witness:
  "(\<exists>tr. parse ''let = = {'' = Some tr) \<and> (\<exists>tr. parseExpression (tokenize ''let = = {'') = Some tr)"
  by (rule parse_total) simp

text \<open>
  C3. The tree is lossless: its leaves, from left to right, are the tokens of the buffer that are not
  trivia, every one of them once and in order, the end of the text last. In a buffer that is not
  plain the end can be a leaf more than once, and no other token can.
\<close>

theorem parse_lossless:
  assumes "length source < 2 ^ 32"
  shows "\<exists>tr r k. parse source = Some tr \<and> trRoot tr = Some r \<and> trBuf tr = tokenize source \<and>
    leaves (syn tr r) = solidRange (bufTokens (tokenize source)) 0 (length (bufTokens (tokenize source))) @
      replicate k (length (bufTokens (tokenize source)) - 1) \<and>
    (plain (tokenize source) \<longrightarrow> k = 0)"
proof -
  note b = tokenize_bufOk [OF assms]
  obtain t where t: "parseBuffer (tokenize source) = Some (treeOf (close 0 (De Program) (pushToken t)))" "grows (startParser (tokenize source)) t"
    using parse_run [OF b] by blast
  then have "trBuf (treeOf (close 0 (De Program) (pushToken t))) = tokenize source"
    using growsD(2) [OF t(2)] by (simp add: treeOf_root start_fields)
  then show ?thesis using root_leaves [OF b t(1)] t(1) by (auto simp: parse_def)
qed

theorem parse_lossless_witness:
  "\<exists>tr r. parse ''func f(){}'' = Some tr \<and> trRoot tr = Some r \<and> leaves (syn tr r) = [0, 1, 2, 3, 4, 5, 6]"
proof -
  have "length ''func f(){}'' < 2 ^ 32" by simp
  from parse_lossless [OF this] example_plain show ?thesis unfolding example_leaves by auto
qed

text \<open>
  C10. The arrays of the tree are well formed: the children of a node are nodes that were closed before
  it, the child array is the children of the nodes one after the other, every node but the root is
  the child of exactly one node, which is the one it names as its parent, and the root, which is the
  last node, has none.
\<close>

theorem parse_tree_wellformed:
  assumes "length source < 2 ^ 32"
  shows "\<exists>tr n. parse source = Some tr \<and> length (trNodes tr) = Suc n \<and> trRoot tr = Some (NodeChild n) \<and>
    nKind (trNodes tr ! n) = De Program \<and> wellFormed (trNodes tr) (trChildren tr) [NodeChild n]"
proof -
  note b = tokenize_bufOk [OF assms]
  obtain tr where tr: "parseBuffer (tokenize source) = Some tr" using parse_run [OF b] by blast
  then obtain t where t: "tr = treeOf (close 0 (De Program) (pushToken t))" "wfState (pushToken t)" using parse_final [OF b] by metis
  have "wellFormed (trNodes tr) (trChildren tr) [NodeChild (length (pNodes t))]"
    using wf_close [OF t(2), of 0 "De Program"] unfolding t(1) treeOf_root by simp
  moreover have "nKind (trNodes tr ! length (pNodes t)) = De Program"
    using close_last [of 0 "De Program" "pushToken t"] unfolding t(1) treeOf_root by (simp add: closedNode_def)
  moreover have "length (trNodes tr) = Suc (length (pNodes t))" "trRoot tr = Some (NodeChild (length (pNodes t)))"
    unfolding t(1) treeOf_root by (simp_all add: close_shapes(1))
  ultimately show ?thesis using tr unfolding parse_def by blast
qed

theorem parse_tree_wellformed_witness:
  "\<exists>tr n. parse ''func f( {}'' = Some tr \<and> length (trNodes tr) = Suc n \<and> trRoot tr = Some (NodeChild n) \<and>
    nKind (trNodes tr ! n) = De Program \<and> wellFormed (trNodes tr) (trChildren tr) [NodeChild n]"
  by (rule parse_tree_wellformed) simp

text \<open>
  C15. The span of a node and its text: in a plain buffer a node without tokens is marked as empty, the
  first and the last token of every other node are its first and its last leaf, its leaves are all
  the tokens between them, and its text is the text of its leaves one after the other.
\<close>

theorem parse_node_text:
  assumes "length source < 2 ^ 32" "plain (tokenize source)" "parse source = Some tr" "c < length (trNodes tr)"
  shows "childSpan (trNodes tr) (NodeChild c) =
      (if leaves (syn tr (NodeChild c)) = [] then None
       else Some (hd (leaves (syn tr (NodeChild c))), last (leaves (syn tr (NodeChild c))))) \<and>
    (leaves (syn tr (NodeChild c)) \<noteq> [] \<longrightarrow>
       leaves (syn tr (NodeChild c)) =
         solidRange (bufTokens (tokenize source)) (nFirstToken (trNodes tr ! c)) (Suc (nLastToken (trNodes tr ! c)))) \<and>
    nodeText tr c = concat (map (\<lambda>k. tokenText (tokenize source) (bufTokens (tokenize source) ! k)) (leaves (syn tr (NodeChild c))))"
proof -
  have p: "parseBuffer (tokenize source) = Some tr" using assms(3) by (simp add: parse_def)
  note n = node_leaves [OF tokenize_bufOk [OF assms(1)] p assms(2,4)]
  have "leaves (syn tr (NodeChild c)) = solidRange (bufTokens (tokenize source)) (nFirstToken (trNodes tr ! c)) (Suc (nLastToken (trNodes tr ! c)))"
    if "leaves (syn tr (NodeChild c)) \<noteq> []"
    using n(1,2) that by (auto simp: unbroken_def spanList_def childSpan_def split: if_splits)
  then show ?thesis using n(2) nodeText_leaves [OF tokenize_bufOk [OF assms(1)] p assms(2,4)] by (simp add: spanList_def)
qed

theorem parse_node_text_witness:
  "\<exists>tr n. parse ''func f(){}'' = Some tr \<and> trRoot tr = Some (NodeChild n) \<and> nodeText tr n = ''funcf(){}'' \<and>
    childSpan (trNodes tr) (NodeChild n) = Some (0, 6)"
proof -
  let ?b = "tokenize ''func f(){}''"
  have b: "bufOk ?b" by (rule tokenize_bufOk) simp
  obtain t where t: "parseBuffer ?b = Some (treeOf (close 0 (De Program) (pushToken t)))" using parse_run [OF b] by blast
  define tr where "tr = treeOf (close 0 (De Program) (pushToken t))"
  define n where "n = length (pNodes t)"
  have p: "parse ''func f(){}'' = Some tr" using t by (simp add: parse_def tr_def)
  have r: "trRoot tr = Some (NodeChild n)" "n < length (trNodes tr)" by (simp_all add: tr_def n_def treeOf_root close_shapes(1))
  have l: "leaves (syn tr (NodeChild n)) = [0, 1, 2, 3, 4, 5, 6]"
    using root_leaves [OF b, of tr] r(1) p example_plain unfolding example_leaves by (auto simp: parse_def)
  show ?thesis
    using parse_node_text [OF _ example_plain p r(2)] p r(1) unfolding l
    by (intro exI [of _ tr] exI [of _ n]) (simp add: example_tokens tokenText_def tokenize_text)
qed

text \<open>
  C33. Without an error there is no trace of one: when no error was reported, no node of the tree is an
  error node and no node is without tokens.
\<close>

theorem parse_clean:
  assumes "length source < 2 ^ 32"
  shows "\<exists>tr. parse source = Some tr \<and>
    (trErrors tr = [] \<longrightarrow> (\<forall>c < length (trNodes tr). nKind (trNodes tr ! c) \<noteq> De ErrorNode \<and> \<not> emptyNode (trNodes tr ! c)))"
proof -
  note b = tokenize_bufOk [OF assms]
  obtain tr where tr: "parseBuffer (tokenize source) = Some tr" using parse_run [OF b] by blast
  then obtain t where t: "tr = treeOf (close 0 (De Program) (pushToken t))" "grows (startParser (tokenize source)) t" "cleanNodes t"
    using parse_final [OF b] by metis
  have e: "emptyNode (pNodes (close 0 (De Program) (pushToken t)) ! c) = emptyNode (pNodes t ! c)" if "c < length (pNodes t)" for c
    using that emptyNode_close [of c "pushToken t" 0 "De Program"] by simp
  have r: "\<not> emptyNode (closedNode (pushToken t) 0 (De Program))"
    by (simp add: emptyNode_closed solidAbove_def)
  have "nKind (trNodes tr ! c) \<noteq> De ErrorNode \<and> \<not> emptyNode (trNodes tr ! c)" if "trErrors tr = []" "c < length (trNodes tr)" for c
    using that t(3) e [of c] r close_shapes(2) [of c "pushToken t" 0 "De Program"] close_last [of 0 "De Program" "pushToken t"]
    unfolding t(1) treeOf_root by (cases "c < length (pNodes t)") (auto simp: cleanNodes_def close_shapes(1) less_Suc_eq closedNode_def)
  then show ?thesis using tr by (auto simp: parse_def)
qed

theorem parse_clean_witness:
  "\<exists>tr. parse ''func f(){}'' = Some tr \<and> trErrors tr = [] \<and>
    list_all (\<lambda>d. nKind d \<noteq> De ErrorNode \<and> \<not> emptyNode d) (trNodes tr)"
proof -
  have "length ''func f(){}'' < 2 ^ 32" by simp
  from parse_clean [OF this] show ?thesis using example_errors by (auto simp: list_all_length)
qed

text \<open>
  C38. Every error of a parse is about a token of the buffer that is not trivia, so it has a place in the
  source text; the end of the text is such a token.
\<close>

theorem parse_errors_in_range:
  assumes "length source < 2 ^ 32"
  shows "\<exists>tr. parse source = Some tr \<and> (\<forall>e \<in> set (trErrors tr). errorAt (bufTokens (tokenize source)) e)"
proof -
  note b = tokenize_bufOk [OF assms]
  obtain t where t: "parseBuffer (tokenize source) = Some (treeOf (close 0 (De Program) (pushToken t)))" "grows (startParser (tokenize source)) t"
    using parse_run [OF b] by blast
  have "\<forall>e \<in> set (pErrors t). errorAt (pToks t) e" by (rule grows_errors [OF t(2)]) (simp add: start_fields)
  then show ?thesis using t(1) growsD(2) [OF t(2)] by (simp add: parse_def treeOf_root start_fields)
qed

theorem parse_errors_in_range_witness:
  "\<exists>tr. parse ''let = 1'' = Some tr \<and> list_all (errorAt (bufTokens (tokenize ''let = 1''))) (trErrors tr)"
  using parse_errors_in_range [of "''let = 1''"] by (simp add: list_all_iff)

text \<open>
  C24. What the parser builds in its arrays is a stack of trees: taking a token puts a leaf on it, closing
  a node replaces everything above its mark by one branch with these trees as its children, in
  order, marking a name as a pack changes no tree, and the arrays stay well formed.
\<close>

theorem building_refines:
  assumes "wfState t" "m \<le> mark t"
  shows "forest (bump t) = forest t @ [Leaf (pPos t)] \<and> wfState (bump t) \<and>
    forest (close m kind t) = take m (forest t) @ [Branch kind (drop m (forest t))] \<and> wfState (close m kind t) \<and>
    forest (markNameAsPack m t) = forest t \<and> wfState (markNameAsPack m t)"
  using assms forest_close wf_close forest_pack wf_pack by (simp add: forest_bump)

theorem building_refines_witness:
  "forest (close 1 (Pa IdentDef) (bump (bump (startParser (tokenize ''func f(){}''))))) =
     take 1 (forest (bump (bump (startParser (tokenize ''func f(){}''))))) @
     [Branch (Pa IdentDef) (drop 1 (forest (bump (bump (startParser (tokenize ''func f(){}''))))))]"
proof -
  have "wfState (startParser (tokenize ''func f(){}''))" by (rule start_right, rule tokenize_bufOk) simp
  then have "wfState (bump (bump (startParser (tokenize ''func f(){}''))))"
    using wf_tokens [of _ _ _ "[_, _]"] by simp
  then show ?thesis using building_refines [of "bump (bump (startParser (tokenize ''func f(){}'')))" 1] by simp
qed






end
