(* ===== verification/Ordered_Entries.thy ===== *)
theory Ordered_Entries
  imports Prelude
begin

text \<open>
  What an ordered collection promises, before any tree: entries in strictly ascending key order
  under a three-way comparison, lookup, insertion and deletion on such entries. The locale
  \<open>three_way\<close> states the contract of a comparison function (a total preorder); everything a
  client of the order needs is proved once in it. The tree of \<open>Map\<close> and \<open>Set\<close> refines these
  functions; the order of keys (\<open>compareKeys\<close>) interprets the locale.
\<close>

section \<open>Entries in key order\<close>

type_synonym ('k, 'v) entries = "('k \<times> 'v) list"

definition ascending :: "('k \<Rightarrow> 'k \<Rightarrow> int) \<Rightarrow> 'k list \<Rightarrow> bool" where
  "ascending cmp ks = sorted_wrt (\<lambda>a b. cmp a b < 0) ks"

fun findEntry :: "('k \<Rightarrow> 'k \<Rightarrow> int) \<Rightarrow> 'k \<Rightarrow> ('k, 'v) entries \<Rightarrow> 'v option" where
  "findEntry cmp k [] = None"
| "findEntry cmp k (e # es) = (if cmp (fst e) k = 0 then Some (snd e) else findEntry cmp k es)"

fun insertEntry :: "('k \<Rightarrow> 'k \<Rightarrow> int) \<Rightarrow> 'k \<Rightarrow> 'v \<Rightarrow> ('k, 'v) entries \<Rightarrow> ('k, 'v) entries" where
  "insertEntry cmp k v [] = [(k, v)]"
| "insertEntry cmp k v (e # es) =
     (if cmp (fst e) k < 0 then e # insertEntry cmp k v es
      else if cmp (fst e) k = 0 then (fst e, v) # es
      else (k, v) # e # es)"

definition deleteEntry :: "('k \<Rightarrow> 'k \<Rightarrow> int) \<Rightarrow> 'k \<Rightarrow> ('k, 'v) entries \<Rightarrow> ('k, 'v) entries" where
  "deleteEntry cmp k es = filter (\<lambda>e. cmp (fst e) k \<noteq> 0) es"

text \<open>The operations on two lists of entries, in one pass over both.\<close>

fun mergeEntries :: "('k \<Rightarrow> 'k \<Rightarrow> int) \<Rightarrow> ('k, 'v) entries \<Rightarrow> ('k, 'v) entries \<Rightarrow> ('k, 'v) entries" where
  "mergeEntries cmp [] ys = ys"
| "mergeEntries cmp xs [] = xs"
| "mergeEntries cmp (x # xs) (y # ys) =
     (if cmp (fst x) (fst y) < 0 then x # mergeEntries cmp xs (y # ys)
      else if cmp (fst x) (fst y) = 0 then y # mergeEntries cmp xs ys
      else y # mergeEntries cmp (x # xs) ys)"

fun intersectEntries :: "('k \<Rightarrow> 'k \<Rightarrow> int) \<Rightarrow> ('k, 'v) entries \<Rightarrow> ('k, 'v) entries \<Rightarrow> ('k, 'v) entries" where
  "intersectEntries cmp (x # xs) (y # ys) =
     (if cmp (fst x) (fst y) < 0 then intersectEntries cmp xs (y # ys)
      else if cmp (fst x) (fst y) = 0 then x # intersectEntries cmp xs ys
      else intersectEntries cmp (x # xs) ys)"
| "intersectEntries cmp xs ys = []"

fun differenceEntries :: "('k \<Rightarrow> 'k \<Rightarrow> int) \<Rightarrow> ('k, 'v) entries \<Rightarrow> ('k, 'v) entries \<Rightarrow> ('k, 'v) entries" where
  "differenceEntries cmp [] ys = []"
| "differenceEntries cmp xs [] = xs"
| "differenceEntries cmp (x # xs) (y # ys) =
     (if cmp (fst x) (fst y) < 0 then x # differenceEntries cmp xs (y # ys)
      else if cmp (fst x) (fst y) = 0 then differenceEntries cmp xs ys
      else differenceEntries cmp (x # xs) ys)"

fun subsetEntries :: "('k \<Rightarrow> 'k \<Rightarrow> int) \<Rightarrow> ('k, 'v) entries \<Rightarrow> ('k, 'v) entries \<Rightarrow> bool" where
  "subsetEntries cmp [] ys = True"
| "subsetEntries cmp (x # xs) [] = False"
| "subsetEntries cmp (x # xs) (y # ys) =
     (if cmp (fst y) (fst x) < 0 then subsetEntries cmp (x # xs) ys
      else if cmp (fst y) (fst x) = 0 then subsetEntries cmp xs ys
      else False)"

lemma ascending_simps [simp]:
  "ascending cmp []" "ascending cmp (a # ks) \<longleftrightarrow> (\<forall>b \<in> set ks. cmp a b < 0) \<and> ascending cmp ks"
  "ascending cmp (xs @ ys) \<longleftrightarrow> ascending cmp xs \<and> ascending cmp ys \<and> (\<forall>a \<in> set xs. \<forall>b \<in> set ys. cmp a b < 0)"
  by (auto simp: ascending_def sorted_wrt_append)

lemma ascending_nth: "ascending cmp ks \<Longrightarrow> i < j \<Longrightarrow> j < length ks \<Longrightarrow> cmp (ks ! i) (ks ! j) < 0"
  by (auto simp: ascending_def intro: sorted_wrt_nth_less)

lemma ascending_filter: "ascending cmp (map fst es) \<Longrightarrow> ascending cmp (map fst (filter P es))"
  by (induction es) auto

lemma findEntry_append [simp]:
  "findEntry cmp k (xs @ ys) = (case findEntry cmp k xs of None \<Rightarrow> findEntry cmp k ys | Some v \<Rightarrow> Some v)"
  by (induction xs) auto

lemma findEntry_None_iff: "findEntry cmp k es = None \<longleftrightarrow> (\<forall>e \<in> set es. cmp (fst e) k \<noteq> 0)"
  by (induction es) auto

lemma findEntry_skip: "\<forall>e \<in> set xs. cmp (fst e) k \<noteq> 0 \<Longrightarrow> findEntry cmp k (xs @ ys) = findEntry cmp k ys"
  by (simp add: findEntry_None_iff [symmetric])

lemma insertEntry_skip:
  "\<forall>e \<in> set xs. cmp (fst e) k < 0 \<Longrightarrow> insertEntry cmp k v (xs @ ys) = xs @ insertEntry cmp k v ys"
  by (induction xs) auto

lemma insertEntry_stop:
  "\<forall>e \<in> set ys. 0 < cmp (fst e) k \<Longrightarrow> insertEntry cmp k v (xs @ ys) = insertEntry cmp k v xs @ ys"
  by (induction xs) (cases ys; auto)+

lemma insertEntry_keys: "fst ` set (insertEntry cmp k v es) \<subseteq> insert k (fst ` set es)"
  by (induction es) auto

lemma insertEntry_nonempty [simp]: "insertEntry cmp k v es \<noteq> []"
  by (cases es) auto

lemma length_insertEntry: "length (insertEntry cmp k v es) \<le> Suc (length es)" "length es \<le> length (insertEntry cmp k v es)"
  by (induction es) auto

lemma deleteEntry_append [simp]: "deleteEntry cmp k (xs @ ys) = deleteEntry cmp k xs @ deleteEntry cmp k ys"
  by (simp add: deleteEntry_def)

lemma deleteEntry_id: "\<forall>e \<in> set xs. cmp (fst e) k \<noteq> 0 \<Longrightarrow> deleteEntry cmp k xs = xs"
  by (simp add: deleteEntry_def filter_id_conv)

lemma length_deleteEntry: "length (deleteEntry cmp k es) \<le> length es"
  by (simp add: deleteEntry_def)

section \<open>Three-way comparison\<close>

locale three_way =
  fixes cmp :: "'k \<Rightarrow> 'k \<Rightarrow> int"
  assumes cmp_sym: "cmp b a = - cmp a b"
    and cmp_le_trans: "cmp a b \<le> 0 \<Longrightarrow> cmp b c \<le> 0 \<Longrightarrow> cmp a c \<le> 0"
begin

lemma cmp_refl: "cmp a a = 0"
  using cmp_sym [of a a] by simp

lemma cmp_less_le: "cmp a b < 0 \<Longrightarrow> cmp b c \<le> 0 \<Longrightarrow> cmp a c < 0"
proof (rule ccontr)
  assume "cmp a b < 0" "cmp b c \<le> 0" "\<not> cmp a c < 0"
  then have "cmp c a \<le> 0" using cmp_sym [of c a] by simp
  then have "cmp b a \<le> 0" using cmp_le_trans [OF \<open>cmp b c \<le> 0\<close>] by blast
  then show False using \<open>cmp a b < 0\<close> cmp_sym [of b a] by simp
qed

lemma cmp_le_less: "cmp a b \<le> 0 \<Longrightarrow> cmp b c < 0 \<Longrightarrow> cmp a c < 0"
proof (rule ccontr)
  assume "cmp a b \<le> 0" "cmp b c < 0" "\<not> cmp a c < 0"
  then have "cmp c a \<le> 0" using cmp_sym [of c a] by simp
  then have "cmp c b \<le> 0" using cmp_le_trans \<open>cmp a b \<le> 0\<close> by blast
  then show False using \<open>cmp b c < 0\<close> cmp_sym [of c b] by simp
qed

lemma cmp_less_trans: "cmp a b < 0 \<Longrightarrow> cmp b c < 0 \<Longrightarrow> cmp a c < 0"
  using cmp_less_le by fastforce

lemma cmp_eq_sym: "cmp a b = 0 \<Longrightarrow> cmp b a = 0"
  using cmp_sym [of a b] by simp

lemma cmp_eq_left: "cmp a b = 0 \<Longrightarrow> cmp a c = 0 \<longleftrightarrow> cmp b c = 0"
  using cmp_le_trans [of a b c] cmp_le_trans [of b a c] cmp_le_trans [of c b a] cmp_le_trans [of c a b]
    cmp_sym [of a b] cmp_sym [of a c] cmp_sym [of b c] by linarith

lemma cmp_less_left: "cmp a b = 0 \<Longrightarrow> cmp a c < 0 \<longleftrightarrow> cmp b c < 0"
  using cmp_le_less [of a b c] cmp_le_less [of b a c] cmp_sym [of a b] by auto

lemma cmp_less_right: "cmp a b = 0 \<Longrightarrow> cmp c a < 0 \<longleftrightarrow> cmp c b < 0"
  using cmp_less_le [of c a b] cmp_less_le [of c b a] cmp_sym [of a b] by auto

lemma cmp_pos: "0 < cmp a b \<longleftrightarrow> cmp b a < 0"
  using cmp_sym [of a b] by auto

lemma insertEntry_asc: "ascending cmp (map fst es) \<Longrightarrow> ascending cmp (map fst (insertEntry cmp k v es))"
proof (induction es)
  case (Cons e es)
  have k: "cmp k (fst e) < 0 \<Longrightarrow> b \<in> set (map fst es) \<Longrightarrow> cmp k b < 0" for b
    using Cons.prems cmp_less_trans by auto
  have "\<forall>b \<in> set (map fst (insertEntry cmp k v es)). cmp (fst e) b < 0" if "cmp (fst e) k < 0"
  proof
    fix b assume "b \<in> set (map fst (insertEntry cmp k v es))"
    then have "b = k \<or> b \<in> set (map fst es)" using insertEntry_keys [of cmp k v es] by auto
    then show "cmp (fst e) b < 0" using that Cons.prems by auto
  qed
  then show ?case using Cons k cmp_sym [of k "fst e"] by auto
qed simp

lemma findEntry_insert:
  assumes "ascending cmp (map fst es)"
  shows "findEntry cmp k' (insertEntry cmp k v es) = (if cmp k k' = 0 then Some v else findEntry cmp k' es)"
  using assms
proof (induction es)
  case (Cons e es)
  show ?case
  proof (cases "cmp (fst e) k < 0")
    case True
    have "cmp (fst e) k' \<noteq> 0" if "cmp k k' = 0"
      using True cmp_less_right [OF that, of "fst e"] by simp
    then show ?thesis using Cons True by auto
  next
    case False
    have "findEntry cmp k' es = None" if "cmp k k' = 0" "0 < cmp (fst e) k \<or> cmp (fst e) k = 0"
    proof -
      have "cmp k (fst e) \<le> 0" using that(2) cmp_sym [of k "fst e"] by auto
      then have "\<forall>x \<in> set es. cmp k (fst x) < 0" using Cons.prems cmp_le_less by auto
      then have "\<forall>x \<in> set es. cmp k' (fst x) < 0" using cmp_less_left [OF that(1)] by blast
      then have "\<forall>x \<in> set es. 0 < cmp (fst x) k'" using cmp_pos by blast
      then show ?thesis unfolding findEntry_None_iff by force
    qed
    then show ?thesis using False cmp_eq_left [of "fst e" k k'] by (auto simp: not_less)
  qed
qed simp

lemma findEntry_delete:
  "findEntry cmp k' (deleteEntry cmp k es) = (if cmp k k' = 0 then None else findEntry cmp k' es)"
proof (induction es)
  case (Cons e es)
  have "cmp k k' = 0 \<Longrightarrow> cmp (fst e) k' = 0 \<longleftrightarrow> cmp (fst e) k = 0"
    using cmp_eq_left [of k k' "fst e"] cmp_eq_sym by blast
  moreover have "cmp (fst e) k = 0 \<Longrightarrow> cmp (fst e) k' = 0 \<longleftrightarrow> cmp k k' = 0"
    using cmp_eq_left by blast
  ultimately show ?case using Cons by (auto simp: deleteEntry_def)
qed (simp add: deleteEntry_def)

lemma findEntry_cong: "cmp k k' = 0 \<Longrightarrow> findEntry cmp k es = findEntry cmp k' es"
proof (induction es)
  case (Cons e es)
  have "cmp (fst e) k = 0 \<longleftrightarrow> cmp (fst e) k' = 0"
    using cmp_eq_left [OF Cons.prems, of "fst e"] cmp_eq_sym by blast
  then show ?case using Cons by simp
qed simp

lemma findEntry_mem:
  assumes "ascending cmp (map fst es)" "(k, v) \<in> set es"
  shows "findEntry cmp k es = Some v"
  using assms
proof (induction es)
  case (Cons e es)
  show ?case
  proof (cases "e = (k, v)")
    case True then show ?thesis by (simp add: cmp_refl)
  next
    case False
    then have "cmp (fst e) k < 0" using Cons.prems by force
    then show ?thesis using Cons False by simp
  qed
qed simp

lemma findEntry_Some_mem: "findEntry cmp k es = Some v \<Longrightarrow> \<exists>k'. (k', v) \<in> set es \<and> cmp k' k = 0"
  by (induction es) (auto split: if_splits intro: prod.collapse)

end

section \<open>Two lists of entries\<close>

lemma mergeEntries_Nil [simp]: "mergeEntries cmp xs [] = xs" by (cases xs) auto
lemma differenceEntries_Nil [simp]: "differenceEntries cmp xs [] = xs" by (cases xs) auto

lemma mergeEntries_set: "set (mergeEntries cmp xs ys) \<subseteq> set xs \<union> set ys"
  by (induction cmp xs ys rule: mergeEntries.induct) auto

lemma length_mergeEntries: "length (mergeEntries cmp xs ys) \<le> length xs + length ys"
  by (induction cmp xs ys rule: mergeEntries.induct) auto

lemma two_lists_induct:
  assumes "\<And>ys. P [] ys" "\<And>x xs. P (x # xs) []"
    and "\<And>x xs y ys. P xs (y # ys) \<Longrightarrow> P xs ys \<Longrightarrow> P (x # xs) ys \<Longrightarrow> P (x # xs) (y # ys)"
  shows "P xs ys"
proof (induction xs arbitrary: ys)
  case (Cons x xs)
  show ?case by (induction ys) (use assms Cons in auto)
qed (rule assms(1))

context three_way
begin

lemma less_all: "ascending cmp (map fst (y # ys)) \<Longrightarrow> cmp a (fst y) < 0 \<Longrightarrow> e \<in> set (y # ys) \<Longrightarrow> cmp a (fst e) < 0"
  using cmp_less_trans by auto

lemma le_all: "ascending cmp (map fst (y # ys)) \<Longrightarrow> cmp a (fst y) \<le> 0 \<Longrightarrow> e \<in> set ys \<Longrightarrow> cmp a (fst e) < 0"
  using cmp_le_less by auto

lemma find_none_before: "\<forall>e \<in> set es. cmp a (fst e) < 0 \<Longrightarrow> findEntry cmp a es = None"
  unfolding findEntry_None_iff using cmp_pos by force

lemma merge_asc:
  "ascending cmp (map fst xs) \<Longrightarrow> ascending cmp (map fst ys) \<Longrightarrow> ascending cmp (map fst (mergeEntries cmp xs ys))"
proof (induction xs ys rule: two_lists_induct)
  case (3 x xs y ys)
  have x: "\<forall>e \<in> set xs. cmp (fst x) (fst e) < 0" "ascending cmp (map fst xs)"
    and y: "\<forall>e \<in> set ys. cmp (fst y) (fst e) < 0" "ascending cmp (map fst ys)" using "3.prems" by auto
  consider "cmp (fst x) (fst y) < 0" | "cmp (fst x) (fst y) = 0" | "0 < cmp (fst x) (fst y)" by linarith
  then show ?case
  proof cases
    case 1
    have "\<forall>e \<in> set (mergeEntries cmp xs (y # ys)). cmp (fst x) (fst e) < 0"
      using mergeEntries_set [of cmp xs "y # ys"] x(1) less_all [OF "3.prems"(2) 1] by blast
    then show ?thesis using 1 3 x(2) by simp
  next
    case 2
    then have "\<forall>e \<in> set xs. cmp (fst y) (fst e) < 0" using x(1) cmp_less_left by blast
    then have "\<forall>e \<in> set (mergeEntries cmp xs ys). cmp (fst y) (fst e) < 0"
      using mergeEntries_set [of cmp xs ys] y(1) by blast
    then show ?thesis using 2 3 x(2) y(2) by simp
  next
    case 3
    then have "cmp (fst y) (fst x) < 0" using cmp_pos by blast
    then have "\<forall>e \<in> set (mergeEntries cmp (x # xs) ys). cmp (fst y) (fst e) < 0"
      using mergeEntries_set [of cmp "x # xs" ys] y(1) less_all [OF "3.prems"(1)] by blast
    then show ?thesis using 3 "3.IH" "3.prems" y(2) by simp
  qed
qed auto

lemma findEntry_merge:
  "ascending cmp (map fst xs) \<Longrightarrow> ascending cmp (map fst ys) \<Longrightarrow>
   findEntry cmp k (mergeEntries cmp xs ys) = (case findEntry cmp k ys of Some v \<Rightarrow> Some v | None \<Rightarrow> findEntry cmp k xs)"
proof (induction xs ys rule: two_lists_induct)
  case (3 x xs y ys)
  have x: "\<forall>e \<in> set xs. cmp (fst x) (fst e) < 0" "ascending cmp (map fst xs)"
    and y: "\<forall>e \<in> set ys. cmp (fst y) (fst e) < 0" "ascending cmp (map fst ys)" using "3.prems" by auto
  consider "cmp (fst x) (fst y) < 0" | "cmp (fst x) (fst y) = 0" | "0 < cmp (fst x) (fst y)" by linarith
  then show ?case
  proof cases
    case 1
    have "findEntry cmp k (y # ys) = None" if "cmp (fst x) k = 0"
    proof -
      have "findEntry cmp (fst x) (y # ys) = None"
        by (rule find_none_before) (use less_all [OF "3.prems"(2) 1] in blast)
      then show ?thesis using findEntry_cong [OF that, of "y # ys"] by (simp only:)
    qed
    then show ?thesis using 1 "3.IH"(1) "3.prems" x(2) by (auto split: if_splits option.split)
  next
    case 2
    then have "cmp (fst x) k = 0 \<longleftrightarrow> cmp (fst y) k = 0" by (rule cmp_eq_left)
    then show ?thesis using 2 "3.IH"(2) x(2) y(2) by (auto split: option.split)
  next
    case 3
    then show ?thesis using "3.IH"(3) "3.prems" y(2) by auto
  qed
qed (auto split: option.split)

lemma intersect_filter:
  "ascending cmp (map fst xs) \<Longrightarrow> ascending cmp (map fst ys) \<Longrightarrow>
   intersectEntries cmp xs ys = filter (\<lambda>x. findEntry cmp (fst x) ys \<noteq> None) xs"
proof (induction xs ys rule: two_lists_induct)
  case (3 x xs y ys)
  have x: "\<forall>e \<in> set xs. cmp (fst x) (fst e) < 0" "ascending cmp (map fst xs)"
    and y: "ascending cmp (map fst ys)" using "3.prems" by auto
  consider "cmp (fst x) (fst y) < 0" | "cmp (fst x) (fst y) = 0" | "0 < cmp (fst x) (fst y)" by linarith
  then show ?case
  proof cases
    case 1
    then have "findEntry cmp (fst x) (y # ys) = None"
      by (intro find_none_before) (use less_all [OF "3.prems"(2) 1] in blast)
    then show ?thesis using 1 "3.IH"(1) "3.prems" x(2) by (simp del: findEntry.simps)
  next
    case 2
    have "cmp (fst y) (fst e) \<noteq> 0" if "e \<in> set xs" for e
    proof -
      have "cmp (fst y) (fst e) < 0" using x(1) that cmp_less_left [OF 2] by blast
      then show ?thesis by simp
    qed
    then have "filter (\<lambda>x. findEntry cmp (fst x) (y # ys) \<noteq> None) xs = filter (\<lambda>x. findEntry cmp (fst x) ys \<noteq> None) xs"
      by (intro filter_cong) auto
    then show ?thesis using 2 "3.IH"(2) x(2) y cmp_eq_sym [OF 2] by simp
  next
    case 3
    then have lt: "cmp (fst y) (fst x) < 0" using cmp_pos by blast
    have "cmp (fst y) (fst e) \<noteq> 0" if "e \<in> set (x # xs)" for e using less_all [OF "3.prems"(1) lt that] by simp
    then have "filter (\<lambda>x. findEntry cmp (fst x) (y # ys) \<noteq> None) (x # xs) = filter (\<lambda>x. findEntry cmp (fst x) ys \<noteq> None) (x # xs)"
      by (intro filter_cong) auto
    then show ?thesis using 3 "3.IH"(3) "3.prems" y by simp
  qed
qed auto

lemma difference_filter:
  "ascending cmp (map fst xs) \<Longrightarrow> ascending cmp (map fst ys) \<Longrightarrow>
   differenceEntries cmp xs ys = filter (\<lambda>x. findEntry cmp (fst x) ys = None) xs"
proof (induction xs ys rule: two_lists_induct)
  case (3 x xs y ys)
  have x: "\<forall>e \<in> set xs. cmp (fst x) (fst e) < 0" "ascending cmp (map fst xs)"
    and y: "ascending cmp (map fst ys)" using "3.prems" by auto
  consider "cmp (fst x) (fst y) < 0" | "cmp (fst x) (fst y) = 0" | "0 < cmp (fst x) (fst y)" by linarith
  then show ?case
  proof cases
    case 1
    then have "findEntry cmp (fst x) (y # ys) = None"
      by (intro find_none_before) (use less_all [OF "3.prems"(2) 1] in blast)
    then show ?thesis using 1 "3.IH"(1) "3.prems" x(2) by (simp del: findEntry.simps)
  next
    case 2
    have "cmp (fst y) (fst e) \<noteq> 0" if "e \<in> set xs" for e
    proof -
      have "cmp (fst y) (fst e) < 0" using x(1) that cmp_less_left [OF 2] by blast
      then show ?thesis by simp
    qed
    then have "filter (\<lambda>x. findEntry cmp (fst x) (y # ys) = None) xs = filter (\<lambda>x. findEntry cmp (fst x) ys = None) xs"
      by (intro filter_cong) auto
    then show ?thesis using 2 "3.IH"(2) x(2) y cmp_eq_sym [OF 2] by simp
  next
    case 3
    then have lt: "cmp (fst y) (fst x) < 0" using cmp_pos by blast
    have "cmp (fst y) (fst e) \<noteq> 0" if "e \<in> set (x # xs)" for e using less_all [OF "3.prems"(1) lt that] by simp
    then have "filter (\<lambda>x. findEntry cmp (fst x) (y # ys) = None) (x # xs) = filter (\<lambda>x. findEntry cmp (fst x) ys = None) (x # xs)"
      by (intro filter_cong) auto
    then show ?thesis using 3 "3.IH"(3) "3.prems" y by simp
  qed
qed auto

lemma subset_iff:
  "ascending cmp (map fst xs) \<Longrightarrow> ascending cmp (map fst ys) \<Longrightarrow>
   subsetEntries cmp xs ys \<longleftrightarrow> (\<forall>x \<in> set xs. findEntry cmp (fst x) ys \<noteq> None)"
proof (induction xs ys rule: two_lists_induct)
  case (3 x xs y ys)
  have x: "\<forall>e \<in> set xs. cmp (fst x) (fst e) < 0" "ascending cmp (map fst xs)"
    and y: "ascending cmp (map fst ys)" using "3.prems" by auto
  consider "cmp (fst y) (fst x) < 0" | "cmp (fst y) (fst x) = 0" | "0 < cmp (fst y) (fst x)" by linarith
  then show ?case
  proof cases
    case 1
    have "cmp (fst y) (fst e) \<noteq> 0" if "e \<in> set (x # xs)" for e using less_all [OF "3.prems"(1) 1 that] by simp
    then show ?thesis using 1 "3.IH"(3) "3.prems" y by auto
  next
    case 2
    have "cmp (fst y) (fst e) \<noteq> 0" if "e \<in> set xs" for e using le_all [OF "3.prems"(1) _ that, of "fst y"] 2 by simp
    then show ?thesis using 2 "3.IH"(2) x(2) y by auto
  next
    case 3
    then have "cmp (fst x) (fst y) < 0" using cmp_pos by blast
    then have "findEntry cmp (fst x) (y # ys) = None"
      by (intro find_none_before) (use less_all [OF "3.prems"(2)] in blast)
    then show ?thesis using 3 by (auto simp del: findEntry.simps)
  qed
qed auto

lemma findEntry_filter:
  assumes "\<And>a b. cmp a b = 0 \<Longrightarrow> Q a = Q b"
  shows "findEntry cmp k (filter (\<lambda>e. Q (fst e)) es) \<noteq> None \<longleftrightarrow> findEntry cmp k es \<noteq> None \<and> Q k"
  using assms by (induction es) auto

lemma findEntry_fold_insert:
  "ascending cmp (map fst xs) \<Longrightarrow> ascending cmp (map fst ys) \<Longrightarrow>
   findEntry cmp k (fold (\<lambda>e es. insertEntry cmp (fst e) (snd e) es) ys xs) =
     (case findEntry cmp k ys of Some v \<Rightarrow> Some v | None \<Rightarrow> findEntry cmp k xs)"
proof (induction ys arbitrary: xs)
  case (Cons y ys)
  have n: "cmp (fst y) k = 0 \<Longrightarrow> findEntry cmp k ys = None"
  proof -
    assume e: "cmp (fst y) k = 0"
    have "findEntry cmp (fst y) ys = None" by (rule find_none_before) (use Cons.prems in simp)
    then show ?thesis using findEntry_cong [OF e, of ys] by (simp only:)
  qed
  have "ascending cmp (map fst (insertEntry cmp (fst y) (snd y) xs))" by (rule insertEntry_asc [OF Cons.prems(1)])
  then show ?case using Cons n findEntry_insert [OF Cons.prems(1), of k "fst y" "snd y"] by (auto split: option.split)
qed simp

lemma findEntry_fold_delete:
  "findEntry cmp k (fold (\<lambda>e es. deleteEntry cmp (fst e) es) ys xs) =
     (if findEntry cmp k ys \<noteq> None then None else findEntry cmp k xs)"
  by (induction ys arbitrary: xs) (auto simp: findEntry_delete)

end

end
