(* ===== verification/Collection_Keys.thy ===== *)
theory Collection_Keys
  imports Ordered_Entries
begin

text \<open>
  Slots, key types and the order of keys of \<open>Map\<close> and \<open>Set\<close> (\<open>src/core/rtdata/collection.cpp\<close>).
  A slot holds 64 bits or refers to an object; the objects that keys are made of (strings,
  tuples, enum variants) are modelled by their content. \<open>compareKeys\<close> is the code's comparison
  with the \<open>GUARD\<close> of every slot read: \<open>None\<close> is the process stopping. \<open>cmpKeys\<close> is the
  order itself, a total preorder on slots, and \<open>compareKeys_live\<close> says that the comparison of
  two well-formed keys computes it.
\<close>

section \<open>Slots and key types\<close>

datatype slot =
    Bits "64 word"
  | StrObj "8 word list"
  | TupleObj "slot list"
  | VariantObj nat "slot list"

abbreviation NullSlot :: slot where
  "NullSlot \<equiv> Bits 0"

definition DeadSlot :: "64 word" where
  "DeadSlot = 0xDEADBEAFDEADBEAF"

datatype keyType =
    KInt64
  | KInt32
  | KBool
  | KString
  | KTuple "keyType list"
  | KEnum "keyType list list"

section \<open>Reading a slot\<close>

definition fromSlotBits :: "slot \<Rightarrow> 64 word option" where
  "fromSlotBits s = (case s of Bits w \<Rightarrow> if w = DeadSlot then None else Some w | _ \<Rightarrow> None)"

definition fromSlotInt64 :: "slot \<Rightarrow> int option" where
  "fromSlotInt64 s = map_option sint (fromSlotBits s)"

definition fromSlotInt32 :: "slot \<Rightarrow> int option" where
  "fromSlotInt32 s = map_option (\<lambda>w. sint (ucast w :: 32 word)) (fromSlotBits s)"

definition fromSlotBool :: "slot \<Rightarrow> bool option" where
  "fromSlotBool s = map_option (\<lambda>w. (ucast w :: 8 word) \<noteq> 0) (fromSlotBits s)"

definition fromSlotString :: "slot \<Rightarrow> 8 word list option" where
  "fromSlotString s = (case s of StrObj bs \<Rightarrow> Some bs | _ \<Rightarrow> None)"

definition fromSlotTuple :: "slot \<Rightarrow> slot list option" where
  "fromSlotTuple s = (case s of TupleObj fs \<Rightarrow> Some fs | _ \<Rightarrow> None)"

definition fromSlotVariant :: "slot \<Rightarrow> (nat \<times> slot list) option" where
  "fromSlotVariant s = (case s of VariantObj tag fs \<Rightarrow> Some (tag, fs) | _ \<Rightarrow> None)"

section \<open>The comparison of the code\<close>

definition three :: "'a :: linorder \<Rightarrow> 'a \<Rightarrow> int" where
  "three x y = (if x < y then - 1 else if y < x then 1 else 0)"

text \<open>\<open>std::memcmp\<close> over the first \<open>n\<close> bytes: the sign of the first difference.\<close>

fun memcmp :: "nat \<Rightarrow> 8 word list \<Rightarrow> 8 word list \<Rightarrow> int" where
  "memcmp (Suc n) (x # xs) (y # ys) = (if x = y then memcmp n xs ys else three x y)"
| "memcmp n xs ys = 0"

definition String_compare :: "8 word list \<Rightarrow> 8 word list \<Rightarrow> int" where
  "String_compare a b =
     (let cmp = memcmp (min (length a) (length b)) a b
      in if cmp \<noteq> 0 then cmp
         else if length a < length b then - 1
         else if length a > length b then 1 else 0)"

text \<open>
  The loops over the fields of a tuple and of a variant read one field of each side per field
  type; a read past the last field stops the process.
\<close>

function (sequential) compareKeys :: "slot \<Rightarrow> slot \<Rightarrow> keyType \<Rightarrow> int option"
  and compareFields :: "slot list \<Rightarrow> slot list \<Rightarrow> keyType list \<Rightarrow> int option" where
  "compareKeys a b (KEnum variants) =
     do { (tagA, fieldsA) \<leftarrow> fromSlotVariant a;
          (tagB, fieldsB) \<leftarrow> fromSlotVariant b;
          let byTag = three tagA tagB;
          if byTag \<noteq> 0 then Some byTag
          else if tagA < length variants then compareFields fieldsA fieldsB (variants ! tagA)
          else None }"
| "compareKeys a b KInt64 = do { x \<leftarrow> fromSlotInt64 a; y \<leftarrow> fromSlotInt64 b; Some (three x y) }"
| "compareKeys a b KInt32 = do { x \<leftarrow> fromSlotInt32 a; y \<leftarrow> fromSlotInt32 b; Some (three x y) }"
| "compareKeys a b KBool = do { x \<leftarrow> fromSlotBool a; y \<leftarrow> fromSlotBool b; Some (three x y) }"
| "compareKeys a b KString =
     do { x \<leftarrow> fromSlotString a; y \<leftarrow> fromSlotString b;
          let order = String_compare x y;
          Some (if order < 0 then - 1 else if order > 0 then 1 else 0) }"
| "compareKeys a b (KTuple types) =
     do { x \<leftarrow> fromSlotTuple a; y \<leftarrow> fromSlotTuple b; compareFields x y types }"
| "compareFields xs ys [] = Some 0"
| "compareFields (x # xs) (y # ys) (t # types) =
     do { order \<leftarrow> compareKeys x y t; if order \<noteq> 0 then Some order else compareFields xs ys types }"
| "compareFields xs ys (t # types) = None"
  by pat_completeness auto

lemma size_list_mem: "x \<in> set xs \<Longrightarrow> f x < size_list f xs"
  by (induction xs) auto

lemma size_variant: "i < length vs \<Longrightarrow> size_list size (vs ! i) < size_list (size_list size) vs"
  by (rule size_list_mem) simp

termination compareKeys
  by (relation "measure (\<lambda>s. case s of Inl (a, b, t) \<Rightarrow> 2 * size t | Inr (xs, ys, ts) \<Rightarrow> 1 + 2 * size_list size ts)")
    (auto dest: size_variant)

section \<open>The order of keys\<close>

fun slotBits :: "slot \<Rightarrow> 64 word" where
  "slotBits (Bits w) = w"
| "slotBits s = 0"

fun slotString :: "slot \<Rightarrow> 8 word list" where
  "slotString (StrObj bs) = bs"
| "slotString s = []"

fun slotTag :: "slot \<Rightarrow> nat" where
  "slotTag (VariantObj tag fs) = tag"
| "slotTag s = 0"

fun slotFields :: "slot \<Rightarrow> slot list" where
  "slotFields (TupleObj fs) = fs"
| "slotFields (VariantObj tag fs) = fs"
| "slotFields s = []"

definition firstSlot :: "slot list \<Rightarrow> slot" where
  "firstSlot xs = (case xs of [] \<Rightarrow> NullSlot | x # _ \<Rightarrow> x)"

text \<open>Bytewise lexicographic order of strings, a proper prefix first.\<close>

fun cmpBytes :: "8 word list \<Rightarrow> 8 word list \<Rightarrow> int" where
  "cmpBytes [] [] = 0"
| "cmpBytes [] (y # ys) = - 1"
| "cmpBytes (x # xs) [] = 1"
| "cmpBytes (x # xs) (y # ys) = (if x < y then - 1 else if y < x then 1 else cmpBytes xs ys)"

function (sequential) cmpKeys :: "keyType \<Rightarrow> slot \<Rightarrow> slot \<Rightarrow> int"
  and cmpFields :: "keyType list \<Rightarrow> slot list \<Rightarrow> slot list \<Rightarrow> int" where
  "cmpKeys KInt64 a b = three (sint (slotBits a)) (sint (slotBits b))"
| "cmpKeys KInt32 a b = three (sint (ucast (slotBits a) :: 32 word)) (sint (ucast (slotBits b) :: 32 word))"
| "cmpKeys KBool a b = three ((ucast (slotBits a) :: 8 word) \<noteq> 0) ((ucast (slotBits b) :: 8 word) \<noteq> 0)"
| "cmpKeys KString a b = cmpBytes (slotString a) (slotString b)"
| "cmpKeys (KTuple ts) a b = cmpFields ts (slotFields a) (slotFields b)"
| "cmpKeys (KEnum vs) a b =
     (if slotTag a < slotTag b then - 1 else if slotTag b < slotTag a then 1
      else if slotTag a < length vs then cmpFields (vs ! slotTag a) (slotFields a) (slotFields b) else 0)"
| "cmpFields [] xs ys = 0"
| "cmpFields (t # ts) xs ys =
     (let c = cmpKeys t (firstSlot xs) (firstSlot ys)
      in if c \<noteq> 0 then c else cmpFields ts (tl xs) (tl ys))"
  by pat_completeness auto
termination cmpKeys
  by (relation "measure (\<lambda>s. case s of Inl (t, a, b) \<Rightarrow> 2 * size t | Inr (ts, xs, ys) \<Rightarrow> 1 + 2 * size_list size ts)")
    (auto dest: size_variant)

text \<open>
  A key of its type that every read accepts: the slots hold what the type says, and no integer
  slot is the fill pattern of an unwritten slot.
\<close>

function liveKey :: "keyType \<Rightarrow> slot \<Rightarrow> bool" and liveFields :: "keyType list \<Rightarrow> slot list \<Rightarrow> bool" where
  "liveKey KInt64 s = (\<exists>w. s = Bits w \<and> w \<noteq> DeadSlot)"
| "liveKey KInt32 s = (\<exists>w. s = Bits w \<and> w \<noteq> DeadSlot)"
| "liveKey KBool s = (\<exists>w. s = Bits w \<and> w \<noteq> DeadSlot)"
| "liveKey KString s = (\<exists>bs. s = StrObj bs)"
| "liveKey (KTuple ts) s = (case s of TupleObj fs \<Rightarrow> liveFields ts fs | _ \<Rightarrow> False)"
| "liveKey (KEnum vs) s =
     (case s of VariantObj tag fs \<Rightarrow> tag < length vs \<and> (if tag < length vs then liveFields (vs ! tag) fs else False)
      | _ \<Rightarrow> False)"
| "liveFields [] fs = (fs = [])"
| "liveFields (t # ts) fs = (case fs of [] \<Rightarrow> False | f # rest \<Rightarrow> liveKey t f \<and> liveFields ts rest)"
  by pat_completeness auto
termination liveKey
  by (relation "measure (\<lambda>s. case s of Inl (t, a) \<Rightarrow> 2 * size t | Inr (ts, xs) \<Rightarrow> 1 + 2 * size_list size ts)")
    (auto dest: size_variant)

section \<open>The order is a total preorder\<close>

lemma three_way_pullback: "three_way cmp \<Longrightarrow> three_way (\<lambda>a b. cmp (f a) (f b))"
  unfolding three_way_def by blast

lemma three_way_three: "three_way (three :: 'a :: linorder \<Rightarrow> 'a \<Rightarrow> int)"
  by unfold_locales (auto simp: three_def split: if_splits)

lemma three_way_bytes: "three_way cmpBytes"
proof
  show "cmpBytes b a = - cmpBytes a b" for a b
    by (induction a b rule: cmpBytes.induct) auto
  show "cmpBytes a b \<le> 0 \<Longrightarrow> cmpBytes b c \<le> 0 \<Longrightarrow> cmpBytes a c \<le> 0" for a b c
  proof (induction a b arbitrary: c rule: cmpBytes.induct)
    case (2 y ys) then show ?case by (cases c) auto
  next
    case (4 x xs y ys)
    then show ?case by (cases c) (auto split: if_splits)
  next
    case 1 then show ?case by (cases c) auto
  qed simp
qed

text \<open>Lexicographic refinement of one comparison by another.\<close>

lemma three_way_lex:
  assumes "three_way c1" "three_way c2"
  shows "three_way (\<lambda>a b. if c1 a b \<noteq> 0 then c1 a b else c2 a b)"
proof -
  have s: "c1 b a = - c1 a b" "c2 b a = - c2 a b" for a b
    by (rule three_way.cmp_sym [OF assms(1)], rule three_way.cmp_sym [OF assms(2)])
  have less: "c1 a b \<le> 0 \<Longrightarrow> c1 b c \<le> 0 \<Longrightarrow> c1 a b \<noteq> 0 \<or> c1 b c \<noteq> 0 \<Longrightarrow> c1 a c < 0" for a b c
    using three_way.cmp_less_le [OF assms(1), of a b c] three_way.cmp_le_less [OF assms(1), of a b c] by linarith
  have eq: "c1 a b = 0 \<Longrightarrow> c1 b c = 0 \<Longrightarrow> c1 a c = 0" for a b c
    using three_way.cmp_eq_left [OF assms(1), of a b c] by blast
  show ?thesis
  proof
    show "(if c1 b a \<noteq> 0 then c1 b a else c2 b a) = - (if c1 a b \<noteq> 0 then c1 a b else c2 a b)" for a b
      using s [of b a] by simp
    fix a b c
    assume h: "(if c1 a b \<noteq> 0 then c1 a b else c2 a b) \<le> 0" "(if c1 b c \<noteq> 0 then c1 b c else c2 b c) \<le> 0"
    show "(if c1 a c \<noteq> 0 then c1 a c else c2 a c) \<le> 0"
    proof (cases "c1 a b = 0 \<and> c1 b c = 0")
      case True
      then show ?thesis using h eq [of a b c] three_way.cmp_le_trans [OF assms(2), of a b c] by simp
    next
      case False
      then have "c1 a c < 0" using h less [of a b c] by (auto split: if_splits)
      then show ?thesis by simp
    qed
  qed
qed

lemma three_way_fields: "(\<And>t. t \<in> set ts \<Longrightarrow> three_way (cmpKeys t)) \<Longrightarrow> three_way (cmpFields ts)"
proof (induction ts)
  case Nil then show ?case by unfold_locales simp_all
next
  case (Cons t ts)
  have "three_way (\<lambda>xs ys. cmpKeys t (firstSlot xs) (firstSlot ys))" "three_way (\<lambda>xs ys. cmpFields ts (tl xs) (tl ys))"
    using Cons by (simp_all add: three_way_pullback)
  from three_way_lex [OF this] show ?case by (simp add: Let_def)
qed

lemma three_way_keys: "three_way (cmpKeys kt)"
proof (induction kt)
  case KInt64 show ?case using three_way_pullback [OF three_way_three, of "\<lambda>a. sint (slotBits a)"] by simp
next
  case KInt32 show ?case using three_way_pullback [OF three_way_three, of "\<lambda>a. sint (ucast (slotBits a) :: 32 word)"] by simp
next
  case KBool show ?case using three_way_pullback [OF three_way_three, of "\<lambda>a. (ucast (slotBits a) :: 8 word) \<noteq> 0"] by simp
next
  case KString show ?case using three_way_pullback [OF three_way_bytes, of slotString] by simp
next
  case (KTuple ts)
  then have "three_way (cmpFields ts)" by (rule three_way_fields)
  from three_way_pullback [OF this, of slotFields] show ?case by simp
next
  case (KEnum vs)
  have f: "three_way (cmpFields (vs ! i))" if "i < length vs" for i
    by (rule three_way_fields) (use that KEnum nth_mem in blast)
  note s = three_way.cmp_sym [OF f] and t = three_way.cmp_le_trans [OF f]
  show ?case
  proof
    show "cmpKeys (KEnum vs) b a = - cmpKeys (KEnum vs) a b" for a b
      using s [of "slotTag b" "slotFields b" "slotFields a"] by auto
    show "cmpKeys (KEnum vs) a b \<le> 0 \<Longrightarrow> cmpKeys (KEnum vs) b c \<le> 0 \<Longrightarrow> cmpKeys (KEnum vs) a c \<le> 0" for a b c
      using t [of "slotTag b" "slotFields a" "slotFields b" "slotFields c"] by (auto split: if_splits)
  qed
qed

interpretation key: three_way "cmpKeys kt" for kt
  by (rule three_way_keys)

section \<open>The comparison computes the order\<close>

lemma memcmp_bytes:
  "(let cmp = memcmp (min (length a) (length b)) a b
    in if cmp \<noteq> 0 then cmp else if length a < length b then - 1 else if length a > length b then 1 else 0) = cmpBytes a b"
  by (induction a b rule: cmpBytes.induct) (auto simp: Let_def three_def)

lemma cmpBytes_range: "cmpBytes a b \<in> {- 1, 0, 1}"
  by (induction a b rule: cmpBytes.induct) auto

lemma compareKeys_live:
  "liveKey kt a \<Longrightarrow> liveKey kt b \<Longrightarrow> compareKeys a b kt = Some (cmpKeys kt a b)"
  "liveFields ts xs \<Longrightarrow> liveFields ts ys \<Longrightarrow> compareFields xs ys ts = Some (cmpFields ts xs ys)"
proof (induction a b kt and xs ys ts rule: compareKeys_compareFields.induct)
  case (1 a b variants)
  then show ?case
    by (auto simp: fromSlotVariant_def three_def split: slot.splits)
next
  case (5 a b)
  have "order < 0 \<or> order = 0 \<or> order > 0" for order :: int by auto
  then show ?case using 5 cmpBytes_range [of "slotString a" "slotString b"]
    by (auto simp: fromSlotString_def String_compare_def memcmp_bytes)
next
  case (8 x xs y ys t types)
  then show ?case by (simp add: firstSlot_def Let_def)
qed (auto simp: fromSlotInt64_def fromSlotInt32_def fromSlotBool_def fromSlotBits_def fromSlotTuple_def
    split: slot.splits)

end
