(* ===== verification/Collection_Tree.thy ===== *)
theory Collection_Tree
  imports Collection_Keys
begin

text \<open>
  The tables of the persistent B+ tree of \<open>Map\<close> and \<open>Set\<close> (\<open>src/core/rtdata/collection_tree.h\<close>,
  \<open>collection_tree.cpp\<close>, \<open>include/camel/core/rtdata/collection.h\<close>): the shape, one table, search
  within a table, the bottom-up builder, the cursor and the check of the invariants. Every
  \<open>GUARD\<close> of the source is a branch to \<open>None\<close>, and so is a read outside an array. The header
  fields keep their widths: \<open>size\<close> is 32 bits, \<open>height\<close> and \<open>count\<close> are 16.
\<close>

section \<open>Shape\<close>

record Shape =
  leafCap :: nat
  fanout :: nat
  padded :: bool
  validateOn :: bool

record ShapeRequest =
  reqLeaf :: "nat option"
  reqFanout :: "nat option"
  reqPadded :: "bool option"
  reqValidate :: "bool option"

definition kMaxFanout :: nat where "kMaxFanout = 256"
definition kMaxHeight :: nat where "kMaxHeight = 40"
definition kPointwiseRatio :: nat where "kPointwiseRatio = 32"
definition kDefaultLeafCapacity :: nat where "kDefaultLeafCapacity = 64"
definition kDefaultFanout :: nat where "kDefaultFanout = 64"
definition sizeMax :: nat where "sizeMax = 2 ^ 64 - 1"

definition collNumber :: "nat option \<Rightarrow> nat \<Rightarrow> nat" where
  "collNumber fromOption fallback = (case fromOption of Some n \<Rightarrow> n | None \<Rightarrow> fallback)"

definition collFlag :: "bool option \<Rightarrow> bool \<Rightarrow> bool" where
  "collFlag fromOption fallback = (case fromOption of Some b \<Rightarrow> b | None \<Rightarrow> fallback)"

definition configure :: "ShapeRequest \<Rightarrow> Shape" where
  "configure req =
     (let leaf = collNumber (reqLeaf req) kDefaultLeafCapacity;
          f = collNumber (reqFanout req) kDefaultFanout
      in \<lparr>leafCap = (if leaf = 0 then sizeMax else max leaf 2),
          fanout = (if f < 4 then 4 else if f > kMaxFanout then kMaxFanout else f),
          padded = collFlag (reqPadded req) True,
          validateOn = collFlag (reqValidate req) False\<rparr>)"

text \<open>
  The process-wide request: a request is accepted until the shape is first read, and the
  shape read then never changes.
\<close>

record ShapeState =
  requestedShape :: ShapeRequest
  shapeSelected :: bool
  configured :: "Shape option"

definition selectShape :: "ShapeRequest \<Rightarrow> ShapeState \<Rightarrow> bool \<times> ShapeState" where
  "selectShape req st =
     (if configured st \<noteq> None then (False, st)
      else (True, st\<lparr>requestedShape := req, shapeSelected := True\<rparr>))"

definition readShape :: "ShapeState \<Rightarrow> Shape \<times> ShapeState" where
  "readShape st =
     (case configured st of
        Some s \<Rightarrow> (s, st)
      | None \<Rightarrow> let s = configure (requestedShape st) in (s, st\<lparr>configured := Some s\<rparr>))"

record CollType =
  isMap :: bool
  keyTy :: keyType

section \<open>One table\<close>

datatype table =
    Leaf "slot list" "slot list"
  | Branch nat nat "slot list" "table list"

fun isLeaf :: "table \<Rightarrow> bool" where
  "isLeaf (Leaf ks vs) = True"
| "isLeaf (Branch n h seps cs) = False"

fun tsize :: "table \<Rightarrow> nat" where
  "tsize (Leaf ks vs) = u32 (length ks)"
| "tsize (Branch n h seps cs) = n"

fun theight :: "table \<Rightarrow> nat" where
  "theight (Leaf ks vs) = 0"
| "theight (Branch n h seps cs) = h"

fun tcount :: "table \<Rightarrow> nat" where
  "tcount (Leaf ks vs) = 0"
| "tcount (Branch n h seps cs) = u16 (length cs)"

fun tkeys :: "table \<Rightarrow> slot list" where
  "tkeys (Leaf ks vs) = ks"
| "tkeys (Branch n h seps cs) = seps"

fun tvalues :: "table \<Rightarrow> slot list" where
  "tvalues (Leaf ks vs) = vs"
| "tvalues (Branch n h seps cs) = []"

fun tchildren :: "table \<Rightarrow> table list" where
  "tchildren (Leaf ks vs) = []"
| "tchildren (Branch n h seps cs) = cs"

definition leafCapacity :: "Shape \<Rightarrow> CollType \<Rightarrow> nat" where
  "leafCapacity sh ct =
     (if isMap ct \<or> leafCap sh > sizeMax div 2 then leafCap sh else 2 * leafCap sh)"

definition leafSlots :: "Shape \<Rightarrow> CollType \<Rightarrow> nat \<Rightarrow> bool \<Rightarrow> nat" where
  "leafSlots sh ct n inTree =
     (let used = (if isMap ct then 2 * n else n)
      in if inTree \<and> padded sh then max used ((2 * leafCap sh) mod 2 ^ 64) else used)"

text \<open>\<open>Table::create\<close> guards that the leaf has a slot for every entry.\<close>

definition newLeaf :: "Shape \<Rightarrow> CollType \<Rightarrow> bool \<Rightarrow> slot list \<Rightarrow> slot list \<Rightarrow> table option" where
  "newLeaf sh ct inTree ks vs =
     (if length ks \<le> leafSlots sh ct (length ks) inTree then Some (Leaf ks (if isMap ct then vs else []))
      else None)"

definition leafOf :: "Shape \<Rightarrow> CollType \<Rightarrow> bool \<Rightarrow> nat \<Rightarrow> nat \<Rightarrow> (nat \<Rightarrow> slot) \<Rightarrow> (nat \<Rightarrow> slot) \<Rightarrow> table option" where
  "leafOf sh ct inTree b e keyAt valueAt =
     newLeaf sh ct inTree (map keyAt [b..<e]) (map valueAt [b..<e])"

definition createBranch :: "nat \<Rightarrow> nat \<Rightarrow> slot list \<Rightarrow> nat \<Rightarrow> table list \<Rightarrow> table option" where
  "createBranch h n seps width cs =
     (if h > 0 \<and> length cs > 0 \<and> length cs \<le> width then Some (Branch (u32 n) (u16 h) seps cs) else None)"

definition firstKey :: "table \<Rightarrow> slot" where
  "firstKey t = tkeys t ! 0"

definition makeBranch :: "Shape \<Rightarrow> table list \<Rightarrow> table option" where
  "makeBranch sh children =
     (if \<exists>c \<in> set children. tsize c = 0 then None
      else let n = sum_list (map tsize children);
               width = (if padded sh then max (length children) (fanout sh) else length children)
           in case children of
                [] \<Rightarrow> None
              | c # _ \<Rightarrow> createBranch (theight c + 1) n (map firstKey children) width children)"

function lowerBoundLoop :: "keyType \<Rightarrow> slot list \<Rightarrow> slot \<Rightarrow> nat \<Rightarrow> nat \<Rightarrow> nat option" where
  "lowerBoundLoop kt ks key lo hi =
     (if lo < hi
      then let mid = lo + (hi - lo) div 2
           in do { order \<leftarrow> compareKeys (ks ! mid) key kt;
                   if order < 0 then lowerBoundLoop kt ks key (mid + 1) hi
                   else lowerBoundLoop kt ks key lo mid }
      else Some lo)"
  by pat_completeness auto
termination
  by (relation "measure (\<lambda>(kt, ks, key, lo, hi). hi - lo)") auto

declare lowerBoundLoop.simps [simp del]

definition lowerBound :: "table \<Rightarrow> slot \<Rightarrow> keyType \<Rightarrow> nat option" where
  "lowerBound t key kt = lowerBoundLoop kt (tkeys t) key 0 (tsize t)"

definition findInLeaf :: "table \<Rightarrow> slot \<Rightarrow> keyType \<Rightarrow> nat option option" where
  "findInLeaf t key kt =
     do { pos \<leftarrow> lowerBound t key kt;
          if pos < tsize t
          then do { order \<leftarrow> compareKeys (tkeys t ! pos) key kt; Some (if order = 0 then Some pos else None) }
          else Some None }"

function childIndexLoop :: "keyType \<Rightarrow> slot list \<Rightarrow> slot \<Rightarrow> nat \<Rightarrow> nat \<Rightarrow> nat option" where
  "childIndexLoop kt seps key lo hi =
     (if lo < hi
      then let mid = lo + (hi - lo) div 2
           in do { order \<leftarrow> compareKeys (seps ! mid) key kt;
                   if order \<le> 0 then childIndexLoop kt seps key (mid + 1) hi
                   else childIndexLoop kt seps key lo mid }
      else Some lo)"
  by pat_completeness auto
termination
  by (relation "measure (\<lambda>(kt, seps, key, lo, hi). hi - lo)") auto

declare childIndexLoop.simps [simp del]

definition childIndex :: "table \<Rightarrow> slot \<Rightarrow> keyType \<Rightarrow> nat option" where
  "childIndex t key kt = map_option (\<lambda>lo. lo - 1) (childIndexLoop kt (tkeys t) key 1 (tcount t))"

lemma size_child: "i < length cs \<Longrightarrow> size (cs ! i) < size_list size cs"
  by (rule size_list_mem) simp

function leafFor :: "table \<Rightarrow> slot \<Rightarrow> keyType \<Rightarrow> table option" where
  "leafFor (Leaf ks vs) key kt = Some (Leaf ks vs)"
| "leafFor (Branch n h seps cs) key kt =
     (case childIndex (Branch n h seps cs) key kt of
        None \<Rightarrow> None
      | Some pos \<Rightarrow> if pos < length cs then leafFor (cs ! pos) key kt else None)"
  by pat_completeness auto
termination
  by (relation "measure (\<lambda>(t, key, kt). size t)") (auto dest: size_child)

fun leavesOf :: "table \<Rightarrow> table list" where
  "leavesOf (Leaf ks vs) = [Leaf ks vs]"
| "leavesOf (Branch n h seps cs) = concat (map leavesOf cs)"

section \<open>Building a tree bottom-up\<close>

definition Shares_groups :: "nat \<Rightarrow> nat \<Rightarrow> nat" where
  "Shares_groups n capacity =
     (if n \<le> capacity then 1 else n div capacity + (if n mod capacity \<noteq> 0 then 1 else 0))"

definition Shares_bound :: "nat \<Rightarrow> nat \<Rightarrow> nat \<Rightarrow> nat" where
  "Shares_bound n groups g = (g * n) mod 2 ^ 64 div groups"

definition slice :: "nat \<Rightarrow> nat \<Rightarrow> 'a list \<Rightarrow> 'a list" where
  "slice b e xs = take (e - b) (drop b xs)"

text \<open>One pass of the loop of \<open>buildBranches\<close>: the branches above a level of tables.\<close>

definition branchLevel :: "Shape \<Rightarrow> table list \<Rightarrow> table list option" where
  "branchLevel sh level =
     (let n = length level; groups = Shares_groups n (fanout sh)
      in those (map (\<lambda>g. makeBranch sh (slice (Shares_bound n groups g) (Shares_bound n groups (g + 1)) level))
                 [0..<groups]))"

partial_function (option) buildBranches :: "Shape \<Rightarrow> table list \<Rightarrow> table option" where
  "buildBranches sh level =
     (if length level > 1
      then (case branchLevel sh level of None \<Rightarrow> None | Some upper \<Rightarrow> buildBranches sh upper)
      else case level of [] \<Rightarrow> None | t # _ \<Rightarrow> Some t)"

definition buildTree :: "Shape \<Rightarrow> CollType \<Rightarrow> nat \<Rightarrow> (nat \<Rightarrow> slot) \<Rightarrow> (nat \<Rightarrow> slot) \<Rightarrow> table option" where
  "buildTree sh ct n keyAt valueAt =
     (let capacity = leafCapacity sh ct
      in if n \<le> capacity then leafOf sh ct False 0 n keyAt valueAt
         else let groups = Shares_groups n capacity
              in do { leaves \<leftarrow> those (map (\<lambda>g. leafOf sh ct True (Shares_bound n groups g)
                                   (Shares_bound n groups (g + 1)) keyAt valueAt) [0..<groups]);
                      buildBranches sh leaves })"

text \<open>\<open>Entries\<close>: entries gathered by a bulk operation, then built.\<close>

definition Entries_build :: "Shape \<Rightarrow> CollType \<Rightarrow> (slot \<times> slot) list \<Rightarrow> table option" where
  "Entries_build sh ct es = buildTree sh ct (length es) (\<lambda>i. fst (es ! i)) (\<lambda>i. snd (es ! i))"

definition normalized :: "Shape \<Rightarrow> CollType \<Rightarrow> table \<Rightarrow> table option" where
  "normalized sh ct leaf =
     (if tsize leaf \<le> leafCapacity sh ct then Some leaf
      else buildTree sh ct (tsize leaf) (\<lambda>i. tkeys leaf ! i) (\<lambda>i. tvalues leaf ! i))"

definition muchSmaller :: "table \<Rightarrow> table \<Rightarrow> bool" where
  "muchSmaller small large = (tsize small \<le> tsize large div kPointwiseRatio)"

section \<open>Walking a tree in key order\<close>

record Cursor =
  curLeaf :: "table option"
  curPos :: nat
  curPath :: "(table \<times> nat) list"

text \<open>The path is a stack: its first element is the step pushed last.\<close>

fun leftmostLeaf :: "(table \<times> nat) list \<Rightarrow> table \<Rightarrow> ((table \<times> nat) list \<times> table) option" where
  "leftmostLeaf path (Leaf ks vs) = Some (path, Leaf ks vs)"
| "leftmostLeaf path (Branch n h seps cs) =
     (if length path < kMaxHeight
      then case cs of [] \<Rightarrow> None | c # _ \<Rightarrow> leftmostLeaf ((Branch n h seps cs, 0) # path) c
      else None)"

definition Cursor_init :: "table \<Rightarrow> Cursor option" where
  "Cursor_init top0 =
     do { (path, leaf) \<leftarrow> leftmostLeaf [] top0;
          Some \<lparr>curLeaf = (if tsize leaf = 0 then None else Some leaf), curPos = 0, curPath = path\<rparr> }"

definition Cursor_done :: "Cursor \<Rightarrow> bool" where
  "Cursor_done c = (curLeaf c = None)"

definition Cursor_key :: "Cursor \<Rightarrow> slot option" where
  "Cursor_key c =
     (case curLeaf c of
        None \<Rightarrow> None
      | Some leaf \<Rightarrow> if curPos c < length (tkeys leaf) then Some (tkeys leaf ! curPos c) else None)"

definition Cursor_value :: "CollType \<Rightarrow> Cursor \<Rightarrow> slot option" where
  "Cursor_value ct c =
     (if isMap ct
      then (case curLeaf c of
              None \<Rightarrow> None
            | Some leaf \<Rightarrow> if curPos c < length (tvalues leaf) then Some (tvalues leaf ! curPos c) else None)
      else Some NullSlot)"

fun popDone :: "(table \<times> nat) list \<Rightarrow> (table \<times> nat) list" where
  "popDone [] = []"
| "popDone ((node, index) # path) =
     (if index + 1 = tcount node then popDone path else (node, index) # path)"

definition Cursor_next :: "Cursor \<Rightarrow> Cursor option" where
  "Cursor_next c =
     (case curLeaf c of
        None \<Rightarrow> None
      | Some leaf \<Rightarrow>
          if curPos c + 1 < tsize leaf then Some (c\<lparr>curPos := curPos c + 1\<rparr>)
          else case popDone (curPath c) of
                 [] \<Rightarrow> Some \<lparr>curLeaf = None, curPos = 0, curPath = []\<rparr>
               | (node, index) # path \<Rightarrow>
                   if index + 1 < length (tchildren node)
                   then do { (path', leaf') \<leftarrow> leftmostLeaf ((node, index + 1) # path) (tchildren node ! (index + 1));
                             Some \<lparr>curLeaf = Some leaf', curPos = 0, curPath = path'\<rparr> }
                   else None)"

section \<open>The check of the invariants\<close>

datatype Violation =
    TooManyEntries
  | TooFewEntries
  | KeyNotAfter nat
  | ChildCount nat
  | ChildHeight nat
  | BadSeparator nat
  | BadSize nat

text \<open>
  \<open>Validation::check\<close>: the walk carries the key before the one being looked at; the result is
  the first violation or the last key seen. A \<open>GUARD\<close> of a comparison is \<open>None\<close>.
\<close>

fun checkKeys :: "keyType \<Rightarrow> slot list \<Rightarrow> nat \<Rightarrow> slot option \<Rightarrow> (Violation + slot option) option" where
  "checkKeys kt [] i lst = Some (Inr lst)"
| "checkKeys kt (k # ks) i lst =
     (case lst of
        None \<Rightarrow> checkKeys kt ks (i + 1) (Some k)
      | Some l \<Rightarrow>
          do { order \<leftarrow> compareKeys l k kt;
               if order \<ge> 0 then Some (Inl (KeyNotAfter i)) else checkKeys kt ks (i + 1) (Some k) })"

lemma size_take: "size_list f (take n xs) \<le> size_list f xs"
  by (induction xs arbitrary: n) (auto simp: take_Cons split: nat.split)

function (sequential) check :: "Shape \<Rightarrow> CollType \<Rightarrow> bool \<Rightarrow> table \<Rightarrow> slot option \<Rightarrow> (Violation + slot option) option"
  and checkChildren :: "Shape \<Rightarrow> CollType \<Rightarrow> nat \<Rightarrow> nat \<Rightarrow> slot list \<Rightarrow> table list \<Rightarrow> nat \<Rightarrow> nat \<Rightarrow> slot option \<Rightarrow>
     (Violation + slot option) option" where
  "check sh ct isRoot (Leaf ks vs) lst =
     (let n = tsize (Leaf ks vs)
      in if n > leafCapacity sh ct then Some (Inl TooManyEntries)
         else if \<not> isRoot \<and> (n = 0 \<or> n < leafCapacity sh ct div 2) then Some (Inl TooFewEntries)
         else checkKeys (keyTy ct) (take n ks) 0 lst)"
| "check sh ct isRoot (Branch n h seps cs) lst =
     (let count = tcount (Branch n h seps cs)
      in if count > fanout sh \<or> count < (if isRoot then 2 else fanout sh div 2) then Some (Inl (ChildCount count))
         else checkChildren sh ct n h seps (take count cs) 0 0 lst)"
| "checkChildren sh ct n h seps [] i acc lst =
     (if acc \<noteq> n then Some (Inl (BadSize acc)) else Some (Inr lst))"
| "checkChildren sh ct n h seps (c # cs) i acc lst =
     (if theight c + 1 \<noteq> h then Some (Inl (ChildHeight i))
      else if tsize c = 0 then Some (Inl (BadSeparator i))
      else if i < length seps then
        do { order \<leftarrow> compareKeys (seps ! i) (firstKey c) (keyTy ct);
             if order \<noteq> 0 then Some (Inl (BadSeparator i))
             else do { r \<leftarrow> check sh ct False c lst;
                       case r of
                         Inl v \<Rightarrow> Some (Inl v)
                       | Inr lst' \<Rightarrow> checkChildren sh ct n h seps cs (i + 1) (acc + tsize c) lst' } }
      else None)"
  by pat_completeness auto
termination check
  by (relation "measure (\<lambda>s. case s of Inl (sh, ct, r, t, l) \<Rightarrow> 2 * size t
        | Inr (sh, ct, n, h, seps, cs, i, acc, l) \<Rightarrow> 1 + 2 * size_list size cs)")
    (auto simp: le_imp_less_Suc size_take)

text \<open>\<open>validate\<close>: the first violation, or nothing.\<close>

definition validateT :: "Shape \<Rightarrow> CollType \<Rightarrow> table \<Rightarrow> Violation option option" where
  "validateT sh ct t =
     map_option (\<lambda>r. case r of Inl v \<Rightarrow> Some v | Inr l \<Rightarrow> None) (check sh ct True t None)"

text \<open>\<open>checked\<close>: aborts on a violation when validation is on.\<close>

definition checked :: "Shape \<Rightarrow> CollType \<Rightarrow> table \<Rightarrow> table option" where
  "checked sh ct t =
     (if validateOn sh
      then case validateT sh ct t of Some None \<Rightarrow> Some t | _ \<Rightarrow> None
      else Some t)"

end
