(* ===== verification/Collection_Ops.thy ===== *)
theory Collection_Ops
  imports Collection_Tree
begin

text \<open>
  The operations on \<open>Map\<close> and \<open>Set\<close> (\<open>src/core/rtdata/collection_ops.cpp\<close>): lookup,
  construction from an array, the point updates that copy one path of the tree, the operations
  on two collections, and the arrays of keys, values and items. Where the code compares table
  addresses to see that nothing changed, the model returns that fact (\<open>Same\<close>, \<open>Unchanged\<close>).
\<close>

section \<open>Lookup\<close>

definition has :: "table \<Rightarrow> slot \<Rightarrow> keyType \<Rightarrow> bool option" where
  "has t key kt = do { leaf \<leftarrow> leafFor t key kt; found \<leftarrow> findInLeaf leaf key kt; Some (found \<noteq> None) }"

definition lookup :: "table \<Rightarrow> slot \<Rightarrow> keyType \<Rightarrow> slot option option" where
  "lookup t key kt =
     do { leaf \<leftarrow> leafFor t key kt;
          found \<leftarrow> findInLeaf leaf key kt;
          case found of
            None \<Rightarrow> Some None
          | Some i \<Rightarrow> if i < length (tvalues leaf) then Some (Some (tvalues leaf ! i)) else None }"

definition emptyT :: "Shape \<Rightarrow> CollType \<Rightarrow> table option" where
  "emptyT sh ct = newLeaf sh ct False [] []"

section \<open>Construction from an array\<close>

text \<open>\<open>std::stable_sort\<close> by the strict order \<open>compareKeys(keyAt(a), keyAt(b)) < 0\<close> of positions.\<close>

fun stableInsert :: "(nat \<Rightarrow> nat \<Rightarrow> int option) \<Rightarrow> nat \<Rightarrow> nat list \<Rightarrow> nat list option" where
  "stableInsert cmp x [] = Some [x]"
| "stableInsert cmp x (y # ys) =
     do { order \<leftarrow> cmp y x;
          if order < 0 then map_option ((#) y) (stableInsert cmp x ys) else Some (x # y # ys) }"

fun stableSort :: "(nat \<Rightarrow> nat \<Rightarrow> int option) \<Rightarrow> nat list \<Rightarrow> nat list option" where
  "stableSort cmp [] = Some []"
| "stableSort cmp (x # xs) = do { ys \<leftarrow> stableSort cmp xs; stableInsert cmp x ys }"

fun strictlyAscending :: "(nat \<Rightarrow> nat \<Rightarrow> int option) \<Rightarrow> nat \<Rightarrow> nat \<Rightarrow> bool option" where
  "strictlyAscending cmp i 0 = Some True"
| "strictlyAscending cmp i (Suc k) =
     do { order \<leftarrow> cmp (i - 1) i; if order < 0 then strictlyAscending cmp (i + 1) k else Some False }"

text \<open>Of every run of equal keys the last position is kept.\<close>

fun lastOfRuns :: "(nat \<Rightarrow> nat \<Rightarrow> int option) \<Rightarrow> nat list \<Rightarrow> nat list option" where
  "lastOfRuns cmp [] = Some []"
| "lastOfRuns cmp [x] = Some [x]"
| "lastOfRuns cmp (x # y # ys) =
     do { order \<leftarrow> cmp x y;
          rest \<leftarrow> lastOfRuns cmp (y # ys);
          Some (if order \<noteq> 0 then x # rest else rest) }"

definition fromArray :: "Shape \<Rightarrow> CollType \<Rightarrow> (slot \<times> slot) list \<Rightarrow> table option" where
  "fromArray sh ct array =
     (let n = length array; kt = keyTy ct;
          keyAt = (\<lambda>i. fst (array ! i)); valueAt = (\<lambda>i. snd (array ! i));
          cmp = (\<lambda>i j. compareKeys (keyAt i) (keyAt j) kt)
      in if n = 0 then newLeaf sh ct False [] []
         else do { asc \<leftarrow> strictlyAscending cmp 1 (n - 1);
                   order \<leftarrow> (if asc then Some (map u32 [0..<n])
                            else do { sorted \<leftarrow> stableSort cmp (map u32 [0..<n]); lastOfRuns cmp sorted });
                   t \<leftarrow> buildTree sh ct (length order) (\<lambda>i. keyAt (order ! i)) (\<lambda>i. valueAt (order ! i));
                   checked sh ct t })"

section \<open>Insertion\<close>

datatype Grown = Same | One table | Two table table

definition insertIntoLeaf :: "Shape \<Rightarrow> CollType \<Rightarrow> table \<Rightarrow> slot \<Rightarrow> slot \<Rightarrow> bool \<Rightarrow> Grown option" where
  "insertIntoLeaf sh ct t key val inTree =
     (let n = tsize t; ks = tkeys t; vs = tvalues t
      in do { pos \<leftarrow> lowerBound t key (keyTy ct);
              present \<leftarrow> (if pos < n then map_option (\<lambda>order. order = 0) (compareKeys (ks ! pos) key (keyTy ct))
                         else Some False);
              if present \<and> \<not> isMap ct then Some Same
              else if \<not> present \<and> n + 1 > leafCapacity sh ct
              then let keyAt = (\<lambda>i. if i < pos then ks ! i else if i = pos then key else ks ! (i - 1));
                       valueAt = (\<lambda>i. if i < pos then vs ! i else if i = pos then val else vs ! (i - 1));
                       half = (n + 1) div 2
                   in do { a \<leftarrow> leafOf sh ct True 0 half keyAt valueAt;
                           b \<leftarrow> leafOf sh ct True half (n + 1) keyAt valueAt;
                           Some (Two a b) }
              else let from = pos + (if present then 1 else 0);
                       tail = n - pos - (if present then 1 else 0)
                   in do { r \<leftarrow> newLeaf sh ct inTree
                             (take pos ks @ [if present then ks ! pos else key] @ take tail (drop from ks))
                             (take pos vs @ [val] @ take tail (drop from vs));
                           Some (One r) } })"

definition childrenWith :: "table list \<Rightarrow> nat \<Rightarrow> table list \<Rightarrow> table list" where
  "childrenWith cs i new = take i cs @ new @ drop (i + 1) cs"

function insertInto :: "Shape \<Rightarrow> CollType \<Rightarrow> table \<Rightarrow> slot \<Rightarrow> slot \<Rightarrow> bool \<Rightarrow> Grown option" where
  "insertInto sh ct (Leaf ks vs) key val inTree = insertIntoLeaf sh ct (Leaf ks vs) key val inTree"
| "insertInto sh ct (Branch n h seps cs) key val inTree =
     (case childIndex (Branch n h seps cs) key (keyTy ct) of
        None \<Rightarrow> None
      | Some pos \<Rightarrow>
          if pos < length cs
          then (case insertInto sh ct (cs ! pos) key val True of
                  None \<Rightarrow> None
                | Some Same \<Rightarrow> Some Same
                | Some grown \<Rightarrow>
                    let children = childrenWith cs pos (case grown of One a \<Rightarrow> [a] | Two a b \<Rightarrow> [a, b] | Same \<Rightarrow> []);
                        count = length children
                    in if count \<le> fanout sh then map_option One (makeBranch sh children)
                       else let half = count div 2
                            in do { a \<leftarrow> makeBranch sh (take half children);
                                    b \<leftarrow> makeBranch sh (drop half children);
                                    Some (Two a b) })
          else None)"
  by pat_completeness auto
termination
  by (relation "measure (\<lambda>(sh, ct, t, key, val, inTree). size t)") (auto dest: size_child)

definition insertT :: "Shape \<Rightarrow> CollType \<Rightarrow> table \<Rightarrow> slot \<Rightarrow> slot \<Rightarrow> table option" where
  "insertT sh ct t key val =
     (case insertInto sh ct t key val False of
        None \<Rightarrow> None
      | Some Same \<Rightarrow> Some t
      | Some (One a) \<Rightarrow> Some a
      | Some (Two a b) \<Rightarrow> makeBranch sh [a, b])"

section \<open>Removal\<close>

datatype Removed = Unchanged | Rebuilt table

definition removeFromLeaf :: "Shape \<Rightarrow> CollType \<Rightarrow> table \<Rightarrow> slot \<Rightarrow> bool \<Rightarrow> Removed option" where
  "removeFromLeaf sh ct t key inTree =
     do { found \<leftarrow> findInLeaf t key (keyTy ct);
          case found of
            None \<Rightarrow> Some Unchanged
          | Some pos \<Rightarrow>
              let tail = tsize t - pos - 1
              in do { r \<leftarrow> newLeaf sh ct inTree
                        (take pos (tkeys t) @ take tail (drop (pos + 1) (tkeys t)))
                        (take pos (tvalues t) @ take tail (drop (pos + 1) (tvalues t)));
                      Some (Rebuilt r) } }"

definition underfull :: "Shape \<Rightarrow> CollType \<Rightarrow> table \<Rightarrow> bool" where
  "underfull sh ct t =
     (if isLeaf t then tsize t < leafCapacity sh ct div 2 else tcount t < fanout sh div 2)"

definition combine :: "Shape \<Rightarrow> CollType \<Rightarrow> table \<Rightarrow> table \<Rightarrow> table list option" where
  "combine sh ct a b =
     (if isLeaf a
      then let split = tsize a; total = split + tsize b;
               keyAt = (\<lambda>i. if i < split then tkeys a ! i else tkeys b ! (i - split));
               valueAt = (\<lambda>i. if i < split then tvalues a ! i else tvalues b ! (i - split))
           in if total \<le> leafCapacity sh ct
              then map_option (\<lambda>x. [x]) (leafOf sh ct True 0 total keyAt valueAt)
              else do { x \<leftarrow> leafOf sh ct True 0 (total div 2) keyAt valueAt;
                        y \<leftarrow> leafOf sh ct True (total div 2) total keyAt valueAt;
                        Some [x, y] }
      else let children = take (tcount a) (tchildren a) @ take (tcount b) (tchildren b);
               total = tcount a + tcount b
           in if total \<le> fanout sh then map_option (\<lambda>x. [x]) (makeBranch sh children)
              else do { x \<leftarrow> makeBranch sh (take (total div 2) children);
                        y \<leftarrow> makeBranch sh (drop (total div 2) children);
                        Some [x, y] })"

function removeFrom :: "Shape \<Rightarrow> CollType \<Rightarrow> table \<Rightarrow> slot \<Rightarrow> bool \<Rightarrow> Removed option" where
  "removeFrom sh ct (Leaf ks vs) key inTree = removeFromLeaf sh ct (Leaf ks vs) key inTree"
| "removeFrom sh ct (Branch n h seps cs) key inTree =
     (case childIndex (Branch n h seps cs) key (keyTy ct) of
        None \<Rightarrow> None
      | Some pos \<Rightarrow>
          if pos < length cs
          then (case removeFrom sh ct (cs ! pos) key True of
                  None \<Rightarrow> None
                | Some Unchanged \<Rightarrow> Some Unchanged
                | Some (Rebuilt shrunk) \<Rightarrow>
                    let children = childrenWith cs pos [shrunk]
                    in if underfull sh ct shrunk
                       then if length children > 1
                            then let left = (if pos > 0 then pos - 1 else pos)
                                 in do { made \<leftarrow> combine sh ct (children ! left) (children ! (left + 1));
                                         t \<leftarrow> makeBranch sh (take left children @ made @ drop (left + 2) children);
                                         Some (Rebuilt t) }
                            else None
                       else map_option Rebuilt (makeBranch sh children))
          else None)"
  by pat_completeness auto
termination
  by (relation "measure (\<lambda>(sh, ct, t, key, inTree). size t)") (auto dest: size_child)

text \<open>\<open>while (!result->isLeaf() && result->count() == 1)\<close>\<close>

fun dropSingleRoots :: "table \<Rightarrow> table" where
  "dropSingleRoots (Leaf ks vs) = Leaf ks vs"
| "dropSingleRoots (Branch n h seps cs) =
     (if tcount (Branch n h seps cs) = 1 then (case cs of c # _ \<Rightarrow> dropSingleRoots c | [] \<Rightarrow> Branch n h seps cs)
      else Branch n h seps cs)"

definition removeKey :: "Shape \<Rightarrow> CollType \<Rightarrow> table \<Rightarrow> slot \<Rightarrow> table option" where
  "removeKey sh ct t key =
     (case removeFrom sh ct t key False of
        None \<Rightarrow> None
      | Some Unchanged \<Rightarrow> Some (dropSingleRoots t)
      | Some (Rebuilt r) \<Rightarrow> Some (dropSingleRoots r))"

definition put :: "Shape \<Rightarrow> CollType \<Rightarrow> table \<Rightarrow> slot \<Rightarrow> slot \<Rightarrow> table option" where
  "put sh ct t key val = do { r \<leftarrow> insertT sh ct t key val; checked sh ct r }"

definition addT :: "Shape \<Rightarrow> CollType \<Rightarrow> table \<Rightarrow> slot \<Rightarrow> table option" where
  "addT sh ct t elem = do { r \<leftarrow> insertT sh ct t elem NullSlot; checked sh ct r }"

definition removeT :: "Shape \<Rightarrow> CollType \<Rightarrow> table \<Rightarrow> slot \<Rightarrow> table option" where
  "removeT sh ct t key = do { r \<leftarrow> removeKey sh ct t key; checked sh ct r }"

section \<open>Two leaves\<close>

text \<open>
  The passes over two leaves: the entries they leave in the scratch leaf, from positions \<open>i\<close>
  and \<open>j\<close> on. \<open>entryAt\<close> is what \<open>copyEntry\<close> copies.
\<close>

definition entryAt :: "CollType \<Rightarrow> table \<Rightarrow> nat \<Rightarrow> slot \<times> slot" where
  "entryAt ct t i = (tkeys t ! i, if isMap ct then tvalues t ! i else NullSlot)"

function mergeLeavesLoop :: "CollType \<Rightarrow> table \<Rightarrow> table \<Rightarrow> nat \<Rightarrow> nat \<Rightarrow> (slot \<times> slot) list option" where
  "mergeLeavesLoop ct a b i j =
     (if i < tsize a \<and> j < tsize b
      then do { order \<leftarrow> compareKeys (tkeys a ! i) (tkeys b ! j) (keyTy ct);
                if order < 0 then map_option ((#) (entryAt ct a i)) (mergeLeavesLoop ct a b (i + 1) j)
                else if order > 0 then map_option ((#) (entryAt ct b j)) (mergeLeavesLoop ct a b i (j + 1))
                else map_option ((#) (entryAt ct b j)) (mergeLeavesLoop ct a b (i + 1) (j + 1)) }
      else Some (map (entryAt ct a) [i..<tsize a] @ map (entryAt ct b) [j..<tsize b]))"
  by pat_completeness auto
termination
  by (relation "measure (\<lambda>(ct, a, b, i, j). (tsize a - i) + (tsize b - j))") auto

function intersectLeavesLoop :: "CollType \<Rightarrow> table \<Rightarrow> table \<Rightarrow> nat \<Rightarrow> nat \<Rightarrow> (slot \<times> slot) list option" where
  "intersectLeavesLoop ct a b i j =
     (if i < tsize a \<and> j < tsize b
      then do { order \<leftarrow> compareKeys (tkeys a ! i) (tkeys b ! j) (keyTy ct);
                if order < 0 then intersectLeavesLoop ct a b (i + 1) j
                else if order > 0 then intersectLeavesLoop ct a b i (j + 1)
                else map_option ((#) (tkeys a ! i, NullSlot)) (intersectLeavesLoop ct a b (i + 1) (j + 1)) }
      else Some [])"
  by pat_completeness auto
termination
  by (relation "measure (\<lambda>(ct, a, b, i, j). (tsize a - i) + (tsize b - j))") auto

function differenceLeavesLoop :: "CollType \<Rightarrow> table \<Rightarrow> table \<Rightarrow> nat \<Rightarrow> nat \<Rightarrow> (slot \<times> slot) list option" where
  "differenceLeavesLoop ct a b i j =
     (if i < tsize a
      then do { order \<leftarrow> (if j < tsize b then compareKeys (tkeys a ! i) (tkeys b ! j) (keyTy ct) else Some (- 1));
                if order < 0 then map_option ((#) (tkeys a ! i, NullSlot)) (differenceLeavesLoop ct a b (i + 1) j)
                else if order > 0
                then (if j < tsize b then differenceLeavesLoop ct a b i (j + 1) else None)
                else differenceLeavesLoop ct a b (i + 1) (j + 1) }
      else Some [])"
  by pat_completeness auto
termination
  by (relation "measure (\<lambda>(ct, a, b, i, j). (tsize a - i) + (tsize b - j))") auto

declare mergeLeavesLoop.simps [simp del] intersectLeavesLoop.simps [simp del] differenceLeavesLoop.simps [simp del]

text \<open>\<open>finished\<close>: the scratch leaf cut to the entries written.\<close>

definition finished :: "Shape \<Rightarrow> CollType \<Rightarrow> (slot \<times> slot) list \<Rightarrow> table option" where
  "finished sh ct es = newLeaf sh ct False (map fst es) (map snd es)"

definition mergeLeaves :: "Shape \<Rightarrow> CollType \<Rightarrow> table \<Rightarrow> table \<Rightarrow> table option" where
  "mergeLeaves sh ct a b = do { es \<leftarrow> mergeLeavesLoop ct a b 0 0; finished sh ct es }"

definition intersectLeaves :: "Shape \<Rightarrow> CollType \<Rightarrow> table \<Rightarrow> table \<Rightarrow> table option" where
  "intersectLeaves sh ct a b = do { es \<leftarrow> intersectLeavesLoop ct a b 0 0; finished sh ct es }"

definition differenceLeaves :: "Shape \<Rightarrow> CollType \<Rightarrow> table \<Rightarrow> table \<Rightarrow> table option" where
  "differenceLeaves sh ct a b = do { es \<leftarrow> differenceLeavesLoop ct a b 0 0; finished sh ct es }"

text \<open>The inner loop of \<open>isSubsetOfLeaf\<close> skips the keys of \<open>b\<close> before \<open>key\<close>.\<close>

function skipBefore :: "keyType \<Rightarrow> table \<Rightarrow> slot \<Rightarrow> nat \<Rightarrow> nat option" where
  "skipBefore kt b key j =
     (if j < tsize b
      then do { order \<leftarrow> compareKeys (tkeys b ! j) key kt;
                if order < 0 then skipBefore kt b key (j + 1) else Some j }
      else Some j)"
  by pat_completeness auto
termination
  by (relation "measure (\<lambda>(kt, b, key, j). tsize b - j)") auto

declare skipBefore.simps [simp del]

function isSubsetOfLeafLoop :: "keyType \<Rightarrow> table \<Rightarrow> table \<Rightarrow> nat \<Rightarrow> nat \<Rightarrow> bool option" where
  "isSubsetOfLeafLoop kt a b i j =
     (if i < tsize a
      then do { j' \<leftarrow> skipBefore kt b (tkeys a ! i) j;
                if j' = tsize b then Some False
                else do { order \<leftarrow> compareKeys (tkeys b ! j') (tkeys a ! i) kt;
                          if order \<noteq> 0 then Some False else isSubsetOfLeafLoop kt a b (i + 1) (j' + 1) } }
      else Some True)"
  by pat_completeness auto
termination
  by (relation "measure (\<lambda>(kt, a, b, i, j). tsize a - i)") auto

declare isSubsetOfLeafLoop.simps [simp del]

section \<open>Two collections\<close>

text \<open>
  The loops over cursors. A cursor that is advanced past its last entry is done, so each loop
  ends after as many steps as there are entries; the loops are partial functions and the
  theorems show that they return.
\<close>

partial_function (option) insertEach :: "Shape \<Rightarrow> CollType \<Rightarrow> Cursor \<Rightarrow> table \<Rightarrow> table option" where
  "insertEach sh ct from result =
     (if Cursor_done from then Some result
      else do { k \<leftarrow> Cursor_key from; v \<leftarrow> Cursor_value ct from;
                r \<leftarrow> insertT sh ct result k v;
                nxt \<leftarrow> Cursor_next from;
                insertEach sh ct nxt r })"

partial_function (option) insertMissing :: "Shape \<Rightarrow> CollType \<Rightarrow> table \<Rightarrow> Cursor \<Rightarrow> table \<Rightarrow> table option" where
  "insertMissing sh ct b from result =
     (if Cursor_done from then Some result
      else do { k \<leftarrow> Cursor_key from;
                present \<leftarrow> has b k (keyTy ct);
                r \<leftarrow> (if present then Some result
                     else do { v \<leftarrow> Cursor_value ct from; insertT sh ct result k v });
                nxt \<leftarrow> Cursor_next from;
                insertMissing sh ct b nxt r })"

partial_function (option) drain :: "CollType \<Rightarrow> Cursor \<Rightarrow> (slot \<times> slot) list \<Rightarrow> (slot \<times> slot) list option" where
  "drain ct x out =
     (if Cursor_done x then Some out
      else do { k \<leftarrow> Cursor_key x; v \<leftarrow> Cursor_value ct x; nxt \<leftarrow> Cursor_next x; drain ct nxt (out @ [(k, v)]) })"

partial_function (option) mergeCursors :: "CollType \<Rightarrow> Cursor \<Rightarrow> Cursor \<Rightarrow> (slot \<times> slot) list \<Rightarrow> (slot \<times> slot) list option" where
  "mergeCursors ct x y out =
     (if Cursor_done x \<or> Cursor_done y
      then do { out1 \<leftarrow> drain ct x out; drain ct y out1 }
      else do { kx \<leftarrow> Cursor_key x; ky \<leftarrow> Cursor_key y;
                order \<leftarrow> compareKeys kx ky (keyTy ct);
                if order < 0
                then do { v \<leftarrow> Cursor_value ct x; nx \<leftarrow> Cursor_next x; mergeCursors ct nx y (out @ [(kx, v)]) }
                else do { v \<leftarrow> Cursor_value ct y; ny \<leftarrow> Cursor_next y;
                          nx \<leftarrow> (if order = 0 then Cursor_next x else Some x);
                          mergeCursors ct nx ny (out @ [(ky, v)]) } })"

definition merge :: "Shape \<Rightarrow> CollType \<Rightarrow> table \<Rightarrow> table \<Rightarrow> table option" where
  "merge sh ct a b =
     (if tsize b = 0 then Some a
      else if tsize a = 0 then Some b
      else if isLeaf a \<and> isLeaf b
      then do { m \<leftarrow> mergeLeaves sh ct a b; r \<leftarrow> normalized sh ct m; checked sh ct r }
      else if muchSmaller b a
      then do { from \<leftarrow> Cursor_init b; r \<leftarrow> insertEach sh ct from a; checked sh ct r }
      else if muchSmaller a b
      then do { from \<leftarrow> Cursor_init a; r \<leftarrow> insertMissing sh ct b from b; checked sh ct r }
      else do { x \<leftarrow> Cursor_init a; y \<leftarrow> Cursor_init b;
                out \<leftarrow> mergeCursors ct x y [];
                r \<leftarrow> Entries_build sh ct out; checked sh ct r })"

text \<open>The elements of a cursor whose membership in \<open>other\<close> is \<open>wanted\<close>.\<close>

partial_function (option) selectMembers :: "CollType \<Rightarrow> table \<Rightarrow> bool \<Rightarrow> Cursor \<Rightarrow> (slot \<times> slot) list \<Rightarrow> (slot \<times> slot) list option" where
  "selectMembers ct other wanted from out =
     (if Cursor_done from then Some out
      else do { k \<leftarrow> Cursor_key from;
                present \<leftarrow> has other k (keyTy ct);
                nxt \<leftarrow> Cursor_next from;
                selectMembers ct other wanted nxt (if present = wanted then out @ [(k, NullSlot)] else out) })"

partial_function (option) intersectCursors :: "CollType \<Rightarrow> Cursor \<Rightarrow> Cursor \<Rightarrow> (slot \<times> slot) list \<Rightarrow> (slot \<times> slot) list option" where
  "intersectCursors ct x y out =
     (if Cursor_done x \<or> Cursor_done y then Some out
      else do { kx \<leftarrow> Cursor_key x; ky \<leftarrow> Cursor_key y;
                order \<leftarrow> compareKeys kx ky (keyTy ct);
                if order < 0 then do { nx \<leftarrow> Cursor_next x; intersectCursors ct nx y out }
                else if order > 0 then do { ny \<leftarrow> Cursor_next y; intersectCursors ct x ny out }
                else do { nx \<leftarrow> Cursor_next x; ny \<leftarrow> Cursor_next y;
                          intersectCursors ct nx ny (out @ [(kx, NullSlot)]) } })"

definition intersect :: "Shape \<Rightarrow> CollType \<Rightarrow> table \<Rightarrow> table \<Rightarrow> table option" where
  "intersect sh ct a b =
     (if isLeaf a \<and> isLeaf b then intersectLeaves sh ct a b
      else if muchSmaller a b \<or> muchSmaller b a
      then let small = (if tsize a \<le> tsize b then a else b);
               large = (if tsize a \<le> tsize b then b else a)
           in do { from \<leftarrow> Cursor_init small;
                   out \<leftarrow> selectMembers ct large True from [];
                   r \<leftarrow> Entries_build sh ct out; checked sh ct r }
      else do { x \<leftarrow> Cursor_init a; y \<leftarrow> Cursor_init b;
                out \<leftarrow> intersectCursors ct x y [];
                r \<leftarrow> Entries_build sh ct out; checked sh ct r })"

partial_function (option) removeEach :: "Shape \<Rightarrow> CollType \<Rightarrow> Cursor \<Rightarrow> table \<Rightarrow> table option" where
  "removeEach sh ct from result =
     (if Cursor_done from then Some result
      else do { k \<leftarrow> Cursor_key from;
                r \<leftarrow> removeKey sh ct result k;
                nxt \<leftarrow> Cursor_next from;
                removeEach sh ct nxt r })"

partial_function (option) differenceCursors :: "CollType \<Rightarrow> Cursor \<Rightarrow> Cursor \<Rightarrow> (slot \<times> slot) list \<Rightarrow> (slot \<times> slot) list option" where
  "differenceCursors ct x y out =
     (if Cursor_done x then Some out
      else do { kx \<leftarrow> Cursor_key x;
                order \<leftarrow> (if Cursor_done y then Some (- 1)
                         else do { ky \<leftarrow> Cursor_key y; compareKeys kx ky (keyTy ct) });
                if order < 0 then do { nx \<leftarrow> Cursor_next x; differenceCursors ct nx y (out @ [(kx, NullSlot)]) }
                else if order > 0 then do { ny \<leftarrow> Cursor_next y; differenceCursors ct x ny out }
                else do { nx \<leftarrow> Cursor_next x; ny \<leftarrow> Cursor_next y; differenceCursors ct nx ny out } })"

definition difference :: "Shape \<Rightarrow> CollType \<Rightarrow> table \<Rightarrow> table \<Rightarrow> table option" where
  "difference sh ct a b =
     (if tsize b = 0 \<or> tsize a = 0 then Some a
      else if isLeaf a \<and> isLeaf b then differenceLeaves sh ct a b
      else if muchSmaller b a
      then do { from \<leftarrow> Cursor_init b; r \<leftarrow> removeEach sh ct from a; checked sh ct r }
      else if muchSmaller a b
      then do { from \<leftarrow> Cursor_init a;
                out \<leftarrow> selectMembers ct b False from [];
                r \<leftarrow> Entries_build sh ct out; checked sh ct r }
      else do { x \<leftarrow> Cursor_init a; y \<leftarrow> Cursor_init b;
                out \<leftarrow> differenceCursors ct x y [];
                r \<leftarrow> Entries_build sh ct out; checked sh ct r })"

partial_function (option) allMembers :: "CollType \<Rightarrow> table \<Rightarrow> Cursor \<Rightarrow> bool option" where
  "allMembers ct b from =
     (if Cursor_done from then Some True
      else do { k \<leftarrow> Cursor_key from;
                present \<leftarrow> has b k (keyTy ct);
                if \<not> present then Some False
                else do { nxt \<leftarrow> Cursor_next from; allMembers ct b nxt } })"

partial_function (option) skipCursor :: "CollType \<Rightarrow> slot \<Rightarrow> Cursor \<Rightarrow> Cursor option" where
  "skipCursor ct key y =
     (if Cursor_done y then Some y
      else do { ky \<leftarrow> Cursor_key y;
                order \<leftarrow> compareKeys ky key (keyTy ct);
                if order < 0 then do { ny \<leftarrow> Cursor_next y; skipCursor ct key ny } else Some y })"

partial_function (option) subsetCursors :: "CollType \<Rightarrow> Cursor \<Rightarrow> Cursor \<Rightarrow> bool option" where
  "subsetCursors ct x y =
     (if Cursor_done x then Some True
      else do { kx \<leftarrow> Cursor_key x;
                y' \<leftarrow> skipCursor ct kx y;
                if Cursor_done y' then Some False
                else do { ky \<leftarrow> Cursor_key y';
                          order \<leftarrow> compareKeys ky kx (keyTy ct);
                          if order \<noteq> 0 then Some False
                          else do { ny \<leftarrow> Cursor_next y'; nx \<leftarrow> Cursor_next x; subsetCursors ct nx ny } } })"

definition isSubset :: "CollType \<Rightarrow> table \<Rightarrow> table \<Rightarrow> bool option" where
  "isSubset ct a b =
     (if tsize a > tsize b then Some False
      else if isLeaf a \<and> isLeaf b then isSubsetOfLeafLoop (keyTy ct) a b 0 0
      else if muchSmaller a b then do { from \<leftarrow> Cursor_init a; allMembers ct b from }
      else do { y \<leftarrow> Cursor_init b; x \<leftarrow> Cursor_init a; subsetCursors ct x y })"

section \<open>Arrays and equality\<close>

text \<open>An array of \<open>size()\<close> slots, written leaf by leaf; a write past its end stops.\<close>

definition writeSlots :: "'a list \<Rightarrow> nat \<Rightarrow> 'a list \<Rightarrow> 'a list option" where
  "writeSlots arr pos slots =
     (if pos + length slots \<le> length arr then Some (take pos arr @ slots @ drop (pos + length slots) arr)
      else None)"

fun writeLeaves :: "(table \<Rightarrow> 'a list) \<Rightarrow> table list \<Rightarrow> nat \<Rightarrow> 'a list \<Rightarrow> 'a list option" where
  "writeLeaves f [] pos arr = Some arr"
| "writeLeaves f (leaf # leaves) pos arr =
     do { arr' \<leftarrow> writeSlots arr pos (f leaf); writeLeaves f leaves (pos + tsize leaf) arr' }"

definition keysT :: "table \<Rightarrow> slot list option" where
  "keysT t = writeLeaves (\<lambda>leaf. take (tsize leaf) (tkeys leaf)) (leavesOf t) 0 (replicate (tsize t) NullSlot)"

definition valuesT :: "table \<Rightarrow> slot list option" where
  "valuesT t = writeLeaves (\<lambda>leaf. take (tsize leaf) (tvalues leaf)) (leavesOf t) 0 (replicate (tsize t) NullSlot)"

definition itemsT :: "table \<Rightarrow> (slot \<times> slot) list option" where
  "itemsT t = writeLeaves (\<lambda>leaf. zip (take (tsize leaf) (tkeys leaf)) (take (tsize leaf) (tvalues leaf)))
     (leavesOf t) 0 (replicate (tsize t) (NullSlot, NullSlot))"

text \<open>\<open>forEachEntry\<close>: the entries visited, in order.\<close>

definition forEachEntry :: "CollType \<Rightarrow> table \<Rightarrow> (slot \<times> slot) list" where
  "forEachEntry ct t = concat (map (\<lambda>leaf. map (entryAt ct leaf) [0..<tsize leaf]) (leavesOf t))"

text \<open>\<open>Table::equals\<close> with \<open>deep\<close>; \<open>valEq\<close> is \<open>valuesEqual\<close> at the value type, which may stop the process
  when it reads a slot,
  and \<open>sameObject\<close> says that both operands are one object.\<close>

partial_function (option) equalCursors :: "CollType \<Rightarrow> (slot \<Rightarrow> slot \<Rightarrow> bool option) \<Rightarrow> Cursor \<Rightarrow> Cursor \<Rightarrow> bool option" where
  "equalCursors ct valEq a b =
     (if Cursor_done a then Some True
      else do { ka \<leftarrow> Cursor_key a; kb \<leftarrow> Cursor_key b;
                order \<leftarrow> compareKeys ka kb (keyTy ct);
                if order \<noteq> 0 then Some False
                else do { same \<leftarrow> (if isMap ct
                                  then do { va \<leftarrow> Cursor_value ct a; vb \<leftarrow> Cursor_value ct b; valEq va vb }
                                  else Some True);
                          if \<not> same then Some False
                          else do { na \<leftarrow> Cursor_next a; nb \<leftarrow> Cursor_next b; equalCursors ct valEq na nb } } })"

fun equalKeys :: "keyType \<Rightarrow> slot list \<Rightarrow> slot list \<Rightarrow> bool option" where
  "equalKeys kt (x # xs) (y # ys) =
     do { order \<leftarrow> compareKeys x y kt; if order \<noteq> 0 then Some False else equalKeys kt xs ys }"
| "equalKeys kt xs ys = Some True"

fun equalValues :: "(slot \<Rightarrow> slot \<Rightarrow> bool option) \<Rightarrow> slot list \<Rightarrow> slot list \<Rightarrow> bool option" where
  "equalValues valEq (x # xs) (y # ys) =
     do { same \<leftarrow> valEq x y; if \<not> same then Some False else equalValues valEq xs ys }"
| "equalValues valEq xs ys = Some True"

definition equalsT :: "CollType \<Rightarrow> (slot \<Rightarrow> slot \<Rightarrow> bool option) \<Rightarrow> bool \<Rightarrow> table \<Rightarrow> table \<Rightarrow> bool option" where
  "equalsT ct valEq sameObject a b =
     (if sameObject then Some True
      else if tsize a \<noteq> tsize b then Some False
      else if \<not> isLeaf a \<or> \<not> isLeaf b
      then do { x \<leftarrow> Cursor_init a; y \<leftarrow> Cursor_init b; equalCursors ct valEq x y }
      else do { ks \<leftarrow> equalKeys (keyTy ct) (take (tsize a) (tkeys a)) (take (tsize a) (tkeys b));
                if \<not> ks then Some False
                else if \<not> isMap ct then Some True
                else equalValues valEq (take (tsize a) (tvalues a)) (take (tsize a) (tvalues b)) })"

end
