(* ===== verification/Collection_Inv.thy ===== *)
theory Collection_Inv
  imports Collection_Ops
begin

text \<open>
  The invariant of a collection tree and what it gives: the entries of a tree are in strictly
  ascending key order, searches find the place of a key, branches and bottom-up builds keep the
  invariant, the height is bounded, and no \<open>GUARD\<close> of these routines fires. The abstraction of a
  tree is its list of entries (\<open>entriesT\<close>).
\<close>

section \<open>Entries and invariant\<close>

abbreviation cmpT :: "CollType \<Rightarrow> slot \<Rightarrow> slot \<Rightarrow> int" where
  "cmpT ct \<equiv> cmpKeys (keyTy ct)"

definition leafEntries :: "CollType \<Rightarrow> slot list \<Rightarrow> slot list \<Rightarrow> (slot \<times> slot) list" where
  "leafEntries ct ks vs = (if isMap ct then zip ks vs else map (\<lambda>k. (k, NullSlot)) ks)"

fun entriesT :: "CollType \<Rightarrow> table \<Rightarrow> (slot \<times> slot) list" where
  "entriesT ct (Leaf ks vs) = leafEntries ct ks vs"
| "entriesT ct (Branch n h seps cs) = concat (map (entriesT ct) cs)"

definition shape_ok :: "Shape \<Rightarrow> bool" where
  "shape_ok sh \<longleftrightarrow> 2 \<le> leafCap sh \<and> leafCap sh \<le> sizeMax \<and> 4 \<le> fanout sh \<and> fanout sh \<le> kMaxFanout"

text \<open>\<open>full\<close>: a table below a branch holds its minimum.\<close>

fun full :: "Shape \<Rightarrow> CollType \<Rightarrow> table \<Rightarrow> bool" where
  "full sh ct (Leaf ks vs) \<longleftrightarrow> ks \<noteq> [] \<and> leafCapacity sh ct div 2 \<le> length ks"
| "full sh ct (Branch n h seps cs) \<longleftrightarrow> fanout sh div 2 \<le> length cs"

definition valuesOk :: "CollType \<Rightarrow> slot list \<Rightarrow> slot list \<Rightarrow> bool" where
  "valuesOk ct ks vs \<longleftrightarrow> (if isMap ct then length vs = length ks else vs = [])"

fun wft :: "Shape \<Rightarrow> CollType \<Rightarrow> table \<Rightarrow> bool" where
  "wft sh ct (Leaf ks vs) \<longleftrightarrow> length ks \<le> leafCapacity sh ct \<and> valuesOk ct ks vs"
| "wft sh ct (Branch n h seps cs) \<longleftrightarrow>
     cs \<noteq> [] \<and> length cs \<le> fanout sh \<and> n = length (concat (map (entriesT ct) cs)) \<and>
     (\<forall>c \<in> set cs. wft sh ct c \<and> full sh ct c \<and> theight c + 1 = h) \<and>
     list_all2 (\<lambda>s c. cmpT ct s (firstKey c) = 0 \<and> liveKey (keyTy ct) s) seps cs"

fun rootOk :: "table \<Rightarrow> bool" where
  "rootOk (Leaf ks vs) \<longleftrightarrow> True"
| "rootOk (Branch n h seps cs) \<longleftrightarrow> 2 \<le> length cs"

definition keysOk :: "CollType \<Rightarrow> (slot \<times> slot) list \<Rightarrow> bool" where
  "keysOk ct es \<longleftrightarrow> ascending (cmpT ct) (map fst es) \<and> (\<forall>e \<in> set es. liveKey (keyTy ct) (fst e))"

text \<open>The invariant of a collection, and the map it stands for.\<close>

definition validT :: "Shape \<Rightarrow> CollType \<Rightarrow> table \<Rightarrow> bool" where
  "validT sh ct t \<longleftrightarrow> wft sh ct t \<and> rootOk t \<and> keysOk ct (entriesT ct t) \<and> length (entriesT ct t) < 2 ^ 32"

definition tmap :: "CollType \<Rightarrow> table \<Rightarrow> slot \<Rightarrow> slot option" where
  "tmap ct t k = findEntry (cmpT ct) k (entriesT ct t)"

definition sameLevel :: "Shape \<Rightarrow> CollType \<Rightarrow> nat \<Rightarrow> table list \<Rightarrow> bool" where
  "sameLevel sh ct h cs \<longleftrightarrow> (\<forall>c \<in> set cs. wft sh ct c \<and> full sh ct c \<and> theight c = h)"

abbreviation levelEntries :: "CollType \<Rightarrow> table list \<Rightarrow> (slot \<times> slot) list" where
  "levelEntries ct cs \<equiv> concat (map (entriesT ct) cs)"

section \<open>Basic facts\<close>

lemma shape_okD:
  assumes "shape_ok sh"
  shows "2 \<le> leafCapacity sh ct" "4 \<le> fanout sh" "fanout sh \<le> 256" "1 \<le> leafCapacity sh ct div 2" "2 \<le> fanout sh div 2"
proof -
  show "2 \<le> leafCapacity sh ct" using assms by (auto simp: shape_ok_def leafCapacity_def)
  then show "1 \<le> leafCapacity sh ct div 2" by simp
  show "4 \<le> fanout sh" "fanout sh \<le> 256" "2 \<le> fanout sh div 2"
    using assms by (auto simp: shape_ok_def kMaxFanout_def)
qed

lemma length_leafEntries: "valuesOk ct ks vs \<Longrightarrow> length (leafEntries ct ks vs) = length ks"
  by (simp add: leafEntries_def valuesOk_def split: if_splits)

lemma keys_leafEntries: "valuesOk ct ks vs \<Longrightarrow> map fst (leafEntries ct ks vs) = ks"
  by (simp add: leafEntries_def valuesOk_def comp_def split: if_splits)

lemma nth_leafEntries: "valuesOk ct ks vs \<Longrightarrow> i < length ks \<Longrightarrow>
  leafEntries ct ks vs ! i = (ks ! i, if isMap ct then vs ! i else NullSlot)"
  by (simp add: leafEntries_def valuesOk_def split: if_splits)

lemma keysOk_append:
  "keysOk ct (xs @ ys) \<longleftrightarrow> keysOk ct xs \<and> keysOk ct ys \<and> (\<forall>x \<in> set xs. \<forall>y \<in> set ys. cmpT ct (fst x) (fst y) < 0)"
  by (auto simp: keysOk_def)

lemma keysOk_Nil [simp]: "keysOk ct []" by (simp add: keysOk_def)

lemma keysOk_filter: "keysOk ct es \<Longrightarrow> keysOk ct (filter P es)"
  by (auto simp: keysOk_def ascending_filter)

lemma keysOk_insert: "keysOk ct es \<Longrightarrow> liveKey (keyTy ct) k \<Longrightarrow> keysOk ct (insertEntry (cmpT ct) k v es)"
proof -
  assume h: "keysOk ct es" "liveKey (keyTy ct) k"
  have "\<forall>e \<in> set (insertEntry (cmpT ct) k v es). liveKey (keyTy ct) (fst e)"
  proof
    fix e assume "e \<in> set (insertEntry (cmpT ct) k v es)"
    then have "fst e = k \<or> fst e \<in> fst ` set es" using insertEntry_keys [of "cmpT ct" k v es] by auto
    then show "liveKey (keyTy ct) (fst e)" using h by (auto simp: keysOk_def)
  qed
  then show ?thesis using h key.insertEntry_asc by (auto simp: keysOk_def)
qed

lemma keysOk_delete: "keysOk ct es \<Longrightarrow> keysOk ct (deleteEntry (cmpT ct) k es)"
  by (simp add: deleteEntry_def keysOk_filter)

lemma concat_split_nth:
  "i < length cs \<Longrightarrow> concat (map f cs) = concat (map f (take i cs)) @ f (cs ! i) @ concat (map f (drop (i + 1) cs))"
  by (subst id_take_nth_drop [of i cs]) simp_all

lemma wft_entries: "shape_ok sh \<Longrightarrow> wft sh ct t \<Longrightarrow> full sh ct t \<Longrightarrow> entriesT ct t \<noteq> []"
proof (induction t)
  case (Leaf ks vs)
  then have "length (entriesT ct (Leaf ks vs)) = length ks" by (simp add: length_leafEntries)
  then show ?case using Leaf.prems(3) by (metis full.simps(1) length_0_conv)
next
  case (Branch n h seps cs)
  then obtain c cs' where "cs = c # cs'" by (cases cs) auto
  then show ?case using Branch by auto
qed

lemma firstKey_spec:
  "shape_ok sh \<Longrightarrow> wft sh ct t \<Longrightarrow> entriesT ct t \<noteq> [] \<Longrightarrow> keysOk ct (entriesT ct t) \<Longrightarrow>
   cmpT ct (firstKey t) (fst (hd (entriesT ct t))) = 0 \<and> liveKey (keyTy ct) (firstKey t) \<and> tkeys t \<noteq> []"
proof (induction t)
  case (Leaf ks vs)
  then have v: "valuesOk ct ks vs" and n: "ks \<noteq> []"
    by (auto simp: leafEntries_def split: if_splits)
  then have "leafEntries ct ks vs \<noteq> []" using length_leafEntries [OF v] by (metis length_0_conv)
  then have "fst (hd (leafEntries ct ks vs)) = ks ! 0"
    using nth_leafEntries [OF v, of 0] n by (simp add: hd_conv_nth)
  moreover have "leafEntries ct ks vs ! 0 \<in> set (leafEntries ct ks vs)"
    using n length_leafEntries [OF v] by (intro nth_mem) simp
  then have "liveKey (keyTy ct) (ks ! 0)" using Leaf.prems nth_leafEntries [OF v, of 0] n by (auto simp: keysOk_def)
  ultimately show ?case using n by (simp add: firstKey_def key.cmp_refl)
next
  case (Branch n h seps cs)
  then obtain c cs' where c: "cs = c # cs'" by (cases cs) auto
  then obtain s seps' where s: "seps = s # seps'" "cmpT ct s (firstKey c) = 0" "liveKey (keyTy ct) s"
    using Branch.prems by (auto simp: list_all2_Cons2)
  have e: "entriesT ct c \<noteq> []" using Branch.prems c wft_entries [of sh ct c] by simp
  moreover have "keysOk ct (entriesT ct c)" using Branch.prems c by (simp add: keysOk_append)
  ultimately have "cmpT ct (firstKey c) (fst (hd (entriesT ct c))) = 0" using Branch c by simp
  then have "cmpT ct s (fst (hd (entriesT ct c))) = 0" using s(2) key.cmp_eq_left by blast
  then show ?case using s c e by (simp add: firstKey_def)
qed

lemma tsize_wft: "wft sh ct t \<Longrightarrow> length (entriesT ct t) < 2 ^ 32 \<Longrightarrow> tsize t = length (entriesT ct t)"
  by (cases t) (auto simp: length_leafEntries)

lemma tcount_wft: "shape_ok sh \<Longrightarrow> wft sh ct (Branch n h seps cs) \<Longrightarrow> tcount (Branch n h seps cs) = length cs"
  using shape_okD(3) [of sh] by simp

lemma theight_entries:
  "shape_ok sh \<Longrightarrow> wft sh ct t \<Longrightarrow> full sh ct t \<Longrightarrow> 2 ^ theight t \<le> length (entriesT ct t)"
proof (induction t)
  case (Leaf ks vs)
  then show ?case by (cases ks) (auto simp: length_leafEntries)
next
  case (Branch n h seps cs)
  have two: "2 \<le> length cs" using Branch.prems shape_okD(5) [of sh] by simp
  then obtain a b cs' where cs: "cs = a # b # cs'" by (cases cs; cases "tl cs") auto
  have "2 ^ theight a \<le> length (entriesT ct a)" "2 ^ theight b \<le> length (entriesT ct b)" "theight a + 1 = h" "theight b + 1 = h"
    using Branch cs by auto
  moreover then have "(2 :: nat) ^ h = 2 ^ theight a + 2 ^ theight b" by auto
  ultimately show ?case using cs by simp
qed

text \<open>No tree is higher than 32, so the height fits its field and a cursor its path.\<close>

lemma theight_bound:
  assumes "shape_ok sh" "wft sh ct t" "length (entriesT ct t) < 2 ^ 32"
  shows "theight t \<le> 32"
proof (cases t)
  case (Branch n h seps cs)
  then obtain c cs' where c: "cs = c # cs'" using assms by (cases cs) auto
  then have "2 ^ theight c \<le> length (entriesT ct c)" "theight c + 1 = h"
    using assms Branch theight_entries [of sh ct c] by auto
  moreover have "length (entriesT ct c) < 2 ^ 32" using assms Branch c by simp
  ultimately have "(2 :: nat) ^ theight c < 2 ^ 32" by linarith
  then have "theight c < 32" by (rule power_less_imp_less_exp [rotated]) simp
  then show ?thesis using \<open>theight c + 1 = h\<close> Branch by simp
qed simp

section \<open>Searching\<close>

lemma lowerBoundLoop_spec:
  assumes asc: "ascending (cmpKeys kt) ks" and live: "\<forall>k \<in> set ks. liveKey kt k" "liveKey kt key"
  shows "lo \<le> hi \<Longrightarrow> hi \<le> length ks \<Longrightarrow> \<forall>i < lo. cmpKeys kt (ks ! i) key < 0 \<Longrightarrow>
    \<forall>i. hi \<le> i \<and> i < length ks \<longrightarrow> 0 \<le> cmpKeys kt (ks ! i) key \<Longrightarrow>
    \<exists>p. lowerBoundLoop kt ks key lo hi = Some p \<and> p \<le> length ks \<and> (\<forall>i < p. cmpKeys kt (ks ! i) key < 0) \<and>
      (\<forall>i. p \<le> i \<and> i < length ks \<longrightarrow> 0 \<le> cmpKeys kt (ks ! i) key)"
  using assms
proof (induction kt ks key lo hi rule: lowerBoundLoop.induct)
  case (1 kt ks key lo hi)
  show ?case
  proof (cases "lo < hi")
    case False
    then have "lowerBoundLoop kt ks key lo hi = Some lo" by (subst lowerBoundLoop.simps) simp
    then show ?thesis using "1.prems" False by auto
  next
    case True
    let ?m = "lo + (hi - lo) div 2"
    have m: "lo \<le> ?m" "?m < hi" using True by auto
    then have ml: "?m < length ks" using "1.prems" by simp
    have cmp: "compareKeys (ks ! ?m) key kt = Some (cmpKeys kt (ks ! ?m) key)"
      using "1.prems" ml by (intro compareKeys_live) auto
    show ?thesis
    proof (cases "cmpKeys kt (ks ! ?m) key < 0")
      case t: True
      have "cmpKeys kt (ks ! i) key < 0" if "i < ?m + 1" for i
      proof (cases "i = ?m")
        case False
        then have "cmpKeys kt (ks ! i) (ks ! ?m) < 0" using that ml "1.prems" by (intro ascending_nth) auto
        then show ?thesis using t key.cmp_less_trans by blast
      qed (use t in simp)
      moreover have "lowerBoundLoop kt ks key lo hi = lowerBoundLoop kt ks key (?m + 1) hi"
        using True t cmp by (subst lowerBoundLoop.simps) (simp add: Let_def)
      ultimately show ?thesis using 1(1) [OF True refl cmp t] "1.prems" m by auto
    next
      case f: False
      have "0 \<le> cmpKeys kt (ks ! i) key" if "?m \<le> i" "i < length ks" for i
      proof (cases "i = ?m")
        case False
        then have "cmpKeys kt (ks ! ?m) (ks ! i) < 0" using that ml "1.prems" by (intro ascending_nth) auto
        then show ?thesis using f key.cmp_less_trans by force
      qed (use f in simp)
      moreover have "lowerBoundLoop kt ks key lo hi = lowerBoundLoop kt ks key lo ?m"
        using True f cmp by (subst lowerBoundLoop.simps) (simp add: Let_def)
      ultimately show ?thesis using 1(2) [OF True refl cmp f] "1.prems" m ml by auto
    qed
  qed
qed

lemma childIndexLoop_spec:
  assumes asc: "ascending (cmpKeys kt) ks" and live: "\<forall>k \<in> set ks. liveKey kt k" "liveKey kt key"
  shows "lo \<le> hi \<Longrightarrow> hi \<le> length ks \<Longrightarrow> \<forall>i < lo. 0 < i \<longrightarrow> cmpKeys kt (ks ! i) key \<le> 0 \<Longrightarrow> 1 \<le> lo \<Longrightarrow>
    \<forall>i. hi \<le> i \<and> i < length ks \<longrightarrow> 0 < cmpKeys kt (ks ! i) key \<Longrightarrow>
    \<exists>p. childIndexLoop kt ks key lo hi = Some p \<and> 1 \<le> p \<and> p \<le> length ks \<and>
      (\<forall>i < p. 0 < i \<longrightarrow> cmpKeys kt (ks ! i) key \<le> 0) \<and>
      (\<forall>i. p \<le> i \<and> i < length ks \<longrightarrow> 0 < cmpKeys kt (ks ! i) key)"
  using assms
proof (induction kt ks key lo hi rule: childIndexLoop.induct)
  case (1 kt ks key lo hi)
  show ?case
  proof (cases "lo < hi")
    case False
    then have "childIndexLoop kt ks key lo hi = Some lo" by (subst childIndexLoop.simps) simp
    then show ?thesis using "1.prems" False by auto
  next
    case True
    let ?m = "lo + (hi - lo) div 2"
    have m: "lo \<le> ?m" "?m < hi" using True by auto
    then have ml: "?m < length ks" using "1.prems" by simp
    have cmp: "compareKeys (ks ! ?m) key kt = Some (cmpKeys kt (ks ! ?m) key)"
      using "1.prems" ml by (intro compareKeys_live) auto
    show ?thesis
    proof (cases "cmpKeys kt (ks ! ?m) key \<le> 0")
      case t: True
      have "cmpKeys kt (ks ! i) key \<le> 0" if "i < ?m + 1" for i
      proof (cases "i = ?m")
        case False
        then have "cmpKeys kt (ks ! i) (ks ! ?m) < 0" using that ml "1.prems" by (intro ascending_nth) auto
        then show ?thesis using t key.cmp_less_le by force
      qed (use t in simp)
      moreover have "childIndexLoop kt ks key lo hi = childIndexLoop kt ks key (?m + 1) hi"
        using True t cmp by (subst childIndexLoop.simps) (simp add: Let_def)
      ultimately show ?thesis using 1(1) [OF True refl cmp t] "1.prems" m by auto
    next
      case f: False
      have "0 < cmpKeys kt (ks ! i) key" if "?m \<le> i" "i < length ks" for i
      proof (cases "i = ?m")
        case False
        then have "cmpKeys kt (ks ! ?m) (ks ! i) < 0" using that ml "1.prems" by (intro ascending_nth) auto
        then show ?thesis using f key.cmp_less_le [of kt "ks ! ?m" "ks ! i" key] by force
      qed (use f in simp)
      moreover have "childIndexLoop kt ks key lo hi = childIndexLoop kt ks key lo ?m"
        using True f cmp by (subst childIndexLoop.simps) (simp add: Let_def)
      ultimately show ?thesis using 1(2) [OF True refl cmp f] "1.prems" m ml by auto
    qed
  qed
qed

text \<open>The place of a key among the entries of a leaf.\<close>

lemma lowerBound_leaf:
  assumes v: "valuesOk ct ks vs" and n: "length ks < 2 ^ 32" and ok: "keysOk ct (leafEntries ct ks vs)"
    and live: "liveKey (keyTy ct) key"
  shows "\<exists>p. lowerBound (Leaf ks vs) key (keyTy ct) = Some p \<and> p \<le> length ks \<and>
    (\<forall>i < p. cmpT ct (ks ! i) key < 0) \<and> (\<forall>i. p \<le> i \<and> i < length ks \<longrightarrow> 0 \<le> cmpT ct (ks ! i) key) \<and>
    (\<forall>i. p < i \<and> i < length ks \<longrightarrow> 0 < cmpT ct (ks ! i) key)"
proof -
  have asc: "ascending (cmpT ct) ks" and l: "\<forall>k \<in> set ks. liveKey (keyTy ct) k"
  proof -
    have m: "map fst (leafEntries ct ks vs) = ks" by (rule keys_leafEntries [OF v])
    then show "ascending (cmpT ct) ks" using ok by (simp add: keysOk_def)
    have "set ks = fst ` set (leafEntries ct ks vs)" by (metis m set_map)
    then show "\<forall>k \<in> set ks. liveKey (keyTy ct) k" using ok by (auto simp: keysOk_def)
  qed
  obtain p where p: "lowerBoundLoop (keyTy ct) ks key 0 (length ks) = Some p" "p \<le> length ks"
    "\<forall>i < p. cmpT ct (ks ! i) key < 0" "\<forall>i. p \<le> i \<and> i < length ks \<longrightarrow> 0 \<le> cmpT ct (ks ! i) key"
    using lowerBoundLoop_spec [OF asc l live, of 0 "length ks"] by auto
  have "0 < cmpT ct (ks ! i) key" if "p < i" "i < length ks" for i
  proof -
    have "cmpT ct (ks ! p) (ks ! i) < 0" using that asc by (intro ascending_nth) auto
    moreover have "cmpT ct key (ks ! p) \<le> 0" using p(4) that key.cmp_sym [of "keyTy ct" key "ks ! p"] by auto
    ultimately have "cmpT ct key (ks ! i) < 0" using key.cmp_le_less by blast
    then show ?thesis using key.cmp_pos by blast
  qed
  then show ?thesis using p n by (auto simp: lowerBound_def)
qed

lemma cmp_leafKeys: "keysOk ct (leafEntries ct ks vs) \<Longrightarrow> valuesOk ct ks vs \<Longrightarrow> liveKey (keyTy ct) key \<Longrightarrow>
  i < length ks \<Longrightarrow> compareKeys (ks ! i) key (keyTy ct) = Some (cmpT ct (ks ! i) key)"
proof (rule compareKeys_live(1))
  assume "keysOk ct (leafEntries ct ks vs)" and v: "valuesOk ct ks vs" and i: "i < length ks"
  then show "liveKey (keyTy ct) (ks ! i)"
    using nth_leafEntries [OF v i] nth_mem [of i "leafEntries ct ks vs"] length_leafEntries [OF v]
    by (auto simp: keysOk_def)
qed

lemma findInLeaf_spec:
  assumes v: "valuesOk ct ks vs" and n: "length ks < 2 ^ 32" and ok: "keysOk ct (leafEntries ct ks vs)"
    and live: "liveKey (keyTy ct) key"
  shows "\<exists>r. findInLeaf (Leaf ks vs) key (keyTy ct) = Some r \<and>
    (case r of
       None \<Rightarrow> (\<forall>i < length ks. cmpT ct (ks ! i) key \<noteq> 0)
     | Some p \<Rightarrow> p < length ks \<and> cmpT ct (ks ! p) key = 0 \<and> (\<forall>i < p. cmpT ct (ks ! i) key < 0) \<and>
         (\<forall>i. p < i \<and> i < length ks \<longrightarrow> 0 < cmpT ct (ks ! i) key))"
proof -
  obtain p where p: "lowerBound (Leaf ks vs) key (keyTy ct) = Some p" "p \<le> length ks"
    "\<forall>i < p. cmpT ct (ks ! i) key < 0" "\<forall>i. p < i \<and> i < length ks \<longrightarrow> 0 < cmpT ct (ks ! i) key"
    using lowerBound_leaf [OF assms] by blast
  show ?thesis
  proof (cases "p < length ks \<and> cmpT ct (ks ! p) key = 0")
    case True
    then have "findInLeaf (Leaf ks vs) key (keyTy ct) = Some (Some p)"
      using p n cmp_leafKeys [OF ok v live] by (simp add: findInLeaf_def)
    then show ?thesis using True p by simp
  next
    case False
    have ne: "\<forall>i < length ks. cmpT ct (ks ! i) key \<noteq> 0"
    proof (intro allI impI)
      fix i assume "i < length ks"
      then show "cmpT ct (ks ! i) key \<noteq> 0" using p(3,4) False by (cases i p rule: linorder_cases) auto
    qed
    have "findInLeaf (Leaf ks vs) key (keyTy ct) = Some None"
      using p n False cmp_leafKeys [OF ok v live] by (auto simp: findInLeaf_def)
    then show ?thesis using ne by simp
  qed
qed

lemma children_less:
  assumes "keysOk ct (concat (map (entriesT ct) cs))" "i < j" "j < length cs"
    and "x \<in> set (entriesT ct (cs ! i))" "y \<in> set (entriesT ct (cs ! j))"
  shows "cmpT ct (fst x) (fst y) < 0"
proof -
  have "i < length cs" using assms by simp
  note sp = concat_split_nth [OF this, of "entriesT ct"]
  have "drop (i + 1) cs ! (j - (i + 1)) = cs ! j" using assms by (simp add: nth_drop)
  then have "cs ! j \<in> set (drop (i + 1) cs)"
    using assms by (metis Suc_eq_plus1 Suc_leI diff_less_mono length_drop nth_mem)
  then have "y \<in> set (concat (map (entriesT ct) (drop (i + 1) cs)))" using assms(5) by auto
  then show ?thesis using assms(1,4) unfolding sp by (auto simp: keysOk_append)
qed

lemma keysOk_child:
  assumes "keysOk ct (concat (map (entriesT ct) cs))" "i < length cs" shows "keysOk ct (entriesT ct (cs ! i))"
  using assms(1) unfolding concat_split_nth [OF assms(2)] by (simp add: keysOk_append)

lemma hd_least:
  assumes "keysOk ct es" "e \<in> set es" shows "cmpT ct (fst (hd es)) (fst e) \<le> 0"
  using assms by (cases es) (auto simp: keysOk_def key.cmp_refl less_imp_le)

text \<open>What the separators of a branch say about the keys below it.\<close>

lemma seps_spec:
  assumes sh: "shape_ok sh" and w: "wft sh ct (Branch n h seps cs)" and ok: "keysOk ct (concat (map (entriesT ct) cs))"
  shows "length seps = length cs" "ascending (cmpT ct) seps" "\<forall>s \<in> set seps. liveKey (keyTy ct) s"
    "\<And>i. i < length cs \<Longrightarrow> entriesT ct (cs ! i) \<noteq> [] \<and> cmpT ct (seps ! i) (fst (hd (entriesT ct (cs ! i)))) = 0"
proof -
  show len: "length seps = length cs" using w by (auto dest: list_all2_lengthD)
  have a: "cmpT ct (seps ! i) (firstKey (cs ! i)) = 0 \<and> liveKey (keyTy ct) (seps ! i)" if "i < length cs" for i
    using w that by (auto simp: list_all2_conv_all_nth)
  show "\<forall>s \<in> set seps. liveKey (keyTy ct) s" using a len by (auto simp: in_set_conv_nth)
  show h: "entriesT ct (cs ! i) \<noteq> [] \<and> cmpT ct (seps ! i) (fst (hd (entriesT ct (cs ! i)))) = 0" if i: "i < length cs" for i
  proof -
    have wc: "wft sh ct (cs ! i)" "full sh ct (cs ! i)" using w i by auto
    have ne: "entriesT ct (cs ! i) \<noteq> []" by (rule wft_entries [OF sh wc])
    have "cmpT ct (firstKey (cs ! i)) (fst (hd (entriesT ct (cs ! i)))) = 0"
      using firstKey_spec [OF sh wc(1) ne keysOk_child [OF ok i]] by blast
    then show ?thesis using a [OF i] key.cmp_eq_left ne by blast
  qed
  have "cmpT ct (seps ! i) (seps ! j) < 0" if ij: "i < j" "j < length cs" for i j
  proof -
    have il: "i < length cs" using ij by simp
    have "cmpT ct (fst (hd (entriesT ct (cs ! i)))) (fst (hd (entriesT ct (cs ! j)))) < 0"
      using children_less [OF ok ij] h [OF il] h [OF ij(2)] by simp
    then have "cmpT ct (seps ! i) (fst (hd (entriesT ct (cs ! j)))) < 0"
      using h [OF il] key.cmp_less_left by blast
    then show ?thesis using h [OF ij(2)] key.cmp_less_right by blast
  qed
  then show "ascending (cmpT ct) seps" using len by (simp add: ascending_def sorted_wrt_iff_nth_less)
qed

lemma childIndex_spec:
  assumes sh: "shape_ok sh" and w: "wft sh ct (Branch n h seps cs)" and ok: "keysOk ct (concat (map (entriesT ct) cs))"
    and live: "liveKey (keyTy ct) key"
  shows "\<exists>p. childIndex (Branch n h seps cs) key (keyTy ct) = Some p \<and> p < length cs \<and>
    (\<forall>e \<in> set (concat (map (entriesT ct) (take p cs))). cmpT ct (fst e) key < 0) \<and>
    (\<forall>e \<in> set (concat (map (entriesT ct) (drop (p + 1) cs))). 0 < cmpT ct (fst e) key)"
proof -
  note s = seps_spec [OF sh w ok]
  have cnt: "tcount (Branch n h seps cs) = length cs" by (rule tcount_wft [OF sh w])
  have pos: "1 \<le> length cs" using w by (cases cs) auto
  obtain q where q: "childIndexLoop (keyTy ct) seps key 1 (length cs) = Some q" "1 \<le> q" "q \<le> length seps"
    "\<forall>i < q. 0 < i \<longrightarrow> cmpT ct (seps ! i) key \<le> 0" "\<forall>i. q \<le> i \<and> i < length seps \<longrightarrow> 0 < cmpT ct (seps ! i) key"
    using childIndexLoop_spec [OF s(2,3) live, of 1 "length cs"] pos s(1) by auto
  define p where "p = q - 1"
  have p: "p < length cs" "q = p + 1" using q s(1) by (auto simp: p_def)
  have before: "cmpT ct (fst e) key < 0" if "i < p" "e \<in> set (entriesT ct (cs ! i))" for i e
  proof -
    have "cmpT ct (fst e) (fst (hd (entriesT ct (cs ! p)))) < 0"
      using children_less [OF ok that(1) p(1) that(2)] s(4) [OF p(1)] by simp
    then have "cmpT ct (fst e) (seps ! p) < 0" using s(4) [OF p(1)] key.cmp_less_right by blast
    moreover have "cmpT ct (seps ! p) key \<le> 0" using q(4) p that(1) by simp
    ultimately show ?thesis using key.cmp_less_le by blast
  qed
  have after: "0 < cmpT ct (fst e) key" if "p < i" "i < length cs" "e \<in> set (entriesT ct (cs ! i))" for i e
  proof -
    have "0 < cmpT ct (seps ! i) key" using q(5) p that s(1) by simp
    then have "cmpT ct key (seps ! i) < 0" using key.cmp_pos by blast
    then have "cmpT ct key (fst (hd (entriesT ct (cs ! i)))) < 0" using s(4) [OF that(2)] key.cmp_less_right by blast
    moreover have "cmpT ct (fst (hd (entriesT ct (cs ! i)))) (fst e) \<le> 0"
      by (rule hd_least [OF keysOk_child [OF ok that(2)] that(3)])
    ultimately show ?thesis using key.cmp_less_le key.cmp_pos by blast
  qed
  have "\<forall>e \<in> set (concat (map (entriesT ct) (take p cs))). cmpT ct (fst e) key < 0"
  proof
    fix e assume "e \<in> set (concat (map (entriesT ct) (take p cs)))"
    then obtain c where "c \<in> set (take p cs)" "e \<in> set (entriesT ct c)" by auto
    then obtain j where "j < p" "e \<in> set (entriesT ct (cs ! j))" using p(1) by (auto simp: in_set_conv_nth [of c])
    then show "cmpT ct (fst e) key < 0" by (rule before)
  qed
  moreover have "\<forall>e \<in> set (concat (map (entriesT ct) (drop (p + 1) cs))). 0 < cmpT ct (fst e) key"
  proof
    fix e assume "e \<in> set (concat (map (entriesT ct) (drop (p + 1) cs)))"
    then obtain c where "c \<in> set (drop (p + 1) cs)" "e \<in> set (entriesT ct c)" by auto
    then obtain j where "j < length (drop (p + 1) cs)" "e \<in> set (entriesT ct (drop (p + 1) cs ! j))"
      using in_set_conv_nth [of c "drop (p + 1) cs"] by blast
    then show "0 < cmpT ct (fst e) key" using after [of "p + 1 + j" e] by simp
  qed
  moreover have "childIndex (Branch n h seps cs) key (keyTy ct) = Some p"
    using q(1) cnt by (simp add: childIndex_def p_def)
  ultimately show ?thesis using p(1) by blast
qed

section \<open>Lookup\<close>

lemma lookup_leaf:
  assumes v: "valuesOk ct ks vs" and n: "length ks < 2 ^ 32" and ok: "keysOk ct (leafEntries ct ks vs)"
    and live: "liveKey (keyTy ct) key"
  shows "\<exists>r. findInLeaf (Leaf ks vs) key (keyTy ct) = Some r \<and>
    findEntry (cmpT ct) key (leafEntries ct ks vs) =
      map_option (\<lambda>i. if isMap ct then vs ! i else NullSlot) r \<and> (\<forall>i. r = Some i \<longrightarrow> i < length ks)"
proof -
  obtain r where r: "findInLeaf (Leaf ks vs) key (keyTy ct) = Some r"
    "case r of None \<Rightarrow> (\<forall>i < length ks. cmpT ct (ks ! i) key \<noteq> 0)
     | Some p \<Rightarrow> p < length ks \<and> cmpT ct (ks ! p) key = 0 \<and> (\<forall>i < p. cmpT ct (ks ! i) key < 0) \<and>
         (\<forall>i. p < i \<and> i < length ks \<longrightarrow> 0 < cmpT ct (ks ! i) key)"
    using findInLeaf_spec [OF assms] by blast
  let ?es = "leafEntries ct ks vs"
  have k: "fst (?es ! i) = ks ! i" if "i < length ks" for i using nth_leafEntries [OF v that] by simp
  have len: "length ?es = length ks" by (rule length_leafEntries [OF v])
  show ?thesis
  proof (cases r)
    case None
    have "findEntry (cmpT ct) key ?es = None"
      unfolding findEntry_None_iff
    proof
      fix e assume "e \<in> set ?es"
      then obtain i where "i < length ks" "e = ?es ! i" using len by (metis in_set_conv_nth)
      then show "cmpT ct (fst e) key \<noteq> 0" using k r(2) None by simp
    qed
    then show ?thesis using r(1) None by simp
  next
    case (Some p)
    then have p: "p < length ks" "cmpT ct (ks ! p) key = 0" using r(2) by auto
    have m: "?es ! p \<in> set ?es" using p len by simp
    have "findEntry (cmpT ct) (ks ! p) ?es = Some (snd (?es ! p))"
      using key.findEntry_mem [of "keyTy ct" ?es "ks ! p" "snd (?es ! p)"] ok m k [OF p(1)]
      by (metis keysOk_def prod.collapse)
    then have "findEntry (cmpT ct) key ?es = Some (snd (?es ! p))"
      using key.findEntry_cong [OF p(2), of ?es] by simp
    then show ?thesis using r(1) Some p(1) nth_leafEntries [OF v p(1)] by simp
  qed
qed

lemma leafFor_spec:
  "shape_ok sh \<Longrightarrow> wft sh ct t \<Longrightarrow> keysOk ct (entriesT ct t) \<Longrightarrow> liveKey (keyTy ct) key \<Longrightarrow>
   length (entriesT ct t) < 2 ^ 32 \<Longrightarrow>
   \<exists>ks vs. leafFor t key (keyTy ct) = Some (Leaf ks vs) \<and> valuesOk ct ks vs \<and> length ks < 2 ^ 32 \<and>
     keysOk ct (leafEntries ct ks vs) \<and> findEntry (cmpT ct) key (leafEntries ct ks vs) = findEntry (cmpT ct) key (entriesT ct t)"
proof (induction t key "keyTy ct" rule: leafFor.induct)
  case (1 ks vs key)
  then show ?case using length_leafEntries by auto
next
  case (2 n h seps cs key)
  have ok: "keysOk ct (concat (map (entriesT ct) cs))" using 2 by simp
  obtain p where p: "childIndex (Branch n h seps cs) key (keyTy ct) = Some p" "p < length cs"
    "\<forall>e \<in> set (concat (map (entriesT ct) (take p cs))). cmpT ct (fst e) key < 0"
    "\<forall>e \<in> set (concat (map (entriesT ct) (drop (p + 1) cs))). 0 < cmpT ct (fst e) key"
    using childIndex_spec [OF 2(2,3) ok] 2 by blast
  note sp = concat_split_nth [OF p(2), of "entriesT ct"]
  have w: "wft sh ct (cs ! p)" using "2.prems" p by auto
  have len: "length (entriesT ct (cs ! p)) < 2 ^ 32" using "2.prems" by (simp add: sp)
  have "findEntry (cmpT ct) key (concat (map (entriesT ct) (take p cs))) = None"
    unfolding findEntry_None_iff using p(3) by force
  moreover have "findEntry (cmpT ct) key (concat (map (entriesT ct) (drop (p + 1) cs))) = None"
    unfolding findEntry_None_iff using p(4) by force
  ultimately have "findEntry (cmpT ct) key (entriesT ct (Branch n h seps cs)) = findEntry (cmpT ct) key (entriesT ct (cs ! p))"
    unfolding entriesT.simps sp by (auto split: option.split)
  then show ?case
    using 2(1) [OF p(1,2) _ w keysOk_child [OF ok p(2)] _ len] 2 p(1,2) by auto
qed

lemma lookup_spec:
  assumes "shape_ok sh" "validT sh ct t" "liveKey (keyTy ct) key"
  shows "has t key (keyTy ct) = Some (tmap ct t key \<noteq> None)"
    and "isMap ct \<Longrightarrow> lookup t key (keyTy ct) = Some (tmap ct t key)"
proof -
  obtain ks vs where l: "leafFor t key (keyTy ct) = Some (Leaf ks vs)" "valuesOk ct ks vs" "length ks < 2 ^ 32"
    "keysOk ct (leafEntries ct ks vs)" "findEntry (cmpT ct) key (leafEntries ct ks vs) = tmap ct t key"
    using leafFor_spec [of sh ct t key] assms by (auto simp: validT_def tmap_def)
  obtain r where r: "findInLeaf (Leaf ks vs) key (keyTy ct) = Some r"
    "tmap ct t key = map_option (\<lambda>i. if isMap ct then vs ! i else NullSlot) r" "\<forall>i. r = Some i \<longrightarrow> i < length ks"
    using lookup_leaf [OF l(2-4) assms(3)] l(5) by auto
  show "has t key (keyTy ct) = Some (tmap ct t key \<noteq> None)" using l(1) r by (auto simp: has_def)
  show "lookup t key (keyTy ct) = Some (tmap ct t key)" if "isMap ct"
    using l(1,2) r that by (cases r) (auto simp: lookup_def valuesOk_def)
qed

section \<open>Building one table\<close>

lemma newLeaf_Some: "newLeaf sh ct inTree ks vs = Some (Leaf ks (if isMap ct then vs else []))"
  by (auto simp: newLeaf_def leafSlots_def Let_def)

lemma leafOf_Some: "leafOf sh ct inTree b e keyAt valueAt =
  Some (Leaf (map keyAt [b..<e]) (if isMap ct then map valueAt [b..<e] else []))"
  by (simp add: leafOf_def newLeaf_Some)

lemma sameLevel_append [simp]: "sameLevel sh ct h (xs @ ys) \<longleftrightarrow> sameLevel sh ct h xs \<and> sameLevel sh ct h ys"
  by (auto simp: sameLevel_def)

lemma sameLevel_Nil [simp]: "sameLevel sh ct h []"
  by (simp add: sameLevel_def)

lemma sameLevel_Cons [simp]:
  "sameLevel sh ct h (c # cs) \<longleftrightarrow> wft sh ct c \<and> full sh ct c \<and> theight c = h \<and> sameLevel sh ct h cs"
  by (auto simp: sameLevel_def)

lemma sameLevel_take [simp]: "sameLevel sh ct h cs \<Longrightarrow> sameLevel sh ct h (take n cs)"
  and sameLevel_drop [simp]: "sameLevel sh ct h cs \<Longrightarrow> sameLevel sh ct h (drop n cs)"
  by (auto simp: sameLevel_def dest: in_set_takeD in_set_dropD)

lemma wft_Branch_level:
  "wft sh ct (Branch n h seps cs) \<Longrightarrow> sameLevel sh ct (h - 1) cs \<and> 1 \<le> h"
  by (cases cs) (auto simp: sameLevel_def)

lemma length_child_le: "i < length cs \<Longrightarrow> length (f (cs ! i)) \<le> length (concat (map f cs))"
  by (subst concat_split_nth [of i]) simp_all

lemma makeBranch_spec:
  assumes sh: "shape_ok sh" and cs: "cs \<noteq> []" "length cs \<le> fanout sh" "sameLevel sh ct h cs"
    and ok: "keysOk ct (levelEntries ct cs)" and len: "length (levelEntries ct cs) < 2 ^ 32"
  shows "\<exists>n seps. makeBranch sh cs = Some (Branch n (h + 1) seps cs) \<and> wft sh ct (Branch n (h + 1) seps cs)"
proof -
  have child: "entriesT ct c \<noteq> []" "tsize c = length (entriesT ct c)" "length (entriesT ct c) < 2 ^ 32"
    "liveKey (keyTy ct) (firstKey c)" "wft sh ct c" "full sh ct c" "theight c = h" if mem: "c \<in> set cs" for c
  proof -
    obtain i where i: "i < length cs" "c = cs ! i" using mem by (auto simp: in_set_conv_nth)
    show w: "wft sh ct c" "full sh ct c" "theight c = h" using cs(3) mem by (auto simp: sameLevel_def)
    show ne: "entriesT ct c \<noteq> []" by (rule wft_entries [OF sh w(1,2)])
    show l: "length (entriesT ct c) < 2 ^ 32"
      using len length_child_le [OF i(1), of "entriesT ct"] i(2) by simp
    show "tsize c = length (entriesT ct c)" by (rule tsize_wft [OF w(1) l])
    show "liveKey (keyTy ct) (firstKey c)"
      using firstKey_spec [OF sh w(1) ne] keysOk_child [OF ok i(1)] i(2) by simp
  qed
  obtain c cs' where c: "cs = c # cs'" using cs(1) by (cases cs) auto
  have cin: "c \<in> set cs" using c by simp
  have "(2 :: nat) ^ h < 2 ^ 32"
    using theight_entries [OF sh child(5,6) [OF cin]] child(3,7) [OF cin] by simp
  then have h: "h < 32" by (rule power_less_imp_less_exp [rotated]) simp
  have "map tsize cs = map (length \<circ> entriesT ct) cs" using child(2) by simp
  then have "sum_list (map tsize cs) = sum_list (map (length \<circ> entriesT ct) cs)" by (simp only:)
  then have sum: "sum_list (map tsize cs) = length (levelEntries ct cs)" by (simp add: length_concat)
  have nz: "\<not> (\<exists>c \<in> set cs. tsize c = 0)" using child(1,2) by auto
  have mk: "makeBranch sh cs = Some (Branch (length (levelEntries ct cs)) (h + 1) (map firstKey cs) cs)"
  proof -
    have "makeBranch sh cs = createBranch (theight c + 1) (sum_list (map tsize cs)) (map firstKey cs)
        (if padded sh then max (length cs) (fanout sh) else length cs) cs"
      using nz by (auto simp: makeBranch_def Let_def c)
    then show ?thesis using sum h len child(7) [OF cin] c by (simp add: createBranch_def)
  qed
  moreover have "list_all2 (\<lambda>s c. cmpT ct s (firstKey c) = 0 \<and> liveKey (keyTy ct) s) (map firstKey cs) cs"
    using child(4) by (auto simp: list_all2_conv_all_nth key.cmp_refl)
  then have "wft sh ct (Branch (length (levelEntries ct cs)) (h + 1) (map firstKey cs) cs)"
    using cs child by auto
  ultimately show ?thesis by blast
qed

lemma leafEntries_append:
  "(isMap ct \<Longrightarrow> length xs = length vs) \<Longrightarrow> leafEntries ct (xs @ ys) (vs @ ws) = leafEntries ct xs vs @ leafEntries ct ys ws"
  by (simp add: leafEntries_def)

lemma leafEntries_sets: "\<not> isMap ct \<Longrightarrow> leafEntries ct ks vs = leafEntries ct ks []"
  by (simp add: leafEntries_def)

lemma leafEntries_take: "take n (leafEntries ct ks vs) = leafEntries ct (take n ks) (take n vs)"
  and leafEntries_drop: "drop n (leafEntries ct ks vs) = leafEntries ct (drop n ks) (drop n vs)"
  by (simp_all add: leafEntries_def take_zip drop_zip take_map drop_map)

lemma insertEntry_at:
  assumes "p \<le> length es" "\<forall>i < p. cmp (fst (es ! i)) k < 0" "p < length es \<Longrightarrow> 0 \<le> cmp (fst (es ! p)) k"
  shows "insertEntry cmp k v es = take p es @
    (if p < length es \<and> cmp (fst (es ! p)) k = 0 then (fst (es ! p), v) # drop (p + 1) es else (k, v) # drop p es)"
proof -
  have "\<forall>e \<in> set (take p es). cmp (fst e) k < 0" 
  proof
    fix e assume "e \<in> set (take p es)"
    then obtain i where "i < p" "e = es ! i" using assms(1) by (metis in_set_conv_nth length_take min.absorb2 nth_take)
    then show "cmp (fst e) k < 0" using assms(2) by simp
  qed
  then have "insertEntry cmp k v (take p es @ drop p es) = take p es @ insertEntry cmp k v (drop p es)"
    by (rule insertEntry_skip)
  moreover have "insertEntry cmp k v (drop p es) =
      (if p < length es \<and> cmp (fst (es ! p)) k = 0 then (fst (es ! p), v) # drop (p + 1) es else (k, v) # drop p es)"
  proof (cases "p < length es")
    case True
    then have "drop p es = es ! p # drop (p + 1) es" by (simp add: Cons_nth_drop_Suc)
    then show ?thesis using True assms(3) by (simp add: not_less)
  qed (use assms(1) in simp)
  ultimately show ?thesis by simp
qed

lemma map_insert_at:
  assumes "p \<le> length ks"
  shows "map (\<lambda>i. if i < p then ks ! i else if i = p then key else ks ! (i - 1)) [0..<length ks + 1] =
    take p ks @ key # drop p ks"
  by (rule nth_equalityI) (use assms in \<open>auto simp: nth_append nth_Cons' min_def less_Suc_eq\<close>)

lemma map_slice: "e \<le> n \<Longrightarrow> map f [b..<e] = take (e - b) (drop b (map f [0..<n]))"
  by (rule nth_equalityI) auto

end
