(* ===== verification/Collection_Update.thy ===== *)
theory Collection_Update
  imports Collection_Inv
begin

text \<open>
  The point updates of a collection (\<open>insertInto\<close>, \<open>removeFrom\<close> and what they call) keep the
  invariant of the tree and act on its entries as \<open>insertEntry\<close> and \<open>deleteEntry\<close>: splits on the
  way up, combination with a neighbour on removal, and the collapse of a root with one child.
\<close>

text \<open>What a table became when an entry was put in.\<close>

definition grownOk :: "Shape \<Rightarrow> CollType \<Rightarrow> table \<Rightarrow> (slot \<times> slot) list \<Rightarrow> Grown \<Rightarrow> bool" where
  "grownOk sh ct t es g \<longleftrightarrow>
     (case g of
        Same \<Rightarrow> es = entriesT ct t
      | One a \<Rightarrow> wft sh ct a \<and> theight a = theight t \<and> entriesT ct a = es \<and> (full sh ct t \<longrightarrow> full sh ct a) \<and>
          (rootOk t \<longrightarrow> rootOk a)
      | Two a b \<Rightarrow> sameLevel sh ct (theight t) [a, b] \<and> entriesT ct a @ entriesT ct b = es)"

fun nearFull :: "Shape \<Rightarrow> CollType \<Rightarrow> table \<Rightarrow> bool" where
  "nearFull sh ct (Leaf ks vs) \<longleftrightarrow> leafCapacity sh ct div 2 - 1 \<le> length ks"
| "nearFull sh ct (Branch n h seps cs) \<longleftrightarrow> fanout sh div 2 - 1 \<le> length cs"

definition removedOk :: "Shape \<Rightarrow> CollType \<Rightarrow> table \<Rightarrow> (slot \<times> slot) list \<Rightarrow> Removed \<Rightarrow> bool" where
  "removedOk sh ct t es r \<longleftrightarrow>
     (case r of
        Unchanged \<Rightarrow> es = entriesT ct t
      | Rebuilt a \<Rightarrow> wft sh ct a \<and> theight a = theight t \<and> entriesT ct a = es \<and> (full sh ct t \<longrightarrow> nearFull sh ct a))"

section \<open>Insertion\<close>

lemma insertIntoLeaf_spec:
  assumes sh: "shape_ok sh" and w: "wft sh ct (Leaf ks vs)" and ok: "keysOk ct (leafEntries ct ks vs)"
    and live: "liveKey (keyTy ct) key" and nul: "isMap ct \<or> val = NullSlot" and len: "length ks + 1 < 2 ^ 32"
  shows "\<exists>g. insertIntoLeaf sh ct (Leaf ks vs) key val inTree = Some g \<and>
    grownOk sh ct (Leaf ks vs) (insertEntry (cmpT ct) key val (leafEntries ct ks vs)) g"
proof -
  let ?es = "leafEntries ct ks vs"
  have v: "valuesOk ct ks vs" and cap: "length ks \<le> leafCapacity sh ct" using w by auto
  have n: "tsize (Leaf ks vs) = length ks" using len by simp
  have k: "fst (?es ! i) = ks ! i" if "i < length ks" for i using nth_leafEntries [OF v that] by simp
  have le: "length ?es = length ks" by (rule length_leafEntries [OF v])
  obtain p where p: "lowerBound (Leaf ks vs) key (keyTy ct) = Some p" "p \<le> length ks"
    "\<forall>i < p. cmpT ct (ks ! i) key < 0" "\<forall>i. p \<le> i \<and> i < length ks \<longrightarrow> 0 \<le> cmpT ct (ks ! i) key"
    using lowerBound_leaf [OF v _ ok live] len by auto
  define present where "present \<longleftrightarrow> p < length ks \<and> cmpT ct (ks ! p) key = 0"
  have pres: "(if p < length ks then map_option (\<lambda>order. order = 0) (compareKeys (ks ! p) key (keyTy ct)) else Some False) = Some present"
    using cmp_leafKeys [OF ok v live] by (simp add: present_def)
  have "insertEntry (cmpT ct) key val ?es = take p ?es @
      (if p < length ?es \<and> cmpT ct (fst (?es ! p)) key = 0 then (fst (?es ! p), val) # drop (p + 1) ?es else (key, val) # drop p ?es)"
    by (rule insertEntry_at) (use p k le in auto)
  then have ins: "insertEntry (cmpT ct) key val ?es = take p ?es @
      (if present then (ks ! p, val) # drop (p + 1) ?es else (key, val) # drop p ?es)"
    using k le by (auto simp: present_def)
  have unf: "insertIntoLeaf sh ct (Leaf ks vs) key val inTree =
      (if present \<and> \<not> isMap ct then Some Same
       else if \<not> present \<and> length ks + 1 > leafCapacity sh ct
       then let keyAt = (\<lambda>i. if i < p then ks ! i else if i = p then key else ks ! (i - 1));
                valueAt = (\<lambda>i. if i < p then vs ! i else if i = p then val else vs ! (i - 1));
                half = (length ks + 1) div 2
            in do { a \<leftarrow> leafOf sh ct True 0 half keyAt valueAt;
                    b \<leftarrow> leafOf sh ct True half (length ks + 1) keyAt valueAt;
                    Some (Two a b) }
       else let from = p + (if present then 1 else 0); tail = length ks - p - (if present then 1 else 0)
            in do { r \<leftarrow> newLeaf sh ct inTree
                      (take p ks @ [if present then ks ! p else key] @ take tail (drop from ks))
                      (take p vs @ [val] @ take tail (drop from vs));
                    Some (One r) })"
    unfolding insertIntoLeaf_def by (simp only: Let_def n tkeys.simps tvalues.simps p(1) bind.simps pres)
  consider "present \<and> \<not> isMap ct" | "\<not> (present \<and> \<not> isMap ct)" "\<not> present" "length ks + 1 > leafCapacity sh ct"
    | "\<not> (present \<and> \<not> isMap ct)" "\<not> (\<not> present \<and> length ks + 1 > leafCapacity sh ct)" by blast
  then show ?thesis
  proof cases
    case 1
    then have "?es ! p = (ks ! p, val)" "p < length ?es" using nth_leafEntries [OF v, of p] nul le by (auto simp: present_def)
    then have "insertEntry (cmpT ct) key val ?es = ?es" 
      using ins 1 id_take_nth_drop [of p ?es] by simp
    then show ?thesis using unf 1 by (simp add: grownOk_def)
  next
    case 2
    define L where "L = take p ks @ key # drop p ks"
    define V where "V = take p vs @ val # drop p vs"
    let ?half = "(length ks + 1) div 2" and ?n = "length ks + 1"
    have vl: "isMap ct \<Longrightarrow> length vs = length ks" using v by (simp add: valuesOk_def)
    have LV: "length L = ?n" "isMap ct \<Longrightarrow> length V = ?n" using p vl by (auto simp: L_def V_def)
    have mk: "map (\<lambda>i. if i < p then ks ! i else if i = p then key else ks ! (i - 1)) [b..<e] = take (e - b) (drop b L)"
      if "e \<le> ?n" for b e
      unfolding map_slice [OF that] map_insert_at [OF p(2)] L_def by (rule refl)
    have mv: "map (\<lambda>i. if i < p then vs ! i else if i = p then val else vs ! (i - 1)) [b..<e] = take (e - b) (drop b V)"
      if "isMap ct" "e \<le> ?n" for b e
    proof -
      have n: "length ks + 1 = length vs + 1" "p \<le> length vs" using vl p(2) that by auto
      show ?thesis unfolding map_slice [OF that(2)] unfolding n(1) map_insert_at [OF n(2)] V_def by (rule refl)
    qed
    define a where "a = Leaf (take ?half L) (if isMap ct then take ?half V else [])"
    define b where "b = Leaf (drop ?half L) (if isMap ct then drop ?half V else [])"
    have ab: "insertIntoLeaf sh ct (Leaf ks vs) key val inTree = Some (Two a b)"
    proof -
      have "take (?n - ?half) (drop ?half L) = drop ?half L" "isMap ct \<Longrightarrow> take (?n - ?half) (drop ?half V) = drop ?half V"
        using LV by simp_all
      then show ?thesis unfolding unf using 2 mk [of ?half 0] mk [of ?n ?half] mv [of ?half 0] mv [of ?n ?half]
        by (simp only: Let_def leafOf_Some bind.simps a_def b_def if_False if_True simp_thms drop_0 diff_zero order_refl div_le_dividend) auto
    qed
    have "entriesT ct a @ entriesT ct b = leafEntries ct L V"
    proof -
      have "leafEntries ct L V = leafEntries ct (take ?half L @ drop ?half L) (take ?half V @ drop ?half V)" by simp
      also have "\<dots> = leafEntries ct (take ?half L) (take ?half V) @ leafEntries ct (drop ?half L) (drop ?half V)"
        using LV by (intro leafEntries_append) simp
      finally show ?thesis by (auto simp: a_def b_def leafEntries_def)
    qed
    also have "\<dots> = insertEntry (cmpT ct) key val ?es"
    proof -
      have "leafEntries ct L V = leafEntries ct (take p ks) (take p vs) @ leafEntries ct (key # drop p ks) (val # drop p vs)"
        unfolding L_def V_def using vl by (intro leafEntries_append) simp
      also have "leafEntries ct (key # drop p ks) (val # drop p vs) = (key, val) # leafEntries ct (drop p ks) (drop p vs)"
        using nul by (auto simp: leafEntries_def)
      finally show ?thesis using ins 2 by (simp add: leafEntries_take leafEntries_drop)
    qed
    finally have e: "entriesT ct a @ entriesT ct b = insertEntry (cmpT ct) key val ?es" .
    note c2 = shape_okD(1,4) [OF sh, of ct]
    have "sameLevel sh ct 0 [a, b]"
      using LV cap 2 c2 by (auto simp: a_def b_def valuesOk_def min_def)
    then show ?thesis using ab e by (simp add: grownOk_def)
  next
    case 3
    have vl: "isMap ct \<Longrightarrow> length vs = length ks" using v by (simp add: valuesOk_def)
    let ?from = "p + (if present then 1 else 0)"
    let ?L = "take p ks @ [if present then ks ! p else key] @ drop ?from ks"
    let ?V = "take p vs @ [val] @ drop ?from vs"
    define r where "r = Leaf ?L (if isMap ct then ?V else [])"
    have r: "insertIntoLeaf sh ct (Leaf ks vs) key val inTree = Some (One r)"
    proof -
      have "take (length ks - p - (if present then 1 else 0)) (drop ?from ks) = drop ?from ks" by auto
      moreover have "isMap ct \<Longrightarrow> take (length ks - p - (if present then 1 else 0)) (drop ?from vs) = drop ?from vs" using vl by auto
      ultimately show ?thesis unfolding unf r_def using 3 by (auto simp: Let_def newLeaf_Some)
    qed
    have pl: "present \<Longrightarrow> p < length ks" by (simp add: present_def)
    have lenL: "length ?L = (if present then length ks else length ks + 1)" using p(2) pl by auto
    have "leafEntries ct ?L ?V = leafEntries ct (take p ks) (take p vs) @
        leafEntries ct ([if present then ks ! p else key] @ drop ?from ks) ([val] @ drop ?from vs)"
      using vl by (intro leafEntries_append) simp
    also have "\<dots> = take p ?es @ (if present then ks ! p else key, val) # drop ?from ?es"
      using nul by (auto simp: leafEntries_def take_zip drop_zip take_map drop_map)
    also have "\<dots> = insertEntry (cmpT ct) key val ?es" using ins by simp
    finally have e: "entriesT ct r = insertEntry (cmpT ct) key val ?es"
      using leafEntries_sets [of ct ?L ?V] by (auto simp: r_def)
    have "wft sh ct r" using lenL cap 3 pl vl p(2) by (auto simp: r_def valuesOk_def)
    moreover have "full sh ct (Leaf ks vs) \<longrightarrow> full sh ct r" using lenL by (auto simp: r_def)
    ultimately show ?thesis using r e by (simp add: grownOk_def r_def)
  qed
qed

lemma insertEntry_middle:
  assumes "\<forall>e \<in> set xs. cmp (fst e) k < 0" "\<forall>e \<in> set zs. 0 < cmp (fst e) k"
  shows "insertEntry cmp k v (xs @ ys @ zs) = xs @ insertEntry cmp k v ys @ zs"
  by (simp only: insertEntry_skip [where cmp = cmp and k = k, OF assms(1)] insertEntry_stop [where cmp = cmp and k = k, OF assms(2)])

lemma makeHalves_spec:
  assumes sh: "shape_ok sh" and lvl: "sameLevel sh ct h cs" and ok: "keysOk ct (levelEntries ct cs)"
    and len: "length (levelEntries ct cs) < 2 ^ 32" and n: "fanout sh < length cs" "length cs \<le> 2 * fanout sh"
  shows "\<exists>a b. makeBranch sh (take (length cs div 2) cs) = Some a \<and> makeBranch sh (drop (length cs div 2) cs) = Some b \<and>
    sameLevel sh ct (h + 1) [a, b] \<and> entriesT ct a @ entriesT ct b = levelEntries ct cs"
proof -
  let ?half = "length cs div 2"
  have sp: "levelEntries ct cs = levelEntries ct (take ?half cs) @ levelEntries ct (drop ?half cs)"
    by (metis append_take_drop_id concat_append map_append)
  note f = shape_okD(2,5) [OF sh]
  have ok': "keysOk ct (levelEntries ct (take ?half cs))" "keysOk ct (levelEntries ct (drop ?half cs))"
    using ok unfolding sp by (simp_all add: keysOk_append)
  have len': "length (levelEntries ct (take ?half cs)) < 2 ^ 32" "length (levelEntries ct (drop ?half cs)) < 2 ^ 32"
    using len unfolding sp by simp_all
  have ne: "take ?half cs \<noteq> []" "drop ?half cs \<noteq> []" using n f by auto
  have hl: "length (take ?half cs) \<le> fanout sh" "length (drop ?half cs) \<le> fanout sh" using n by auto
  obtain n1 s1 where a: "makeBranch sh (take ?half cs) = Some (Branch n1 (h + 1) s1 (take ?half cs))"
    "wft sh ct (Branch n1 (h + 1) s1 (take ?half cs))"
    using makeBranch_spec [OF sh ne(1) hl(1) sameLevel_take [OF lvl] ok'(1) len'(1)] by blast
  obtain n2 s2 where b: "makeBranch sh (drop ?half cs) = Some (Branch n2 (h + 1) s2 (drop ?half cs))"
    "wft sh ct (Branch n2 (h + 1) s2 (drop ?half cs))"
    using makeBranch_spec [OF sh ne(2) hl(2) sameLevel_drop [OF lvl] ok'(2) len'(2)] by blast
  have "full sh ct (Branch n1 (h + 1) s1 (take ?half cs))" "full sh ct (Branch n2 (h + 1) s2 (drop ?half cs))"
    using n by auto
  then show ?thesis using a b sp by (auto simp del: wft.simps full.simps)
qed

lemma insertInto_spec:
  "shape_ok sh \<Longrightarrow> wft sh ct t \<Longrightarrow> keysOk ct (entriesT ct t) \<Longrightarrow> liveKey (keyTy ct) key \<Longrightarrow>
   isMap ct \<or> val = NullSlot \<Longrightarrow> length (entriesT ct t) + 1 < 2 ^ 32 \<Longrightarrow>
   \<exists>g. insertInto sh ct t key val inTree = Some g \<and> grownOk sh ct t (insertEntry (cmpT ct) key val (entriesT ct t)) g"
proof (induction sh ct t key val inTree rule: insertInto.induct)
  case (1 sh ct ks vs key val inTree)
  then show ?case using insertIntoLeaf_spec [of sh ct ks vs key val inTree] length_leafEntries by auto
next
  case (2 sh ct n h seps cs key val inTree)
  note sh = "2.prems"(1) and w = "2.prems"(2)
  have ok: "keysOk ct (levelEntries ct cs)" using "2.prems" by simp
  obtain p where p: "childIndex (Branch n h seps cs) key (keyTy ct) = Some p" "p < length cs"
    "\<forall>e \<in> set (levelEntries ct (take p cs)). cmpT ct (fst e) key < 0"
    "\<forall>e \<in> set (levelEntries ct (drop (p + 1) cs)). 0 < cmpT ct (fst e) key"
    using childIndex_spec [OF sh w ok "2.prems"(4)] by blast
  let ?A = "take p cs" and ?c = "cs ! p" and ?B = "drop (p + 1) cs"
  note sp = concat_split_nth [OF p(2), of "entriesT ct"]
  let ?es = "insertEntry (cmpT ct) key val (levelEntries ct cs)"
  have ins: "?es = levelEntries ct ?A @ insertEntry (cmpT ct) key val (entriesT ct ?c) @ levelEntries ct ?B"
    unfolding sp by (rule insertEntry_middle [where cmp = "cmpT ct" and k = key, OF p(3,4)])
  have lvl: "sameLevel sh ct (h - 1) cs" "1 \<le> h" using wft_Branch_level [OF w] by auto
  have c: "wft sh ct ?c" "full sh ct ?c" "theight ?c = h - 1" using lvl p(2) by (auto simp: sameLevel_def)
  have lc: "length (entriesT ct ?c) + 1 < 2 ^ 32" using "2.prems"(6) length_child_le [OF p(2), of "entriesT ct"] by simp
  obtain g where g: "insertInto sh ct ?c key val True = Some g" "grownOk sh ct ?c (insertEntry (cmpT ct) key val (entriesT ct ?c)) g"
    using 2(1) [OF p(1,2) sh c(1) keysOk_child [OF ok p(2)] "2.prems"(4,5) lc] by blast
  show ?case
  proof (cases "g = Same")
    case True
    then have e: "insertEntry (cmpT ct) key val (entriesT ct ?c) = entriesT ct ?c" using g(2) by (simp add: grownOk_def)
    have "?es = levelEntries ct cs" unfolding ins e by (rule sp [symmetric])
    then show ?thesis using p(1,2) g(1) True by (simp add: grownOk_def)
  next
    case False
    define new where "new = (case g of One a \<Rightarrow> [a] | Two a b \<Rightarrow> [a, b] | Same \<Rightarrow> [])"
    define ch where "ch = childrenWith cs p new"
    have new: "sameLevel sh ct (h - 1) new" "levelEntries ct new = insertEntry (cmpT ct) key val (entriesT ct ?c)"
      "1 \<le> length new" "length new \<le> 2"
      using g(2) False c by (auto simp: new_def grownOk_def split: Grown.splits)
    have ch: "sameLevel sh ct (h - 1) ch" using lvl(1) new(1) by (simp add: ch_def childrenWith_def)
    have che: "levelEntries ct ch = ?es" unfolding ins ch_def childrenWith_def using new(2) by simp
    have chl: "length ch = length cs + length new - 1" using p(2) by (simp add: ch_def childrenWith_def)
    have okc: "keysOk ct (levelEntries ct ch)" unfolding che by (rule keysOk_insert [OF ok "2.prems"(4)])
    have lenc: "length (levelEntries ct ch) < 2 ^ 32"
      unfolding che using length_insertEntry(1) [of "cmpT ct" key val "levelEntries ct cs"] "2.prems"(6) by simp
    have unf: "insertInto sh ct (Branch n h seps cs) key val inTree =
        (if length ch \<le> fanout sh then map_option One (makeBranch sh ch)
         else do { a \<leftarrow> makeBranch sh (take (length ch div 2) ch); b \<leftarrow> makeBranch sh (drop (length ch div 2) ch); Some (Two a b) })"
      using p(1,2) g(1) False by (cases g) (simp_all add: ch_def new_def Let_def)
    have cs: "length cs \<le> fanout sh" using w by simp
    show ?thesis
    proof (cases "length ch \<le> fanout sh")
      case True
      have ne: "ch \<noteq> []" using chl new(3) p(2) by auto
      obtain n' s' where b: "makeBranch sh ch = Some (Branch n' (h - 1 + 1) s' ch)" "wft sh ct (Branch n' (h - 1 + 1) s' ch)"
        using makeBranch_spec [OF sh ne True ch okc lenc] by blast
      then have "grownOk sh ct (Branch n h seps cs) ?es (One (Branch n' (h - 1 + 1) s' ch))"
        using che chl new(3) lvl(2) by (auto simp: grownOk_def simp del: wft.simps)
      then show ?thesis using unf b True by simp
    next
      case f: False
      have "length ch \<le> 2 * fanout sh" using chl new(4) cs shape_okD(2) [OF sh] by simp
      then obtain a b where ab: "makeBranch sh (take (length ch div 2) ch) = Some a"
        "makeBranch sh (drop (length ch div 2) ch) = Some b" "sameLevel sh ct (h - 1 + 1) [a, b]"
        "entriesT ct a @ entriesT ct b = levelEntries ct ch"
        using makeHalves_spec [OF sh ch okc lenc] f by auto
      then have "grownOk sh ct (Branch n h seps cs) ?es (Two a b)"
        using che lvl(2) by (simp add: grownOk_def)
      then show ?thesis using unf ab f by simp
    qed
  qed
qed

lemma insertT_spec:
  assumes sh: "shape_ok sh" and t: "validT sh ct t" and live: "liveKey (keyTy ct) key"
    and nul: "isMap ct \<or> val = NullSlot" and room: "length (entriesT ct t) + 1 < 2 ^ 32"
  shows "\<exists>r. insertT sh ct t key val = Some r \<and> validT sh ct r \<and>
    entriesT ct r = insertEntry (cmpT ct) key val (entriesT ct t)"
proof -
  let ?es = "insertEntry (cmpT ct) key val (entriesT ct t)"
  have w: "wft sh ct t" "rootOk t" "keysOk ct (entriesT ct t)" using t by (auto simp: validT_def)
  have es: "keysOk ct ?es" "length ?es < 2 ^ 32"
    using keysOk_insert [OF w(3) live] length_insertEntry(1) [of "cmpT ct" key val "entriesT ct t"] room by auto
  obtain g where g: "insertInto sh ct t key val False = Some g" "grownOk sh ct t ?es g"
    using insertInto_spec [OF sh w(1,3) live nul room] by blast
  show ?thesis
  proof (cases g)
    case Same
    then show ?thesis using g t by (simp add: insertT_def grownOk_def)
  next
    case (One a)
    then show ?thesis using g es w(2) by (simp add: insertT_def grownOk_def validT_def)
  next
    case (Two a b)
    then have lvl: "sameLevel sh ct (theight t) [a, b]" and e: "levelEntries ct [a, b] = ?es" using g by (auto simp: grownOk_def)
    obtain n seps where b: "makeBranch sh [a, b] = Some (Branch n (theight t + 1) seps [a, b])"
      "wft sh ct (Branch n (theight t + 1) seps [a, b])"
    proof -
      have "keysOk ct (levelEntries ct [a, b])" "length (levelEntries ct [a, b]) < 2 ^ 32" using es unfolding e by simp_all
      moreover have "[a, b] \<noteq> []" "length [a, b] \<le> fanout sh" using shape_okD(2) [OF sh] by simp_all
      ultimately show ?thesis using makeBranch_spec [OF sh _ _ lvl] that by blast
    qed
    then have "validT sh ct (Branch n (theight t + 1) seps [a, b])"
      using es e by (simp add: validT_def del: wft.simps)
    then show ?thesis using g(1) Two b e by (simp add: insertT_def)
  qed
qed

section \<open>Removal\<close>

lemma full_rootOk: "shape_ok sh \<Longrightarrow> full sh ct t \<Longrightarrow> rootOk t"
  using shape_okD(5) [of sh] by (cases t) auto

lemma full_nearFull: "full sh ct t \<Longrightarrow> nearFull sh ct t"
  by (cases t) auto

lemma deleteEntry_at:
  assumes "p < length es" "cmp (fst (es ! p)) k = 0" "\<forall>i < p. cmp (fst (es ! i)) k \<noteq> 0"
    "\<forall>i. p < i \<and> i < length es \<longrightarrow> cmp (fst (es ! i)) k \<noteq> 0"
  shows "deleteEntry cmp k es = take p es @ drop (p + 1) es"
proof -
  have a: "\<forall>e \<in> set (take p es). cmp (fst e) k \<noteq> 0"
  proof
    fix e assume "e \<in> set (take p es)"
    then obtain i where "i < p" "e = es ! i" using assms(1) by (auto simp: in_set_conv_nth [of e])
    then show "cmp (fst e) k \<noteq> 0" using assms(3) by blast
  qed
  have b: "\<forall>e \<in> set (drop (p + 1) es). cmp (fst e) k \<noteq> 0"
  proof
    fix e assume "e \<in> set (drop (p + 1) es)"
    then obtain i where i: "i < length (drop (p + 1) es)" "e = drop (p + 1) es ! i" by (auto simp: in_set_conv_nth [of e])
    then have "p < p + 1 + i" "p + 1 + i < length es" "e = es ! (p + 1 + i)" by simp_all
    then show "cmp (fst e) k \<noteq> 0" using assms(4) by blast
  qed
  have "deleteEntry cmp k (take p es @ es ! p # drop (p + 1) es) = take p es @ drop (p + 1) es"
    using a b assms(2) by (simp add: deleteEntry_def filter_id_conv)
  then show ?thesis using id_take_nth_drop [OF assms(1)] by simp
qed

lemma removeFromLeaf_spec:
  assumes w: "wft sh ct (Leaf ks vs)" and ok: "keysOk ct (leafEntries ct ks vs)"
    and live: "liveKey (keyTy ct) key" and len: "length ks < 2 ^ 32"
  shows "\<exists>r. removeFromLeaf sh ct (Leaf ks vs) key inTree = Some r \<and>
    removedOk sh ct (Leaf ks vs) (deleteEntry (cmpT ct) key (leafEntries ct ks vs)) r"
proof -
  let ?es = "leafEntries ct ks vs"
  have v: "valuesOk ct ks vs" using w by simp
  have k: "fst (?es ! i) = ks ! i" if "i < length ks" for i using nth_leafEntries [OF v that] by simp
  have le: "length ?es = length ks" by (rule length_leafEntries [OF v])
  obtain f where f: "findInLeaf (Leaf ks vs) key (keyTy ct) = Some f"
    "case f of None \<Rightarrow> (\<forall>i < length ks. cmpT ct (ks ! i) key \<noteq> 0)
     | Some p \<Rightarrow> p < length ks \<and> cmpT ct (ks ! p) key = 0 \<and> (\<forall>i < p. cmpT ct (ks ! i) key < 0) \<and>
         (\<forall>i. p < i \<and> i < length ks \<longrightarrow> 0 < cmpT ct (ks ! i) key)"
    using findInLeaf_spec [OF v len ok live] by blast
  show ?thesis
  proof (cases f)
    case None
    have "deleteEntry (cmpT ct) key ?es = ?es"
    proof (rule deleteEntry_id, rule ballI)
      fix e assume "e \<in> set ?es"
      then obtain i where "i < length ks" "e = ?es ! i" using le by (auto simp: in_set_conv_nth [of e])
      then show "cmpT ct (fst e) key \<noteq> 0" using k f(2) None by simp
    qed
    then show ?thesis using f(1) None by (simp add: removeFromLeaf_def removedOk_def)
  next
    case (Some p)
    then have p: "p < length ks" "cmpT ct (ks ! p) key = 0" "\<forall>i < p. cmpT ct (ks ! i) key < 0"
      "\<forall>i. p < i \<and> i < length ks \<longrightarrow> 0 < cmpT ct (ks ! i) key" using f(2) by auto
    have vl: "isMap ct \<Longrightarrow> length vs = length ks" using v by (simp add: valuesOk_def)
    let ?L = "take p ks @ drop (p + 1) ks" and ?V = "take p vs @ drop (p + 1) vs"
    define r where "r = Leaf ?L (if isMap ct then ?V else [])"
    have "take (length ks - p - 1) (drop (p + 1) ks) = drop (p + 1) ks"
      "isMap ct \<Longrightarrow> take (length ks - p - 1) (drop (p + 1) vs) = drop (p + 1) vs" using vl by simp_all
    then have r: "removeFromLeaf sh ct (Leaf ks vs) key inTree = Some (Rebuilt r)"
      using f(1) Some len by (auto simp: removeFromLeaf_def r_def newLeaf_Some)
    have nz: "\<forall>i < p. cmpT ct (fst (?es ! i)) key \<noteq> 0" "\<forall>i. p < i \<and> i < length ?es \<longrightarrow> cmpT ct (fst (?es ! i)) key \<noteq> 0"
      using p k le by auto
    have "leafEntries ct ?L ?V = take p ?es @ drop (p + 1) ?es"
      using vl by (simp add: leafEntries_append leafEntries_take leafEntries_drop)
    also have "\<dots> = deleteEntry (cmpT ct) key ?es"
      using deleteEntry_at [of p ?es "cmpT ct" key] p(1,2) nz k le by simp
    finally have e: "entriesT ct r = deleteEntry (cmpT ct) key ?es"
      using leafEntries_sets [of ct ?L ?V] by (auto simp: r_def)
    have "wft sh ct r" using w p(1) vl by (auto simp: r_def valuesOk_def)
    then show ?thesis using r e p(1) by (auto simp: removedOk_def r_def)
  qed
qed

lemma leaf_of_height: "wft sh ct t \<Longrightarrow> theight t = 0 \<Longrightarrow> \<exists>ks vs. t = Leaf ks vs"
  by (cases t) (auto dest: wft_Branch_level)

lemma branch_of_height: "wft sh ct t \<Longrightarrow> theight t = Suc h \<Longrightarrow> \<exists>n seps cs. t = Branch n (Suc h) seps cs"
  by (cases t) auto

lemma length_slice: "y \<le> length l \<Longrightarrow> length (take (y - x) (drop x l)) = y - x"
  by (simp add: min.absorb2 diff_le_mono)

lemma combineLeaves_spec:
  assumes sh: "shape_ok sh" and a: "wft sh ct (Leaf ka va)" and b: "wft sh ct (Leaf kb vb)"
    and near: "nearFull sh ct (Leaf ka va) \<and> full sh ct (Leaf kb vb) \<or> full sh ct (Leaf ka va) \<and> nearFull sh ct (Leaf kb vb)"
    and len: "length ka + length kb < 2 ^ 32"
  shows "\<exists>made. combine sh ct (Leaf ka va) (Leaf kb vb) = Some made \<and> sameLevel sh ct 0 made \<and>
    levelEntries ct made = leafEntries ct ka va @ leafEntries ct kb vb \<and> 1 \<le> length made \<and> length made \<le> 2"
proof -
  define K where "K = ka @ kb"
  define V where "V = va @ vb"
  let ?n = "length ka + length kb"
  have v: "isMap ct \<Longrightarrow> length va = length ka" "isMap ct \<Longrightarrow> length vb = length kb"
    using a b by (auto simp: valuesOk_def)
  have e: "leafEntries ct K V = leafEntries ct ka va @ leafEntries ct kb vb"
    using v unfolding K_def V_def by (intro leafEntries_append) simp
  have LK: "length K = ?n" "isMap ct \<Longrightarrow> length V = ?n" using v by (simp_all add: K_def V_def)
  have mk: "map (\<lambda>i. if i < length ka then ka ! i else kb ! (i - length ka)) [x..<y] = take (y - x) (drop x K)" if "y \<le> ?n" for x y
    unfolding map_slice [OF that] by (rule arg_cong [where f = "\<lambda>l. take (y - x) (drop x l)"], rule nth_equalityI) (auto simp: nth_append K_def)
  have mv: "map (\<lambda>i. if i < length ka then va ! i else vb ! (i - length ka)) [x..<y] = take (y - x) (drop x V)"
    if "isMap ct" "y \<le> ?n" for x y
    unfolding map_slice [OF that(2)]
    by (rule arg_cong [where f = "\<lambda>l. take (y - x) (drop x l)"], rule nth_equalityI) (use v that in \<open>auto simp: nth_append V_def\<close>)
  have tot: "1 \<le> ?n" "leafCapacity sh ct div 2 \<le> ?n" "?n \<le> 2 * leafCapacity sh ct"
    using near a b shape_okD(4) [OF sh, of ct] by (auto simp: Suc_le_eq)
  define part where "part = (\<lambda>x y. Leaf (take (y - x) (drop x K)) (if isMap ct then take (y - x) (drop x V) else []))"
  have lf: "leafOf sh ct True x y (\<lambda>i. if i < length ka then ka ! i else kb ! (i - length ka))
      (\<lambda>i. if i < length ka then va ! i else vb ! (i - length ka)) = Some (part x y)" if "y \<le> ?n" for x y
    using mk [OF that] mv [OF _ that] by (simp add: leafOf_Some part_def)
  have wp: "wft sh ct (part x y)" "entriesT ct (part x y) = take (y - x) (drop x (leafEntries ct K V))"
    "theight (part x y) = 0" "full sh ct (part x y)"
    if "x \<le> y" "y \<le> ?n" "y - x \<le> leafCapacity sh ct" "1 \<le> y - x" "leafCapacity sh ct div 2 \<le> y - x" for x y
  proof -
    have l: "length (take (y - x) (drop x K)) = y - x" using that LK by (intro length_slice) simp
    have l2: "isMap ct \<Longrightarrow> length (take (y - x) (drop x V)) = y - x" using that LK by (intro length_slice) simp
    show "wft sh ct (part x y)" using l l2 that by (simp add: part_def valuesOk_def)
    show "entriesT ct (part x y) = take (y - x) (drop x (leafEntries ct K V))"
      unfolding leafEntries_drop leafEntries_take using leafEntries_sets [of ct _ "take (y - x) (drop x V)"] by (simp add: part_def)
    show "theight (part x y) = 0" by (simp add: part_def)
    have "take (y - x) (drop x K) \<noteq> []" using l that(4) by (metis list.size(3) not_one_le_zero)
    then show "full sh ct (part x y)" using l that by (simp add: part_def)
  qed
  have n: "tsize (Leaf ka va) = length ka" "tsize (Leaf kb vb) = length kb" using len by simp_all
  have unf: "combine sh ct (Leaf ka va) (Leaf kb vb) =
      (if ?n \<le> leafCapacity sh ct then Some [part 0 ?n] else Some [part 0 (?n div 2), part (?n div 2) ?n])"
    unfolding combine_def isLeaf.simps if_True Let_def n tkeys.simps tvalues.simps using lf by simp
  have le: "length (leafEntries ct K V) = ?n"
    using length_leafEntries [of ct K V] LK by (cases "isMap ct") (auto simp: valuesOk_def leafEntries_def)
  show ?thesis
  proof (cases "?n \<le> leafCapacity sh ct")
    case True
    then show ?thesis using unf wp [of 0 ?n] tot le e by simp
  next
    case False
    define m where "m = ?n div 2"
    have h: "0 \<le> m" "m \<le> ?n" "m - 0 \<le> leafCapacity sh ct" "1 \<le> m - 0" "leafCapacity sh ct div 2 \<le> m - 0"
      "?n - m \<le> leafCapacity sh ct" "1 \<le> ?n - m" "leafCapacity sh ct div 2 \<le> ?n - m"
      unfolding m_def using False tot shape_okD(1,4) [OF sh, of ct] by linarith+
    note A = wp [OF h(1-5)] and B = wp [OF h(2) order_refl h(6-8)]
    have "levelEntries ct [part 0 m, part m ?n] = leafEntries ct K V" using A(2) B(2) le by simp
    moreover have "sameLevel sh ct 0 [part 0 m, part m ?n]" using A B by simp
    moreover have "combine sh ct (Leaf ka va) (Leaf kb vb) = Some [part 0 m, part m ?n]" using unf False by (simp add: m_def)
    ultimately show ?thesis using e by (intro exI [of _ "[part 0 m, part m ?n]"]) simp
  qed
qed

lemma combine_spec:
  assumes sh: "shape_ok sh" and a: "wft sh ct a" and b: "wft sh ct b" and h: "theight a = h" "theight b = h"
    and near: "nearFull sh ct a \<and> full sh ct b \<or> full sh ct a \<and> nearFull sh ct b"
    and ok: "keysOk ct (entriesT ct a @ entriesT ct b)" and len: "length (entriesT ct a @ entriesT ct b) < 2 ^ 32"
  shows "\<exists>made. combine sh ct a b = Some made \<and> sameLevel sh ct h made \<and>
    levelEntries ct made = entriesT ct a @ entriesT ct b \<and> 1 \<le> length made \<and> length made \<le> 2"
proof (cases h)
  case 0
  then obtain ka va kb vb where ab: "a = Leaf ka va" "b = Leaf kb vb" using leaf_of_height a b h by metis
  have "length ka + length kb < 2 ^ 32"
    using len a b length_leafEntries by (auto simp: ab)
  then show ?thesis using combineLeaves_spec [OF sh a [unfolded ab] b [unfolded ab] near [unfolded ab]] ab 0 by simp
next
  case (Suc h')
  obtain n1 s1 ca n2 s2 cb where ab: "a = Branch n1 h s1 ca" "b = Branch n2 h s2 cb"
    using branch_of_height [OF a, of h'] branch_of_height [OF b, of h'] h Suc by auto
  note f = shape_okD(2,3,5) [OF sh]
  let ?cs = "ca @ cb"
  have lvl: "sameLevel sh ct h' ?cs" using wft_Branch_level [OF a [unfolded ab]] wft_Branch_level [OF b [unfolded ab]] Suc by simp
  have la: "length ca \<le> fanout sh" "length cb \<le> fanout sh" "ca \<noteq> []" "cb \<noteq> []" using a b ab by auto
  have ct': "tcount a = length ca" "tcount b = length cb" using la f ab by simp_all
  have e: "levelEntries ct ?cs = entriesT ct a @ entriesT ct b" using ab by simp
  have ok': "keysOk ct (levelEntries ct ?cs)" and len': "length (levelEntries ct ?cs) < 2 ^ 32" using ok len unfolding e by simp_all
  have unf: "combine sh ct a b =
      (if length ?cs \<le> fanout sh then map_option (\<lambda>x. [x]) (makeBranch sh ?cs)
       else do { x \<leftarrow> makeBranch sh (take (length ?cs div 2) ?cs); y \<leftarrow> makeBranch sh (drop (length ?cs div 2) ?cs); Some [x, y] })"
    unfolding combine_def Let_def ct' using ab by simp
  show ?thesis
  proof (cases "length ?cs \<le> fanout sh")
    case True
    obtain n s where m: "makeBranch sh ?cs = Some (Branch n (h' + 1) s ?cs)" "wft sh ct (Branch n (h' + 1) s ?cs)"
      using makeBranch_spec [OF sh _ True lvl ok' len'] la by blast
    have "full sh ct (Branch n (h' + 1) s ?cs)" using near ab f by auto
    then show ?thesis using m unf True Suc e by (simp del: wft.simps full.simps)
  next
    case False
    then have "fanout sh < length ?cs" "length ?cs \<le> 2 * fanout sh" using la by simp_all
    then obtain x y where "makeBranch sh (take (length ?cs div 2) ?cs) = Some x" "makeBranch sh (drop (length ?cs div 2) ?cs) = Some y"
      "sameLevel sh ct (h' + 1) [x, y]" "entriesT ct x @ entriesT ct y = levelEntries ct ?cs"
      using makeHalves_spec [OF sh lvl ok' len'] by blast
    then show ?thesis using unf False Suc e by simp
  qed
qed

lemma underfull_full:
  assumes "shape_ok sh" "wft sh ct t" "length (entriesT ct t) < 2 ^ 32"
  shows "full sh ct t \<longleftrightarrow> \<not> underfull sh ct t"
proof (cases t)
  case (Leaf ks vs)
  then have "length ks < 2 ^ 32" using assms length_leafEntries by auto
  then show ?thesis using Leaf shape_okD(4) [OF assms(1), of ct] by (auto simp: underfull_def)
next
  case (Branch n h seps cs)
  then show ?thesis using tcount_wft [OF assms(1)] assms(2) by (auto simp: underfull_def not_less simp del: wft.simps tcount.simps)
qed

lemma two_around:
  assumes "p < length xs" "length xs > 1"
  defines "left \<equiv> (if p > 0 then p - 1 else p)"
  shows "xs = take left xs @ [xs ! left, xs ! (left + 1)] @ drop (left + 2) xs" "p = left \<or> p = left + 1" "left + 1 < length xs"
proof -
  show l: "left + 1 < length xs" and "p = left \<or> p = left + 1" using assms by (auto simp: left_def)
  have "drop left xs = xs ! left # xs ! (left + 1) # drop (left + 2) xs"
    using l Cons_nth_drop_Suc [of left xs] Cons_nth_drop_Suc [of "left + 1" xs] by simp
  then show "xs = take left xs @ [xs ! left, xs ! (left + 1)] @ drop (left + 2) xs"
    by (metis append_Cons append_Nil append_take_drop_id)
qed

text \<open>
  A level of tables in which one table, at \<open>p\<close>, is only nearly full: combining it with its
  neighbour gives a level of full tables with the same entries.
\<close>

lemma rebalance_spec:
  assumes sh: "shape_ok sh" and p: "p < length ch" "length ch > 1"
    and other: "\<And>i. i < length ch \<Longrightarrow> i \<noteq> p \<Longrightarrow> wft sh ct (ch ! i) \<and> full sh ct (ch ! i) \<and> theight (ch ! i) = h"
    and r: "wft sh ct (ch ! p)" "nearFull sh ct (ch ! p)" "theight (ch ! p) = h"
    and ok: "keysOk ct (levelEntries ct ch)" and len: "length (levelEntries ct ch) < 2 ^ 32"
  defines "left \<equiv> (if p > 0 then p - 1 else p)"
  shows "\<exists>made. combine sh ct (ch ! left) (ch ! (left + 1)) = Some made \<and>
    sameLevel sh ct h (take left ch @ made @ drop (left + 2) ch) \<and>
    levelEntries ct (take left ch @ made @ drop (left + 2) ch) = levelEntries ct ch \<and>
    length ch \<le> length (take left ch @ made @ drop (left + 2) ch) + 1 \<and>
    length (take left ch @ made @ drop (left + 2) ch) \<le> length ch"
proof -
  note t = two_around [OF p, folded left_def]
  let ?a = "ch ! left" and ?b = "ch ! (left + 1)" and ?X = "take left ch" and ?Y = "drop (left + 2) ch"
  have e: "levelEntries ct ch = levelEntries ct ?X @ (entriesT ct ?a @ entriesT ct ?b) @ levelEntries ct ?Y"
    by (subst t(1)) simp
  have ab: "wft sh ct ?a" "wft sh ct ?b" "theight ?a = h" "theight ?b = h"
    "nearFull sh ct ?a \<and> full sh ct ?b \<or> full sh ct ?a \<and> nearFull sh ct ?b"
    using t(2,3) other [of left] other [of "left + 1"] r by auto
  have okab: "keysOk ct (entriesT ct ?a @ entriesT ct ?b)" 
    using ok unfolding e by (simp only: keysOk_append [of ct "levelEntries ct ?X"] keysOk_append [of ct "_ @ _" "levelEntries ct ?Y"])
  have lenab: "length (entriesT ct ?a @ entriesT ct ?b) < 2 ^ 32" using len unfolding e by simp
  obtain made where m: "combine sh ct ?a ?b = Some made" "sameLevel sh ct h made"
    "levelEntries ct made = entriesT ct ?a @ entriesT ct ?b" "1 \<le> length made" "length made \<le> 2"
    using combine_spec [OF sh ab okab lenab] by blast
  have X: "sameLevel sh ct h ?X"
    unfolding sameLevel_def
  proof
    fix c assume "c \<in> set ?X"
    then obtain i where "i < left" "c = ch ! i" using t(3) by (auto simp: in_set_conv_nth [of c])
    then show "wft sh ct c \<and> full sh ct c \<and> theight c = h" using other [of i] t(2,3) by auto
  qed
  have Y: "sameLevel sh ct h ?Y"
    unfolding sameLevel_def
  proof
    fix c assume "c \<in> set ?Y"
    then obtain i where i: "i < length ?Y" "c = ?Y ! i" by (auto simp: in_set_conv_nth [of c])
    then have "c = ch ! (left + 2 + i)" "left + 2 + i < length ch" by simp_all
    then show "wft sh ct c \<and> full sh ct c \<and> theight c = h" using other [of "left + 2 + i"] t(2) by auto
  qed
  have "levelEntries ct (?X @ made @ ?Y) = levelEntries ct ?X @ levelEntries ct made @ levelEntries ct ?Y" by simp
  then have l: "levelEntries ct (?X @ made @ ?Y) = levelEntries ct ch" unfolding e m(3) by simp
  have "length ch = left + 2 + length ?Y" "length ?X = left" using t(3) by simp_all
  then have n: "length ch \<le> length (?X @ made @ ?Y) + 1" "length (?X @ made @ ?Y) \<le> length ch"
    using m(4,5) by (simp_all only: length_append)
  have "sameLevel sh ct h (?X @ made @ ?Y)" using X Y m(2) by (simp only: sameLevel_append)
  then show ?thesis using m(1) l n by blast
qed

lemma removeFrom_spec:
  "shape_ok sh \<Longrightarrow> wft sh ct t \<Longrightarrow> rootOk t \<Longrightarrow> keysOk ct (entriesT ct t) \<Longrightarrow> liveKey (keyTy ct) key \<Longrightarrow>
   length (entriesT ct t) < 2 ^ 32 \<Longrightarrow>
   \<exists>r. removeFrom sh ct t key inTree = Some r \<and> removedOk sh ct t (deleteEntry (cmpT ct) key (entriesT ct t)) r"
proof (induction sh ct t key inTree rule: removeFrom.induct)
  case (1 sh ct ks vs key inTree)
  then show ?case using removeFromLeaf_spec [of sh ct ks vs key inTree] length_leafEntries by auto
next
  case (2 sh ct n h seps cs key inTree)
  note sh = "2.prems"(1) and w = "2.prems"(2) and live = "2.prems"(5)
  have ok: "keysOk ct (levelEntries ct cs)" and len: "length (levelEntries ct cs) < 2 ^ 32" and two: "2 \<le> length cs"
    using "2.prems" by auto
  obtain p where p: "childIndex (Branch n h seps cs) key (keyTy ct) = Some p" "p < length cs"
    "\<forall>e \<in> set (levelEntries ct (take p cs)). cmpT ct (fst e) key < 0"
    "\<forall>e \<in> set (levelEntries ct (drop (p + 1) cs)). 0 < cmpT ct (fst e) key"
    using childIndex_spec [OF sh w ok live] by blast
  let ?c = "cs ! p" and ?A = "take p cs" and ?B = "drop (p + 1) cs"
  note sp = concat_split_nth [OF p(2), of "entriesT ct"]
  let ?es = "deleteEntry (cmpT ct) key (levelEntries ct cs)"
  have "deleteEntry (cmpT ct) key (levelEntries ct ?A) = levelEntries ct ?A" by (rule deleteEntry_id) (use p(3) in force)
  moreover have "deleteEntry (cmpT ct) key (levelEntries ct ?B) = levelEntries ct ?B" by (rule deleteEntry_id) (use p(4) in force)
  ultimately have del: "?es = levelEntries ct ?A @ deleteEntry (cmpT ct) key (entriesT ct ?c) @ levelEntries ct ?B"
    unfolding sp by (simp only: deleteEntry_append)
  have lvl: "sameLevel sh ct (h - 1) cs" "1 \<le> h" using wft_Branch_level [OF w] by auto
  have c: "wft sh ct ?c" "full sh ct ?c" "theight ?c = h - 1" using lvl p(2) by (auto simp: sameLevel_def)
  have lc: "length (entriesT ct ?c) < 2 ^ 32" using len length_child_le [OF p(2), of "entriesT ct"] by simp
  obtain g where g: "removeFrom sh ct ?c key True = Some g" "removedOk sh ct ?c (deleteEntry (cmpT ct) key (entriesT ct ?c)) g"
    using 2(1) [OF p(1,2) sh c(1) full_rootOk [OF sh c(2)] keysOk_child [OF ok p(2)] live lc] by blast
  show ?case
  proof (cases g)
    case Unchanged
    then have e: "deleteEntry (cmpT ct) key (entriesT ct ?c) = entriesT ct ?c" using g(2) by (simp add: removedOk_def)
    have "?es = levelEntries ct cs" unfolding del e by (rule sp [symmetric])
    then show ?thesis using p(1,2) g(1) Unchanged by (simp add: removedOk_def)
  next
    case (Rebuilt r)
    then have r: "wft sh ct r" "theight r = h - 1" "entriesT ct r = deleteEntry (cmpT ct) key (entriesT ct ?c)" "nearFull sh ct r"
      using g(2) c by (auto simp: removedOk_def)
    define ch where "ch = childrenWith cs p [r]"
    have ch: "length ch = length cs" "ch ! p = r" "levelEntries ct ch = ?es"
      using p(2) r(3) del by (auto simp: ch_def childrenWith_def nth_append)
    have other: "wft sh ct (ch ! i) \<and> full sh ct (ch ! i) \<and> theight (ch ! i) = h - 1" if "i < length ch" "i \<noteq> p" for i
    proof -
      have "ch ! i = cs ! i" using that p(2) by (auto simp: ch_def childrenWith_def nth_append nth_Cons')
      then show ?thesis using lvl(1) that ch(1) by (simp add: sameLevel_def)
    qed
    have okc: "keysOk ct (levelEntries ct ch)" unfolding ch(3) by (rule keysOk_delete [OF ok])
    have lenc: "length (levelEntries ct ch) < 2 ^ 32"
      unfolding ch(3) using length_deleteEntry [of "cmpT ct" key "levelEntries ct cs"] len by linarith
    have fan: "length cs \<le> fanout sh" using w by simp
    let ?left = "if p > 0 then p - 1 else p"
    have unf: "removeFrom sh ct (Branch n h seps cs) key inTree =
       (if underfull sh ct r
        then if length ch > 1
             then do { made \<leftarrow> combine sh ct (ch ! ?left) (ch ! (?left + 1));
                       t \<leftarrow> makeBranch sh (take ?left ch @ made @ drop (?left + 2) ch);
                       Some (Rebuilt t) }
             else None
        else map_option Rebuilt (makeBranch sh ch))"
      using p(1,2) g(1) Rebuilt by (simp add: ch_def Let_def)
    have fin: "\<exists>t. makeBranch sh xs = Some t \<and> removedOk sh ct (Branch n h seps cs) ?es (Rebuilt t)"
      if xs: "sameLevel sh ct (h - 1) xs" "levelEntries ct xs = levelEntries ct ch" "length ch \<le> length xs + 1" "length xs \<le> length ch" for xs
    proof -
      have ne: "xs \<noteq> []" "length xs \<le> fanout sh" using xs ch(1) two fan by auto
      have l: "length (levelEntries ct xs) < 2 ^ 32" unfolding xs(2) by (rule lenc)
      obtain n' s' where b: "makeBranch sh xs = Some (Branch n' (h - 1 + 1) s' xs)" "wft sh ct (Branch n' (h - 1 + 1) s' xs)"
        using makeBranch_spec [OF sh ne xs(1) okc [folded xs(2)] l] by blast
      then have "removedOk sh ct (Branch n h seps cs) ?es (Rebuilt (Branch n' (h - 1 + 1) s' xs))"
        using xs ch lvl(2) by (auto simp: removedOk_def simp del: wft.simps)
      then show ?thesis using b by blast
    qed
    show ?thesis
    proof (cases "underfull sh ct r")
      case True
      obtain made where m: "combine sh ct (ch ! ?left) (ch ! (?left + 1)) = Some made"
        "sameLevel sh ct (h - 1) (take ?left ch @ made @ drop (?left + 2) ch)"
        "levelEntries ct (take ?left ch @ made @ drop (?left + 2) ch) = levelEntries ct ch"
        "length ch \<le> length (take ?left ch @ made @ drop (?left + 2) ch) + 1"
        "length (take ?left ch @ made @ drop (?left + 2) ch) \<le> length ch"
        using rebalance_spec [OF sh _ _ other _ _ _ okc lenc, of p] p(2) ch two r by auto
      obtain t where "makeBranch sh (take ?left ch @ made @ drop (?left + 2) ch) = Some t"
        "removedOk sh ct (Branch n h seps cs) ?es (Rebuilt t)"
        using fin [OF m(2-5)] by blast
      then show ?thesis using unf True ch(1) two m(1) by (auto simp: removedOk_def)
    next
      case False
      have "length (entriesT ct r) < 2 ^ 32"
        unfolding r(3) using length_deleteEntry [of "cmpT ct" key "entriesT ct ?c"] lc by linarith
      then have "full sh ct r" using underfull_full [OF sh r(1)] False by simp
      then have "sameLevel sh ct (h - 1) ch"
        unfolding sameLevel_def using other r ch(1,2) p(2) by (metis in_set_conv_nth)
      then obtain t where "makeBranch sh ch = Some t" "removedOk sh ct (Branch n h seps cs) ?es (Rebuilt t)"
        using fin [of ch] by auto
      then show ?thesis using unf False by simp
    qed
  qed
qed

lemma dropSingleRoots_id:
  assumes "shape_ok sh" "wft sh ct t" "rootOk t" shows "dropSingleRoots t = t"
  using assms tcount_wft [OF assms(1)] by (cases t) (auto simp del: wft.simps tcount.simps)

lemma dropSingleRoots_spec:
  assumes sh: "shape_ok sh" and w: "wft sh ct t"
  shows "wft sh ct (dropSingleRoots t) \<and> rootOk (dropSingleRoots t) \<and> entriesT ct (dropSingleRoots t) = entriesT ct t"
proof (cases t)
  case (Branch n h seps cs)
  have cnt: "tcount t = length cs" using tcount_wft [OF sh] w Branch by (simp del: wft.simps tcount.simps)
  show ?thesis
  proof (cases "length cs = 1")
    case True
    then obtain c where c: "cs = [c]" by (cases cs) auto
    then have wc: "wft sh ct c" "full sh ct c" using w Branch by auto
    have "dropSingleRoots t = dropSingleRoots c" using cnt Branch c by simp
    also have "\<dots> = c" by (rule dropSingleRoots_id [OF sh wc(1) full_rootOk [OF sh wc(2)]])
    finally show ?thesis using wc full_rootOk [OF sh wc(2)] Branch c by simp
  next
    case False
    have "2 \<le> length cs" using False w Branch by (cases cs) (auto simp: Suc_le_eq)
    moreover have "dropSingleRoots t = t" using cnt Branch False by simp
    ultimately show ?thesis using w Branch by (simp only: rootOk.simps simp_thms)
  qed
qed (use w in simp)

lemma removeKey_spec:
  assumes sh: "shape_ok sh" and t: "validT sh ct t" and live: "liveKey (keyTy ct) key"
  shows "\<exists>r. removeKey sh ct t key = Some r \<and> validT sh ct r \<and> entriesT ct r = deleteEntry (cmpT ct) key (entriesT ct t)"
proof -
  let ?es = "deleteEntry (cmpT ct) key (entriesT ct t)"
  have w: "wft sh ct t" "rootOk t" "keysOk ct (entriesT ct t)" "length (entriesT ct t) < 2 ^ 32" using t by (auto simp: validT_def)
  have es: "keysOk ct ?es" "length ?es < 2 ^ 32"
    using keysOk_delete [OF w(3)] length_deleteEntry [of "cmpT ct" key "entriesT ct t"] w(4) by auto
  obtain g where g: "removeFrom sh ct t key False = Some g" "removedOk sh ct t ?es g"
    using removeFrom_spec [OF sh w(1,2,3) live w(4)] by blast
  show ?thesis
  proof (cases g)
    case Unchanged
    then show ?thesis using g t dropSingleRoots_id [OF sh w(1,2)] by (simp add: removeKey_def removedOk_def)
  next
    case (Rebuilt r)
    then have "wft sh ct r" "entriesT ct r = ?es" using g(2) by (auto simp: removedOk_def)
    then show ?thesis using dropSingleRoots_spec [OF sh, of ct r] g(1) Rebuilt es by (simp add: removeKey_def validT_def)
  qed
qed

end
