(* ===== verification/Collection_Build.thy ===== *)
theory Collection_Build
  imports Collection_Update
begin

text \<open>
  The bottom-up construction of a tree (shares, branch levels, \<open>buildTree\<close>) yields a valid tree of
  exactly the entries given, and the check of the invariants accepts every valid tree, so that
  \<open>checked\<close> never stops the process on one.
\<close>

text \<open>The entries a builder is given by position.\<close>

definition entryFun :: "CollType \<Rightarrow> (nat \<Rightarrow> slot) \<Rightarrow> (nat \<Rightarrow> slot) \<Rightarrow> nat \<Rightarrow> slot \<times> slot" where
  "entryFun ct keyAt valueAt i = (keyAt i, if isMap ct then valueAt i else NullSlot)"

definition lastKey :: "slot option \<Rightarrow> (slot \<times> slot) list \<Rightarrow> slot option" where
  "lastKey l es = (if es = [] then l else Some (fst (last es)))"

definition afterKey :: "CollType \<Rightarrow> slot option \<Rightarrow> (slot \<times> slot) list \<Rightarrow> bool" where
  "afterKey ct last0 es \<longleftrightarrow> (\<forall>l. last0 = Some l \<longrightarrow> liveKey (keyTy ct) l \<and> (\<forall>e \<in> set es. cmpT ct l (fst e) < 0))"

section \<open>Bottom-up construction\<close>

lemma Shares_spec:
  assumes "2 \<le> cap" "cap < n" "n < 2 ^ 32"
  defines "G \<equiv> Shares_groups n cap" and "b \<equiv> Shares_bound n (Shares_groups n cap)"
  shows "2 \<le> G" "G < n" "b 0 = 0" "b G = n"
    "\<And>g. g < G \<Longrightarrow> b g \<le> b (g + 1) \<and> b (g + 1) \<le> n \<and> b (g + 1) - b g \<le> cap \<and> cap div 2 \<le> b (g + 1) - b g \<and> 1 \<le> b (g + 1) - b g"
proof -
  let ?r = "if n mod cap \<noteq> 0 then 1 else 0 :: nat"
  have G: "G = n div cap + ?r" using assms by (simp add: G_def Shares_groups_def)
  have dm: "n = n div cap * cap + n mod cap" by simp
  have up: "n \<le> G * cap"
  proof (cases "n mod cap = 0")
    case True then show ?thesis using dm G by simp
  next
    case False
    have "n mod cap \<le> cap" using assms by (simp add: less_imp_le)
    then have "n \<le> n div cap * cap + cap" using dm by linarith
    then show ?thesis using G False by simp
  qed
  show g2: "2 \<le> G"
  proof (rule ccontr)
    assume "\<not> 2 \<le> G"
    then have "G * cap \<le> 1 * cap" by (intro mult_right_mono) auto
    then show False using up assms(2) by linarith
  qed
  have low: "(G - 1) * cap < n"
  proof (cases "n mod cap = 0")
    case True
    then have e: "G * cap = n" using dm G by simp
    have "0 < G" "0 < cap" using g2 assms by auto
    then have "(G - 1) * cap < G * cap" by (simp add: mult_less_mono1)
    then show ?thesis using e by simp
  next
    case False
    then have "(G - 1) * cap = n div cap * cap" using G by simp
    then show ?thesis using dm False by linarith
  qed
  show gn: "G < n"
  proof -
    have "(G - 1) * 2 \<le> (G - 1) * cap" using assms by (intro mult_left_mono) auto
    then have "(G - 1) * 2 < n" using low by linarith
    then show ?thesis using g2 by linarith
  qed
  have nowrap: "g * n < 2 ^ 64" if "g \<le> G" for g
  proof -
    have "g * n \<le> n * n" using that gn by (intro mult_right_mono) auto
    also have "n * n < 2 ^ 32 * 2 ^ 32" using assms(3) by (intro mult_strict_mono) auto
    finally show ?thesis by simp
  qed
  have b: "b g = g * n div G" if "g \<le> G" for g
    using nowrap [OF that] by (simp add: b_def Shares_bound_def G_def)
  show "b 0 = 0" "b G = n" using b [of 0] b [of G] g2 by auto
  fix g assume g: "g < G"
  have bg: "b g = g * n div G" "b (g + 1) = (g * n + n) div G" using b [of g] b [of "g + 1"] g by (auto simp: algebra_simps)
  have lower: "g * n div G + n div G \<le> (g * n + n) div G"
  proof -
    have "(g * n div G + n div G) * G \<le> g * n + n"
      using div_times_less_eq_dividend [of "g * n" G] div_times_less_eq_dividend [of n G] by (simp add: add_mult_distrib add_mono)
    then show ?thesis using g2 by (simp add: less_eq_div_iff_mult_less_eq)
  qed
  have upper: "(g * n + n) div G \<le> g * n div G + cap"
  proof -
    have "g * n + n \<le> g * n + G * cap" using up by simp
    then have "(g * n + n) div G \<le> (g * n + G * cap) div G" by (rule div_le_mono)
    also have "\<dots> = g * n div G + cap" using g2 by simp
    finally show ?thesis .
  qed
  have half: "cap div 2 \<le> n div G"
  proof -
    have "cap div 2 * G \<le> (G - 1) * cap"
    proof -
      obtain k where k: "G = k + 2" using g2 by (metis le_add_diff_inverse2)
      have "k * (cap div 2) \<le> k * cap" by (intro mult_le_mono2) simp
      moreover have "2 * (cap div 2) \<le> cap" by simp
      moreover have "cap div 2 * G = k * (cap div 2) + 2 * (cap div 2)" "(G - 1) * cap = k * cap + cap"
        using k by (simp_all add: algebra_simps)
      ultimately show ?thesis by linarith
    qed
    then show ?thesis using low g2 by (simp add: less_eq_div_iff_mult_less_eq)
  qed
  have one: "1 \<le> n div G" using gn g2 by (simp add: Suc_le_eq div_greater_zero_iff)
  have "(g + 1) * n \<le> G * n" using g by (intro mult_right_mono) auto
  then have "(g * n + n) div G \<le> G * n div G" by (intro div_le_mono) (simp add: algebra_simps)
  then have "b (g + 1) \<le> n" using bg g2 by simp
  then show "b g \<le> b (g + 1) \<and> b (g + 1) \<le> n \<and> b (g + 1) - b g \<le> cap \<and> cap div 2 \<le> b (g + 1) - b g \<and> 1 \<le> b (g + 1) - b g"
    using bg lower upper half one by linarith
qed

lemma those_map_Some: "(\<And>x. x \<in> set xs \<Longrightarrow> f x = Some (g x)) \<Longrightarrow> those (map f xs) = Some (map g xs)"
  by (induction xs) auto

lemma concat_slices:
  assumes "\<And>g. g < G \<Longrightarrow> b g \<le> b (g + 1)"
  shows "concat (map (\<lambda>g. slice (b g) (b (g + 1)) xs) [0..<G]) = slice (b 0) (b G) xs \<and> b 0 \<le> b G"
  using assms
proof (induction G)
  case (Suc G)
  then have IH: "concat (map (\<lambda>g. slice (b g) (b (g + 1)) xs) [0..<G]) = slice (b 0) (b G) xs" "b 0 \<le> b G" by auto
  have le: "b G \<le> b (Suc G)" using Suc.prems [of G] by simp
  have "slice (b 0) (b G) xs @ slice (b G) (b (Suc G)) xs = slice (b 0) (b (Suc G)) xs"
  proof -
    have "take (b (Suc G) - b 0) (drop (b 0) xs) = take ((b G - b 0) + (b (Suc G) - b G)) (drop (b 0) xs)"
      using IH(2) le by simp
    also have "\<dots> = take (b G - b 0) (drop (b 0) xs) @ take (b (Suc G) - b G) (drop (b G - b 0) (drop (b 0) xs))"
      by (rule take_add)
    finally show ?thesis using IH(2) by (simp add: slice_def)
  qed
  then show ?case using IH le by simp
qed (simp add: slice_def)

lemma level_length_entries:
  assumes "shape_ok sh" "sameLevel sh ct h level" shows "length level \<le> length (levelEntries ct level)"
  using assms(2)
proof (induction level)
  case (Cons c cs)
  then have "entriesT ct c \<noteq> []" using wft_entries [OF assms(1), of ct c] by simp
  then have "1 \<le> length (entriesT ct c)" by (cases "entriesT ct c") auto
  then show ?case using Cons by simp
qed simp

lemma slice_level:
  assumes "b \<le> e" "e \<le> length level"
  shows "levelEntries ct level = levelEntries ct (take b level) @ levelEntries ct (slice b e level) @ levelEntries ct (drop e level)"
proof -
  have "level = take b level @ slice b e level @ drop e level"
    using assms by (metis append_assoc append_take_drop_id drop_drop le_add_diff_inverse2 slice_def add.commute)
  then show ?thesis by (metis concat_append map_append)
qed

lemma concat_map_concat: "concat (map f (concat xss)) = concat (map (\<lambda>xs. concat (map f xs)) xss)"
  by (induction xss) auto

lemma branchLevel_spec:
  assumes sh: "shape_ok sh" and lvl: "sameLevel sh ct h level" and n: "1 < length level"
    and ok: "keysOk ct (levelEntries ct level)" and len: "length (levelEntries ct level) < 2 ^ 32"
  shows "\<exists>upper. branchLevel sh level = Some upper \<and> upper \<noteq> [] \<and> length upper < length level \<and>
    levelEntries ct upper = levelEntries ct level \<and> (\<forall>t \<in> set upper. wft sh ct t \<and> rootOk t \<and> theight t = h + 1) \<and>
    (1 < length upper \<longrightarrow> sameLevel sh ct (h + 1) upper)"
proof (cases "length level \<le> fanout sh")
  case True
  have ne: "level \<noteq> []" using n by auto
  obtain k s where b: "makeBranch sh level = Some (Branch k (h + 1) s level)" "wft sh ct (Branch k (h + 1) s level)"
    using makeBranch_spec [OF sh ne True lvl ok len] by blast
  have "length level < 2 ^ 64" using True shape_okD(3) [OF sh] by simp
  then have "branchLevel sh level = Some [Branch k (h + 1) s level]"
    using True b(1) by (simp add: branchLevel_def Shares_groups_def Shares_bound_def slice_def)
  then show ?thesis using b(2) n by (auto simp del: wft.simps)
next
  case False
  let ?n = "length level" and ?f = "fanout sh"
  let ?G = "Shares_groups ?n ?f"
  let ?b = "Shares_bound ?n ?G"
  note fo = shape_okD(2,5) [OF sh]
  have "2 \<le> ?f" "?f < ?n" "?n < 2 ^ 32" using fo False level_length_entries [OF sh lvl] len by linarith+
  note S = Shares_spec [OF this]
  have mono: "\<And>g. g < ?G \<Longrightarrow> ?b g \<le> ?b (g + 1)" using S(5) by blast
  have each: "\<exists>t. makeBranch sh (slice (?b g) (?b (g + 1)) level) = Some t \<and> wft sh ct t \<and> full sh ct t \<and> theight t = h + 1 \<and>
      entriesT ct t = levelEntries ct (slice (?b g) (?b (g + 1)) level)" if g: "g < ?G" for g
  proof -
    let ?s = "slice (?b g) (?b (g + 1)) level"
    have le: "length ?s = ?b (g + 1) - ?b g" using S(5) [OF g] by (simp only: slice_def length_slice)
    note sp = slice_level [of "?b g" "?b (g + 1)" level ct]
    have oks: "keysOk ct (levelEntries ct ?s)" "length (levelEntries ct ?s) < 2 ^ 32"
      using ok len sp S(5) [OF g] by (auto simp: keysOk_append)
    have ls: "sameLevel sh ct h ?s" unfolding slice_def using lvl by simp
    have "?s \<noteq> []" "length ?s \<le> ?f" "?f div 2 \<le> length ?s" using S(5) [OF g] le by auto
    then show ?thesis using makeBranch_spec [OF sh _ _ ls oks] by fastforce
  qed
  define t where "t = (\<lambda>g. the (makeBranch sh (slice (?b g) (?b (g + 1)) level)))"
  have T: "makeBranch sh (slice (?b g) (?b (g + 1)) level) = Some (t g)" "wft sh ct (t g)" "full sh ct (t g)" "theight (t g) = h + 1"
    "entriesT ct (t g) = levelEntries ct (slice (?b g) (?b (g + 1)) level)" if "g < ?G" for g
    using each [OF that] by (auto simp: t_def)
  let ?u = "map t [0..<?G]"
  have "branchLevel sh level = Some ?u"
    unfolding branchLevel_def Let_def by (rule those_map_Some) (use T(1) in simp)
  moreover have "levelEntries ct ?u = levelEntries ct level"
  proof -
    have "map (entriesT ct) ?u = map (\<lambda>g. levelEntries ct (slice (?b g) (?b (g + 1)) level)) [0..<?G]" using T(5) by simp
    then have "levelEntries ct ?u = levelEntries ct (concat (map (\<lambda>g. slice (?b g) (?b (g + 1)) level) [0..<?G]))"
      by (simp only: concat_map_concat map_map comp_def)
    also have "concat (map (\<lambda>g. slice (?b g) (?b (g + 1)) level) [0..<?G]) = slice 0 ?n level"
      using concat_slices [of ?G ?b level] mono S(3,4) by simp
    finally show ?thesis by (simp add: slice_def)
  qed
  moreover have "sameLevel sh ct (h + 1) ?u" using T(2-4) by (auto simp: sameLevel_def)
  moreover have "\<forall>x \<in> set ?u. wft sh ct x \<and> rootOk x \<and> theight x = h + 1" using T(2-4) full_rootOk [OF sh, of ct] by auto
  ultimately show ?thesis using S(1,2) by (intro exI [of _ ?u]) auto
qed

lemma buildBranches_spec:
  assumes sh: "shape_ok sh"
  shows "level \<noteq> [] \<Longrightarrow> (1 < length level \<longrightarrow> sameLevel sh ct h level) \<Longrightarrow> (\<forall>t \<in> set level. wft sh ct t \<and> rootOk t) \<Longrightarrow>
    keysOk ct (levelEntries ct level) \<Longrightarrow> length (levelEntries ct level) < 2 ^ 32 \<Longrightarrow>
    \<exists>t. buildBranches sh level = Some t \<and> wft sh ct t \<and> rootOk t \<and> entriesT ct t = levelEntries ct level"
proof (induction "length level" arbitrary: level h rule: less_induct)
  case less
  show ?case
  proof (cases "1 < length level")
    case False
    then obtain t where "level = [t]" using less.prems(1) by (cases level) auto
    then show ?thesis using less.prems(3) by (auto simp: buildBranches.simps)
  next
    case True
    obtain upper where u: "branchLevel sh level = Some upper" "upper \<noteq> []" "length upper < length level"
      "levelEntries ct upper = levelEntries ct level" "\<forall>t \<in> set upper. wft sh ct t \<and> rootOk t \<and> theight t = h + 1"
      "1 < length upper \<longrightarrow> sameLevel sh ct (h + 1) upper"
      using branchLevel_spec [OF sh _ True less.prems(4,5)] less.prems(2) True by blast
    have "\<exists>t. buildBranches sh upper = Some t \<and> wft sh ct t \<and> rootOk t \<and> entriesT ct t = levelEntries ct upper"
      using less.hyps [OF u(3) u(2) u(6)] u(4,5) less.prems(4,5) by auto
    then show ?thesis using True u(1,4) by (subst buildBranches.simps) simp
  qed
qed

lemma leafEntries_map:
  "leafEntries ct (map keyAt is) (if isMap ct then map valueAt is else []) = map (entryFun ct keyAt valueAt) is"
  by (auto simp: leafEntries_def entryFun_def zip_map_map map_eq_conv zip_same_conv_map)

lemma concat_ranges:
  assumes "\<And>g. g < G \<Longrightarrow> b g \<le> b (g + 1)"
  shows "concat (map (\<lambda>g. map F [b g..<b (g + 1)]) [0..<G]) = map F [b 0..<b G] \<and> b 0 \<le> b G"
  using assms
proof (induction G)
  case (Suc G)
  then have IH: "concat (map (\<lambda>g. map F [b g..<b (g + 1)]) [0..<G]) = map F [b 0..<b G]" "b 0 \<le> b G" by auto
  have le: "b G \<le> b (Suc G)" using Suc.prems [of G] by simp
  then have "[b 0..<b (Suc G)] = [b 0..<b G] @ [b G..<b (Suc G)]"
    using IH(2) by (metis le_add_diff_inverse upt_add_eq_append)
  then show ?case using IH le by simp
qed simp

lemma buildTree_spec:
  assumes sh: "shape_ok sh" and ok: "keysOk ct (map (entryFun ct keyAt valueAt) [0..<n])" and n: "n < 2 ^ 32"
  shows "\<exists>t. buildTree sh ct n keyAt valueAt = Some t \<and> validT sh ct t \<and> entriesT ct t = map (entryFun ct keyAt valueAt) [0..<n]"
proof (cases "n \<le> leafCapacity sh ct")
  case True
  define t where "t = Leaf (map keyAt [0..<n]) (if isMap ct then map valueAt [0..<n] else [])"
  have "buildTree sh ct n keyAt valueAt = Some t" using True by (simp add: buildTree_def leafOf_Some t_def)
  moreover have e: "entriesT ct t = map (entryFun ct keyAt valueAt) [0..<n]" by (simp add: t_def leafEntries_map)
  moreover have "wft sh ct t" "rootOk t" using True by (auto simp: t_def valuesOk_def)
  ultimately show ?thesis using ok n by (simp add: validT_def)
next
  case False
  let ?c = "leafCapacity sh ct"
  let ?G = "Shares_groups n ?c"
  let ?b = "Shares_bound n ?G" and ?F = "entryFun ct keyAt valueAt"
  have "2 \<le> ?c" "?c < n" using shape_okD(1) [OF sh] False by auto
  note S = Shares_spec [OF this n]
  define leaf where "leaf = (\<lambda>g. Leaf (map keyAt [?b g..<?b (g + 1)]) (if isMap ct then map valueAt [?b g..<?b (g + 1)] else []))"
  define leaves where "leaves = map leaf [0..<?G]"
  have lv: "those (map (\<lambda>g. leafOf sh ct True (?b g) (?b (g + 1)) keyAt valueAt) [0..<?G]) = Some leaves"
    unfolding leaves_def by (rule those_map_Some) (simp add: leafOf_Some leaf_def)
  have L: "wft sh ct (leaf g) \<and> full sh ct (leaf g) \<and> theight (leaf g) = 0" if "g < ?G" for g
    using S(5) [OF that] by (auto simp: leaf_def valuesOk_def)
  have lvl: "sameLevel sh ct 0 leaves" using L by (auto simp: leaves_def sameLevel_def)
  have "levelEntries ct leaves = concat (map (\<lambda>g. map ?F [?b g..<?b (g + 1)]) [0..<?G])"
    unfolding leaves_def leaf_def map_map comp_def entriesT.simps leafEntries_map by (rule refl)
  also have "\<dots> = map ?F [?b 0..<?b ?G]" using concat_ranges [of ?G ?b ?F] S(5) by blast
  finally have e: "levelEntries ct leaves = map ?F [0..<n]" using S(3,4) by simp
  have len: "length (levelEntries ct leaves) < 2 ^ 32" unfolding e using n by simp
  have ne: "leaves \<noteq> []" using S(1) by (auto simp: leaves_def)
  have "\<forall>t \<in> set leaves. wft sh ct t \<and> rootOk t" using L by (auto simp: leaves_def leaf_def)
  then obtain t where t: "buildBranches sh leaves = Some t" "wft sh ct t" "rootOk t" "entriesT ct t = levelEntries ct leaves"
    using buildBranches_spec [OF sh ne _ _ _ len, of 0] lvl ok e by auto
  then have "buildTree sh ct n keyAt valueAt = Some t" using False lv by (simp add: buildTree_def)
  moreover have "validT sh ct t" using t ok e n by (simp add: validT_def)
  ultimately show ?thesis using t(4) e by auto
qed

lemma Entries_build_spec:
  assumes sh: "shape_ok sh" and ok: "keysOk ct es" and n: "length es < 2 ^ 32"
    and nul: "isMap ct \<or> (\<forall>e \<in> set es. snd e = NullSlot)"
  shows "\<exists>t. Entries_build sh ct es = Some t \<and> validT sh ct t \<and> entriesT ct t = es"
proof -
  have "map (entryFun ct (\<lambda>i. fst (es ! i)) (\<lambda>i. snd (es ! i))) [0..<length es] = es"
    by (rule nth_equalityI) (use nul in \<open>auto simp: entryFun_def prod_eq_iff\<close>)
  then show ?thesis using buildTree_spec [OF sh _ n, of ct "\<lambda>i. fst (es ! i)" "\<lambda>i. snd (es ! i)"] ok
    by (simp add: Entries_build_def)
qed

section \<open>Validation\<close>

lemma checkKeys_ok:
  "ascending (cmpKeys kt) ks \<Longrightarrow> \<forall>k \<in> set ks. liveKey kt k \<Longrightarrow>
   (\<forall>l. last0 = Some l \<longrightarrow> liveKey kt l \<and> (\<forall>k \<in> set ks. cmpKeys kt l k < 0)) \<Longrightarrow>
   checkKeys kt ks i last0 = Some (Inr (if ks = [] then last0 else Some (last ks)))"
proof (induction ks arbitrary: i last0)
  case (Cons k ks)
  have "checkKeys kt ks (i + 1) (Some k) = Some (Inr (if ks = [] then Some k else Some (last ks)))"
    using Cons by auto
  then show ?case using Cons.prems by (cases last0) (auto simp: compareKeys_live)
qed simp

lemma lastKey_append: "lastKey l (xs @ ys) = lastKey (lastKey l xs) ys"
  by (simp add: lastKey_def)

lemma afterKey_append: "keysOk ct (xs @ ys) \<Longrightarrow> afterKey ct l (xs @ ys) \<Longrightarrow> afterKey ct l xs \<and> afterKey ct (lastKey l xs) ys"
  by (auto simp: afterKey_def lastKey_def keysOk_append keysOk_def [of ct xs] split: if_splits)

lemma check_ok:
  "shape_ok sh \<Longrightarrow> wft sh ct t \<Longrightarrow> (if isRoot then rootOk t else full sh ct t) \<Longrightarrow> keysOk ct (entriesT ct t) \<Longrightarrow>
     length (entriesT ct t) < 2 ^ 32 \<Longrightarrow> afterKey ct last0 (entriesT ct t) \<Longrightarrow>
   check sh ct isRoot t last0 = Some (Inr (lastKey last0 (entriesT ct t)))"
  "shape_ok sh \<Longrightarrow> sameLevel sh ct (h - 1) cs \<Longrightarrow> 1 \<le> h \<Longrightarrow>
     list_all2 (\<lambda>s c. cmpT ct s (firstKey c) = 0 \<and> liveKey (keyTy ct) s) (drop i seps) cs \<Longrightarrow>
     keysOk ct (levelEntries ct cs) \<Longrightarrow> length (levelEntries ct cs) < 2 ^ 32 \<Longrightarrow> n = acc + length (levelEntries ct cs) \<Longrightarrow>
     afterKey ct last0 (levelEntries ct cs) \<Longrightarrow>
   checkChildren sh ct n h seps cs i acc last0 = Some (Inr (lastKey last0 (levelEntries ct cs)))"
proof (induction sh ct isRoot t last0 and sh ct n h seps cs i acc last0 rule: check_checkChildren.induct)
  case (1 sh ct isRoot ks vs last0)
  have v: "valuesOk ct ks vs" using 1 by simp
  have len: "length ks < 2 ^ 32" "length (leafEntries ct ks vs) = length ks" using 1 length_leafEntries [OF v] by auto
  note k = keys_leafEntries [OF v]
  have ks: "ascending (cmpT ct) ks" "\<forall>k \<in> set ks. liveKey (keyTy ct) k"
  proof -
    have "set ks = fst ` set (leafEntries ct ks vs)" by (metis k set_map)
    then show "ascending (cmpT ct) ks" "\<forall>k \<in> set ks. liveKey (keyTy ct) k" using 1(4) k by (auto simp: keysOk_def)
  qed
  have "\<forall>l. last0 = Some l \<longrightarrow> liveKey (keyTy ct) l \<and> (\<forall>k \<in> set ks. cmpT ct l k < 0)"
  proof -
    have "set ks = fst ` set (leafEntries ct ks vs)" by (metis k set_map)
    then show ?thesis using 1(6) by (auto simp: afterKey_def)
  qed
  note ck = checkKeys_ok [OF ks this, of 0]
  have "(if ks = [] then last0 else Some (last ks)) = lastKey last0 (leafEntries ct ks vs)"
  proof (cases "ks = []")
    case False
    then have ne: "leafEntries ct ks vs \<noteq> []" using len(2) by (metis length_0_conv)
    then have "last ks = fst (last (leafEntries ct ks vs))" by (metis k last_map)
    then show ?thesis using False ne by (simp add: lastKey_def)
  qed (use len(2) in \<open>simp add: lastKey_def\<close>)
  then show ?case using ck len 1(2,3) by (auto simp: Let_def)
next
  case (2 sh ct isRoot n h seps cs last0)
  have cnt: "tcount (Branch n h seps cs) = length cs" by (rule tcount_wft [OF 2(2,3)])
  have lvl: "sameLevel sh ct (h - 1) cs" "1 \<le> h" using wft_Branch_level [OF 2(3)] by auto
  have c: "\<not> (length cs > fanout sh \<or> length cs < (if isRoot then 2 else fanout sh div 2))"
    using 2(3,4) by (auto split: if_splits)
  have "checkChildren sh ct n h seps (take (length cs) cs) 0 0 last0 = Some (Inr (lastKey last0 (levelEntries ct cs)))"
    using 2(1) [OF cnt [symmetric] c] 2(2-) lvl by simp
  then show ?case using cnt c by (simp add: Let_def del: tcount.simps)
next
  case (3 sh ct n h seps i acc last0)
  then show ?case by (simp add: lastKey_def)
next
  case (4 sh ct n h seps c cs i acc last0)
  have i: "i < length seps" using 4(6) by (cases "i < length seps") auto
  then have dr: "drop i seps = seps ! i # drop (i + 1) seps" by (simp add: Cons_nth_drop_Suc)
  have s: "cmpT ct (seps ! i) (firstKey c) = 0" "liveKey (keyTy ct) (seps ! i)"
    and rest: "list_all2 (\<lambda>s c. cmpT ct s (firstKey c) = 0 \<and> liveKey (keyTy ct) s) (drop (i + 1) seps) cs"
    using 4(6) unfolding dr by auto
  have wc: "wft sh ct c" "full sh ct c" "theight c = h - 1" "sameLevel sh ct (h - 1) cs" using 4(4) by auto
  have okc: "keysOk ct (entriesT ct c)" "keysOk ct (levelEntries ct cs)" using 4(7) by (auto simp: keysOk_append)
  have len: "length (entriesT ct c) < 2 ^ 32" "length (levelEntries ct cs) < 2 ^ 32" using 4(8) by auto
  have ne: "entriesT ct c \<noteq> []" by (rule wft_entries [OF 4(3) wc(1,2)])
  have ts: "tsize c = length (entriesT ct c)" by (rule tsize_wft [OF wc(1) len(1)])
  have fk: "liveKey (keyTy ct) (firstKey c)" using firstKey_spec [OF 4(3) wc(1) ne okc(1)] by blast
  have cmp: "compareKeys (seps ! i) (firstKey c) (keyTy ct) = Some 0" using compareKeys_live(1) [OF s(2) fk] s(1) by simp
  have af: "afterKey ct last0 (entriesT ct c)" "afterKey ct (lastKey last0 (entriesT ct c)) (levelEntries ct cs)"
    using afterKey_append [of ct "entriesT ct c" "levelEntries ct cs" last0] 4(7,10) by auto
  have h: "\<not> theight c + 1 \<noteq> h" "tsize c \<noteq> 0" using wc(3) 4(5) ts ne by auto
  have z: "\<not> (0 :: int) \<noteq> 0" by simp
  have ck: "check sh ct False c last0 = Some (Inr (lastKey last0 (entriesT ct c)))"
    using 4(1) [OF h(1) h(2) i cmp z 4(3) wc(1) _ okc(1) len(1) af(1)] wc(2) by simp
  have "checkChildren sh ct n h seps cs (i + 1) (acc + tsize c) (lastKey last0 (entriesT ct c)) =
      Some (Inr (lastKey (lastKey last0 (entriesT ct c)) (levelEntries ct cs)))"
    using 4(2) [OF h(1) h(2) i cmp z ck refl 4(3) wc(4) 4(5) rest okc(2) len(2) _ af(2)] 4(9) ts by simp
  then show ?case using h i cmp ck by (simp add: lastKey_append)
qed

lemma checked_valid: "shape_ok sh \<Longrightarrow> validT sh ct t \<Longrightarrow> checked sh ct t = Some t"
  using check_ok(1) [of sh ct t True None] by (auto simp: checked_def validateT_def validT_def afterKey_def)

end
