(* ===== verification/Collection_Cursor.thy ===== *)
theory Collection_Cursor
  imports Collection_Build
begin

text \<open>
  Walking a tree. The locale \<open>cursor\<close> is the contract of the \<open>Cursor\<close> of the code: what is left
  to visit, whether it is done, the entry it stands on and the step to the next one. It is
  interpreted on the cursor of a valid tree, and every loop over one or two cursors is shown to
  return and to compute the corresponding function on the lists of entries.
\<close>

definition pathRest :: "CollType \<Rightarrow> (table \<times> nat) list \<Rightarrow> (slot \<times> slot) list" where
  "pathRest ct path = concat (map (\<lambda>(node, i). levelEntries ct (drop (i + 1) (tchildren node))) path)"

definition cursorRest :: "CollType \<Rightarrow> Cursor \<Rightarrow> (slot \<times> slot) list" where
  "cursorRest ct c =
     (case curLeaf c of None \<Rightarrow> [] | Some leaf \<Rightarrow> drop (curPos c) (entriesT ct leaf) @ pathRest ct (curPath c))"

fun pathOk :: "Shape \<Rightarrow> CollType \<Rightarrow> nat \<Rightarrow> (table \<times> nat) list \<Rightarrow> bool" where
  "pathOk sh ct k [] \<longleftrightarrow> True"
| "pathOk sh ct k ((node, i) # path) \<longleftrightarrow>
     wft sh ct node \<and> theight node = k + 1 \<and> i < length (tchildren node) \<and> length (entriesT ct node) < 2 ^ 32 \<and>
     pathOk sh ct (k + 1) path"

definition cursorOk :: "Shape \<Rightarrow> CollType \<Rightarrow> Cursor \<Rightarrow> bool" where
  "cursorOk sh ct c \<longleftrightarrow> shape_ok sh \<and>
     (case curLeaf c of
        None \<Rightarrow> True
      | Some leaf \<Rightarrow> wft sh ct leaf \<and> theight leaf = 0 \<and> length (entriesT ct leaf) < 2 ^ 32 \<and>
          curPos c < length (entriesT ct leaf) \<and> pathOk sh ct 0 (curPath c))"

definition Cursor_entry :: "CollType \<Rightarrow> Cursor \<Rightarrow> (slot \<times> slot) option" where
  "Cursor_entry ct c = do { k \<leftarrow> Cursor_key c; v \<leftarrow> Cursor_value ct c; Some (k, v) }"

abbreviation liveAll :: "CollType \<Rightarrow> (slot \<times> slot) list \<Rightarrow> bool" where
  "liveAll ct es \<equiv> (\<forall>e \<in> set es. liveKey (keyTy ct) (fst e))"

section \<open>The contract of a cursor\<close>

locale cursor =
  fixes ok :: "'c \<Rightarrow> bool" and rest :: "'c \<Rightarrow> 'e list"
    and atEnd :: "'c \<Rightarrow> bool" and entry :: "'c \<Rightarrow> 'e option" and advance :: "'c \<Rightarrow> 'c option"
  assumes atEnd_iff: "ok c \<Longrightarrow> atEnd c \<longleftrightarrow> rest c = []"
    and entry_hd: "ok c \<Longrightarrow> rest c = e # es \<Longrightarrow> entry c = Some e"
    and advance_tl: "ok c \<Longrightarrow> rest c = e # es \<Longrightarrow> \<exists>c'. advance c = Some c' \<and> ok c' \<and> rest c' = es"
begin

lemma advance_length:
  assumes "ok c" "advance c = Some c'" "\<not> atEnd c"
  shows "ok c' \<and> length (rest c') < length (rest c)"
proof (cases "rest c")
  case Nil then show ?thesis using assms atEnd_iff by simp
next
  case (Cons e es)
  then show ?thesis using advance_tl [OF assms(1) Cons] assms(2) by auto
qed

lemma cursor_cases:
  assumes "ok c"
  obtains (stop) "rest c = []" "atEnd c"
    | (step) e es c' where "rest c = e # es" "\<not> atEnd c" "entry c = Some e" "advance c = Some c'" "ok c'" "rest c' = es"
proof (cases "rest c")
  case Nil then show ?thesis using stop atEnd_iff assms by blast
next
  case (Cons e es)
  then show ?thesis using step atEnd_iff entry_hd advance_tl assms by (metis list.discI)
qed

end

section \<open>The cursor of a tree\<close>

text \<open>The steps of a path above a table of height \<open>k\<close>.\<close>

lemma pathOk_bound: "shape_ok sh \<Longrightarrow> pathOk sh ct k path \<Longrightarrow> path \<noteq> [] \<Longrightarrow> k + length path \<le> 32"
proof (induction path arbitrary: k)
  case (Cons s path)
  obtain node i where s: "s = (node, i)" by (cases s)
  show ?case
  proof (cases "path = []")
    case True
    then show ?thesis using Cons.prems s theight_bound [of sh ct node] by simp
  next
    case False
    then show ?thesis using Cons s by fastforce
  qed
qed simp

lemma leftmostLeaf_spec:
  "shape_ok sh \<Longrightarrow> wft sh ct t \<Longrightarrow> length (entriesT ct t) < 2 ^ 32 \<Longrightarrow> pathOk sh ct (theight t) path \<Longrightarrow>
   \<exists>path' leaf. leftmostLeaf path t = Some (path', leaf) \<and> wft sh ct leaf \<and> theight leaf = 0 \<and>
     length (entriesT ct leaf) < 2 ^ 32 \<and> pathOk sh ct 0 path' \<and> (full sh ct t \<or> theight t > 0 \<longrightarrow> entriesT ct leaf \<noteq> []) \<and>
     entriesT ct t @ pathRest ct path = entriesT ct leaf @ pathRest ct path'"
proof (induction path t rule: leftmostLeaf.induct)
  case (1 path ks vs)
  then show ?case using wft_entries [of sh ct "Leaf ks vs"] by auto
next
  case (2 path n h seps cs)
  note sh = "2.prems"(1) and w = "2.prems"(2)
  obtain c cs' where c: "cs = c # cs'" using w by (cases cs) auto
  have lvl: "sameLevel sh ct (h - 1) cs" "1 \<le> h" using wft_Branch_level [OF w] by auto
  have wc: "wft sh ct c" "full sh ct c" "theight c = h - 1" using lvl c by auto
  have len: "length (entriesT ct c) < 2 ^ 32" using "2.prems"(3) c by simp
  have lp: "length path < kMaxHeight"
    using pathOk_bound [OF sh "2.prems"(4)] by (cases path) (auto simp: kMaxHeight_def)
  have po: "pathOk sh ct (theight c) ((Branch n h seps cs, 0) # path)"
    using w "2.prems"(3,4) wc(3) lvl(2) c by (simp del: wft.simps entriesT.simps)
  obtain path' leaf where l: "leftmostLeaf ((Branch n h seps cs, 0) # path) c = Some (path', leaf)" "wft sh ct leaf" "theight leaf = 0"
    "length (entriesT ct leaf) < 2 ^ 32" "pathOk sh ct 0 path'" "entriesT ct leaf \<noteq> []"
    "entriesT ct c @ pathRest ct ((Branch n h seps cs, 0) # path) = entriesT ct leaf @ pathRest ct path'"
    using 2(1) [OF lp c sh wc(1) len po] wc(2) by blast
  have "entriesT ct (Branch n h seps cs) @ pathRest ct path = entriesT ct c @ pathRest ct ((Branch n h seps cs, 0) # path)"
    using c by (simp add: pathRest_def)
  then show ?case using l lp c by simp
qed

lemma popDone_spec:
  "shape_ok sh \<Longrightarrow> pathOk sh ct k path \<Longrightarrow>
   pathRest ct (popDone path) = pathRest ct path \<and>
   (\<forall>node i p. popDone path = (node, i) # p \<longrightarrow> i + 1 < length (tchildren node) \<and> (\<exists>k. pathOk sh ct k ((node, i) # p)))"
proof (induction path arbitrary: k rule: popDone.induct)
  case (2 node index path)
  have w: "wft sh ct node" "theight node = k + 1" "index < length (tchildren node)" using "2.prems" by auto
  then obtain n seps cs where nd: "node = Branch n (k + 1) seps cs" using branch_of_height [of sh ct node k] by auto
  have cnt: "tcount node = length (tchildren node)" using tcount_wft [OF "2.prems"(1)] w(1) nd by (simp del: wft.simps tcount.simps)
  show ?case
  proof (cases "index + 1 = tcount node")
    case True
    then have "pathRest ct ((node, index) # path) = pathRest ct path" using cnt by (simp add: pathRest_def)
    moreover have "pathOk sh ct (k + 1) path" using "2.prems"(2) by simp
    ultimately show ?thesis using 2(1) [OF True "2.prems"(1)] True by simp
  next
    case False
    then have "popDone ((node, index) # path) = (node, index) # path" by simp
    moreover have "index + 1 < length (tchildren node)" using False cnt w(3) by simp
    ultimately show ?thesis using "2.prems"(2) by auto
  qed
qed simp

lemma Cursor_init_spec:
  assumes "shape_ok sh" "wft sh ct t" "length (entriesT ct t) < 2 ^ 32"
  shows "\<exists>c. Cursor_init t = Some c \<and> cursorOk sh ct c \<and> cursorRest ct c = entriesT ct t"
proof -
  obtain path leaf where l: "leftmostLeaf [] t = Some (path, leaf)" "wft sh ct leaf" "theight leaf = 0"
    "length (entriesT ct leaf) < 2 ^ 32" "pathOk sh ct 0 path" "full sh ct t \<or> theight t > 0 \<longrightarrow> entriesT ct leaf \<noteq> []"
    "entriesT ct t @ pathRest ct [] = entriesT ct leaf @ pathRest ct path"
    using leftmostLeaf_spec [OF assms, of "[]"] by auto
  have ts: "tsize leaf = length (entriesT ct leaf)" by (rule tsize_wft [OF l(2,4)])
  have e: "entriesT ct t = entriesT ct leaf @ pathRest ct path" using l(7) by (simp add: pathRest_def)
  show ?thesis
  proof (cases "entriesT ct leaf = []")
    case False
    then show ?thesis using l e ts assms(1) by (auto simp: Cursor_init_def cursorOk_def cursorRest_def)
  next
    case True
    then have "theight t = 0" using l(6) by auto
    then obtain ks vs where "t = Leaf ks vs" using leaf_of_height assms(2) by blast
    then have "entriesT ct t = []" using l(1) True by auto
    then show ?thesis using l(1) True ts assms(1) by (auto simp: Cursor_init_def cursorOk_def cursorRest_def)
  qed
qed

lemma Cursor_next_spec:
  assumes ok: "cursorOk sh ct c" and rest: "cursorRest ct c = e # es"
  shows "\<exists>c'. Cursor_next c = Some c' \<and> cursorOk sh ct c' \<and> cursorRest ct c' = es"
proof -
  have sh: "shape_ok sh" using ok by (simp add: cursorOk_def)
  obtain leaf where leaf: "curLeaf c = Some leaf" using rest by (auto simp: cursorRest_def split: option.splits)
  have l: "wft sh ct leaf" "theight leaf = 0" "length (entriesT ct leaf) < 2 ^ 32" "curPos c < length (entriesT ct leaf)"
    "pathOk sh ct 0 (curPath c)" using ok leaf by (auto simp: cursorOk_def)
  have ts: "tsize leaf = length (entriesT ct leaf)" by (rule tsize_wft [OF l(1,3)])
  have r: "e # es = entriesT ct leaf ! curPos c # drop (curPos c + 1) (entriesT ct leaf) @ pathRest ct (curPath c)"
    using rest leaf l(4) by (simp add: cursorRest_def Cons_nth_drop_Suc flip: append_Cons)
  show ?thesis
  proof (cases "curPos c + 1 < tsize leaf")
    case True
    then have "Cursor_next c = Some (c\<lparr>curPos := curPos c + 1\<rparr>)" using leaf by (simp add: Cursor_next_def)
    moreover have "cursorOk sh ct (c\<lparr>curPos := curPos c + 1\<rparr>)" using leaf l sh True ts by (simp add: cursorOk_def)
    moreover have "cursorRest ct (c\<lparr>curPos := curPos c + 1\<rparr>) = es" using leaf r by (simp add: cursorRest_def)
    ultimately show ?thesis by blast
  next
    case False
    then have es: "es = pathRest ct (curPath c)" using r ts by simp
    note pd = popDone_spec [OF sh l(5)]
    show ?thesis
    proof (cases "popDone (curPath c)")
      case Nil
      then have "es = []" using pd es by (simp add: pathRest_def)
      then show ?thesis using leaf False Nil sh by (simp add: Cursor_next_def cursorOk_def cursorRest_def)
    next
      case (Cons s p)
      obtain node i where s: "s = (node, i)" by (cases s)
      then obtain k where k: "i + 1 < length (tchildren node)" "pathOk sh ct k ((node, i) # p)" using pd Cons by blast
      then have w: "wft sh ct node" "theight node = k + 1" "length (entriesT ct node) < 2 ^ 32" by auto
      then obtain n seps cs where nd: "node = Branch n (k + 1) seps cs" using branch_of_height [of sh ct node k] by auto
      let ?t = "cs ! (i + 1)"
      have i: "i + 1 < length cs" using k(1) nd by simp
      have "sameLevel sh ct k cs" using wft_Branch_level [OF w(1) [unfolded nd]] by simp
      then have wt: "wft sh ct ?t" "full sh ct ?t" "theight ?t = k" using i by (auto simp: sameLevel_def)
      have lt: "length (entriesT ct ?t) < 2 ^ 32" using length_child_le [OF i, of "entriesT ct"] w(3) nd by simp
      have po: "pathOk sh ct (theight ?t) ((node, i + 1) # p)" using k wt(3) by simp
      obtain path' leaf' where n: "leftmostLeaf ((node, i + 1) # p) ?t = Some (path', leaf')" "wft sh ct leaf'" "theight leaf' = 0"
        "length (entriesT ct leaf') < 2 ^ 32" "pathOk sh ct 0 path'" "entriesT ct leaf' \<noteq> []"
        "entriesT ct ?t @ pathRest ct ((node, i + 1) # p) = entriesT ct leaf' @ pathRest ct path'"
        using leftmostLeaf_spec [OF sh wt(1) lt po] wt(2) by blast
      have "drop (i + 1) cs = ?t # drop (i + 2) cs" using i by (simp add: Cons_nth_drop_Suc)
      then have "pathRest ct ((node, i) # p) = entriesT ct ?t @ pathRest ct ((node, i + 1) # p)"
        using nd by (simp add: pathRest_def)
      then have "es = entriesT ct leaf' @ pathRest ct path'" using es pd Cons s n(7) by simp
      then show ?thesis using leaf False Cons s k(1) nd n sh
        by (auto simp: Cursor_next_def cursorOk_def cursorRest_def)
    qed
  qed
qed

lemma Cursor_entry_spec:
  assumes ok: "cursorOk sh ct c" and rest: "cursorRest ct c = e # es"
  shows "Cursor_key c = Some (fst e)" "Cursor_value ct c = Some (snd e)"
proof -
  obtain leaf where leaf: "curLeaf c = Some leaf" using rest by (auto simp: cursorRest_def split: option.splits)
  have l: "wft sh ct leaf" "theight leaf = 0" "curPos c < length (entriesT ct leaf)" using ok leaf by (auto simp: cursorOk_def)
  then obtain ks vs where lf: "leaf = Leaf ks vs" using leaf_of_height by blast
  have v: "valuesOk ct ks vs" using l lf by simp
  have i: "curPos c < length ks" using l lf length_leafEntries [OF v] by simp
  have e: "e = leafEntries ct ks vs ! curPos c"
    using rest leaf lf l(3) by (simp add: cursorRest_def flip: Cons_nth_drop_Suc)
  show "Cursor_key c = Some (fst e)" "Cursor_value ct c = Some (snd e)"
    using leaf lf i e nth_leafEntries [OF v i] v by (auto simp: Cursor_key_def Cursor_value_def valuesOk_def)
qed

interpretation tc: cursor "cursorOk sh ct" "cursorRest ct" Cursor_done "Cursor_entry ct" Cursor_next for sh ct
proof
  show "Cursor_done c \<longleftrightarrow> cursorRest ct c = []" if "cursorOk sh ct c" for c
    using that by (auto simp: Cursor_done_def cursorRest_def cursorOk_def split: option.splits)
  show "Cursor_entry ct c = Some e" if "cursorOk sh ct c" "cursorRest ct c = e # es" for c e es
    using Cursor_entry_spec [OF that] by (simp add: Cursor_entry_def)
  show "\<exists>c'. Cursor_next c = Some c' \<and> cursorOk sh ct c' \<and> cursorRest ct c' = es"
    if "cursorOk sh ct c" "cursorRest ct c = e # es" for c e es
    by (rule Cursor_next_spec [OF that])
qed

lemma cmp_live: "liveKey (keyTy ct) a \<Longrightarrow> liveKey (keyTy ct) b \<Longrightarrow> compareKeys a b (keyTy ct) = Some (cmpT ct a b)"
  by (rule compareKeys_live(1))

lemma tc_done: "cursorOk sh ct c \<Longrightarrow> cursorRest ct c = [] \<Longrightarrow> Cursor_done c"
  using tc.atEnd_iff by blast

lemma tc_step:
  assumes "cursorOk sh ct c" "cursorRest ct c = e # es"
  obtains c' where "\<not> Cursor_done c" "Cursor_key c = Some (fst e)" "Cursor_value ct c = Some (snd e)"
    "Cursor_next c = Some c'" "cursorOk sh ct c'" "cursorRest ct c' = es"
  using assms Cursor_entry_spec [OF assms] Cursor_next_spec [OF assms] tc.atEnd_iff [OF assms(1)] by auto

section \<open>Loops over one cursor\<close>

lemma insertEach_spec:
  "shape_ok sh \<Longrightarrow> cursorOk sh ct c \<Longrightarrow> cursorRest ct c = es \<Longrightarrow> liveAll ct es \<Longrightarrow> isMap ct \<or> (\<forall>e \<in> set es. snd e = NullSlot) \<Longrightarrow>
   validT sh ct t \<Longrightarrow> length (entriesT ct t) + length es < 2 ^ 32 \<Longrightarrow>
   \<exists>r. insertEach sh ct c t = Some r \<and> validT sh ct r \<and>
     entriesT ct r = fold (\<lambda>e. insertEntry (cmpT ct) (fst e) (snd e)) es (entriesT ct t)"
proof (induction es arbitrary: c t)
  case Nil
  then show ?case using tc_done by (simp add: insertEach.simps)
next
  case (Cons e es)
  from tc_step [OF Cons.prems(2,3)] obtain c' where c: "\<not> Cursor_done c" "Cursor_key c = Some (fst e)"
    "Cursor_value ct c = Some (snd e)" "Cursor_next c = Some c'" "cursorOk sh ct c'" "cursorRest ct c' = es" .
  obtain r where r: "insertT sh ct t (fst e) (snd e) = Some r" "validT sh ct r"
    "entriesT ct r = insertEntry (cmpT ct) (fst e) (snd e) (entriesT ct t)"
    using insertT_spec [of sh ct t "fst e" "snd e"] Cons.prems by auto
  have "length (entriesT ct r) + length es < 2 ^ 32"
    using Cons.prems(7) r(3) length_insertEntry(1) [of "cmpT ct" "fst e" "snd e" "entriesT ct t"] by simp
  then show ?case using Cons.IH [of c' r] Cons.prems c r by (auto simp: insertEach.simps [of sh ct c])
qed

lemma insertMissing_spec:
  "shape_ok sh \<Longrightarrow> cursorOk sh ct c \<Longrightarrow> cursorRest ct c = es \<Longrightarrow> liveAll ct es \<Longrightarrow> isMap ct \<or> (\<forall>e \<in> set es. snd e = NullSlot) \<Longrightarrow>
   validT sh ct b \<Longrightarrow> validT sh ct t \<Longrightarrow> length (entriesT ct t) + length es < 2 ^ 32 \<Longrightarrow>
   \<exists>r. insertMissing sh ct b c t = Some r \<and> validT sh ct r \<and>
     entriesT ct r = fold (\<lambda>e. insertEntry (cmpT ct) (fst e) (snd e)) (filter (\<lambda>e. tmap ct b (fst e) = None) es) (entriesT ct t)"
proof (induction es arbitrary: c t)
  case Nil
  then show ?case using tc_done by (simp add: insertMissing.simps)
next
  case (Cons e es)
  from tc_step [OF Cons.prems(2,3)] obtain c' where c: "\<not> Cursor_done c" "Cursor_key c = Some (fst e)"
    "Cursor_value ct c = Some (snd e)" "Cursor_next c = Some c'" "cursorOk sh ct c'" "cursorRest ct c' = es" .
  have h: "has b (fst e) (keyTy ct) = Some (tmap ct b (fst e) \<noteq> None)"
    using lookup_spec(1) Cons.prems by simp
  obtain r where r: "insertT sh ct t (fst e) (snd e) = Some r" "validT sh ct r"
    "entriesT ct r = insertEntry (cmpT ct) (fst e) (snd e) (entriesT ct t)"
    using insertT_spec [of sh ct t "fst e" "snd e"] Cons.prems by auto
  have "length (entriesT ct r) + length es < 2 ^ 32"
    using Cons.prems(8) r(3) length_insertEntry(1) [of "cmpT ct" "fst e" "snd e" "entriesT ct t"] by simp
  then show ?case using Cons.IH [of c' r] Cons.IH [of c' t] Cons.prems c r h
    by (cases "tmap ct b (fst e)") (auto simp: insertMissing.simps [of sh ct b c])
qed

lemma drain_spec:
  "cursorOk sh ct c \<Longrightarrow> cursorRest ct c = es \<Longrightarrow> drain ct c out = Some (out @ es)"
proof (induction es arbitrary: c out)
  case Nil
  then show ?case using tc_done by (simp add: drain.simps)
next
  case (Cons e es)
  from tc_step [OF Cons.prems] obtain c' where c: "\<not> Cursor_done c" "Cursor_key c = Some (fst e)"
    "Cursor_value ct c = Some (snd e)" "Cursor_next c = Some c'" "cursorOk sh ct c'" "cursorRest ct c' = es" .
  then show ?case using Cons.IH [of c'] by (simp add: drain.simps [of ct c])
qed

lemma selectMembers_spec:
  "shape_ok sh \<Longrightarrow> cursorOk sh ct c \<Longrightarrow> cursorRest ct c = es \<Longrightarrow> liveAll ct es \<Longrightarrow> validT sh ct b \<Longrightarrow> \<forall>e \<in> set es. snd e = NullSlot \<Longrightarrow>
   selectMembers ct b wanted c out = Some (out @ filter (\<lambda>e. (tmap ct b (fst e) \<noteq> None) = wanted) es)"
proof (induction es arbitrary: c out)
  case Nil
  then show ?case using tc_done by (simp add: selectMembers.simps)
next
  case (Cons e es)
  from tc_step [OF Cons.prems(2,3)] obtain c' where c: "\<not> Cursor_done c" "Cursor_key c = Some (fst e)"
    "Cursor_value ct c = Some (snd e)" "Cursor_next c = Some c'" "cursorOk sh ct c'" "cursorRest ct c' = es" .
  have h: "has b (fst e) (keyTy ct) = Some (tmap ct b (fst e) \<noteq> None)"
    using lookup_spec(1) Cons.prems by simp
  have e: "(fst e, NullSlot) = e" using Cons.prems(6) by (simp add: prod_eq_iff)
  show ?case using Cons.IH [of c'] Cons.prems c h e by (simp add: selectMembers.simps [of ct b wanted c])
qed

lemma removeEach_spec:
  "shape_ok sh \<Longrightarrow> cursorOk sh ct c \<Longrightarrow> cursorRest ct c = es \<Longrightarrow> liveAll ct es \<Longrightarrow> validT sh ct t \<Longrightarrow>
   \<exists>r. removeEach sh ct c t = Some r \<and> validT sh ct r \<and>
     entriesT ct r = fold (\<lambda>e. deleteEntry (cmpT ct) (fst e)) es (entriesT ct t)"
proof (induction es arbitrary: c t)
  case Nil
  then show ?case using tc_done by (simp add: removeEach.simps)
next
  case (Cons e es)
  from tc_step [OF Cons.prems(2,3)] obtain c' where c: "\<not> Cursor_done c" "Cursor_key c = Some (fst e)"
    "Cursor_value ct c = Some (snd e)" "Cursor_next c = Some c'" "cursorOk sh ct c'" "cursorRest ct c' = es" .
  obtain r where r: "removeKey sh ct t (fst e) = Some r" "validT sh ct r"
    "entriesT ct r = deleteEntry (cmpT ct) (fst e) (entriesT ct t)"
    using removeKey_spec [of sh ct t "fst e"] Cons.prems by auto
  show ?case using Cons.IH [of c' r] Cons.prems c r by (simp add: removeEach.simps [of sh ct c])
qed

lemma allMembers_spec:
  "shape_ok sh \<Longrightarrow> cursorOk sh ct c \<Longrightarrow> cursorRest ct c = es \<Longrightarrow> liveAll ct es \<Longrightarrow> validT sh ct b \<Longrightarrow>
   allMembers ct b c = Some (\<forall>e \<in> set es. tmap ct b (fst e) \<noteq> None)"
proof (induction es arbitrary: c)
  case Nil
  then show ?case using tc_done by (simp add: allMembers.simps)
next
  case (Cons e es)
  from tc_step [OF Cons.prems(2,3)] obtain c' where c: "\<not> Cursor_done c" "Cursor_key c = Some (fst e)"
    "Cursor_value ct c = Some (snd e)" "Cursor_next c = Some c'" "cursorOk sh ct c'" "cursorRest ct c' = es" .
  have h: "has b (fst e) (keyTy ct) = Some (tmap ct b (fst e) \<noteq> None)"
    using lookup_spec(1) Cons.prems by simp
  show ?case using Cons.IH [of c'] Cons.prems c h by (auto simp: allMembers.simps [of ct b c])
qed

section \<open>Loops over two cursors\<close>

lemma mergeCursors_spec:
  "cursorOk sh ct x \<Longrightarrow> cursorRest ct x = xs \<Longrightarrow> cursorOk sh ct y \<Longrightarrow> cursorRest ct y = ys \<Longrightarrow> liveAll ct xs \<Longrightarrow> liveAll ct ys \<Longrightarrow>
   mergeCursors ct x y out = Some (out @ mergeEntries (cmpT ct) xs ys)"
proof (induction xs ys arbitrary: x y out rule: two_lists_induct)
  case (1 ys)
  then show ?case using tc_done drain_spec by (simp add: mergeCursors.simps)
next
  case (2 e xs)
  then show ?case using tc_done drain_spec by (simp add: mergeCursors.simps)
next
  case (3 e xs f ys)
  from tc_step [OF "3.prems"(1,2)] obtain x' where x: "\<not> Cursor_done x" "Cursor_key x = Some (fst e)"
    "Cursor_value ct x = Some (snd e)" "Cursor_next x = Some x'" "cursorOk sh ct x'" "cursorRest ct x' = xs" .
  from tc_step [OF "3.prems"(3,4)] obtain y' where y: "\<not> Cursor_done y" "Cursor_key y = Some (fst f)"
    "Cursor_value ct y = Some (snd f)" "Cursor_next y = Some y'" "cursorOk sh ct y'" "cursorRest ct y' = ys" .
  have c: "compareKeys (fst e) (fst f) (keyTy ct) = Some (cmpT ct (fst e) (fst f))" using "3.prems" cmp_live by simp
  note i1 = "3.IH"(1) [of x' y "out @ [e]"] and i2 = "3.IH"(2) [of x' y' "out @ [f]"] and i3 = "3.IH"(3) [of x y' "out @ [f]"]
  consider "cmpT ct (fst e) (fst f) < 0" | "cmpT ct (fst e) (fst f) = 0" | "cmpT ct (fst e) (fst f) > 0" by linarith
  then show ?case
    by cases (use i1 i2 i3 "3.prems" x y c in \<open>simp_all add: mergeCursors.simps [of ct x y]\<close>)
qed

lemma intersectCursors_spec:
  "cursorOk sh ct x \<Longrightarrow> cursorRest ct x = xs \<Longrightarrow> cursorOk sh ct y \<Longrightarrow> cursorRest ct y = ys \<Longrightarrow> liveAll ct xs \<Longrightarrow> liveAll ct ys \<Longrightarrow>
   \<forall>e \<in> set xs. snd e = NullSlot \<Longrightarrow> intersectCursors ct x y out = Some (out @ intersectEntries (cmpT ct) xs ys)"
proof (induction xs ys arbitrary: x y out rule: two_lists_induct)
  case (1 ys)
  then show ?case using tc_done by (simp add: intersectCursors.simps)
next
  case (2 e xs)
  then show ?case using tc_done by (simp add: intersectCursors.simps)
next
  case (3 e xs f ys)
  from tc_step [OF "3.prems"(1,2)] obtain x' where x: "\<not> Cursor_done x" "Cursor_key x = Some (fst e)"
    "Cursor_value ct x = Some (snd e)" "Cursor_next x = Some x'" "cursorOk sh ct x'" "cursorRest ct x' = xs" .
  from tc_step [OF "3.prems"(3,4)] obtain y' where y: "\<not> Cursor_done y" "Cursor_key y = Some (fst f)"
    "Cursor_value ct y = Some (snd f)" "Cursor_next y = Some y'" "cursorOk sh ct y'" "cursorRest ct y' = ys" .
  have c: "compareKeys (fst e) (fst f) (keyTy ct) = Some (cmpT ct (fst e) (fst f))" using "3.prems" cmp_live by simp
  have e: "(fst e, NullSlot) = e" using "3.prems"(7) by (simp add: prod_eq_iff)
  note i1 = "3.IH"(1) [of x' y out] and i2 = "3.IH"(2) [of x' y' "out @ [e]"] and i3 = "3.IH"(3) [of x y' out]
  consider "cmpT ct (fst e) (fst f) < 0" | "cmpT ct (fst e) (fst f) = 0" | "cmpT ct (fst e) (fst f) > 0" by linarith
  then show ?case
    by cases (use i1 i2 i3 "3.prems" x y c e in \<open>simp_all add: intersectCursors.simps [of ct x y]\<close>)
qed

lemma differenceCursors_spec:
  "cursorOk sh ct x \<Longrightarrow> cursorRest ct x = xs \<Longrightarrow> cursorOk sh ct y \<Longrightarrow> cursorRest ct y = ys \<Longrightarrow> liveAll ct xs \<Longrightarrow> liveAll ct ys \<Longrightarrow>
   \<forall>e \<in> set xs. snd e = NullSlot \<Longrightarrow> differenceCursors ct x y out = Some (out @ differenceEntries (cmpT ct) xs ys)"
proof (induction xs arbitrary: x y ys out)
  case Nil
  then show ?case using tc_done by (simp add: differenceCursors.simps)
next
  case (Cons e xs)
  from tc_step [OF Cons.prems(1,2)] obtain x' where x: "\<not> Cursor_done x" "Cursor_key x = Some (fst e)"
    "Cursor_value ct x = Some (snd e)" "Cursor_next x = Some x'" "cursorOk sh ct x'" "cursorRest ct x' = xs" .
  have e: "(fst e, NullSlot) = e" using Cons.prems(7) by (simp add: prod_eq_iff)
  note IH = Cons.IH
  show ?case using Cons.prems(3,4,6)
  proof (induction ys arbitrary: y)
    case Nil
    then show ?case using IH [of x' y "[]" "out @ [e]"] x e Cons.prems(5,7) tc_done [OF Nil.prems(1,2)]
      by (simp add: differenceCursors.simps [of ct x])
  next
    case (Cons f ys)
    from tc_step [OF Cons.prems(1,2)] obtain y' where y: "\<not> Cursor_done y" "Cursor_key y = Some (fst f)"
      "Cursor_value ct y = Some (snd f)" "Cursor_next y = Some y'" "cursorOk sh ct y'" "cursorRest ct y' = ys" .
    have c: "compareKeys (fst e) (fst f) (keyTy ct) = Some (cmpT ct (fst e) (fst f))"
      using Cons.prems(3) \<open>liveAll ct (e # xs)\<close> cmp_live by simp
    note i1 = IH [of x' y "f # ys" "out @ [e]"] and i2 = IH [of x' y' ys out] and i3 = Cons.IH [of y']
    consider "cmpT ct (fst e) (fst f) < 0" | "cmpT ct (fst e) (fst f) = 0" | "cmpT ct (fst e) (fst f) > 0" by linarith
    then show ?case
      by cases (use i1 i2 i3 Cons.prems \<open>liveAll ct (e # xs)\<close> \<open>\<forall>e \<in> set (e # xs). snd e = NullSlot\<close> x y c e in
        \<open>simp_all add: differenceCursors.simps [of ct x y]\<close>)
  qed
qed

lemma skipCursor_spec:
  "cursorOk sh ct y \<Longrightarrow> cursorRest ct y = ys \<Longrightarrow> liveAll ct ys \<Longrightarrow> liveKey (keyTy ct) key \<Longrightarrow>
   \<exists>y'. skipCursor ct key y = Some y' \<and> cursorOk sh ct y' \<and> cursorRest ct y' = dropWhile (\<lambda>f. cmpT ct (fst f) key < 0) ys"
proof (induction ys arbitrary: y)
  case Nil
  then show ?case using tc_done by (simp add: skipCursor.simps)
next
  case (Cons f ys)
  from tc_step [OF Cons.prems(1,2)] obtain y' where y: "\<not> Cursor_done y" "Cursor_key y = Some (fst f)"
    "Cursor_value ct y = Some (snd f)" "Cursor_next y = Some y'" "cursorOk sh ct y'" "cursorRest ct y' = ys" .
  have c: "compareKeys (fst f) key (keyTy ct) = Some (cmpT ct (fst f) key)" using Cons.prems cmp_live by simp
  show ?case using Cons.IH [of y'] Cons.prems y c by (auto simp: skipCursor.simps [of ct key y])
qed

lemma subsetEntries_skip:
  "subsetEntries cmp (x # xs) ys =
     (case dropWhile (\<lambda>f. cmp (fst f) (fst x) < 0) ys of
        [] \<Rightarrow> False | f # fs \<Rightarrow> cmp (fst f) (fst x) = 0 \<and> subsetEntries cmp xs fs)"
  by (induction ys) auto

lemma subsetCursors_spec:
  "cursorOk sh ct x \<Longrightarrow> cursorRest ct x = xs \<Longrightarrow> cursorOk sh ct y \<Longrightarrow> cursorRest ct y = ys \<Longrightarrow> liveAll ct xs \<Longrightarrow> liveAll ct ys \<Longrightarrow>
   subsetCursors ct x y = Some (subsetEntries (cmpT ct) xs ys)"
proof (induction xs arbitrary: x y ys)
  case Nil
  then show ?case using tc_done by (simp add: subsetCursors.simps)
next
  case (Cons e xs)
  from tc_step [OF Cons.prems(1,2)] obtain x' where x: "\<not> Cursor_done x" "Cursor_key x = Some (fst e)"
    "Cursor_value ct x = Some (snd e)" "Cursor_next x = Some x'" "cursorOk sh ct x'" "cursorRest ct x' = xs" .
  let ?ys = "dropWhile (\<lambda>f. cmpT ct (fst f) (fst e) < 0) ys"
  obtain y1 where y1: "skipCursor ct (fst e) y = Some y1" "cursorOk sh ct y1" "cursorRest ct y1 = ?ys"
    using skipCursor_spec [OF Cons.prems(3,4,6), of "fst e"] Cons.prems(5) by auto
  show ?case
  proof (cases ?ys)
    case Nil
    then show ?thesis using x y1 tc_done [OF y1(2)] by (simp add: subsetCursors.simps [of ct x] subsetEntries_skip del: dropWhile_eq_Nil_conv)
  next
    case (Cons f fs)
    from tc_step [OF y1(2) y1(3) [unfolded Cons]] obtain y' where y: "\<not> Cursor_done y1" "Cursor_key y1 = Some (fst f)"
      "Cursor_value ct y1 = Some (snd f)" "Cursor_next y1 = Some y'" "cursorOk sh ct y'" "cursorRest ct y' = fs" .
    have "set (f # fs) \<subseteq> set ys" using set_dropWhileD [of _ _ ys] Cons by (metis subsetI)
    then have l: "liveAll ct fs" "liveKey (keyTy ct) (fst f)" using \<open>liveAll ct ys\<close> by auto
    have c: "compareKeys (fst f) (fst e) (keyTy ct) = Some (cmpT ct (fst f) (fst e))"
      using l(2) \<open>liveAll ct (e # xs)\<close> cmp_live by simp
    show ?thesis using Cons.IH [OF x(5,6) y(5,6)] \<open>liveAll ct (e # xs)\<close> l x y1 y c Cons
      by (simp add: subsetCursors.simps [of ct x] subsetEntries_skip)
  qed
qed

end
