(* ===== verification/Collection_Binary.thy ===== *)
theory Collection_Binary
  imports Collection_Cursor
begin

text \<open>
  The operations on two collections: the passes over two leaves, then \<open>merge\<close>, \<open>intersect\<close> and
  \<open>difference\<close> on each of the routes the code chooses by size and shape.
\<close>

definition overlay :: "(slot \<Rightarrow> slot option) \<Rightarrow> (slot \<Rightarrow> slot option) \<Rightarrow> slot \<Rightarrow> slot option" where
  "overlay m n k = (case n k of Some v \<Rightarrow> Some v | None \<Rightarrow> m k)"

section \<open>Two leaves\<close>

text \<open>What a leaf offers to the passes over its positions.\<close>

lemma leaf_positions:
  assumes "wft sh ct t" "isLeaf t" "length (entriesT ct t) < 2 ^ 32"
  shows "tsize t = length (entriesT ct t)"
    and "i < length (entriesT ct t) \<Longrightarrow> tkeys t ! i = fst (entriesT ct t ! i)"
    and "i < length (entriesT ct t) \<Longrightarrow> entryAt ct t i = entriesT ct t ! i"
proof -
  show "tsize t = length (entriesT ct t)" by (rule tsize_wft [OF assms(1,3)])
  obtain ks vs where t: "t = Leaf ks vs" using assms(2) by (cases t) auto
  then have v: "valuesOk ct ks vs" using assms(1) by simp
  show "i < length (entriesT ct t) \<Longrightarrow> tkeys t ! i = fst (entriesT ct t ! i)"
    "i < length (entriesT ct t) \<Longrightarrow> entryAt ct t i = entriesT ct t ! i"
    using t nth_leafEntries [OF v] length_leafEntries [OF v] by (auto simp: entryAt_def)
qed

lemma map_entryAt_from:
  assumes "wft sh ct t" "isLeaf t" "length (entriesT ct t) < 2 ^ 32"
  shows "map (entryAt ct t) [i..<tsize t] = drop i (entriesT ct t)"
  using leaf_positions [OF assms] by (auto simp: list_eq_iff_nth_eq)

lemma mergeLeavesLoop_spec:
  assumes a: "wft sh ct a" "isLeaf a" "length (entriesT ct a) < 2 ^ 32" "liveAll ct (entriesT ct a)"
    and b: "wft sh ct b" "isLeaf b" "length (entriesT ct b) < 2 ^ 32" "liveAll ct (entriesT ct b)"
  shows "mergeLeavesLoop ct a b i j = Some (mergeEntries (cmpT ct) (drop i (entriesT ct a)) (drop j (entriesT ct b)))"
  using assms
proof (induction ct a b i j rule: mergeLeavesLoop.induct)
  case (1 ct a b i j)
  note la = leaf_positions [OF "1.prems"(1-3)] and lb = leaf_positions [OF "1.prems"(5-7)]
  show ?case
  proof (cases "i < tsize a \<and> j < tsize b")
    case False
    then have "drop i (entriesT ct a) = [] \<or> drop j (entriesT ct b) = []" using la(1) lb(1) by auto
    then show ?thesis using False map_entryAt_from [OF "1.prems"(1-3)] map_entryAt_from [OF "1.prems"(5-7)]
      by (auto simp: mergeLeavesLoop.simps [of ct a b i j])
  next
    case True
    then have ij: "i < length (entriesT ct a)" "j < length (entriesT ct b)" using la(1) lb(1) by auto
    have d: "drop i (entriesT ct a) = entriesT ct a ! i # drop (i + 1) (entriesT ct a)"
      "drop j (entriesT ct b) = entriesT ct b ! j # drop (j + 1) (entriesT ct b)"
      using ij by (simp_all add: Cons_nth_drop_Suc)
    define k where "k = cmpT ct (fst (entriesT ct a ! i)) (fst (entriesT ct b ! j))"
    have c: "compareKeys (tkeys a ! i) (tkeys b ! j) (keyTy ct) = Some k"
      using ij la(2) lb(2) "1.prems"(4,8) cmp_live by (simp add: k_def)
    consider "k < 0" | "k = 0" | "k > 0" by linarith
    then show ?thesis
    proof cases
      case 1
      then show ?thesis using "1.IH"(1) [OF True c 1 "1.prems"] True c d la(3) [OF ij(1)]
        by (simp add: mergeLeavesLoop.simps [of ct a b i j] k_def)
    next
      case 2
      then show ?thesis using "1.IH"(3) [OF True c _ _ "1.prems"] True c d lb(3) [OF ij(2)]
        by (simp add: mergeLeavesLoop.simps [of ct a b i j] k_def)
    next
      case 3
      then show ?thesis using "1.IH"(2) [OF True c _ 3 "1.prems"] True c d lb(3) [OF ij(2)]
        by (simp add: mergeLeavesLoop.simps [of ct a b i j] k_def)
    qed
  qed
qed

lemma set_entries_null:
  "\<not> isMap ct \<Longrightarrow> e \<in> set (entriesT ct t) \<Longrightarrow> snd e = NullSlot"
  by (induction t) (auto simp: leafEntries_def)

lemma set_entry: "\<not> isMap ct \<Longrightarrow> i < length (entriesT ct t) \<Longrightarrow> (fst (entriesT ct t ! i), NullSlot) = entriesT ct t ! i"
  using set_entries_null [of ct "entriesT ct t ! i" t] by (simp add: prod_eq_iff)

lemma intersectLeavesLoop_spec:
  assumes "\<not> isMap ct" and a: "wft sh ct a" "isLeaf a" "length (entriesT ct a) < 2 ^ 32" "liveAll ct (entriesT ct a)"
    and b: "wft sh ct b" "isLeaf b" "length (entriesT ct b) < 2 ^ 32" "liveAll ct (entriesT ct b)"
  shows "intersectLeavesLoop ct a b i j = Some (intersectEntries (cmpT ct) (drop i (entriesT ct a)) (drop j (entriesT ct b)))"
  using assms
proof (induction ct a b i j rule: intersectLeavesLoop.induct)
  case (1 ct a b i j)
  note la = leaf_positions [OF "1.prems"(2-4)] and lb = leaf_positions [OF "1.prems"(6-8)]
  show ?case
  proof (cases "i < tsize a \<and> j < tsize b")
    case False
    then show ?thesis using la(1) lb(1) by (auto simp: intersectLeavesLoop.simps [of ct a b i j])
  next
    case True
    then have ij: "i < length (entriesT ct a)" "j < length (entriesT ct b)" using la(1) lb(1) by auto
    have d: "drop i (entriesT ct a) = entriesT ct a ! i # drop (i + 1) (entriesT ct a)"
      "drop j (entriesT ct b) = entriesT ct b ! j # drop (j + 1) (entriesT ct b)"
      using ij by (simp_all add: Cons_nth_drop_Suc)
    define k where "k = cmpT ct (fst (entriesT ct a ! i)) (fst (entriesT ct b ! j))"
    have c: "compareKeys (tkeys a ! i) (tkeys b ! j) (keyTy ct) = Some k"
      using ij la(2) lb(2) "1.prems"(5,9) cmp_live by (simp add: k_def)
    note e = la(2) [OF ij(1)] set_entry [OF "1.prems"(1) ij(1)]
    consider "k < 0" | "k = 0" | "k > 0" by linarith
    then show ?thesis
    proof cases
      case 1
      then show ?thesis using "1.IH"(1) [OF True c 1 "1.prems"] True c d
        by (simp add: intersectLeavesLoop.simps [of ct a b i j] k_def)
    next
      case 2
      then show ?thesis using "1.IH"(3) [OF True c _ _ "1.prems"] True c d e
        by (simp add: intersectLeavesLoop.simps [of ct a b i j] k_def)
    next
      case 3
      then show ?thesis using "1.IH"(2) [OF True c _ 3 "1.prems"] True c d
        by (simp add: intersectLeavesLoop.simps [of ct a b i j] k_def)
    qed
  qed
qed

lemma differenceLeavesLoop_spec:
  assumes "\<not> isMap ct" and a: "wft sh ct a" "isLeaf a" "length (entriesT ct a) < 2 ^ 32" "liveAll ct (entriesT ct a)"
    and b: "wft sh ct b" "isLeaf b" "length (entriesT ct b) < 2 ^ 32" "liveAll ct (entriesT ct b)"
  shows "differenceLeavesLoop ct a b i j = Some (differenceEntries (cmpT ct) (drop i (entriesT ct a)) (drop j (entriesT ct b)))"
  using assms
proof (induction ct a b i j rule: differenceLeavesLoop.induct)
  case (1 ct a b i j)
  note la = leaf_positions [OF "1.prems"(2-4)] and lb = leaf_positions [OF "1.prems"(6-8)]
  show ?case
  proof (cases "i < tsize a")
    case False
    then show ?thesis using la(1) by (simp add: differenceLeavesLoop.simps [of ct a b i j])
  next
    case True
    then have i: "i < length (entriesT ct a)" using la(1) by auto
    have da: "drop i (entriesT ct a) = entriesT ct a ! i # drop (i + 1) (entriesT ct a)"
      using i by (simp add: Cons_nth_drop_Suc)
    note e = la(2) [OF i] set_entry [OF "1.prems"(1) i]
    show ?thesis
    proof (cases "j < tsize b")
      case False
      then have c: "(if j < tsize b then compareKeys (tkeys a ! i) (tkeys b ! j) (keyTy ct) else Some (- 1)) = Some (- 1)" by simp
      have db: "drop j (entriesT ct b) = []" using False lb(1) by simp
      show ?thesis using "1.IH"(1) [OF True c _ "1.prems"] True False da db e
        by (simp add: differenceLeavesLoop.simps [of ct a b i j])
    next
      case j: True
      then have j': "j < length (entriesT ct b)" using lb(1) by auto
      have db: "drop j (entriesT ct b) = entriesT ct b ! j # drop (j + 1) (entriesT ct b)"
        using j' by (simp add: Cons_nth_drop_Suc)
      define k where "k = cmpT ct (fst (entriesT ct a ! i)) (fst (entriesT ct b ! j))"
      have c: "(if j < tsize b then compareKeys (tkeys a ! i) (tkeys b ! j) (keyTy ct) else Some (- 1)) = Some k"
        using i j j' la(2) lb(2) "1.prems"(5,9) cmp_live by (simp add: k_def)
      consider "k < 0" | "k = 0" | "k > 0" by linarith
      then show ?thesis
      proof cases
        case 1
        then show ?thesis using "1.IH"(1) [OF True c 1 "1.prems"] True j c da db e
          by (simp add: differenceLeavesLoop.simps [of ct a b i j] k_def)
      next
        case 2
        then show ?thesis using "1.IH"(3) [OF True c _ _ "1.prems"] True j c da db
          by (simp add: differenceLeavesLoop.simps [of ct a b i j] k_def)
      next
        case 3
        then show ?thesis using "1.IH"(2) [OF True c _ 3 j "1.prems"] True j c da db
          by (simp add: differenceLeavesLoop.simps [of ct a b i j] k_def)
      qed
    qed
  qed
qed

lemma skipBefore_spec:
  assumes "wft sh ct b" "isLeaf b" "length (entriesT ct b) < 2 ^ 32" "liveAll ct (entriesT ct b)" "liveKey (keyTy ct) key"
    "j \<le> length (entriesT ct b)"
  shows "\<exists>j'. skipBefore (keyTy ct) b key j = Some j' \<and> j' \<le> length (entriesT ct b) \<and>
    drop j' (entriesT ct b) = dropWhile (\<lambda>f. cmpT ct (fst f) key < 0) (drop j (entriesT ct b))"
  using assms
proof (induction "keyTy ct" b key j rule: skipBefore.induct)
  case (1 b key j)
  note lb = leaf_positions [OF "1.prems"(1-3)]
  show ?case
  proof (cases "j < tsize b")
    case False
    then have "skipBefore (keyTy ct) b key j = Some j" by (simp add: skipBefore.simps [of _ b key j])
    then show ?thesis using False lb(1) "1.prems"(6) by auto
  next
    case True
    then have j: "j < length (entriesT ct b)" using lb(1) by simp
    have d: "drop j (entriesT ct b) = entriesT ct b ! j # drop (j + 1) (entriesT ct b)"
      using j by (simp add: Cons_nth_drop_Suc)
    have c: "compareKeys (tkeys b ! j) key (keyTy ct) = Some (cmpT ct (fst (entriesT ct b ! j)) key)"
      using j lb(2) "1.prems"(4,5) cmp_live by simp
    show ?thesis
    proof (cases "cmpT ct (fst (entriesT ct b ! j)) key < 0")
      case less: True
      then show ?thesis using "1.hyps" [OF True c less "1.prems"(1-5)] True c d j
        by (simp add: skipBefore.simps [of _ b key j])
    next
      case False
      then show ?thesis using True c d j by (auto simp: skipBefore.simps [of _ b key j])
    qed
  qed
qed

lemma isSubsetOfLeafLoop_spec:
  assumes "wft sh ct a" "isLeaf a" "length (entriesT ct a) < 2 ^ 32" "liveAll ct (entriesT ct a)"
    "wft sh ct b" "isLeaf b" "length (entriesT ct b) < 2 ^ 32" "liveAll ct (entriesT ct b)" "j \<le> length (entriesT ct b)"
  shows "isSubsetOfLeafLoop (keyTy ct) a b i j = Some (subsetEntries (cmpT ct) (drop i (entriesT ct a)) (drop j (entriesT ct b)))"
  using assms
proof (induction "keyTy ct" a b i j rule: isSubsetOfLeafLoop.induct)
  case (1 a b i j)
  note la = leaf_positions [OF "1.prems"(1-3)] and lb = leaf_positions [OF "1.prems"(5-7)]
  show ?case
  proof (cases "i < tsize a")
    case False
    then show ?thesis using la(1) by (simp add: isSubsetOfLeafLoop.simps [of _ a b i j])
  next
    case True
    then have i: "i < length (entriesT ct a)" using la(1) by simp
    let ?x = "entriesT ct a ! i"
    have da: "drop i (entriesT ct a) = ?x # drop (i + 1) (entriesT ct a)" using i by (simp add: Cons_nth_drop_Suc)
    have lx: "liveKey (keyTy ct) (tkeys a ! i)" "tkeys a ! i = fst ?x" using i la(2) "1.prems"(4) by auto
    obtain j' where j: "skipBefore (keyTy ct) b (tkeys a ! i) j = Some j'" "j' \<le> length (entriesT ct b)"
      "drop j' (entriesT ct b) = dropWhile (\<lambda>f. cmpT ct (fst f) (fst ?x) < 0) (drop j (entriesT ct b))"
      using skipBefore_spec [OF "1.prems"(5-8) lx(1) "1.prems"(9)] lx(2) by auto
    show ?thesis
    proof (cases "j' = tsize b")
      case end_: True
      then have "dropWhile (\<lambda>f. cmpT ct (fst f) (fst ?x) < 0) (drop j (entriesT ct b)) = []" using j(3) lb(1) by simp
      then show ?thesis using True end_ j(1) da
        by (simp add: isSubsetOfLeafLoop.simps [of _ a b i j] subsetEntries_skip del: dropWhile_eq_Nil_conv)
    next
      case False
      then have j': "j' < length (entriesT ct b)" using j(2) lb(1) by simp
      have db: "drop j' (entriesT ct b) = entriesT ct b ! j' # drop (j' + 1) (entriesT ct b)"
        using j' by (simp add: Cons_nth_drop_Suc)
      note dw = j(3) [unfolded db, symmetric]
      have c: "compareKeys (tkeys b ! j') (tkeys a ! i) (keyTy ct) = Some (cmpT ct (fst (entriesT ct b ! j')) (fst ?x))"
        using j' lb(2) "1.prems"(8) cmp_live lx by simp
      show ?thesis
      proof (cases "cmpT ct (fst (entriesT ct b ! j')) (fst ?x) = 0")
        case eq: True
        then show ?thesis using "1.hyps" [OF True j(1) False c _ "1.prems"(1-8)] True False j(1) j' c da dw
          by (simp add: isSubsetOfLeafLoop.simps [of _ a b i j] subsetEntries_skip)
      next
        case ne: False
        then show ?thesis using True False j(1) c da dw
          by (simp add: isSubsetOfLeafLoop.simps [of _ a b i j] subsetEntries_skip)
      qed
    qed
  qed
qed

section \<open>The operations on two collections\<close>

lemma validTD:
  assumes "validT sh ct t"
  shows "wft sh ct t" "rootOk t" "keysOk ct (entriesT ct t)" "length (entriesT ct t) < 2 ^ 32"
    "ascending (cmpT ct) (map fst (entriesT ct t))" "liveAll ct (entriesT ct t)" "tsize t = length (entriesT ct t)"
  using assms tsize_wft by (auto simp: validT_def keysOk_def)

lemma cursor_valid:
  assumes "shape_ok sh" "validT sh ct t"
  obtains c where "Cursor_init t = Some c" "cursorOk sh ct c" "cursorRest ct c = entriesT ct t"
  using Cursor_init_spec [OF assms(1), of ct t] validTD [OF assms(2)] by blast

lemma null_entries: "isMap ct \<or> (\<forall>e \<in> set (entriesT ct t). snd e = NullSlot)"
  using set_entries_null by blast

lemma finished_Some: "finished sh ct es = Some (Leaf (map fst es) (if isMap ct then map snd es else []))"
  by (simp add: finished_def newLeaf_Some)

lemma finished_entries:
  assumes "isMap ct \<or> (\<forall>e \<in> set es. snd e = NullSlot)"
  shows "leafEntries ct (map fst es) (if isMap ct then map snd es else []) = es"
  using assms by (auto simp: leafEntries_def zip_map_fst_snd comp_def intro!: map_idI prod_eqI)

lemma finished_valid:
  assumes "keysOk ct es" "length es < 2 ^ 32" "length es \<le> leafCapacity sh ct" "isMap ct \<or> (\<forall>e \<in> set es. snd e = NullSlot)"
  shows "\<exists>r. finished sh ct es = Some r \<and> validT sh ct r \<and> entriesT ct r = es"
  using assms finished_entries [OF assms(4)] by (simp add: finished_Some validT_def valuesOk_def)

lemma keysOk_merge:
  assumes "keysOk ct xs" "keysOk ct ys" shows "keysOk ct (mergeEntries (cmpT ct) xs ys)"
proof -
  have "liveAll ct (mergeEntries (cmpT ct) xs ys)"
    using mergeEntries_set [of "cmpT ct" xs ys] assms unfolding keysOk_def by blast
  then show ?thesis using assms by (simp add: keysOk_def key.merge_asc)
qed

lemma null_merge:
  assumes "isMap ct \<or> (\<forall>e \<in> set xs. snd e = NullSlot)" "isMap ct \<or> (\<forall>e \<in> set ys. snd e = NullSlot)"
  shows "isMap ct \<or> (\<forall>e \<in> set (mergeEntries (cmpT ct) xs ys). snd e = NullSlot)"
  using mergeEntries_set [of "cmpT ct" xs ys] assms by blast

lemma built_entries:
  assumes "shape_ok sh" "keysOk ct es" "length es < 2 ^ 32" "isMap ct \<or> (\<forall>e \<in> set es. snd e = NullSlot)"
  shows "\<exists>t. Entries_build sh ct es = Some t \<and> checked sh ct t = Some t \<and> validT sh ct t \<and> entriesT ct t = es"
  using Entries_build_spec [OF assms] checked_valid [OF assms(1)] by blast

lemma normalized_spec:
  assumes sh: "shape_ok sh" and ok: "keysOk ct es" "length es < 2 ^ 32" "isMap ct \<or> (\<forall>e \<in> set es. snd e = NullSlot)"
    and m: "finished sh ct es = Some m"
  shows "\<exists>r. normalized sh ct m = Some r \<and> validT sh ct r \<and> entriesT ct r = es"
proof (cases "length es \<le> leafCapacity sh ct")
  case True
  then show ?thesis using finished_valid [OF ok(1,2) True ok(3)] m ok(2) by (auto simp: normalized_def finished_Some)
next
  case False
  let ?vs = "if isMap ct then map snd es else []"
  have "map (entryFun ct (\<lambda>i. map fst es ! i) (\<lambda>i. ?vs ! i)) [0..<length es] = es"
    by (rule nth_equalityI) (use ok(3) in \<open>auto simp: entryFun_def prod_eq_iff\<close>)
  then show ?thesis
    using buildTree_spec [OF sh _ ok(2), of ct "\<lambda>i. map fst es ! i" "\<lambda>i. ?vs ! i"] ok(1,2) False m
    by (auto simp: normalized_def finished_Some)
qed

lemma findEntry_fold_missing:
  assumes "ascending (cmpT ct) (map fst xs)" "ascending (cmpT ct) (map fst ys)"
  shows "findEntry (cmpT ct) k (fold (\<lambda>e. insertEntry (cmpT ct) (fst e) (snd e))
    (filter (\<lambda>e. findEntry (cmpT ct) (fst e) ys = None) xs) ys) =
    (case findEntry (cmpT ct) k ys of Some v \<Rightarrow> Some v | None \<Rightarrow> findEntry (cmpT ct) k xs)"
proof -
  let ?zs = "filter (\<lambda>e. findEntry (cmpT ct) (fst e) ys = None) xs"
  have "findEntry (cmpT ct) k ?zs = (if findEntry (cmpT ct) k ys = None then findEntry (cmpT ct) k xs else None)"
    by (induction xs) (auto dest: key.findEntry_cong [of "keyTy ct" _ k ys])
  then show ?thesis using key.findEntry_fold_insert [OF assms(2) ascending_filter [OF assms(1)], of k]
    by (auto split: option.splits)
qed

lemma merge_spec:
  assumes sh: "shape_ok sh" and a: "validT sh ct a" and b: "validT sh ct b"
    and room: "length (entriesT ct a) + length (entriesT ct b) < 2 ^ 32"
  shows "\<exists>r. merge sh ct a b = Some r \<and> validT sh ct r \<and> (\<forall>k. tmap ct r k = overlay (tmap ct a) (tmap ct b) k)"
proof -
  note va = validTD [OF a] and vb = validTD [OF b]
  let ?m = "mergeEntries (cmpT ct) (entriesT ct a) (entriesT ct b)"
  have m: "keysOk ct ?m" "length ?m < 2 ^ 32" "isMap ct \<or> (\<forall>e \<in> set ?m. snd e = NullSlot)"
    using keysOk_merge [OF va(3) vb(3)] length_mergeEntries [of "cmpT ct" "entriesT ct a" "entriesT ct b"] room
      null_merge [OF null_entries null_entries] by auto
  have mm: "findEntry (cmpT ct) k ?m = overlay (tmap ct a) (tmap ct b) k" for k
    unfolding overlay_def tmap_def by (rule key.findEntry_merge [OF va(5) vb(5)])
  consider "tsize b = 0" | "tsize b \<noteq> 0" "tsize a = 0" | "tsize b \<noteq> 0" "tsize a \<noteq> 0" "isLeaf a" "isLeaf b"
    | "tsize b \<noteq> 0" "tsize a \<noteq> 0" "\<not> (isLeaf a \<and> isLeaf b)" "muchSmaller b a"
    | "tsize b \<noteq> 0" "tsize a \<noteq> 0" "\<not> (isLeaf a \<and> isLeaf b)" "\<not> muchSmaller b a" "muchSmaller a b"
    | "tsize b \<noteq> 0" "tsize a \<noteq> 0" "\<not> (isLeaf a \<and> isLeaf b)" "\<not> muchSmaller b a" "\<not> muchSmaller a b"
    by blast
  then show ?thesis
  proof cases
    case 1 then show ?thesis using a vb(7) by (simp add: merge_def overlay_def tmap_def [of ct b])
  next
    case 2 then show ?thesis using b va(7) by (simp add: merge_def overlay_def tmap_def [of ct a] split: option.splits)
  next
    case 3
    have l: "mergeLeavesLoop ct a b 0 0 = Some ?m"
      using mergeLeavesLoop_spec [OF va(1) 3(3) va(4,6) vb(1) 3(4) vb(4,6), of 0 0] by simp
    obtain s r where "finished sh ct ?m = Some s" "normalized sh ct s = Some r" "validT sh ct r" "entriesT ct r = ?m"
      using normalized_spec [OF sh m] finished_Some by blast
    then show ?thesis using 3 l mm checked_valid [OF sh] by (simp add: merge_def mergeLeaves_def tmap_def)
  next
    case 4
    obtain c where c: "Cursor_init b = Some c" "cursorOk sh ct c" "cursorRest ct c = entriesT ct b" using cursor_valid [OF sh b] .
    obtain r where r: "insertEach sh ct c a = Some r" "validT sh ct r"
      "entriesT ct r = fold (\<lambda>e. insertEntry (cmpT ct) (fst e) (snd e)) (entriesT ct b) (entriesT ct a)"
      using insertEach_spec [OF sh c(2,3) vb(6) null_entries a room] by blast
    have "tmap ct r k = overlay (tmap ct a) (tmap ct b) k" for k
      unfolding overlay_def tmap_def r(3) by (rule key.findEntry_fold_insert [OF va(5) vb(5)])
    then show ?thesis using 4 c(1) r(1,2) checked_valid [OF sh] by (auto simp: merge_def)
  next
    case 5
    obtain c where c: "Cursor_init a = Some c" "cursorOk sh ct c" "cursorRest ct c = entriesT ct a" using cursor_valid [OF sh a] .
    obtain r where r: "insertMissing sh ct b c b = Some r" "validT sh ct r"
      "entriesT ct r = fold (\<lambda>e. insertEntry (cmpT ct) (fst e) (snd e)) (filter (\<lambda>e. tmap ct b (fst e) = None) (entriesT ct a)) (entriesT ct b)"
      using insertMissing_spec [OF sh c(2,3) va(6) null_entries b b] room by auto
    have "tmap ct r k = overlay (tmap ct a) (tmap ct b) k" for k
      unfolding overlay_def tmap_def r(3) by (rule findEntry_fold_missing [OF va(5) vb(5)])
    then show ?thesis using 5 c(1) r(1,2) checked_valid [OF sh] by (auto simp: merge_def)
  next
    case 6
    obtain x where x: "Cursor_init a = Some x" "cursorOk sh ct x" "cursorRest ct x = entriesT ct a" using cursor_valid [OF sh a] .
    obtain y where y: "Cursor_init b = Some y" "cursorOk sh ct y" "cursorRest ct y = entriesT ct b" using cursor_valid [OF sh b] .
    obtain r where "Entries_build sh ct ?m = Some r" "checked sh ct r = Some r" "validT sh ct r" "entriesT ct r = ?m"
      using built_entries [OF sh m] by blast
    then show ?thesis using 6 x y mm mergeCursors_spec [OF x(2,3) y(2,3) va(6) vb(6)] by (auto simp: merge_def tmap_def)
  qed
qed

lemma filter_result:
  assumes "shape_ok sh" "\<not> isMap ct" "validT sh ct a"
  shows "\<exists>t. Entries_build sh ct (filter P (entriesT ct a)) = Some t \<and> checked sh ct t = Some t \<and> validT sh ct t \<and>
    entriesT ct t = filter P (entriesT ct a)"
  using validTD(3,4) [OF assms(3)] set_entries_null [OF assms(2)] le_less_trans [OF length_filter_le, of "entriesT ct a"]
  by (intro built_entries [OF assms(1) keysOk_filter]) auto

lemma filter_leaf:
  assumes "\<not> isMap ct" "validT sh ct a" "isLeaf a"
  shows "\<exists>r. finished sh ct (filter P (entriesT ct a)) = Some r \<and> validT sh ct r \<and> entriesT ct r = filter P (entriesT ct a)"
proof (rule finished_valid)
  note va = validTD [OF assms(2)]
  show "keysOk ct (filter P (entriesT ct a))" using va(3) by (rule keysOk_filter)
  have "length (entriesT ct a) \<le> leafCapacity sh ct" using va(1) assms(3) by (cases a) (auto simp: length_leafEntries)
  then show "length (filter P (entriesT ct a)) < 2 ^ 32" "length (filter P (entriesT ct a)) \<le> leafCapacity sh ct"
    using va(4) length_filter_le [of P "entriesT ct a"] by linarith+
  show "isMap ct \<or> (\<forall>e \<in> set (filter P (entriesT ct a)). snd e = NullSlot)" using set_entries_null [OF assms(1)] by auto
qed

lemma member_filter:
  "findEntry (cmpT ct) k (filter (\<lambda>e. (tmap ct b (fst e) \<noteq> None) = w) es) \<noteq> None \<longleftrightarrow>
   findEntry (cmpT ct) k es \<noteq> None \<and> (tmap ct b k \<noteq> None) = w"
  by (rule key.findEntry_filter [where Q = "\<lambda>k. (tmap ct b k \<noteq> None) = w"])
    (simp add: tmap_def key.findEntry_cong)

lemma intersect_spec:
  assumes sh: "shape_ok sh" and s: "\<not> isMap ct" and a: "validT sh ct a" and b: "validT sh ct b"
  shows "\<exists>r. intersect sh ct a b = Some r \<and> validT sh ct r \<and>
    (\<forall>k. tmap ct r k \<noteq> None \<longleftrightarrow> tmap ct a k \<noteq> None \<and> tmap ct b k \<noteq> None)"
proof -
  note va = validTD [OF a] and vb = validTD [OF b]
  let ?m = "filter (\<lambda>e. (tmap ct b (fst e) \<noteq> None) = True) (entriesT ct a)"
  have i: "intersectEntries (cmpT ct) (entriesT ct a) (entriesT ct b) = ?m"
    using key.intersect_filter [OF va(5) vb(5)] by (simp add: tmap_def)
  note mm = member_filter [of ct _ b True "entriesT ct a"] member_filter [of ct _ a True "entriesT ct b"]
  consider "isLeaf a" "isLeaf b" | "\<not> (isLeaf a \<and> isLeaf b)" "muchSmaller a b \<or> muchSmaller b a"
    | "\<not> (isLeaf a \<and> isLeaf b)" "\<not> (muchSmaller a b \<or> muchSmaller b a)" by blast
  then show ?thesis
  proof cases
    case 1
    have "intersectLeavesLoop ct a b 0 0 = Some ?m"
      using intersectLeavesLoop_spec [OF s va(1) 1(1) va(4,6) vb(1) 1(2) vb(4,6), of 0 0] i by simp
    then show ?thesis using 1 filter_leaf [OF s a 1(1), of "\<lambda>e. (tmap ct b (fst e) \<noteq> None) = True"] mm(1)
      by (auto simp: intersect_def intersectLeaves_def tmap_def)
  next
    case 2
    have sel: "\<exists>r. do { from \<leftarrow> Cursor_init x; out \<leftarrow> selectMembers ct y True from []; r \<leftarrow> Entries_build sh ct out; checked sh ct r } = Some r \<and>
      validT sh ct r \<and> (\<forall>k. tmap ct r k \<noteq> None \<longleftrightarrow> tmap ct x k \<noteq> None \<and> tmap ct y k \<noteq> None)"
      if x: "validT sh ct x" and y: "validT sh ct y" for x y
    proof -
      obtain c where c: "Cursor_init x = Some c" "cursorOk sh ct c" "cursorRest ct c = entriesT ct x" using cursor_valid [OF sh x] .
      have "selectMembers ct y True c [] = Some (filter (\<lambda>e. (tmap ct y (fst e) \<noteq> None) = True) (entriesT ct x))"
        using selectMembers_spec [OF sh c(2,3) validTD(6) [OF x] y, of True "[]"] set_entries_null [OF s] by simp
      then show ?thesis using c(1) filter_result [OF sh s x, of "\<lambda>e. (tmap ct y (fst e) \<noteq> None) = True"]
          member_filter [of ct _ y True "entriesT ct x"] by (auto simp: tmap_def)
    qed
    show ?thesis using sel [OF a b] sel [OF b a] 2 by (cases "tsize a \<le> tsize b") (auto simp: intersect_def Let_def)
  next
    case 3
    obtain x where x: "Cursor_init a = Some x" "cursorOk sh ct x" "cursorRest ct x = entriesT ct a" using cursor_valid [OF sh a] .
    obtain y where y: "Cursor_init b = Some y" "cursorOk sh ct y" "cursorRest ct y = entriesT ct b" using cursor_valid [OF sh b] .
    have "intersectCursors ct x y [] = Some ?m"
      using intersectCursors_spec [OF x(2,3) y(2,3) va(6) vb(6), of "[]"] i set_entries_null [OF s] by simp
    then show ?thesis using 3 x y filter_result [OF sh s a, of "\<lambda>e. (tmap ct b (fst e) \<noteq> None) = True"] mm(1)
      by (auto simp: intersect_def tmap_def)
  qed
qed

lemma difference_spec:
  assumes sh: "shape_ok sh" and s: "\<not> isMap ct" and a: "validT sh ct a" and b: "validT sh ct b"
  shows "\<exists>r. difference sh ct a b = Some r \<and> validT sh ct r \<and>
    (\<forall>k. tmap ct r k \<noteq> None \<longleftrightarrow> tmap ct a k \<noteq> None \<and> tmap ct b k = None)"
proof -
  note va = validTD [OF a] and vb = validTD [OF b]
  let ?P = "\<lambda>e. (tmap ct b (fst e) \<noteq> None) = False"
  let ?m = "filter ?P (entriesT ct a)"
  have i: "differenceEntries (cmpT ct) (entriesT ct a) (entriesT ct b) = ?m"
    using key.difference_filter [OF va(5) vb(5)] by (simp add: tmap_def)
  note mm = member_filter [of ct _ b False "entriesT ct a"]
  obtain x where x: "Cursor_init a = Some x" "cursorOk sh ct x" "cursorRest ct x = entriesT ct a" using cursor_valid [OF sh a] .
  obtain y where y: "Cursor_init b = Some y" "cursorOk sh ct y" "cursorRest ct y = entriesT ct b" using cursor_valid [OF sh b] .
  consider "tsize b = 0" | "tsize a = 0" | "tsize b \<noteq> 0" "tsize a \<noteq> 0" "isLeaf a" "isLeaf b"
    | "tsize b \<noteq> 0" "tsize a \<noteq> 0" "\<not> (isLeaf a \<and> isLeaf b)" "muchSmaller b a"
    | "tsize b \<noteq> 0" "tsize a \<noteq> 0" "\<not> (isLeaf a \<and> isLeaf b)" "\<not> muchSmaller b a" "muchSmaller a b"
    | "tsize b \<noteq> 0" "tsize a \<noteq> 0" "\<not> (isLeaf a \<and> isLeaf b)" "\<not> muchSmaller b a" "\<not> muchSmaller a b"
    by blast
  then show ?thesis
  proof cases
    case 1 then show ?thesis using a vb(7) by (simp add: difference_def tmap_def [of ct b])
  next
    case 2 then show ?thesis using a va(7) by (simp add: difference_def tmap_def [of ct a])
  next
    case 3
    have "differenceLeavesLoop ct a b 0 0 = Some ?m"
      using differenceLeavesLoop_spec [OF s va(1) 3(3) va(4,6) vb(1) 3(4) vb(4,6), of 0 0] i by simp
    then show ?thesis using 3 filter_leaf [OF s a 3(3), of ?P] mm
      by (auto simp: difference_def differenceLeaves_def tmap_def)
  next
    case 4
    obtain r where r: "removeEach sh ct y a = Some r" "validT sh ct r"
      "entriesT ct r = fold (\<lambda>e. deleteEntry (cmpT ct) (fst e)) (entriesT ct b) (entriesT ct a)"
      using removeEach_spec [OF sh y(2,3) vb(6) a] by blast
    have "tmap ct r k \<noteq> None \<longleftrightarrow> tmap ct a k \<noteq> None \<and> tmap ct b k = None" for k
      using key.findEntry_fold_delete [of "keyTy ct" k "entriesT ct b" "entriesT ct a"] r(3) by (auto simp: tmap_def)
    then show ?thesis using 4 y(1) r checked_valid [OF sh] by (auto simp: difference_def)
  next
    case 5
    have "selectMembers ct b False x [] = Some ?m"
      using selectMembers_spec [OF sh x(2,3) va(6) b, of False "[]"] set_entries_null [OF s] by simp
    then show ?thesis using 5 x filter_result [OF sh s a, of ?P] mm by (auto simp: difference_def tmap_def)
  next
    case 6
    have "differenceCursors ct x y [] = Some ?m"
      using differenceCursors_spec [OF x(2,3) y(2,3) va(6) vb(6), of "[]"] i set_entries_null [OF s] by simp
    then show ?thesis using 6 x y filter_result [OF sh s a, of ?P] mm by (auto simp: difference_def tmap_def)
  qed
qed

end
