(* ===== verification/Collection_Query.thy ===== *)
theory Collection_Query
  imports Collection_Binary
begin

text \<open>
  Inclusion, the arrays of keys, values and items, and equality of two collections.
\<close>

definition sameEntry :: "CollType \<Rightarrow> (slot \<Rightarrow> slot \<Rightarrow> bool) \<Rightarrow> slot \<times> slot \<Rightarrow> slot \<times> slot \<Rightarrow> bool" where
  "sameEntry ct valEq e f \<longleftrightarrow> cmpT ct (fst e) (fst f) = 0 \<and> (isMap ct \<longrightarrow> valEq (snd e) (snd f))"

section \<open>Subset\<close>

lemma length_subset: "subsetEntries cmp xs ys \<Longrightarrow> length xs \<le> length ys"
  by (induction cmp xs ys rule: subsetEntries.induct) (auto split: if_splits)

lemma keys_subset_iff:
  assumes "ascending (cmpT ct) (map fst (entriesT ct a))"
  shows "(\<forall>e \<in> set (entriesT ct a). tmap ct b (fst e) \<noteq> None) \<longleftrightarrow> (\<forall>k. tmap ct a k \<noteq> None \<longrightarrow> tmap ct b k \<noteq> None)"
proof
  assume l: "\<forall>e \<in> set (entriesT ct a). tmap ct b (fst e) \<noteq> None"
  show "\<forall>k. tmap ct a k \<noteq> None \<longrightarrow> tmap ct b k \<noteq> None"
  proof (intro allI impI)
    fix k assume "tmap ct a k \<noteq> None"
    then obtain v k' where "(k', v) \<in> set (entriesT ct a)" "cmpT ct k' k = 0"
      using key.findEntry_Some_mem [of "keyTy ct" k "entriesT ct a"] by (auto simp: tmap_def)
    then show "tmap ct b k \<noteq> None" using l key.findEntry_cong [of "keyTy ct" k' k "entriesT ct b"] by (force simp: tmap_def)
  qed
next
  assume r: "\<forall>k. tmap ct a k \<noteq> None \<longrightarrow> tmap ct b k \<noteq> None"
  show "\<forall>e \<in> set (entriesT ct a). tmap ct b (fst e) \<noteq> None"
    using r key.findEntry_mem [OF assms] by (force simp: tmap_def)
qed

lemma isSubset_spec:
  assumes sh: "shape_ok sh" and a: "validT sh ct a" and b: "validT sh ct b"
  shows "isSubset ct a b = Some (\<forall>k. tmap ct a k \<noteq> None \<longrightarrow> tmap ct b k \<noteq> None)"
proof -
  note va = validTD [OF a] and vb = validTD [OF b]
  let ?s = "subsetEntries (cmpT ct) (entriesT ct a) (entriesT ct b)"
  have s: "?s \<longleftrightarrow> (\<forall>e \<in> set (entriesT ct a). tmap ct b (fst e) \<noteq> None)"
    using key.subset_iff [OF va(5) vb(5)] by (simp add: tmap_def)
  obtain x where x: "Cursor_init a = Some x" "cursorOk sh ct x" "cursorRest ct x = entriesT ct a" using cursor_valid [OF sh a] .
  obtain y where y: "Cursor_init b = Some y" "cursorOk sh ct y" "cursorRest ct y = entriesT ct b" using cursor_valid [OF sh b] .
  have "isSubset ct a b = Some ?s"
  proof (cases "tsize a > tsize b")
    case True
    then show ?thesis using length_subset [of "cmpT ct" "entriesT ct a" "entriesT ct b"] va(7) vb(7) by (auto simp: isSubset_def)
  next
    case False
    consider "isLeaf a" "isLeaf b" | "\<not> (isLeaf a \<and> isLeaf b)" "muchSmaller a b" | "\<not> (isLeaf a \<and> isLeaf b)" "\<not> muchSmaller a b"
      by blast
    then show ?thesis
    proof cases
      case 1
      then show ?thesis using False isSubsetOfLeafLoop_spec [OF va(1) 1(1) va(4,6) vb(1) 1(2) vb(4,6), of 0 0]
        by (simp add: isSubset_def)
    next
      case 2
      then show ?thesis using False x(1) allMembers_spec [OF sh x(2,3) va(6) b] s by (auto simp: isSubset_def)
    next
      case 3
      then show ?thesis using False x(1) y(1) subsetCursors_spec [OF x(2,3) y(2,3) va(6) vb(6)] by (auto simp: isSubset_def)
    qed
  qed
  then show ?thesis using s keys_subset_iff [OF va(5)] by simp
qed

section \<open>Arrays of keys, values and items\<close>

lemma leavesOf_spec:
  "wft sh ct t \<Longrightarrow> length (entriesT ct t) < 2 ^ 32 \<Longrightarrow>
   concat (map (entriesT ct) (leavesOf t)) = entriesT ct t \<and>
   (\<forall>leaf \<in> set (leavesOf t). wft sh ct leaf \<and> isLeaf leaf \<and> length (entriesT ct leaf) < 2 ^ 32)"
proof (induction t)
  case (Leaf ks vs)
  then show ?case by simp
next
  case (Branch n h seps cs)
  have c: "concat (map (entriesT ct) (leavesOf c)) = entriesT ct c \<and>
    (\<forall>leaf \<in> set (leavesOf c). wft sh ct leaf \<and> isLeaf leaf \<and> length (entriesT ct leaf) < 2 ^ 32)" if m: "c \<in> set cs" for c
  proof -
    obtain i where i: "i < length cs" "c = cs ! i" using m by (auto simp: in_set_conv_nth)
    have "length (entriesT ct c) < 2 ^ 32" using length_child_le [OF i(1), of "entriesT ct"] Branch.prems(2) i(2) by simp
    then show ?thesis using Branch.IH [OF m] Branch.prems(1) m by simp
  qed
  have "concat (map (entriesT ct) (concat (map leavesOf cs))) = concat (map (\<lambda>c. concat (map (entriesT ct) (leavesOf c))) cs)"
    by (induction cs) auto
  also have "\<dots> = concat (map (entriesT ct) cs)" using c by (auto intro!: arg_cong [where f = concat])
  finally show ?case using c by auto
qed

lemma writeLeaves_spec:
  "\<forall>leaf \<in> set leaves. length (f leaf) = tsize leaf \<Longrightarrow> pos + length (concat (map f leaves)) = length arr \<Longrightarrow>
   writeLeaves f leaves pos arr = Some (take pos arr @ concat (map f leaves))"
proof (induction leaves arbitrary: pos arr)
  case (Cons leaf leaves)
  let ?arr = "take pos arr @ f leaf @ drop (pos + length (f leaf)) arr"
  have w: "writeSlots arr pos (f leaf) = Some ?arr" using Cons.prems by (simp add: writeSlots_def)
  have l: "pos + tsize leaf + length (concat (map f leaves)) = length ?arr" using Cons.prems by simp
  have "length (take pos arr) = pos" using Cons.prems(2) by simp
  then have "take (pos + tsize leaf) ?arr = take pos arr @ f leaf" using Cons.prems(1) by simp
  then show ?case using Cons.IH [of "pos + tsize leaf" ?arr] Cons.prems(1) l w by simp
qed simp

lemma write_tree:
  assumes "validT sh ct t" and f: "\<And>leaf. wft sh ct leaf \<Longrightarrow> isLeaf leaf \<Longrightarrow> length (entriesT ct leaf) < 2 ^ 32 \<Longrightarrow> f leaf = map g (entriesT ct leaf)"
  shows "writeLeaves f (leavesOf t) 0 (replicate (tsize t) d) = Some (map g (entriesT ct t))"
proof -
  note v = validTD [OF assms(1)]
  note l = leavesOf_spec [OF v(1,4)]
  have m: "map f (leavesOf t) = map (map g) (map (entriesT ct) (leavesOf t))" using l f by simp
  then have c: "concat (map f (leavesOf t)) = map g (entriesT ct t)" using l by (metis map_concat)
  moreover have "length (f leaf) = tsize leaf" if "leaf \<in> set (leavesOf t)" for leaf
    using that l f [of leaf] tsize_wft [of sh ct leaf] by simp
  ultimately show ?thesis using writeLeaves_spec [of "leavesOf t" f 0 "replicate (tsize t) d"] v(7) by simp
qed

lemma leaf_arrays:
  assumes "wft sh ct leaf" "isLeaf leaf" "length (entriesT ct leaf) < 2 ^ 32"
  shows "take (tsize leaf) (tkeys leaf) = map fst (entriesT ct leaf)"
    and "isMap ct \<Longrightarrow> take (tsize leaf) (tvalues leaf) = map snd (entriesT ct leaf)"
    and "isMap ct \<Longrightarrow> zip (take (tsize leaf) (tkeys leaf)) (take (tsize leaf) (tvalues leaf)) = entriesT ct leaf"
proof -
  obtain ks vs where t: "leaf = Leaf ks vs" using assms(2) by (cases leaf) auto
  then have v: "valuesOk ct ks vs" using assms(1) by simp
  have n: "tsize leaf = length ks" using tsize_wft [OF assms(1,3)] t length_leafEntries [OF v] by simp
  show "take (tsize leaf) (tkeys leaf) = map fst (entriesT ct leaf)" using t n keys_leafEntries [OF v] by simp
  assume m: "isMap ct"
  then have "length vs = length ks" using v by (simp add: valuesOk_def)
  then show "take (tsize leaf) (tvalues leaf) = map snd (entriesT ct leaf)"
    "zip (take (tsize leaf) (tkeys leaf)) (take (tsize leaf) (tvalues leaf)) = entriesT ct leaf"
    using t n m by (simp_all add: leafEntries_def)
qed

lemma arrays_spec:
  assumes "validT sh ct t"
  shows "keysT t = Some (map fst (entriesT ct t))"
    and "isMap ct \<Longrightarrow> valuesT t = Some (map snd (entriesT ct t))"
    and "isMap ct \<Longrightarrow> itemsT t = Some (entriesT ct t)"
    and "forEachEntry ct t = entriesT ct t"
proof -
  show "keysT t = Some (map fst (entriesT ct t))"
    unfolding keysT_def by (rule write_tree [OF assms]) (rule leaf_arrays)
  show "valuesT t = Some (map snd (entriesT ct t))" if "isMap ct"
    unfolding valuesT_def by (rule write_tree [OF assms]) (rule leaf_arrays(2) [OF _ _ _ that])
  show "itemsT t = Some (entriesT ct t)" if "isMap ct"
    unfolding itemsT_def by (rule write_tree [OF assms, where g = id, unfolded list.map_id0 id_apply]) (rule leaf_arrays(3) [OF _ _ _ that])
  note l = leavesOf_spec [OF validTD(1,4) [OF assms]]
  have "map (entryAt ct leaf) [0..<tsize leaf] = entriesT ct leaf" if "leaf \<in> set (leavesOf t)" for leaf
    using map_entryAt_from [of sh ct leaf 0] l that by simp
  then have m: "map (\<lambda>leaf. map (entryAt ct leaf) [0..<tsize leaf]) (leavesOf t) = map (entriesT ct) (leavesOf t)" by simp
  show "forEachEntry ct t = entriesT ct t" unfolding forEachEntry_def m using l by (rule conjunct1)
qed

section \<open>Equality\<close>

lemma equalCursors_spec:
  "cursorOk sh ct x \<Longrightarrow> cursorRest ct x = xs \<Longrightarrow> cursorOk sh ct y \<Longrightarrow> cursorRest ct y = ys \<Longrightarrow> liveAll ct xs \<Longrightarrow> liveAll ct ys \<Longrightarrow>
   length xs = length ys \<Longrightarrow> equalCursors ct (\<lambda>v w. Some (valEq v w)) x y = Some (list_all2 (sameEntry ct valEq) xs ys)"
proof (induction xs arbitrary: x y ys)
  case Nil
  then show ?case using tc_done by (simp add: equalCursors.simps)
next
  case (Cons e xs)
  then obtain f fs where ys: "ys = f # fs" by (cases ys) auto
  from tc_step [OF Cons.prems(1,2)] obtain x' where x: "\<not> Cursor_done x" "Cursor_key x = Some (fst e)"
    "Cursor_value ct x = Some (snd e)" "Cursor_next x = Some x'" "cursorOk sh ct x'" "cursorRest ct x' = xs" .
  from tc_step [OF Cons.prems(3,4) [unfolded ys]] obtain y' where y: "\<not> Cursor_done y" "Cursor_key y = Some (fst f)"
    "Cursor_value ct y = Some (snd f)" "Cursor_next y = Some y'" "cursorOk sh ct y'" "cursorRest ct y' = fs" .
  have c: "compareKeys (fst e) (fst f) (keyTy ct) = Some (cmpT ct (fst e) (fst f))" using Cons.prems ys cmp_live by simp
  show ?case using Cons.IH [OF x(5,6) y(5,6)] Cons.prems ys x y c
    by (auto simp: equalCursors.simps [of ct _ x y] sameEntry_def)
qed

lemma equalKeys_spec:
  "\<forall>k \<in> set xs. liveKey kt k \<Longrightarrow> \<forall>k \<in> set ys. liveKey kt k \<Longrightarrow> length xs = length ys \<Longrightarrow>
   equalKeys kt xs ys = Some (list_all2 (\<lambda>a b. cmpKeys kt a b = 0) xs ys)"
  by (induction kt xs ys rule: equalKeys.induct) (auto simp: compareKeys_live(1))

lemma equalValues_spec: "length xs = length ys \<Longrightarrow> equalValues (\<lambda>v w. Some (valEq v w)) xs ys = Some (list_all2 valEq xs ys)"
  by (induction "\<lambda>v w. Some (valEq v w)" xs ys rule: equalValues.induct) auto

lemma equalsT_spec:
  assumes sh: "shape_ok sh" and a: "validT sh ct a" and b: "validT sh ct b"
  shows "equalsT ct (\<lambda>v w. Some (valEq v w)) False a b = Some (list_all2 (sameEntry ct valEq) (entriesT ct a) (entriesT ct b))"
proof -
  note va = validTD [OF a] and vb = validTD [OF b]
  obtain x where x: "Cursor_init a = Some x" "cursorOk sh ct x" "cursorRest ct x = entriesT ct a" using cursor_valid [OF sh a] .
  obtain y where y: "Cursor_init b = Some y" "cursorOk sh ct y" "cursorRest ct y = entriesT ct b" using cursor_valid [OF sh b] .
  consider "tsize a \<noteq> tsize b" | "tsize a = tsize b" "\<not> isLeaf a \<or> \<not> isLeaf b" | "tsize a = tsize b" "isLeaf a" "isLeaf b" by blast
  then show ?thesis
  proof cases
    case 1
    then show ?thesis using va(7) vb(7) by (auto simp: equalsT_def dest: list_all2_lengthD)
  next
    case 2
    then show ?thesis using x(1) y(1) va(7) vb(7) equalCursors_spec [OF x(2,3) y(2,3) va(6) vb(6)] by (auto simp: equalsT_def)
  next
    case 3
    note la = leaf_arrays [OF va(1) 3(2) va(4)] and lb = leaf_arrays [OF vb(1) 3(3) vb(4)]
    have k: "equalKeys (keyTy ct) (map fst (entriesT ct a)) (map fst (entriesT ct b)) =
      Some (list_all2 (\<lambda>e f. cmpT ct (fst e) (fst f) = 0) (entriesT ct a) (entriesT ct b))"
      using equalKeys_spec [of "map fst (entriesT ct a)" "keyTy ct" "map fst (entriesT ct b)"] va(6,7) vb(6,7) 3(1)
      by (simp add: list_all2_map1 list_all2_map2)
    have vals: "equalValues (\<lambda>v w. Some (valEq v w)) (take (tsize a) (tvalues a)) (take (tsize a) (tvalues b)) =
      Some (list_all2 (\<lambda>e f. valEq (snd e) (snd f)) (entriesT ct a) (entriesT ct b))" if "isMap ct"
      using la(2) [OF that] lb(2) [OF that] 3(1) va(7) vb(7) equalValues_spec [of "map snd (entriesT ct a)" "map snd (entriesT ct b)"]
      by (simp add: list_all2_map1 list_all2_map2)
    have "equalsT ct (\<lambda>v w. Some (valEq v w)) False a b = Some (list_all2 (\<lambda>e f. cmpT ct (fst e) (fst f) = 0) (entriesT ct a) (entriesT ct b) \<and>
      (\<not> isMap ct \<or> list_all2 (\<lambda>e f. valEq (snd e) (snd f)) (entriesT ct a) (entriesT ct b)))"
      using 3 la(1) lb(1) k vals by (auto simp: equalsT_def)
    then show ?thesis by (auto simp: sameEntry_def list_all2_conv_all_nth)
  qed
qed

lemma find_hd_le:
  assumes "ascending (cmpT ct) (map fst (y # ys))" "findEntry (cmpT ct) k (y # ys) \<noteq> None" shows "cmpT ct (fst y) k \<le> 0"
proof -
  obtain v k' where k: "(k', v) \<in> set (y # ys)" "cmpT ct k' k = 0"
    using key.findEntry_Some_mem [of "keyTy ct" k "y # ys"] assms(2) by blast
  then have "cmpT ct (fst y) k' \<le> 0" using assms(1) key.cmp_refl by (auto simp: less_imp_le)
  then show ?thesis using key.cmp_le_trans [of "keyTy ct" "fst y" k' k] k(2) by simp
qed

text \<open>Two collections are equal when they stand for the same map, up to the equality of values.\<close>

lemma same_maps_iff:
  "ascending (cmpT ct) (map fst xs) \<Longrightarrow> ascending (cmpT ct) (map fst ys) \<Longrightarrow>
   list_all2 (sameEntry ct valEq) xs ys \<longleftrightarrow>
   (\<forall>k. rel_option (\<lambda>v w. isMap ct \<longrightarrow> valEq v w) (findEntry (cmpT ct) k xs) (findEntry (cmpT ct) k ys))"
proof (induction xs arbitrary: ys)
  case Nil
  show ?case
  proof (cases ys)
    case (Cons y ys')
    have "findEntry (cmpT ct) (fst y) ys \<noteq> None" using Cons key.cmp_refl by simp
    then show ?thesis using Cons by (auto simp del: findEntry.simps(2) intro!: exI [of _ "fst y"])
  qed simp
next
  case (Cons x xs)
  show ?case
  proof (cases ys)
    case Nil
    have "findEntry (cmpT ct) (fst x) (x # xs) \<noteq> None" using key.cmp_refl by simp
    then show ?thesis using Nil by (auto simp del: findEntry.simps(2) intro!: exI [of _ "fst x"])
  next
    case ys: (Cons y ys')
    let ?R = "\<lambda>v w. isMap ct \<longrightarrow> valEq v w"
    have none: "findEntry (cmpT ct) k zs = None" if z: "ascending (cmpT ct) (map fst (z # zs))" "cmpT ct (fst z) k = 0"
      for z :: "slot \<times> slot" and zs k
    proof -
      have "findEntry (cmpT ct) (fst z) zs = None" by (rule key.find_none_before) (use z(1) in auto)
      then show ?thesis using key.findEntry_cong [OF z(2), of zs] by simp
    qed
    note nx = none [OF Cons.prems(1)] and ny = none [OF Cons.prems(2) [unfolded ys]]
    note IH = Cons.IH [of ys'] 
    show ?thesis
    proof
      assume l: "list_all2 (sameEntry ct valEq) (x # xs) ys"
      then have s: "sameEntry ct valEq x y" "list_all2 (sameEntry ct valEq) xs ys'" using ys by auto
      then have xy: "cmpT ct (fst x) (fst y) = 0" "?R (snd x) (snd y)" by (auto simp: sameEntry_def)
      have r: "\<forall>k. rel_option ?R (findEntry (cmpT ct) k xs) (findEntry (cmpT ct) k ys')"
        using IH Cons.prems ys s(2) by auto
      show "\<forall>k. rel_option ?R (findEntry (cmpT ct) k (x # xs)) (findEntry (cmpT ct) k ys)"
        using r xy ys key.cmp_eq_left [OF xy(1)] by auto
    next
      assume r: "\<forall>k. rel_option ?R (findEntry (cmpT ct) k (x # xs)) (findEntry (cmpT ct) k ys)"
      have "findEntry (cmpT ct) (fst x) ys \<noteq> None" "findEntry (cmpT ct) (fst y) (x # xs) \<noteq> None"
        using r [THEN spec, of "fst x"] r [THEN spec, of "fst y"] ys key.cmp_refl
        by (auto simp: option_rel_Some1 option_rel_Some2)
      then have "cmpT ct (fst y) (fst x) \<le> 0" "cmpT ct (fst x) (fst y) \<le> 0"
        using find_hd_le Cons.prems ys by blast+
      then have xy: "cmpT ct (fst x) (fst y) = 0" using key.cmp_sym [of "keyTy ct" "fst x" "fst y"] by simp
      have v: "?R (snd x) (snd y)" using r [THEN spec, of "fst x"] ys key.cmp_refl key.cmp_eq_sym [OF xy] by simp
      have "rel_option ?R (findEntry (cmpT ct) k xs) (findEntry (cmpT ct) k ys')" for k
        using r [THEN spec, of k] ys nx [of k] ny [of k] key.cmp_eq_left [OF xy, of k] by (cases "cmpT ct (fst x) k = 0") auto
      then show "list_all2 (sameEntry ct valEq) (x # xs) ys" using IH Cons.prems ys xy v by (auto simp: sameEntry_def [of ct valEq x])
    qed
  qed
qed

end
