(* ===== verification/Collection_Array.thy ===== *)
theory Collection_Array
  imports Collection_Query
begin

text \<open>
  Construction from an array: the test for ascending keys, the stable sort of positions and the
  pass that keeps the last of every run of equal keys.
\<close>

text \<open>The order in which a stable sort leaves the positions of an array: by key, then by position.\<close>

definition posBefore :: "(nat \<Rightarrow> nat \<Rightarrow> int) \<Rightarrow> nat \<Rightarrow> nat \<Rightarrow> bool" where
  "posBefore c i j \<longleftrightarrow> c i j < 0 \<or> c i j = 0 \<and> i < j"

section \<open>Construction from an array\<close>

locale positions = three_way c for c :: "nat \<Rightarrow> nat \<Rightarrow> int"
begin

lemma stableInsert_spec:
  assumes agree: "\<And>i j. i < n \<Longrightarrow> j < n \<Longrightarrow> cmp i j = Some (c i j)"
    and "x < n" "\<forall>y \<in> set ys. y < n \<and> x < y" "sorted_wrt (posBefore c) ys"
  shows "\<exists>zs. stableInsert cmp x ys = Some zs \<and> sorted_wrt (posBefore c) zs \<and> set zs = insert x (set ys) \<and> length zs = Suc (length ys)"
  using assms(2-)
proof (induction ys)
  case (Cons y ys)
  have o: "cmp y x = Some (c y x)" using Cons.prems agree by simp
  show ?case
  proof (cases "c y x < 0")
    case True
    then obtain zs where z: "stableInsert cmp x ys = Some zs" "sorted_wrt (posBefore c) zs" "set zs = insert x (set ys)" "length zs = Suc (length ys)"
      using Cons by auto
    moreover have "\<forall>z \<in> set zs. posBefore c y z" using z(3) True Cons.prems(3) by (auto simp: posBefore_def)
    ultimately show ?thesis using o True by auto
  next
    case False
    then have "posBefore c x y" using Cons.prems(2) cmp_sym [of x y] by (auto simp: posBefore_def)
    moreover have "posBefore c x z" if "z \<in> set ys" for z
    proof -
      have "c x y \<le> 0" "c y z \<le> 0" using False cmp_sym [of x y] Cons.prems(3) that by (auto simp: posBefore_def)
      then have "c x z \<le> 0" by (rule cmp_le_trans)
      then show ?thesis using Cons.prems(2) that by (auto simp: posBefore_def)
    qed
    ultimately show ?thesis using o False Cons.prems by simp
  qed
qed simp

lemma stableSort_spec:
  assumes agree: "\<And>i j. i < n \<Longrightarrow> j < n \<Longrightarrow> cmp i j = Some (c i j)"
  shows "m \<le> n \<Longrightarrow> \<exists>zs. stableSort cmp [m..<n] = Some zs \<and> sorted_wrt (posBefore c) zs \<and> set zs = {m..<n} \<and> length zs = n - m"
proof (induction "n - m" arbitrary: m)
  case (Suc d)
  then have m: "m < n" "d = n - Suc m" by auto
  then obtain zs where z: "stableSort cmp [Suc m..<n] = Some zs" "sorted_wrt (posBefore c) zs" "set zs = {Suc m..<n}" "length zs = n - Suc m"
    using Suc.hyps(1) [of "Suc m"] by auto
  obtain ws where w: "stableInsert cmp m zs = Some ws" "sorted_wrt (posBefore c) ws" "set ws = insert m (set zs)" "length ws = Suc (length zs)"
    using stableInsert_spec [OF agree m(1) _ z(2)] z(3) by auto
  have "[m..<n] = m # [Suc m..<n]" using m by (simp add: upt_conv_Cons)
  moreover have "insert m {Suc m..<n} = {m..<n}" using m by auto
  ultimately show ?case using z w m by simp
qed simp

lemma strictlyAscending_spec:
  assumes agree: "\<And>i j. i < n \<Longrightarrow> j < n \<Longrightarrow> cmp i j = Some (c i j)"
  shows "0 < i \<Longrightarrow> i + k \<le> n \<Longrightarrow> \<exists>r. strictlyAscending cmp i k = Some r \<and> (r \<longleftrightarrow> (\<forall>j. i \<le> j \<and> j < i + k \<longrightarrow> c (j - 1) j < 0))"
proof (induction k arbitrary: i)
  case (Suc k)
  have o: "cmp (i - 1) i = Some (c (i - 1) i)" using Suc.prems agree by simp
  have split: "(\<forall>j. i \<le> j \<and> j < i + Suc k \<longrightarrow> c (j - 1) j < 0) \<longleftrightarrow>
    c (i - 1) i < 0 \<and> (\<forall>j. i + 1 \<le> j \<and> j < i + 1 + k \<longrightarrow> c (j - 1) j < 0)"
  proof -
    have "i \<le> j \<and> j < i + Suc k \<longleftrightarrow> j = i \<or> i + 1 \<le> j \<and> j < i + 1 + k" for j by auto
    then show ?thesis by auto
  qed
  obtain r where r: "strictlyAscending cmp (i + 1) k = Some r" "r \<longleftrightarrow> (\<forall>j. i + 1 \<le> j \<and> j < i + 1 + k \<longrightarrow> c (j - 1) j < 0)"
    using Suc.IH [of "i + 1"] Suc.prems by auto
  show ?case unfolding split using o r by simp
qed auto

lemma adjacent_ascending:
  assumes "\<forall>j. 1 \<le> j \<and> j < n \<longrightarrow> c (j - 1) j < 0" shows "i < j \<Longrightarrow> j < n \<Longrightarrow> c i j < 0"
proof (induction j)
  case (Suc j)
  have s: "c j (Suc j) < 0" using assms Suc.prems by (metis Suc_le_mono diff_Suc_1 le0 One_nat_def)
  show ?case
  proof (cases "i = j")
    case False
    then show ?thesis using Suc cmp_less_le [of i j "Suc j"] s by simp
  qed (use s in simp)
qed simp

lemma lastOfRuns_spec:
  assumes agree: "\<And>i j. i < n \<Longrightarrow> j < n \<Longrightarrow> cmp i j = Some (c i j)"
  shows "sorted_wrt (posBefore c) xs \<Longrightarrow> \<forall>x \<in> set xs. x < n \<Longrightarrow>
   \<exists>zs. lastOfRuns cmp xs = Some zs \<and> sorted_wrt (\<lambda>i j. c i j < 0) zs \<and>
     set zs = {x \<in> set xs. \<forall>y \<in> set xs. c y x = 0 \<longrightarrow> y \<le> x} \<and> length zs \<le> length xs"
proof (induction xs)
  case (Cons x ys)
  show ?case
  proof (cases ys)
    case Nil
    then show ?thesis by auto
  next
    case ys: (Cons y ys')
    obtain zs where z: "lastOfRuns cmp ys = Some zs" "sorted_wrt (\<lambda>i j. c i j < 0) zs"
      "set zs = {x \<in> set ys. \<forall>y \<in> set ys. c y x = 0 \<longrightarrow> y \<le> x}" "length zs \<le> length ys"
      using Cons by auto
    have o: "cmp x y = Some (c x y)" using Cons.prems(2) ys agree by simp
    have xw: "posBefore c x w" if "w \<in> set ys" for w using Cons.prems(1) that by simp
    have le: "c x y \<le> 0" using xw [of y] ys by (auto simp: posBefore_def)
    have yw: "c y w \<le> 0" if "w \<in> set ys" for w
      using Cons.prems(1) that ys cmp_refl [of y] by (auto simp: posBefore_def)
    show ?thesis
    proof (cases "c x y = 0")
      case True
      have "x < y" using xw [of y] ys True by (simp add: posBefore_def)
      moreover have "c y x = 0" "y \<in> set ys" using True cmp_sym [of x y] ys by auto
      moreover have "x \<le> w" if "w \<in> set ys" "c x w = 0" for w using xw [OF that(1)] that(2) by (simp add: posBefore_def)
      ultimately have "{w \<in> set (x # ys). \<forall>v \<in> set (x # ys). c v w = 0 \<longrightarrow> v \<le> w} = set zs"
        unfolding z(3) by (auto simp: not_le)
      then show ?thesis using z o True ys by simp
    next
      case False
      have lt: "c x w < 0" if "w \<in> set ys" for w using cmp_less_le [of x y w] le False yw [OF that] by simp
      then have "c w x \<noteq> 0" if "w \<in> set ys" for w using that cmp_sym [of x w] by fastforce
      then have "{w \<in> set (x # ys). \<forall>v \<in> set (x # ys). c v w = 0 \<longrightarrow> v \<le> w} = insert x (set zs)"
        using z(3) lt by force
      then show ?thesis using z o False ys lt by auto
    qed
  qed
qed simp

end

lemma findEntry_rev:
  assumes "i < length es" "cmp (fst (es ! i)) k = 0" "\<forall>j. i < j \<and> j < length es \<longrightarrow> cmp (fst (es ! j)) k \<noteq> 0"
  shows "findEntry cmp k (rev es) = Some (snd (es ! i))"
proof -
  have "es = take i es @ es ! i # drop (i + 1) es" using assms(1) by (simp add: id_take_nth_drop)
  then have r: "rev es = rev (drop (i + 1) es) @ es ! i # rev (take i es)" by (metis append_assoc rev.simps(2) rev_append append_Cons append_Nil)
  have "\<forall>e \<in> set (rev (drop (i + 1) es)). cmp (fst e) k \<noteq> 0" 
  proof
    fix e assume "e \<in> set (rev (drop (i + 1) es))"
    then obtain j where "j < length es - (i + 1)" "e = es ! (i + 1 + j)" by (auto simp: in_set_conv_nth)
    then show "cmp (fst e) k \<noteq> 0" using assms(3) [THEN spec, of "i + 1 + j"] by simp
  qed
  then have "findEntry cmp k (rev (drop (i + 1) es)) = None" by (simp add: findEntry_None_iff)
  then show ?thesis unfolding r using assms(2) by simp
qed

text \<open>The entries an array stands for when later entries replace earlier ones with the same key.\<close>

lemma lastOfRuns_entries:
  assumes kc: "\<And>i j. c i j = cmpT ct (fst (es ! i)) (fst (es ! j))"
    and zs: "sorted_wrt (\<lambda>i j. c i j < 0) zs" "set zs = {i. i < length es \<and> (\<forall>j < length es. c j i = 0 \<longrightarrow> j \<le> i)}"
  shows "ascending (cmpT ct) (map fst (map ((!) es) zs))"
    and "findEntry (cmpT ct) k (map ((!) es) zs) = findEntry (cmpT ct) k (rev es)"
proof -
  show asc: "ascending (cmpT ct) (map fst (map ((!) es) zs))"
    using zs(1) unfolding ascending_def sorted_wrt_map kc by (simp add: comp_def)
  show "findEntry (cmpT ct) k (map ((!) es) zs) = findEntry (cmpT ct) k (rev es)"
  proof (cases "findEntry (cmpT ct) k (rev es)")
    case None
    then have "\<forall>e \<in> set es. cmpT ct (fst e) k \<noteq> 0" by (simp add: findEntry_None_iff)
    then have "findEntry (cmpT ct) k (map ((!) es) zs) = None" using zs(2) by (auto simp: findEntry_None_iff)
    then show ?thesis using None by simp
  next
    case (Some v)
    let ?I = "{i. i < length es \<and> cmpT ct (fst (es ! i)) k = 0}"
    have "?I \<noteq> {}" using key.findEntry_Some_mem [OF Some] by (force simp: in_set_conv_nth)
    moreover have fin: "finite ?I" by simp
    ultimately have m: "Max ?I \<in> ?I" by (rule Max_in [rotated])
    define i where "i = Max ?I"
    have i: "i < length es" "cmpT ct (fst (es ! i)) k = 0" and mx: "\<And>j. j \<in> ?I \<Longrightarrow> j \<le> i"
      using m Max_ge [OF fin] by (auto simp: i_def)
    have r: "findEntry (cmpT ct) k (rev es) = Some (snd (es ! i))"
    proof (rule findEntry_rev [where cmp = "cmpT ct" and k = k, OF i], intro allI impI)
      fix j assume "i < j \<and> j < length es"
      then show "cmpT ct (fst (es ! j)) k \<noteq> 0" using mx [of j] by auto
    qed
    have "i \<in> set zs"
    proof -
      have "j \<le> i" if "j < length es" "c j i = 0" for j
        using mx [of j] that i(2) key.cmp_eq_left [of "keyTy ct" "fst (es ! j)" "fst (es ! i)" k] kc by simp
      then show ?thesis using i(1) zs(2) by simp
    qed
    then have "(fst (es ! i), snd (es ! i)) \<in> set (map ((!) es) zs)" by simp
    from key.findEntry_mem [OF asc this] have "findEntry (cmpT ct) (fst (es ! i)) (map ((!) es) zs) = Some (snd (es ! i))" .
    then show ?thesis using r key.findEntry_cong [OF i(2)] by metis
  qed
qed


interpretation pos: positions "\<lambda>i j. cmpKeys kt (f i) (f j)" for kt f
proof
  show "cmpKeys kt (f b) (f a) = - cmpKeys kt (f a) (f b)" for a b by (rule key.cmp_sym)
  show "cmpKeys kt (f a) (f b) \<le> 0 \<Longrightarrow> cmpKeys kt (f b) (f c) \<le> 0 \<Longrightarrow> cmpKeys kt (f a) (f c) \<le> 0" for a b c
    by (rule key.cmp_le_trans)
qed

lemma built_from:
  assumes sh: "shape_ok sh" and zs: "\<forall>i \<in> set zs. i < length es" and n: "length zs < 2 ^ 32"
    and live: "liveAll ct es" and nul: "isMap ct \<or> (\<forall>e \<in> set es. snd e = NullSlot)"
    and asc: "ascending (cmpT ct) (map fst (map ((!) es) zs))"
  shows "\<exists>t. buildTree sh ct (length zs) (\<lambda>i. fst (es ! (zs ! i))) (\<lambda>i. snd (es ! (zs ! i))) = Some t \<and>
    checked sh ct t = Some t \<and> validT sh ct t \<and> entriesT ct t = map ((!) es) zs"
proof -
  let ?f = "entryFun ct (\<lambda>i. fst (es ! (zs ! i))) (\<lambda>i. snd (es ! (zs ! i)))"
  have e: "map ?f [0..<length zs] = map ((!) es) zs"
    by (rule nth_equalityI) (use nul zs in \<open>auto simp: entryFun_def prod_eq_iff\<close>)
  have "keysOk ct (map ((!) es) zs)" using asc live zs by (auto simp: keysOk_def)
  then show ?thesis using buildTree_spec [OF sh _ n, of ct "\<lambda>i. fst (es ! (zs ! i))" "\<lambda>i. snd (es ! (zs ! i))"] checked_valid [OF sh] e
    by auto
qed

lemma fromArray_spec:
  assumes sh: "shape_ok sh" and live: "liveAll ct es" and nul: "isMap ct \<or> (\<forall>e \<in> set es. snd e = NullSlot)"
    and n: "length es < 2 ^ 32"
  shows "\<exists>t. fromArray sh ct es = Some t \<and> validT sh ct t \<and> (\<forall>k. tmap ct t k = findEntry (cmpT ct) k (rev es))"
proof (cases "es = []")
  case True
  then show ?thesis by (simp add: fromArray_def Let_def newLeaf_Some validT_def valuesOk_def leafEntries_def tmap_def)
next
  case False
  define c where "c = (\<lambda>i j. cmpT ct (fst (es ! i)) (fst (es ! j)))"
  define cmp where "cmp = (\<lambda>i j. compareKeys (fst (es ! i)) (fst (es ! j)) (keyTy ct))"
  define n where "n = length es"
  have agree: "cmp i j = Some (c i j)" if "i < n" "j < n" for i j
    using that live cmp_live by (simp add: cmp_def c_def n_def)
  have n0: "0 < n" using False by (simp add: n_def)
  have u: "map u32 [0..<n] = [0..<n]" using \<open>length es < 2 ^ 32\<close> by (auto simp: n_def intro!: map_idI)
  obtain asc where asc: "strictlyAscending cmp 1 (n - 1) = Some asc" "asc \<longleftrightarrow> (\<forall>j. 1 \<le> j \<and> j < n \<longrightarrow> c (j - 1) j < 0)"
    using pos.strictlyAscending_spec [where kt = "keyTy ct" and f = "\<lambda>i. fst (es ! i)" and i = 1 and k = "n - 1", OF agree [unfolded c_def]] n0 unfolding c_def by auto
  have "\<exists>zs. (if asc then Some [0..<n] else do { s \<leftarrow> stableSort cmp [0..<n]; lastOfRuns cmp s }) = Some zs \<and>
    sorted_wrt (\<lambda>i j. c i j < 0) zs \<and> set zs = {i. i < n \<and> (\<forall>j < n. c j i = 0 \<longrightarrow> j \<le> i)} \<and> length zs \<le> n"
  proof (cases asc)
    case True
    have lt: "c i j < 0" if "i < j" "j < n" for i j
      using pos.adjacent_ascending [of n "keyTy ct" "\<lambda>i. fst (es ! i)" i j] True asc(2) that unfolding c_def by blast
    have "i \<in> set [0..<n] \<longleftrightarrow> i < n \<and> (\<forall>j < n. c j i = 0 \<longrightarrow> j \<le> i)" for i
    proof -
      have "c j i \<noteq> 0" if "i < j" "j < n" for j using lt [OF that] key.cmp_sym [of "keyTy ct" "fst (es ! j)"] by (simp add: c_def)
      then show ?thesis by (auto simp: not_less [symmetric])
    qed
    moreover have "sorted_wrt (\<lambda>i j. c i j < 0) [0..<n]" using lt by (auto simp: sorted_wrt_iff_nth_less)
    ultimately show ?thesis using True by (intro exI [of _ "[0..<n]"]) (simp add: set_eq_iff)
  next
    case False
    obtain s where s: "stableSort cmp [0..<n] = Some s" "sorted_wrt (posBefore c) s" "set s = {0..<n}" "length s = n"
      using pos.stableSort_spec [where kt = "keyTy ct" and f = "\<lambda>i. fst (es ! i)" and m = 0, OF agree [unfolded c_def]] unfolding c_def by auto
    have "\<forall>x \<in> set s. x < n" using s(3) by simp
    from pos.lastOfRuns_spec [where kt = "keyTy ct" and f = "\<lambda>i. fst (es ! i)", OF agree [unfolded c_def] s(2) [unfolded c_def] this]
    obtain zs where z: "lastOfRuns cmp s = Some zs" "sorted_wrt (\<lambda>i j. c i j < 0) zs"
      "set zs = {x \<in> set s. \<forall>y \<in> set s. c y x = 0 \<longrightarrow> y \<le> x}" "length zs \<le> length s"
      unfolding c_def by blast
    have "set zs = {i. i < n \<and> (\<forall>j < n. c j i = 0 \<longrightarrow> j \<le> i)}" unfolding z(3) s(3) by auto
    then show ?thesis using s(1,4) z False by (intro exI [of _ zs]) simp
  qed
  then obtain zs where z: "(if asc then Some [0..<n] else do { s \<leftarrow> stableSort cmp [0..<n]; lastOfRuns cmp s }) = Some zs"
    "sorted_wrt (\<lambda>i j. c i j < 0) zs" "set zs = {i. i < n \<and> (\<forall>j < n. c j i = 0 \<longrightarrow> j \<le> i)}" "length zs \<le> n" by blast
  have kc: "c i j = cmpT ct (fst (es ! i)) (fst (es ! j))" for i j by (simp add: c_def)
  note le = lastOfRuns_entries [where c = c and ct = ct and es = es and zs = zs, OF kc z(2) z(3) [unfolded n_def]]
  obtain t where t: "buildTree sh ct (length zs) (\<lambda>i. fst (es ! (zs ! i))) (\<lambda>i. snd (es ! (zs ! i))) = Some t"
    "checked sh ct t = Some t" "validT sh ct t" "entriesT ct t = map ((!) es) zs"
    using built_from [OF sh _ _ live nul le(1)] z(3,4) n_def \<open>length es < 2 ^ 32\<close> by auto
  have "fromArray sh ct es = Some t"
  proof -
    have "n \<noteq> 0" using n0 by simp
    then show ?thesis using asc(1) z(1) t(1,2)
      unfolding fromArray_def Let_def cmp_def [symmetric] n_def [symmetric] u by simp
  qed
  moreover have "tmap ct t k = findEntry (cmpT ct) k (rev es)" for k
    using le(2) [of k] t(4) by (simp add: tmap_def)
  ultimately show ?thesis using t(3) by blast
qed

end
