(* ===== verification/Collection_Validate.thy ===== *)
theory Collection_Validate
  imports Collection_Array
begin

text \<open>
  \<open>validate\<close> accepts only valid trees (that it accepts all of them is in \<open>Collection_Build\<close>), the
  configured shape, and the exact effect of an update on the size.
\<close>

text \<open>What the memory layout of a table alone guarantees, before anything is validated: counts fit
  their fields, a leaf of a map has a value for every key, a branch a separator for every child,
  and slots hold values of the key type.\<close>

fun storageOk :: "CollType \<Rightarrow> table \<Rightarrow> bool" where
  "storageOk ct (Leaf ks vs) \<longleftrightarrow> length ks < 2 ^ 32 \<and> valuesOk ct ks vs \<and> (\<forall>k \<in> set ks. liveKey (keyTy ct) k)"
| "storageOk ct (Branch n h seps cs) \<longleftrightarrow>
     n < 2 ^ 32 \<and> length cs < 2 ^ 16 \<and> length seps = length cs \<and> (\<forall>s \<in> set seps. liveKey (keyTy ct) s) \<and>
     (\<forall>c \<in> set cs. storageOk ct c)"

definition liveLast :: "CollType \<Rightarrow> slot option \<Rightarrow> bool" where
  "liveLast ct l \<longleftrightarrow> (\<forall>k. l = Some k \<longrightarrow> liveKey (keyTy ct) k)"

section \<open>Validation\<close>

lemma lastKey_before:
  assumes "keysOk ct xs" "afterKey ct (lastKey l xs) ys" "x \<in> set xs" "y \<in> set ys"
  shows "cmpT ct (fst x) (fst y) < 0"
proof -
  have "xs \<noteq> []" using assms(3) by auto
  then have ly: "cmpT ct (fst (last xs)) (fst y) < 0" using assms(2,4) by (auto simp: afterKey_def lastKey_def)
  have "xs = butlast xs @ [last xs]" using \<open>xs \<noteq> []\<close> by simp
  then have "x = last xs \<or> cmpT ct (fst x) (fst (last xs)) < 0"
    using assms(1,3) keysOk_append [of ct "butlast xs" "[last xs]"] by (metis Un_iff empty_iff insert_iff list.set(1,2) set_append)
  then show ?thesis using ly key.cmp_less_trans by blast
qed

lemma afterKey_join:
  assumes "afterKey ct l xs" "xs \<noteq> []" "\<And>x y. x \<in> set xs \<Longrightarrow> y \<in> set ys \<Longrightarrow> cmpT ct (fst x) (fst y) < 0"
  shows "afterKey ct l (xs @ ys)"
  unfolding afterKey_def
proof (intro allI impI conjI ballI)
  fix k assume l: "l = Some k"
  then have x: "liveKey (keyTy ct) k" "\<forall>e \<in> set xs. cmpT ct k (fst e) < 0" using assms(1) by (auto simp: afterKey_def)
  show "liveKey (keyTy ct) k" by (rule x)
  fix e assume "e \<in> set (xs @ ys)"
  then show "cmpT ct k (fst e) < 0"
    using x(2) assms(2) assms(3) [of "hd xs" e] key.cmp_less_trans [of "keyTy ct" k "fst (hd xs)" "fst e"] by auto
qed

lemma checkKeys_sound:
  "\<forall>k \<in> set ks. liveKey kt k \<Longrightarrow> (\<forall>l. last0 = Some l \<longrightarrow> liveKey kt l) \<Longrightarrow> checkKeys kt ks i last0 = Some (Inr l') \<Longrightarrow>
   ascending (cmpKeys kt) ks \<and> (\<forall>l. last0 = Some l \<longrightarrow> (\<forall>k \<in> set ks. cmpKeys kt l k < 0)) \<and>
   l' = (if ks = [] then last0 else Some (last ks))"
proof (induction ks arbitrary: i last0)
  case (Cons k ks)
  have order: "cmpKeys kt l k < 0" if "last0 = Some l" for l
    using Cons.prems that compareKeys_live(1) [of kt l k] by (auto split: if_splits)
  have rest: "checkKeys kt ks (i + 1) (Some k) = Some (Inr l')"
    using Cons.prems(3) by (auto split: option.splits bind_splits if_splits)
  from Cons.IH [OF _ _ rest] Cons.prems(1)
  have IH: "ascending (cmpKeys kt) ks" "\<forall>x \<in> set ks. cmpKeys kt k x < 0" "l' = (if ks = [] then Some k else Some (last ks))" by auto
  show ?case using IH order key.cmp_less_trans [of kt _ k] by auto
qed simp

lemma check_sound:
  "shape_ok sh \<Longrightarrow> storageOk ct t \<Longrightarrow> liveLast ct last0 \<Longrightarrow> check sh ct isRoot t last0 = Some (Inr l') \<Longrightarrow>
     wft sh ct t \<and> (if isRoot then rootOk t else full sh ct t) \<and> keysOk ct (entriesT ct t) \<and>
     length (entriesT ct t) = tsize t \<and> afterKey ct last0 (entriesT ct t) \<and> l' = lastKey last0 (entriesT ct t)"
  "shape_ok sh \<Longrightarrow> \<forall>c \<in> set cs. storageOk ct c \<Longrightarrow> i + length cs = length seps \<Longrightarrow> \<forall>s \<in> set seps. liveKey (keyTy ct) s \<Longrightarrow>
     liveLast ct last0 \<Longrightarrow> checkChildren sh ct n h seps cs i acc last0 = Some (Inr l') \<Longrightarrow>
     (\<forall>c \<in> set cs. wft sh ct c \<and> full sh ct c \<and> theight c + 1 = h) \<and>
     list_all2 (\<lambda>s c. cmpT ct s (firstKey c) = 0 \<and> liveKey (keyTy ct) s) (drop i seps) cs \<and>
     keysOk ct (levelEntries ct cs) \<and> n = acc + length (levelEntries ct cs) \<and>
     afterKey ct last0 (levelEntries ct cs) \<and> l' = lastKey last0 (levelEntries ct cs)"
proof (induction sh ct isRoot t last0 and sh ct n h seps cs i acc last0 arbitrary: l' and l' rule: check_checkChildren.induct)
  case (1 sh ct isRoot ks vs last0)
  have v: "valuesOk ct ks vs" and n: "length ks < 2 ^ 32" and live: "\<forall>k \<in> set ks. liveKey (keyTy ct) k" using "1.prems"(2) by auto
  note le = length_leafEntries [OF v] keys_leafEntries [OF v]
  have b: "length ks \<le> leafCapacity sh ct" "isRoot \<or> (ks \<noteq> [] \<and> leafCapacity sh ct div 2 \<le> length ks)"
    and ck: "checkKeys (keyTy ct) ks 0 last0 = Some (Inr l')"
    using "1.prems"(4) n by (auto simp: Let_def split: if_splits)
  note s = checkKeys_sound [OF live _ ck]
  have setks: "set ks = fst ` set (leafEntries ct ks vs)" using le(2) by (metis set_map)
  have "keysOk ct (leafEntries ct ks vs)" "afterKey ct last0 (leafEntries ct ks vs)"
    using s "1.prems"(3) live le(2) setks by (auto simp: keysOk_def afterKey_def liveLast_def)
  moreover have "l' = lastKey last0 (leafEntries ct ks vs)"
  proof (cases "ks = []")
    case True
    then show ?thesis using s "1.prems"(3) le(1) by (simp add: liveLast_def lastKey_def)
  next
    case False
    then have ne: "leafEntries ct ks vs \<noteq> []" using le(1) by (metis length_0_conv)
    then have "last ks = fst (last (leafEntries ct ks vs))" using le(2) by (metis last_map)
    then show ?thesis using s "1.prems"(3) False ne by (simp add: liveLast_def lastKey_def)
  qed
  ultimately show ?case using b v n le(1) by auto
next
  case (2 sh ct isRoot n h seps cs last0)
  have st: "n < 2 ^ 32" "length cs < 2 ^ 16" "length seps = length cs" "\<forall>s \<in> set seps. liveKey (keyTy ct) s" "\<forall>c \<in> set cs. storageOk ct c"
    using "2.prems"(2) by auto
  then have cnt: "tcount (Branch n h seps cs) = length cs" by simp
  have c: "\<not> (length cs > fanout sh \<or> length cs < (if isRoot then 2 else fanout sh div 2))"
    and ck: "checkChildren sh ct n h seps (take (length cs) cs) 0 0 last0 = Some (Inr l')"
    using "2.prems"(4) unfolding check.simps(2) Let_def cnt by (auto split: if_splits)
  note s = "2.IH" [OF cnt [symmetric] c "2.prems"(1) _ _ st(4) "2.prems"(3) ck]
  have "cs \<noteq> []" using c shape_okD(5) [OF "2.prems"(1)] by (auto split: if_splits)
  then show ?case using s st c by (auto split: if_splits)
next
  case (3 sh ct n h seps i acc last0)
  then show ?case by (auto simp: lastKey_def afterKey_def liveLast_def split: if_splits)
next
  case (4 sh ct n h seps c cs i acc last0)
  have i: "i < length seps" using "4.prems"(3) by simp
  then have dr: "drop i seps = seps ! i # drop (i + 1) seps" by (simp add: Cons_nth_drop_Suc)
  have ls: "liveKey (keyTy ct) (seps ! i)" using "4.prems"(4) i by simp
  note eq = "4.prems"(6) [unfolded checkChildren.simps]
  have h: "\<not> theight c + 1 \<noteq> h" "tsize c \<noteq> 0" using eq by (auto split: if_splits)
  then have eq2: "(do { order \<leftarrow> compareKeys (seps ! i) (firstKey c) (keyTy ct);
             if order \<noteq> 0 then Some (Inl (BadSeparator i))
             else do { r \<leftarrow> check sh ct False c last0;
                       case r of
                         Inl v \<Rightarrow> Some (Inl v)
                       | Inr lst' \<Rightarrow> checkChildren sh ct n h seps cs (i + 1) (acc + tsize c) lst' } }) = Some (Inr l')"
    using eq i by simp
  have cmp: "compareKeys (seps ! i) (firstKey c) (keyTy ct) = Some 0" using eq2 by (auto split: bind_splits if_splits)
  have z: "\<not> (0 :: int) \<noteq> 0" by simp
  obtain l1 where l1: "check sh ct False c last0 = Some (Inr l1)"
    and rest: "checkChildren sh ct n h seps cs (i + 1) (acc + tsize c) l1 = Some (Inr l')"
    using eq2 cmp by (auto split: bind_splits sum.splits)
  have sc: "storageOk ct c" "\<forall>c \<in> set cs. storageOk ct c" using "4.prems"(2) by auto
  from "4.IH"(1) [OF h i cmp z "4.prems"(1) sc(1) "4.prems"(5) l1]
  have w: "wft sh ct c" "full sh ct c" "keysOk ct (entriesT ct c)" "length (entriesT ct c) = tsize c" "afterKey ct last0 (entriesT ct c)"
    "l1 = lastKey last0 (entriesT ct c)" by auto
  have ne: "entriesT ct c \<noteq> []" by (rule wft_entries [OF "4.prems"(1) w(1,2)])
  have ll: "liveLast ct l1" using w(3,6) ne by (auto simp: liveLast_def lastKey_def keysOk_def)
  have ii: "i + 1 + length cs = length seps" using "4.prems"(3) by simp
  note s = "4.IH"(2) [OF h i cmp z l1 refl "4.prems"(1) sc(2) ii "4.prems"(4) ll rest]
  have fk: "liveKey (keyTy ct) (firstKey c)" using firstKey_spec [OF "4.prems"(1) w(1) ne w(3)] by blast
  have c0: "cmpT ct (seps ! i) (firstKey c) = 0" using cmp compareKeys_live(1) [OF ls fk] by simp
  have after: "afterKey ct (lastKey last0 (entriesT ct c)) (levelEntries ct cs)" using s w(6) by simp
  have lt: "cmpT ct (fst x) (fst y) < 0" if "x \<in> set (entriesT ct c)" "y \<in> set (levelEntries ct cs)" for x y
    using lastKey_before [OF w(3) after that] .
  have "keysOk ct (levelEntries ct (c # cs))" using w(3) s lt by (auto simp: keysOk_append)
  moreover have "afterKey ct last0 (levelEntries ct (c # cs))"
    using afterKey_join [OF w(5) ne, of "levelEntries ct cs"] lt by simp
  ultimately show ?case using h w s c0 ls dr by (auto simp: lastKey_append)
qed


lemma storage_valid:
  "shape_ok sh \<Longrightarrow> wft sh ct t \<Longrightarrow> keysOk ct (entriesT ct t) \<Longrightarrow> length (entriesT ct t) < 2 ^ 32 \<Longrightarrow> storageOk ct t"
proof (induction t)
  case (Leaf ks vs)
  then have v: "valuesOk ct ks vs" by simp
  then have "set ks = fst ` set (leafEntries ct ks vs)" using keys_leafEntries by (metis set_map)
  then show ?case using Leaf.prems v length_leafEntries [OF v] by (auto simp: keysOk_def)
next
  case (Branch n h seps cs)
  have "storageOk ct c" if m: "c \<in> set cs" for c
  proof -
    obtain i where i: "i < length cs" "c = cs ! i" using m by (auto simp: in_set_conv_nth)
    have ok: "keysOk ct (concat (map (entriesT ct) cs))" using Branch.prems(3) by simp
    show ?thesis
      using Branch.IH [OF m Branch.prems(1)] Branch.prems(2,4) m keysOk_child [OF ok i(1)]
        length_child_le [OF i(1), of "entriesT ct"] i(2) by simp
  qed
  moreover have "length cs < 2 ^ 16" using Branch.prems(2) shape_okD(3) [OF Branch.prems(1)] by simp
  moreover have "length seps = length cs" "\<forall>s \<in> set seps. liveKey (keyTy ct) s"
    using seps_spec(1,3) [OF Branch.prems(1,2)] Branch.prems(3) by auto
  ultimately show ?case using Branch.prems(2,4) by simp
qed

lemma validate_iff:
  assumes "shape_ok sh"
  shows "storageOk ct t \<and> validateT sh ct t = Some None \<longleftrightarrow> validT sh ct t"
proof
  assume a: "storageOk ct t \<and> validateT sh ct t = Some None"
  then obtain l where l: "check sh ct True t None = Some (Inr l)"
    by (cases "check sh ct True t None"; cases "the (check sh ct True t None)") (auto simp: validateT_def)
  note c = check_sound(1) [OF assms conjunct1 [OF a] _ l]
  have "tsize t < 2 ^ 32" using a by (cases t) auto
  then show "validT sh ct t" using c by (auto simp: validT_def liveLast_def)
next
  assume v: "validT sh ct t"
  then have "check sh ct True t None = Some (Inr (lastKey None (entriesT ct t)))"
    using check_ok(1) [OF assms, of ct t True None] by (auto simp: validT_def afterKey_def)
  then show "storageOk ct t \<and> validateT sh ct t = Some None"
    using storage_valid [OF assms] v by (auto simp: validateT_def validT_def)
qed

section \<open>The shape of a process\<close>

lemma configure_ok:
  assumes "\<forall>n. reqLeaf req = Some n \<longrightarrow> n \<le> sizeMax"
  shows "shape_ok (configure req)"
  using assms by (auto simp: configure_def Let_def shape_ok_def collNumber_def sizeMax_def kMaxFanout_def
      kDefaultLeafCapacity_def kDefaultFanout_def split: option.splits)

section \<open>Sizes\<close>

lemma length_insert_find:
  "ascending (cmpT ct) (map fst es) \<Longrightarrow>
   length (insertEntry (cmpT ct) k v es) = length es + (if findEntry (cmpT ct) k es = None then 1 else 0)"
proof (induction es)
  case (Cons e es)
  have "findEntry (cmpT ct) k es = None" if "0 < cmpT ct (fst e) k"
  proof -
    have "cmpT ct k (fst e) < 0" using that key.cmp_pos by blast
    then have "\<forall>f \<in> set es. cmpT ct k (fst f) < 0" using Cons.prems key.cmp_less_trans by auto
    then show ?thesis by (rule key.find_none_before)
  qed
  then show ?case using Cons by auto
qed simp

lemma length_delete_find:
  "ascending (cmpT ct) (map fst es) \<Longrightarrow>
   length (deleteEntry (cmpT ct) k es) = length es - (if findEntry (cmpT ct) k es = None then 0 else 1)"
proof (induction es)
  case (Cons e es)
  show ?case
  proof (cases "cmpT ct (fst e) k = 0")
    case True
    have "findEntry (cmpT ct) (fst e) es = None" by (rule key.find_none_before) (use Cons.prems in auto)
    then have "findEntry (cmpT ct) k es = None" using key.findEntry_cong [OF True, of es] by simp
    then show ?thesis using Cons True by (simp add: deleteEntry_def)
  next
    case False
    have "es \<noteq> []" if "findEntry (cmpT ct) k es \<noteq> None" using that by auto
    then show ?thesis using Cons False by (auto simp: deleteEntry_def Suc_diff_le split: if_splits)
  qed
qed (simp add: deleteEntry_def)

end
