(* ===== verification/Collection_Properties.thy ===== *)
theory Collection_Properties
  imports Collection_Validate
begin

text \<open>
  The properties of \<open>Map\<close> and \<open>Set\<close>. The locale \<open>updatable_map\<close> is the contract a client relies
  on; its interpretation on \<open>put\<close>, \<open>remove\<close> and \<open>lookup\<close> discharges the laws.
\<close>

text \<open>Updates of a map, and their effect on the map it stands for.\<close>

datatype Update = Put slot slot | Remove slot

fun applyUpdate :: "Shape \<Rightarrow> CollType \<Rightarrow> Update \<Rightarrow> table \<Rightarrow> table option" where
  "applyUpdate sh ct (Put k v) t = put sh ct t k v"
| "applyUpdate sh ct (Remove k) t = removeT sh ct t k"

fun applyUpdates :: "Shape \<Rightarrow> CollType \<Rightarrow> Update list \<Rightarrow> table \<Rightarrow> table option" where
  "applyUpdates sh ct [] t = Some t"
| "applyUpdates sh ct (u # us) t = do { r \<leftarrow> applyUpdate sh ct u t; applyUpdates sh ct us r }"

fun updateKey :: "Update \<Rightarrow> slot" where
  "updateKey (Put k v) = k"
| "updateKey (Remove k) = k"

fun updateMap :: "CollType \<Rightarrow> Update \<Rightarrow> (slot \<Rightarrow> slot option) \<Rightarrow> slot \<Rightarrow> slot option" where
  "updateMap ct (Put k v) m k' = (if cmpT ct k k' = 0 then Some v else m k')"
| "updateMap ct (Remove k) m k' = (if cmpT ct k k' = 0 then None else m k')"

text \<open>Small collections for the examples.\<close>

definition smallShape :: Shape where
  "smallShape = \<lparr>leafCap = 2, fanout = 4, padded = True, validateOn = True\<rparr>"

definition intMap :: CollType where "intMap = \<lparr>isMap = True, keyTy = KInt64\<rparr>"
definition intSet :: CollType where "intSet = \<lparr>isMap = False, keyTy = KInt64\<rparr>"

definition mapTree :: table where
  "mapTree = Branch 3 1 [Bits 1, Bits 3] [Leaf [Bits 1, Bits 2] [Bits 10, Bits 20], Leaf [Bits 3] [Bits 30]]"

definition setLeaf :: "64 word list \<Rightarrow> table" where
  "setLeaf ws = Leaf (map Bits ws) []"

section \<open>The contract of an updatable map\<close>

locale updatable_map =
  fixes ok :: "'t \<Rightarrow> bool" and okKey :: "'k \<Rightarrow> bool" and same :: "'k \<Rightarrow> 'k \<Rightarrow> bool"
    and contents :: "'t \<Rightarrow> 'k \<Rightarrow> 'v option" and count :: "'t \<Rightarrow> nat" and limit :: nat
    and putOp :: "'t \<Rightarrow> 'k \<Rightarrow> 'v \<Rightarrow> 't option" and removeOp :: "'t \<Rightarrow> 'k \<Rightarrow> 't option"
    and getOp :: "'t \<Rightarrow> 'k \<Rightarrow> 'v option option"
  assumes put_law: "ok t \<Longrightarrow> okKey k \<Longrightarrow> count t + 1 < limit \<Longrightarrow>
      \<exists>r. putOp t k v = Some r \<and> ok r \<and> count r = count t + (if contents t k = None then 1 else 0) \<and>
        (\<forall>k'. contents r k' = (if same k k' then Some v else contents t k'))"
    and remove_law: "ok t \<Longrightarrow> okKey k \<Longrightarrow>
      \<exists>r. removeOp t k = Some r \<and> ok r \<and> count r = count t - (if contents t k = None then 0 else 1) \<and>
        (\<forall>k'. contents r k' = (if same k k' then None else contents t k'))"
    and get_law: "ok t \<Longrightarrow> okKey k \<Longrightarrow> getOp t k = Some (contents t k)"
    and same_refl: "same k k"
begin

lemma put_get:
  assumes "ok t" "okKey k" "okKey k'" "count t + 1 < limit"
  shows "\<exists>r. putOp t k v = Some r \<and> getOp r k' = (if same k k' then Some (Some v) else getOp t k')"
  using put_law [OF assms(1,2,4), of v] get_law assms by auto

lemma remove_get:
  assumes "ok t" "okKey k" "okKey k'"
  shows "\<exists>r. removeOp t k = Some r \<and> getOp r k' = (if same k k' then Some None else getOp t k')"
  using remove_law [OF assms(1,2)] get_law assms by auto

lemma remove_put_count:
  assumes "ok t" "okKey k" "count t + 1 < limit" "contents t k = None"
  shows "\<exists>r s. putOp t k v = Some r \<and> removeOp r k = Some s \<and> count s = count t \<and> ok s"
proof -
  obtain r where r: "putOp t k v = Some r" "ok r" "count r = count t + 1" "contents r k = Some v"
    using put_law [OF assms(1-3), of v] assms(4) same_refl by auto
  then show ?thesis using remove_law [OF r(2) assms(2)] by auto
qed

end

lemma insertT_law:
  assumes "shape_ok sh" "validT sh ct t" "liveKey (keyTy ct) k" "isMap ct \<or> v = NullSlot" "tsize t + 1 < 2 ^ 32"
  shows "\<exists>r. insertT sh ct t k v = Some r \<and> checked sh ct r = Some r \<and> validT sh ct r \<and>
    tsize r = tsize t + (if tmap ct t k = None then 1 else 0) \<and>
    (\<forall>k'. tmap ct r k' = (if cmpT ct k k' = 0 then Some v else tmap ct t k'))"
proof -
  note vt = validTD [OF assms(2)]
  obtain r where r: "insertT sh ct t k v = Some r" "validT sh ct r" "entriesT ct r = insertEntry (cmpT ct) k v (entriesT ct t)"
    using insertT_spec [OF assms(1-4)] assms(5) vt(7) by auto
  show ?thesis using r validTD(7) [OF r(2)] vt(7) checked_valid [OF assms(1) r(2)] length_insert_find [OF vt(5)]
    key.findEntry_insert [OF vt(5)] by (auto simp: tmap_def)
qed

lemma removeT_law:
  assumes "shape_ok sh" "validT sh ct t" "liveKey (keyTy ct) k"
  shows "\<exists>r. removeT sh ct t k = Some r \<and> validT sh ct r \<and>
    tsize r = tsize t - (if tmap ct t k = None then 0 else 1) \<and>
    (\<forall>k'. tmap ct r k' = (if cmpT ct k k' = 0 then None else tmap ct t k'))"
proof -
  note vt = validTD [OF assms(2)]
  obtain r where r: "removeKey sh ct t k = Some r" "validT sh ct r" "entriesT ct r = deleteEntry (cmpT ct) k (entriesT ct t)"
    using removeKey_spec [OF assms(1-3)] by auto
  show ?thesis using r validTD(7) [OF r(2)] vt(7) checked_valid [OF assms(1) r(2)] length_delete_find [OF vt(5)]
    by (auto simp: tmap_def removeT_def key.findEntry_delete)
qed

interpretation cm: updatable_map "\<lambda>t. shape_ok sh \<and> isMap ct \<and> validT sh ct t" "liveKey (keyTy ct)"
  "\<lambda>k k'. cmpT ct k k' = 0" "tmap ct" tsize "2 ^ 32" "put sh ct" "removeT sh ct" "\<lambda>t k. lookup t k (keyTy ct)" for sh ct
proof
  fix t k v
  show "shape_ok sh \<and> isMap ct \<and> validT sh ct t \<Longrightarrow> liveKey (keyTy ct) k \<Longrightarrow> tsize t + 1 < 2 ^ 32 \<Longrightarrow>
      \<exists>r. put sh ct t k v = Some r \<and> (shape_ok sh \<and> isMap ct \<and> validT sh ct r) \<and>
        tsize r = tsize t + (if tmap ct t k = None then 1 else 0) \<and>
        (\<forall>k'. tmap ct r k' = (if cmpT ct k k' = 0 then Some v else tmap ct t k'))"
    using insertT_law [of sh ct t k v] by (auto simp: put_def)
  show "shape_ok sh \<and> isMap ct \<and> validT sh ct t \<Longrightarrow> liveKey (keyTy ct) k \<Longrightarrow>
      \<exists>r. removeT sh ct t k = Some r \<and> (shape_ok sh \<and> isMap ct \<and> validT sh ct r) \<and>
        tsize r = tsize t - (if tmap ct t k = None then 0 else 1) \<and>
        (\<forall>k'. tmap ct r k' = (if cmpT ct k k' = 0 then None else tmap ct t k'))"
    using removeT_law [of sh ct t k] by auto
  show "shape_ok sh \<and> isMap ct \<and> validT sh ct t \<Longrightarrow> liveKey (keyTy ct) k \<Longrightarrow> lookup t k (keyTy ct) = Some (tmap ct t k)"
    using lookup_spec(2) by blast
  show "cmpT ct k k = 0" by (rule key.cmp_refl)
qed

lemma applyUpdate_law:
  assumes "shape_ok sh" "isMap ct" "validT sh ct t" "liveKey (keyTy ct) (updateKey u)" "tsize t + 1 < 2 ^ 32"
  shows "\<exists>r. applyUpdate sh ct u t = Some r \<and> validT sh ct r \<and> tsize r \<le> tsize t + 1 \<and> tmap ct r = updateMap ct u (tmap ct t)"
proof (cases u)
  case (Put k v)
  then show ?thesis using cm.put_law [of sh ct t k v] assms by (auto simp: fun_eq_iff)
next
  case (Remove k)
  then show ?thesis using cm.remove_law [of sh ct t k] assms by (auto simp: fun_eq_iff)
qed

lemma small_valid:
  "shape_ok smallShape" "validT smallShape intMap mapTree" "validT smallShape intSet (setLeaf [1, 2, 5])"
  "validT smallShape intSet (setLeaf [2, 3])"
  by (simp_all add: smallShape_def shape_ok_def sizeMax_def kMaxFanout_def intMap_def intSet_def mapTree_def setLeaf_def
      validT_def valuesOk_def leafCapacity_def leafEntries_def keysOk_def firstKey_def three_def DeadSlot_def)

lemma small_types [simp]: "isMap intMap" "\<not> isMap intSet" "keyTy intMap = KInt64" "keyTy intSet = KInt64"
  by (simp_all add: intMap_def intSet_def)

lemma int_live [simp]: "liveKey KInt64 (Bits w) \<longleftrightarrow> w \<noteq> DeadSlot"
  by simp

section \<open>Properties\<close>

text \<open>C1. \<open>put\<close>: on a valid map with room for one more entry, \<open>put\<close> returns a valid map, whose
  size grows by one exactly when the key was absent, and which maps keys equal to \<open>k\<close> to \<open>v\<close>
  and every other key as before.\<close>

theorem put_correct:
  assumes "shape_ok sh" "isMap ct" "validT sh ct t" "liveKey (keyTy ct) k" "tsize t + 1 < 2 ^ 32"
  shows "\<exists>r. put sh ct t k v = Some r \<and> validT sh ct r \<and> tsize r = tsize t + (if tmap ct t k = None then 1 else 0) \<and>
    (\<forall>k'. tmap ct r k' = (if cmpT ct k k' = 0 then Some v else tmap ct t k'))"
  using cm.put_law [of sh ct t k v] assms by auto

theorem put_correct_witness:
  "\<exists>r. put smallShape intMap mapTree (Bits 4) (Bits 40) = Some r \<and> validT smallShape intMap r \<and> tsize r = 4 \<and>
    tmap intMap r (Bits 4) = Some (Bits 40) \<and> tmap intMap r (Bits 2) = Some (Bits 20)"
proof -
  have "tmap intMap mapTree (Bits 4) = None" "tmap intMap mapTree (Bits 2) = Some (Bits 20)" "tsize mapTree = 3"
    by (simp_all add: tmap_def mapTree_def leafEntries_def three_def)
  then show ?thesis
    using put_correct [of smallShape intMap mapTree "Bits 4" "Bits 40"] small_valid
    by (force simp: DeadSlot_def three_def)
qed

text \<open>C5. \<open>remove\<close>: on a valid collection it returns a valid collection without the key, every
  other key as before; the size shrinks by one exactly when the key was present.\<close>

theorem remove_correct:
  assumes "shape_ok sh" "validT sh ct t" "liveKey (keyTy ct) k"
  shows "\<exists>r. removeT sh ct t k = Some r \<and> validT sh ct r \<and> tsize r = tsize t - (if tmap ct t k = None then 0 else 1) \<and>
    (\<forall>k'. tmap ct r k' = (if cmpT ct k k' = 0 then None else tmap ct t k'))"
  by (rule removeT_law [OF assms])

theorem remove_correct_witness:
  "\<exists>r. removeT smallShape intMap mapTree (Bits 3) = Some r \<and> validT smallShape intMap r \<and> tsize r = 2 \<and>
    tmap intMap r (Bits 3) = None \<and> tmap intMap r (Bits 2) = Some (Bits 20)"
proof -
  have "tmap intMap mapTree (Bits 3) = Some (Bits 30)" "tmap intMap mapTree (Bits 2) = Some (Bits 20)" "tsize mapTree = 3"
    by (simp_all add: tmap_def mapTree_def leafEntries_def three_def)
  then show ?thesis
    using remove_correct [of smallShape intMap mapTree "Bits 3"] small_valid by (force simp: DeadSlot_def three_def)
qed

text \<open>\<open>add\<close> on a set: the result is valid and holds the element and the old elements.\<close>

theorem add_correct:
  assumes "shape_ok sh" "\<not> isMap ct" "validT sh ct t" "liveKey (keyTy ct) k" "tsize t + 1 < 2 ^ 32"
  shows "\<exists>r. addT sh ct t k = Some r \<and> validT sh ct r \<and> tsize r = tsize t + (if tmap ct t k = None then 1 else 0) \<and>
    (\<forall>k'. tmap ct r k' \<noteq> None \<longleftrightarrow> cmpT ct k k' = 0 \<or> tmap ct t k' \<noteq> None)"
  using insertT_law [OF assms(1,3,4) _ assms(5), of NullSlot] by (auto simp: addT_def)

theorem add_correct_witness:
  "\<exists>r. addT smallShape intSet (setLeaf [1, 2, 5]) (Bits 4) = Some r \<and> validT smallShape intSet r \<and> tsize r = 4 \<and>
    tmap intSet r (Bits 4) \<noteq> None \<and> tmap intSet r (Bits 5) \<noteq> None"
proof -
  have "tmap intSet (setLeaf [1, 2, 5]) (Bits 4) = None" "tmap intSet (setLeaf [1, 2, 5]) (Bits 5) \<noteq> None" "tsize (setLeaf [1, 2, 5]) = 3"
    by (simp_all add: tmap_def setLeaf_def leafEntries_def three_def)
  then show ?thesis
    using add_correct [of smallShape intSet "setLeaf [1, 2, 5]" "Bits 4"] small_valid by (force simp: DeadSlot_def three_def)
qed

text \<open>C9. Any sequence of \<open>put\<close> and \<open>remove\<close> on a map that has room for it succeeds, keeps the
  invariant, and has on the represented map the effect of the abstract updates in that order.\<close>

theorem updates_refine:
  assumes "shape_ok sh" "isMap ct" "validT sh ct t" "\<forall>u \<in> set us. liveKey (keyTy ct) (updateKey u)"
    "tsize t + length us < 2 ^ 32"
  shows "\<exists>r. applyUpdates sh ct us t = Some r \<and> validT sh ct r \<and> tmap ct r = fold (updateMap ct) us (tmap ct t)"
  using assms(3-)
proof (induction us arbitrary: t)
  case (Cons u us)
  obtain s where s: "applyUpdate sh ct u t = Some s" "validT sh ct s" "tsize s \<le> tsize t + 1" "tmap ct s = updateMap ct u (tmap ct t)"
    using applyUpdate_law [OF assms(1,2) Cons.prems(1), of u] Cons.prems by auto
  have "tsize s + length us < 2 ^ 32" using Cons.prems(3) s(3) by simp
  then show ?case using Cons.IH [OF s(2)] Cons.prems(2) s by auto
qed simp

theorem updates_refine_witness:
  "\<exists>r. applyUpdates smallShape intMap [Put (Bits 4) (Bits 40), Remove (Bits 1)] mapTree = Some r \<and>
    validT smallShape intMap r \<and> tmap intMap r (Bits 1) = None \<and> tmap intMap r (Bits 4) = Some (Bits 40)"
proof -
  have "tsize mapTree = 3" by (simp add: mapTree_def)
  then show ?thesis
    using updates_refine [of smallShape intMap mapTree "[Put (Bits 4) (Bits 40), Remove (Bits 1)]"] small_valid
    by (force simp: DeadSlot_def three_def)
qed

text \<open>C35. \<open>has\<close> and \<open>lookup\<close> descend to the one leaf that can hold the key and answer what the
  entries of the whole collection say; no slot guard stops them on a well-formed key.\<close>

theorem lookup_correct:
  assumes "shape_ok sh" "validT sh ct t" "liveKey (keyTy ct) k"
  shows "has t k (keyTy ct) = Some (\<exists>e \<in> set (entriesT ct t). cmpT ct (fst e) k = 0) \<and>
    (isMap ct \<longrightarrow> lookup t k (keyTy ct) = Some (findEntry (cmpT ct) k (entriesT ct t)))"
proof -
  have "findEntry (cmpT ct) k (entriesT ct t) \<noteq> None \<longleftrightarrow> (\<exists>e \<in> set (entriesT ct t). cmpT ct (fst e) k = 0)"
    unfolding findEntry_None_iff by blast
  then show ?thesis using lookup_spec [OF assms] by (simp add: tmap_def)
qed

theorem lookup_correct_witness:
  "has mapTree (Bits 3) KInt64 = Some True \<and> lookup mapTree (Bits 3) KInt64 = Some (Some (Bits 30))"
  using lookup_correct [of smallShape intMap mapTree "Bits 3"] small_valid
  by (simp add: DeadSlot_def mapTree_def leafEntries_def three_def)

text \<open>C11. \<open>merge\<close>, through whichever of its five routes, returns a valid map in which the entries
  of the second operand win.\<close>

theorem merge_correct:
  assumes "shape_ok sh" "validT sh ct a" "validT sh ct b" "tsize a + tsize b < 2 ^ 32"
  shows "\<exists>r. merge sh ct a b = Some r \<and> validT sh ct r \<and>
    (\<forall>k. tmap ct r k = (case tmap ct b k of Some v \<Rightarrow> Some v | None \<Rightarrow> tmap ct a k))"
  using merge_spec [OF assms(1-3)] assms(4) validTD(7) [OF assms(2)] validTD(7) [OF assms(3)] by (simp add: overlay_def)

theorem merge_correct_witness:
  "\<exists>r. merge smallShape intMap mapTree mapTree = Some r \<and> validT smallShape intMap r \<and> tmap intMap r (Bits 3) = Some (Bits 30)"
proof -
  have "tmap intMap mapTree (Bits 3) = Some (Bits 30)" "tsize mapTree = 3"
    by (simp_all add: tmap_def mapTree_def leafEntries_def three_def)
  then show ?thesis using merge_correct [of smallShape intMap mapTree mapTree] small_valid by force
qed

text \<open>\<open>intersect\<close> and \<open>difference\<close> of sets return valid sets with exactly the elements of both
  operands, and of the first without the second, whichever route the sizes select.\<close>

theorem intersect_difference_correct:
  assumes "shape_ok sh" "\<not> isMap ct" "validT sh ct a" "validT sh ct b"
  shows "(\<exists>r. intersect sh ct a b = Some r \<and> validT sh ct r \<and>
      (\<forall>k. tmap ct r k \<noteq> None \<longleftrightarrow> tmap ct a k \<noteq> None \<and> tmap ct b k \<noteq> None)) \<and>
    (\<exists>r. difference sh ct a b = Some r \<and> validT sh ct r \<and>
      (\<forall>k. tmap ct r k \<noteq> None \<longleftrightarrow> tmap ct a k \<noteq> None \<and> tmap ct b k = None))"
  using intersect_spec [OF assms] difference_spec [OF assms] by blast

theorem intersect_difference_correct_witness:
  "(\<exists>r. intersect smallShape intSet (setLeaf [1, 2, 5]) (setLeaf [2, 3]) = Some r \<and> tmap intSet r (Bits 2) \<noteq> None \<and> tmap intSet r (Bits 3) = None) \<and>
   (\<exists>r. difference smallShape intSet (setLeaf [1, 2, 5]) (setLeaf [2, 3]) = Some r \<and> tmap intSet r (Bits 2) = None \<and> tmap intSet r (Bits 5) \<noteq> None)"
proof -
  have "tmap intSet (setLeaf [1, 2, 5]) (Bits 2) \<noteq> None" "tmap intSet (setLeaf [2, 3]) (Bits 2) \<noteq> None"
    "tmap intSet (setLeaf [1, 2, 5]) (Bits 3) = None" "tmap intSet (setLeaf [1, 2, 5]) (Bits 5) \<noteq> None" "tmap intSet (setLeaf [2, 3]) (Bits 5) = None"
    by (simp_all add: tmap_def setLeaf_def leafEntries_def three_def)
  then show ?thesis using intersect_difference_correct [OF small_valid(1) small_types(2) small_valid(3,4)] by metis
qed

text \<open>\<open>isSubset\<close> decides inclusion of keys; the early answer on sizes is never wrong.\<close>

theorem isSubset_correct:
  assumes "shape_ok sh" "validT sh ct a" "validT sh ct b"
  shows "isSubset ct a b = Some (\<forall>k. tmap ct a k \<noteq> None \<longrightarrow> tmap ct b k \<noteq> None)"
  by (rule isSubset_spec [OF assms])

theorem isSubset_correct_witness:
  "isSubset intMap mapTree mapTree = Some True \<and> isSubset intSet (setLeaf [2, 3]) (setLeaf [1, 2, 5]) = Some False"
proof -
  have "tmap intSet (setLeaf [2, 3]) (Bits 3) \<noteq> None" "tmap intSet (setLeaf [1, 2, 5]) (Bits 3) = None"
    by (simp_all add: tmap_def setLeaf_def leafEntries_def three_def)
  then show ?thesis using isSubset_correct [OF small_valid(1,2,2)] isSubset_correct [OF small_valid(1,4,3)] by auto
qed

text \<open>\<open>equals\<close> compares two different collections in key order, and answers whether they stand for the
  same map up to the equality of values, although their trees may be cut differently. A collection
  is equal to itself without a comparison, also where a value is not equal to itself.\<close>

theorem equals_correct:
  assumes "shape_ok sh" "validT sh ct a" "validT sh ct b"
  shows "equalsT ct (\<lambda>v w. Some (valEq v w)) False a b =
    Some (\<forall>k. rel_option (\<lambda>v w. isMap ct \<longrightarrow> valEq v w) (tmap ct a k) (tmap ct b k))"
  using equalsT_spec [OF assms] same_maps_iff [OF validTD(5) [OF assms(2)] validTD(5) [OF assms(3)]]
  by (simp add: tmap_def)

theorem equals_correct_witness: "equalsT intMap (\<lambda>v w. Some (v = w)) False mapTree mapTree = Some True"
  using equals_correct [OF small_valid(1,2,2), of "(=)"] by (simp add: option.rel_refl)

text \<open>C23. Building from an array of entries, sorted or not, with repeated keys or not: the result
  is valid and the last entry given for a key is the one kept.\<close>

theorem fromArray_correct:
  assumes "shape_ok sh" "\<forall>e \<in> set es. liveKey (keyTy ct) (fst e)" "isMap ct \<or> (\<forall>e \<in> set es. snd e = NullSlot)" "length es < 2 ^ 32"
  shows "\<exists>t. fromArray sh ct es = Some t \<and> validT sh ct t \<and> (\<forall>k. tmap ct t k = findEntry (cmpT ct) k (rev es))"
  by (rule fromArray_spec [OF assms])

theorem fromArray_correct_witness:
  "\<exists>t. fromArray smallShape intMap [(Bits 5, Bits 50), (Bits 1, Bits 10), (Bits 5, Bits 51)] = Some t \<and>
    validT smallShape intMap t \<and> tmap intMap t (Bits 5) = Some (Bits 51)"
  using fromArray_correct [of smallShape "[(Bits 5, Bits 50), (Bits 1, Bits 10), (Bits 5, Bits 51)]" intMap] small_valid
  by (force simp: DeadSlot_def three_def)

text \<open>C14. \<open>validate\<close> accepts exactly the trees that satisfy the invariant the operations keep.\<close>

theorem validate_correct:
  assumes "shape_ok sh"
  shows "storageOk ct t \<and> validateT sh ct t = Some None \<longleftrightarrow> validT sh ct t"
  by (rule validate_iff [OF assms])

theorem validate_correct_witness: "validateT smallShape intMap mapTree = Some None"
  using validate_correct [OF small_valid(1), of intMap mapTree] small_valid(2) by blast

text \<open>\<open>keys\<close>, \<open>values\<close>, \<open>items\<close> and \<open>forEachEntry\<close> fill their arrays exactly, in key order.\<close>

theorem arrays_correct:
  assumes "validT sh ct t"
  shows "keysT t = Some (map fst (entriesT ct t)) \<and> forEachEntry ct t = entriesT ct t \<and>
    (isMap ct \<longrightarrow> valuesT t = Some (map snd (entriesT ct t)) \<and> itemsT t = Some (entriesT ct t))"
  using arrays_spec [OF assms] by blast

theorem arrays_correct_witness: "keysT mapTree = Some [Bits 1, Bits 2, Bits 3]"
  using arrays_correct [OF small_valid(2)] by (simp add: mapTree_def leafEntries_def)

text \<open>C34. A valid tree is at most 32 levels high, below the fixed depth of a cursor's path, so a
  cursor visits every entry, in key order, and no step overflows the path.\<close>

theorem cursor_correct:
  assumes "shape_ok sh" "validT sh ct t"
  shows "theight t \<le> 32 \<and> 32 < kMaxHeight \<and> (\<exists>c. Cursor_init t = Some c \<and> drain ct c [] = Some (entriesT ct t))"
proof -
  obtain c where "Cursor_init t = Some c" "cursorOk sh ct c" "cursorRest ct c = entriesT ct t" using cursor_valid [OF assms] .
  then show ?thesis using drain_spec [of sh ct c "entriesT ct t" "[]"] theight_bound [OF assms(1) validTD(1,4) [OF assms(2)]]
    by (simp add: kMaxHeight_def)
qed

theorem cursor_correct_witness:
  "\<exists>c. Cursor_init mapTree = Some c \<and> drain intMap c [] = Some [(Bits 1, Bits 10), (Bits 2, Bits 20), (Bits 3, Bits 30)]"
  using cursor_correct [OF small_valid(1,2)] by (simp add: mapTree_def leafEntries_def)

text \<open>C37. The comparison of keys is a total preorder on well-formed keys of any key type, tuples and
  enum values included: it never stops, is antisymmetric in sign and transitive.\<close>

theorem compareKeys_order:
  assumes "liveKey kt a" "liveKey kt b" "liveKey kt c"
  shows "\<exists>x y z. compareKeys a b kt = Some x \<and> compareKeys b a kt = Some (- x) \<and> compareKeys b c kt = Some y \<and>
    compareKeys a c kt = Some z \<and> (x \<le> 0 \<and> y \<le> 0 \<longrightarrow> z \<le> 0) \<and> (x = 0 \<and> y = 0 \<longrightarrow> z = 0)"
  using assms compareKeys_live(1) key.cmp_sym [of kt a b] key.cmp_le_trans [of kt a b c] key.cmp_eq_left [of kt a b c] by auto

theorem compareKeys_order_witness:
  "\<exists>x. compareKeys (TupleObj [Bits 1, StrObj [97]]) (TupleObj [Bits 1, StrObj [98]]) (KTuple [KInt64, KString]) = Some x"
  using compareKeys_order [of "KTuple [KInt64, KString]" "TupleObj [Bits 1, StrObj [97]]" "TupleObj [Bits 1, StrObj [98]]"
      "TupleObj [Bits 1, StrObj [98]]"] by (auto simp: DeadSlot_def)

text \<open>The shape of a process: every request gives a shape the operations accept, and once it is
  read, later requests are refused and every read returns it.\<close>

theorem shape_fixed:
  assumes "\<forall>n. reqLeaf (requestedShape st) = Some n \<longrightarrow> n \<le> sizeMax" "configured st = None"
  shows "case readShape st of (sh, st') \<Rightarrow> shape_ok sh \<and> selectShape req st' = (False, st') \<and> readShape st' = (sh, st')"
  using assms configure_ok [OF assms(1)] by (simp add: readShape_def selectShape_def Let_def)

theorem shape_fixed_witness:
  "case readShape \<lparr>requestedShape = \<lparr>reqLeaf = Some 0, reqFanout = Some 1000, reqPadded = None, reqValidate = None\<rparr>,
     shapeSelected = True, configured = None\<rparr> of
     (sh, st') \<Rightarrow> shape_ok sh \<and> fanout sh = 256 \<and> fst (selectShape \<lparr>reqLeaf = Some 8, reqFanout = None, reqPadded = None, reqValidate = None\<rparr> st') = False"
  using shape_fixed [of "\<lparr>requestedShape = \<lparr>reqLeaf = Some 0, reqFanout = Some 1000, reqPadded = None, reqValidate = None\<rparr>,
     shapeSelected = True, configured = None\<rparr>" "\<lparr>reqLeaf = Some 8, reqFanout = None, reqPadded = None, reqValidate = None\<rparr>"]
  by (simp add: sizeMax_def readShape_def configure_def collNumber_def kMaxFanout_def Let_def split: prod.splits)

text \<open>The integer whose bits are those of \<open>DeadSlot\<close> is no key: asking a leaf with entries for it
  stops the process, although it is a value of the key type.\<close>

theorem dead_key_stops:
  assumes "ks \<noteq> []" "length ks < 2 ^ 32"
  shows "has (Leaf ks vs) (Bits DeadSlot) KInt64 = None"
proof -
  have "compareKeys x (Bits DeadSlot) KInt64 = None" for x
    by (simp add: fromSlotInt64_def fromSlotBits_def split: option.splits)
  then show ?thesis using assms by (simp add: has_def findInLeaf_def lowerBound_def lowerBoundLoop.simps)
qed

theorem dead_key_stops_witness: "has (Leaf [Bits 7, Bits 9] []) (Bits DeadSlot) KInt64 = None"
  using dead_key_stops [of "[Bits 7, Bits 9]" "[]"] by simp

end
