(* ===== verification/Index_Outcome.thy ===== *)
theory Index_Outcome
  imports Prelude
begin

text \<open>
  What a call of the index semantics does (a value, an exception, an index the code does not check,
  or not returning), the loops over it, and the checked 64-bit arithmetic of
  \<open>src/core/index_semantics.cpp\<close>.
\<close>

datatype SemError = InvalidArgument | OverflowError | OutOfRange

type_synonym 'a outcome = "(SemError + 'a) option"

definition returns :: "'a \<Rightarrow> 'a outcome" where
  "returns x = Some (Inr x)"

definition throws :: "SemError \<Rightarrow> 'a outcome" where
  "throws e = Some (Inl e)"

definition bindO :: "'a outcome \<Rightarrow> ('a \<Rightarrow> 'b outcome) \<Rightarrow> 'b outcome" where
  "bindO m f = (case m of None \<Rightarrow> None | Some (Inl e) \<Rightarrow> Some (Inl e) | Some (Inr x) \<Rightarrow> f x)"

text \<open>A loop that produces one element per element and stops at the first exception.\<close>

fun mapO :: "('a \<Rightarrow> 'b outcome) \<Rightarrow> 'a list \<Rightarrow> 'b list outcome" where
  "mapO f [] = returns []"
| "mapO f (x # xs) = bindO (f x) (\<lambda>y. bindO (mapO f xs) (\<lambda>ys. returns (y # ys)))"

definition checkedAdd :: "int \<Rightarrow> int \<Rightarrow> int outcome" where
  "checkedAdd a b = (if in_int64 (a + b) then returns (a + b) else throws OverflowError)"

definition checkedMul :: "int \<Rightarrow> int \<Rightarrow> int outcome" where
  "checkedMul a b = (if in_int64 (a * b) then returns (a * b) else throws OverflowError)"

definition floorDivide :: "int \<Rightarrow> int \<Rightarrow> int" where
  "floorDivide a b = (let q = a sdiv b in if a smod b \<noteq> 0 \<and> a < 0 then q - 1 else q)"

definition floorModulo :: "int \<Rightarrow> int \<Rightarrow> int" where
  "floorModulo a b = (let r = a smod b in if r < 0 then r + b else r)"

text \<open>The next check when there is no problem yet.\<close>

definition andThen :: "'e option outcome \<Rightarrow> 'e option outcome \<Rightarrow> 'e option outcome" where
  "andThen a b = bindO a (\<lambda>r. if r \<noteq> None then returns r else b)"

fun firstProblem :: "('a \<Rightarrow> 'e option outcome) \<Rightarrow> 'a list \<Rightarrow> 'e option outcome" where
  "firstProblem f [] = returns None"
| "firstProblem f (x # xs) = andThen (f x) (firstProblem f xs)"

definition problemIf :: "bool \<Rightarrow> 'e \<Rightarrow> 'e option outcome" where
  "problemIf b e = returns (if b then Some e else None)"

text \<open>A loop that threads a state.\<close>

fun mapS :: "('a \<Rightarrow> 's \<Rightarrow> ('b \<times> 's) outcome) \<Rightarrow> 'a list \<Rightarrow> 's \<Rightarrow> ('b list \<times> 's) outcome" where
  "mapS f [] s = returns ([], s)"
| "mapS f (x # xs) s =
     bindO (f x s) (\<lambda>y. bindO (mapS f xs (snd y)) (\<lambda>ys. returns (fst y # fst ys, snd ys)))"

section \<open>Outcomes\<close>

text \<open>
  What a call does: \<open>None\<close> is not returning; \<open>Inl\<close> is an exception (\<open>std::invalid_argument\<close>,
  \<open>std::overflow_error\<close>) or an index past the end of a vector or span, which the code does not check.
\<close>

section \<open>Checked arithmetic\<close>

lemma bindO_simps [simp]:
  "bindO (returns x) f = f x" "bindO (throws e) f = throws e" "bindO None f = None"
  by (simp_all add: bindO_def returns_def throws_def)

lemma outcome_simps [simp]:
  "returns x = returns y \<longleftrightarrow> x = y" "throws e = throws f \<longleftrightarrow> e = f" "returns x \<noteq> throws e" "throws e \<noteq> returns x"
  "returns x \<noteq> None" "throws e \<noteq> None" "None \<noteq> returns x" "None \<noteq> throws e"
  by (simp_all add: returns_def throws_def)

lemma bindO_mono [partial_function_mono]:
  fixes B :: "('x \<Rightarrow> 'y option) \<Rightarrow> 'a outcome" and C :: "'a \<Rightarrow> ('x \<Rightarrow> 'y option) \<Rightarrow> 'b outcome"
  assumes B: "mono_option B" and C: "\<And>y. mono_option (\<lambda>f. C y f)"
  shows "mono_option (\<lambda>f. bindO (B f) (\<lambda>y. C y f))"
proof -
  have "bindO m f = Option.bind m (case_sum (\<lambda>e. Some (Inl e)) f)" for m :: "'a outcome" and f :: "'a \<Rightarrow> 'b outcome"
    by (cases m) (auto simp: bindO_def split: sum.splits)
  moreover have "mono_option (\<lambda>f. Option.bind (B f) (\<lambda>r. case_sum (\<lambda>e. Some (Inl e)) (\<lambda>y. C y f) r))"
  proof (rule bind_mono [OF B])
    show "mono_option (\<lambda>f. case_sum (\<lambda>e. Some (Inl e)) (\<lambda>y. C y f) r)" for r
      by (cases r) (use C in \<open>auto intro: monotoneI simp: flat_ord_def\<close>)
  qed
  ultimately show ?thesis by simp
qed

lemma andThen_mono [partial_function_mono]:
  assumes "mono_option B" "mono_option C"
  shows "mono_option (\<lambda>f. andThen (B f) (C f))"
  unfolding andThen_def by (intro bindO_mono assms if_mono option.const_mono)

end
