(* ===== verification/Index_Expr.thy ===== *)
theory Index_Expr
  imports Index_Outcome
begin

text \<open>
  The expressions of an instance (\<open>ExprPool\<close>): interning, the simplifying builders, evaluation and
  affine forms, as \<open>src/core/index_semantics.cpp\<close> writes them.
\<close>

datatype ExprOp = Const | Dim | Param | Add | Mul | FloorDiv | Mod

record Expr =
  exprOp :: ExprOp
  exprValue :: int
  exprLhs :: nat
  exprRhs :: nat

definition kNoExpr :: nat where
  "kNoExpr = 2 ^ 32 - 1"

definition leafExpr :: "ExprOp \<Rightarrow> int \<Rightarrow> Expr" where
  "leafExpr c v = \<lparr>exprOp = c, exprValue = v, exprLhs = kNoExpr, exprRhs = kNoExpr\<rparr>"

definition binExpr :: "ExprOp \<Rightarrow> nat \<Rightarrow> nat \<Rightarrow> Expr" where
  "binExpr c l r = \<lparr>exprOp = c, exprValue = 0, exprLhs = l, exprRhs = r\<rparr>"

record ExprPool =
  poolExprs :: "Expr list"
  poolInterned :: "Expr \<Rightarrow> nat option"

definition emptyPool :: ExprPool where
  "emptyPool = \<lparr>poolExprs = [], poolInterned = (\<lambda>e. None)\<rparr>"

definition intern :: "ExprPool \<Rightarrow> Expr \<Rightarrow> nat \<times> ExprPool" where
  "intern p e =
     (case poolInterned p e of
        Some i \<Rightarrow> (i, p)
      | None \<Rightarrow> let i = u32 (length (poolExprs p))
                in (i, \<lparr>poolExprs = poolExprs p @ [e], poolInterned = (poolInterned p)(e \<mapsto> i)\<rparr>))"

definition constantE :: "ExprPool \<Rightarrow> int \<Rightarrow> nat \<times> ExprPool" where
  "constantE p v = intern p (leafExpr Const v)"

definition dimE :: "ExprPool \<Rightarrow> nat \<Rightarrow> nat \<times> ExprPool" where
  "dimE p position = intern p (leafExpr Dim (int position))"

definition paramE :: "ExprPool \<Rightarrow> nat \<Rightarrow> nat \<times> ExprPool" where
  "paramE p position = intern p (leafExpr Param (int position))"

definition exprAt :: "ExprPool \<Rightarrow> nat \<Rightarrow> Expr outcome" where
  "exprAt p i = (if i < length (poolExprs p) then returns (poolExprs p ! i) else throws OutOfRange)"

definition constantValue :: "ExprPool \<Rightarrow> nat \<Rightarrow> int option outcome" where
  "constantValue p i =
     bindO (exprAt p i) (\<lambda>e. returns (if exprOp e = Const then Some (exprValue e) else None))"

partial_function (option) addE :: "ExprPool \<Rightarrow> nat \<Rightarrow> nat \<Rightarrow> (nat \<times> ExprPool) outcome" where
  "addE p lhs rhs =
     bindO (constantValue p lhs) (\<lambda>a. bindO (constantValue p rhs) (\<lambda>b.
       if a \<noteq> None \<and> b \<noteq> None
       then bindO (checkedAdd (the a) (the b)) (\<lambda>s. returns (constantE p s))
       else if a = Some 0 then returns (rhs, p)
       else if b = Some 0 then returns (lhs, p)
       else let l = (if a \<noteq> None then rhs else lhs); r = (if a \<noteq> None then lhs else rhs)
            in bindO (constantValue p r) (\<lambda>c2. bindO (exprAt p l) (\<lambda>e.
                 if c2 \<noteq> None \<and> exprOp e = Add
                 then bindO (constantValue p (exprRhs e)) (\<lambda>c1.
                        if c1 \<noteq> None
                        then bindO (checkedAdd (the c1) (the c2)) (\<lambda>s.
                               let k = constantE p s in addE (snd k) (exprLhs e) (fst k))
                        else returns (intern p (binExpr Add l r)))
                 else returns (intern p (binExpr Add l r))))))"

partial_function (option) mulE :: "ExprPool \<Rightarrow> nat \<Rightarrow> nat \<Rightarrow> (nat \<times> ExprPool) outcome" where
  "mulE p factor e =
     bindO (exprAt p factor) (\<lambda>fe. bindO (exprAt p e) (\<lambda>ee.
       if exprOp fe \<noteq> Const \<and> exprOp fe \<noteq> Param
       then if exprOp ee = Const \<or> exprOp ee = Param then mulE p e factor else throws InvalidArgument
       else bindO (constantValue p factor) (\<lambda>c. bindO (constantValue p e) (\<lambda>v.
         if c \<noteq> None \<and> v \<noteq> None
         then bindO (checkedMul (the c) (the v)) (\<lambda>s. returns (constantE p s))
         else if c = Some 0 then returns (constantE p 0)
         else if c = Some 1 then returns (e, p)
         else if v = Some 0 then returns (constantE p 0)
         else if v \<noteq> None \<and> exprOp fe = Param then mulE p e factor
         else if c \<noteq> None \<and> exprOp ee = Mul
         then bindO (constantValue p (exprLhs ee)) (\<lambda>c2.
                if c2 \<noteq> None
                then bindO (checkedMul (the c) (the c2)) (\<lambda>s.
                       let k = constantE p s in mulE (snd k) (fst k) (exprRhs ee))
                else returns (intern p (binExpr Mul factor e)))
         else returns (intern p (binExpr Mul factor e))))))"

definition scaleE :: "ExprPool \<Rightarrow> int \<Rightarrow> nat \<Rightarrow> (nat \<times> ExprPool) outcome" where
  "scaleE p c e = (let k = constantE p c in mulE (snd k) (fst k) e)"

definition subE :: "ExprPool \<Rightarrow> nat \<Rightarrow> nat \<Rightarrow> (nat \<times> ExprPool) outcome" where
  "subE p lhs rhs = bindO (scaleE p (- 1) rhs) (\<lambda>k. addE (snd k) lhs (fst k))"

definition requireDivisor :: "ExprPool \<Rightarrow> nat \<Rightarrow> unit outcome" where
  "requireDivisor p divisor =
     bindO (exprAt p divisor) (\<lambda>d.
       if (if exprOp d = Const then exprValue d \<le> 0 else exprOp d \<noteq> Param) then throws InvalidArgument
       else returns ())"

definition floorDivE :: "ExprPool \<Rightarrow> nat \<Rightarrow> nat \<Rightarrow> (nat \<times> ExprPool) outcome" where
  "floorDivE p lhs divisor =
     bindO (requireDivisor p divisor) (\<lambda>u.
     bindO (constantValue p lhs) (\<lambda>a. bindO (constantValue p divisor) (\<lambda>d.
       if d = Some 1 then returns (lhs, p)
       else if a \<noteq> None \<and> d \<noteq> None then returns (constantE p (floorDivide (the a) (the d)))
       else returns (intern p (binExpr FloorDiv lhs divisor)))))"

definition modE :: "ExprPool \<Rightarrow> nat \<Rightarrow> nat \<Rightarrow> (nat \<times> ExprPool) outcome" where
  "modE p lhs divisor =
     bindO (requireDivisor p divisor) (\<lambda>u.
     bindO (constantValue p lhs) (\<lambda>a. bindO (constantValue p divisor) (\<lambda>d.
       if d = Some 1 then returns (constantE p 0)
       else if a \<noteq> None \<and> d \<noteq> None then returns (constantE p (floorModulo (the a) (the d)))
       else returns (intern p (binExpr Mod lhs divisor)))))"

definition spanAt :: "'a list \<Rightarrow> int \<Rightarrow> 'a outcome" where
  "spanAt xs i = (if 0 \<le> i \<and> nat i < length xs then returns (xs ! nat i) else throws OutOfRange)"

partial_function (option) evaluate :: "ExprPool \<Rightarrow> nat \<Rightarrow> int list \<Rightarrow> int option list \<Rightarrow> int outcome" where
  "evaluate p i dims params =
     bindO (exprAt p i) (\<lambda>e.
       case exprOp e of
         Const \<Rightarrow> returns (exprValue e)
       | Dim \<Rightarrow> spanAt dims (exprValue e)
       | Param \<Rightarrow> bindO (spanAt params (exprValue e)) (\<lambda>v.
                    case v of None \<Rightarrow> throws InvalidArgument | Some x \<Rightarrow> returns x)
       | Add \<Rightarrow> bindO (evaluate p (exprLhs e) dims params) (\<lambda>a.
                  bindO (evaluate p (exprRhs e) dims params) (\<lambda>b. checkedAdd a b))
       | Mul \<Rightarrow> bindO (evaluate p (exprLhs e) dims params) (\<lambda>a.
                  bindO (evaluate p (exprRhs e) dims params) (\<lambda>b. checkedMul a b))
       | FloorDiv \<Rightarrow> bindO (evaluate p (exprLhs e) dims params) (\<lambda>a.
                       bindO (evaluate p (exprRhs e) dims params) (\<lambda>d.
                         if d \<le> 0 then throws InvalidArgument else returns (floorDivide a d)))
       | Mod \<Rightarrow> bindO (evaluate p (exprLhs e) dims params) (\<lambda>a.
                  bindO (evaluate p (exprRhs e) dims params) (\<lambda>d.
                    if d \<le> 0 then throws InvalidArgument else returns (floorModulo a d))))"

partial_function (option) mentionsDim :: "ExprPool \<Rightarrow> nat \<Rightarrow> bool outcome" where
  "mentionsDim p i =
     bindO (exprAt p i) (\<lambda>e.
       if exprOp e = Dim then returns True
       else if exprOp e = Const \<or> exprOp e = Param then returns False
       else bindO (mentionsDim p (exprLhs e)) (\<lambda>a. if a then returns True else mentionsDim p (exprRhs e)))"

record AffineForm =
  affConstant :: int
  affCoeffs :: "int list"

text \<open>The sum of two forms and a form times the constant of another, with checked coefficients.\<close>

definition affineSum :: "AffineForm option \<Rightarrow> AffineForm option \<Rightarrow> AffineForm option outcome" where
  "affineSum a b =
     (if a = None \<or> b = None then returns None
      else bindO (checkedAdd (affConstant (the a)) (affConstant (the b))) (\<lambda>c.
             bindO (mapO (\<lambda>(x, y). checkedAdd x y) (zip (affCoeffs (the a)) (affCoeffs (the b)))) (\<lambda>cs.
               returns (Some \<lparr>affConstant = c, affCoeffs = cs\<rparr>))))"

definition affineProduct :: "AffineForm option \<Rightarrow> AffineForm option \<Rightarrow> AffineForm option outcome" where
  "affineProduct factor b =
     (if factor = None \<or> b = None then returns None
      else bindO (checkedMul (affConstant (the factor)) (affConstant (the b))) (\<lambda>c.
             bindO (mapO (checkedMul (affConstant (the factor))) (affCoeffs (the b))) (\<lambda>cs.
               returns (Some \<lparr>affConstant = c, affCoeffs = cs\<rparr>))))"

definition affineQuotient :: "ExprPool \<Rightarrow> nat \<Rightarrow> nat \<Rightarrow> int option list \<Rightarrow> bool \<Rightarrow> AffineForm option outcome" where
  "affineQuotient p i dimCount params mentions =
     (if mentions then returns None
      else case evaluate p i [] params of
             None \<Rightarrow> None
           | Some (Inl InvalidArgument) \<Rightarrow> returns None
           | Some (Inl err) \<Rightarrow> throws err
           | Some (Inr v) \<Rightarrow> returns (Some \<lparr>affConstant = v, affCoeffs = replicate dimCount 0\<rparr>))"

section \<open>Expressions\<close>

section \<open>Evaluation\<close>

text \<open>A quotient is a constant when no dim is under it; \<open>invalid_argument\<close> is caught there.\<close>

partial_function (option) affine :: "ExprPool \<Rightarrow> nat \<Rightarrow> nat \<Rightarrow> int option list \<Rightarrow> AffineForm option outcome" where
  "affine p i dimCount params =
     bindO (exprAt p i) (\<lambda>e.
       let zeros = replicate dimCount 0
       in case exprOp e of
            Const \<Rightarrow> returns (Some \<lparr>affConstant = exprValue e, affCoeffs = zeros\<rparr>)
          | Dim \<Rightarrow> if 0 \<le> exprValue e \<and> nat (exprValue e) < dimCount
                   then returns (Some \<lparr>affConstant = 0, affCoeffs = zeros[nat (exprValue e) := 1]\<rparr>)
                   else throws OutOfRange
          | Param \<Rightarrow> bindO (spanAt params (exprValue e)) (\<lambda>v.
                       returns (map_option (\<lambda>x. \<lparr>affConstant = x, affCoeffs = zeros\<rparr>) v))
          | Add \<Rightarrow> bindO (affine p (exprLhs e) dimCount params) (\<lambda>a.
                     bindO (affine p (exprRhs e) dimCount params) (\<lambda>b. affineSum a b))
          | Mul \<Rightarrow> bindO (affine p (exprLhs e) dimCount params) (\<lambda>f.
                     bindO (affine p (exprRhs e) dimCount params) (\<lambda>b. affineProduct f b))
          | _ \<Rightarrow> bindO (mentionsDim p (exprLhs e)) (\<lambda>m. affineQuotient p i dimCount params m))"

end
