(* ===== verification/Index_Denote.thy ===== *)
theory Index_Denote
  imports Index_Expr
begin

text \<open>
  The mathematical meaning of an expression, the normal form every pool keeps, and interning.
\<close>

abbreviation node :: "ExprPool \<Rightarrow> nat \<Rightarrow> Expr \<Rightarrow> bool" where
  "node p i e \<equiv> i < length (poolExprs p) \<and> poolExprs p ! i = e"

abbreviation opAt :: "ExprPool \<Rightarrow> nat \<Rightarrow> ExprOp" where
  "opAt p i \<equiv> exprOp (poolExprs p ! i)"

inductive denotes :: "ExprPool \<Rightarrow> int list \<Rightarrow> int option list \<Rightarrow> nat \<Rightarrow> int \<Rightarrow> bool" for p dims params where
  den_const: "node p i e \<Longrightarrow> exprOp e = Const \<Longrightarrow> denotes p dims params i (exprValue e)"
| den_dim: "node p i e \<Longrightarrow> exprOp e = Dim \<Longrightarrow> 0 \<le> exprValue e \<Longrightarrow> nat (exprValue e) < length dims \<Longrightarrow>
    denotes p dims params i (dims ! nat (exprValue e))"
| den_param: "node p i e \<Longrightarrow> exprOp e = Param \<Longrightarrow> 0 \<le> exprValue e \<Longrightarrow> nat (exprValue e) < length params \<Longrightarrow>
    params ! nat (exprValue e) = Some v \<Longrightarrow> denotes p dims params i v"
| den_add: "node p i e \<Longrightarrow> exprOp e = Add \<Longrightarrow> denotes p dims params (exprLhs e) x \<Longrightarrow>
    denotes p dims params (exprRhs e) y \<Longrightarrow> denotes p dims params i (x + y)"
| den_mul: "node p i e \<Longrightarrow> exprOp e = Mul \<Longrightarrow> denotes p dims params (exprLhs e) x \<Longrightarrow>
    denotes p dims params (exprRhs e) y \<Longrightarrow> denotes p dims params i (x * y)"
| den_div: "node p i e \<Longrightarrow> exprOp e = FloorDiv \<Longrightarrow> denotes p dims params (exprLhs e) x \<Longrightarrow>
    denotes p dims params (exprRhs e) y \<Longrightarrow> 0 < y \<Longrightarrow> denotes p dims params i (x div y)"
| den_mod: "node p i e \<Longrightarrow> exprOp e = Mod \<Longrightarrow> denotes p dims params (exprLhs e) x \<Longrightarrow>
    denotes p dims params (exprRhs e) y \<Longrightarrow> 0 < y \<Longrightarrow> denotes p dims params i (x mod y)"

text \<open>A larger pool keeps the expressions of the smaller one.\<close>

definition extends :: "ExprPool \<Rightarrow> ExprPool \<Rightarrow> bool" where
  "extends p q \<longleftrightarrow> (\<exists>zs. poolExprs q = poolExprs p @ zs)"

text \<open>
  Every expression refers to earlier ones and is in the normal form the builders keep: a sum has
  its constant on the right, never 0 and never below another constant term; a product has a
  constant other than 0 and 1 or a parameter on the left and no constant on the right.
\<close>

fun isConst :: "ExprPool \<Rightarrow> nat \<Rightarrow> bool" where
  "isConst p i \<longleftrightarrow> opAt p i = Const"

definition plusConst :: "ExprPool \<Rightarrow> nat \<Rightarrow> bool" where
  "plusConst p i \<longleftrightarrow> opAt p i = Add \<and> opAt p (exprRhs (poolExprs p ! i)) = Const"

definition timesConst :: "ExprPool \<Rightarrow> nat \<Rightarrow> bool" where
  "timesConst p i \<longleftrightarrow> opAt p i = Mul \<and> opAt p (exprLhs (poolExprs p ! i)) = Const"

definition divisorOk :: "ExprPool \<Rightarrow> nat \<Rightarrow> bool" where
  "divisorOk p d \<longleftrightarrow> opAt p d = Const \<and> 1 < exprValue (poolExprs p ! d) \<or> opAt p d = Param"

fun exprOk :: "ExprPool \<Rightarrow> nat \<Rightarrow> Expr \<Rightarrow> bool" where
  "exprOk p i e \<longleftrightarrow>
     (case exprOp e of
        Const \<Rightarrow> in_int64 (exprValue e)
      | Dim \<Rightarrow> 0 \<le> exprValue e \<and> exprValue e < 2 ^ 32
      | Param \<Rightarrow> 0 \<le> exprValue e \<and> exprValue e < 2 ^ 32
      | Add \<Rightarrow> exprLhs e < i \<and> exprRhs e < i \<and> opAt p (exprLhs e) \<noteq> Const \<and>
          (opAt p (exprRhs e) = Const \<longrightarrow> exprValue (poolExprs p ! exprRhs e) \<noteq> 0 \<and> \<not> plusConst p (exprLhs e))
      | Mul \<Rightarrow> exprLhs e < i \<and> exprRhs e < i \<and> opAt p (exprRhs e) \<noteq> Const \<and>
          (opAt p (exprLhs e) = Param \<or>
           opAt p (exprLhs e) = Const \<and> exprValue (poolExprs p ! exprLhs e) \<notin> {0, 1} \<and> \<not> timesConst p (exprRhs e))
      | _ \<Rightarrow> exprLhs e < i \<and> exprRhs e < i \<and> divisorOk p (exprRhs e) \<and>
          \<not> (opAt p (exprLhs e) = Const \<and> opAt p (exprRhs e) = Const))"

definition poolOk :: "ExprPool \<Rightarrow> bool" where
  "poolOk p \<longleftrightarrow> length (poolExprs p) \<le> kNoExpr \<and>
     (\<forall>e i. poolInterned p e = Some i \<longleftrightarrow> node p i e) \<and>
     (\<forall>i < length (poolExprs p). exprOk p i (poolExprs p ! i))"

definition internOk :: "ExprPool \<Rightarrow> Expr \<Rightarrow> bool" where
  "internOk p e \<longleftrightarrow> exprOk p (length (poolExprs p)) e"

section \<open>The mathematical meaning of an expression\<close>

text \<open>
  \<open>denotes p dims params i v\<close>: expression \<open>i\<close> has the value \<open>v\<close>, a mathematical integer, at the
  point \<open>dims\<close>. It has none when a parameter is unknown or a divisor is not positive.
\<close>

inductive_cases denotesE: "denotes p dims params i v"

lemma denotes_iff:
  assumes "i < length (poolExprs p)"
  shows "opAt p i = Const \<Longrightarrow> denotes p dims params i v \<longleftrightarrow> v = exprValue (poolExprs p ! i)"
    and "opAt p i = Dim \<Longrightarrow> denotes p dims params i v \<longleftrightarrow> 0 \<le> exprValue (poolExprs p ! i) \<and>
        nat (exprValue (poolExprs p ! i)) < length dims \<and> v = dims ! nat (exprValue (poolExprs p ! i))"
    and "opAt p i = Param \<Longrightarrow> denotes p dims params i v \<longleftrightarrow> 0 \<le> exprValue (poolExprs p ! i) \<and>
        nat (exprValue (poolExprs p ! i)) < length params \<and> params ! nat (exprValue (poolExprs p ! i)) = Some v"
    and "opAt p i = Add \<Longrightarrow> denotes p dims params i v \<longleftrightarrow> (\<exists>x y. denotes p dims params (exprLhs (poolExprs p ! i)) x \<and>
        denotes p dims params (exprRhs (poolExprs p ! i)) y \<and> v = x + y)"
    and "opAt p i = Mul \<Longrightarrow> denotes p dims params i v \<longleftrightarrow> (\<exists>x y. denotes p dims params (exprLhs (poolExprs p ! i)) x \<and>
        denotes p dims params (exprRhs (poolExprs p ! i)) y \<and> v = x * y)"
    and "opAt p i = FloorDiv \<Longrightarrow> denotes p dims params i v \<longleftrightarrow> (\<exists>x y. denotes p dims params (exprLhs (poolExprs p ! i)) x \<and>
        denotes p dims params (exprRhs (poolExprs p ! i)) y \<and> 0 < y \<and> v = x div y)"
    and "opAt p i = Mod \<Longrightarrow> denotes p dims params i v \<longleftrightarrow> (\<exists>x y. denotes p dims params (exprLhs (poolExprs p ! i)) x \<and>
        denotes p dims params (exprRhs (poolExprs p ! i)) y \<and> 0 < y \<and> v = x mod y)"
  using assms by (subst denotes.simps, force)+

lemma denotes_unique: "denotes p dims params i v \<Longrightarrow> denotes p dims params i w \<Longrightarrow> v = w"
proof (induction arbitrary: w rule: denotes.induct)
  case (den_const i e) then show ?case using denotes_iff(1) by simp
next
  case (den_dim i e) then show ?case using denotes_iff(2) by simp
next
  case (den_param i e v) then show ?case using denotes_iff(3) by (metis option.inject)
next
  case (den_add i e x y) then show ?case using denotes_iff(4) [of i p] by metis
next
  case (den_mul i e x y) then show ?case using denotes_iff(5) [of i p] by metis
next
  case (den_div i e x y) then show ?case using denotes_iff(6) [of i p] by metis
next
  case (den_mod i e x y) then show ?case using denotes_iff(7) [of i p] by metis
qed

lemma extends_refl [simp]: "extends p p"
  by (auto simp: extends_def)

lemma extends_trans: "extends p q \<Longrightarrow> extends q r \<Longrightarrow> extends p r"
  by (auto simp: extends_def)

lemma extends_node: "extends p q \<Longrightarrow> node p i e \<Longrightarrow> node q i e"
  by (auto simp: extends_def nth_append)

lemma extends_nth: "extends p q \<Longrightarrow> i < length (poolExprs p) \<Longrightarrow> i < length (poolExprs q) \<and> poolExprs q ! i = poolExprs p ! i"
  by (auto simp: extends_def nth_append)

lemma extends_length: "extends p q \<Longrightarrow> length (poolExprs p) \<le> length (poolExprs q)"
  by (auto simp: extends_def)

lemma denotes_extends: "denotes p dims params i v \<Longrightarrow> extends p q \<Longrightarrow> denotes q dims params i v"
proof (induction rule: denotes.induct)
  case (den_const i e) then show ?case using extends_node denotes.den_const by blast
next
  case (den_dim i e) then show ?case using extends_node denotes.den_dim by blast
next
  case (den_param i e v) then show ?case using extends_node denotes.den_param by blast
next
  case (den_add i e x y) then show ?case using extends_node denotes.den_add by blast
next
  case (den_mul i e x y) then show ?case using extends_node denotes.den_mul by blast
next
  case (den_div i e x y) then show ?case using extends_node denotes.den_div by blast
next
  case (den_mod i e x y) then show ?case using extends_node denotes.den_mod by blast
qed

section \<open>The invariant of a pool\<close>

declare exprOk.simps [simp del]

lemma poolOk_empty: "poolOk emptyPool"
  by (simp add: poolOk_def emptyPool_def)

lemma poolOkD: "poolOk p \<Longrightarrow> i < length (poolExprs p) \<Longrightarrow> exprOk p i (poolExprs p ! i)"
  by (simp add: poolOk_def)

lemma exprOk_children:
  "exprOk p i e \<Longrightarrow> exprOp e \<in> {Add, Mul, FloorDiv, Mod} \<Longrightarrow> exprLhs e < i \<and> exprRhs e < i"
  by (auto simp: exprOk.simps)

lemma exprOk_append:
  assumes "i \<le> length (poolExprs p)" "poolExprs q = poolExprs p @ zs" "\<forall>j < i. exprOk p j (poolExprs p ! j)"
  shows "exprOk q i e \<longleftrightarrow> exprOk p i e"
proof -
  have n: "poolExprs q ! j = poolExprs p ! j" if "j < i" for j using assms that by (simp add: nth_append)
  have c: "exprLhs (poolExprs p ! j) < i \<and> exprRhs (poolExprs p ! j) < i"
    if "j < i" "opAt p j \<in> {Add, Mul, FloorDiv, Mod}" for j
    using exprOk_children [of p j "poolExprs p ! j"] assms(3) that by (meson less_trans)
  have k: "plusConst q j = plusConst p j" "timesConst q j = timesConst p j" "divisorOk q j = divisorOk p j" if "j < i" for j
    using n [OF that] n [of "exprRhs (poolExprs p ! j)"] n [of "exprLhs (poolExprs p ! j)"] c [OF that]
    by (auto simp: plusConst_def timesConst_def divisorOk_def)
  show ?thesis using n k by (cases "exprOp e") (simp_all add: exprOk.simps cong: conj_cong)
qed

section \<open>Interning\<close>

lemma intern_spec:
  assumes "poolOk p" "internOk p e" "length (poolExprs p) < kNoExpr"
  shows "poolOk (snd (intern p e)) \<and> extends p (snd (intern p e)) \<and> node (snd (intern p e)) (fst (intern p e)) e \<and>
    length (poolExprs (snd (intern p e))) \<le> length (poolExprs p) + 1"
proof (cases "poolInterned p e")
  case (Some i)
  then have "intern p e = (i, p)" by (simp add: intern_def)
  moreover have "node p i e" using Some assms(1) unfolding poolOk_def by blast
  ultimately show ?thesis using assms(1) by simp
next
  case None
  let ?n = "length (poolExprs p)"
  let ?q = "\<lparr>poolExprs = poolExprs p @ [e], poolInterned = (poolInterned p)(e \<mapsto> ?n)\<rparr>"
  have "u32 ?n = ?n" using assms(3) by (simp add: kNoExpr_def)
  then have i: "intern p e = (?n, ?q)" using None by (simp add: intern_def Let_def)
  have "\<not> node p j e" for j using None assms(1) unfolding poolOk_def by (metis option.distinct(1))
  then have "((poolInterned p)(e \<mapsto> ?n)) f = Some j \<longleftrightarrow> node ?q j f" for f j
    using assms(1) by (auto simp: poolOk_def nth_append less_Suc_eq)
  moreover have "exprOk ?q j (poolExprs ?q ! j)" if "j < Suc ?n" for j
  proof -
    have "exprOk ?q j (poolExprs ?q ! j) \<longleftrightarrow> exprOk p j (poolExprs ?q ! j)"
      by (rule exprOk_append [where zs = "[e]"]) (use that assms(1) in \<open>auto simp: poolOk_def\<close>)
    then show ?thesis using that assms(1,2) by (auto simp: poolOk_def internOk_def nth_append less_Suc_eq)
  qed
  ultimately have "poolOk ?q" using assms(3) by (simp add: poolOk_def)
  then show ?thesis using i by (auto simp: extends_def)
qed

lemma constantE_spec:
  assumes "poolOk p" "in_int64 v" "length (poolExprs p) < kNoExpr" "constantE p v = (i, q)"
  shows "poolOk q" "extends p q" "node q i (leafExpr Const v)" "length (poolExprs q) \<le> length (poolExprs p) + 1"
    "denotes q dims params i v"
proof -
  have "internOk p (leafExpr Const v)" using assms(2) by (simp add: internOk_def exprOk.simps leafExpr_def)
  from intern_spec [OF assms(1) this assms(3)] assms(4)
  show *: "poolOk q" "extends p q" "node q i (leafExpr Const v)" "length (poolExprs q) \<le> length (poolExprs p) + 1"
    by (auto simp: constantE_def)
  show "denotes q dims params i v" using den_const [OF *(3)] by (simp add: leafExpr_def)
qed

end
