(* ===== verification/Index_Builders.thy ===== *)
theory Index_Builders
  imports Index_Denote
begin

text \<open>
  The builders: what they build denotes what they were asked for, and the pool stays in normal form
  and grows by a bounded number of expressions.
\<close>

definition builds :: "ExprPool \<Rightarrow> nat \<Rightarrow> (int list \<Rightarrow> int option list \<Rightarrow> ExprPool \<Rightarrow> nat \<Rightarrow> bool) \<Rightarrow> (nat \<times> ExprPool) outcome \<Rightarrow> bool" where
  "builds p n m r \<longleftrightarrow> r = throws OverflowError \<or>
     (\<exists>i q. r = returns (i, q) \<and> poolOk q \<and> extends p q \<and> length (poolExprs q) \<le> length (poolExprs p) + n \<and>
       i < length (poolExprs q) \<and> (\<forall>dims params. m dims params q i))"

definition computes :: "(int \<Rightarrow> int \<Rightarrow> int) \<Rightarrow> (int \<Rightarrow> int \<Rightarrow> bool) \<Rightarrow> ExprPool \<Rightarrow> nat \<Rightarrow> nat \<Rightarrow>
    int list \<Rightarrow> int option list \<Rightarrow> ExprPool \<Rightarrow> nat \<Rightarrow> bool" where
  "computes f ok p l r dims params q i \<longleftrightarrow>
     (\<forall>x y. denotes p dims params l x \<longrightarrow> denotes p dims params r y \<longrightarrow> ok x y \<longrightarrow> denotes q dims params i (f x y))"

abbreviation always :: "int \<Rightarrow> int \<Rightarrow> bool" where
  "always \<equiv> (\<lambda>x y. True)"

definition isDivisor :: "ExprPool \<Rightarrow> nat \<Rightarrow> bool" where
  "isDivisor p d \<longleftrightarrow> opAt p d = Const \<and> 0 < exprValue (poolExprs p ! d) \<or> opAt p d = Param"

section \<open>What the builders build\<close>

text \<open>
  \<open>builds p n m r\<close>: the outcome \<open>r\<close> of a builder on \<open>p\<close> is an overflow of the constants it
  folded, or an expression of a valid pool that extends \<open>p\<close> by at most \<open>n\<close> expressions and
  satisfies \<open>m\<close> at every point.
\<close>

lemma buildsI:
  assumes "r = returns (i, q)" "poolOk q" "extends p q" "length (poolExprs q) \<le> length (poolExprs p) + n"
    "i < length (poolExprs q)" "\<And>dims params. m dims params q i"
  shows "builds p n m r"
  using assms by (auto simp: builds_def)

lemma builds_same: "poolOk p \<Longrightarrow> i < length (poolExprs p) \<Longrightarrow> (\<And>dims params. m dims params p i) \<Longrightarrow> builds p n m (returns (i, p))"
  by (rule buildsI) auto

lemma builds_overflow [simp]: "builds p n m (throws OverflowError)"
  by (simp add: builds_def)

lemma exprAt_simp [simp]: "i < length (poolExprs p) \<Longrightarrow> exprAt p i = returns (poolExprs p ! i)"
  by (simp add: exprAt_def)

lemma constantValue_simp [simp]:
  "i < length (poolExprs p) \<Longrightarrow>
   constantValue p i = returns (if opAt p i = Const then Some (exprValue (poolExprs p ! i)) else None)"
  by (simp add: constantValue_def)

lemma denotes_const: "denotes p dims params i x \<Longrightarrow> opAt p i = Const \<Longrightarrow> x = exprValue (poolExprs p ! i)"
  by (auto elim: denotesE)

lemma denotes_range: "denotes p dims params i x \<Longrightarrow> i < length (poolExprs p)"
  by (auto elim: denotes.cases)

lemma builds_constant:
  assumes "poolOk p" "in_int64 v" "length (poolExprs p) < kNoExpr" "0 < n"
    "\<And>dims params q i. denotes q dims params i v \<Longrightarrow> extends p q \<Longrightarrow> m dims params q i"
  shows "builds p n m (returns (constantE p v))"
proof -
  obtain i q where c: "constantE p v = (i, q)" by (cases "constantE p v")
  note s = constantE_spec [OF assms(1-3) c]
  show ?thesis by (rule buildsI [of _ i q]) (use c s(1-4) assms(4) assms(5) [OF s(5) s(2)] in auto)
qed

lemma const_in_range: "poolOk p \<Longrightarrow> i < length (poolExprs p) \<Longrightarrow> opAt p i = Const \<Longrightarrow> in_int64 (exprValue (poolExprs p ! i))"
  using poolOkD by (fastforce simp: exprOk.simps)

subsection \<open>Sums\<close>

lemma builds_intern:
  assumes "poolOk p" "length (poolExprs p) < kNoExpr" "0 < n" "internOk p e"
    "\<And>dims params q i. node q i e \<Longrightarrow> extends p q \<Longrightarrow> m dims params q i"
  shows "builds p n m (returns (intern p e))"
proof -
  obtain i q where c: "intern p e = (i, q)" by (cases "intern p e")
  then have s: "poolOk q" "extends p q" "node q i e" "length (poolExprs q) \<le> length (poolExprs p) + 1"
    using intern_spec [OF assms(1,4,2)] by auto
  show ?thesis by (rule buildsI [of _ i q]) (use c s assms(3) assms(5) [OF s(3,2)] in auto)
qed

lemma builds_internAdd:
  assumes "poolOk p" "length (poolExprs p) < kNoExpr" "0 < n" "l < length (poolExprs p)" "r < length (poolExprs p)"
    "opAt p l \<noteq> Const" "opAt p r = Const \<longrightarrow> exprValue (poolExprs p ! r) \<noteq> 0 \<and> \<not> plusConst p l"
  shows "builds p n (computes (+) always p l r) (returns (intern p (binExpr Add l r)))"
proof (rule builds_intern [OF assms(1-3)])
  show "internOk p (binExpr Add l r)" using assms by (simp add: internOk_def exprOk.simps binExpr_def)
  show "computes (+) always p l r dims params q i" if n: "node q i (binExpr Add l r)" and e: "extends p q" for dims params q i
    unfolding computes_def using den_add [OF n] denotes_extends [OF _ e] by (auto simp: binExpr_def)
qed

lemma computes_swap:
  assumes "builds p n (computes f ok p r l) res" "\<And>x y. f x y = f y x" "\<And>x y. ok x y = ok y x"
  shows "builds p n (computes f ok p l r) res"
proof -
  have "computes f ok p r l = computes f ok p l r" by (intro ext) (unfold computes_def, metis assms(2,3))
  then show ?thesis using assms(1) by simp
qed

lemma computes_left:
  assumes "\<And>x y. denotes p dims params l x \<Longrightarrow> denotes p dims params r y \<Longrightarrow> ok x y \<Longrightarrow> f x y = x"
  shows "computes f ok p l r dims params p l"
  by (simp add: computes_def assms)

lemma computes_right:
  assumes "\<And>x y. denotes p dims params l x \<Longrightarrow> denotes p dims params r y \<Longrightarrow> ok x y \<Longrightarrow> f x y = y"
  shows "computes f ok p l r dims params p r"
  by (simp add: computes_def assms)

lemma addE_last:
  assumes "poolOk p" "l < length (poolExprs p)" "r < length (poolExprs p)" "opAt p l \<noteq> Const" "opAt p r = Const" "\<not> plusConst p l"
  shows "addE p l r = (if exprValue (poolExprs p ! r) = 0 then returns (l, p) else returns (intern p (binExpr Add l r)))"
proof -
  have "exprRhs (poolExprs p ! l) < length (poolExprs p)" if "opAt p l = Add"
    using exprOk_children [OF poolOkD [OF assms(1,2)]] that assms(2) by auto
  then show ?thesis using assms by (subst addE.simps) (auto simp: plusConst_def)
qed

lemma plusConst_extends:
  assumes "poolOk p" "extends p q" "i < length (poolExprs p)" shows "plusConst q i \<longleftrightarrow> plusConst p i"
  using extends_nth [OF assms(2,3)] exprOk_children [OF poolOkD [OF assms(1,3)]] extends_nth [OF assms(2)] assms(3)
  by (auto simp: plusConst_def)

lemma addE_spec:
  assumes ok: "poolOk p" and room: "length (poolExprs p) + 1 < kNoExpr" and l: "l < length (poolExprs p)" and r: "r < length (poolExprs p)"
  shows "builds p 2 (computes (+) always p l r) (addE p l r)"
proof -
  have step: "builds p 2 (computes (+) always p l r) (addE p l r)"
    if l: "l < length (poolExprs p)" and r: "r < length (poolExprs p)" and nc: "opAt p l \<noteq> Const"
      and n0: "opAt p r = Const \<longrightarrow> exprValue (poolExprs p ! r) \<noteq> 0" for l r
  proof (cases "opAt p r = Const \<and> plusConst p l")
    case False
    let ?e = "poolExprs p ! l"
    have "exprRhs ?e < length (poolExprs p)" if "exprOp ?e = Add"
      using exprOk_children [OF poolOkD [OF ok l]] that l by auto
    then have "addE p l r = returns (intern p (binExpr Add l r))"
      using False l r nc n0 by (subst addE.simps) (auto simp: plusConst_def)
    then show ?thesis using builds_internAdd [OF ok _ _ l r nc, of 2] False n0 room by auto
  next
    case True
    let ?e = "poolExprs p ! l" let ?c1 = "exprValue (poolExprs p ! exprRhs ?e)" let ?c2 = "exprValue (poolExprs p ! r)"
    have e: "exprOp ?e = Add" "opAt p (exprRhs ?e) = Const" using True by (auto simp: plusConst_def)
    have ch: "exprLhs ?e < l" "exprRhs ?e < l" using exprOk_children [OF poolOkD [OF ok l]] e by auto
    have nf: "opAt p (exprLhs ?e) \<noteq> Const" "\<not> plusConst p (exprLhs ?e)"
      using poolOkD [OF ok l] e by (auto simp: exprOk.simps)
    show ?thesis
    proof (cases "in_int64 (?c1 + ?c2)")
      case False
      then have "addE p l r = throws OverflowError"
        using True e ch l r nc n0 by (subst addE.simps) (simp add: checkedAdd_def)
      then show ?thesis by simp
    next
      case fits: True
      obtain k q where c: "constantE p (?c1 + ?c2) = (k, q)" by (cases "constantE p (?c1 + ?c2)")
      note s = constantE_spec [OF ok fits _ c]
      have lt: "length (poolExprs p) < kNoExpr" using room by simp
      have sum: "addE p l r = addE q (exprLhs ?e) k"
        using True e ch l r nc n0 fits c by (subst addE.simps) (simp add: checkedAdd_def)
      have x: "exprLhs ?e < length (poolExprs p)" using ch l by simp
      have q: "poolOk q" "extends p q" "node q k (leafExpr Const (?c1 + ?c2))" "length (poolExprs q) \<le> length (poolExprs p) + 1"
        using s(1-4) [OF lt] by auto
      have xq: "exprLhs ?e < length (poolExprs q)" "opAt q (exprLhs ?e) \<noteq> Const" "\<not> plusConst q (exprLhs ?e)"
        using extends_nth [OF q(2) x] nf plusConst_extends [OF ok q(2) x] by auto
      have kq: "k < length (poolExprs q)" "opAt q k = Const" "exprValue (poolExprs q ! k) = ?c1 + ?c2"
        using q(3) by (auto simp: leafExpr_def)
      have sem: "denotes p dims params l y \<Longrightarrow> denotes p dims params r z \<Longrightarrow>
          \<exists>x. denotes q dims params (exprLhs ?e) x \<and> y + z = x + (?c1 + ?c2)" for dims params y z
      proof -
        assume d: "denotes p dims params l y" "denotes p dims params r z"
        from d(1) obtain x w where "y = x + w" "denotes p dims params (exprLhs ?e) x" "denotes p dims params (exprRhs ?e) w"
          using e(1) by (auto elim: denotesE)
        then show ?thesis using denotes_const [OF _ e(2)] denotes_const [OF d(2)] True denotes_extends [OF _ q(2)] by fastforce
      qed
      show ?thesis
      proof (cases "?c1 + ?c2 = 0")
        case True
        then have "addE p l r = returns (exprLhs ?e, q)" using sum addE_last [OF q(1) xq(1) kq(1) xq(2) kq(2) xq(3)] kq(3) by simp
        then show ?thesis using q xq(1) sem True by (intro buildsI) (auto simp: computes_def)
      next
        case False
        have a: "addE p l r = returns (intern q (binExpr Add (exprLhs ?e) k))"
          using sum addE_last [OF q(1) xq(1) kq(1) xq(2) kq(2) xq(3)] kq(3) False by simp
        have "length (poolExprs q) < kNoExpr" using q(4) room by simp
        then have "builds q 1 (computes (+) always q (exprLhs ?e) k) (returns (intern q (binExpr Add (exprLhs ?e) k)))"
          using builds_internAdd [OF q(1) _ _ xq(1) kq(1) xq(2), of 1] kq xq False by simp
        then obtain i q' where "addE p l r = returns (i, q')" "poolOk q'" "extends q q'" "length (poolExprs q') \<le> length (poolExprs q) + 1"
          "i < length (poolExprs q')" "\<forall>dims params. computes (+) always q (exprLhs ?e) k dims params q' i"
          using a by (auto simp: builds_def)
        moreover have "denotes q dims params k (?c1 + ?c2)" for dims params using s(5) [OF lt] .
        ultimately show ?thesis using q(2,4) sem
          by (intro buildsI [of _ i q']) (auto simp: computes_def intro: extends_trans, metis)
      qed
    qed
  qed
  show ?thesis
  proof (cases "opAt p l = Const")
    case False
    show ?thesis
    proof (cases "opAt p r = Const \<and> exprValue (poolExprs p ! r) = 0")
      case True
      then have "addE p l r = returns (l, p)" using False l r by (subst addE.simps) simp
      moreover have "computes (+) always p l r dims params p l" for dims params
        by (rule computes_left) (use True denotes_const in fastforce)
      ultimately show ?thesis using builds_same [OF ok l] by simp
    qed (use step [OF l r False] in auto)
  next
    case True
    show ?thesis
    proof (cases "opAt p r = Const")
      case r': True
      let ?s = "exprValue (poolExprs p ! l) + exprValue (poolExprs p ! r)"
      have a: "addE p l r = bindO (checkedAdd (exprValue (poolExprs p ! l)) (exprValue (poolExprs p ! r))) (\<lambda>s. returns (constantE p s))"
        using True r' l r by (subst addE.simps) simp
      show ?thesis
      proof (cases "in_int64 ?s")
        case False then show ?thesis using a by (simp add: checkedAdd_def)
      next
        case fits: True
        have "builds p 2 (computes (+) always p l r) (returns (constantE p ?s))"
          by (rule builds_constant [OF ok fits]) (use room True r' denotes_const in \<open>auto simp: computes_def\<close>)
        then show ?thesis using a fits by (simp add: checkedAdd_def)
      qed
    next
      case r': False
      show ?thesis
      proof (cases "exprValue (poolExprs p ! l) = 0")
        case z: True
        then have "addE p l r = returns (r, p)" using True r' l r by (subst addE.simps) simp
        moreover have "computes (+) always p l r dims params p r" for dims params
          by (rule computes_right) (use True z denotes_const in fastforce)
        ultimately show ?thesis using builds_same [OF ok r] by simp
      next
        case nz: False
        have "addE p l r = addE p r l" using True r' l r nz by (subst (1 2) addE.simps) (simp add: Let_def)
        moreover have "builds p 2 (computes (+) always p r l) (addE p r l)" using step [OF r l r'] nz by simp
        ultimately show ?thesis using computes_swap [of p 2 "(+)" always r l] by (simp add: add.commute)
      qed
    qed
  qed
qed

subsection \<open>Products\<close>

lemma builds_internMul:
  assumes "poolOk p" "length (poolExprs p) < kNoExpr" "0 < n" "l < length (poolExprs p)" "r < length (poolExprs p)"
    "opAt p r \<noteq> Const"
    "opAt p l = Param \<or> opAt p l = Const \<and> exprValue (poolExprs p ! l) \<notin> {0, 1} \<and> \<not> timesConst p r"
  shows "builds p n (computes (*) always p l r) (returns (intern p (binExpr Mul l r)))"
proof (rule builds_intern [OF assms(1-3)])
  show "internOk p (binExpr Mul l r)" using assms by (simp add: internOk_def exprOk.simps binExpr_def)
  show "computes (*) always p l r dims params q i" if n: "node q i (binExpr Mul l r)" and e: "extends p q" for dims params q i
    unfolding computes_def using den_mul [OF n] denotes_extends [OF _ e] by (auto simp: binExpr_def)
qed

lemma timesConst_extends:
  assumes "poolOk p" "extends p q" "i < length (poolExprs p)" shows "timesConst q i \<longleftrightarrow> timesConst p i"
  using extends_nth [OF assms(2,3)] exprOk_children [OF poolOkD [OF assms(1,3)]] extends_nth [OF assms(2)] assms(3)
  by (auto simp: timesConst_def)

text \<open>A constant other than 0 and 1 times an expression that is no constant multiple.\<close>

lemma mulE_last:
  assumes "poolOk p" "l < length (poolExprs p)" "r < length (poolExprs p)" "opAt p l = Const" "opAt p r \<noteq> Const" "\<not> timesConst p r"
    "exprValue (poolExprs p ! l) \<noteq> 0"
  shows "mulE p l r = (if exprValue (poolExprs p ! l) = 1 then returns (r, p) else returns (intern p (binExpr Mul l r)))"
proof -
  have "exprLhs (poolExprs p ! r) < length (poolExprs p)" if "opAt p r = Mul"
    using exprOk_children [OF poolOkD [OF assms(1,3)]] that assms(3) by auto
  then show ?thesis using assms by (subst mulE.simps) (auto simp: timesConst_def)
qed

lemma mulE_const:
  assumes ok: "poolOk p" and room: "length (poolExprs p) + 1 < kNoExpr" and l: "l < length (poolExprs p)" and r: "r < length (poolExprs p)"
    and c: "opAt p l = Const"
  shows "builds p 2 (computes (*) always p l r) (mulE p l r)"
proof -
  let ?c = "exprValue (poolExprs p ! l)" let ?e = "poolExprs p ! r"
  have lt: "length (poolExprs p) < kNoExpr" using room by simp
  have dl: "denotes p dims params l x \<Longrightarrow> x = ?c" for dims params x using denotes_const c by blast
  consider "opAt p r = Const" | "opAt p r \<noteq> Const" "?c = 0" | "opAt p r \<noteq> Const" "?c \<noteq> 0" "\<not> timesConst p r"
    | "opAt p r \<noteq> Const" "?c \<noteq> 0" "?c = 1" | "opAt p r \<noteq> Const" "?c \<noteq> 0" "?c \<noteq> 1" "timesConst p r" by blast
  then show ?thesis
  proof cases
    case 1
    have a: "mulE p l r = bindO (checkedMul ?c (exprValue ?e)) (\<lambda>s. returns (constantE p s))"
      using 1 c l r by (subst mulE.simps) simp
    show ?thesis
    proof (cases "in_int64 (?c * exprValue ?e)")
      case False then show ?thesis using a by (simp add: checkedMul_def)
    next
      case True
      have "builds p 2 (computes (*) always p l r) (returns (constantE p (?c * exprValue ?e)))"
        by (rule builds_constant [OF ok True lt]) (use 1 dl denotes_const in \<open>auto simp: computes_def\<close>)
      then show ?thesis using a True by (simp add: checkedMul_def)
    qed
  next
    case 2
    have "mulE p l r = returns (constantE p 0)" using 2 c l r by (subst mulE.simps) simp
    moreover have "builds p 2 (computes (*) always p l r) (returns (constantE p 0))"
      by (rule builds_constant [OF ok _ lt]) (use 2 dl in \<open>fastforce simp: computes_def in_int64_def int64_min_def int64_max_def\<close>)+
    ultimately show ?thesis by simp
  next
    case 3
    note m = mulE_last [OF ok l r c 3(1,3,2)]
    show ?thesis
    proof (cases "?c = 1")
      case True
      have "computes (*) always p l r dims params p r" for dims params by (rule computes_right) (use True dl in auto)
      then show ?thesis using m True builds_same [OF ok r] by simp
    next
      case False
      then show ?thesis using m builds_internMul [OF ok lt _ l r 3(1), of 2] c 3 by simp
    qed
  next
    case 4
    have "mulE p l r = returns (r, p)" using 4 c l r by (subst mulE.simps) simp
    moreover have "computes (*) always p l r dims params p r" for dims params by (rule computes_right) (use 4 dl in auto)
    ultimately show ?thesis using builds_same [OF ok r] by simp
  next
    case 5
    let ?c2 = "exprValue (poolExprs p ! exprLhs ?e)"
    have e: "exprOp ?e = Mul" "opAt p (exprLhs ?e) = Const" using 5 by (auto simp: timesConst_def)
    have ch: "exprLhs ?e < r" "exprRhs ?e < r" using exprOk_children [OF poolOkD [OF ok r]] e by auto
    have nf: "opAt p (exprRhs ?e) \<noteq> Const" "\<not> timesConst p (exprRhs ?e)" "?c2 \<noteq> 0"
      using poolOkD [OF ok r] e by (auto simp: exprOk.simps)
    show ?thesis
    proof (cases "in_int64 (?c * ?c2)")
      case False
      then have "mulE p l r = throws OverflowError"
        using 5 c e ch l r by (subst mulE.simps) (simp add: checkedMul_def)
      then show ?thesis by simp
    next
      case fits: True
      obtain k q where kq: "constantE p (?c * ?c2) = (k, q)" by (cases "constantE p (?c * ?c2)")
      note s = constantE_spec [OF ok fits lt kq]
      have prod: "mulE p l r = mulE q k (exprRhs ?e)"
        using 5 c e ch l r fits kq by (subst mulE.simps) (simp add: checkedMul_def)
      have x: "exprRhs ?e < length (poolExprs p)" using ch r by simp
      have xq: "exprRhs ?e < length (poolExprs q)" "opAt q (exprRhs ?e) \<noteq> Const" "\<not> timesConst q (exprRhs ?e)"
        using extends_nth [OF s(2) x] nf timesConst_extends [OF ok s(2) x] by auto
      have k: "k < length (poolExprs q)" "opAt q k = Const" "exprValue (poolExprs q ! k) = ?c * ?c2"
        using s(3) by (auto simp: leafExpr_def)
      have nz: "exprValue (poolExprs q ! k) \<noteq> 0" using k(3) 5(2) nf(3) by simp
      note m = mulE_last [OF s(1) k(1) xq(1) k(2) xq(2,3) nz]
      have sem: "denotes p dims params l y \<Longrightarrow> denotes p dims params r z \<Longrightarrow>
          \<exists>x. denotes q dims params (exprRhs ?e) x \<and> y * z = ?c * ?c2 * x" for dims params y z
      proof -
        assume d: "denotes p dims params l y" "denotes p dims params r z"
        from d(2) obtain x w where w: "z = w * x" "denotes p dims params (exprLhs ?e) w" "denotes p dims params (exprRhs ?e) x"
          using e(1) by (auto elim: denotesE)
        then have "w = ?c2" using denotes_const e(2) by blast
        then show ?thesis using w dl [OF d(1)] denotes_extends [OF w(3) s(2)] by auto
      qed
      show ?thesis
      proof (cases "?c * ?c2 = 1")
        case True
        then have "mulE p l r = returns (exprRhs ?e, q)" using prod m k(3) by simp
        then show ?thesis using s(1,2,4) xq(1) sem True by (intro buildsI) (auto simp: computes_def)
      next
        case False
        have a: "mulE p l r = returns (intern q (binExpr Mul k (exprRhs ?e)))" using prod m k(3) False by simp
        have "length (poolExprs q) < kNoExpr" using s(4) room by simp
        then have "builds q 1 (computes (*) always q k (exprRhs ?e)) (returns (intern q (binExpr Mul k (exprRhs ?e))))"
          using builds_internMul [OF s(1) _ _ k(1) xq(1,2), of 1] k nz xq False by simp
        then obtain i q' where "mulE p l r = returns (i, q')" "poolOk q'" "extends q q'" "length (poolExprs q') \<le> length (poolExprs q) + 1"
          "i < length (poolExprs q')" "\<forall>dims params. computes (*) always q k (exprRhs ?e) dims params q' i"
          using a by (auto simp: builds_def)
        then show ?thesis using s(2,4,5) sem
          by (intro buildsI [of _ i q']) (auto simp: computes_def intro: extends_trans, metis)
      qed
    qed
  qed
qed

lemma mulE_spec:
  assumes ok: "poolOk p" and room: "length (poolExprs p) + 1 < kNoExpr" and l: "l < length (poolExprs p)" and r: "r < length (poolExprs p)"
    and f: "opAt p l \<in> {Const, Param} \<or> opAt p r \<in> {Const, Param}"
  shows "builds p 2 (computes (*) always p l r) (mulE p l r)"
proof -
  have lt: "length (poolExprs p) < kNoExpr" using room by simp
  have factor: "builds p 2 (computes (*) always p l r) (mulE p l r)"
    if l: "l < length (poolExprs p)" and r: "r < length (poolExprs p)" and lp: "opAt p l \<in> {Const, Param}" for l r
  proof (cases "opAt p l = Const")
    case True then show ?thesis by (rule mulE_const [OF ok room l r])
  next
    case False
    then have pl: "opAt p l = Param" using lp by simp
    consider "opAt p r \<noteq> Const" | "opAt p r = Const" "exprValue (poolExprs p ! r) = 0" | "opAt p r = Const" "exprValue (poolExprs p ! r) \<noteq> 0" by blast
    then show ?thesis
    proof cases
      case 1
      then have "mulE p l r = returns (intern p (binExpr Mul l r))" using pl l r by (subst mulE.simps) simp
      then show ?thesis using builds_internMul [OF ok lt _ l r 1, of 2] pl by simp
    next
      case 2
      then have "mulE p l r = returns (constantE p 0)" using pl l r by (subst mulE.simps) simp
      moreover have "builds p 2 (computes (*) always p l r) (returns (constantE p 0))"
        by (rule builds_constant [OF ok _ lt]) (use 2 denotes_const in \<open>fastforce simp: computes_def in_int64_def int64_min_def int64_max_def\<close>)+
      ultimately show ?thesis by simp
    next
      case 3
      then have "mulE p l r = mulE p r l" using pl l r by (subst mulE.simps) simp
      then show ?thesis using mulE_const [OF ok room r l 3(1)] computes_swap [of p 2 "(*)" always r l] by (simp add: mult.commute)
    qed
  qed
  show ?thesis
  proof (cases "opAt p l \<in> {Const, Param}")
    case True then show ?thesis by (rule factor [OF l r])
  next
    case False
    then have "opAt p r \<in> {Const, Param}" using f by blast
    moreover from this False have "mulE p l r = mulE p r l" using l r by (subst mulE.simps) auto
    ultimately show ?thesis using factor [OF r l] computes_swap [of p 2 "(*)" always r l] by (simp add: mult.commute)
  qed
qed

lemma mulE_rejects:
  assumes "l < length (poolExprs p)" "r < length (poolExprs p)" "opAt p l \<notin> {Const, Param}" "opAt p r \<notin> {Const, Param}"
  shows "mulE p l r = throws InvalidArgument"
  using assms by (subst mulE.simps) simp

subsection \<open>Quotients and remainders\<close>

lemma floor_laws:
  assumes "0 < b"
  shows "floorDivide a b = a div b" "floorModulo a b = a mod b"
proof -
  show "floorDivide a b = a div b"
  proof (cases "a < 0")
    case True
    then have "a sdiv b = - ((- a) div b)" "a smod b = - ((- a) mod b)" using assms
      by (simp_all add: signed_divide_int_def signed_modulo_int_def sgn_if)
    moreover have "a div b = (if (- a) mod b = 0 then - ((- a) div b) else - ((- a) div b) - 1)"
      using zdiv_zminus1_eq_if [of b "- a"] assms by simp
    ultimately show ?thesis using True unfolding floorDivide_def Let_def
      by (cases "(- a) mod b = 0") (simp_all only: if_True if_False neg_equal_0_iff_equal simp_thms)
  next
    case False
    then show ?thesis using assms by (cases "a = 0") (auto simp: floorDivide_def Let_def signed_divide_int_def sgn_if)
  qed
  show "floorModulo a b = a mod b"
  proof (cases "a < 0")
    case True
    define m where "m = (- a) mod b"
    have "a smod b = - m" using True assms by (simp add: signed_modulo_int_def sgn_if m_def)
    moreover have "a mod b = (if m = 0 then 0 else b - m)" using zmod_zminus1_eq_if [of "- a" b] by (simp add: m_def)
    moreover have "0 \<le> m" using assms by (simp add: m_def)
    ultimately show ?thesis by (simp add: floorModulo_def Let_def)
  next
    case False
    then show ?thesis using assms by (cases "a = 0") (auto simp: floorModulo_def Let_def signed_modulo_int_def sgn_if not_less)
  qed
qed

lemma div_in_range:
  assumes "in_int64 a" "0 < b" shows "in_int64 (a div b)"
proof (cases "0 \<le> a")
  case True
  then have "0 \<le> a div b" "a div b \<le> a" using assms(2) zdiv_mono2 [of a 1 b] by (simp_all add: pos_imp_zdiv_nonneg_iff)
  then show ?thesis using assms(1) by (auto simp: in_int64_def int64_min_def int64_max_def)
next
  case False
  have "a \<le> a div b" "a div b < 0" using False assms(2) zdiv_mono2_neg [of a 1 b] by (simp_all add: pos_imp_zdiv_neg_iff)
  then show ?thesis using assms(1) by (auto simp: in_int64_def int64_min_def int64_max_def)
qed

lemma mod_in_range:
  assumes "in_int64 b" "0 < b" shows "in_int64 (a mod b)"
proof -
  have "0 \<le> a mod b" "a mod b < b" using assms(2) by simp_all
  then show ?thesis using assms(1) by (auto simp: in_int64_def int64_min_def int64_max_def)
qed


lemma divisorOk_value:
  assumes "divisorOk p d" "denotes p dims params d y" shows "opAt p d = Const \<Longrightarrow> 1 < y"
  using assms denotes_const by (fastforce simp: divisorOk_def)

lemma builds_internDiv:
  assumes "poolOk p" "length (poolExprs p) < kNoExpr" "l < length (poolExprs p)" "r < length (poolExprs p)"
    "divisorOk p r" "\<not> (opAt p l = Const \<and> opAt p r = Const)"
  shows "builds p 1 (computes (div) (\<lambda>x y. 0 < y) p l r) (returns (intern p (binExpr FloorDiv l r)))"
    and "builds p 1 (computes (mod) (\<lambda>x y. 0 < y) p l r) (returns (intern p (binExpr Mod l r)))"
proof -
  have io: "internOk p (binExpr FloorDiv l r)" "internOk p (binExpr Mod l r)"
    using assms by (auto simp: internOk_def exprOk.simps binExpr_def)
  show "builds p 1 (computes (div) (\<lambda>x y. 0 < y) p l r) (returns (intern p (binExpr FloorDiv l r)))"
  proof (rule builds_intern [OF assms(1,2) _ io(1)])
    show "computes (div) (\<lambda>x y. 0 < y) p l r dims params q i" if n: "node q i (binExpr FloorDiv l r)" and e: "extends p q" for dims params q i
      unfolding computes_def using den_div [OF n] denotes_extends [OF _ e] by (auto simp: binExpr_def)
  qed simp
  show "builds p 1 (computes (mod) (\<lambda>x y. 0 < y) p l r) (returns (intern p (binExpr Mod l r)))"
  proof (rule builds_intern [OF assms(1,2) _ io(2)])
    show "computes (mod) (\<lambda>x y. 0 < y) p l r dims params q i" if n: "node q i (binExpr Mod l r)" and e: "extends p q" for dims params q i
      unfolding computes_def using den_mod [OF n] denotes_extends [OF _ e] by (auto simp: binExpr_def)
  qed simp
qed

lemma requireDivisor_iff:
  "r < length (poolExprs p) \<Longrightarrow> requireDivisor p r = (if isDivisor p r then returns () else throws InvalidArgument)"
  by (auto simp: requireDivisor_def isDivisor_def)

lemma quotient_spec:
  assumes ok: "poolOk p" and room: "length (poolExprs p) < kNoExpr" and l: "l < length (poolExprs p)" and r: "r < length (poolExprs p)"
    and d: "isDivisor p r"
  shows "builds p 1 (computes (div) (\<lambda>x y. 0 < y) p l r) (floorDivE p l r)"
    and "builds p 1 (computes (mod) (\<lambda>x y. 0 < y) p l r) (modE p l r)"
proof -
  let ?a = "exprValue (poolExprs p ! l)" let ?d = "exprValue (poolExprs p ! r)"
  have rd: "requireDivisor p r = returns ()" using d r by (simp add: requireDivisor_iff)
  consider "opAt p r = Const" "?d = 1" | "opAt p r = Const" "1 < ?d" "opAt p l = Const" | "opAt p r = Const \<longrightarrow> 1 < ?d" "\<not> (opAt p l = Const \<and> opAt p r = Const)"
    using d by (fastforce simp: isDivisor_def)
  then have "builds p 1 (computes (div) (\<lambda>x y. 0 < y) p l r) (floorDivE p l r) \<and>
    builds p 1 (computes (mod) (\<lambda>x y. 0 < y) p l r) (modE p l r)"
  proof cases
    case 1
    have one: "denotes p dims params r y \<Longrightarrow> y = 1" for dims params y using denotes_const 1 by fastforce
    have "floorDivE p l r = returns (l, p)" using 1 rd l r by (simp add: floorDivE_def)
    moreover have "computes (div) (\<lambda>x y. 0 < y) p l r dims params p l" for dims params by (rule computes_left) (use one in fastforce)
    moreover have "modE p l r = returns (constantE p 0)" using 1 rd l r by (simp add: modE_def)
    moreover have "builds p 1 (computes (mod) (\<lambda>x y. 0 < y) p l r) (returns (constantE p 0))"
      by (rule builds_constant [OF ok _ room]) (use one in \<open>fastforce simp: computes_def in_int64_def int64_min_def int64_max_def\<close>)+
    ultimately show ?thesis using builds_same [OF ok l] by simp
  next
    case 2
    have ra: "in_int64 ?a" "in_int64 ?d" using const_in_range [OF ok] l r 2 by auto
    have va: "denotes p dims params l x \<Longrightarrow> x = ?a" "denotes p dims params r y \<Longrightarrow> y = ?d" for dims params x y
      using denotes_const 2 by auto
    have "floorDivE p l r = returns (constantE p (?a div ?d))" "modE p l r = returns (constantE p (?a mod ?d))"
      using 2 rd l r floor_laws [of ?d ?a] by (simp_all add: floorDivE_def modE_def)
    moreover have "builds p 1 (computes (div) (\<lambda>x y. 0 < y) p l r) (returns (constantE p (?a div ?d)))"
      by (rule builds_constant [OF ok div_in_range [OF ra(1)] room]) (use va 2 in \<open>auto simp: computes_def\<close>)
    moreover have "builds p 1 (computes (mod) (\<lambda>x y. 0 < y) p l r) (returns (constantE p (?a mod ?d)))"
      by (rule builds_constant [OF ok mod_in_range [OF ra(2)] room]) (use va 2 in \<open>auto simp: computes_def\<close>)
    ultimately show ?thesis by simp
  next
    case 3
    have "divisorOk p r" using 3 d by (auto simp: divisorOk_def isDivisor_def)
    moreover have "floorDivE p l r = returns (intern p (binExpr FloorDiv l r))" "modE p l r = returns (intern p (binExpr Mod l r))"
      using 3 rd l r by (auto simp: floorDivE_def modE_def)
    ultimately show ?thesis using builds_internDiv [OF ok room l r] 3(2) by simp
  qed
  then show "builds p 1 (computes (div) (\<lambda>x y. 0 < y) p l r) (floorDivE p l r)"
    "builds p 1 (computes (mod) (\<lambda>x y. 0 < y) p l r) (modE p l r)" by auto
qed

end
