(* ===== verification/Index_Eval.thy ===== *)
theory Index_Eval
  imports Index_Builders
begin

text \<open>
  Evaluation is exact up to overflow, and an affine form is the expression it comes from.
\<close>

definition halts :: "'a outcome \<Rightarrow> bool" where
  "halts m \<longleftrightarrow> m \<noteq> None"

definition exact :: "int outcome \<Rightarrow> (int \<Rightarrow> bool) \<Rightarrow> bool" where
  "exact r D \<longleftrightarrow> halts r \<and> (\<forall>v. r = returns v \<longrightarrow> D v) \<and> (\<forall>v. D v \<longrightarrow> r = returns v \<or> r = throws OverflowError)"

definition dot :: "int list \<Rightarrow> int list \<Rightarrow> int" where
  "dot cs ds = sum_list (map2 (*) cs ds)"

definition affineValue :: "AffineForm \<Rightarrow> int list \<Rightarrow> int" where
  "affineValue f dims = affConstant f + dot (affCoeffs f) dims"

section \<open>Evaluation is exact\<close>

lemma halts_simps [simp]: "halts (returns x)" "halts (throws e)" "\<not> halts None"
  by (simp_all add: halts_def returns_def throws_def)

lemma haltsE:
  assumes "halts m"
  obtains (err) e where "m = throws e" | (ok) x where "m = returns x"
proof (cases m)
  case (Some r)
  then show ?thesis using err ok by (cases r) (auto simp: returns_def throws_def)
qed (use assms in simp)

lemma halts_bindO: "halts m \<Longrightarrow> (\<And>x. m = returns x \<Longrightarrow> halts (f x)) \<Longrightarrow> halts (bindO m f)"
  by (erule haltsE) auto

lemma bindO_returns:
  assumes "bindO m f = returns y"
  obtains x where "m = returns x" "f x = returns y"
proof -
  have "halts m" using assms by (cases m) (auto simp: halts_def)
  then show ?thesis using assms that by (cases rule: haltsE) auto
qed

text \<open>\<open>exact r D\<close>: the outcome \<open>r\<close> is a value that satisfies \<open>D\<close>, or an exception; a value that
  satisfies \<open>D\<close> is missed only by overflow.\<close>

lemma exact_halts: "exact r D \<Longrightarrow> halts r"
  by (simp add: exact_def)

lemma exact_bind2:
  assumes a: "exact ra A" and b: "exact rb B"
    and f: "\<And>x y. A x \<Longrightarrow> B y \<Longrightarrow> exact (f x y) (D x y)"
    and D: "\<And>v. E v \<longleftrightarrow> (\<exists>x y. A x \<and> B y \<and> D x y v)" and uA: "\<And>x y. A x \<Longrightarrow> A y \<Longrightarrow> x = y" and uB: "\<And>x y. B x \<Longrightarrow> B y \<Longrightarrow> x = y"
  shows "exact (bindO ra (\<lambda>x. bindO rb (\<lambda>y. f x y))) E"
proof -
  have n: "halts ra" "halts rb" using a b by (auto simp: exact_def)
  from n(1) show ?thesis
  proof (cases rule: haltsE)
    case (err e)
    then have "A x \<Longrightarrow> e = OverflowError" for x using a by (auto simp: exact_def)
    then show ?thesis using err D by (auto simp: exact_def)
  next
    case x: (ok x)
    then have Ax: "A x" using a by (simp add: exact_def)
    from n(2) show ?thesis
    proof (cases rule: haltsE)
      case (err e)
      then have "B y \<Longrightarrow> e = OverflowError" for y using b by (auto simp: exact_def)
      then show ?thesis using err x D by (auto simp: exact_def)
    next
      case y: (ok y)
      then have By: "B y" using b by (simp add: exact_def)
      have "E v \<longleftrightarrow> D x y v" for v using D Ax By uA uB by blast
      then show ?thesis using x y f [OF Ax By] by (simp add: exact_def)
    qed
  qed
qed

lemma exact_checked:
  "exact (checkedAdd x y) (\<lambda>v. v = x + y)" "exact (checkedMul x y) (\<lambda>v. v = x * y)"
  "exact (if y \<le> 0 then throws InvalidArgument else returns (floorDivide x y)) (\<lambda>v. 0 < y \<and> v = x div y)"
  "exact (if y \<le> 0 then throws InvalidArgument else returns (floorModulo x y)) (\<lambda>v. 0 < y \<and> v = x mod y)"
  by (auto simp: exact_def checkedAdd_def checkedMul_def floor_laws)

lemma evaluate_exact:
  "poolOk p \<Longrightarrow> i < length (poolExprs p) \<Longrightarrow> exact (evaluate p i dims params) (denotes p dims params i)"
proof (induction i rule: less_induct)
  case (less i)
  let ?e = "poolExprs p ! i" let ?l = "evaluate p (exprLhs ?e) dims params" let ?r = "evaluate p (exprRhs ?e) dims params"
  note d = denotes_iff [OF less.prems(2), of dims params]
  have child: "exact ?l (denotes p dims params (exprLhs ?e))" "exact ?r (denotes p dims params (exprRhs ?e))"
    if "exprOp ?e \<in> {Add, Mul, FloorDiv, Mod}"
    using exprOk_children [OF poolOkD [OF less.prems] that] less.IH less.prems by auto
  have step: "exact (bindO ?l (\<lambda>x. bindO ?r (\<lambda>y. f x y))) (denotes p dims params i)"
    if "exprOp ?e \<in> {Add, Mul, FloorDiv, Mod}" "\<And>x y. exact (f x y) (D x y)"
      "\<And>v. denotes p dims params i v \<longleftrightarrow>
        (\<exists>x y. denotes p dims params (exprLhs ?e) x \<and> denotes p dims params (exprRhs ?e) y \<and> D x y v)" for f D
    by (rule exact_bind2 [where D = D, OF child [OF that(1)] that(2,3)]) (auto intro: denotes_unique)
  have e: "exprAt p i = returns ?e" using less.prems(2) by simp
  show ?case
  proof (cases "exprOp ?e")
    case Const
    then show ?thesis using d(1) e by (subst evaluate.simps) (simp add: exact_def)
  next
    case Dim
    then show ?thesis using d(2) e by (subst evaluate.simps) (auto simp: exact_def spanAt_def)
  next
    case Param
    then show ?thesis using d(3) e by (subst evaluate.simps) (auto simp: exact_def spanAt_def split: option.splits)
  next
    case Add
    then show ?thesis using step [OF _ exact_checked(1)] d(4) e by (subst evaluate.simps) simp
  next
    case Mul
    then show ?thesis using step [OF _ exact_checked(2)] d(5) e by (subst evaluate.simps) simp
  next
    case FloorDiv
    then show ?thesis using step [OF _ exact_checked(3)] d(6) e by (subst evaluate.simps) simp
  next
    case Mod
    then show ?thesis using step [OF _ exact_checked(4)] d(7) e by (subst evaluate.simps) simp
  qed
qed

lemma mentionsDim_spec:
  "poolOk p \<Longrightarrow> i < length (poolExprs p) \<Longrightarrow>
   \<exists>b. mentionsDim p i = returns b \<and>
     (\<not> b \<longrightarrow> (\<forall>dims dims' params v. denotes p dims params i v \<longrightarrow> denotes p dims' params i v))"
proof (induction i rule: less_induct)
  case (less i)
  let ?e = "poolExprs p ! i"
  note d = denotes_iff [OF less.prems(2)]
  have e: "exprAt p i = returns ?e" using less.prems(2) by simp
  show ?case
  proof (cases "exprOp ?e \<in> {Add, Mul, FloorDiv, Mod}")
    case False
    then show ?thesis using d(1,3) e by (subst mentionsDim.simps) (cases "exprOp ?e"; auto)
  next
    case True
    then have ch: "exprLhs ?e < i" "exprRhs ?e < i" using exprOk_children [OF poolOkD [OF less.prems]] by auto
    have lr: "exprLhs ?e < length (poolExprs p)" "exprRhs ?e < length (poolExprs p)" using ch less.prems(2) by auto
    from less.IH [OF ch(1) less.prems(1) lr(1)] obtain a where a: "mentionsDim p (exprLhs ?e) = returns a"
      "\<not> a \<longrightarrow> (\<forall>dims dims' params v. denotes p dims params (exprLhs ?e) v \<longrightarrow> denotes p dims' params (exprLhs ?e) v)" by blast
    from less.IH [OF ch(2) less.prems(1) lr(2)] obtain b where b: "mentionsDim p (exprRhs ?e) = returns b"
      "\<not> b \<longrightarrow> (\<forall>dims dims' params v. denotes p dims params (exprRhs ?e) v \<longrightarrow> denotes p dims' params (exprRhs ?e) v)" by blast
    have "mentionsDim p i = returns (a \<or> b)" using True e a(1) b(1) by (subst mentionsDim.simps) auto
    moreover have "denotes p dims' params i v" if "\<not> (a \<or> b)" "denotes p dims params i v" for dims dims' params v
    proof -
      have x: "denotes p dims params (exprLhs ?e) w \<Longrightarrow> denotes p dims' params (exprLhs ?e) w"
        "denotes p dims params (exprRhs ?e) w \<Longrightarrow> denotes p dims' params (exprRhs ?e) w" for w using a(2) b(2) that(1) by blast+
      from True consider "exprOp ?e = Add" | "exprOp ?e = Mul" | "exprOp ?e = FloorDiv" | "exprOp ?e = Mod" by blast
      then show ?thesis by cases (use that(2) x d(4-7) in \<open>metis\<close>)+
    qed
    ultimately show ?thesis by blast
  qed
qed

section \<open>Affine forms\<close>

lemma dot_Cons [simp]: "dot (c # cs) (d # ds) = c * d + dot cs ds"
  by (simp add: dot_def)

lemma dot_Nil [simp]: "dot [] ds = 0" "dot cs [] = 0"
  by (simp_all add: dot_def)

lemma dot_zeros: "dot (replicate n 0) ds = 0"
proof (induction n arbitrary: ds)
  case (Suc n) then show ?case by (cases ds) simp_all
qed simp

lemma dot_unit: "k < n \<Longrightarrow> n = length ds \<Longrightarrow> dot ((replicate n 0)[k := 1]) ds = ds ! k"
proof (induction n arbitrary: k ds)
  case (Suc n)
  then obtain d ds' where ds: "ds = d # ds'" by (cases ds) auto
  show ?case
  proof (cases k)
    case 0 then show ?thesis using ds dot_zeros by simp
  next
    case (Suc j) then show ?thesis using ds Suc.IH [of j ds'] Suc.prems \<open>\<And>k ds. k < n \<Longrightarrow> n = length ds \<Longrightarrow> dot ((replicate n 0)[k := 1]) ds = ds ! k\<close> by simp
  qed
qed simp

lemma dot_add: "length cs = length es \<Longrightarrow> dot (map2 (+) cs es) ds = dot cs ds + dot es ds"
proof (induction cs es arbitrary: ds rule: list_induct2)
  case (Cons c cs e es) then show ?case by (cases ds) (simp_all add: algebra_simps)
qed simp

lemma dot_scale: "dot (map ((*) k) cs) ds = k * dot cs ds"
proof (induction cs arbitrary: ds)
  case (Cons c cs) then show ?case by (cases ds) (simp_all add: algebra_simps)
qed simp

lemma mapO_returns: "mapO f xs = returns ys \<Longrightarrow> list_all2 (\<lambda>x y. f x = returns y) xs ys"
  by (induction xs arbitrary: ys) (auto elim!: bindO_returns)

lemma mapO_halts: "\<forall>x \<in> set xs. halts (f x) \<Longrightarrow> halts (mapO f xs)"
  by (induction xs) (auto intro!: halts_bindO)

lemma checked_returns:
  "checkedAdd a b = returns c \<Longrightarrow> c = a + b" "checkedMul a b = returns c \<Longrightarrow> c = a * b"
  "halts (checkedAdd a b)" "halts (checkedMul a b)"
  by (auto simp: checkedAdd_def checkedMul_def split: if_splits)

lemma mapO_checkedAdd: "mapO (\<lambda>(x, y). checkedAdd x y) (zip cs es) = returns zs \<Longrightarrow> zs = map2 (+) cs es"
proof -
  assume "mapO (\<lambda>(x, y). checkedAdd x y) (zip cs es) = returns zs"
  note a = mapO_returns [OF this, unfolded list_all2_conv_all_nth]
  have "zs ! i = map2 (+) cs es ! i" if "i < length zs" for i
  proof -
    have "i < length cs" "i < length es" using a that by auto
    then have "zs ! i = cs ! i + es ! i" using a checked_returns(1) [of "cs ! i" "es ! i" "zs ! i"] by simp
    then show ?thesis using \<open>i < length cs\<close> \<open>i < length es\<close> by (simp add: nth_map)
  qed
  then show ?thesis using a by (intro nth_equalityI) simp_all
qed

lemma mapO_checkedMul: "mapO (checkedMul k) cs = returns zs \<Longrightarrow> zs = map ((*) k) cs"
  by (drule mapO_returns) (auto simp: list_all2_conv_all_nth list_eq_iff_nth_eq dest: checked_returns(2))


lemma affineSum_spec:
  "halts (affineSum a b)"
  "affineSum (Some x) (Some y) = returns (Some f) \<Longrightarrow> length (affCoeffs x) = n \<Longrightarrow> length (affCoeffs y) = n \<Longrightarrow>
    length (affCoeffs f) = n \<and> affineValue f dims = affineValue x dims + affineValue y dims"
  "affineSum a b = returns (Some f) \<Longrightarrow> a \<noteq> None \<and> b \<noteq> None"
proof -
  show "halts (affineSum a b)" unfolding affineSum_def
    by (auto intro!: halts_bindO mapO_halts checked_returns)
  show "affineSum a b = returns (Some f) \<Longrightarrow> a \<noteq> None \<and> b \<noteq> None" by (auto simp: affineSum_def split: if_splits)
  assume s: "affineSum (Some x) (Some y) = returns (Some f)" and n: "length (affCoeffs x) = n" "length (affCoeffs y) = n"
  then obtain c cs where f: "checkedAdd (affConstant x) (affConstant y) = returns c"
    "mapO (\<lambda>(x, y). checkedAdd x y) (zip (affCoeffs x) (affCoeffs y)) = returns cs" "f = \<lparr>affConstant = c, affCoeffs = cs\<rparr>"
    by (auto simp: affineSum_def elim!: bindO_returns)
  show "length (affCoeffs f) = n \<and> affineValue f dims = affineValue x dims + affineValue y dims"
    using n f(3) checked_returns(1) [OF f(1)] mapO_checkedAdd [OF f(2)] by (simp add: affineValue_def dot_add)
qed

lemma affineProduct_spec:
  "halts (affineProduct a b)"
  "affineProduct (Some x) (Some y) = returns (Some f) \<Longrightarrow> length (affCoeffs y) = n \<Longrightarrow>
    length (affCoeffs f) = n \<and> affineValue f dims = affConstant x * affineValue y dims"
  "affineProduct a b = returns (Some f) \<Longrightarrow> a \<noteq> None \<and> b \<noteq> None"
proof -
  show "halts (affineProduct a b)" unfolding affineProduct_def
    by (auto intro!: halts_bindO mapO_halts checked_returns)
  show "affineProduct a b = returns (Some f) \<Longrightarrow> a \<noteq> None \<and> b \<noteq> None" by (auto simp: affineProduct_def split: if_splits)
  assume s: "affineProduct (Some x) (Some y) = returns (Some f)" and n: "length (affCoeffs y) = n"
  then obtain c cs where f: "checkedMul (affConstant x) (affConstant y) = returns c"
    "mapO (checkedMul (affConstant x)) (affCoeffs y) = returns cs" "f = \<lparr>affConstant = c, affCoeffs = cs\<rparr>"
    by (auto simp: affineProduct_def elim!: bindO_returns)
  show "length (affCoeffs f) = n \<and> affineValue f dims = affConstant x * affineValue y dims"
    using n f(3) checked_returns(2) [OF f(1)] mapO_checkedMul [OF f(2)] by (simp add: affineValue_def dot_scale algebra_simps)
qed

lemma affineQuotient_spec:
  assumes "poolOk p" "i < length (poolExprs p)" "mentionsDim p i = returns m"
  shows "halts (affineQuotient p i n params m)"
    and "affineQuotient p i n params m = returns (Some f) \<Longrightarrow> length (affCoeffs f) = n \<and> denotes p dims params i (affineValue f dims)"
proof -
  note ex = evaluate_exact [OF assms(1,2), of "[]" params]
  show "halts (affineQuotient p i n params m)"
    using exact_halts [OF ex]
    by (cases rule: haltsE) (auto simp: affineQuotient_def returns_def throws_def halts_def split: SemError.splits)
  assume a: "affineQuotient p i n params m = returns (Some f)"
  then have "\<not> m" by (auto simp: affineQuotient_def)
  then have nd: "denotes p [] params i v \<Longrightarrow> denotes p dims params i v" for v
    using mentionsDim_spec [OF assms(1,2)] assms(3) by auto
  obtain v where v: "evaluate p i [] params = returns v" "f = \<lparr>affConstant = v, affCoeffs = replicate n 0\<rparr>"
    using a \<open>\<not> m\<close> by (auto simp: affineQuotient_def returns_def throws_def split: option.splits sum.splits SemError.splits)
  then show "length (affCoeffs f) = n \<and> denotes p dims params i (affineValue f dims)"
    using ex nd by (simp add: exact_def affineValue_def dot_zeros)
qed

lemma affine_factor:
  assumes "i < length (poolExprs p)" "opAt p i \<in> {Const, Param}" "affine p i n params = returns (Some f)"
  shows "denotes p dims params i (affConstant f)"
  using assms(2,3) denotes_iff(1,3) [OF assms(1)] assms(1)
  by (subst (asm) affine.simps) (auto simp: spanAt_def split: if_splits option.splits)

lemma affine_spec:
  "poolOk p \<Longrightarrow> i < length (poolExprs p) \<Longrightarrow>
   halts (affine p i n params) \<and>
   (\<forall>f. affine p i n params = returns (Some f) \<longrightarrow> length (affCoeffs f) = n \<and>
     (\<forall>dims. length dims = n \<longrightarrow> denotes p dims params i (affineValue f dims)))"
proof (induction i rule: less_induct)
  case (less i)
  let ?e = "poolExprs p ! i" let ?l = "affine p (exprLhs ?e) n params" let ?r = "affine p (exprRhs ?e) n params"
  note d = denotes_iff [OF less.prems(2)]
  have e: "exprAt p i = returns ?e" using less.prems(2) by simp
  have ch: "exprLhs ?e < i" "exprRhs ?e < i" if "exprOp ?e \<in> {Add, Mul, FloorDiv, Mod}"
    using exprOk_children [OF poolOkD [OF less.prems] that] by auto
  have IH: "halts ?l" "halts ?r"
    "?l = returns (Some f) \<Longrightarrow> length (affCoeffs f) = n \<and> (\<forall>dims. length dims = n \<longrightarrow> denotes p dims params (exprLhs ?e) (affineValue f dims))"
    "?r = returns (Some f) \<Longrightarrow> length (affCoeffs f) = n \<and> (\<forall>dims. length dims = n \<longrightarrow> denotes p dims params (exprRhs ?e) (affineValue f dims))"
    if "exprOp ?e \<in> {Add, Mul, FloorDiv, Mod}" for f
    using less.IH [OF ch(1) [OF that] less.prems(1)] less.IH [OF ch(2) [OF that] less.prems(1)] ch [OF that] less.prems(2) by auto
  have quotient: ?case if q: "exprOp ?e = FloorDiv \<or> exprOp ?e = Mod"
  proof -
    have lr: "exprLhs ?e < i" "exprRhs ?e < i" using ch q by auto
    have dv: "mentionsDim p (exprRhs ?e) = returns False"
      using poolOkD [OF less.prems] q lr less.prems(2)
      by (subst mentionsDim.simps) (auto simp: exprOk.simps divisorOk_def)
    obtain m where m: "mentionsDim p (exprLhs ?e) = returns m"
      using mentionsDim_spec [OF less.prems(1), of "exprLhs ?e"] lr less.prems(2) by auto
    have "mentionsDim p i = returns m" using q e m dv by (subst mentionsDim.simps) auto
    note s = affineQuotient_spec [OF less.prems this]
    have "affine p i n params = affineQuotient p i n params m" using q e m by (subst affine.simps) auto
    then show ?case using s by auto
  qed
  show ?case
  proof (cases "exprOp ?e")
    case Const
    then show ?thesis using d(1) e by (subst (1 2) affine.simps) (simp add: affineValue_def dot_zeros)
  next
    case Dim
    then show ?thesis using d(2) e by (subst (1 2) affine.simps) (auto simp: affineValue_def dot_unit split: if_splits)
  next
    case Param
    then show ?thesis using d(3) e
      by (subst (1 2) affine.simps) (auto simp: affineValue_def dot_zeros spanAt_def split: if_splits option.splits)
  next
    case Add
    then have eq: "affine p i n params = bindO ?l (\<lambda>a. bindO ?r (\<lambda>b. affineSum a b))" using e by (subst affine.simps) simp
    have "halts (affine p i n params)" unfolding eq using IH(1,2) Add affineSum_spec(1) by (intro halts_bindO) auto
    moreover have "length (affCoeffs f) = n \<and> (\<forall>dims. length dims = n \<longrightarrow> denotes p dims params i (affineValue f dims))"
      if "affine p i n params = returns (Some f)" for f
    proof -
      from that [unfolded eq] obtain a b where ab: "?l = returns a" "?r = returns b" "affineSum a b = returns (Some f)"
        by (elim bindO_returns) blast
      then obtain x y where "a = Some x" "b = Some y" using affineSum_spec(3) by blast
      then show ?thesis using IH(3,4) Add ab affineSum_spec(2) [of x y f n] d(4) by auto
    qed
    ultimately show ?thesis by blast
  next
    case Mul
    then have eq: "affine p i n params = bindO ?l (\<lambda>a. bindO ?r (\<lambda>b. affineProduct a b))" using e by (subst affine.simps) simp
    have "halts (affine p i n params)" unfolding eq using IH(1,2) Mul affineProduct_spec(1) by (intro halts_bindO) auto
    moreover have "length (affCoeffs f) = n \<and> (\<forall>dims. length dims = n \<longrightarrow> denotes p dims params i (affineValue f dims))"
      if "affine p i n params = returns (Some f)" for f
    proof -
      from that [unfolded eq] obtain a b where ab: "?l = returns a" "?r = returns b" "affineProduct a b = returns (Some f)"
        by (elim bindO_returns) blast
      then obtain x y where xy: "a = Some x" "b = Some y" using affineProduct_spec(3) by blast
      have "opAt p (exprLhs ?e) \<in> {Const, Param}" using poolOkD [OF less.prems] Mul by (auto simp: exprOk.simps)
      then have "denotes p dims params (exprLhs ?e) (affConstant x)" for dims
        using affine_factor ab(1) xy(1) ch(1) Mul less.prems(2) by auto
      moreover have y: "length (affCoeffs y) = n" "length dims = n \<Longrightarrow> denotes p dims params (exprRhs ?e) (affineValue y dims)" for dims
        using IH(4) Mul ab(2) xy(2) by auto
      moreover have "affineProduct (Some x) (Some y) = returns (Some f)" using ab(3) xy by simp
      note affineProduct_spec(2) [OF this y(1)]
      ultimately show ?thesis using d(5) [OF Mul] by blast
    qed
    ultimately show ?thesis by blast
  qed (use quotient in auto)
qed

end
