(* ===== verification/Index_Instance.thy ===== *)
theory Index_Instance
  imports Index_Eval
begin

text \<open>
  Instances (\<open>IndexedInstance\<close>), their validation, strided views, reduction laws and instantiation,
  as \<open>src/core/index_semantics.cpp\<close> and its header have them.
\<close>

datatype DimRole = Parallel | Reduction | Sequential

datatype ParamSource = Extent | Static | Runtime | Derived

record InstParam =
  paramName :: string
  paramSource :: ParamSource
  paramOperand :: nat
  paramAxis :: nat
  paramValue :: "int option"
  paramDefinition :: nat

datatype Rel = Eq | Le | Lt

record Constraint =
  conLhs :: nat
  conRel :: Rel
  conRhs :: nat

type_synonym Predicate = "Constraint list"

record InstDim =
  dimName :: string
  dimExtent :: nat
  dimRole :: DimRole

record Domain =
  domDims :: "InstDim list"
  domParams :: "InstParam list"
  domConstraints :: Predicate
  domGuard :: Predicate

datatype OnInvalid = Unreachable | Fault | Excluded | Padding

record Indirect =
  indIndexOperand :: nat
  indIndexCoords :: "nat list"
  indAxis :: nat

datatype AccessKind = AffineAccess | IndirectAccess | Whole | NoneAccess

record Access =
  accKind :: AccessKind
  accCoords :: "nat list"
  accValid :: Predicate
  accOnInvalid :: OnInvalid
  accPadding :: nat
  accIndirect :: "Indirect option"

datatype WriteMode = Unique | Combine | OrderedOverwrite

record Write =
  wrCoords :: "nat list"
  wrValid :: Predicate
  wrMode :: WriteMode
  wrIndirect :: "Indirect option"

definition kNoLaw :: nat where
  "kNoLaw = 255"

record OperandCheck =
  chkOperand :: nat
  chkParam :: nat
  chkLower :: nat
  chkUpper :: nat
  chkOnInvalid :: OnInvalid

record IndexedInstance =
  instExprs :: ExprPool
  instDomain :: Domain
  instNorm :: "Access list"
  instWith :: "Access list"
  instOutput :: Write
  instChecks :: "OperandCheck list"
  instLaw :: nat

definition paramValues :: "Domain \<Rightarrow> int option list" where
  "paramValues d = map paramValue (domParams d)"

fun extentLoop :: "ExprPool \<Rightarrow> int option list \<Rightarrow> InstDim list \<Rightarrow> int list \<Rightarrow> int list option outcome" where
  "extentLoop p vals [] acc = returns (Some acc)"
| "extentLoop p vals (d # ds) acc =
     (case evaluate p (dimExtent d) [] vals of
        None \<Rightarrow> None
      | Some (Inl err) \<Rightarrow> if err = InvalidArgument then returns None else throws err
      | Some (Inr v) \<Rightarrow> extentLoop p vals ds (acc @ [v]))"

definition extents :: "IndexedInstance \<Rightarrow> int list option outcome" where
  "extents inst = extentLoop (instExprs inst) (paramValues (instDomain inst)) (domDims (instDomain inst)) []"

fun relHolds :: "Rel \<Rightarrow> int \<Rightarrow> int \<Rightarrow> bool" where
  "relHolds Eq a b \<longleftrightarrow> a = b"
| "relHolds Le a b \<longleftrightarrow> a \<le> b"
| "relHolds Lt a b \<longleftrightarrow> a < b"

fun holdsLoop :: "ExprPool \<Rightarrow> int option list \<Rightarrow> int list \<Rightarrow> Predicate \<Rightarrow> bool outcome" where
  "holdsLoop p vals point [] = returns True"
| "holdsLoop p vals point (c # cs) =
     bindO (evaluate p (conLhs c) point vals) (\<lambda>a.
     bindO (evaluate p (conRhs c) point vals) (\<lambda>b.
       if relHolds (conRel c) a b then holdsLoop p vals point cs else returns False))"

definition holds :: "IndexedInstance \<Rightarrow> Predicate \<Rightarrow> int list \<Rightarrow> bool outcome" where
  "holds inst predicate point = holdsLoop (instExprs inst) (paramValues (instDomain inst)) point predicate"

text \<open>A problem, with what its message names.\<close>

datatype Problem =
    NotInInstance nat | DimNotInDomain int | ParamNotInDomain int
  | BadDivisor | DivisorNotPositive string int | DivisorUnknown string
  | DefinedByDim string | ExtentOfDim string | ConstraintOfDim
  | IndirectWithoutIndex
  | CheckOperand nat | CheckParam nat | CheckNotArgument string | CheckOtherOperand nat string
  | CheckUnbounded | CheckBoundOfDim
  | ReductionUnique | CombineWithoutLaw | LawWithoutCombine | LawNotDeclared nat

definition outside :: "int \<Rightarrow> 'a list \<Rightarrow> bool" where
  "outside v xs \<longleftrightarrow> v < 0 \<or> length xs \<le> nat v"

fun requiredPositive :: "ExprPool \<Rightarrow> nat \<Rightarrow> Predicate \<Rightarrow> bool outcome" where
  "requiredPositive p i [] = returns False"
| "requiredPositive p i (c # cs) =
     (if conRhs c \<noteq> i \<or> length (poolExprs p) \<le> conLhs c then requiredPositive p i cs
      else bindO (constantValue p (conLhs c)) (\<lambda>bound.
             if bound \<noteq> None \<and> (conRel c = Le \<and> 1 \<le> the bound \<or> conRel c = Lt \<and> 0 \<le> the bound) then returns True
             else requiredPositive p i cs))"

definition validDivisor :: "IndexedInstance \<Rightarrow> nat \<Rightarrow> Problem option outcome" where
  "validDivisor inst i =
     (let p = instExprs inst; params = domParams (instDomain inst)
      in if length (poolExprs p) \<le> i then returns (Some (NotInInstance i))
         else bindO (exprAt p i) (\<lambda>d.
           if exprOp d = Const \<and> 0 < exprValue d then returns None
           else if exprOp d \<noteq> Param \<or> outside (exprValue d) params then returns (Some BadDivisor)
           else let q = params ! nat (exprValue d)
                in case paramValue q of
                     Some v \<Rightarrow> problemIf (\<not> 0 < v) (DivisorNotPositive (paramName q) v)
                   | None \<Rightarrow> bindO (requiredPositive p i (domConstraints (instDomain inst))) (\<lambda>ok.
                               problemIf (\<not> ok) (DivisorUnknown (paramName q)))))"

partial_function (option) validExpr :: "IndexedInstance \<Rightarrow> nat \<Rightarrow> Problem option outcome" where
  "validExpr inst i =
     (if length (poolExprs (instExprs inst)) \<le> i then returns (Some (NotInInstance i))
      else bindO (exprAt (instExprs inst) i) (\<lambda>e.
        case exprOp e of
          Const \<Rightarrow> returns None
        | Dim \<Rightarrow> problemIf (outside (exprValue e) (domDims (instDomain inst))) (DimNotInDomain (exprValue e))
        | Param \<Rightarrow> problemIf (outside (exprValue e) (domParams (instDomain inst))) (ParamNotInDomain (exprValue e))
        | Add \<Rightarrow> andThen (validExpr inst (exprLhs e)) (validExpr inst (exprRhs e))
        | Mul \<Rightarrow> andThen (validExpr inst (exprLhs e)) (validExpr inst (exprRhs e))
        | _ \<Rightarrow> andThen (validDivisor inst (exprRhs e))
                 (andThen (validExpr inst (exprLhs e)) (validExpr inst (exprRhs e)))))"

definition validPredicate :: "IndexedInstance \<Rightarrow> Predicate \<Rightarrow> Problem option outcome" where
  "validPredicate inst = firstProblem (\<lambda>c. andThen (validExpr inst (conLhs c)) (validExpr inst (conRhs c)))"

definition validCoords :: "IndexedInstance \<Rightarrow> nat list \<Rightarrow> bool \<Rightarrow> Problem option outcome" where
  "validCoords inst ids allowEmptySlot =
     firstProblem (\<lambda>i. if i = kNoExpr \<and> allowEmptySlot then returns None else validExpr inst i) ids"

definition noDim :: "IndexedInstance \<Rightarrow> nat \<Rightarrow> Problem \<Rightarrow> Problem option outcome" where
  "noDim inst i e = bindO (mentionsDim (instExprs inst) i) (\<lambda>m. problemIf m e)"

definition validParam :: "IndexedInstance \<Rightarrow> InstParam \<Rightarrow> Problem option outcome" where
  "validParam inst p =
     (if paramDefinition p = kNoExpr then returns None
      else andThen (validExpr inst (paramDefinition p)) (noDim inst (paramDefinition p) (DefinedByDim (paramName p))))"

definition validDim :: "IndexedInstance \<Rightarrow> InstDim \<Rightarrow> Problem option outcome" where
  "validDim inst d = andThen (validExpr inst (dimExtent d)) (noDim inst (dimExtent d) (ExtentOfDim (dimName d)))"

definition validConstraint :: "IndexedInstance \<Rightarrow> Constraint \<Rightarrow> Problem option outcome" where
  "validConstraint inst c = andThen (noDim inst (conLhs c) ConstraintOfDim) (noDim inst (conRhs c) ConstraintOfDim)"

definition validAccess :: "IndexedInstance \<Rightarrow> Access \<Rightarrow> Problem option outcome" where
  "validAccess inst a =
     andThen (problemIf (accKind a = IndirectAccess \<and> accIndirect a = None) IndirectWithoutIndex)
    (andThen (validCoords inst (accCoords a) (accKind a = IndirectAccess))
    (andThen (case accIndirect a of None \<Rightarrow> returns None | Some ind \<Rightarrow> validCoords inst (indIndexCoords ind) False)
             (validPredicate inst (accValid a))))"

definition validBound :: "IndexedInstance \<Rightarrow> nat \<Rightarrow> Problem option outcome" where
  "validBound inst b =
     (if b = kNoExpr then returns None else andThen (validExpr inst b) (noDim inst b CheckBoundOfDim))"

definition validCheck :: "IndexedInstance \<Rightarrow> OperandCheck \<Rightarrow> Problem option outcome" where
  "validCheck inst c =
     (let params = domParams (instDomain inst)
      in if length (instNorm inst) \<le> chkOperand c then returns (Some (CheckOperand (chkOperand c)))
         else if length params \<le> chkParam c then returns (Some (CheckParam (chkParam c)))
         else let p = params ! chkParam c
              in if paramSource p \<noteq> Runtime \<and> paramSource p \<noteq> Static
                 then returns (Some (CheckNotArgument (paramName p)))
                 else if paramOperand p \<noteq> chkOperand c
                 then returns (Some (CheckOtherOperand (chkOperand c) (paramName p)))
                 else if chkLower c = kNoExpr \<and> chkUpper c = kNoExpr then returns (Some CheckUnbounded)
                 else andThen (validBound inst (chkLower c)) (validBound inst (chkUpper c)))"

definition validLaw :: "IndexedInstance \<Rightarrow> nat option \<Rightarrow> Problem option" where
  "validLaw inst lawCount =
     (let mode = wrMode (instOutput inst); law = instLaw inst
      in if (\<exists>d \<in> set (domDims (instDomain inst)). dimRole d = Reduction) \<and> mode = Unique then Some ReductionUnique
         else if mode = Combine \<and> law = kNoLaw then Some CombineWithoutLaw
         else if law \<noteq> kNoLaw
         then if mode \<noteq> Combine then Some LawWithoutCombine
              else if lawCount \<noteq> None \<and> the lawCount \<le> law then Some (LawNotDeclared law)
              else None
         else None)"

definition validate :: "IndexedInstance \<Rightarrow> nat option \<Rightarrow> Problem option outcome" where
  "validate inst lawCount =
     (let d = instDomain inst; out = instOutput inst
      in andThen (firstProblem (validParam inst) (domParams d))
        (andThen (firstProblem (validDim inst) (domDims d))
        (andThen (validPredicate inst (domConstraints d))
        (andThen (firstProblem (validConstraint inst) (domConstraints d))
        (andThen (validPredicate inst (domGuard d))
        (andThen (firstProblem (validAccess inst) (instNorm inst))
        (andThen (firstProblem (validAccess inst) (instWith inst))
        (andThen (validCoords inst (wrCoords out) (wrIndirect out \<noteq> None))
        (andThen (validPredicate inst (wrValid out))
        (andThen (firstProblem (validCheck inst) (instChecks inst))
                 (returns (validLaw inst lawCount))))))))))))"

record StridedView =
  viewOffset :: int
  viewStrides :: "int list"

text \<open>One axis, from the last one: the offset, the strides and the next stride.\<close>

definition viewAxis :: "AffineForm \<Rightarrow> int \<Rightarrow> int \<Rightarrow> StridedView \<Rightarrow> (StridedView \<times> int) outcome" where
  "viewAxis form extent stride view =
     bindO (checkedMul stride (affConstant form)) (\<lambda>c.
     bindO (checkedAdd (viewOffset view) c) (\<lambda>off.
     bindO (mapO (\<lambda>(s, k). bindO (checkedMul stride k) (\<lambda>m. checkedAdd s m)) (zip (viewStrides view) (affCoeffs form))) (\<lambda>strides.
     bindO (checkedMul stride extent) (\<lambda>nxt.
       returns (\<lparr>viewOffset = off, viewStrides = strides\<rparr>, nxt)))))"

fun viewLoop :: "IndexedInstance \<Rightarrow> (nat \<times> int) list \<Rightarrow> int \<Rightarrow> StridedView \<Rightarrow> StridedView option outcome" where
  "viewLoop inst [] stride view = returns (Some view)"
| "viewLoop inst ((i, extent) # axes) stride view =
     bindO (affine (instExprs inst) i (length (domDims (instDomain inst))) (paramValues (instDomain inst))) (\<lambda>form.
       case form of None \<Rightarrow> returns None
       | Some fm \<Rightarrow> bindO (viewAxis fm extent stride view) (\<lambda>r. viewLoop inst axes (snd r) (fst r)))"

text \<open>An overflow is caught: there is no view then.\<close>

definition rowMajorView :: "IndexedInstance \<Rightarrow> Access \<Rightarrow> int list \<Rightarrow> StridedView option outcome" where
  "rowMajorView inst access shape =
     (if accKind access \<noteq> AffineAccess \<or> length (accCoords access) \<noteq> length shape then returns None
      else let m = viewLoop inst (rev (zip (accCoords access) shape)) 1
                     \<lparr>viewOffset = 0, viewStrides = replicate (length (domDims (instDomain inst))) 0\<rparr>
           in if m = throws OverflowError then returns None else m)"

datatype TypeCode =
    TcInt32 | TcInt64 | TcFloat32 | TcFloat64 | TcBool | TcVoid | TcString | TcArray | TcTuple | TcStruct
  | TcFunction | TcRef | TcTypeVar | TcTypeFunc | TcEnumHole | TcTypeOf | TcComplex64 | TcComplex128
  | TcBFloat16 | TcFloat16 | TcStream | TcNever | TcOther

datatype LawKind =
    LawAdd | LawMul | LawMulAdd | LawFmaChain | LawMax | LawMin | LawArgMax | LawArgMin | LawAnd | LawOr | LawCustom

datatype LawInit = InitConstant | InitFirstContribution | InitOperand

datatype LawEmpty = EmptyInitial | EmptyFault

datatype LawOrder = Ascending | Unordered

datatype LawFinalize = FinalizeNone | DivideByCount

record ReductionLaw =
  lawName :: string
  lawKind :: LawKind
  lawInput :: TypeCode
  lawAccumulator :: TypeCode
  lawResult :: TypeCode
  lawInit :: LawInit
  lawInitBits :: nat
  lawInitOperand :: nat
  lawEmpty :: LawEmpty
  lawOrder :: LawOrder
  lawFinalize :: LawFinalize
  lawExactAssociative :: bool
  lawExactCommutative :: bool
  lawHasIdentity :: bool
  lawIdentityBits :: nat
  lawCombinerOperand :: nat

record ReorderFreedom =
  frRegroup :: bool
  frPermute :: bool
  frBlockIdentity :: bool
  frContract :: bool
  frChangePrecision :: bool

definition isFloat :: "TypeCode \<Rightarrow> bool" where
  "isFloat code \<longleftrightarrow> code = TcFloat32 \<or> code = TcFloat64"

datatype LawProblem =
    ConstantTooWide | FloatAssociative LawKind | FirstNotFault | NoInitOperand | NoCombiner | NoTypes

definition checkLaw :: "ReductionLaw \<Rightarrow> LawProblem option" where
  "checkLaw law =
     (let narrow = lawAccumulator law \<in> {TcFloat32, TcInt32, TcBool};
          floatArithmetic = (isFloat (lawAccumulator law) \<and> lawKind law \<in> {LawAdd, LawMul, LawMulAdd, LawFmaChain})
      in if narrow \<and> (lawInit law = InitConstant \<and> lawInitBits law > 0xFFFFFFFF \<or>
                      lawHasIdentity law \<and> lawIdentityBits law > 0xFFFFFFFF) then Some ConstantTooWide
         else if floatArithmetic \<and> lawExactAssociative law then Some (FloatAssociative (lawKind law))
         else if lawInit law = InitFirstContribution \<and> lawEmpty law \<noteq> EmptyFault then Some FirstNotFault
         else if lawInit law = InitOperand \<and> lawInitOperand law = 0xFF then Some NoInitOperand
         else if lawKind law = LawCustom \<and> lawCombinerOperand law = 0xFF then Some NoCombiner
         else if lawKind law \<noteq> LawCustom \<and>
                 (lawInput law = TcVoid \<or> lawAccumulator law = TcVoid \<or> lawResult law = TcVoid) then Some NoTypes
         else None)"

unbundle bit_operations_syntax

type_synonym PermissionMask = "16 word"

definition kReassociate :: PermissionMask where
  "kReassociate = push_bit 0 1"

definition kContract :: PermissionMask where
  "kContract = push_bit 1 1"

definition kChangePrecision :: PermissionMask where
  "kChangePrecision = push_bit 3 1"

definition reorderFreedom :: "ReductionLaw \<Rightarrow> PermissionMask \<Rightarrow> ReorderFreedom" where
  "reorderFreedom law granted =
     (let g = granted OR (if lawOrder law = Unordered then kReassociate else 0);
          regroup = (lawExactAssociative law \<or> g AND kReassociate \<noteq> 0)
      in \<lparr>frRegroup = regroup,
          frPermute = (lawExactCommutative law \<and> regroup),
          frBlockIdentity = (regroup \<and> lawHasIdentity law \<and> lawInit law = InitConstant \<and> lawInitBits law = lawIdentityBits law),
          frContract = (lawKind law = LawFmaChain \<or> lawKind law = LawMulAdd \<and> g AND kContract \<noteq> 0),
          frChangePrecision = (isFloat (lawAccumulator law) \<and> g AND kChangePrecision \<noteq> 0)\<rparr>)"

record NumericPolicy =
  polDefaultGrants :: PermissionMask
  polNodeGrants :: bool

definition explicitOnly :: NumericPolicy where
  "explicitOnly = \<lparr>polDefaultGrants = 0, polNodeGrants = True\<rparr>"

definition relaxed :: NumericPolicy where
  "relaxed = \<lparr>polDefaultGrants = kReassociate OR kContract, polNodeGrants = True\<rparr>"

definition strict :: NumericPolicy where
  "strict = \<lparr>polDefaultGrants = 0, polNodeGrants = False\<rparr>"

definition effective :: "NumericPolicy \<Rightarrow> PermissionMask \<Rightarrow> PermissionMask" where
  "effective pol nodeMask = polDefaultGrants pol OR (if polNodeGrants pol then nodeMask else 0)"

definition permits :: "NumericPolicy \<Rightarrow> PermissionMask \<Rightarrow> PermissionMask \<Rightarrow> bool" where
  "permits pol nodeMask required \<longleftrightarrow> effective pol nodeMask AND required = required"

definition reorderFreedomPolicy :: "ReductionLaw \<Rightarrow> PermissionMask \<Rightarrow> NumericPolicy \<Rightarrow> ReorderFreedom" where
  "reorderFreedomPolicy law nodeMask pol = reorderFreedom law (effective pol nodeMask)"

record 'cx OperatorSemantics =
  semIndexing :: "('cx \<Rightarrow> IndexedInstance option outcome) option"
  semLaws :: "ReductionLaw list"

definition checkInstance :: "IndexedInstance option \<Rightarrow> nat \<Rightarrow> IndexedInstance option outcome" where
  "checkInstance r laws =
     (case r of
        None \<Rightarrow> returns None
      | Some inst \<Rightarrow> bindO (validate inst (Some laws)) (\<lambda>pr. returns (if pr = None then Some inst else None)))"

section \<open>Instances\<close>

text \<open>\<open>invalid_argument\<close> is caught, an overflow is not.\<close>

section \<open>Validation\<close>

text \<open>\<open>static_cast<size_t>(value) >= size\<close>: a negative value is out of range too.\<close>

text \<open>\<open>lawCount\<close> is the number of laws of the operator's semantics, when they are given.\<close>

section \<open>Strided views\<close>

section \<open>Reduction laws\<close>

section \<open>Instantiation\<close>

text \<open>
  What \<open>instantiate\<close> uses of an operator's semantics: the instantiation function of the operator,
  which is code of the modules, and the number of its laws.
\<close>

definition instantiate :: "(nat \<Rightarrow> 'cx OperatorSemantics option) \<Rightarrow> nat \<Rightarrow> 'cx \<Rightarrow> IndexedInstance option outcome" where
  "instantiate table oper cx =
     (case table oper of
        None \<Rightarrow> returns None
      | Some s \<Rightarrow>
          (case semIndexing s of
             None \<Rightarrow> returns None
           | Some f \<Rightarrow>
               if f cx = throws InvalidArgument \<or> f cx = throws OverflowError then returns None
               else bindO (f cx) (\<lambda>r. checkInstance r (length (semLaws s)))))"

end
