(* ===== verification/Index_Validate.thy ===== *)
theory Index_Validate
  imports Index_Instance
begin

text \<open>
  What validation guarantees of the expressions of an instance.
\<close>

text \<open>A predicate on mathematical integers, as the header states constraints.\<close>

definition conSat :: "ExprPool \<Rightarrow> int list \<Rightarrow> int option list \<Rightarrow> Constraint \<Rightarrow> bool" where
  "conSat p dims params c \<longleftrightarrow>
     (\<exists>a b. denotes p dims params (conLhs c) a \<and> denotes p dims params (conRhs c) b \<and> relHolds (conRel c) a b)"

definition sat :: "ExprPool \<Rightarrow> int list \<Rightarrow> int option list \<Rightarrow> Predicate \<Rightarrow> bool" where
  "sat p dims params cs \<longleftrightarrow> (\<forall>c \<in> set cs. conSat p dims params c)"

text \<open>Values of the parameters that an analysis may meet: the known ones, and the constraints hold.\<close>

definition admits :: "IndexedInstance \<Rightarrow> int list \<Rightarrow> bool" where
  "admits inst vals \<longleftrightarrow> length vals = length (domParams (instDomain inst)) \<and>
     (\<forall>k < length vals. \<forall>v. paramValue (domParams (instDomain inst) ! k) = Some v \<longrightarrow> vals ! k = v) \<and>
     sat (instExprs inst) [] (map Some vals) (domConstraints (instDomain inst))"

definition predExprs :: "Predicate \<Rightarrow> nat list" where
  "predExprs cs = concat (map (\<lambda>c. [conLhs c, conRhs c]) cs)"

definition accExprs :: "Access \<Rightarrow> nat list" where
  "accExprs a = filter (\<lambda>i. \<not> (i = kNoExpr \<and> accKind a = IndirectAccess)) (accCoords a) @
     (case accIndirect a of None \<Rightarrow> [] | Some ind \<Rightarrow> indIndexCoords ind) @ predExprs (accValid a)"

definition checkedExprs :: "IndexedInstance \<Rightarrow> nat list" where
  "checkedExprs inst =
     filter (\<lambda>i. i \<noteq> kNoExpr) (map paramDefinition (domParams (instDomain inst))) @
     map dimExtent (domDims (instDomain inst)) @
     predExprs (domConstraints (instDomain inst)) @ predExprs (domGuard (instDomain inst)) @
     concat (map accExprs (instNorm inst @ instWith inst)) @
     filter (\<lambda>i. \<not> (i = kNoExpr \<and> wrIndirect (instOutput inst) \<noteq> None)) (wrCoords (instOutput inst)) @
     predExprs (wrValid (instOutput inst)) @
     filter (\<lambda>i. i \<noteq> kNoExpr) (concat (map (\<lambda>c. [chkLower c, chkUpper c]) (instChecks inst)))"

text \<open>The index coordinates of an indirect write, which \<open>validate\<close> does not look at.\<close>

definition scatterExprs :: "IndexedInstance \<Rightarrow> nat list" where
  "scatterExprs inst = (case wrIndirect (instOutput inst) of None \<Rightarrow> [] | Some i \<Rightarrow> indIndexCoords i)"

definition scatterOk :: "IndexedInstance \<Rightarrow> bool" where
  "scatterOk inst \<longleftrightarrow> (\<forall>i. wrIndirect (instOutput inst) = Some i \<longrightarrow> validCoords inst (indIndexCoords i) False = returns None)"

definition total :: "'a outcome \<Rightarrow> bool" where
  "total m \<longleftrightarrow> (\<exists>r. m = returns r)"

section \<open>What validation guarantees\<close>

lemma andThen_None [simp]: "andThen a b = returns None \<longleftrightarrow> a = returns None \<and> b = returns None"
  by (auto simp: andThen_def elim!: bindO_returns split: if_splits)

lemma firstProblem_None [simp]: "firstProblem f xs = returns None \<longleftrightarrow> (\<forall>x \<in> set xs. f x = returns None)"
  by (induction xs) auto

lemma problemIf_None [simp]: "problemIf b e = returns None \<longleftrightarrow> \<not> b"
  by (simp add: problemIf_def)

lemma total_returns [simp]: "total (returns r)"
  by (simp add: total_def)

lemma total_problemIf [simp]: "total (problemIf b e)"
  by (simp add: problemIf_def)

lemma totalD: "m = returns r \<Longrightarrow> total m"
  by simp

lemma total_bindO: "total m \<Longrightarrow> (\<And>x. m = returns x \<Longrightarrow> total (f x)) \<Longrightarrow> total (bindO m f)"
  by (auto simp: total_def)

lemma total_andThen: "total a \<Longrightarrow> (a = returns None \<Longrightarrow> total b) \<Longrightarrow> total (andThen a b)"
  unfolding andThen_def by (rule total_bindO) auto

lemma total_firstProblem: "(\<And>x. x \<in> set xs \<Longrightarrow> total (f x)) \<Longrightarrow> total (firstProblem f xs)"
  by (induction xs) (auto intro: total_andThen)

lemma requiredPositive_total: "total (requiredPositive p i cs)"
  by (induction cs) (auto intro!: total_bindO)

lemma requiredPositive_sound:
  "requiredPositive p i cs = returns True \<Longrightarrow> sat p dims params cs \<Longrightarrow>
   \<exists>v. denotes p dims params i v \<and> 0 < v"
proof (induction cs)
  case (Cons c cs)
  have rest: "?case" if "requiredPositive p i cs = returns True" using Cons.IH that Cons.prems(2) by (simp add: sat_def)
  show ?case
  proof (cases "conRhs c \<noteq> i \<or> length (poolExprs p) \<le> conLhs c")
    case True then show ?thesis using rest Cons.prems(1) by simp
  next
    case False
    obtain a b where ab: "denotes p dims params (conLhs c) a" "denotes p dims params i b" "relHolds (conRel c) a b"
      using Cons.prems(2) False by (auto simp: sat_def conSat_def)
    have "opAt p (conLhs c) = Const \<Longrightarrow> exprValue (poolExprs p ! conLhs c) = a" using ab(1) denotes_const by fastforce
    then show ?thesis using Cons.prems(1) False rest ab(2,3) by (auto split: if_splits)
  qed
qed simp

lemma validDivisor_total: "total (validDivisor inst i)"
  unfolding validDivisor_def Let_def
  by (auto intro!: total_bindO requiredPositive_total split: option.splits)

lemma denotes_closed:
  assumes "denotes p dims params i v" "opAt p i \<in> {Const, Param}"
  shows "denotes p dims' params i v"
  using assms denotes_iff(1,3) [OF denotes_range [OF assms(1)]] by auto

lemma validDivisor_sound:
  assumes "validDivisor inst i = returns None" "admits inst vals"
  shows "\<exists>v. denotes (instExprs inst) dims (map Some vals) i v \<and> 0 < v"
proof -
  let ?p = "instExprs inst" let ?e = "poolExprs ?p ! i" let ?ps = "domParams (instDomain inst)"
  have i: "i < length (poolExprs ?p)" using assms(1) by (auto simp: validDivisor_def Let_def split: if_splits)
  note d = denotes_iff [OF i]
  show ?thesis
  proof (cases "exprOp ?e = Const")
    case True
    then have "0 < exprValue ?e" using assms(1) i by (auto simp: validDivisor_def Let_def split: if_splits)
    then show ?thesis using d(1) True by blast
  next
    case False
    then have p: "exprOp ?e = Param" "\<not> outside (exprValue ?e) ?ps"
      using assms(1) i by (auto simp: validDivisor_def Let_def split: if_splits)
    let ?k = "nat (exprValue ?e)"
    have k: "0 \<le> exprValue ?e" "?k < length vals" using p(2) assms(2) by (auto simp: outside_def admits_def)
    then have v: "denotes ?p dims (map Some vals) i (vals ! ?k)" using d(3) [OF p(1)] by simp
    show ?thesis
    proof (cases "paramValue (?ps ! ?k)")
      case (Some x)
      then have "0 < x" using assms(1) i p by (auto simp: validDivisor_def Let_def)
      then show ?thesis using v Some assms(2) k by (auto simp: admits_def)
    next
      case None
      then have "requiredPositive ?p i (domConstraints (instDomain inst)) = returns True"
        using assms(1) i p by (auto simp: validDivisor_def Let_def elim!: bindO_returns)
      from requiredPositive_sound [OF this, of "[]" "map Some vals"] assms(2)
      obtain w where "denotes ?p [] (map Some vals) i w" "0 < w" by (auto simp: admits_def)
      then show ?thesis using denotes_closed [of ?p "[]" "map Some vals" i w dims] p(1) by auto
    qed
  qed
qed

lemma validExpr_total: "poolOk (instExprs inst) \<Longrightarrow> total (validExpr inst i)"
proof (induction i rule: less_induct)
  case (less i)
  let ?e = "poolExprs (instExprs inst) ! i"
  show ?case
  proof (cases "i < length (poolExprs (instExprs inst))")
    case True
    have "exprOp ?e \<in> {Add, Mul, FloorDiv, Mod} \<Longrightarrow> total (validExpr inst (exprLhs ?e)) \<and> total (validExpr inst (exprRhs ?e))"
      using exprOk_children [OF poolOkD [OF less.prems True]] less by auto
    then show ?thesis using True
      by (subst validExpr.simps) (cases "exprOp ?e"; simp add: total_andThen validDivisor_total)
  qed (subst validExpr.simps, simp)
qed

lemma validExpr_range: "validExpr inst i = returns None \<Longrightarrow> i < length (poolExprs (instExprs inst))"
  by (subst (asm) validExpr.simps) (auto split: if_splits)

lemma validExpr_sound:
  assumes "poolOk (instExprs inst)" "admits inst vals" "length dims = length (domDims (instDomain inst))"
  shows "validExpr inst i = returns None \<Longrightarrow> \<exists>v. denotes (instExprs inst) dims (map Some vals) i v"
proof (induction i rule: less_induct)
  case (less i)
  let ?p = "instExprs inst" let ?e = "poolExprs ?p ! i"
  have i: "i < length (poolExprs ?p)" by (rule validExpr_range [OF less.prems])
  note d = denotes_iff [OF i, of dims "map Some vals"]
  note v = less.prems [unfolded validExpr.simps [of inst i]]
  have ch: "\<exists>x. denotes ?p dims (map Some vals) (exprLhs ?e) x" "\<exists>y. denotes ?p dims (map Some vals) (exprRhs ?e) y"
    if "exprOp ?e \<in> {Add, Mul, FloorDiv, Mod}"
    using exprOk_children [OF poolOkD [OF assms(1) i] that] less.IH that v i by (auto split: if_splits)
  have dv: "\<exists>y. denotes ?p dims (map Some vals) (exprRhs ?e) y \<and> 0 < y" if "exprOp ?e \<in> {FloorDiv, Mod}"
    using validDivisor_sound [OF _ assms(2)] that v i by (auto split: if_splits)
  have vals: "length vals = length (domParams (instDomain inst))" using assms(2) by (simp add: admits_def)
  show ?case
  proof (cases "exprOp ?e")
    case Const then show ?thesis using d(1) by simp
  next
    case Dim then show ?thesis using d(2) v i assms(3) by (auto simp: outside_def)
  next
    case Param then show ?thesis using d(3) v i vals by (auto simp: outside_def)
  next
    case Add then show ?thesis using d(4) ch by blast
  next
    case Mul then show ?thesis using d(5) ch by blast
  next
    case FloorDiv then show ?thesis using d(6) ch(1) dv by blast
  next
    case Mod then show ?thesis using d(7) ch(1) dv by blast
  qed
qed

lemma noDim_total:
  assumes "poolOk (instExprs inst)" "validExpr inst i = returns None"
  shows "total (noDim inst i e)"
proof -
  obtain b where "mentionsDim (instExprs inst) i = returns b"
    using mentionsDim_spec [OF assms(1) validExpr_range [OF assms(2)]] by blast
  then show ?thesis by (simp add: noDim_def)
qed

lemma noDim_None:
  assumes "poolOk (instExprs inst)" "validExpr inst i = returns None" "noDim inst i e = returns None"
    "denotes (instExprs inst) dims params i v"
  shows "denotes (instExprs inst) dims' params i v"
proof -
  obtain b where "mentionsDim (instExprs inst) i = returns b"
    "\<not> b \<longrightarrow> (\<forall>dims dims' params v. denotes (instExprs inst) dims params i v \<longrightarrow> denotes (instExprs inst) dims' params i v)"
    using mentionsDim_spec [OF assms(1) validExpr_range [OF assms(2)]] by blast
  then show ?thesis using assms(3,4) by (auto simp: noDim_def)
qed

lemma validCoords_total: "poolOk (instExprs inst) \<Longrightarrow> total (validCoords inst ids b)"
  by (auto simp: validCoords_def intro!: total_firstProblem validExpr_total)

lemma validPredicate_total: "poolOk (instExprs inst) \<Longrightarrow> total (validPredicate inst cs)"
  by (auto simp: validPredicate_def intro!: total_firstProblem total_andThen validExpr_total)

lemma validAccess_total: "poolOk (instExprs inst) \<Longrightarrow> total (validAccess inst a)"
  unfolding validAccess_def
  by (intro total_andThen total_problemIf validCoords_total validPredicate_total) (auto split: option.splits intro: validCoords_total)

lemma validBound_total: "poolOk (instExprs inst) \<Longrightarrow> total (validBound inst b)"
  by (auto simp: validBound_def intro: total_andThen validExpr_total noDim_total)

lemma validate_total:
  assumes "poolOk (instExprs inst)"
  shows "\<exists>r. validate inst n = returns r"
proof -
  have "total (validParam inst p)" for p
    using assms by (auto simp: validParam_def intro: total_andThen validExpr_total noDim_total)
  moreover have "total (validDim inst d)" for d
    using assms by (auto simp: validDim_def intro: total_andThen validExpr_total noDim_total)
  moreover have "total (validConstraint inst c)" if "validPredicate inst cs = returns None" "c \<in> set cs" for c cs
    using assms that by (auto simp: validConstraint_def validPredicate_def intro: total_andThen noDim_total)
  moreover have "total (validCheck inst c)" for c
    using assms by (auto simp: validCheck_def Let_def intro: total_andThen validBound_total)
  ultimately have "total (validate inst n)" unfolding validate_def Let_def
    using assms by (intro total_andThen total_firstProblem total_returns validPredicate_total validAccess_total validCoords_total) auto
  then show ?thesis by (simp add: total_def)
qed

lemma predExprs_iff: "i \<in> set (predExprs cs) \<longleftrightarrow> (\<exists>c \<in> set cs. i = conLhs c \<or> i = conRhs c)"
  by (auto simp: predExprs_def)

lemma validPredicate_None: "validPredicate inst cs = returns None \<longleftrightarrow> (\<forall>i \<in> set (predExprs cs). validExpr inst i = returns None)"
  by (auto simp: validPredicate_def predExprs_def)

lemma validCoords_None:
  "validCoords inst ids b = returns None \<longleftrightarrow> (\<forall>i \<in> set (filter (\<lambda>i. \<not> (i = kNoExpr \<and> b)) ids). validExpr inst i = returns None)"
  by (auto simp: validCoords_def)

lemma validAccess_None: "validAccess inst a = returns None \<Longrightarrow> i \<in> set (accExprs a) \<Longrightarrow> validExpr inst i = returns None"
  unfolding validAccess_def accExprs_def by (auto simp: validPredicate_None validCoords_None split: option.splits)

lemma validate_None_used:
  assumes "validate inst n = returns None" "i \<in> set (checkedExprs inst)"
  shows "validExpr inst i = returns None"
proof -
  have ch: "validExpr inst b = returns None" if "validCheck inst c = returns None" "b \<in> {chkLower c, chkUpper c}" "b \<noteq> kNoExpr" for b c
    using that by (auto simp: validCheck_def Let_def validBound_def split: if_splits)
  show ?thesis
    using assms unfolding checkedExprs_def validate_def Let_def
    by (auto simp: validParam_def validDim_def validPredicate_None validCoords_None intro: validAccess_None ch)
qed

lemma validate_extent:
  assumes "validate inst n = returns None" "d \<in> set (domDims (instDomain inst))"
  shows "validExpr inst (dimExtent d) = returns None \<and> noDim inst (dimExtent d) (ExtentOfDim (dimName d)) = returns None"
  using assms by (auto simp: validate_def validDim_def Let_def)

text \<open>Every expression \<open>validate\<close> checked has a value wherever the constraints hold.\<close>

lemma validate_denotes:
  assumes "poolOk (instExprs inst)" "validate inst n = returns None" "admits inst vals"
    "i \<in> set (checkedExprs inst)" "length dims = length (domDims (instDomain inst))"
  shows "\<exists>v. denotes (instExprs inst) dims (map Some vals) i v"
  using validExpr_sound [OF assms(1,3,5) validate_None_used [OF assms(2,4)]] .

lemma scatter_valid: "scatterOk inst \<Longrightarrow> i \<in> set (scatterExprs inst) \<Longrightarrow> validExpr inst i = returns None"
  by (cases "wrIndirect (instOutput inst)") (auto simp: scatterOk_def scatterExprs_def validCoords_None)

lemma scatter_denotes:
  assumes "poolOk (instExprs inst)" "scatterOk inst" "admits inst vals"
    "i \<in> set (scatterExprs inst)" "length dims = length (domDims (instDomain inst))"
  shows "\<exists>v. denotes (instExprs inst) dims (map Some vals) i v"
  using validExpr_sound [OF assms(1,3,5) scatter_valid [OF assms(2,4)]] .

lemma valid_evaluates:
  assumes "poolOk (instExprs inst)" "validExpr inst i = returns None" "admits inst vals" "length dims = length (domDims (instDomain inst))"
  shows "\<exists>v. denotes (instExprs inst) dims (map Some vals) i v \<and> evaluate (instExprs inst) i dims (map Some vals) \<in> {returns v, throws OverflowError}"
proof -
  obtain v where v: "denotes (instExprs inst) dims (map Some vals) i v" using validExpr_sound [OF assms(1,3,4,2)] by blast
  from evaluate_exact [OF assms(1) validExpr_range [OF assms(2)]] v show ?thesis unfolding exact_def by blast
qed

lemma holdsLoop_spec:
  assumes "poolOk p" "\<forall>i \<in> set (predExprs cs). i < length (poolExprs p) \<and> (\<exists>v. denotes p dims params i v)"
  shows "holdsLoop p params dims cs = returns (sat p dims params cs) \<or> holdsLoop p params dims cs = throws OverflowError"
  using assms(2)
proof (induction cs)
  case (Cons c cs)
  let ?l = "evaluate p (conLhs c) dims params" let ?r = "evaluate p (conRhs c) dims params"
  obtain a b where ab: "denotes p dims params (conLhs c) a" "denotes p dims params (conRhs c) b"
    using Cons.prems by (auto simp: predExprs_def)
  have "?l = returns a \<or> ?l = throws OverflowError" "?r = returns b \<or> ?r = throws OverflowError"
    using evaluate_exact [OF assms(1)] Cons.prems ab unfolding exact_def by (auto simp: predExprs_def)
  moreover have "conSat p dims params c \<longleftrightarrow> relHolds (conRel c) a b"
    using ab denotes_unique unfolding conSat_def by blast
  moreover have "holdsLoop p params dims cs = returns (sat p dims params cs) \<or> holdsLoop p params dims cs = throws OverflowError"
    using Cons.IH Cons.prems by (simp add: predExprs_def)
  ultimately show ?case by (auto simp: sat_def)
qed (simp add: sat_def)

lemma extentLoop_spec:
  assumes "poolOk p" "\<forall>d \<in> set ds. dimExtent d < length (poolExprs p) \<and> (\<exists>v. denotes p [] params (dimExtent d) v)"
  shows "(\<exists>vs. extentLoop p params ds acc = returns (Some (acc @ vs)) \<and> list_all2 (\<lambda>d. denotes p [] params (dimExtent d)) ds vs) \<or>
    extentLoop p params ds acc = throws OverflowError"
  using assms(2)
proof (induction ds arbitrary: acc)
  case (Cons d ds)
  obtain v where v: "denotes p [] params (dimExtent d) v" using Cons.prems by auto
  then have "evaluate p (dimExtent d) [] params = returns v \<or> evaluate p (dimExtent d) [] params = throws OverflowError"
    using evaluate_exact [OF assms(1), of "dimExtent d" "[]" params] Cons.prems unfolding exact_def by auto
  then show ?case
  proof
    assume "evaluate p (dimExtent d) [] params = returns v"
    then have "extentLoop p params (d # ds) acc = extentLoop p params ds (acc @ [v])" by (simp add: returns_def)
    moreover note Cons.IH [of "acc @ [v]"]
    ultimately show ?thesis using Cons.prems v by auto
  qed (simp add: throws_def)
qed simp

end
