(* ===== verification/Index_Rewrite.thy ===== *)
theory Index_Rewrite
  imports Index_Validate
begin

text \<open>
  Splitting dims: the rewriter with its memo table and \<open>splitDims\<close>, and the proof that a rewritten
  expression has the meaning of the old one at the joined point. The locale \<open>pool_builder\<close> is what the
  rewriter needs of a builder; all four binary builders provide it.
\<close>

record RwState =
  rwTo :: ExprPool
  rwMemo :: "nat list"

definition onPool :: "RwState \<Rightarrow> (nat \<times> ExprPool) outcome \<Rightarrow> (nat \<times> RwState) outcome" where
  "onPool st m = bindO m (\<lambda>k. returns (fst k, st\<lparr>rwTo := snd k\<rparr>))"

text \<open>
  The order in which the two operands of a call are rewritten is unspecified in C++; here the
  left one comes first. It only decides which ids the pool hands out.
\<close>

partial_function (option) rewrite :: "ExprPool \<Rightarrow> nat list \<Rightarrow> nat \<Rightarrow> RwState \<Rightarrow> (nat \<times> RwState) outcome" where
  "rewrite from dims i st =
     (if i = kNoExpr then returns (kNoExpr, st)
      else bindO (spanAt (rwMemo st) (int i)) (\<lambda>m.
        if m \<noteq> kNoExpr then returns (m, st)
        else bindO (exprAt from i) (\<lambda>e.
          bindO (case exprOp e of
              Const \<Rightarrow> onPool st (returns (constantE (rwTo st) (exprValue e)))
            | Dim \<Rightarrow> bindO (spanAt dims (exprValue e)) (\<lambda>j. returns (j, st))
            | Param \<Rightarrow> onPool st (returns (paramE (rwTo st) (nat (exprValue e mod 2 ^ 32))))
            | Add \<Rightarrow> bindO (rewrite from dims (exprLhs e) st) (\<lambda>l.
                       bindO (rewrite from dims (exprRhs e) (snd l)) (\<lambda>r.
                         onPool (snd r) (addE (rwTo (snd r)) (fst l) (fst r))))
            | Mul \<Rightarrow> bindO (rewrite from dims (exprLhs e) st) (\<lambda>l.
                       bindO (rewrite from dims (exprRhs e) (snd l)) (\<lambda>r.
                         onPool (snd r) (mulE (rwTo (snd r)) (fst l) (fst r))))
            | FloorDiv \<Rightarrow> bindO (rewrite from dims (exprLhs e) st) (\<lambda>l.
                       bindO (rewrite from dims (exprRhs e) (snd l)) (\<lambda>r.
                         onPool (snd r) (floorDivE (rwTo (snd r)) (fst l) (fst r))))
            | Mod \<Rightarrow> bindO (rewrite from dims (exprLhs e) st) (\<lambda>l.
                       bindO (rewrite from dims (exprRhs e) (snd l)) (\<lambda>r.
                         onPool (snd r) (modE (rwTo (snd r)) (fst l) (fst r)))))
            (\<lambda>j. returns (fst j, (snd j)\<lparr>rwMemo := (rwMemo (snd j))[i := fst j]\<rparr>)))))"

definition rwList :: "ExprPool \<Rightarrow> nat list \<Rightarrow> nat list \<Rightarrow> RwState \<Rightarrow> (nat list \<times> RwState) outcome" where
  "rwList from dims = mapS (rewrite from dims)"

definition rwConstraint :: "ExprPool \<Rightarrow> nat list \<Rightarrow> Constraint \<Rightarrow> RwState \<Rightarrow> (Constraint \<times> RwState) outcome" where
  "rwConstraint from dims c st =
     bindO (rewrite from dims (conLhs c) st) (\<lambda>l. bindO (rewrite from dims (conRhs c) (snd l)) (\<lambda>r.
       returns (\<lparr>conLhs = fst l, conRel = conRel c, conRhs = fst r\<rparr>, snd r)))"

definition rwPredicate :: "ExprPool \<Rightarrow> nat list \<Rightarrow> Predicate \<Rightarrow> RwState \<Rightarrow> (Predicate \<times> RwState) outcome" where
  "rwPredicate from dims = mapS (rwConstraint from dims)"

record DimSplit =
  splitDim :: nat
  splitFactor :: int

fun splitFactors :: "DimSplit list \<Rightarrow> int list \<Rightarrow> int list outcome" where
  "splitFactors [] factor = returns factor"
| "splitFactors (s # ss) factor =
     (if length factor \<le> splitDim s \<or> splitFactor s < 1 then throws InvalidArgument
      else splitFactors ss (factor[splitDim s := splitFactor s]))"

fun splitImage :: "int list \<Rightarrow> nat \<Rightarrow> ExprPool \<Rightarrow> (nat list \<times> ExprPool) outcome" where
  "splitImage [] nxt p = returns ([], p)"
| "splitImage (f # fs) nxt p =
     (if f = 0
      then let k = dimE p nxt
           in bindO (splitImage fs (nxt + 1) (snd k)) (\<lambda>r. returns (fst k # fst r, snd r))
      else let ou = dimE p nxt; inn = dimE (snd ou) (nxt + 1)
           in bindO (scaleE (snd inn) f (fst ou)) (\<lambda>sc.
              bindO (addE (snd sc) (fst sc) (fst inn)) (\<lambda>k.
              bindO (splitImage fs (nxt + 2) (snd k)) (\<lambda>r. returns (fst k # fst r, snd r)))))"

definition splitDimDecl :: "ExprPool \<Rightarrow> nat list \<Rightarrow> InstDim \<times> int \<Rightarrow> RwState \<Rightarrow> (InstDim list \<times> RwState) outcome" where
  "splitDimDecl from img df st =
     (let old = fst df; f = snd df
      in bindO (rewrite from img (dimExtent old) st) (\<lambda>e.
           if f = 0 then returns ([old\<lparr>dimExtent := fst e\<rparr>], snd e)
           else bindO (onPool (snd e) (returns (constantE (rwTo (snd e)) f))) (\<lambda>fc.
                bindO (onPool (snd fc) (returns (constantE (rwTo (snd fc)) (f - 1)))) (\<lambda>f1.
                bindO (onPool (snd f1) (addE (rwTo (snd f1)) (fst e) (fst f1))) (\<lambda>s.
                bindO (onPool (snd s) (floorDivE (rwTo (snd s)) (fst s) (fst fc))) (\<lambda>q.
                  returns ([\<lparr>dimName = dimName old @ ''_o'', dimExtent = fst q, dimRole = dimRole old\<rparr>,
                            \<lparr>dimName = dimName old @ ''_i'', dimExtent = fst fc, dimRole = dimRole old\<rparr>], snd q)))))))"

definition splitParam :: "ExprPool \<Rightarrow> nat list \<Rightarrow> InstParam \<Rightarrow> RwState \<Rightarrow> (InstParam \<times> RwState) outcome" where
  "splitParam from img p st =
     bindO (rewrite from img (paramDefinition p) st) (\<lambda>k. returns (p\<lparr>paramDefinition := fst k\<rparr>, snd k))"

text \<open>The original bound of a split dim, added to the guard.\<close>

definition splitBound :: "ExprPool \<Rightarrow> nat list \<Rightarrow> nat \<times> InstDim \<Rightarrow> RwState \<Rightarrow> (Constraint \<times> RwState) outcome" where
  "splitBound from img jd st =
     bindO (rewrite from img (dimExtent (snd jd)) st) (\<lambda>e.
       returns (\<lparr>conLhs = fst jd, conRel = Lt, conRhs = fst e\<rparr>, snd e))"

definition rwIndirect :: "ExprPool \<Rightarrow> nat list \<Rightarrow> Indirect option \<Rightarrow> RwState \<Rightarrow> (Indirect option \<times> RwState) outcome" where
  "rwIndirect from img ind st =
     (case ind of
        None \<Rightarrow> returns (None, st)
      | Some i \<Rightarrow> bindO (rwList from img (indIndexCoords i) st) (\<lambda>ks.
                    returns (Some (i\<lparr>indIndexCoords := fst ks\<rparr>), snd ks)))"

definition rwAccess :: "ExprPool \<Rightarrow> nat list \<Rightarrow> Access \<Rightarrow> RwState \<Rightarrow> (Access \<times> RwState) outcome" where
  "rwAccess from img a st =
     bindO (rwList from img (accCoords a) st) (\<lambda>cs.
     bindO (rwPredicate from img (accValid a) (snd cs)) (\<lambda>v.
     bindO (rwIndirect from img (accIndirect a) (snd v)) (\<lambda>ind.
       returns (a\<lparr>accCoords := fst cs, accValid := fst v, accIndirect := fst ind\<rparr>, snd ind))))"

definition rwWrite :: "ExprPool \<Rightarrow> nat list \<Rightarrow> Write \<Rightarrow> RwState \<Rightarrow> (Write \<times> RwState) outcome" where
  "rwWrite from img w st =
     bindO (rwList from img (wrCoords w) st) (\<lambda>cs.
     bindO (rwPredicate from img (wrValid w) (snd cs)) (\<lambda>v.
     bindO (rwIndirect from img (wrIndirect w) (snd v)) (\<lambda>ind.
       returns (w\<lparr>wrCoords := fst cs, wrValid := fst v, wrIndirect := fst ind\<rparr>, snd ind))))"

text \<open>The old dims that are split, with their images.\<close>

definition splitBounds :: "int list \<Rightarrow> nat list \<Rightarrow> InstDim list \<Rightarrow> (nat \<times> InstDim) list" where
  "splitBounds factor img dims =
     map snd (filter (\<lambda>(f, jd). f \<noteq> 0) (zip factor (zip img dims)))"

text \<open>All that follows the new dims.\<close>

definition splitRest :: "IndexedInstance \<Rightarrow> int list \<Rightarrow> nat list \<Rightarrow> InstDim list \<Rightarrow> RwState \<Rightarrow> IndexedInstance outcome" where
  "splitRest inst factor img dims st =
     (let from = instExprs inst; d = instDomain inst
      in bindO (mapS (splitParam from img) (domParams d) st) (\<lambda>params.
         bindO (rwPredicate from img (domConstraints d) (snd params)) (\<lambda>cons.
         bindO (rwPredicate from img (domGuard d) (snd cons)) (\<lambda>guard.
         bindO (mapS (splitBound from img) (splitBounds factor img (domDims d)) (snd guard)) (\<lambda>bounds.
         bindO (mapS (rwAccess from img) (instNorm inst) (snd bounds)) (\<lambda>norm.
         bindO (mapS (rwAccess from img) (instWith inst) (snd norm)) (\<lambda>wth.
         bindO (rwWrite from img (instOutput inst) (snd wth)) (\<lambda>output.
           returns
             \<lparr>instExprs = rwTo (snd output),
              instDomain = \<lparr>domDims = dims, domParams = fst params, domConstraints = fst cons,
                            domGuard = fst guard @ fst bounds\<rparr>,
              instNorm = fst norm, instWith = fst wth, instOutput = fst output,
              instChecks = [], instLaw = instLaw inst\<rparr>))))))))"

definition splitDims :: "IndexedInstance \<Rightarrow> DimSplit list \<Rightarrow> IndexedInstance outcome" where
  "splitDims inst splits =
     (let oldDims = domDims (instDomain inst); from = instExprs inst
      in bindO (splitFactors splits (replicate (length oldDims) 0)) (\<lambda>factor.
         bindO (splitImage factor 0 emptyPool) (\<lambda>im.
         let st0 = \<lparr>rwTo = snd im, rwMemo = replicate (length (poolExprs from)) kNoExpr\<rparr>
         in bindO (mapS (splitDimDecl from (fst im)) (zip oldDims factor) st0) (\<lambda>dims.
              splitRest inst factor (fst im) (concat (fst dims)) (snd dims)))))"

text \<open>The old point of a new one: a split dim takes an outer and an inner coordinate.\<close>

fun joinPoint :: "int list \<Rightarrow> int list \<Rightarrow> int list" where
  "joinPoint [] xs = []"
| "joinPoint (f # fs) xs =
     (if f = 0 then case xs of [] \<Rightarrow> [] | x # xs' \<Rightarrow> x # joinPoint fs xs'
      else case xs of ou # inn # xs' \<Rightarrow> (f * ou + inn) # joinPoint fs xs' | _ \<Rightarrow> [])"

definition mirrors :: "int list \<Rightarrow> ExprPool \<Rightarrow> ExprPool \<Rightarrow> nat \<Rightarrow> nat \<Rightarrow> bool" where
  "mirrors fs from q i j \<longleftrightarrow> j < length (poolExprs q) \<and>
     (opAt from i \<in> {Const, Param} \<longrightarrow> opAt q j = opAt from i \<and> exprValue (poolExprs q ! j) = exprValue (poolExprs from ! i)) \<and>
     (\<forall>dims params v. denotes from (joinPoint fs dims) params i v \<longrightarrow> denotes q dims params j v)"

definition filled :: "nat list \<Rightarrow> nat" where
  "filled memo = length (filter (\<lambda>m. m \<noteq> kNoExpr) memo)"

definition rwInv :: "int list \<Rightarrow> nat list \<Rightarrow> ExprPool \<Rightarrow> nat \<Rightarrow> RwState \<Rightarrow> bool" where
  "rwInv fs img from B st \<longleftrightarrow>
     poolOk (rwTo st) \<and> length (rwMemo st) = length (poolExprs from) \<and>
     (\<forall>j \<in> set img. j < length (poolExprs (rwTo st))) \<and>
     length (poolExprs (rwTo st)) \<le> B + 2 * filled (rwMemo st) \<and>
     (\<forall>dims params k. k < length (joinPoint fs dims) \<longrightarrow> denotes (rwTo st) dims params (img ! k) (joinPoint fs dims ! k)) \<and>
     (\<forall>i < length (poolExprs from). rwMemo st ! i \<noteq> kNoExpr \<longrightarrow> mirrors fs from (rwTo st) i (rwMemo st ! i))"

definition room :: "ExprPool \<Rightarrow> nat \<Rightarrow> bool" where
  "room from B \<longleftrightarrow> B + 2 * length (poolExprs from) + 1 < kNoExpr"

definition rwResult :: "int list \<Rightarrow> nat list \<Rightarrow> ExprPool \<Rightarrow> nat \<Rightarrow> nat \<Rightarrow> RwState \<Rightarrow> (nat \<times> RwState) outcome \<Rightarrow> bool" where
  "rwResult fs img from B i st m \<longleftrightarrow> m = throws OverflowError \<or>
     (\<exists>j st'. m = returns (j, st') \<and> rwInv fs img from B st' \<and> extends (rwTo st) (rwTo st') \<and>
        mirrors fs from (rwTo st') i j \<and> (\<forall>k > i. rwMemo st' ! k = rwMemo st ! k))"

section \<open>Rewriting into another pool\<close>

text \<open>The pool written to and the memo table, \<open>kNoExpr\<close> for an expression not rewritten yet.\<close>

section \<open>Splitting dims\<close>

text \<open>The expression each old dim becomes; \<open>nxt\<close> is the position of the next new dim.\<close>

section \<open>The rewriter keeps the meaning\<close>

lemma mirrors_extends: "mirrors fs from p i j \<Longrightarrow> extends p q \<Longrightarrow> mirrors fs from q i j"
  unfolding mirrors_def using extends_nth [of p q j] denotes_extends [of p _ _ j _ q] by auto

lemma filled_le: "filled memo \<le> length memo"
  by (simp add: filled_def)

lemma filled_update:
  assumes "i < length memo" "memo ! i = kNoExpr" "j \<noteq> kNoExpr"
  shows "filled (memo[i := j]) = Suc (filled memo)"
proof -
  have "memo = take i memo @ memo ! i # drop (Suc i) memo" using assms(1) by (simp add: id_take_nth_drop)
  then have "filled memo = filled (take i memo @ kNoExpr # drop (Suc i) memo)" using assms(2) by simp
  then show ?thesis using assms(1,3) by (simp add: filled_def upd_conv_take_nth_drop)
qed

lemma rwInv_room: "rwInv fs img from B st \<Longrightarrow> room from B \<Longrightarrow> length (poolExprs (rwTo st)) + 1 < kNoExpr"
  using filled_le [of "rwMemo st"] by (simp add: rwInv_def room_def)

lemma rwInv_grow:
  assumes "rwInv fs img from B st" "poolOk q" "extends (rwTo st) q" "length (poolExprs q) \<le> length (poolExprs (rwTo st)) + n"
  shows "rwInv fs img from (B + n) (st\<lparr>rwTo := q\<rparr>)"
  using assms mirrors_extends [OF _ assms(3)] denotes_extends [OF _ assms(3)] extends_length [OF assms(3)]
  unfolding rwInv_def by force

lemma rwInv_commit:
  assumes "rwInv fs img from B st" "poolOk q" "extends (rwTo st) q" "length (poolExprs q) \<le> length (poolExprs (rwTo st)) + 2"
    "mirrors fs from q i j" "i < length (poolExprs from)" "rwMemo st ! i = kNoExpr"
  shows "rwInv fs img from B (st\<lparr>rwTo := q, rwMemo := (rwMemo st)[i := j]\<rparr>)"
proof -
  have g: "rwInv fs img from (B + 2) (st\<lparr>rwTo := q\<rparr>)" using rwInv_grow [OF assms(1-4)] by simp
  have "j \<noteq> kNoExpr" using assms(2,5) by (auto simp: mirrors_def poolOk_def)
  then have "filled ((rwMemo st)[i := j]) = Suc (filled (rwMemo st))"
    using filled_update assms(1,6,7) by (simp add: rwInv_def)
  then have "length (poolExprs q) \<le> B + 2 * filled ((rwMemo st)[i := j])"
    using assms(1,4) by (simp add: rwInv_def)
  moreover have "mirrors fs from q k ((rwMemo st)[i := j] ! k)" if "k < length (poolExprs from)" "(rwMemo st)[i := j] ! k \<noteq> kNoExpr" for k
    using that g assms(1,5) by (cases "k = i") (auto simp: rwInv_def)
  ultimately show ?thesis using g by (simp add: rwInv_def)
qed

text \<open>
  \<open>rwResult fs img from B i st m\<close>: the outcome \<open>m\<close> of rewriting \<open>i\<close> in state \<open>st\<close> is an overflow, or
  an expression that mirrors \<open>i\<close> and a state in which the memo entries above \<open>i\<close> are untouched.
\<close>

text \<open>What the rewriter needs of a builder of the pool; it serves all four binary operations.\<close>

locale pool_builder =
  fixes build :: "ExprPool \<Rightarrow> nat \<Rightarrow> nat \<Rightarrow> (nat \<times> ExprPool) outcome" and f :: "int \<Rightarrow> int \<Rightarrow> int"
    and ok :: "int \<Rightarrow> int \<Rightarrow> bool" and pre :: "ExprPool \<Rightarrow> nat \<Rightarrow> nat \<Rightarrow> bool"
  assumes build_spec: "poolOk p \<Longrightarrow> length (poolExprs p) + 1 < kNoExpr \<Longrightarrow> l < length (poolExprs p) \<Longrightarrow>
    r < length (poolExprs p) \<Longrightarrow> pre p l r \<Longrightarrow> builds p 2 (computes f ok p l r) (build p l r)"
begin

definition step :: "nat \<Rightarrow> (nat \<times> RwState) outcome \<Rightarrow> (nat \<Rightarrow> RwState \<Rightarrow> (nat \<times> RwState) outcome) \<Rightarrow> (nat \<times> RwState) outcome" where
  "step i ml mr = bindO (bindO ml (\<lambda>l. bindO (mr (fst l) (snd l)) (\<lambda>r. onPool (snd r) (build (rwTo (snd r)) (fst l) (fst r)))))
     (\<lambda>j. returns (fst j, (snd j)\<lparr>rwMemo := (rwMemo (snd j))[i := fst j]\<rparr>))"

lemma binary_spec:
  assumes inv: "room from B" and i: "i < length (poolExprs from)" "rwMemo st ! i = kNoExpr" "opAt from i \<notin> {Const, Param}"
    and lr: "l < i" "r < i"
    and ml: "rwResult fs img from B l st ml"
    and mr: "\<And>l' st'. ml = returns (l', st') \<Longrightarrow> rwInv fs img from B st' \<Longrightarrow> rwResult fs img from B r st' (mr l' st')"
    and pre: "\<And>q l' r'. mirrors fs from q l l' \<Longrightarrow> mirrors fs from q r r' \<Longrightarrow> pre q l' r'"
    and meaning: "\<And>dims params v. denotes from dims params i v \<Longrightarrow>
      \<exists>x y. denotes from dims params l x \<and> denotes from dims params r y \<and> ok x y \<and> v = f x y"
  shows "rwResult fs img from B i st (step i ml mr)"
proof (cases "ml = throws OverflowError")
  case False
  then obtain l' s1 where l': "ml = returns (l', s1)" "rwInv fs img from B s1" "extends (rwTo st) (rwTo s1)"
    "mirrors fs from (rwTo s1) l l'" "\<forall>k > l. rwMemo s1 ! k = rwMemo st ! k"
    using ml unfolding rwResult_def by blast
  show ?thesis
  proof (cases "mr l' s1 = throws OverflowError")
    case False
    then obtain r' s2 where r': "mr l' s1 = returns (r', s2)" "rwInv fs img from B s2" "extends (rwTo s1) (rwTo s2)"
      "mirrors fs from (rwTo s2) r r'" "\<forall>k > r. rwMemo s2 ! k = rwMemo s1 ! k"
      using mr [OF l'(1,2)] unfolding rwResult_def by blast
    have m: "mirrors fs from (rwTo s2) l l'" by (rule mirrors_extends [OF l'(4) r'(3)])
    have ext: "extends (rwTo st) (rwTo s2)" by (rule extends_trans [OF l'(3) r'(3)])
    have memo: "rwMemo s2 ! k = rwMemo st ! k" if "i \<le> k" for k using that l'(5) r'(5) lr by simp
    have "builds (rwTo s2) 2 (computes f ok (rwTo s2) l' r') (build (rwTo s2) l' r')"
      by (rule build_spec) (use r'(2,4) m rwInv_room [OF r'(2) inv] pre [OF m r'(4)] in \<open>auto simp: rwInv_def mirrors_def\<close>)
    then consider "build (rwTo s2) l' r' = throws OverflowError"
      | (ok) j q where "build (rwTo s2) l' r' = returns (j, q)" "poolOk q" "extends (rwTo s2) q"
          "length (poolExprs q) \<le> length (poolExprs (rwTo s2)) + 2" "j < length (poolExprs q)"
          "\<forall>dims params. computes f ok (rwTo s2) l' r' dims params q j" by (auto simp: builds_def)
    then show ?thesis
    proof cases
      case 1 then show ?thesis using l' r' by (simp add: step_def onPool_def rwResult_def)
    next
      case ok
      have den: "denotes q dims params j v" if d: "denotes from (joinPoint fs dims) params i v" for dims params v
      proof -
        obtain x y where xy: "denotes from (joinPoint fs dims) params l x" "denotes from (joinPoint fs dims) params r y"
          "ok x y" "v = f x y" using meaning [OF d] by blast
        then have "denotes (rwTo s2) dims params l' x" "denotes (rwTo s2) dims params r' y" using m r'(4) by (auto simp: mirrors_def)
        then show ?thesis using ok(6) xy(3,4) by (simp add: computes_def)
      qed
      have mi: "mirrors fs from q i j" using ok(5) i(3) den by (auto simp: mirrors_def)
      have s: "step i ml mr = returns (j, s2\<lparr>rwTo := q, rwMemo := (rwMemo s2)[i := j]\<rparr>)"
        using l' r' ok(1) by (simp add: step_def onPool_def)
      have "rwInv fs img from B (s2\<lparr>rwTo := q, rwMemo := (rwMemo s2)[i := j]\<rparr>)"
        by (rule rwInv_commit [OF r'(2) ok(2,3,4) mi i(1)]) (use memo i(2) in simp)
      then show ?thesis using s mi extends_trans [OF ext ok(3)] memo by (auto simp: rwResult_def)
    qed
  qed (use l' in \<open>simp add: step_def rwResult_def\<close>)
qed (simp add: step_def rwResult_def)

end

lemma builds_weaken: "builds p n m r \<Longrightarrow> n \<le> k \<Longrightarrow> builds p k m r"
  unfolding builds_def by (elim disjE exE conjE) auto

interpretation sums: pool_builder addE "(+)" always "\<lambda>p l r. True"
  by unfold_locales (rule addE_spec)

interpretation products: pool_builder mulE "(*)" always "\<lambda>p l r. opAt p l \<in> {Const, Param}"
  by unfold_locales (rule mulE_spec, auto)

interpretation quotients: pool_builder floorDivE "(div)" "\<lambda>x y. 0 < y" "\<lambda>p l r. isDivisor p r"
  by unfold_locales (rule builds_weaken [OF quotient_spec(1)], auto)

interpretation remainders: pool_builder modE "(mod)" "\<lambda>x y. 0 < y" "\<lambda>p l r. isDivisor p r"
  by unfold_locales (rule builds_weaken [OF quotient_spec(2)], auto)

lemma rewrite_spec:
  assumes ok: "poolOk (instExprs inst)" and room: "room (instExprs inst) B" and len: "length img = length (domDims (instDomain inst))"
  shows "validExpr inst i = returns None \<Longrightarrow> rwInv fs img (instExprs inst) B st \<Longrightarrow>
    rwResult fs img (instExprs inst) B i st (rewrite (instExprs inst) img i st)"
proof (induction i arbitrary: st rule: less_induct)
  case (less i)
  let ?p = "instExprs inst" let ?e = "poolExprs ?p ! i"
  have i: "i < length (poolExprs ?p)" by (rule validExpr_range [OF less.prems(1)])
  have i0: "i \<noteq> kNoExpr" using i ok by (auto simp: poolOk_def)
  have memo: "spanAt (rwMemo st) (int i) = returns (rwMemo st ! i)" using i less.prems(2) by (simp add: spanAt_def rwInv_def)
  note d = denotes_iff [OF i]
  note v = less.prems(1) [unfolded validExpr.simps [of inst i]]
  show ?case
  proof (cases "rwMemo st ! i = kNoExpr")
    case False
    then have "rewrite ?p img i st = returns (rwMemo st ! i, st)" using i0 memo by (subst rewrite.simps) simp
    then show ?thesis using less.prems(2) i False by (auto simp: rwResult_def rwInv_def)
  next
    case True
    note unfold = rewrite.simps [of ?p img i st]
    have ch: "exprLhs ?e < i" "exprRhs ?e < i" "validExpr inst (exprLhs ?e) = returns None" "validExpr inst (exprRhs ?e) = returns None"
      if "exprOp ?e \<in> {Add, Mul, FloorDiv, Mod}"
      using exprOk_children [OF poolOkD [OF ok i] that] v i that by (auto split: if_splits)
    have IH: "rwResult fs img ?p B (exprLhs ?e) st (rewrite ?p img (exprLhs ?e) st)"
      "rwInv fs img ?p B st' \<Longrightarrow> rwResult fs img ?p B (exprRhs ?e) st' (rewrite ?p img (exprRhs ?e) st')"
      if "exprOp ?e \<in> {Add, Mul, FloorDiv, Mod}" for st'
      using less.IH [OF ch(1) [OF that] ch(3) [OF that] less.prems(2)] less.IH [OF ch(2) [OF that] ch(4) [OF that]] by auto
    have leaf: "rwResult fs img ?p B i st (returns (j, st\<lparr>rwTo := q, rwMemo := (rwMemo st)[i := j]\<rparr>))"
      if "poolOk q" "extends (rwTo st) q" "length (poolExprs q) \<le> length (poolExprs (rwTo st)) + 2" "mirrors fs ?p q i j" for j q
      using rwInv_commit [OF less.prems(2) that(1-4) i True] that(2,4) by (auto simp: rwResult_def)
    have div: "isDivisor q r'" if "mirrors fs ?p q (exprRhs ?e) r'" "exprOp ?e \<in> {FloorDiv, Mod}" for q r'
      using that poolOkD [OF ok i] by (auto simp: mirrors_def isDivisor_def exprOk.simps divisorOk_def)
    have lt: "length (poolExprs (rwTo st)) < kNoExpr" using rwInv_room [OF less.prems(2) room] by simp
    have pok: "poolOk (rwTo st)" using less.prems(2) by (simp add: rwInv_def)
    show ?thesis
    proof (cases "exprOp ?e")
      case Const
      obtain j q where c: "constantE (rwTo st) (exprValue ?e) = (j, q)" by (cases "constantE (rwTo st) (exprValue ?e)")
      note s = constantE_spec [OF pok const_in_range [OF ok i Const] lt c]
      have "mirrors fs ?p q i j" using s(3,5) d(1) [OF Const] Const by (auto simp: mirrors_def leafExpr_def)
      then show ?thesis using leaf [OF s(1,2)] s(4) i i0 memo True Const c unfold by (simp add: onPool_def)
    next
      case Dim
      let ?k = "nat (exprValue ?e)"
      have k: "0 \<le> exprValue ?e" "?k < length img" using v i Dim len by (auto simp: outside_def)
      have "img ! ?k < length (poolExprs (rwTo st))" using k(2) less.prems(2) by (simp add: rwInv_def)
      moreover have "denotes (rwTo st) dims params (img ! ?k) x" if "denotes ?p (joinPoint fs dims) params i x" for dims params x
        using that less.prems(2) d(2) [OF Dim] by (simp add: rwInv_def)
      ultimately have "mirrors fs ?p (rwTo st) i (img ! ?k)" using Dim by (simp add: mirrors_def)
      then show ?thesis using leaf [of "rwTo st"] pok i i0 memo True Dim unfold k by (simp add: spanAt_def)
    next
      case Param
      have v0: "0 \<le> exprValue ?e" "exprValue ?e < 2 ^ 32" using poolOkD [OF ok i] Param by (simp_all add: exprOk.simps)
      then have eq: "paramE (rwTo st) (nat (exprValue ?e mod 2 ^ 32)) = intern (rwTo st) (leafExpr Param (exprValue ?e))"
        by (simp add: paramE_def)
      obtain j q where c: "intern (rwTo st) (leafExpr Param (exprValue ?e)) = (j, q)"
        by (cases "intern (rwTo st) (leafExpr Param (exprValue ?e))")
      have "internOk (rwTo st) (leafExpr Param (exprValue ?e))" using v0 by (simp add: internOk_def exprOk.simps leafExpr_def)
      from intern_spec [OF pok this lt] c have s: "poolOk q" "extends (rwTo st) q"
        "node q j (leafExpr Param (exprValue ?e))" "length (poolExprs q) \<le> length (poolExprs (rwTo st)) + 1" by auto
      have j: "j < length (poolExprs q)" "opAt q j = Param" "exprValue (poolExprs q ! j) = exprValue ?e" using s(3) by (auto simp: leafExpr_def)
      have "mirrors fs ?p q i j" unfolding mirrors_def using j Param d(3) [OF Param] denotes_iff(3) [OF j(1,2)] by auto
      then show ?thesis using leaf [OF s(1,2)] s(4) i i0 memo True Param c eq unfold by (simp add: onPool_def)
    next
      case Add
      then have "rwResult fs img ?p B i st (sums.step i (rewrite ?p img (exprLhs ?e) st) (\<lambda>l. rewrite ?p img (exprRhs ?e)))"
        by (intro sums.binary_spec [OF room i True _ ch(1,2) IH]) (use Add d(4) in auto)
      then show ?thesis using i i0 memo True Add unfold by (simp add: sums.step_def)
    next
      case Mul
      then have "rwResult fs img ?p B i st (products.step i (rewrite ?p img (exprLhs ?e) st) (\<lambda>l. rewrite ?p img (exprRhs ?e)))"
        by (intro products.binary_spec [OF room i True _ ch(1,2) IH])
           (use Mul d(5) poolOkD [OF ok i] in \<open>auto simp: mirrors_def exprOk.simps\<close>)
      then show ?thesis using i i0 memo True Mul unfold by (simp add: products.step_def)
    next
      case FloorDiv
      then have "rwResult fs img ?p B i st (quotients.step i (rewrite ?p img (exprLhs ?e) st) (\<lambda>l. rewrite ?p img (exprRhs ?e)))"
        by (intro quotients.binary_spec [OF room i True _ ch(1,2) IH]) (use FloorDiv d(6) div in auto)
      then show ?thesis using i i0 memo True FloorDiv unfold by (simp add: quotients.step_def)
    next
      case Mod
      then have "rwResult fs img ?p B i st (remainders.step i (rewrite ?p img (exprLhs ?e) st) (\<lambda>l. rewrite ?p img (exprRhs ?e)))"
        by (intro remainders.binary_spec [OF room i True _ ch(1,2) IH]) (use Mod d(7) div in auto)
      then show ?thesis using i i0 memo True Mod unfold by (simp add: remainders.step_def)
    qed
  qed
qed

end
