(* ===== verification/Index_Split.thy ===== *)
theory Index_Split
  imports Index_Rewrite
begin

text \<open>
  The parts of a split instance mirror those of the old one.
\<close>

definition factorOk :: "int \<Rightarrow> bool" where
  "factorOk f \<longleftrightarrow> 0 \<le> f \<and> in_int64 f"

definition imageOk :: "int list \<Rightarrow> nat \<Rightarrow> ExprPool \<Rightarrow> nat list \<Rightarrow> bool" where
  "imageOk fs n q img \<longleftrightarrow> length img = length fs \<and> (\<forall>j \<in> set img. j < length (poolExprs q)) \<and>
     (\<forall>dims params k. k < length (joinPoint fs (drop n dims)) \<longrightarrow>
        denotes q dims params (img ! k) (joinPoint fs (drop n dims) ! k))"

definition exprM :: "int list \<Rightarrow> ExprPool \<Rightarrow> ExprPool \<Rightarrow> nat \<Rightarrow> nat \<Rightarrow> bool" where
  "exprM fs from q i j \<longleftrightarrow> i = kNoExpr \<and> j = kNoExpr \<or> i \<noteq> kNoExpr \<and> mirrors fs from q i j"

definition conM :: "int list \<Rightarrow> ExprPool \<Rightarrow> ExprPool \<Rightarrow> Constraint \<Rightarrow> Constraint \<Rightarrow> bool" where
  "conM fs from q c c' \<longleftrightarrow> conRel c' = conRel c \<and> mirrors fs from q (conLhs c) (conLhs c') \<and> mirrors fs from q (conRhs c) (conRhs c')"

definition paramM :: "int list \<Rightarrow> ExprPool \<Rightarrow> ExprPool \<Rightarrow> InstParam \<Rightarrow> InstParam \<Rightarrow> bool" where
  "paramM fs from q p p' \<longleftrightarrow> p' = p\<lparr>paramDefinition := paramDefinition p'\<rparr> \<and> exprM fs from q (paramDefinition p) (paramDefinition p')"

definition dimM :: "int list \<Rightarrow> ExprPool \<Rightarrow> ExprPool \<Rightarrow> InstDim \<times> int \<Rightarrow> InstDim list \<Rightarrow> bool" where
  "dimM fs from q df ds \<longleftrightarrow>
     (let old = fst df; f = snd df
      in if f = 0 then \<exists>e. ds = [old\<lparr>dimExtent := e\<rparr>] \<and> mirrors fs from q (dimExtent old) e
         else \<exists>eo ei. ds = [\<lparr>dimName = dimName old @ ''_o'', dimExtent = eo, dimRole = dimRole old\<rparr>,
                            \<lparr>dimName = dimName old @ ''_i'', dimExtent = ei, dimRole = dimRole old\<rparr>] \<and>
           (\<forall>dims params E. denotes from (joinPoint fs dims) params (dimExtent old) E \<longrightarrow>
              denotes q dims params eo ((E + f - 1) div f) \<and> denotes q dims params ei f))"

definition boundM :: "int list \<Rightarrow> ExprPool \<Rightarrow> ExprPool \<Rightarrow> nat \<times> InstDim \<Rightarrow> Constraint \<Rightarrow> bool" where
  "boundM fs from q jd c \<longleftrightarrow> conLhs c = fst jd \<and> conRel c = Lt \<and> mirrors fs from q (dimExtent (snd jd)) (conRhs c)"

definition indM :: "int list \<Rightarrow> ExprPool \<Rightarrow> ExprPool \<Rightarrow> Indirect option \<Rightarrow> Indirect option \<Rightarrow> bool" where
  "indM fs from q = rel_option (\<lambda>i i'. i' = i\<lparr>indIndexCoords := indIndexCoords i'\<rparr> \<and>
     list_all2 (exprM fs from q) (indIndexCoords i) (indIndexCoords i'))"

definition accM :: "int list \<Rightarrow> ExprPool \<Rightarrow> ExprPool \<Rightarrow> Access \<Rightarrow> Access \<Rightarrow> bool" where
  "accM fs from q a a' \<longleftrightarrow>
     a' = a\<lparr>accCoords := accCoords a', accValid := accValid a', accIndirect := accIndirect a'\<rparr> \<and>
     list_all2 (exprM fs from q) (accCoords a) (accCoords a') \<and>
     list_all2 (conM fs from q) (accValid a) (accValid a') \<and> indM fs from q (accIndirect a) (accIndirect a')"

definition wrM :: "int list \<Rightarrow> ExprPool \<Rightarrow> ExprPool \<Rightarrow> Write \<Rightarrow> Write \<Rightarrow> bool" where
  "wrM fs from q w w' \<longleftrightarrow> wrMode w' = wrMode w \<and> list_all2 (exprM fs from q) (wrCoords w) (wrCoords w') \<and>
     list_all2 (conM fs from q) (wrValid w) (wrValid w') \<and> indM fs from q (wrIndirect w) (wrIndirect w')"

text \<open>A part of the result stays right when the pool grows.\<close>

definition stable :: "(ExprPool \<Rightarrow> 'a \<Rightarrow> bool) \<Rightarrow> bool" where
  "stable P \<longleftrightarrow> (\<forall>p q x. P p x \<longrightarrow> extends p q \<longrightarrow> P q x)"

definition steps :: "int list \<Rightarrow> nat list \<Rightarrow> ExprPool \<Rightarrow> nat \<Rightarrow> (ExprPool \<Rightarrow> 'a \<Rightarrow> bool) \<Rightarrow> RwState \<Rightarrow> ('a \<times> RwState) outcome \<Rightarrow> bool" where
  "steps fs img from B P st m \<longleftrightarrow> m = throws OverflowError \<or>
     (\<exists>x st'. m = returns (x, st') \<and> rwInv fs img from B st' \<and> extends (rwTo st) (rwTo st') \<and> P (rwTo st') x)"

text \<open>What the rewriter needs of the instance, of the images and of the room left in the pool.\<close>

definition ready :: "IndexedInstance \<Rightarrow> nat list \<Rightarrow> nat \<Rightarrow> bool" where
  "ready inst img B \<longleftrightarrow> poolOk (instExprs inst) \<and> room (instExprs inst) B \<and> length img = length (domDims (instDomain inst))"

definition splitOf :: "int list \<Rightarrow> nat list \<Rightarrow> IndexedInstance \<Rightarrow> IndexedInstance \<Rightarrow> bool" where
  "splitOf fs img inst out \<longleftrightarrow>
     (let p = instExprs inst; q = instExprs out; d = instDomain inst; d' = instDomain out
      in poolOk q \<and> imageOk fs 0 q img \<and>
         (\<exists>dss. domDims d' = concat dss \<and> list_all2 (dimM fs p q) (zip (domDims d) fs) dss) \<and>
         list_all2 (paramM fs p q) (domParams d) (domParams d') \<and>
         list_all2 (conM fs p q) (domConstraints d) (domConstraints d') \<and>
         (\<exists>g b. domGuard d' = g @ b \<and> list_all2 (conM fs p q) (domGuard d) g \<and>
            list_all2 (boundM fs p q) (splitBounds fs img (domDims d)) b) \<and>
         list_all2 (accM fs p q) (instNorm inst) (instNorm out) \<and> list_all2 (accM fs p q) (instWith inst) (instWith out) \<and>
         wrM fs p q (instOutput inst) (instOutput out) \<and> instLaw out = instLaw inst)"

definition splitRoom :: "IndexedInstance \<Rightarrow> bool" where
  "splitRoom inst \<longleftrightarrow> 12 * length (domDims (instDomain inst)) + 2 * length (poolExprs (instExprs inst)) + 2 \<le> 2 ^ 32 - 2"

section \<open>The image of the dims\<close>

lemma dimE_spec:
  assumes "poolOk p" "n < 2 ^ 32" "length (poolExprs p) < kNoExpr" "dimE p n = (j, q)"
  shows "poolOk q" "extends p q" "j < length (poolExprs q)" "length (poolExprs q) \<le> length (poolExprs p) + 1"
    "n < length dims \<Longrightarrow> denotes q dims params j (dims ! n)"
proof -
  have "internOk p (leafExpr Dim (int n))" using assms(2) by (simp add: internOk_def exprOk.simps leafExpr_def)
  from intern_spec [OF assms(1) this assms(3)] assms(4) have s: "poolOk q" "extends p q"
    "node q j (leafExpr Dim (int n))" "length (poolExprs q) \<le> length (poolExprs p) + 1" by (auto simp: dimE_def)
  then show "poolOk q" "extends p q" "j < length (poolExprs q)" "length (poolExprs q) \<le> length (poolExprs p) + 1" by auto
  show "denotes q dims params j (dims ! n)" if "n < length dims"
    using den_dim [OF s(3)] that by (simp add: leafExpr_def)
qed

lemma scaleE_spec:
  assumes "poolOk p" "in_int64 c" "length (poolExprs p) + 2 < kNoExpr" "e < length (poolExprs p)"
  shows "builds p 3 (\<lambda>dims params q i. \<forall>x. denotes p dims params e x \<longrightarrow> denotes q dims params i (c * x)) (scaleE p c e)"
proof -
  obtain k p1 where k: "constantE p c = (k, p1)" by (cases "constantE p c")
  note s = constantE_spec [OF assms(1,2) _ k]
  have lt: "length (poolExprs p) < kNoExpr" using assms(3) by simp
  have e: "e < length (poolExprs p1)" using extends_length [OF s(2) [OF lt]] assms(4) by simp
  have "builds p1 2 (computes (*) always p1 k e) (mulE p1 k e)"
    by (rule mulE_spec) (use s(1,3,4) [OF lt] assms(3) e in \<open>auto simp: leafExpr_def\<close>)
  then consider "mulE p1 k e = throws OverflowError"
    | (ok) i q where "mulE p1 k e = returns (i, q)" "poolOk q" "extends p1 q" "length (poolExprs q) \<le> length (poolExprs p1) + 2"
        "i < length (poolExprs q)" "\<forall>dims params. computes (*) always p1 k e dims params q i" by (auto simp: builds_def)
  then show ?thesis
  proof cases
    case ok
    have "denotes q dims params i (c * x)" if "denotes p dims params e x" for dims params x
      using ok(6) s(5) [OF lt] denotes_extends [OF that s(2) [OF lt]] unfolding computes_def by blast
    then show ?thesis using ok k s(4) [OF lt] extends_trans [OF s(2) [OF lt] ok(3)]
      by (intro buildsI [of _ i q]) (auto simp: scaleE_def)
  qed (simp add: scaleE_def k)
qed

lemma joinPoint_Nil [simp]: "joinPoint fs [] = []"
  by (cases fs) auto

lemma joinPoint_length: "length (joinPoint fs xs) \<le> length fs"
  by (induction fs xs rule: joinPoint.induct) (auto split: list.splits)

lemma joinPoint_drop:
  "joinPoint (f # fs) (drop n xs) =
     (if f = 0 then if n < length xs then xs ! n # joinPoint fs (drop (n + 1) xs) else []
      else if n + 1 < length xs then (f * xs ! n + xs ! (n + 1)) # joinPoint fs (drop (n + 2) xs) else [])"
proof -
  have one: "drop n xs = xs ! n # drop (Suc n) xs" if "n < length xs" for n using Cons_nth_drop_Suc [OF that] by simp
  show ?thesis
  proof (cases "n + 1 < length xs")
    case True then show ?thesis using one [of n] one [of "Suc n"] by simp
  next
    case False
    show ?thesis
    proof (cases "n < length xs")
      case True
      then have "drop (Suc n) xs = []" using False by simp
      then show ?thesis using one [OF True] True False by simp
    qed (use False in simp)
  qed
qed

lemma imageOk_Cons:
  assumes "imageOk fs m r img" "extends q r" "j < length (poolExprs q)"
    "\<And>dims. joinPoint (f # fs) (drop n dims) \<noteq> [] \<Longrightarrow> \<exists>x. joinPoint (f # fs) (drop n dims) = x # joinPoint fs (drop m dims) \<and>
      (\<forall>params. denotes q dims params j x)"
  shows "imageOk (f # fs) n r (j # img)"
proof -
  have "denotes r dims params ((j # img) ! k) (joinPoint (f # fs) (drop n dims) ! k)"
    if k: "k < length (joinPoint (f # fs) (drop n dims))" for dims params k
  proof -
    obtain x where x: "joinPoint (f # fs) (drop n dims) = x # joinPoint fs (drop m dims)" "\<forall>params. denotes q dims params j x"
      using assms(4) [of dims] k by (metis length_0_conv not_less_zero)
    then show ?thesis using k assms(1) denotes_extends [OF _ assms(2)] by (cases k) (auto simp: imageOk_def)
  qed
  then show ?thesis using assms(1,3) extends_length [OF assms(2)] by (auto simp: imageOk_def)
qed

lemma splitImage_spec:
  assumes "\<forall>f \<in> set fs. factorOk f" "poolOk p" "length (poolExprs p) + 7 * length fs < kNoExpr" "n + 2 * length fs < 2 ^ 32"
  shows "splitImage fs n p = throws OverflowError \<or>
    (\<exists>img q. splitImage fs n p = returns (img, q) \<and> poolOk q \<and> extends p q \<and>
      length (poolExprs q) \<le> length (poolExprs p) + 7 * length fs \<and> imageOk fs n q img)"
  using assms
proof (induction fs arbitrary: n p)
  case Nil then show ?case by (simp add: imageOk_def)
next
  case (Cons f fs)
  obtain ou p1 where ou: "dimE p n = (ou, p1)" by (cases "dimE p n")
  note s1 = dimE_spec [OF Cons.prems(2) _ _ ou]
  have lt: "n < 2 ^ 32" "length (poolExprs p) < kNoExpr" using Cons.prems(3,4) by auto
  note s1 = s1 [OF lt]
  have finish: "splitImage (f # fs) n p = throws OverflowError \<or>
    (\<exists>img q. splitImage (f # fs) n p = returns (img, q) \<and> poolOk q \<and> extends p q \<and>
      length (poolExprs q) \<le> length (poolExprs p) + 7 * length (f # fs) \<and> imageOk (f # fs) n q img)"
    if eq: "splitImage (f # fs) n p = bindO (splitImage fs m q) (\<lambda>r. returns (j # fst r, snd r))"
      and q: "poolOk q" "extends p q" "length (poolExprs q) \<le> length (poolExprs p) + 7" "j < length (poolExprs q)" "m \<le> n + 2"
      and join: "\<And>dims. joinPoint (f # fs) (drop n dims) \<noteq> [] \<Longrightarrow>
        \<exists>x. joinPoint (f # fs) (drop n dims) = x # joinPoint fs (drop m dims) \<and> (\<forall>params. denotes q dims params j x)" for m q j
  proof -
    have "\<forall>f \<in> set fs. factorOk f" "length (poolExprs q) + 7 * length fs < kNoExpr" "m + 2 * length fs < 2 ^ 32"
      using Cons.prems q by auto
    from Cons.IH [OF this(1) q(1) this(2,3)] consider "splitImage fs m q = throws OverflowError"
      | (ok) img r where "splitImage fs m q = returns (img, r)" "poolOk r" "extends q r"
          "length (poolExprs r) \<le> length (poolExprs q) + 7 * length fs" "imageOk fs m r img" by blast
    then show ?thesis
    proof cases
      case ok
      then show ?thesis using eq imageOk_Cons [OF ok(5,3) q(4) join] extends_trans [OF q(2) ok(3)] q(3) by auto
    qed (simp add: eq del: splitImage.simps)
  qed
  show ?case
  proof (cases "f = 0")
    case True
    show ?thesis
    proof (rule finish [of "n + 1" p1 ou])
      show "splitImage (f # fs) n p = bindO (splitImage fs (n + 1) p1) (\<lambda>r. returns (ou # fst r, snd r))" using True ou by simp
      show "\<exists>x. joinPoint (f # fs) (drop n dims) = x # joinPoint fs (drop (n + 1) dims) \<and> (\<forall>params. denotes p1 dims params ou x)"
        if "joinPoint (f # fs) (drop n dims) \<noteq> []" for dims
        using that True s1(5) [of dims] unfolding joinPoint_drop by (auto split: if_splits)
    qed (use s1 in auto)
  next
    case False
    obtain inn p2 where inn: "dimE p1 (n + 1) = (inn, p2)" by (cases "dimE p1 (n + 1)")
    have "n + 1 < 2 ^ 32" "length (poolExprs p1) < kNoExpr" using Cons.prems(3,4) s1(4) by auto
    note s2 = dimE_spec [OF s1(1) this inn]
    have len2: "length (poolExprs p2) \<le> length (poolExprs p) + 2" using s1(4) s2(4) by simp
    have sc: "builds p2 3 (\<lambda>dims params q i. \<forall>x. denotes p2 dims params ou x \<longrightarrow> denotes q dims params i (f * x)) (scaleE p2 f ou)"
      by (rule scaleE_spec) (use s1(3) s2(1) len2 extends_length [OF s2(2)] Cons.prems in \<open>auto simp: factorOk_def\<close>)
    show ?thesis
    proof (cases "scaleE p2 f ou = throws OverflowError")
      case True then show ?thesis using ou inn False by simp
    next
      case nt: False
      then obtain k p3 where k: "scaleE p2 f ou = returns (k, p3)" "poolOk p3" "extends p2 p3"
        "length (poolExprs p3) \<le> length (poolExprs p2) + 3" "k < length (poolExprs p3)"
        "\<forall>dims params x. denotes p2 dims params ou x \<longrightarrow> denotes p3 dims params k (f * x)" using sc by (auto simp: builds_def)
      have "builds p3 2 (computes (+) always p3 k inn) (addE p3 k inn)"
        by (rule addE_spec) (use k s2(3) extends_length [OF k(3)] len2 Cons.prems(3) in auto)
      then consider "addE p3 k inn = throws OverflowError" | (ok) j q where "addE p3 k inn = returns (j, q)" "poolOk q" "extends p3 q"
          "length (poolExprs q) \<le> length (poolExprs p3) + 2" "j < length (poolExprs q)"
          "\<forall>dims params. computes (+) always p3 k inn dims params q j" by (auto simp: builds_def)
      then show ?thesis
      proof cases
        case 1 then show ?thesis using ou inn False k(1) by simp
      next
        case ok
        have ext: "extends p q" using s1(2) s2(2) k(3) ok(3) by (meson extends_trans)
        have den: "denotes q dims params j (f * dims ! n + dims ! (n + 1))" if "n + 1 < length dims" for dims params
        proof -
          have "denotes p3 dims params k (f * dims ! n)"
            using k(6) denotes_extends [OF s1(5) s2(2)] that by simp
          moreover have "denotes p3 dims params inn (dims ! (n + 1))" using denotes_extends [OF s2(5) k(3)] that by simp
          ultimately show ?thesis using ok(6) by (simp add: computes_def)
        qed
        show ?thesis
        proof (rule finish [of "n + 2" q j])
          show "splitImage (f # fs) n p = bindO (splitImage fs (n + 2) q) (\<lambda>r. returns (j # fst r, snd r))"
            using ou inn False k(1) ok(1) by simp
          show "\<exists>x. joinPoint (f # fs) (drop n dims) = x # joinPoint fs (drop (n + 2) dims) \<and> (\<forall>params. denotes q dims params j x)"
            if "joinPoint (f # fs) (drop n dims) \<noteq> []" for dims
            using that False den [of dims] unfolding joinPoint_drop by (auto split: if_splits)
          show "length (poolExprs q) \<le> length (poolExprs p) + 7" using ok(4) k(4) len2 by simp
        qed (use ok ext in auto)
      qed
    qed
  qed
qed

section \<open>The parts of a split instance\<close>

text \<open>What each part of the new instance says of the old one, over the new pool \<open>q\<close>.\<close>

lemma stableD: "stable P \<Longrightarrow> P p x \<Longrightarrow> extends p q \<Longrightarrow> P q x"
  by (auto simp: stable_def)

lemma stable_exprM: "stable (\<lambda>q. exprM fs from q i)"
  by (auto simp: stable_def exprM_def intro: mirrors_extends)

lemma stable_mirrors: "stable (\<lambda>q. mirrors fs from q i)"
  by (auto simp: stable_def intro: mirrors_extends)

lemma stable_conM: "stable (\<lambda>q. conM fs from q c)"
  by (auto simp: stable_def conM_def intro: mirrors_extends)

lemma stable_paramM: "stable (\<lambda>q. paramM fs from q c)"
  using stable_exprM by (auto simp: stable_def paramM_def)

lemma stable_dimM: "stable (\<lambda>q. dimM fs from q df)"
  unfolding stable_def dimM_def Let_def by (auto intro: mirrors_extends) (meson denotes_extends)+

lemma stable_boundM: "stable (\<lambda>q. boundM fs from q jd)"
  by (auto simp: stable_def boundM_def intro: mirrors_extends)

lemma stable_list: "(\<And>x. x \<in> set xs \<Longrightarrow> stable (\<lambda>q. P q x)) \<Longrightarrow> stable (\<lambda>q. list_all2 (P q) xs)"
  unfolding stable_def by (auto simp: list_all2_conv_all_nth)

lemma stable_indM: "stable (\<lambda>q. indM fs from q ind)"
proof -
  have "stable (\<lambda>q. list_all2 (exprM fs from q) is)" for "is" by (rule stable_list) (rule stable_exprM)
  then show ?thesis unfolding stable_def indM_def by (auto elim!: option.rel_cases)
qed

lemma stable_exprList: "stable (\<lambda>q. list_all2 (exprM fs from q) ids)"
  by (rule stable_list) (rule stable_exprM)

lemma stable_conList: "stable (\<lambda>q. list_all2 (conM fs from q) cs)"
  by (rule stable_list) (rule stable_conM)

lemma stable_accM: "stable (\<lambda>q. accM fs from q a)"
  using stable_exprList [of fs "from" "accCoords a"] stable_conList [of fs "from" "accValid a"] stable_indM [of fs "from" "accIndirect a"]
  unfolding stable_def accM_def by blast

text \<open>A stateful step: an overflow, or a value that satisfies \<open>P\<close> over the grown pool.\<close>

lemma steps_return: "rwInv fs img from B st \<Longrightarrow> P (rwTo st) x \<Longrightarrow> steps fs img from B P st (returns (x, st))"
  by (auto simp: steps_def)

lemma steps_bind:
  assumes "steps fs img from B P st m"
    "\<And>x st'. rwInv fs img from B st' \<Longrightarrow> extends (rwTo st) (rwTo st') \<Longrightarrow> P (rwTo st') x \<Longrightarrow> steps fs img from B' Q st' (f (x, st'))"
  shows "steps fs img from B' Q st (bindO m f)"
proof (cases "m = throws OverflowError")
  case False
  then obtain x st' where m: "m = returns (x, st')" "rwInv fs img from B st'" "extends (rwTo st) (rwTo st')" "P (rwTo st') x"
    using assms(1) by (auto simp: steps_def)
  from assms(2) [OF m(2-4)] show ?thesis using m(1) extends_trans [OF m(3)] by (auto simp: steps_def)
qed (simp add: steps_def)

lemma steps_mapS:
  assumes "\<And>x B st. x \<in> set xs \<Longrightarrow> B \<le> B0 + n * length xs - n \<Longrightarrow> rwInv fs img from B st \<Longrightarrow> steps fs img from (B + n) (P x) st (f x st)"
    and "\<And>x. x \<in> set xs \<Longrightarrow> stable (P x)" and "rwInv fs img from B0 st"
  shows "steps fs img from (B0 + n * length xs) (\<lambda>q. list_all2 (\<lambda>x. P x q) xs) st (mapS f xs st)"
  using assms
proof (induction xs arbitrary: B0 st)
  case Nil then show ?case by (simp add: steps_return)
next
  case (Cons x xs)
  have x: "steps fs img from (B0 + n) (P x) st (f x st)" using Cons.prems by simp
  show ?case unfolding mapS.simps
  proof (rule steps_bind [OF x])
    fix y st' assume y: "rwInv fs img from (B0 + n) st'" "P x (rwTo st') y"
    have "steps fs img from (B0 + n + n * length xs) (\<lambda>q. list_all2 (\<lambda>x. P x q) xs) st' (mapS f xs st')"
      by (rule Cons.IH) (use Cons.prems y in auto)
    then show "steps fs img from (B0 + n * length (x # xs)) (\<lambda>q. list_all2 (\<lambda>x. P x q) (x # xs)) st'
        (bindO (mapS f xs (snd (y, st'))) (\<lambda>ys. returns (fst (y, st') # fst ys, snd ys)))"
      by (simp add: add.assoc, elim steps_bind)
         (use y stableD [OF Cons.prems(2)] in \<open>auto intro!: steps_return\<close>)
  qed
qed

lemmas steps_mapS0 = steps_mapS [where n = 0, simplified]

text \<open>Growing the pool by one builder call.\<close>

lemma steps_onPool:
  assumes "rwInv fs img from B st" "builds (rwTo st) n m r"
    "\<And>i q. extends (rwTo st) q \<Longrightarrow> \<forall>dims params. m dims params q i \<Longrightarrow> i < length (poolExprs q) \<Longrightarrow> P q i"
  shows "steps fs img from (B + n) P st (onPool st r)"
proof (cases "r = throws OverflowError")
  case False
  then obtain i q where r: "r = returns (i, q)" "poolOk q" "extends (rwTo st) q"
    "length (poolExprs q) \<le> length (poolExprs (rwTo st)) + n" "i < length (poolExprs q)" "\<forall>dims params. m dims params q i"
    using assms(2) by (auto simp: builds_def)
  then show ?thesis using rwInv_grow [OF assms(1) r(2-4)] assms(3) [OF r(3,6,5)] by (auto simp: steps_def onPool_def)
qed (simp add: steps_def onPool_def)


section \<open>Every part of a split instance\<close>

lemma rewrite_steps:
  assumes "poolOk (instExprs inst)" "room (instExprs inst) B" "length img = length (domDims (instDomain inst))"
    "validExpr inst i = returns None" "rwInv fs img (instExprs inst) B st"
  shows "steps fs img (instExprs inst) B (\<lambda>q. mirrors fs (instExprs inst) q i) st (rewrite (instExprs inst) img i st)"
  using rewrite_spec [OF assms] by (auto simp: rwResult_def steps_def)

lemma rewrite_steps_slot:
  assumes "poolOk (instExprs inst)" "room (instExprs inst) B" "length img = length (domDims (instDomain inst))"
    "i \<noteq> kNoExpr \<longrightarrow> validExpr inst i = returns None" "rwInv fs img (instExprs inst) B st"
  shows "steps fs img (instExprs inst) B (\<lambda>q. exprM fs (instExprs inst) q i) st (rewrite (instExprs inst) img i st)"
proof (cases "i = kNoExpr")
  case True
  then have "rewrite (instExprs inst) img i st = returns (kNoExpr, st)" by (subst rewrite.simps) simp
  then show ?thesis using True assms(5) by (simp add: steps_return exprM_def)
next
  case False
  then show ?thesis using rewrite_steps [OF assms(1-3) _ assms(5), of i] assms(4) by (auto simp: exprM_def steps_def)
qed

lemma rwList_steps:
  assumes "poolOk (instExprs inst)" "room (instExprs inst) B" "length img = length (domDims (instDomain inst))"
    "\<forall>i \<in> set ids. i \<noteq> kNoExpr \<longrightarrow> validExpr inst i = returns None" "rwInv fs img (instExprs inst) B st"
  shows "steps fs img (instExprs inst) B (\<lambda>q. list_all2 (exprM fs (instExprs inst) q) ids) st (rwList (instExprs inst) img ids st)"
  unfolding rwList_def
proof (rule steps_mapS0 [where P = "\<lambda>i q. exprM fs (instExprs inst) q i"])
  show "steps fs img (instExprs inst) B' (\<lambda>q. exprM fs (instExprs inst) q x) st' (rewrite (instExprs inst) img x st')"
    if "x \<in> set ids" "B' \<le> B" "rwInv fs img (instExprs inst) B' st'" for x B' st'
    by (rule rewrite_steps_slot [OF assms(1) _ assms(3)]) (use that assms(2,4) in \<open>auto simp: room_def\<close>)
qed (use assms stable_exprM in auto)

lemma rwConstraint_steps:
  assumes "poolOk (instExprs inst)" "room (instExprs inst) B" "length img = length (domDims (instDomain inst))"
    "validExpr inst (conLhs c) = returns None" "validExpr inst (conRhs c) = returns None" "rwInv fs img (instExprs inst) B st"
  shows "steps fs img (instExprs inst) B (\<lambda>q. conM fs (instExprs inst) q c) st (rwConstraint (instExprs inst) img c st)"
  unfolding rwConstraint_def
proof (rule steps_bind [OF rewrite_steps [OF assms(1-4,6)]])
  fix l s1 assume l: "rwInv fs img (instExprs inst) B s1" "mirrors fs (instExprs inst) (rwTo s1) (conLhs c) l"
  show "steps fs img (instExprs inst) B (\<lambda>q. conM fs (instExprs inst) q c) s1
      (bindO (rewrite (instExprs inst) img (conRhs c) (snd (l, s1)))
        (\<lambda>r. returns (\<lparr>conLhs = fst (l, s1), conRel = conRel c, conRhs = fst r\<rparr>, snd r)))"
    by (simp, rule steps_bind [OF rewrite_steps [OF assms(1-3,5) l(1)]])
       (use mirrors_extends [OF l(2)] in \<open>auto intro!: steps_return simp: conM_def\<close>)
qed

lemma rwPredicate_steps:
  assumes "poolOk (instExprs inst)" "room (instExprs inst) B" "length img = length (domDims (instDomain inst))"
    "validPredicate inst cs = returns None" "rwInv fs img (instExprs inst) B st"
  shows "steps fs img (instExprs inst) B (\<lambda>q. list_all2 (conM fs (instExprs inst) q) cs) st (rwPredicate (instExprs inst) img cs st)"
  unfolding rwPredicate_def
proof (rule steps_mapS0 [where P = "\<lambda>c q. conM fs (instExprs inst) q c"])
  show "steps fs img (instExprs inst) B' (\<lambda>q. conM fs (instExprs inst) q c) st' (rwConstraint (instExprs inst) img c st')"
    if "c \<in> set cs" "B' \<le> B" "rwInv fs img (instExprs inst) B' st'" for c B' st'
    by (rule rwConstraint_steps [OF assms(1) _ assms(3)])
       (use that assms(2,4) in \<open>auto simp: room_def validPredicate_def\<close>)
qed (use assms stable_conM in auto)

lemma rwIndirect_steps:
  assumes "poolOk (instExprs inst)" "room (instExprs inst) B" "length img = length (domDims (instDomain inst))"
    "\<forall>i. ind = Some i \<longrightarrow> validCoords inst (indIndexCoords i) False = returns None" "rwInv fs img (instExprs inst) B st"
  shows "steps fs img (instExprs inst) B (\<lambda>q. indM fs (instExprs inst) q ind) st (rwIndirect (instExprs inst) img ind st)"
proof (cases ind)
  case None then show ?thesis using assms(5) by (simp add: rwIndirect_def steps_return indM_def)
next
  case (Some i)
  have v: "\<forall>k \<in> set (indIndexCoords i). k \<noteq> kNoExpr \<longrightarrow> validExpr inst k = returns None"
    using assms(4) Some by (simp add: validCoords_None)
  show ?thesis unfolding rwIndirect_def Some option.case
    by (rule steps_bind [OF rwList_steps [OF assms(1-3) v assms(5)]])
       (auto intro!: steps_return simp: indM_def)
qed

lemma readyD: "ready inst img B \<Longrightarrow> B' \<le> B \<Longrightarrow> ready inst img B'"
  by (auto simp: ready_def room_def)

lemma readyE: "ready inst img B \<Longrightarrow> poolOk (instExprs inst)" "ready inst img B \<Longrightarrow> room (instExprs inst) B"
  "ready inst img B \<Longrightarrow> length img = length (domDims (instDomain inst))"
  by (auto simp: ready_def)

lemma coords_slots: "validCoords inst ids b = returns None \<Longrightarrow> \<forall>i \<in> set ids. i \<noteq> kNoExpr \<longrightarrow> validExpr inst i = returns None"
  by (auto simp: validCoords_None)

lemma rwAccess_steps:
  assumes r: "ready inst img B" and v: "validAccess inst a = returns None" and inv: "rwInv fs img (instExprs inst) B st"
  shows "steps fs img (instExprs inst) B (\<lambda>q. accM fs (instExprs inst) q a) st (rwAccess (instExprs inst) img a st)"
  unfolding rwAccess_def
proof (rule steps_bind [OF rwList_steps [OF readyE [OF r] _ inv]])
  show "\<forall>i \<in> set (accCoords a). i \<noteq> kNoExpr \<longrightarrow> validExpr inst i = returns None"
    by (rule coords_slots [where b = "accKind a = IndirectAccess"]) (use v in \<open>simp add: validAccess_def\<close>)
  fix cs s1 assume 1: "rwInv fs img (instExprs inst) B s1" "list_all2 (exprM fs (instExprs inst) (rwTo s1)) (accCoords a) cs"
  have vp: "validPredicate inst (accValid a) = returns None" using v by (simp add: validAccess_def)
  show "steps fs img (instExprs inst) B (\<lambda>q. accM fs (instExprs inst) q a) s1
    (bindO (rwPredicate (instExprs inst) img (accValid a) (snd (cs, s1))) (\<lambda>v.
      bindO (rwIndirect (instExprs inst) img (accIndirect a) (snd v)) (\<lambda>ind.
       returns (a\<lparr>accCoords := fst (cs, s1), accValid := fst v, accIndirect := fst ind\<rparr>, snd ind))))"
    unfolding fst_conv snd_conv
  proof (rule steps_bind [OF rwPredicate_steps [OF readyE [OF r] vp 1(1)]])
    fix w s2 assume 2: "rwInv fs img (instExprs inst) B s2" "extends (rwTo s1) (rwTo s2)"
      "list_all2 (conM fs (instExprs inst) (rwTo s2)) (accValid a) w"
    have vi: "\<forall>i. accIndirect a = Some i \<longrightarrow> validCoords inst (indIndexCoords i) False = returns None"
      using v by (auto simp: validAccess_def)
    show "steps fs img (instExprs inst) B (\<lambda>q. accM fs (instExprs inst) q a) s2
      (bindO (rwIndirect (instExprs inst) img (accIndirect a) (snd (w, s2)))
        (\<lambda>ind. returns (a\<lparr>accCoords := cs, accValid := fst (w, s2), accIndirect := fst ind\<rparr>, snd ind)))"
      unfolding fst_conv snd_conv
    proof (rule steps_bind [OF rwIndirect_steps [OF readyE [OF r] vi 2(1)]])
      fix ind s3 assume 3: "rwInv fs img (instExprs inst) B s3" "extends (rwTo s2) (rwTo s3)"
        "indM fs (instExprs inst) (rwTo s3) (accIndirect a) ind"
      show "steps fs img (instExprs inst) B (\<lambda>q. accM fs (instExprs inst) q a) s3
        (returns (a\<lparr>accCoords := cs, accValid := w, accIndirect := fst (ind, s3)\<rparr>, snd (ind, s3)))"
        using 3 stableD [OF stable_exprList 1(2) extends_trans [OF 2(2) 3(2)]] stableD [OF stable_conList 2(3) 3(2)]
        by (auto intro!: steps_return simp: accM_def)
    qed
  qed
qed

lemma rwWrite_steps:
  assumes r: "ready inst img B" and v: "validCoords inst (wrCoords w) b = returns None" "validPredicate inst (wrValid w) = returns None"
    "\<forall>i. wrIndirect w = Some i \<longrightarrow> validCoords inst (indIndexCoords i) False = returns None"
    and inv: "rwInv fs img (instExprs inst) B st"
  shows "steps fs img (instExprs inst) B (\<lambda>q. wrM fs (instExprs inst) q w) st (rwWrite (instExprs inst) img w st)"
  unfolding rwWrite_def
proof (rule steps_bind [OF rwList_steps [OF readyE [OF r] coords_slots [OF v(1)] inv]])
  fix cs s1 assume 1: "rwInv fs img (instExprs inst) B s1" "list_all2 (exprM fs (instExprs inst) (rwTo s1)) (wrCoords w) cs"
  show "steps fs img (instExprs inst) B (\<lambda>q. wrM fs (instExprs inst) q w) s1
    (bindO (rwPredicate (instExprs inst) img (wrValid w) (snd (cs, s1))) (\<lambda>v.
      bindO (rwIndirect (instExprs inst) img (wrIndirect w) (snd v)) (\<lambda>ind.
       returns (w\<lparr>wrCoords := fst (cs, s1), wrValid := fst v, wrIndirect := fst ind\<rparr>, snd ind))))"
    unfolding fst_conv snd_conv
  proof (rule steps_bind [OF rwPredicate_steps [OF readyE [OF r] v(2) 1(1)]])
    fix u s2 assume 2: "rwInv fs img (instExprs inst) B s2" "extends (rwTo s1) (rwTo s2)"
      "list_all2 (conM fs (instExprs inst) (rwTo s2)) (wrValid w) u"
    show "steps fs img (instExprs inst) B (\<lambda>q. wrM fs (instExprs inst) q w) s2
      (bindO (rwIndirect (instExprs inst) img (wrIndirect w) (snd (u, s2)))
        (\<lambda>ind. returns (w\<lparr>wrCoords := cs, wrValid := fst (u, s2), wrIndirect := fst ind\<rparr>, snd ind)))"
      unfolding fst_conv snd_conv
    proof (rule steps_bind [OF rwIndirect_steps [OF readyE [OF r] v(3) 2(1)]])
      fix ind s3 assume 3: "rwInv fs img (instExprs inst) B s3" "extends (rwTo s2) (rwTo s3)"
        "indM fs (instExprs inst) (rwTo s3) (wrIndirect w) ind"
      show "steps fs img (instExprs inst) B (\<lambda>q. wrM fs (instExprs inst) q w) s3
        (returns (w\<lparr>wrCoords := cs, wrValid := u, wrIndirect := fst (ind, s3)\<rparr>, snd (ind, s3)))"
        using 3 stableD [OF stable_exprList 1(2) extends_trans [OF 2(2) 3(2)]] stableD [OF stable_conList 2(3) 3(2)]
        by (auto intro!: steps_return simp: wrM_def)
    qed
  qed
qed

lemma splitParam_steps:
  assumes "ready inst img B" "validParam inst p = returns None" "rwInv fs img (instExprs inst) B st"
  shows "steps fs img (instExprs inst) B (\<lambda>q. paramM fs (instExprs inst) q p) st (splitParam (instExprs inst) img p st)"
  unfolding splitParam_def
proof (rule steps_bind [OF rewrite_steps_slot [OF readyE [OF assms(1)] _ assms(3)]])
  show "paramDefinition p \<noteq> kNoExpr \<longrightarrow> validExpr inst (paramDefinition p) = returns None"
    using assms(2) by (auto simp: validParam_def)
qed (auto intro!: steps_return simp: paramM_def)

lemma splitBound_steps:
  assumes "ready inst img B" "validExpr inst (dimExtent (snd jd)) = returns None" "rwInv fs img (instExprs inst) B st"
  shows "steps fs img (instExprs inst) B (\<lambda>q. boundM fs (instExprs inst) q jd) st (splitBound (instExprs inst) img jd st)"
  unfolding splitBound_def
  by (rule steps_bind [OF rewrite_steps [OF readyE [OF assms(1)] assms(2,3)]]) (auto intro!: steps_return simp: boundM_def)

lemma steps_weaken: "steps fs img from B P st m \<Longrightarrow> B \<le> B' \<Longrightarrow> steps fs img from B' P st m"
  unfolding steps_def rwInv_def by (elim disjE exE conjE) auto

lemma steps_constant:
  assumes "rwInv fs img from B st" "room from B" "in_int64 v"
  shows "steps fs img from (B + 1) (\<lambda>q i. i < length (poolExprs q) \<and> opAt q i = Const \<and> exprValue (poolExprs q ! i) = v \<and>
      (\<forall>dims params. denotes q dims params i v)) st
    (onPool st (returns (constantE (rwTo st) v)))"
proof (rule steps_onPool [OF assms(1)])
  show "builds (rwTo st) 1 (\<lambda>dims params q i. node q i (leafExpr Const v) \<and> denotes q dims params i v) (returns (constantE (rwTo st) v))"
  proof -
    obtain i q where c: "constantE (rwTo st) v = (i, q)" by (cases "constantE (rwTo st) v")
    have "poolOk (rwTo st)" "length (poolExprs (rwTo st)) < kNoExpr" using assms(1) rwInv_room [OF assms(1,2)] by (auto simp: rwInv_def)
    note s = constantE_spec [OF this(1) assms(3) this(2) c]
    then show ?thesis using c by (auto simp: builds_def)
  qed
qed (auto simp: leafExpr_def)


lemma steps_add:
  assumes "rwInv fs img from B st" "room from B" "l < length (poolExprs (rwTo st))" "r < length (poolExprs (rwTo st))"
  shows "steps fs img from (B + 2) (\<lambda>q i. i < length (poolExprs q) \<and> (\<forall>dims params. computes (+) always (rwTo st) l r dims params q i)) st
    (onPool st (addE (rwTo st) l r))"
proof (rule steps_onPool [OF assms(1)])
  show "builds (rwTo st) 2 (computes (+) always (rwTo st) l r) (addE (rwTo st) l r)"
    by (rule addE_spec) (use assms rwInv_room in \<open>auto simp: rwInv_def\<close>)
qed auto

lemma steps_floorDiv:
  assumes "rwInv fs img from B st" "room from B" "l < length (poolExprs (rwTo st))" "r < length (poolExprs (rwTo st))" "isDivisor (rwTo st) r"
  shows "steps fs img from (B + 1) (\<lambda>q i. \<forall>dims params. computes (div) (\<lambda>x y. 0 < y) (rwTo st) l r dims params q i) st
    (onPool st (floorDivE (rwTo st) l r))"
proof (rule steps_onPool [OF assms(1)])
  show "builds (rwTo st) 1 (computes (div) (\<lambda>x y. 0 < y) (rwTo st) l r) (floorDivE (rwTo st) l r)"
    by (rule quotient_spec(1)) (use assms rwInv_room [OF assms(1,2)] in \<open>auto simp: rwInv_def\<close>)
qed auto

text \<open>The next call of a sequence that does not overflow.\<close>

lemma steps_next:
  assumes "steps fs img from B P st m" "bindO m f \<noteq> throws OverflowError"
  obtains x st' where "m = returns (x, st')" "rwInv fs img from B st'" "extends (rwTo st) (rwTo st')" "P (rwTo st') x"
    "f (x, st') \<noteq> throws OverflowError" "bindO m f = f (x, st')"
proof -
  have "m \<noteq> throws OverflowError" using assms(2) by auto
  then show ?thesis using assms that by (auto simp: steps_def)
qed

lemma splitDimDecl_steps:
  assumes r: "ready inst img (B + 5)" and v: "validExpr inst (dimExtent d) = returns None" and f: "factorOk f"
    and inv: "rwInv fs img (instExprs inst) B st"
  shows "steps fs img (instExprs inst) (B + 5) (\<lambda>q. dimM fs (instExprs inst) q (d, f)) st (splitDimDecl (instExprs inst) img (d, f) st)"
proof -
  let ?p = "instExprs inst"
  have rm: "room ?p (B + k)" if "k \<le> 5" for k using r that by (simp add: ready_def room_def)
  have rm1: "room ?p (B + 1)" and rm4: "room ?p (B + 1 + 1 + 2)" using rm [of 1] rm [of 4] by (simp_all add: numeral_eq_Suc)
  have r0: "ready inst img B" by (rule readyD [OF r]) simp
  have e: "steps fs img ?p B (\<lambda>q. mirrors fs ?p q (dimExtent d)) st (rewrite ?p img (dimExtent d) st)"
    by (rule rewrite_steps [OF readyE [OF r0] v inv])
  show ?thesis
  proof (cases "f = 0")
    case True
    have "steps fs img ?p B (\<lambda>q. dimM fs ?p q (d, f)) st (splitDimDecl ?p img (d, f) st)"
      unfolding splitDimDecl_def Let_def fst_conv snd_conv
      by (rule steps_bind [OF e]) (use True in \<open>auto intro!: steps_return simp: dimM_def\<close>)
    then show ?thesis by (rule steps_weaken) simp
  next
    case False
    then have fpos: "0 < f" "in_int64 f" "in_int64 (f - 1)" using f by (auto simp: factorOk_def in_int64_def int64_min_def)
    show ?thesis
    proof (cases "splitDimDecl ?p img (d, f) st = throws OverflowError")
      case False
      note H = this [unfolded splitDimDecl_def Let_def fst_conv snd_conv]
      obtain j s1 where 1: "rewrite ?p img (dimExtent d) st = returns (j, s1)" "rwInv fs img ?p B s1" "extends (rwTo st) (rwTo s1)"
        "mirrors fs ?p (rwTo s1) (dimExtent d) j" by (rule steps_next [OF e H])
      note H1 = H [unfolded 1(1) bindO_simps fst_conv snd_conv if_not_P [OF \<open>f \<noteq> 0\<close>]]
      obtain c s2 where 2: "onPool s1 (returns (constantE (rwTo s1) f)) = returns (c, s2)" "rwInv fs img ?p (B + 1) s2" "extends (rwTo s1) (rwTo s2)"
        "c < length (poolExprs (rwTo s2)) \<and> opAt (rwTo s2) c = Const \<and> exprValue (poolExprs (rwTo s2) ! c) = f \<and> (\<forall>dims params. denotes (rwTo s2) dims params c f)"
        by (rule steps_next [OF steps_constant [OF 1(2) rm [of 0, simplified] fpos(2)] H1])
      note H2 = H1 [unfolded 2(1) bindO_simps fst_conv snd_conv]
      obtain c1 s3 where 3: "onPool s2 (returns (constantE (rwTo s2) (f - 1))) = returns (c1, s3)" "rwInv fs img ?p (B + 1 + 1) s3" "extends (rwTo s2) (rwTo s3)"
        "c1 < length (poolExprs (rwTo s3)) \<and> opAt (rwTo s3) c1 = Const \<and> exprValue (poolExprs (rwTo s3) ! c1) = f - 1 \<and> (\<forall>dims params. denotes (rwTo s3) dims params c1 (f - 1))"
        by (rule steps_next [OF steps_constant [OF 2(2) rm1 fpos(3)] H2])
      note H3 = H2 [unfolded 3(1) bindO_simps fst_conv snd_conv]
      have x13: "extends (rwTo s1) (rwTo s3)" by (rule extends_trans [OF 2(3) 3(3)])
      have j3: "mirrors fs ?p (rwTo s3) (dimExtent d) j" by (rule mirrors_extends [OF 1(4) x13])
      have "j < length (poolExprs (rwTo s3))" "c1 < length (poolExprs (rwTo s3))" using j3 3(4) by (auto simp: mirrors_def)
      from steps_add [OF 3(2) _ this] obtain a s4 where 4: "onPool s3 (addE (rwTo s3) j c1) = returns (a, s4)" "rwInv fs img ?p (B + 1 + 1 + 2) s4"
        "extends (rwTo s3) (rwTo s4)" "a < length (poolExprs (rwTo s4)) \<and> (\<forall>dims params. computes (+) always (rwTo s3) j c1 dims params (rwTo s4) a)"
        by (rule steps_next [OF _ H3]) (use rm [of 2] in simp)
      note H4 = H3 [unfolded 4(1) bindO_simps fst_conv snd_conv]
      have x24: "extends (rwTo s2) (rwTo s4)" by (rule extends_trans [OF 3(3) 4(3)])
      have c4: "c < length (poolExprs (rwTo s4))" "poolExprs (rwTo s4) ! c = poolExprs (rwTo s2) ! c" using extends_nth [OF x24] 2(4) by auto
      then have div: "isDivisor (rwTo s4) c" using 2(4) fpos(1) by (simp add: isDivisor_def)
      from steps_floorDiv [OF 4(2) _ _ c4(1) div, of a] obtain o' s5 where 5: "onPool s4 (floorDivE (rwTo s4) a c) = returns (o', s5)"
        "rwInv fs img ?p (B + 1 + 1 + 2 + 1) s5" "extends (rwTo s4) (rwTo s5)" "\<forall>dims params. computes (div) (\<lambda>x y. 0 < y) (rwTo s4) a c dims params (rwTo s5) o'"
        by (rule steps_next [OF _ H4]) (use rm4 4(4) in blast)+
      have den: "denotes (rwTo s5) dims params o' ((E + f - 1) div f) \<and> denotes (rwTo s5) dims params c f"
        if E: "denotes ?p (joinPoint fs dims) params (dimExtent d) E" for dims params E
      proof -
        have "denotes (rwTo s3) dims params j E" "denotes (rwTo s3) dims params c1 (f - 1)" using j3 E 3(4) by (auto simp: mirrors_def)
        then have "denotes (rwTo s4) dims params a (E + (f - 1))" using 4(4) by (auto simp: computes_def)
        moreover have c: "denotes (rwTo s4) dims params c f" using 2(4) denotes_extends [OF _ x24] by blast
        ultimately show ?thesis using 5(4) fpos(1) denotes_extends [OF c 5(3)] by (auto simp: computes_def algebra_simps)
      qed
      have ex: "extends (rwTo st) (rwTo s5)" using 1(3) x13 4(3) 5(3) by (meson extends_trans)
      have "dimM fs ?p (rwTo s5) (d, f) [\<lparr>dimName = dimName d @ ''_o'', dimExtent = o', dimRole = dimRole d\<rparr>,
          \<lparr>dimName = dimName d @ ''_i'', dimExtent = c, dimRole = dimRole d\<rparr>]"
        using \<open>f \<noteq> 0\<close> den by (simp add: dimM_def)
      moreover have "rwInv fs img ?p (B + 5) s5" using 5(2) by (simp add: numeral_eq_Suc)
      ultimately show ?thesis using ex 1(1) 2(1) 3(1) 4(1) 5(1) \<open>f \<noteq> 0\<close> by (simp add: steps_def splitDimDecl_def)
    qed (simp add: steps_def)
  qed
qed

section \<open>The split instance\<close>

lemma splitFactors_spec:
  assumes "splitFactors ss fs0 = returns fs" "\<forall>f \<in> set fs0. factorOk f" "\<forall>s \<in> set ss. in_int64 (splitFactor s)"
  shows "length fs = length fs0 \<and> (\<forall>f \<in> set fs. factorOk f)"
  using assms
proof (induction ss arbitrary: fs0)
  case (Cons s ss)
  have g: "\<not> (length fs0 \<le> splitDim s \<or> splitFactor s < 1)" using Cons.prems(1) by (auto split: if_splits)
  have "\<forall>f \<in> set (fs0[splitDim s := splitFactor s]). factorOk f"
    using Cons.prems(2,3) g set_update_subset_insert [of fs0 "splitDim s" "splitFactor s"] unfolding factorOk_def by fastforce
  with Cons.IH [of "fs0[splitDim s := splitFactor s]"] show ?case using Cons.prems(1,3) g by simp
qed auto

lemma splitFactors_cases:
  "splitFactors ss fs0 = throws InvalidArgument \<and> (\<exists>s \<in> set ss. length fs0 \<le> splitDim s \<or> splitFactor s < 1) \<or>
   (\<exists>fs. splitFactors ss fs0 = returns fs) \<and> (\<forall>s \<in> set ss. splitDim s < length fs0 \<and> 1 \<le> splitFactor s)"
proof (induction ss arbitrary: fs0)
  case (Cons s ss)
  then show ?case using Cons.IH [of "fs0[splitDim s := splitFactor s]"] by auto
qed simp

lemma rwInv_start:
  assumes "poolOk q" "length (poolExprs q) \<le> B" "imageOk fs 0 q img"
  shows "rwInv fs img from B \<lparr>rwTo = q, rwMemo = replicate (length (poolExprs from)) kNoExpr\<rparr>"
  using assms by (auto simp: rwInv_def imageOk_def)

lemma imageOk_extends: "imageOk fs n p img \<Longrightarrow> extends p q \<Longrightarrow> imageOk fs n q img"
  using extends_length [of p q] denotes_extends [of p _ _ _ _ q] unfolding imageOk_def by fastforce

lemma poolOk_rwTo: "rwInv fs img from B st \<Longrightarrow> poolOk (rwTo st)"
  by (simp add: rwInv_def)

lemma splitBounds_extent:
  "jd \<in> set (splitBounds fs img ds) \<Longrightarrow> snd jd \<in> set ds"
  by (auto simp: splitBounds_def dest!: set_zip_rightD)

lemma splitParts:
  assumes rd: "ready inst img B"
    and "\<And>x B st. x \<in> set xs \<Longrightarrow> ready inst img B \<Longrightarrow> rwInv fs img (instExprs inst) B st \<Longrightarrow> steps fs img (instExprs inst) B (\<lambda>q. P q x) st (g x st)"
    and "\<And>x. stable (\<lambda>q. P q x)" and "rwInv fs img (instExprs inst) B st"
  shows "steps fs img (instExprs inst) B (\<lambda>q. list_all2 (P q) xs) st (mapS g xs st)"
  by (rule steps_mapS0 [where P = "\<lambda>x q. P q x"]) (use assms readyD [OF rd] in auto)

lemma splitRest_spec:
  assumes rd: "ready inst img B" and v: "validate inst n = returns None" and sc: "scatterOk inst"
    and inv: "rwInv fs img (instExprs inst) B s1" and im: "imageOk fs 0 (rwTo s1) img"
    and ds: "list_all2 (dimM fs (instExprs inst) (rwTo s1)) (zip (domDims (instDomain inst)) fs) dss"
    and H: "splitRest inst fs img (concat dss) s1 \<noteq> throws OverflowError"
  shows "\<exists>out. splitRest inst fs img (concat dss) s1 = returns out \<and> splitOf fs img inst out"
proof -
  let ?p = "instExprs inst" let ?d = "instDomain inst"
  note H1 = H [unfolded splitRest_def Let_def]
  have vs: "\<forall>p \<in> set (domParams ?d). validParam inst p = returns None" "\<forall>d \<in> set (domDims ?d). validDim inst d = returns None"
    "validPredicate inst (domConstraints ?d) = returns None" "validPredicate inst (domGuard ?d) = returns None"
    "\<forall>a \<in> set (instNorm inst). validAccess inst a = returns None" "\<forall>a \<in> set (instWith inst). validAccess inst a = returns None"
    "validCoords inst (wrCoords (instOutput inst)) (wrIndirect (instOutput inst) \<noteq> None) = returns None"
    "validPredicate inst (wrValid (instOutput inst)) = returns None"
    using v by (simp_all add: validate_def Let_def)
  have st: "steps fs img ?p B (\<lambda>q. list_all2 (paramM fs ?p q) (domParams ?d)) s1 (mapS (splitParam ?p img) (domParams ?d) s1)"
    by (rule splitParts [OF rd]) (use splitParam_steps vs(1) stable_paramM inv in auto)
  obtain ps s2 where 2: "mapS (splitParam ?p img) (domParams ?d) s1 = returns (ps, s2)" "rwInv fs img ?p B s2" "extends (rwTo s1) (rwTo s2)"
    "list_all2 (paramM fs ?p (rwTo s2)) (domParams ?d) ps"
    by (rule steps_next [OF st H1])
  note H2 = H1 [unfolded 2(1) bindO_simps fst_conv snd_conv]
  obtain cs s3 where 3: "rwPredicate ?p img (domConstraints ?d) s2 = returns (cs, s3)" "rwInv fs img ?p B s3" "extends (rwTo s2) (rwTo s3)"
    "list_all2 (conM fs ?p (rwTo s3)) (domConstraints ?d) cs"
    by (rule steps_next [OF rwPredicate_steps [OF readyE [OF rd] vs(3) 2(2)] H2])
  note H3 = H2 [unfolded 3(1) bindO_simps fst_conv snd_conv]
  obtain gs s4 where 4: "rwPredicate ?p img (domGuard ?d) s3 = returns (gs, s4)" "rwInv fs img ?p B s4" "extends (rwTo s3) (rwTo s4)"
    "list_all2 (conM fs ?p (rwTo s4)) (domGuard ?d) gs"
    by (rule steps_next [OF rwPredicate_steps [OF readyE [OF rd] vs(4) 3(2)] H3])
  note H4 = H3 [unfolded 4(1) bindO_simps fst_conv snd_conv]
  have st: "steps fs img ?p B (\<lambda>q. list_all2 (boundM fs ?p q) (splitBounds fs img (domDims ?d))) s4
      (mapS (splitBound ?p img) (splitBounds fs img (domDims ?d)) s4)"
    by (rule splitParts [OF rd]) (use splitBound_steps vs(2) stable_boundM 4(2) splitBounds_extent in \<open>auto simp: validDim_def\<close>)
  obtain bs s5 where 5: "mapS (splitBound ?p img) (splitBounds fs img (domDims ?d)) s4 = returns (bs, s5)" "rwInv fs img ?p B s5"
    "extends (rwTo s4) (rwTo s5)" "list_all2 (boundM fs ?p (rwTo s5)) (splitBounds fs img (domDims ?d)) bs"
    by (rule steps_next [OF st H4])
  note H5 = H4 [unfolded 5(1) bindO_simps fst_conv snd_conv]
  have acc: "steps fs img ?p B (\<lambda>q. list_all2 (accM fs ?p q) as) s (mapS (rwAccess ?p img) as s)"
    if "\<forall>a \<in> set as. validAccess inst a = returns None" "rwInv fs img ?p B s" for as s
    by (rule splitParts [OF rd]) (use rwAccess_steps that stable_accM in auto)
  obtain ns s6 where 6: "mapS (rwAccess ?p img) (instNorm inst) s5 = returns (ns, s6)" "rwInv fs img ?p B s6"
    "extends (rwTo s5) (rwTo s6)" "list_all2 (accM fs ?p (rwTo s6)) (instNorm inst) ns"
    by (rule steps_next [OF acc [OF vs(5) 5(2)] H5])
  note H6 = H5 [unfolded 6(1) bindO_simps fst_conv snd_conv]
  obtain ws s7 where 7: "mapS (rwAccess ?p img) (instWith inst) s6 = returns (ws, s7)" "rwInv fs img ?p B s7"
    "extends (rwTo s6) (rwTo s7)" "list_all2 (accM fs ?p (rwTo s7)) (instWith inst) ws"
    by (rule steps_next [OF acc [OF vs(6) 6(2)] H6])
  note H7 = H6 [unfolded 7(1) bindO_simps fst_conv snd_conv]
  obtain w s8 where 8: "rwWrite ?p img (instOutput inst) s7 = returns (w, s8)" "rwInv fs img ?p B s8" "extends (rwTo s7) (rwTo s8)"
    "wrM fs ?p (rwTo s8) (instOutput inst) w"
    by (rule steps_next [OF rwWrite_steps [OF rd vs(7,8) sc [unfolded scatterOk_def] 7(2)] H7])
  have e7: "extends (rwTo s7) (rwTo s8)" "extends (rwTo s6) (rwTo s8)" "extends (rwTo s5) (rwTo s8)" "extends (rwTo s4) (rwTo s8)"
      "extends (rwTo s3) (rwTo s8)" "extends (rwTo s2) (rwTo s8)" "extends (rwTo s1) (rwTo s8)"
    using 2(3) 3(3) 4(3) 5(3) 6(3) 7(3) 8(3) extends_trans by blast+
  have lift: "list_all2 (P (rwTo s8)) xs ys" if "list_all2 (P (rwTo s)) xs ys" "extends (rwTo s) (rwTo s8)" "\<And>x. stable (\<lambda>q. P q x)"
    for P :: "ExprPool \<Rightarrow> 'x \<Rightarrow> 'y \<Rightarrow> bool" and s xs ys
    using stableD [OF stable_list [of xs P] that(1,2)] that(3) by blast
  show ?thesis
    using 2(1) 3(1) 4(1) 5(1) 6(1) 7(1) 8(1,4) lift [OF ds e7(7) stable_dimM] lift [OF 2(4) e7(6) stable_paramM]
      lift [OF 3(4) e7(5) stable_conM] lift [OF 4(4) e7(4) stable_conM] lift [OF 5(4) e7(3) stable_boundM]
      lift [OF 6(4) e7(2) stable_accM] lift [OF 7(4) e7(1) stable_accM] imageOk_extends [OF im e7(7)] poolOk_rwTo [OF 8(2)]
    unfolding splitRest_def splitOf_def Let_def by auto
qed

lemma splitDims_spec:
  assumes ok: "poolOk (instExprs inst)" and v: "validate inst n = returns None" and sc: "scatterOk inst" and rm: "splitRoom inst"
    and f: "splitFactors splits (replicate (length (domDims (instDomain inst))) 0) = returns fs"
    and i64: "\<forall>s \<in> set splits. in_int64 (splitFactor s)"
  shows "splitDims inst splits = throws OverflowError \<or> (\<exists>img out. splitDims inst splits = returns out \<and> splitOf fs img inst out)"
proof (cases "splitDims inst splits = throws OverflowError")
  case False
  let ?p = "instExprs inst" let ?d = "instDomain inst" let ?n = "length (domDims (instDomain inst))"
  note H = False [unfolded splitDims_def Let_def f bindO_simps]
  have fs: "length fs = ?n" "\<forall>f \<in> set fs. factorOk f"
    using splitFactors_spec [OF f _ i64] by (auto simp: factorOk_def in_int64_def int64_min_def int64_max_def)
  have "length (poolExprs emptyPool) + 7 * length fs < kNoExpr" "0 + 2 * length fs < 2 ^ 32"
    using rm fs(1) by (auto simp: splitRoom_def kNoExpr_def emptyPool_def)
  note im = splitImage_spec [OF fs(2) poolOk_empty this]
  have "splitImage fs 0 emptyPool \<noteq> throws OverflowError" using H by auto
  with im obtain img q where im: "splitImage fs 0 emptyPool = returns (img, q)" "poolOk q"
    "length (poolExprs q) \<le> length (poolExprs emptyPool) + 7 * length fs" "imageOk fs 0 q img" by blast
  let ?st = "\<lparr>rwTo = q, rwMemo = replicate (length (poolExprs ?p)) kNoExpr\<rparr>" let ?B = "7 * ?n + 5 * ?n"
  have len: "length (poolExprs q) \<le> 7 * ?n" using im(3) fs(1) by (simp add: emptyPool_def)
  have rd: "ready inst img ?B"
    using ok rm im(4) fs(1) by (auto simp: ready_def room_def splitRoom_def kNoExpr_def imageOk_def)
  note H0 = H [unfolded im(1) bindO_simps fst_conv snd_conv]
  have vd: "validDim inst d = returns None" if "d \<in> set (domDims ?d)" for d using v that by (simp add: validate_def Let_def)
  have "steps fs img ?p (7 * ?n + 5 * length (zip (domDims ?d) fs)) (\<lambda>q. list_all2 (\<lambda>x. dimM fs ?p q x) (zip (domDims ?d) fs)) ?st
      (mapS (splitDimDecl ?p img) (zip (domDims ?d) fs) ?st)"
  proof (rule steps_mapS [where P = "\<lambda>x q. dimM fs ?p q x"])
    fix x B st assume x: "x \<in> set (zip (domDims ?d) fs)" "B \<le> 7 * ?n + 5 * length (zip (domDims ?d) fs) - 5" "rwInv fs img ?p B st"
    obtain d f where df: "x = (d, f)" by (cases x)
    have m: "d \<in> set (domDims ?d)" "f \<in> set fs" using x(1) df by (auto dest: set_zip_leftD set_zip_rightD)
    have "length (zip (domDims ?d) fs) = ?n" using fs(1) by simp
    then have "B + 5 \<le> ?B" using x(2) length_pos_if_in_set [OF m(1)] by linarith
    then have "ready inst img (B + 5)" by (rule readyD [OF rd])
    then show "steps fs img ?p (B + 5) (\<lambda>q. dimM fs ?p q x) st (splitDimDecl ?p img x st)"
      unfolding df by (rule splitDimDecl_steps) (use vd m fs(2) x(3) in \<open>auto simp: validDim_def\<close>)
  qed (use stable_dimM rwInv_start [OF im(2) len im(4)] in auto)
  then have dims: "steps fs img ?p ?B (\<lambda>q. list_all2 (dimM fs ?p q) (zip (domDims ?d) fs)) ?st
      (mapS (splitDimDecl ?p img) (zip (domDims ?d) fs) ?st)" using fs(1) by simp
  obtain dss s1 where 1: "mapS (splitDimDecl ?p img) (zip (domDims ?d) fs) ?st = returns (dss, s1)" "rwInv fs img ?p ?B s1"
    "extends (rwTo ?st) (rwTo s1)" "list_all2 (dimM fs ?p (rwTo s1)) (zip (domDims ?d) fs) dss" by (rule steps_next [OF dims H0])
  note H1 = H0 [unfolded 1(1) bindO_simps fst_conv snd_conv]
  have "imageOk fs 0 (rwTo s1) img" using imageOk_extends [OF im(4)] 1(3) by simp
  from splitRest_spec [OF rd v sc 1(2) this 1(4) H1] show ?thesis using f im(1) 1(1) by (auto simp: splitDims_def)
qed simp

end
