(* ===== verification/Index_Points.thy ===== *)
theory Index_Points
  imports Index_Split
begin

text \<open>
  The points of a split domain, their order, and the accesses and the write at them.
\<close>

fun splitPoint :: "int list \<Rightarrow> int list \<Rightarrow> int list" where
  "splitPoint (f # fs) (x # xs) = (if f = 0 then [x] else [x div f, x mod f]) @ splitPoint fs xs"
| "splitPoint _ _ = []"

fun splitExts :: "int list \<Rightarrow> int list \<Rightarrow> int list" where
  "splitExts (f # fs) (E # Es) = (if f = 0 then [E] else [(E + f - 1) div f, f]) @ splitExts fs Es"
| "splitExts _ _ = []"

text \<open>The canonical order of the points.\<close>

fun pointLess :: "int list \<Rightarrow> int list \<Rightarrow> bool" where
  "pointLess (x # xs) (y # ys) \<longleftrightarrow> x < y \<or> x = y \<and> pointLess xs ys"
| "pointLess _ _ \<longleftrightarrow> False"

definition boxIn :: "int list \<Rightarrow> int list \<Rightarrow> bool" where
  "boxIn Es t \<longleftrightarrow> list_all2 (\<lambda>E x. 0 \<le> x \<and> x < E) Es t"

definition isPoint :: "IndexedInstance \<Rightarrow> int list \<Rightarrow> int list \<Rightarrow> bool" where
  "isPoint inst vals t \<longleftrightarrow>
     list_all2 (\<lambda>d x. \<exists>E. denotes (instExprs inst) [] (map Some vals) (dimExtent d) E \<and> 0 \<le> x \<and> x < E) (domDims (instDomain inst)) t \<and>
     sat (instExprs inst) t (map Some vals) (domGuard (instDomain inst))"

text \<open>The coordinates of an access, of its index and of the write, at the two points.\<close>

definition sameCoords :: "IndexedInstance \<Rightarrow> IndexedInstance \<Rightarrow> int list \<Rightarrow> int list \<Rightarrow> int list \<Rightarrow> nat list \<Rightarrow> nat list \<Rightarrow> bool" where
  "sameCoords inst out vals t s = list_all2 (\<lambda>i j. i = kNoExpr \<and> j = kNoExpr \<or>
     (\<exists>v. denotes (instExprs inst) t (map Some vals) i v \<and> denotes (instExprs out) s (map Some vals) j v))"

definition samePred :: "IndexedInstance \<Rightarrow> IndexedInstance \<Rightarrow> int list \<Rightarrow> int list \<Rightarrow> int list \<Rightarrow> Predicate \<Rightarrow> Predicate \<Rightarrow> bool" where
  "samePred inst out vals t s cs cs' \<longleftrightarrow>
     (sat (instExprs out) s (map Some vals) cs' \<longleftrightarrow> sat (instExprs inst) t (map Some vals) cs)"

definition sameIndirect :: "IndexedInstance \<Rightarrow> IndexedInstance \<Rightarrow> int list \<Rightarrow> int list \<Rightarrow> int list \<Rightarrow> Indirect option \<Rightarrow> Indirect option \<Rightarrow> bool" where
  "sameIndirect inst out vals t s = rel_option (\<lambda>i i'. indIndexOperand i' = indIndexOperand i \<and> indAxis i' = indAxis i \<and>
     sameCoords inst out vals t s (indIndexCoords i) (indIndexCoords i'))"

definition sameAccess :: "IndexedInstance \<Rightarrow> IndexedInstance \<Rightarrow> int list \<Rightarrow> int list \<Rightarrow> int list \<Rightarrow> Access \<Rightarrow> Access \<Rightarrow> bool" where
  "sameAccess inst out vals t s a a' \<longleftrightarrow>
     accKind a' = accKind a \<and> accOnInvalid a' = accOnInvalid a \<and> accPadding a' = accPadding a \<and>
     sameCoords inst out vals t s (accCoords a) (accCoords a') \<and> samePred inst out vals t s (accValid a) (accValid a') \<and>
     sameIndirect inst out vals t s (accIndirect a) (accIndirect a')"

definition sameWrite :: "IndexedInstance \<Rightarrow> IndexedInstance \<Rightarrow> int list \<Rightarrow> int list \<Rightarrow> int list \<Rightarrow> bool" where
  "sameWrite inst out vals t s \<longleftrightarrow> wrMode (instOutput out) = wrMode (instOutput inst) \<and>
     sameCoords inst out vals t s (wrCoords (instOutput inst)) (wrCoords (instOutput out)) \<and>
     samePred inst out vals t s (wrValid (instOutput inst)) (wrValid (instOutput out)) \<and>
     sameIndirect inst out vals t s (wrIndirect (instOutput inst)) (wrIndirect (instOutput out))"

text \<open>The factor a list of splits asks for at a dim: that of the last split of the dim, 0 without one.\<close>

definition factorFor :: "DimSplit list \<Rightarrow> nat \<Rightarrow> int" where
  "factorFor splits d = (case filter (\<lambda>s. splitDim s = d) splits of [] \<Rightarrow> 0 | s # ss \<Rightarrow> splitFactor (last (s # ss)))"

definition factorsOf :: "IndexedInstance \<Rightarrow> DimSplit list \<Rightarrow> int list" where
  "factorsOf inst splits = map (factorFor splits) [0..<length (domDims (instDomain inst))]"

section \<open>The points of a split domain\<close>

lemma join_split:
  "length t = length fs \<Longrightarrow> joinPoint fs (splitPoint fs t) = t"
proof (induction fs t rule: splitPoint.induct)
  case (1 f fs x xs)
  then show ?case by (simp add: mult.commute)
qed auto

lemma outer_bound:
  fixes f x E :: int
  assumes "0 < f" "0 \<le> x" "x < E" shows "x div f < (E + f - 1) div f"
proof -
  have "x + f \<le> E + f - 1" using assms by simp
  then have "(x + f) div f \<le> (E + f - 1) div f" using assms(1) by (rule zdiv_mono1)
  then show ?thesis using assms(1) by simp
qed

lemma boxIn_split:
  assumes "length fs = length Es" "\<forall>f \<in> set fs. 0 \<le> f" "boxIn Es t"
  shows "boxIn (splitExts fs Es) (splitPoint fs t)"
  using assms
proof (induction fs Es arbitrary: t rule: splitExts.induct)
  case (1 f fs E Es)
  then obtain x xs where t: "t = x # xs" "0 \<le> x" "x < E" "boxIn Es xs" by (auto simp: boxIn_def list_all2_Cons1)
  have "boxIn (splitExts fs Es) (splitPoint fs xs)" by (rule "1.IH") (use "1.prems" t in auto)
  moreover have "0 < f \<Longrightarrow> 0 \<le> x div f \<and> x div f < (E + f - 1) div f" using outer_bound t by (simp add: pos_imp_zdiv_nonneg_iff)
  ultimately show ?case using t "1.prems"(2) by (auto simp: boxIn_def)
qed (auto simp: boxIn_def)

lemma boxIn_join:
  assumes "length fs = length Es" "\<forall>f \<in> set fs. 0 \<le> f" "boxIn (splitExts fs Es) s"
  shows "length (joinPoint fs s) = length fs \<and> splitPoint fs (joinPoint fs s) = s \<and>
    (\<forall>k < length fs. 0 \<le> joinPoint fs s ! k \<and> (fs ! k = 0 \<longrightarrow> joinPoint fs s ! k < Es ! k))"
  using assms
proof (induction fs Es arbitrary: s rule: splitExts.induct)
  case (1 f fs E Es)
  show ?case
  proof (cases "f = 0")
    case True
    then obtain x xs where s: "s = x # xs" "0 \<le> x" "x < E" "boxIn (splitExts fs Es) xs"
      using "1.prems"(3) by (auto simp: boxIn_def list_all2_Cons1)
    note "1.IH" [OF _ _ s(4)]
    then show ?thesis using s True "1.prems"(1,2) by (auto simp: nth_Cons split: nat.splits)
  next
    case False
    then have f: "0 < f" using "1.prems"(2) by auto
    obtain ou inn xs where s: "s = ou # inn # xs" "0 \<le> ou" "0 \<le> inn" "inn < f" "boxIn (splitExts fs Es) xs"
      using "1.prems"(3) False by (auto simp: boxIn_def list_all2_Cons1)
    have d: "(f * ou + inn) div f = ou" "(f * ou + inn) mod f = inn" using f s(3,4) by simp_all
    note "1.IH" [OF _ _ s(5)]
    then show ?thesis using s(1-3) d False f "1.prems"(1,2) by (auto simp: nth_Cons split: nat.splits)
  qed
qed (auto simp: boxIn_def)

lemma split_step_less:
  fixes f x y :: int
  assumes "0 < f" shows "x div f < y div f \<or> x div f = y div f \<and> x mod f < y mod f \<longleftrightarrow> x < y"
proof -
  have less: "x div f < y div f \<or> x div f = y div f \<and> x mod f < y mod f" if "x < y" for x y
  proof (cases "x div f = y div f")
    case True
    then have "x mod f < y mod f" using that by (metis add_less_cancel_left mult_div_mod_eq)
    then show ?thesis using True by simp
  next
    case False
    then show ?thesis using zdiv_mono1 [of x y f] assms that by simp
  qed
  show ?thesis using less [of x y] less [of y x] by (metis less_asym less_linear)
qed

lemma split_order:
  assumes "length t = length fs" "length u = length fs" "\<forall>f \<in> set fs. 0 \<le> f"
  shows "pointLess (splitPoint fs t) (splitPoint fs u) \<longleftrightarrow> pointLess t u"
  using assms
proof (induction fs arbitrary: t u)
  case (Cons f fs)
  obtain x xs y ys where t: "t = x # xs" "u = y # ys" using Cons.prems by (cases t; cases u) auto
  have IH: "pointLess (splitPoint fs xs) (splitPoint fs ys) \<longleftrightarrow> pointLess xs ys" using Cons t by simp
  show ?case
  proof (cases "f = 0")
    case False
    then have "0 < f" using Cons.prems(3) by auto
    moreover have "x div f = y div f \<and> x mod f = y mod f \<longleftrightarrow> x = y" by (metis mult_div_mod_eq)
    ultimately show ?thesis using t False IH split_step_less [of f x y] by auto
  qed (use t IH in simp)
qed simp

section \<open>The points and the values of a split instance\<close>

lemma denotes_nil: "denotes p [] params i v \<Longrightarrow> denotes p dims params i v"
proof (induction rule: denotes.induct)
  case (den_const i e) then show ?case by (rule denotes.den_const)
next
  case (den_param i e v) then show ?case by (rule denotes.den_param)
next
  case (den_add i e x y) from denotes.den_add [OF den_add.hyps(1,2) den_add.IH] show ?case .
next
  case (den_mul i e x y) from denotes.den_mul [OF den_mul.hyps(1,2) den_mul.IH] show ?case .
next
  case (den_div i e x y) from denotes.den_div [OF den_div.hyps(1,2) den_div.IH den_div.hyps(5)] show ?case .
next
  case (den_mod i e x y) from denotes.den_mod [OF den_mod.hyps(1,2) den_mod.IH den_mod.hyps(5)] show ?case .
qed simp

lemma extents_exist:
  assumes "poolOk (instExprs inst)" "validate inst n = returns None" "admits inst vals"
  shows "\<exists>Es. list_all2 (\<lambda>d. denotes (instExprs inst) [] (map Some vals) (dimExtent d)) (domDims (instDomain inst)) Es"
proof -
  let ?ds = "domDims (instDomain inst)"
  have "\<exists>E. denotes (instExprs inst) [] (map Some vals) (dimExtent d) E" if "d \<in> set ?ds" for d
  proof -
    note v = validate_extent [OF assms(2) that]
    obtain E where "denotes (instExprs inst) (replicate (length ?ds) 0) (map Some vals) (dimExtent d) E"
      using validExpr_sound [OF assms(1,3), of "replicate (length ?ds) 0" "dimExtent d"] v by auto
    then show ?thesis using noDim_None [OF assms(1)] v by blast
  qed
  then have "\<forall>d. \<exists>E. d \<in> set ?ds \<longrightarrow> denotes (instExprs inst) [] (map Some vals) (dimExtent d) E" by blast
  then obtain g where "\<forall>d. d \<in> set ?ds \<longrightarrow> denotes (instExprs inst) [] (map Some vals) (dimExtent d) (g d)" by metis
  then have "list_all2 (\<lambda>d. denotes (instExprs inst) [] (map Some vals) (dimExtent d)) ?ds (map g ?ds)"
    by (simp add: list_all2_conv_all_nth)
  then show ?thesis by blast
qed

lemma box_iff:
  assumes "list_all2 (\<lambda>d. denotes p [] params (dimExtent d)) ds Es"
  shows "list_all2 (\<lambda>d x. \<exists>E. denotes p [] params (dimExtent d) E \<and> 0 \<le> x \<and> x < E) ds t \<longleftrightarrow> boxIn Es t"
  using assms unfolding boxIn_def list_all2_conv_all_nth by (metis denotes_unique)

lemma split_extents:
  assumes "list_all2 (\<lambda>d. denotes p [] params (dimExtent d)) ds Es" "length fs' = length ds"
    "list_all2 (dimM fs p q) (zip ds fs') dss"
  shows "list_all2 (\<lambda>d. denotes q [] params (dimExtent d)) (concat dss) (splitExts fs' Es)"
  using assms
proof (induction ds Es arbitrary: fs' dss rule: list_all2_induct)
  case (Cons d ds E Es)
  obtain f fs1 where fs: "fs' = f # fs1" using Cons.prems(1) by (cases fs') auto
  obtain x dss1 where dss: "dss = x # dss1" "dimM fs p q (d, f) x" "list_all2 (dimM fs p q) (zip ds fs1) dss1"
    using Cons.prems(2) fs by (auto simp: list_all2_Cons1)
  have IH: "list_all2 (\<lambda>d. denotes q [] params (dimExtent d)) (concat dss1) (splitExts fs1 Es)"
    by (rule Cons.IH) (use Cons.prems(1) fs dss(3) in auto)
  have "denotes p (joinPoint fs []) params (dimExtent d) E" using Cons.hyps(1) by simp
  then have "list_all2 (\<lambda>d. denotes q [] params (dimExtent d)) x (if f = 0 then [E] else [(E + f - 1) div f, f])"
    using dss(2) unfolding dimM_def mirrors_def Let_def by (auto split: if_splits)
  then show ?case using IH fs dss(1) by (simp add: list_all2_appendI)
qed simp

text \<open>Where the old expression has a value, the new one has the same.\<close>

lemma mirrors_iff:
  assumes "mirrors fs p q i j" "joinPoint fs s = t" "\<exists>v. denotes p t params i v"
  shows "denotes q s params j v \<longleftrightarrow> denotes p t params i v"
  using assms denotes_unique unfolding mirrors_def by metis

lemma conM_iff:
  assumes "conM fs p q c c'" "joinPoint fs s = t" "\<forall>i \<in> set (predExprs [c]). \<exists>v. denotes p t params i v"
  shows "conSat q s params c' \<longleftrightarrow> conSat p t params c"
proof -
  have m: "mirrors fs p q (conLhs c) (conLhs c')" "mirrors fs p q (conRhs c) (conRhs c')" using assms(1) by (auto simp: conM_def)
  have "denotes q s params (conLhs c') v \<longleftrightarrow> denotes p t params (conLhs c) v"
    "denotes q s params (conRhs c') v \<longleftrightarrow> denotes p t params (conRhs c) v" for v
    using assms(3) by (simp_all add: mirrors_iff [OF m(1) assms(2)] mirrors_iff [OF m(2) assms(2)] predExprs_def)
  then show ?thesis using assms(1) by (simp add: conSat_def conM_def)
qed

lemma sat_iff:
  assumes "list_all2 (conM fs p q) cs cs'" "joinPoint fs s = t" "\<forall>i \<in> set (predExprs cs). \<exists>v. denotes p t params i v"
  shows "sat q s params cs' \<longleftrightarrow> sat p t params cs"
  using assms(1,3)
proof (induction cs cs' rule: list_all2_induct)
  case (Cons c cs c' cs')
  have "conSat q s params c' \<longleftrightarrow> conSat p t params c"
    by (rule conM_iff [OF Cons.hyps(1) assms(2)]) (use Cons.prems in \<open>auto simp: predExprs_def\<close>)
  then show ?case using Cons.IH Cons.prems by (auto simp: sat_def predExprs_def)
qed (simp add: sat_def)

lemma bounds_iff:
  assumes "imageOk fs 0 q img" "list_all2 (boundM fs p q) (splitBounds fs img ds) b" "length ds = length fs"
    "list_all2 (\<lambda>d. denotes p [] params (dimExtent d)) ds Es" "joinPoint fs s = t" "length t = length fs"
  shows "sat q s params b \<longleftrightarrow> (\<forall>k < length fs. fs ! k \<noteq> 0 \<longrightarrow> t ! k < Es ! k)"
proof -
  have img: "length img = length fs" using assms(1) by (simp add: imageOk_def)
  have sb: "set (splitBounds fs img ds) = {(img ! k, ds ! k) |k. k < length fs \<and> fs ! k \<noteq> 0}"
  proof -
    have "zip fs (zip img ds) = map (\<lambda>k. (fs ! k, img ! k, ds ! k)) [0..<length fs]"
      using img assms(3) by (intro nth_equalityI) simp_all
    then show ?thesis unfolding splitBounds_def by (force simp: image_iff)
  qed
  have one: "conSat q s params c \<longleftrightarrow> t ! k < Es ! k" if "boundM fs p q (img ! k, ds ! k) c" "k < length fs" for c k
  proof -
    have "denotes q s params (img ! k) (t ! k)" using assms(1,5,6) that(2) by (auto simp: imageOk_def)
    moreover have "denotes p (joinPoint fs s) params (dimExtent (ds ! k)) (Es ! k)"
      by (rule denotes_nil) (use assms(3,4) that(2) in \<open>auto simp: list_all2_conv_all_nth\<close>)
    then have "denotes q s params (conRhs c) (Es ! k)" using that(1) by (simp add: boundM_def mirrors_def)
    moreover have c: "conLhs c = img ! k" "conRel c = Lt" using that(1) by (auto simp: boundM_def)
    ultimately show ?thesis unfolding conSat_def c relHolds.simps using denotes_unique by metis
  qed
  show ?thesis
  proof
    assume s: "sat q s params b"
    show "\<forall>k < length fs. fs ! k \<noteq> 0 \<longrightarrow> t ! k < Es ! k"
    proof (intro allI impI)
      fix k assume k: "k < length fs" "fs ! k \<noteq> 0"
      then have "(img ! k, ds ! k) \<in> set (splitBounds fs img ds)" using sb by auto
      then obtain m where m: "m < length b" "splitBounds fs img ds ! m = (img ! k, ds ! k)"
        using assms(2) by (auto simp: in_set_conv_nth list_all2_conv_all_nth)
      then have "boundM fs p q (img ! k, ds ! k) (b ! m)" using assms(2) by (auto simp: list_all2_conv_all_nth)
      moreover have "conSat q s params (b ! m)" using s m(1) by (simp add: sat_def)
      ultimately show "t ! k < Es ! k" using one k(1) by blast
    qed
  next
    assume r: "\<forall>k < length fs. fs ! k \<noteq> 0 \<longrightarrow> t ! k < Es ! k"
    show "sat q s params b" unfolding sat_def
    proof
      fix c assume "c \<in> set b"
      then obtain m where m: "m < length b" "c = b ! m" by (auto simp: in_set_conv_nth)
      then have bm: "boundM fs p q (splitBounds fs img ds ! m) c" "splitBounds fs img ds ! m \<in> set (splitBounds fs img ds)"
        using assms(2) by (auto simp: list_all2_conv_all_nth)
      then obtain k where k: "k < length fs" "fs ! k \<noteq> 0" "splitBounds fs img ds ! m = (img ! k, ds ! k)" using sb by auto
      then show "conSat q s params c" using one bm(1) r by simp
    qed
  qed
qed

lemma sat_append: "sat p t params (a @ b) \<longleftrightarrow> sat p t params a \<and> sat p t params b"
  by (auto simp: sat_def)

lemma boxIn_iff: "boxIn Es t \<longleftrightarrow> length t = length Es \<and> (\<forall>k < length Es. 0 \<le> t ! k \<and> t ! k < Es ! k)"
  by (auto simp: boxIn_def list_all2_conv_all_nth)

text \<open>Guard and box together: the points of the new instance are those of the old one, split.\<close>

lemma split_points:
  assumes ok: "poolOk (instExprs inst)" and v: "validate inst n = returns None" and ad: "admits inst vals"
    and sp: "splitOf fs img inst out" and fs: "length fs = length (domDims (instDomain inst))" "\<forall>f \<in> set fs. 0 \<le> f"
  shows "isPoint out vals s \<longleftrightarrow> (\<exists>t. isPoint inst vals t \<and> s = splitPoint fs t)"
proof -
  let ?p = "instExprs inst" let ?q = "instExprs out" let ?V = "map Some vals" let ?ds = "domDims (instDomain inst)"
  obtain Es where Es: "list_all2 (\<lambda>d. denotes ?p [] ?V (dimExtent d)) ?ds Es" using extents_exist [OF ok v ad] by blast
  have lE: "length fs = length Es" using Es fs(1) by (simp add: list_all2_conv_all_nth)
  obtain dss g b where parts: "domDims (instDomain out) = concat dss" "list_all2 (dimM fs ?p ?q) (zip ?ds fs) dss"
    "domGuard (instDomain out) = g @ b" "list_all2 (conM fs ?p ?q) (domGuard (instDomain inst)) g"
    "list_all2 (boundM fs ?p ?q) (splitBounds fs img ?ds) b" "imageOk fs 0 ?q img"
    using sp by (auto simp: splitOf_def Let_def)
  have old: "isPoint inst vals t \<longleftrightarrow> boxIn Es t \<and> sat ?p t ?V (domGuard (instDomain inst))" for t
    by (simp add: isPoint_def box_iff [OF Es])
  have new: "isPoint out vals s \<longleftrightarrow> boxIn (splitExts fs Es) s \<and> sat ?q s ?V g \<and> sat ?q s ?V b" for s
    using box_iff [OF split_extents [OF Es fs(1) parts(2)]] by (simp add: isPoint_def parts(1,3) sat_append)
  have guard: "sat ?q s ?V g \<and> sat ?q s ?V b \<longleftrightarrow>
      sat ?p t ?V (domGuard (instDomain inst)) \<and> (\<forall>k < length fs. fs ! k \<noteq> 0 \<longrightarrow> t ! k < Es ! k)"
    if "joinPoint fs s = t" "length t = length fs" for s t
  proof -
    have "\<exists>v. denotes ?p t ?V i v" if "i \<in> set (predExprs (domGuard (instDomain inst)))" for i
      by (rule validate_denotes [OF ok v ad]) (use that \<open>length t = length fs\<close> fs(1) in \<open>auto simp: checkedExprs_def\<close>)
    then show ?thesis
      using sat_iff [OF parts(4) that(1)] bounds_iff [OF parts(6,5) _ Es that] fs(1) by simp
  qed
  show ?thesis
  proof
    assume s: "isPoint out vals s"
    let ?t = "joinPoint fs s"
    have j: "length ?t = length fs" "splitPoint fs ?t = s" "\<forall>k < length fs. 0 \<le> ?t ! k \<and> (fs ! k = 0 \<longrightarrow> ?t ! k < Es ! k)"
      using boxIn_join [OF lE fs(2)] s new by auto
    have "isPoint inst vals ?t" using guard [OF refl j(1)] s new j lE by (auto simp: old boxIn_iff)
    then show "\<exists>t. isPoint inst vals t \<and> s = splitPoint fs t" using j(2) by metis
  next
    assume "\<exists>t. isPoint inst vals t \<and> s = splitPoint fs t"
    then obtain t where t: "boxIn Es t" "sat ?p t ?V (domGuard (instDomain inst))" "s = splitPoint fs t" using old by blast
    have l: "length t = length fs" using t(1) lE by (simp add: boxIn_iff)
    show "isPoint out vals s"
      using boxIn_split [OF lE fs(2) t(1)] guard [OF join_split [OF l] l] t(1,2) lE unfolding new t(3) boxIn_iff [of Es] by simp
  qed
qed

lemma sameCoords_exprM:
  assumes "list_all2 (exprM fs (instExprs inst) (instExprs out)) is js" "joinPoint fs s = t"
    "\<forall>i \<in> set is. i \<noteq> kNoExpr \<longrightarrow> (\<exists>v. denotes (instExprs inst) t (map Some vals) i v)"
  shows "sameCoords inst out vals t s is js"
proof -
  have "i = kNoExpr \<and> j = kNoExpr \<or> (\<exists>v. denotes (instExprs inst) t (map Some vals) i v \<and> denotes (instExprs out) s (map Some vals) j v)"
    if "exprM fs (instExprs inst) (instExprs out) i j" "i \<in> set is" for i j
    using that assms(2,3) unfolding exprM_def mirrors_def by blast
  then show ?thesis using assms(1) unfolding sameCoords_def by (simp add: list_all2_conv_all_nth)
qed


lemma samePred_conM:
  assumes "list_all2 (conM fs (instExprs inst) (instExprs out)) cs cs'" "joinPoint fs s = t"
    "\<forall>i \<in> set (predExprs cs). \<exists>v. denotes (instExprs inst) t (map Some vals) i v"
  shows "samePred inst out vals t s cs cs'"
  unfolding samePred_def by (rule sat_iff [OF assms])

lemma sameIndirect_indM:
  assumes "indM fs (instExprs inst) (instExprs out) ind ind'" "joinPoint fs s = t"
    "\<forall>i. ind = Some i \<longrightarrow> (\<forall>j \<in> set (indIndexCoords i). \<exists>v. denotes (instExprs inst) t (map Some vals) j v)"
  shows "sameIndirect inst out vals t s ind ind'"
proof (cases ind)
  case None then show ?thesis using assms(1) by (simp add: indM_def sameIndirect_def)
next
  case (Some i)
  then obtain i' where i': "ind' = Some i'" "i' = i\<lparr>indIndexCoords := indIndexCoords i'\<rparr>"
    "list_all2 (exprM fs (instExprs inst) (instExprs out)) (indIndexCoords i) (indIndexCoords i')"
    using assms(1) by (auto simp: indM_def option_rel_Some1)
  have "sameCoords inst out vals t s (indIndexCoords i) (indIndexCoords i')"
    by (rule sameCoords_exprM [OF i'(3) assms(2)]) (use assms(3) Some in simp)
  moreover have "indIndexOperand i' = indIndexOperand i" "indAxis i' = indAxis i"
    by (subst i'(2), simp)+
  ultimately show ?thesis using Some i'(1) by (simp add: sameIndirect_def)
qed

lemma split_access:
  assumes ok: "poolOk (instExprs inst)" and v: "validate inst n = returns None" and ad: "admits inst vals"
    and a: "accM fs (instExprs inst) (instExprs out) a a'" "a \<in> set (instNorm inst @ instWith inst)"
    and t: "joinPoint fs s = t" "length t = length (domDims (instDomain inst))"
  shows "sameAccess inst out vals t s a a'"
proof -
  let ?M = "exprM fs (instExprs inst) (instExprs out)"
  have d: "\<exists>v. denotes (instExprs inst) t (map Some vals) i v" if "i \<in> set (accExprs a)" for i
    by (rule validate_denotes [OF ok v ad _ t(2)]) (use that a(2) in \<open>auto simp: checkedExprs_def\<close>)
  have dc: "\<forall>i \<in> set (accCoords a). i \<noteq> kNoExpr \<longrightarrow> (\<exists>v. denotes (instExprs inst) t (map Some vals) i v)"
    "\<forall>i \<in> set (predExprs (accValid a)). \<exists>v. denotes (instExprs inst) t (map Some vals) i v"
    "\<forall>i \<in> set (case accIndirect a of None \<Rightarrow> [] | Some ind \<Rightarrow> indIndexCoords ind). \<exists>v. denotes (instExprs inst) t (map Some vals) i v"
    using d by (auto simp: accExprs_def)
  have eq: "accKind a' = accKind a" "accOnInvalid a' = accOnInvalid a" "accPadding a' = accPadding a"
    using a(1) unfolding accM_def by (metis Access.select_convs Access.surjective Access.update_convs)+
  have "sameIndirect inst out vals t s (accIndirect a) (accIndirect a')"
    by (rule sameIndirect_indM [OF _ t(1)]) (use a(1) dc(3) in \<open>auto simp: accM_def\<close>)
  moreover have "sameCoords inst out vals t s (accCoords a) (accCoords a')" "samePred inst out vals t s (accValid a) (accValid a')"
    using a(1) dc(1,2) by (auto intro!: sameCoords_exprM [OF _ t(1)] samePred_conM [OF _ t(1)] simp: accM_def)
  ultimately show ?thesis using eq by (simp add: sameAccess_def)
qed

lemma split_write:
  assumes ok: "poolOk (instExprs inst)" and v: "validate inst n = returns None" and sc: "scatterOk inst" and ad: "admits inst vals"
    and w: "wrM fs (instExprs inst) (instExprs out) (instOutput inst) (instOutput out)"
    and t: "joinPoint fs s = t" "length t = length (domDims (instDomain inst))"
  shows "sameWrite inst out vals t s"
proof -
  note val = validate_denotes [OF ok v ad _ t(2)]
  have "\<forall>i \<in> set (predExprs (wrValid (instOutput inst))). \<exists>v. denotes (instExprs inst) t (map Some vals) i v"
    "\<forall>i \<in> set (wrCoords (instOutput inst)). i \<noteq> kNoExpr \<longrightarrow> (\<exists>v. denotes (instExprs inst) t (map Some vals) i v)"
    using val by (auto simp: checkedExprs_def)
  moreover have "\<forall>i. wrIndirect (instOutput inst) = Some i \<longrightarrow> (\<forall>j \<in> set (indIndexCoords i). \<exists>v. denotes (instExprs inst) t (map Some vals) j v)"
    using scatter_denotes [OF ok sc ad _ t(2)] by (simp add: scatterExprs_def)
  moreover note parts = w [unfolded wrM_def]
  ultimately have "sameCoords inst out vals t s (wrCoords (instOutput inst)) (wrCoords (instOutput out))"
    "samePred inst out vals t s (wrValid (instOutput inst)) (wrValid (instOutput out))"
    "sameIndirect inst out vals t s (wrIndirect (instOutput inst)) (wrIndirect (instOutput out))"
    by (intro sameCoords_exprM [OF _ t(1)] samePred_conM [OF _ t(1)] sameIndirect_indM [OF _ t(1)]; blast)+
  then show ?thesis using parts by (simp add: sameWrite_def)
qed

section \<open>The factors\<close>

lemma factorFor_Cons:
  "factorFor (s # ss) d = (if splitDim s = d \<and> (\<forall>r \<in> set ss. splitDim r \<noteq> d) then splitFactor s else factorFor ss d)"
  by (auto simp: factorFor_def filter_empty_conv split: list.splits)

lemma splitFactors_last:
  assumes "splitFactors ss fs0 = returns fs" "d < length fs0"
  shows "fs ! d = (if \<exists>s \<in> set ss. splitDim s = d then factorFor ss d else fs0 ! d)"
  using assms
proof (induction ss arbitrary: fs0)
  case (Cons s ss)
  have "splitFactors ss (fs0[splitDim s := splitFactor s]) = returns fs" using Cons.prems(1) by (auto split: if_splits)
  from Cons.IH [OF this] Cons.prems(2) show ?case by (auto simp: factorFor_Cons)
qed simp

lemma splitFactors_factorsOf:
  assumes "splitFactors splits (replicate (length (domDims (instDomain inst))) 0) = returns fs"
    "length fs = length (domDims (instDomain inst))"
  shows "fs = factorsOf inst splits"
proof (rule nth_equalityI)
  fix d assume "d < length fs"
  with splitFactors_last [OF assms(1), of d] assms(2) show "fs ! d = factorsOf inst splits ! d"
    by (auto simp: factorsOf_def factorFor_def filter_empty_conv split: list.splits)
qed (simp add: factorsOf_def assms(2))

end
