(* ===== verification/Index_View.thy ===== *)
theory Index_View
  imports Index_Validate
begin

text \<open>
  The strided view of an access is its row-major index.
\<close>

definition fallible :: "'a outcome \<Rightarrow> bool" where
  "fallible m \<longleftrightarrow> m = throws OverflowError \<or> (\<exists>r. m = returns r)"

text \<open>The index of an element of a row-major operand.\<close>

fun rowIndex :: "int list \<Rightarrow> int list \<Rightarrow> int" where
  "rowIndex (c # cs) (e # es) = c * prod_list es + rowIndex cs es"
| "rowIndex _ _ = 0"

section \<open>Views are the linear index\<close>

lemma mentions_children:
  assumes "i < length (poolExprs p)" "opAt p i \<in> {Add, Mul, FloorDiv, Mod}" "mentionsDim p i = returns False"
  shows "mentionsDim p (exprLhs (poolExprs p ! i)) = returns False" "mentionsDim p (exprRhs (poolExprs p ! i)) = returns False"
  using assms by (auto simp: mentionsDim.simps [of p i] elim!: bindO_returns split: if_splits)

lemma bind_not_OutOfRange:
  "m \<noteq> throws OutOfRange \<Longrightarrow> (\<And>x. m = returns x \<Longrightarrow> f x \<noteq> throws OutOfRange) \<Longrightarrow> bindO m f \<noteq> throws OutOfRange"
  by (cases m; cases "the m") (auto simp: bindO_def returns_def throws_def)

lemma bind2_not_OutOfRange:
  "a \<noteq> throws OutOfRange \<Longrightarrow> b \<noteq> throws OutOfRange \<Longrightarrow> (\<And>x y. f x y \<noteq> throws OutOfRange) \<Longrightarrow>
   bindO a (\<lambda>x. bindO b (\<lambda>y. f x y)) \<noteq> throws OutOfRange"
  by (intro bind_not_OutOfRange) auto

lemma checked_not_OutOfRange: "checkedAdd a b \<noteq> throws OutOfRange" "checkedMul a b \<noteq> throws OutOfRange"
  by (simp_all add: checkedAdd_def checkedMul_def)

text \<open>A valid expression reads no dim or parameter that is not there.\<close>

lemma evaluate_in_range:
  assumes "poolOk (instExprs inst)" "length params = length (domParams (instDomain inst))"
  shows "validExpr inst i = returns None \<Longrightarrow> mentionsDim (instExprs inst) i = returns False \<Longrightarrow>
    evaluate (instExprs inst) i dims params \<noteq> throws OutOfRange"
proof (induction i rule: less_induct)
  case (less i)
  let ?p = "instExprs inst" let ?e = "poolExprs ?p ! i"
  have i: "i < length (poolExprs ?p)" by (rule validExpr_range [OF less.prems(1)])
  note v = less.prems(1) [unfolded validExpr.simps [of inst i]]
  have ch: "evaluate ?p (exprLhs ?e) dims params \<noteq> throws OutOfRange" "evaluate ?p (exprRhs ?e) dims params \<noteq> throws OutOfRange"
    if "exprOp ?e \<in> {Add, Mul, FloorDiv, Mod}"
    using exprOk_children [OF poolOkD [OF assms(1) i] that] mentions_children [OF i that less.prems(2)] less.IH that v i
    by (auto split: if_splits)
  have nd: "exprOp ?e \<noteq> Dim"
  proof
    assume "exprOp ?e = Dim"
    then have "mentionsDim ?p i = returns True" using i by (subst mentionsDim.simps) simp
    then show False using less.prems(2) by simp
  qed
  have param: "spanAt params (exprValue ?e) = returns (params ! nat (exprValue ?e))" if "exprOp ?e = Param"
    using that v i assms(2) by (simp add: outside_def spanAt_def)
  show ?case
  proof (cases "exprOp ?e")
    case Param then show ?thesis using param i by (subst evaluate.simps) (auto split: option.splits)
  next
    case Dim then show ?thesis using nd by simp
  next
    case Const then show ?thesis using i by (subst evaluate.simps) simp
  qed (subst evaluate.simps, use i ch in \<open>simp add: bind2_not_OutOfRange checked_not_OutOfRange\<close>)+
qed

lemma fallible_simps [simp]: "fallible (returns r)" "fallible (throws OverflowError)"
  "fallible (checkedAdd a b)" "fallible (checkedMul a b)"
  by (auto simp: fallible_def checkedAdd_def checkedMul_def)

lemma fallible_bind: "fallible m \<Longrightarrow> (\<And>x. m = returns x \<Longrightarrow> fallible (f x)) \<Longrightarrow> fallible (bindO m f)"
  unfolding fallible_def by auto

lemma fallible_mapO: "(\<And>x. x \<in> set xs \<Longrightarrow> fallible (f x)) \<Longrightarrow> fallible (mapO f xs)"
  by (induction xs) (auto intro!: fallible_bind)

lemma affineQuotient_throws:
  "evaluate p i [] params = throws e \<Longrightarrow>
   affineQuotient p i n params False = (if e = InvalidArgument then returns None else throws e)"
  by (cases e) (simp_all add: affineQuotient_def throws_def)

lemma affineQuotient_returns:
  "evaluate p i [] params = returns v \<Longrightarrow>
   affineQuotient p i n params False = returns (Some \<lparr>affConstant = v, affCoeffs = replicate n 0\<rparr>)"
  by (simp add: affineQuotient_def returns_def)

lemma affineQuotient_fallible:
  assumes "poolOk (instExprs inst)" "validExpr inst i = returns None" "length params = length (domParams (instDomain inst))"
    "mentionsDim (instExprs inst) i = returns m"
  shows "fallible (affineQuotient (instExprs inst) i n params m)"
proof (cases m)
  case False
  let ?r = "evaluate (instExprs inst) i [] params"
  have nr: "?r \<noteq> throws OutOfRange" using evaluate_in_range [OF assms(1,3,2)] assms(4) False by simp
  have "halts ?r" using exact_halts [OF evaluate_exact [OF assms(1) validExpr_range [OF assms(2)]]] .
  then consider e where "?r = throws e" | x where "?r = returns x" by (rule haltsE)
  then show ?thesis
  proof cases
    case (1 e)
    then have "e \<noteq> OutOfRange" using nr by auto
    then show ?thesis using False affineQuotient_throws [OF 1] by (cases e) simp_all
  qed (simp add: False affineQuotient_returns)
qed (simp add: affineQuotient_def)

lemma affine_fallible:
  assumes "poolOk (instExprs inst)" "length params = length (domParams (instDomain inst))" "n = length (domDims (instDomain inst))"
  shows "validExpr inst i = returns None \<Longrightarrow> fallible (affine (instExprs inst) i n params)"
proof (induction i rule: less_induct)
  case (less i)
  let ?p = "instExprs inst" let ?e = "poolExprs ?p ! i"
  have i: "i < length (poolExprs ?p)" by (rule validExpr_range [OF less.prems(1)])
  note v = less.prems(1) [unfolded validExpr.simps [of inst i]]
  have ch: "fallible (affine ?p (exprLhs ?e) n params)" "fallible (affine ?p (exprRhs ?e) n params)"
    if "exprOp ?e \<in> {Add, Mul, FloorDiv, Mod}"
    using exprOk_children [OF poolOkD [OF assms(1) i] that] less.IH that v i by (auto split: if_splits)
  have sum: "fallible (affineSum a b)" and prod: "fallible (affineProduct a b)" for a b
    by (auto simp: affineSum_def affineProduct_def intro!: fallible_bind fallible_mapO)
  have quo: "fallible (affine ?p i n params)" if q: "exprOp ?e \<in> {FloorDiv, Mod}"
  proof -
    obtain m where m: "mentionsDim ?p i = returns m" using mentionsDim_spec [OF assms(1) i] by blast
    have lr: "exprLhs ?e < length (poolExprs ?p)" using exprOk_children [OF poolOkD [OF assms(1) i]] q i by auto
    obtain l where l: "mentionsDim ?p (exprLhs ?e) = returns l" using mentionsDim_spec [OF assms(1) lr] by blast
    have "fallible (affineQuotient ?p i n params l)"
    proof (cases l)
      case False
      have "mentionsDim ?p (exprRhs ?e) = returns False"
        using poolOkD [OF assms(1) i] q i by (subst mentionsDim.simps) (auto simp: exprOk.simps divisorOk_def)
      then have "mentionsDim ?p i = returns False" using q i l False by (subst mentionsDim.simps) auto
      then show ?thesis using affineQuotient_fallible [OF assms(1) less.prems assms(2)] False by simp
    qed (simp add: affineQuotient_def)
    then show ?thesis using q i l by (subst affine.simps) auto
  qed
  show ?case
  proof (cases "exprOp ?e")
    case Const then show ?thesis using i by (subst affine.simps) simp
  next
    case Dim then show ?thesis using i v assms(3) by (subst affine.simps) (simp add: outside_def)
  next
    case Param then show ?thesis using i v assms(2) by (subst affine.simps) (simp add: outside_def spanAt_def)
  next
    case Add then show ?thesis using i ch sum by (subst affine.simps) (simp add: fallible_bind)
  next
    case Mul then show ?thesis using i ch prod by (subst affine.simps) (simp add: fallible_bind)
  qed (use quo in auto)
qed

lemma rowIndex_snoc: "length cs = length es \<Longrightarrow> rowIndex (cs @ [c]) (es @ [e]) = rowIndex cs es * e + c"
  by (induction cs es rule: list_induct2) (simp_all add: algebra_simps)

lemma viewAxis_spec:
  assumes "viewAxis form E stride view = returns (view', stride')" "length (viewStrides view) = n" "length (affCoeffs form) = n"
  shows "length (viewStrides view') = n" "stride' = stride * E"
    "viewOffset view' + dot (viewStrides view') dims = viewOffset view + dot (viewStrides view) dims + stride * affineValue form dims"
proof -
  obtain c off ss nx where r: "checkedMul stride (affConstant form) = returns c" "checkedAdd (viewOffset view) c = returns off"
    "mapO (\<lambda>(s, k). bindO (checkedMul stride k) (\<lambda>m. checkedAdd s m)) (zip (viewStrides view) (affCoeffs form)) = returns ss"
    "checkedMul stride E = returns nx" "view' = \<lparr>viewOffset = off, viewStrides = ss\<rparr>" "stride' = nx"
    using assms(1) unfolding viewAxis_def by (elim bindO_returns) auto
  have a: "list_all2 (\<lambda>x y. (case x of (s, k) \<Rightarrow> bindO (checkedMul stride k) (\<lambda>m. checkedAdd s m)) = returns y)
    (zip (viewStrides view) (affCoeffs form)) ss" by (rule mapO_returns [OF r(3)])
  have "ss ! k = viewStrides view ! k + stride * affCoeffs form ! k" if "k < n" for k
  proof -
    have "bindO (checkedMul stride (affCoeffs form ! k)) (\<lambda>m. checkedAdd (viewStrides view ! k) m) = returns (ss ! k)"
      using a that assms(2,3) by (simp add: list_all2_conv_all_nth)
    then show ?thesis by (elim bindO_returns) (auto dest!: checked_returns(1,2))
  qed
  moreover have "length ss = n" using a assms(2,3) by (simp add: list_all2_conv_all_nth)
  ultimately have ss: "ss = map2 (+) (viewStrides view) (map ((*) stride) (affCoeffs form))"
    using assms(2,3) by (intro nth_equalityI) simp_all
  show "length (viewStrides view') = n" "stride' = stride * E" using r(5,6) \<open>length ss = n\<close> checked_returns(2) [OF r(4)] by auto
  show "viewOffset view' + dot (viewStrides view') dims = viewOffset view + dot (viewStrides view) dims + stride * affineValue form dims"
    using r(5) ss assms(2,3) checked_returns(2) [OF r(1)] checked_returns(1) [OF r(2)]
    by (simp add: dot_add dot_scale affineValue_def algebra_simps)
qed

lemma viewLoop_spec:
  assumes "poolOk (instExprs inst)" "viewLoop inst axes stride view = returns (Some out)"
    "length (viewStrides view) = length (domDims (instDomain inst))" "\<forall>a \<in> set axes. fst a < length (poolExprs (instExprs inst))"
    "length dims = length (domDims (instDomain inst))"
  shows "length (viewStrides out) = length dims \<and>
    (\<exists>cs. list_all2 (\<lambda>a. denotes (instExprs inst) dims (paramValues (instDomain inst)) (fst a)) axes cs \<and>
      viewOffset out + dot (viewStrides out) dims =
      viewOffset view + dot (viewStrides view) dims + stride * rowIndex (rev cs) (rev (map snd axes)))"
  using assms(2-4)
proof (induction axes arbitrary: stride view)
  case Nil
  then show ?case using assms(5) by simp
next
  case (Cons a axes)
  obtain i E where a: "a = (i, E)" by (cases a)
  let ?aff = "affine (instExprs inst) i (length (domDims (instDomain inst))) (paramValues (instDomain inst))"
  obtain fo where fo: "?aff = returns fo" "(case fo of None \<Rightarrow> returns None
     | Some fm \<Rightarrow> bindO (viewAxis fm E stride view) (\<lambda>r. viewLoop inst axes (snd r) (fst r))) = returns (Some out)"
    using Cons.prems(1) unfolding a viewLoop.simps by (rule bindO_returns)
  then obtain fm where fm: "?aff = returns (Some fm)" "bindO (viewAxis fm E stride view) (\<lambda>r. viewLoop inst axes (snd r) (fst r)) = returns (Some out)"
    by (cases fo) auto
  from fm(2) obtain v' s' where v': "viewAxis fm E stride view = returns (v', s')" "viewLoop inst axes s' v' = returns (Some out)"
    by (elim bindO_returns) auto
  have i: "i < length (poolExprs (instExprs inst))" using Cons.prems(3) a by simp
  have len: "length (affCoeffs fm) = length dims" and d: "denotes (instExprs inst) dims (paramValues (instDomain inst)) i (affineValue fm dims)"
    using affine_spec [OF assms(1) i] fm(1) assms(5) by auto
  note s = viewAxis_spec [OF v'(1) _ len]
  have vs: "length (viewStrides view) = length dims" using Cons.prems(2) assms(5) by simp
  obtain cs where cs: "length (viewStrides out) = length dims" "list_all2 (\<lambda>a. denotes (instExprs inst) dims (paramValues (instDomain inst)) (fst a)) axes cs"
      "viewOffset out + dot (viewStrides out) dims = viewOffset v' + dot (viewStrides v') dims + s' * rowIndex (rev cs) (rev (map snd axes))"
    using Cons.IH [OF v'(2)] s(1) [OF vs] Cons.prems(3) assms(5) by auto
  have l: "length (rev cs) = length (rev (map snd axes))" using cs(2) by (simp add: list_all2_lengthD)
  have "viewOffset out + dot (viewStrides out) dims =
      viewOffset view + dot (viewStrides view) dims + stride * rowIndex (rev (affineValue fm dims # cs)) (rev (map snd (a # axes)))"
    using cs(3) s(2) [OF vs] s(3) [OF vs, of dims] a rowIndex_snoc [OF l] by (simp add: algebra_simps)
  then show ?case using cs(1,2) d a by (intro conjI exI [of _ "affineValue fm dims # cs"]) auto
qed


lemma viewLoop_fallible:
  assumes "poolOk (instExprs inst)" "\<forall>a \<in> set axes. validExpr inst (fst a) = returns None"
  shows "fallible (viewLoop inst axes stride view)"
  using assms(2)
proof (induction axes arbitrary: stride view)
  case (Cons a axes)
  obtain i E where a: "a = (i, E)" by (cases a)
  have "fallible (affine (instExprs inst) i (length (domDims (instDomain inst))) (paramValues (instDomain inst)))"
    by (rule affine_fallible [OF assms(1)]) (use Cons.prems a in \<open>auto simp: paramValues_def\<close>)
  moreover have "fallible (viewAxis fm E s v)" for fm s v
    unfolding viewAxis_def by (auto intro!: fallible_bind fallible_mapO)
  ultimately show ?case unfolding a viewLoop.simps using Cons.IH Cons.prems
    by (auto intro!: fallible_bind split: option.splits)
qed simp

end
