(* ===== verification/Index_Text.thy ===== *)
theory Index_Text
  imports Index_Validate Literal_BigInt
begin

text \<open>
  The text form of expressions, laws and instances, and its reading: the text of an expression has the
  value the expression denotes.
\<close>

definition showInt :: "int \<Rightarrow> string" where
  "showInt n = (if n < 0 then ''-'' @ showNat (nat (- n)) else showNat (nat n))"

function showHex :: "nat \<Rightarrow> string" where
  "showHex n = (if n < 16 then [''0123456789abcdef'' ! n] else showHex (n div 16) @ [''0123456789abcdef'' ! (n mod 16)])"
  by auto
termination by (relation "measure id") auto

definition nameAt :: "string list \<Rightarrow> string \<Rightarrow> int \<Rightarrow> string" where
  "nameAt names letter k = (if 0 \<le> k \<and> nat k < length names then names ! nat k else letter @ showInt k)"

definition parens :: "ExprOp \<Rightarrow> string \<Rightarrow> string" where
  "parens c t = (if c = Add \<or> c = FloorDiv \<or> c = Mod then ''('' @ t @ '')'' else t)"

partial_function (option) textE :: "ExprPool \<Rightarrow> string list \<Rightarrow> string list \<Rightarrow> nat \<Rightarrow> string outcome" where
  "textE p ds ps i =
     bindO (exprAt p i) (\<lambda>e.
       case exprOp e of
         Const \<Rightarrow> returns (showInt (exprValue e))
       | Dim \<Rightarrow> returns (nameAt ds ''d'' (exprValue e))
       | Param \<Rightarrow> returns (nameAt ps ''p'' (exprValue e))
       | Add \<Rightarrow> bindO (textE p ds ps (exprLhs e)) (\<lambda>l. bindO (exprAt p (exprRhs e)) (\<lambda>r.
           if exprOp r = Const \<and> exprValue r < 0 \<and> exprValue r \<noteq> int64_min
           then returns (l @ '' - '' @ showInt (- exprValue r))
           else bindO (if exprOp r = Mul then constantValue p (exprLhs r) else returns None) (\<lambda>c.
             if c \<noteq> None \<and> the c < 0 \<and> the c \<noteq> int64_min
             then bindO (textE p ds ps (exprRhs r)) (\<lambda>t. bindO (exprAt p (exprRhs r)) (\<lambda>s.
                    returns (if the c = - 1 then l @ '' - '' @ parens (exprOp s) t
                             else l @ '' - '' @ showInt (- the c) @ ''*'' @ parens (exprOp s) t)))
             else bindO (textE p ds ps (exprRhs e)) (\<lambda>t. returns (l @ '' + '' @ t)))))
       | Mul \<Rightarrow> bindO (constantValue p (exprLhs e)) (\<lambda>c.
           if c = Some (- 1)
           then bindO (textE p ds ps (exprRhs e)) (\<lambda>t. bindO (exprAt p (exprRhs e)) (\<lambda>s. returns (''-'' @ parens (exprOp s) t)))
           else bindO (textE p ds ps (exprLhs e)) (\<lambda>t. bindO (exprAt p (exprLhs e)) (\<lambda>s.
                bindO (textE p ds ps (exprRhs e)) (\<lambda>u. bindO (exprAt p (exprRhs e)) (\<lambda>w.
                  returns (parens (exprOp s) t @ ''*'' @ parens (exprOp w) u))))))
       | FloorDiv \<Rightarrow> bindO (textE p ds ps (exprLhs e)) (\<lambda>t. bindO (exprAt p (exprLhs e)) (\<lambda>s.
                      bindO (textE p ds ps (exprRhs e)) (\<lambda>u. bindO (exprAt p (exprRhs e)) (\<lambda>w.
                        returns (parens (exprOp s) t @ '' floordiv '' @ parens (exprOp w) u)))))
       | Mod \<Rightarrow> bindO (textE p ds ps (exprLhs e)) (\<lambda>t. bindO (exprAt p (exprLhs e)) (\<lambda>s.
                 bindO (textE p ds ps (exprRhs e)) (\<lambda>u. bindO (exprAt p (exprRhs e)) (\<lambda>w.
                   returns (parens (exprOp s) t @ '' mod '' @ parens (exprOp w) u))))))"

fun dimRoleName :: "DimRole \<Rightarrow> string" where
  "dimRoleName Parallel = ''parallel''"
| "dimRoleName Reduction = ''reduction''"
| "dimRoleName Sequential = ''sequential''"

fun paramSourceName :: "ParamSource \<Rightarrow> string" where
  "paramSourceName Extent = ''extent''"
| "paramSourceName Static = ''static''"
| "paramSourceName Runtime = ''runtime''"
| "paramSourceName Derived = ''derived''"

fun onInvalidName :: "OnInvalid \<Rightarrow> string" where
  "onInvalidName Unreachable = ''unreachable''"
| "onInvalidName Fault = ''fault''"
| "onInvalidName Excluded = ''excluded''"
| "onInvalidName Padding = ''padding''"

fun accessKindName :: "AccessKind \<Rightarrow> string" where
  "accessKindName AffineAccess = ''affine''"
| "accessKindName IndirectAccess = ''indirect''"
| "accessKindName Whole = ''whole''"
| "accessKindName NoneAccess = ''none''"

fun writeModeName :: "WriteMode \<Rightarrow> string" where
  "writeModeName Unique = ''unique''"
| "writeModeName Combine = ''combine''"
| "writeModeName OrderedOverwrite = ''ordered_overwrite''"

fun lawKindName :: "LawKind \<Rightarrow> string" where
  "lawKindName LawAdd = ''add''"
| "lawKindName LawMul = ''mul''"
| "lawKindName LawMulAdd = ''mul_add''"
| "lawKindName LawFmaChain = ''fma_chain''"
| "lawKindName LawMax = ''max''"
| "lawKindName LawMin = ''min''"
| "lawKindName LawArgMax = ''argmax''"
| "lawKindName LawArgMin = ''argmin''"
| "lawKindName LawAnd = ''and''"
| "lawKindName LawOr = ''or''"
| "lawKindName LawCustom = ''custom''"

fun typeShortName :: "TypeCode \<Rightarrow> string" where
  "typeShortName TcFloat32 = ''f32''"
| "typeShortName TcFloat64 = ''f64''"
| "typeShortName TcInt32 = ''i32''"
| "typeShortName TcInt64 = ''i64''"
| "typeShortName TcBool = ''bool''"
| "typeShortName TcComplex64 = ''c64''"
| "typeShortName TcComplex128 = ''c128''"
| "typeShortName TcVoid = ''any''"
| "typeShortName _ = ''?''"

fun joinWith :: "string \<Rightarrow> string list \<Rightarrow> string" where
  "joinWith sep [] = []"
| "joinWith sep [x] = x"
| "joinWith sep (x # y # xs) = x @ sep @ joinWith sep (y # xs)"

definition newline :: string where
  "newline = [CHR 0x0A]"

definition printExpr :: "IndexedInstance \<Rightarrow> nat \<Rightarrow> string outcome" where
  "printExpr inst i =
     (if i = kNoExpr then returns ''_''
      else textE (instExprs inst) (map dimName (domDims (instDomain inst))) (map paramName (domParams (instDomain inst))) i)"

definition printList :: "IndexedInstance \<Rightarrow> nat list \<Rightarrow> string outcome" where
  "printList inst coords = bindO (mapO (printExpr inst) coords) (\<lambda>ts. returns (joinWith '', '' ts))"

definition printTuple :: "IndexedInstance \<Rightarrow> nat list \<Rightarrow> Indirect option \<Rightarrow> string \<Rightarrow> string outcome" where
  "printTuple inst coords indirect operandWord =
     bindO (mapO (\<lambda>(k, c).
         case indirect of
           Some ind \<Rightarrow>
             if indAxis ind = k
             then bindO (printList inst (indIndexCoords ind)) (\<lambda>t.
                    returns (operandWord @ '' '' @ showNat (indIndexOperand ind) @ ''['' @ t @ '']''))
             else printExpr inst c
         | None \<Rightarrow> printExpr inst c) (zip [0..<length coords] coords)) (\<lambda>ts.
       returns (''('' @ joinWith '', '' ts @ '')''))"

fun relText :: "Rel \<Rightarrow> string" where
  "relText Eq = ''=''"
| "relText Le = ''<=''"
| "relText Lt = ''<''"

definition printPredicate :: "IndexedInstance \<Rightarrow> Predicate \<Rightarrow> string outcome" where
  "printPredicate inst cs =
     bindO (mapO (\<lambda>c. bindO (printExpr inst (conLhs c)) (\<lambda>l. bindO (printExpr inst (conRhs c)) (\<lambda>r.
         returns (l @ '' '' @ relText (conRel c) @ '' '' @ r)))) cs) (\<lambda>ts. returns (joinWith '', '' ts))"

definition paramText :: "IndexedInstance \<Rightarrow> InstParam \<Rightarrow> string outcome" where
  "paramText inst p =
     bindO (case paramSource p of
         Extent \<Rightarrow> returns (''('' @ showNat (paramOperand p) @ '', '' @ showNat (paramAxis p) @ '')'')
       | Static \<Rightarrow> returns (if paramAxis p = 0xFF then ''('' @ showNat (paramOperand p) @ '')''
                           else ''('' @ showNat (paramOperand p) @ ''['' @ showNat (paramAxis p) @ ''])'')
       | Runtime \<Rightarrow> returns (''('' @ showNat (paramOperand p) @ '')'')
       | Derived \<Rightarrow> if paramDefinition p \<noteq> kNoExpr
                    then bindO (printExpr inst (paramDefinition p)) (\<lambda>t. returns (''('' @ t @ '')''))
                    else returns []) (\<lambda>src.
       returns (paramName p @ '' = '' @ paramSourceName (paramSource p) @ src @
         (case paramValue p of None \<Rightarrow> [] | Some v \<Rightarrow> '' = '' @ showInt v)))"

definition accessText :: "IndexedInstance \<Rightarrow> Access \<Rightarrow> string outcome" where
  "accessText inst a =
     (if accKind a = Whole then returns ''whole''
      else if accKind a = NoneAccess then returns ''none''
      else bindO (printTuple inst (accCoords a) (accIndirect a) ''norm'') (\<lambda>out.
             if accValid a = [] then returns out
             else bindO (printPredicate inst (accValid a)) (\<lambda>v.
                    returns (out @ '' valid ['' @ v @ ''] else '' @ onInvalidName (accOnInvalid a) @
                      (if accOnInvalid a = Padding then ''(0x'' @ showHex (accPadding a) @ '')'' else [])))))"

definition lawToString :: "ReductionLaw \<Rightarrow> string" where
  "lawToString law =
     lawName law @ '': '' @ lawKindName (lawKind law) @ '' '' @ typeShortName (lawInput law) @ '' -> '' @
     typeShortName (lawAccumulator law) @ '' -> '' @ typeShortName (lawResult law) @
     (case lawInit law of
        InitConstant \<Rightarrow> '', init 0x'' @ showHex (lawInitBits law)
      | InitFirstContribution \<Rightarrow> '', init first''
      | InitOperand \<Rightarrow> '', init with '' @ showNat (lawInitOperand law)) @
     (if lawOrder law = Ascending then '', ascending'' else '', unordered'') @
     (if lawEmpty law = EmptyInitial then '', empty initial'' else '', empty fault'') @
     (if lawFinalize law = DivideByCount then '', divide by count'' else []) @
     (if lawExactAssociative law then '', associative'' else []) @
     (if lawExactCommutative law then '', commutative'' else []) @
     (if lawHasIdentity law then '', identity 0x'' @ showHex (lawIdentityBits law) else []) @
     (if lawKind law = LawCustom then '', combiner with '' @ showNat (lawCombinerOperand law) else [])"

definition dimText :: "IndexedInstance \<Rightarrow> InstDim \<Rightarrow> string outcome" where
  "dimText inst d = bindO (printExpr inst (dimExtent d)) (\<lambda>t. returns (dimName d @ '' < '' @ t @ '' '' @ dimRoleName (dimRole d)))"

definition checkText :: "IndexedInstance \<Rightarrow> OperandCheck \<Rightarrow> string outcome" where
  "checkText inst c =
     bindO (printExpr inst (chkLower c)) (\<lambda>l. bindO (printExpr inst (chkUpper c)) (\<lambda>u.
       returns (''check    operand '' @ showNat (chkOperand c) @ '' in ['' @ l @ '', '' @ u @ ''] else '' @
         onInvalidName (chkOnInvalid c) @ newline)))"

definition accessLine :: "IndexedInstance \<Rightarrow> string \<Rightarrow> nat \<times> Access \<Rightarrow> string outcome" where
  "accessLine inst word ka =
     bindO (accessText inst (snd ka)) (\<lambda>t. returns (word @ '' '' @ showNat (fst ka) @ ''   '' @ t @ newline))"

definition predicateLine :: "IndexedInstance \<Rightarrow> string \<Rightarrow> Predicate \<Rightarrow> string outcome" where
  "predicateLine inst word cs =
     (if cs = [] then returns [] else bindO (printPredicate inst cs) (\<lambda>t. returns (word @ t @ newline)))"

definition writeLine :: "IndexedInstance \<Rightarrow> ReductionLaw list option \<Rightarrow> string outcome" where
  "writeLine inst laws =
     (let w = instOutput inst; law = instLaw inst
      in bindO (printTuple inst (wrCoords w) (wrIndirect w) ''norm'') (\<lambda>t.
         bindO (if wrValid w = [] then returns []
                else bindO (printPredicate inst (wrValid w)) (\<lambda>v. returns ('' valid ['' @ v @ '']''))) (\<lambda>v.
           returns (''write    '' @ t @ '' '' @ writeModeName (wrMode w) @
             (if law \<noteq> kNoLaw
              then if laws \<noteq> None \<and> law < length (the laws) then '' law '' @ lawName (the laws ! law) else '' law '' @ showNat law
              else []) @ v @ newline))))"

definition instToString :: "IndexedInstance \<Rightarrow> ReductionLaw list option \<Rightarrow> string outcome" where
  "instToString inst laws =
     (let d = instDomain inst
      in bindO (mapO (paramText inst) (domParams d)) (\<lambda>params.
         bindO (mapO (dimText inst) (domDims d)) (\<lambda>dims.
         bindO (predicateLine inst ''where    '' (domConstraints d)) (\<lambda>cons.
         bindO (predicateLine inst ''guard    '' (domGuard d)) (\<lambda>guard.
         bindO (mapO (checkText inst) (instChecks inst)) (\<lambda>checks.
         bindO (mapO (accessLine inst ''norm'') (zip [0..<length (instNorm inst)] (instNorm inst))) (\<lambda>norm.
         bindO (mapO (accessLine inst ''with'') (zip [0..<length (instWith inst)] (instWith inst))) (\<lambda>wth.
         bindO (writeLine inst laws) (\<lambda>w.
           returns (''params   '' @ joinWith ''; '' params @ newline @
             ''domain   '' @ joinWith ''; '' dims @ newline @ cons @ guard @ concat checks @ concat norm @ concat wth @ w @
             (if laws \<noteq> None \<and> instLaw inst < length (the laws)
              then ''law      '' @ lawToString (the laws ! instLaw inst) @ newline else [])))))))))))"

text \<open>
  The texts of an expression and their values, with the usual precedences: level 0 is a number, a
  name or a parenthesis, 1 a product, 2 a quotient of products, 3 a sum.
\<close>

inductive reads :: "string list \<Rightarrow> string list \<Rightarrow> int list \<Rightarrow> int option list \<Rightarrow> nat \<Rightarrow> string \<Rightarrow> int \<Rightarrow> bool"
  for ds ps dims params where
  read_number: "reads ds ps dims params 0 (showInt n) n"
| read_dim: "k < length dims \<Longrightarrow> reads ds ps dims params 0 (nameAt ds ''d'' (int k)) (dims ! k)"
| read_param: "k < length params \<Longrightarrow> params ! k = Some v \<Longrightarrow> reads ds ps dims params 0 (nameAt ps ''p'' (int k)) v"
| read_parens: "reads ds ps dims params 3 s v \<Longrightarrow> reads ds ps dims params 0 (''('' @ s @ '')'') v"
| read_mul: "reads ds ps dims params 1 s x \<Longrightarrow> reads ds ps dims params 1 t y \<Longrightarrow> reads ds ps dims params 1 (s @ ''*'' @ t) (x * y)"
| read_neg: "reads ds ps dims params 1 s x \<Longrightarrow> reads ds ps dims params 1 (''-'' @ s) (- x)"
| read_div: "reads ds ps dims params 1 s x \<Longrightarrow> reads ds ps dims params 1 t y \<Longrightarrow> 0 < y \<Longrightarrow>
    reads ds ps dims params 2 (s @ '' floordiv '' @ t) (x div y)"
| read_mod: "reads ds ps dims params 1 s x \<Longrightarrow> reads ds ps dims params 1 t y \<Longrightarrow> 0 < y \<Longrightarrow>
    reads ds ps dims params 2 (s @ '' mod '' @ t) (x mod y)"
| read_add: "reads ds ps dims params 3 s x \<Longrightarrow> reads ds ps dims params 3 t y \<Longrightarrow> reads ds ps dims params 3 (s @ '' + '' @ t) (x + y)"
| read_sub: "reads ds ps dims params 3 s x \<Longrightarrow> reads ds ps dims params 1 t y \<Longrightarrow> reads ds ps dims params 3 (s @ '' - '' @ t) (x - y)"
| read_up: "reads ds ps dims params l s x \<Longrightarrow> l \<le> m \<Longrightarrow> reads ds ps dims params m s x"

fun textLevel :: "ExprOp \<Rightarrow> nat" where
  "textLevel Add = 3"
| "textLevel FloorDiv = 2"
| "textLevel Mod = 2"
| "textLevel Mul = 1"
| "textLevel _ = 0"

definition textOk :: "ExprPool \<Rightarrow> string list \<Rightarrow> string list \<Rightarrow> nat \<Rightarrow> string \<Rightarrow> bool" where
  "textOk p ds ps i s \<longleftrightarrow> textE p ds ps i = returns s \<and>
     (\<forall>dims params v. denotes p dims params i v \<longrightarrow> reads ds ps dims params (textLevel (opAt p i)) s v)"

section \<open>The text of an expression\<close>

declare showHex.simps [simp del]

section \<open>Names\<close>

section \<open>The text of an instance\<close>

text \<open>\<open>laws\<close> are those of the operator's semantics, when they are given.\<close>

section \<open>Reading a text\<close>

lemma textLevel_le: "textLevel c \<le> 3"
  by (cases c) auto

lemma textOk_reads: "textOk p ds ps i s \<Longrightarrow> denotes p dims params i v \<Longrightarrow> reads ds ps dims params 3 s v"
  unfolding textOk_def using read_up [OF _ textLevel_le] by blast

lemma operand_reads:
  assumes "textOk p ds ps i s" "denotes p dims params i v"
  shows "reads ds ps dims params 1 (parens (opAt p i) s) v"
proof (cases "opAt p i \<in> {Add, FloorDiv, Mod}")
  case True
  then have "parens (opAt p i) s = ''('' @ s @ '')''" by (auto simp: parens_def)
  then show ?thesis using read_up [OF read_parens [OF textOk_reads [OF assms]], of 1] by simp
next
  case False
  then have l: "textLevel (opAt p i) \<le> 1" "parens (opAt p i) s = s" by (cases "opAt p i"; simp add: parens_def)+
  have "reads ds ps dims params (textLevel (opAt p i)) s v" using assms by (simp add: textOk_def)
  from read_up [OF this l(1)] show ?thesis by (simp add: l(2))
qed

lemma minus_reads:
  assumes "reads ds ps dims params 3 s x" "reads ds ps dims params 1 t y"
  shows "reads ds ps dims params 3 (s @ '' - '' @ showInt c @ ''*'' @ t) (x - c * y)"
  using read_sub [OF assms(1) read_mul [OF read_up [OF read_number] assms(2)], of c] by simp

lemma textE_sum:
  assumes i: "i < length (poolExprs p)" "opAt p i = Add" and l: "textOk p ds ps (exprLhs (poolExprs p ! i)) tL"
    and r: "textOk p ds ps (exprRhs (poolExprs p ! i)) tR" and ok: "poolOk p"
    and m: "\<And>j. j < i \<Longrightarrow> \<exists>s. textOk p ds ps j s"
  shows "\<exists>s. textOk p ds ps i s"
proof -
  let ?e = "poolExprs p ! i" let ?r = "poolExprs p ! exprRhs ?e"
  have lt: "exprLhs ?e < i" "exprRhs ?e < i" using exprOk_children [OF poolOkD [OF ok i(1)]] i(2) by auto
  have ri: "exprRhs ?e < length (poolExprs p)" using lt i(1) by simp
  have tL: "textE p ds ps (exprLhs ?e) = returns tL" "textE p ds ps (exprRhs ?e) = returns tR" using l r by (auto simp: textOk_def)
  note d = denotes_iff(4) [OF i]
  have plain: "reads ds ps dims params 3 (tL @ '' + '' @ tR) v" if "denotes p dims params i v" for dims params v
    using that read_add textOk_reads [OF l] textOk_reads [OF r] unfolding d by auto
  consider (neg) "exprOp ?r = Const" "exprValue ?r < 0" "exprValue ?r \<noteq> int64_min"
    | (mul) c where "exprOp ?r = Mul" "opAt p (exprLhs ?r) = Const" "exprValue (poolExprs p ! exprLhs ?r) = c" "c < 0" "c \<noteq> int64_min"
    | (add) "textE p ds ps i = returns (tL @ '' + '' @ tR)"
  proof -
    have "textE p ds ps i = returns (tL @ '' + '' @ tR)"
      if "\<not> (exprOp ?r = Const \<and> exprValue ?r < 0 \<and> exprValue ?r \<noteq> int64_min)"
        "\<not> (exprOp ?r = Mul \<and> opAt p (exprLhs ?r) = Const \<and> exprValue (poolExprs p ! exprLhs ?r) < 0 \<and> exprValue (poolExprs p ! exprLhs ?r) \<noteq> int64_min)"
    proof -
      have "exprLhs ?r < length (poolExprs p)" if "exprOp ?r = Mul" using exprOk_children [OF poolOkD [OF ok ri]] that ri by auto
      then show ?thesis using that i tL ri by (subst textE.simps) auto
    qed
    then show ?thesis using that by blast
  qed
  then show ?thesis
  proof cases
    case neg
    have "textE p ds ps i = returns (tL @ '' - '' @ showInt (- exprValue ?r))" using neg i tL ri by (subst textE.simps) simp
    moreover have "reads ds ps dims params 3 (tL @ '' - '' @ showInt (- exprValue ?r)) v" if v: "denotes p dims params i v" for dims params v
    proof -
      obtain x where x: "denotes p dims params (exprLhs ?e) x" "v = x - (- exprValue ?r)" using v denotes_const neg(1) unfolding d by fastforce
      show ?thesis unfolding x(2) by (rule read_sub [OF textOk_reads [OF l x(1)] read_up [OF read_number]]) simp
    qed
    ultimately show ?thesis using i(2) by (auto simp: textOk_def)
  next
    case (mul c)
    have rr: "exprLhs ?r < i" "exprRhs ?r < i" using exprOk_children [OF poolOkD [OF ok ri]] mul(1) lt by auto
    obtain t where t: "textOk p ds ps (exprRhs ?r) t" using m rr(2) by blast
    let ?t = "parens (opAt p (exprRhs ?r)) t"
    have "textE p ds ps i = returns (if c = - 1 then tL @ '' - '' @ ?t else tL @ '' - '' @ showInt (- c) @ ''*'' @ ?t)"
      using mul i tL ri rr t by (subst textE.simps) (simp add: textOk_def)
    moreover have "reads ds ps dims params 3 (if c = - 1 then tL @ '' - '' @ ?t else tL @ '' - '' @ showInt (- c) @ ''*'' @ ?t) v"
      if v: "denotes p dims params i v" for dims params v
    proof -
      obtain x y where xy: "denotes p dims params (exprLhs ?e) x" "denotes p dims params (exprRhs ?e) y" "v = x + y" using v unfolding d by blast
      then obtain k z where kz: "denotes p dims params (exprLhs ?r) k" "denotes p dims params (exprRhs ?r) z" "y = k * z"
        unfolding denotes_iff(5) [OF ri mul(1)] by blast
      have "k = c" using denotes_const [OF kz(1) mul(2)] mul(3) by simp
      note rs = textOk_reads [OF l xy(1)] operand_reads [OF t kz(2)]
      show ?thesis using read_sub [OF rs] minus_reads [OF rs, of "- c"] xy(3) kz(3) \<open>k = c\<close> by simp
    qed
    ultimately show ?thesis using i(2) unfolding textOk_def by auto
  next
    case add then show ?thesis using plain i(2) by (auto simp: textOk_def)
  qed
qed

lemma textE_spec: "poolOk p \<Longrightarrow> i < length (poolExprs p) \<Longrightarrow> \<exists>s. textOk p ds ps i s"
proof (induction i rule: less_induct)
  case (less i)
  let ?e = "poolExprs p ! i"
  have m: "\<exists>s. textOk p ds ps j s" if "j < i" for j using less.IH [OF that less.prems(1)] that less.prems(2) by simp
  have ch: "exprLhs ?e < i" "exprRhs ?e < i" if "exprOp ?e \<in> {Add, Mul, FloorDiv, Mod}"
    using exprOk_children [OF poolOkD [OF less.prems] that] by auto
  note d = denotes_iff [OF less.prems(2)]
  have v0: "0 \<le> exprValue ?e" if "exprOp ?e = Dim \<or> exprOp ?e = Param" using poolOkD [OF less.prems] that by (auto simp: exprOk.simps)
  have binary: "\<exists>s. textOk p ds ps i s"
    if c: "exprOp ?e \<in> {Mul, FloorDiv, Mod}" and g: "\<And>tL tR dims params v. textOk p ds ps (exprLhs ?e) tL \<Longrightarrow> textOk p ds ps (exprRhs ?e) tR \<Longrightarrow>
        textE p ds ps i = returns (g tL tR) \<and> (denotes p dims params i v \<longrightarrow> reads ds ps dims params (textLevel (exprOp ?e)) (g tL tR) v)" for g
  proof -
    obtain tL tR where "textOk p ds ps (exprLhs ?e) tL" "textOk p ds ps (exprRhs ?e) tR" using m ch c by blast
    from g [OF this] show ?thesis unfolding textOk_def by blast
  qed
  show ?case
  proof (cases "exprOp ?e")
    case Const
    then have "textE p ds ps i = returns (showInt (exprValue ?e))" using less.prems(2) by (subst textE.simps) simp
    then show ?thesis using Const d(1) [OF Const] read_number by (auto simp: textOk_def)
  next
    case Dim
    then have "textE p ds ps i = returns (nameAt ds ''d'' (exprValue ?e))" using less.prems(2) by (subst textE.simps) simp
    then show ?thesis using Dim d(2) [OF Dim] v0 read_dim [where k = "nat (exprValue ?e)"] by (auto simp: textOk_def)
  next
    case Param
    then have "textE p ds ps i = returns (nameAt ps ''p'' (exprValue ?e))" using less.prems(2) by (subst textE.simps) simp
    then show ?thesis using Param d(3) [OF Param] v0 read_param [where k = "nat (exprValue ?e)"] by (auto simp: textOk_def)
  next
    case Add
    then obtain tL tR where "textOk p ds ps (exprLhs ?e) tL" "textOk p ds ps (exprRhs ?e) tR" using m ch by blast
    from textE_sum [OF less.prems(2) Add this less.prems(1) m] show ?thesis .
  next
    case Mul
    have rng: "exprLhs ?e < length (poolExprs p)" "exprRhs ?e < length (poolExprs p)" using ch Mul less.prems(2) by auto
    show ?thesis
    proof (cases "opAt p (exprLhs ?e) = Const \<and> exprValue (poolExprs p ! exprLhs ?e) = - 1")
      case True
      show ?thesis
      proof (rule binary [where g = "\<lambda>tL tR. ''-'' @ parens (opAt p (exprRhs ?e)) tR"])
        fix tL tR dims params v assume t: "textOk p ds ps (exprLhs ?e) tL" "textOk p ds ps (exprRhs ?e) tR"
        have "textE p ds ps i = returns (''-'' @ parens (opAt p (exprRhs ?e)) tR)"
          using Mul less.prems(2) rng True t by (subst textE.simps) (simp add: textOk_def)
        moreover have "reads ds ps dims params 1 (''-'' @ parens (opAt p (exprRhs ?e)) tR) v" if v: "denotes p dims params i v"
        proof -
          obtain x y where xy: "denotes p dims params (exprLhs ?e) x" "denotes p dims params (exprRhs ?e) y" "v = x * y" using v unfolding d(5) [OF Mul] by blast
          have "x = - 1" using denotes_const [OF xy(1)] True by simp
          then show ?thesis using read_neg [OF operand_reads [OF t(2) xy(2)]] xy(3) by simp
        qed
        ultimately show "textE p ds ps i = returns (''-'' @ parens (opAt p (exprRhs ?e)) tR) \<and>
          (denotes p dims params i v \<longrightarrow> reads ds ps dims params (textLevel (exprOp ?e)) (''-'' @ parens (opAt p (exprRhs ?e)) tR) v)" using Mul by simp
      qed (simp add: Mul)
    next
      case False
      have "textE p ds ps i = returns (parens (opAt p (exprLhs ?e)) tL @ ''*'' @ parens (opAt p (exprRhs ?e)) tR)"
        if "textOk p ds ps (exprLhs ?e) tL" "textOk p ds ps (exprRhs ?e) tR" for tL tR
        using Mul less.prems(2) rng that False by (subst textE.simps) (auto simp: textOk_def)
      moreover have "reads ds ps dims params 1 (parens (opAt p (exprLhs ?e)) tL @ ''*'' @ parens (opAt p (exprRhs ?e)) tR) v"
        if "textOk p ds ps (exprLhs ?e) tL" "textOk p ds ps (exprRhs ?e) tR" "denotes p dims params i v" for tL tR dims params v
        using that(3) read_mul operand_reads [OF that(1)] operand_reads [OF that(2)] unfolding d(5) [OF Mul] by blast
      ultimately show ?thesis using Mul
        by (intro binary [where g = "\<lambda>tL tR. parens (opAt p (exprLhs ?e)) tL @ ''*'' @ parens (opAt p (exprRhs ?e)) tR"])
           (simp_all del: One_nat_def)
    qed
  next
    case FloorDiv
    have rng: "exprLhs ?e < length (poolExprs p)" "exprRhs ?e < length (poolExprs p)" using ch FloorDiv less.prems(2) by auto
    have "textE p ds ps i = returns (parens (opAt p (exprLhs ?e)) tL @ '' floordiv '' @ parens (opAt p (exprRhs ?e)) tR)"
      if "textOk p ds ps (exprLhs ?e) tL" "textOk p ds ps (exprRhs ?e) tR" for tL tR
      using FloorDiv less.prems(2) rng that by (subst textE.simps) (simp add: textOk_def)
    moreover have "reads ds ps dims params 2 (parens (opAt p (exprLhs ?e)) tL @ '' floordiv '' @ parens (opAt p (exprRhs ?e)) tR) v"
      if "textOk p ds ps (exprLhs ?e) tL" "textOk p ds ps (exprRhs ?e) tR" "denotes p dims params i v" for tL tR dims params v
      using that(3) read_div operand_reads [OF that(1)] operand_reads [OF that(2)] unfolding d(6) [OF FloorDiv] by blast
    ultimately show ?thesis using FloorDiv
      by (intro binary [where g = "\<lambda>tL tR. parens (opAt p (exprLhs ?e)) tL @ '' floordiv '' @ parens (opAt p (exprRhs ?e)) tR"]) simp_all
  next
    case Mod
    have rng: "exprLhs ?e < length (poolExprs p)" "exprRhs ?e < length (poolExprs p)" using ch Mod less.prems(2) by auto
    have "textE p ds ps i = returns (parens (opAt p (exprLhs ?e)) tL @ '' mod '' @ parens (opAt p (exprRhs ?e)) tR)"
      if "textOk p ds ps (exprLhs ?e) tL" "textOk p ds ps (exprRhs ?e) tR" for tL tR
      using Mod less.prems(2) rng that by (subst textE.simps) (simp add: textOk_def)
    moreover have "reads ds ps dims params 2 (parens (opAt p (exprLhs ?e)) tL @ '' mod '' @ parens (opAt p (exprRhs ?e)) tR) v"
      if "textOk p ds ps (exprLhs ?e) tL" "textOk p ds ps (exprRhs ?e) tR" "denotes p dims params i v" for tL tR dims params v
      using that(3) read_mod operand_reads [OF that(1)] operand_reads [OF that(2)] unfolding d(7) [OF Mod] by blast
    ultimately show ?thesis using Mod
      by (intro binary [where g = "\<lambda>tL tR. parens (opAt p (exprLhs ?e)) tL @ '' mod '' @ parens (opAt p (exprRhs ?e)) tR"]) simp_all
  qed
qed

section \<open>Printing a validated instance\<close>

lemma total_mapO: "(\<And>x. x \<in> set xs \<Longrightarrow> total (f x)) \<Longrightarrow> total (mapO f xs)"
  by (induction xs) (auto intro!: total_bindO)

lemma printExpr_total:
  assumes "poolOk (instExprs inst)" "i = kNoExpr \<or> validExpr inst i = returns None"
  shows "total (printExpr inst i)"
proof (cases "i = kNoExpr")
  case False
  then have "i < length (poolExprs (instExprs inst))" using assms(2) validExpr_range by blast
  from textE_spec [OF assms(1) this] show ?thesis unfolding printExpr_def textOk_def total_def using False by (metis (no_types))
qed (simp add: printExpr_def)

lemma printList_total:
  assumes "poolOk (instExprs inst)" "\<forall>i \<in> set ids. i = kNoExpr \<or> validExpr inst i = returns None"
  shows "total (printList inst ids)"
  unfolding printList_def by (intro total_bindO total_mapO printExpr_total assms(1)) (use assms(2) in auto)

lemma printTuple_total:
  assumes "poolOk (instExprs inst)" "\<forall>i \<in> set ids. i = kNoExpr \<or> validExpr inst i = returns None"
    "\<forall>ind. indirect = Some ind \<longrightarrow> (\<forall>i \<in> set (indIndexCoords ind). i = kNoExpr \<or> validExpr inst i = returns None)"
  shows "total (printTuple inst ids indirect w)"
proof -
  have "total (printExpr inst (ids ! k))" if "k < length ids" for k
    by (rule printExpr_total [OF assms(1)]) (use assms(2) that in simp)
  then show ?thesis unfolding printTuple_def
    by (auto intro!: total_bindO total_mapO printList_total [OF assms(1)] assms(3) [rule_format] simp: set_zip split: option.splits)
       (use assms(3) in blast)+
qed

lemma printPredicate_total:
  assumes "poolOk (instExprs inst)" "validPredicate inst cs = returns None"
  shows "total (printPredicate inst cs)"
  unfolding printPredicate_def
  by (intro total_bindO total_mapO total_returns printExpr_total assms(1)) (use assms(2) in \<open>auto simp: validPredicate_def\<close>)


lemma access_coords:
  assumes "validAccess inst a = returns None"
  shows "\<forall>i \<in> set (accCoords a). i = kNoExpr \<or> validExpr inst i = returns None"
    and "\<forall>ind. accIndirect a = Some ind \<longrightarrow> (\<forall>i \<in> set (indIndexCoords ind). i = kNoExpr \<or> validExpr inst i = returns None)"
    and "validPredicate inst (accValid a) = returns None"
  using assms by (auto simp: validAccess_def validCoords_None)

lemma accessText_total:
  assumes "poolOk (instExprs inst)" "validAccess inst a = returns None"
  shows "total (accessText inst a)"
proof -
  note v = access_coords [OF assms(2)]
  have "total (printTuple inst (accCoords a) (accIndirect a) ''norm'')" by (rule printTuple_total [OF assms(1) v(1,2)])
  then show ?thesis unfolding accessText_def using printPredicate_total [OF assms(1) v(3)] by (auto intro!: total_bindO)
qed

lemma paramText_total:
  assumes "poolOk (instExprs inst)" "validParam inst p = returns None"
  shows "total (paramText inst p)"
proof -
  have "total (printExpr inst (paramDefinition p))"
    by (rule printExpr_total [OF assms(1)]) (use assms(2) in \<open>auto simp: validParam_def split: if_splits\<close>)
  then show ?thesis unfolding paramText_def by (auto intro!: total_bindO split: ParamSource.splits)
qed

lemma checkText_total:
  assumes "poolOk (instExprs inst)" "validCheck inst c = returns None"
  shows "total (checkText inst c)"
proof -
  have "total (printExpr inst (chkLower c))" "total (printExpr inst (chkUpper c))"
    by (rule printExpr_total [OF assms(1)], use assms(2) in \<open>auto simp: validCheck_def validBound_def Let_def split: if_splits\<close>)+
  then show ?thesis unfolding checkText_def by (auto intro!: total_bindO)
qed

lemma predicateLine_total: "poolOk (instExprs inst) \<Longrightarrow> validPredicate inst cs = returns None \<Longrightarrow> total (predicateLine inst w cs)"
  by (auto simp: predicateLine_def intro!: total_bindO printPredicate_total)

lemma writeLine_total:
  assumes "poolOk (instExprs inst)" "validate inst n = returns None" "scatterOk inst"
  shows "total (writeLine inst laws)"
proof -
  have v: "validCoords inst (wrCoords (instOutput inst)) (wrIndirect (instOutput inst) \<noteq> None) = returns None"
    "validPredicate inst (wrValid (instOutput inst)) = returns None" using assms(2) by (simp_all add: validate_def Let_def)
  have "total (printTuple inst (wrCoords (instOutput inst)) (wrIndirect (instOutput inst)) ''norm'')"
    by (rule printTuple_total [OF assms(1)]) (use v(1) assms(3) in \<open>auto simp: validCoords_None scatterOk_def\<close>)
  then show ?thesis unfolding writeLine_def Let_def using printPredicate_total [OF assms(1) v(2)] by (auto intro!: total_bindO)
qed

lemma instToString_total:
  assumes ok: "poolOk (instExprs inst)" and v: "validate inst n = returns None" and sc: "scatterOk inst"
  shows "total (instToString inst laws)"
proof -
  let ?d = "instDomain inst"
  have vs: "\<forall>p \<in> set (domParams ?d). validParam inst p = returns None" "\<forall>d \<in> set (domDims ?d). validDim inst d = returns None"
    "validPredicate inst (domConstraints ?d) = returns None" "validPredicate inst (domGuard ?d) = returns None"
    "\<forall>a \<in> set (instNorm inst). validAccess inst a = returns None" "\<forall>a \<in> set (instWith inst). validAccess inst a = returns None"
    "\<forall>c \<in> set (instChecks inst). validCheck inst c = returns None"
    using v by (simp_all add: validate_def Let_def)
  have dim: "total (dimText inst d)" if "d \<in> set (domDims ?d)" for d
    unfolding dimText_def by (intro total_bindO printExpr_total [OF ok] total_returns) (use vs(2) that in \<open>auto simp: validDim_def\<close>)
  have acc: "total (mapO (accessLine inst w) (zip [0..<length as] as))" if "\<forall>a \<in> set as. validAccess inst a = returns None" for w as
    by (intro total_mapO) (use that accessText_total [OF ok] in \<open>auto simp: accessLine_def set_zip intro!: total_bindO\<close>)
  show ?thesis unfolding instToString_def Let_def
    by (intro total_bindO total_returns total_mapO paramText_total [OF ok] dim predicateLine_total [OF ok] checkText_total [OF ok]
          acc writeLine_total [OF ok v sc]) (use vs in auto)
qed

end
