(* ===== verification/Index_Properties.thy ===== *)
theory Index_Properties
  imports Index_Points Index_View Index_Text
begin

text \<open>
  The properties of the index semantics.
\<close>

text \<open>A builder grows the pool by at most five expressions.\<close>

definition hasRoom :: "ExprPool \<Rightarrow> bool" where
  "hasRoom p \<longleftrightarrow> length (poolExprs p) + 5 < kNoExpr"

inductive built :: "ExprPool \<Rightarrow> bool" where
  built_empty: "built emptyPool"
| built_constant: "built p \<Longrightarrow> hasRoom p \<Longrightarrow> in_int64 v \<Longrightarrow> built (snd (constantE p v))"
| built_dim: "built p \<Longrightarrow> hasRoom p \<Longrightarrow> n < 2 ^ 32 \<Longrightarrow> built (snd (dimE p n))"
| built_param: "built p \<Longrightarrow> hasRoom p \<Longrightarrow> n < 2 ^ 32 \<Longrightarrow> built (snd (paramE p n))"
| built_binary: "built p \<Longrightarrow> hasRoom p \<Longrightarrow> l < length (poolExprs p) \<Longrightarrow> r < length (poolExprs p) \<Longrightarrow>
    returns (i, q) \<in> {addE p l r, subE p l r, mulE p l r, floorDivE p l r, modE p l r} \<Longrightarrow> built q"
| built_scale: "built p \<Longrightarrow> hasRoom p \<Longrightarrow> in_int64 c \<Longrightarrow> e < length (poolExprs p) \<Longrightarrow> scaleE p c e = returns (i, q) \<Longrightarrow> built q"

definition tilePool :: ExprPool where
  "tilePool = snd (dimE (snd (constantE emptyPool 10)) 0)"

definition tileAccess :: Access where
  "tileAccess = \<lparr>accKind = AffineAccess, accCoords = [1], accValid = [], accOnInvalid = Unreachable, accPadding = 0, accIndirect = None\<rparr>"

definition tileInst :: IndexedInstance where
  "tileInst =
     \<lparr>instExprs = tilePool,
      instDomain = \<lparr>domDims = [\<lparr>dimName = ''d0'', dimExtent = 0, dimRole = Parallel\<rparr>], domParams = [], domConstraints = [], domGuard = []\<rparr>,
      instNorm = [tileAccess], instWith = [],
      instOutput = \<lparr>wrCoords = [1], wrValid = [], wrMode = Unique, wrIndirect = None\<rparr>,
      instChecks = [], instLaw = kNoLaw\<rparr>"

definition tileSplit :: "DimSplit list" where
  "tileSplit = [\<lparr>splitDim = 0, splitFactor = 4\<rparr>]"

text \<open>A float sum that starts from +0.0; its identity is -0.0.\<close>

definition floatSum :: ReductionLaw where
  "floatSum = \<lparr>lawName = ''sum_f64'', lawKind = LawAdd, lawInput = TcFloat64, lawAccumulator = TcFloat64, lawResult = TcFloat64,
     lawInit = InitConstant, lawInitBits = 0, lawInitOperand = 255, lawEmpty = EmptyInitial, lawOrder = Ascending,
     lawFinalize = FinalizeNone, lawExactAssociative = False, lawExactCommutative = True, lawHasIdentity = True,
     lawIdentityBits = 2 ^ 63, lawCombinerOperand = 255\<rparr>"

section \<open>Pools that the builders make\<close>

inductive_cases builtE: "built p"

lemma buildsD: "builds p n m (returns (i, q)) \<Longrightarrow> poolOk q \<and> extends p q \<and> i < length (poolExprs q) \<and>
    length (poolExprs q) \<le> length (poolExprs p) + n \<and> (\<forall>dims params. m dims params q i)"
  by (auto simp: builds_def)

lemma subE_spec:
  assumes "poolOk p" "hasRoom p" "l < length (poolExprs p)" "r < length (poolExprs p)"
  shows "builds p 5 (computes (-) always p l r) (subE p l r)"
proof -
  have sc: "builds p 3 (\<lambda>dims params q i. \<forall>x. denotes p dims params r x \<longrightarrow> denotes q dims params i (- 1 * x)) (scaleE p (- 1) r)"
    by (rule scaleE_spec) (use assms in \<open>auto simp: hasRoom_def in_int64_def int64_min_def int64_max_def\<close>)
  then show ?thesis
  proof (cases "scaleE p (- 1) r = throws OverflowError")
    case False
    then obtain k p1 where k: "scaleE p (- 1) r = returns (k, p1)" "poolOk p1" "extends p p1" "length (poolExprs p1) \<le> length (poolExprs p) + 3"
      "k < length (poolExprs p1)" "\<forall>dims params x. denotes p dims params r x \<longrightarrow> denotes p1 dims params k (- 1 * x)"
      using sc by (auto simp: builds_def)
    have l: "l < length (poolExprs p1)" using extends_length [OF k(3)] assms(3) by simp
    have add: "builds p1 2 (computes (+) always p1 l k) (addE p1 l k)"
      by (rule addE_spec) (use k l assms(2) in \<open>auto simp: hasRoom_def\<close>)
    have eq: "subE p l r = addE p1 l k" using k(1) by (simp add: subE_def)
    show ?thesis
    proof (cases "addE p1 l k = throws OverflowError")
      case False
      then obtain i q where i: "addE p1 l k = returns (i, q)" "poolOk q" "extends p1 q" "length (poolExprs q) \<le> length (poolExprs p1) + 2"
        "i < length (poolExprs q)" "\<forall>dims params. computes (+) always p1 l k dims params q i" using add by (auto simp: builds_def)
      have "computes (-) always p l r dims params q i" for dims params
        using i(6) k(6) denotes_extends [OF _ k(3)] unfolding computes_def by fastforce
      then show ?thesis using eq i k(4) extends_trans [OF k(3) i(3)] by (intro buildsI [of _ i q]) auto
    qed (simp add: eq)
  qed (simp add: subE_def)
qed

lemma mulE_returns:
  assumes "mulE p l r = returns x" "l < length (poolExprs p)" "r < length (poolExprs p)"
  shows "opAt p l \<in> {Const, Param} \<or> opAt p r \<in> {Const, Param}"
  using mulE_rejects [OF assms(2,3)] assms(1) by auto

lemma quotient_returns:
  assumes "floorDivE p l r = returns x \<or> modE p l r = returns x" "r < length (poolExprs p)"
  shows "isDivisor p r"
  using assms by (auto simp: floorDivE_def modE_def requireDivisor_iff split: if_splits)

lemma builtD:
  "built p \<Longrightarrow> poolOk p"
proof (induction rule: built.induct)
  case built_empty then show ?case by (rule poolOk_empty)
next
  case (built_constant p v)
  then show ?case using constantE_spec(1) [of p v] by (cases "constantE p v") (auto simp: hasRoom_def)
next
  case (built_dim p n)
  then show ?case using dimE_spec(1) [of p n] by (cases "dimE p n") (auto simp: hasRoom_def)
next
  case (built_param p n)
  have "internOk p (leafExpr Param (int n))" using built_param by (simp add: internOk_def exprOk.simps leafExpr_def)
  then show ?case using intern_spec [of p "leafExpr Param (int n)"] built_param by (auto simp: paramE_def hasRoom_def)
next
  case (built_binary p l r i q)
  have rm: "length (poolExprs p) + 1 < kNoExpr" "length (poolExprs p) < kNoExpr" using built_binary by (auto simp: hasRoom_def)
  note in_range = built_binary(3,4)
  consider "addE p l r = returns (i, q)" | "subE p l r = returns (i, q)" | "mulE p l r = returns (i, q)"
    | "floorDivE p l r = returns (i, q)" | "modE p l r = returns (i, q)" using built_binary(5) by auto
  then show ?case
  proof cases
    case 1 then show ?thesis using addE_spec [OF built_binary.IH rm(1) in_range] by (auto dest: buildsD)
  next
    case 2 then show ?thesis using subE_spec [OF built_binary.IH built_binary(2) in_range] by (auto dest: buildsD)
  next
    case 3 then show ?thesis using mulE_spec [OF built_binary.IH rm(1) in_range mulE_returns [OF 3 in_range]] by (auto dest: buildsD)
  next
    case 4
    have "isDivisor p r" by (rule quotient_returns [of p l r]) (use 4 in_range in auto)
    then show ?thesis using quotient_spec(1) [OF built_binary.IH rm(2) in_range] 4 by (auto dest: buildsD)
  next
    case 5
    have "isDivisor p r" by (rule quotient_returns [of p l r]) (use 5 in_range in auto)
    then show ?thesis using quotient_spec(2) [OF built_binary.IH rm(2) in_range] 5 by (auto dest: buildsD)
  qed
next
  case (built_scale p c e i q)
  have "length (poolExprs p) + 2 < kNoExpr" using built_scale(2) by (simp add: hasRoom_def)
  from scaleE_spec [OF built_scale.IH built_scale(3) this built_scale(4)] built_scale(5) show ?case by (auto dest: buildsD)
qed

lemma poolOk_distinct: "poolOk p \<Longrightarrow> distinct (poolExprs p)"
  unfolding poolOk_def distinct_conv_nth by (metis option.inject)

section \<open>An example\<close>

text \<open>A copy of ten elements: one dim \<open>d0 < 10\<close>, read and written at \<open>d0\<close>.\<close>

lemma tilePool_exprs: "poolExprs tilePool = [leafExpr Const 10, leafExpr Dim 0]"
  by (simp add: tilePool_def dimE_def constantE_def intern_def emptyPool_def leafExpr_def)

lemma tilePool_built: "built tilePool"
  unfolding tilePool_def
  by (intro built_dim built_constant built_empty)
     (simp_all add: hasRoom_def kNoExpr_def emptyPool_def constantE_def intern_def in_int64_def int64_min_def int64_max_def)


lemma tileInst_expr: "validExpr tileInst 0 = returns None" "validExpr tileInst 1 = returns None"
  by (subst validExpr.simps, simp add: tileInst_def tilePool_exprs leafExpr_def problemIf_def outside_def)+

lemma tileInst_valid: "validate tileInst n = returns None"
proof -
  have "mentionsDim tilePool 0 = returns False" by (subst mentionsDim.simps) (simp add: tilePool_exprs leafExpr_def)
  then show ?thesis using tileInst_expr
    by (simp add: validate_def validDim_def validAccess_def validCoords_def validPredicate_def noDim_def validLaw_def tileAccess_def tileInst_def)
qed

lemma tileInst_admits: "admits tileInst []"
  by (simp add: admits_def sat_def tileInst_def)

lemma tileInst_scatter: "scatterOk tileInst" "splitRoom tileInst"
  by (simp_all add: scatterOk_def splitRoom_def tileInst_def tilePool_exprs)

lemma tileInst_fields: "instExprs tileInst = tilePool" "length (domDims (instDomain tileInst)) = 1" "domParams (instDomain tileInst) = []"
  "instNorm tileInst = [tileAccess]"
  by (simp_all add: tileInst_def)

lemma tileInst_point: "isPoint tileInst [] t \<longleftrightarrow> (\<exists>x. t = [x] \<and> 0 \<le> x \<and> x < 10)"
proof -
  have "denotes tilePool [] [] 0 E \<longleftrightarrow> E = 10" for E
    by (subst denotes.simps) (auto simp: tilePool_exprs leafExpr_def)
  then show ?thesis by (auto simp: isPoint_def tileInst_def sat_def list_all2_Cons1)
qed

text \<open>The checks on operand values are not carried over.\<close>

lemma split_drops_checks: "splitDims inst splits = returns out \<Longrightarrow> instChecks out = []"
  by (auto simp: splitDims_def splitRest_def Let_def elim!: bindO_returns)

section \<open>Properties\<close>

text \<open>C27: every pool the builders make, in any order, is in normal form and holds each expression
  once, so that building an expression twice gives the same id.\<close>

theorem pool_invariant:
  assumes "built p"
  shows "poolOk p \<and> distinct (poolExprs p)"
  using builtD [OF assms] poolOk_distinct by blast

theorem pool_invariant_witness: "built tilePool \<and> poolOk tilePool \<and> distinct (poolExprs tilePool)"
  using pool_invariant [OF tilePool_built] tilePool_built by blast



text \<open>C8: evaluation is exact. It always returns or throws; a value it returns is the mathematical value
  of the expression; and where the expression has a value, evaluation returns it or throws
  \<open>overflow_error\<close>, never anything else.\<close>

theorem evaluate_correct:
  assumes "built p" "i < length (poolExprs p)"
  shows "evaluate p i dims params \<noteq> None \<and>
    (\<forall>v. evaluate p i dims params = returns v \<longrightarrow> denotes p dims params i v) \<and>
    (\<forall>v. denotes p dims params i v \<longrightarrow> evaluate p i dims params \<in> {returns v, throws OverflowError})"
  using evaluate_exact [OF builtD [OF assms(1)] assms(2), of dims params] unfolding exact_def halts_def by simp

theorem evaluate_correct_witness: "denotes tilePool [7] [] 1 7 \<and> evaluate tilePool 1 [7] [] \<in> {returns 7, throws OverflowError}"
proof -
  have i: "1 < length (poolExprs tilePool)" by (simp add: tilePool_exprs)
  have "denotes tilePool [7] [] 1 7" using denotes_iff(2) [OF i, of "[7]" "[]" 7] by (simp add: tilePool_exprs leafExpr_def)
  then show ?thesis using evaluate_correct [OF tilePool_built i, of "[7]" "[]"] by blast
qed

text \<open>The affine form of an expression is the expression: at every point, its constant and its
  coefficients applied to the dims give the value the expression denotes.\<close>

theorem affine_correct:
  assumes "built p" "i < length (poolExprs p)" "affine p i n params = returns (Some f)" "length dims = n"
  shows "length (affCoeffs f) = n \<and> denotes p dims params i (affineValue f dims)"
  using affine_spec [OF builtD [OF assms(1)] assms(2)] assms(3,4) by blast

theorem affine_correct_witness: "denotes tilePool [7] [] 1 (affineValue \<lparr>affConstant = 0, affCoeffs = [1]\<rparr> [7])"
proof -
  have "affine tilePool 1 1 [] = returns (Some \<lparr>affConstant = 0, affCoeffs = [1]\<rparr>)"
    by (subst affine.simps) (simp add: tilePool_exprs leafExpr_def)
  from affine_correct [OF tilePool_built _ this, of "[7]"] show ?thesis by (simp add: tilePool_exprs)
qed

text \<open>C13: validation always answers, and what it checks is safe: at every point, for parameter values that
  agree with the known ones and satisfy the domain's constraints, every expression that validation of an
  accepted instance looks at (\<open>checkedExprs\<close>: definitions, extents, constraints, guard, coordinates, validity and
  index coordinates of the accesses, coordinates and validity of the write, bounds of the checks)
  has a value, and evaluating it gives that value or \<open>overflow_error\<close>: no unknown parameter, no
  divisor that is not positive, no id or position out of range. The index coordinates of an indirect
  write (\<open>scatterExprs\<close>) are not looked at; they are safe when they pass the check made for those of an
  access (\<open>scatterOk\<close>), and need not be otherwise (\<open>scatter_unchecked\<close>).\<close>

theorem validate_sound:
  assumes "built (instExprs inst)"
  shows "(\<exists>r. validate inst n = returns r) \<and>
    (validate inst n = returns None \<longrightarrow>
      (\<forall>vals dims i. i \<in> set (checkedExprs inst) \<or> scatterOk inst \<and> i \<in> set (scatterExprs inst) \<longrightarrow>
        admits inst vals \<longrightarrow> length dims = length (domDims (instDomain inst)) \<longrightarrow>
        (\<exists>v. denotes (instExprs inst) dims (map Some vals) i v \<and>
          evaluate (instExprs inst) i dims (map Some vals) \<in> {returns v, throws OverflowError})))"
proof -
  note ok = builtD [OF assms]
  have "validExpr inst i = returns None"
    if "validate inst n = returns None" "i \<in> set (checkedExprs inst) \<or> scatterOk inst \<and> i \<in> set (scatterExprs inst)" for i
    using that validate_None_used scatter_valid by blast
  then show ?thesis using validate_total [OF ok] valid_evaluates [OF ok] by blast
qed

theorem validate_sound_witness:
  "\<exists>v. denotes (instExprs tileInst) [3] (map Some []) 1 v \<and> evaluate (instExprs tileInst) 1 [3] (map Some []) \<in> {returns v, throws OverflowError}"
proof -
  have "1 \<in> set (checkedExprs tileInst)" by (simp add: checkedExprs_def tileInst_def)
  then show ?thesis
    using validate_sound [of tileInst None] tilePool_built tileInst_valid tileInst_admits tileInst_fields by (metis One_nat_def length_Cons list.size(3))
qed

text \<open>With every parameter known, \<open>extents\<close> gives the extents of a validated instance and \<open>holds\<close> decides
  a predicate of it at a point, on mathematical integers, unless they throw \<open>overflow_error\<close>.\<close>

theorem extents_holds_correct:
  assumes "built (instExprs inst)" "validate inst n = returns None" "admits inst vals" "paramValues (instDomain inst) = map Some vals"
  shows "(extents inst = throws OverflowError \<or>
      (\<exists>Es. extents inst = returns (Some Es) \<and>
        list_all2 (\<lambda>d. denotes (instExprs inst) [] (map Some vals) (dimExtent d)) (domDims (instDomain inst)) Es)) \<and>
    (\<forall>point cs. length point = length (domDims (instDomain inst)) \<longrightarrow> set (predExprs cs) \<subseteq> set (checkedExprs inst) \<longrightarrow>
      holds inst cs point \<in> {returns (sat (instExprs inst) point (map Some vals) cs), throws OverflowError})"
proof
  note ok = builtD [OF assms(1)]
  obtain Es where Es: "list_all2 (\<lambda>d. denotes (instExprs inst) [] (map Some vals) (dimExtent d)) (domDims (instDomain inst)) Es"
    using extents_exist [OF ok assms(2,3)] by blast
  have "\<forall>d \<in> set (domDims (instDomain inst)). dimExtent d < length (poolExprs (instExprs inst)) \<and>
      (\<exists>v. denotes (instExprs inst) [] (map Some vals) (dimExtent d) v)"
  proof
    fix d assume "d \<in> set (domDims (instDomain inst))"
    then obtain v where "denotes (instExprs inst) [] (map Some vals) (dimExtent d) v"
      using Es unfolding list_all2_conv_all_nth in_set_conv_nth by blast
    then show "dimExtent d < length (poolExprs (instExprs inst)) \<and> (\<exists>v. denotes (instExprs inst) [] (map Some vals) (dimExtent d) v)"
      using denotes_range by blast
  qed
  from extentLoop_spec [OF ok this, of "[]"]
  show "extents inst = throws OverflowError \<or> (\<exists>Es. extents inst = returns (Some Es) \<and>
      list_all2 (\<lambda>d. denotes (instExprs inst) [] (map Some vals) (dimExtent d)) (domDims (instDomain inst)) Es)"
    unfolding extents_def assms(4) by auto
  show "\<forall>point cs. length point = length (domDims (instDomain inst)) \<longrightarrow> set (predExprs cs) \<subseteq> set (checkedExprs inst) \<longrightarrow>
      holds inst cs point \<in> {returns (sat (instExprs inst) point (map Some vals) cs), throws OverflowError}"
  proof (intro allI impI)
    fix point :: "int list" and cs assume p: "length point = length (domDims (instDomain inst))" "set (predExprs cs) \<subseteq> set (checkedExprs inst)"
    have "\<forall>i \<in> set (predExprs cs). i < length (poolExprs (instExprs inst)) \<and> (\<exists>v. denotes (instExprs inst) point (map Some vals) i v)"
      using validate_denotes [OF ok assms(2,3) _ p(1)] p(2) denotes_range by blast
    from holdsLoop_spec [OF ok this]
    show "holds inst cs point \<in> {returns (sat (instExprs inst) point (map Some vals) cs), throws OverflowError}"
      unfolding holds_def assms(4) by auto
  qed
qed

theorem extents_holds_correct_witness:
  "extents tileInst = throws OverflowError \<or>
   (\<exists>Es. extents tileInst = returns (Some Es) \<and>
     list_all2 (\<lambda>d. denotes (instExprs tileInst) [] (map Some []) (dimExtent d)) (domDims (instDomain tileInst)) Es)"
  using extents_holds_correct [of tileInst None "[]"] tilePool_built tileInst_valid tileInst_admits tileInst_fields
  by (simp add: paramValues_def)


text \<open>C4: splitting dims for tiling keeps what is read and written. When it returns (it throws only on overflow),
  every dim is split by the factor of the last split given for it, and only those: the points of the new
  instance are exactly the old ones with every such coordinate \<open>x\<close> replaced by \<open>x div f\<close> and \<open>x mod f\<close>
  (the guard removes the tail), their canonical order is unchanged, and at corresponding points every
  access and the write have the same coordinates, the same index coordinates where they are indirect, and
  the same validity; the reduction law is kept. The checks on operand values are not carried over:
  the new instance has none.\<close>

theorem split_correct:
  assumes "built (instExprs inst)" "validate inst n = returns None" "scatterOk inst" "splitRoom inst"
    "\<forall>s \<in> set splits. in_int64 (splitFactor s) \<and> 1 \<le> splitFactor s \<and> splitDim s < length (domDims (instDomain inst))"
    "fs = factorsOf inst splits"
  shows "splitDims inst splits = throws OverflowError \<or>
    (\<exists>out. splitDims inst splits = returns out \<and> instLaw out = instLaw inst \<and> instChecks out = [] \<and>
      (\<forall>vals. admits inst vals \<longrightarrow>
        (\<forall>s. isPoint out vals s \<longleftrightarrow> (\<exists>t. isPoint inst vals t \<and> s = splitPoint fs t)) \<and>
        (\<forall>t u. isPoint inst vals t \<longrightarrow> isPoint inst vals u \<longrightarrow> (pointLess (splitPoint fs t) (splitPoint fs u) \<longleftrightarrow> pointLess t u)) \<and>
        (\<forall>t. isPoint inst vals t \<longrightarrow>
          list_all2 (sameAccess inst out vals t (splitPoint fs t)) (instNorm inst) (instNorm out) \<and>
          list_all2 (sameAccess inst out vals t (splitPoint fs t)) (instWith inst) (instWith out) \<and>
          sameWrite inst out vals t (splitPoint fs t))))"
proof -
  note ok = builtD [OF assms(1)]
  let ?n = "length (domDims (instDomain inst))"
  have i64: "\<forall>s \<in> set splits. in_int64 (splitFactor s)" using assms(5) by blast
  obtain gs where gs: "splitFactors splits (replicate ?n 0) = returns gs"
    using splitFactors_cases [of splits "replicate ?n 0"] assms(5) by fastforce
  have "length gs = ?n" using splitFactors_spec [OF gs _ i64] by (auto simp: factorOk_def in_int64_def int64_min_def int64_max_def)
  then have fs: "splitFactors splits (replicate ?n 0) = returns fs" using gs splitFactors_factorsOf assms(6) by blast
  have f: "length fs = ?n" "\<forall>f \<in> set fs. 0 \<le> f"
    using splitFactors_spec [OF fs _ i64] by (auto simp: factorOk_def in_int64_def int64_min_def int64_max_def)
  show ?thesis
  proof (cases "splitDims inst splits = throws OverflowError")
    case False
    with splitDims_spec [OF ok assms(2,3,4) fs i64] obtain img out where o: "splitDims inst splits = returns out" "splitOf fs img inst out" by blast
    have at_point: "joinPoint fs (splitPoint fs t) = t" "length t = ?n" if "isPoint inst vals t" for vals t
      using that join_split [of t fs] f(1) by (auto simp: isPoint_def list_all2_lengthD)
    have acc: "list_all2 (sameAccess inst out vals t (splitPoint fs t)) as as'"
      if "admits inst vals" "isPoint inst vals t" "list_all2 (accM fs (instExprs inst) (instExprs out)) as as'" "set as \<subseteq> set (instNorm inst @ instWith inst)" for vals t as as'
      using that(3) by (rule list.rel_mono_strong) (use split_access [OF ok assms(2) that(1) _ _ at_point [OF that(2)]] that(4) in blast)
    have wr: "sameWrite inst out vals t (splitPoint fs t)" if "admits inst vals" "isPoint inst vals t" for vals t
      using split_write [OF ok assms(2,3) that(1) _ at_point [OF that(2)]] o(2) by (simp add: splitOf_def Let_def)
    have parts: "list_all2 (accM fs (instExprs inst) (instExprs out)) (instNorm inst) (instNorm out)"
      "list_all2 (accM fs (instExprs inst) (instExprs out)) (instWith inst) (instWith out)" "instLaw out = instLaw inst"
      using o(2) by (simp_all add: splitOf_def Let_def)
    show ?thesis
      using o(1) split_drops_checks [OF o(1)] parts(3) split_points [OF ok assms(2) _ o(2) f] split_order [OF _ _ f(2)] at_point(2)
        acc [OF _ _ parts(1)] acc [OF _ _ parts(2)] wr f(1)
      by (intro disjI2 exI [of _ out]) auto
  qed simp
qed

theorem split_correct_witness:
  "splitDims tileInst tileSplit = throws OverflowError \<or>
   (\<exists>out. splitDims tileInst tileSplit = returns out \<and> isPoint out [] [1, 3] \<and> \<not> isPoint out [] [2, 3] \<and>
     list_all2 (sameAccess tileInst out [] [7] [1, 3]) (instNorm tileInst) (instNorm out) \<and> sameWrite tileInst out [] [7] [1, 3])"
proof -
  have fs: "[4] = factorsOf tileInst tileSplit" by (simp add: factorsOf_def factorFor_def tileInst_def tileSplit_def)
  have "\<forall>s \<in> set tileSplit. in_int64 (splitFactor s) \<and> 1 \<le> splitFactor s \<and> splitDim s < length (domDims (instDomain tileInst))"
    by (simp add: tileSplit_def tileInst_fields in_int64_def int64_min_def int64_max_def)
  note c = split_correct [OF _ tileInst_valid tileInst_scatter this fs, unfolded tileInst_fields, OF tilePool_built]
  have p: "splitPoint [4] [7] = [1, 3]" "isPoint tileInst [] [7]" by (simp_all add: tileInst_point)
  have n: "splitPoint [4] t \<noteq> [2, 3]" if "isPoint tileInst [] t" for t
  proof -
    have "x \<le> 10 \<Longrightarrow> \<not> (x div 4 = 2 \<and> x mod 4 = 3)" for x :: int by presburger
    then show ?thesis using that by (auto simp: tileInst_point)
  qed
  from c show ?thesis
  proof
    assume "\<exists>out. splitDims tileInst tileSplit = returns out \<and> instLaw out = instLaw tileInst \<and> instChecks out = [] \<and> (\<forall>vals. admits tileInst vals \<longrightarrow>
      (\<forall>s. isPoint out vals s \<longleftrightarrow> (\<exists>t. isPoint tileInst vals t \<and> s = splitPoint [4] t)) \<and>
      (\<forall>t u. isPoint tileInst vals t \<longrightarrow> isPoint tileInst vals u \<longrightarrow> (pointLess (splitPoint [4] t) (splitPoint [4] u) \<longleftrightarrow> pointLess t u)) \<and>
      (\<forall>t. isPoint tileInst vals t \<longrightarrow>
          list_all2 (sameAccess tileInst out vals t (splitPoint [4] t)) [tileAccess] (instNorm out) \<and>
          list_all2 (sameAccess tileInst out vals t (splitPoint [4] t)) (instWith tileInst) (instWith out) \<and>
          sameWrite tileInst out vals t (splitPoint [4] t)))"
    then obtain out where o: "splitDims tileInst tileSplit = returns out" "\<And>s. isPoint out [] s \<longleftrightarrow> (\<exists>t. isPoint tileInst [] t \<and> s = splitPoint [4] t)"
      "\<And>t. isPoint tileInst [] t \<Longrightarrow> list_all2 (sameAccess tileInst out [] t (splitPoint [4] t)) [tileAccess] (instNorm out) \<and>
        sameWrite tileInst out [] t (splitPoint [4] t)" using tileInst_admits by blast
    have "isPoint out [] [1, 3]" "\<not> isPoint out [] [2, 3]" using o(2) p n by metis+
    then show ?thesis using o(1,3) p tileInst_fields(4) by (intro disjI2) fastforce
  qed simp
qed

text \<open>\<open>splitDims\<close> rejects, with \<open>invalid_argument\<close>, exactly the splits of a dim the domain does not have
  and factors below 1, whatever the instance.\<close>

theorem split_rejects:
  "(\<exists>s \<in> set splits. length (domDims (instDomain inst)) \<le> splitDim s \<or> splitFactor s < 1) \<Longrightarrow>
   splitDims inst splits = throws InvalidArgument"
  using splitFactors_cases [of splits "replicate (length (domDims (instDomain inst))) 0"] by (auto simp: splitDims_def)

theorem split_rejects_witness: "splitDims tileInst [\<lparr>splitDim = 1, splitFactor = 4\<rparr>] = throws InvalidArgument"
  by (rule split_rejects) (simp add: tileInst_fields)

text \<open>C25: the strided view of an affine access is the row-major index: offset plus strides times the point is
  the linear index, in an operand of the given shape, of the coordinates the access denotes there;
  and asking for a view of a validated instance's access never throws.\<close>

theorem row_major_correct:
  assumes "built (instExprs inst)" "validate inst n = returns None" "a \<in> set (instNorm inst @ instWith inst)"
  shows "(\<exists>r. rowMajorView inst a shape = returns r) \<and>
    (\<forall>view dims. rowMajorView inst a shape = returns (Some view) \<longrightarrow> length dims = length (domDims (instDomain inst)) \<longrightarrow>
      length (viewStrides view) = length dims \<and>
      (\<exists>cs. list_all2 (denotes (instExprs inst) dims (paramValues (instDomain inst))) (accCoords a) cs \<and>
        viewOffset view + dot (viewStrides view) dims = rowIndex cs shape))"
proof -
  note ok = builtD [OF assms(1)]
  let ?axes = "rev (zip (accCoords a) shape)"
  let ?v0 = "\<lparr>viewOffset = 0, viewStrides = replicate (length (domDims (instDomain inst))) 0\<rparr>"
  have valid: "validExpr inst i = returns None" if "i \<in> set (accCoords a)" "accKind a = AffineAccess" for i
    by (rule validate_None_used [OF assms(2)]) (use that assms(3) in \<open>auto simp: checkedExprs_def accExprs_def\<close>)
  show ?thesis
  proof (cases "accKind a \<noteq> AffineAccess \<or> length (accCoords a) \<noteq> length shape")
    case False
    then have k: "accKind a = AffineAccess" "length (accCoords a) = length shape" by auto
    have range: "\<forall>x \<in> set ?axes. validExpr inst (fst x) = returns None" using valid k(1) by (auto dest: set_zip_leftD)
    have "fallible (viewLoop inst ?axes 1 ?v0)" by (rule viewLoop_fallible [OF ok range])
    then have tot: "\<exists>r. rowMajorView inst a shape = returns r" using False by (auto simp: rowMajorView_def fallible_def Let_def)
    moreover have "length (viewStrides view) = length dims \<and>
      (\<exists>cs. list_all2 (denotes (instExprs inst) dims (paramValues (instDomain inst))) (accCoords a) cs \<and>
        viewOffset view + dot (viewStrides view) dims = rowIndex cs shape)"
      if r: "rowMajorView inst a shape = returns (Some view)" "length dims = length (domDims (instDomain inst))" for view dims
    proof -
      have loop: "viewLoop inst ?axes 1 ?v0 = returns (Some view)" using r(1) False by (auto simp: rowMajorView_def Let_def split: if_splits)
      have in_pool: "\<forall>x \<in> set ?axes. fst x < length (poolExprs (instExprs inst))" using range validExpr_range by blast
      obtain cs where cs: "length (viewStrides view) = length dims"
        "list_all2 (\<lambda>x. denotes (instExprs inst) dims (paramValues (instDomain inst)) (fst x)) ?axes cs"
        "viewOffset view + dot (viewStrides view) dims = 0 + dot (replicate (length (domDims (instDomain inst))) 0) dims + 1 * rowIndex (rev cs) (rev (map snd ?axes))"
        using viewLoop_spec [OF ok loop _ in_pool r(2)] by auto
      have "list_all2 (\<lambda>x. denotes (instExprs inst) dims (paramValues (instDomain inst)) (fst x)) (zip (accCoords a) shape) (rev cs)"
        using cs(2) by (metis list_all2_rev rev_rev_ident)
      then have "list_all2 (denotes (instExprs inst) dims (paramValues (instDomain inst))) (accCoords a) (rev cs)"
        using k(2) by (simp add: list_all2_conv_all_nth)
      moreover have "rev (map snd ?axes) = shape" using k(2) by (simp add: rev_map)
      ultimately show ?thesis using cs(1,3) by (auto simp: dot_zeros)
    qed
    ultimately show ?thesis by blast
  qed (auto simp: rowMajorView_def)
qed

theorem row_major_correct_witness: "\<exists>r. rowMajorView tileInst tileAccess [10] = returns r"
  using row_major_correct [of tileInst None tileAccess "[10]"] tilePool_built tileInst_valid tileInst_fields by auto

text \<open>A declared law that passes \<open>checkLaw\<close> never lets a float sum or product be regrouped, permuted or
  started from several identities in the canonical order unless \<open>reassociate\<close> is granted, and under the
  strict policy a consumer keeps the canonical algorithm; a block may start from the identity only when the
  law itself starts there.\<close>

theorem law_freedom:
  assumes "checkLaw law = None" "isFloat (lawAccumulator law)" "lawKind law \<in> {LawAdd, LawMul, LawMulAdd, LawFmaChain}"
    "lawOrder law = Ascending"
  shows "(frRegroup (reorderFreedom law g) \<longleftrightarrow> g AND kReassociate \<noteq> 0) \<and>
    (frPermute (reorderFreedom law g) \<longrightarrow> g AND kReassociate \<noteq> 0) \<and>
    (frBlockIdentity (reorderFreedom law g) \<longrightarrow> g AND kReassociate \<noteq> 0 \<and> lawInit law = InitConstant \<and> lawInitBits law = lawIdentityBits law) \<and>
    reorderFreedomPolicy law g strict =
      \<lparr>frRegroup = False, frPermute = False, frBlockIdentity = False, frContract = (lawKind law = LawFmaChain), frChangePrecision = False\<rparr>"
proof -
  have na: "\<not> lawExactAssociative law" using assms(1-3) by (auto simp: checkLaw_def Let_def split: if_splits)
  then show ?thesis using assms(4)
    by (simp add: reorderFreedom_def reorderFreedomPolicy_def effective_def strict_def Let_def)
qed

theorem law_freedom_witness:
  "checkLaw floatSum = None \<and> frRegroup (reorderFreedom floatSum kReassociate) \<and> \<not> frRegroup (reorderFreedom floatSum 0) \<and>
   \<not> frBlockIdentity (reorderFreedom floatSum kReassociate)"
proof -
  have c: "checkLaw floatSum = None" "isFloat (lawAccumulator floatSum)" "lawKind floatSum \<in> {LawAdd, LawMul, LawMulAdd, LawFmaChain}"
    "lawOrder floatSum = Ascending" "lawInitBits floatSum \<noteq> lawIdentityBits floatSum"
    by (simp_all add: floatSum_def checkLaw_def isFloat_def)
  then show ?thesis using law_freedom [OF c(1-4), of kReassociate] law_freedom [OF c(1-4), of 0] by (simp add: kReassociate_def)
qed

text \<open>An instance that \<open>instantiate\<close> hands out is the one the operator's function made and it passed
  validation with the operator's laws, so every expression of it is safe to evaluate; a call without
  index semantics, or whose function throws or finds none, has no instance.\<close>

theorem instantiate_correct:
  assumes "instantiate table oper cx = returns (Some inst)" "built (instExprs inst)" "admits inst vals"
    "length dims = length (domDims (instDomain inst))" "i \<in> set (checkedExprs inst)"
  shows "(\<exists>s f. table oper = Some s \<and> semIndexing s = Some f \<and> f cx = returns (Some inst) \<and>
      validate inst (Some (length (semLaws s))) = returns None) \<and>
    (\<exists>v. denotes (instExprs inst) dims (map Some vals) i v \<and>
      evaluate (instExprs inst) i dims (map Some vals) \<in> {returns v, throws OverflowError})"
proof -
  from assms(1) obtain s f where s: "table oper = Some s" "semIndexing s = Some f" "f cx \<noteq> throws InvalidArgument" "f cx \<noteq> throws OverflowError"
    "bindO (f cx) (\<lambda>r. checkInstance r (length (semLaws s))) = returns (Some inst)"
    by (auto simp: instantiate_def split: option.splits if_splits)
  from s(5) obtain r where r: "f cx = returns r" "checkInstance r (length (semLaws s)) = returns (Some inst)" by (rule bindO_returns)
  then have v: "r = Some inst" "validate inst (Some (length (semLaws s))) = returns None"
    by (auto simp: checkInstance_def elim!: bindO_returns split: option.splits if_splits)
  note ok = builtD [OF assms(2)]
  have "\<exists>v. denotes (instExprs inst) dims (map Some vals) i v \<and> evaluate (instExprs inst) i dims (map Some vals) \<in> {returns v, throws OverflowError}"
    by (rule valid_evaluates [OF ok validate_None_used [OF v(2) assms(5)] assms(3,4)])
  then show ?thesis using s(1,2) r(1) v by blast
qed

theorem instantiate_correct_witness:
  "\<exists>v. denotes (instExprs tileInst) [3] (map Some []) 1 v \<and>
     evaluate (instExprs tileInst) 1 [3] (map Some []) \<in> {returns v, throws OverflowError}"
proof -
  let ?table = "\<lambda>oper. Some \<lparr>semIndexing = Some (\<lambda>cx. returns (Some tileInst)), semLaws = []\<rparr>"
  have "instantiate ?table 0 () = returns (Some tileInst)"
    by (simp add: instantiate_def checkInstance_def tileInst_valid)
  moreover have "1 \<in> set (checkedExprs tileInst)" by (simp add: checkedExprs_def tileInst_def)
  ultimately show ?thesis using instantiate_correct [of ?table 0 "()" tileInst "[]" "[3]" 1] tilePool_built tileInst_admits tileInst_fields by simp
qed

text \<open>The text of an expression says what the expression means: read with the usual precedences, the text
  that \<open>ExprPool::text\<close> prints has, at every point, the value the expression denotes; the
  subtractions and the parentheses it leaves out change nothing. Numbers and names stand for what
  \<open>showInt\<close> and \<open>nameAt\<close> write.\<close>

theorem text_correct:
  assumes "built p" "i < length (poolExprs p)"
  shows "\<exists>s. textE p ds ps i = returns s \<and> (\<forall>dims params v. denotes p dims params i v \<longrightarrow> reads ds ps dims params 3 s v)"
proof -
  obtain s where "textOk p ds ps i s" using textE_spec [OF builtD [OF assms(1)] assms(2)] by blast
  then show ?thesis using textOk_reads unfolding textOk_def by blast
qed

theorem text_correct_witness: "\<exists>s. textE tilePool [''d0''] [] 1 = returns s \<and> reads [''d0''] [] [7] [] 3 s 7"
proof -
  have i: "1 < length (poolExprs tilePool)" by (simp add: tilePool_exprs)
  have "denotes tilePool [7] [] 1 7" using denotes_iff(2) [OF i, of "[7]" "[]" 7] by (simp add: tilePool_exprs leafExpr_def)
  then show ?thesis using text_correct [OF tilePool_built i] by blast
qed

text \<open>The text form of a validated instance is always produced: printing never reads an expression, a
  dim or a parameter that is not there, provided the index coordinates of a scatter are valid too.\<close>

theorem to_string_total:
  assumes "built (instExprs inst)" "validate inst n = returns None" "scatterOk inst"
  shows "\<exists>s. instToString inst laws = returns s"
  using instToString_total [OF builtD [OF assms(1)] assms(2,3)] by (simp add: total_def)

theorem to_string_total_witness: "\<exists>s. instToString tileInst None = returns s"
  using to_string_total [OF _ tileInst_valid tileInst_scatter(1)] tilePool_built tileInst_fields by simp

section \<open>What the split instance loses\<close>

text \<open>An instance whose indirect write has an index coordinate that is no expression of the pool is accepted.\<close>

lemma scatter_unchecked:
  "validate (tileInst\<lparr>instOutput := \<lparr>wrCoords = [1], wrValid = [], wrMode = Unique,
      wrIndirect = Some \<lparr>indIndexOperand = 0, indIndexCoords = [999], indAxis = 0\<rparr>\<rparr>\<rparr>) n = returns None"
  "\<not> denotes tilePool dims params 999 v"
proof -
  let ?i = "tileInst\<lparr>instOutput := \<lparr>wrCoords = [1], wrValid = [], wrMode = Unique,
      wrIndirect = Some \<lparr>indIndexOperand = 0, indIndexCoords = [999], indAxis = 0\<rparr>\<rparr>\<rparr>"
  have "mentionsDim tilePool 0 = returns False" by (subst mentionsDim.simps) (simp add: tilePool_exprs leafExpr_def)
  moreover have "validExpr ?i 0 = returns None" "validExpr ?i 1 = returns None"
    by (subst validExpr.simps, simp add: tileInst_def tilePool_exprs leafExpr_def problemIf_def outside_def)+
  ultimately show "validate ?i n = returns None"
    by (simp add: validate_def validDim_def validAccess_def validCoords_def validPredicate_def noDim_def validLaw_def tileAccess_def tileInst_def)
  show "\<not> denotes tilePool dims params 999 v" using denotes_range [of tilePool dims params 999 v] by (auto simp: tilePool_exprs)
qed

text \<open>A law that claims exact associativity of a bf16 sum passes the check for float laws.\<close>

lemma checkLaw_bf16: "checkLaw (floatSum\<lparr>lawAccumulator := TcBFloat16, lawExactAssociative := True\<rparr>) = None"
  by (simp add: checkLaw_def floatSum_def isFloat_def)

end
