(* ===== verification/Spec2Isabelle.thy ===== *)
theory Spec2Isabelle
  imports Lexer_Literals Parser_Properties Collection_Properties Index_Properties
begin

text \<open>
  A verification development for Camel, the graph-native language of OpenCML.

  \<^bold>\<open>The program.\<close> Camel reads source text (\<open>src/src/parse\<close>), lowers it to a graph
  (\<open>src/src/compile\<close>), transforms the graph (\<open>src/src/passes\<close>, \<open>src/src/runtime\<close>, \<open>src/modules\<close>) and
  executes it (\<open>src/src/execute\<close>) over garbage collected values (\<open>src/src/core\<close>). Five parts that
  carry logic of their own and do not depend on the rest are modelled here, each from its data
  types up to the theorems that make it correct:

  \<^item> the lexer, \<open>src/src/parse/syntax/lexer.cpp\<close>: source text to a lossless buffer of tokens, with
    errors, lines, formatted strings and documentation;
  \<^item> the parser, \<open>src/src/parse/syntax/parser*.cpp\<close> with \<open>cst.h\<close>: the token buffer to a lossless concrete
    syntax tree, with errors and recovery, by recursive descent with lookahead;
  \<^item> the literal folder, \<open>src/src/compile/literal.cpp\<close>: exact arithmetic on the numeric literals of
    a program before they get a type;
  \<^item> the collections, \<open>src/src/core/rtdata/collection*\<close>: the persistent B+ trees behind \<open>Map\<close> and
    \<open>Set\<close>;
  \<^item> the index semantics, \<open>src/src/core/index_semantics.cpp\<close>: what an operator reads and writes at
    each point of its iteration domain, which the passes and back ends rely on.

  \<^bold>\<open>Theories.\<close> \<open>Prelude\<close> holds the machine integer ranges and the list and word lemmas shared by all.

  \<^emph>\<open>Lexer.\<close> \<open>Lexer_Token\<close> models \<open>token.h\<close>, \<open>token_kinds.def\<close>, the character classes and the open
  addressing table of the keywords; \<open>Lexer_Scan\<close> the scanning loops and the three mutually recursive
  routines that find the end of a string or of a \<open>${...}\<close>; \<open>Lexer_Step\<close> one definition per branch of
  the switch in \<open>tokenizeImpl\<close>, on the record \<open>LexState\<close> of its local variables and vectors.
  \<open>Lexer_Move\<close> is the abstract step relation (\<open>lexMove\<close>: pass white space, emit a token, emit a comment,
  refuse text) and \<open>Lexer_Refine\<close> shows that every branch is such a move. \<open>Forward_Loop\<close> is the interface
  of a loop that reads a range from left to right, with invariants and progress proved in its locale;
  \<open>Lexer_Loop\<close> interprets it for the lexer, models the entry points, and shows that they satisfy the
  recursion of the source into interpolations. \<open>Lexer_Inv\<close> proves the invariant of the loop on the
  moves, \<open>Lexer_Lexeme\<close> gives the lexical grammar as executable recognisers and proves that the branches
  meet it, \<open>Lexer_Interpolation\<close> places the interpolations, \<open>Lexer_Buffer\<close> models the operations of
  \<open>TokenBuffer\<close>. \<open>Lexer_Properties\<close> states the results; \<open>Lexer_Literals\<close> joins the lexer to the literal
  folder: integer tokens have values.

  \<^emph>\<open>Parser.\<close> \<open>Parser_Tree\<close> models \<open>cst.h\<close> and \<open>node_kinds.def\<close>: node kinds, errors, the arrays of the tree and
  the accessors of nodes. \<open>Parser_State\<close> models the members and helpers of \<open>ParserImpl\<close> on the record \<open>PState\<close>:
  the token cursor, \<open>close\<close>, errors, the layout scopes; \<open>Parser_Look\<close> the lookaheads and \<open>recover\<close>;
  \<open>Parser_Names\<close>, \<open>Parser_Type\<close>, \<open>Parser_Expr\<close> and \<open>Parser_Decl\<close> the productions, one definition per member
  function with its loops and branches named. The C++ functions call each other; here a production
  gets the eight entry points that close the cycles (\<open>Entry\<close>: \<open>parseExpr\<close>, \<open>parseLogicalOr\<close>, \<open>parsePower\<close>,
  \<open>parseNeg\<close>, \<open>parseType\<close>, \<open>parseBlockExpr\<close>, \<open>parseStmt\<close>, \<open>parseDecl\<close>) as an argument, and \<open>parserRun\<close> ties them.
  \<open>Parser_Grow\<close> says what a production can do to the state (\<open>grows\<close>); \<open>Parser_Wp\<close> is a calculus for total
  correctness of the productions, used in \<open>Parser_Spec_Names\<close>, \<open>Parser_Spec_Type\<close>, \<open>Parser_Spec_Expr\<close> and
  \<open>Parser_Spec_Decl\<close>, where the locale \<open>parser_rec\<close> is what a production relies on when it recurses and
  is interpreted on \<open>parserRun\<close>. \<open>Parser_Forest\<close> reads the arrays as trees and proves the invariants of
  the arrays on \<open>grows\<close>; \<open>Parser_Properties\<close> states the results: parsing returns, the tree is lossless
  and well formed, nodes span what they hold, errors have a place, recovery is exact.

  \<^emph>\<open>Literal folder.\<close> \<open>Literal_BigInt\<close> models \<open>BigInt\<close> with its 32-bit limbs: construction, comparison,
  schoolbook addition, subtraction, multiplication, division, gcd, powers, reading and printing.
  \<open>Literal_Value\<close> models \<open>Rational\<close>, \<open>Value\<close> and the readers of integer, real and imaginary literals,
  exact decimal text, the folding operations and the integer targets. \<open>Literal_Properties\<close> shows that
  folding is exact, that it is refused only where the code says so, and that the exact decimal text
  reads back.

  \<^emph>\<open>Collections.\<close> \<open>Ordered_Entries\<close> is the specification: sorted association lists and their updates.
  \<open>Collection_Keys\<close> models slots and \<open>compareKeys\<close>; \<open>Collection_Tree\<close> the tables (leaves and branches),
  the shape configuration, search and tree building; \<open>Collection_Ops\<close> the operations, cursors and loops
  of \<open>collection_ops.cpp\<close>. \<open>Collection_Inv\<close>, \<open>Collection_Update\<close>, \<open>Collection_Build\<close>,
  \<open>Collection_Cursor\<close>, \<open>Collection_Binary\<close>, \<open>Collection_Query\<close>, \<open>Collection_Array\<close> and
  \<open>Collection_Validate\<close> prove, part by part, that the tree invariant is kept and that the entries are
  those of the specification. The locales are the interfaces: \<open>cursor\<close> for what a loop needs of a
  cursor, \<open>positions\<close> for sorting by position, \<open>updatable_map\<close> for the map contract; all are
  interpreted on the model's own definitions. Operations return \<open>None\<close> where the process stops
  (a failed assertion or a slot that must not be read).

  \<^emph>\<open>Index semantics.\<close> \<open>Index_Outcome\<close> is the monad of the component: a value, \<open>std::invalid_argument\<close>,
  \<open>std::overflow_error\<close>, an index the code does not check (\<open>OutOfRange\<close>), or not returning (\<open>None\<close>).
  \<open>Index_Expr\<close> models \<open>ExprPool\<close>: interning, the simplifying builders, \<open>evaluate\<close>, \<open>mentionsDim\<close>,
  \<open>affine\<close>. \<open>Index_Denote\<close> gives expressions their mathematical meaning (\<open>denotes\<close>, on unbounded
  integers) and states the normal form all pools keep; \<open>Index_Builders\<close> and \<open>Index_Eval\<close> relate the code
  to it. \<open>Index_Instance\<close> models instances, \<open>validate\<close>, \<open>rowMajorView\<close>, reduction laws and
  \<open>instantiate\<close>; \<open>Index_Validate\<close> and \<open>Index_View\<close> prove what validation and views promise.
  \<open>Index_Rewrite\<close> models the \<open>Rewriter\<close> and \<open>splitDims\<close>; there the locale \<open>pool_builder\<close> is what the
  rewriter needs of a builder, interpreted for all four binary builders. \<open>Index_Split\<close> and
  \<open>Index_Points\<close> show that a split instance mirrors the old one. \<open>Index_Text\<close> models the text forms with
  a grammar to read them. \<open>Index_Properties\<close> states the results for pools that any sequence of builder
  calls makes (\<open>built\<close>).

  \<^bold>\<open>Correspondence.\<close> A struct is a record with its fields in order, an enum a datatype, a member function
  a function of the object that returns the changed object. \<open>int64_t\<close> arithmetic that the code checks is
  on \<open>int\<close> with the range test written out; 32-bit limbs, slots and permission masks are words. A vector
  is a list, a hash table a map. Error messages are constructors with the values the message names. The
  operator table and the operators' instantiation functions, which \<open>instantiate\<close> calls, are arguments.
  The order in which C++ evaluates the two operands of a call is unspecified; the model takes the left
  one first, which only decides the numbers of new expressions and, in \<open>evaluate\<close>, which exception is
  seen when both operands throw. Child words of a tree under construction are a datatype (\<open>Child\<close>), whose
  32-bit encoding is \<open>childWord\<close>. Counters that the source keeps as \<open>int\<close> and that are bounded by the length
  of the text (the nesting in \<open>scanInterpolation\<close> and \<open>recover\<close>) are \<open>nat\<close>. A table's children are never null
  in the model, so \<open>check\<close> has no case for it.

  \<^bold>\<open>Loops and bounds.\<close> The lexer's loop and scanners are total: each turn moves forward
  (\<open>lex_reaches_end\<close>); \<open>scanInterpolation\<close>, \<open>skipQuoted\<close> and \<open>skipFString\<close> call each other and continue where
  a call ended, and their termination uses that the end lies ahead (\<open>skip_progress\<close>). The probes of the
  keyword table run over at most 256 slots, and never need more (\<open>keyword_table_correct\<close>). Token offsets
  are 32 bits: the theorems ask for sources shorter than \<open>2^32\<close> bytes. The loops of the parser are
  \<open>whileO\<close>, which is \<open>None\<close> where a loop does not end, and its recursion has fuel, one more than the number of
  tokens: a production calls an entry point only behind the token it started at, so the depth is at most
  that (\<open>parserRun_works\<close>), and \<open>parse_total\<close> shows that the fuel is never used up and every loop ends. Recursions that follow the data are \<open>fun\<close> or \<open>function\<close> with a measure. Recursions
  over expression ids, whose termination is a property of the pool, are \<open>partial_function (option)\<close>: that
  they return is proved (\<open>evaluate_correct\<close>, \<open>validate_sound\<close>, \<open>row_major_correct\<close>, \<open>split_correct\<close>,
  \<open>to_string_total\<close>), from the invariant that an expression refers only to earlier ones. Ids are 32 bits:
  a builder needs room for five more expressions (\<open>hasRoom\<close>); a split needs room for twelve expressions
  per dim and two per old expression (\<open>splitRoom\<close>), which the normal form makes enough. The height of a
  tree is at most 32 (\<open>cursor_correct\<close>), so a cursor's fixed path is long enough; sizes of collections
  are bounded by what a \<open>size_t\<close> can hold.

  \<^bold>\<open>Limits the theorems show.\<close> \<open>validate_sound\<close> is about the expressions validation looks at; the index
  coordinates of a scatter are not among them (\<open>scatter_unchecked\<close>), so \<open>split_correct\<close> and \<open>to_string_total\<close>
  assume them valid (\<open>scatterOk\<close>). \<open>split_drops_checks\<close>: a split instance has no operand checks.
  \<open>checkLaw_bf16\<close>: the check of float laws does not know bf16 and f16. \<open>dead_key_stops\<close>: one 64-bit integer
  cannot be looked up. \<open>doc_above_runs\<close>: an ordinary comment in front of documentation comments drops
  them. \<open>fold_pow_zero_base_integer\<close>: a float zero raised to a power folds to an integer.
  \<open>leading_zero_octal\<close>: the folder reads a leading zero as an octal prefix. The tree is lossless, and nodes
  are unbroken, in \<open>plain\<close> buffers: no \<open>{\<close> directly before the end of the text, and not both the keyword
  \<open>with\<close> and the word \<open>fact\<close>; otherwise the end of the text can be taken for a token
  (\<open>static_for_takes_end\<close>) and then is a leaf more than once, which \<open>parse_lossless\<close> says exactly.

  \<^bold>\<open>Not modelled.\<close> In the literal folder, the conversions through machine floating point and the rounded
  texts of diagnostics; in the collections, cloning, printing and the traversals for the collector, which
  copy or trace the same leaves; in the index semantics, the hash function; of the parser's directory,
  the dump of a tree and the wording of diagnostics (\<open>dump.cpp\<close>, \<open>report.cpp\<close>). The abstract
  syntax tree, the compiler, types, the runtime graph, the passes and the extension modules are not
  modelled; memory management, execution, input and output, profiling and the command line are
  raw memory, effects of the operating system or machine floating point.
\<close>

end
